(* ===== verification/Cpp_Prelude.thy ===== *)
theory Cpp_Prelude
  imports Main "HOL-Library.Multiset" "HOL-Library.Monad_Syntax"
begin

text \<open>
  The part of C++ that the components share. An expression whose evaluation is undefined
  in C++ (an index outside a \<^verbatim>\<open>std::vector\<close>, a null pointer that is
  dereferenced, a signed overflow) has the value \<^term>\<open>None\<close>; everything else is
  \<^term>\<open>Some\<close>. A theorem that a routine returns \<^term>\<open>Some\<close> therefore says that
  the routine never runs into undefined behaviour. The theory holds checked accesses to
  vectors, the range of \<^verbatim>\<open>int\<close>, and the list lemmas the components share.
\<close>

type_synonym 'a ub = "'a option"

named_theorems vec_simps \<open>checked vector accesses that are in range\<close>


section \<open>Checked vector accesses\<close>

definition vget :: "'a list \<Rightarrow> nat \<Rightarrow> 'a ub" where
  "vget xs i = (if i < length xs then Some (xs ! i) else None)"

definition vset :: "'a list \<Rightarrow> nat \<Rightarrow> 'a \<Rightarrow> 'a list ub" where
  "vset xs i v = (if i < length xs then Some (xs[i := v]) else None)"

definition vswap :: "'a list \<Rightarrow> nat \<Rightarrow> nat \<Rightarrow> 'a list ub" where
  "vswap xs i j = (if i < length xs \<and> j < length xs then Some (xs[i := xs ! j, j := xs ! i]) else None)"

lemma vget_in [vec_simps]: "i < length xs \<Longrightarrow> vget xs i = Some (xs ! i)"
  by (simp add: vget_def)

lemma vset_in [vec_simps]: "i < length xs \<Longrightarrow> vset xs i v = Some (xs[i := v])"
  by (simp add: vset_def)

lemma vswap_in [vec_simps]:
  "i < length xs \<Longrightarrow> j < length xs \<Longrightarrow> vswap xs i j = Some (xs[i := xs ! j, j := xs ! i])"
  by (simp add: vswap_def)

lemma vget_eq_Some: "vget xs i = Some v \<longleftrightarrow> i < length xs \<and> v = xs ! i"
  by (auto simp: vget_def)

lemma vset_eq_Some: "vset xs i v = Some ys \<longleftrightarrow> i < length xs \<and> ys = xs[i := v]"
  by (auto simp: vset_def)

lemma vswap_eq_Some:
  "vswap xs i j = Some ys \<longleftrightarrow> i < length xs \<and> j < length xs \<and> ys = xs[i := xs ! j, j := xs ! i]"
  by (auto simp: vswap_def)

lemma mset_swap_list:
  "i < length xs \<Longrightarrow> j < length xs \<Longrightarrow> mset (xs[i := xs ! j, j := xs ! i]) = mset xs"
  by (cases "i = j") (auto simp: mset_swap)

lemma set_swap_list:
  "i < length xs \<Longrightarrow> j < length xs \<Longrightarrow> set (xs[i := xs ! j, j := xs ! i]) = set xs"
  by (metis mset_swap_list set_mset_mset)

lemma nth_swap_list:
  assumes "i < length xs" "j < length xs" "k < length xs"
  shows "xs[i := xs ! j, j := xs ! i] ! k = (if k = j then xs ! i else if k = i then xs ! j else xs ! k)"
  using assms by (auto simp: nth_list_update)


section \<open>The range of int\<close>

abbreviation INT_MIN :: int where "INT_MIN \<equiv> -2147483648"
abbreviation INT_MAX :: int where "INT_MAX \<equiv> 2147483647"

definition in_int :: "int \<Rightarrow> bool" where
  "in_int x \<longleftrightarrow> INT_MIN \<le> x \<and> x \<le> INT_MAX"

text \<open>A value of a signed 32-bit expression: undefined when the exact result does not fit.\<close>

definition as_int :: "int \<Rightarrow> int ub" where
  "as_int x = (if in_int x then Some x else None)"

lemma as_int_in [simp]: "in_int x \<Longrightarrow> as_int x = Some x"
  by (simp add: as_int_def)

lemma as_int_out [simp]: "\<not> in_int x \<Longrightarrow> as_int x = None"
  by (simp add: as_int_def)

lemma in_int_between: "in_int x \<Longrightarrow> in_int z \<Longrightarrow> x \<le> y \<Longrightarrow> y \<le> z \<Longrightarrow> in_int y"
  by (simp add: in_int_def)


text \<open>Division of C++ rounds towards zero, and the remainder has the sign of the dividend.\<close>

definition tquot :: "int \<Rightarrow> int \<Rightarrow> int" where
  "tquot a b = (if (a < 0) = (b < 0) then \<bar>a\<bar> div \<bar>b\<bar> else - (\<bar>a\<bar> div \<bar>b\<bar>))"

definition trem :: "int \<Rightarrow> int \<Rightarrow> int" where
  "trem a b = (if a < 0 then - (\<bar>a\<bar> mod \<bar>b\<bar>) else \<bar>a\<bar> mod \<bar>b\<bar>)"

lemma tquot_nonneg [simp]: "0 \<le> a \<Longrightarrow> 0 \<le> b \<Longrightarrow> tquot a b = a div b"
  by (simp add: tquot_def)

lemma trem_nonneg [simp]: "0 \<le> a \<Longrightarrow> 0 \<le> b \<Longrightarrow> trem a b = a mod b"
  by (simp add: trem_def)

lemma tquot_trem: "b * tquot a b + trem a b = a"
proof -
  define q m where "q = \<bar>a\<bar> div \<bar>b\<bar>" and "m = \<bar>a\<bar> mod \<bar>b\<bar>"
  have d: "\<bar>b\<bar> * q + m = \<bar>a\<bar>" unfolding q_def m_def by simp
  consider "0 \<le> a" "0 \<le> b" | "0 \<le> a" "b < 0" | "a < 0" "0 \<le> b" | "a < 0" "b < 0" by linarith
  then show ?thesis
    unfolding tquot_def trem_def q_def [symmetric] m_def [symmetric]
    by cases (use d in simp_all)
qed

lemma abs_trem_less: "b \<noteq> 0 \<Longrightarrow> \<bar>trem a b\<bar> < \<bar>b\<bar>"
  by (simp add: trem_def)

lemma tquot_half_between: "l \<le> h \<Longrightarrow> l \<le> tquot (l + h) 2 \<and> tquot (l + h) 2 \<le> h"
  by (auto simp: tquot_def)


text \<open>The zero that ends a C string.\<close>

abbreviation NUL :: char where "NUL \<equiv> CHR 0x00"

section \<open>Options\<close>

lemma bind_eq_Some: "Option.bind x f = Some y \<longleftrightarrow> (\<exists>a. x = Some a \<and> f a = Some y)"
  by (cases x) auto


section \<open>Sortedness by neighbours and by ranges\<close>

lemma sorted_iff_neighbours:
  "sorted (xs :: 'a::linorder list) \<longleftrightarrow> (\<forall>i. Suc i < length xs \<longrightarrow> xs ! i \<le> xs ! Suc i)"
  by (simp add: sorted_iff_nth_Suc)

definition sorted_upto :: "nat \<Rightarrow> 'a::linorder list \<Rightarrow> bool" where
  "sorted_upto n xs \<longleftrightarrow> (\<forall>i j. i \<le> j \<longrightarrow> j < n \<longrightarrow> xs ! i \<le> xs ! j)"

lemma sorted_upto_length: "sorted_upto (length xs) xs = sorted xs"
  by (auto simp: sorted_upto_def sorted_iff_nth_mono)

lemma sorted_upto_0 [simp]: "sorted_upto 0 xs"
  by (simp add: sorted_upto_def)

lemma sorted_upto_1 [simp]: "sorted_upto (Suc 0) xs"
  by (auto simp: sorted_upto_def)

lemma sorted_uptoD: "sorted_upto n xs \<Longrightarrow> i \<le> j \<Longrightarrow> j < n \<Longrightarrow> xs ! i \<le> xs ! j"
  by (auto simp: sorted_upto_def)

lemma insort_between:
  "\<forall>x \<in> set xs. x \<le> k \<Longrightarrow> \<forall>y \<in> set ys. k < y \<Longrightarrow> sorted (xs @ ys) \<Longrightarrow> insort k (xs @ ys) = xs @ k # ys"
  for k :: "'a::linorder"
proof (induction xs)
  case Nil
  then show ?case by (cases ys) auto
next
  case (Cons x xs)
  then show ?case
    by (cases "x = k") (auto simp: insort_is_Cons sorted_append)
qed

lemma remove1_sorted_mid:
  fixes xs ys :: "'a::linorder list"
  assumes "sorted (xs @ k # ys)"
  shows "remove1 k (xs @ k # ys) = xs @ ys"
proof -
  have "mset (remove1 k (xs @ k # ys)) = mset (xs @ ys)"
    by simp
  moreover have "sorted (remove1 k (xs @ k # ys))" "sorted (xs @ ys)"
    using assms by (auto simp: sorted_append intro: sorted_remove1)
  ultimately show ?thesis
    using properties_for_sort by metis
qed

lemma sorted_last_Max: "sorted xs \<Longrightarrow> xs \<noteq> [] \<Longrightarrow> last xs = Max (set xs)"
  for xs :: "'a::linorder list"
proof (induction xs rule: rev_induct)
  case (snoc x xs)
  then show ?case by (auto simp: sorted_append intro!: Max_eqI [symmetric])
qed simp

lemma sort_append_le:
  fixes us vs :: "'a::linorder list"
  assumes "\<forall>u \<in> set us. \<forall>v \<in> set vs. u \<le> v"
  shows "sort (us @ vs) = sort us @ sort vs"
  using assms by (intro properties_for_sort) (auto simp: sorted_append)

lemma mset_sorted_list_of_set: "mset (sorted_list_of_set A) = mset_set A"
  by (simp flip: sorted_list_of_mset_set)


section \<open>Signed indices and inclusive ranges\<close>

text \<open>
  Many routines compute indices of type \<^verbatim>\<open>int\<close>. A negative index is converted to a
  huge \<^verbatim>\<open>size_t\<close> and is out of range of every vector.
\<close>

definition iget :: "'a list \<Rightarrow> int \<Rightarrow> 'a ub" where
  "iget xs i = (if 0 \<le> i \<and> i < int (length xs) then Some (xs ! nat i) else None)"

definition iset :: "'a list \<Rightarrow> int \<Rightarrow> 'a \<Rightarrow> 'a list ub" where
  "iset xs i v = (if 0 \<le> i \<and> i < int (length xs) then Some (xs[nat i := v]) else None)"

definition iswap :: "'a list \<Rightarrow> int \<Rightarrow> int \<Rightarrow> 'a list ub" where
  "iswap xs i j = (if 0 \<le> i \<and> i < int (length xs) \<and> 0 \<le> j \<and> j < int (length xs)
     then Some (xs[nat i := xs ! nat j, nat j := xs ! nat i]) else None)"

lemma iget_in [vec_simps]: "0 \<le> i \<Longrightarrow> i < int (length xs) \<Longrightarrow> iget xs i = Some (xs ! nat i)"
  by (simp add: iget_def)

lemma iset_in [vec_simps]: "0 \<le> i \<Longrightarrow> i < int (length xs) \<Longrightarrow> iset xs i v = Some (xs[nat i := v])"
  by (simp add: iset_def)

lemma iswap_in [vec_simps]: "0 \<le> i \<Longrightarrow> i < int (length xs) \<Longrightarrow> 0 \<le> j \<Longrightarrow> j < int (length xs) \<Longrightarrow>
    iswap xs i j = Some (xs[nat i := xs ! nat j, nat j := xs ! nat i])"
  by (simp add: iswap_def)

text \<open>The elements at the positions \<open>l\<close> to \<open>r\<close>, both included.\<close>

definition slice :: "'a list \<Rightarrow> int \<Rightarrow> int \<Rightarrow> 'a list" where
  "slice xs l r = map (\<lambda>k. xs ! nat k) [l..r]"

lemma slice_empty [simp]: "r < l \<Longrightarrow> slice xs l r = []"
  by (simp add: slice_def)

lemma slice_Cons: "l \<le> r \<Longrightarrow> slice xs l r = xs ! nat l # slice xs (l + 1) r"
  by (simp add: slice_def upto_rec1)

lemma slice_snoc: "l \<le> r \<Longrightarrow> slice xs l r = slice xs l (r - 1) @ [xs ! nat r]"
  by (simp add: slice_def upto_rec2)

lemma slice_append: "l \<le> m + 1 \<Longrightarrow> m \<le> r \<Longrightarrow> slice xs l r = slice xs l m @ slice xs (m + 1) r"
proof -
  assume "l \<le> m + 1" "m \<le> r"
  then have "[l..r] = [l..m] @ [m + 1..r]"
    by (cases "l = m + 1") (simp_all add: upto_split2)
  then show ?thesis by (simp add: slice_def)
qed

lemma length_slice [simp]: "length (slice xs l r) = nat (r - l + 1)"
  by (simp add: slice_def)

lemma nth_slice: "l + int k \<le> r \<Longrightarrow> slice xs l r ! k = xs ! nat (l + int k)"
  by (simp add: slice_def) (metis nth_upto add.commute)

lemma set_slice: "set (slice xs l r) = {xs ! nat k | k. l \<le> k \<and> k \<le> r}"
  by (auto simp: slice_def)

lemma slice_decompose:
  assumes "0 \<le> l" "l \<le> r + 1" "r < int (length xs)"
  shows "xs = take (nat l) xs @ slice xs l r @ drop (nat (r + 1)) xs"
proof (rule nth_equalityI)
  show "length xs = length (take (nat l) xs @ slice xs l r @ drop (nat (r + 1)) xs)"
    using assms by simp
  fix i assume "i < length xs"
  then show "xs ! i = (take (nat l) xs @ slice xs l r @ drop (nat (r + 1)) xs) ! i"
    using assms by (auto simp: nth_append nth_slice algebra_simps nat_diff_distrib)
qed

lemma slice_whole: "slice xs 0 (int (length xs) - 1) = xs"
  using slice_decompose [of 0 "int (length xs) - 1" xs] by simp

lemma slice_cong: "(\<And>k. l \<le> k \<Longrightarrow> k \<le> r \<Longrightarrow> ys ! nat k = xs ! nat k) \<Longrightarrow> slice ys l r = slice xs l r"
  by (simp add: slice_def)

text \<open>A routine that works on a range permutes the range and leaves the rest alone.\<close>

definition range_perm :: "int \<Rightarrow> int \<Rightarrow> 'a list \<Rightarrow> 'a list \<Rightarrow> bool" where
  "range_perm l r xs ys \<longleftrightarrow> length ys = length xs \<and> mset ys = mset xs \<and>
     (\<forall>k. 0 \<le> k \<and> k < int (length xs) \<and> \<not> (l \<le> k \<and> k \<le> r) \<longrightarrow> ys ! nat k = xs ! nat k)"

lemma range_perm_refl [simp]: "range_perm l r xs xs"
  by (simp add: range_perm_def)

lemma range_perm_trans: "range_perm l r xs ys \<Longrightarrow> range_perm l r ys zs \<Longrightarrow> range_perm l r xs zs"
  by (simp add: range_perm_def)

lemma range_perm_mono: "range_perm l r xs ys \<Longrightarrow> l' \<le> l \<Longrightarrow> r \<le> r' \<Longrightarrow> range_perm l' r' xs ys"
  by (auto simp: range_perm_def)

lemma range_perm_length: "range_perm l r xs ys \<Longrightarrow> length ys = length xs"
  by (simp add: range_perm_def)

lemma range_perm_mset: "range_perm l r xs ys \<Longrightarrow> mset ys = mset xs"
  by (simp add: range_perm_def)

lemma range_perm_outside:
  "range_perm l r xs ys \<Longrightarrow> 0 \<le> k \<Longrightarrow> k < int (length xs) \<Longrightarrow> k < l \<or> r < k \<Longrightarrow> ys ! nat k = xs ! nat k"
  by (auto simp: range_perm_def)

lemma range_perm_slice_outside:
  "range_perm l r xs ys \<Longrightarrow> 0 \<le> a \<Longrightarrow> b < int (length xs) \<Longrightarrow> b < l \<or> r < a \<Longrightarrow> slice ys a b = slice xs a b"
  by (rule slice_cong) (auto simp: range_perm_def)

lemma range_perm_swap:
  assumes "l \<le> i" "i \<le> r" "l \<le> j" "j \<le> r" "0 \<le> l" "r < int (length xs)"
  shows "range_perm l r xs (xs[nat i := xs ! nat j, nat j := xs ! nat i])"
proof -
  have i: "nat i < length xs" and j: "nat j < length xs" using assms by linarith+
  show ?thesis
    using assms mset_swap_list [OF i j] by (auto simp: range_perm_def nat_eq_iff nth_list_update)
qed

lemma range_perm_slice:
  assumes p: "range_perm l r xs ys" and b: "0 \<le> l" "l \<le> r + 1" "r < int (length xs)"
  shows "mset (slice ys l r) = mset (slice xs l r)"
proof -
  have len: "length ys = length xs" using p by (simp add: range_perm_def)
  have same: "ys ! k = xs ! k" if "k < length xs" "int k < l \<or> r < int k" for k
    using range_perm_outside [OF p, of "int k"] that by simp
  have "take (nat l) ys = take (nat l) xs"
    using b len by (intro nth_equalityI) (auto intro!: same)
  moreover have "drop (nat (r + 1)) ys = drop (nat (r + 1)) xs"
    using b len by (intro nth_equalityI) (auto intro!: same)
  moreover have "mset xs = mset (take (nat l) xs) + mset (slice xs l r) + mset (drop (nat (r + 1)) xs)"
    using slice_decompose [OF b] by (metis add.assoc mset_append)
  moreover have "mset ys = mset (take (nat l) ys) + mset (slice ys l r) + mset (drop (nat (r + 1)) ys)"
    using slice_decompose [of l r ys] b len by (metis add.assoc mset_append)
  moreover have "mset ys = mset xs" using p by (simp add: range_perm_def)
  ultimately show ?thesis by simp
qed

lemma range_perm_set_slice:
  "range_perm l r xs ys \<Longrightarrow> 0 \<le> l \<Longrightarrow> l \<le> r + 1 \<Longrightarrow> r < int (length xs) \<Longrightarrow> set (slice ys l r) = set (slice xs l r)"
  using range_perm_slice by (metis set_mset_mset)

end
