(* ===== verification/Tree_Zipper.thy ===== *)
theory Tree_Zipper
  imports Cpp_Prelude "HOL-Library.Tree"
begin

text \<open>
  Binary trees of heap nodes and pointers into them. The nodes of the search trees of the
  repository are owned by exactly one parent, so a tree of nodes is a value of
  \<^typ>\<open>'a tree\<close> with the node's fields as its payload, and a pointer to a node together
  with its chain of parent pointers is a location: the subtree below the pointer and the
  list of frames from the node's parent up to the root. Following \<^verbatim>\<open>parent\<close> drops
  a frame; \<open>plug\<close> follows all of them and gives the tree whose root the code calls
  \<^verbatim>\<open>root\<close>.
\<close>

datatype 'a frame =
    LeftOf 'a "'a tree"    \<comment> \<open>the location is the left child; payload and right child of the parent\<close>
  | RightOf "'a tree" 'a   \<comment> \<open>the location is the right child; left child and payload of the parent\<close>

type_synonym 'a path = "'a frame list"
type_synonym 'a loc = "'a tree \<times> 'a path"

fun fill :: "'a frame \<Rightarrow> 'a tree \<Rightarrow> 'a tree" where
  "fill (LeftOf a r) t = Node t a r"
| "fill (RightOf l a) t = Node l a t"

fun plug :: "'a tree \<Rightarrow> 'a path \<Rightarrow> 'a tree" where
  "plug t [] = t"
| "plug t (f # p) = plug (fill f t) p"

fun sibling :: "'a frame \<Rightarrow> 'a tree" where
  "sibling (LeftOf a r) = r"
| "sibling (RightOf l a) = l"

fun payload :: "'a frame \<Rightarrow> 'a" where
  "payload (LeftOf a r) = a"
| "payload (RightOf l a) = a"

text \<open>The in-order sequence to the left and to the right of a location.\<close>

fun before :: "'a path \<Rightarrow> 'a list" where
  "before [] = []"
| "before (LeftOf a r # p) = before p"
| "before (RightOf l a # p) = before p @ inorder l @ [a]"

fun after :: "'a path \<Rightarrow> 'a list" where
  "after [] = []"
| "after (LeftOf a r # p) = a # inorder r @ after p"
| "after (RightOf l a # p) = after p"

lemma inorder_plug: "inorder (plug t p) = before p @ inorder t @ after p"
  by (induction p arbitrary: t rule: before.induct) auto

lemma plug_append: "plug t (p @ q) = plug (plug t p) q"
  by (induction p arbitrary: t) auto

lemma before_append: "before (p @ q) = before q @ before p"
  by (induction p rule: before.induct) auto

lemma after_append: "after (p @ q) = after p @ after q"
  by (induction p rule: after.induct) auto

lemma plug_eq_Leaf: "plug t p = Leaf \<longleftrightarrow> t = Leaf \<and> p = []"
  by (induction p arbitrary: t rule: before.induct) auto

end
