(* ===== verification/Ordered_Trees.thy ===== *)
theory Ordered_Trees
  imports Cpp_Prelude
begin

text \<open>
  The contract the search trees of \<^verbatim>\<open>cpp/tree\<close> share, as locales. A tree is
  observed through the list of its keys from left to right; \<open>ins\<close> says what an insertion
  does to that list (the red-black tree keeps duplicates, the others do not). Insertion and
  removal are partial, since the code may dereference null; the contract says that they
  never do on a well-formed tree. The clients' facts about whole runs of operations are
  proved here once and reach each tree by interpretation.
\<close>

text \<open>Insertion into a strictly sorted list, the specification for trees without duplicates.\<close>

fun ins_set :: "int \<Rightarrow> int list \<Rightarrow> int list" where
  "ins_set k [] = [k]"
| "ins_set k (x # xs) = (if k < x then k # x # xs else if k = x then x # xs else x # ins_set k xs)"

abbreviation strict_sorted :: "int list \<Rightarrow> bool" where
  "strict_sorted \<equiv> sorted_wrt (<)"

lemma set_ins_set: "set (ins_set k xs) = insert k (set xs)"
  by (induction xs) auto

lemma strict_sorted_ins_set: "strict_sorted xs \<Longrightarrow> strict_sorted (ins_set k xs)"
  by (induction xs) (auto simp: set_ins_set)

lemma ins_set_left: "strict_sorted (xs @ a # ys) \<Longrightarrow> k < a \<Longrightarrow> ins_set k (xs @ a # ys) = ins_set k xs @ a # ys"
  by (induction xs) (auto simp: sorted_wrt_append)

lemma ins_set_right: "strict_sorted (xs @ a # ys) \<Longrightarrow> a < k \<Longrightarrow> ins_set k (xs @ a # ys) = xs @ a # ins_set k ys"
  by (induction xs) (auto simp: sorted_wrt_append)

lemma ins_set_mem: "strict_sorted xs \<Longrightarrow> k \<in> set xs \<Longrightarrow> ins_set k xs = xs"
  by (induction xs) auto

lemma remove1_left: "strict_sorted (xs @ a # ys) \<Longrightarrow> k < a \<Longrightarrow> remove1 k (xs @ a # ys) = remove1 k xs @ a # ys"
  for k :: int
  by (induction xs) (auto simp: sorted_wrt_append intro!: remove1_idem)

lemma remove1_right: "strict_sorted (xs @ a # ys) \<Longrightarrow> a < k \<Longrightarrow> remove1 k (xs @ a # ys) = xs @ a # remove1 k ys"
  for k :: int
  by (induction xs) (auto simp: sorted_wrt_append)

lemma strict_sorted_remove1: "strict_sorted xs \<Longrightarrow> strict_sorted (remove1 k xs)"
  by (induction xs) (auto dest: notin_set_remove1)

lemma remove1_mid:
  "strict_sorted (xs @ k # ys) \<Longrightarrow> remove1 k (xs @ k # ys) = xs @ ys" for k :: int
  by (induction xs) auto

section \<open>A run of operations\<close>

datatype tree_op = Insert int | Remove int

fun run_ops :: "(int \<Rightarrow> 't \<Rightarrow> 't ub) \<Rightarrow> (int \<Rightarrow> 't \<Rightarrow> 't ub) \<Rightarrow> tree_op list \<Rightarrow> 't \<Rightarrow> 't ub" where
  "run_ops ins_op rem_op [] t = Some t"
| "run_ops ins_op rem_op (Insert k # ops) t = ins_op k t \<bind> run_ops ins_op rem_op ops"
| "run_ops ins_op rem_op (Remove k # ops) t = rem_op k t \<bind> run_ops ins_op rem_op ops"

fun run_spec :: "(int \<Rightarrow> int list \<Rightarrow> int list) \<Rightarrow> tree_op list \<Rightarrow> int list \<Rightarrow> int list" where
  "run_spec ins [] ks = ks"
| "run_spec ins (Insert k # ops) ks = run_spec ins ops (ins k ks)"
| "run_spec ins (Remove k # ops) ks = run_spec ins ops (remove1 k ks)"

section \<open>Trees with insertion and search\<close>

locale search_tree =
  fixes empty :: 't
    and insert :: "int \<Rightarrow> 't \<Rightarrow> 't ub"
    and member :: "int \<Rightarrow> 't \<Rightarrow> bool"
    and keys_of :: "'t \<Rightarrow> int list"
    and ins :: "int \<Rightarrow> int list \<Rightarrow> int list"
    and wf :: "'t \<Rightarrow> bool"
  assumes wf_empty: "wf empty"
    and keys_empty: "keys_of empty = []"
    and wf_sorted: "wf t \<Longrightarrow> sorted (keys_of t)"
    and set_ins: "set (ins k ks) = Set.insert k (set ks)"
    and insert_ok: "wf t \<Longrightarrow> \<exists>t'. insert k t = Some t' \<and> wf t' \<and> keys_of t' = ins k (keys_of t)"
    and member_ok: "wf t \<Longrightarrow> member k t \<longleftrightarrow> k \<in> set (keys_of t)"
begin

lemma insert_then_member:
  "wf t \<Longrightarrow> insert k t = Some t' \<Longrightarrow> member j t' \<longleftrightarrow> j = k \<or> member j t"
  using insert_ok [of t k] by (auto simp: member_ok set_ins)

lemma build_ok:
  "wf t \<Longrightarrow> \<exists>t'. run_ops insert rm (map Insert ks) t = Some t' \<and> wf t' \<and>
     set (keys_of t') = set ks \<union> set (keys_of t)"
proof (induction ks arbitrary: t)
  case (Cons k ks)
  obtain u where u: "insert k t = Some u" "wf u" "keys_of u = ins k (keys_of t)"
    using insert_ok [OF Cons.prems] by blast
  then show ?case
    using Cons.IH [of u] by (auto simp: set_ins)
qed simp

end

section \<open>Trees with removal\<close>

locale search_tree_remove = search_tree empty insert member keys_of ins wf
  for empty :: 't
    and insert :: "int \<Rightarrow> 't \<Rightarrow> 't ub"
    and member :: "int \<Rightarrow> 't \<Rightarrow> bool"
    and keys_of :: "'t \<Rightarrow> int list"
    and ins :: "int \<Rightarrow> int list \<Rightarrow> int list"
    and wf :: "'t \<Rightarrow> bool" +
  fixes remove :: "int \<Rightarrow> 't \<Rightarrow> 't ub"
  assumes remove_ok: "wf t \<Longrightarrow> \<exists>t'. remove k t = Some t' \<and> wf t' \<and> keys_of t' = remove1 k (keys_of t)"
begin

lemma run_ok:
  "wf t \<Longrightarrow> \<exists>t'. run_ops insert remove ops t = Some t' \<and> wf t' \<and>
     keys_of t' = run_spec ins ops (keys_of t)"
proof (induction ops arbitrary: t)
  case (Cons op ops)
  show ?case
  proof (cases op)
    case (Insert k)
    obtain u where "insert k t = Some u" "wf u" "keys_of u = ins k (keys_of t)"
      using insert_ok [OF Cons.prems] by blast
    then show ?thesis using Cons.IH [of u] Insert by simp
  next
    case (Remove k)
    obtain u where "remove k t = Some u" "wf u" "keys_of u = remove1 k (keys_of t)"
      using remove_ok [OF Cons.prems] by blast
    then show ?thesis using Cons.IH [of u] Remove by simp
  qed
qed simp

lemma run_from_empty:
  "\<exists>t'. run_ops insert remove ops empty = Some t' \<and> wf t' \<and> sorted (keys_of t') \<and>
     keys_of t' = run_spec ins ops []"
  using run_ok [OF wf_empty, of ops] keys_empty wf_sorted by auto

lemma remove_then_member:
  "wf t \<Longrightarrow> remove k t = Some t' \<Longrightarrow> j \<noteq> k \<Longrightarrow> member j t' \<longleftrightarrow> member j t"
  using remove_ok [of t k] by (auto simp: member_ok)

end

end
