(* ===== verification/RbTree.thy ===== *)
theory RbTree
  imports Tree_Zipper Ordered_Trees
begin

text \<open>
  The red-black tree of \<^verbatim>\<open>cpp/tree/rbTree.cpp\<close>. A node's payload is its colour
  and its key; a pointer into the tree is a location of \<open>Tree_Zipper\<close>, so the
  \<^verbatim>\<open>parent\<close> pointers the fix-up loops follow are the frames of the location and
  \<^verbatim>\<open>root\<close> is what \<open>plug\<close> rebuilds. A null pointer that the code would
  dereference makes the operation \<^term>\<open>None\<close>. The theorems show that \<open>insert\<close> and
  \<open>remove\<close> never do so on a red-black tree, keep the colour and black-height invariants
  and the order, and insert or delete exactly one occurrence of the key.
\<close>

section \<open>Data and pointer operations\<close>

datatype RBTColor = RED | BLACK

type_synonym rb_node = "RBTColor \<times> int"
type_synonym rbt = "rb_node tree"
type_synonym rb_path = "rb_node path"

text \<open>\<open>is_red t\<close> is \<^verbatim>\<open>t && rb_is_red(t)\<close>; its negation is \<^verbatim>\<open>!t || rb_is_black(t)\<close>.\<close>

fun is_red :: "rbt \<Rightarrow> bool" where
  "is_red Leaf = False"
| "is_red (Node l a r) = (fst a = RED)"

fun rb_set_color :: "RBTColor \<Rightarrow> rbt \<Rightarrow> rbt" where
  "rb_set_color c Leaf = Leaf"
| "rb_set_color c (Node l a r) = Node l (c, snd a) r"

fun leftRotate :: "rbt \<Rightarrow> rbt ub" where
  "leftRotate (Node lx x (Node ly y ry)) = Some (Node (Node lx x ly) y ry)"
| "leftRotate _ = None"

fun rightRotate :: "rbt \<Rightarrow> rbt ub" where
  "rightRotate (Node (Node lx x rx) y ry) = Some (Node lx x (Node rx y ry))"
| "rightRotate _ = None"

section \<open>Traversals and queries\<close>

definition rb_new :: rbt where
  "rb_new = Leaf"

fun preOrder :: "rbt \<Rightarrow> int list" where
  "preOrder Leaf = []"
| "preOrder (Node l (c, k) r) = k # preOrder l @ preOrder r"

fun inOrder :: "rbt \<Rightarrow> int list" where
  "inOrder Leaf = []"
| "inOrder (Node l (c, k) r) = inOrder l @ k # inOrder r"

fun postOrder :: "rbt \<Rightarrow> int list" where
  "postOrder Leaf = []"
| "postOrder (Node l (c, k) r) = postOrder l @ postOrder r @ [k]"

fun search :: "rbt \<Rightarrow> int \<Rightarrow> rbt" where
  "search Leaf key = Leaf"
| "search (Node l (c, k) r) key =
     (if k = key then Node l (c, k) r else if key < k then search l key else search r key)"

text \<open>The loop of \<^verbatim>\<open>iterativeSearch\<close>: one step per turn, until the guard fails.\<close>

function iterativeSearch :: "rbt \<Rightarrow> int \<Rightarrow> rbt" where
  "iterativeSearch x key =
     (if x \<noteq> Leaf \<and> snd (value x) \<noteq> key
      then iterativeSearch (if key < snd (value x) then left x else right x) key
      else x)"
  by pat_completeness auto
termination
  by (relation "measure (\<lambda>(x, key). size x)") (auto simp: neq_Leaf_iff)

declare iterativeSearch.simps [simp del]

text \<open>The public \<^verbatim>\<open>search(int)\<close> and \<^verbatim>\<open>iterativeSearch(int)\<close> drop the result: no \<^verbatim>\<open>return\<close>.\<close>

definition search_public :: "rbt \<Rightarrow> int \<Rightarrow> rbt ub" where
  "search_public mRoot key = (let _ = search mRoot key in None)"

definition iterativeSearch_public :: "rbt \<Rightarrow> int \<Rightarrow> rbt ub" where
  "iterativeSearch_public mRoot key = (let _ = iterativeSearch mRoot key in None)"

fun minimum :: "rbt \<Rightarrow> rbt" where
  "minimum Leaf = Leaf"
| "minimum (Node l a r) = (if l \<noteq> Leaf then minimum l else Node l a r)"

fun maximum :: "rbt \<Rightarrow> rbt" where
  "maximum Leaf = Leaf"
| "maximum (Node l a r) = (if r \<noteq> Leaf then maximum r else Node l a r)"

text \<open>\<^verbatim>\<open>(int) NULL\<close> is 0.\<close>

definition minimum_key :: "rbt \<Rightarrow> int" where
  "minimum_key root = (case minimum root of Leaf \<Rightarrow> 0 | Node l (c, k) r \<Rightarrow> k)"

definition maximum_key :: "rbt \<Rightarrow> int" where
  "maximum_key root = (case maximum root of Leaf \<Rightarrow> 0 | Node l (c, k) r \<Rightarrow> k)"

text \<open>The pointer \<^verbatim>\<open>minimum\<close> (\<^verbatim>\<open>maximum\<close>) returns, with its parent chain.\<close>

fun minimum_at :: "rbt \<Rightarrow> rb_path \<Rightarrow> rb_node loc" where
  "minimum_at (Node (Node ll b lr) a r) p = minimum_at (Node ll b lr) (LeftOf a r # p)"
| "minimum_at t p = (t, p)"

fun maximum_at :: "rbt \<Rightarrow> rb_path \<Rightarrow> rb_node loc" where
  "maximum_at (Node l a (Node rl b rr)) p = maximum_at (Node rl b rr) (RightOf l a # p)"
| "maximum_at t p = (t, p)"

text \<open>The climbing loops: \<^verbatim>\<open>while (y != NULL && x == y->right)\<close> and its mirror image.\<close>

fun climb_right :: "rbt \<Rightarrow> rb_path \<Rightarrow> rb_node loc option" where
  "climb_right x [] = None"
| "climb_right x (RightOf l a # p) = climb_right (Node l a x) p"
| "climb_right x (LeftOf a r # p) = Some (Node x a r, p)"

fun climb_left :: "rbt \<Rightarrow> rb_path \<Rightarrow> rb_node loc option" where
  "climb_left x [] = None"
| "climb_left x (LeftOf a r # p) = climb_left (Node x a r) p"
| "climb_left x (RightOf l a # p) = Some (Node l a x, p)"

text \<open>Outer \<^term>\<open>None\<close>: \<^verbatim>\<open>x\<close> is null; inner \<^term>\<open>None\<close>: the result is null.\<close>

fun successor :: "rb_node loc \<Rightarrow> rb_node loc option ub" where
  "successor (Leaf, p) = None"
| "successor (Node l a r, p) =
     Some (if r \<noteq> Leaf then Some (minimum_at r (RightOf l a # p)) else climb_right (Node l a r) p)"

fun predecessor :: "rb_node loc \<Rightarrow> rb_node loc option ub" where
  "predecessor (Leaf, p) = None"
| "predecessor (Node l a r, p) =
     Some (if l \<noteq> Leaf then Some (maximum_at l (LeftOf a r # p)) else climb_left (Node l a r) p)"

section \<open>Insertion\<close>

text \<open>What one turn of a fix-up loop does: go on from another location, or leave the loop.\<close>

datatype fix_step = Continue rbt rb_path | Break rbt

text \<open>
  One turn of the loop of \<^verbatim>\<open>insertFixUp\<close>; the guard has found a red parent.
  Case 1 recolours and moves to the grandparent; otherwise case 2 rotates the parent if
  \<^verbatim>\<open>node\<close> is on the inner side (the code then swaps \<^verbatim>\<open>node\<close> and
  \<^verbatim>\<open>parent\<close>) and case 3 rotates the grandparent. The loop goes on from
  \<^verbatim>\<open>node\<close>, whose parent is now black.
\<close>

fun insertFixUp_step :: "rbt \<Rightarrow> rb_path \<Rightarrow> fix_step ub" where
  "insertFixUp_step node (fp # LeftOf g uncle # up) =
     (if is_red uncle
      then Some (Continue (Node (rb_set_color BLACK (fill fp node)) (RED, snd g) (rb_set_color BLACK uncle)) up)
      else do {
        parent \<leftarrow> (case fp of RightOf l a \<Rightarrow> leftRotate (fill fp node) | LeftOf a r \<Rightarrow> Some (fill fp node));
        gparent \<leftarrow> rightRotate (Node (rb_set_color BLACK parent) (RED, snd g) uncle);
        Some (Continue (left gparent) (LeftOf (value gparent) (right gparent) # up))
      })"
| "insertFixUp_step node (fp # RightOf uncle g # up) =
     (if is_red uncle
      then Some (Continue (Node (rb_set_color BLACK uncle) (RED, snd g) (rb_set_color BLACK (fill fp node))) up)
      else do {
        parent \<leftarrow> (case fp of LeftOf a r \<Rightarrow> rightRotate (fill fp node) | RightOf l a \<Rightarrow> Some (fill fp node));
        gparent \<leftarrow> leftRotate (Node uncle (RED, snd g) (rb_set_color BLACK parent));
        Some (Continue (right gparent) (RightOf (left gparent) (value gparent) # up))
      })"
| "insertFixUp_step node _ = None"

lemma insertFixUp_step_shorter:
  "insertFixUp_step node path = Some (Continue node' path') \<Longrightarrow> length path' < length path"
  by (induction node path rule: insertFixUp_step.induct) (auto simp: bind_eq_Some split: if_splits)

text \<open>
  The loop of \<^verbatim>\<open>insertFixUp\<close>, \<^verbatim>\<open>while ((parent = rb_parent(node)) && rb_is_red(parent))\<close>,
  and the final \<^verbatim>\<open>rb_set_black(root)\<close>.
\<close>

function insertFixUp :: "rbt \<Rightarrow> rb_path \<Rightarrow> rbt ub" where
  "insertFixUp node path =
     (if path \<noteq> [] \<and> fst (payload (hd path)) = RED
      then do {
        s \<leftarrow> insertFixUp_step node path;
        case s of Continue node' path' \<Rightarrow> insertFixUp node' path' | Break root \<Rightarrow> Some root
      }
      else Some (rb_set_color BLACK (plug node path)))"
  by pat_completeness auto
termination
  by (relation "measure (\<lambda>(node, path). length path)") (auto dest: insertFixUp_step_shorter)

declare insertFixUp.simps [simp del]

text \<open>The descent of \<^verbatim>\<open>insert\<close>: the chain above the null pointer where the node goes.\<close>

fun insert_descend :: "int \<Rightarrow> rbt \<Rightarrow> rb_path \<Rightarrow> rb_path" where
  "insert_descend key Leaf p = p"
| "insert_descend key (Node l (c, k) r) p =
     (if key < k then insert_descend key l (LeftOf (c, k) r # p)
      else insert_descend key r (RightOf l (c, k) # p))"

definition rb_insert :: "int \<Rightarrow> rbt \<Rightarrow> rbt ub" where
  "rb_insert key root = insertFixUp (Node Leaf (RED, key) Leaf) (insert_descend key root [])"

section \<open>Removal\<close>

text \<open>
  One turn of the loop of \<^verbatim>\<open>removeFixUp\<close>, after the guard has found a black or
  null \<^verbatim>\<open>node\<close> below a parent. Case 1 turns a red sibling into a black one and
  lengthens the chain by the rotated sibling; \<open>removeFixUp_left\<close> is the rest of the turn
  for a left child, with the parent's payload, the sibling and the chain above the parent.
\<close>

fun removeFixUp_left :: "rbt \<Rightarrow> rb_node \<Rightarrow> rbt \<Rightarrow> rb_path \<Rightarrow> fix_step ub" where
  "removeFixUp_left node parent Leaf up = None"
| "removeFixUp_left node parent (Node ol ok orr) up =
     (if \<not> is_red ol \<and> \<not> is_red orr
      then Some (Continue (Node node parent (Node ol (RED, snd ok) orr)) up)
      else do {
        other \<leftarrow> (if \<not> is_red orr then rightRotate (Node (rb_set_color BLACK ol) (RED, snd ok) orr)
                  else Some (Node ol ok orr));
        root \<leftarrow> (if right other = Leaf then None
                 else leftRotate (Node node (BLACK, snd parent)
                   (Node (left other) (fst parent, snd (value other)) (rb_set_color BLACK (right other)))));
        Some (Break (rb_set_color BLACK (plug root up)))
      })"

fun removeFixUp_right :: "rbt \<Rightarrow> rb_node \<Rightarrow> rbt \<Rightarrow> rb_path \<Rightarrow> fix_step ub" where
  "removeFixUp_right node parent Leaf up = None"
| "removeFixUp_right node parent (Node ol ok orr) up =
     (if \<not> is_red ol \<and> \<not> is_red orr
      then Some (Continue (Node (Node ol (RED, snd ok) orr) parent node) up)
      else do {
        other \<leftarrow> (if \<not> is_red ol then leftRotate (Node ol (RED, snd ok) (rb_set_color BLACK orr))
                  else Some (Node ol ok orr));
        root \<leftarrow> (if left other = Leaf then None
                 else rightRotate (Node (Node (rb_set_color BLACK (left other))
                   (fst parent, snd (value other)) (right other)) (BLACK, snd parent) node));
        Some (Break (rb_set_color BLACK (plug root up)))
      })"

text \<open>
  A null sibling is dereferenced by \<^verbatim>\<open>rb_is_red(other)\<close> on either side, so the
  comparison \<^verbatim>\<open>parent->left == node\<close> decides the side the location is on in every
  run that goes on.
\<close>

fun removeFixUp_step :: "rbt \<Rightarrow> rb_path \<Rightarrow> fix_step ub" where
  "removeFixUp_step node (LeftOf parent other # up) =
     (case other of
        Leaf \<Rightarrow> None
      | Node ol ok orr \<Rightarrow>
          if is_red other
          then removeFixUp_left node (RED, snd parent) ol (LeftOf (BLACK, snd ok) orr # up)
          else removeFixUp_left node parent other up)"
| "removeFixUp_step node (RightOf other parent # up) =
     (case other of
        Leaf \<Rightarrow> None
      | Node ol ok orr \<Rightarrow>
          if is_red other
          then removeFixUp_right node (RED, snd parent) orr (RightOf ol (BLACK, snd ok) # up)
          else removeFixUp_right node parent other up)"
| "removeFixUp_step node [] = None"

lemma removeFixUp_left_Continue:
  "removeFixUp_left node parent other up = Some (Continue node' path') \<Longrightarrow>
    path' = up \<and> is_red node' = (fst parent = RED)"
  by (cases "(node, parent, other, up)" rule: removeFixUp_left.cases)
    (auto simp: bind_eq_Some split: if_splits)

lemma removeFixUp_right_Continue:
  "removeFixUp_right node parent other up = Some (Continue node' path') \<Longrightarrow>
    path' = up \<and> is_red node' = (fst parent = RED)"
  by (cases "(node, parent, other, up)" rule: removeFixUp_right.cases)
    (auto simp: bind_eq_Some split: if_splits)

abbreviation removeFixUp_measure :: "rbt \<times> rb_path \<Rightarrow> nat" where
  "removeFixUp_measure \<equiv> \<lambda>(node, path). 2 * length path + (if is_red node then 0 else 1)"

lemma removeFixUp_step_smaller:
  "removeFixUp_step node path = Some (Continue node' path') \<Longrightarrow> \<not> is_red node \<Longrightarrow>
    removeFixUp_measure (node', path') < removeFixUp_measure (node, path)"
  by (induction node path rule: removeFixUp_step.induct)
    (auto split: tree.splits if_splits dest!: removeFixUp_left_Continue removeFixUp_right_Continue
      simp del: removeFixUp_left.simps removeFixUp_right.simps)

function removeFixUp :: "rbt \<Rightarrow> rb_path \<Rightarrow> rbt ub" where
  "removeFixUp node path =
     (if \<not> is_red node \<and> path \<noteq> []
      then do {
        s \<leftarrow> removeFixUp_step node path;
        case s of Continue node' path' \<Rightarrow> removeFixUp node' path' | Break root \<Rightarrow> Some root
      }
      else Some (plug (rb_set_color BLACK node) path))"
  by pat_completeness auto
termination
  by (relation "measure removeFixUp_measure") (auto dest!: removeFixUp_step_smaller)

declare removeFixUp.simps [simp del]

text \<open>The loop \<^verbatim>\<open>while (replace->left != NULL)\<close>: the frames passed and the node it stops at.\<close>

fun replace_loc :: "rbt \<Rightarrow> rb_path \<Rightarrow> rb_node loc" where
  "replace_loc (Node (Node ll b lr) a r) p = replace_loc (Node ll b lr) (LeftOf a r # p)"
| "replace_loc t p = (t, p)"

text \<open>
  \<^verbatim>\<open>remove(root, node)\<close>. With two children the successor \<^verbatim>\<open>replace\<close> is
  unlinked and takes the node's place, colour and children: its key is put into the frame
  through which its right child hangs. When \<^verbatim>\<open>replace\<close> is the node's own right
  child the chain below the node is empty, which is the code's
  \<^verbatim>\<open>parent == node\<close> case.
\<close>

fun remove_node :: "rb_node loc \<Rightarrow> rbt ub" where
  "remove_node (Leaf, path) = None"
| "remove_node (Node l (c, k) r, path) =
     (if l \<noteq> Leaf \<and> r \<noteq> Leaf
      then (case replace_loc r [] of
          (Leaf, inner) \<Rightarrow> None
        | (Node rl (rc, rk) child, inner) \<Rightarrow>
            let chain = inner @ RightOf l (c, rk) # path
            in if rc = BLACK then removeFixUp child chain else Some (plug child chain))
      else (let child = (if l \<noteq> Leaf then l else r)
            in if c = BLACK then removeFixUp child path else Some (plug child path)))"

text \<open>\<^verbatim>\<open>search(mRoot, key)\<close> as the call in \<^verbatim>\<open>remove\<close> sees it: with the parent chain.\<close>

fun search_at :: "rbt \<Rightarrow> rb_path \<Rightarrow> int \<Rightarrow> rb_node loc" where
  "search_at Leaf p key = (Leaf, p)"
| "search_at (Node l (c, k) r) p key =
     (if k = key then (Node l (c, k) r, p)
      else if key < k then search_at l (LeftOf (c, k) r # p) key
      else search_at r (RightOf l (c, k) # p) key)"

definition rb_remove :: "int \<Rightarrow> rbt \<Rightarrow> rbt ub" where
  "rb_remove key root =
     (case search_at root [] key of
        (Leaf, p) \<Rightarrow> Some root
      | (Node l a r, p) \<Rightarrow> remove_node (Node l a r, p))"

section \<open>Destruction and printing\<close>

text \<open>
  \<^verbatim>\<open>destroy(tree)\<close>: the nodes that are still allocated when it returns. Each
  \<^verbatim>\<open>return destroy(...)\<close> leaves before the node itself is deleted.
\<close>

fun destroy :: "rbt \<Rightarrow> rbt" where
  "destroy Leaf = Leaf"
| "destroy (Node l a r) =
     (if l \<noteq> Leaf then Node (destroy l) a r
      else if r \<noteq> Leaf then Node l a (destroy r)
      else Leaf)"

text \<open>A line of \<^verbatim>\<open>print\<close>: the key, the colour shown, and the parent's key with the side.\<close>

datatype print_line = Root_line int | Child_line int RBTColor int bool

fun print_tree :: "rbt \<Rightarrow> int \<Rightarrow> int \<Rightarrow> print_line list" where
  "print_tree Leaf key direction = []"
| "print_tree (Node l (c, k) r) key direction =
     (if direction = 0 then Root_line k else Child_line k c key (direction = 1))
     # print_tree l k (-1) @ print_tree r k 1"

definition print_root :: "rbt \<Rightarrow> print_line list" where
  "print_root root = (case root of Leaf \<Rightarrow> [] | Node l (c, k) r \<Rightarrow> print_tree root k 0)"


section \<open>Invariants\<close>

abbreviation keys :: "rbt \<Rightarrow> int list" where
  "keys t \<equiv> map snd (inorder t)"

fun bheight :: "rbt \<Rightarrow> nat" where
  "bheight Leaf = 0"
| "bheight (Node l a r) = bheight l + (if fst a = BLACK then 1 else 0)"

fun invh :: "rbt \<Rightarrow> bool" where
  "invh Leaf = True"
| "invh (Node l a r) = (bheight l = bheight r \<and> invh l \<and> invh r)"

fun invc :: "rbt \<Rightarrow> bool" where
  "invc Leaf = True"
| "invc (Node l a r) = ((fst a = RED \<longrightarrow> \<not> is_red l \<and> \<not> is_red r) \<and> invc l \<and> invc r)"

definition rb_inv :: "rbt \<Rightarrow> bool" where
  "rb_inv t \<longleftrightarrow> invc t \<and> invh t \<and> \<not> is_red t"

text \<open>The same for a chain of frames: what it asks of the subtree that is plugged in.\<close>

fun path_h :: "rb_path \<Rightarrow> nat \<Rightarrow> bool" where
  "path_h [] n = True"
| "path_h (f # p) n =
     (invh (sibling f) \<and> bheight (sibling f) = n \<and>
      path_h p (n + (if fst (payload f) = BLACK then 1 else 0)))"

fun path_c :: "rb_path \<Rightarrow> bool \<Rightarrow> bool" where
  "path_c [] red = True"
| "path_c (f # p) red =
     (invc (sibling f) \<and> (fst (payload f) = RED \<longrightarrow> \<not> red \<and> \<not> is_red (sibling f)) \<and>
      path_c p (fst (payload f) = RED))"

definition root_black :: "rb_path \<Rightarrow> bool" where
  "root_black p \<longleftrightarrow> (p \<noteq> [] \<longrightarrow> fst (payload (last p)) = BLACK)"

lemma not_BLACK [simp]: "c \<noteq> BLACK \<longleftrightarrow> c = RED"
  by (cases c) auto

lemma not_RED [simp]: "c \<noteq> RED \<longleftrightarrow> c = BLACK"
  by (cases c) auto

lemma plug_invh: "invh t \<Longrightarrow> path_h p (bheight t) \<Longrightarrow> invh (plug t p)"
proof (induction p arbitrary: t)
  case (Cons f p)
  then show ?case by (cases f) (auto split: if_splits)
qed simp

lemma plug_invc: "invc t \<Longrightarrow> path_c p (is_red t) \<Longrightarrow> invc (plug t p)"
proof (induction p arbitrary: t)
  case (Cons f p)
  then show ?case by (cases f) auto
qed simp

lemma path_c_False: "path_c p red \<Longrightarrow> path_c p False"
  by (cases p) auto

lemma rb_inv_blacken: "invc t \<Longrightarrow> invh t \<Longrightarrow> rb_inv (rb_set_color BLACK t)"
  by (cases t) (auto simp: rb_inv_def)

lemma keys_set_color [simp]: "keys (rb_set_color c t) = keys t"
  by (cases t) auto

lemma keys_plug: "keys (plug t p) = map snd (before p) @ keys t @ map snd (after p)"
  by (simp add: inorder_plug)

lemma root_black_Cons: "p \<noteq> [] \<Longrightarrow> root_black (f # p) = root_black p"
  by (simp add: root_black_def)

lemma root_black_hd: "root_black (f # p) \<Longrightarrow> fst (payload f) = RED \<Longrightarrow> p \<noteq> []"
  by (auto simp: root_black_def)

text \<open>A location in a red-black tree: the subtree and the chain above it fit together.\<close>

definition loc_inv :: "rbt \<Rightarrow> rb_path \<Rightarrow> bool" where
  "loc_inv t p \<longleftrightarrow> invc t \<and> invh t \<and> path_h p (bheight t) \<and> path_c p (is_red t) \<and>
     root_black p \<and> (p = [] \<longrightarrow> \<not> is_red t)"

lemma loc_inv_root: "rb_inv t \<Longrightarrow> loc_inv t []"
  by (auto simp: rb_inv_def loc_inv_def root_black_def)

lemma loc_inv_left: "loc_inv (Node l a r) p \<Longrightarrow> loc_inv l (LeftOf a r # p)"
  by (auto simp: loc_inv_def root_black_def split: if_splits)

lemma loc_inv_right: "loc_inv (Node l a r) p \<Longrightarrow> loc_inv r (RightOf l a # p)"
  by (auto simp: loc_inv_def root_black_def split: if_splits)

lemma root_black_plug: "root_black p \<Longrightarrow> (p = [] \<Longrightarrow> \<not> is_red t) \<Longrightarrow> \<not> is_red (plug t p)"
proof (induction p arbitrary: t)
  case (Cons f p)
  have "\<not> is_red (fill f t)" if "p = []"
    using Cons.prems that by (cases f) (auto simp: root_black_def)
  moreover have "root_black p"
    using Cons.prems by (cases p) (auto simp: root_black_def)
  ultimately show ?case
    using Cons.IH by simp
qed simp

lemma loc_inv_plug: "loc_inv t p \<Longrightarrow> rb_inv (plug t p)"
  by (simp add: loc_inv_def rb_inv_def plug_invh plug_invc root_black_plug)

section \<open>Insertion keeps the invariants\<close>

definition insert_J :: "rbt \<Rightarrow> rb_path \<Rightarrow> bool" where
  "insert_J node path \<longleftrightarrow> is_red node \<and> invc node \<and> invh node \<and>
     path_h path (bheight node) \<and> path_c path False \<and> root_black path"

lemma insertFixUp_step_J:
  assumes J: "insert_J node path" and red: "path \<noteq> []" "fst (payload (hd path)) = RED"
  shows "\<exists>node' path'. insertFixUp_step node path = Some (Continue node' path') \<and>
    insert_J node' path' \<and> keys (plug node' path') = keys (plug node path)"
proof -
  obtain fp fg up where path: "path = fp # fg # up"
    using J red by (auto simp: insert_J_def neq_Nil_conv dest!: root_black_hd)
  obtain nl a nr where node: "node = Node nl a nr"
    using J by (cases node) (auto simp: insert_J_def)
  show ?thesis
    using J red unfolding path node
    by (cases fg; cases fp; cases "is_red (sibling fg)"; cases "sibling fg")
      (auto simp: insert_J_def keys_plug root_black_def split: if_splits)
qed

lemma insertFixUp_correct:
  "insert_J node path \<Longrightarrow>
    \<exists>t. insertFixUp node path = Some t \<and> rb_inv t \<and> keys t = keys (plug node path)"
proof (induction node path rule: insertFixUp.induct)
  case (1 node path)
  show ?case
  proof (cases "path \<noteq> [] \<and> fst (payload (hd path)) = RED")
    case True
    then obtain node' path' where s: "insertFixUp_step node path = Some (Continue node' path')"
      "insert_J node' path'" "keys (plug node' path') = keys (plug node path)"
      using insertFixUp_step_J [OF "1.prems"] by blast
    then show ?thesis
      using "1.IH" [OF True s(1) refl s(2)] True by (simp add: insertFixUp.simps [of node path])
  next
    case False
    then have "path_c path (is_red node)"
      using "1.prems" by (cases path) (auto simp: insert_J_def)
    then have "invc (plug node path)" "invh (plug node path)"
      using "1.prems" by (auto simp: insert_J_def plug_invc plug_invh)
    then show ?thesis
      using False by (auto simp: insertFixUp.simps [of node path] rb_inv_blacken)
  qed
qed

lemma insert_descend_loc: "loc_inv t p \<Longrightarrow> loc_inv Leaf (insert_descend key t p)"
  by (induction key t p rule: insert_descend.induct) (auto dest: loc_inv_left loc_inv_right)

lemma insert_descend_plug: "plug Leaf (insert_descend key t p) = plug t p"
  by (induction key t p rule: insert_descend.induct) auto

lemma insert_descend_before:
  "sorted (keys t) \<Longrightarrow> \<forall>x \<in> set (before p). snd x \<le> key \<Longrightarrow> x \<in> set (before (insert_descend key t p)) \<Longrightarrow>
    snd x \<le> key"
  by (induction key t p rule: insert_descend.induct)
    (fastforce simp: sorted_append split: if_splits)+

lemma insert_descend_after:
  "sorted (keys t) \<Longrightarrow> \<forall>x \<in> set (after p). key < snd x \<Longrightarrow> x \<in> set (after (insert_descend key t p)) \<Longrightarrow>
    key < snd x"
  by (induction key t p rule: insert_descend.induct)
    (fastforce simp: sorted_append split: if_splits)+

lemma insert_descend_keys:
  assumes "sorted (keys t)"
  shows "keys (plug (Node Leaf (c, key) Leaf) (insert_descend key t [])) = insort key (keys t)"
proof -
  let ?p = "insert_descend key t []"
  have split: "keys t = map snd (before ?p) @ map snd (after ?p)"
    using insert_descend_plug [of key t "[]"] keys_plug [of Leaf ?p] by simp
  have "insort key (map snd (before ?p) @ map snd (after ?p)) = map snd (before ?p) @ key # map snd (after ?p)"
  proof (rule insort_between)
    show "\<forall>x \<in> set (map snd (before ?p)). x \<le> key"
      using insert_descend_before [OF assms, of "[]"] by auto
    show "\<forall>y \<in> set (map snd (after ?p)). key < y"
      using insert_descend_after [OF assms, of "[]"] by auto
    show "sorted (map snd (before ?p) @ map snd (after ?p))"
      using assms split by simp
  qed
  then show ?thesis
    by (simp add: keys_plug split)
qed

lemma rb_insert_correct:
  assumes "rb_inv t" "sorted (keys t)"
  shows "\<exists>t'. rb_insert key t = Some t' \<and> rb_inv t' \<and> keys t' = insort key (keys t)"
proof -
  have "loc_inv Leaf (insert_descend key t [])"
    using assms(1) by (intro insert_descend_loc loc_inv_root)
  then have "insert_J (Node Leaf (RED, key) Leaf) (insert_descend key t [])"
    by (auto simp: insert_J_def loc_inv_def)
  from insertFixUp_correct [OF this] show ?thesis
    by (simp add: rb_insert_def insert_descend_keys [OF assms(2)])
qed

section \<open>Removal keeps the invariants\<close>

definition remove_J :: "rbt \<Rightarrow> rb_path \<Rightarrow> bool" where
  "remove_J node path \<longleftrightarrow> invc (rb_set_color BLACK node) \<and> invh node \<and>
     path_h path (Suc (bheight node)) \<and> path_c path False \<and> root_black path"

text \<open>What a turn of the removal loop achieves.\<close>

definition remove_turn :: "fix_step ub \<Rightarrow> int list \<Rightarrow> bool" where
  "remove_turn s ks \<longleftrightarrow>
     (case s of
        None \<Rightarrow> False
      | Some (Continue node path) \<Rightarrow> remove_J node path \<and> keys (plug node path) = ks
      | Some (Break t) \<Rightarrow> rb_inv t \<and> keys t = ks)"

lemma bheight_pos: "\<not> is_red t \<Longrightarrow> bheight t = Suc n \<Longrightarrow> \<exists>l a r. t = Node l a r \<and> fst a = BLACK"
  by (cases t) auto

lemma invc_blacken_black: "\<not> is_red t \<Longrightarrow> invc (rb_set_color BLACK t) = invc t"
  by (cases t) auto

lemma removeFixUp_left_J:
  assumes J: "remove_J node (LeftOf parent other # up)" and b: "\<not> is_red node" "\<not> is_red other"
  shows "remove_turn (removeFixUp_left node parent other up) (keys (plug node (LeftOf parent other # up)))"
proof -
  obtain ol ok orr where other: "other = Node ol ok orr" "fst ok = BLACK"
    using J b bheight_pos [of other] by (auto simp: remove_J_def)
  show ?thesis
  proof (cases "is_red ol \<or> is_red orr")
    case False
    then show ?thesis
      using J b other
      by (auto simp: remove_J_def remove_turn_def keys_plug root_black_def invc_blacken_black
        split: if_splits dest: path_c_False)
  next
    case True
    then show ?thesis
      using J b other
      by (cases ol; cases orr)
        (auto simp: remove_J_def remove_turn_def keys_plug invc_blacken_black
          intro!: rb_inv_blacken plug_invc plug_invh split: if_splits)
  qed
qed

lemma removeFixUp_right_J:
  assumes J: "remove_J node (RightOf other parent # up)" and b: "\<not> is_red node" "\<not> is_red other"
  shows "remove_turn (removeFixUp_right node parent other up) (keys (plug node (RightOf other parent # up)))"
proof -
  obtain ol ok orr where other: "other = Node ol ok orr" "fst ok = BLACK"
    using J b bheight_pos [of other] by (auto simp: remove_J_def)
  show ?thesis
  proof (cases "is_red ol \<or> is_red orr")
    case False
    then show ?thesis
      using J b other
      by (auto simp: remove_J_def remove_turn_def keys_plug root_black_def invc_blacken_black
        split: if_splits dest: path_c_False)
  next
    case True
    then show ?thesis
      using J b other
      by (cases ol; cases orr)
        (auto simp: remove_J_def remove_turn_def keys_plug invc_blacken_black
          intro!: rb_inv_blacken plug_invc plug_invh split: if_splits)
  qed
qed

lemma removeFixUp_step_J:
  assumes J: "remove_J node path" and b: "\<not> is_red node" "path \<noteq> []"
  shows "remove_turn (removeFixUp_step node path) (keys (plug node path))"
proof (cases "(node, path)" rule: removeFixUp_step.cases)
  case (1 n parent other up)
  then obtain ol ok orr where other: "other = Node ol ok orr"
    using J by (cases other) (auto simp: remove_J_def)
  show ?thesis
  proof (cases "is_red other")
    case True
    then have "remove_J node (LeftOf (RED, snd parent) ol # LeftOf (BLACK, snd ok) orr # up)"
      and "\<not> is_red ol"
      using J b 1 other by (auto simp: remove_J_def root_black_def split: if_splits)
    from removeFixUp_left_J [OF this(1) b(1) this(2)] show ?thesis
      using 1 True other by (simp add: keys_plug)
  next
    case False
    then show ?thesis
      using removeFixUp_left_J [of node parent other up] J b 1 other False
      by (simp del: removeFixUp_left.simps)
  qed
next
  case (2 n other parent up)
  then obtain ol ok orr where other: "other = Node ol ok orr"
    using J by (cases other) (auto simp: remove_J_def)
  show ?thesis
  proof (cases "is_red other")
    case True
    then have "remove_J node (RightOf orr (RED, snd parent) # RightOf ol (BLACK, snd ok) # up)"
      and "\<not> is_red orr"
      using J b 2 other by (auto simp: remove_J_def root_black_def split: if_splits)
    from removeFixUp_right_J [OF this(1) b(1) this(2)] show ?thesis
      using 2 True other by (simp add: keys_plug)
  next
    case False
    then show ?thesis
      using removeFixUp_right_J [of node other parent up] J b 2 other False
      by (simp del: removeFixUp_right.simps)
  qed
next
  case (3 n)
  then show ?thesis using b by simp
qed

lemma removeFixUp_correct:
  "remove_J node path \<Longrightarrow>
    \<exists>t. removeFixUp node path = Some t \<and> rb_inv t \<and> keys t = keys (plug node path)"
proof (induction node path rule: removeFixUp.induct)
  case (1 node path)
  show ?case
  proof (cases "\<not> is_red node \<and> path \<noteq> []")
    case True
    then have turn: "remove_turn (removeFixUp_step node path) (keys (plug node path))"
      using removeFixUp_step_J [OF "1.prems"] by blast
    then obtain s where s: "removeFixUp_step node path = Some s"
      by (auto simp: remove_turn_def split: option.splits)
    show ?thesis
    proof (cases s)
      case (Continue node' path')
      then show ?thesis
        using turn s True "1.IH" [OF True s Continue]
        by (simp add: removeFixUp.simps [of node path] remove_turn_def)
    next
      case (Break t)
      then show ?thesis
        using turn s True by (simp add: removeFixUp.simps [of node path] remove_turn_def)
    qed
  next
    case False
    let ?t = "plug (rb_set_color BLACK node) path"
    have black: "\<not> is_red (rb_set_color BLACK node)"
      by (cases node) auto
    have "invh ?t"
    proof (cases "path = []")
      case True
      then show ?thesis using "1.prems" by (cases node) (auto simp: remove_J_def)
    next
      case non_empty: False
      then have "bheight (rb_set_color BLACK node) = Suc (bheight node)"
        using False by (cases node) auto
      then show ?thesis
        using "1.prems" by (intro plug_invh) (cases node; auto simp: remove_J_def)+
    qed
    moreover have "invc ?t"
      using "1.prems" black by (intro plug_invc) (auto simp: remove_J_def)
    moreover have "\<not> is_red ?t"
      using "1.prems" black by (intro root_black_plug) (auto simp: remove_J_def)
    ultimately show ?thesis
      using False by (auto simp: removeFixUp.simps [of node path] rb_inv_def keys_plug)
  qed
qed

lemma replace_loc_inv: "loc_inv t p \<Longrightarrow> replace_loc t p = (t', p') \<Longrightarrow> loc_inv t' p'"
  by (induction t p rule: replace_loc.induct) (auto dest: loc_inv_left)

lemma replace_loc_plug: "replace_loc t p = (t', p') \<Longrightarrow> plug t' p' = plug t p"
  by (induction t p rule: replace_loc.induct) auto

lemma replace_loc_before: "replace_loc t p = (t', p') \<Longrightarrow> before p' = before p"
  by (induction t p rule: replace_loc.induct) auto

lemma replace_loc_chain: "replace_loc t (p @ q) = (fst (replace_loc t p), snd (replace_loc t p) @ q)"
  by (induction t p rule: replace_loc.induct) auto

lemma replace_loc_Node:
  "t \<noteq> Leaf \<Longrightarrow> \<exists>c k child p'. replace_loc t p = (Node Leaf (c, k) child, p')"
  by (induction t p rule: replace_loc.induct) auto

lemma remove_at_correct:
  assumes "loc_inv (Node Leaf (c, k) child) p"
  shows "\<exists>t. (if c = BLACK then removeFixUp child p else Some (plug child p)) = Some t \<and>
    rb_inv t \<and> keys t = keys (plug child p)"
proof (cases c)
  case BLACK
  then have "remove_J child p"
    using assms by (cases child) (auto simp: loc_inv_def remove_J_def dest: path_c_False)
  then show ?thesis
    using BLACK removeFixUp_correct by simp
next
  case RED
  then have "loc_inv child p"
    using assms by (cases child) (auto simp: loc_inv_def dest: path_c_False)
  then show ?thesis
    using RED by (simp add: loc_inv_plug)
qed

text \<open>A node with one child: by the invariants the child is a red leaf below a black node.\<close>

lemma remove_one_child:
  assumes "loc_inv (Node l (c, k) Leaf) p"
  shows "\<exists>t. (if c = BLACK then removeFixUp l p else Some (plug l p)) = Some t \<and>
    rb_inv t \<and> keys t = keys (plug l p)"
proof (cases c)
  case BLACK
  then have "remove_J l p"
    using assms by (cases l) (auto simp: loc_inv_def remove_J_def dest: path_c_False split: if_splits)
  then show ?thesis
    using BLACK removeFixUp_correct by simp
next
  case RED
  then have "loc_inv l p"
    using assms by (cases l) (auto simp: loc_inv_def dest: path_c_False)
  then show ?thesis
    using RED by (simp add: loc_inv_plug)
qed

lemma remove_node_correct:
  assumes "loc_inv (Node l (c, k) r) p"
  shows "\<exists>t. remove_node (Node l (c, k) r, p) = Some t \<and> rb_inv t \<and>
    keys t = map snd (before p) @ keys l @ keys r @ map snd (after p)"
proof (cases "l \<noteq> Leaf \<and> r \<noteq> Leaf")
  case True
  then obtain rc rk child inner where rep: "replace_loc r [] = (Node Leaf (rc, rk) child, inner)"
    using replace_loc_Node [of r "[]"] by auto
  let ?chain = "inner @ RightOf l (c, rk) # p"
  have eq: "plug (Node Leaf (rc, rk) child) inner = r" "before inner = []"
    using replace_loc_plug [OF rep] replace_loc_before [OF rep] by simp_all
  have "loc_inv r (RightOf l (c, rk) # p)"
    using assms by (auto simp: loc_inv_def root_black_def split: if_splits)
  moreover have "replace_loc r (RightOf l (c, rk) # p) = (Node Leaf (rc, rk) child, ?chain)"
    using replace_loc_chain [of r "[]" "RightOf l (c, rk) # p"] rep by simp
  ultimately have "loc_inv (Node Leaf (rc, rk) child) ?chain"
    by (rule replace_loc_inv)
  then obtain t where t: "(if rc = BLACK then removeFixUp child ?chain else Some (plug child ?chain)) = Some t"
    "rb_inv t" "keys t = keys (plug child ?chain)"
    using remove_at_correct by blast
  have "keys r = rk # keys child @ map snd (after inner)"
    using eq keys_plug [of "Node Leaf (rc, rk) child" inner] by simp
  then have "keys t = map snd (before p) @ keys l @ keys r @ map snd (after p)"
    using t(3) eq(2) by (simp add: keys_plug before_append after_append)
  then show ?thesis
    using True rep t by (auto simp: Let_def)
next
  case False
  then show ?thesis
    using remove_one_child [of l c k p] remove_at_correct [of c k r p] assms
    by (cases "l = Leaf") (auto simp: keys_plug)
qed

lemma search_at_inv: "loc_inv t p \<Longrightarrow> search_at t p key = (t', p') \<Longrightarrow> loc_inv t' p'"
  by (induction t p key rule: search_at.induct) (auto dest: loc_inv_left loc_inv_right split: if_splits)

lemma search_at_plug: "search_at t p key = (t', p') \<Longrightarrow> plug t' p' = plug t p"
  by (induction t p key rule: search_at.induct) (auto split: if_splits)

lemma search_at_search: "fst (search_at t p key) = search t key"
  by (induction t p key rule: search_at.induct) auto

lemma search_key: "search t key = Node l (c, k) r \<Longrightarrow> k = key"
  by (induction t key rule: search.induct) (auto split: if_splits)

lemma search_Leaf_iff: "sorted (keys t) \<Longrightarrow> search t key = Leaf \<longleftrightarrow> key \<notin> set (keys t)"
  by (induction t key rule: search.induct) (force simp: sorted_append)+

lemma rb_remove_correct:
  assumes "rb_inv t" "sorted (keys t)"
  shows "\<exists>t'. rb_remove key t = Some t' \<and> rb_inv t' \<and> keys t' = remove1 key (keys t)"
proof -
  obtain t0 p where s: "search_at t [] key = (t0, p)"
    by (cases "search_at t [] key")
  have search: "search t key = t0"
    using search_at_search [of t "[]" key] s by simp
  have t: "plug t0 p = t"
    using search_at_plug [OF s] by simp
  show ?thesis
  proof (cases t0)
    case Leaf
    then have "key \<notin> set (keys t)"
      using search search_Leaf_iff [OF assms(2)] by simp
    then show ?thesis
      using s Leaf assms by (simp add: rb_remove_def remove1_idem)
  next
    case (Node l a r)
    obtain c where a: "a = (c, key)"
      using search Node search_key [of t key l "fst a" "snd a" r] by (cases a) auto
    have "loc_inv (Node l (c, key) r) p"
      using search_at_inv [OF loc_inv_root [OF assms(1)] s] Node a by simp
    from remove_node_correct [OF this] obtain t' where t': "remove_node (Node l a r, p) = Some t'" "rb_inv t'"
      "keys t' = map snd (before p) @ keys l @ keys r @ map snd (after p)"
      using a by auto
    have "keys t = (map snd (before p) @ keys l) @ key # (keys r @ map snd (after p))"
      using t Node a keys_plug [of t0 p] by simp
    then have "keys t' = remove1 key (keys t)"
      using t'(3) assms(2) remove1_sorted_mid [of "map snd (before p) @ keys l" key "keys r @ map snd (after p)"]
      by simp
    then show ?thesis
      using s Node t' by (simp add: rb_remove_def)
  qed
qed

section \<open>Traversals, search, extrema and neighbours\<close>

lemma inOrder_keys: "inOrder t = keys t"
  by (induction t rule: inOrder.induct) auto

lemma preOrder_preorder: "preOrder t = map snd (preorder t)"
  by (induction t rule: preOrder.induct) auto

lemma postOrder_postorder: "postOrder t = map snd (postorder t)"
  by (induction t rule: postOrder.induct) auto

lemma iterativeSearch_search: "iterativeSearch t key = search t key"
proof (induction t key rule: search.induct)
  case (2 l c k r key)
  then show ?case by (simp add: iterativeSearch.simps [of "Node l (c, k) r" key])
qed (simp add: iterativeSearch.simps)

lemma minimum_at_minimum: "fst (minimum_at t p) = minimum t"
  by (induction t p rule: minimum_at.induct) auto

lemma maximum_at_maximum: "fst (maximum_at t p) = maximum t"
  by (induction t p rule: maximum_at.induct) auto

lemma minimum_key_hd: "t \<noteq> Leaf \<Longrightarrow> minimum_key t = hd (keys t)"
proof (induction t rule: minimum.induct)
  case (2 l a r)
  then show ?case by (cases "l = Leaf") (auto simp: minimum_key_def split: prod.splits)
qed simp

lemma maximum_key_last: "t \<noteq> Leaf \<Longrightarrow> maximum_key t = last (keys t)"
proof (induction t rule: maximum.induct)
  case (2 l a r)
  then show ?case by (cases "r = Leaf") (auto simp: maximum_key_def split: prod.splits)
qed simp

text \<open>A location's position in the in-order sequence, and what the neighbour operations do to it.\<close>

fun upto_loc :: "rb_node loc \<Rightarrow> rb_node list" where
  "upto_loc (Leaf, p) = before p"
| "upto_loc (Node l a r, p) = before p @ inorder l"

fun from_loc :: "rb_node loc \<Rightarrow> rb_node list" where
  "from_loc (Leaf, p) = after p"
| "from_loc (Node l a r, p) = a # inorder r @ after p"

lemma loc_sequence: "upto_loc x @ from_loc x = inorder (plug (fst x) (snd x))"
  by (cases x rule: upto_loc.cases) (auto simp: inorder_plug)

lemma minimum_at_loc:
  "t \<noteq> Leaf \<Longrightarrow> upto_loc (minimum_at t p) = before p \<and> from_loc (minimum_at t p) = inorder t @ after p"
  by (induction t p rule: minimum_at.induct) auto

lemma maximum_at_loc:
  "t \<noteq> Leaf \<Longrightarrow> upto_loc (maximum_at t p) = before p @ butlast (inorder t) \<and>
    from_loc (maximum_at t p) = last (inorder t) # after p"
  by (induction t p rule: maximum_at.induct) (auto simp: butlast_append)

lemma climb_right_loc:
  "case climb_right x p of
     None \<Rightarrow> after p = []
   | Some y \<Rightarrow> upto_loc y = before p @ inorder x \<and> from_loc y = after p"
  by (induction x p rule: climb_right.induct) (auto split: option.splits)

lemma climb_left_loc:
  "case climb_left x p of
     None \<Rightarrow> before p = []
   | Some y \<Rightarrow> before p = upto_loc y @ [hd (from_loc y)] \<and> tl (from_loc y) = inorder x @ after p"
  by (induction x p rule: climb_left.induct) (auto split: option.splits)

section \<open>Size of a red-black tree\<close>

lemma height_bheight: "invc t \<Longrightarrow> invh t \<Longrightarrow> height t \<le> 2 * bheight t + (if is_red t then 1 else 0)"
  by (induction t) (auto split: if_split_asm)

lemma bheight_size1: "invh t \<Longrightarrow> 2 ^ bheight t \<le> size1 t"
  by (induction t) auto

section \<open>Contract\<close>

definition rb_wf :: "rbt \<Rightarrow> bool" where
  "rb_wf t \<longleftrightarrow> rb_inv t \<and> sorted (inOrder t)"

definition rb_member :: "int \<Rightarrow> rbt \<Rightarrow> bool" where
  "rb_member key t \<longleftrightarrow> search t key \<noteq> Leaf"

interpretation rb: search_tree_remove Leaf rb_insert rb_member inOrder insort rb_wf rb_remove
proof unfold_locales
  show "\<exists>t'. rb_insert k t = Some t' \<and> rb_wf t' \<and> inOrder t' = insort k (inOrder t)" if "rb_wf t" for t k
    using rb_insert_correct [of t k] that by (auto simp: rb_wf_def inOrder_keys sorted_insort)
  show "\<exists>t'. rb_remove k t = Some t' \<and> rb_wf t' \<and> inOrder t' = remove1 k (inOrder t)" if "rb_wf t" for t k
    using rb_remove_correct [of t k] that by (auto simp: rb_wf_def inOrder_keys sorted_remove1)
qed (auto simp: rb_wf_def rb_inv_def rb_member_def inOrder_keys search_Leaf_iff set_insort_key)

lemma rb_height_size: "rb_inv t \<Longrightarrow> 2 ^ height t \<le> (size t + 1) ^ 2"
proof -
  assume "rb_inv t"
  then have "height t \<le> 2 * bheight t" "2 ^ bheight t \<le> size1 t"
    using height_bheight [of t] bheight_size1 [of t] by (auto simp: rb_inv_def)
  then have "(2::nat) ^ height t \<le> (2 ^ bheight t) ^ 2"
    by (simp add: power_increasing flip: power_mult mult.commute [of 2])
  also have "\<dots> \<le> (size1 t) ^ 2"
    using \<open>2 ^ bheight t \<le> size1 t\<close> by (rule power_mono) simp
  finally show ?thesis by (simp add: size1_size)
qed

section \<open>Properties\<close>

text \<open>
  C1. On a well-formed tree \<^verbatim>\<open>insert(key)\<close> never dereferences null, and yields a
  well-formed tree (no red node has a red child, every path has as many black nodes, the
  root is black, the keys are in order) whose in-order sequence is the old one with the key
  inserted in its place.
\<close>

theorem rb_insert_spec:
  "rb_wf t \<Longrightarrow> \<exists>t'. rb_insert key t = Some t' \<and> rb_wf t' \<and> inOrder t' = insort key (inOrder t)"
  by (rule rb.insert_ok)

theorem rb_insert_spec_witness:
  "\<exists>t'. rb_insert 2 (Node (Node Leaf (RED, 1) Leaf) (BLACK, 3) Leaf) = Some t' \<and> rb_wf t' \<and> inOrder t' = [1, 2, 3]"
  using rb_insert_spec [of "Node (Node Leaf (RED, 1) Leaf) (BLACK, 3) Leaf" 2]
  by (simp add: rb_wf_def rb_inv_def)

text \<open>
  C2. On a well-formed tree \<^verbatim>\<open>remove(key)\<close>, with the relinking of the successor
  and the whole of \<^verbatim>\<open>removeFixUp\<close>, never dereferences null, and yields a
  well-formed tree whose in-order sequence has lost exactly one occurrence of the key, or
  is unchanged when the key is absent.
\<close>

theorem rb_remove_spec:
  "rb_wf t \<Longrightarrow> \<exists>t'. rb_remove key t = Some t' \<and> rb_wf t' \<and> inOrder t' = remove1 key (inOrder t)"
  by (rule rb.remove_ok)

theorem rb_remove_spec_witness:
  "\<exists>t'. rb_remove 1 (Node (Node Leaf (BLACK, 1) Leaf) (BLACK, 3) (Node Leaf (BLACK, 4) Leaf)) = Some t' \<and>
     rb_wf t' \<and> inOrder t' = [3, 4]"
  using rb_remove_spec [of "Node (Node Leaf (BLACK, 1) Leaf) (BLACK, 3) (Node Leaf (BLACK, 4) Leaf)" 1]
  by (simp add: rb_wf_def rb_inv_def)

text \<open>
  C8. Every sequence of insertions and removals, from the empty tree, runs to its end; the
  keys are then those the same operations leave in a sorted list, and the tree is balanced:
  a tree of height h holds at least 2 to the power h/2, minus 1, nodes.
\<close>

theorem rb_run_balanced:
  "\<exists>t. run_ops rb_insert rb_remove ops Leaf = Some t \<and> rb_wf t \<and>
     inOrder t = run_spec insort ops [] \<and> 2 ^ height t \<le> (size t + 1) ^ 2"
  using rb.run_from_empty [of ops] rb_height_size by (auto simp: rb_wf_def)

text \<open>
  \<^verbatim>\<open>successor(x)\<close> for a node x of any tree: a null result means that x is
  last in order, and otherwise the result is a node of the same tree whose in-order position
  is right after that of x.
\<close>

theorem successor_next:
  "\<exists>res. successor (Node l a r, p) = Some res \<and>
   (case res of
      None \<Rightarrow> inorder r @ after p = []
    | Some y \<Rightarrow> upto_loc y = upto_loc (Node l a r, p) @ [a] \<and> from_loc y = inorder r @ after p \<and>
        upto_loc y @ from_loc y = inorder (plug (Node l a r) p))"
  using minimum_at_loc [of r "RightOf l a # p"] climb_right_loc [of p "Node l a r"]
  by (cases "r = Leaf") (auto simp: inorder_plug split: option.splits)

text \<open>
  \<^verbatim>\<open>destroy\<close> frees exactly one node of a non-empty tree: each
  \<^verbatim>\<open>return destroy(...)\<close> leaves before the other child and the node itself are
  deleted.
\<close>

theorem destroy_frees_one: "size (destroy t) = size t - 1"
  proof (induction t rule: destroy.induct)
  case (2 l a r)
  then show ?case by (cases l; cases r) auto
qed simp

end
