(* ===== verification/AvlTree.thy ===== *)
theory AvlTree
  imports Ordered_Trees "HOL-Library.Tree"
begin

text \<open>
  The AVL tree of \<^verbatim>\<open>cpp/tree/avl2.cpp\<close>. A node's payload is its key and the
  \<^verbatim>\<open>height\<close> field the code maintains; the tree below \<^verbatim>\<open>header->left\<close>
  is the model's state. A null pointer that would be dereferenced makes an operation
  \<^term>\<open>None\<close>, and so does a call that runs off the end of a function that must return a
  value. The theorems show that insertion and erasure keep the height fields exact and the
  tree balanced, and insert or erase exactly the key.
\<close>

section \<open>Operations\<close>

type_synonym avl_node = "int \<times> int"
type_synonym avl = "avl_node tree"

fun get_height :: "avl \<Rightarrow> int" where
  "get_height Leaf = 0"
| "get_height (Node l a r) = snd a"

fun get_balance :: "avl \<Rightarrow> int" where
  "get_balance Leaf = 0"
| "get_balance (Node l a r) = get_height l - get_height r"

text \<open>\<^verbatim>\<open>n->height = max(get_height(n->left), get_height(n->right)) + 1\<close> for a node with these children.\<close>

definition with_height :: "avl \<Rightarrow> int \<Rightarrow> avl \<Rightarrow> avl" where
  "with_height l key r = Node l (key, max (get_height l) (get_height r) + 1) r"

fun ll_rotate :: "avl \<Rightarrow> avl ub" where
  "ll_rotate (Node (Node xl x xr) y yr) = Some (with_height xl (fst x) (with_height xr (fst y) yr))"
| "ll_rotate _ = None"

fun rr_rotate :: "avl \<Rightarrow> avl ub" where
  "rr_rotate (Node yl y (Node xl x xr)) = Some (with_height (with_height yl (fst y) xl) (fst x) xr)"
| "rr_rotate _ = None"

fun lr_rotate :: "avl \<Rightarrow> avl ub" where
  "lr_rotate (Node x y yr) = do { x' \<leftarrow> rr_rotate x; ll_rotate (Node x' y yr) }"
| "lr_rotate Leaf = None"

fun rl_rotate :: "avl \<Rightarrow> avl ub" where
  "rl_rotate (Node yl y x) = do { x' \<leftarrow> ll_rotate x; rr_rotate (Node yl y x') }"
| "rl_rotate Leaf = None"

text \<open>The end of \<^verbatim>\<open>insert_real\<close>: the height update and the four tests, in the code's order.\<close>

definition insert_rebalance :: "avl \<Rightarrow> int \<Rightarrow> avl \<Rightarrow> avl ub" where
  "insert_rebalance l key r =
     (let node = with_height l key r; balance = get_balance node
      in if balance > 1 \<and> get_balance l > 0 then ll_rotate node
         else if balance < -1 \<and> get_balance r < 0 then rr_rotate node
         else if balance > 1 \<and> get_balance l < 0 then lr_rotate node
         else if balance < -1 \<and> get_balance r > 0 then rl_rotate node
         else Some node)"

fun insert_real :: "int \<Rightarrow> avl \<Rightarrow> avl ub" where
  "insert_real key Leaf = Some (Node Leaf (key, 1) Leaf)"
| "insert_real key (Node l (k, h) r) =
     (if key < k then do { l' \<leftarrow> insert_real key l; insert_rebalance l' k r }
      else if key > k then do { r' \<leftarrow> insert_real key r; insert_rebalance l k r' }
      else Some (Node l (k, h) r))"

definition avl_insert :: "int \<Rightarrow> avl \<Rightarrow> avl ub" where
  "avl_insert key root = insert_real key root"

text \<open>
  \<^verbatim>\<open>find_real\<close> discards the result of its recursive calls and then runs off the
  end of the function.
\<close>

fun find_real :: "int \<Rightarrow> avl \<Rightarrow> avl ub" where
  "find_real key Leaf = Some Leaf"
| "find_real key (Node l (k, h) r) =
     (if key < k then do { _ \<leftarrow> find_real key l; None }
      else if key > k then do { _ \<leftarrow> find_real key r; None }
      else Some (Node l (k, h) r))"

function loop_find :: "int \<Rightarrow> avl \<Rightarrow> avl" where
  "loop_find key p =
     (if p \<noteq> Leaf \<and> fst (value p) \<noteq> key
      then loop_find key (if key < fst (value p) then left p else right p)
      else p)"
  by pat_completeness auto
termination
  by (relation "measure (\<lambda>(key, p). size p)") (auto simp: neq_Leaf_iff)

declare loop_find.simps [simp del]

text \<open>The successor's key: \<^verbatim>\<open>while (x->left) x = x->left\<close>.\<close>

fun leftmost_key :: "avl \<Rightarrow> int ub" where
  "leftmost_key Leaf = None"
| "leftmost_key (Node l (k, h) r) = (if l \<noteq> Leaf then leftmost_key l else Some k)"

definition erase_rebalance :: "avl \<Rightarrow> int \<Rightarrow> avl \<Rightarrow> avl ub" where
  "erase_rebalance l key r =
     (let node = with_height l key r; balance = get_balance node
      in if balance > 1 \<and> get_balance l \<ge> 0 then ll_rotate node
         else if balance < -1 \<and> get_balance r \<le> 0 then rr_rotate node
         else if balance > 1 \<and> get_balance l < 0 then lr_rotate node
         else if balance < -1 \<and> get_balance r > 0 then rl_rotate node
         else Some node)"

fun erase_real :: "int \<Rightarrow> avl \<Rightarrow> avl ub" where
  "erase_real key Leaf = Some Leaf"
| "erase_real key (Node l (k, h) r) =
     (if key < k then do { l' \<leftarrow> erase_real key l; erase_rebalance l' k r }
      else if key > k then do { r' \<leftarrow> erase_real key r; erase_rebalance l k r' }
      else if l \<noteq> Leaf \<and> r \<noteq> Leaf
      then do { x \<leftarrow> leftmost_key r; r' \<leftarrow> erase_real x r; erase_rebalance l x r' }
      else (case (if l \<noteq> Leaf then l else r) of
              Leaf \<Rightarrow> Some Leaf
            | Node nl (nk, nh) nr \<Rightarrow> erase_rebalance nl nk nr))"

definition avl_erase :: "int \<Rightarrow> avl \<Rightarrow> avl ub" where
  "avl_erase key root = erase_real key root"

text \<open>\<^verbatim>\<open>destory\<close> deletes the children first; the keys in the order they are freed.\<close>

fun destory :: "avl \<Rightarrow> int list" where
  "destory Leaf = []"
| "destory (Node l (k, h) r) = destory l @ destory r @ [k]"

section \<open>Invariant\<close>

fun avl_keys :: "avl \<Rightarrow> int list" where
  "avl_keys Leaf = []"
| "avl_keys (Node l (k, h) r) = avl_keys l @ k # avl_keys r"

fun avl :: "avl \<Rightarrow> bool" where
  "avl Leaf = True"
| "avl (Node l (k, h) r) =
     (\<bar>int (height l) - int (height r)\<bar> \<le> 1 \<and> h = int (max (height l) (height r)) + 1 \<and> avl l \<and> avl r)"

lemma get_height_avl: "avl t \<Longrightarrow> get_height t = int (height t)"
  by (cases t rule: avl.cases) auto

lemma get_height_with_height: "get_height (with_height l k r) = max (get_height l) (get_height r) + 1"
  by (simp add: with_height_def)

lemma keys_with_height [simp]: "avl_keys (with_height l k r) = avl_keys l @ k # avl_keys r"
  by (simp add: with_height_def)

lemma height_with_height [simp]: "height (with_height l k r) = Suc (max (height l) (height r))"
  by (simp add: with_height_def)

lemma avl_with_height:
  "avl l \<Longrightarrow> avl r \<Longrightarrow> \<bar>int (height l) - int (height r)\<bar> \<le> 1 \<Longrightarrow> avl (with_height l k r)"
  by (simp add: with_height_def get_height_avl)

lemma get_balance_with_height [simp]: "get_balance (with_height l k r) = get_height l - get_height r"
  by (simp add: with_height_def)

lemma avl_keys_Node: "avl_keys (Node l a r) = avl_keys l @ fst a # avl_keys r"
  by (cases a) simp

lemma avl_Node:
  "avl (Node l a r) \<longleftrightarrow>
    \<bar>int (height l) - int (height r)\<bar> \<le> 1 \<and> snd a = int (max (height l) (height r)) + 1 \<and> avl l \<and> avl r"
  by (cases a) auto

text \<open>Restoring the balance of a node whose left (right) subtree is two levels higher.\<close>

lemma ll_rotate_ok:
  assumes "avl l" "avl r" "height l = height r + 2" "get_balance l \<ge> 0"
  shows "\<exists>t. ll_rotate (with_height l k r) = Some t \<and> avl t \<and> avl_keys t = avl_keys l @ k # avl_keys r \<and>
    height t = (if get_balance l = 0 then height l + 1 else height l)"
  using assms
  by (cases l) (auto simp: with_height_def avl_Node avl_keys_Node get_height_avl)

lemma rr_rotate_ok:
  assumes "avl l" "avl r" "height r = height l + 2" "get_balance r \<le> 0"
  shows "\<exists>t. rr_rotate (with_height l k r) = Some t \<and> avl t \<and> avl_keys t = avl_keys l @ k # avl_keys r \<and>
    height t = (if get_balance r = 0 then height r + 1 else height r)"
  using assms
  by (cases r) (auto simp: with_height_def avl_Node avl_keys_Node get_height_avl)

lemma lr_rotate_ok:
  assumes "avl l" "avl r" "height l = height r + 2" "get_balance l < 0"
  shows "\<exists>t. lr_rotate (with_height l k r) = Some t \<and> avl t \<and> avl_keys t = avl_keys l @ k # avl_keys r \<and>
    height t = height l"
proof -
  obtain ll a lr where l: "l = Node ll a lr" using assms by (cases l) auto
  obtain lrl b lrr where lr: "lr = Node lrl b lrr"
    using assms l by (cases lr) (auto simp: avl_Node get_height_avl)
  show ?thesis
    using assms unfolding l lr
    by (auto simp: with_height_def avl_Node avl_keys_Node get_height_avl)
qed

lemma rl_rotate_ok:
  assumes "avl l" "avl r" "height r = height l + 2" "get_balance r > 0"
  shows "\<exists>t. rl_rotate (with_height l k r) = Some t \<and> avl t \<and> avl_keys t = avl_keys l @ k # avl_keys r \<and>
    height t = height r"
proof -
  obtain rl a rr where r: "r = Node rl a rr" using assms by (cases r) auto
  obtain rll b rlr where rl: "rl = Node rll b rlr"
    using assms r by (cases rl) (auto simp: avl_Node get_height_avl)
  show ?thesis
    using assms unfolding r rl
    by (auto simp: with_height_def avl_Node avl_keys_Node get_height_avl)
qed

text \<open>What a rebalancing step returns: the height it leaves and the keys it keeps.\<close>

definition rebalanced :: "avl ub \<Rightarrow> int list \<Rightarrow> (nat \<Rightarrow> bool) \<Rightarrow> bool" where
  "rebalanced res ks P \<longleftrightarrow> (\<exists>t. res = Some t \<and> avl t \<and> avl_keys t = ks \<and> P (height t))"

lemma erase_rebalance_ok:
  assumes "avl l" "avl r" "height l \<le> height r + 2" "height r \<le> height l + 2"
  shows "rebalanced (erase_rebalance l k r) (avl_keys l @ k # avl_keys r)
    (\<lambda>h. h = Suc (max (height l) (height r)) \<or>
         \<bar>int (height l) - int (height r)\<bar> = 2 \<and> h = max (height l) (height r))"
proof -
  consider "height l = height r + 2" | "height r = height l + 2"
    | "\<bar>int (height l) - int (height r)\<bar> \<le> 1" using assms by linarith
  then show ?thesis
  proof cases
    case 1
    then show ?thesis
      using ll_rotate_ok [OF assms(1,2) 1, of k] lr_rotate_ok [OF assms(1,2) 1, of k] assms
      by (cases "get_balance l < 0") (auto simp: rebalanced_def erase_rebalance_def get_height_avl Let_def)
  next
    case 2
    then show ?thesis
      using rr_rotate_ok [OF assms(1,2) 2, of k] rl_rotate_ok [OF assms(1,2) 2, of k] assms
      by (cases "get_balance r > 0") (auto simp: rebalanced_def erase_rebalance_def get_height_avl Let_def)
  next
    case 3
    then show ?thesis
      using assms avl_with_height [OF assms(1,2) 3]
      by (auto simp: rebalanced_def erase_rebalance_def get_height_avl Let_def)
  qed
qed

text \<open>
  On insertion a subtree that has grown leans to one side unless it was empty, so the two
  subtrees never have the shape that the strict tests of \<^verbatim>\<open>insert_real\<close> miss.
\<close>

definition grown :: "avl \<Rightarrow> avl \<Rightarrow> bool" where
  "grown t t' \<longleftrightarrow> height t' = height t \<or>
     height t' = Suc (height t) \<and> (t \<noteq> Leaf \<longrightarrow> get_balance t' \<noteq> 0)"

lemma insert_rebalance_left:
  assumes "avl (Node l (k, h) r)" "avl l'" "grown l l'"
  shows "\<exists>t. insert_rebalance l' k r = Some t \<and> avl t \<and> avl_keys t = avl_keys l' @ k # avl_keys r \<and>
    grown (Node l (k, h) r) t"
proof (cases "height l' = height r + 2")
  case True
  then have "get_balance l' \<noteq> 0"
    using assms by (cases "l = Leaf") (auto simp: grown_def)
  then show ?thesis
    using ll_rotate_ok [of l' r k] lr_rotate_ok [of l' r k] assms True
    by (cases "get_balance l' > 0") (auto simp: insert_rebalance_def get_height_avl Let_def grown_def)
next
  case False
  then have "\<bar>int (height l') - int (height r)\<bar> \<le> 1"
    using assms by (auto simp: grown_def)
  moreover from this have "insert_rebalance l' k r = Some (with_height l' k r)"
    using assms by (auto simp: insert_rebalance_def get_height_avl Let_def)
  moreover have "grown (Node l (k, h) r) (with_height l' k r)"
    using assms calculation(1) by (auto simp: grown_def get_height_avl max_def) (metis eq_height_0 le_SucE le_zero_eq)
  ultimately show ?thesis
    using avl_with_height [of l' r k] assms by auto
qed

lemma insert_rebalance_right:
  assumes "avl (Node l (k, h) r)" "avl r'" "grown r r'"
  shows "\<exists>t. insert_rebalance l k r' = Some t \<and> avl t \<and> avl_keys t = avl_keys l @ k # avl_keys r' \<and>
    grown (Node l (k, h) r) t"
proof (cases "height r' = height l + 2")
  case True
  then have "get_balance r' \<noteq> 0"
    using assms by (cases "r = Leaf") (auto simp: grown_def)
  then show ?thesis
    using rr_rotate_ok [of l r' k] rl_rotate_ok [of l r' k] assms True
    by (cases "get_balance r' > 0") (auto simp: insert_rebalance_def get_height_avl Let_def grown_def)
next
  case False
  then have "\<bar>int (height l) - int (height r')\<bar> \<le> 1"
    using assms by (auto simp: grown_def)
  moreover from this have "insert_rebalance l k r' = Some (with_height l k r')"
    using assms by (auto simp: insert_rebalance_def get_height_avl Let_def)
  moreover have "grown (Node l (k, h) r) (with_height l k r')"
    using assms calculation(1) by (auto simp: grown_def get_height_avl max_def)
  ultimately show ?thesis
    using avl_with_height [of l r' k] assms by auto
qed

lemma insert_real_ok:
  "avl t \<Longrightarrow> strict_sorted (avl_keys t) \<Longrightarrow>
    \<exists>t'. insert_real key t = Some t' \<and> avl t' \<and> grown t t' \<and> avl_keys t' = ins_set key (avl_keys t)"
proof (induction key t rule: insert_real.induct)
  case (2 key l k h r)
  have sorted: "strict_sorted (avl_keys l)" "strict_sorted (avl_keys r)"
    using "2.prems"(2) by (auto simp: sorted_wrt_append)
  consider "key < k" | "key > k" | "key = k" by linarith
  then show ?case
  proof cases
    case 1
    then obtain l' where "insert_real key l = Some l'" "avl l'" "grown l l'"
      "avl_keys l' = ins_set key (avl_keys l)"
      using "2.IH"(1) "2.prems" sorted by auto
    then show ?thesis
      using insert_rebalance_left [OF "2.prems"(1), of l'] 1 ins_set_left [of "avl_keys l" k "avl_keys r" key] "2.prems"
      by auto
  next
    case 2
    then obtain r' where "insert_real key r = Some r'" "avl r'" "grown r r'"
      "avl_keys r' = ins_set key (avl_keys r)"
      using "2.IH"(2) "2.prems" sorted by auto
    then show ?thesis
      using insert_rebalance_right [OF "2.prems"(1), of r'] 2 ins_set_right [of "avl_keys l" k "avl_keys r" key] "2.prems"
      by auto
  next
    case 3
    then show ?thesis
      using "2.prems" ins_set_mem [of "avl_keys l @ k # avl_keys r" k] by (auto simp: grown_def)
  qed
qed (simp add: grown_def)

lemma avl_keys_Nil [simp]: "avl_keys t = [] \<longleftrightarrow> t = Leaf"
  by (cases t rule: avl_keys.cases) auto

lemma leftmost_key_ok: "t \<noteq> Leaf \<Longrightarrow> leftmost_key t = Some (hd (avl_keys t))"
  by (induction t rule: leftmost_key.induct) (auto simp: hd_append)

definition shrunk :: "avl \<Rightarrow> avl \<Rightarrow> bool" where
  "shrunk t t' \<longleftrightarrow> height t' = height t \<or> Suc (height t') = height t"

lemma erase_rebalance_left:
  assumes "avl (Node l (k, h) r)" "avl l'" "shrunk l l'"
  shows "\<exists>t. erase_rebalance l' k' r = Some t \<and> avl t \<and> avl_keys t = avl_keys l' @ k' # avl_keys r \<and>
    shrunk (Node l (k, h) r) t"
proof -
  have "height l' \<le> height r + 2" "height r \<le> height l' + 2" "avl r"
    using assms by (auto simp: shrunk_def)
  from erase_rebalance_ok [OF assms(2) this(3,1,2), of k'] show ?thesis
    using assms unfolding rebalanced_def by (elim exE conjE) (auto simp: shrunk_def max_def split: if_splits)
qed

lemma erase_rebalance_right:
  assumes "avl (Node l (k, h) r)" "avl r'" "shrunk r r'"
  shows "\<exists>t. erase_rebalance l k' r' = Some t \<and> avl t \<and> avl_keys t = avl_keys l @ k' # avl_keys r' \<and>
    shrunk (Node l (k, h) r) t"
proof -
  have "height l \<le> height r' + 2" "height r' \<le> height l + 2" "avl l"
    using assms by (auto simp: shrunk_def)
  from erase_rebalance_ok [OF this(3) assms(2) this(1,2), of k'] show ?thesis
    using assms unfolding rebalanced_def by (elim exE conjE) (auto simp: shrunk_def max_def split: if_splits)
qed

lemma erase_rebalance_avl:
  "avl (Node l (k, h) r) \<Longrightarrow> \<exists>t. erase_rebalance l k r = Some t \<and> avl t \<and>
    avl_keys t = avl_keys l @ k # avl_keys r \<and> height t = height (Node l (k, h) r)"
  using erase_rebalance_ok [of l r k] unfolding rebalanced_def by auto

lemma erase_real_ok:
  "avl t \<Longrightarrow> strict_sorted (avl_keys t) \<Longrightarrow>
    \<exists>t'. erase_real key t = Some t' \<and> avl t' \<and> shrunk t t' \<and> avl_keys t' = remove1 key (avl_keys t)"
proof (induction key t rule: erase_real.induct)
  case (2 key l k h r)
  have sorted: "strict_sorted (avl_keys l)" "strict_sorted (avl_keys r)" and avl: "avl l" "avl r"
    and all: "strict_sorted (avl_keys l @ k # avl_keys r)"
    using "2.prems" by (auto simp: sorted_wrt_append)
  consider "key < k" | "key > k" | "key = k" "l \<noteq> Leaf" "r \<noteq> Leaf" | "key = k" "l = Leaf \<or> r = Leaf"
    by fastforce
  then show ?case
  proof cases
    case 1
    then obtain l' where "erase_real key l = Some l'" "avl l'" "shrunk l l'"
      "avl_keys l' = remove1 key (avl_keys l)"
      using "2.IH"(1) avl sorted by auto
    then show ?thesis
      using erase_rebalance_left [OF "2.prems"(1), of l' k] 1 remove1_left [OF all 1] by auto
  next
    case 2
    then obtain r' where "erase_real key r = Some r'" "avl r'" "shrunk r r'"
      "avl_keys r' = remove1 key (avl_keys r)"
      using "2.IH"(2) avl sorted by auto
    then show ?thesis
      using erase_rebalance_right [OF "2.prems"(1), of r' k] 2 remove1_right [OF all 2] by auto
  next
    case 3
    let ?x = "hd (avl_keys r)"
    have x: "leftmost_key r = Some ?x" using 3 by (simp add: leftmost_key_ok)
    obtain r' where r': "erase_real ?x r = Some r'" "avl r'" "shrunk r r'"
      "avl_keys r' = remove1 ?x (avl_keys r)"
      using "2.IH"(3) [of ?x] 3 x avl sorted by auto
    then have "?x # avl_keys r' = avl_keys r"
      using 3 by (cases "avl_keys r") auto
    then show ?thesis
      using erase_rebalance_right [OF "2.prems"(1) r'(2,3), of ?x] 3 x r' remove1_mid [OF all] by auto
  next
    case 4
    let ?n = "if l \<noteq> Leaf then l else r"
    have n: "avl_keys ?n = remove1 key (avl_keys l @ k # avl_keys r)" "avl ?n"
      using 4 avl remove1_mid [OF all] by auto
    have h: "height (Node l (k, h) r) = Suc (height ?n)"
      using 4 by auto
    show ?thesis
    proof (cases ?n rule: avl.cases)
      case 1
      then show ?thesis using 4 n h by (auto simp: shrunk_def)
    next
      case (2 nl nk nh nr)
      then show ?thesis
        using erase_rebalance_avl [of nl nk nh nr] 4 n h by (auto simp: shrunk_def)
    qed
  qed
qed (simp add: shrunk_def)

lemma loop_find_Node:
  "loop_find key (Node l (k, h) r) =
     (if k = key then Node l (k, h) r else if key < k then loop_find key l else loop_find key r)"
  by (simp add: loop_find.simps [of key "Node l (k, h) r"])

lemma loop_find_NULL [simp]: "loop_find key Leaf = Leaf"
  by (simp add: loop_find.simps)

lemma loop_find_Leaf:
  "strict_sorted (avl_keys t) \<Longrightarrow> loop_find key t = Leaf \<longleftrightarrow> key \<notin> set (avl_keys t)"
  by (induction t rule: avl_keys.induct) (force simp: loop_find_Node sorted_wrt_append)+

section \<open>Contract\<close>

definition avl_wf :: "avl \<Rightarrow> bool" where
  "avl_wf t \<longleftrightarrow> avl t \<and> strict_sorted (avl_keys t)"

definition avl_member :: "int \<Rightarrow> avl \<Rightarrow> bool" where
  "avl_member key t \<longleftrightarrow> loop_find key t \<noteq> Leaf"

interpretation avl: search_tree_remove Leaf avl_insert avl_member avl_keys ins_set avl_wf avl_erase
proof unfold_locales
  show "\<exists>t'. avl_insert k t = Some t' \<and> avl_wf t' \<and> avl_keys t' = ins_set k (avl_keys t)" if "avl_wf t" for t k
    using insert_real_ok [of t k] that by (auto simp: avl_wf_def avl_insert_def strict_sorted_ins_set)
  show "\<exists>t'. avl_erase k t = Some t' \<and> avl_wf t' \<and> avl_keys t' = remove1 k (avl_keys t)" if "avl_wf t" for t k
    using erase_real_ok [of t k] that by (auto simp: avl_wf_def avl_erase_def strict_sorted_remove1)
  show "sorted (avl_keys t)" if "avl_wf t" for t
    using that by (auto simp: avl_wf_def strict_sorted_imp_sorted)
qed (auto simp: avl_wf_def avl_member_def set_ins_set loop_find_Leaf)

section \<open>Properties\<close>

text \<open>
  C9. On a well-formed AVL tree \<^verbatim>\<open>insert(key)\<close> succeeds (no rotation meets a
  null child, although the strict tests of \<^verbatim>\<open>insert_real\<close> leave a case out),
  the height fields stay exact, every node stays balanced within one level, and the keys
  are the old ones with the key added once.
\<close>

theorem avl_insert_spec:
  "avl_wf t \<Longrightarrow> \<exists>t'. avl_insert key t = Some t' \<and> avl_wf t' \<and> avl_keys t' = ins_set key (avl_keys t)"
  by (rule avl.insert_ok)

theorem avl_insert_spec_witness:
  "\<exists>t'. avl_insert 1 (Node (Node Leaf (2, 1) Leaf) (3, 2) Leaf) = Some t' \<and> avl_wf t' \<and> avl_keys t' = [1, 2, 3]"
  using avl_insert_spec [of "Node (Node Leaf (2, 1) Leaf) (3, 2) Leaf" 1] by (simp add: avl_wf_def)

text \<open>
  C10. On a well-formed AVL tree \<^verbatim>\<open>erase(key)\<close> succeeds, including the case of
  two children where the successor's key is copied and then erased below; the result is
  well formed and has lost exactly the key.
\<close>

theorem avl_erase_spec:
  "avl_wf t \<Longrightarrow> \<exists>t'. avl_erase key t = Some t' \<and> avl_wf t' \<and> avl_keys t' = remove1 key (avl_keys t)"
  by (rule avl.remove_ok)

theorem avl_erase_spec_witness:
  "\<exists>t'. avl_erase 3 (Node (Node Leaf (2, 1) Leaf) (3, 2) (Node Leaf (5, 1) Leaf)) = Some t' \<and>
     avl_wf t' \<and> avl_keys t' = [2, 5]"
  using avl_erase_spec [of "Node (Node Leaf (2, 1) Leaf) (3, 2) (Node Leaf (5, 1) Leaf)" 3] by (simp add: avl_wf_def)

text \<open>
  \<^verbatim>\<open>find_real\<close> returns a defined value only for an empty tree or for the key
  of the root: every other search runs off the end of the function. The loop version
  \<^verbatim>\<open>loop_find\<close> finds exactly the keys of the tree.
\<close>

theorem avl_find_real_undefined:
  "(find_real key t = None \<longleftrightarrow> t \<noteq> Leaf \<and> fst (value t) \<noteq> key) \<and>
   (strict_sorted (avl_keys t) \<longrightarrow> (loop_find key t \<noteq> Leaf \<longleftrightarrow> key \<in> set (avl_keys t)))"
  using loop_find_Leaf [of t key] by (cases t rule: avl.cases) (auto simp: bind_eq_Some split: Option.bind_splits)

theorem avl_find_real_undefined_witness:
  "find_real 1 (Node (Node Leaf (1, 1) Leaf) (3, 2) Leaf) = None \<and>
   loop_find 1 (Node (Node Leaf (1, 1) Leaf) (3, 2) Leaf) \<noteq> Leaf"
  using avl_find_real_undefined [of 1 "Node (Node Leaf (1, 1) Leaf) (3, 2) Leaf"] by simp

end
