(* ===== verification/BinSearchTree.thy ===== *)
theory BinSearchTree
  imports Tree_Zipper Ordered_Trees
begin

text \<open>
  The class \<^verbatim>\<open>BinarySearchTree\<close> of \<^verbatim>\<open>cpp/tree/bst.cpp\<close>: the tree of
  nodes and the \<^verbatim>\<open>size\<close> counter. The traversals with an explicit
  \<^verbatim>\<open>std::stack\<close> of nodes are loops over the current pointer and the stack, with
  their termination proved; \<^verbatim>\<open>parent\<close> and \<^verbatim>\<open>deleteNode\<close> work on
  locations of \<open>Tree_Zipper\<close>, since the code changes the tree through the pointer
  they find. \<^verbatim>\<open>deleteNode\<close> dereferences a null parent when the root is to be
  deleted, which is the value \<^term>\<open>None\<close>.
\<close>

section \<open>Operations\<close>

record bst_state =
  Root :: "int tree"
  bst_size :: int

definition bst_empty :: "bst_state \<Rightarrow> bool" where
  "bst_empty b \<longleftrightarrow> Root b = Leaf"

text \<open>A node on a \<^verbatim>\<open>std::stack<BTNode *>\<close>: its children and its data.\<close>

type_synonym bst_node = "int tree \<times> int \<times> int tree"

abbreviation walk_measure :: "int tree \<Rightarrow> bst_node list \<Rightarrow> nat" where
  "walk_measure p s \<equiv> 2 * size p + sum_list (map (\<lambda>(l, a, r). 2 * size r + 1) s)"

function leaf_loop :: "int tree \<Rightarrow> bst_node list \<Rightarrow> int \<Rightarrow> int" where
  "leaf_loop (Node l a r) s num = leaf_loop l ((l, a, r) # s) num"
| "leaf_loop Leaf ((l, a, r) # s) num =
     leaf_loop r s (if l = Leaf \<and> r = Leaf then num + 1 else num)"
| "leaf_loop Leaf [] num = num"
  by pat_completeness auto
termination
  by (relation "measure (\<lambda>(p, s, num). walk_measure p s)") auto

definition bst_leaf :: "bst_state \<Rightarrow> int" where
  "bst_leaf b = (if \<not> bst_empty b then leaf_loop (Root b) [] 0 else 0)"

fun search_loop :: "int \<Rightarrow> int tree \<Rightarrow> bool" where
  "search_loop data Leaf = False"
| "search_loop data (Node l a r) =
     (if data = a then True else if data < a then search_loop data l else search_loop data r)"

definition bst_search :: "int \<Rightarrow> bst_state \<Rightarrow> bool" where
  "bst_search data b = (if \<not> bst_empty b then search_loop data (Root b) else False)"

fun has_data :: "int \<Rightarrow> int tree \<Rightarrow> bool" where
  "has_data data Leaf = False"
| "has_data data (Node l a r) = (a = data)"

text \<open>
  The loop of \<^verbatim>\<open>parent\<close>; the result is the location of the node it returns, or
  \<^term>\<open>None\<close> for null.
\<close>

function parent_loop ::
  "int \<Rightarrow> int tree \<Rightarrow> int path \<Rightarrow> (bst_node \<times> int path) list \<Rightarrow> (bst_node \<times> int path) option" where
  "parent_loop data (Node l a r) path s =
     (if has_data data l \<or> has_data data r then Some ((l, a, r), path)
      else parent_loop data l (LeftOf a r # path) (((l, a, r), path) # s))"
| "parent_loop data Leaf path (((l, a, r), q) # s) = parent_loop data r (RightOf l a # q) s"
| "parent_loop data Leaf path [] = None"
  by pat_completeness auto
termination
  by (relation "measure (\<lambda>(data, p, path, s). walk_measure p (map fst s))") auto

definition bst_parent :: "int \<Rightarrow> bst_state \<Rightarrow> (bst_node \<times> int path) option" where
  "bst_parent data b =
     (if \<not> bst_empty b then
        (if has_data data (Root b) then None else parent_loop data (Root b) [] [])
      else None)"

text \<open>\<^verbatim>\<open>predecessor\<close>: the data of the node it returns, \<^term>\<open>None\<close> for null.\<close>

function predecessor_loop :: "int \<Rightarrow> int tree \<Rightarrow> bst_node list \<Rightarrow> int option \<Rightarrow> int option" where
  "predecessor_loop data (Node l a r) s plastVisit = predecessor_loop data l ((l, a, r) # s) plastVisit"
| "predecessor_loop data Leaf ((l, a, r) # s) plastVisit =
     (if a = data then plastVisit else predecessor_loop data r s (Some a))"
| "predecessor_loop data Leaf [] plastVisit = plastVisit"
  by pat_completeness auto
termination
  by (relation "measure (\<lambda>(data, p, s, v). walk_measure p s)") auto

definition bst_predecessor :: "int \<Rightarrow> bst_state \<Rightarrow> int option" where
  "bst_predecessor data b = (if \<not> bst_empty b then predecessor_loop data (Root b) [] None else None)"

text \<open>\<^verbatim>\<open>successor\<close>: the node it returns, \<^term>\<open>Leaf\<close> for null.\<close>

function successor_loop :: "int \<Rightarrow> int tree \<Rightarrow> bst_node list \<Rightarrow> int tree" where
  "successor_loop data (Node l a r) s = successor_loop data l ((l, a, r) # s)"
| "successor_loop data Leaf ((l, a, r) # s) = (if a = data then r else successor_loop data r s)"
| "successor_loop data Leaf [] = Leaf"
  by pat_completeness auto
termination
  by (relation "measure (\<lambda>(data, p, s). walk_measure p s)") auto

definition bst_successor :: "int \<Rightarrow> bst_state \<Rightarrow> int tree" where
  "bst_successor data b = (if \<not> bst_empty b then successor_loop data (Root b) [] else Leaf)"

fun leftmost :: "int tree \<Rightarrow> int tree" where
  "leftmost Leaf = Leaf"
| "leftmost (Node l a r) = (if l \<noteq> Leaf then leftmost l else Node l a r)"

definition bst_minimum :: "bst_state \<Rightarrow> int tree" where
  "bst_minimum b = (if \<not> bst_empty b then leftmost (Root b) else Leaf)"

fun rightmost :: "int tree \<Rightarrow> int tree" where
  "rightmost Leaf = Leaf"
| "rightmost (Node l a r) = (if r \<noteq> Leaf then rightmost r else Node l a r)"

definition bst_maximum :: "bst_state \<Rightarrow> int tree" where
  "bst_maximum b = (if \<not> bst_empty b then rightmost (Root b) else Leaf)"

text \<open>The endless loop of \<^verbatim>\<open>insertNode\<close> below a non-null pointer: the new subtree, and whether a node was added.\<close>

fun insert_loop :: "int \<Rightarrow> int tree \<Rightarrow> bool \<times> int tree" where
  "insert_loop data Leaf = (True, Node Leaf data Leaf)"
| "insert_loop data (Node l a r) =
     (if data < a then (let (ok, l') = insert_loop data l in (ok, Node l' a r))
      else if data > a then (let (ok, r') = insert_loop data r in (ok, Node l a r'))
      else (False, Node l a r))"

definition bst_insertNode :: "int \<Rightarrow> bst_state \<Rightarrow> bool \<times> bst_state" where
  "bst_insertNode data b =
     (if Root b = Leaf then (True, b\<lparr>Root := Node Leaf data Leaf, bst_size := bst_size b + 1\<rparr>)
      else (let (ok, t) = insert_loop data (Root b)
            in (ok, b\<lparr>Root := t, bst_size := (if ok then bst_size b + 1 else bst_size b)\<rparr>)))"

definition bst_new :: "int list \<Rightarrow> bst_state" where
  "bst_new arr = foldl (\<lambda>b x. snd (bst_insertNode x b)) \<lparr>Root = Leaf, bst_size = 0\<rparr> arr"

text \<open>
  The loop \<^verbatim>\<open>while (temp->rchild)\<close> and the unlinking of \<^verbatim>\<open>temp\<close> from
  its parent (or from \<^verbatim>\<open>p\<close> when the loop did not move): what is left of the
  subtree, and the data of \<^verbatim>\<open>temp\<close>.
\<close>

fun unlink_rightmost :: "int tree \<Rightarrow> int \<Rightarrow> int tree \<Rightarrow> int tree \<times> int" where
  "unlink_rightmost l a Leaf = (l, a)"
| "unlink_rightmost l a (Node rl b rr) = (let (r', m) = unlink_rightmost rl b rr in (Node l a r', m))"

text \<open>What takes the place of the node \<^verbatim>\<open>p\<close>, which has these children.\<close>

fun replacement :: "int tree \<Rightarrow> int tree \<Rightarrow> int tree" where
  "replacement Leaf r = r"
| "replacement (Node ll a lr) r = (let (l', m) = unlink_rightmost ll a lr in Node l' m r)"

definition bst_deleteNode :: "int \<Rightarrow> bst_state \<Rightarrow> (bool \<times> bst_state) ub" where
  "bst_deleteNode data b =
     (if \<not> bst_empty b then
        (if \<not> bst_search data b then Some (False, b)
         else (case bst_parent data b of
             None \<Rightarrow> None
           | Some ((pl, pa, pr), path) \<Rightarrow>
               (case (if has_data data pl then pl else pr) of
                  Leaf \<Rightarrow> None
                | Node l a r \<Rightarrow>
                    let temp = replacement l r;
                        parent = (if has_data data pl then Node temp pa pr else Node pl pa temp)
                    in Some (True, b\<lparr>Root := plug parent path, bst_size := bst_size b - 1\<rparr>))))
      else Some (False, b))"

function inorder_loop :: "int tree \<Rightarrow> bst_node list \<Rightarrow> int list" where
  "inorder_loop (Node l a r) s = inorder_loop l ((l, a, r) # s)"
| "inorder_loop Leaf ((l, a, r) # s) = a # inorder_loop r s"
| "inorder_loop Leaf [] = []"
  by pat_completeness auto
termination
  by (relation "measure (\<lambda>(p, s). walk_measure p s)") auto

definition bst_traverse :: "bst_state \<Rightarrow> int list" where
  "bst_traverse b = (if \<not> bst_empty b then inorder_loop (Root b) [] else [])"

text \<open>The destructor: the data of the nodes in the order they are freed, with the queue of nodes.\<close>

fun push_child :: "int tree \<Rightarrow> bst_node list \<Rightarrow> bst_node list" where
  "push_child Leaf q = q"
| "push_child (Node l a r) q = q @ [(l, a, r)]"

abbreviation queue_size :: "bst_node list \<Rightarrow> nat" where
  "queue_size q \<equiv> sum_list (map (\<lambda>(l, a, r). Suc (size l + size r)) q)"

lemma queue_size_push: "queue_size (push_child t q) = size t + queue_size q"
  by (cases t) auto

function free_loop :: "bst_node list \<Rightarrow> int list" where
  "free_loop ((l, a, r) # q) = a # free_loop (push_child r (push_child l q))"
| "free_loop [] = []"
  by pat_completeness auto
termination
  by (relation "measure queue_size") (auto simp: queue_size_push)

definition bst_destroy :: "bst_state \<Rightarrow> int list" where
  "bst_destroy b = (if \<not> bst_empty b then free_loop (push_child (Root b) []) else [])"

section \<open>The stack traversals visit the nodes in order\<close>

text \<open>The in-order sequence that a traversal still has ahead of it.\<close>

abbreviation ahead :: "int tree \<Rightarrow> bst_node list \<Rightarrow> int list" where
  "ahead p s \<equiv> inorder p @ concat (map (\<lambda>(l, a, r). a # inorder r) s)"

lemma inorder_loop_ahead: "inorder_loop p s = ahead p s"
  by (induction p s rule: inorder_loop.induct) auto

fun leaves :: "int tree \<Rightarrow> int" where
  "leaves Leaf = 0"
| "leaves (Node l a r) = (if l = Leaf \<and> r = Leaf then 1 else leaves l + leaves r)"

lemma leaf_loop_leaves:
  "leaf_loop p s num = num + leaves p +
     sum_list (map (\<lambda>(l, a, r). (if l = Leaf \<and> r = Leaf then 1 else leaves r)) s)"
  by (induction p s num rule: leaf_loop.induct) auto

lemma predecessor_loop_ahead:
  "predecessor_loop data p s v =
     (let before = takeWhile (\<lambda>x. x \<noteq> data) (ahead p s)
      in if before = [] then v else Some (last before))"
  by (induction data p s v rule: predecessor_loop.induct) (auto simp: Let_def)

lemma search_loop_set: "strict_sorted (inorder t) \<Longrightarrow> search_loop data t \<longleftrightarrow> data \<in> set_tree t"
  by (induction t) (force simp: sorted_wrt_append simp flip: set_inorder)+

lemma leftmost_hd: "t \<noteq> Leaf \<Longrightarrow> leftmost t \<noteq> Leaf \<and> value (leftmost t) = hd (inorder t)"
  by (induction t) (auto simp: hd_append)

lemma rightmost_last: "t \<noteq> Leaf \<Longrightarrow> rightmost t \<noteq> Leaf \<and> value (rightmost t) = last (inorder t)"
  by (induction t) auto

section \<open>Insertion\<close>

lemma insert_loop_inorder:
  "strict_sorted (inorder t) \<Longrightarrow> insert_loop data t = (ok, t') \<Longrightarrow>
    inorder t' = ins_set data (inorder t) \<and> ok = (data \<notin> set_tree t) \<and>
    size t' = (if ok then Suc (size t) else size t)"
proof (induction t arbitrary: t')
  case (Node l a r)
  have s: "strict_sorted (inorder l)" "strict_sorted (inorder r)"
    "\<forall>x \<in> set_tree l. x < a" "\<forall>x \<in> set_tree r. a < x"
    using Node.prems(1) by (auto simp: sorted_wrt_append)
  consider "data < a" | "data > a" | "data = a" by linarith
  then show ?case
  proof cases
    case 1
    obtain l' where "insert_loop data l = (ok, l')" "t' = Node l' a r"
      using Node.prems(2) 1 by (auto split: prod.splits)
    then show ?thesis
      using Node.IH(1) [OF s(1)] 1 s ins_set_left [of "inorder l" a "inorder r" data] Node.prems(1) by auto
  next
    case 2
    obtain r' where "insert_loop data r = (ok, r')" "t' = Node l a r'"
      using Node.prems(2) 2 by (auto split: prod.splits)
    then show ?thesis
      using Node.IH(2) [OF s(2)] 2 s ins_set_right [of "inorder l" a "inorder r" data] Node.prems(1) by auto
  next
    case 3
    then show ?thesis
      using Node.prems ins_set_mem [of "inorder l @ a # inorder r" a] by auto
  qed
qed auto

definition bst_wf :: "bst_state \<Rightarrow> bool" where
  "bst_wf b \<longleftrightarrow> strict_sorted (inorder (Root b)) \<and> bst_size b = int (size (Root b))"

lemma bst_insertNode_ok:
  assumes "bst_wf b" "bst_insertNode data b = (ok, b')"
  shows "bst_wf b' \<and> inorder (Root b') = ins_set data (inorder (Root b)) \<and> ok = (data \<notin> set_tree (Root b))"
proof -
  obtain t where t: "insert_loop data (Root b) = (ok, t)"
    "Root b' = t" "bst_size b' = (if ok then bst_size b + 1 else bst_size b)"
    using assms(2) by (cases "Root b = Leaf") (auto simp: bst_insertNode_def split: prod.splits)
  show ?thesis
    using insert_loop_inorder [OF _ t(1)] t assms(1) strict_sorted_ins_set by (auto simp: bst_wf_def)
qed

section \<open>Deletion\<close>

fun below :: "int tree \<Rightarrow> int set" where
  "below Leaf = {}"
| "below (Node l a r) = set_tree l \<union> set_tree r"

lemma has_data_set: "has_data data t \<Longrightarrow> data \<in> set_tree t"
  by (cases t) auto

lemma not_below: "\<not> has_data data t \<Longrightarrow> data \<notin> below t \<Longrightarrow> data \<notin> set_tree t"
  by (cases t) auto

lemma parent_loop_None:
  "parent_loop data p path s = None \<Longrightarrow>
    data \<notin> below p \<and> (\<forall>((l, a, r), q) \<in> set s. data \<notin> below r)"
proof (induction data p path s rule: parent_loop.induct)
  case (1 data l a r path s)
  then show ?case by (auto simp: not_below split: if_splits)
qed auto

lemma parent_loop_Some:
  "parent_loop data p path s = Some ((l, a, r), q) \<Longrightarrow> plug p path = t \<Longrightarrow>
    \<forall>((l, a, r), q) \<in> set s. plug (Node l a r) q = t \<Longrightarrow>
    plug (Node l a r) q = t \<and> (has_data data l \<or> has_data data r)"
  by (induction data p path s rule: parent_loop.induct) (auto split: if_splits)

lemma unlink_rightmost_inorder:
  "unlink_rightmost l a r = (t, m) \<Longrightarrow> inorder t @ [m] = inorder l @ a # inorder r \<and> size t = size l + size r"
  by (induction l a r arbitrary: t rule: unlink_rightmost.induct) (fastforce split: prod.splits)+

lemma replacement_inorder: "inorder (replacement l r) = inorder l @ inorder r \<and> size (replacement l r) = size l + size r"
proof (cases l)
  case (Node ll a lr)
  obtain t m where "unlink_rightmost ll a lr = (t, m)" by (cases "unlink_rightmost ll a lr")
  then show ?thesis using unlink_rightmost_inorder [of ll a lr t m] Node by simp
qed simp

lemma size_plug: "size t = size u + k \<Longrightarrow> size (plug t p) = size (plug u p) + k"
proof (induction p arbitrary: t u)
  case (Cons f p)
  have "size (fill f t) = size (fill f u) + k" using Cons.prems by (cases f) auto
  then show ?case using Cons.IH by simp
qed simp

lemma bst_deleteNode_ok:
  assumes wf: "bst_wf b" and found: "data \<in> set_tree (Root b)" and no_root: "\<not> has_data data (Root b)"
  shows "\<exists>b'. bst_deleteNode data b = Some (True, b') \<and> bst_wf b' \<and>
    inorder (Root b') = remove1 data (inorder (Root b))"
proof -
  have ne: "Root b \<noteq> Leaf" using found by auto
  have "data \<in> below (Root b)"
    using found no_root by (cases "Root b") auto
  then obtain pl pa pr path where par: "parent_loop data (Root b) [] [] = Some ((pl, pa, pr), path)"
    using parent_loop_None [of data "Root b" "[]" "[]"] by (cases "parent_loop data (Root b) [] []") auto
  have at: "plug (Node pl pa pr) path = Root b" "has_data data pl \<or> has_data data pr"
    using parent_loop_Some [OF par, of "Root b"] by auto
  have search: "bst_search data b"
    using wf found ne search_loop_set by (auto simp: bst_search_def bst_empty_def bst_wf_def)
  have sorted: "strict_sorted (inorder (Root b))" using wf by (simp add: bst_wf_def)
  show ?thesis
  proof (cases "has_data data pl")
    case True
    then obtain l r where p: "pl = Node l data r" by (cases pl) auto
    let ?t = "plug (Node (replacement l r) pa pr) path"
    have "inorder (Root b) = (before path @ inorder l) @ data # (inorder r @ pa # inorder pr @ after path)"
      using at(1) p inorder_plug [of "Node pl pa pr" path] by simp
    then have "inorder ?t = remove1 data (inorder (Root b))"
      using remove1_mid [of "before path @ inorder l" data] sorted replacement_inorder [of l r]
      by (simp add: inorder_plug)
    moreover have "size (Root b) = size ?t + 1"
      using size_plug [of "Node pl pa pr" "Node (replacement l r) pa pr" 1 path] at(1) p replacement_inorder [of l r] by simp
    ultimately show ?thesis
      using ne search par True p no_root wf sorted strict_sorted_remove1
      by (auto simp: bst_deleteNode_def bst_parent_def bst_empty_def bst_wf_def)
  next
    case False
    then obtain l r where p: "pr = Node l data r" using at(2) by (cases pr) auto
    let ?t = "plug (Node pl pa (replacement l r)) path"
    have "inorder (Root b) = (before path @ inorder pl @ pa # inorder l) @ data # (inorder r @ after path)"
      using at(1) p inorder_plug [of "Node pl pa pr" path] by simp
    then have "inorder ?t = remove1 data (inorder (Root b))"
      using remove1_mid [of "before path @ inorder pl @ pa # inorder l" data] sorted replacement_inorder [of l r]
      by (simp add: inorder_plug)
    moreover have "size (Root b) = size ?t + 1"
      using size_plug [of "Node pl pa pr" "Node pl pa (replacement l r)" 1 path] at(1) p replacement_inorder [of l r] by simp
    ultimately show ?thesis
      using ne search par False p no_root wf sorted strict_sorted_remove1
      by (auto simp: bst_deleteNode_def bst_parent_def bst_empty_def bst_wf_def)
  qed
qed

section \<open>Destruction\<close>

lemma mset_push_child: "mset (concat (map (\<lambda>(l, a, r). inorder l @ a # inorder r) (push_child t q))) =
    mset (inorder t) + mset (concat (map (\<lambda>(l, a, r). inorder l @ a # inorder r) q))"
  by (cases t) auto

lemma mset_free_loop: "mset (free_loop q) = mset (concat (map (\<lambda>(l, a, r). inorder l @ a # inorder r) q))"
  by (induction q rule: free_loop.induct) (simp_all add: mset_push_child)

section \<open>Contract\<close>

interpretation bst: search_tree "\<lparr>Root = Leaf, bst_size = 0\<rparr>" "\<lambda>k b. Some (snd (bst_insertNode k b))"
  bst_search "\<lambda>b. inorder (Root b)" ins_set bst_wf
proof unfold_locales
  show "\<exists>t'. Some (snd (bst_insertNode k t)) = Some t' \<and> bst_wf t' \<and>
      inorder (Root t') = ins_set k (inorder (Root t))" if "bst_wf t" for t k
    using bst_insertNode_ok [OF that, of k] by (cases "bst_insertNode k t") auto
  show "sorted (inorder (Root t))" if "bst_wf t" for t
    using that by (simp add: bst_wf_def strict_sorted_imp_sorted)
  show "bst_search k t = (k \<in> set (inorder (Root t)))" if "bst_wf t" for t k
    using that search_loop_set [of "Root t" k] by (auto simp: bst_wf_def bst_search_def bst_empty_def)
qed (auto simp: bst_wf_def set_ins_set)

section \<open>Properties\<close>

lemma bst_new_wf: "bst_wf (bst_new arr) \<and> set_tree (Root (bst_new arr)) = set arr"
proof -
  have "bst_wf b \<Longrightarrow> bst_wf (foldl (\<lambda>b x. snd (bst_insertNode x b)) b arr) \<and>
      set_tree (Root (foldl (\<lambda>b x. snd (bst_insertNode x b)) b arr)) = set_tree (Root b) \<union> set arr" for b
  proof (induction arr arbitrary: b)
    case (Cons x arr)
    obtain ok b' where b': "bst_insertNode x b = (ok, b')" by (cases "bst_insertNode x b")
    have "bst_wf b'" "set_tree (Root b') = insert x (set_tree (Root b))"
      using bst_insertNode_ok [OF Cons.prems b'] by (auto simp: set_ins_set simp flip: set_inorder)
    then show ?case using Cons.IH [of b'] b' by auto
  qed simp
  from this [of "\<lparr>Root = Leaf, bst_size = 0\<rparr>"] show ?thesis
    by (simp add: bst_new_def bst_wf_def)
qed

lemma strict_sorted_list_of_set: "strict_sorted xs \<Longrightarrow> sorted_list_of_set (set xs) = xs"
  by (simp add: strict_sorted_iff sorted_list_of_set.idem_if_sorted_distinct)

text \<open>
  The tree built from an array prints the array's values in increasing order without
  repetitions, counts them in \<^verbatim>\<open>size\<close>, finds exactly them, counts its leaves,
  and its destructor frees every node once.
\<close>

theorem bst_new_spec:
  "bst_traverse (bst_new arr) = sorted_list_of_set (set arr) \<and>
   bst_size (bst_new arr) = int (card (set arr)) \<and>
   (bst_search x (bst_new arr) \<longleftrightarrow> x \<in> set arr) \<and>
   bst_leaf (bst_new arr) = leaves (Root (bst_new arr)) \<and>
   mset (bst_destroy (bst_new arr)) = mset_set (set arr)"
proof -
  let ?b = "bst_new arr"
  have wf: "bst_wf ?b" "set_tree (Root ?b) = set arr" using bst_new_wf by auto
  then have io: "inorder (Root ?b) = sorted_list_of_set (set arr)"
    using strict_sorted_list_of_set [of "inorder (Root ?b)"] by (simp add: bst_wf_def)
  have "size (Root ?b) = card (set arr)"
    using io length_inorder [of "Root ?b"] by simp
  moreover have "mset (free_loop (push_child (Root ?b) [])) = mset_set (set arr)"
    using io by (simp add: mset_free_loop mset_push_child mset_sorted_list_of_set)
  ultimately show ?thesis
    using wf io bst.member_ok [OF wf(1), of x]
    by (cases "Root ?b")
      (auto simp: bst_traverse_def bst_empty_def bst_wf_def bst_leaf_def bst_destroy_def
        inorder_loop_ahead leaf_loop_leaves)
qed

text \<open>
  C34. \<^verbatim>\<open>deleteNode(data)\<close> on a well-formed tree. A key that is absent is
  refused and nothing changes. A key that is present below the root is removed, the tree
  stays well formed and \<^verbatim>\<open>size\<close> counts its nodes. When the key is in the
  root, \<^verbatim>\<open>parent\<close> returns null and the code dereferences it.
\<close>

theorem bst_deleteNode_spec:
  "bst_wf b \<Longrightarrow>
     (data \<notin> set_tree (Root b) \<longrightarrow> bst_deleteNode data b = Some (False, b)) \<and>
     (data \<in> set_tree (Root b) \<and> \<not> has_data data (Root b) \<longrightarrow>
        (\<exists>b'. bst_deleteNode data b = Some (True, b') \<and> bst_wf b' \<and>
          inorder (Root b') = remove1 data (inorder (Root b)))) \<and>
     (has_data data (Root b) \<longrightarrow> bst_deleteNode data b = None)"
  using bst_deleteNode_ok [of b data] bst.member_ok [of b data] has_data_set [of data "Root b"]
  by (auto simp: bst_deleteNode_def bst_parent_def bst_empty_def)

theorem bst_deleteNode_spec_witness:
  "(\<exists>b'. bst_deleteNode 1 (bst_new [2, 1, 3]) = Some (True, b') \<and> bst_wf b' \<and>
      inorder (Root b') = [2, 3]) \<and> bst_deleteNode 2 (bst_new [2, 1, 3]) = None"
proof -
  have b: "bst_new [2, 1, 3] = \<lparr>Root = Node (Node Leaf 1 Leaf) 2 (Node Leaf 3 Leaf), bst_size = 3\<rparr>"
    by (simp add: bst_new_def bst_insertNode_def)
  show ?thesis
    using bst_deleteNode_spec [of "bst_new [2, 1, 3]" 1] bst_deleteNode_spec [of "bst_new [2, 1, 3]" 2]
    unfolding b by (simp add: bst_wf_def)
qed

lemma strict_sorted_takeWhile:
  "strict_sorted xs \<Longrightarrow> data \<in> set xs \<Longrightarrow> set (takeWhile (\<lambda>x. x \<noteq> data) xs) = {x \<in> set xs. x < data}"
  by (induction xs) auto

text \<open>
  \<^verbatim>\<open>predecessor(data)\<close>, for a key of the tree, is the greatest key below it,
  or null when there is none.
\<close>

theorem bst_predecessor_spec:
  "bst_wf b \<Longrightarrow> data \<in> set_tree (Root b) \<Longrightarrow>
    bst_predecessor data b =
      (let less = {x \<in> set_tree (Root b). x < data} in if less = {} then None else Some (Max less))"
proof -
  assume wf: "bst_wf b" and data: "data \<in> set_tree (Root b)"
  let ?w = "takeWhile (\<lambda>x. x \<noteq> data) (inorder (Root b))"
  have sorted: "strict_sorted (inorder (Root b))" using wf by (simp add: bst_wf_def)
  have set: "set ?w = {x \<in> set_tree (Root b). x < data}"
    using strict_sorted_takeWhile [OF sorted] data by simp
  have "sorted ?w"
    using sorted strict_sorted_imp_sorted sorted_takeWhile by blast
  then have "?w \<noteq> [] \<Longrightarrow> last ?w = Max (set ?w)"
    by (rule sorted_last_Max)
  moreover have "bst_predecessor data b = (if ?w = [] then None else Some (last ?w))"
    using data by (auto simp: bst_predecessor_def bst_empty_def predecessor_loop_ahead Let_def)
  ultimately show ?thesis
    unfolding set [symmetric] Let_def set_empty by auto
qed

theorem bst_predecessor_spec_witness: "bst_predecessor 3 (bst_new [2, 1, 3]) = Some 2"
proof -
  have b: "bst_new [2, 1, 3] = \<lparr>Root = Node (Node Leaf 1 Leaf) 2 (Node Leaf 3 Leaf), bst_size = 3\<rparr>"
    by (simp add: bst_new_def bst_insertNode_def)
  have less: "{x \<in> set_tree (Node (Node Leaf 1 Leaf) 2 (Node Leaf 3 Leaf)). x < 3} = {1, 2 :: int}"
    by auto
  have "bst_predecessor 3 (bst_new [2, 1, 3]) = (if {1, 2 :: int} = {} then None else Some (Max {1, 2}))"
    by (subst bst_predecessor_spec) (simp_all only: b bst_state.simps less Let_def, simp_all add: bst_wf_def)
  then show ?thesis by simp
qed

lemma subtrees_set_tree: "Node l d r \<in> subtrees t \<Longrightarrow> d \<in> set_tree t"
  by (induction t) auto

lemma successor_loop_right:
  "Node l data r \<in> subtrees p \<or>
   (\<exists>(l', a', r') \<in> set s. Node l data r = Node l' a' r' \<or> Node l data r \<in> subtrees r') \<Longrightarrow>
   distinct (ahead p s) \<Longrightarrow> successor_loop data p s = r"
proof (induction data p s rule: successor_loop.induct)
  case (2 data l' a' r' s)
  show ?case
  proof (cases "a' = data")
    case True
    then have "Node l data r = Node l' a' r'"
      using "2.prems" by (force dest: subtrees_set_tree)
    then show ?thesis using True by simp
  next
    case False
    then show ?thesis using "2.IH" "2.prems" by auto
  qed
qed auto

text \<open>
  \<^verbatim>\<open>successor(data)\<close> returns the right child of the node that holds the
  key. That is the node with the next key only if this child has no left child of its own.
\<close>

theorem bst_successor_right_child:
  "bst_wf b \<Longrightarrow> Node l data r \<in> subtrees (Root b) \<Longrightarrow> bst_successor data b = r"
  using successor_loop_right [of l data r "Root b" "[]"]
  by (auto simp: bst_successor_def bst_empty_def bst_wf_def strict_sorted_iff)

theorem bst_successor_right_child_witness:
  "value (bst_successor 5 (bst_new [5, 8, 6])) = 8 \<and> 6 \<in> set_tree (Root (bst_new [5, 8, 6]))"
proof -
  have b: "bst_new [5, 8, 6] = \<lparr>Root = Node Leaf 5 (Node (Node Leaf 6 Leaf) 8 Leaf), bst_size = 3\<rparr>"
    by (simp add: bst_new_def bst_insertNode_def)
  show ?thesis
    using bst_successor_right_child [of "bst_new [5, 8, 6]" Leaf 5 "Node (Node Leaf 6 Leaf) 8 Leaf"]
    unfolding b by (simp add: bst_wf_def)
qed

end
