(* ===== verification/Sort_Contract.thy ===== *)
theory Sort_Contract
  imports Cpp_Prelude
begin

text \<open>
  The contract of the sorting routines of \<^verbatim>\<open>cpp/sort\<close> as a locale: on the inputs of
  its domain a routine returns (no access is out of range, every loop ends) a sorted
  permutation of the vector. Two routines that satisfy it agree, and a routine changes
  nothing in a vector that is sorted already. The theory also has the facts on positions
  that the exchange sorts share.
\<close>

locale sorting_routine =
  fixes routine :: "int list \<Rightarrow> int list ub"
    and accepts :: "int list \<Rightarrow> bool"
  assumes sorts: "accepts xs \<Longrightarrow> \<exists>ys. routine xs = Some ys \<and> sorted ys \<and> mset ys = mset xs"
begin

lemma is_sort: "accepts xs \<Longrightarrow> routine xs = Some (sort xs)"
  using sorts [of xs] by (metis properties_for_sort)

lemma length_kept: "accepts xs \<Longrightarrow> routine xs = Some ys \<Longrightarrow> length ys = length xs"
  by (simp add: is_sort) (metis length_sort)

lemma idle_on_sorted: "accepts xs \<Longrightarrow> sorted xs \<Longrightarrow> routine xs = Some xs"
  by (simp add: is_sort sorted_sort_id)

lemma order_irrelevant: "accepts xs \<Longrightarrow> accepts ys \<Longrightarrow> mset xs = mset ys \<Longrightarrow> routine xs = routine ys"
  by (metis is_sort properties_for_sort mset_sort sorted_sort)

end

section \<open>Ends of a vector that are in their final place\<close>

text \<open>Every element from position \<open>m\<close> on is at least all elements before it.\<close>

definition suffix_ok :: "nat \<Rightarrow> int list \<Rightarrow> bool" where
  "suffix_ok m xs \<longleftrightarrow> (\<forall>a b. a \<le> b \<longrightarrow> m \<le> b \<longrightarrow> b < length xs \<longrightarrow> xs ! a \<le> xs ! b)"

text \<open>Every element before position \<open>m\<close> is at most all elements after it.\<close>

definition prefix_ok :: "nat \<Rightarrow> int list \<Rightarrow> bool" where
  "prefix_ok m xs \<longleftrightarrow> (\<forall>a b. a < m \<longrightarrow> a \<le> b \<longrightarrow> b < length xs \<longrightarrow> xs ! a \<le> xs ! b)"

lemma suffix_ok_length: "suffix_ok (length xs) xs"
  by (simp add: suffix_ok_def)

lemma suffix_ok_sorted: "m \<le> 1 \<Longrightarrow> suffix_ok m xs \<Longrightarrow> sorted xs"
  unfolding sorted_iff_nth_mono suffix_ok_def
  by (metis less_one linorder_not_le order_less_le_trans le_less_linear le_neq_implies_less
      nat_less_le order_refl bot_nat_0.extremum_uniqueI)

lemma prefix_ok_0: "prefix_ok 0 xs"
  by (simp add: prefix_ok_def)

lemma prefix_ok_sorted: "length xs \<le> Suc m \<Longrightarrow> prefix_ok m xs \<Longrightarrow> sorted xs"
  unfolding sorted_iff_nth_mono prefix_ok_def
  by (metis Suc_leI le_antisym less_Suc_eq_le less_le_trans not_less order_refl leI)

text \<open>Permuting the part below \<open>m\<close> only, and a new maximum at its end.\<close>

lemma set_take_nth: "m \<le> length xs \<Longrightarrow> set (take m xs) = {xs ! k | k. k < m}"
  by (force simp: set_conv_nth)

lemma suffix_ok_step:
  assumes "suffix_ok (Suc m) xs" "length ys = length xs" "m < length xs"
    and "set (take (Suc m) ys) = set (take (Suc m) xs)"
    and "\<And>k. m < k \<Longrightarrow> k < length xs \<Longrightarrow> ys ! k = xs ! k"
    and "\<And>k. k \<le> m \<Longrightarrow> ys ! k \<le> ys ! m"
  shows "suffix_ok m ys"
  unfolding suffix_ok_def
proof (intro allI impI)
  fix a b assume ab: "a \<le> b" "m \<le> b" "b < length ys"
  show "ys ! a \<le> ys ! b"
  proof (cases "b = m")
    case True
    then show ?thesis using ab assms(6) by simp
  next
    case False
    then have b: "ys ! b = xs ! b" "Suc m \<le> b" using ab assms(2,5) by auto
    show ?thesis
    proof (cases "a \<le> m")
      case True
      then have "ys ! a \<in> set (take (Suc m) xs)"
        using assms(2,3,4) set_take_nth [of "Suc m" ys] by (metis (mono_tags, lifting) Suc_leI le_imp_less_Suc mem_Collect_eq)
      then obtain k where "k < Suc m" "ys ! a = xs ! k"
        using assms(3) set_take_nth [of "Suc m" xs] by auto
      then show ?thesis using assms(1,2) b ab by (auto simp: suffix_ok_def)
    next
      case False
      then show ?thesis using assms(1,2,5) b ab by (auto simp: suffix_ok_def)
    qed
  qed
qed

lemma set_take_mset:
  assumes "mset ys = mset xs" "drop m ys = drop m xs"
  shows "set (take m ys) = set (take m xs)"
proof -
  have "mset (take m ys) + mset (drop m ys) = mset (take m xs) + mset (drop m xs)"
    using assms(1) by (metis append_take_drop_id mset_append)
  then have "mset (take m ys) = mset (take m xs)" using assms(2) by simp
  then show ?thesis by (metis set_mset_mset)
qed

lemma drop_eq_nth: "length ys = length xs \<Longrightarrow> (\<And>k. m \<le> k \<Longrightarrow> k < length xs \<Longrightarrow> ys ! k = xs ! k) \<Longrightarrow>
    drop m ys = drop m xs"
  by (rule nth_equalityI) auto

end
