(* ===== verification/Sort_Exchange.thy ===== *)
theory Sort_Exchange
  imports Sort_Contract
begin

text \<open>
  The exchange sorts of \<^verbatim>\<open>cpp/sort\<close>: bubble, selection, insertion and Shell sort,
  each loop of the source as a recursive function over its counter with checked accesses.
  Unsigned subtraction on \<^verbatim>\<open>size_t\<close> wraps around, which matters for the empty
  vector. Interpretations of the sorting contract give the results; one selection sort of
  the repository does not sort.
\<close>

section \<open>Bubble sort\<close>

text \<open>\<^verbatim>\<open>if (vec[j] > vec[j + 1]) swap(vec[j], vec[j + 1])\<close> at an arbitrary distance.\<close>

definition exchange :: "nat \<Rightarrow> nat \<Rightarrow> int list \<Rightarrow> int list ub" where
  "exchange i j vec = do { a \<leftarrow> vget vec i; b \<leftarrow> vget vec j; if a > b then vswap vec i j else Some vec }"

function bubble_inner :: "nat \<Rightarrow> nat \<Rightarrow> int list \<Rightarrow> int list ub" where
  "bubble_inner j n vec =
     (if j < n then do { vec' \<leftarrow> exchange j (j + 1) vec; bubble_inner (j + 1) n vec' } else Some vec)"
  by pat_completeness auto
termination
  by (relation "measure (\<lambda>(j, n, vec). n - j)") auto

function bubble_outer :: "nat \<Rightarrow> nat \<Rightarrow> int list \<Rightarrow> int list ub" where
  "bubble_outer i len vec =
     (if i + 1 < len then do { vec' \<leftarrow> bubble_inner 0 (len - i - 1) vec; bubble_outer (i + 1) len vec' }
      else Some vec)"
  by pat_completeness auto
termination
  by (relation "measure (\<lambda>(i, len, vec). len - i)") auto

declare bubble_inner.simps [simp del] bubble_outer.simps [simp del]

definition bubbleSort :: "int list \<Rightarrow> nat \<Rightarrow> int list ub" where
  "bubbleSort vec len = bubble_outer 0 len vec"

text \<open>
  \<^verbatim>\<open>bubbleSort5\<close> compares with \<^verbatim>\<open>data.size() - 1\<close> in
  \<^verbatim>\<open>size_t\<close>; for the empty vector that is the largest value, so the loops are
  entered.
\<close>

definition size_t_sub :: "nat \<Rightarrow> nat \<Rightarrow> nat" where
  "size_t_sub a b = (a + 2 ^ 64 - b) mod 2 ^ 64"

function bubble5_outer :: "nat \<Rightarrow> nat \<Rightarrow> int list \<Rightarrow> int list ub" where
  "bubble5_outer i sz data =
     (if i < size_t_sub sz 1
      then do { data' \<leftarrow> bubble_inner 0 (size_t_sub (size_t_sub sz i) 1) data; bubble5_outer (i + 1) sz data' }
      else Some data)"
  by pat_completeness auto
termination
  by (relation "measure (\<lambda>(i, sz, data). size_t_sub sz 1 - i)") auto

declare bubble5_outer.simps [simp del]

definition bubbleSort5 :: "int list \<Rightarrow> int list ub" where
  "bubbleSort5 data = bubble5_outer 0 (length data) data"

section \<open>Selection sort\<close>

function select_inner :: "nat \<Rightarrow> nat \<Rightarrow> int list \<Rightarrow> nat ub" where
  "select_inner j minIndex vec =
     (if j < length vec
      then do { a \<leftarrow> vget vec j; b \<leftarrow> vget vec minIndex; select_inner (j + 1) (if a < b then j else minIndex) vec }
      else Some minIndex)"
  by pat_completeness auto
termination
  by (relation "measure (\<lambda>(j, minIndex, vec). length vec - j)") auto

function select_outer :: "nat \<Rightarrow> nat \<Rightarrow> int list \<Rightarrow> int list ub" where
  "select_outer i n vec =
     (if i < n then do { m \<leftarrow> select_inner i i vec; vec' \<leftarrow> vswap vec m i; select_outer (i + 1) n vec' }
      else Some vec)"
  by pat_completeness auto
termination
  by (relation "measure (\<lambda>(i, n, vec). n - i)") auto

declare select_inner.simps [simp del] select_outer.simps [simp del]

definition selectSort :: "int list \<Rightarrow> int list ub" where
  "selectSort vec = select_outer 0 (length vec) vec"

text \<open>\<^verbatim>\<open>for (j = data.size() - 1; j > i; j--) if (data[index] >= data[j]) index = j\<close>\<close>

fun select2_inner :: "nat \<Rightarrow> nat \<Rightarrow> nat \<Rightarrow> int list \<Rightarrow> nat ub" where
  "select2_inner i 0 index data = Some index"
| "select2_inner i (Suc j) index data =
     (if Suc j > i
      then do { a \<leftarrow> vget data index; b \<leftarrow> vget data (Suc j);
                select2_inner i j (if a \<ge> b then Suc j else index) data }
      else Some index)"

function select2_outer :: "nat \<Rightarrow> nat \<Rightarrow> int list \<Rightarrow> int list ub" where
  "select2_outer i n data =
     (if i < n
      then do { m \<leftarrow> select2_inner i (n - 1) (n - 1) data; data' \<leftarrow> vswap data i m; select2_outer (i + 1) n data' }
      else Some data)"
  by pat_completeness auto
termination
  by (relation "measure (\<lambda>(i, n, data). n - i)") auto

definition selectSort2 :: "int list \<Rightarrow> int list ub" where
  "selectSort2 data = select2_outer 0 (length data) data"

section \<open>Insertion sort\<close>

text \<open>\<open>k\<close> is \<^verbatim>\<open>j + 1\<close>, so the loop guard \<^verbatim>\<open>j >= 0\<close> is \<open>k > 0\<close>.\<close>

fun insert_inner :: "nat \<Rightarrow> int list \<Rightarrow> int list ub" where
  "insert_inner 0 data = Some data"
| "insert_inner (Suc j) data =
     do { a \<leftarrow> vget data (j + 1); b \<leftarrow> vget data j;
          if a < b then do { data' \<leftarrow> vswap data j (j + 1); insert_inner j data' } else Some data }"

function insert_outer :: "nat \<Rightarrow> nat \<Rightarrow> int list \<Rightarrow> int list ub" where
  "insert_outer i n data =
     (if i < n then do { data' \<leftarrow> insert_inner i data; insert_outer (i + 1) n data' } else Some data)"
  by pat_completeness auto
termination
  by (relation "measure (\<lambda>(i, n, data). n - i)") auto

declare insert_outer.simps [simp del]

definition insertSort :: "int list \<Rightarrow> int list ub" where
  "insertSort data = insert_outer 1 (length data) data"

fun insert2_inner :: "nat \<Rightarrow> int list \<Rightarrow> int list ub" where
  "insert2_inner 0 data = Some data"
| "insert2_inner (Suc j) data = do { data' \<leftarrow> exchange j (Suc j) data; insert2_inner j data' }"

function insert2_outer :: "nat \<Rightarrow> nat \<Rightarrow> int list \<Rightarrow> int list ub" where
  "insert2_outer i n data =
     (if i < n then do { data' \<leftarrow> insert2_inner i data; insert2_outer (i + 1) n data' } else Some data)"
  by pat_completeness auto
termination
  by (relation "measure (\<lambda>(i, n, data). n - i)") auto

declare insert2_outer.simps [simp del]

definition insertSort2 :: "int list \<Rightarrow> int list ub" where
  "insertSort2 data = insert2_outer 1 (length data) data"

section \<open>Shell sort\<close>

text \<open>
  The innermost loop \<^verbatim>\<open>for (j = i - gap; j >= 0; j -= gap)\<close>: \<open>k\<close> is
  \<^verbatim>\<open>j + gap\<close>, so \<^verbatim>\<open>j >= 0\<close> is \<open>k \<ge> gap\<close>.
\<close>

function shell_inner :: "nat \<Rightarrow> nat \<Rightarrow> int list \<Rightarrow> int list ub" where
  "shell_inner gap k data =
     (if gap \<le> k \<and> 0 < gap
      then do { data' \<leftarrow> exchange (k - gap) k data; shell_inner gap (k - gap) data' }
      else Some data)"
  by pat_completeness auto
termination
  by (relation "measure (\<lambda>(gap, k, data). k)") auto

function shell_pass :: "nat \<Rightarrow> nat \<Rightarrow> nat \<Rightarrow> int list \<Rightarrow> int list ub" where
  "shell_pass gap i n data =
     (if i < n then do { data' \<leftarrow> shell_inner gap i data; shell_pass gap (i + 1) n data' } else Some data)"
  by pat_completeness auto
termination
  by (relation "measure (\<lambda>(gap, i, n, data). n - i)") auto

function shell_gaps :: "nat \<Rightarrow> nat \<Rightarrow> int list \<Rightarrow> int list ub" where
  "shell_gaps gap n data =
     (if gap > 0 then do { data' \<leftarrow> shell_pass gap gap n data; shell_gaps (gap div 2) n data' } else Some data)"
  by pat_completeness auto
termination
  by (relation "measure (\<lambda>(gap, n, data). gap)") auto

declare shell_inner.simps [simp del] shell_pass.simps [simp del] shell_gaps.simps [simp del]

definition shellSort1 :: "int list \<Rightarrow> int list ub" where
  "shellSort1 data = shell_gaps (length data div 2) (length data) data"

text \<open>\<^verbatim>\<open>shellSort2\<close> writes the halving as a shift and the outer loop with \<^verbatim>\<open>while\<close>.\<close>

definition shellSort2 :: "int list \<Rightarrow> int list ub" where
  "shellSort2 data = shell_gaps (drop_bit 1 (length data)) (length data) data"

section \<open>Correctness\<close>

lemma exchange_in:
  assumes "i < length xs" "j < length xs"
  shows "\<exists>ys. exchange i j xs = Some ys \<and> mset ys = mset xs \<and> length ys = length xs \<and>
    (\<forall>k. k \<noteq> i \<longrightarrow> k \<noteq> j \<longrightarrow> ys ! k = xs ! k) \<and>
    (i \<noteq> j \<longrightarrow> ys ! i = min (xs ! i) (xs ! j) \<and> ys ! j = max (xs ! i) (xs ! j))"
  using assms by (auto simp: exchange_def vec_simps mset_swap_list nth_list_update)

lemma bubble_inner_ok:
  "n < length xs \<Longrightarrow> j \<le> n \<Longrightarrow> \<forall>k \<le> j. xs ! k \<le> xs ! j \<Longrightarrow>
    \<exists>ys. bubble_inner j n xs = Some ys \<and> mset ys = mset xs \<and> length ys = length xs \<and>
      (\<forall>k > n. ys ! k = xs ! k) \<and> (\<forall>k \<le> n. ys ! k \<le> ys ! n)"
proof (induction j n xs rule: bubble_inner.induct)
  case (1 j n xs)
  show ?case
  proof (cases "j < n")
    case True
    obtain ys where ys: "exchange j (j + 1) xs = Some ys" "mset ys = mset xs" "length ys = length xs"
      "\<forall>k. k \<noteq> j \<longrightarrow> k \<noteq> j + 1 \<longrightarrow> ys ! k = xs ! k"
      "ys ! j = min (xs ! j) (xs ! (j + 1))" "ys ! (j + 1) = max (xs ! j) (xs ! (j + 1))"
      using exchange_in [of j xs "j + 1"] True "1.prems"(1) by auto
    have "\<forall>k \<le> j + 1. ys ! k \<le> ys ! (j + 1)"
    proof (intro allI impI)
      fix k assume "k \<le> j + 1"
      then consider "k = j + 1" | "k = j" | "k < j" by linarith
      then show "ys ! k \<le> ys ! (j + 1)"
        using ys(4-6) "1.prems"(3) by cases (auto simp: le_max_iff_disj)
    qed
    then obtain zs where "bubble_inner (j + 1) n ys = Some zs" "mset zs = mset ys" "length zs = length ys"
      "\<forall>k > n. zs ! k = ys ! k" "\<forall>k \<le> n. zs ! k \<le> zs ! n"
      using "1.IH" [OF True ys(1)] "1.prems" True ys(3) by auto
    then show ?thesis
      using ys True by (auto simp: bubble_inner.simps [of j n xs])
  next
    case False
    then have "bubble_inner j n xs = Some xs" by (simp add: bubble_inner.simps [of j n xs])
    moreover have "j = n" using False "1.prems" by simp
    ultimately show ?thesis using "1.prems" by simp
  qed
qed

lemma bubble_outer_ok:
  "suffix_ok (length xs - i) xs \<Longrightarrow>
    \<exists>ys. bubble_outer i (length xs) xs = Some ys \<and> sorted ys \<and> mset ys = mset xs"
proof (induction "length xs - i" arbitrary: i xs rule: less_induct)
  case less
  show ?case
  proof (cases "i + 1 < length xs")
    case True
    let ?n = "length xs - i - 1"
    have "?n < length xs" using True by linarith
    then obtain ys where ys: "bubble_inner 0 ?n xs = Some ys" "mset ys = mset xs" "length ys = length xs"
      "\<forall>k > ?n. ys ! k = xs ! k" "\<forall>k \<le> ?n. ys ! k \<le> ys ! ?n"
      using bubble_inner_ok [of ?n xs 0] True by auto
    have "drop (Suc ?n) ys = drop (Suc ?n) xs"
      using ys by (intro drop_eq_nth) auto
    then have "suffix_ok ?n ys"
      using ys less.prems True by (intro suffix_ok_step [of ?n xs ys] set_take_mset) (auto simp: Suc_diff_Suc)
    then have "\<exists>zs. bubble_outer (i + 1) (length ys) ys = Some zs \<and> sorted zs \<and> mset zs = mset ys"
      using less.hyps [of ys "i + 1"] True ys(3) by simp
    then show ?thesis
      using True ys by (simp add: bubble_outer.simps [of i "length xs" xs])
  next
    case False
    then show ?thesis
      using less.prems suffix_ok_sorted [of "length xs - i" xs] by (simp add: bubble_outer.simps [of i "length xs" xs])
  qed
qed

interpretation bubble: sorting_routine "\<lambda>xs. bubbleSort xs (length xs)" "\<lambda>_. True"
  by unfold_locales (use bubble_outer_ok [where i = 0] in \<open>simp add: bubbleSort_def suffix_ok_length\<close>)

lemma size_t_sub_le: "b \<le> a \<Longrightarrow> a < 2 ^ 64 \<Longrightarrow> size_t_sub a b = a - b"
proof -
  assume "b \<le> a" "a < 2 ^ 64"
  then have "a + 2 ^ 64 - b = (a - b) + 2 ^ 64" by simp
  then show ?thesis using \<open>a < 2 ^ 64\<close> by (simp only: size_t_sub_def mod_add_self2) simp
qed

lemma bubble5_eq:
  "length xs \<noteq> 0 \<Longrightarrow> length xs < 2 ^ 64 \<Longrightarrow> i < length xs \<Longrightarrow> n = length xs \<Longrightarrow> bubble5_outer i n xs = bubble_outer i n xs"
proof (induction i n xs rule: bubble_outer.induct)
  case (1 i len vec)
  show ?case
  proof (cases "i + 1 < len")
    case True
    then have "bubble5_outer (i + 1) len vec' = bubble_outer (i + 1) len vec'"
      if "bubble_inner 0 (len - i - 1) vec = Some vec'" for vec'
      using that bubble_inner_ok [of "len - i - 1" vec 0] "1.prems" by (intro "1.IH") auto
    then have "bubble_inner 0 (len - i - 1) vec \<bind> bubble5_outer (i + 1) len = bubble_inner 0 (len - i - 1) vec \<bind> bubble_outer (i + 1) len"
      by (cases "bubble_inner 0 (len - i - 1) vec") auto
    then show ?thesis
      using True "1.prems" by (auto simp: bubble5_outer.simps [of i "length vec" vec] bubble_outer.simps [of i "length vec" vec] size_t_sub_le)
  next
    case False
    then show ?thesis
      using "1.prems" by (auto simp: bubble5_outer.simps [of i "length vec" vec] bubble_outer.simps [of i "length vec" vec] size_t_sub_le)
  qed
qed

interpretation bubble5: sorting_routine bubbleSort5 "\<lambda>xs. xs \<noteq> [] \<and> length xs < 2 ^ 64"
  by unfold_locales (use bubble_outer_ok [where i = 0] in \<open>simp add: bubbleSort5_def bubble5_eq suffix_ok_length\<close>)

lemma bubbleSort5_Nil: "bubbleSort5 [] = None"
  by (simp add: bubbleSort5_def bubble5_outer.simps size_t_sub_def bubble_inner.simps exchange_def vget_def)

subsection \<open>Selection\<close>

lemma select_inner_ok:
  "i \<le> j \<Longrightarrow> i \<le> m \<Longrightarrow> m < length xs \<Longrightarrow> \<forall>k. i \<le> k \<longrightarrow> k < j \<longrightarrow> xs ! m \<le> xs ! k \<Longrightarrow>
    \<exists>m'. select_inner j m xs = Some m' \<and> i \<le> m' \<and> m' < length xs \<and>
      (\<forall>k. i \<le> k \<longrightarrow> k < length xs \<longrightarrow> xs ! m' \<le> xs ! k)"
proof (induction j m xs rule: select_inner.induct)
  case (1 j m vec)
  show ?case
  proof (cases "j < length vec")
    case True
    let ?m = "if vec ! j < vec ! m then j else m"
    have get: "vget vec j = Some (vec ! j)" "vget vec m = Some (vec ! m)"
      using True "1.prems" by (simp_all add: vec_simps)
    have "\<forall>k. i \<le> k \<longrightarrow> k < j + 1 \<longrightarrow> vec ! ?m \<le> vec ! k"
      using "1.prems"(4) by (fastforce simp: less_Suc_eq)
    then show ?thesis
      using "1.IH" [OF True get] "1.prems" True get by (simp add: select_inner.simps [of j m vec])
  next
    case False
    then show ?thesis using "1.prems" by (auto simp: select_inner.simps [of j m vec])
  qed
qed

lemma prefix_ok_swap_min:
  assumes "prefix_ok i xs" "i \<le> m" "m < length xs" "\<forall>k. i \<le> k \<longrightarrow> k < length xs \<longrightarrow> xs ! m \<le> xs ! k"
  shows "prefix_ok (Suc i) (xs[m := xs ! i, i := xs ! m])"
  using assms unfolding prefix_ok_def by (auto simp: nth_list_update less_Suc_eq)

lemma select_outer_ok:
  "prefix_ok i xs \<Longrightarrow> n = length xs \<Longrightarrow> \<exists>ys. select_outer i n xs = Some ys \<and> sorted ys \<and> mset ys = mset xs"
proof (induction i n xs rule: select_outer.induct)
  case (1 i n vec)
  show ?case
  proof (cases "i < n")
    case True
    obtain m where m: "select_inner i i vec = Some m" "i \<le> m" "m < length vec"
      "\<forall>k. i \<le> k \<longrightarrow> k < length vec \<longrightarrow> vec ! m \<le> vec ! k"
      using select_inner_ok [of i i i vec] True "1.prems" by auto
    let ?v = "vec[m := vec ! i, i := vec ! m]"
    have swap: "vswap vec m i = Some ?v" "mset ?v = mset vec"
      using m True "1.prems" by (simp_all add: vec_simps mset_swap_list)
    show ?thesis
      using "1.IH" [OF True m(1) swap(1)] prefix_ok_swap_min [OF "1.prems"(1) m(2-4)] "1.prems" True m(1) swap
      by (simp add: select_outer.simps [of i "length vec" vec])
  next
    case False
    then show ?thesis
      using "1.prems" prefix_ok_sorted [of vec i] by (simp add: select_outer.simps [of i "length vec" vec])
  qed
qed

interpretation select: sorting_routine selectSort "\<lambda>_. True"
  by unfold_locales (use select_outer_ok [where i = 0] in \<open>simp add: selectSort_def prefix_ok_0\<close>)

subsection \<open>Insertion and Shell\<close>

text \<open>Below position \<open>i\<close> only pairs that end at position \<open>k\<close> may be out of order.\<close>

definition ins_inv :: "nat \<Rightarrow> nat \<Rightarrow> int list \<Rightarrow> bool" where
  "ins_inv k i xs \<longleftrightarrow> (\<forall>a b. a < b \<longrightarrow> b \<le> i \<longrightarrow> b \<noteq> k \<longrightarrow> xs ! a \<le> xs ! b)"

lemma ins_inv_start: "sorted_upto i xs \<Longrightarrow> ins_inv i i xs"
  by (auto simp: ins_inv_def sorted_upto_def)

lemma ins_inv_done: "ins_inv 0 i xs \<Longrightarrow> sorted_upto (Suc i) xs"
  by (auto simp: ins_inv_def sorted_upto_def) (metis le_eq_less_or_eq less_Suc_eq_le not_less_zero order_refl)

lemma ins_inv_exchange:
  assumes "ins_inv (Suc j) i xs" "Suc j \<le> i"
    "\<forall>k. k \<noteq> j \<longrightarrow> k \<noteq> Suc j \<longrightarrow> ys ! k = xs ! k"
    "ys ! j = min (xs ! j) (xs ! Suc j)" "ys ! Suc j = max (xs ! j) (xs ! Suc j)"
  shows "ins_inv j i ys"
  unfolding ins_inv_def
proof (intro allI impI)
  fix a b assume ab: "a < b" "b \<le> i" "b \<noteq> j"
  have x: "xs ! c \<le> xs ! d" if "c < d" "d \<le> i" "d \<noteq> Suc j" for c d
    using assms(1) that by (simp add: ins_inv_def)
  consider "b = Suc j" "a = j" | "b = Suc j" "a < j" | "b > Suc j" "a = j" | "b > Suc j" "a = Suc j"
    | "b > Suc j" "a \<noteq> j" "a \<noteq> Suc j" | "b < j" using ab by linarith
  then show "ys ! a \<le> ys ! b"
    using assms(2-5) x [of j b] x [of "Suc j" b] x [of a b] x [of a j] ab
    by cases (auto simp: min_le_iff_disj le_max_iff_disj)
qed

lemma ins_inv_stop:
  assumes "ins_inv (Suc j) i xs" "Suc j \<le> i" "xs ! j \<le> xs ! Suc j"
  shows "sorted_upto (Suc i) xs"
  unfolding sorted_upto_def
proof (intro allI impI)
  fix a b assume ab: "a \<le> b" "b < Suc i"
  have x: "xs ! c \<le> xs ! d" if "c < d" "d \<le> i" "d \<noteq> Suc j" for c d
    using assms(1) that by (simp add: ins_inv_def)
  consider "a = b" | "a < b" "b \<noteq> Suc j" | "b = Suc j" "a = j" | "b = Suc j" "a < j"
    using ab by linarith
  then show "xs ! a \<le> xs ! b"
    using assms(2,3) x [of a b] x [of a j] ab by cases auto
qed

lemma insert2_inner_ok:
  "ins_inv k i xs \<Longrightarrow> k \<le> i \<Longrightarrow> i < length xs \<Longrightarrow>
    \<exists>ys. insert2_inner k xs = Some ys \<and> mset ys = mset xs \<and> length ys = length xs \<and> sorted_upto (Suc i) ys"
proof (induction k xs rule: insert2_inner.induct)
  case (2 j xs)
  then obtain ys where ys: "exchange j (Suc j) xs = Some ys" "mset ys = mset xs" "length ys = length xs"
      "\<forall>k. k \<noteq> j \<longrightarrow> k \<noteq> Suc j \<longrightarrow> ys ! k = xs ! k"
      "ys ! j = min (xs ! j) (xs ! Suc j)" "ys ! Suc j = max (xs ! j) (xs ! Suc j)"
    using exchange_in [of j xs "Suc j"] by auto
  then show ?case
    using "2.IH" [OF ys(1)] ins_inv_exchange [OF "2.prems"(1,2) ys(4-6)] "2.prems" by auto
qed (simp add: ins_inv_done)

lemma insert_inner_ok:
  "ins_inv k i xs \<Longrightarrow> k \<le> i \<Longrightarrow> i < length xs \<Longrightarrow>
    \<exists>ys. insert_inner k xs = Some ys \<and> mset ys = mset xs \<and> length ys = length xs \<and> sorted_upto (Suc i) ys"
proof (induction k xs rule: insert_inner.induct)
  case (2 j xs)
  have get: "vget xs (j + 1) = Some (xs ! Suc j)" "vget xs j = Some (xs ! j)"
    using "2.prems" by (simp_all add: vec_simps)
  show ?case
  proof (cases "xs ! Suc j < xs ! j")
    case True
    let ?ys = "xs[j := xs ! Suc j, Suc j := xs ! j]"
    have swap: "vswap xs j (j + 1) = Some ?ys" "mset ?ys = mset xs"
      using "2.prems" by (simp_all add: vec_simps mset_swap_list)
    have "ins_inv j i ?ys"
      using "2.prems" True by (intro ins_inv_exchange [OF "2.prems"(1,2)]) (auto simp: nth_list_update)
    then show ?thesis
      using "2.IH" [OF get True swap(1)] "2.prems" get True swap by auto
  next
    case False
    then show ?thesis
      using "2.prems" get ins_inv_stop [OF "2.prems"(1,2)] by auto
  qed
qed (simp add: ins_inv_done)

lemma insert_outer_ok:
  "sorted_upto i xs \<Longrightarrow> i \<le> n \<Longrightarrow> n = length xs \<Longrightarrow>
    \<exists>ys. insert_outer i n xs = Some ys \<and> sorted ys \<and> mset ys = mset xs"
proof (induction i n xs rule: insert_outer.induct)
  case (1 i n xs)
  show ?case
  proof (cases "i < n")
    case True
    then obtain ys where ys: "insert_inner i xs = Some ys" "mset ys = mset xs" "length ys = length xs" "sorted_upto (Suc i) ys"
      using insert_inner_ok [OF ins_inv_start [OF "1.prems"(1)]] "1.prems" by auto
    then show ?thesis
      using "1.IH" [OF True ys(1)] "1.prems" True by (auto simp: insert_outer.simps [of i "length xs" xs])
  next
    case False
    then have "insert_outer i n xs = Some xs" by (simp add: insert_outer.simps [of i n xs])
    moreover have "i = length xs" using False "1.prems" by simp
    ultimately show ?thesis using "1.prems" sorted_upto_length [of xs] by simp
  qed
qed

lemma insert2_outer_ok:
  "sorted_upto i xs \<Longrightarrow> i \<le> n \<Longrightarrow> n = length xs \<Longrightarrow>
    \<exists>ys. insert2_outer i n xs = Some ys \<and> sorted ys \<and> mset ys = mset xs"
proof (induction i n xs rule: insert2_outer.induct)
  case (1 i n xs)
  show ?case
  proof (cases "i < n")
    case True
    then obtain ys where ys: "insert2_inner i xs = Some ys" "mset ys = mset xs" "length ys = length xs" "sorted_upto (Suc i) ys"
      using insert2_inner_ok [OF ins_inv_start [OF "1.prems"(1)]] "1.prems" by auto
    then show ?thesis
      using "1.IH" [OF True ys(1)] "1.prems" True by (auto simp: insert2_outer.simps [of i "length xs" xs])
  next
    case False
    then have "insert2_outer i n xs = Some xs" by (simp add: insert2_outer.simps [of i n xs])
    moreover have "i = length xs" using False "1.prems" by simp
    ultimately show ?thesis using "1.prems" sorted_upto_length [of xs] by simp
  qed
qed

interpretation insertion: sorting_routine insertSort "\<lambda>_. True"
proof unfold_locales
  show "\<exists>ys. insertSort xs = Some ys \<and> sorted ys \<and> mset ys = mset xs" for xs
    using insert_outer_ok [of 1 xs "length xs"]
    by (cases xs) (auto simp: insertSort_def insert_outer.simps [of "Suc 0" 0 "[]"])
qed

interpretation insertion2: sorting_routine insertSort2 "\<lambda>_. True"
proof unfold_locales
  show "\<exists>ys. insertSort2 xs = Some ys \<and> sorted ys \<and> mset ys = mset xs" for xs
    using insert2_outer_ok [of 1 xs "length xs"]
    by (cases xs) (auto simp: insertSort2_def insert2_outer.simps [of "Suc 0" 0 "[]"])
qed

text \<open>With gap 1 a Shell pass is the second insertion sort; every other pass permutes.\<close>

lemma shell_inner_1: "shell_inner 1 k xs = insert2_inner k xs"
proof (induction k xs rule: insert2_inner.induct)
  case (2 j data)
  then show ?case
    by (simp add: shell_inner.simps [of "Suc 0" "Suc j"]) (auto intro: Option.bind_cong)
qed (simp add: shell_inner.simps)

lemma shell_pass_1: "shell_pass 1 i n xs = insert2_outer i n xs"
  by (induction i n xs rule: insert2_outer.induct)
    (subst shell_pass.simps, subst insert2_outer.simps, auto simp: shell_inner_1 [simplified] intro!: Option.bind_cong)

lemma shell_inner_perm:
  "k < length xs \<Longrightarrow> \<exists>ys. shell_inner gap k xs = Some ys \<and> mset ys = mset xs \<and> length ys = length xs"
proof (induction gap k xs rule: shell_inner.induct)
  case (1 gap k xs)
  show ?case
  proof (cases "gap \<le> k \<and> 0 < gap")
    case True
    obtain ys where "exchange (k - gap) k xs = Some ys" "mset ys = mset xs" "length ys = length xs"
      using exchange_in [of "k - gap" xs k] "1.prems" by (meson diff_le_self order_le_less_trans)
    then show ?thesis
      using "1.IH" [OF True, of ys] True "1.prems" by (auto simp: shell_inner.simps [of gap k xs])
  next
    case False
    then show ?thesis by (auto simp: shell_inner.simps [of gap k xs])
  qed
qed

lemma shell_pass_perm:
  "n \<le> length xs \<Longrightarrow> \<exists>ys. shell_pass gap i n xs = Some ys \<and> mset ys = mset xs \<and> length ys = length xs"
proof (induction gap i n xs rule: shell_pass.induct)
  case (1 gap i n xs)
  show ?case
  proof (cases "i < n")
    case True
    obtain ys where "shell_inner gap i xs = Some ys" "mset ys = mset xs" "length ys = length xs"
      using shell_inner_perm [of i xs gap] True "1.prems" by auto
    then show ?thesis
      using "1.IH" [OF True, of ys] True "1.prems" by (auto simp: shell_pass.simps [of gap i n xs])
  next
    case False
    then show ?thesis by (auto simp: shell_pass.simps [of gap i n xs])
  qed
qed

lemma shell_gaps_ok:
  "gap > 0 \<Longrightarrow> n = length xs \<Longrightarrow> n > 0 \<Longrightarrow> \<exists>ys. shell_gaps gap n xs = Some ys \<and> sorted ys \<and> mset ys = mset xs"
proof (induction gap n xs rule: shell_gaps.induct)
  case (1 gap n xs)
  show ?case
  proof (cases "gap = 1")
    case True
    then show ?thesis
      using insert2_outer_ok [of 1 xs n] "1.prems" shell_pass_1 [of 1 n xs]
      by (auto simp: shell_gaps.simps [of "Suc 0" "length xs" xs] shell_gaps.simps [of 0])
  next
    case False
    obtain ys where "shell_pass gap gap n xs = Some ys" "mset ys = mset xs" "length ys = length xs"
      using shell_pass_perm [of n xs gap gap] "1.prems" by auto
    then show ?thesis
      using "1.IH" [of ys] False "1.prems" by (auto simp: shell_gaps.simps [of gap "length xs" xs])
  qed
qed

lemma shellSort1_ok: "\<exists>ys. shellSort1 xs = Some ys \<and> sorted ys \<and> mset ys = mset xs"
proof (cases "length xs div 2 > 0")
  case True
  then have "length xs > 0" by linarith
  then show ?thesis using shell_gaps_ok [of "length xs div 2" "length xs" xs] True by (simp add: shellSort1_def)
next
  case False
  then have "length xs \<le> 1" by linarith
  then show ?thesis using False by (auto simp: shellSort1_def shell_gaps.simps [of 0] sorted01)
qed

lemma shellSort2_eq: "shellSort2 xs = shellSort1 xs"
  by (simp add: shellSort1_def shellSort2_def drop_bit_eq_div)

interpretation shell1: sorting_routine shellSort1 "\<lambda>_. True"
  by unfold_locales (rule shellSort1_ok)

interpretation shell2: sorting_routine shellSort2 "\<lambda>_. True"
  by unfold_locales (simp add: shellSort2_eq shellSort1_ok)

section \<open>Properties\<close>

text \<open>
  The exchange sorts \<^verbatim>\<open>bubbleSort\<close>, \<^verbatim>\<open>selectSort\<close>,
  \<^verbatim>\<open>insertSort\<close>, \<^verbatim>\<open>insertSort2\<close>, \<^verbatim>\<open>shellSort1\<close> and
  \<^verbatim>\<open>shellSort2\<close> end on every vector without an access out of range and all leave
  the sorted permutation of it.
\<close>

theorem exchange_sorts_sort:
  "bubbleSort xs (length xs) = Some (sort xs) \<and> selectSort xs = Some (sort xs) \<and>
   insertSort xs = Some (sort xs) \<and> insertSort2 xs = Some (sort xs) \<and>
   shellSort1 xs = Some (sort xs) \<and> shellSort2 xs = Some (sort xs)"
  by (simp add: bubble.is_sort select.is_sort insertion.is_sort insertion2.is_sort shell1.is_sort shell2.is_sort)

text \<open>
  \<^verbatim>\<open>bubbleSort5\<close> sorts every non-empty vector, but on the empty vector the
  unsigned bound \<^verbatim>\<open>data.size() - 1\<close> wraps around and the first comparison reads
  out of range.
\<close>

theorem bubbleSort5_wraps:
  "(xs \<noteq> [] \<and> length xs < 2 ^ 64 \<longrightarrow> bubbleSort5 xs = Some (sort xs)) \<and> bubbleSort5 [] = None"
  by (simp add: bubble5.is_sort bubbleSort5_Nil)

theorem bubbleSort5_wraps_witness: "bubbleSort5 [2, 1] = Some [1, 2]"
  using bubbleSort5_wraps [of "[2, 1]"] by simp

lemma select2_outer_2: "select2_outer 0 2 [x, y] = Some [y, x]"
  by (simp add: select2_outer.simps [of 0] select2_outer.simps [of 1] select2_outer.simps [of "Suc 0"]
      select2_outer.simps [of 2] select2_outer.simps [of "Suc (Suc 0)"] vget_def vswap_def eval_nat_numeral)

text \<open>
  \<^verbatim>\<open>selectSort2\<close> leaves the current element out of the search for the
  minimum and exchanges unconditionally: it reverses every vector of two elements, so it
  does not sort.
\<close>

theorem selectSort2_reverses_pair: "selectSort2 [x, y] = Some [y, x]"
  using select2_outer_2 by (simp add: selectSort2_def eval_nat_numeral)

end
