(* ===== verification/Sort_Heap.thy ===== *)
theory Sort_Heap
  imports Sort_Contract
begin

text \<open>
  Heap sort of \<^verbatim>\<open>cpp/sort/heapSort.cpp\<close>: the recursive sift-down with its choice of
  the greatest of a node and its children, the bottom-up construction of the heap and the
  extraction loop. The heap property is stated for the nodes from a given index on, so that
  the same lemma serves both loops.
\<close>

section \<open>Operations\<close>

text \<open>\<^verbatim>\<open>maxId\<close> after the two tests of \<^verbatim>\<open>heapify\<close>.\<close>

definition heap_max :: "int list \<Rightarrow> nat \<Rightarrow> nat \<Rightarrow> nat ub" where
  "heap_max vec index len =
     (let left = push_bit 1 index + 1; right = push_bit 1 index + 2
      in do {
        maxId \<leftarrow> (if left < len then do { a \<leftarrow> vget vec left; b \<leftarrow> vget vec index; Some (if a > b then left else index) }
                  else Some index);
        if right < len then do { a \<leftarrow> vget vec right; b \<leftarrow> vget vec maxId; Some (if a > b then right else maxId) }
        else Some maxId
      })"

lemma heap_max_range: "heap_max vec index len = Some m \<Longrightarrow> m \<noteq> index \<Longrightarrow> index < m \<and> m < len"
  by (auto simp: heap_max_def Let_def bind_eq_Some push_bit_eq_mult split: if_splits)

function heapify :: "int list \<Rightarrow> nat \<Rightarrow> nat \<Rightarrow> int list ub" where
  "heapify vec index len =
     do { maxId \<leftarrow> heap_max vec index len;
          if maxId \<noteq> index then do { vec' \<leftarrow> vswap vec index maxId; heapify vec' maxId len } else Some vec }"
  by pat_completeness auto
termination
  by (relation "measure (\<lambda>(vec, index, len). len - index)") (auto dest!: heap_max_range)

declare heapify.simps [simp del]

definition heapify2 :: "int list \<Rightarrow> nat \<Rightarrow> nat \<Rightarrow> int list ub" where
  "heapify2 data index len =
     do { maxId \<leftarrow> heap_max data index len;
          if maxId \<noteq> index then do { data' \<leftarrow> vswap data maxId index; heapify data' maxId len } else Some data }"

text \<open>\<^verbatim>\<open>for (i = len / 2 - 1; i >= 0; i--)\<close>: the argument is the number of turns left.\<close>

fun heap_build :: "nat \<Rightarrow> int list \<Rightarrow> int list ub" where
  "heap_build 0 vec = Some vec"
| "heap_build (Suc i) vec = do { vec' \<leftarrow> heapify vec i (length vec); heap_build i vec' }"

text \<open>\<^verbatim>\<open>for (i = len - 1; i >= 1; i--)\<close>\<close>

fun heap_extract :: "nat \<Rightarrow> int list \<Rightarrow> int list ub" where
  "heap_extract 0 vec = Some vec"
| "heap_extract (Suc i) vec =
     do { vec' \<leftarrow> vswap vec 0 (Suc i); vec'' \<leftarrow> heapify2 vec' 0 (Suc i); heap_extract i vec'' }"

definition heapSort :: "int list \<Rightarrow> int list ub" where
  "heapSort vec = do { vec' \<leftarrow> heap_build (length vec div 2) vec; heap_extract (length vec - 1) vec' }"

section \<open>The heap property\<close>

definition par :: "nat \<Rightarrow> nat" where
  "par j = (j - 1) div 2"

definition heap_from :: "nat \<Rightarrow> nat \<Rightarrow> int list \<Rightarrow> bool" where
  "heap_from i n xs \<longleftrightarrow> (\<forall>j. 0 < j \<longrightarrow> j < n \<longrightarrow> i \<le> par j \<longrightarrow> xs ! j \<le> xs ! par j)"

text \<open>The same with an exception at one node, whose children are still below its parent.\<close>

definition heap_except :: "nat \<Rightarrow> nat \<Rightarrow> nat \<Rightarrow> int list \<Rightarrow> bool" where
  "heap_except i n e xs \<longleftrightarrow>
     (\<forall>j. 0 < j \<longrightarrow> j < n \<longrightarrow> i \<le> par j \<longrightarrow> par j \<noteq> e \<longrightarrow> xs ! j \<le> xs ! par j) \<and>
     (\<forall>j. 0 < j \<longrightarrow> j < n \<longrightarrow> par j = e \<longrightarrow> 0 < e \<longrightarrow> i \<le> par e \<longrightarrow> xs ! j \<le> xs ! par e)"

lemma par_less: "0 < j \<Longrightarrow> par j < j"
  by (simp add: par_def less_mult_imp_div_less)

lemma par_eq: "0 < j \<Longrightarrow> par j = e \<longleftrightarrow> j = 2 * e + 1 \<or> j = 2 * e + 2"
  by (auto simp: par_def)

lemma heap_max_ok:
  assumes "e < n" "n \<le> length xs"
  shows "\<exists>m. heap_max xs e n = Some m \<and> (m \<noteq> e \<longrightarrow> e < m \<and> m < n \<and> par m = e) \<and>
    xs ! e \<le> xs ! m \<and> (\<forall>j. 0 < j \<longrightarrow> j < n \<longrightarrow> par j = e \<longrightarrow> xs ! j \<le> xs ! m)"
  using assms by (auto simp: heap_max_def Let_def vec_simps push_bit_eq_mult par_eq mult.commute)

lemma heap_except_swap:
  assumes he: "heap_except i n e xs" and m: "e < m" "m < n" "par m = e" "xs ! e \<le> xs ! m"
    and max: "\<forall>j. 0 < j \<longrightarrow> j < n \<longrightarrow> par j = e \<longrightarrow> xs ! j \<le> xs ! m" and ie: "i \<le> e" and n: "n \<le> length xs"
  shows "heap_except i n m (xs[e := xs ! m, m := xs ! e])"
proof -
  let ?ys = "xs[e := xs ! m, m := xs ! e]"
  have nth: "?ys ! k = (if k = m then xs ! e else if k = e then xs ! m else xs ! k)" if "k < n" for k
    using that m n by (intro nth_swap_list) auto
  have p: "par j < n" if "0 < j" "j < n" for j
    using par_less [OF that(1)] that by simp
  have "?ys ! j \<le> ?ys ! par j" if j: "0 < j" "j < n" "i \<le> par j" "par j \<noteq> m" for j
  proof (cases "par j = e")
    case True
    then show ?thesis using max j m nth [of j] nth [of e] par_less [OF j(1)] by auto
  next
    case False
    show ?thesis
    proof (cases "j = e")
      case True
      then have "xs ! m \<le> xs ! par e"
        using he m j by (auto simp: heap_except_def)
      then show ?thesis using True j False nth [of e] nth [of "par e"] p [of e] m n by simp
    next
      case False
      then show ?thesis
        using he j \<open>par j \<noteq> e\<close> nth p m by (auto simp: heap_except_def)
    qed
  qed
  moreover have "?ys ! j \<le> ?ys ! par m" if j: "0 < j" "j < n" "par j = m" for j
  proof -
    have "j \<noteq> m" "j \<noteq> e" using par_less [OF j(1)] j m by auto
    moreover have "xs ! j \<le> xs ! m"
      using he j m ie unfolding heap_except_def by (metis less_or_eq_imp_le order_trans less_irrefl)
    ultimately show ?thesis using j m nth [of j] nth [of e] by simp
  qed
  ultimately show ?thesis by (simp add: heap_except_def)
qed

lemma heapify_ok:
  "heap_except i n e xs \<Longrightarrow> i \<le> e \<Longrightarrow> e < n \<Longrightarrow> n \<le> length xs \<Longrightarrow>
    \<exists>ys. heapify xs e n = Some ys \<and> mset ys = mset xs \<and> length ys = length xs \<and>
      heap_from i n ys \<and> (\<forall>k \<ge> n. ys ! k = xs ! k)"
proof (induction xs e n rule: heapify.induct)
  case (1 xs e n)
  obtain m where m: "heap_max xs e n = Some m" "m \<noteq> e \<longrightarrow> e < m \<and> m < n \<and> par m = e" "xs ! e \<le> xs ! m"
    "\<forall>j. 0 < j \<longrightarrow> j < n \<longrightarrow> par j = e \<longrightarrow> xs ! j \<le> xs ! m"
    using heap_max_ok [OF "1.prems"(3,4)] by blast
  show ?case
  proof (cases "m = e")
    case True
    have "heap_from i n xs"
      using "1.prems"(1) m(4) True by (auto simp: heap_from_def heap_except_def)
    then show ?thesis using m(1) True by (simp add: heapify.simps [of xs e n])
  next
    case False
    let ?ys = "xs[e := xs ! m, m := xs ! e]"
    have swap: "vswap xs e m = Some ?ys" "mset ?ys = mset xs"
      using m False "1.prems" by (simp_all add: vec_simps mset_swap_list)
    have "heap_except i n m ?ys"
      using m False "1.prems" by (intro heap_except_swap) auto
    then obtain zs where "heapify ?ys m n = Some zs" "mset zs = mset ?ys" "length zs = length ?ys"
      "heap_from i n zs" "\<forall>k \<ge> n. zs ! k = ?ys ! k"
      using "1.IH" [OF m(1) False swap(1)] m False "1.prems" by auto
    then show ?thesis
      using m False swap "1.prems" by (auto simp: heapify.simps [of xs e n])
  qed
qed

lemma heapify2_eq: "heapify2 data index len = heapify data index len"
proof -
  have swap: "vswap data m index = vswap data index m" if "m \<noteq> index" for m
    using that by (auto simp: vswap_def list_update_swap)
  show ?thesis
    unfolding heapify2_def heapify.simps [of data index len]
    by (rule Option.bind_cong) (auto simp: swap)
qed

lemma heap_build_ok:
  "heap_from i (length xs) xs \<Longrightarrow> i \<le> length xs \<Longrightarrow>
    \<exists>ys. heap_build i xs = Some ys \<and> mset ys = mset xs \<and> length ys = length xs \<and> heap_from 0 (length xs) ys"
proof (induction i xs rule: heap_build.induct)
  case (2 i xs)
  have "heap_except i (length xs) i xs"
    using "2.prems"(1) par_less [of i] by (auto simp: heap_except_def heap_from_def not_less_eq_eq)
  then obtain ys where "heapify xs i (length xs) = Some ys" "mset ys = mset xs" "length ys = length xs"
    "heap_from i (length xs) ys"
    using heapify_ok [of i "length xs" i xs] "2.prems" by auto
  then show ?case using "2.IH" [of ys] "2.prems" by auto
qed simp

lemma heap_root_max: "heap_from 0 n xs \<Longrightarrow> j < n \<Longrightarrow> xs ! j \<le> xs ! 0"
proof (induction j rule: less_induct)
  case (less j)
  show ?case
  proof (cases "j = 0")
    case False
    then have "xs ! j \<le> xs ! par j" "xs ! par j \<le> xs ! 0"
      using less par_less [of j] by (auto simp: heap_from_def)
    then show ?thesis by simp
  qed simp
qed

lemma heap_extract_ok:
  "heap_from 0 (Suc i) xs \<Longrightarrow> suffix_ok (Suc i) xs \<Longrightarrow> i < length xs \<Longrightarrow>
    \<exists>ys. heap_extract i xs = Some ys \<and> mset ys = mset xs \<and> sorted ys"
proof (induction i xs rule: heap_extract.induct)
  case (1 xs)
  then show ?case using suffix_ok_sorted [of 1 xs] by simp
next
  case (2 i xs)
  let ?ys = "xs[0 := xs ! Suc i, Suc i := xs ! 0]"
  have len: "0 < length xs" using "2.prems"(3) by linarith
  have swap: "vswap xs 0 (Suc i) = Some ?ys" "mset ?ys = mset xs"
    using "2.prems" len by (simp_all add: vec_simps mset_swap_list)
  have "heap_except 0 (Suc i) 0 ?ys"
    using "2.prems"(1,3) len by (auto simp: heap_except_def heap_from_def nth_list_update dest: par_less)
  then obtain zs where zs: "heapify ?ys 0 (Suc i) = Some zs" "mset zs = mset ?ys" "length zs = length ?ys"
    "heap_from 0 (Suc i) zs" "\<forall>k \<ge> Suc i. zs ! k = ?ys ! k"
    using heapify_ok [of 0 "Suc i" 0 ?ys] "2.prems" by auto
  have mset: "mset zs = mset xs" using zs swap by simp
  have above: "zs ! k = xs ! k" if "Suc i < k" "k < length xs" for k
    using zs(5) that by auto
  have top: "zs ! Suc i = xs ! 0"
    using zs(5) "2.prems"(3) by simp
  have same: "set (take (Suc (Suc i)) zs) = set (take (Suc (Suc i)) xs)"
    using above mset zs(3) by (intro set_take_mset drop_eq_nth) auto
  have "zs ! k \<le> zs ! Suc i" if "k \<le> Suc i" for k
  proof -
    have "zs ! k \<in> set (take (Suc (Suc i)) zs)"
      using that zs(3) "2.prems"(3) set_take_nth [of "Suc (Suc i)" zs] by auto
    then obtain k' where "k' < Suc (Suc i)" "zs ! k = xs ! k'"
      using same "2.prems"(3) set_take_nth [of "Suc (Suc i)" xs] by auto
    then show ?thesis using heap_root_max [OF "2.prems"(1)] top by simp
  qed
  then have "suffix_ok (Suc i) zs"
    using suffix_ok_step [of "Suc i" xs zs] "2.prems" same above zs(3) by simp
  then show ?case
    using "2.IH" [OF swap(1), of zs] zs swap "2.prems" by (auto simp: heapify2_eq)
qed

lemma heapSort_ok: "\<exists>ys. heapSort xs = Some ys \<and> sorted ys \<and> mset ys = mset xs"
proof -
  have "heap_from (length xs div 2) (length xs) xs"
    by (auto simp: heap_from_def par_def)
  then obtain ys where ys: "heap_build (length xs div 2) xs = Some ys" "mset ys = mset xs" "length ys = length xs"
    "heap_from 0 (length xs) ys"
    using heap_build_ok [of "length xs div 2" xs] by auto
  show ?thesis
  proof (cases "length xs = 0")
    case False
    then show ?thesis
      using heap_extract_ok [of "length xs - 1" ys] ys suffix_ok_length [of ys] by (auto simp: heapSort_def)
  qed (simp add: heapSort_def)
qed

interpretation heap: sorting_routine heapSort "\<lambda>_. True"
  by unfold_locales (rule heapSort_ok)

text \<open>
  \<^verbatim>\<open>heapSort\<close> ends on every vector without an access out of range, and leaves
  the sorted permutation of it.
\<close>

theorem heapSort_sorts: "heapSort xs = Some (sort xs)"
  by (simp add: heap.is_sort)

end
