(* ===== verification/Sort_Merge.thy ===== *)
theory Sort_Merge
  imports Sort_Contract
begin

text \<open>
  \<^verbatim>\<open>cpp/sort/mergeSort.cpp\<close>: the merge of two neighbouring sorted ranges through a
  temporary array, and the two recursive drivers. The indices are signed, so that the call
  on an empty range is a call of the model too: \<^verbatim>\<open>mergeSort\<close> tests only
  \<^verbatim>\<open>l == r\<close> and does not return on it, \<^verbatim>\<open>mergeSort2\<close> does. Both drivers
  are fixed points in the option type: \<^term>\<open>None\<close> is undefined behaviour or a call that
  does not return.
\<close>

section \<open>Merge\<close>

text \<open>The temporary array holds \<open>len\<close> ints; a write at or beyond its end is undefined.\<close>

definition put_temp :: "int \<Rightarrow> int list \<Rightarrow> int \<Rightarrow> int list ub" where
  "put_temp len temp v = (if int (length temp) < len then Some (temp @ [v]) else None)"

function merge_both :: "int list \<Rightarrow> int \<Rightarrow> int \<Rightarrow> int \<Rightarrow> int \<Rightarrow> int \<Rightarrow> int list \<Rightarrow> (int \<times> int \<times> int list) ub" where
  "merge_both data m r len left right temp =
     (if left \<le> m \<and> right \<le> r
      then do {
        a \<leftarrow> iget data left;
        b \<leftarrow> iget data right;
        if a \<ge> b
        then do { temp \<leftarrow> put_temp len temp b; merge_both data m r len left (right + 1) temp }
        else do { temp \<leftarrow> put_temp len temp a; merge_both data m r len (left + 1) right temp }
      }
      else Some (left, right, temp))"
  by pat_completeness auto
termination
  by (relation "measure (\<lambda>(data, m, r, len, left, right, temp). nat (m - left + 1) + nat (r - right + 1))") auto

function merge_rest :: "int list \<Rightarrow> int \<Rightarrow> int \<Rightarrow> int \<Rightarrow> int list \<Rightarrow> int list ub" where
  "merge_rest data fin len i temp =
     (if i \<le> fin
      then do { a \<leftarrow> iget data i; temp \<leftarrow> put_temp len temp a; merge_rest data fin len (i + 1) temp }
      else Some temp)"
  by pat_completeness auto
termination
  by (relation "measure (\<lambda>(data, fin, len, i, temp). nat (fin - i + 1))") auto

function copy_back :: "int list \<Rightarrow> int \<Rightarrow> int \<Rightarrow> int \<Rightarrow> int list \<Rightarrow> int list ub" where
  "copy_back temp l len j data =
     (if j < len
      then do { v \<leftarrow> iget temp j; data \<leftarrow> iset data (l + j) v; copy_back temp l len (j + 1) data }
      else Some data)"
  by pat_completeness auto
termination
  by (relation "measure (\<lambda>(temp, l, len, j, data). nat (len - j))") auto

declare merge_both.simps [simp del] merge_rest.simps [simp del] copy_back.simps [simp del]

definition Merge :: "int list \<Rightarrow> int \<Rightarrow> int \<Rightarrow> int \<Rightarrow> int list ub" where
  "Merge data l m r = do {
     let len = r - l + 1;
     (left, right, temp) \<leftarrow> merge_both data m r len l (m + 1) [];
     temp \<leftarrow> merge_rest data m len left temp;
     temp \<leftarrow> merge_rest data r len right temp;
     copy_back temp l len 0 data
   }"

section \<open>The drivers\<close>

partial_function (option) mergeSort :: "int list \<Rightarrow> int \<Rightarrow> int \<Rightarrow> int list ub" where
  "mergeSort data l r =
     (if l = r then Some data
      else do {
        let m = l + (r - l) div 2;
        data \<leftarrow> mergeSort data l m;
        data \<leftarrow> mergeSort data (m + 1) r;
        Merge data l m r
      })"

partial_function (option) mergeSort2 :: "int list \<Rightarrow> int \<Rightarrow> int \<Rightarrow> int list ub" where
  "mergeSort2 data left right =
     (if left \<ge> right then Some data
      else do {
        sum \<leftarrow> as_int (left + right);
        let mid = sum div 2;
        data \<leftarrow> mergeSort2 data left mid;
        data \<leftarrow> mergeSort2 data (mid + 1) right;
        Merge data left mid right
      })"

section \<open>Merging two lists\<close>

text \<open>The reference: the smaller head first, the right one when the heads are equal.\<close>

fun merged :: "int list \<Rightarrow> int list \<Rightarrow> int list" where
  "merged [] ys = ys"
| "merged xs [] = xs"
| "merged (x # xs) (y # ys) = (if x \<ge> y then y # merged (x # xs) ys else x # merged xs (y # ys))"

lemma merged_Nil [simp]: "merged xs [] = xs"
  by (cases xs) auto

lemma mset_merged [simp]: "mset (merged xs ys) = mset xs + mset ys"
  by (induction xs ys rule: merged.induct) auto

lemma set_merged [simp]: "set (merged xs ys) = set xs \<union> set ys"
  using mset_merged by (metis set_mset_mset set_mset_union)

lemma length_merged [simp]: "length (merged xs ys) = length xs + length ys"
  using mset_merged by (metis size_mset size_union)

lemma sorted_merged: "sorted xs \<Longrightarrow> sorted ys \<Longrightarrow> sorted (merged xs ys)"
  by (induction xs ys rule: merged.induct) force+

section \<open>The loops of Merge\<close>

lemma merge_rest_ok:
  "0 \<le> i \<Longrightarrow> fin < int (length data) \<Longrightarrow> int (length temp) + (fin - i + 1) \<le> len \<Longrightarrow>
    merge_rest data fin len i temp = Some (temp @ slice data i fin)"
proof (induction data fin len i temp rule: merge_rest.induct)
  case (1 data fin len i temp)
  show ?case
  proof (cases "i \<le> fin")
    case True
    have "merge_rest data fin len (i + 1) (temp @ [data ! nat i]) =
        Some ((temp @ [data ! nat i]) @ slice data (i + 1) fin)"
      using "1.prems" True by (intro "1.IH") (auto simp: vec_simps put_temp_def)
    then show ?thesis
      using "1.prems" True merge_rest.simps [of data fin len i temp]
      by (simp add: vec_simps put_temp_def slice_Cons)
  next
    case False
    then show ?thesis by (simp add: merge_rest.simps [of data fin len i temp])
  qed
qed

lemma merge_both_ok:
  "0 \<le> left \<Longrightarrow> 0 \<le> right \<Longrightarrow> m < int (length data) \<Longrightarrow> r < int (length data) \<Longrightarrow> left \<le> m + 1 \<Longrightarrow> right \<le> r + 1 \<Longrightarrow>
    int (length temp) + (m - left + 1) + (r - right + 1) \<le> len \<Longrightarrow>
    \<exists>left' right' temp'. merge_both data m r len left right temp = Some (left', right', temp') \<and>
      0 \<le> left' \<and> 0 \<le> right' \<and> left' \<le> m + 1 \<and> right' \<le> r + 1 \<and>
      int (length temp') + (m - left' + 1) + (r - right' + 1) \<le> len \<and>
      temp' @ slice data left' m @ slice data right' r
        = temp @ merged (slice data left m) (slice data right r)"
proof (induction data m r len left right temp rule: merge_both.induct)
  case (1 data m r len left right temp)
  let ?a = "data ! nat left" and ?b = "data ! nat right"
  note e = merge_both.simps [of data m r len left right temp]
  show ?case
  proof (cases "left \<le> m \<and> right \<le> r")
    case False
    then have "slice data left m = [] \<or> slice data right r = []" by auto
    then have "temp @ slice data left m @ slice data right r
        = temp @ merged (slice data left m) (slice data right r)" by auto
    then show ?thesis using False "1.prems" e by auto
  next
    case T: True
    then have put: "put_temp len temp v = Some (temp @ [v])" for v
      using "1.prems" by (simp add: put_temp_def)
    have ab: "iget data left = Some ?a" "iget data right = Some ?b"
      using "1.prems" T by (simp_all add: vec_simps)
    have sl: "slice data left m = ?a # slice data (left + 1) m"
      "slice data right r = ?b # slice data (right + 1) r"
      using T by (simp_all add: slice_Cons)
    show ?thesis
    proof (cases "?a \<ge> ?b")
      case True
      have "merge_both data m r len left right temp = merge_both data m r len left (right + 1) (temp @ [?b])"
        using T True ab put e by simp
      moreover have "temp @ merged (slice data left m) (slice data right r)
          = (temp @ [?b]) @ merged (slice data left m) (slice data (right + 1) r)"
        using sl True by simp
      ultimately show ?thesis
        using "1.IH"(1) [OF T ab True put] "1.prems" T by simp
    next
      case False
      have "merge_both data m r len left right temp = merge_both data m r len (left + 1) right (temp @ [?a])"
        using T False ab put e by simp
      moreover have "temp @ merged (slice data left m) (slice data right r)
          = (temp @ [?a]) @ merged (slice data (left + 1) m) (slice data right r)"
        using sl False by simp
      ultimately show ?thesis
        using "1.IH"(2) [OF T ab False put] "1.prems" T by simp
    qed
  qed
qed

lemma copy_back_ok:
  "0 \<le> l \<Longrightarrow> 0 \<le> j \<Longrightarrow> l + len \<le> int (length data) \<Longrightarrow> len = int (length temp) \<Longrightarrow>
    \<exists>ys. copy_back temp l len j data = Some ys \<and> length ys = length data \<and>
      (\<forall>k. ys ! k = (if l + j \<le> int k \<and> int k < l + len then temp ! (k - nat l) else data ! k))"
proof (induction temp l len j data rule: copy_back.induct)
  case (1 temp l len j data)
  note e = copy_back.simps [of temp l len j data]
  show ?case
  proof (cases "j < len")
    case True
    let ?d = "data[nat (l + j) := temp ! nat j]"
    have g: "iget temp j = Some (temp ! nat j)" "iset data (l + j) (temp ! nat j) = Some ?d"
      using "1.prems" True by (simp_all add: vec_simps)
    obtain ys where ys: "copy_back temp l len (j + 1) ?d = Some ys" "length ys = length data"
      "\<forall>k. ys ! k = (if l + (j + 1) \<le> int k \<and> int k < l + len then temp ! (k - nat l) else ?d ! k)"
      using "1.IH" [OF True g] "1.prems" by auto
    have "ys ! k = (if l + j \<le> int k \<and> int k < l + len then temp ! (k - nat l) else data ! k)" for k
    proof (cases "int k = l + j")
      case k: True
      then have "k = nat (l + j)" "k - nat l = nat j" "k < length data"
        using "1.prems" True by (auto simp: nat_add_distrib)
      then show ?thesis using ys(3) k True by simp
    next
      case False
      then have "k \<noteq> nat (l + j)" using "1.prems" by auto
      then show ?thesis using ys(3) False by auto
    qed
    then show ?thesis using ys e True g by simp
  next
    case False
    then show ?thesis using e by auto
  qed
qed

lemma Merge_ok:
  assumes b: "0 \<le> l" "l \<le> m + 1" "m \<le> r" "r < int (length data)"
  shows "\<exists>ys. Merge data l m r = Some ys \<and> range_perm l r data ys \<and>
    slice ys l r = merged (slice data l m) (slice data (m + 1) r)"
proof -
  let ?t = "merged (slice data l m) (slice data (m + 1) r)" and ?len = "r - l + 1"
  obtain i j temp where 1: "merge_both data m r ?len l (m + 1) [] = Some (i, j, temp)"
    and ij: "0 \<le> i" "0 \<le> j" "i \<le> m + 1" "j \<le> r + 1" "int (length temp) + (m - i + 1) + (r - j + 1) \<le> ?len"
    and t: "temp @ slice data i m @ slice data j r = ?t"
    using merge_both_ok [of l "m + 1" m data r "[]" ?len] b by auto
  have 2: "merge_rest data m ?len i temp = Some (temp @ slice data i m)"
    using merge_rest_ok [of i m data temp ?len] ij b by simp
  have 3: "merge_rest data r ?len j (temp @ slice data i m) = Some ?t"
    using merge_rest_ok [of j r data "temp @ slice data i m" ?len] ij b t by simp
  have len: "?len = int (length ?t)" using b by simp
  obtain ys where ys: "copy_back ?t l ?len 0 data = Some ys" "length ys = length data"
    "\<forall>k. ys ! k = (if l \<le> int k \<and> int k < l + ?len then ?t ! (k - nat l) else data ! k)"
    using copy_back_ok [of l 0 ?len data ?t] b len by auto
  have sl: "slice ys l r = ?t"
  proof (rule nth_equalityI)
    show "length (slice ys l r) = length ?t" using len by (simp only: length_slice nat_int)
    fix k assume "k < length (slice ys l r)"
    then have k: "l + int k \<le> r" by simp
    then have "slice ys l r ! k = ys ! nat (l + int k)" by (rule nth_slice)
    also have "\<dots> = ?t ! (nat (l + int k) - nat l)" using ys(3) k b by simp
    also have "nat (l + int k) - nat l = k" using b by (simp add: nat_add_distrib)
    finally show "slice ys l r ! k = ?t ! k" .
  qed
  have same: "ys ! k = data ! k" if "int k < l \<or> r < int k" for k
    using ys(3) that by auto
  have dy: "ys = take (nat l) ys @ ?t @ drop (nat (r + 1)) ys"
    using slice_decompose [of l r ys] sl b ys(2) by simp
  have "take (nat l) ys = take (nat l) data"
    using ys(2) by (intro nth_equalityI) (auto intro!: same)
  moreover have "drop (nat (r + 1)) ys = drop (nat (r + 1)) data"
    using ys(2) b by (intro nth_equalityI) (auto intro!: same)
  moreover have "mset ?t = mset (slice data l r)" using slice_append [of l m r data] b by simp
  ultimately have "mset ys = mset (take (nat l) data @ slice data l r @ drop (nat (r + 1)) data)"
    using arg_cong [OF dy, of mset] by simp
  also have "\<dots> = mset data" using slice_decompose [of l r data] b by simp
  finally have "range_perm l r data ys" using ys(2) same by (auto simp: range_perm_def)
  moreover have "Merge data l m r = Some ys" using 1 2 3 ys(1) by (simp add: Merge_def)
  ultimately show ?thesis using sl by blast
qed

section \<open>The drivers sort their range\<close>

text \<open>Both drivers sort the halves and merge them; the step is the same for both.\<close>

lemma merge_step:
  assumes b: "0 \<le> l" "l \<le> m" "m < r" "r < int (length data)"
    and 1: "range_perm l m data xs" "sorted (slice xs l m)"
    and 2: "range_perm (m + 1) r xs ys" "sorted (slice ys (m + 1) r)"
  shows "\<exists>zs. Merge ys l m r = Some zs \<and> range_perm l r data zs \<and> sorted (slice zs l r)"
proof -
  have len: "length xs = length data" "length ys = length data"
    using 1 2 by (simp_all add: range_perm_def)
  have "slice ys l m = slice xs l m"
    using range_perm_slice_outside [OF 2(1), of l m] b len by simp
  moreover obtain zs where zs: "Merge ys l m r = Some zs" "range_perm l r ys zs"
    "slice zs l r = merged (slice ys l m) (slice ys (m + 1) r)"
    using Merge_ok [of l m r ys] b len by auto
  moreover have "range_perm l r data ys"
    using range_perm_trans [OF range_perm_mono [OF 1(1)] range_perm_mono [OF 2(1)]] b by simp
  ultimately show ?thesis
    using sorted_merged 1(2) 2(2) range_perm_trans by metis
qed

lemma mergeSort_ok:
  "0 \<le> l \<Longrightarrow> l \<le> r \<Longrightarrow> r < int (length data) \<Longrightarrow>
    \<exists>ys. mergeSort data l r = Some ys \<and> range_perm l r data ys \<and> sorted (slice ys l r)"
proof (induction "nat (r - l)" arbitrary: l r data rule: less_induct)
  case less
  show ?case
  proof (cases "l = r")
    case True
    then show ?thesis by (simp add: mergeSort.simps [of data r r] slice_Cons)
  next
    case False
    let ?m = "l + (r - l) div 2"
    have m: "l \<le> ?m" "?m < r" using False less.prems by linarith+
    obtain xs where xs: "mergeSort data l ?m = Some xs" "range_perm l ?m data xs" "sorted (slice xs l ?m)"
      using less.hyps [of ?m l data] less.prems m by force
    obtain ys where ys: "mergeSort xs (?m + 1) r = Some ys" "range_perm (?m + 1) r xs ys" "sorted (slice ys (?m + 1) r)"
      using less.hyps [of r "?m + 1" xs] less.prems m range_perm_length [OF xs(2)] by force
    show ?thesis
      using merge_step [OF _ m _ xs(2,3) ys(2,3)] less.prems False xs(1) ys(1)
      by (simp add: mergeSort.simps [of data l r])
  qed
qed

lemma mergeSort2_ok:
  "0 \<le> l \<Longrightarrow> r < int (length data) \<Longrightarrow> length data \<le> 2 ^ 30 \<Longrightarrow>
    \<exists>ys. mergeSort2 data l r = Some ys \<and> range_perm l r data ys \<and> sorted (slice ys l r)"
proof (induction "nat (r - l)" arbitrary: l r data rule: less_induct)
  case less
  show ?case
  proof (cases "l \<ge> r")
    case True
    then have "sorted (slice data l r)" by (cases "l = r") (simp_all add: slice_Cons)
    then show ?thesis using True by (simp add: mergeSort2.simps [of data l r])
  next
    case False
    let ?m = "(l + r) div 2"
    have m: "l \<le> ?m" "?m < r" using False by linarith+
    have i: "in_int (l + r)" using less.prems False by (simp add: in_int_def)
    obtain xs where xs: "mergeSort2 data l ?m = Some xs" "range_perm l ?m data xs" "sorted (slice xs l ?m)"
      using less.hyps [of ?m l data] less.prems m by force
    obtain ys where ys: "mergeSort2 xs (?m + 1) r = Some ys" "range_perm (?m + 1) r xs ys" "sorted (slice ys (?m + 1) r)"
      using less.hyps [of r "?m + 1" xs] less.prems m range_perm_length [OF xs(2)] by force
    show ?thesis
      using merge_step [OF _ m _ xs(2,3) ys(2,3)] less.prems False i xs(1) ys(1)
      by (simp add: mergeSort2.simps [of data l r])
  qed
qed

text \<open>On the empty range the first driver calls itself with the same arguments.\<close>

lemma mergeSort_empty_range: "mergeSort data l (l - 1) = None"
proof (rule ccontr)
  have *: "r \<noteq> l - 1" if "mergeSort data l r = Some ys" for data l r ys
  proof (rule mergeSort.raw_induct [OF _ that])
    fix f :: "int list \<Rightarrow> int \<Rightarrow> int \<Rightarrow> int list ub" and data l r ys
    assume IH: "\<And>data l r ys. f data l r = Some ys \<Longrightarrow> r \<noteq> l - 1"
      and eq: "(if l = r then Some data
        else do { let m = l + (r - l) div 2; data \<leftarrow> f data l m; data \<leftarrow> f data (m + 1) r; Merge data l m r }) = Some ys"
    show "r \<noteq> l - 1"
    proof
      assume r: "r = l - 1"
      then have "l + (r - l) div 2 = r" by simp
      then obtain zs where "f data l r = Some zs"
        using eq r by (auto simp: bind_eq_Some Let_def split: if_splits)
      then show False using IH r by blast
    qed
  qed
  assume "mergeSort data l (l - 1) \<noteq> None"
  then show False using * by blast
qed

interpretation merge: sorting_routine "\<lambda>xs. mergeSort xs 0 (int (length xs) - 1)" "\<lambda>xs. xs \<noteq> []"
proof unfold_locales
  fix xs :: "int list" assume "xs \<noteq> []"
  then obtain ys where "mergeSort xs 0 (int (length xs) - 1) = Some ys"
    "range_perm 0 (int (length xs) - 1) xs ys" "sorted (slice ys 0 (int (length xs) - 1))"
    using mergeSort_ok [of 0 "int (length xs) - 1" xs] by (cases xs) auto
  then show "\<exists>ys. mergeSort xs 0 (int (length xs) - 1) = Some ys \<and> sorted ys \<and> mset ys = mset xs"
    using slice_whole [of ys] by (auto simp: range_perm_def)
qed

interpretation merge2: sorting_routine "\<lambda>xs. mergeSort2 xs 0 (int (length xs) - 1)" "\<lambda>xs. length xs \<le> 2 ^ 30"
proof unfold_locales
  fix xs :: "int list" assume "length xs \<le> 2 ^ 30"
  then obtain ys where "mergeSort2 xs 0 (int (length xs) - 1) = Some ys"
    "range_perm 0 (int (length xs) - 1) xs ys" "sorted (slice ys 0 (int (length xs) - 1))"
    using mergeSort2_ok [of 0 "int (length xs) - 1" xs] by auto
  then show "\<exists>ys. mergeSort2 xs 0 (int (length xs) - 1) = Some ys \<and> sorted ys \<and> mset ys = mset xs"
    using slice_whole [of ys] by (auto simp: range_perm_def)
qed

text \<open>
  \<^verbatim>\<open>Merge\<close> on two neighbouring ranges within the vector never leaves the vector
  or the temporary array, replaces the range by the merge of its two parts and leaves every
  other element alone; both drivers, called on a whole vector, return its sorted permutation,
  except that \<^verbatim>\<open>mergeSort\<close> does not return on the empty vector.
\<close>

theorem mergeSort_sorts:
  shows "(\<forall>data l m r. 0 \<le> l \<and> l \<le> m + 1 \<and> m \<le> r \<and> r < int (length data) \<longrightarrow>
      (\<exists>ys. Merge data l m r = Some ys \<and> range_perm l r data ys \<and>
        slice ys l r = merged (slice data l m) (slice data (m + 1) r))) \<and>
    (\<forall>xs. mergeSort xs 0 (int (length xs) - 1) = (if xs = [] then None else Some (sort xs))) \<and>
    (\<forall>xs. length xs \<le> 2 ^ 30 \<longrightarrow> mergeSort2 xs 0 (int (length xs) - 1) = Some (sort xs))"
  using Merge_ok merge.is_sort merge2.is_sort mergeSort_empty_range [of "[]" 0] by simp

theorem mergeSort_sorts_witness:
  "mergeSort [3, 1, 2] 0 2 = Some (sort [3, 1, 2]) \<and>
   mergeSort2 [3, 1, 2, 4, 5, 8, 7, 6] 0 7 = Some (sort [3, 1, 2, 4, 5, 8, 7, 6]) \<and>
   (\<exists>ys. Merge [2, 5, 1, 4] 0 1 3 = Some ys \<and> slice ys 0 3 = merged [2, 5] [1, 4])"
proof -
  have sl: "slice [2, 5, 1, 4::int] 0 1 = [2, 5]" "slice [2, 5, 1, 4::int] 2 3 = [1, 4]"
    by (simp_all add: slice_Cons)
  show ?thesis
    using mergeSort_sorts [THEN conjunct1, THEN spec [of _ "[2, 5, 1, 4]"], THEN spec [of _ 0], THEN spec [of _ 1], THEN spec [of _ 3]]
      mergeSort_sorts [THEN conjunct2, THEN conjunct1, THEN spec [of _ "[3, 1, 2]"]]
      mergeSort_sorts [THEN conjunct2, THEN conjunct2, THEN spec [of _ "[3, 1, 2, 4, 5, 8, 7, 6]"]] sl
    by simp blast
qed

end
