(* ===== verification/Sort_Quick.thy ===== *)
theory Sort_Quick
  imports Sort_Contract
begin

text \<open>
  \<^verbatim>\<open>cpp/sort/quick_sort.cpp\<close>: randomised quick sort. The values of
  \<^verbatim>\<open>rand()\<close> are the parameter \<open>rnd\<close>: call number \<open>c\<close> returns
  \<open>rnd c\<close>, a number that is not negative. The counter is threaded through the calls, so
  the theorems hold for every sequence of random numbers.
\<close>

section \<open>partition\<close>

function partition_loop :: "int \<Rightarrow> int \<Rightarrow> int \<Rightarrow> int \<Rightarrow> int list \<Rightarrow> (int \<times> int list) ub" where
  "partition_loop m_v r small big nums =
     (if big < r
      then do {
        v \<leftarrow> iget nums big;
        if v \<le> m_v
        then do { nums \<leftarrow> iswap nums (small + 1) big; partition_loop m_v r (small + 1) (big + 1) nums }
        else partition_loop m_v r small (big + 1) nums
      }
      else Some (small, nums))"
  by pat_completeness auto
termination
  by (relation "measure (\<lambda>(m_v, r, small, big, nums). nat (r - big))") auto

declare partition_loop.simps [simp del]

definition partition_range :: "(nat \<Rightarrow> nat) \<Rightarrow> nat \<Rightarrow> int list \<Rightarrow> int \<Rightarrow> int \<Rightarrow> (int \<times> int list) ub" where
  "partition_range rnd c nums l r = do {
     let p = int (rnd c) mod (r - l + 1) + l;
     nums \<leftarrow> iswap nums r p;
     m_v \<leftarrow> iget nums r;
     (small, nums) \<leftarrow> partition_loop m_v r (l - 1) l nums;
     nums \<leftarrow> iswap nums (small + 1) r;
     Some (small + 1, nums)
   }"

section \<open>sortArray\<close>

partial_function (option) quick_range ::
  "(nat \<Rightarrow> nat) \<Rightarrow> nat \<Rightarrow> int list \<Rightarrow> int \<Rightarrow> int \<Rightarrow> (nat \<times> int list) ub" where
  "quick_range rnd c nums l r =
     (if l \<ge> r then Some (c, nums)
      else do {
        (pos, nums) \<leftarrow> partition_range rnd c nums l r;
        (c, nums) \<leftarrow> quick_range rnd (Suc c) nums l (pos - 1);
        quick_range rnd c nums (pos + 1) r
      })"

definition sortArray :: "(nat \<Rightarrow> nat) \<Rightarrow> int list \<Rightarrow> int list ub" where
  "sortArray rnd nums = do { (c, nums) \<leftarrow> quick_range rnd 0 nums 0 (int (length nums) - 1); Some nums }"

section \<open>Correctness of partition\<close>

text \<open>Between \<open>l\<close> and \<open>small\<close> the elements are at most the pivot, from there to the loop index above it.\<close>

definition split_at :: "int \<Rightarrow> int \<Rightarrow> int \<Rightarrow> int \<Rightarrow> int list \<Rightarrow> bool" where
  "split_at v l small big xs \<longleftrightarrow> (\<forall>k. l \<le> k \<and> k \<le> small \<longrightarrow> xs ! nat k \<le> v) \<and>
     (\<forall>k. small < k \<and> k < big \<longrightarrow> v < xs ! nat k)"

lemma split_at_keep: "split_at v l small big xs \<Longrightarrow> v < xs ! nat big \<Longrightarrow> split_at v l small (big + 1) xs"
  by (auto simp: split_at_def) (metis order_le_less zle_add1_eq_le zless_add1_eq)

lemma split_at_swap:
  assumes "split_at v l small big xs" "xs ! nat big \<le> v" "0 \<le> l" "l \<le> small + 1" "small < big" "big < int (length xs)"
  shows "split_at v l (small + 1) (big + 1) (xs[nat (small + 1) := xs ! nat big, nat big := xs ! nat (small + 1)])"
proof -
  let ?ys = "xs[nat (small + 1) := xs ! nat big, nat big := xs ! nat (small + 1)]"
  have nth: "?ys ! nat k = (if k = big then xs ! nat (small + 1) else if k = small + 1 then xs ! nat big else xs ! nat k)"
    if "l \<le> k" for k
    using assms that by (auto simp: nth_list_update nat_eq_iff)
  show ?thesis
    using assms nth by (auto simp: split_at_def)
qed

lemma partition_loop_ok:
  "0 \<le> l \<Longrightarrow> r < int (length xs) \<Longrightarrow> l \<le> small + 1 \<Longrightarrow> small < big \<Longrightarrow> big \<le> r \<Longrightarrow> split_at v l small big xs \<Longrightarrow>
    \<exists>small' ys. partition_loop v r small big xs = Some (small', ys) \<and> range_perm l (r - 1) xs ys \<and>
      l \<le> small' + 1 \<and> small' < r \<and> split_at v l small' r ys"
proof (induction v r small big xs rule: partition_loop.induct)
  case (1 v r small big xs)
  note e = partition_loop.simps [of v r small big xs]
  show ?case
  proof (cases "big < r")
    case False
    then show ?thesis using "1.prems" e by auto
  next
    case True
    have g: "iget xs big = Some (xs ! nat big)" using True "1.prems" by (simp add: vec_simps)
    show ?thesis
    proof (cases "xs ! nat big \<le> v")
      case le: True
      let ?ys = "xs[nat (small + 1) := xs ! nat big, nat big := xs ! nat (small + 1)]"
      have s: "iswap xs (small + 1) big = Some ?ys" using True "1.prems" by (simp add: vec_simps)
      have sp: "split_at v l (small + 1) (big + 1) ?ys" using split_at_swap "1.prems" le True by simp
      have "\<exists>small' zs. partition_loop v r (small + 1) (big + 1) ?ys = Some (small', zs) \<and>
          range_perm l (r - 1) ?ys zs \<and> l \<le> small' + 1 \<and> small' < r \<and> split_at v l small' r zs"
        using "1.IH"(1) [OF True g le s] "1.prems" True sp by simp
      moreover have "range_perm l (r - 1) xs ?ys"
        using range_perm_swap [of l "small + 1" "r - 1" big xs] "1.prems" True by simp
      ultimately show ?thesis using range_perm_trans True g le s e by fastforce
    next
      case False
      then show ?thesis
        using "1.IH"(2) [OF True g False] "1.prems" True g e split_at_keep by simp
    qed
  qed
qed

lemma partition_range_ok:
  assumes b: "0 \<le> l" "l \<le> r" "r < int (length xs)"
  shows "\<exists>pos ys. partition_range rnd c xs l r = Some (pos, ys) \<and> range_perm l r xs ys \<and> l \<le> pos \<and> pos \<le> r \<and>
    (\<forall>x \<in> set (slice ys l (pos - 1)). x \<le> ys ! nat pos) \<and> (\<forall>x \<in> set (slice ys (pos + 1) r). ys ! nat pos < x)"
proof -
  let ?p = "int (rnd c) mod (r - l + 1) + l"
  have p: "l \<le> ?p" "?p \<le> r" using b pos_mod_bound [of "r - l + 1" "int (rnd c)"] by auto
  let ?xs = "xs[nat r := xs ! nat ?p, nat ?p := xs ! nat r]"
  let ?v = "?xs ! nat r"
  have s1: "iswap xs r ?p = Some ?xs" "iget ?xs r = Some ?v" using b p by (simp_all add: vec_simps)
  have p1: "range_perm l r xs ?xs" using range_perm_swap [of l r r ?p xs] b p by simp
  have "split_at ?v l (l - 1) l ?xs" by (simp add: split_at_def)
  then obtain small ys where l1: "partition_loop ?v r (l - 1) l ?xs = Some (small, ys)"
    and p2: "range_perm l (r - 1) ?xs ys" and sm: "l \<le> small + 1" "small < r" and sp: "split_at ?v l small r ys"
    using partition_loop_ok [of l r ?xs "l - 1" l ?v] b by auto
  have len: "length ys = length xs" using range_perm_length [OF p2] by simp
  have v: "ys ! nat r = ?v" using range_perm_outside [OF p2, of r] b by simp
  let ?zs = "ys[nat (small + 1) := ys ! nat r, nat r := ys ! nat (small + 1)]"
  have s2: "iswap ys (small + 1) r = Some ?zs" using b sm len by (simp add: vec_simps)
  have p3: "range_perm l r ys ?zs" using range_perm_swap [of l "small + 1" r r ys] b sm len by simp
  have nth: "?zs ! nat k = (if k = r then ys ! nat (small + 1) else if k = small + 1 then ys ! nat r else ys ! nat k)"
    if "l \<le> k" "k \<le> r" for k
    using nth_swap_list [of "nat (small + 1)" ys "nat r" "nat k"] b sm that len by (simp add: nat_eq_iff eq_nat_nat_iff)
  define zs where "zs = ?zs"
  have z1: "zs ! nat (small + 1) = ?v" using nth [of "small + 1"] sm v unfolding zs_def by (cases "small + 1 = r") simp_all
  have z2: "zs ! nat k = ys ! nat k" if "l \<le> k" "k \<le> small" for k using nth [of k] that sm unfolding zs_def by simp
  have z3: "?v < zs ! nat k" if "small + 1 < k" "k \<le> r" for k
  proof (cases "k = r")
    case True
    then show ?thesis using nth [of k] that sm sp unfolding zs_def split_at_def by simp
  next
    case False
    then show ?thesis using nth [of k] that sm sp unfolding zs_def split_at_def by simp
  qed
  have "\<forall>x \<in> set (slice zs l (small + 1 - 1)). x \<le> zs ! nat (small + 1)"
    using sp z1 z2 by (auto simp: set_slice split_at_def)
  moreover have "\<forall>x \<in> set (slice zs (small + 1 + 1) r). zs ! nat (small + 1) < x"
    using z1 z3 by (auto simp: set_slice)
  moreover have "range_perm l r xs zs"
    using range_perm_trans [OF p1 range_perm_trans [OF range_perm_mono [OF p2] p3]] by (simp add: zs_def)
  moreover have "partition_range rnd c xs l r = Some (small + 1, zs)"
    using s1 l1 s2 by (simp add: partition_range_def Let_def zs_def)
  ultimately show ?thesis using sm by (intro exI [of _ "small + 1"] exI [of _ zs]) simp
qed

section \<open>Correctness of the recursion\<close>

text \<open>Sorting both sides of the pivot sorts the range.\<close>

lemma quick_step:
  assumes b: "0 \<le> l" "l \<le> pos" "pos \<le> r" "r < int (length xs)"
    and piv: "\<forall>x \<in> set (slice xs l (pos - 1)). x \<le> xs ! nat pos" "\<forall>x \<in> set (slice xs (pos + 1) r). xs ! nat pos < x"
    and 1: "range_perm l (pos - 1) xs ys" "sorted (slice ys l (pos - 1))"
    and 2: "range_perm (pos + 1) r ys zs" "sorted (slice zs (pos + 1) r)"
  shows "sorted (slice zs l r)"
proof -
  have len: "length ys = length xs" using range_perm_length [OF 1(1)] .
  have "slice zs l (pos - 1) = slice ys l (pos - 1)"
    using range_perm_slice_outside [OF 2(1), of l "pos - 1"] b len by simp
  then have s1: "sorted (slice zs l (pos - 1))" "set (slice zs l (pos - 1)) = set (slice xs l (pos - 1))"
    using 1(2) range_perm_set_slice [OF 1(1)] b by simp_all
  have "slice ys (pos + 1) r = slice xs (pos + 1) r"
    using range_perm_slice_outside [OF 1(1), of "pos + 1" r] b by simp
  then have s2: "set (slice zs (pos + 1) r) = set (slice xs (pos + 1) r)"
    using range_perm_set_slice [OF 2(1)] b len by simp
  have pz: "zs ! nat pos = xs ! nat pos"
    using range_perm_outside [OF 2(1), of pos] range_perm_outside [OF 1(1), of pos] b len by simp
  have "slice zs l r = slice zs l (pos - 1) @ zs ! nat pos # slice zs (pos + 1) r"
    using slice_append [of l "pos - 1" r zs] slice_Cons [of pos r zs] b by simp
  then show ?thesis using s1 s2 pz piv 2(2) by (force simp: sorted_append)
qed

lemma quick_range_ok:
  "0 \<le> l \<Longrightarrow> r < int (length xs) \<Longrightarrow>
    \<exists>c' ys. quick_range rnd c xs l r = Some (c', ys) \<and> range_perm l r xs ys \<and> sorted (slice ys l r)"
proof (induction "nat (r - l + 1)" arbitrary: c l r xs rule: less_induct)
  case less
  show ?case
  proof (cases "l \<ge> r")
    case True
    then have "sorted (slice xs l r)" by (cases "l = r") (simp_all add: slice_Cons)
    then show ?thesis using True by (simp add: quick_range.simps [of rnd c xs l r])
  next
    case False
    obtain pos ps where p: "partition_range rnd c xs l r = Some (pos, ps)" "range_perm l r xs ps" "l \<le> pos" "pos \<le> r"
      and piv: "\<forall>x \<in> set (slice ps l (pos - 1)). x \<le> ps ! nat pos" "\<forall>x \<in> set (slice ps (pos + 1) r). ps ! nat pos < x"
      using partition_range_ok [of l r xs rnd c] less.prems False by force
    have lp: "length ps = length xs" using range_perm_length [OF p(2)] .
    obtain c1 ys where y: "quick_range rnd (Suc c) ps l (pos - 1) = Some (c1, ys)" "range_perm l (pos - 1) ps ys"
      "sorted (slice ys l (pos - 1))"
      using less.hyps [of "pos - 1" l ps "Suc c"] less.prems p False lp by force
    obtain c2 zs where z: "quick_range rnd c1 ys (pos + 1) r = Some (c2, zs)" "range_perm (pos + 1) r ys zs"
      "sorted (slice zs (pos + 1) r)"
      using less.hyps [of r "pos + 1" ys c1] less.prems p False lp range_perm_length [OF y(2)] by force
    have "range_perm l r xs zs"
      using range_perm_trans [OF p(2) range_perm_trans [OF range_perm_mono [OF y(2)] range_perm_mono [OF z(2)]]] p by simp
    moreover have "sorted (slice zs l r)"
      using quick_step [OF _ p(3,4) _ piv y(2,3) z(2,3)] less.prems lp by simp
    ultimately show ?thesis using p(1) y(1) z(1) False by (simp add: quick_range.simps [of rnd c xs l r])
  qed
qed

interpretation quick: sorting_routine "sortArray rnd" "\<lambda>xs. True" for rnd
proof unfold_locales
  fix xs :: "int list"
  obtain c ys where "quick_range rnd 0 xs 0 (int (length xs) - 1) = Some (c, ys)"
    "range_perm 0 (int (length xs) - 1) xs ys" "sorted (slice ys 0 (int (length xs) - 1))"
    using quick_range_ok [of 0 "int (length xs) - 1" xs rnd 0] by auto
  then show "\<exists>ys. sortArray rnd xs = Some ys \<and> sorted ys \<and> mset ys = mset xs"
    using slice_whole [of ys] by (auto simp: range_perm_def sortArray_def)
qed

text \<open>
  C39. For every sequence of random numbers, \<^verbatim>\<open>partition\<close> on a range inside the vector
  permutes the range only and returns a position in it whose element separates the range: no
  element before it is larger, every element after it is larger. \<^verbatim>\<open>sortArray\<close>
  returns on every vector, the empty one included, and returns its sorted permutation
  whatever the random numbers are.
\<close>

theorem sortArray_sorts:
  shows "(\<forall>rnd c xs l r. 0 \<le> l \<and> l \<le> r \<and> r < int (length xs) \<longrightarrow>
      (\<exists>pos ys. partition_range rnd c xs l r = Some (pos, ys) \<and> range_perm l r xs ys \<and> l \<le> pos \<and> pos \<le> r \<and>
        (\<forall>x \<in> set (slice ys l (pos - 1)). x \<le> ys ! nat pos) \<and> (\<forall>x \<in> set (slice ys (pos + 1) r). ys ! nat pos < x))) \<and>
    (\<forall>rnd xs. sortArray rnd xs = Some (sort xs))"
  using partition_range_ok quick.is_sort by simp

theorem sortArray_sorts_witness:
  "sortArray (\<lambda>c. c) [3, 1, 2] = Some (sort [3, 1, 2]) \<and>
   (\<exists>pos ys. partition_range (\<lambda>c. 7) 0 [5, 2, 9, 4] 0 3 = Some (pos, ys) \<and> range_perm 0 3 [5, 2, 9, 4] ys \<and>
     (\<forall>x \<in> set (slice ys 0 (pos - 1)). x \<le> ys ! nat pos))"
  using sortArray_sorts [THEN conjunct1, THEN spec [of _ "\<lambda>c. 7"], THEN spec [of _ 0], THEN spec [of _ "[5, 2, 9, 4]"],
      THEN spec [of _ 0], THEN spec [of _ 3]]
    sortArray_sorts [THEN conjunct2, THEN spec [of _ "\<lambda>c. c"], THEN spec [of _ "[3, 1, 2]"]]
  by simp blast

end
