(* ===== verification/Sort_Count.thy ===== *)
theory Sort_Count
  imports Sort_Contract
begin

text \<open>
  \<^verbatim>\<open>cpp/sort/countSort.cpp\<close>: counting sort. The counters are indexed by the values
  themselves, not by their distance from the minimum, and the last counter is left out of
  the prefix sums, so the routine does not satisfy the contract of the sorting routines; the
  theorems say what it does.
\<close>

definition getMaxMin :: "int list \<Rightarrow> int \<times> int" where
  "getMaxMin vec = (let (mx, mn) = fold (\<lambda>v (mx, mn). (max mx v, min mn v)) vec (INT_MIN, INT_MAX) in (mn, mx))"

fun count_loop :: "int list \<Rightarrow> int list \<Rightarrow> int list ub" where
  "count_loop [] cnt = Some cnt"
| "count_loop (x # arr) cnt = do { c \<leftarrow> iget cnt x; cnt \<leftarrow> iset cnt x (c + 1); count_loop arr cnt }"

function prefix_loop :: "int \<Rightarrow> int \<Rightarrow> int list \<Rightarrow> int list ub" where
  "prefix_loop areaLen i cnt =
     (if i < areaLen
      then do {
        a \<leftarrow> iget cnt i;
        b \<leftarrow> iget cnt (i - 1);
        cnt \<leftarrow> iset cnt i (a + b);
        prefix_loop areaLen (i + 1) cnt
      }
      else Some cnt)"
  by pat_completeness auto
termination
  by (relation "measure (\<lambda>(areaLen, i, cnt). nat (areaLen - i))") auto

text \<open>The output loop runs over a copy of the vector from its end.\<close>

fun place_loop :: "int list \<Rightarrow> int list \<Rightarrow> int list \<Rightarrow> int list ub" where
  "place_loop [] cnt arr = Some arr"
| "place_loop (x # rest) cnt arr = do {
     c \<leftarrow> iget cnt x;
     arr \<leftarrow> iset arr (c - 1) x;
     cnt \<leftarrow> iset cnt x (c - 1);
     place_loop rest cnt arr
   }"

definition countSort :: "int list \<Rightarrow> int list ub" where
  "countSort arr =
     (if length arr < 1 then Some arr
      else do {
        let (mn, mx) = getMaxMin arr;
        areaLen \<leftarrow> as_int (mx - mn);
        size \<leftarrow> as_int (areaLen + 1);
        let cnt = replicate (nat size) 0;
        cnt \<leftarrow> count_loop arr cnt;
        cnt \<leftarrow> prefix_loop areaLen 1 cnt;
        place_loop (rev arr) cnt arr
      })"

text \<open>The second routine stops after it has allocated its arrays.\<close>

definition countSort2 :: "int list \<Rightarrow> int list ub" where
  "countSort2 data =
     (if length data < 1 then Some data
      else do {
        let (mn, mx) = getMaxMin data;
        areaLen \<leftarrow> as_int (mx - mn);
        size \<leftarrow> as_int (areaLen + 1);
        Some data
      })"

section \<open>Properties\<close>

lemma fold_max_min:
  "fold (\<lambda>v (mx, mn). (max mx v, min mn v)) xs (a, b) = (Max (insert a (set xs)), Min (insert b (set xs)))"
  for a b :: int
proof (induction xs arbitrary: a b)
  case (Cons x xs)
  have "Max (insert (max a x) (set xs)) = Max (insert a (insert x (set xs)))"
    by (cases "xs = []") (auto simp: max.assoc max.left_commute)
  moreover have "Min (insert (min b x) (set xs)) = Min (insert b (insert x (set xs)))"
    by (cases "xs = []") (auto simp: min.assoc min.left_commute)
  ultimately show ?case using Cons.IH by simp
qed simp

lemma getMaxMin_ok:
  assumes "xs \<noteq> []" "\<forall>x \<in> set xs. in_int x"
  shows "getMaxMin xs = (Min (set xs), Max (set xs))"
proof -
  have "INT_MIN \<le> Max (set xs)" "Min (set xs) \<le> INT_MAX"
    using assms Max_in [of "set xs"] Min_in [of "set xs"] by (auto simp: in_int_def)
  then show ?thesis
    using assms(1) by (simp add: getMaxMin_def fold_max_min)
qed

lemma count_loop_out_of_range:
  "\<exists>x \<in> set xs. x < 0 \<or> int (length cnt) \<le> x \<Longrightarrow> count_loop xs cnt = None"
proof (induction xs arbitrary: cnt)
  case (Cons x xs)
  show ?case
  proof (cases "0 \<le> x \<and> x < int (length cnt)")
    case True
    then have "\<exists>y \<in> set xs. y < 0 \<or> int (length (cnt[nat x := cnt ! nat x + 1])) \<le> y"
      using Cons.prems by auto
    then show ?thesis using Cons.IH True by (simp add: iget_def iset_def)
  qed (auto simp: iget_def)
qed simp

text \<open>
  \<^verbatim>\<open>countSort\<close> indexes its counters out of range on every vector whose minimum
  is not zero, the vector of its own \<^verbatim>\<open>main\<close> among them; and where it runs to its
  end it need not return a permutation: \<open>[0, 1, 0]\<close> becomes \<open>[0, 0, 0]\<close>. The second
  routine leaves every vector as it is.
\<close>

theorem countSort_out_of_range:
  assumes "\<forall>x \<in> set xs. in_int x"
  shows "(xs \<noteq> [] \<and> Min (set xs) \<noteq> 0 \<longrightarrow> countSort xs = None) \<and>
    (\<forall>ys. countSort2 xs = Some ys \<longrightarrow> ys = xs) \<and>
    countSort [0, 1, 0] = Some [0, 0, 0]"
proof -
  have "countSort xs = None" if ne: "xs \<noteq> []" and m: "Min (set xs) \<noteq> 0"
  proof -
    let ?mn = "Min (set xs)" and ?mx = "Max (set xs)"
    let ?cnt = "replicate (nat (?mx - ?mn + 1)) (0::int)"
    have mem: "?mn \<in> set xs" "?mx \<in> set xs" "?mn \<le> ?mx" using ne by auto
    have "\<exists>x \<in> set xs. x < 0 \<or> int (length ?cnt) \<le> x"
    proof (cases "?mn < 0")
      case False
      then have "int (length ?cnt) \<le> ?mx" using m mem(3) by simp
      then show ?thesis using mem(2) by blast
    qed (use mem(1) in blast)
    then have "count_loop xs ?cnt = None" by (rule count_loop_out_of_range)
    then show ?thesis
      using ne assms by (simp add: countSort_def getMaxMin_ok as_int_def)
  qed
  moreover have "countSort2 xs = Some ys \<Longrightarrow> ys = xs" for ys
    by (auto simp: countSort2_def bind_eq_Some Let_def split: if_splits prod.splits)
  moreover have "countSort [0, 1, 0] = Some [0, 0, 0]"
    by (simp add: countSort_def getMaxMin_def as_int_def in_int_def iget_def iset_def)
  ultimately show ?thesis by blast
qed

theorem countSort_out_of_range_witness:
  "countSort [1, 5, 3, 7, 6, 2, 8, 9, 4, 3, 3] = None"
  using countSort_out_of_range [of "[1, 5, 3, 7, 6, 2, 8, 9, 4, 3, 3]"] by (simp add: in_int_def)

end
