(* ===== verification/Searching.thy ===== *)
theory Searching
  imports Cpp_Prelude
begin

text \<open>
  \<^verbatim>\<open>cpp/search/binarySearch.cpp\<close>: the three binary searches. The contract of a
  search in a sorted vector is a locale; the first and the third routine satisfy it. The
  second one has a misplaced bracket (\<^verbatim>\<open>data[mid>key]\<close>) and is a fixed point in
  the option type, because it need not return.
\<close>

section \<open>The contract of a search\<close>

locale sorted_search =
  fixes find_key :: "int list \<Rightarrow> int \<Rightarrow> int ub" and accepts :: "int list \<Rightarrow> bool"
  assumes searches: "accepts xs \<Longrightarrow> sorted xs \<Longrightarrow> \<exists>i. find_key xs key = Some i \<and>
    (if key \<in> set xs then 0 \<le> i \<and> i < int (length xs) \<and> xs ! nat i = key else i = -1)"
begin

lemma found_iff: "accepts xs \<Longrightarrow> sorted xs \<Longrightarrow> find_key xs key = Some i \<Longrightarrow> i = -1 \<longleftrightarrow> key \<notin> set xs"
  using searches [of xs key] by (auto split: if_splits)

lemma found_at: "accepts xs \<Longrightarrow> sorted xs \<Longrightarrow> distinct xs \<Longrightarrow> k < length xs \<Longrightarrow> find_key xs (xs ! k) = Some (int k)"
  using searches [of xs "xs ! k"] by (auto simp: nth_eq_iff_index_eq)

end

section \<open>The routines\<close>

function binarySearch_loop :: "int list \<Rightarrow> int \<Rightarrow> int \<Rightarrow> int \<Rightarrow> int ub" where
  "binarySearch_loop data key low high =
     (if low \<le> high
      then if \<not> in_int (low + high) then None
      else let mid = tquot (low + high) 2 in do {
        v \<leftarrow> iget data mid;
        if v = key then Some mid
        else if v < key then binarySearch_loop data key (mid + 1) high
        else binarySearch_loop data key low (mid - 1)
      }
      else Some (-1))"
  by pat_completeness auto
termination
proof (relation "measure (\<lambda>(data, key, low, high). nat (high - low + 1))")
  fix data key low high mid v
  assume "low \<le> high" "mid = tquot (low + high) 2"
  then show "((data, key, mid + 1, high), (data, key, low, high)) \<in> measure (\<lambda>(data, key, low, high). nat (high - low + 1))"
    and "((data, key, low, mid - 1), (data, key, low, high)) \<in> measure (\<lambda>(data, key, low, high). nat (high - low + 1))"
    using tquot_half_between [of low high] by auto
qed simp

definition binarySearch :: "int list \<Rightarrow> int \<Rightarrow> int \<Rightarrow> int ub" where
  "binarySearch data len key = binarySearch_loop data key 0 (len - 1)"

partial_function (option) binarySearch2_loop :: "int list \<Rightarrow> int \<Rightarrow> int \<Rightarrow> int \<Rightarrow> int ub" where
  "binarySearch2_loop data key left right =
     (if left \<le> right
      then do {
        sum \<leftarrow> as_int (left + right);
        let mid = sum div 2;
        v \<leftarrow> iget data mid;
        if v = key then Some mid
        else do {
          let left = (if v < key then mid + 1 else left);
          w \<leftarrow> iget data (if mid > key then 1 else 0);
          let right = (if w \<noteq> 0 then mid - 1 else right);
          binarySearch2_loop data key left right
        }
      }
      else Some (-1))"

definition binarySearch2 :: "int list \<Rightarrow> int \<Rightarrow> int \<Rightarrow> int ub" where
  "binarySearch2 data len key = binarySearch2_loop data key 0 (len - 1)"

function binarySearch3_loop :: "int list \<Rightarrow> int \<Rightarrow> int \<Rightarrow> int \<Rightarrow> int ub" where
  "binarySearch3_loop data key left right =
     (if left \<le> right
      then let mid = left + (right - left) div 2 in do {
        v \<leftarrow> iget data mid;
        if v = key then Some mid
        else binarySearch3_loop data key (if v < key then mid + 1 else left) (if v > key then mid - 1 else right)
      }
      else Some (-1))"
  by pat_completeness auto
termination
  by (relation "measure (\<lambda>(data, key, left, right). nat (right - left + 1))") auto

definition binarySearch3 :: "int list \<Rightarrow> int \<Rightarrow> int \<Rightarrow> int ub" where
  "binarySearch3 data len key = binarySearch3_loop data key 0 (len - 1)"

declare binarySearch_loop.simps [simp del] binarySearch3_loop.simps [simp del]

section \<open>The first and the third routine satisfy the contract\<close>

text \<open>The key, if present, lies in the range that is left.\<close>

definition found_in :: "int list \<Rightarrow> int \<Rightarrow> int \<Rightarrow> int \<Rightarrow> int \<Rightarrow> bool" where
  "found_in xs key low high i \<longleftrightarrow>
     (if key \<in> set (slice xs low high) then low \<le> i \<and> i \<le> high \<and> xs ! nat i = key else i = -1)"

lemma found_in_upper:
  assumes "found_in xs key (mid + 1) high i" "low \<le> mid" "mid \<le> high" "0 \<le> low" "high < int (length xs)" "sorted xs" "xs ! nat mid < key"
  shows "found_in xs key low high i"
proof -
  have "key \<notin> set (slice xs low mid)"
  proof
    assume "key \<in> set (slice xs low mid)"
    then obtain k where "low \<le> k" "k \<le> mid" "key = xs ! nat k" by (auto simp: set_slice)
    moreover have "nat k \<le> nat mid" "nat mid < length xs" using calculation assms by linarith+
    ultimately show False using assms sorted_nth_mono [of xs "nat k" "nat mid"] by simp
  qed
  then show ?thesis
    using assms slice_append [of low mid high xs] by (auto simp: found_in_def)
qed

lemma found_in_lower:
  assumes "found_in xs key low (mid - 1) i" "low \<le> mid" "mid \<le> high" "0 \<le> low" "high < int (length xs)" "sorted xs" "key < xs ! nat mid"
  shows "found_in xs key low high i"
proof -
  have "key \<notin> set (slice xs mid high)"
  proof
    assume "key \<in> set (slice xs mid high)"
    then obtain k where "mid \<le> k" "k \<le> high" "key = xs ! nat k" by (auto simp: set_slice)
    moreover have "nat mid \<le> nat k" "nat k < length xs" using calculation assms by linarith+
    ultimately show False using assms sorted_nth_mono [of xs "nat mid" "nat k"] by simp
  qed
  then show ?thesis
    using assms slice_append [of low "mid - 1" high xs] by (auto simp: found_in_def)
qed

lemma found_in_here: "low \<le> mid \<Longrightarrow> mid \<le> high \<Longrightarrow> xs ! nat mid = key \<Longrightarrow> found_in xs key low high mid"
  by (auto simp: found_in_def set_slice)

lemma found_in_empty: "high < low \<Longrightarrow> found_in xs key low high (-1)"
  by (simp add: found_in_def)

lemma binarySearch_loop_ok:
  "0 \<le> low \<Longrightarrow> high < int (length xs) \<Longrightarrow> int (length xs) \<le> 2 ^ 30 \<Longrightarrow> sorted xs \<Longrightarrow>
    \<exists>i. binarySearch_loop xs key low high = Some i \<and> found_in xs key low high i"
proof (induction xs key low high rule: binarySearch_loop.induct)
  case (1 xs key low high)
  note e = binarySearch_loop.simps [of xs key low high]
  show ?case
  proof (cases "low \<le> high")
    case False
    then show ?thesis using e found_in_empty by simp
  next
    case True
    let ?m = "tquot (low + high) 2"
    have m: "low \<le> ?m" "?m \<le> high" using tquot_half_between True by auto
    have n: "\<not> \<not> in_int (low + high)" using "1.prems" True by (simp add: in_int_def)
    have g: "iget xs ?m = Some (xs ! nat ?m)" using m "1.prems" by (simp add: iget_def)
    consider "xs ! nat ?m = key" | "xs ! nat ?m < key" | "key < xs ! nat ?m" by linarith
    then show ?thesis
    proof cases
      case 1
      then show ?thesis using e True n g found_in_here [OF m, of xs key] by (simp add: Let_def)
    next
      case 2
      then show ?thesis
        using "1.IH"(1) [OF True n refl g] "1.prems" m e True n g found_in_upper [OF _ m]
        by (auto simp: Let_def)
    next
      case 3
      then show ?thesis
        using "1.IH"(2) [OF True n refl g] "1.prems" m e True n g found_in_lower [OF _ m]
        by (auto simp: Let_def)
    qed
  qed
qed

lemma binarySearch3_loop_ok:
  "0 \<le> low \<Longrightarrow> high < int (length xs) \<Longrightarrow> sorted xs \<Longrightarrow>
    \<exists>i. binarySearch3_loop xs key low high = Some i \<and> found_in xs key low high i"
proof (induction xs key low high rule: binarySearch3_loop.induct)
  case (1 xs key low high)
  note e = binarySearch3_loop.simps [of xs key low high]
  show ?case
  proof (cases "low \<le> high")
    case False
    then show ?thesis using e found_in_empty by simp
  next
    case True
    let ?m = "low + (high - low) div 2"
    have m: "low \<le> ?m" "?m \<le> high" using True by auto
    have g: "iget xs ?m = Some (xs ! nat ?m)" using m "1.prems" by (simp add: iget_def)
    consider "xs ! nat ?m = key" | "xs ! nat ?m < key" | "key < xs ! nat ?m" by linarith
    then show ?thesis
    proof cases
      case 1
      then show ?thesis using e True g found_in_here [OF m, of xs key] by (simp add: Let_def)
    next
      case 2
      then show ?thesis
        using "1.IH" [OF True refl g] "1.prems" m e True g found_in_upper [OF _ m]
        by (auto simp: Let_def)
    next
      case 3
      then show ?thesis
        using "1.IH" [OF True refl g] "1.prems" m e True g found_in_lower [OF _ m]
        by (auto simp: Let_def)
    qed
  qed
qed

interpretation bs1: sorted_search "\<lambda>xs. binarySearch xs (int (length xs))" "\<lambda>xs. int (length xs) \<le> 2 ^ 30"
proof unfold_locales
  fix xs :: "int list" and key assume "int (length xs) \<le> 2 ^ 30" "sorted xs"
  then obtain i where "binarySearch xs (int (length xs)) key = Some i" "found_in xs key 0 (int (length xs) - 1) i"
    using binarySearch_loop_ok [of 0 "int (length xs) - 1" xs key] by (auto simp: binarySearch_def)
  then show "\<exists>i. binarySearch xs (int (length xs)) key = Some i \<and>
      (if key \<in> set xs then 0 \<le> i \<and> i < int (length xs) \<and> xs ! nat i = key else i = -1)"
    by (auto simp: found_in_def slice_whole split: if_splits)
qed

interpretation bs3: sorted_search "\<lambda>xs. binarySearch3 xs (int (length xs))" "\<lambda>xs. True"
proof unfold_locales
  fix xs :: "int list" and key assume "sorted xs"
  then obtain i where "binarySearch3 xs (int (length xs)) key = Some i" "found_in xs key 0 (int (length xs) - 1) i"
    using binarySearch3_loop_ok [of 0 "int (length xs) - 1" xs key] by (auto simp: binarySearch3_def)
  then show "\<exists>i. binarySearch3 xs (int (length xs)) key = Some i \<and>
      (if key \<in> set xs then 0 \<le> i \<and> i < int (length xs) \<and> xs ! nat i = key else i = -1)"
    by (auto simp: found_in_def slice_whole split: if_splits)
qed

section \<open>The second routine\<close>

lemma binarySearch2_stuck:
  assumes "binarySearch2_loop [0, 5] 3 1 1 = Some i"
  shows False
proof -
  have *: "\<not> (data = [0, 5] \<and> key = 3 \<and> left = 1 \<and> right = 1)"
    if "binarySearch2_loop data key left right = Some i" for data key left right i
  proof (rule binarySearch2_loop.raw_induct [OF _ that], goal_cases)
    case (1 f data key left right i)
    show ?case using 1(2) 1(1) [of "[0, 5]" 3 1 1] by (auto simp: bind_eq_Some iget_def in_int_def)
  qed
  show ?thesis using * [OF assms] by simp
qed

text \<open>
  On a sorted vector, \<^verbatim>\<open>binarySearch\<close> (up to \<open>2 ^ 30\<close> elements, where the sum of
  the bounds fits) and \<^verbatim>\<open>binarySearch3\<close> stay within the vector, return, and return
  the position of the key, or \<open>-1\<close> exactly when it is absent. \<^verbatim>\<open>binarySearch2\<close>
  does not: it misses the last element of \<open>[1, 2, 3]\<close> and does not return on \<open>[0, 5]\<close>
  with key \<open>3\<close>.
\<close>

theorem binarySearch_spec:
  assumes "sorted xs"
  shows "(length xs \<le> 2 ^ 30 \<longrightarrow> (\<exists>i. binarySearch xs (int (length xs)) key = Some i \<and>
      (if key \<in> set xs then 0 \<le> i \<and> i < int (length xs) \<and> xs ! nat i = key else i = -1))) \<and>
    (\<exists>i. binarySearch3 xs (int (length xs)) key = Some i \<and>
      (if key \<in> set xs then 0 \<le> i \<and> i < int (length xs) \<and> xs ! nat i = key else i = -1)) \<and>
    binarySearch2 [1, 2, 3] 3 3 = Some (-1) \<and> binarySearch2 [0, 5] 2 3 = None"
proof -
  have "binarySearch2 [1, 2, 3] 3 3 = Some (-1)"
    by (simp add: binarySearch2_def binarySearch2_loop.simps [of _ _ 0 2] binarySearch2_loop.simps [of _ _ 2 0] iget_def in_int_def)
  moreover have "binarySearch2 [0, 5] 2 3 = binarySearch2_loop [0, 5] 3 1 1"
    by (simp add: binarySearch2_def binarySearch2_loop.simps [of _ _ 0 1] iget_def in_int_def)
  ultimately show ?thesis
    using assms bs1.searches [of xs key] bs3.searches [of xs key] binarySearch2_stuck by fastforce
qed

theorem binarySearch_spec_witness:
  "binarySearch3 [1, 2, 3, 4, 5, 6] 6 0 = Some (-1) \<and>
   (\<exists>i. binarySearch [1, 2, 3, 4, 5, 6] 6 4 = Some i \<and> [1, 2, 3, 4, 5, 6::int] ! nat i = 4)"
  using binarySearch_spec [of "[1, 2, 3, 4, 5, 6]" 0] binarySearch_spec [of "[1, 2, 3, 4, 5, 6]" 4] by auto

end
