(* ===== verification/LruCache.thy ===== *)
theory LruCache
  imports Cpp_Prelude
begin

text \<open>
  The LRU caches of \<^verbatim>\<open>cpp/linux/LRU_template.cpp\<close>, \<^verbatim>\<open>cpp/linux/LRU.cpp\<close>
  and the LRU exercise of the online judge: a doubly linked list of key and value in order of
  use and a hash map from keys to list iterators. A list node has an identity, an iterator
  is the identity of its node, and an iterator whose node was erased is invalid: using it is
  undefined. The specification is an association list in order of use; the caches are
  interpretations of one locale that relates the two.
\<close>

section \<open>The data structure\<close>

type_synonym 'v lru_node = "nat \<times> int \<times> 'v"

record 'v lru =
  cap :: int
  cnt :: int
  index :: "int \<Rightarrow> nat option"
  nodes :: "'v lru_node list"
  fresh :: nat

definition lru_new :: "int \<Rightarrow> 'v lru" where
  "lru_new capacity = \<lparr>cap = capacity, cnt = 0, index = Map.empty, nodes = [], fresh = 0\<rparr>"

definition list_erase :: "nat \<Rightarrow> 'v lru_node list \<Rightarrow> 'v lru_node list ub" where
  "list_erase it ns = (if it \<in> fst ` set ns then Some (filter (\<lambda>n. fst n \<noteq> it) ns) else None)"

text \<open>\<^verbatim>\<open>push_front\<close> makes a new node; \<^verbatim>\<open>m[key] = list.begin()\<close> points the key to it.\<close>

definition push_front :: "int \<Rightarrow> 'v \<Rightarrow> 'v lru \<Rightarrow> 'v lru" where
  "push_front key v c = c\<lparr>nodes := (fresh c, key, v) # nodes c, fresh := Suc (fresh c)\<rparr>"

definition point_to_begin :: "int \<Rightarrow> 'v lru \<Rightarrow> 'v lru ub" where
  "point_to_begin key c = (case nodes c of [] \<Rightarrow> None | n # _ \<Rightarrow> Some (c\<lparr>index := (index c)(key \<mapsto> fst n)\<rparr>))"

section \<open>The template\<close>

definition lru_get :: "'v \<Rightarrow> int \<Rightarrow> 'v lru \<Rightarrow> ('v \<times> 'v lru) ub" where
  "lru_get absent key c =
     (case index c key of
        None \<Rightarrow> Some (absent, c)
      | Some it \<Rightarrow> do {
          (k, res) \<leftarrow> map_of (nodes c) it;
          ns \<leftarrow> list_erase it (nodes c);
          c \<leftarrow> point_to_begin key (push_front key res (c\<lparr>nodes := ns\<rparr>));
          Some (res, c)
        })"

definition lru_put :: "int \<Rightarrow> 'v \<Rightarrow> 'v lru \<Rightarrow> 'v lru ub" where
  "lru_put key v c = do {
     c \<leftarrow> (case index c key of
         Some it \<Rightarrow> do { ns \<leftarrow> list_erase it (nodes c); Some (c\<lparr>nodes := ns\<rparr>) }
       | None \<Rightarrow>
           if cnt c = cap c
           then if nodes c = [] then None
             else do {
               let delkey = fst (snd (last (nodes c)));
               Some (c\<lparr>nodes := butlast (nodes c), index := (index c)(delkey := None)\<rparr>)
             }
           else Some (c\<lparr>cnt := cnt c + 1\<rparr>));
     point_to_begin key (push_front key v c)
   }"

section \<open>The cache of ints and the exercise\<close>

text \<open>The cache of ints is the template at \<^verbatim>\<open>int\<close>, with \<open>-1\<close> for an absent key.\<close>

definition LRU_get :: "int \<Rightarrow> int lru \<Rightarrow> (int \<times> int lru) ub" where
  "LRU_get = lru_get (-1)"

definition LRU_put :: "int \<Rightarrow> int \<Rightarrow> int lru \<Rightarrow> int lru ub" where
  "LRU_put = lru_put"

text \<open>The exercise erases the key of the last node from the map before it drops the node.\<close>

definition exercise_get :: "int \<Rightarrow> int lru \<Rightarrow> (int \<times> int lru) ub" where
  "exercise_get key c =
     (case index c key of
        None \<Rightarrow> Some (-1, c)
      | Some it \<Rightarrow> do {
          (k, res) \<leftarrow> map_of (nodes c) it;
          ns \<leftarrow> list_erase it (nodes c);
          c \<leftarrow> point_to_begin key (push_front key res (c\<lparr>nodes := ns\<rparr>));
          Some (res, c)
        })"

definition exercise_put :: "int \<Rightarrow> int \<Rightarrow> int lru \<Rightarrow> int lru ub" where
  "exercise_put key v c = do {
     c \<leftarrow> (case index c key of
         Some it \<Rightarrow> do { ns \<leftarrow> list_erase it (nodes c); Some (c\<lparr>nodes := ns\<rparr>) }
       | None \<Rightarrow>
           if cap c = cnt c
           then do {
             n \<leftarrow> (if nodes c = [] then None else Some (last (nodes c)));
             let c = c\<lparr>index := (index c)(fst (snd n) := None)\<rparr>;
             Some (c\<lparr>nodes := butlast (nodes c)\<rparr>)
           }
           else Some (c\<lparr>cnt := cnt c + 1\<rparr>));
     point_to_begin key (push_front key v c)
   }"

section \<open>The specification\<close>

type_synonym 'v recency = "(int \<times> 'v) list"

definition without :: "int \<Rightarrow> 'v recency \<Rightarrow> 'v recency" where
  "without k xs = filter (\<lambda>p. fst p \<noteq> k) xs"

definition spec_get :: "'v \<Rightarrow> int \<Rightarrow> 'v recency \<Rightarrow> 'v \<times> 'v recency" where
  "spec_get absent k xs = (case map_of xs k of None \<Rightarrow> (absent, xs) | Some v \<Rightarrow> (v, (k, v) # without k xs))"

definition spec_put :: "nat \<Rightarrow> int \<Rightarrow> 'v \<Rightarrow> 'v recency \<Rightarrow> 'v recency" where
  "spec_put n k v xs = take n ((k, v) # without k xs)"

datatype 'v cache_op = Get int | Put int 'v

text \<open>
  The keys that were used, most recent first: every put, and every get that found its key.
\<close>

fun used_keys :: "'v cache_op \<Rightarrow> 'v recency \<Rightarrow> int list \<Rightarrow> int list" where
  "used_keys (Get k) xs h = (if k \<in> fst ` set xs then k # h else h)"
| "used_keys (Put k v) xs h = k # h"

fun spec_step :: "nat \<Rightarrow> 'v \<Rightarrow> 'v cache_op \<Rightarrow> 'v recency \<Rightarrow> 'v list \<times> 'v recency" where
  "spec_step n absent (Get k) xs = (let (v, xs) = spec_get absent k xs in ([v], xs))"
| "spec_step n absent (Put k v) xs = ([], spec_put n k v xs)"

fun spec_cache :: "nat \<Rightarrow> 'v \<Rightarrow> 'v cache_op list \<Rightarrow> 'v recency \<Rightarrow> int list \<Rightarrow> 'v list \<times> 'v recency \<times> int list" where
  "spec_cache n absent [] xs h = ([], xs, h)"
| "spec_cache n absent (op # ops) xs h =
     (let (out, ys) = spec_step n absent op xs; (outs, zs, h') = spec_cache n absent ops ys (used_keys op xs h)
      in (out @ outs, zs, h'))"

text \<open>Keys without repetition, each at its first place.\<close>

fun firsts :: "int list \<Rightarrow> int list" where
  "firsts [] = []"
| "firsts (k # h) = k # filter (\<lambda>x. x \<noteq> k) (firsts h)"

lemma set_firsts [simp]: "set (firsts h) = set h"
  by (induction h) auto

lemma distinct_firsts [simp]: "distinct (firsts h)"
  by (induction h) auto

lemma map_fst_without: "map fst (without k xs) = filter (\<lambda>x. x \<noteq> k) (map fst xs)"
  by (simp add: without_def filter_map o_def)

lemma without_absent [simp]: "k \<notin> fst ` set xs \<Longrightarrow> without k xs = xs"
  by (auto simp: without_def filter_id_conv)

lemma map_of_without [simp]: "map_of (without k xs) k' = (if k' = k then None else map_of xs k')"
  by (induction xs) (auto simp: without_def)

text \<open>Cutting a list of distinct keys before or after one key is taken out is the same.\<close>

lemma at_most_one: "distinct xs \<Longrightarrow> length (filter (\<lambda>x. x = k) xs) \<le> 1"
  by (induction xs) (auto simp: filter_empty_conv)

lemma take_filter_one:
  assumes "distinct L" "0 < n"
  shows "take (n - 1) (filter (\<lambda>x. x \<noteq> k) (take n L)) = take (n - 1) (filter (\<lambda>x. x \<noteq> k) L)"
proof (cases "n \<le> length L")
  case True
  have "length (filter (\<lambda>x. x \<noteq> k) (take n L)) = n - length (filter (\<lambda>x. x = k) (take n L))"
    using sum_length_filter_compl [of "\<lambda>x. x = k" "take n L"] True by simp
  moreover have "length (filter (\<lambda>x. x = k) (take n L)) \<le> 1"
    using at_most_one [of "take n L" k] assms(1) by simp
  moreover have "filter (\<lambda>x. x \<noteq> k) L = filter (\<lambda>x. x \<noteq> k) (take n L) @ filter (\<lambda>x. x \<noteq> k) (drop n L)"
    by (metis append_take_drop_id filter_append)
  ultimately show ?thesis by simp
qed simp

lemma spec_keys_put:
  assumes "0 < n" "map fst xs = take n (firsts h)"
  shows "map fst (spec_put n k v xs) = take n (firsts (k # h))"
  using assms take_filter_one [of "firsts h" n k]
  by (cases n) (simp_all add: spec_put_def take_map [symmetric] map_fst_without)

lemma map_of_lookup_key: "map_of xs k = Some v \<Longrightarrow> k \<in> fst ` set xs"
  by (force dest: map_of_SomeD)

lemma spec_keys_get:
  assumes "0 < n" "map fst xs = take n (firsts h)" "map_of xs k = Some v"
  shows "map fst ((k, v) # without k xs) = take n (firsts (k # h))"
proof -
  have d: "distinct (map fst xs)" using assms(2) by simp
  have "k \<in> fst ` set xs" using assms(3) by (rule map_of_lookup_key)
  moreover have "length (map fst xs) \<le> n" using assms(2) by simp
  ultimately have "length (filter (\<lambda>x. x \<noteq> k) (map fst xs)) < n"
    using length_filter_less [of k "map fst xs" "\<lambda>x. x \<noteq> k"] by simp
  then have "map fst ((k, v) # without k xs) = map fst (spec_put n k v xs)"
    by (simp add: spec_put_def map_fst_without [symmetric])
  then show ?thesis using spec_keys_put [OF assms(1,2)] by simp
qed

text \<open>The specification evicts by recency: the keys kept are the \<open>n\<close> most recently used ones.\<close>

lemma spec_cache_recency:
  "0 < n \<Longrightarrow> map fst xs = take n (firsts h) \<Longrightarrow> spec_cache n absent ops xs h = (outs, ys, h') \<Longrightarrow>
    map fst ys = take n (firsts h')"
proof (induction ops arbitrary: xs h outs)
  case (Cons op ops)
  have "map fst (snd (spec_step n absent op xs)) = take n (firsts (used_keys op xs h))"
  proof (cases op)
    case (Get k)
    then show ?thesis
      using spec_keys_get [OF Cons.prems(1,2), of k] Cons.prems(2) map_of_eq_None_iff [of xs k]
      by (auto simp: spec_get_def Let_def split: option.splits dest: map_of_lookup_key)
  next
    case (Put k v)
    then show ?thesis using spec_keys_put [OF Cons.prems(1,2)] by simp
  qed
  then show ?case
    using Cons.IH [OF Cons.prems(1)] Cons.prems(3) by (auto simp: Let_def split: prod.splits)
qed simp

text \<open>A sequence of operations on a cache, with the values the gets return.\<close>

fun cache_step :: "(int \<Rightarrow> 'v lru \<Rightarrow> ('v \<times> 'v lru) ub) \<Rightarrow> (int \<Rightarrow> 'v \<Rightarrow> 'v lru \<Rightarrow> 'v lru ub) \<Rightarrow>
    'v cache_op \<Rightarrow> 'v lru \<Rightarrow> ('v list \<times> 'v lru) ub" where
  "cache_step get put (Get k) c = do { (v, c) \<leftarrow> get k c; Some ([v], c) }"
| "cache_step get put (Put k v) c = do { c \<leftarrow> put k v c; Some ([], c) }"

fun cache_run :: "(int \<Rightarrow> 'v lru \<Rightarrow> ('v \<times> 'v lru) ub) \<Rightarrow> (int \<Rightarrow> 'v \<Rightarrow> 'v lru \<Rightarrow> 'v lru ub) \<Rightarrow>
    'v cache_op list \<Rightarrow> 'v lru \<Rightarrow> ('v list \<times> 'v lru) ub" where
  "cache_run get put [] c = Some ([], c)"
| "cache_run get put (op # ops) c = do {
     (out, c) \<leftarrow> cache_step get put op c; (outs, c) \<leftarrow> cache_run get put ops c; Some (out @ outs, c) }"

section \<open>The contract of a cache\<close>

locale recency_cache =
  fixes inv :: "nat \<Rightarrow> 'v lru \<Rightarrow> bool" and abs :: "'v lru \<Rightarrow> 'v recency" and absent :: 'v
    and new :: "int \<Rightarrow> 'v lru" and get :: "int \<Rightarrow> 'v lru \<Rightarrow> ('v \<times> 'v lru) ub" and put :: "int \<Rightarrow> 'v \<Rightarrow> 'v lru \<Rightarrow> 'v lru ub"
  assumes new_ok: "inv n (new (int n)) \<and> abs (new (int n)) = []"
    and get_ok: "inv n c \<Longrightarrow> \<exists>v c'. get k c = Some (v, c') \<and> inv n c' \<and> (v, abs c') = spec_get absent k (abs c)"
    and put_ok: "0 < n \<Longrightarrow> inv n c \<Longrightarrow> \<exists>c'. put k v c = Some c' \<and> inv n c' \<and> abs c' = spec_put n k v (abs c)"
begin

lemma step_ok:
  "0 < n \<Longrightarrow> inv n c \<Longrightarrow> \<exists>c'. cache_step get put op c = Some (fst (spec_step n absent op (abs c)), c') \<and> inv n c' \<and>
    abs c' = snd (spec_step n absent op (abs c))"
proof (cases op)
  case (Get k)
  assume "inv n c"
  then obtain v c' where g: "get k c = Some (v, c')" "inv n c'" "(v, abs c') = spec_get absent k (abs c)"
    using get_ok by blast
  then show ?thesis by (simp add: Get g(3) [symmetric])
next
  case (Put k v)
  assume "0 < n" "inv n c"
  then show ?thesis using put_ok [of n c k v] Put by auto
qed

lemma run_ok:
  "0 < n \<Longrightarrow> inv n c \<Longrightarrow> spec_cache n absent ops (abs c) h = (outs, ys, h') \<Longrightarrow>
    \<exists>c'. cache_run get put ops c = Some (outs, c') \<and> inv n c' \<and> abs c' = ys"
proof (induction ops arbitrary: c h outs)
  case (Cons op ops)
  obtain c1 where c1: "cache_step get put op c = Some (fst (spec_step n absent op (abs c)), c1)" "inv n c1"
    "abs c1 = snd (spec_step n absent op (abs c))"
    using step_ok Cons.prems by blast
  obtain outs1 where o: "spec_cache n absent ops (abs c1) (used_keys op (abs c) h) = (outs1, ys, h')"
    "outs = fst (spec_step n absent op (abs c)) @ outs1"
    using Cons.prems(3) c1(3) by (auto simp: Let_def split: prod.splits)
  show ?case using Cons.IH [OF Cons.prems(1) c1(2) o(1)] c1(1) o(2) by auto
qed simp

lemma run_new:
  assumes "0 < n" "spec_cache n absent ops [] [] = (outs, ys, h)"
  shows "\<exists>c. cache_run get put ops (new (int n)) = Some (outs, c) \<and> abs c = ys \<and> map fst (abs c) = take n (firsts h)"
proof -
  have "spec_cache n absent ops (abs (new (int n))) [] = (outs, ys, h)" using assms(2) new_ok by simp
  then show ?thesis
    using run_ok [OF assms(1), of "new (int n)"] new_ok spec_cache_recency [OF assms(1) _ assms(2)] by force
qed

lemma get_after_put:
  assumes "0 < n" "inv n c" "put k v c = Some c'"
  shows "\<exists>c''. get k c' = Some (v, c'')"
proof -
  obtain d where "put k v c = Some d" "inv n d" "abs d = spec_put n k v (abs c)"
    using put_ok [OF assms(1,2)] by blast
  then show ?thesis
    using get_ok [of n d k] assms by (cases n) (auto simp: spec_put_def spec_get_def)
qed

end

section \<open>The invariant and the operations\<close>

definition recency :: "'v lru \<Rightarrow> 'v recency" where
  "recency c = map snd (nodes c)"

definition lru_inv :: "nat \<Rightarrow> 'v lru \<Rightarrow> bool" where
  "lru_inv n c \<longleftrightarrow> cap c = int n \<and> cnt c = int (length (nodes c)) \<and> length (nodes c) \<le> n \<and>
     distinct (map fst (nodes c)) \<and> distinct (map (fst \<circ> snd) (nodes c)) \<and>
     (\<forall>it \<in> fst ` set (nodes c). it < fresh c) \<and>
     (\<forall>k it. index c k = Some it \<longleftrightarrow> (\<exists>v. (it, k, v) \<in> set (nodes c)))"

lemma index_None: "lru_inv n c \<Longrightarrow> index c k = None \<longleftrightarrow> k \<notin> fst ` set (recency c)"
proof -
  assume "lru_inv n c"
  then have "index c k \<noteq> None \<longleftrightarrow> (\<exists>it v. (it, k, v) \<in> set (nodes c))" by (simp add: lru_inv_def)
  then show ?thesis by (force simp: recency_def)
qed

lemma distinct_recency: "lru_inv n c \<Longrightarrow> distinct (map fst (recency c))"
  by (simp add: lru_inv_def recency_def o_def)

text \<open>Erasing the node of a key takes the key out of the order.\<close>

lemma erase_node:
  assumes i: "lru_inv n c" and n: "(it, k, v) \<in> set (nodes c)"
  shows "list_erase it (nodes c) = Some (filter (\<lambda>n. fst n \<noteq> it) (nodes c))"
    "map snd (filter (\<lambda>n. fst n \<noteq> it) (nodes c)) = without k (recency c)"
    "filter (\<lambda>n. fst n \<noteq> it) (nodes c) = filter (\<lambda>n. fst (snd n) \<noteq> k) (nodes c)"
    "length (filter (\<lambda>n. fst n \<noteq> it) (nodes c)) = length (nodes c) - 1"
proof -
  show 1: "list_erase it (nodes c) = Some (filter (\<lambda>n. fst n \<noteq> it) (nodes c))"
    using n by (force simp: list_erase_def)
  have "fst x \<noteq> it \<longleftrightarrow> fst (snd x) \<noteq> k" if "x \<in> set (nodes c)" for x
  proof -
    have "inj_on fst (set (nodes c))" "inj_on (fst \<circ> snd) (set (nodes c))"
      using i by (simp_all add: lru_inv_def distinct_map)
    then show ?thesis using that n by (metis comp_apply fst_conv inj_onD snd_conv)
  qed
  then show 2: "filter (\<lambda>n. fst n \<noteq> it) (nodes c) = filter (\<lambda>n. fst (snd n) \<noteq> k) (nodes c)"
    by (rule filter_cong [OF refl])
  show "map snd (filter (\<lambda>n. fst n \<noteq> it) (nodes c)) = without k (recency c)"
    unfolding 2 recency_def without_def by (simp add: filter_map o_def)
  have "map fst (filter (\<lambda>n. fst n \<noteq> it) (nodes c)) = remove1 it (map fst (nodes c))"
    using i by (simp add: lru_inv_def distinct_remove1_removeAll removeAll_filter_not_eq filter_map o_def) metis
  then show "length (filter (\<lambda>n. fst n \<noteq> it) (nodes c)) = length (nodes c) - 1"
    using n by (metis length_map length_remove1 fst_conv image_eqI set_map)
qed

text \<open>A new node in front of what is left keeps the invariant.\<close>

lemma push_inv:
  assumes ns: "sub = filter P (nodes c)" and i: "lru_inv n c"
    and k: "k \<notin> (fst \<circ> snd) ` set sub" and len: "length sub < n"
    and ix: "\<forall>k' it. k' \<noteq> k \<longrightarrow> (idx k' = Some it \<longleftrightarrow> (\<exists>v. (it, k', v) \<in> set sub))"
  shows "lru_inv n \<lparr>cap = int n, cnt = int (length sub) + 1, index = idx(k \<mapsto> fresh c),
    nodes = (fresh c, k, v) # sub, fresh = Suc (fresh c)\<rparr>"
proof -
  have d: "distinct (map fst sub)" "distinct (map (fst \<circ> snd) sub)"
    using i ns by (simp_all add: lru_inv_def distinct_map_filter)
  have f: "\<forall>it \<in> fst ` set sub. it < fresh c" using i ns by (auto simp: lru_inv_def)
  have nf: "fresh c \<notin> fst ` set sub" using f by blast
  have "((idx(k \<mapsto> fresh c)) k' = Some it) = (\<exists>w. (it, k', w) \<in> set ((fresh c, k, v) # sub))" for k' it
  proof (cases "k' = k")
    case True
    then have "\<not> (\<exists>w. (it, k', w) \<in> set sub)" using k by force
    then show ?thesis using True by auto
  next
    case False
    then show ?thesis using ix by simp
  qed
  then show ?thesis using d f nf k len by (auto simp: lru_inv_def less_Suc_eq)
qed

lemma erased_inv:
  assumes i: "lru_inv n c" and n: "(it, k, w) \<in> set (nodes c)" and len: "length (filter (\<lambda>n. fst n \<noteq> it) (nodes c)) < n"
  shows "lru_inv n \<lparr>cap = int n, cnt = int (length (filter (\<lambda>n. fst n \<noteq> it) (nodes c))) + 1, index = (index c)(k \<mapsto> fresh c),
    nodes = (fresh c, k, v) # filter (\<lambda>n. fst n \<noteq> it) (nodes c), fresh = Suc (fresh c)\<rparr>"
proof (rule push_inv [OF refl i])
  note er = erase_node(3) [OF i n]
  show "k \<notin> (fst \<circ> snd) ` set (filter (\<lambda>n. fst n \<noteq> it) (nodes c))" unfolding er by auto
  show "\<forall>k' it'. k' \<noteq> k \<longrightarrow> (index c k' = Some it') = (\<exists>v. (it', k', v) \<in> set (filter (\<lambda>n. fst n \<noteq> it) (nodes c)))"
    unfolding er using i by (simp add: lru_inv_def)
qed (rule len)

lemma lru_inv_cap: "lru_inv n c \<Longrightarrow> cap c = int n \<and> cnt c = int (length (nodes c))"
  by (simp add: lru_inv_def)

lemma lru_inv_update:
  assumes "lru_inv n c"
  shows "c\<lparr>nodes := ns, index := ix, fresh := f\<rparr> = \<lparr>cap = int n, cnt = int (length (nodes c)), index = ix, nodes = ns, fresh = f\<rparr>"
  using lru_inv_cap [OF assms] by (cases c) simp

lemma lru_get_ok:
  assumes "lru_inv n c"
  shows "\<exists>v c'. lru_get absent k c = Some (v, c') \<and> lru_inv n c' \<and> (v, recency c') = spec_get absent k (recency c)"
proof (cases "index c k")
  case None
  then have "map_of (recency c) k = None" using index_None [OF assms] by (simp add: map_of_eq_None_iff)
  then show ?thesis using None assms by (simp add: lru_get_def spec_get_def)
next
  case (Some it)
  then obtain v where v: "(it, k, v) \<in> set (nodes c)" using assms by (auto simp: lru_inv_def)
  note er = erase_node [OF assms v]
  let ?ns = "filter (\<lambda>n. fst n \<noteq> it) (nodes c)"
  have m1: "map_of (nodes c) it = Some (k, v)" using v assms by (intro map_of_is_SomeI) (simp_all add: lru_inv_def)
  have m2: "map_of (recency c) k = Some v"
    using v distinct_recency [OF assms] by (intro map_of_is_SomeI) (force simp: recency_def)+
  let ?c = "\<lparr>cap = int n, cnt = int (length (nodes c)), index = (index c)(k \<mapsto> fresh c),
    nodes = (fresh c, k, v) # ?ns, fresh = Suc (fresh c)\<rparr>"
  have "lru_get absent k c = Some (v, ?c)"
    using Some m1 er(1) lru_inv_cap [OF assms]
    by (cases c) (simp add: lru_get_def push_front_def point_to_begin_def)
  moreover have "0 < length (nodes c)" "length (nodes c) \<le> n" using v assms by (auto simp: lru_inv_def)
  then have small: "length ?ns < n" and cnt: "int (length ?ns) + 1 = int (length (nodes c))" using er(4) by linarith+
  have "lru_inv n ?c" using erased_inv [OF assms v small] cnt by simp
  moreover have "recency ?c = (k, v) # without k (recency c)" using er(2) by (simp add: recency_def)
  ultimately show ?thesis using m2 by (auto simp: spec_get_def)
qed

lemma lru_put_ok:
  assumes "0 < n" "lru_inv n c"
  shows "\<exists>c'. lru_put k v c = Some c' \<and> lru_inv n c' \<and> recency c' = spec_put n k v (recency c)"
proof -
  note cap = lru_inv_cap [OF assms(2)]
  have len: "length (nodes c) \<le> n" using assms(2) by (simp add: lru_inv_def)
  show ?thesis
  proof (cases "index c k")
    case (Some it)
    then obtain w where w: "(it, k, w) \<in> set (nodes c)" using assms by (auto simp: lru_inv_def)
    note er = erase_node [OF assms(2) w]
    let ?ns = "filter (\<lambda>n. fst n \<noteq> it) (nodes c)"
    have pos: "0 < length (nodes c)" using w by (cases "nodes c") auto
    have cnt: "int (length ?ns) + 1 = int (length (nodes c))" using er(4) pos by linarith
    have small: "length ?ns < n" using er(4) pos len by linarith
    let ?c = "\<lparr>cap = int n, cnt = int (length ?ns) + 1, index = (index c)(k \<mapsto> fresh c),
      nodes = (fresh c, k, v) # ?ns, fresh = Suc (fresh c)\<rparr>"
    have "lru_put k v c = Some ?c"
      using Some er(1) cap cnt
      by (cases c) (simp add: lru_put_def push_front_def point_to_begin_def)
    moreover have "lru_inv n ?c"
      using erased_inv [OF assms(2) w] small by simp
    moreover have "recency ?c = spec_put n k v (recency c)"
    proof -
      have "length (without k (recency c)) < n" using er(2,4) pos len by (metis diff_less length_map less_le_trans zero_less_one)
      then show ?thesis using er(2) assms(1) by (cases n) (simp_all add: recency_def spec_put_def)
    qed
    ultimately show ?thesis by blast
  next
    case None
    then have nk: "k \<notin> fst ` set (recency c)" using index_None [OF assms(2)] by simp
    have nk': "k \<notin> (fst \<circ> snd) ` set (nodes c)" using nk by (auto simp: recency_def)
    show ?thesis
    proof (cases "length (nodes c) = n")
      case True
      then have ne: "nodes c \<noteq> []" using assms(1) by auto
      obtain ns it0 k0 v0 where sn: "nodes c = ns @ [(it0, k0, v0)]"
        using ne by (metis append_butlast_last_id prod_cases3)
      have dk: "k0 \<notin> (fst \<circ> snd) ` set ns" and di: "it0 \<notin> fst ` set ns"
        using assms(2) sn by (auto simp: lru_inv_def)
      have flt: "ns = filter (\<lambda>n. fst n \<noteq> it0) (nodes c)"
        using di sn by simp (metis (mono_tags, lifting) filter_True image_eqI)
      let ?c = "\<lparr>cap = int n, cnt = int (length ns) + 1, index = ((index c)(k0 := None))(k \<mapsto> fresh c),
        nodes = (fresh c, k, v) # ns, fresh = Suc (fresh c)\<rparr>"
      have "lru_put k v c = Some ?c"
        using None sn cap True
        by (cases c) (simp add: lru_put_def push_front_def point_to_begin_def)
      moreover have "lru_inv n ?c"
      proof (rule push_inv [OF flt assms(2)])
        show "\<forall>k' it. k' \<noteq> k \<longrightarrow> (((index c)(k0 := None)) k' = Some it) = (\<exists>v. (it, k', v) \<in> set ns)"
          using assms(2) sn dk by (force simp: lru_inv_def)
      qed (use nk' sn True in auto)
      moreover have "recency ?c = spec_put n k v (recency c)"
        using nk sn True by (cases n) (simp_all add: recency_def spec_put_def)
      ultimately show ?thesis by blast
    next
      case False
      let ?c = "\<lparr>cap = int n, cnt = int (length (nodes c)) + 1, index = (index c)(k \<mapsto> fresh c),
        nodes = (fresh c, k, v) # nodes c, fresh = Suc (fresh c)\<rparr>"
      have "lru_put k v c = Some ?c"
        using None cap False
        by (cases c) (simp add: lru_put_def push_front_def point_to_begin_def)
      moreover have "lru_inv n ?c"
        using assms(2) nk' len False
        by (intro push_inv [of _ "\<lambda>_. True", OF _ assms(2)]) (auto simp: lru_inv_def)
      moreover have "recency ?c = spec_put n k v (recency c)"
        using nk False len by (cases n) (simp_all add: recency_def spec_put_def)
      ultimately show ?thesis by blast
    qed
  qed
qed

lemma lru_new_ok: "lru_inv n (lru_new (int n)) \<and> recency (lru_new (int n)) = []"
  by (simp add: lru_new_def lru_inv_def recency_def)

lemma exercise_get_eq: "exercise_get = lru_get (-1)"
  by (intro ext) (simp add: exercise_get_def lru_get_def)

lemma exercise_put_eq: "exercise_put = lru_put"
proof (intro ext)
  fix key v and c :: "int lru"
  show "exercise_put key v c = lru_put key v c"
    by (cases "index c key"; cases "cap c = cnt c") (cases c; simp add: exercise_put_def lru_put_def Let_def)+
qed

interpretation template: recency_cache lru_inv recency absent lru_new "lru_get absent" lru_put for absent
  by unfold_locales (simp_all add: lru_new_ok lru_get_ok lru_put_ok)

interpretation cached_ints: recency_cache lru_inv recency "-1" lru_new LRU_get LRU_put
  by unfold_locales (simp_all add: LRU_get_def LRU_put_def lru_new_ok lru_get_ok lru_put_ok)

interpretation exercise: recency_cache lru_inv recency "-1" lru_new exercise_get exercise_put
  by unfold_locales (simp_all add: exercise_get_eq exercise_put_eq lru_new_ok lru_get_ok lru_put_ok)

section \<open>Properties\<close>

lemma lru_zero:
  fixes absent :: 'a
  shows "cache_run (lru_get absent) lru_put ops (lru_new 0) =
     (if \<exists>k v. Put k v \<in> set ops then None else Some (replicate (length ops) absent, lru_new 0))"
proof (induction ops)
  case (Cons op ops)
  have "lru_get absent k (lru_new 0) = Some (absent, lru_new 0)" "lru_put k (v :: 'a) (lru_new 0) = None" for k v
    by (simp_all add: lru_get_def lru_put_def lru_new_def)
  then show ?case using Cons by (cases op) auto
qed simp

text \<open>
  C6. On a cache of capacity \<open>n > 0\<close> every sequence of gets and puts runs to its end: no
  iterator in the hash map ever dangles and \<^verbatim>\<open>list.back()\<close> is never called on an
  empty list. The gets return what an association list in order of use returns, and the keys
  held at the end are the \<open>n\<close> most recently used ones in order of use. This holds of the
  template, of the cache of ints and of the exercise alike.
\<close>

theorem lru_run_spec:
  assumes "0 < n" "spec_cache n absent ops [] [] = (outs, ys, h)" "spec_cache n (-1) iops [] [] = (iouts, zs, h')"
  shows "(\<exists>c. cache_run (lru_get absent) lru_put ops (lru_new (int n)) = Some (outs, c) \<and>
      recency c = ys \<and> map fst ys = take n (firsts h)) \<and>
    (\<exists>c. cache_run LRU_get LRU_put iops (lru_new (int n)) = Some (iouts, c) \<and>
      recency c = zs \<and> map fst zs = take n (firsts h')) \<and>
    (\<exists>c. cache_run exercise_get exercise_put iops (lru_new (int n)) = Some (iouts, c) \<and>
      recency c = zs \<and> map fst zs = take n (firsts h'))"
  using template.run_new [OF assms(1,2)] cached_ints.run_new [OF assms(1,3)] exercise.run_new [OF assms(1,3)]
  by blast

theorem lru_run_spec_witness:
  "\<exists>c. cache_run LRU_get LRU_put
     [Put 1 1, Put 2 2, Get 1, Put 3 3, Get 2, Put 4 4, Get 1, Get 4, Get 2] (lru_new 2) = Some ([1, -1, -1, 4, -1], c) \<and>
     recency c = [(4, 4), (3, 3)]"
  using lru_run_spec [of 2 "''null''" "[]" "[]" "[]" "[]"
      "[Put 1 1, Put 2 2, Get 1, Put 3 3, Get 2, Put 4 4, Get 1, Get 4, Get 2]" "[1, -1, -1, 4, -1]" "[(4, 4), (3, 3)]"
      "[4, 4, 3, 1, 2, 1]"]
  by (simp add: spec_get_def spec_put_def without_def)

text \<open>
  A cache of capacity zero has no defined put: a sequence of operations is defined
  exactly when it has no put at all, and then every get returns the value for an absent key.
\<close>

theorem lru_capacity_zero:
  "cache_run (lru_get absent) lru_put ops (lru_new 0) =
     (if \<exists>k v. Put k v \<in> set ops then None else Some (replicate (length ops) absent, lru_new 0))"
  by (rule lru_zero)

end
