(* ===== verification/HashTable.thy ===== *)
theory HashTable
  imports Cpp_Prelude
begin

text \<open>
  \<^verbatim>\<open>cpp/stl/myHash.cpp\<close>: an open-addressing hash table with linear probing, tombstones
  and a rebuild into the next larger size. A slot has a tag (\<open>0\<close> free, \<open>1\<close> used,
  \<open>-1\<close> deleted) and a record that is uninitialised until a key is stored. The probe loop
  is a fixed point in the option type, because it does not return on a table without a free
  slot. The global position in the array of sizes is part of the state. Insertion and rebuild
  call each other; each rebuild consumes one of the six sizes, so a depth of seven calls is
  enough.
\<close>

section \<open>The table\<close>

record hash_table =
  rcd :: "int option list"
  size_of :: int
  used :: int
  tag :: "int list"

definition hashsize :: "int list" where
  "hashsize = [11, 31, 61, 127, 251, 503]"

text \<open>The boolean tells whether the allocations succeed; on failure the pointers are null.\<close>

definition InitHashTable :: "bool \<Rightarrow> hash_table \<Rightarrow> int \<Rightarrow> int \<times> hash_table" where
  "InitHashTable mem H n =
     (if \<not> mem then (-1, H\<lparr>rcd := [], tag := []\<rparr>)
      else (1, \<lparr>rcd = replicate (nat n) None, size_of = n, used = 0, tag = replicate (nat n) 0\<rparr>))"

definition Hash :: "int \<Rightarrow> int \<Rightarrow> int ub" where
  "Hash key m = do { t \<leftarrow> as_int (3 * key); if m = 0 then None else Some (trem t m) }"

definition collision :: "int \<Rightarrow> int \<Rightarrow> int ub" where
  "collision p m = (if m = 0 then None else Some (trem (p + 1) m))"

section \<open>Search\<close>

definition slot_key :: "hash_table \<Rightarrow> int \<Rightarrow> int ub" where
  "slot_key H p = do { r \<leftarrow> iget (rcd H) p; r }"

text \<open>The condition of the probe loop: another key, or a deleted slot.\<close>

definition probe_on :: "hash_table \<Rightarrow> int \<Rightarrow> int \<Rightarrow> bool ub" where
  "probe_on H key p = do {
     t \<leftarrow> iget (tag H) p;
     if t = 1 then do { k \<leftarrow> slot_key H p; Some (k \<noteq> key) } else Some (t = -1)
   }"

partial_function (option) probe_loop :: "hash_table \<Rightarrow> int \<Rightarrow> int \<Rightarrow> int \<Rightarrow> (int \<times> int) ub" where
  "probe_loop H key p c = do {
     b \<leftarrow> probe_on H key p;
     if b then do { p \<leftarrow> collision p (size_of H); probe_loop H key p (c + 1) } else Some (p, c)
   }"

declare probe_loop.simps [code]

definition SearchHash :: "hash_table \<Rightarrow> int \<Rightarrow> (int \<times> int \<times> int) ub" where
  "SearchHash H key = do {
     h \<leftarrow> Hash key (size_of H);
     (p, c) \<leftarrow> probe_loop H key h 0;
     t \<leftarrow> iget (tag H) p;
     if t = 1 then do { k \<leftarrow> slot_key H p; Some (if key = k then 1 else 0, p, c) } else Some (0, p, c)
   }"

section \<open>Insertion, rebuild and deletion\<close>

text \<open>The loop of the rebuild over the old slots, with the insertion as a parameter.\<close>

fun reinsert_loop :: "(nat \<Rightarrow> hash_table \<Rightarrow> int \<Rightarrow> (int \<times> nat \<times> hash_table) ub) \<Rightarrow>
    (int \<times> int option) list \<Rightarrow> nat \<Rightarrow> hash_table \<Rightarrow> (nat \<times> hash_table) ub" where
  "reinsert_loop ins [] idx H = Some (idx, H)"
| "reinsert_loop ins ((t, r) # slots) idx H =
     (if t = 1 then do { key \<leftarrow> r; (st, idx, H) \<leftarrow> ins idx H key; reinsert_loop ins slots idx H }
      else reinsert_loop ins slots idx H)"

definition recreateHash :: "(nat \<Rightarrow> hash_table \<Rightarrow> int \<Rightarrow> (int \<times> nat \<times> hash_table) ub) \<Rightarrow> bool \<Rightarrow>
    nat \<Rightarrow> hash_table \<Rightarrow> (int \<times> nat \<times> hash_table) ub" where
  "recreateHash ins mem idx H = do {
     let slots = zip (tag H) (rcd H);
     s \<leftarrow> vget hashsize idx;
     let (st, H) = InitHashTable mem H s;
     (idx, H) \<leftarrow> reinsert_loop ins slots (Suc idx) H;
     Some (0, idx, H)
   }"

fun InsertHash_depth :: "nat \<Rightarrow> bool \<Rightarrow> nat \<Rightarrow> hash_table \<Rightarrow> int \<Rightarrow> (int \<times> nat \<times> hash_table) ub" where
  "InsertHash_depth 0 mem idx H key = None"
| "InsertHash_depth (Suc d) mem idx H key = do {
     (st, p, c) \<leftarrow> SearchHash H key;
     if st = 0
     then if 2 * c < size_of H
       then do {
         r \<leftarrow> iset (rcd H) p (Some key);
         t \<leftarrow> iset (tag H) p 1;
         Some (1, idx, H\<lparr>rcd := r, tag := t, used := used H + 1\<rparr>)
       }
       else do { (st, idx, H) \<leftarrow> recreateHash (InsertHash_depth d mem) mem idx H; Some (0, idx, H) }
     else Some (0, idx, H)
   }"

definition InsertHash :: "bool \<Rightarrow> nat \<Rightarrow> hash_table \<Rightarrow> int \<Rightarrow> (int \<times> nat \<times> hash_table) ub" where
  "InsertHash = InsertHash_depth 7"

definition DeleteHash :: "hash_table \<Rightarrow> int \<Rightarrow> (int \<times> hash_table) ub" where
  "DeleteHash H key = do {
     (st, p, c) \<leftarrow> SearchHash H key;
     if st = 1
     then do { t \<leftarrow> iset (tag H) p (-1); Some (1, H\<lparr>tag := t, used := used H - 1\<rparr>) }
     else Some (0, H)
   }"

fun insert_all :: "bool \<Rightarrow> int list \<Rightarrow> nat \<Rightarrow> hash_table \<Rightarrow> (nat \<times> hash_table) ub" where
  "insert_all mem [] idx H = Some (idx, H)"
| "insert_all mem (key # ks) idx H = do { (st, idx, H) \<leftarrow> InsertHash mem idx H key; insert_all mem ks idx H }"

text \<open>The program: eight insertions, a deletion, a search and eight more insertions.\<close>

definition hash_main :: "hash_table \<Rightarrow> (int \<times> nat \<times> hash_table) ub" where
  "hash_main H0 = do {
     s \<leftarrow> vget hashsize 0;
     let (st, H) = InitHashTable True H0 s;
     (idx, H) \<leftarrow> insert_all True [22, 41, 53, 46, 30, 13, 12, 67] 1 H;
     (st, H) \<leftarrow> DeleteHash H 12;
     (found, p, c) \<leftarrow> SearchHash H 67;
     (idx, H) \<leftarrow> insert_all True [27, 47, 57, 47, 37, 17, 93, 67] idx H;
     Some (found, idx, H)
   }"

section \<open>The depth of the recursion\<close>

lemma reinsert_loop_cong:
  assumes "\<And>idx H key. n \<le> idx \<Longrightarrow> ins idx H key = ins' idx H key"
    and "\<And>idx H key st idx' H'. ins idx H key = Some (st, idx', H') \<Longrightarrow> idx \<le> idx'" and "n \<le> idx"
  shows "reinsert_loop ins slots idx H = reinsert_loop ins' slots idx H"
  using assms(3)
proof (induction slots arbitrary: idx H)
  case (Cons s slots)
  obtain t r where s: "s = (t, r)" by force
  show ?case
  proof (cases r)
    case (Some key)
    show ?thesis
    proof (cases "ins idx H key")
      case None
      then show ?thesis using s Some assms(1) [OF Cons.prems, of H key] Cons.IH [OF Cons.prems] by auto
    next
      case (Some a)
      obtain st idx' H' where a: "a = (st, idx', H')" by (cases a)
      then have "n \<le> idx'" using assms(2) [of idx H key] Some Cons.prems by force
      then show ?thesis
        using s Some a \<open>r = Some key\<close> assms(1) [OF Cons.prems, of H key] Cons.IH Cons.prems by auto
    qed
  qed (use s Cons.IH [OF Cons.prems] in auto)
qed simp

lemma reinsert_loop_mono:
  assumes "\<And>idx H key st idx' H'. ins idx H key = Some (st, idx', H') \<Longrightarrow> idx \<le> idx'"
  shows "reinsert_loop ins slots idx H = Some (idx', H') \<Longrightarrow> idx \<le> idx'"
proof (induction slots arbitrary: idx H)
  case (Cons s slots)
  obtain t r where s: "s = (t, r)" by force
  show ?case
  proof (cases "t = 1")
    case True
    then obtain key st i G where "ins idx H key = Some (st, i, G)" "reinsert_loop ins slots i G = Some (idx', H')"
      using Cons.prems s by (auto simp: bind_eq_Some)
    then show ?thesis using Cons.IH assms le_trans by blast
  next
    case False
    then show ?thesis using Cons s by simp
  qed
qed simp

lemma recreateHash_cases:
  assumes "recreateHash ins mem idx H = Some (st, idx', H')"
  obtains n where "vget hashsize idx = Some n"
    "reinsert_loop ins (zip (tag H) (rcd H)) (Suc idx) (snd (InitHashTable mem H n)) = Some (idx', H')"
  using assms by (auto simp: recreateHash_def bind_eq_Some Let_def case_prod_unfold)

lemma InsertHash_depth_cases:
  assumes "InsertHash_depth (Suc d) mem idx H key = Some (st, idx', H')"
  obtains (found) p c where "SearchHash H key = Some (1, p, c)" "st = 0" "idx' = idx" "H' = H"
  | (stored) p c r t where "SearchHash H key = Some (0, p, c)" "2 * c < size_of H" "st = 1" "idx' = idx"
      "iset (rcd H) p (Some key) = Some r" "iset (tag H) p 1 = Some t" "H' = H\<lparr>rcd := r, tag := t, used := used H + 1\<rparr>"
  | (rebuilt) p c s where "SearchHash H key = Some (0, p, c)" "\<not> 2 * c < size_of H" "st = 0"
      "recreateHash (InsertHash_depth d mem) mem idx H = Some (s, idx', H')"
proof -
  obtain s p c where sp: "SearchHash H key = Some (s, p, c)"
    using assms by (auto simp: bind_eq_Some)
  then consider "s = 0" | "s = 1" by (auto simp: SearchHash_def bind_eq_Some split: if_splits)
  then show ?thesis
  proof cases
    case 1
    show ?thesis
    proof (cases "2 * c < size_of H")
      case True
      then obtain r t where "iset (rcd H) p (Some key) = Some r" "iset (tag H) p 1 = Some t" "st = 1" "idx' = idx"
        "H' = H\<lparr>rcd := r, tag := t, used := used H + 1\<rparr>"
        using sp 1 assms by (auto simp: bind_eq_Some)
      then show ?thesis using stored [of p c r t] sp 1 True by simp
    next
      case False
      then obtain s' where "recreateHash (InsertHash_depth d mem) mem idx H = Some (s', idx', H')" "st = 0"
        using sp 1 assms by (auto simp: bind_eq_Some)
      then show ?thesis using rebuilt [of p c s'] sp 1 False by simp
    qed
  next
    case 2
    then show ?thesis using sp assms by (intro found [of p c]) auto
  qed
qed

lemma InsertHash_depth_mono: "InsertHash_depth d mem idx H key = Some (st, idx', H') \<Longrightarrow> idx \<le> idx'"
proof (induction d arbitrary: idx H key st idx' H')
  case (Suc d)
  show ?case
    using Suc.prems
  proof (cases rule: InsertHash_depth_cases)
    case (rebuilt p c s)
    from rebuilt(4) obtain n where
      "reinsert_loop (InsertHash_depth d mem) (zip (tag H) (rcd H)) (Suc idx) (snd (InitHashTable mem H n)) = Some (idx', H')"
      by (rule recreateHash_cases)
    then have "Suc idx \<le> idx'" by (rule reinsert_loop_mono [rotated]) (rule Suc.IH)
    then show ?thesis by simp
  qed simp_all
qed simp

lemma InsertHash_depth_enough:
  "6 - idx < d \<Longrightarrow> InsertHash_depth (Suc d) mem idx H key = InsertHash_depth d mem idx H key"
proof (induction d arbitrary: idx H key)
  case (Suc d)
  have "recreateHash (InsertHash_depth (Suc d) mem) mem idx H = recreateHash (InsertHash_depth d mem) mem idx H" for H
  proof (cases "idx < 6")
    case True
    have "reinsert_loop (InsertHash_depth (Suc d) mem) s (Suc idx) G = reinsert_loop (InsertHash_depth d mem) s (Suc idx) G" for s G
      using Suc.prems True Suc.IH InsertHash_depth_mono
      by (intro reinsert_loop_cong [where n = "Suc idx"]) (auto simp del: InsertHash_depth.simps)
    then show ?thesis by (simp add: recreateHash_def del: InsertHash_depth.simps)
  next
    case False
    then show ?thesis by (simp add: recreateHash_def vget_def hashsize_def)
  qed
  then show ?case by (simp only: InsertHash_depth.simps)
qed simp

lemma InsertHash_depth_irrelevant: "7 \<le> d \<Longrightarrow> InsertHash_depth d mem idx H key = InsertHash mem idx H key"
proof (induction d rule: dec_induct)
  case (step d)
  then show ?case using InsertHash_depth_enough [of idx d mem H key] by (simp add: InsertHash_def)
qed (simp add: InsertHash_def)

section \<open>The invariant\<close>
















section \<open>Insertion and deletion keep the invariant\<close>



section \<open>A rebuild stores no new key\<close>







section \<open>Properties\<close>






definition key_list :: "hash_table \<Rightarrow> int list" where
  "key_list H = map (the \<circ> snd) (filter (\<lambda>(t, r). t = 1) (zip (tag H) (rcd H)))"

lemma hash_main_any: "hash_main H0 = hash_main \<lparr>rcd = [], size_of = 0, used = 0, tag = []\<rparr>"
  by (simp add: hash_main_def InitHashTable_def hashsize_def vget_def)

text \<open>
  The program of the file runs to its end. The second round of insertions rebuilds the
  table once into size 31; the key \<open>57\<close>, whose insertion triggers the rebuild, is not among
  the twelve keys of the final table.
\<close>

theorem hash_main_run:
  "map_option (\<lambda>(found, idx, H). (found, idx, size_of H, used H, key_list H)) (hash_main H0) =
     Some (1, 2, 31, 12, [93, 22, 53, 13, 46, 67, 47, 37, 27, 17, 30, 41])"
  unfolding hash_main_any [of H0] by code_simp

end
