(* ===== verification/MyString.thy ===== *)
theory MyString
  imports Cpp_Prelude
begin

text \<open>
  \<^verbatim>\<open>cpp/string/my_string.cpp\<close>: the string class \<^verbatim>\<open>my_std::basic_string\<close> at
  \<^verbatim>\<open>char\<close>. A string is its allocated block, whose bytes are uninitialised until they
  are written, and the offset of \<^verbatim>\<open>_end\<close> in it; the length of the block is
  \<^verbatim>\<open>_capacity\<close>. A counter records the blocks that were allocated and then dropped
  without being freed. A pointer argument is the memory from the pointer to the end of its
  block. \<^term>\<open>None\<close> is undefined behaviour, a failed \<^verbatim>\<open>assert\<close>, or a call that
  does not return. Sizes are 64-bit; they wrap around where the code can reach the wrap. The
  two assignment operators have no return statement; their bodies are modelled.
\<close>

section \<open>Memory of a string\<close>

type_synonym bytes = "char option list"

record mystring =
  buf :: bytes
  end_pos :: nat
  leaked :: nat

abbreviation npos :: nat where "npos \<equiv> 18446744073709551615"
abbreviation STRING_INIT_SIZE :: nat where "STRING_INIT_SIZE \<equiv> 8"

definition wrap64 :: "nat \<Rightarrow> nat" where
  "wrap64 n = n mod 18446744073709551616"

definition capacity :: "mystring \<Rightarrow> nat" where
  "capacity s = length (buf s)"

definition my_size :: "mystring \<Rightarrow> nat" where
  "my_size s = (if end_pos s = 0 then 0 else end_pos s - 1)"

text \<open>\<^verbatim>\<open>strlen\<close> and a checked read of a byte.\<close>

fun strlen :: "bytes \<Rightarrow> nat ub" where
  "strlen [] = None"
| "strlen (b # bs) = (case b of None \<Rightarrow> None | Some c \<Rightarrow> if c = NUL then Some 0 else map_option Suc (strlen bs))"

definition byte_at :: "bytes \<Rightarrow> nat \<Rightarrow> char ub" where
  "byte_at bs i = do { b \<leftarrow> vget bs i; b }"

section \<open>Allocation\<close>

definition deallocate :: "mystring \<Rightarrow> mystring" where
  "deallocate s = s\<lparr>buf := replicate STRING_INIT_SIZE None, end_pos := 0\<rparr>"

partial_function (option) realloc_size_loop :: "nat \<Rightarrow> nat \<Rightarrow> nat ub" where
  "realloc_size_loop len res = (if res \<le> len then realloc_size_loop len (wrap64 (res * 2)) else Some res)"

definition get_realloc_size :: "nat \<Rightarrow> nat ub" where
  "get_realloc_size len = realloc_size_loop len STRING_INIT_SIZE"

text \<open>\<^verbatim>\<open>realloc\<close> drops the block that \<^verbatim>\<open>deallocate\<close> has just allocated.\<close>

definition my_realloc :: "nat \<Rightarrow> mystring \<Rightarrow> mystring ub" where
  "my_realloc len s = do {
     let s = deallocate s;
     alloc_len \<leftarrow> get_realloc_size len;
     Some (s\<lparr>buf := replicate alloc_len None, end_pos := 0, leaked := leaked s + 1\<rparr>)
   }"

section \<open>append_data\<close>

text \<open>The copy loop: \<open>len\<close> bytes of the input to the positions from \<open>cur\<close> on.\<close>

fun copy_loop :: "nat \<Rightarrow> bytes \<Rightarrow> nat \<Rightarrow> bytes \<Rightarrow> bytes ub" where
  "copy_loop 0 input cur bs = Some bs"
| "copy_loop (Suc n) input cur bs = do {
     c \<leftarrow> byte_at input 0;
     bs \<leftarrow> vset bs cur (Some c);
     copy_loop n (drop 1 input) (Suc cur) bs
   }"

definition append_data :: "bytes \<Rightarrow> nat \<Rightarrow> nat \<Rightarrow> mystring \<Rightarrow> mystring ub" where
  "append_data input copy_start len s =
     (if \<not> copy_start \<le> end_pos s then None
      else do {
        len \<leftarrow> (if len = npos then strlen input else Some len);
        let need_size = wrap64 (copy_start + len + 1);
        if need_size > capacity s
        then do {
          alloc_len \<leftarrow> get_realloc_size need_size;
          bs \<leftarrow> copy_loop len input 0 (replicate alloc_len None);
          bs \<leftarrow> vset bs len (Some NUL);
          Some (s\<lparr>buf := bs, end_pos := len + 1, leaked := leaked s + 1\<rparr>)
        }
        else do {
          bs \<leftarrow> copy_loop len input copy_start (buf s);
          bs \<leftarrow> vset bs (copy_start + len) (Some NUL);
          Some (s\<lparr>buf := bs, end_pos := copy_start + len + 1\<rparr>)
        }
      })"

section \<open>Constructors, assignment, concatenation\<close>

definition null_string :: mystring where
  "null_string = \<lparr>buf = [], end_pos = 0, leaked = 0\<rparr>"

definition string_default :: "mystring ub" where
  "string_default = my_realloc STRING_INIT_SIZE null_string"


text \<open>The constructor from a character and a count allocates and stores nothing.\<close>

definition string_of_char_n :: "char \<Rightarrow> nat \<Rightarrow> mystring ub" where
  "string_of_char_n t n = my_realloc n null_string"

definition string_of_char :: "char \<Rightarrow> mystring ub" where
  "string_of_char t = string_of_char_n t 1"

text \<open>The source of an assignment is another string, or the string itself.\<close>

definition string_assign :: "mystring \<Rightarrow> mystring option \<Rightarrow> mystring ub" where
  "string_assign s src = do {
     s \<leftarrow> my_realloc STRING_INIT_SIZE s;
     append_data (case src of Some str \<Rightarrow> buf str | None \<Rightarrow> buf s) 0 npos s
   }"

definition string_plus :: "mystring \<Rightarrow> mystring \<Rightarrow> mystring ub" where
  "string_plus s str = append_data (buf str) (end_pos s) npos s"

section \<open>Access, search and comparison\<close>

definition string_at :: "mystring \<Rightarrow> nat \<Rightarrow> char ub" where
  "string_at s i = (if i < my_size s then byte_at (buf s) i else None)"

function find_inner :: "mystring \<Rightarrow> mystring \<Rightarrow> nat \<Rightarrow> nat \<Rightarrow> bool ub" where
  "find_inner s input i j =
     (if j < my_size input
      then do {
        a \<leftarrow> string_at s (i + j);
        b \<leftarrow> string_at input j;
        if a \<noteq> b then Some False
        else if j = my_size input - 1 then Some True
        else find_inner s input i (j + 1)
      }
      else Some False)"
  by pat_completeness auto
termination
  by (relation "measure (\<lambda>(s, input, i, j). my_size input - j)") auto

function find_outer :: "mystring \<Rightarrow> mystring \<Rightarrow> nat \<Rightarrow> nat \<Rightarrow> int ub" where
  "find_outer s input limit i =
     (if i < limit
      then do { b \<leftarrow> find_inner s input i 0; if b then Some (int i) else find_outer s input limit (i + 1) }
      else Some (-1))"
  by pat_completeness auto
termination
  by (relation "measure (\<lambda>(s, input, limit, i). limit - i)") auto

declare find_inner.simps [simp del] find_outer.simps [simp del]

text \<open>The bound of the outer loop is computed in \<^verbatim>\<open>size_t\<close>.\<close>

definition string_find :: "mystring \<Rightarrow> mystring \<Rightarrow> int ub" where
  "string_find s input = find_outer s input (wrap64 (my_size s + 18446744073709551616 - my_size input + 1)) 0"

function eq_loop :: "mystring \<Rightarrow> mystring \<Rightarrow> nat \<Rightarrow> bool ub" where
  "eq_loop a b i =
     (if i < my_size a
      then do { x \<leftarrow> string_at a i; y \<leftarrow> string_at b i; if x \<noteq> y then Some False else eq_loop a b (i + 1) }
      else Some True)"
  by pat_completeness auto
termination
  by (relation "measure (\<lambda>(a, b, i). my_size a - i)") auto

declare eq_loop.simps [simp del]

definition string_eq :: "mystring \<Rightarrow> mystring \<Rightarrow> bool ub" where
  "string_eq a b = (if my_size a \<noteq> my_size b then Some False else eq_loop a b 0)"

definition string_neq :: "mystring \<Rightarrow> mystring \<Rightarrow> bool ub" where
  "string_neq a b = do { r \<leftarrow> string_eq a b; Some (\<not> r) }"

text \<open>The loop of \<^verbatim>\<open>operator<\<close> does not advance its index. Characters compare as signed bytes.\<close>

definition char_val :: "char \<Rightarrow> int" where
  "char_val c = (let n = int (of_char c :: nat) in if n < 128 then n else n - 256)"

partial_function (option) less_loop :: "mystring \<Rightarrow> mystring \<Rightarrow> nat \<Rightarrow> bool ub" where
  "less_loop a b i =
     (if i < my_size a \<and> i < my_size b
      then do {
        x \<leftarrow> string_at a i;
        y \<leftarrow> string_at b i;
        if char_val x > char_val y then Some True
        else if char_val x < char_val y then Some False
        else less_loop a b i
      }
      else Some (my_size a > my_size b))"

definition string_less :: "mystring \<Rightarrow> mystring \<Rightarrow> bool ub" where
  "string_less a b = less_loop a b 0"

text \<open>\<^verbatim>\<open>operator>\<close> calls itself.\<close>

partial_function (option) string_greater :: "mystring \<Rightarrow> mystring \<Rightarrow> bool ub" where
  "string_greater a b = do { r \<leftarrow> string_greater a b; Some (\<not> r) }"

section \<open>Substrings and streams\<close>

definition string_substr :: "mystring \<Rightarrow> nat \<Rightarrow> nat \<Rightarrow> mystring ub" where
  "string_substr s pos len = do {
     res \<leftarrow> string_default;
     let len = (if len = npos then my_size s else len);
     res \<leftarrow> my_realloc (wrap64 (len + 1)) res;
     append_data (drop pos (buf s)) 0 len res
   }"





text \<open>The statements of \<^verbatim>\<open>main\<close> up to the assignment of a character.\<close>

definition cstring :: "string \<Rightarrow> bytes" where
  "cstring w = map Some w @ [Some NUL]"


definition string_main_assign_char :: "mystring \<Rightarrow> mystring ub" where
  "string_main_assign_char str1 = do { tmp \<leftarrow> string_of_char (CHR ''b''); string_assign str1 (Some tmp) }"

section \<open>Well-formed strings\<close>

text \<open>
  The text of a string, and a well-formed string: the bytes before \<^verbatim>\<open>_end\<close> are
  initialised and the last of them is the terminator; a string that holds nothing yet has
  \<^verbatim>\<open>_begin == _end\<close>.
\<close>

definition text_of :: "mystring \<Rightarrow> string" where
  "text_of s = map the (take (my_size s) (buf s))"

definition string_ok :: "mystring \<Rightarrow> bool" where
  "string_ok s \<longleftrightarrow> end_pos s = 0 \<or> (end_pos s \<le> length (buf s) \<and> take (end_pos s) (buf s) = cstring (text_of s))"

lemma length_cstring [simp]: "length (cstring w) = length w + 1"
  by (simp add: cstring_def)

lemma string_okI: "take (length cs + 1) (buf s) = cstring cs \<Longrightarrow> end_pos s = length cs + 1 \<Longrightarrow>
    string_ok s \<and> text_of s = cs \<and> my_size s = length cs"
proof -
  assume t: "take (length cs + 1) (buf s) = cstring cs" and e: "end_pos s = length cs + 1"
  have "length (take (length cs + 1) (buf s)) = length cs + 1" unfolding t by simp
  then have len: "length cs + 1 \<le> length (buf s)" by simp
  have "take (length cs) (buf s) = take (length cs) (cstring cs)"
    unfolding t [symmetric] by simp
  then have "text_of s = cs" using e by (simp add: text_of_def my_size_def cstring_def o_def)
  then show ?thesis using t e len by (simp add: string_ok_def my_size_def)
qed

lemma length_text: "string_ok s \<Longrightarrow> length (text_of s) = my_size s"
  by (auto simp: string_ok_def text_of_def my_size_def)

lemma text_bytes: "string_ok s \<Longrightarrow> take (my_size s) (buf s) = map Some (text_of s)"
proof -
  assume ok: "string_ok s"
  show ?thesis
  proof (cases "end_pos s = 0")
    case True
    then show ?thesis by (simp add: my_size_def text_of_def)
  next
    case False
    then have "take (end_pos s) (buf s) = cstring (text_of s)" using ok by (simp add: string_ok_def)
    then have "take (my_size s) (take (end_pos s) (buf s)) = take (my_size s) (cstring (text_of s))" by simp
    then show ?thesis using length_text [OF ok] by (simp add: cstring_def my_size_def min_def split: if_splits)
  qed
qed

lemma string_at_ok: "string_ok s \<Longrightarrow> i < my_size s \<Longrightarrow> string_at s i = Some (text_of s ! i)"
proof -
  assume ok: "string_ok s" and i: "i < my_size s"
  have "buf s ! i = take (my_size s) (buf s) ! i" using i by simp
  also have "\<dots> = Some (text_of s ! i)" using text_bytes [OF ok] length_text [OF ok] i by simp
  finally have "buf s ! i = Some (text_of s ! i)" .
  moreover have "i < length (buf s)" using ok i by (auto simp: string_ok_def my_size_def split: if_splits)
  ultimately show ?thesis using i by (simp add: string_at_def byte_at_def vget_def)
qed

section \<open>Allocation and copying\<close>

lemma realloc_size_loop_ok:
  "j \<le> 63 \<Longrightarrow> len < 2 ^ 63 \<Longrightarrow> \<exists>k. realloc_size_loop len (2 ^ j) = Some (2 ^ k) \<and> len < 2 ^ k \<and> j \<le> k"
proof (induction "63 - j" arbitrary: j)
  case 0
  then have "\<not> (2::nat) ^ j \<le> len" by simp
  then show ?case using 0 realloc_size_loop.simps [of len "2 ^ j"] by (intro exI [of _ j]) simp
next
  case (Suc n)
  show ?case
  proof (cases "(2::nat) ^ j \<le> len")
    case True
    have "j < 63" using Suc by simp
    then have "(2::nat) ^ Suc j \<le> 2 ^ 63" by (intro power_increasing) simp_all
    then have "wrap64 (2 ^ j * 2) = 2 ^ Suc j" by (simp add: wrap64_def)
    moreover obtain k where "realloc_size_loop len (2 ^ Suc j) = Some (2 ^ k)" "len < 2 ^ k" "Suc j \<le> k"
    proof -
      have "n = 63 - Suc j" "Suc j \<le> 63" using Suc.hyps(2) by linarith+
      then show ?thesis using Suc.hyps(1) Suc.prems(2) that by blast
    qed
    ultimately show ?thesis using True by (auto simp: realloc_size_loop.simps [of len "2 ^ j"] intro: Suc_leD)
  next
    case False
    then show ?thesis by (auto simp: realloc_size_loop.simps [of len "2 ^ j"])
  qed
qed

lemma get_realloc_size_ok:
  "len < 2 ^ 63 \<Longrightarrow> \<exists>k. get_realloc_size len = Some (2 ^ k) \<and> len < 2 ^ k \<and> 3 \<le> k"
  using realloc_size_loop_ok [of 3 len] by (simp add: get_realloc_size_def)

lemma strlen_ok: "NUL \<notin> set cs \<Longrightarrow> strlen (map Some cs @ Some NUL # rest) = Some (length cs)"
  by (induction cs) auto

lemma strlen_cstring [simp]: "NUL \<notin> set cs \<Longrightarrow> strlen (cstring cs) = Some (length cs)"
  by (simp add: cstring_def strlen_ok)

lemma copy_loop_ok:
  "take (length cs) input = map Some cs \<Longrightarrow> cur + length cs \<le> length bs \<Longrightarrow>
    copy_loop (length cs) input cur bs = Some (take cur bs @ map Some cs @ drop (cur + length cs) bs)"
proof (induction cs arbitrary: input cur bs)
  case (Cons c cs)
  obtain input' where i: "input = Some c # input'" "take (length cs) input' = map Some cs"
    using Cons.prems(1) by (cases input) auto
  have len: "cur < length bs" using Cons.prems(2) by simp
  have "copy_loop (length cs) input' (Suc cur) (bs[cur := Some c]) =
      Some (take (Suc cur) (bs[cur := Some c]) @ map Some cs @ drop (Suc cur + length cs) (bs[cur := Some c]))"
    using Cons.IH [OF i(2)] Cons.prems(2) by simp
  moreover have "take (Suc cur) (bs[cur := Some c]) = take cur bs @ [Some c]"
    using len by (simp add: take_Suc_conv_app_nth)
  ultimately show ?case using i len by (simp add: byte_at_def vget_def vset_def)
qed simp

text \<open>
  The effect of \<^verbatim>\<open>append_data\<close> at offset \<open>off\<close>: in place if the block is big enough;
  otherwise into a new block that holds the new bytes only.
\<close>

definition appended :: "nat \<Rightarrow> string \<Rightarrow> mystring \<Rightarrow> mystring \<Rightarrow> bool" where
  "appended off cs s s' \<longleftrightarrow>
     (if off + length cs + 1 > capacity s
      then take (length cs + 1) (buf s') = cstring cs \<and> end_pos s' = length cs + 1 \<and>
        (\<exists>k. capacity s' = 2 ^ k \<and> off + length cs + 1 < 2 ^ k)
      else take (off + length cs + 1) (buf s') = take off (buf s) @ cstring cs \<and>
        end_pos s' = off + length cs + 1 \<and> capacity s' = capacity s)"

lemma append_data_ok:
  assumes "take (length cs) input = map Some cs" "off \<le> end_pos s" "off + length cs + 1 < 2 ^ 63"
    and "len = length cs \<and> len \<noteq> npos \<or> len = npos \<and> strlen input = Some (length cs)"
  shows "\<exists>s'. append_data input off len s = Some s' \<and> appended off cs s s'"
proof -
  have len: "(if len = npos then strlen input else Some len) = Some (length cs)" using assms(4) by auto
  have need: "wrap64 (off + length cs + 1) = off + length cs + 1" using assms(3) by (simp add: wrap64_def)
  show ?thesis
  proof (cases "off + length cs + 1 > capacity s")
    case True
    obtain k where k: "get_realloc_size (off + length cs + 1) = Some (2 ^ k)" "off + length cs + 1 < 2 ^ k"
      using get_realloc_size_ok [OF assms(3)] by blast
    have c: "copy_loop (length cs) input 0 (replicate (2 ^ k) None) = Some (map Some cs @ replicate (2 ^ k - length cs) None)"
      using copy_loop_ok [OF assms(1), of 0 "replicate (2 ^ k) None"] k(2) by simp
    let ?bs = "(map Some cs @ replicate (2 ^ k - length cs) None)[length cs := Some NUL]"
    have "vset (map Some cs @ replicate (2 ^ k - length cs) None) (length cs) (Some NUL) = Some ?bs"
      using k(2) by (simp add: vset_def)
    then have "append_data input off len s = Some (s\<lparr>buf := ?bs, end_pos := length cs + 1, leaked := leaked s + 1\<rparr>)"
      using True assms(2) len need k(1) c by (simp add: append_data_def Let_def)
    moreover have "take (length cs + 1) ?bs = cstring cs"
      using k(2) by (simp add: cstring_def take_Suc_conv_app_nth list_update_append)
    ultimately show ?thesis using True k(2) by (auto simp: appended_def capacity_def)
  next
    case False
    then have fits: "off + length cs < length (buf s)" by (simp add: capacity_def)
    let ?cs = "take off (buf s) @ map Some cs @ drop (off + length cs) (buf s)"
    have c: "copy_loop (length cs) input off (buf s) = Some ?cs"
      using copy_loop_ok [OF assms(1), of off "buf s"] fits by simp
    let ?bs = "?cs[off + length cs := Some NUL]"
    have "vset ?cs (off + length cs) (Some NUL) = Some ?bs" using fits by (simp add: vset_def)
    then have "append_data input off len s = Some (s\<lparr>buf := ?bs, end_pos := off + length cs + 1\<rparr>)"
      using False assms(2) len need c by (simp add: append_data_def Let_def)
    moreover have "take (off + length cs + 1) ?bs = take off (buf s) @ cstring cs"
      using fits by (simp add: cstring_def take_Suc_conv_app_nth list_update_append min_def)
    ultimately show ?thesis using False fits by (auto simp: appended_def capacity_def)
  qed
qed

lemma my_realloc_ok:
  "len < 2 ^ 63 \<Longrightarrow> \<exists>k. my_realloc len s = Some \<lparr>buf = replicate (2 ^ k) None, end_pos = 0, leaked = leaked s + 1\<rparr> \<and>
    len < 2 ^ k \<and> 3 \<le> k"
  using get_realloc_size_ok [of len] by (cases s) (auto simp: my_realloc_def deallocate_def)

text \<open>Appending at the start of an empty string makes a well-formed string with that text.\<close>

lemma appended_fresh:
  "appended 0 cs s s' \<Longrightarrow> string_ok s' \<and> text_of s' = cs \<and> my_size s' = length cs \<and> length cs < capacity s'"
proof -
  assume a: "appended 0 cs s s'"
  then have t: "take (length cs + 1) (buf s') = cstring cs" "end_pos s' = length cs + 1"
    by (auto simp: appended_def split: if_splits)
  have "length (take (length cs + 1) (buf s')) = length cs + 1" unfolding t by simp
  then show ?thesis using string_okI [OF t] by (simp add: capacity_def)
qed

section \<open>Construction and assignment\<close>



lemma strlen_uninit: "strlen (replicate n None) = None"
  by (cases n) auto

lemma append_uninit: "append_data (replicate n None) off npos s = None"
  by (simp add: append_data_def strlen_uninit)

lemma string_assign_self: "string_assign s None = None"
  using my_realloc_ok [of 8 s] by (auto simp: string_assign_def append_uninit)

lemma assign_uninit: "string_of_char c = Some t \<Longrightarrow> string_assign s (Some t) = None"
  using my_realloc_ok [of 1 null_string] my_realloc_ok [of 8 s]
  by (auto simp: string_assign_def string_of_char_def string_of_char_n_def append_uninit)

section \<open>Writing, comparing, searching\<close>






lemma less_loop_stuck:
  assumes "i < my_size a" "i < my_size b" "string_at a i = Some x" "string_at b i = Some x"
  shows "less_loop a b i = None"
proof -
  have *: "\<not> (i' = i \<and> a' = a \<and> b' = b)" if "less_loop a' b' i' = Some r" for a' b' i' r
  proof (rule less_loop.raw_induct [OF _ that], goal_cases)
    case (1 f a' b' i' r)
    show ?case using 1(2) 1(1) [of a b i] assms by (auto split: if_splits)
  qed
  show ?thesis using * [of a b i] by (cases "less_loop a b i") auto
qed

lemma char_val_inj: "char_val x = char_val y \<longleftrightarrow> x = y"
proof -
  define m n where "m = (of_char x :: nat)" and "n = (of_char y :: nat)"
  have "m < 256" "n < 256" unfolding m_def n_def by (rule nat_of_char_less_256)+
  then have "char_val x = char_val y \<longleftrightarrow> m = n" by (auto simp: char_val_def Let_def m_def [symmetric] n_def [symmetric])
  then show ?thesis by (simp add: m_def n_def)
qed

lemma string_less_ok:
  assumes "string_ok a" "string_ok b"
  shows "string_less a b =
    (if text_of a = [] \<or> text_of b = [] then Some (length (text_of b) < length (text_of a))
     else if hd (text_of a) = hd (text_of b) then None
     else Some (char_val (hd (text_of b)) < char_val (hd (text_of a))))"
proof -
  note len = length_text [OF assms(1)] length_text [OF assms(2)]
  show ?thesis
  proof (cases "text_of a = [] \<or> text_of b = []")
    case True
    then have "\<not> (0 < my_size a \<and> 0 < my_size b)" using len by auto
    then have "less_loop a b 0 = Some (my_size b < my_size a)" by (subst less_loop.simps) auto
    then show ?thesis using True len by (simp add: string_less_def)
  next
    case False
    then have z: "0 < my_size a" "0 < my_size b" using len by (metis length_greater_0_conv)+
    have g: "string_at a 0 = Some (hd (text_of a))" "string_at b 0 = Some (hd (text_of b))"
      using string_at_ok [OF assms(1) z(1)] string_at_ok [OF assms(2) z(2)] False by (simp_all add: hd_conv_nth)
    show ?thesis
    proof (cases "hd (text_of a) = hd (text_of b)")
      case True
      then show ?thesis using less_loop_stuck [OF z] g False by (simp add: string_less_def)
    next
      case ne: False
      then have "char_val (hd (text_of a)) < char_val (hd (text_of b)) \<or> char_val (hd (text_of b)) < char_val (hd (text_of a))"
        using char_val_inj [of "hd (text_of a)" "hd (text_of b)"] by linarith
      moreover have "less_loop a b 0 = (if char_val (hd (text_of a)) > char_val (hd (text_of b)) then Some True
          else if char_val (hd (text_of a)) < char_val (hd (text_of b)) then Some False else less_loop a b 0)"
        using z g by (subst less_loop.simps) simp
      ultimately show ?thesis using ne False by (auto simp: string_less_def)
    qed
  qed
qed

lemma string_greater_None: "string_greater a b = None"
proof -
  have False if "string_greater a b = Some r" for a b r
    by (rule string_greater.raw_induct [OF _ that]) (auto simp: bind_eq_Some)
  then show ?thesis by (cases "string_greater a b") auto
qed

definition occurs :: "mystring \<Rightarrow> mystring \<Rightarrow> nat \<Rightarrow> bool" where
  "occurs s t k \<longleftrightarrow> text_of t \<noteq> [] \<and> take (length (text_of t)) (drop k (text_of s)) = text_of t"

lemma find_inner_ok:
  "string_ok s \<Longrightarrow> string_ok t \<Longrightarrow> i + my_size t \<le> my_size s \<Longrightarrow> j < my_size t \<Longrightarrow>
    find_inner s t i j = Some (take (my_size t - j) (drop (i + j) (text_of s)) = drop j (text_of t))"
proof (induction s t i j rule: find_inner.induct)
  case (1 s t i j)
  note len = length_text [OF "1.prems"(1)] length_text [OF "1.prems"(2)]
  let ?a = "text_of s ! (i + j)" and ?b = "text_of t ! j"
  have g: "string_at s (i + j) = Some ?a" "string_at t j = Some ?b"
    using string_at_ok "1.prems" by simp_all
  have d: "drop (i + j) (text_of s) = ?a # drop (i + (j + 1)) (text_of s)" "drop j (text_of t) = ?b # drop (j + 1) (text_of t)"
    using "1.prems" len by (simp_all add: Cons_nth_drop_Suc)
  have m: "my_size t - j = Suc (my_size t - (j + 1))" using "1.prems"(4) by simp
  show ?case
  proof (cases "?a = ?b \<and> j \<noteq> my_size t - 1")
    case True
    then have "j + 1 < my_size t" using "1.prems"(4) by linarith
    then have "find_inner s t i (j + 1) = Some (take (my_size t - (j + 1)) (drop (i + (j + 1)) (text_of s)) = drop (j + 1) (text_of t))"
      using "1.IH" [OF "1.prems"(4) g] True "1.prems" by simp
    then show ?thesis
      using True "1.prems"(4) g unfolding d m by (simp add: find_inner.simps [of s t i j])
  next
    case False
    then show ?thesis
      using "1.prems"(4) g len unfolding d m by (auto simp: find_inner.simps [of s t i j])
  qed
qed

lemma find_outer_ok:
  "string_ok s \<Longrightarrow> string_ok t \<Longrightarrow> limit + my_size t \<le> my_size s + 1 \<Longrightarrow>
    \<exists>r. find_outer s t limit i = Some r \<and>
      (if \<exists>k. i \<le> k \<and> k < limit \<and> occurs s t k
       then \<exists>k. r = int k \<and> i \<le> k \<and> k < limit \<and> occurs s t k \<and> (\<forall>k'. i \<le> k' \<and> k' < k \<longrightarrow> \<not> occurs s t k')
       else r = -1)"
proof (induction s t limit i rule: find_outer.induct)
  case (1 s t limit i)
  note e = find_outer.simps [of s t limit i]
  show ?case
  proof (cases "i < limit")
    case False
    then show ?thesis using e by auto
  next
    case True
    have inner: "find_inner s t i 0 = Some (occurs s t i)"
    proof (cases "my_size t = 0")
      case True
      then show ?thesis using length_text [OF "1.prems"(2)] by (simp add: find_inner.simps [of s t i 0] occurs_def)
    next
      case False
      then show ?thesis
        using find_inner_ok [of s t i 0] "1.prems" True length_text [OF "1.prems"(2)] by (auto simp: occurs_def)
    qed
    show ?thesis
    proof (cases "occurs s t i")
      case o: True
      then have "find_outer s t limit i = Some (int i)" using e True inner by simp
      then show ?thesis using o True by auto
    next
      case o: False
      then have eq: "find_outer s t limit i = find_outer s t limit (i + 1)" using e True inner by simp
      have ge: "i \<le> k \<and> P k \<and> occurs s t k \<longleftrightarrow> i + 1 \<le> k \<and> P k \<and> occurs s t k" for k P
        using o by (auto simp: Suc_le_eq nat_less_le)
      have no: "(\<forall>k'. i \<le> k' \<and> k' < k \<longrightarrow> \<not> occurs s t k') \<longleftrightarrow> (\<forall>k'. i + 1 \<le> k' \<and> k' < k \<longrightarrow> \<not> occurs s t k')" for k
        using o by (metis Suc_eq_plus1 Suc_le_eq le_neq_implies_less less_imp_le)
      show ?thesis
        using "1.IH" [OF True inner] "1.prems" o unfolding eq ge [of _ "\<lambda>k. k < limit"] no
        by (smt (verit) ge)
    qed
  qed
qed

lemma find_inner_True: "find_inner s t i j = Some True \<Longrightarrow> i + my_size t \<le> my_size s"
proof (induction s t i j rule: find_inner.induct)
  case (1 s t i j)
  note e = find_inner.simps [of s t i j]
  have j: "j < my_size t" using "1.prems" e by (auto split: if_splits)
  then obtain a b where g: "string_at s (i + j) = Some a" "string_at t j = Some b" "a = b"
    using "1.prems" e by (auto simp: bind_eq_Some split: if_splits)
  have "i + j < my_size s" using g(1) by (auto simp: string_at_def split: if_splits)
  then show ?case
    using "1.IH" [OF j g(1,2)] "1.prems" e j g by (cases "j = my_size t - 1") auto
qed

lemma find_outer_abort:
  assumes "my_size s < my_size t" "my_size s < limit" "i \<le> my_size s"
  shows "find_outer s t limit i = None"
  using assms(3)
proof (induction "my_size s - i" arbitrary: i)
  case 0
  then have "string_at s (i + 0) = None" by (simp add: string_at_def)
  then have "find_inner s t i 0 = None" using assms(1) by (subst find_inner.simps) simp
  then show ?case using 0 assms by (subst find_outer.simps) simp
next
  case (Suc n)
  have "find_inner s t i 0 \<noteq> Some True" using find_inner_True [of s t i 0] assms(1) by auto
  then show ?case using Suc assms by (subst find_outer.simps) (cases "find_inner s t i 0"; auto)
qed

lemma string_find_ok:
  assumes ok: "string_ok s" "string_ok t" and b: "my_size s < 2 ^ 62" "my_size t < 2 ^ 62"
  shows "if my_size t \<le> my_size s + 1
    then \<exists>r. string_find s t = Some r \<and>
      (if \<exists>k. occurs s t k then \<exists>k. r = int k \<and> occurs s t k \<and> (\<forall>k' < k. \<not> occurs s t k') else r = -1)
    else string_find s t = None"
proof (cases "my_size t \<le> my_size s + 1")
  case True
  let ?l = "my_size s + 1 - my_size t"
  have eq: "my_size s + 18446744073709551616 - my_size t + 1 = ?l + 18446744073709551616" using True b by simp
  have l: "wrap64 (my_size s + 18446744073709551616 - my_size t + 1) = ?l"
    unfolding wrap64_def eq mod_add_self2 using b by (intro mod_less) simp
  have occ: "occurs s t k \<Longrightarrow> k < ?l" for k
  proof -
    assume o: "occurs s t k"
    then have "length (take (length (text_of t)) (drop k (text_of s))) = length (text_of t)" by (simp add: occurs_def)
    then have "my_size t \<le> my_size s - k"
      using length_text [OF ok(1)] length_text [OF ok(2)] by simp
    moreover have "0 < my_size t"
      using o length_text [OF ok(2)] unfolding occurs_def by (metis length_greater_0_conv)
    ultimately have "my_size t \<le> my_size s - k" "0 < my_size t" by blast+
    then show ?thesis using True by linarith
  qed
  have "?l + my_size t \<le> my_size s + 1" using True by simp
  then obtain r where r: "find_outer s t ?l 0 = Some r"
    and sp: "if \<exists>k. 0 \<le> k \<and> k < ?l \<and> occurs s t k
      then \<exists>k. r = int k \<and> 0 \<le> k \<and> k < ?l \<and> occurs s t k \<and> (\<forall>k'. 0 \<le> k' \<and> k' < k \<longrightarrow> \<not> occurs s t k') else r = -1"
    using find_outer_ok [OF ok, of ?l 0] by blast
  have ex: "(\<exists>k. 0 \<le> k \<and> k < ?l \<and> occurs s t k) \<longleftrightarrow> (\<exists>k. occurs s t k)" using occ by auto
  have "if \<exists>k. occurs s t k then \<exists>k. r = int k \<and> occurs s t k \<and> (\<forall>k' < k. \<not> occurs s t k') else r = -1"
    using sp unfolding ex by (cases "\<exists>k. occurs s t k") (simp_all, blast)
  then show ?thesis using r True unfolding string_find_def l by simp
next
  case False
  have "wrap64 (my_size s + 18446744073709551616 - my_size t + 1) = my_size s + 18446744073709551616 - my_size t + 1"
    using False by (simp add: wrap64_def)
  then show ?thesis
    using find_outer_abort [of s t _ 0] False b by (simp add: string_find_def)
qed

section \<open>Concatenation and substrings\<close>

lemma string_plus_ok:
  assumes s: "string_ok s" "end_pos s \<noteq> 0" and t: "string_ok t" "end_pos t \<noteq> 0" "NUL \<notin> set (text_of t)"
    and b: "my_size s < 2 ^ 61" "my_size t < 2 ^ 61"
  shows "\<exists>s'. string_plus s t = Some s' \<and> string_ok s' \<and>
    text_of s' = (if my_size s + my_size t + 2 \<le> capacity s then text_of s @ NUL # text_of t else text_of t)"
proof -
  note len = length_text [OF s(1)] length_text [OF t(1)]
  have e: "end_pos s = my_size s + 1" using s(2) by (simp add: my_size_def)
  have "buf t = map Some (text_of t) @ Some NUL # drop (end_pos t) (buf t)"
    using t by (metis append_take_drop_id string_ok_def cstring_def append.assoc append_Cons append_Nil)
  then have bt: "take (length (text_of t)) (buf t) = map Some (text_of t)" "strlen (buf t) = Some (length (text_of t))"
    using strlen_ok [OF t(3)] by (metis append_eq_conv_conj length_map)+
  obtain s' where s': "string_plus s t = Some s'" "appended (end_pos s) (text_of t) s s'"
    using append_data_ok [OF bt(1), of "end_pos s" s npos] bt(2) b e len by (auto simp: string_plus_def)
  show ?thesis
  proof (cases "my_size s + my_size t + 2 \<le> capacity s")
    case True
    have "take (end_pos s) (buf s) = cstring (text_of s)" using s by (simp add: string_ok_def)
    then have "take (length (text_of s @ NUL # text_of t) + 1) (buf s') = cstring (text_of s @ NUL # text_of t)"
      "end_pos s' = length (text_of s @ NUL # text_of t) + 1"
      using s'(2) True e len by (simp_all add: appended_def cstring_def)
    then show ?thesis using string_okI s'(1) True by metis
  next
    case False
    then have "take (length (text_of t) + 1) (buf s') = cstring (text_of t)" "end_pos s' = length (text_of t) + 1"
      using s'(2) e len by (simp_all add: appended_def)
    then show ?thesis using string_okI s'(1) False by metis
  qed
qed

lemma string_substr_bytes:
  assumes "take (length cs) (drop pos (buf s)) = map Some cs" "length cs < 2 ^ 62"
    and "len = length cs \<and> len \<noteq> npos \<or> len = npos \<and> length cs = my_size s"
  shows "\<exists>s'. string_substr s pos len = Some s' \<and> string_ok s' \<and> text_of s' = cs"
proof -
  obtain s0 where s0: "string_default = Some s0" using my_realloc_ok [of 8 null_string] by (auto simp: string_default_def)
  have w: "wrap64 (length cs + 1) = length cs + 1" using assms(2) by (simp add: wrap64_def)
  obtain k where k: "my_realloc (length cs + 1) s0 = Some \<lparr>buf = replicate (2 ^ k) None, end_pos = 0, leaked = leaked s0 + 1\<rparr>"
    using my_realloc_ok [of "length cs + 1" s0] assms(2) by auto
  obtain s' where "append_data (drop pos (buf s)) 0 (length cs) \<lparr>buf = replicate (2 ^ k) None, end_pos = 0, leaked = leaked s0 + 1\<rparr> = Some s'"
    "appended 0 cs \<lparr>buf = replicate (2 ^ k) None, end_pos = 0, leaked = leaked s0 + 1\<rparr> s'"
    using append_data_ok [OF assms(1), of 0 "\<lparr>buf = replicate (2 ^ k) None, end_pos = 0, leaked = leaked s0 + 1\<rparr>" "length cs"]
      assms(2) by auto
  moreover have "(if len = npos then my_size s else len) = length cs" using assms(3) by auto
  ultimately have "string_substr s pos len = Some s'" using w k unfolding string_substr_def s0 by (simp add: Let_def)
  then show ?thesis using \<open>appended 0 cs _ s'\<close> appended_fresh by blast
qed

lemma substr_in_range:
  assumes "string_ok s" "pos + len \<le> my_size s" "my_size s < 2 ^ 62"
  shows "\<exists>s'. string_substr s pos len = Some s' \<and> string_ok s' \<and> text_of s' = take len (drop pos (text_of s))"
proof -
  have l: "length (take len (drop pos (text_of s))) = len" using assms(2) length_text [OF assms(1)] by simp
  have "take len (drop pos (take (my_size s) (buf s))) = map Some (take len (drop pos (text_of s)))"
    unfolding text_bytes [OF assms(1)] by (simp add: take_map drop_map)
  moreover have "take len (drop pos (take (my_size s) (buf s))) = take len (drop pos (buf s))"
    using assms(2) by (simp add: drop_take min_def)
  ultimately show ?thesis using string_substr_bytes [of "take len (drop pos (text_of s))" pos s len] l assms by auto
qed

text \<open>With the default length the copy starts at \<open>pos\<close> but still takes \<^verbatim>\<open>size()\<close> bytes.\<close>

lemma substr_default_one:
  assumes "string_ok s" "end_pos s \<noteq> 0" "0 < my_size s" "my_size s < 2 ^ 62"
  shows "\<exists>s'. string_substr s 1 npos = Some s' \<and> string_ok s' \<and> text_of s' = tl (text_of s) @ [NUL]"
proof -
  have l: "length (text_of s) = my_size s" by (rule length_text [OF assms(1)])
  then have ls: "length (tl (text_of s) @ [NUL]) = my_size s" using assms(3) by simp
  have e: "end_pos s = my_size s + 1" using assms(2) by (simp add: my_size_def)
  have "take (my_size s) (drop 1 (take (end_pos s) (buf s))) = map Some (tl (text_of s) @ [NUL])"
  proof -
    have "take (end_pos s) (buf s) = map Some (text_of s @ [NUL])" using assms(1,2) by (simp add: string_ok_def cstring_def)
    moreover have "text_of s \<noteq> []" using l assms(3) by auto
    ultimately have "drop 1 (take (end_pos s) (buf s)) = map Some (tl (text_of s) @ [NUL])"
      by (cases "text_of s") simp_all
    then show ?thesis using ls by simp
  qed
  moreover have "take (my_size s) (drop 1 (take (end_pos s) (buf s))) = take (my_size s) (drop 1 (buf s))"
    using e by (simp add: drop_take)
  ultimately show ?thesis using string_substr_bytes [of "tl (text_of s) @ [NUL]" 1 s npos] ls assms(4) by auto
qed



section \<open>Properties\<close>



text \<open>
  \<^verbatim>\<open>find\<close> returns the first position where a non-empty text occurs, or \<open>-1\<close>
  (an empty text is never found), as long as the text searched for is at most one character
  longer than the string; for a longer one the bound of the loop wraps around and the search
  runs into a failing \<^verbatim>\<open>assert\<close>.
\<close>

theorem string_find_spec:
  assumes "string_ok s" "string_ok t" "my_size s < 2 ^ 62" "my_size t < 2 ^ 62"
  shows "if my_size t \<le> my_size s + 1
    then \<exists>r. string_find s t = Some r \<and>
      (if \<exists>k. occurs s t k then \<exists>k. r = int k \<and> occurs s t k \<and> (\<forall>k' < k. \<not> occurs s t k') else r = -1)
    else string_find s t = None"
  using assms by (rule string_find_ok)

theorem string_find_spec_witness:
  "string_find \<lparr>buf = cstring ''a'', end_pos = 2, leaked = 0\<rparr> \<lparr>buf = cstring ''abc'', end_pos = 4, leaked = 0\<rparr> = None"
proof -
  have "string_ok \<lparr>buf = cstring ''a'', end_pos = 2, leaked = 0\<rparr>" "string_ok \<lparr>buf = cstring ''abc'', end_pos = 4, leaked = 0\<rparr>"
    using string_okI [of "''a''" "\<lparr>buf = cstring ''a'', end_pos = 2, leaked = 0\<rparr>"]
      string_okI [of "''abc''" "\<lparr>buf = cstring ''abc'', end_pos = 4, leaked = 0\<rparr>"] by (simp_all add: cstring_def)
  then show ?thesis
    using string_find_spec [of "\<lparr>buf = cstring ''a'', end_pos = 2, leaked = 0\<rparr>" "\<lparr>buf = cstring ''abc'', end_pos = 4, leaked = 0\<rparr>"]
    by (simp add: my_size_def)
qed

text \<open>
  Concatenation does not concatenate: when the block has room, the second text follows the
  terminator of the first one, so that it cannot be seen through \<^verbatim>\<open>c_str\<close>; when it has
  not, the first text is lost. A substring within the string is the substring, but with the
  default length the copy runs past the end: from position 1 it takes the terminator along.
\<close>

theorem string_plus_substr_spec:
  assumes "string_ok s" "end_pos s \<noteq> 0" "string_ok t" "end_pos t \<noteq> 0" "NUL \<notin> set (text_of t)"
    and "my_size s < 2 ^ 61" "my_size t < 2 ^ 61"
  shows "(\<exists>s'. string_plus s t = Some s' \<and> string_ok s' \<and>
      text_of s' = (if my_size s + my_size t + 2 \<le> capacity s then text_of s @ NUL # text_of t else text_of t)) \<and>
    (\<forall>pos len. pos + len \<le> my_size s \<longrightarrow>
      (\<exists>s'. string_substr s pos len = Some s' \<and> text_of s' = take len (drop pos (text_of s)))) \<and>
    (0 < my_size s \<longrightarrow> (\<exists>s'. string_substr s 1 npos = Some s' \<and> text_of s' = tl (text_of s) @ [NUL]))"
  using string_plus_ok [OF assms] substr_in_range [OF assms(1)] substr_default_one [OF assms(1,2)] assms(6) by fastforce

theorem string_plus_substr_spec_witness:
  "\<exists>s'. string_plus \<lparr>buf = cstring ''ab'', end_pos = 3, leaked = 0\<rparr> \<lparr>buf = cstring ''cd'', end_pos = 3, leaked = 0\<rparr> = Some s' \<and>
     text_of s' = ''cd''"
proof -
  have "string_ok \<lparr>buf = cstring ''ab'', end_pos = 3, leaked = 0\<rparr> \<and> text_of \<lparr>buf = cstring ''ab'', end_pos = 3, leaked = 0\<rparr> = ''ab''"
    "string_ok \<lparr>buf = cstring ''cd'', end_pos = 3, leaked = 0\<rparr> \<and> text_of \<lparr>buf = cstring ''cd'', end_pos = 3, leaked = 0\<rparr> = ''cd''"
    using string_okI [of "''ab''" "\<lparr>buf = cstring ''ab'', end_pos = 3, leaked = 0\<rparr>"]
      string_okI [of "''cd''" "\<lparr>buf = cstring ''cd'', end_pos = 3, leaked = 0\<rparr>"] by (simp_all add: cstring_def)
  then show ?thesis
    using string_plus_substr_spec [of "\<lparr>buf = cstring ''ab'', end_pos = 3, leaked = 0\<rparr>" "\<lparr>buf = cstring ''cd'', end_pos = 3, leaked = 0\<rparr>"]
    by (auto simp: my_size_def capacity_def)
qed

text \<open>
  The order operators: \<^verbatim>\<open>operator<\<close> looks at the first character only, answers
  the reverse of the order, and does not return when the first characters are equal;
  \<^verbatim>\<open>operator>\<close> never returns. Assigning a string to itself, or a string built from a
  character as \<^verbatim>\<open>main\<close> does, reads uninitialised memory.
\<close>

theorem string_order_spec:
  assumes "string_ok a" "string_ok b"
  shows "string_less a b =
      (if text_of a = [] \<or> text_of b = [] then Some (length (text_of b) < length (text_of a))
       else if hd (text_of a) = hd (text_of b) then None
       else Some (char_val (hd (text_of b)) < char_val (hd (text_of a)))) \<and>
    string_greater a b = None \<and> string_assign a None = None \<and> string_main_assign_char a = None"
  using string_less_ok [OF assms] string_greater_None string_assign_self assign_uninit
  by (cases "string_of_char (CHR ''b'')") (simp_all add: string_main_assign_char_def)

theorem string_order_spec_witness:
  "string_less \<lparr>buf = cstring ''ab'', end_pos = 3, leaked = 0\<rparr> \<lparr>buf = cstring ''ac'', end_pos = 3, leaked = 0\<rparr> = None"
proof -
  have "string_ok \<lparr>buf = cstring ''ab'', end_pos = 3, leaked = 0\<rparr> \<and> text_of \<lparr>buf = cstring ''ab'', end_pos = 3, leaked = 0\<rparr> = ''ab''"
    "string_ok \<lparr>buf = cstring ''ac'', end_pos = 3, leaked = 0\<rparr> \<and> text_of \<lparr>buf = cstring ''ac'', end_pos = 3, leaked = 0\<rparr> = ''ac''"
    using string_okI [of "''ab''" "\<lparr>buf = cstring ''ab'', end_pos = 3, leaked = 0\<rparr>"]
      string_okI [of "''ac''" "\<lparr>buf = cstring ''ac'', end_pos = 3, leaked = 0\<rparr>"] by (simp_all add: cstring_def)
  then show ?thesis
    using string_order_spec [of "\<lparr>buf = cstring ''ab'', end_pos = 3, leaked = 0\<rparr>" "\<lparr>buf = cstring ''ac'', end_pos = 3, leaked = 0\<rparr>"]
    by simp
qed

end
