(* ===== verification/TimeCache.thy ===== *)
theory TimeCache
  imports Cpp_Prelude "HOL-Library.Word"
begin

text \<open>
  \<^verbatim>\<open>cpp/cpp_language/old/gettimeofday/cas_time_cache.cpp\<close> (the file
  \<^verbatim>\<open>atomic_time_cache.cpp\<close> has the same text): a thread that samples the system clocks
  into two 64-bit counters, and functions that answer from the counters instead of asking the
  system. The model has the conversions on 64-bit words, the members of
  \<^verbatim>\<open>CTimeThread\<close>, the functions with the system calls as parameters, the bodies of the
  monitor loops of the program, and a step relation in which the updating thread, the clocks
  and any number of readers interleave at the granularity of the atomic loads and stores.
\<close>

section \<open>Times and their 64-bit encoding\<close>

record timespec =
  ts_sec :: int
  ts_nsec :: int

record timeval =
  tv_sec :: int
  tv_usec :: int

type_synonym uint64 = "64 word"

definition transform_timeval :: "timeval \<Rightarrow> uint64" where
  "transform_timeval tv = word_of_int (tv_sec tv) * 1000000000 + word_of_int (tv_usec tv) * 1000"

definition transform_timespec :: "timespec \<Rightarrow> uint64" where
  "transform_timespec tp = word_of_int (ts_sec tp) * 1000000000 + word_of_int (ts_nsec tp)"

definition to_timespec :: "uint64 \<Rightarrow> timespec" where
  "to_timespec t = \<lparr>ts_sec = uint (t div 1000000000), ts_nsec = uint (t mod 1000000000)\<rparr>"

definition to_timeval :: "uint64 \<Rightarrow> timeval" where
  "to_timeval t = \<lparr>tv_sec = uint (t div 1000000000), tv_usec = uint ((t mod 1000000000) div 1000)\<rparr>"

definition to_time_t :: "uint64 \<Rightarrow> int" where
  "to_time_t t = uint (t div 1000000000)"

section \<open>The time thread\<close>

record time_thread =
  time_monotonic :: uint64
  time_realtime :: uint64
  pre_time_realtime :: uint64

definition thread_init :: time_thread where
  "thread_init = \<lparr>time_monotonic = 0, time_realtime = 0, pre_time_realtime = 0\<rparr>"

text \<open>One update from the two samples of the clocks.\<close>

definition store_monotonic :: "uint64 \<Rightarrow> time_thread \<Rightarrow> time_thread" where
  "store_monotonic m c = c\<lparr>time_monotonic := m\<rparr>"

definition store_realtime :: "uint64 \<Rightarrow> time_thread \<Rightarrow> time_thread" where
  "store_realtime r c =
     (let c = (if time_realtime c > 0 then c\<lparr>pre_time_realtime := time_realtime c\<rparr> else c)
      in c\<lparr>time_realtime := r\<rparr>)"

definition do_update_time :: "timespec \<Rightarrow> timespec \<Rightarrow> time_thread \<Rightarrow> time_thread" where
  "do_update_time tp_mono tp_real c =
     store_realtime (transform_timespec tp_real) (store_monotonic (transform_timespec tp_mono) c)"


definition thread_run :: "(timespec \<times> timespec) list \<Rightarrow> time_thread \<Rightarrow> time_thread" where
  "thread_run samples c = fold (\<lambda>(tp_mono, tp_real). do_update_time tp_mono tp_real) samples c"

section \<open>The cached functions\<close>

text \<open>
  A pointer argument is \<^term>\<open>None\<close> when it is null and otherwise the value it points to; the
  result has the value stored there. A failed \<^verbatim>\<open>assert\<close> is \<^term>\<open>None\<close>.
\<close>

definition cached_time :: "int option \<Rightarrow> time_thread \<Rightarrow> int \<times> int option" where
  "cached_time timer c = (let t = to_time_t (time_realtime c) in (t, map_option (\<lambda>_. t) timer))"

definition cached_gettimeofday :: "timeval option \<Rightarrow> time_thread \<Rightarrow> (int \<times> timeval) ub" where
  "cached_gettimeofday tv c =
     (case tv of
        None \<Rightarrow> None
      | Some old \<Rightarrow>
          (let t = time_realtime c
           in if t = 0 then Some (-1, old) else Some (0, to_timeval t)))"

datatype clockid = CLOCK_REALTIME | CLOCK_MONOTONIC | CLOCK_OTHER nat

text \<open>The call of the system is the parameter \<open>sys\<close>: a status and the time it stores.\<close>

definition cached_clock_gettime ::
    "(clockid \<Rightarrow> timespec \<Rightarrow> int \<times> timespec) \<Rightarrow> clockid \<Rightarrow> timespec option \<Rightarrow> time_thread \<Rightarrow> (int \<times> timespec) ub" where
  "cached_clock_gettime sys clock_id tp c =
     (case tp of
        None \<Rightarrow> None
      | Some old \<Rightarrow>
          if clock_id = CLOCK_MONOTONIC
          then if time_monotonic c = 0 then Some (-1, old) else Some (0, to_timespec (time_monotonic c))
          else if clock_id = CLOCK_REALTIME
          then if time_realtime c = 0 then Some (-1, old) else Some (0, to_timespec (time_realtime c))
          else Some (sys clock_id old))"

text \<open>The global functions choose between cache and system by a debug flag; the time is cast to \<^verbatim>\<open>unsigned int\<close>.\<close>

definition api_time :: "bool \<Rightarrow> (int option \<Rightarrow> int \<times> int option) \<Rightarrow> int option \<Rightarrow> time_thread \<Rightarrow> 32 word \<times> int option" where
  "api_time use_cache sys timer c =
     (let (t, p) = (if use_cache then cached_time timer c else sys timer) in (word_of_int t, p))"

definition api_gettimeofday :: "bool \<Rightarrow> (timeval option \<Rightarrow> (int \<times> timeval) ub) \<Rightarrow> timeval option \<Rightarrow> time_thread \<Rightarrow> (int \<times> timeval) ub" where
  "api_gettimeofday use_cache sys tv c = (if use_cache then cached_gettimeofday tv c else sys tv)"

definition api_clock_gettime ::
    "bool \<Rightarrow> (clockid \<Rightarrow> timespec \<Rightarrow> int \<times> timespec) \<Rightarrow> clockid \<Rightarrow> timespec option \<Rightarrow> time_thread \<Rightarrow> (int \<times> timespec) ub" where
  "api_clock_gettime use_cache sys clock_id tp c =
     (if use_cache then cached_clock_gettime sys clock_id tp c else map_option (sys clock_id) tp)"

section \<open>The monitor loops of the program\<close>

record monitor =
  prev_time :: uint64
  prev_cnt :: uint64
  cnt64 :: uint64

definition monitor_init :: monitor where
  "monitor_init = \<lparr>prev_time = 0, prev_cnt = 0, cnt64 = 0\<rparr>"

definition gCachedNsecTolerance :: int where
  "gCachedNsecTolerance = 1000 * 1000"

text \<open>
  The part the three loops share: the warning when time went backwards or differs too much
  from the system's, and the counters; and whether the periodic line is printed.
\<close>

definition monitor_round :: "uint64 \<Rightarrow> uint64 \<Rightarrow> monitor \<Rightarrow> bool \<times> bool \<times> monitor" where
  "monitor_round cur sys_cur m =
     (let diff = sint (cur - sys_cur);
          alarm = (cur < prev_time m \<or> \<bar>diff\<bar> \<ge> gCachedNsecTolerance);
          c = cnt64 m + 1
      in (alarm, c mod 1000000000 = 0, \<lparr>prev_time = cur, prev_cnt = cnt64 m, cnt64 = c\<rparr>))"

definition test_cached_time :: "time_thread \<Rightarrow> int \<Rightarrow> monitor \<Rightarrow> bool \<times> bool \<times> monitor" where
  "test_cached_time c sys_time m =
     monitor_round (ucast (fst (api_time True (\<lambda>p. (sys_time, p)) (Some 0) c))) (word_of_int sys_time) m"

definition test_cached_gettimeofday ::
    "time_thread \<Rightarrow> int \<times> timeval \<Rightarrow> monitor \<Rightarrow> (bool \<times> bool \<times> monitor) option ub" where
  "test_cached_gettimeofday c sys_now m =
     (if fst sys_now \<noteq> 0 then Some None
      else do {
        let sys_cur = transform_timeval (snd sys_now);
        (ret, tv) \<leftarrow> api_gettimeofday True (\<lambda>_. Some sys_now) (Some (snd sys_now)) c;
        Some (if ret \<noteq> 0 then None else Some (monitor_round (transform_timeval tv) sys_cur m))
      })"

definition test_cached_clock_gettime ::
    "time_thread \<Rightarrow> int \<times> timespec \<Rightarrow> monitor \<Rightarrow> (bool \<times> bool \<times> monitor) option ub" where
  "test_cached_clock_gettime c sys_now m =
     (if fst sys_now \<noteq> 0 then Some None
      else do {
        let sys_cur = transform_timespec (snd sys_now);
        (ret, tp) \<leftarrow> api_clock_gettime True (\<lambda>_ _. sys_now) CLOCK_REALTIME (Some (snd sys_now)) c;
        Some (if ret \<noteq> 0 then None else Some (monitor_round (transform_timespec tp) sys_cur m))
      })"

section \<open>The comparison of cached and system time\<close>

definition timer_gt :: "timeval \<Rightarrow> timeval \<Rightarrow> bool" where
  "timer_gt a b \<longleftrightarrow> (if tv_sec a = tv_sec b then tv_usec a > tv_usec b else tv_sec a > tv_sec b)"

definition timersub :: "timeval \<Rightarrow> timeval \<Rightarrow> timeval" where
  "timersub a b =
     (let s = tv_sec a - tv_sec b; u = tv_usec a - tv_usec b
      in if u < 0 then \<lparr>tv_sec = s - 1, tv_usec = u + 1000000\<rparr> else \<lparr>tv_sec = s, tv_usec = u\<rparr>)"

record diff_stats =
  max_diff :: int
  sum_diff :: int
  over_10 :: nat
  over_15 :: nat
  over_20 :: nat

definition stats_init :: diff_stats where
  "stats_init = \<lparr>max_diff = 0, sum_diff = 0, over_10 = 0, over_15 = 0, over_20 = 0\<rparr>"

definition compare_round :: "timeval \<times> timeval \<Rightarrow> diff_stats \<Rightarrow> diff_stats" where
  "compare_round ts st =
     (let (t1, t2) = ts;
          t3 = (if timer_gt t1 t2 then timersub t1 t2 else timersub t2 t1);
          u = tv_usec t3
      in \<lparr>max_diff = (if max_diff st < u then u else max_diff st),
          sum_diff = sum_diff st + u,
          over_10 = (if u > 10 * 100 then over_10 st + 1 else over_10 st),
          over_15 = (if u > 15 * 100 then over_15 st + 1 else over_15 st),
          over_20 = (if u > 20 * 100 then over_20 st + 1 else over_20 st)\<rparr>)"

definition compare_time_diff :: "(timeval \<times> timeval) list \<Rightarrow> diff_stats" where
  "compare_time_diff samples = fold compare_round samples stats_init"

section \<open>Interleaving of clocks, updater and readers\<close>

text \<open>
  The updater samples the monotonic clock, then the real-time clock, then stores the two
  counters one after the other. A reader of the monotonic clock loads the counter, gives up if
  it is zero, and loads it again for the result.
\<close>

datatype updater = Idle | GotMono uint64 | GotBoth uint64 uint64 | StoredMono uint64

record time_system =
  mono_clock :: timespec
  real_clock :: timespec
  thread :: time_thread
  upd :: updater
  checked :: "nat \<Rightarrow> bool"
  seen :: "nat \<Rightarrow> uint64 list"

definition ns_of :: "timespec \<Rightarrow> int" where
  "ns_of t = ts_sec t * 1000000000 + ts_nsec t"

definition valid_ts :: "timespec \<Rightarrow> bool" where
  "valid_ts t \<longleftrightarrow> 0 \<le> ts_sec t \<and> 0 \<le> ts_nsec t \<and> ts_nsec t < 1000000000 \<and> ns_of t < 2 ^ 64"

inductive sys_step :: "time_system \<Rightarrow> time_system \<Rightarrow> bool" where
  mono_tick: "valid_ts t \<Longrightarrow> ns_of (mono_clock s) \<le> ns_of t \<Longrightarrow> sys_step s (s\<lparr>mono_clock := t\<rparr>)"
| real_tick: "valid_ts t \<Longrightarrow> sys_step s (s\<lparr>real_clock := t\<rparr>)"
| sample_mono: "upd s = Idle \<Longrightarrow> sys_step s (s\<lparr>upd := GotMono (transform_timespec (mono_clock s))\<rparr>)"
| sample_real: "upd s = GotMono m \<Longrightarrow> sys_step s (s\<lparr>upd := GotBoth m (transform_timespec (real_clock s))\<rparr>)"
| store_mono: "upd s = GotBoth m r \<Longrightarrow> sys_step s (s\<lparr>thread := store_monotonic m (thread s), upd := StoredMono r\<rparr>)"
| store_real: "upd s = StoredMono r \<Longrightarrow> sys_step s (s\<lparr>thread := store_realtime r (thread s), upd := Idle\<rparr>)"
| read_check: "\<not> checked s i \<Longrightarrow> time_monotonic (thread s) \<noteq> 0 \<Longrightarrow> sys_step s (s\<lparr>checked := (checked s)(i := True)\<rparr>)"
| read_take: "checked s i \<Longrightarrow>
    sys_step s (s\<lparr>checked := (checked s)(i := False), seen := (seen s)(i := time_monotonic (thread s) # seen s i)\<rparr>)"


section \<open>The encoding\<close>

text \<open>What the cache needs of an encoding of times: it is exact and keeps the order.\<close>

locale time_codec =
  fixes encode :: "'t \<Rightarrow> uint64" and decode :: "uint64 \<Rightarrow> 't" and valid :: "'t \<Rightarrow> bool" and nanos :: "'t \<Rightarrow> int"
  assumes uint_encode: "valid t \<Longrightarrow> uint (encode t) = nanos t"
    and decode_encode: "valid t \<Longrightarrow> decode (encode t) = t"
begin

lemma encode_le: "valid s \<Longrightarrow> valid t \<Longrightarrow> encode s \<le> encode t \<longleftrightarrow> nanos s \<le> nanos t"
  by (simp add: word_le_def uint_encode)

lemma encode_inj: "valid s \<Longrightarrow> valid t \<Longrightarrow> encode s = encode t \<longleftrightarrow> s = t"
  by (metis decode_encode)

lemma encode_0: "valid t \<Longrightarrow> encode t = 0 \<longleftrightarrow> nanos t = 0"
  by (metis uint_encode uint_0_iff)

end

definition tv_ns_of :: "timeval \<Rightarrow> int" where
  "tv_ns_of t = tv_sec t * 1000000000 + tv_usec t * 1000"

definition valid_tv :: "timeval \<Rightarrow> bool" where
  "valid_tv t \<longleftrightarrow> 0 \<le> tv_sec t \<and> 0 \<le> tv_usec t \<and> tv_usec t < 1000000 \<and> tv_ns_of t < 2 ^ 64"

lemma uint_div_mod_lit:
  "uint (t div 1000000000 :: uint64) = uint t div 1000000000" "uint (t mod 1000000000 :: uint64) = uint t mod 1000000000"
  "uint (t div 1000 :: uint64) = uint t div 1000"
  by (simp_all add: uint_div_distrib uint_mod_distrib)

interpretation tspec: time_codec transform_timespec to_timespec valid_ts ns_of
proof unfold_locales
  fix t :: timespec assume v: "valid_ts t"
  have "transform_timespec t = word_of_int (ns_of t)" by (simp add: transform_timespec_def ns_of_def)
  moreover have "0 \<le> ns_of t" "ns_of t < 2 ^ 64" using v by (simp_all add: valid_ts_def ns_of_def)
  ultimately show u: "uint (transform_timespec t) = ns_of t" by (simp add: uint_word_of_int)
  have "ns_of t div 1000000000 = ts_sec t" "ns_of t mod 1000000000 = ts_nsec t" using v by (simp_all add: valid_ts_def ns_of_def)
  then show "to_timespec (transform_timespec t) = t"
    by (intro timespec.equality) (simp_all add: to_timespec_def uint_div_mod_lit u)
qed

interpretation tval: time_codec transform_timeval to_timeval valid_tv tv_ns_of
proof unfold_locales
  fix t :: timeval assume v: "valid_tv t"
  have "transform_timeval t = word_of_int (tv_ns_of t)" by (simp add: transform_timeval_def tv_ns_of_def)
  moreover have "0 \<le> tv_ns_of t" "tv_ns_of t < 2 ^ 64" using v by (simp_all add: valid_tv_def tv_ns_of_def)
  ultimately show u: "uint (transform_timeval t) = tv_ns_of t" by (simp add: uint_word_of_int)
  have "tv_ns_of t div 1000000000 = tv_sec t" "tv_ns_of t mod 1000000000 = tv_usec t * 1000"
    using v by (simp_all add: valid_tv_def tv_ns_of_def)
  then show "to_timeval (transform_timeval t) = t"
    by (intro timeval.equality) (simp_all add: to_timeval_def uint_div_mod_lit u)
qed

section \<open>Invariants of the interleaving\<close>



lemma store_realtime_mono [simp]: "time_monotonic (store_realtime r c) = time_monotonic c"
  by (simp add: store_realtime_def Let_def)




text \<open>The four steps of the updater without interference are one call of \<^verbatim>\<open>do_update_time\<close>.\<close>

lemma update_steps:
  assumes "upd s = Idle"
  shows "sys_step\<^sup>*\<^sup>* s (s\<lparr>thread := do_update_time (mono_clock s) (real_clock s) (thread s)\<rparr>)"
proof -
  let ?m = "transform_timespec (mono_clock s)" and ?r = "transform_timespec (real_clock s)"
  have 1: "sys_step s (s\<lparr>upd := GotMono ?m\<rparr>)" using sample_mono [OF assms] .
  have 2: "sys_step (s\<lparr>upd := GotMono ?m\<rparr>) (s\<lparr>upd := GotBoth ?m ?r\<rparr>)"
    using sample_real [of "s\<lparr>upd := GotMono ?m\<rparr>" ?m] by simp
  have 3: "sys_step (s\<lparr>upd := GotBoth ?m ?r\<rparr>) (s\<lparr>thread := store_monotonic ?m (thread s), upd := StoredMono ?r\<rparr>)"
    using store_mono [of "s\<lparr>upd := GotBoth ?m ?r\<rparr>" ?m ?r] by simp
  have 4: "sys_step (s\<lparr>thread := store_monotonic ?m (thread s), upd := StoredMono ?r\<rparr>)
      (s\<lparr>thread := do_update_time (mono_clock s) (real_clock s) (thread s), upd := Idle\<rparr>)"
    using store_real [of "s\<lparr>thread := store_monotonic ?m (thread s), upd := StoredMono ?r\<rparr>" ?r]
    by (simp add: do_update_time_def)
  have "s\<lparr>thread := do_update_time (mono_clock s) (real_clock s) (thread s), upd := Idle\<rparr> =
      s\<lparr>thread := do_update_time (mono_clock s) (real_clock s) (thread s)\<rparr>" using assms by (cases s) simp
  then show ?thesis using 1 2 3 4 by (metis (no_types, lifting) converse_rtranclp_into_rtranclp rtranclp.rtrancl_refl)
qed

section \<open>Properties\<close>

text \<open>
  Reading through the cache: after an update with valid clock values,
  \<^verbatim>\<open>cached_clock_gettime\<close> returns exactly the sampled times, \<^verbatim>\<open>cached_time\<close> the
  seconds of the real time, and \<^verbatim>\<open>cached_gettimeofday\<close> the real time cut to
  microseconds; a clock whose sample was zero is reported as a failure, a null pointer fails
  the \<^verbatim>\<open>assert\<close>, and any other clock is passed to the system.
\<close>

theorem cached_reads:
  assumes "valid_ts m" "valid_ts r" "0 < ns_of m" "0 < ns_of r"
  shows "cached_clock_gettime sys CLOCK_MONOTONIC (Some old) (do_update_time m r c) = Some (0, m) \<and>
    cached_clock_gettime sys CLOCK_REALTIME (Some old) (do_update_time m r c) = Some (0, r) \<and>
    cached_clock_gettime sys (CLOCK_OTHER k) (Some old) (do_update_time m r c) = Some (sys (CLOCK_OTHER k) old) \<and>
    cached_clock_gettime sys ck None (do_update_time m r c) = None \<and>
    cached_gettimeofday (Some old_tv) (do_update_time m r c) =
      Some (0, \<lparr>tv_sec = ts_sec r, tv_usec = ts_nsec r div 1000\<rparr>) \<and>
    cached_time (Some old_t) (do_update_time m r c) = (ts_sec r, Some (ts_sec r)) \<and>
    cached_gettimeofday (Some old_tv) thread_init = Some (-1, old_tv)"
proof -
  have "ns_of r div 1000000000 = ts_sec r" "ns_of r mod 1000000000 = ts_nsec r"
    using assms(2) by (simp_all add: valid_ts_def ns_of_def)
  then have "to_time_t (transform_timespec r) = ts_sec r"
    "to_timeval (transform_timespec r) = \<lparr>tv_sec = ts_sec r, tv_usec = ts_nsec r div 1000\<rparr>"
    by (simp_all add: to_time_t_def to_timeval_def uint_div_mod_lit tspec.uint_encode [OF assms(2)])
  moreover have "time_monotonic (do_update_time m r c) = transform_timespec m"
    "time_realtime (do_update_time m r c) = transform_timespec r"
    by (simp_all add: do_update_time_def store_realtime_def store_monotonic_def Let_def)
  moreover have "transform_timespec m \<noteq> 0" "transform_timespec r \<noteq> 0" using assms tspec.encode_0 by auto
  ultimately show ?thesis
    using tspec.decode_encode assms
    by (cases ck; simp add: cached_clock_gettime_def cached_gettimeofday_def cached_time_def thread_init_def Let_def)
qed

theorem cached_reads_witness:
  "cached_clock_gettime (\<lambda>_ t. (0, t)) CLOCK_MONOTONIC (Some \<lparr>ts_sec = 0, ts_nsec = 0\<rparr>)
     (do_update_time \<lparr>ts_sec = 5, ts_nsec = 7\<rparr> \<lparr>ts_sec = 1600000000, ts_nsec = 999\<rparr> thread_init) = Some (0, \<lparr>ts_sec = 5, ts_nsec = 7\<rparr>)"
  using cached_reads [of "\<lparr>ts_sec = 5, ts_nsec = 7\<rparr>" "\<lparr>ts_sec = 1600000000, ts_nsec = 999\<rparr>" "\<lambda>_ t. (0, t)"
      "\<lparr>ts_sec = 0, ts_nsec = 0\<rparr>" thread_init 0 CLOCK_REALTIME "\<lparr>tv_sec = 0, tv_usec = 0\<rparr>" 0]
  by (simp add: valid_ts_def ns_of_def)



section \<open>The monitor and the comparison\<close>

definition us_of :: "timeval \<Rightarrow> int" where
  "us_of t = tv_sec t * 1000000 + tv_usec t"

definition norm_tv :: "timeval \<Rightarrow> bool" where
  "norm_tv t \<longleftrightarrow> 0 \<le> tv_usec t \<and> tv_usec t < 1000000"

lemma timer_gt_us: "norm_tv a \<Longrightarrow> norm_tv b \<Longrightarrow> timer_gt a b \<longleftrightarrow> us_of b < us_of a"
  by (auto simp: timer_gt_def us_of_def norm_tv_def)

lemma timersub_ok: "norm_tv a \<Longrightarrow> norm_tv b \<Longrightarrow> norm_tv (timersub a b) \<and> us_of (timersub a b) = us_of a - us_of b"
  by (auto simp: timersub_def us_of_def norm_tv_def Let_def)

lemma usec_mod: "norm_tv t \<Longrightarrow> tv_usec t = us_of t mod 1000000"
  by (simp add: us_of_def norm_tv_def)

definition distance :: "timeval \<times> timeval \<Rightarrow> int" where
  "distance p = \<bar>us_of (fst p) - us_of (snd p)\<bar> mod 1000000"

lemma compare_round_ok:
  assumes "norm_tv (fst p)" "norm_tv (snd p)"
  shows "compare_round p st = \<lparr>max_diff = max (max_diff st) (distance p), sum_diff = sum_diff st + distance p,
    over_10 = over_10 st + (if distance p > 1000 then 1 else 0), over_15 = over_15 st + (if distance p > 1500 then 1 else 0),
    over_20 = over_20 st + (if distance p > 2000 then 1 else 0)\<rparr>"
proof -
  let ?t = "if timer_gt (fst p) (snd p) then timersub (fst p) (snd p) else timersub (snd p) (fst p)"
  have "norm_tv ?t" "us_of ?t = \<bar>us_of (fst p) - us_of (snd p)\<bar>"
    using timersub_ok assms timer_gt_us [OF assms] by auto
  then have "tv_usec ?t = distance p" using usec_mod by (simp add: distance_def)
  then show ?thesis by (simp add: compare_round_def case_prod_unfold Let_def max_def)
qed

lemma compare_fold:
  "\<forall>p \<in> set ps. norm_tv (fst p) \<and> norm_tv (snd p) \<Longrightarrow>
    max_diff (fold compare_round ps st) = fold (\<lambda>p m. max m (distance p)) ps (max_diff st) \<and>
    sum_diff (fold compare_round ps st) = sum_diff st + sum_list (map distance ps) \<and>
    over_10 (fold compare_round ps st) = over_10 st + length (filter (\<lambda>p. distance p > 1000) ps)"
  by (induction ps arbitrary: st) (auto simp: compare_round_ok)

lemma split_second: "(s * 1000000000 + n) div 1000 * 1000 = s * 1000000000 + n div 1000 * (1000 :: int)"
proof -
  have "s * 1000000000 + n = n + s * 1000000 * 1000" by simp
  also have "\<dots> div 1000 = n div 1000 + s * 1000000" by (subst div_mult_self1) simp_all
  finally show ?thesis by (simp add: algebra_simps)
qed

lemma sint_small: "\<bar>k\<bar> < 2 ^ 63 \<Longrightarrow> sint (word_of_int k :: uint64) = k"
  by (simp add: signed_of_int signed_take_bit_int_eq_self)

lemma monitor_alarm:
  assumes "0 \<le> a" "a < 2 ^ 63" "0 \<le> b" "b < 2 ^ 63"
  shows "fst (monitor_round (word_of_int a) (word_of_int b) m) \<longleftrightarrow>
    a < uint (prev_time m) \<or> \<bar>a - b\<bar> \<ge> 1000000"
proof -
  have "sint (word_of_int a - word_of_int b :: uint64) = a - b" using sint_small [of "a - b"] assms by simp
  moreover have "uint (word_of_int a :: uint64) = a" using assms by (simp add: uint_word_of_int)
  ultimately show ?thesis by (simp add: monitor_round_def gCachedNsecTolerance_def Let_def word_less_def)
qed

text \<open>
  The monitors of the program. The one for \<^verbatim>\<open>gettimeofday\<close> warns exactly when the
  cached time went backwards or differs from the system's by a millisecond or more. The one
  for \<^verbatim>\<open>time\<close> compares seconds with the tolerance in nanoseconds: it warns of a
  difference only from a million seconds on. The comparison records the distance of two times
  modulo one second only.
\<close>

theorem monitors_spec:
  assumes c: "0 \<le> ts_sec r" "ts_sec r < 2 ^ 32" "valid_ts r" "ns_of r < 2 ^ 63" "0 < ns_of r" and m: "valid_ts m"
    and s: "0 \<le> sys" "sys < 2 ^ 32" and v: "valid_tv tv" "tv_ns_of tv < 2 ^ 63"
    and p: "\<forall>p \<in> set ps. norm_tv (fst p) \<and> norm_tv (snd p)"
  shows "(fst (test_cached_time (do_update_time m r th) sys mon) \<longleftrightarrow>
      ts_sec r < uint (prev_time mon) \<or> \<bar>ts_sec r - sys\<bar> \<ge> 1000000) \<and>
    (\<exists>alarm rest. test_cached_gettimeofday (do_update_time m r th) (0, tv) mon = Some (Some (alarm, rest)) \<and>
      (alarm \<longleftrightarrow> ns_of r div 1000 * 1000 < uint (prev_time mon) \<or> \<bar>ns_of r div 1000 * 1000 - tv_ns_of tv\<bar> \<ge> 1000000)) \<and>
    max_diff (compare_time_diff ps) = fold (\<lambda>p m. max m (\<bar>us_of (fst p) - us_of (snd p)\<bar> mod 1000000)) ps 0 \<and>
    over_10 (compare_time_diff ps) = length (filter (\<lambda>p. \<bar>us_of (fst p) - us_of (snd p)\<bar> mod 1000000 > 1000) ps)"
proof -
  have rt: "time_realtime (do_update_time m r th) = transform_timespec r"
    by (simp add: do_update_time_def store_realtime_def store_monotonic_def Let_def)
  have u: "uint (transform_timespec r) = ns_of r" by (rule tspec.uint_encode [OF c(3)])
  have sm: "ns_of r div 1000000000 = ts_sec r" "ns_of r mod 1000000000 = ts_nsec r"
    using c(3) by (simp_all add: valid_ts_def ns_of_def)
  have nz: "transform_timespec r \<noteq> 0" using tspec.encode_0 [OF c(3)] c(5) by simp
  have sec: "ucast (word_of_int (ts_sec r) :: 32 word) = (word_of_int (ts_sec r) :: uint64)"
    using c(1,2) by (intro word_uint_eqI) (simp add: uint_word_of_int unsigned_ucast_eq take_bit_eq_mod)
  have t1: "fst (test_cached_time (do_update_time m r th) sys mon) \<longleftrightarrow>
      ts_sec r < uint (prev_time mon) \<or> \<bar>ts_sec r - sys\<bar> \<ge> 1000000"
    using monitor_alarm [of "ts_sec r" sys mon] c(1,2) s
    by (simp add: test_cached_time_def api_time_def cached_time_def Let_def rt to_time_t_def uint_div_mod_lit u sm sec)
  let ?tv = "to_timeval (transform_timespec r)"
  have "transform_timeval ?tv = word_of_int (ns_of r div 1000 * 1000)"
  proof -
    have "tv_ns_of ?tv = ns_of r div 1000 * 1000" unfolding tv_ns_of_def
      by (simp add: to_timeval_def uint_div_mod_lit u sm) (simp add: ns_of_def split_second)
    moreover have "transform_timeval ?tv = word_of_int (tv_ns_of ?tv)" by (simp add: transform_timeval_def tv_ns_of_def)
    ultimately show ?thesis by simp
  qed
  moreover have "transform_timeval tv = word_of_int (tv_ns_of tv)" by (simp add: transform_timeval_def tv_ns_of_def)
  ultimately have t2: "\<exists>alarm rest. test_cached_gettimeofday (do_update_time m r th) (0, tv) mon = Some (Some (alarm, rest)) \<and>
      (alarm \<longleftrightarrow> ns_of r div 1000 * 1000 < uint (prev_time mon) \<or> \<bar>ns_of r div 1000 * 1000 - tv_ns_of tv\<bar> \<ge> 1000000)"
    using monitor_alarm [of "ns_of r div 1000 * 1000" "tv_ns_of tv" mon] c v nz
    by (cases "monitor_round (word_of_int (ns_of r div 1000 * 1000)) (word_of_int (tv_ns_of tv)) mon")
      (simp add: test_cached_gettimeofday_def api_gettimeofday_def cached_gettimeofday_def rt Let_def valid_tv_def tv_ns_of_def)
  show ?thesis
    using t1 t2 compare_fold [OF p, of stats_init]
    by (simp add: compare_time_diff_def stats_init_def distance_def)
qed

theorem monitors_spec_witness:
  "fst (test_cached_time (do_update_time \<lparr>ts_sec = 1, ts_nsec = 0\<rparr> \<lparr>ts_sec = 1000000, ts_nsec = 0\<rparr> thread_init) 1 monitor_init) = False"
  using monitors_spec [of "\<lparr>ts_sec = 1000000, ts_nsec = 0\<rparr>" "\<lparr>ts_sec = 1, ts_nsec = 0\<rparr>" 1 "\<lparr>tv_sec = 0, tv_usec = 0\<rparr>" "[]"
      thread_init monitor_init]
  by (simp add: valid_ts_def ns_of_def valid_tv_def tv_ns_of_def monitor_init_def)

end
