(* ===== verification/TimeCacheRw.thy ===== *)
theory TimeCacheRw
  imports TimeCache
begin

text \<open>
  \<^verbatim>\<open>cpp/cpp_language/old/gettimeofday/rwlock_time_cache.cpp\<close>: the time cache that keeps
  the three system times as structures behind read-write locks. The functions are modelled as
  functions of the cached structures; the locking is modelled as a step relation in which a
  structure is written and read one field at a time, so that an unlocked access would be able
  to see half of an update.
\<close>

section \<open>The cached structures and the functions\<close>

record rw_thread =
  rw_tv :: timeval
  rw_monotonic :: timespec
  rw_realtime :: timespec
  update_time_cnt :: uint64

definition rw_do_update_time :: "timeval \<Rightarrow> timespec \<Rightarrow> timespec \<Rightarrow> rw_thread \<Rightarrow> rw_thread" where
  "rw_do_update_time now_tv now_real now_mono c =
     c\<lparr>rw_tv := now_tv, rw_realtime := now_real, rw_monotonic := now_mono\<rparr>"

text \<open>One round of the thread: an update, a sleep in every tenth round, the counter.\<close>

definition rw_run_round :: "timeval \<Rightarrow> timespec \<Rightarrow> timespec \<Rightarrow> rw_thread \<Rightarrow> bool \<times> rw_thread" where
  "rw_run_round now_tv now_real now_mono c =
     (let c = rw_do_update_time now_tv now_real now_mono c
      in (update_time_cnt c mod 10 = 0, c\<lparr>update_time_cnt := update_time_cnt c + 1\<rparr>))"

definition rw_cached_time :: "int option \<Rightarrow> rw_thread \<Rightarrow> int \<times> int option" where
  "rw_cached_time timer c = (let t = tv_sec (rw_tv c) in (t, map_option (\<lambda>_. t) timer))"

definition rw_cached_gettimeofday :: "timeval option \<Rightarrow> rw_thread \<Rightarrow> (int \<times> timeval) ub" where
  "rw_cached_gettimeofday tv c = (case tv of None \<Rightarrow> None | Some _ \<Rightarrow> Some (0, rw_tv c))"

definition rw_cached_clock_gettime ::
    "(clockid \<Rightarrow> timespec \<Rightarrow> int \<times> timespec) \<Rightarrow> clockid \<Rightarrow> timespec option \<Rightarrow> rw_thread \<Rightarrow> (int \<times> timespec) ub" where
  "rw_cached_clock_gettime sys clock_id tp c =
     (case tp of
        None \<Rightarrow> None
      | Some old \<Rightarrow>
          if clock_id = CLOCK_REALTIME then Some (0, rw_realtime c)
          else if clock_id = CLOCK_MONOTONIC then Some (0, rw_monotonic c)
          else Some (sys clock_id old))"

definition rw_api_time :: "bool \<Rightarrow> (int option \<Rightarrow> int \<times> int option) \<Rightarrow> int option \<Rightarrow> rw_thread \<Rightarrow> 32 word \<times> int option" where
  "rw_api_time use_cache sys timer c =
     (let (t, p) = (if use_cache then rw_cached_time timer c else sys timer) in (word_of_int t, p))"

definition rw_api_gettimeofday :: "bool \<Rightarrow> (timeval option \<Rightarrow> (int \<times> timeval) ub) \<Rightarrow> timeval option \<Rightarrow> rw_thread \<Rightarrow> (int \<times> timeval) ub" where
  "rw_api_gettimeofday use_cache sys tv c = (if use_cache then rw_cached_gettimeofday tv c else sys tv)"

definition rw_api_clock_gettime ::
    "bool \<Rightarrow> (clockid \<Rightarrow> timespec \<Rightarrow> int \<times> timespec) \<Rightarrow> clockid \<Rightarrow> timespec option \<Rightarrow> rw_thread \<Rightarrow> (int \<times> timespec) ub" where
  "rw_api_clock_gettime use_cache sys clock_id tp c =
     (if use_cache then rw_cached_clock_gettime sys clock_id tp c else map_option (sys clock_id) tp)"

section \<open>The interface of a time cache\<close>

text \<open>
  What a client of either cache relies on: after an update, the cached clocks answer with the
  sampled values.
\<close>

locale cached_clock =
  fixes update :: "timespec \<Rightarrow> timespec \<Rightarrow> 'c \<Rightarrow> 'c"
    and read_clock :: "clockid \<Rightarrow> timespec option \<Rightarrow> 'c \<Rightarrow> (int \<times> timespec) ub"
    and accepts :: "timespec \<Rightarrow> bool"
  assumes read_mono: "accepts m \<Longrightarrow> accepts r \<Longrightarrow> read_clock CLOCK_MONOTONIC (Some old) (update m r c) = Some (0, m)"
    and read_real: "accepts m \<Longrightarrow> accepts r \<Longrightarrow> read_clock CLOCK_REALTIME (Some old) (update m r c) = Some (0, r)"
    and read_null: "read_clock k None c = None"
begin

text \<open>A sequence of updates: the last one counts.\<close>

lemma read_after_updates:
  "\<forall>(m, r) \<in> set us. accepts m \<and> accepts r \<Longrightarrow> us \<noteq> [] \<Longrightarrow>
    read_clock CLOCK_MONOTONIC (Some old) (fold (\<lambda>(m, r). update m r) us c) = Some (0, fst (last us)) \<and>
    read_clock CLOCK_REALTIME (Some old) (fold (\<lambda>(m, r). update m r) us c) = Some (0, snd (last us))"
  by (induction us rule: rev_induct) (auto simp: read_mono read_real)

end

definition usable_ts :: "timespec \<Rightarrow> bool" where
  "usable_ts t \<longleftrightarrow> valid_ts t \<and> 0 < ns_of t"

lemma cas_update_fields [simp]:
  "time_monotonic (do_update_time m r c) = transform_timespec m"
  "time_realtime (do_update_time m r c) = transform_timespec r"
  by (simp_all add: do_update_time_def store_realtime_def store_monotonic_def Let_def)

interpretation cas: cached_clock do_update_time "cached_clock_gettime sys" usable_ts for sys
proof unfold_locales
  fix m r old :: timespec and c
  assume "usable_ts m" "usable_ts r"
  then have "transform_timespec m \<noteq> 0" "transform_timespec r \<noteq> 0" "to_timespec (transform_timespec m) = m"
    "to_timespec (transform_timespec r) = r"
    using tspec.encode_0 tspec.decode_encode by (auto simp: usable_ts_def)
  then show "cached_clock_gettime sys CLOCK_MONOTONIC (Some old) (do_update_time m r c) = Some (0, m)"
    "cached_clock_gettime sys CLOCK_REALTIME (Some old) (do_update_time m r c) = Some (0, r)"
    by (simp_all add: cached_clock_gettime_def)
qed (simp add: cached_clock_gettime_def)

interpretation rw: cached_clock "\<lambda>m r. rw_do_update_time tv r m" "rw_cached_clock_gettime sys" "\<lambda>_. True" for tv sys
  by unfold_locales (simp_all add: rw_cached_clock_gettime_def rw_do_update_time_def)

section \<open>The locks\<close>

datatype cell = TV | TP_REAL | TP_MONO

datatype rwlock = Free | Readers "nat set" | Writing

datatype wphase = WWait | WLocked | WHalf int int | WDone

datatype rphase = RIdle | RWait cell | RLocked cell | RHalf cell int | RDone cell int int

fun next_cell :: "cell \<Rightarrow> cell" where
  "next_cell TV = TP_REAL"
| "next_cell TP_REAL = TP_MONO"
| "next_cell TP_MONO = TV"

record rw_system =
  locks :: "cell \<Rightarrow> rwlock"
  mem :: "cell \<Rightarrow> int \<times> int"
  wcell :: cell
  wphase :: wphase
  readers :: "nat \<Rightarrow> rphase"
  written :: "cell \<Rightarrow> (int \<times> int) set"
  got :: "nat \<Rightarrow> (cell \<times> int \<times> int) list"

definition release_read :: "nat \<Rightarrow> rwlock \<Rightarrow> rwlock" where
  "release_read i l = (case l of Readers R \<Rightarrow> if R - {i} = {} then Free else Readers (R - {i}) | _ \<Rightarrow> l)"

inductive rw_step :: "rw_system \<Rightarrow> rw_system \<Rightarrow> bool" where
  w_lock: "wphase s = WWait \<Longrightarrow> locks s (wcell s) = Free \<Longrightarrow>
    rw_step s (s\<lparr>locks := (locks s)(wcell s := Writing), wphase := WLocked\<rparr>)"
| w_first: "wphase s = WLocked \<Longrightarrow>
    rw_step s (s\<lparr>mem := (mem s)(wcell s := (a, snd (mem s (wcell s)))), wphase := WHalf a b\<rparr>)"
| w_second: "wphase s = WHalf a b \<Longrightarrow>
    rw_step s (s\<lparr>mem := (mem s)(wcell s := (fst (mem s (wcell s)), b)), wphase := WDone,
      written := (written s)(wcell s := insert (a, b) (written s (wcell s)))\<rparr>)"
| w_unlock: "wphase s = WDone \<Longrightarrow>
    rw_step s (s\<lparr>locks := (locks s)(wcell s := Free), wphase := WWait, wcell := next_cell (wcell s)\<rparr>)"
| r_start: "readers s i = RIdle \<Longrightarrow> rw_step s (s\<lparr>readers := (readers s)(i := RWait c)\<rparr>)"
| r_lock_first: "readers s i = RWait c \<Longrightarrow> locks s c = Free \<Longrightarrow>
    rw_step s (s\<lparr>locks := (locks s)(c := Readers {i}), readers := (readers s)(i := RLocked c)\<rparr>)"
| r_lock_more: "readers s i = RWait c \<Longrightarrow> locks s c = Readers R \<Longrightarrow>
    rw_step s (s\<lparr>locks := (locks s)(c := Readers (insert i R)), readers := (readers s)(i := RLocked c)\<rparr>)"
| r_first: "readers s i = RLocked c \<Longrightarrow> rw_step s (s\<lparr>readers := (readers s)(i := RHalf c (fst (mem s c)))\<rparr>)"
| r_second: "readers s i = RHalf c a \<Longrightarrow> rw_step s (s\<lparr>readers := (readers s)(i := RDone c a (snd (mem s c)))\<rparr>)"
| r_unlock: "readers s i = RDone c a b \<Longrightarrow>
    rw_step s (s\<lparr>locks := (locks s)(c := release_read i (locks s c)), readers := (readers s)(i := RIdle),
      got := (got s)(i := (c, a, b) # got s i)\<rparr>)"

definition rw_init :: "(cell \<Rightarrow> int \<times> int) \<Rightarrow> rw_system" where
  "rw_init m = \<lparr>locks = (\<lambda>_. Free), mem = m, wcell = TV, wphase = WWait, readers = (\<lambda>_. RIdle),
     written = (\<lambda>c. {m c}), got = (\<lambda>_. [])\<rparr>"

text \<open>Which cell a reader holds, and the invariant.\<close>

fun holds :: "rphase \<Rightarrow> cell option" where
  "holds (RLocked c) = Some c"
| "holds (RHalf c a) = Some c"
| "holds (RDone c a b) = Some c"
| "holds _ = None"

fun half_ok :: "int \<times> int \<Rightarrow> rphase \<Rightarrow> bool" where
  "half_ok m (RHalf c a) = (a = fst m)"
| "half_ok m (RDone c a b) = ((a, b) = m)"
| "half_ok m _ = True"

definition writer_inv :: "rw_system \<Rightarrow> bool" where
  "writer_inv s \<longleftrightarrow> (\<forall>c. locks s c = Writing \<longleftrightarrow> wcell s = c \<and> wphase s \<noteq> WWait)"

definition reader_inv :: "rw_system \<Rightarrow> bool" where
  "reader_inv s \<longleftrightarrow> (\<forall>i c. holds (readers s i) = Some c \<longrightarrow> (\<exists>R. locks s c = Readers R \<and> i \<in> R))"

definition half_inv :: "rw_system \<Rightarrow> bool" where
  "half_inv s \<longleftrightarrow> (\<forall>i c. holds (readers s i) = Some c \<longrightarrow> half_ok (mem s c) (readers s i))"

definition mem_inv :: "rw_system \<Rightarrow> bool" where
  "mem_inv s \<longleftrightarrow> (\<forall>c. locks s c \<noteq> Writing \<or> wphase s = WDone \<longrightarrow> mem s c \<in> written s c) \<and>
     (\<forall>a b. wphase s = WHalf a b \<longrightarrow> fst (mem s (wcell s)) = a)"

definition got_inv :: "rw_system \<Rightarrow> bool" where
  "got_inv s \<longleftrightarrow> (\<forall>i. \<forall>(c, p) \<in> set (got s i). p \<in> written s c)"

definition rw_inv :: "rw_system \<Rightarrow> bool" where
  "rw_inv s \<longleftrightarrow> writer_inv s \<and> reader_inv s \<and> half_inv s \<and> mem_inv s \<and> got_inv s"

lemma rw_inv_init: "rw_inv (rw_init m)"
  by (simp add: rw_inv_def rw_init_def writer_inv_def reader_inv_def half_inv_def mem_inv_def got_inv_def)

text \<open>A writer in its cell and a reader in the same cell exclude each other.\<close>

lemma not_held_by_reader:
  assumes "writer_inv s" "reader_inv s" "wphase s \<noteq> WWait"
  shows "holds (readers s i) \<noteq> Some (wcell s)"
proof
  assume "holds (readers s i) = Some (wcell s)"
  then obtain R where "locks s (wcell s) = Readers R" using assms(2) unfolding reader_inv_def by blast
  moreover have "locks s (wcell s) = Writing" using assms(1,3) by (simp add: writer_inv_def)
  ultimately show False by simp
qed

lemma release_read_Writing [simp]: "release_read i l = Writing \<longleftrightarrow> l = Writing"
  by (auto simp: release_read_def split: rwlock.splits)

lemma release_read_others: "l = Readers R \<Longrightarrow> j \<in> R \<Longrightarrow> j \<noteq> i \<Longrightarrow> release_read i l = Readers (R - {i}) \<and> j \<in> R - {i}"
  by (auto simp: release_read_def)

lemma next_cell_neq [simp]: "next_cell c \<noteq> c"
  by (cases c) auto

lemma writer_inv_step: "rw_step s s' \<Longrightarrow> writer_inv s \<Longrightarrow> writer_inv s'"
proof (induction rule: rw_step.induct)
  case (r_lock_first s i c)
  then have "\<not> (wcell s = c \<and> wphase s \<noteq> WWait)" unfolding writer_inv_def by (metis rwlock.distinct(3))
  then show ?case using r_lock_first by (auto simp: writer_inv_def)
next
  case (r_lock_more s i c R)
  then have "\<not> (wcell s = c \<and> wphase s \<noteq> WWait)" unfolding writer_inv_def by (metis rwlock.distinct(5))
  then show ?case using r_lock_more by (auto simp: writer_inv_def)
qed (auto simp: writer_inv_def)

lemma reader_inv_step:
  assumes "rw_step s s'" "writer_inv s" "reader_inv s"
  shows "reader_inv s'"
  using assms
proof (induction rule: rw_step.induct)
  case (w_lock s)
  then show ?case by (force simp: reader_inv_def)
next
  case (w_unlock s)
  have "holds (readers s i) \<noteq> Some (wcell s)" for i using not_held_by_reader w_unlock by simp
  then show ?case using w_unlock by (simp add: reader_inv_def)
next
  case (r_lock_first s i c)
  have "holds (readers s j) \<noteq> Some c" for j using r_lock_first by (force simp: reader_inv_def)
  then show ?case using r_lock_first by (simp add: reader_inv_def)
next
  case (r_lock_more s i c R)
  show ?case
    unfolding reader_inv_def
  proof (intro allI impI)
    fix j c'
    assume "holds (readers (s\<lparr>locks := (locks s)(c := Readers (insert i R)), readers := (readers s)(i := RLocked c)\<rparr>) j) = Some c'"
    then show "\<exists>R'. locks (s\<lparr>locks := (locks s)(c := Readers (insert i R)), readers := (readers s)(i := RLocked c)\<rparr>) c' = Readers R' \<and> j \<in> R'"
      using r_lock_more unfolding reader_inv_def by (cases "j = i"; cases "c' = c") fastforce+
  qed
next
  case (r_unlock s i c a b)
  show ?case
    unfolding reader_inv_def
  proof (intro allI impI)
    fix j c' assume h: "holds (readers (s\<lparr>locks := (locks s)(c := release_read i (locks s c)), readers := (readers s)(i := RIdle),
      got := (got s)(i := (c, a, b) # got s i)\<rparr>) j) = Some c'"
    then have ji: "j \<noteq> i" and hj: "holds (readers s j) = Some c'" by (auto split: if_splits)
    then obtain R where "locks s c' = Readers R" "j \<in> R" using r_unlock unfolding reader_inv_def by blast
    then show "\<exists>R. locks (s\<lparr>locks := (locks s)(c := release_read i (locks s c)), readers := (readers s)(i := RIdle),
      got := (got s)(i := (c, a, b) # got s i)\<rparr>) c' = Readers R \<and> j \<in> R"
      using release_read_others [of "locks s c'" R j i] ji by (cases "c' = c") auto
  qed
qed (auto simp: reader_inv_def)

lemma half_inv_step:
  assumes "rw_step s s'" "writer_inv s" "reader_inv s" "half_inv s"
  shows "half_inv s'"
  using assms
proof (induction rule: rw_step.induct)
  case (w_first s a b)
  have "holds (readers s i) \<noteq> Some (wcell s)" for i using not_held_by_reader w_first by simp
  then show ?case using w_first by (auto simp: half_inv_def)
next
  case (w_second s a b)
  have "holds (readers s i) \<noteq> Some (wcell s)" for i using not_held_by_reader w_second by simp
  then show ?case using w_second by (auto simp: half_inv_def)
next
  case (r_second s i c a)
  have "a = fst (mem s c)" using r_second unfolding half_inv_def by (metis half_ok.simps(1) holds.simps(2))
  then show ?case using r_second by (simp add: half_inv_def)
qed (auto simp: half_inv_def)

lemma mem_inv_step:
  assumes "rw_step s s'" "writer_inv s" "mem_inv s"
  shows "mem_inv s'"
  using assms
proof (induction rule: rw_step.induct)
  case (w_second s a b)
  have "mem s c \<in> written s c" if "c \<noteq> wcell s" for c
    using w_second that by (simp add: mem_inv_def writer_inv_def)
  moreover have "fst (mem s (wcell s)) = a" using w_second by (simp add: mem_inv_def)
  ultimately show ?case by (auto simp: mem_inv_def)
next
  case (r_lock_first s i c)
  then have "mem s c \<in> written s c" by (simp add: mem_inv_def)
  then show ?case using r_lock_first by (auto simp: mem_inv_def)
next
  case (r_lock_more s i c R)
  then have "mem s c \<in> written s c" by (simp add: mem_inv_def)
  then show ?case using r_lock_more by (auto simp: mem_inv_def)
qed (auto simp: mem_inv_def writer_inv_def)

lemma got_inv_step:
  assumes "rw_step s s'" "writer_inv s" "reader_inv s" "half_inv s" "mem_inv s" "got_inv s"
  shows "got_inv s'"
  using assms
proof (induction rule: rw_step.induct)
  case (w_second s a b)
  then show ?case by (fastforce simp: got_inv_def)
next
  case (r_unlock s i c a b)
  have "(a, b) = mem s c" using r_unlock unfolding half_inv_def by (metis half_ok.simps(2) holds.simps(3))
  moreover have "locks s c \<noteq> Writing" using r_unlock unfolding reader_inv_def by (metis holds.simps(3) rwlock.distinct(6))
  ultimately have "(a, b) \<in> written s c" using r_unlock by (simp add: mem_inv_def)
  then show ?case using r_unlock by (auto simp: got_inv_def)
qed (auto simp: got_inv_def)

lemma rw_inv_step: "rw_step s s' \<Longrightarrow> rw_inv s \<Longrightarrow> rw_inv s'"
  using writer_inv_step reader_inv_step half_inv_step mem_inv_step got_inv_step by (simp add: rw_inv_def)

lemma rw_inv_reach: "rw_step\<^sup>*\<^sup>* s s' \<Longrightarrow> rw_inv s \<Longrightarrow> rw_inv s'"
  by (induction rule: rtranclp_induct) (auto intro: rw_inv_step)

section \<open>Properties\<close>

text \<open>
  C18. Under the read-write locks no read is torn: whatever the interleaving of the updating
  thread with any number of readers, every pair of fields a reader has copied is a pair that
  the updater (or the initialisation) has written as a whole, and a reader never holds a cell
  while the updater writes it.
\<close>

theorem rwlock_no_torn_reads:
  assumes "rw_step\<^sup>*\<^sup>* (rw_init m) s"
  shows "(\<forall>i c a b. (c, a, b) \<in> set (got s i) \<longrightarrow> (a, b) \<in> written s c) \<and>
    (\<forall>i. wphase s \<noteq> WWait \<longrightarrow> holds (readers s i) \<noteq> Some (wcell s))"
  using rw_inv_reach [OF assms rw_inv_init] not_held_by_reader by (fastforce simp: rw_inv_def got_inv_def)

theorem rwlock_no_torn_reads_witness:
  "\<exists>s. rw_step\<^sup>*\<^sup>* (rw_init (\<lambda>_. (1, 2))) s \<and> readers s 0 = RWait TV \<and>
     (\<forall>i. wphase s \<noteq> WWait \<longrightarrow> holds (readers s i) \<noteq> Some (wcell s))"
proof -
  let ?s = "(rw_init (\<lambda>_. (1, 2)))\<lparr>readers := (readers (rw_init (\<lambda>_. (1, 2))))(0 := RWait TV)\<rparr>"
  have "rw_step\<^sup>*\<^sup>* (rw_init (\<lambda>_. (1, 2))) ?s"
    using r_start [of "rw_init (\<lambda>_. (1, 2))" 0 TV] by (simp add: rw_init_def)
  then show ?thesis using rwlock_no_torn_reads [of "\<lambda>_. (1, 2)" ?s] by (intro exI [of _ ?s]) simp
qed

text \<open>
  Both caches keep the contract of a cached clock: after any sequence of updates with
  usable clock values the two cached clocks answer with the values of the last update.
\<close>

theorem caches_read_last_update:
  assumes "us \<noteq> []" "\<forall>(m, r) \<in> set us. usable_ts m \<and> usable_ts r"
  shows "cached_clock_gettime sys CLOCK_MONOTONIC (Some old) (thread_run us c) = Some (0, fst (last us)) \<and>
    cached_clock_gettime sys CLOCK_REALTIME (Some old) (thread_run us c) = Some (0, snd (last us)) \<and>
    rw_cached_clock_gettime sys CLOCK_MONOTONIC (Some old) (fold (\<lambda>(m, r). rw_do_update_time tv r m) us d) =
      Some (0, fst (last us)) \<and>
    rw_cached_clock_gettime sys CLOCK_REALTIME (Some old) (fold (\<lambda>(m, r). rw_do_update_time tv r m) us d) =
      Some (0, snd (last us))"
  using cas.read_after_updates [OF assms(2,1)] rw.read_after_updates [of us sys old tv] assms by (simp add: thread_run_def)

theorem caches_read_last_update_witness:
  "cached_clock_gettime (\<lambda>_ t. (0, t)) CLOCK_REALTIME (Some \<lparr>ts_sec = 0, ts_nsec = 0\<rparr>)
     (thread_run [(\<lparr>ts_sec = 1, ts_nsec = 0\<rparr>, \<lparr>ts_sec = 5, ts_nsec = 6\<rparr>)] thread_init) = Some (0, \<lparr>ts_sec = 5, ts_nsec = 6\<rparr>)"
  using caches_read_last_update [of "[(\<lparr>ts_sec = 1, ts_nsec = 0\<rparr>, \<lparr>ts_sec = 5, ts_nsec = 6\<rparr>)]" "\<lambda>_ t. (0, t)"
      "\<lparr>ts_sec = 0, ts_nsec = 0\<rparr>" thread_init]
  by (simp add: usable_ts_def valid_ts_def ns_of_def)

end
