(* ===== verification/MemPool.thy ===== *)
theory MemPool
  imports Cpp_Prelude
begin

text \<open>
  The fixed-size memory pools of \<^verbatim>\<open>cpp/memory/MemPool.cpp\<close> and
  \<^verbatim>\<open>cpp/memory/MemPool2.cpp\<close>. An address is a block number and a position in the block;
  the heap maps the address of a node to its \<^verbatim>\<open>pNext\<close> field, which is itself a pointer
  that may be null. Reading the field of an address that is not a node is undefined. The pool
  hands out the nodes of a free list that is threaded through the nodes themselves; \<open>N\<close> is
  the template parameter \<^verbatim>\<open>NumofObjects\<close>.
\<close>

section \<open>The pools\<close>

type_synonym addr = "nat \<times> nat"

record pool =
  heap :: "addr \<Rightarrow> addr option option"
  header :: "addr option"
  next_block :: nat
  blocks :: "nat list"

text \<open>The loop that threads the nodes of a new block.\<close>

fun link_loop :: "nat \<Rightarrow> nat \<Rightarrow> nat \<Rightarrow> (addr \<Rightarrow> addr option option) \<Rightarrow> (addr \<Rightarrow> addr option option)" where
  "link_loop b i 0 h = h"
| "link_loop b i (Suc n) h = link_loop b (Suc i) n (h((b, i) \<mapsto> Some (b, Suc i)))"

definition new_nodes :: "nat \<Rightarrow> pool \<Rightarrow> pool ub" where
  "new_nodes N s =
     (if N = 0 then None
      else let b = next_block s;
               h = (link_loop b 0 (N - 1) (heap s))((b, N - 1) \<mapsto> None)
           in Some (s\<lparr>heap := h, header := Some (b, 0), next_block := Suc b\<rparr>))"

definition null_pool :: pool where
  "null_pool = \<lparr>heap = Map.empty, header = None, next_block = 0, blocks = []\<rparr>"

text \<open>The first pool allocates its first block in the constructor.\<close>

definition pool1_new :: "nat \<Rightarrow> pool ub" where
  "pool1_new N = new_nodes N null_pool"

definition pool1_malloc :: "nat \<Rightarrow> pool \<Rightarrow> (addr \<times> pool) ub" where
  "pool1_malloc N s = do {
     s \<leftarrow> (if header s = None then new_nodes N s else Some s);
     ret \<leftarrow> header s;
     nxt \<leftarrow> heap s ret;
     Some (ret, s\<lparr>header := nxt, heap := (heap s)(ret \<mapsto> None)\<rparr>)
   }"

definition pool_free :: "addr \<Rightarrow> pool \<Rightarrow> pool ub" where
  "pool_free p s = (if heap s p = None then None else Some (s\<lparr>heap := (heap s)(p \<mapsto> header s), header := Some p\<rparr>))"

text \<open>
  Its destructor calls \<^verbatim>\<open>delete[]\<close> on the head of the free list, which is defined for
  null and for the start of a block only; the result is the block that is freed.
\<close>

definition pool1_destroy :: "pool \<Rightarrow> nat option ub" where
  "pool1_destroy s = (case header s of None \<Rightarrow> Some None | Some (b, i) \<Rightarrow> if i = 0 then Some (Some b) else None)"

text \<open>The second pool keeps the list of its blocks.\<close>

definition pool2_new :: pool where
  "pool2_new = null_pool"

definition pool2_malloc :: "nat \<Rightarrow> pool \<Rightarrow> (addr \<times> pool) ub" where
  "pool2_malloc N s = do {
     s \<leftarrow> (if header s = None
          then do { s' \<leftarrow> new_nodes N s; Some (s'\<lparr>blocks := next_block s # blocks s\<rparr>) }
          else Some s);
     ret \<leftarrow> header s;
     nxt \<leftarrow> heap s ret;
     Some (ret, s\<lparr>header := nxt\<rparr>)
   }"

definition pool2_free :: "addr \<Rightarrow> pool \<Rightarrow> pool ub" where
  "pool2_free p s = (if heap s p = None then None else Some (s\<lparr>heap := (heap s)(p \<mapsto> header s), header := Some p\<rparr>))"

fun destroy_loop :: "nat list \<Rightarrow> nat list" where
  "destroy_loop [] = []"
| "destroy_loop (b # bs) = b # destroy_loop bs"

definition pool2_destroy :: "pool \<Rightarrow> nat list" where
  "pool2_destroy s = destroy_loop (blocks s)"

text \<open>The objects that the two programs create, by address.\<close>

fun malloc_many :: "(pool \<Rightarrow> (addr \<times> pool) ub) \<Rightarrow> nat \<Rightarrow> pool \<Rightarrow> (addr list \<times> pool) ub" where
  "malloc_many m 0 s = Some ([], s)"
| "malloc_many m (Suc n) s = do { (a, s) \<leftarrow> m s; (as, s) \<leftarrow> malloc_many m n s; Some (a # as, s) }"

definition pool1_main :: "(addr list \<times> nat option) ub" where
  "pool1_main = do {
     s \<leftarrow> pool1_new 5;
     (as, s) \<leftarrow> malloc_many (pool1_malloc 5) 3 s;
     (p1, s) \<leftarrow> pool1_malloc 5 s;
     (p2, s) \<leftarrow> pool1_malloc 5 s;
     s \<leftarrow> pool_free p1 s;
     (p3, s) \<leftarrow> pool1_malloc 5 s;
     d \<leftarrow> pool1_destroy s;
     Some (as @ [p1, p2, p3], d)
   }"

definition pool2_main :: "(addr list \<times> nat list) ub" where
  "pool2_main = do {
     (p1, s) \<leftarrow> pool2_malloc 2 pool2_new;
     (p2, s) \<leftarrow> pool2_malloc 2 s;
     s \<leftarrow> pool2_free p1 s;
     (q1, s) \<leftarrow> pool2_malloc 2 s;
     (p3, s) \<leftarrow> pool2_malloc 2 s;
     s \<leftarrow> pool2_free q1 s;
     s \<leftarrow> pool2_free p2 s;
     s \<leftarrow> pool2_free p3 s;
     Some ([p1, p2, q1, p3], pool2_destroy s)
   }"

section \<open>The free list\<close>

fun chain :: "(addr \<Rightarrow> addr option option) \<Rightarrow> addr option \<Rightarrow> addr list \<Rightarrow> bool" where
  "chain h p [] \<longleftrightarrow> p = None"
| "chain h p (a # as) \<longleftrightarrow> p = Some a \<and> (\<exists>q. h a = Some q \<and> chain h q as)"

definition nodes_of :: "nat \<Rightarrow> nat \<Rightarrow> addr set" where
  "nodes_of N k = {(b, i). b < k \<and> i < N}"

text \<open>The free nodes and the ones handed out are the nodes of all blocks, each exactly once.\<close>

definition pool_inv :: "nat \<Rightarrow> pool \<Rightarrow> addr set \<Rightarrow> bool" where
  "pool_inv N s live \<longleftrightarrow> (\<exists>xs. chain (heap s) (header s) xs \<and> distinct xs \<and> set xs \<inter> live = {} \<and>
     set xs \<union> live = nodes_of N (next_block s)) \<and> dom (heap s) = nodes_of N (next_block s)"

lemma chain_upd: "a \<notin> set xs \<Longrightarrow> chain (h(a \<mapsto> q)) p xs = chain h p xs"
  by (induction xs arbitrary: p) auto

lemma chain_upd_block: "\<forall>x \<in> set xs. fst x \<noteq> b \<Longrightarrow> chain (link_loop b i n h) p xs = chain h p xs"
proof (induction n arbitrary: i h)
  case (Suc n)
  have "(b, i) \<notin> set xs" using Suc.prems by auto
  then show ?case using Suc by (simp add: chain_upd)
qed simp

lemma link_loop_nth: "link_loop b i n h (b', j) = (if b' = b \<and> i \<le> j \<and> j < i + n then Some (Some (b, Suc j)) else h (b', j))"
  by (induction n arbitrary: i h) auto

lemma chain_block:
  "n + i = m \<Longrightarrow> (\<forall>j. i \<le> j \<and> j < m \<longrightarrow> h (b, j) = Some (Some (b, Suc j))) \<Longrightarrow> h (b, m) = Some None \<Longrightarrow>
    chain h (Some (b, i)) (map (Pair b) [i..<Suc m])"
proof (induction n arbitrary: i)
  case (Suc n)
  have "[i..<Suc m] = i # [Suc i..<Suc m]" using Suc.prems(1) by (simp add: upt_conv_Cons)
  moreover have "chain h (Some (b, Suc i)) (map (Pair b) [Suc i..<Suc m])" using Suc by simp
  moreover have "h (b, i) = Some (Some (b, Suc i))" using Suc.prems by simp
  ultimately show ?case by simp
qed simp

lemma new_nodes_ok:
  assumes N: "0 < N" and inv: "pool_inv N s live" and h: "header s = None"
  shows "\<exists>s'. new_nodes N s = Some s' \<and> pool_inv N s' live \<and> header s' \<noteq> None \<and> next_block s' = Suc (next_block s)"
proof -
  let ?b = "next_block s"
  let ?h = "(link_loop ?b 0 (N - 1) (heap s))((?b, N - 1) \<mapsto> None)"
  let ?xs = "map (Pair ?b) [0..<Suc (N - 1)]"
  have live: "live = nodes_of N ?b" and dom: "dom (heap s) = nodes_of N ?b"
    using inv h by (auto simp: pool_inv_def elim: chain.elims)
  have c: "chain ?h (Some (?b, 0)) ?xs"
    by (rule chain_block [where n = "N - 1"]) (auto simp: link_loop_nth)
  have set: "set ?xs = {(b, i). b = ?b \<and> i < N}" using N by (auto simp: Suc_diff_1)
  have union: "set ?xs \<union> live = nodes_of N (Suc ?b)"
    unfolding set live by (auto simp: nodes_of_def less_Suc_eq)
  have "dom ?h = set ?xs \<union> dom (heap s)"
    unfolding set using N by (auto simp: link_loop_nth dom_def split: if_splits)
  then have "dom ?h = nodes_of N (Suc ?b)" using union live dom by simp
  moreover have "distinct ?xs" by (simp add: distinct_map inj_on_def del: upt_Suc)
  moreover have "set ?xs \<inter> live = {}" unfolding set live by (auto simp: nodes_of_def)
  ultimately have "pool_inv N (s\<lparr>heap := ?h, header := Some (?b, 0), next_block := Suc ?b\<rparr>) live"
    using c union unfolding pool_inv_def by (intro conjI exI [of _ ?xs]) simp_all
  then show ?thesis using N by (simp add: new_nodes_def Let_def)
qed

lemma take_head:
  assumes inv: "pool_inv N s live" and h: "header s = Some a"
  shows "\<exists>q. heap s a = Some q \<and> a \<notin> live \<and> a \<in> nodes_of N (next_block s) \<and>
    pool_inv N (s\<lparr>header := q\<rparr>) (insert a live) \<and> pool_inv N (s\<lparr>header := q, heap := (heap s)(a \<mapsto> None)\<rparr>) (insert a live)"
proof -
  obtain xs where xs: "chain (heap s) (header s) xs" "distinct xs" "set xs \<inter> live = {}"
    "set xs \<union> live = nodes_of N (next_block s)"
    using inv by (auto simp: pool_inv_def)
  obtain ys q where ys: "xs = a # ys" "heap s a = Some q" "chain (heap s) q ys"
    using xs(1) h by (cases xs) auto
  have "chain ((heap s)(a \<mapsto> None)) q ys" using ys xs(2) by (simp add: chain_upd)
  moreover have "a \<in> dom (heap s)" using ys by blast
  ultimately show ?thesis
    using ys xs inv unfolding pool_inv_def by (auto intro!: exI [of _ ys])
qed

lemma pool_inv_blocks: "pool_inv N (s\<lparr>blocks := bs\<rparr>) live = pool_inv N s live"
  by (simp add: pool_inv_def)

lemma pool1_malloc_ok:
  assumes "0 < N" "pool_inv N s live"
  shows "\<exists>a s'. pool1_malloc N s = Some (a, s') \<and> a \<notin> live \<and> pool_inv N s' (insert a live)"
proof -
  obtain t where t: "(if header s = None then new_nodes N s else Some s) = Some t" "pool_inv N t live" "header t \<noteq> None"
    using new_nodes_ok [OF assms] assms(2) by (cases "header s") auto
  then obtain a where a: "header t = Some a" by blast
  obtain q where q: "heap t a = Some q" "a \<notin> live" "pool_inv N (t\<lparr>header := q, heap := (heap t)(a \<mapsto> None)\<rparr>) (insert a live)"
    using take_head [OF t(2) a] by blast
  have "pool1_malloc N s = Some (a, t\<lparr>header := q, heap := (heap t)(a \<mapsto> None)\<rparr>)"
    using t(1) a q(1) by (simp add: pool1_malloc_def)
  then show ?thesis using q by blast
qed

lemma pool2_malloc_ok:
  assumes "0 < N" "pool_inv N s live"
  shows "\<exists>a s'. pool2_malloc N s = Some (a, s') \<and> a \<notin> live \<and> pool_inv N s' (insert a live)"
proof -
  obtain t where t: "(if header s = None then do { s' \<leftarrow> new_nodes N s; Some (s'\<lparr>blocks := next_block s # blocks s\<rparr>) } else Some s)
      = Some t" "pool_inv N t live" "header t \<noteq> None"
    using new_nodes_ok [OF assms] assms(2) pool_inv_blocks by (cases "header s") force+
  then obtain a where a: "header t = Some a" by blast
  obtain q where q: "heap t a = Some q" "a \<notin> live" "pool_inv N (t\<lparr>header := q\<rparr>) (insert a live)"
    using take_head [OF t(2) a] by blast
  have "pool2_malloc N s = Some (a, t\<lparr>header := q\<rparr>)"
    using t(1) a q(1) by (simp add: pool2_malloc_def)
  then show ?thesis using q by blast
qed

lemma pool_free_ok:
  assumes inv: "pool_inv N s live" and a: "a \<in> live"
  shows "\<exists>s'. pool_free a s = Some s' \<and> pool_inv N s' (live - {a}) \<and> header s' = Some a"
proof -
  obtain xs where xs: "chain (heap s) (header s) xs" "distinct xs" "set xs \<inter> live = {}"
    "set xs \<union> live = nodes_of N (next_block s)"
    using inv by (auto simp: pool_inv_def)
  have na: "a \<notin> set xs" using xs(3) a by blast
  have d: "a \<in> dom (heap s)" using a xs(4) inv by (auto simp: pool_inv_def)
  have "chain ((heap s)(a \<mapsto> header s)) (Some a) (a # xs)" using xs(1) na by (simp add: chain_upd)
  then have "pool_inv N (s\<lparr>heap := (heap s)(a \<mapsto> header s), header := Some a\<rparr>) (live - {a})"
    using xs a na d inv unfolding pool_inv_def by (intro conjI exI [of _ "a # xs"]) auto
  then show ?thesis using d by (auto simp: pool_free_def)
qed

section \<open>The contract of a pool\<close>

datatype pool_op = Malloc | Release nat

text \<open>
  A client keeps the objects it was given and releases one of them by its position in that
  list. Running a sequence of operations gives the objects that are still held.
\<close>

locale object_pool =
  fixes inv :: "pool \<Rightarrow> addr set \<Rightarrow> bool" and malloc :: "pool \<Rightarrow> (addr \<times> pool) ub" and free :: "addr \<Rightarrow> pool \<Rightarrow> pool ub"
  assumes malloc_ok: "inv s live \<Longrightarrow> \<exists>a s'. malloc s = Some (a, s') \<and> a \<notin> live \<and> inv s' (insert a live)"
    and free_ok: "inv s live \<Longrightarrow> a \<in> live \<Longrightarrow> \<exists>s'. free a s = Some s' \<and> inv s' (live - {a}) \<and> header s' = Some a"
begin

lemma step_ok:
  assumes "inv s (set held)" "distinct held" "j < length held"
  shows "\<exists>s'. free (held ! j) s = Some s' \<and> inv s' (set (take j held @ drop (Suc j) held)) \<and>
    distinct (take j held @ drop (Suc j) held)"
proof -
  have h: "held = take j held @ held ! j # drop (Suc j) held" using assms(3) by (rule id_take_nth_drop)
  have "distinct (take j held @ held ! j # drop (Suc j) held)" using assms(2) h by simp
  then have d: "distinct (take j held @ drop (Suc j) held)" "held ! j \<notin> set (take j held @ drop (Suc j) held)" by auto
  have "set held = insert (held ! j) (set (take j held @ drop (Suc j) held))" by (subst h) auto
  then have "set held - {held ! j} = set (take j held @ drop (Suc j) held)" using d(2) by auto
  then show ?thesis using free_ok [OF assms(1), of "held ! j"] assms(3) d(1) by auto
qed

end

fun pool_run :: "(pool \<Rightarrow> (addr \<times> pool) ub) \<Rightarrow> (addr \<Rightarrow> pool \<Rightarrow> pool ub) \<Rightarrow> pool_op list \<Rightarrow> addr list \<Rightarrow> pool \<Rightarrow> (addr list \<times> pool) ub" where
  "pool_run m f [] held s = Some (held, s)"
| "pool_run m f (Malloc # ops) held s = do { (a, s) \<leftarrow> m s; pool_run m f ops (a # held) s }"
| "pool_run m f (Release j # ops) held s =
     (if j < length held
      then do { s \<leftarrow> f (held ! j) s; pool_run m f ops (take j held @ drop (Suc j) held) s }
      else pool_run m f ops held s)"

context object_pool
begin

lemma run_ok:
  "inv s (set held) \<Longrightarrow> distinct held \<Longrightarrow>
    \<exists>held' s'. pool_run malloc free ops held s = Some (held', s') \<and> distinct held' \<and> inv s' (set held')"
proof (induction ops arbitrary: held s)
  case (Cons op ops)
  show ?case
  proof (cases op)
    case Malloc
    obtain a t where a: "malloc s = Some (a, t)" "a \<notin> set held" "inv t (insert a (set held))"
      using malloc_ok [OF Cons.prems(1)] by blast
    then show ?thesis using Cons.IH [of t "a # held"] Cons.prems(2) Malloc by simp
  next
    case (Release j)
    show ?thesis
    proof (cases "j < length held")
      case True
      obtain t where "free (held ! j) s = Some t" "inv t (set (take j held @ drop (Suc j) held))"
        "distinct (take j held @ drop (Suc j) held)"
        using step_ok [OF Cons.prems True] by blast
      then show ?thesis using Cons.IH Release True by simp
    next
      case False
      then show ?thesis using Cons Release by simp
    qed
  qed
qed simp

text \<open>The object released last is handed out first.\<close>

lemma lifo:
  assumes "inv s live" "a \<in> live" "free a s = Some s'"
    and head: "\<And>s a b t. header s = Some a \<Longrightarrow> malloc s = Some (b, t) \<Longrightarrow> b = a"
  shows "\<exists>t. malloc s' = Some (a, t)"
proof -
  have s': "inv s' (live - {a})" "header s' = Some a" using free_ok [OF assms(1,2)] assms(3) by auto
  obtain b t where "malloc s' = Some (b, t)" using malloc_ok [OF s'(1)] by blast
  then show ?thesis using head [OF s'(2)] by blast
qed

end

lemma pool2_free_eq: "pool2_free = pool_free"
  by (intro ext) (simp add: pool2_free_def pool_free_def)

interpretation pool1: object_pool "pool_inv (Suc n)" "pool1_malloc (Suc n)" pool_free for n
  by unfold_locales (use pool1_malloc_ok [of "Suc n"] pool_free_ok in blast)+

interpretation pool2: object_pool "pool_inv (Suc n)" "pool2_malloc (Suc n)" pool2_free for n
  unfolding pool2_free_eq by unfold_locales (use pool2_malloc_ok [of "Suc n"] pool_free_ok in blast)+

section \<open>Initial states, blocks, and double release\<close>

lemma pool_inv_null: "pool_inv N null_pool {}"
  by (auto simp: pool_inv_def null_pool_def nodes_of_def)

lemma pool1_new_ok: "\<exists>s. pool1_new (Suc n) = Some s \<and> pool_inv (Suc n) s {}"
proof -
  have h: "header null_pool = None" by (simp add: null_pool_def)
  show ?thesis using new_nodes_ok [OF _ pool_inv_null h, of "Suc n"] by (auto simp: pool1_new_def)
qed

lemma destroy_loop_id: "destroy_loop bs = bs"
  by (induction bs) auto

lemma new_nodes_blocks: "new_nodes N s = Some s' \<Longrightarrow> blocks s' = blocks s \<and> next_block s' = Suc (next_block s)"
  by (auto simp: new_nodes_def Let_def split: if_splits)

text \<open>The block list of the second pool holds every block once.\<close>

definition blocks_ok :: "pool \<Rightarrow> bool" where
  "blocks_ok s \<longleftrightarrow> blocks s = rev [0..<next_block s]"

lemma pool2_malloc_blocks: "pool2_malloc N s = Some (a, s') \<Longrightarrow> blocks_ok s \<Longrightarrow> blocks_ok s'"
  by (auto simp: pool2_malloc_def blocks_ok_def bind_eq_Some dest: new_nodes_blocks split: if_splits)

lemma pool2_free_blocks: "pool2_free a s = Some s' \<Longrightarrow> blocks_ok s \<Longrightarrow> blocks_ok s'"
  by (auto simp: pool2_free_def blocks_ok_def split: if_splits)

lemma pool2_run_blocks:
  "pool_run (pool2_malloc N) pool2_free ops held s = Some (held', s') \<Longrightarrow> blocks_ok s \<Longrightarrow> blocks_ok s'"
proof (induction ops arbitrary: held s)
  case (Cons op ops)
  show ?case
  proof (cases op)
    case Malloc
    then obtain a t where "pool2_malloc N s = Some (a, t)" "pool_run (pool2_malloc N) pool2_free ops (a # held) t = Some (held', s')"
      using Cons.prems(1) by (auto simp: bind_eq_Some)
    then show ?thesis using Cons.IH Cons.prems(2) pool2_malloc_blocks by blast
  next
    case (Release j)
    show ?thesis
    proof (cases "j < length held")
      case True
      then obtain t where "pool2_free (held ! j) s = Some t"
        "pool_run (pool2_malloc N) pool2_free ops (take j held @ drop (Suc j) held) t = Some (held', s')"
        using Cons.prems(1) Release by (auto simp: bind_eq_Some)
      then show ?thesis using Cons.IH Cons.prems(2) pool2_free_blocks by blast
    next
      case False
      then show ?thesis using Cons Release by simp
    qed
  qed
qed simp

lemma double_release:
  assumes "heap s a = Some q"
  shows "\<exists>t. do { s \<leftarrow> pool_free a s; s \<leftarrow> pool_free a s; (x, s) \<leftarrow> pool1_malloc N s; (y, s) \<leftarrow> pool1_malloc N s; Some (x, y, s) }
      = Some (a, a, t)"
    "\<exists>t. do { s \<leftarrow> pool2_free a s; s \<leftarrow> pool2_free a s; (x, s) \<leftarrow> pool2_malloc N s; (y, s) \<leftarrow> pool2_malloc N s; Some (x, y, s) }
      = Some (a, a, t)"
  using assms by (simp_all add: pool_free_def pool2_free_def pool1_malloc_def pool2_malloc_def)

section \<open>Properties\<close>

text \<open>
  C17. Both pools hand out memory correctly: for every sequence of allocations and of releases
  of objects that are held, every operation is defined and no two objects held at the same
  time have the same address. The second pool's destructor frees every block it ever allocated
  exactly once.
\<close>

theorem pool_run_spec:
  "(\<exists>s held t. pool1_new (Suc n) = Some s \<and>
      pool_run (pool1_malloc (Suc n)) pool_free ops [] s = Some (held, t) \<and> distinct held) \<and>
    (\<exists>held t. pool_run (pool2_malloc (Suc n)) pool2_free ops [] pool2_new = Some (held, t) \<and> distinct held \<and>
      pool2_destroy t = rev [0..<next_block t])"
proof -
  obtain s where s: "pool1_new (Suc n) = Some s" "pool_inv (Suc n) s (set [])" using pool1_new_ok by auto
  obtain held t where 2: "pool_run (pool2_malloc (Suc n)) pool2_free ops [] pool2_new = Some (held, t)" "distinct held"
    using pool2.run_ok [of n pool2_new "[]" ops] pool_inv_null [of "Suc n"] by (auto simp: pool2_new_def)
  have "blocks_ok t"
    using pool2_run_blocks [OF 2(1)] by (simp add: blocks_ok_def pool2_new_def null_pool_def)
  then show ?thesis
    using pool1.run_ok [OF s(2), of ops] s(1) 2 by (auto simp: pool2_destroy_def destroy_loop_id blocks_ok_def)
qed

text \<open>
  What the pools do not check: releasing an object twice makes the next two allocations
  return the same address, in both pools. The first pool's destructor is defined only when the
  head of the free list is null or the start of a block. In its own program it frees nothing
  although a block was allocated.
\<close>

theorem pool_misuse:
  assumes "heap s a \<noteq> None"
  shows "(\<exists>t. do { s \<leftarrow> pool_free a s; s \<leftarrow> pool_free a s; (x, s) \<leftarrow> pool1_malloc N s; (y, s) \<leftarrow> pool1_malloc N s; Some (x, y, s) }
      = Some (a, a, t)) \<and>
    (\<exists>t. do { s \<leftarrow> pool2_free a s; s \<leftarrow> pool2_free a s; (x, s) \<leftarrow> pool2_malloc N s; (y, s) \<leftarrow> pool2_malloc N s; Some (x, y, s) }
      = Some (a, a, t)) \<and>
    (pool1_destroy s = None \<longleftrightarrow> (\<exists>b i. header s = Some (b, Suc i))) \<and>
    pool1_main = Some ([(0, 0), (0, 1), (0, 2), (0, 3), (0, 4), (0, 3)], None) \<and>
    pool2_main = Some ([(0, 0), (0, 1), (0, 0), (1, 0)], [1, 0])"
proof -
  have "pool1_destroy s = None \<longleftrightarrow> (\<exists>b i. header s = Some (b, Suc i))"
    by (cases "header s") (auto simp: pool1_destroy_def gr0_conv_Suc split: if_splits)
  moreover have "pool1_main = Some ([(0, 0), (0, 1), (0, 2), (0, 3), (0, 4), (0, 3)], None)" by code_simp
  moreover have "pool2_main = Some ([(0, 0), (0, 1), (0, 0), (1, 0)], [1, 0])" by code_simp
  ultimately show ?thesis using double_release assms by blast
qed

theorem pool_misuse_witness:
  "\<exists>s. heap s (0, 0) \<noteq> None \<and>
     (\<exists>t. do { s \<leftarrow> pool2_free (0, 0) s; s \<leftarrow> pool2_free (0, 0) s; (x, s) \<leftarrow> pool2_malloc 2 s; (y, s) \<leftarrow> pool2_malloc 2 s; Some (x, y, s) }
       = Some ((0, 0), (0, 0), t))"
  using pool_misuse [of "null_pool\<lparr>heap := [(0, 0) \<mapsto> None]\<rparr>" "(0, 0)" 2]
  by (intro exI [of _ "null_pool\<lparr>heap := [(0, 0) \<mapsto> None]\<rparr>"]) simp

end
