(* ===== verification/BitMap.thy ===== *)
theory BitMap
  imports Cpp_Prelude "HOL-Library.Word"
begin

unbundle bit_operations_syntax

text \<open>
  \<^verbatim>\<open>cpp/algorithm/bitMap.cpp\<close>: a bit map over an array of bytes, most significant bit
  first. The bytes are 8-bit words, indices are signed and divided with the rounding of C++. A
  failed \<^verbatim>\<open>assert\<close> and an access outside the array are \<^term>\<open>None\<close>.
\<close>

section \<open>The bit map\<close>

record bitmap =
  bm_data :: "8 word list"
  charSize :: int
  bm_size :: int

definition bitmap_new :: "int \<Rightarrow> bitmap ub" where
  "bitmap_new sz =
     (if tquot sz 8 < 0 then None
      else Some \<lparr>bm_data = replicate (nat (tquot sz 8)) 0, charSize = tquot sz 8, bm_size = sz\<rparr>)"

text \<open>\<^verbatim>\<open>uint8_t temp = 0x1 << (7 - addroffset)\<close>\<close>

definition bit_mask :: "int \<Rightarrow> 8 word" where
  "bit_mask index = push_bit (nat (7 - trem index 8)) 1"

definition bitmap_get :: "bitmap \<Rightarrow> int \<Rightarrow> bool ub" where
  "bitmap_get m index = (let addr = tquot index 8 in
     if \<not> addr \<le> charSize m then None
     else do { d \<leftarrow> iget (bm_data m) addr; Some (d AND bit_mask index > 0) })"

definition setTrue :: "int \<Rightarrow> bitmap \<Rightarrow> bitmap ub" where
  "setTrue index m = (let addr = tquot index 8 in
     if \<not> addr \<le> charSize m + 1 then None
     else do {
       d \<leftarrow> iget (bm_data m) addr;
       bs \<leftarrow> iset (bm_data m) addr (d OR bit_mask index);
       Some (m\<lparr>bm_data := bs\<rparr>)
     })"

definition setFalse :: "int \<Rightarrow> bitmap \<Rightarrow> bitmap ub" where
  "setFalse index m = do {
     b \<leftarrow> bitmap_get m index;
     if \<not> b then Some m
     else let addr = tquot index 8 in
       if \<not> addr \<le> charSize m then None
       else do {
         d \<leftarrow> iget (bm_data m) addr;
         bs \<leftarrow> iset (bm_data m) addr (d XOR bit_mask index);
         Some (m\<lparr>bm_data := bs\<rparr>)
       }
   }"

definition bitmap_set :: "int \<Rightarrow> bool \<Rightarrow> bitmap \<Rightarrow> bitmap ub" where
  "bitmap_set index status m = (if status then setTrue index m else setFalse index m)"

definition bitmap_set_at :: "int \<Rightarrow> int \<Rightarrow> bool \<Rightarrow> bitmap \<Rightarrow> bitmap ub" where
  "bitmap_set_at charId bitId status m = bitmap_set (charId * 8 + bitId) status m"

definition bitmap_get_at :: "bitmap \<Rightarrow> int \<Rightarrow> int \<Rightarrow> bool ub" where
  "bitmap_get_at m charId bitId = bitmap_get m (charId * 8 + bitId)"

definition setNumber :: "int \<Rightarrow> 8 word \<Rightarrow> bitmap \<Rightarrow> bitmap ub" where
  "setNumber index number m = do { bs \<leftarrow> iset (bm_data m) index number; Some (m\<lparr>bm_data := bs\<rparr>) }"

text \<open>The output: each byte as eight binary digits, most significant first.\<close>

definition byte_digits :: "8 word \<Rightarrow> bool list" where
  "byte_digits d = map (\<lambda>k. bit d (7 - k)) [0..<8]"

definition bitmap_print :: "bitmap \<Rightarrow> bool list list" where
  "bitmap_print m = map byte_digits (bm_data m)"

section \<open>Bits by position\<close>

definition bitmap_ok :: "bitmap \<Rightarrow> bool" where
  "bitmap_ok m \<longleftrightarrow> charSize m = int (length (bm_data m))"

text \<open>The bit at a position, read off the bytes.\<close>

definition bit_at :: "bitmap \<Rightarrow> nat \<Rightarrow> bool" where
  "bit_at m i \<longleftrightarrow> bit (bm_data m ! (i div 8)) (7 - i mod 8)"

lemma div8 [simp]: "int i div 8 = int (i div 8)"
  by (simp add: zdiv_int)

lemma bit_mask_eq: "bit_mask (int i) = 2 ^ (7 - i mod 8)"
proof -
  have "int i mod 8 = int (i mod 8)" by (simp add: zmod_int)
  then have "nat (7 - int i mod 8) = 7 - i mod 8" by simp
  then show ?thesis by (simp add: bit_mask_def)
qed

lemma bit_of_mask: "0 < d AND 2 ^ k \<longleftrightarrow> bit d k" for d :: "8 word"
  by (simp add: bit_iff_and_push_bit_not_eq_0 word_greater_zero_iff)

lemma bitmap_get_ok:
  assumes "bitmap_ok m" "i < 8 * length (bm_data m)"
  shows "bitmap_get m (int i) = Some (bit_at m i)"
proof -
  have "i div 8 < length (bm_data m)" using assms(2) by (simp add: div_less_iff_less_mult mult.commute)
  then show ?thesis using assms(1) by (simp add: bitmap_get_def bitmap_ok_def iget_def bit_mask_eq bit_of_mask bit_at_def Let_def)
qed

lemma bit_set: "k < 8 \<Longrightarrow> bit (d OR 2 ^ k) j \<longleftrightarrow> j = k \<or> bit d j" for d :: "8 word"
  by (auto simp: bit_simps)

lemma bit_flip: "k < 8 \<Longrightarrow> bit (d XOR 2 ^ k) j \<longleftrightarrow> (j = k) \<noteq> bit d j" for d :: "8 word"
  by (auto simp: bit_simps dest: bit_imp_le_length)

text \<open>Two positions in the same byte differ in their bit.\<close>

lemma same_byte: "i div 8 = j div 8 \<Longrightarrow> (7 - j mod 8 = 7 - i mod 8) \<longleftrightarrow> i = j" for i j :: nat
proof
  assume "i div 8 = j div 8" "7 - j mod 8 = 7 - i mod 8"
  moreover have "i mod 8 < 8" "j mod 8 < 8" by simp_all
  ultimately have "i div 8 = j div 8" "i mod 8 = j mod 8" by linarith+
  then show "i = j" by (metis div_mult_mod_eq)
qed simp

lemma bitmap_set_ok:
  assumes ok: "bitmap_ok m" and i: "i < 8 * length (bm_data m)"
  shows "\<exists>m'. bitmap_set (int i) v m = Some m' \<and> bitmap_ok m' \<and> length (bm_data m') = length (bm_data m) \<and>
    (\<forall>j < 8 * length (bm_data m). bit_at m' j = (if j = i then v else bit_at m j))"
proof -
  let ?a = "i div 8" and ?k = "7 - i mod 8" and ?d = "bm_data m ! (i div 8)"
  have a: "?a < length (bm_data m)" using i by (simp add: div_less_iff_less_mult mult.commute)
  have upd: "bit_at (m\<lparr>bm_data := (bm_data m)[?a := e]\<rparr>) j = (if j div 8 = ?a then bit e (7 - j mod 8) else bit_at m j)"
    for j e using a by (simp add: bit_at_def nth_list_update eq_commute)
  consider "v" | "\<not> v" "bit_at m i" | "\<not> v" "\<not> bit_at m i" by blast
  then show ?thesis
  proof cases
    case 1
    have "bitmap_set (int i) v m = Some (m\<lparr>bm_data := (bm_data m)[?a := ?d OR 2 ^ ?k]\<rparr>)"
      using 1 a ok by (simp add: bitmap_set_def setTrue_def iget_def iset_def bit_mask_eq bitmap_ok_def Let_def)
    moreover have "bit_at (m\<lparr>bm_data := (bm_data m)[?a := ?d OR 2 ^ ?k]\<rparr>) j = (if j = i then v else bit_at m j)" for j
      unfolding upd using 1 same_byte [of i j] by (auto simp: bit_set bit_at_def)
    ultimately show ?thesis using ok by (simp add: bitmap_ok_def)
  next
    case 2
    have "bitmap_set (int i) v m = Some (m\<lparr>bm_data := (bm_data m)[?a := ?d XOR 2 ^ ?k]\<rparr>)"
      using 2 a ok bitmap_get_ok [OF ok i]
      by (simp add: bitmap_set_def setFalse_def iget_def iset_def bit_mask_eq bitmap_ok_def Let_def)
    moreover have "bit_at (m\<lparr>bm_data := (bm_data m)[?a := ?d XOR 2 ^ ?k]\<rparr>) j = (if j = i then v else bit_at m j)" for j
      unfolding upd using 2 same_byte [of i j] by (auto simp: bit_flip bit_at_def)
    ultimately show ?thesis using ok by (simp add: bitmap_ok_def)
  next
    case 3
    then have "bitmap_set (int i) v m = Some m"
      using bitmap_get_ok [OF ok i] by (simp add: bitmap_set_def setFalse_def)
    then show ?thesis using 3 ok by auto
  qed
qed

lemma bitmap_new_ok:
  "0 \<le> n \<Longrightarrow> \<exists>m. bitmap_new n = Some m \<and> bitmap_ok m \<and> length (bm_data m) = nat n div 8 \<and>
    (\<forall>j < 8 * (nat n div 8). \<not> bit_at m j)"
proof -
  assume "0 \<le> n"
  have "\<not> bit_at \<lparr>bm_data = replicate (nat n div 8) 0, charSize = tquot n 8, bm_size = n\<rparr> j" if "j < 8 * (nat n div 8)" for j
    using that by (simp add: bit_at_def div_less_iff_less_mult mult.commute)
  then show ?thesis using \<open>0 \<le> n\<close> by (cases n) (simp_all add: bitmap_new_def bitmap_ok_def)
qed

section \<open>Properties\<close>

text \<open>
  A bit map of \<open>n\<close> bits starts with all its bits clear; setting a bit to a value makes
  reading it return the value and changes no other bit, through both forms of the operations.
  The positions that exist are those below \<open>8 * (n / 8)\<close>: for a size that is no multiple of 8
  the last bits pass the \<^verbatim>\<open>assert\<close> and are read and written outside the array.
\<close>

theorem bitmap_spec:
  assumes "0 \<le> n" "i < 8 * (nat n div 8)" "bitmap_ok m" "length (bm_data m) = nat n div 8"
    and b: "0 \<le> b" "b < 8" "i = 8 * nat c + nat b" "0 \<le> c"
  shows "(\<exists>m. bitmap_new n = Some m \<and> bitmap_ok m \<and> length (bm_data m) = nat n div 8 \<and>
      (\<forall>j < 8 * (nat n div 8). bitmap_get m (int j) = Some False)) \<and>
    (\<exists>m'. bitmap_set (int i) v m = Some m' \<and> bitmap_set_at c b v m = Some m' \<and> bitmap_ok m' \<and>
      bitmap_get m' (int i) = Some v \<and> bitmap_get_at m' c b = Some v \<and>
      (\<forall>j < 8 * (nat n div 8). j \<noteq> i \<longrightarrow> bitmap_get m' (int j) = bitmap_get m (int j))) \<and>
    (\<forall>j. 8 * (nat n div 8) \<le> j \<longrightarrow> bitmap_get m (int j) = None \<and> setTrue (int j) m = None)"
proof -
  have idx: "c * 8 + b = int i" using b by simp
  obtain m' where m': "bitmap_set (int i) v m = Some m'" "bitmap_ok m'" "length (bm_data m') = length (bm_data m)"
    "\<forall>j < 8 * length (bm_data m). bit_at m' j = (if j = i then v else bit_at m j)"
    using bitmap_set_ok [OF assms(3), of i v] assms(2,4) by auto
  have "bitmap_get m (int j) = None \<and> setTrue (int j) m = None" if "8 * (nat n div 8) \<le> j" for j
  proof -
    have "length (bm_data m) \<le> j div 8" using that assms(4) by (simp add: less_eq_div_iff_mult_less_eq mult.commute)
    then show ?thesis by (simp add: bitmap_get_def setTrue_def iget_def Let_def)
  qed
  moreover obtain m0 where "bitmap_new n = Some m0" "bitmap_ok m0" "length (bm_data m0) = nat n div 8"
    "\<forall>j < 8 * (nat n div 8). \<not> bit_at m0 j"
    using bitmap_new_ok [OF assms(1)] by blast
  moreover have "bitmap_get m' (int j) = bitmap_get m (int j)" if "j < 8 * (nat n div 8)" "j \<noteq> i" for j
    using bitmap_get_ok [OF m'(2), of j] bitmap_get_ok [OF assms(3), of j] m' that assms(4) by simp
  moreover have "bitmap_get m' (int i) = Some v"
    using bitmap_get_ok [OF m'(2), of i] m' assms(2,4) by simp
  ultimately show ?thesis
    using m' bitmap_get_ok [of m0] by (simp add: bitmap_set_at_def bitmap_get_at_def idx)
qed

theorem bitmap_spec_witness:
  "\<exists>m m'. bitmap_new 64 = Some m \<and> bitmap_set 19 True m = Some m' \<and> bitmap_get_at m' 2 3 = Some True \<and> bitmap_get m' 20 = Some False"
proof -
  obtain m where m: "bitmap_new 64 = Some m" "bitmap_ok m" "length (bm_data m) = nat 64 div 8"
    "\<forall>j < 8 * (nat 64 div 8). \<not> bit_at m j"
    using bitmap_new_ok [of 64] by auto
  have c: "0 \<le> (64::int)" "(19::nat) < 8 * (nat 64 div 8)" "0 \<le> (3::int)" "(3::int) < 8" "(19::nat) = 8 * nat 2 + nat 3" "0 \<le> (2::int)"
    by simp_all
  obtain m' where m': "bitmap_set (int 19) True m = Some m'" "bitmap_get_at m' 2 3 = Some True"
    "\<forall>j < 8 * (nat 64 div 8). j \<noteq> 19 \<longrightarrow> bitmap_get m' (int j) = bitmap_get m (int j)"
    using bitmap_spec [OF c(1,2) m(2,3) c(3-6), of True] by blast
  have "bitmap_get m' (int 20) = Some (bit_at m 20)" using m'(3) [rule_format, of 20] bitmap_get_ok [OF m(2), of 20] m(3) by simp
  then show ?thesis using m(1) m'(1,2) m(4) [rule_format, of 20] by simp
qed

end
