(* ===== verification/SafeQueue.thy ===== *)
theory SafeQueue
  imports Cpp_Prelude
begin

text \<open>
  \<^verbatim>\<open>cpp/stl/safeQueue.cpp\<close>: the bounded blocking queue. Every thread runs
  \<^verbatim>\<open>push\<close> or \<^verbatim>\<open>pop\<close>, or is outside the queue; \<^verbatim>\<open>quit\<close> and
  \<^verbatim>\<open>finished\<close> set a flag without the mutex and then notify. The step relation has one
  step for each part that other threads can interleave with: taking the mutex, the decision at
  the head of the loop, the moment between that decision and the wait, and each notification.
  The histories \<open>pushed\<close> and \<open>popped\<close> record the values in the order in which they went
  in and out.
\<close>

section \<open>State and steps\<close>

datatype tstate =
    Outside
  | PushEnter int
  | PushHead int
  | PushFull int
  | PushWait int
  | PopEnter
  | PopHead
  | PopEmpty
  | PopWait

datatype caller = NotCalled | FlagSet | EmptyNotified

record queue_state =
  items :: "int list"
  size_max :: nat
  owner :: "nat option"
  threads :: "nat \<Rightarrow> tstate"
  quitting :: bool
  finishing :: bool
  quit_pc :: caller
  finish_pc :: caller
  pushed :: "int list"
  popped :: "int list"
  returned :: "nat \<Rightarrow> bool option"

definition queue_new :: "nat \<Rightarrow> queue_state" where
  "queue_new m = \<lparr>items = [], size_max = m, owner = None, threads = (\<lambda>_. Outside), quitting = False, finishing = False,
     quit_pc = NotCalled, finish_pc = NotCalled, pushed = [], popped = [], returned = (\<lambda>_. None)\<rparr>"

text \<open>Notifying a condition variable sends its waiters back to the mutex.\<close>

definition notify_empty :: "(nat \<Rightarrow> tstate) \<Rightarrow> (nat \<Rightarrow> tstate)" where
  "notify_empty ts = (\<lambda>i. if ts i = PopWait then PopEnter else ts i)"

definition notify_full :: "(nat \<Rightarrow> tstate) \<Rightarrow> (nat \<Rightarrow> tstate)" where
  "notify_full ts = (\<lambda>i. case ts i of PushWait v \<Rightarrow> PushEnter v | t \<Rightarrow> t)"

text \<open>Leaving a call: the mutex is released and the result recorded.\<close>

definition leave :: "nat \<Rightarrow> bool \<Rightarrow> queue_state \<Rightarrow> queue_state" where
  "leave i r s = s\<lparr>owner := None, threads := (threads s)(i := Outside), returned := (returned s)(i := Some r)\<rparr>"

inductive q_step :: "queue_state \<Rightarrow> queue_state \<Rightarrow> bool" where
  call_push: "threads s i = Outside \<Longrightarrow> q_step s (s\<lparr>threads := (threads s)(i := PushEnter v)\<rparr>)"
| lock_push: "threads s i = PushEnter v \<Longrightarrow> owner s = None \<Longrightarrow>
    q_step s (s\<lparr>owner := Some i, threads := (threads s)(i := PushHead v)\<rparr>)"
| push_refused: "threads s i = PushHead v \<Longrightarrow> quitting s \<or> finishing s \<Longrightarrow> q_step s (leave i False s)"
| push_stored: "threads s i = PushHead v \<Longrightarrow> \<not> quitting s \<and> \<not> finishing s \<Longrightarrow> length (items s) < size_max s \<Longrightarrow>
    q_step s (leave i True (s\<lparr>items := items s @ [v], pushed := pushed s @ [v], threads := notify_empty (threads s)\<rparr>))"
| push_full: "threads s i = PushHead v \<Longrightarrow> \<not> quitting s \<and> \<not> finishing s \<Longrightarrow> \<not> length (items s) < size_max s \<Longrightarrow>
    q_step s (s\<lparr>threads := (threads s)(i := PushFull v)\<rparr>)"
| push_wait: "threads s i = PushFull v \<Longrightarrow> q_step s (s\<lparr>owner := None, threads := (threads s)(i := PushWait v)\<rparr>)"
| call_pop: "threads s i = Outside \<Longrightarrow> q_step s (s\<lparr>threads := (threads s)(i := PopEnter)\<rparr>)"
| lock_pop: "threads s i = PopEnter \<Longrightarrow> owner s = None \<Longrightarrow>
    q_step s (s\<lparr>owner := Some i, threads := (threads s)(i := PopHead)\<rparr>)"
| pop_quit: "threads s i = PopHead \<Longrightarrow> quitting s \<Longrightarrow> q_step s (leave i False s)"
| pop_taken: "threads s i = PopHead \<Longrightarrow> \<not> quitting s \<Longrightarrow> items s = x # xs \<Longrightarrow>
    q_step s (leave i True (s\<lparr>items := xs, popped := popped s @ [x], threads := notify_full (threads s)\<rparr>))"
| pop_finished: "threads s i = PopHead \<Longrightarrow> \<not> quitting s \<Longrightarrow> items s = [] \<Longrightarrow> finishing s \<Longrightarrow> q_step s (leave i False s)"
| pop_empty: "threads s i = PopHead \<Longrightarrow> \<not> quitting s \<Longrightarrow> items s = [] \<Longrightarrow> \<not> finishing s \<Longrightarrow>
    q_step s (s\<lparr>threads := (threads s)(i := PopEmpty)\<rparr>)"
| pop_wait: "threads s i = PopEmpty \<Longrightarrow> q_step s (s\<lparr>owner := None, threads := (threads s)(i := PopWait)\<rparr>)"
| quit_flag: "quit_pc s = NotCalled \<Longrightarrow> q_step s (s\<lparr>quitting := True, quit_pc := FlagSet\<rparr>)"
| quit_notify_empty: "quit_pc s = FlagSet \<Longrightarrow> q_step s (s\<lparr>threads := notify_empty (threads s), quit_pc := EmptyNotified\<rparr>)"
| quit_notify_full: "quit_pc s = EmptyNotified \<Longrightarrow> q_step s (s\<lparr>threads := notify_full (threads s), quit_pc := NotCalled\<rparr>)"
| finished_flag: "finish_pc s = NotCalled \<Longrightarrow> q_step s (s\<lparr>finishing := True, finish_pc := FlagSet\<rparr>)"
| finished_notify: "finish_pc s = FlagSet \<Longrightarrow> q_step s (s\<lparr>threads := notify_empty (threads s), finish_pc := NotCalled\<rparr>)"

inductive spurious :: "queue_state \<Rightarrow> queue_state \<Rightarrow> bool" where
  wake_pop: "threads s i = PopWait \<Longrightarrow> spurious s (s\<lparr>threads := (threads s)(i := PopEnter)\<rparr>)"
| wake_push: "threads s i = PushWait v \<Longrightarrow> spurious s (s\<lparr>threads := (threads s)(i := PushEnter v)\<rparr>)"

definition queue_step :: "queue_state \<Rightarrow> queue_state \<Rightarrow> bool" where
  "queue_step s s' \<longleftrightarrow> q_step s s' \<or> spurious s s'"

definition queue_length :: "queue_state \<Rightarrow> int" where
  "queue_length s = int (length (items s))"

section \<open>Safety\<close>

fun inside :: "tstate \<Rightarrow> bool" where
  "inside (PushHead v) = True"
| "inside (PushFull v) = True"
| "inside PopHead = True"
| "inside PopEmpty = True"
| "inside _ = False"

lemma inside_notify [simp]: "inside (notify_empty ts i) = inside (ts i)" "inside (notify_full ts i) = inside (ts i)"
  by (auto simp: notify_empty_def notify_full_def split: tstate.splits)

definition mutex_inv :: "queue_state \<Rightarrow> bool" where
  "mutex_inv s \<longleftrightarrow> (\<forall>i. inside (threads s i) \<longleftrightarrow> owner s = Some i)"

definition fifo_inv :: "nat \<Rightarrow> queue_state \<Rightarrow> bool" where
  "fifo_inv m s \<longleftrightarrow> pushed s = popped s @ items s \<and> length (items s) \<le> m \<and> size_max s = m"

lemma owner_of:
  assumes "mutex_inv s"
  shows "threads s i = PushHead v \<Longrightarrow> owner s = Some i" "threads s i = PushFull v \<Longrightarrow> owner s = Some i"
    "threads s i = PopHead \<Longrightarrow> owner s = Some i" "threads s i = PopEmpty \<Longrightarrow> owner s = Some i"
    "threads s i = PopWait \<Longrightarrow> owner s \<noteq> Some i" "threads s i = PushWait v \<Longrightarrow> owner s \<noteq> Some i"
    "threads s i = Outside \<Longrightarrow> owner s \<noteq> Some i"
  using assms unfolding mutex_inv_def by (metis inside.simps)+

lemma mutex_inv_step:
  assumes "q_step s s'" "mutex_inv s"
  shows "mutex_inv s'"
  using assms(1) by cases (use assms(2) in \<open>auto simp: mutex_inv_def leave_def dest: owner_of [OF assms(2)]\<close>)

lemma fifo_inv_step: "q_step s s' \<Longrightarrow> fifo_inv m s \<Longrightarrow> fifo_inv m s'"
  by (induction rule: q_step.induct) (auto simp: fifo_inv_def leave_def)

lemma spurious_inv: "spurious s s' \<Longrightarrow> mutex_inv s \<Longrightarrow> mutex_inv s'" "spurious s s' \<Longrightarrow> fifo_inv m s \<Longrightarrow> fifo_inv m s'"
  by (erule spurious.cases; frule owner_of(5,6); force simp: mutex_inv_def) (auto simp: fifo_inv_def elim: spurious.cases)

lemma queue_inv_reach:
  "queue_step\<^sup>*\<^sup>* s s' \<Longrightarrow> mutex_inv s \<and> fifo_inv m s \<Longrightarrow> mutex_inv s' \<and> fifo_inv m s'"
proof (induction rule: rtranclp_induct)
  case (step y z)
  then show ?case using mutex_inv_step fifo_inv_step spurious_inv unfolding queue_step_def by metis
qed simp

lemma queue_inv_new: "mutex_inv (queue_new m) \<and> fifo_inv m (queue_new m)"
  by (simp add: queue_new_def mutex_inv_def fifo_inv_def)

section \<open>Lost notifications\<close>

text \<open>A thread that waits is moved only by the notification of its condition variable.\<close>

lemma pop_wait_stays:
  assumes "q_step s s'" "threads s i = PopWait" "quit_pc s \<noteq> FlagSet" "finish_pc s \<noteq> FlagSet" "\<And>j v. threads s j \<noteq> PushHead v"
  shows "threads s' i = PopWait"
  using assms by (induction rule: q_step.induct) (auto simp: notify_full_def leave_def)

lemma push_wait_stays:
  assumes "q_step s s'" "threads s i = PushWait v" "quit_pc s = NotCalled" "\<And>j. threads s j \<noteq> PopHead"
  shows "threads s' i = PushWait v"
  using assms by (induction rule: q_step.induct) (auto simp: notify_empty_def leave_def)

lemma steps_cons: "q_step a b \<Longrightarrow> q_step\<^sup>*\<^sup>* b c \<Longrightarrow> q_step\<^sup>*\<^sup>* a c"
  by (rule converse_rtranclp_into_rtranclp)

text \<open>The schedule of the lost notification: \<^verbatim>\<open>quit\<close> runs between the check of a popper and its wait.\<close>

definition lost_quit :: "nat \<Rightarrow> nat \<Rightarrow> queue_state" where
  "lost_quit m i = (queue_new m)\<lparr>threads := (\<lambda>_. Outside)(i := PopWait), quitting := True\<rparr>"

lemma lost_quit_reachable: "q_step\<^sup>*\<^sup>* (queue_new m) (lost_quit m i)"
proof -
  let ?q = "queue_new m"
  let ?t = "\<lambda>t. (\<lambda>_. Outside)(i := t)"
  have "q_step ?q (?q\<lparr>threads := ?t PopEnter\<rparr>)"
    using call_pop [of ?q i] by (simp add: queue_new_def)
  moreover have "q_step (?q\<lparr>threads := ?t PopEnter\<rparr>) (?q\<lparr>owner := Some i, threads := ?t PopHead\<rparr>)"
    using lock_pop [of "?q\<lparr>threads := ?t PopEnter\<rparr>" i] by (simp add: queue_new_def)
  moreover have "q_step (?q\<lparr>owner := Some i, threads := ?t PopHead\<rparr>) (?q\<lparr>owner := Some i, threads := ?t PopEmpty\<rparr>)"
    using pop_empty [of "?q\<lparr>owner := Some i, threads := ?t PopHead\<rparr>" i] by (simp add: queue_new_def)
  moreover have "q_step (?q\<lparr>owner := Some i, threads := ?t PopEmpty\<rparr>)
      (?q\<lparr>owner := Some i, threads := ?t PopEmpty, quitting := True, quit_pc := FlagSet\<rparr>)"
    using quit_flag [of "?q\<lparr>owner := Some i, threads := ?t PopEmpty\<rparr>"] by (simp add: queue_new_def)
  moreover have "q_step (?q\<lparr>owner := Some i, threads := ?t PopEmpty, quitting := True, quit_pc := FlagSet\<rparr>)
      (?q\<lparr>owner := Some i, threads := ?t PopEmpty, quitting := True, quit_pc := EmptyNotified\<rparr>)"
  proof -
    have "notify_empty (?t PopEmpty) = ?t PopEmpty" by (auto simp: notify_empty_def)
    then show ?thesis
      using quit_notify_empty [of "?q\<lparr>owner := Some i, threads := ?t PopEmpty, quitting := True, quit_pc := FlagSet\<rparr>"]
      by (simp add: queue_new_def)
  qed
  moreover have "q_step (?q\<lparr>owner := Some i, threads := ?t PopEmpty, quitting := True, quit_pc := EmptyNotified\<rparr>)
      (?q\<lparr>owner := Some i, threads := ?t PopEmpty, quitting := True, quit_pc := NotCalled\<rparr>)"
  proof -
    have "notify_full (?t PopEmpty) = ?t PopEmpty" by (auto simp: notify_full_def)
    then show ?thesis
      using quit_notify_full [of "?q\<lparr>owner := Some i, threads := ?t PopEmpty, quitting := True, quit_pc := EmptyNotified\<rparr>"]
      by (simp add: queue_new_def)
  qed
  moreover have "q_step (?q\<lparr>owner := Some i, threads := ?t PopEmpty, quitting := True, quit_pc := NotCalled\<rparr>) (lost_quit m i)"
    using pop_wait [of "?q\<lparr>owner := Some i, threads := ?t PopEmpty, quitting := True, quit_pc := NotCalled\<rparr>" i]
    by (simp add: queue_new_def lost_quit_def)
  ultimately show ?thesis by (metis steps_cons rtranclp.rtrancl_refl)
qed

text \<open>A pusher that waits on a full queue when \<^verbatim>\<open>finished\<close> is called.\<close>

definition stuck_pusher :: "int \<Rightarrow> queue_state" where
  "stuck_pusher v = (queue_new 0)\<lparr>threads := (\<lambda>_. Outside)(0 := PushWait v), finishing := True\<rparr>"

lemma stuck_pusher_reachable: "q_step\<^sup>*\<^sup>* (queue_new 0) (stuck_pusher v)"
proof -
  let ?q = "queue_new 0"
  let ?t = "\<lambda>t. (\<lambda>_. Outside)(0 := t)"
  have "q_step ?q (?q\<lparr>threads := ?t (PushEnter v)\<rparr>)"
    using call_push [of ?q 0 v] by (simp add: queue_new_def)
  moreover have "q_step (?q\<lparr>threads := ?t (PushEnter v)\<rparr>) (?q\<lparr>owner := Some 0, threads := ?t (PushHead v)\<rparr>)"
    using lock_push [of "?q\<lparr>threads := ?t (PushEnter v)\<rparr>" 0 v] by (simp add: queue_new_def)
  moreover have "q_step (?q\<lparr>owner := Some 0, threads := ?t (PushHead v)\<rparr>) (?q\<lparr>owner := Some 0, threads := ?t (PushFull v)\<rparr>)"
    using push_full [of "?q\<lparr>owner := Some 0, threads := ?t (PushHead v)\<rparr>" 0 v] by (simp add: queue_new_def)
  moreover have "q_step (?q\<lparr>owner := Some 0, threads := ?t (PushFull v)\<rparr>) (?q\<lparr>threads := ?t (PushWait v)\<rparr>)"
    using push_wait [of "?q\<lparr>owner := Some 0, threads := ?t (PushFull v)\<rparr>" 0 v] by (simp add: queue_new_def)
  moreover have "q_step (?q\<lparr>threads := ?t (PushWait v)\<rparr>) (?q\<lparr>threads := ?t (PushWait v), finishing := True, finish_pc := FlagSet\<rparr>)"
    using finished_flag [of "?q\<lparr>threads := ?t (PushWait v)\<rparr>"] by (simp add: queue_new_def)
  moreover have "q_step (?q\<lparr>threads := ?t (PushWait v), finishing := True, finish_pc := FlagSet\<rparr>) (stuck_pusher v)"
  proof -
    have "notify_empty (?t (PushWait v)) = ?t (PushWait v)" by (auto simp: notify_empty_def)
    then show ?thesis
      using finished_notify [of "?q\<lparr>threads := ?t (PushWait v), finishing := True, finish_pc := FlagSet\<rparr>"]
      by (simp add: queue_new_def stuck_pusher_def)
  qed
  ultimately show ?thesis by (metis steps_cons rtranclp.rtrancl_refl)
qed

section \<open>Properties\<close>

text \<open>
  In every interleaving, spurious wake-ups included, the queue is first-in first-out and
  bounded: the values pushed so far are the values popped so far followed by the values in the
  queue, the queue never holds more than its maximum, and at most one thread is inside the
  mutex.
\<close>

theorem safe_queue_fifo:
  assumes "queue_step\<^sup>*\<^sup>* (queue_new m) s"
  shows "pushed s = popped s @ items s \<and> length (items s) \<le> m \<and>
    (\<forall>i j. inside (threads s i) \<and> inside (threads s j) \<longrightarrow> i = j)"
  using queue_inv_reach [OF assms queue_inv_new] by (auto simp: mutex_inv_def fifo_inv_def)

theorem safe_queue_fifo_witness:
  "pushed (lost_quit 4 0) = popped (lost_quit 4 0) @ items (lost_quit 4 0)"
proof -
  have "q_step\<^sup>*\<^sup>* \<le> queue_step\<^sup>*\<^sup>*" by (rule rtranclp_mono) (auto simp: queue_step_def)
  then show ?thesis using safe_queue_fifo [of 4 "lost_quit 4 0"] lost_quit_reachable by blast
qed

text \<open>
  Notifications can be lost: \<^verbatim>\<open>quit\<close> does not take the mutex, so it can run
  completely between the check of a popper and its wait; the popper then waits although the
  queue is quitting, and no step of the queue wakes it. \<^verbatim>\<open>finished\<close> does not notify the
  waiting pushers at all: a pusher that waits on a full queue stays there.
\<close>

theorem queue_lost_notification:
  "(\<exists>s. q_step\<^sup>*\<^sup>* (queue_new m) s \<and> quitting s \<and> quit_pc s = NotCalled \<and> threads s i = PopWait \<and>
      (\<forall>s'. q_step s s' \<longrightarrow> threads s' i = PopWait)) \<and>
    (\<exists>s. q_step\<^sup>*\<^sup>* (queue_new 0) s \<and> finishing s \<and> finish_pc s = NotCalled \<and> threads s 0 = PushWait v \<and>
      (\<forall>s'. q_step s s' \<longrightarrow> threads s' 0 = PushWait v))"
proof -
  have "threads s' i = PopWait" if "q_step (lost_quit m i) s'" for s'
    by (rule pop_wait_stays [OF that]) (simp_all add: lost_quit_def queue_new_def)
  moreover have "threads s' 0 = PushWait v" if "q_step (stuck_pusher v) s'" for s'
    by (rule push_wait_stays [OF that]) (simp_all add: stuck_pusher_def queue_new_def)
  moreover have "quitting (lost_quit m i)" "quit_pc (lost_quit m i) = NotCalled" "threads (lost_quit m i) i = PopWait"
    "finishing (stuck_pusher v)" "finish_pc (stuck_pusher v) = NotCalled" "threads (stuck_pusher v) 0 = PushWait v"
    by (simp_all add: lost_quit_def stuck_pusher_def queue_new_def)
  ultimately show ?thesis using lost_quit_reachable stuck_pusher_reachable by blast
qed

theorem queue_lost_notification_witness:
  "\<exists>s. q_step\<^sup>*\<^sup>* (queue_new 4) s \<and> quitting s \<and> threads s 0 = PopWait"
  using queue_lost_notification [of 4 0] by blast

end
