(* ===== verification/UnionFind.thy ===== *)
theory UnionFind
  imports Cpp_Prelude
begin

text \<open>
  Union-find: \<^verbatim>\<open>cpp/race/union_find.cpp\<close> (iterative search with path compression) and
  the class of \<^verbatim>\<open>cpp/race/race_template.cpp\<close> that counts connected groups (recursive
  search without compression). The parents are a vector of indices; the searches are fixed
  points in the option type, because they do not return on a vector with a cycle. Both
  implementations satisfy one contract, from which it follows that any sequence of unions
  connects exactly the elements that the pairs connect.
\<close>

section \<open>The routines\<close>

abbreviation maxn :: nat where "maxn \<equiv> 110"

definition makeSet :: "nat list" where
  "makeSet = map (\<lambda>i. i) [0..<maxn]"

partial_function (option) root_loop :: "nat list \<Rightarrow> nat \<Rightarrow> nat ub" where
  "root_loop father root = do { f \<leftarrow> vget father root; if root \<noteq> f then root_loop father f else Some root }"

partial_function (option) compress_loop :: "nat list \<Rightarrow> nat \<Rightarrow> nat \<Rightarrow> nat list ub" where
  "compress_loop father x root =
     (if x \<noteq> root
      then do { tmp \<leftarrow> vget father x; father \<leftarrow> vset father x root; compress_loop father tmp root }
      else Some father)"

definition findRoot :: "nat list \<Rightarrow> nat \<Rightarrow> (nat \<times> nat list) ub" where
  "findRoot father x = do {
     root \<leftarrow> root_loop father x;
     father \<leftarrow> compress_loop father x root;
     Some (root, father)
   }"

definition Union :: "nat list \<Rightarrow> nat \<Rightarrow> nat \<Rightarrow> nat list ub" where
  "Union father x y = do {
     (a, father) \<leftarrow> findRoot father x;
     (b, father) \<leftarrow> findRoot father y;
     vset father a b
   }"

text \<open>The class of the template: recursive search, joining, and the count of groups.\<close>

definition uf_init :: "nat \<Rightarrow> nat list" where
  "uf_init n = [0..<n]"

partial_function (option) uf_find :: "nat list \<Rightarrow> nat \<Rightarrow> nat ub" where
  "uf_find father i = do { f \<leftarrow> vget father i; if i = f then Some i else uf_find father f }"

definition uf_join :: "nat list \<Rightarrow> nat \<Rightarrow> nat \<Rightarrow> nat list ub" where
  "uf_join father i j = do { i \<leftarrow> uf_find father i; j \<leftarrow> uf_find father j; vset father i j }"

fun join_row :: "nat \<Rightarrow> nat \<Rightarrow> int list \<Rightarrow> nat list \<Rightarrow> nat list ub" where
  "join_row i j [] father = Some father"
| "join_row i j (c # cs) father = do {
     father \<leftarrow> (if c \<noteq> 0 then uf_join father i j else Some father);
     join_row i (Suc j) cs father
   }"

fun join_rows :: "nat \<Rightarrow> nat \<Rightarrow> int list list \<Rightarrow> nat list \<Rightarrow> nat list ub" where
  "join_rows n i [] father = Some father"
| "join_rows n i (row # rows) father =
     (if length row < n then None
      else do { father \<leftarrow> join_row i 0 (take n row) father; join_rows n (Suc i) rows father })"

fun collect_roots :: "nat list \<Rightarrow> nat list \<Rightarrow> nat set ub" where
  "collect_roots father [] = Some {}"
| "collect_roots father (i # is) = do { r \<leftarrow> uf_find father i; rs \<leftarrow> collect_roots father is; Some (insert r rs) }"

definition uf_code :: "int list list \<Rightarrow> nat ub" where
  "uf_code isConnected = do {
     let n = length isConnected;
     father \<leftarrow> join_rows n 0 isConnected (uf_init n);
     roots \<leftarrow> collect_roots father [0..<n];
     Some (card roots)
   }"

section \<open>Forests\<close>

text \<open>\<open>rootn f x r k\<close>: the root \<open>r\<close> of \<open>x\<close> is \<open>k\<close> parents away.\<close>

inductive rootn :: "nat list \<Rightarrow> nat \<Rightarrow> nat \<Rightarrow> nat \<Rightarrow> bool" for f where
  here: "x < length f \<Longrightarrow> f ! x = x \<Longrightarrow> rootn f x x 0"
| up: "x < length f \<Longrightarrow> f ! x \<noteq> x \<Longrightarrow> rootn f (f ! x) r k \<Longrightarrow> rootn f x r (Suc k)"

inductive_cases rootn_elim: "rootn f x r k"

lemma rootn_det: "rootn f x r k \<Longrightarrow> rootn f x s l \<Longrightarrow> r = s \<and> k = l"
proof (induction arbitrary: s l rule: rootn.induct)
  case (here x)
  from here.prems show ?case by (cases rule: rootn.cases) (use here.hyps in auto)
next
  case (up x r k)
  from up.prems show ?case
  proof (cases rule: rootn.cases)
    case (up l')
    then show ?thesis using \<open>\<And>s l. rootn f (f ! x) s l \<Longrightarrow> r = s \<and> k = l\<close> by blast
  qed (use up.hyps in simp)
qed

lemma rootn_less: "rootn f x r k \<Longrightarrow> x < length f \<and> r < length f \<and> f ! r = r"
  by (induction rule: rootn.induct) auto

definition root :: "nat list \<Rightarrow> nat \<Rightarrow> nat \<Rightarrow> bool" where
  "root f x r \<longleftrightarrow> (\<exists>k. rootn f x r k)"

definition forest :: "nat \<Rightarrow> nat list \<Rightarrow> bool" where
  "forest n f \<longleftrightarrow> length f = n \<and> (\<forall>x < n. \<exists>r. root f x r)"

lemma root_det: "root f x r \<Longrightarrow> root f x s \<Longrightarrow> r = s"
  unfolding root_def using rootn_det by blast

lemma root_less: "root f x r \<Longrightarrow> x < length f \<and> r < length f \<and> f ! r = r"
  unfolding root_def using rootn_less by blast

lemma root_here: "x < length f \<Longrightarrow> f ! x = x \<Longrightarrow> root f x x"
  unfolding root_def using here by blast

lemma root_up: "x < length f \<Longrightarrow> root f (f ! x) r \<Longrightarrow> root f x r"
  unfolding root_def using up here by metis

lemma root_loop_ok: "rootn f x r k \<Longrightarrow> root_loop f x = Some r"
  by (induction rule: rootn.induct) (auto simp: root_loop.simps [of f] vget_def)

lemma uf_find_ok: "rootn f x r k \<Longrightarrow> uf_find f x = Some r"
  by (induction rule: rootn.induct) (auto simp: uf_find.simps [of f] vget_def)

text \<open>Two vectors of the same length with the same roots.\<close>

definition same_roots :: "nat list \<Rightarrow> nat list \<Rightarrow> bool" where
  "same_roots f g \<longleftrightarrow> length g = length f \<and> (\<forall>y s. root f y s \<longrightarrow> root g y s)"

lemma same_roots_trans: "same_roots f g \<Longrightarrow> same_roots g h \<Longrightarrow> same_roots f h"
  by (simp add: same_roots_def)

text \<open>Pointing an element to its root changes no root, and shorter paths stay as they are.\<close>

lemma point_to_root:
  assumes x: "rootn f x r (Suc k)"
  shows "same_roots f (f[x := r])"
proof -
  note less = rootn_less [OF x]
  have nx: "f ! x \<noteq> x" using x by (auto elim: rootn_elim)
  then have xr: "r \<noteq> x" using less by auto
  have "root (f[x := r]) y s" if "rootn f y s l" for y s l
    using that
  proof (induction rule: rootn.induct)
    case (here y)
    then show ?case using nx root_here [of y "f[x := r]"] by (cases "y = x") auto
  next
    case (up y s l)
    show ?case
    proof (cases "y = x")
      case True
      then have "s = r" using rootn_det [OF x] rootn.up [OF up.hyps] by auto
      moreover have "root (f[x := r]) r r" using less xr by (intro root_here) auto
      ultimately show ?thesis using True less root_up [of x "f[x := r]" r] by simp
    next
      case False
      then show ?thesis using up root_up [of y "f[x := r]" s] by simp
    qed
  qed
  then show ?thesis by (auto simp: same_roots_def root_def)
qed

lemma rootn_short:
  assumes x: "rootn f x r k"
  shows "rootn f y s l \<Longrightarrow> l < k \<Longrightarrow> rootn (f[x := v]) y s l"
proof (induction rule: rootn.induct)
  case (here y)
  then have "y \<noteq> x" using rootn_det [OF x] rootn.here [OF here.hyps] here.prems by auto
  then show ?case using here rootn.here [of y "f[x := v]"] by simp
next
  case (up y s l)
  then have "y \<noteq> x" using rootn_det [OF x] rootn.up [OF up.hyps] by auto
  then show ?case using up rootn.up [of y "f[x := v]" s l] by simp
qed

lemma compress_loop_ok: "rootn f x r k \<Longrightarrow> \<exists>g. compress_loop f x r = Some g \<and> same_roots f g"
proof (induction k arbitrary: f x)
  case 0
  then have "x = r" by (auto elim: rootn_elim)
  then show ?case by (simp add: compress_loop.simps [of f r r] same_roots_def)
next
  case (Suc k)
  then have u: "x < length f" "f ! x \<noteq> x" "rootn f (f ! x) r k" by (auto elim: rootn_elim)
  have xr: "x \<noteq> r" using u rootn_less [OF Suc.prems] by auto
  have "rootn (f[x := r]) (f ! x) r k" using rootn_short [OF Suc.prems u(3)] by simp
  then obtain g where "compress_loop (f[x := r]) (f ! x) r = Some g" "same_roots (f[x := r]) g" using Suc.IH by blast
  then show ?case
    using u xr point_to_root [OF Suc.prems] same_roots_trans
    by (auto simp: compress_loop.simps [of f x r] vget_def vset_def)
qed

lemma findRoot_ok: "root f x r \<Longrightarrow> \<exists>g. findRoot f x = Some (r, g) \<and> same_roots f g"
  using root_loop_ok compress_loop_ok by (fastforce simp: root_def findRoot_def)

section \<open>Joining two trees\<close>

lemma link_roots:
  assumes a: "a < length f" "f ! a = a" and b: "b < length f" "f ! b = b"
  shows "root f y s \<Longrightarrow> root (f[a := b]) y (if s = a then b else s)"
proof -
  have rb: "root (f[a := b]) b b" using a b by (intro root_here) (auto simp: nth_list_update)
  have "root (f[a := b]) y (if s = a then b else s)" if "rootn f y s l" for y s l
    using that
  proof (induction rule: rootn.induct)
    case (here y)
    then show ?case using rb root_up [of a "f[a := b]" b] root_here [of y "f[a := b]"] a by (cases "y = a") auto
  next
    case (up y s l)
    then show ?case using a root_up [of y "f[a := b]"] by (cases "y = a") auto
  qed
  then show "root f y s \<Longrightarrow> root (f[a := b]) y (if s = a then b else s)" unfolding root_def [of f] by blast
qed

definition connected :: "nat list \<Rightarrow> nat \<Rightarrow> nat \<Rightarrow> bool" where
  "connected f u v \<longleftrightarrow> (\<exists>r. root f u r \<and> root f v r)"

lemma connected_roots: "root f u r \<Longrightarrow> root f v s \<Longrightarrow> connected f u v \<longleftrightarrow> r = s"
  unfolding connected_def using root_det by blast

definition joined :: "nat \<Rightarrow> nat list \<Rightarrow> nat \<Rightarrow> nat \<Rightarrow> nat list \<Rightarrow> bool" where
  "joined n f x y g \<longleftrightarrow> forest n g \<and> (\<forall>u < n. \<forall>v < n. connected g u v \<longleftrightarrow>
     connected f u v \<or> connected f u x \<and> connected f y v \<or> connected f u y \<and> connected f x v)"

lemma link_joined:
  assumes f: "forest n f" and x: "root f x a" "x < n" and y: "root f y b" "y < n"
  shows "joined n f x y (f[a := b])"
proof -
  let ?g = "f[a := b]"
  note ra = root_less [OF x(1)] and rb = root_less [OF y(1)]
  have g: "root ?g u (if s = a then b else s)" if "root f u s" for u s using link_roots that ra rb by blast
  have ex: "\<exists>s. root f u s" if "u < n" for u using f that by (simp add: forest_def)
  have "forest n ?g" using f g ex unfolding forest_def by (metis length_list_update)
  moreover have "connected ?g u v \<longleftrightarrow>
      connected f u v \<or> connected f u x \<and> connected f y v \<or> connected f u y \<and> connected f x v" if uv: "u < n" "v < n" for u v
  proof -
    obtain s t where st: "root f u s" "root f v t" using ex uv by blast
    have c: "connected f u v \<longleftrightarrow> s = t" "connected f u x \<longleftrightarrow> s = a" "connected f y v \<longleftrightarrow> t = b" "connected f u y \<longleftrightarrow> s = b"
      "connected f x v \<longleftrightarrow> t = a"
      using connected_roots st x(1) y(1) by blast+
    have "connected ?g u v \<longleftrightarrow> (if s = a then b else s) = (if t = a then b else t)"
      by (rule connected_roots [OF g [OF st(1)] g [OF st(2)]])
    then show ?thesis unfolding c by auto
  qed
  ultimately show ?thesis by (simp add: joined_def)
qed

lemma same_roots_connected:
  assumes "forest n f" "same_roots f g"
  shows "forest n g" "u < n \<Longrightarrow> root g u r \<longleftrightarrow> root f u r"
  using assms root_det unfolding forest_def same_roots_def by metis+

lemma Union_ok:
  assumes f: "forest n f" and x: "x < n" and y: "y < n"
  shows "\<exists>g. Union f x y = Some g \<and> joined n f x y g"
proof -
  obtain a where a: "root f x a" using f x by (auto simp: forest_def)
  obtain f1 where f1: "findRoot f x = Some (a, f1)" "same_roots f f1" using findRoot_ok [OF a] by blast
  note s1 = same_roots_connected [OF f f1(2)]
  obtain b where b: "root f1 y b" using s1(1) y by (auto simp: forest_def)
  obtain f2 where f2: "findRoot f1 y = Some (b, f2)" "same_roots f1 f2" using findRoot_ok [OF b] by blast
  note s2 = same_roots_connected [OF s1(1) f2(2)]
  have r: "root f2 u r \<longleftrightarrow> root f u r" if "u < n" for u r using s1(2) s2(2) that by simp
  have "joined n f2 x y (f2[a := b])" using link_joined [OF s2(1)] a b x y r s2(2) by blast
  moreover have "connected f2 u v = connected f u v" if "u < n" "v < n" for u v using r that by (simp add: connected_def)
  ultimately have "joined n f x y (f2[a := b])" using x y by (simp add: joined_def)
  moreover have "vset f2 a b = Some (f2[a := b])" using r [OF x] a root_less [of f2 x a] by (simp add: vset_def)
  ultimately show ?thesis using f1(1) f2(1) by (simp add: Union_def)
qed

lemma uf_join_ok:
  assumes f: "forest n f" and x: "x < n" and y: "y < n"
  shows "\<exists>g. uf_join f x y = Some g \<and> joined n f x y g"
proof -
  obtain a b where ab: "root f x a" "root f y b" using f x y unfolding forest_def by blast
  then have "uf_find f x = Some a" "uf_find f y = Some b" using uf_find_ok by (auto simp: root_def)
  moreover have "vset f a b = Some (f[a := b])" using root_less [OF ab(1)] by (simp add: vset_def)
  ultimately show ?thesis using link_joined [OF f ab(1) x ab(2) y] by (simp add: uf_join_def)
qed

section \<open>The contract of union-find\<close>

fun join_all :: "(nat list \<Rightarrow> nat \<Rightarrow> nat \<Rightarrow> nat list ub) \<Rightarrow> (nat \<times> nat) list \<Rightarrow> nat list \<Rightarrow> nat list ub" where
  "join_all join [] f = Some f"
| "join_all join ((x, y) # ps) f = do { f \<leftarrow> join f x y; join_all join ps f }"

lemma join_all_append: "join_all join (ps @ qs) f = do { f \<leftarrow> join_all join ps f; join_all join qs f }"
proof (induction ps arbitrary: f)
  case (Cons p ps)
  then show ?case by (cases p; cases "join f (fst p) (snd p)") simp_all
qed simp

text \<open>The equivalence that a set of pairs generates.\<close>

definition closure :: "(nat \<times> nat) set \<Rightarrow> (nat \<times> nat) set" where
  "closure P = (P \<union> P\<inverse>)\<^sup>*"

lemma sym_closure: "(u, v) \<in> closure P \<Longrightarrow> (v, u) \<in> closure P"
  unfolding closure_def by (metis converse_Un converse_converse rtrancl_converseI sup_commute)

lemma closure_insert:
  "(u, v) \<in> closure (insert (x, y) P) \<longleftrightarrow>
    (u, v) \<in> closure P \<or> (u, x) \<in> closure P \<and> (y, v) \<in> closure P \<or> (u, y) \<in> closure P \<and> (x, v) \<in> closure P"
proof -
  have "insert (x, y) P \<union> (insert (x, y) P)\<inverse> = insert (x, y) (insert (y, x) (P \<union> P\<inverse>))" by auto
  then have e: "closure (insert (x, y) P) = (insert (x, y) (insert (y, x) (P \<union> P\<inverse>)))\<^sup>*" by (simp add: closure_def)
  let ?S = "insert (y, x) (P \<union> P\<inverse>)"
  have s1: "(p, q) \<in> ?S\<^sup>* \<longleftrightarrow> (p, q) \<in> closure P \<or> (p, y) \<in> closure P \<and> (x, q) \<in> closure P" for p q
    by (simp add: rtrancl_insert closure_def)
  have s2: "(u, v) \<in> closure (insert (x, y) P) \<longleftrightarrow> (u, v) \<in> ?S\<^sup>* \<or> (u, x) \<in> ?S\<^sup>* \<and> (y, v) \<in> ?S\<^sup>*"
    unfolding e by (simp add: rtrancl_insert [of x y])
  have refl: "(p, p) \<in> closure P" for p by (simp add: closure_def)
  have trans: "(p, q) \<in> closure P \<Longrightarrow> (q, r) \<in> closure P \<Longrightarrow> (p, r) \<in> closure P" for p q r
    unfolding closure_def by (rule rtrancl_trans)
  show ?thesis unfolding s2 s1 using refl trans by blast
qed

locale disjoint_sets =
  fixes join :: "nat list \<Rightarrow> nat \<Rightarrow> nat \<Rightarrow> nat list ub"
  assumes join_ok: "forest n f \<Longrightarrow> x < n \<Longrightarrow> y < n \<Longrightarrow> \<exists>g. join f x y = Some g \<and> joined n f x y g"
begin

lemma joins_ok:
  "\<forall>(x, y) \<in> set ps. x < n \<and> y < n \<Longrightarrow> forest n f \<Longrightarrow> \<forall>u < n. \<forall>v < n. connected f u v \<longleftrightarrow> u = v \<Longrightarrow>
    \<exists>g. join_all join ps f = Some g \<and> forest n g \<and> (\<forall>u < n. \<forall>v < n. connected g u v \<longleftrightarrow> (u, v) \<in> closure (set ps))"
proof (induction ps rule: rev_induct)
  case Nil
  then show ?case by (simp add: closure_def)
next
  case (snoc p ps)
  obtain x y where p: "p = (x, y)" by force
  have xy: "x < n" "y < n" using snoc.prems(1) p by auto
  obtain g where g: "join_all join ps f = Some g" "forest n g"
    "\<forall>u < n. \<forall>v < n. connected g u v \<longleftrightarrow> (u, v) \<in> closure (set ps)"
    using snoc by auto
  obtain h where h: "join g x y = Some h" "joined n g x y h" using join_ok [OF g(2) xy] by blast
  have "connected h u v \<longleftrightarrow> (u, v) \<in> closure (set (ps @ [p]))" if "u < n" "v < n" for u v
    using h(2) g(3) that xy p closure_insert [of u v x y "set ps"] by (simp add: joined_def)
  then show ?case using g(1) h p by (simp add: join_all_append joined_def)
qed

end

interpretation compressing: disjoint_sets Union
  by unfold_locales (rule Union_ok)

interpretation plain: disjoint_sets uf_join
  by unfold_locales (rule uf_join_ok)

lemma forest_init: "forest n (uf_init n)" "u < n \<Longrightarrow> v < n \<Longrightarrow> connected (uf_init n) u v \<longleftrightarrow> u = v"
proof -
  have r: "root (uf_init n) x x" if "x < n" for x using that by (intro root_here) (simp_all add: uf_init_def)
  show "forest n (uf_init n)" using r by (auto simp: forest_def uf_init_def)
  show "u < n \<Longrightarrow> v < n \<Longrightarrow> connected (uf_init n) u v \<longleftrightarrow> u = v" using connected_roots r by blast
qed

lemma find_connected:
  assumes "forest n f" "u < n" "v < n"
  shows "\<exists>r s. uf_find f u = Some r \<and> uf_find f v = Some s \<and> (r = s \<longleftrightarrow> connected f u v)"
    and "\<exists>r s. map_option fst (findRoot f u) = Some r \<and> map_option fst (findRoot f v) = Some s \<and> (r = s \<longleftrightarrow> connected f u v)"
proof -
  obtain r s where rs: "root f u r" "root f v s" using assms unfolding forest_def by blast
  note c = connected_roots [OF rs]
  have "uf_find f u = Some r" "uf_find f v = Some s" using rs uf_find_ok by (auto simp: root_def)
  then show "\<exists>r s. uf_find f u = Some r \<and> uf_find f v = Some s \<and> (r = s \<longleftrightarrow> connected f u v)" using c by auto
  have "map_option fst (findRoot f u) = Some r" "map_option fst (findRoot f v) = Some s"
    using findRoot_ok [OF rs(1)] findRoot_ok [OF rs(2)] by auto
  then show "\<exists>r s. map_option fst (findRoot f u) = Some r \<and> map_option fst (findRoot f v) = Some s \<and> (r = s \<longleftrightarrow> connected f u v)"
    using c by auto
qed

lemma makeSet_init: "makeSet = uf_init maxn"
  by (simp add: makeSet_def uf_init_def)

section \<open>Counting the groups\<close>

fun row_pairs :: "nat \<Rightarrow> nat \<Rightarrow> int list \<Rightarrow> (nat \<times> nat) list" where
  "row_pairs i j [] = []"
| "row_pairs i j (c # cs) = (if c \<noteq> 0 then [(i, j)] else []) @ row_pairs i (Suc j) cs"

fun matrix_pairs :: "nat \<Rightarrow> nat \<Rightarrow> int list list \<Rightarrow> (nat \<times> nat) list" where
  "matrix_pairs n i [] = []"
| "matrix_pairs n i (row # rows) = row_pairs i 0 (take n row) @ matrix_pairs n (Suc i) rows"

lemma join_row_eq: "join_row i j cs f = join_all uf_join (row_pairs i j cs) f"
  by (induction i j cs f rule: join_row.induct) (auto split: bind_splits)

lemma join_rows_eq:
  "\<forall>row \<in> set rows. n \<le> length row \<Longrightarrow> join_rows n i rows f = join_all uf_join (matrix_pairs n i rows) f"
  by (induction n i rows f rule: join_rows.induct) (auto simp: join_row_eq join_all_append not_less split: bind_splits)

lemma set_row_pairs: "set (row_pairs i j cs) = {(i, j + k) | k. k < length cs \<and> cs ! k \<noteq> 0}"
proof (induction cs arbitrary: j)
  case (Cons c cs)
  have "{(i, j + k) | k. k < length (c # cs) \<and> (c # cs) ! k \<noteq> 0} =
      (if c \<noteq> 0 then {(i, j)} else {}) \<union> {(i, Suc j + k) | k. k < length cs \<and> cs ! k \<noteq> 0}" (is "?L = ?R")
  proof (intro set_eqI iffI)
    fix p assume "p \<in> ?L"
    then obtain k where "p = (i, j + k)" "k < length (c # cs)" "(c # cs) ! k \<noteq> 0" by blast
    then show "p \<in> ?R" by (cases k) auto
  next
    fix p assume "p \<in> ?R"
    then consider "c \<noteq> 0" "p = (i, j)" | k where "p = (i, Suc j + k)" "k < length cs" "cs ! k \<noteq> 0" by (auto split: if_splits)
    then show "p \<in> ?L" by cases (force intro: exI [of _ 0], force intro: exI [of _ "Suc _"])
  qed
  then show ?case using Cons [of "Suc j"] by (simp add: Un_commute)
qed simp

lemma set_matrix_pairs:
  "\<forall>row \<in> set rows. n \<le> length row \<Longrightarrow>
    set (matrix_pairs n i rows) = {(i + a, b) | a b. a < length rows \<and> b < n \<and> rows ! a ! b \<noteq> 0}"
proof (induction rows arbitrary: i)
  case (Cons row rows)
  have len: "n \<le> length row" using Cons.prems by simp
  have IH: "set (matrix_pairs n (Suc i) rows) = {(Suc i + a, b) | a b. a < length rows \<and> b < n \<and> rows ! a ! b \<noteq> 0}"
    using Cons by simp
  show ?case
  proof (intro set_eqI)
    fix p :: "nat \<times> nat"
    obtain u v where p: "p = (u, v)" by force
    have "p \<in> set (matrix_pairs n i (row # rows)) \<longleftrightarrow>
        (u = i \<and> v < n \<and> row ! v \<noteq> 0) \<or> (\<exists>a. u = Suc i + a \<and> a < length rows \<and> v < n \<and> rows ! a ! v \<noteq> 0)"
      using len by (auto simp: p set_row_pairs IH)
    also have "\<dots> \<longleftrightarrow> (\<exists>a. u = i + a \<and> a < length (row # rows) \<and> v < n \<and> (row # rows) ! a ! v \<noteq> 0)"
      by (auto simp: nth_Cons' gr0_conv_Suc split: if_splits)
    finally show "p \<in> set (matrix_pairs n i (row # rows)) \<longleftrightarrow>
        p \<in> {(i + a, b) | a b. a < length (row # rows) \<and> b < n \<and> (row # rows) ! a ! b \<noteq> 0}" by (auto simp: p)
  qed
qed simp

lemma collect_roots_ok: "\<forall>x \<in> set is. \<exists>r. root f x r \<Longrightarrow> collect_roots f is = Some {r. \<exists>x \<in> set is. root f x r}"
proof (induction "is")
  case (Cons x xs)
  obtain r where r: "root f x r" using Cons.prems by auto
  then have "uf_find f x = Some r" using uf_find_ok by (auto simp: root_def)
  moreover have "{s. \<exists>y \<in> set (x # xs). root f y s} = insert r {s. \<exists>y \<in> set xs. root f y s}"
    using r root_det by auto
  ultimately show ?case using Cons by simp
qed simp

definition groups :: "nat \<Rightarrow> (nat \<times> nat) set \<Rightarrow> nat set set" where
  "groups n P = {..<n} // {(u, v). u < n \<and> v < n \<and> (u, v) \<in> closure P}"

lemma card_roots:
  assumes f: "forest n f" and c: "\<forall>u < n. \<forall>v < n. connected f u v \<longleftrightarrow> (u, v) \<in> closure P"
  shows "card {r. \<exists>x < n. root f x r} = card (groups n P)"
proof (rule bij_betw_same_card [of "\<lambda>r. {v. v < n \<and> root f v r}"])
  let ?R = "{r. \<exists>x < n. root f x r}" and ?c = "\<lambda>r. {v. v < n \<and> root f v r}"
  have len: "length f = n" using f by (simp add: forest_def)
  have self: "r \<in> ?c r" if "r \<in> ?R" for r
  proof -
    have "\<exists>x. root f x r" using that by blast
    then have "r < n" "f ! r = r" using root_less len by auto
    then show ?thesis using root_here len by simp
  qed
  have "inj_on ?c ?R"
  proof (rule inj_onI)
    fix r s assume "r \<in> ?R" "s \<in> ?R" "?c r = ?c s"
    then have "root f r r" "root f r s" using self by blast+
    then show "r = s" by (rule root_det)
  qed
  moreover have "?c ` ?R = groups n P"
  proof (intro set_eqI iffI)
    fix C assume "C \<in> ?c ` ?R"
    then obtain r x where x: "x < n" "root f x r" "C = ?c r" by blast
    have "C = {(u, v). u < n \<and> v < n \<and> (u, v) \<in> closure P} `` {x}"
      unfolding x(3) using x(1,2) c connected_roots root_det f unfolding forest_def by (auto, metis, metis)
    then show "C \<in> groups n P" using x(1) by (auto simp: groups_def quotient_def)
  next
    fix C assume "C \<in> groups n P"
    then obtain x where x: "x < n" "C = {(u, v). u < n \<and> v < n \<and> (u, v) \<in> closure P} `` {x}"
      by (auto simp: groups_def quotient_def)
    obtain r where r: "root f x r" using f x(1) by (auto simp: forest_def)
    have "C = ?c r" unfolding x(2) using x(1) r c connected_roots root_det f unfolding forest_def by (auto, metis, metis)
    then show "C \<in> ?c ` ?R" using x(1) r by blast
  qed
  ultimately show "bij_betw ?c ?R (groups n P)" by (simp add: bij_betw_def)
qed

section \<open>Properties\<close>

text \<open>
  C21. Take any sequence of unions of pairs within range, from the initial array (of \<open>n\<close>
  elements for the class of the template, of 110 elements for the routines with path
  compression). Every union returns; afterwards every search returns, and two elements have
  the same root exactly when the equivalence generated by the pairs relates them. In
  particular path compression changes no answer.
\<close>

theorem union_find_closure:
  assumes "\<forall>(x, y) \<in> set ps. x < n \<and> y < n" and "\<forall>(x, y) \<in> set qs. x < maxn \<and> y < maxn"
  shows "(\<exists>f. join_all uf_join ps (uf_init n) = Some f \<and>
      (\<forall>u < n. \<forall>v < n. \<exists>r s. uf_find f u = Some r \<and> uf_find f v = Some s \<and> (r = s \<longleftrightarrow> (u, v) \<in> closure (set ps)))) \<and>
    (\<exists>f. join_all Union qs makeSet = Some f \<and>
      (\<forall>u < maxn. \<forall>v < maxn. \<exists>r s. map_option fst (findRoot f u) = Some r \<and> map_option fst (findRoot f v) = Some s \<and>
        (r = s \<longleftrightarrow> (u, v) \<in> closure (set qs))))"
proof (rule conjI)
  obtain f where f: "join_all uf_join ps (uf_init n) = Some f" "forest n f"
    "\<forall>u < n. \<forall>v < n. connected f u v \<longleftrightarrow> (u, v) \<in> closure (set ps)"
    using plain.joins_ok [OF assms(1) forest_init(1)] forest_init(2) by blast
  then show "\<exists>f. join_all uf_join ps (uf_init n) = Some f \<and>
      (\<forall>u < n. \<forall>v < n. \<exists>r s. uf_find f u = Some r \<and> uf_find f v = Some s \<and> (r = s \<longleftrightarrow> (u, v) \<in> closure (set ps)))"
    using find_connected(1) [OF f(2)] by simp
  obtain g where g: "join_all Union qs makeSet = Some g" "forest maxn g"
    "\<forall>u < maxn. \<forall>v < maxn. connected g u v \<longleftrightarrow> (u, v) \<in> closure (set qs)"
    using compressing.joins_ok [OF assms(2) forest_init(1)] forest_init(2) unfolding makeSet_init by blast
  then show "\<exists>f. join_all Union qs makeSet = Some f \<and>
      (\<forall>u < maxn. \<forall>v < maxn. \<exists>r s. map_option fst (findRoot f u) = Some r \<and> map_option fst (findRoot f v) = Some s \<and>
        (r = s \<longleftrightarrow> (u, v) \<in> closure (set qs)))"
    using find_connected(2) [OF g(2)] by simp
qed

lemma union_find_closure_witness:
  "\<exists>f. join_all uf_join [(0, 1), (1, 2)] (uf_init 4) = Some f \<and>
      (\<forall>u < 4. \<forall>v < 4. \<exists>r s. uf_find f u = Some r \<and> uf_find f v = Some s \<and> (r = s \<longleftrightarrow> (u, v) \<in> closure (set [(0, 1), (1, 2)])))"
  using union_find_closure [of "[(0, 1), (1, 2)]" 4 "[(3, 5)]"] by auto

text \<open>
  \<^verbatim>\<open>code\<close> returns for every square matrix, and what it returns is the number of
  classes into which the equivalence generated by the nonzero entries divides the indices.
\<close>

theorem uf_code_counts_groups:
  assumes "\<forall>row \<in> set M. length M \<le> length row"
  shows "uf_code M = Some (card (groups (length M) {(a, b). a < length M \<and> b < length M \<and> M ! a ! b \<noteq> 0}))"
proof -
  let ?n = "length M"
  let ?ps = "matrix_pairs ?n 0 M"
  have ps: "set ?ps = {(a, b). a < ?n \<and> b < ?n \<and> M ! a ! b \<noteq> 0}" using set_matrix_pairs [OF assms, of 0] by auto
  then have "\<forall>(x, y) \<in> set ?ps. x < ?n \<and> y < ?n" by auto
  then obtain f where f: "join_all uf_join ?ps (uf_init ?n) = Some f" "forest ?n f"
    "\<forall>u < ?n. \<forall>v < ?n. connected f u v \<longleftrightarrow> (u, v) \<in> closure (set ?ps)"
    using plain.joins_ok forest_init by blast
  have "collect_roots f [0..<?n] = Some {r. \<exists>x \<in> set [0..<?n]. root f x r}"
    using f(2) by (intro collect_roots_ok) (simp add: forest_def)
  moreover have "{r. \<exists>x \<in> set [0..<?n]. root f x r} = {r. \<exists>x < ?n. root f x r}" by auto
  ultimately show ?thesis
    using card_roots [OF f(2,3)] f(1) ps join_rows_eq [OF assms, of 0 "uf_init ?n"] by (simp add: uf_code_def Let_def)
qed

lemma uf_code_counts_groups_witness:
  "uf_code [[1, 1, 0], [1, 1, 0], [0, 0, 1]] =
    Some (card (groups 3 {(a, b). a < 3 \<and> b < 3 \<and> [[1, 1, 0], [1, 1, 0], [0, 0, 1::int]] ! a ! b \<noteq> 0}))"
  using uf_code_counts_groups [of "[[1, 1, 0], [1, 1, 0], [0, 0, 1]]"] by (simp add: numeral_3_eq_3)

end
