(* ===== verification/RaceNumbers.thy ===== *)
theory RaceNumbers
  imports Cpp_Prelude
begin

text \<open>
  The number routines of \<^verbatim>\<open>cpp/race/race_template.cpp\<close>: modular power on
  \<^verbatim>\<open>long long\<close> with the unsigned modulus, Euclid's loop, addition of decimal
  strings, the primality test, the linear sieve, and the search by
  \<^verbatim>\<open>std::lower_bound\<close>. Signed overflow is \<^term>\<open>None\<close>; the conversions
  between signed and unsigned 64-bit numbers are written out.
\<close>

section \<open>64-bit arithmetic\<close>

definition in_ll :: "int \<Rightarrow> bool" where
  "in_ll x \<longleftrightarrow> - (2 ^ 63) \<le> x \<and> x < 2 ^ 63"

definition as_ll :: "int \<Rightarrow> int ub" where
  "as_ll x = (if in_ll x then Some x else None)"

definition to_u64 :: "int \<Rightarrow> int" where
  "to_u64 x = x mod 2 ^ 64"

definition to_ll :: "int \<Rightarrow> int" where
  "to_ll x = (x + 2 ^ 63) mod 2 ^ 64 - 2 ^ 63"

lemma as_ll_in [simp]: "in_ll x \<Longrightarrow> as_ll x = Some x"
  by (simp add: as_ll_def)

lemma in_ll_nonneg: "0 \<le> x \<Longrightarrow> x < 2 ^ 63 \<Longrightarrow> in_ll x"
  by (simp add: in_ll_def)

lemma to_u64_nonneg: "0 \<le> x \<Longrightarrow> in_ll x \<Longrightarrow> to_u64 x = x"
  by (simp add: to_u64_def in_ll_def)

lemma to_ll_small: "in_ll x \<Longrightarrow> to_ll x = x"
  by (simp add: to_ll_def in_ll_def)

section \<open>Modular power\<close>

abbreviation MOD :: int where "MOD \<equiv> 1000000007"

text \<open>\<^verbatim>\<open>(a * b) % mod\<close>: a signed product, reduced as an unsigned number, stored as a signed one.\<close>

definition mulmod :: "int \<Rightarrow> int \<Rightarrow> int ub" where
  "mulmod a b = do { p \<leftarrow> as_ll (a * b); Some (to_ll (to_u64 p mod MOD)) }"

function quick_pow_loop :: "int \<Rightarrow> int \<Rightarrow> int \<Rightarrow> int ub" where
  "quick_pow_loop res x n =
     (if n > 0
      then do {
        res \<leftarrow> (if odd n then mulmod res x else Some res);
        x \<leftarrow> mulmod x x;
        quick_pow_loop res x (n div 2)
      }
      else Some res)"
  by pat_completeness auto
termination
  by (relation "measure (\<lambda>(res, x, n). nat n)") auto

declare quick_pow_loop.simps [simp del]

definition quick_pow :: "int \<Rightarrow> int \<Rightarrow> int ub" where
  "quick_pow x n = quick_pow_loop 1 x n"

lemma mulmod_ok:
  assumes "0 \<le> a" "0 \<le> b" "a * b < 2 ^ 63"
  shows "mulmod a b = Some (a * b mod MOD)"
proof -
  have "0 \<le> a * b" using assms by simp
  then have l: "in_ll (a * b)" using assms(3) by (rule in_ll_nonneg)
  have "in_ll (a * b mod MOD)"
    using order_less_trans [OF pos_mod_bound [of MOD "a * b"], of "2 ^ 63"] by (intro in_ll_nonneg) simp_all
  then show ?thesis using l assms by (simp add: mulmod_def to_u64_nonneg to_ll_small)
qed

text \<open>The greatest base whose square is a \<^verbatim>\<open>long long\<close>.\<close>

abbreviation base_max :: int where "base_max \<equiv> 3037000499"

lemma mulmod_base:
  assumes "0 \<le> a" "a < MOD" "0 \<le> b" "b \<le> base_max"
  shows "mulmod a b = Some (a * b mod MOD)"
proof (rule mulmod_ok)
  have "a * b \<le> MOD * base_max" using assms by (intro mult_mono) auto
  then show "a * b < 2 ^ 63" by simp
qed (use assms in auto)

lemma mulmod_square:
  assumes "0 \<le> b" "b \<le> base_max"
  shows "mulmod b b = Some (b * b mod MOD)"
proof (rule mulmod_ok)
  have "b * b \<le> base_max * base_max" using assms by (intro mult_mono) auto
  then show "b * b < 2 ^ 63" by simp
qed (use assms in auto)

lemma square_step:
  fixes r x n m :: int
  assumes "n > 0"
  shows "(if odd n then r * x mod m else r) * (x * x mod m) ^ nat (n div 2) mod m = r * x ^ nat n mod m"
proof -
  let ?k = "nat (n div 2)"
  have pw: "q * (x * x mod m) ^ ?k mod m = q * (x * x) ^ ?k mod m" for q
    by (metis mod_mult_right_eq power_mod)
  show ?thesis
  proof (cases "odd n")
    case True
    then have n: "nat n = Suc (2 * ?k)" using assms by (auto elim!: oddE simp: nat_mult_distrib nat_add_distrib)
    show ?thesis using True pw by (simp add: n power_mult power2_eq_square mult.assoc mod_mult_left_eq)
  next
    case False
    then have n: "nat n = 2 * ?k" using assms by (auto elim!: evenE simp: nat_mult_distrib)
    show ?thesis using False pw by (simp add: n power_mult power2_eq_square)
  qed
qed

lemma quick_pow_loop_ok:
  "0 \<le> res \<Longrightarrow> res < MOD \<Longrightarrow> 0 \<le> x \<Longrightarrow> x \<le> base_max \<Longrightarrow> 0 \<le> n \<Longrightarrow>
    quick_pow_loop res x n = Some (res * x ^ nat n mod MOD)"
proof (induction res x n rule: quick_pow_loop.induct)
  case (1 res x n)
  show ?case
  proof (cases "n > 0")
    case False
    then have "n = 0" using "1.prems" by simp
    then show ?thesis using "1.prems" by (simp add: quick_pow_loop.simps [of res x 0])
  next
    case True
    define x' res' where "x' = x * x mod MOD" and "res' = (if odd n then res * x mod MOD else res)"
    have x: "mulmod x x = Some x'" unfolding x'_def by (rule mulmod_square [OF "1.prems"(3,4)])
    have r: "(if odd n then mulmod res x else Some res) = Some res'"
      unfolding res'_def using mulmod_base [OF "1.prems"(1,2,3,4)] by (cases "odd n") simp_all
    have bx: "0 \<le> x'" "x' < MOD" unfolding x'_def by simp_all
    have br: "0 \<le> res'" "res' < MOD" unfolding res'_def using "1.prems"(1,2) by (cases "odd n"; simp)+
    have IH: "quick_pow_loop res' x' (n div 2) = Some (res' * x' ^ nat (n div 2) mod MOD)"
      by (rule "1.IH" [OF True r x br bx(1)]) (use bx True in linarith)+
    have "res' * x' ^ nat (n div 2) mod MOD = res * x ^ nat n mod MOD"
      unfolding x'_def res'_def by (rule square_step [OF True])
    then show ?thesis using True IH unfolding quick_pow_loop.simps [of res x n] r x by simp
  qed
qed

section \<open>Euclid's loop\<close>

text \<open>The template at \<^verbatim>\<open>int\<close>. The loop need not end when a number is negative.\<close>

partial_function (option) gcd_loop :: "int \<Rightarrow> int \<Rightarrow> int ub" where
  "gcd_loop big small =
     (if small \<noteq> 0
      then let (big, small) = (if small > big then (small, big) else (big, small))
           in if small = 0 then None else gcd_loop small (trem big small)
      else Some big)"

definition gcd_template :: "int \<Rightarrow> int \<Rightarrow> int ub" where
  "gcd_template big small =
     (let (big, small) = (if small > big then (small, big) else (big, small)) in gcd_loop big small)"

lemma gcd_loop_ok: "0 \<le> small \<Longrightarrow> small \<le> big \<Longrightarrow> gcd_loop big small = Some (gcd big small)"
proof (induction "nat small" arbitrary: big small rule: less_induct)
  case less
  show ?case
  proof (cases "small = 0")
    case True
    then show ?thesis using less.prems by (simp add: gcd_loop.simps)
  next
    case False
    then have "gcd_loop small (big mod small) = Some (gcd small (big mod small))"
      using less by (intro less.hyps) (auto simp: less_imp_le)
    moreover have "gcd small (big mod small) = gcd big small" by (metis gcd.commute gcd_red_int)
    ultimately show ?thesis using False less.prems by (simp add: gcd_loop.simps [of big small])
  qed
qed

lemma gcd_loop_diverges: "gcd_loop big small \<noteq> Some r" if "(big, small) = (4, -6) \<or> (big, small) = (-6, 4)"
proof
  assume "gcd_loop big small = Some r"
  then have "\<not> ((big, small) = (4, -6) \<or> (big, small) = (-6, 4))"
  proof (rule gcd_loop.raw_induct [rotated], goal_cases)
    case (1 f big small r)
    show ?case using 1(2) 1(1) [of "-6" 4 r] by (auto simp: trem_def split: if_splits)
  qed
  then show False using that by auto
qed

section \<open>Search with lower_bound\<close>

text \<open>
  \<^verbatim>\<open>std::lower_bound\<close> requires a range that is partitioned with respect to the key
  and returns its partition point. The index found is kept in the member
  \<^verbatim>\<open>res\<close>, which is also what a search returns.
\<close>

definition lower_bound :: "int list \<Rightarrow> int \<Rightarrow> nat ub" where
  "lower_bound nums target =
     (let p = length (takeWhile (\<lambda>x. x < target) nums)
      in if \<forall>x \<in> set (drop p nums). \<not> x < target then Some p else None)"

definition bound_search :: "int \<Rightarrow> int list \<Rightarrow> int \<Rightarrow> int ub" where
  "bound_search res nums target = do {
     p \<leftarrow> lower_bound nums target;
     if p < length nums then do { v \<leftarrow> vget nums p; Some (if v = target then int p else res) } else Some res
   }"

lemma sorted_takeWhile_less:
  fixes nums :: "int list"
  assumes "sorted nums"
  shows "\<forall>x \<in> set (drop (length (takeWhile (\<lambda>x. x < t) nums)) nums). t \<le> x"
    and "length (takeWhile (\<lambda>x. x < t) nums) < length nums \<and> nums ! length (takeWhile (\<lambda>x. x < t) nums) = t \<longleftrightarrow> t \<in> set nums"
  using assms by (induction nums) (auto simp: not_less)

lemma search_sorted:
  "sorted nums \<Longrightarrow> bound_search res nums target =
    Some (if target \<in> set nums then int (length (takeWhile (\<lambda>x. x < target) nums)) else res)"
  using sorted_takeWhile_less [of nums target] by (auto simp: bound_search_def lower_bound_def Let_def vget_def not_less)

section \<open>The primality test\<close>

definition prime_number :: "int \<Rightarrow> bool" where
  "prime_number n \<longleftrightarrow> 1 < n \<and> (\<forall>d. 1 < d \<and> d dvd n \<longrightarrow> d = n)"

function is_prime_loop :: "int \<Rightarrow> int \<Rightarrow> bool ub" where
  "is_prime_loop val t = do {
     tt \<leftarrow> as_int (t * t);
     if tt < val
     then if t = 0 then None
          else if trem val t = 0 then Some False
          else is_prime_loop val (t + 1)
     else Some True
   }"
  by pat_completeness auto
termination
proof (relation "measure (\<lambda>(val, t). nat (val - t))", goal_cases)
  case (2 val t tt)
  then have "t * t < val" by (auto simp: as_int_def split: if_splits)
  moreover have "t \<le> t * t" by (cases "t \<le> 0") (auto intro: order_trans)
  ultimately show ?case by simp
qed simp

declare is_prime_loop.simps [simp del]

definition is_prime :: "int \<Rightarrow> bool ub" where
  "is_prime val = (if val \<le> 1 then Some False else is_prime_loop val 2)"

text \<open>The greatest number whose square is an \<^verbatim>\<open>int\<close>.\<close>

abbreviation root_max :: int where "root_max \<equiv> 46340"

lemma square_in_int: "0 \<le> t \<Longrightarrow> in_int (t * t) \<longleftrightarrow> t \<le> root_max"
proof -
  assume t: "0 \<le> t"
  have "t * t \<le> root_max * root_max" if "t \<le> root_max" using t that by (intro mult_mono) auto
  moreover have "(root_max + 1) * (root_max + 1) \<le> t * t" if "\<not> t \<le> root_max" using t that by (intro mult_mono) auto
  moreover have "INT_MIN \<le> t * t" by (rule order_trans [OF _ zero_le_square]) simp
  ultimately show ?thesis unfolding in_int_def by (cases "t \<le> root_max") auto
qed

definition small_divisor :: "int \<Rightarrow> int \<Rightarrow> bool" where
  "small_divisor t val \<longleftrightarrow> (\<exists>d. t \<le> d \<and> d \<le> root_max \<and> d * d < val \<and> d dvd val)"

lemma is_prime_loop_ok:
  "2 \<le> t \<Longrightarrow> t \<le> root_max + 1 \<Longrightarrow> (t - 1) * (t - 1) < val \<Longrightarrow>
    is_prime_loop val t =
      (if small_divisor t val then Some False else if val \<le> root_max * root_max then Some True else None)"
proof (induction val t rule: is_prime_loop.induct)
  case (1 val t)
  note e = is_prime_loop.simps [of val t]
  show ?case
  proof (cases "t \<le> root_max")
    case False
    then have "t = root_max + 1" using "1.prems" by simp
    then show ?thesis using e "1.prems" by (auto simp: small_divisor_def in_int_def as_int_def)
  next
    case t: True
    have i: "as_int (t * t) = Some (t * t)" using t "1.prems" square_in_int [of t] by simp
    show ?thesis
    proof (cases "t * t < val")
      case False
      have "t * t \<le> d * d" if "t \<le> d" for d using that "1.prems" by (intro mult_mono) auto
      then have "\<not> small_divisor t val" using False by (force simp: small_divisor_def)
      moreover have "val \<le> root_max * root_max"
        using False t "1.prems" mult_mono [of t root_max t root_max] by simp
      ultimately show ?thesis using e i False by simp
    next
      case lt: True
      have tr: "trem val t = 0 \<longleftrightarrow> t dvd val"
        using "1.prems" order_le_less_trans [OF zero_le_square lt] by (simp add: dvd_eq_mod_eq_0)
      show ?thesis
      proof (cases "t dvd val")
        case True
        then have "small_divisor t val" using t lt by (auto simp: small_divisor_def)
        then show ?thesis using e i lt tr True "1.prems" by simp
      next
        case False
        have sd: "small_divisor t val = small_divisor (t + 1) val"
        proof -
          have "t + 1 \<le> d" if "t \<le> d" "d dvd val" for d using that False by (cases "d = t") auto
          then show ?thesis unfolding small_divisor_def by (meson add_increasing2 le_add1 order_trans zless_add1_eq less_imp_le)
        qed
        have "is_prime_loop val (t + 1) =
            (if small_divisor (t + 1) val then Some False else if val \<le> root_max * root_max then Some True else None)"
          using "1.IH" [OF i lt] "1.prems" t lt tr False by simp
        then show ?thesis using e i lt tr False "1.prems" sd by simp
      qed
    qed
  qed
qed

lemma no_small_divisor:
  assumes "1 < val"
  shows "(\<forall>d. 1 < d \<and> d * d < val \<longrightarrow> \<not> d dvd val) \<longleftrightarrow> prime_number val \<or> (\<exists>p. prime_number p \<and> val = p * p)"
    (is "?N \<longleftrightarrow> ?P")
proof
  assume N: ?N
  show ?P
  proof (cases "prime_number val")
    case False
    then obtain d where d: "1 < d" "d dvd val" "d \<noteq> val" using assms by (auto simp: prime_number_def)
    then obtain e where e: "val = d * e" by blast
    have "0 < e" using d(1) assms e zero_less_mult_iff [of d e] by auto
    then have "1 < e" using d(3) e by (cases "e = 1") auto
    have "\<not> d < e" "\<not> e < d"
      using N d \<open>1 < e\<close> e mult_strict_left_mono [of d e d] mult_strict_right_mono [of e d e] by auto
    then have de: "val = d * d" using e by simp
    have "prime_number d"
      unfolding prime_number_def
    proof (intro conjI allI impI)
      fix c assume c: "1 < c \<and> c dvd d"
      then have "c \<le> d" using d(1) by (auto dest: zdvd_imp_le)
      moreover have "\<not> c < d" using N c de mult_strict_mono [of c d c d] by auto
      ultimately show "c = d" by simp
    qed (rule d(1))
    then show ?thesis using de by blast
  qed simp
next
  assume P: ?P
  show ?N
  proof (intro allI impI notI)
    fix d assume d: "1 < d \<and> d * d < val" "d dvd val"
    from P show False
    proof
      assume "prime_number val"
      then have "d = val" using d by (simp add: prime_number_def)
      then show False using d mult_strict_left_mono [of 1 val val] by auto
    next
      assume "\<exists>p. prime_number p \<and> val = p * p"
      then obtain p where p: "prime_number p" "val = p * p" by blast
      have lt: "d < p" using d p mult_mono [of p d p d] by (force simp: prime_number_def)
      have "coprime d p"
      proof (rule ccontr)
        assume "\<not> coprime d p"
        then have "gcd d p \<noteq> 1" by (simp add: coprime_iff_gcd_eq_1)
        moreover have "0 < gcd d p" using d(1) by simp
        ultimately have "1 < gcd d p" by linarith
        then have "gcd d p = p" using p(1) gcd_dvd2 unfolding prime_number_def by blast
        then have "p dvd d" by (metis gcd_dvd1)
        then show False using lt d by (auto dest: zdvd_imp_le)
      qed
      then have "d dvd p" using d(2) p(2) by (simp add: coprime_dvd_mult_right_iff)
      then show False using p(1) d(1) lt unfolding prime_number_def by blast
    qed
  qed
qed

section \<open>Addition of decimal strings\<close>

text \<open>
  A string is the list of its character codes; storing into a \<^verbatim>\<open>char\<close> reduces to
  eight signed bits. Lengths are those of strings shorter than $2^{31}$, so that the indices of
  type \<^verbatim>\<open>int\<close> are exact.
\<close>

definition to_char :: "int \<Rightarrow> int" where
  "to_char x = (x + 128) mod 256 - 128"

function add_loop :: "int list \<Rightarrow> int list \<Rightarrow> int \<Rightarrow> int \<Rightarrow> int list ub" where
  "add_loop maxx minn a i =
     (if i \<ge> 0
      then do {
        m \<leftarrow> iget maxx a;
        d \<leftarrow> iget minn i;
        maxx \<leftarrow> iset maxx a (to_char (m + (d - 48)));
        add_loop maxx minn (a - 1) (i - 1)
      }
      else Some maxx)"
  by pat_completeness auto
termination
  by (relation "measure (\<lambda>(maxx, minn, a, i). nat (i + 1))") auto

function carry_loop :: "int list \<Rightarrow> int \<Rightarrow> int list ub" where
  "carry_loop maxx i =
     (if i > 0
      then do {
        m \<leftarrow> iget maxx i;
        maxx \<leftarrow> (if m > 57
          then do {
            maxx \<leftarrow> iset maxx i (to_char (m - 10));
            p \<leftarrow> iget maxx (i - 1);
            iset maxx (i - 1) (to_char (p + 1))
          }
          else Some maxx);
        carry_loop maxx (i - 1)
      }
      else Some maxx)"
  by pat_completeness auto
termination
  by (relation "measure (\<lambda>(maxx, i). nat i)") auto

declare add_loop.simps [simp del] carry_loop.simps [simp del]

definition big_add :: "int list \<Rightarrow> int list \<Rightarrow> int list ub" where
  "big_add s1 s2 =
     (if s1 = [] \<and> s2 = [] then Some [48]
      else if s1 = [] then Some s2
      else if s2 = [] then Some s1
      else do {
        let (maxx, minn) = (if length s1 < length s2 then (s2, s1) else (s1, s2));
        maxx \<leftarrow> add_loop maxx minn (int (length maxx) - 1) (int (length minn) - 1);
        maxx \<leftarrow> carry_loop maxx (int (length maxx) - 1);
        m \<leftarrow> vget maxx 0;
        if m > 57
        then do { maxx \<leftarrow> vset maxx 0 (to_char (m - 10)); Some (49 # maxx) }
        else Some maxx
      })"

definition decimal :: "int list \<Rightarrow> bool" where
  "decimal s \<longleftrightarrow> (\<forall>c \<in> set s. 48 \<le> c \<and> c \<le> 57)"

definition number :: "int list \<Rightarrow> int" where
  "number s = foldl (\<lambda>v c. 10 * v + (c - 48)) 0 s"

lemma to_char_ascii: "0 \<le> x \<Longrightarrow> x < 128 \<Longrightarrow> to_char x = x"
  by (simp add: to_char_def)

lemma number_Nil [simp]: "number [] = 0"
  by (simp add: number_def)

lemma number_snoc [simp]: "number (s @ [c]) = 10 * number s + (c - 48)"
  by (simp add: number_def)

lemma number_Cons: "number (c # s) = (c - 48) * 10 ^ length s + number s"
  by (induction s rule: rev_induct) (simp_all add: number_def algebra_simps)

lemma number_update:
  "k < length s \<Longrightarrow> number (s[k := v]) = number s + (v - s ! k) * 10 ^ (length s - 1 - k)"
proof (induction s arbitrary: k)
  case (Cons c s)
  then show ?case by (cases k) (simp_all add: number_Cons algebra_simps)
qed simp

lemma number_take:
  assumes "0 \<le> i" "i < int (length s)"
  shows "number (take (nat (i + 1)) s) = 10 * number (take (nat i) s) + (s ! nat i - 48)"
proof -
  have "take (nat (i + 1)) s = take (nat i) s @ [s ! nat i]"
    using assms take_Suc_conv_app_nth [of "nat i" s] by (simp add: nat_add_distrib)
  then show ?thesis by simp
qed

text \<open>Digits up to position \<open>a\<close>, sums of two digits behind it.\<close>

definition half_added :: "int \<Rightarrow> int list \<Rightarrow> bool" where
  "half_added a xs \<longleftrightarrow> (\<forall>k < length xs. 48 \<le> xs ! k \<and> (if int k \<le> a then xs ! k \<le> 57 else xs ! k \<le> 66))"

lemma half_added_step:
  "half_added a xs \<Longrightarrow> 0 \<le> a \<Longrightarrow> a < int (length xs) \<Longrightarrow> 48 \<le> d \<Longrightarrow> d \<le> 57 \<Longrightarrow>
    half_added (a - 1) (xs[nat a := xs ! nat a + (d - 48)])"
  unfolding half_added_def by (auto simp: nth_list_update)

lemma add_loop_ok:
  "half_added a xs \<Longrightarrow> decimal minn \<Longrightarrow> -1 \<le> i \<Longrightarrow> i < int (length minn) \<Longrightarrow> i \<le> a \<Longrightarrow> a < int (length xs) \<Longrightarrow>
    int (length xs) - a = int (length minn) - i \<Longrightarrow>
    \<exists>ys. add_loop xs minn a i = Some ys \<and> length ys = length xs \<and> half_added (a - i - 1) ys \<and>
      number ys = number xs + number (take (nat (i + 1)) minn) * 10 ^ nat (int (length minn) - 1 - i)"
proof (induction xs minn a i rule: add_loop.induct)
  case (1 xs minn a i)
  show ?case
  proof (cases "i \<ge> 0")
    case False
    then have "i = -1" using "1.prems" by simp
    then show ?thesis using "1.prems"(1) by (simp add: add_loop.simps [of xs minn a "-1"])
  next
    case True
    let ?m = "xs ! nat a" and ?d = "minn ! nat i"
    let ?ys = "xs[nat a := ?m + (?d - 48)]"
    have na: "nat a < length xs" "0 \<le> a" using True "1.prems" by auto
    have d: "48 \<le> ?d" "?d \<le> 57" using "1.prems"(2,4) True by (auto simp: decimal_def)
    have m: "48 \<le> ?m" "?m \<le> 57" using "1.prems"(1) na by (auto simp: half_added_def)
    have s: "iget xs a = Some ?m" "iget minn i = Some ?d" "iset xs a (to_char (?m + (?d - 48))) = Some ?ys"
      using True "1.prems" d m by (simp_all add: vec_simps to_char_ascii)
    have "half_added (a - 1) ?ys" using half_added_step "1.prems"(1) na d by simp
    then obtain zs where z: "add_loop ?ys minn (a - 1) (i - 1) = Some zs" "length zs = length xs"
      "half_added (a - i - 1) zs"
      "number zs = number ?ys + number (take (nat i) minn) * 10 ^ nat (int (length minn) - i)"
      using "1.IH" [OF True s] "1.prems" True by auto
    have e: "nat (int (length minn) - i) = Suc (nat (int (length minn) - 1 - i))"
      "length xs - 1 - nat a = nat (int (length minn) - 1 - i)"
      using "1.prems" True by auto
    have "number zs = number xs + number (take (nat (i + 1)) minn) * 10 ^ nat (int (length minn) - 1 - i)"
      using z(4) number_update [OF na(1), of "?m + (?d - 48)"] number_take [OF True "1.prems"(4)]
      by (simp only: e) (simp add: algebra_simps)
    then show ?thesis using z(1-3) s True by (simp add: add_loop.simps [of xs minn a i])
  qed
qed

text \<open>Carrying from the right: digits behind position \<open>i\<close>, one carry at it, sums before it.\<close>

definition half_carried :: "int \<Rightarrow> int list \<Rightarrow> bool" where
  "half_carried i xs \<longleftrightarrow> (\<forall>k < length xs. 48 \<le> xs ! k \<and>
     xs ! k \<le> (if int k < i then 66 else if int k = i then 67 else 57))"

lemma carry_loop_ok:
  "half_carried i xs \<Longrightarrow> 0 \<le> i \<Longrightarrow> i < int (length xs) \<Longrightarrow>
    \<exists>ys. carry_loop xs i = Some ys \<and> length ys = length xs \<and> half_carried 0 ys \<and> number ys = number xs"
proof (induction xs i rule: carry_loop.induct)
  case (1 xs i)
  show ?case
  proof (cases "i > 0")
    case False
    then have "i = 0" using "1.prems" by simp
    then show ?thesis using "1.prems"(1) by (simp add: carry_loop.simps [of xs 0])
  next
    case True
    let ?m = "xs ! nat i" and ?p = "xs ! nat (i - 1)"
    have n: "nat i < length xs" "nat (i - 1) < length xs" using True "1.prems" by auto
    have m: "48 \<le> ?m" "?m \<le> 67" "48 \<le> ?p" "?p \<le> 66" using "1.prems"(1) n True by (force simp: half_carried_def)+
    define ys where "ys = (if ?m > 57 then xs[nat i := ?m - 10, nat (i - 1) := ?p + 1] else xs)"
    have s: "iget xs i = Some ?m" using True "1.prems" by (simp add: vec_simps)
    have u: "(if ?m > 57 then do { maxx \<leftarrow> iset xs i (to_char (?m - 10)); p \<leftarrow> iget maxx (i - 1);
            iset maxx (i - 1) (to_char (p + 1)) } else Some xs) = Some ys"
      using True "1.prems" m by (simp add: ys_def vec_simps to_char_ascii nth_list_update nat_eq_iff)
    have hc: "half_carried (i - 1) ys"
      unfolding half_carried_def
    proof (intro allI impI)
      fix k assume "k < length ys"
      then have k: "k < length xs" by (simp add: ys_def split: if_splits)
      have b: "48 \<le> xs ! k" "xs ! k \<le> (if int k < i then 66 else if int k = i then 67 else 57)"
        using "1.prems"(1) k by (auto simp: half_carried_def)
      have nth: "ys ! k = (if ?m > 57 then (if int k = i - 1 then ?p + 1 else if int k = i then ?m - 10 else xs ! k) else xs ! k)"
        using k True by (auto simp: ys_def nth_list_update nat_eq_iff)
      consider "int k < i - 1" | "int k = i - 1" | "int k = i" | "int k > i" by linarith
      then show "48 \<le> ys ! k \<and> ys ! k \<le> (if int k < i - 1 then 66 else if int k = i - 1 then 67 else 57)"
      proof cases
        case 3
        then have "xs ! k = ?m" by auto
        then show ?thesis using 3 nth m by auto
      qed (use nth b m in auto)
    qed
    have "length xs - 1 - nat (i - 1) = Suc (length xs - 1 - nat i)" using n True by linarith
    then have num: "number ys = number xs"
      using n True by (simp add: ys_def number_update nth_list_update nat_eq_iff)
    have "length ys = length xs" by (simp add: ys_def)
    then have "\<exists>zs. carry_loop ys (i - 1) = Some zs \<and> length zs = length ys \<and> half_carried 0 zs \<and> number zs = number ys"
      using "1.IH" [OF True s u hc] True "1.prems"(3) by simp
    then show ?thesis using num \<open>length ys = length xs\<close> True s u by (simp add: carry_loop.simps [of xs i])
  qed
qed

lemma half_carried_decimal: "half_carried 0 xs \<Longrightarrow> xs \<noteq> [] \<Longrightarrow> xs ! 0 \<le> 57 \<Longrightarrow> decimal xs"
  unfolding half_carried_def decimal_def by (auto simp: in_set_conv_nth) (metis not_gr_zero)

lemma big_add_core:
  assumes "decimal xs" "decimal ys" "ys \<noteq> []" "length ys \<le> length xs"
  shows "\<exists>zs ws. add_loop xs ys (int (length xs) - 1) (int (length ys) - 1) = Some zs \<and>
    carry_loop zs (int (length zs) - 1) = Some ws \<and> length ws = length xs \<and> half_carried 0 ws \<and>
    number ws = number xs + number ys"
proof -
  have "half_added (int (length xs) - 1) xs" using assms(1) by (auto simp: half_added_def decimal_def)
  then obtain zs where zs: "add_loop xs ys (int (length xs) - 1) (int (length ys) - 1) = Some zs"
    "length zs = length xs" "half_added (int (length xs) - int (length ys) - 1) zs"
    "number zs = number xs + number ys"
    using add_loop_ok [of "int (length xs) - 1" xs ys "int (length ys) - 1"] assms by auto
  have "48 \<le> zs ! k \<and> zs ! k \<le> 66" if "k < length zs" for k
    using zs(3) that by (cases "int k \<le> int (length xs) - int (length ys) - 1") (auto simp: half_added_def)
  then have "half_carried (int (length zs) - 1) zs" by (force simp: half_carried_def)
  moreover have "0 < length zs" using assms zs(2) by auto
  ultimately show ?thesis using carry_loop_ok [of "int (length zs) - 1" zs] zs by auto
qed

section \<open>Properties of the number routines\<close>

text \<open>
  On decimal strings \<^verbatim>\<open>big_add\<close> never indexes outside a string, returns a
  decimal string that is not empty, and the number it denotes is the sum of the numbers the
  arguments denote; empty arguments denote zero.
\<close>

theorem big_add_spec:
  assumes "decimal s1" "decimal s2"
  shows "\<exists>r. big_add s1 s2 = Some r \<and> decimal r \<and> r \<noteq> [] \<and> number r = number s1 + number s2"
proof (cases "s1 = [] \<or> s2 = []")
  case True
  then show ?thesis using assms by (auto simp: big_add_def decimal_def number_Cons)
next
  case False
  define xs ys where "xs = (if length s1 < length s2 then s2 else s1)" and "ys = (if length s1 < length s2 then s1 else s2)"
  have xy: "decimal xs" "decimal ys" "ys \<noteq> []" "length ys \<le> length xs" "number xs + number ys = number s1 + number s2"
    "(if length s1 < length s2 then (s2, s1) else (s1, s2)) = (xs, ys)"
    using assms False by (auto simp: xs_def ys_def)
  obtain zs ws where w: "add_loop xs ys (int (length xs) - 1) (int (length ys) - 1) = Some zs"
    "carry_loop zs (int (length zs) - 1) = Some ws" "length ws = length xs" "half_carried 0 ws"
    "number ws = number s1 + number s2"
    using big_add_core [OF xy(1-4)] xy(5) by auto
  obtain c cs where cs: "ws = c # cs" using w(3) xy(3,4) by (cases ws) auto
  have c: "48 \<le> c" "c \<le> 67" "\<forall>d \<in> set cs. 48 \<le> d \<and> d \<le> 57"
    using w(4) unfolding half_carried_def cs by (force simp: in_set_conv_nth)+
  have e: "big_add s1 s2 = (if c > 57 then Some (49 # (c - 10) # cs) else Some ws)"
    using False c w(1,2) by (simp add: big_add_def xy(6) cs vget_def vset_def to_char_ascii)
  have "number (49 # (c - 10) # cs) = number ws" by (simp add: cs number_Cons algebra_simps)
  moreover have "decimal (49 # (c - 10) # cs)" if "c > 57" using that c by (simp add: decimal_def)
  moreover have "decimal ws" if "\<not> c > 57" using that c by (simp add: decimal_def cs)
  ultimately show ?thesis using e w(5) cs by (cases "c > 57") auto
qed

lemma big_add_spec_witness:
  "\<exists>r. big_add [57, 57] [49] = Some r \<and> decimal r \<and> r \<noteq> [] \<and> number r = number [57, 57] + number [49]"
  by (rule big_add_spec) (simp_all add: decimal_def)

text \<open>
  \<^verbatim>\<open>quick_pow\<close> returns \<open>x\<close> to the power \<open>n\<close> modulo \<open>10\<^sup>9 + 7\<close> for
  every base up to 3037000499 and every exponent, with no signed overflow; above that base the
  square of the base overflows. A negative base is reduced as an unsigned number, so
  the result is not the power: \<open>(-1)\<^sup>1\<close> gives 582344007.
\<close>

theorem quick_pow_spec:
  "(0 \<le> x \<and> x \<le> base_max \<and> 0 \<le> n \<longrightarrow> quick_pow x n = Some (x ^ nat n mod MOD)) \<and>
   (base_max < x \<and> 0 < n \<longrightarrow> quick_pow x n = None) \<and>
   quick_pow (-1) 1 = Some 582344007"
proof (intro conjI impI)
  assume "0 \<le> x \<and> x \<le> base_max \<and> 0 \<le> n"
  then show "quick_pow x n = Some (x ^ nat n mod MOD)"
    using quick_pow_loop_ok [of 1 x n] by (simp add: quick_pow_def)
next
  assume "base_max < x \<and> 0 < n"
  then have x: "base_max < x" and n: "0 < n" by simp_all
  have "(base_max + 1) * (base_max + 1) \<le> x * x" using x by (intro mult_mono) auto
  then have "\<not> in_ll (x * x)" by (simp add: in_ll_def)
  then have "mulmod x x = None" by (simp add: mulmod_def as_ll_def)
  then show "quick_pow x n = None"
    using n by (cases "if odd n then mulmod 1 x else Some 1") (simp_all add: quick_pow_def quick_pow_loop.simps [of 1 x n])
next
  have "mulmod 1 (-1) = Some 582344007" by (simp add: mulmod_def in_ll_def to_u64_def to_ll_def)
  moreover have "mulmod (-1) (-1) = Some 1" by (simp add: mulmod_def in_ll_def to_u64_def to_ll_def)
  ultimately show "quick_pow (-1) 1 = Some 582344007"
    by (simp add: quick_pow_def quick_pow_loop.simps [of 1 "-1" 1] quick_pow_loop.simps [of _ _ 0])
qed

lemma quick_pow_spec_witness: "quick_pow 3 5 = Some (3 ^ nat 5 mod MOD)"
  using quick_pow_spec [of 3 5] by simp

text \<open>
  Euclid's loop returns the greatest common divisor of every two numbers that are not
  negative, in either order; with a negative argument it need not return: for 4 and -6 the
  exchange in the loop undoes each step.
\<close>

theorem gcd_template_spec:
  "(0 \<le> a \<and> 0 \<le> b \<longrightarrow> gcd_template a b = Some (gcd a b)) \<and> gcd_template 4 (-6) = None"
  using gcd_loop_ok [of b a] gcd_loop_ok [of a b] gcd_loop_diverges [of 4 "-6"]
  by (auto simp: gcd_template_def gcd.commute)

lemma gcd_template_spec_witness: "gcd_template 12 18 = Some (gcd 12 18)"
  using gcd_template_spec [of 12 18] by simp

text \<open>
  \<^verbatim>\<open>is_prime\<close> answers true exactly for the primes and the squares of primes
  (its bound is strict) as long as the argument is at most 46340 squared; for greater
  primes the product of the loop condition overflows.
\<close>

theorem is_prime_spec:
  "(val \<le> root_max * root_max \<longrightarrow> is_prime val = Some (prime_number val \<or> (\<exists>p. prime_number p \<and> val = p * p))) \<and>
   (root_max * root_max < val \<and> prime_number val \<longrightarrow> is_prime val = None)"
proof (intro conjI impI)
  assume v: "val \<le> root_max * root_max"
  show "is_prime val = Some (prime_number val \<or> (\<exists>p. prime_number p \<and> val = p * p))"
  proof (cases "val \<le> 1")
    case True
    have "1 < p * p" if "prime_number p" for p
      using that less_1_mult [of p p] by (simp add: prime_number_def)
    then show ?thesis using True by (force simp: is_prime_def prime_number_def)
  next
    case False
    have "d \<le> root_max" if "1 < d" "d * d < val" for d
      using that v mult_mono [of "root_max + 1" d "root_max + 1" d] by (cases "d \<le> root_max") auto
    moreover have "2 \<le> d \<longleftrightarrow> 1 < d" for d :: int by auto
    ultimately have "small_divisor 2 val \<longleftrightarrow> \<not> (\<forall>d. 1 < d \<and> d * d < val \<longrightarrow> \<not> d dvd val)"
      unfolding small_divisor_def by blast
    then show ?thesis using False v is_prime_loop_ok [of 2 val] no_small_divisor [of val] by (simp add: is_prime_def)
  qed
next
  assume "root_max * root_max < val \<and> prime_number val"
  then have v: "root_max * root_max < val" and p: "prime_number val" by simp_all
  have "\<not> small_divisor 2 val"
  proof
    assume "small_divisor 2 val"
    then obtain d where d: "2 \<le> d" "d \<le> root_max" "d dvd val" by (auto simp: small_divisor_def)
    then have "d = val" using p by (simp add: prime_number_def)
    then show False using d(2) v by simp
  qed
  then show "is_prime val = None" using v is_prime_loop_ok [of 2 val] by (simp add: is_prime_def)
qed

lemma is_prime_spec_witness: "is_prime 4 = Some (prime_number 4 \<or> (\<exists>p. prime_number p \<and> 4 = p * p))"
  using is_prime_spec [of 4] by simp

text \<open>
  A search in a sorted vector returns the first index of the key if the vector holds it,
  and otherwise the member \<^verbatim>\<open>res\<close>: -1 on a fresh object, but the result of the last
  successful search on an object that has found something before.
\<close>

theorem search_stale:
  "sorted nums \<Longrightarrow> bound_search res nums target =
    Some (if target \<in> set nums then int (length (takeWhile (\<lambda>x. x < target) nums)) else res)"
  by (rule search_sorted)

lemma search_stale_witness: "bound_search 2 [1, 3, 5] 4 = Some 2"
  using search_stale [of "[1, 3, 5]" 2 4] by simp

end
