(* ===== verification/PrimeSieve.thy ===== *)
theory PrimeSieve
  imports RaceNumbers
begin

text \<open>
  The linear sieve \<^verbatim>\<open>get_primes\<close> of \<^verbatim>\<open>cpp/race/race_template.cpp\<close>. The
  function returns nothing; the model returns its two vectors, the primes found and the marks.
\<close>

section \<open>The sieve\<close>

function sieve_inner :: "int \<Rightarrow> int \<Rightarrow> int list \<Rightarrow> nat \<Rightarrow> int list \<Rightarrow> int list ub" where
  "sieve_inner maxV i primes j check =
     (if j < length primes
      then do {
        p \<leftarrow> vget primes j;
        m \<leftarrow> as_int (p * i);
        if m > maxV then Some check
        else do {
          check \<leftarrow> iset check m 1;
          if p = 0 then None
          else if trem i p = 0 then Some check
          else sieve_inner maxV i primes (Suc j) check
        }
      }
      else Some check)"
  by pat_completeness auto
termination
  by (relation "measure (\<lambda>(maxV, i, primes, j, check). length primes - j)") auto

function sieve_outer :: "int \<Rightarrow> int \<Rightarrow> int list \<Rightarrow> int list \<Rightarrow> (int list \<times> int list) ub" where
  "sieve_outer maxV i primes check =
     (if i \<le> maxV
      then do {
        c \<leftarrow> iget check i;
        let primes = (if c = 0 then primes @ [i] else primes);
        check \<leftarrow> sieve_inner maxV i primes 0 check;
        i' \<leftarrow> as_int (i + 1);
        sieve_outer maxV i' primes check
      }
      else Some (primes, check))"
  by pat_completeness auto
termination
  by (relation "measure (\<lambda>(maxV, i, primes, check). nat (maxV + 1 - i))") (auto simp: as_int_def split: if_splits)

declare sieve_inner.simps [simp del] sieve_outer.simps [simp del]

definition get_primes :: "int \<Rightarrow> (int list \<times> int list) ub" where
  "get_primes maxV = do {
     n \<leftarrow> as_int (maxV + 1);
     if n < 0 then None
     else do {
       let check = replicate (nat n) 0;
       check \<leftarrow> iset check 1 1;
       check \<leftarrow> iset check 0 1;
       sieve_outer maxV 2 [] check
     }
   }"

section \<open>Least prime factors\<close>

lemma prime_divisor:
  assumes "1 < k"
  shows "\<exists>p. prime_number p \<and> p dvd k \<and> (\<forall>q. prime_number q \<and> q dvd k \<longrightarrow> p \<le> q)"
proof -
  define n where "n = (LEAST n. 1 < n \<and> int n dvd k)"
  have ex: "1 < nat k \<and> int (nat k) dvd k" using assms by simp
  have n: "1 < n \<and> int n dvd k" unfolding n_def by (rule LeastI) (rule ex)
  have least: "n \<le> m" if "1 < m" "int m dvd k" for m unfolding n_def using that by (intro Least_le) simp
  have least': "int n \<le> d" if "1 < d" "d dvd k" for d using least [of "nat d"] that by simp
  have "d = int n" if d: "1 < d" "d dvd int n" for d
  proof -
    have "d dvd k" using d n by (auto intro: dvd_trans)
    then show ?thesis using least' d zdvd_imp_le [OF d(2)] n by fastforce
  qed
  then have "prime_number (int n)" using n by (simp add: prime_number_def)
  moreover have "\<forall>q. prime_number q \<and> q dvd k \<longrightarrow> int n \<le> q" using least' by (simp add: prime_number_def)
  ultimately show ?thesis using n by blast
qed

text \<open>The numbers crossed out in the rounds before \<open>i\<close>.\<close>

definition crossed_by :: "int \<Rightarrow> int \<Rightarrow> bool" where
  "crossed_by i k \<longleftrightarrow> (\<exists>p. prime_number p \<and> k = p * i \<and> (\<forall>q. prime_number q \<and> q dvd i \<longrightarrow> p \<le> q))"

definition crossed :: "int \<Rightarrow> int \<Rightarrow> bool" where
  "crossed i k \<longleftrightarrow> (\<exists>i'. 2 \<le> i' \<and> i' < i \<and> crossed_by i' k)"

lemma crossed_iff:
  assumes "2 \<le> k" "k \<le> i"
  shows "crossed i k \<longleftrightarrow> \<not> prime_number k"
proof
  assume "crossed i k"
  then obtain p i' where p: "2 \<le> i'" "prime_number p" "k = p * i'" by (auto simp: crossed_def crossed_by_def)
  then have "i' \<noteq> k" "i' dvd k" using p by (auto simp: prime_number_def)
  then show "\<not> prime_number k" using p(1) by (auto simp: prime_number_def intro!: exI [of _ i'])
next
  assume np: "\<not> prime_number k"
  obtain p where p: "prime_number p" "p dvd k" "\<forall>q. prime_number q \<and> q dvd k \<longrightarrow> p \<le> q"
    using prime_divisor [of k] assms by auto
  then obtain m where m: "k = p * m" by blast
  have "0 < m" using m assms p(1) zero_less_mult_iff [of p m] by (auto simp: prime_number_def)
  moreover have "m \<noteq> 1" using np p(1) m by auto
  ultimately have "2 \<le> m" by linarith
  moreover have "m < k" using m p(1) \<open>0 < m\<close> mult_strict_right_mono [of 1 p m] by (simp add: prime_number_def)
  moreover have "crossed_by m k" using p m by (auto simp: crossed_by_def)
  ultimately show "crossed i k" using assms(2) by (auto simp: crossed_def)
qed

section \<open>The loops\<close>

definition marked :: "int list \<Rightarrow> int \<Rightarrow> bool" where
  "marked check k \<longleftrightarrow> 0 \<le> k \<and> k < int (length check) \<and> check ! nat k \<noteq> 0"

lemma marked_update:
  "0 \<le> m \<Longrightarrow> m < int (length check) \<Longrightarrow> marked (check[nat m := 1]) k \<longleftrightarrow> k = m \<or> marked check k"
  by (auto simp: marked_def nth_list_update nat_eq_iff eq_nat_nat_iff)

text \<open>What the inner loop marks: the products up to the first prime that divides \<open>i\<close>.\<close>

definition new_mark :: "int \<Rightarrow> int \<Rightarrow> int list \<Rightarrow> int \<Rightarrow> bool" where
  "new_mark maxV i ps k \<longleftrightarrow> (\<exists>p \<in> set ps. k = p * i \<and> k \<le> maxV \<and> (\<forall>q \<in> set ps. q dvd i \<longrightarrow> p \<le> q))"

lemma new_mark_Cons:
  assumes "0 < p" "0 < i" "\<forall>q \<in> set ps. p < q"
  shows "new_mark maxV i (p # ps) k \<longleftrightarrow>
    p * i \<le> maxV \<and> (k = p * i \<or> \<not> p dvd i \<and> new_mark maxV i ps k)"
proof -
  have lt: "p * i < q * i" if "q \<in> set ps" for q using assms that by simp
  have "p * i \<le> maxV" if "q \<in> set ps" "q * i \<le> maxV" for q using lt [OF that(1)] that(2) by linarith
  then show ?thesis using assms unfolding new_mark_def by (auto simp: order_less_imp_le)
qed

lemma sieve_inner_ok:
  "0 < i \<Longrightarrow> sorted_wrt (<) (drop j primes) \<Longrightarrow> \<forall>p \<in> set (drop j primes). 0 < p \<and> in_int (p * i) \<Longrightarrow>
    length check = nat (maxV + 1) \<Longrightarrow>
    \<exists>ch. sieve_inner maxV i primes j check = Some ch \<and> length ch = length check \<and>
      (\<forall>k. marked ch k \<longleftrightarrow> marked check k \<or> new_mark maxV i (drop j primes) k)"
proof (induction maxV i primes j check rule: sieve_inner.induct)
  case (1 maxV i primes j check)
  note e = sieve_inner.simps [of maxV i primes j check]
  show ?case
  proof (cases "j < length primes")
    case False
    then show ?thesis using e by (simp add: new_mark_def)
  next
    case True
    define p ps where "p = primes ! j" and "ps = drop (Suc j) primes"
    have d: "drop j primes = p # ps" using True by (simp add: p_def ps_def Cons_nth_drop_Suc)
    have p: "0 < p" "in_int (p * i)" "\<forall>q \<in> set ps. p < q" using "1.prems"(2,3) d by auto
    have g: "vget primes j = Some p" "as_int (p * i) = Some (p * i)" using True p by (simp_all add: vget_def p_def)
    note nm = new_mark_Cons [OF p(1) "1.prems"(1) p(3), of maxV]
    show ?thesis
    proof (cases "p * i > maxV")
      case big: True
      then show ?thesis using e True g d nm by simp
    next
      case small: False
      have pi: "0 < p * i" using p(1) "1.prems"(1) by simp
      then have len: "p * i < int (length check)" using small "1.prems"(4) by simp
      let ?ch = "check[nat (p * i) := 1]"
      have s: "iset check (p * i) 1 = Some ?ch" using pi len by (simp add: vec_simps)
      have mu: "marked ?ch k \<longleftrightarrow> k = p * i \<or> marked check k" for k using marked_update pi len by simp
      have tr: "trem i p = 0 \<longleftrightarrow> p dvd i" using p(1) "1.prems"(1) by (simp add: dvd_eq_mod_eq_0)
      show ?thesis
      proof (cases "p dvd i")
        case dv: True
        then show ?thesis using e True g small s tr mu d nm p(1) by auto
      next
        case nd: False
        then have "\<exists>ch. sieve_inner maxV i primes (Suc j) ?ch = Some ch \<and> length ch = length ?ch \<and>
            (\<forall>k. marked ch k \<longleftrightarrow> marked ?ch k \<or> new_mark maxV i (drop (Suc j) primes) k)"
          using "1.IH" [OF True g small s] "1.prems" p(1) tr d ps_def by simp
        then show ?thesis using e True g small s tr nd mu d nm p(1) unfolding ps_def by auto
      qed
    qed
  qed
qed

text \<open>The state before round \<open>i\<close>.\<close>

definition sieved :: "int \<Rightarrow> int \<Rightarrow> int list \<Rightarrow> int list \<Rightarrow> bool" where
  "sieved maxV i primes check \<longleftrightarrow> sorted_wrt (<) primes \<and> set primes = {p. prime_number p \<and> p < i} \<and>
     length check = nat (maxV + 1) \<and>
     (\<forall>k. marked check k \<longleftrightarrow> 0 \<le> k \<and> k \<le> maxV \<and> (k < 2 \<or> crossed i k))"

lemma crossed_Suc: "2 \<le> i \<Longrightarrow> crossed (i + 1) k \<longleftrightarrow> crossed i k \<or> crossed_by i k"
  unfolding crossed_def by (metis zless_add1_eq)

lemma new_mark_primes:
  assumes "2 \<le> i" "set ps = {p. prime_number p \<and> p \<le> i}"
  shows "new_mark maxV i ps k \<longleftrightarrow> k \<le> maxV \<and> crossed_by i k"
proof -
  obtain r where r: "prime_number r" "r dvd i" using prime_divisor [of i] assms(1) by auto
  have le: "q \<le> i" if "q dvd i" for q using that assms(1) by (auto dest: zdvd_imp_le)
  then have "p \<le> i" if "\<forall>q. prime_number q \<and> q dvd i \<longrightarrow> p \<le> q" for p using that r by force
  then show ?thesis using assms(2) le unfolding new_mark_def crossed_by_def by auto
qed

lemma sieve_outer_ok:
  "2 \<le> i \<Longrightarrow> i \<le> maxV + 1 \<Longrightarrow> maxV \<le> root_max \<Longrightarrow> sieved maxV i primes check \<Longrightarrow>
    \<exists>ps ch. sieve_outer maxV i primes check = Some (ps, ch) \<and> sieved maxV (maxV + 1) ps ch"
proof (induction maxV i primes check rule: sieve_outer.induct)
  case (1 maxV i primes check)
  note e = sieve_outer.simps [of maxV i primes check]
  note inv = "1.prems"(4) [unfolded sieved_def]
  show ?case
  proof (cases "i \<le> maxV")
    case False
    then have "i = maxV + 1" using "1.prems" by simp
    then show ?thesis using e "1.prems" by simp
  next
    case True
    let ?c = "check ! nat i"
    have len: "i < int (length check)" using inv True "1.prems" by simp
    have g: "iget check i = Some ?c" using len "1.prems" by (simp add: vec_simps)
    have "marked check i \<longleftrightarrow> crossed i i" using inv True "1.prems"(1) by simp
    then have c: "?c = 0 \<longleftrightarrow> prime_number i"
      using crossed_iff [of i i] len "1.prems"(1) by (simp add: marked_def)
    define ps where "ps = (if ?c = 0 then primes @ [i] else primes)"
    have ps: "set ps = {p. prime_number p \<and> p \<le> i}"
    proof -
      have "set ps = set primes \<union> (if prime_number i then {i} else {})" using c by (simp add: ps_def)
      then show ?thesis using inv by (auto simp: le_less)
    qed
    have st: "sorted_wrt (<) ps" using inv by (auto simp: ps_def sorted_wrt_append)
    have pos: "\<forall>p \<in> set ps. 0 < p \<and> in_int (p * i)"
    proof
      fix p assume "p \<in> set ps"
      then have p: "1 < p" "p \<le> i" using ps by (auto simp: prime_number_def)
      have "p * i \<le> root_max * root_max" using p True "1.prems" by (intro mult_mono) auto
      moreover have "0 \<le> p * i" using p "1.prems" by simp
      ultimately show "0 < p \<and> in_int (p * i)" using p unfolding in_int_def by linarith
    qed
    obtain ch where ch: "sieve_inner maxV i ps 0 check = Some ch" "length ch = length check"
      "\<forall>k. marked ch k \<longleftrightarrow> marked check k \<or> new_mark maxV i ps k"
      using sieve_inner_ok [of i 0 ps check maxV] st pos inv "1.prems"(1) by auto
    have pk: "0 \<le> k" if "crossed_by i k" for k
      using that "1.prems"(1) by (auto simp: crossed_by_def prime_number_def)
    have "sieved maxV (i + 1) ps ch"
      unfolding sieved_def using st ps ch(2,3) inv new_mark_primes [OF "1.prems"(1) ps] crossed_Suc [OF "1.prems"(1)] pk
      by auto
    moreover have i: "as_int (i + 1) = Some (i + 1)" using True "1.prems" by (simp add: in_int_def)
    ultimately have "\<exists>ps' ch'. sieve_outer maxV (i + 1) ps ch = Some (ps', ch') \<and> sieved maxV (maxV + 1) ps' ch'"
      using "1.IH" [OF True g ps_def ch(1) i] "1.prems" True by simp
    then show ?thesis using e True g ch(1) i by (simp add: ps_def)
  qed
qed

section \<open>Property\<close>

text \<open>
  For every bound from 1 to 46340 the sieve never writes outside its vector and no product
  overflows; it collects exactly the primes up to the bound, in ascending order, and its marks
  are exactly 0, 1 and the composite numbers up to the bound. For the bounds 0 and below the
  initial writes are already outside the vector.
\<close>

theorem get_primes_spec:
  "(1 \<le> maxV \<and> maxV \<le> root_max \<longrightarrow>
    (\<exists>primes check. get_primes maxV = Some (primes, check) \<and> sorted_wrt (<) primes \<and>
      set primes = {p. prime_number p \<and> p \<le> maxV} \<and>
      (\<forall>k. 0 \<le> k \<and> k \<le> maxV \<longrightarrow> (check ! nat k \<noteq> 0 \<longleftrightarrow> \<not> prime_number k)))) \<and>
   (maxV \<le> 0 \<longrightarrow> get_primes maxV = None)"
proof (intro conjI impI)
  assume "1 \<le> maxV \<and> maxV \<le> root_max"
  then have b: "1 \<le> maxV" "maxV \<le> root_max" by simp_all
  let ?ch = "(replicate (nat (maxV + 1)) (0 :: int))[1 := 1, 0 := 1]"
  have "marked ?ch k \<longleftrightarrow> 0 \<le> k \<and> k \<le> maxV \<and> k < 2" for k
    using b by (auto simp: marked_def nth_list_update nat_eq_iff)
  moreover have "\<not> crossed 2 k" for k by (simp add: crossed_def)
  ultimately have "sieved maxV 2 [] ?ch" by (auto simp: sieved_def prime_number_def)
  then obtain ps ch where r: "sieve_outer maxV 2 [] ?ch = Some (ps, ch)" "sieved maxV (maxV + 1) ps ch"
    using sieve_outer_ok [of 2 maxV "[]" ?ch] b by auto
  have g: "get_primes maxV = Some (ps, ch)" using b r(1) by (simp add: get_primes_def in_int_def vec_simps)
  have m: "ch ! nat k \<noteq> 0 \<longleftrightarrow> \<not> prime_number k" if k: "0 \<le> k" "k \<le> maxV" for k
  proof -
    have "ch ! nat k \<noteq> 0 \<longleftrightarrow> marked ch k" using r(2) k by (simp add: sieved_def marked_def)
    also have "\<dots> \<longleftrightarrow> k < 2 \<or> crossed (maxV + 1) k" using r(2) k by (simp add: sieved_def)
    also have "\<dots> \<longleftrightarrow> \<not> prime_number k"
      using crossed_iff [of k "maxV + 1"] k by (cases "k < 2") (auto simp: prime_number_def)
    finally show ?thesis .
  qed
  have "sorted_wrt (<) ps" "set ps = {p. prime_number p \<and> p \<le> maxV}" using r(2) by (auto simp: sieved_def)
  then show "\<exists>primes check. get_primes maxV = Some (primes, check) \<and> sorted_wrt (<) primes \<and>
      set primes = {p. prime_number p \<and> p \<le> maxV} \<and>
      (\<forall>k. 0 \<le> k \<and> k \<le> maxV \<longrightarrow> (check ! nat k \<noteq> 0 \<longleftrightarrow> \<not> prime_number k))"
    using g m by blast
next
  assume "maxV \<le> 0"
  then show "get_primes maxV = None" by (simp add: get_primes_def as_int_def iset_def)
qed

lemma get_primes_spec_witness:
  "\<exists>primes check. get_primes 30 = Some (primes, check) \<and> sorted_wrt (<) primes \<and>
      set primes = {p. prime_number p \<and> p \<le> 30} \<and>
      (\<forall>k. 0 \<le> k \<and> k \<le> 30 \<longrightarrow> (check ! nat k \<noteq> 0 \<longleftrightarrow> \<not> prime_number k))"
  using get_primes_spec [of 30] by simp

end
