(* ===== verification/Trie.thy ===== *)
theory Trie
  imports Cpp_Prelude "HOL-Library.Sublist"
begin

text \<open>
  \<^verbatim>\<open>cpp/race/Trie.cpp\<close>: a trie of words with a counter in every node, and the program
  that reads commands. A node is a tree with \<^verbatim>\<open>maxn\<close> child pointers; the file does
  not define that constant, so it is a parameter of the model. Words are lists of character
  codes. A child index outside the array and a null pointer that is dereferenced are
  \<^term>\<open>None\<close>.
\<close>

section \<open>The trie\<close>

datatype trie = Trie (cnt: int) (nexts: "trie option list")

definition new_trie :: "nat \<Rightarrow> trie" where
  "new_trie maxn = Trie 0 (replicate maxn None)"

fun Insert :: "nat \<Rightarrow> int list \<Rightarrow> trie \<Rightarrow> trie ub" where
  "Insert maxn [] tem = Some tem"
| "Insert maxn (c # word) tem = do {
     let x = c - 97;
     p \<leftarrow> iget (nexts tem) x;
     let q = (case p of None \<Rightarrow> new_trie maxn | Some q \<Rightarrow> q);
     k \<leftarrow> as_int (cnt q + 1);
     q \<leftarrow> Insert maxn word (Trie k (nexts q));
     ns \<leftarrow> iset (nexts tem) x (Some q);
     Some (Trie (cnt tem) ns)
   }"

fun Search :: "int list \<Rightarrow> trie \<Rightarrow> int ub" where
  "Search [] tem = Some (cnt tem)"
| "Search (c # word) tem = do {
     p \<leftarrow> iget (nexts tem) (c - 97);
     case p of None \<Rightarrow> Some 0 | Some q \<Rightarrow> Search word q
   }"

fun Delete :: "nat \<Rightarrow> int list \<Rightarrow> int \<Rightarrow> trie \<Rightarrow> trie ub" where
  "Delete maxn [] t tem = Some (Trie (cnt tem) (replicate maxn None))"
| "Delete maxn (c # word) t tem = do {
     let x = c - 97;
     p \<leftarrow> iget (nexts tem) x;
     case p of
       None \<Rightarrow> None
     | Some q \<Rightarrow> do {
         k \<leftarrow> as_int (cnt q - t);
         q \<leftarrow> Delete maxn word t (Trie k (nexts q));
         ns \<leftarrow> iset (nexts tem) x (Some q);
         Some (Trie (cnt tem) ns)
       }
   }"

section \<open>The program\<close>

text \<open>
  A command is the pair of strings that \<^verbatim>\<open>scanf\<close> reads into arrays of 50 characters;
  a longer string does not fit. The output is the sequence of answers.
\<close>

definition store_command :: "(int list \<Rightarrow> 't \<Rightarrow> 't ub) \<Rightarrow> (int list \<Rightarrow> 't \<Rightarrow> int ub) \<Rightarrow>
    (int list \<Rightarrow> int \<Rightarrow> 't \<Rightarrow> 't ub) \<Rightarrow> int list \<times> int list \<Rightarrow> 't \<times> bool list \<Rightarrow> ('t \<times> bool list) ub" where
  "store_command insert_op search_op delete_op = (\<lambda>(str1, str2) (root, out).
     if length str1 \<ge> 50 \<or> length str2 \<ge> 50 then None
     else do {
       c \<leftarrow> vget (str1 @ [0]) 0;
       if c = 105 then do { root \<leftarrow> insert_op str2 root; Some (root, out) }
       else if c = 115 then do { n \<leftarrow> search_op str2 root; Some (root, out @ [n \<noteq> 0]) }
       else do {
         t \<leftarrow> search_op str2 root;
         if t \<noteq> 0 then do { root \<leftarrow> delete_op str2 t root; Some (root, out) } else Some (root, out)
       }
     })"

fun store_commands :: "(int list \<Rightarrow> 't \<Rightarrow> 't ub) \<Rightarrow> (int list \<Rightarrow> 't \<Rightarrow> int ub) \<Rightarrow>
    (int list \<Rightarrow> int \<Rightarrow> 't \<Rightarrow> 't ub) \<Rightarrow> (int list \<times> int list) list \<Rightarrow> 't \<times> bool list \<Rightarrow> ('t \<times> bool list) ub" where
  "store_commands ins qry del [] s = Some s"
| "store_commands ins qry del (c # cs) s = do { s \<leftarrow> store_command ins qry del c s; store_commands ins qry del cs s }"

definition trie_commands :: "nat \<Rightarrow> (int list \<times> int list) list \<Rightarrow> trie \<times> bool list \<Rightarrow> (trie \<times> bool list) ub" where
  "trie_commands maxn = store_commands (Insert maxn) Search (Delete maxn)"

fun trie_main :: "nat \<Rightarrow> (int list \<times> int list) list list \<Rightarrow> bool list ub" where
  "trie_main maxn [] = Some []"
| "trie_main maxn (cs # css) = do {
     (root, out) \<leftarrow> trie_commands maxn cs (new_trie maxn, []);
     rest \<leftarrow> trie_main maxn css;
     Some (out @ rest)
   }"

section \<open>Counters on the paths\<close>

primrec shape :: "nat \<Rightarrow> trie \<Rightarrow> bool" where
  "shape maxn (Trie k ns) \<longleftrightarrow> length ns = maxn \<and> list_all (pred_option (shape maxn)) ns"

text \<open>Words whose characters all have a child pointer.\<close>

definition word_ok :: "nat \<Rightarrow> int list \<Rightarrow> bool" where
  "word_ok maxn w \<longleftrightarrow> (\<forall>c \<in> set w. 97 \<le> c \<and> c < 97 + int maxn)"

lemma word_ok_simps [simp]:
  "word_ok maxn []"
  "word_ok maxn (c # w) \<longleftrightarrow> 97 \<le> c \<and> c < 97 + int maxn \<and> word_ok maxn w"
  by (auto simp: word_ok_def)

lemma word_ok_append [simp]: "word_ok maxn (u @ v) \<longleftrightarrow> word_ok maxn u \<and> word_ok maxn v"
  by (auto simp: word_ok_def)

lemma shape_length: "shape maxn t \<Longrightarrow> length (nexts t) = maxn"
  by (cases t) simp

lemma shape_child: "shape maxn t \<Longrightarrow> i < maxn \<Longrightarrow> nexts t ! i = Some q \<Longrightarrow> shape maxn q"
  by (cases t) (auto simp: list_all_length)

lemma shape_new: "shape maxn (new_trie maxn)"
  by (simp add: new_trie_def list_all_length)

lemma shape_cnt: "shape maxn (Trie k (nexts q)) \<longleftrightarrow> shape maxn q"
  by (cases q) simp

lemma shape_update: "shape maxn t \<Longrightarrow> shape maxn q \<Longrightarrow> shape maxn (Trie k ((nexts t)[i := Some q]))"
  by (cases t) (auto simp: list_all_length, metis nth_list_update_eq nth_list_update_neq option.pred_inject(2))

text \<open>The child below a letter; a missing child behaves like a new node.\<close>

definition child :: "nat \<Rightarrow> trie \<Rightarrow> int \<Rightarrow> trie" where
  "child maxn t c = (case nexts t ! nat (c - 97) of None \<Rightarrow> new_trie maxn | Some q \<Rightarrow> q)"

lemma shape_child_of: "shape maxn t \<Longrightarrow> 97 \<le> c \<Longrightarrow> c < 97 + int maxn \<Longrightarrow> shape maxn (child maxn t c)"
  unfolding child_def using shape_child [of maxn t "nat (c - 97)"] by (auto simp: shape_new split: option.split)

lemma Search_new: "word_ok maxn w \<Longrightarrow> Search w (new_trie maxn) = Some 0"
  by (cases w) (auto simp: new_trie_def iget_def)

lemma Search_child:
  assumes "shape maxn t" "word_ok maxn (c # w)"
  shows "Search (c # w) t = Search w (child maxn t c)"
proof -
  have "iget (nexts t) (c - 97) = Some (nexts t ! nat (c - 97))"
    using assms shape_length [OF assms(1)] by (simp add: vec_simps)
  then show ?thesis using assms(2) by (cases "nexts t ! nat (c - 97)") (simp_all add: child_def Search_new)
qed

lemma child_update:
  assumes "shape maxn t" "97 \<le> c" "c < 97 + int maxn" "97 \<le> d" "d < 97 + int maxn"
  shows "child maxn (Trie k ((nexts t)[nat (c - 97) := Some q])) d = (if d = c then q else child maxn t d)"
  using assms shape_length [OF assms(1)] by (auto simp: child_def nth_list_update nat_eq_iff)

lemma Search_total: "shape maxn t \<Longrightarrow> word_ok maxn w \<Longrightarrow> \<exists>n. Search w t = Some n"
proof (induction w arbitrary: t)
  case (Cons c w)
  then show ?case using shape_child_of [of maxn t c] by (simp add: Search_child del: Search.simps)
qed simp

lemma Search_cnt: "w \<noteq> [] \<Longrightarrow> Search w (Trie k (nexts q)) = Search w q"
  by (cases w) simp_all

lemma Search_update:
  assumes "shape maxn t" "shape maxn q" "word_ok maxn [c]" "word_ok maxn (d # u)"
  shows "Search (d # u) (Trie k ((nexts t)[nat (c - 97) := Some q])) = (if d = c then Search u q else Search (d # u) t)"
  using Search_child [OF assms(1,4)] Search_child [OF shape_update [OF assms(1,2)] assms(4)]
    child_update [OF assms(1), of c d] assms(3,4)
  by (simp del: Search.simps)

text \<open>The effect of the two updates on the counters.\<close>

lemma Insert_ok:
  "shape maxn t \<Longrightarrow> word_ok maxn w \<Longrightarrow>
    \<forall>v n. v \<noteq> [] \<and> word_ok maxn v \<and> Search v t = Some n \<longrightarrow> in_int (n + 1) \<Longrightarrow>
    \<exists>t'. Insert maxn w t = Some t' \<and> shape maxn t' \<and> cnt t' = cnt t \<and>
      (\<forall>v n. v \<noteq> [] \<and> word_ok maxn v \<and> Search v t = Some n \<longrightarrow> Search v t' = Some (n + (if prefix v w then 1 else 0)))"
proof (induction w arbitrary: t)
  case Nil
  then show ?case by auto
next
  case (Cons c w)
  define q where "q = child maxn t c"
  have c: "97 \<le> c" "c < 97 + int maxn" and w: "word_ok maxn w" using Cons.prems(2) by auto
  have q: "shape maxn q" using shape_child_of Cons.prems(1) c by (simp add: q_def)
  have sq: "Search (c # v) t = Search v q" if "word_ok maxn v" for v
    using Search_child [OF Cons.prems(1)] that c by (simp add: q_def)
  have bound: "in_int (n + 1)" if "word_ok maxn v" "Search v q = Some n" for v n
    using Cons.prems(3) [rule_format, of "c # v" n] that c sq by simp
  have k: "as_int (cnt q + 1) = Some (cnt q + 1)" using bound [of "[]"] by simp
  have q1: "shape maxn (Trie (cnt q + 1) (nexts q))" using q shape_cnt by blast
  have "\<forall>v n. v \<noteq> [] \<and> word_ok maxn v \<and> Search v (Trie (cnt q + 1) (nexts q)) = Some n \<longrightarrow> in_int (n + 1)"
    using bound by (auto simp: Search_cnt)
  from Cons.IH [OF q1 w this] obtain q' where q': "Insert maxn w (Trie (cnt q + 1) (nexts q)) = Some q'" "shape maxn q'" "cnt q' = cnt q + 1"
    "\<forall>v n. v \<noteq> [] \<and> word_ok maxn v \<and> Search v (Trie (cnt q + 1) (nexts q)) = Some n \<longrightarrow>
      Search v q' = Some (n + (if prefix v w then 1 else 0))"
    by auto
  let ?ns = "(nexts t)[nat (c - 97) := Some q']"
  have len: "length (nexts t) = maxn" using shape_length Cons.prems(1) .
  have i: "iget (nexts t) (c - 97) = Some (nexts t ! nat (c - 97))" "iset (nexts t) (c - 97) (Some q') = Some ?ns"
    using c len by (simp_all add: vec_simps)
  have e: "Insert maxn (c # w) t = Some (Trie (cnt t) ?ns)"
    using i k q'(1) by (simp add: q_def child_def)
  have s: "shape maxn (Trie (cnt t) ?ns)" using shape_update Cons.prems(1) q'(2) .
  have "Search v (Trie (cnt t) ?ns) = Some (n + (if prefix v (c # w) then 1 else 0))"
    if v: "v \<noteq> []" "word_ok maxn v" "Search v t = Some n" for v n
  proof -
    obtain d u where vd: "v = d # u" using v(1) by (cases v) auto
    have u: "word_ok maxn u" using v(2) vd by simp
    have "Search u q' = Some (n + (if prefix u w then 1 else 0))" if "d = c"
    proof -
      have "Search u q = Some n" using v(3) sq u vd that by simp
      then show ?thesis using q'(3,4) u by (cases "u = []") (auto simp: Search_cnt)
    qed
    then show ?thesis using Search_update [OF Cons.prems(1) q'(2), of c d u "cnt t"] v c vd by (simp del: Search.simps)
  qed
  then show ?case using e s by simp
qed

lemma Delete_ok:
  "shape maxn t \<Longrightarrow> word_ok maxn w \<Longrightarrow> w \<noteq> [] \<Longrightarrow> Search w t = Some m \<Longrightarrow> m \<noteq> 0 \<Longrightarrow>
    \<forall>v n. v \<noteq> [] \<and> prefix v w \<and> Search v t = Some n \<longrightarrow> in_int (n - m) \<Longrightarrow>
    \<exists>t'. Delete maxn w m t = Some t' \<and> shape maxn t' \<and> cnt t' = cnt t \<and>
      (\<forall>v n. v \<noteq> [] \<and> word_ok maxn v \<and> Search v t = Some n \<longrightarrow>
        Search v t' = Some (if prefix w v then 0 else if prefix v w then n - m else n))"
proof (induction w arbitrary: t)
  case (Cons c w)
  define q where "q = child maxn t c"
  have c: "97 \<le> c" "c < 97 + int maxn" and w: "word_ok maxn w" using Cons.prems(2) by auto
  have sq: "Search (c # v) t = Search v q" if "word_ok maxn v" for v
    using Search_child [OF Cons.prems(1)] that c by (simp add: q_def)
  have len: "length (nexts t) = maxn" using shape_length Cons.prems(1) .
  have i: "iget (nexts t) (c - 97) = Some (nexts t ! nat (c - 97))" using c len by (simp add: vec_simps)
  have p: "nexts t ! nat (c - 97) = Some q"
    using Cons.prems(4,5) i by (cases "nexts t ! nat (c - 97)") (auto simp: q_def child_def)
  have q: "shape maxn q" using shape_child_of Cons.prems(1) c by (simp add: q_def)
  have bound: "in_int (n - m)" if "prefix v w" "Search v q = Some n" for v n
    using Cons.prems(6) [rule_format, of "c # v" n] that sq [of v] w by (auto simp: prefix_def)
  have k: "as_int (cnt q - m) = Some (cnt q - m)" using bound [of "[]"] by simp
  define q1 where "q1 = Trie (cnt q - m) (nexts q)"
  have q1: "shape maxn q1" using q shape_cnt by (simp add: q1_def)
  have s1: "Search v q1 = Search v q" if "v \<noteq> []" for v using that by (simp add: q1_def Search_cnt)
  have "\<exists>q'. Delete maxn w m q1 = Some q' \<and> shape maxn q' \<and>
      (\<forall>v n. word_ok maxn v \<and> Search v q = Some n \<longrightarrow>
        Search v q' = Some (if prefix w v then 0 else if prefix v w then n - m else n))"
  proof (cases "w = []")
    case True
    then have m: "cnt q = m" using Cons.prems(4) sq by simp
    have "Search v (Trie 0 (replicate maxn None)) = Some 0" if "word_ok maxn v" for v
      using Search_new [OF that] by (simp add: new_trie_def)
    then show ?thesis using True m shape_new [of maxn] by (simp add: q1_def new_trie_def)
  next
    case False
    have "Search w q1 = Some m" using False Cons.prems(4) sq w by (simp add: s1)
    moreover have "\<forall>v n. v \<noteq> [] \<and> prefix v w \<and> Search v q1 = Some n \<longrightarrow> in_int (n - m)" using bound s1 by auto
    ultimately obtain q' where q': "Delete maxn w m q1 = Some q'" "shape maxn q'" "cnt q' = cnt q1"
      "\<forall>v n. v \<noteq> [] \<and> word_ok maxn v \<and> Search v q1 = Some n \<longrightarrow>
        Search v q' = Some (if prefix w v then 0 else if prefix v w then n - m else n)"
      using Cons.IH [OF q1 w False _ Cons.prems(5)] by blast
    have "Search v q' = Some (if prefix w v then 0 else if prefix v w then n - m else n)"
      if "word_ok maxn v" "Search v q = Some n" for v n
      using that q'(3,4) s1 False by (cases "v = []") (auto simp: q1_def)
    then show ?thesis using q'(1,2) by blast
  qed
  then obtain q' where q': "Delete maxn w m q1 = Some q'" "shape maxn q'"
    "\<forall>v n. word_ok maxn v \<and> Search v q = Some n \<longrightarrow>
        Search v q' = Some (if prefix w v then 0 else if prefix v w then n - m else n)" by blast
  let ?ns = "(nexts t)[nat (c - 97) := Some q']"
  have e: "Delete maxn (c # w) m t = Some (Trie (cnt t) ?ns)"
    using i p k q'(1) c len by (simp add: q1_def vec_simps)
  have s: "shape maxn (Trie (cnt t) ?ns)" using shape_update Cons.prems(1) q'(2) .
  have "Search v (Trie (cnt t) ?ns) = Some (if prefix (c # w) v then 0 else if prefix v (c # w) then n - m else n)"
    if v: "v \<noteq> []" "word_ok maxn v" "Search v t = Some n" for v n
  proof -
    obtain d u where vd: "v = d # u" using v(1) by (cases v) auto
    have u: "word_ok maxn u" using v(2) vd by simp
    have "Search u q' = Some (if prefix w u then 0 else if prefix u w then n - m else n)" if "d = c"
      using q'(3) v(3) sq [OF u] u vd that by simp
    then show ?thesis using Search_update [OF Cons.prems(1) q'(2), of c d u "cnt t"] v c vd by (auto simp del: Search.simps)
  qed
  then show ?case using e s by simp
qed simp

section \<open>The contract of a store of words\<close>

definition holders :: "int list \<Rightarrow> int list list \<Rightarrow> nat" where
  "holders w ws = length (filter (prefix w) ws)"

text \<open>What the program does in terms of the list of words held.\<close>

fun answers :: "(int list \<times> int list) list \<Rightarrow> int list list \<Rightarrow> bool list" where
  "answers [] ws = []"
| "answers ((str1, w) # cs) ws =
     (if hd (str1 @ [0]) = 105 then answers cs (w # ws)
      else if hd (str1 @ [0]) = 115 then (\<exists>v \<in> set ws. prefix w v) # answers cs ws
      else answers cs (filter (\<lambda>v. \<not> prefix w v) ws))"

locale word_store =
  fixes ins :: "int list \<Rightarrow> 't \<Rightarrow> 't ub" and qry :: "int list \<Rightarrow> 't \<Rightarrow> int ub" and del :: "int list \<Rightarrow> int \<Rightarrow> 't \<Rightarrow> 't ub"
    and rep :: "int list list \<Rightarrow> 't \<Rightarrow> bool" and good :: "int list \<Rightarrow> bool"
  assumes qry_ok: "rep ws t \<Longrightarrow> good w \<Longrightarrow> qry w t = Some (int (holders w ws))"
    and ins_ok: "rep ws t \<Longrightarrow> good w \<Longrightarrow> int (length ws) < INT_MAX \<Longrightarrow> \<exists>t'. ins w t = Some t' \<and> rep (w # ws) t'"
    and del_ok: "rep ws t \<Longrightarrow> good w \<Longrightarrow> int (length ws) \<le> INT_MAX \<Longrightarrow> holders w ws \<noteq> 0 \<Longrightarrow>
      \<exists>t'. del w (int (holders w ws)) t = Some t' \<and> rep (filter (\<lambda>v. \<not> prefix w v) ws) t'"
begin

lemma commands_ok:
  "\<forall>(s, w) \<in> set cs. good w \<and> length s < 50 \<and> length w < 50 \<Longrightarrow> rep ws t \<Longrightarrow>
    int (length ws) + int (length cs) \<le> INT_MAX \<Longrightarrow>
    \<exists>t'. store_commands ins qry del cs (t, out) = Some (t', out @ answers cs ws)"
proof (induction cs arbitrary: ws t out)
  case (Cons cmd cs)
  obtain s w where cmd: "cmd = (s, w)" by force
  have w: "good w" "length s < 50" "length w < 50" and rest: "\<forall>(s, w) \<in> set cs. good w \<and> length s < 50 \<and> length w < 50"
    using Cons.prems(1) cmd by auto
  let ?c = "hd (s @ [0])"
  have c: "vget (s @ [0]) 0 = Some ?c" by (cases s) (simp_all add: vget_def)
  have q: "qry w t = Some (int (holders w ws))" using qry_ok Cons.prems(2) w(1) .
  have h: "holders w ws \<noteq> 0 \<longleftrightarrow> (\<exists>v \<in> set ws. prefix w v)" by (auto simp: holders_def filter_empty_conv)
  consider "?c = 105" | "?c = 115" | "?c \<noteq> 105" "?c \<noteq> 115" "holders w ws \<noteq> 0" | "?c \<noteq> 105" "?c \<noteq> 115" "holders w ws = 0" by blast
  then show ?case
  proof cases
    case 1
    obtain t1 where t1: "ins w t = Some t1" "rep (w # ws) t1" using ins_ok [OF Cons.prems(2) w(1)] Cons.prems(3) by auto
    then show ?thesis using Cons.IH [OF rest t1(2), of out] Cons.prems(3) 1 c w cmd by (simp add: store_command_def)
  next
    case 2
    have "store_command ins qry del cmd (t, out) = Some (t, out @ [\<exists>v \<in> set ws. prefix w v])"
      using 2 c w cmd q h by (simp add: store_command_def)
    then show ?thesis using Cons.IH [OF rest Cons.prems(2), of "out @ [\<exists>v \<in> set ws. prefix w v]"] Cons.prems(3) 2 cmd by auto
  next
    case 3
    obtain t1 where t1: "del w (int (holders w ws)) t = Some t1" "rep (filter (\<lambda>v. \<not> prefix w v) ws) t1"
      using del_ok [OF Cons.prems(2) w(1)] 3 Cons.prems(3) by auto
    have "int (length (cmd # cs)) = int (length cs) + 1" by simp
    then have "int (length (filter (\<lambda>v. \<not> prefix w v) ws)) + int (length cs) \<le> INT_MAX"
      using length_filter_le [of "\<lambda>v. \<not> prefix w v" ws] Cons.prems(3) by linarith
    then show ?thesis using Cons.IH [OF rest t1(2), of out] 3 t1(1) c w cmd q by (simp add: store_command_def)
  next
    case 4
    then have "filter (\<lambda>v. \<not> prefix w v) ws = ws" using h by (simp add: filter_id_conv)
    then show ?thesis using Cons.IH [OF rest Cons.prems(2), of out] Cons.prems(3) 4 c w cmd q by (simp add: store_command_def)
  qed
qed simp

end

section \<open>The trie is such a store\<close>

definition trie_rep :: "nat \<Rightarrow> int list list \<Rightarrow> trie \<Rightarrow> bool" where
  "trie_rep maxn ws t \<longleftrightarrow> shape maxn t \<and> (\<forall>v. v \<noteq> [] \<and> word_ok maxn v \<longrightarrow> Search v t = Some (int (holders v ws)))"

lemma holders_le: "holders v ws \<le> length ws"
  by (simp add: holders_def)

lemma holders_remove:
  "prefix w v \<Longrightarrow> holders v (filter (\<lambda>x. \<not> prefix w x) ws) = 0"
  "prefix v w \<Longrightarrow> holders v (filter (\<lambda>x. \<not> prefix w x) ws) + holders w ws = holders v ws"
  "\<not> prefix w v \<Longrightarrow> \<not> prefix v w \<Longrightarrow> holders v (filter (\<lambda>x. \<not> prefix w x) ws) = holders v ws"
proof -
  show "prefix w v \<Longrightarrow> holders v (filter (\<lambda>x. \<not> prefix w x) ws) = 0"
    unfolding holders_def by (induction ws) (auto dest: prefix_order.trans)
  show "prefix v w \<Longrightarrow> holders v (filter (\<lambda>x. \<not> prefix w x) ws) + holders w ws = holders v ws"
    unfolding holders_def by (induction ws) (auto dest: prefix_order.trans)
  show "\<not> prefix w v \<Longrightarrow> \<not> prefix v w \<Longrightarrow> holders v (filter (\<lambda>x. \<not> prefix w x) ws) = holders v ws"
    unfolding holders_def by (induction ws) (auto dest: prefix_same_cases)
qed

lemma trie_rep_new: "trie_rep maxn [] (new_trie maxn)"
  by (simp add: trie_rep_def shape_new Search_new holders_def)

interpretation prefix_trie: word_store "Insert maxn" Search "Delete maxn" "trie_rep maxn" "\<lambda>w. w \<noteq> [] \<and> word_ok maxn w" for maxn
proof (unfold_locales, goal_cases)
  case (1 ws t w)
  then show ?case by (simp add: trie_rep_def)
next
  case (2 ws t w)
  have "in_int (n + 1)" if "v \<noteq> []" "word_ok maxn v" "Search v t = Some n" for v n
    using 2(1,3) that holders_le [of v ws] by (auto simp: trie_rep_def in_int_def)
  then have b: "\<forall>v n. v \<noteq> [] \<and> word_ok maxn v \<and> Search v t = Some n \<longrightarrow> in_int (n + 1)" by blast
  have sh: "shape maxn t" "word_ok maxn w" using 2(1,2) by (auto simp: trie_rep_def)
  from Insert_ok [OF sh b] obtain t' where t': "Insert maxn w t = Some t'" "shape maxn t'"
    "\<forall>v n. v \<noteq> [] \<and> word_ok maxn v \<and> Search v t = Some n \<longrightarrow> Search v t' = Some (n + (if prefix v w then 1 else 0))"
    by blast
  then show ?case using 2(1) by (auto simp: trie_rep_def holders_def)
next
  case (3 ws t w)
  let ?m = "int (holders w ws)"
  have "in_int (n - ?m)" if "v \<noteq> []" "prefix v w" "Search v t = Some n" for v n
    using 3(1,2,3) that holders_le [of v ws] holders_le [of w ws] by (auto simp: trie_rep_def in_int_def prefix_def)
  then have b: "\<forall>v n. v \<noteq> [] \<and> prefix v w \<and> Search v t = Some n \<longrightarrow> in_int (n - ?m)" by blast
  have sh: "shape maxn t" "word_ok maxn w" "w \<noteq> []" "Search w t = Some ?m" "?m \<noteq> 0" using 3 by (auto simp: trie_rep_def)
  from Delete_ok [OF sh b] obtain t' where t': "Delete maxn w ?m t = Some t'" "shape maxn t'"
    "\<forall>v n. v \<noteq> [] \<and> word_ok maxn v \<and> Search v t = Some n \<longrightarrow>
        Search v t' = Some (if prefix w v then 0 else if prefix v w then n - ?m else n)"
    by blast
  have "Search v t' = Some (int (holders v (filter (\<lambda>x. \<not> prefix w x) ws)))" if "v \<noteq> []" "word_ok maxn v" for v
  proof -
    have "Search v t = Some (int (holders v ws))" using 3(1) that by (simp add: trie_rep_def)
    then show ?thesis using t'(3) that holders_remove [of w v ws] holders_remove(2) [of v w ws]
      by (cases "prefix w v"; cases "prefix v w") auto
  qed
  then show ?case using t'(1,2) by (auto simp: trie_rep_def)
qed

section \<open>Property\<close>

text \<open>
  C22. For every list of test cases whose commands carry nonempty words over the alphabet, of
  less than 50 characters, with fewer than \<open>2\<^sup>3\<^sup>1\<close> commands each, the program
  never leaves an array or dereferences null, and answers every search as a list of words
  would: the search for a word says whether a held word begins with it, and a deletion
  removes all words that begin with the given one.
\<close>

theorem trie_main_spec:
  assumes "\<forall>cs \<in> set css. int (length cs) \<le> INT_MAX \<and>
    (\<forall>(s, w) \<in> set cs. w \<noteq> [] \<and> word_ok maxn w \<and> length s < 50 \<and> length w < 50)"
  shows "trie_main maxn css = Some (concat (map (\<lambda>cs. answers cs []) css))"
  using assms
proof (induction css)
  case (Cons cs css)
  have "\<exists>t'. trie_commands maxn cs (new_trie maxn, []) = Some (t', [] @ answers cs [])"
    unfolding trie_commands_def using prefix_trie.commands_ok [OF _ trie_rep_new, of cs maxn "[]"] Cons.prems by fastforce
  then show ?case using Cons by auto
qed simp

lemma trie_main_spec_witness:
  "trie_main 26 [[([105], [97, 98]), ([115], [97]), ([100], [97]), ([115], [97])]] = Some [True, False]"
  using trie_main_spec [of "[[([105], [97, 98]), ([115], [97]), ([100], [97]), ([115], [97])]]" 26] by simp

end
