(* ===== verification/SmartPtr.thy ===== *)
theory SmartPtr
  imports Cpp_Prelude
begin

text \<open>
  Reference-counted pointers: both classes of \<^verbatim>\<open>cpp/stl/shared_ptr.cpp\<close> and the class
  of \<^verbatim>\<open>cpp/stl/shared_ptr_2.cpp\<close>. The heap knows which objects and which counter cells
  are allocated; using or deleting something that is not allocated is \<^term>\<open>None\<close>,
  deleting null does nothing. A program is a sequence of declarations, copies and ends of
  life of pointer variables. Counters are exact integers: each unit of a counter is a
  variable that is alive, so $2^{31}$ is out of reach. The assignment operators of both files name
  members that do not exist (\<^verbatim>\<open>this->cnt\<close>, \<^verbatim>\<open>obj->_ptr\<close>,
  \<^verbatim>\<open>this->count\<close>) and cannot be instantiated.
\<close>

section \<open>The heap\<close>

record heap =
  objs :: "nat set"
  cells :: "nat \<Rightarrow> int option"
  nxt :: nat

definition empty_heap :: heap where
  "empty_heap = \<lparr>objs = {}, cells = (\<lambda>_. None), nxt = 0\<rparr>"

definition new_obj :: "heap \<Rightarrow> nat \<times> heap" where
  "new_obj H = (nxt H, H\<lparr>objs := insert (nxt H) (objs H), nxt := Suc (nxt H)\<rparr>)"

definition new_cell :: "int \<Rightarrow> heap \<Rightarrow> nat \<times> heap" where
  "new_cell n H = (nxt H, H\<lparr>cells := (cells H)(nxt H \<mapsto> n), nxt := Suc (nxt H)\<rparr>)"

definition delete_obj :: "nat option \<Rightarrow> heap \<Rightarrow> heap ub" where
  "delete_obj p H = (case p of None \<Rightarrow> Some H
     | Some a \<Rightarrow> if a \<in> objs H then Some (H\<lparr>objs := objs H - {a}\<rparr>) else None)"

text \<open>A pointer to a counter is an address and an offset; only offset zero can be used.\<close>

type_synonym cell_ptr = "nat \<times> int"

definition load :: "cell_ptr \<Rightarrow> heap \<Rightarrow> int ub" where
  "load c H = (if snd c = 0 then cells H (fst c) else None)"

definition store :: "cell_ptr \<Rightarrow> int \<Rightarrow> heap \<Rightarrow> heap ub" where
  "store c n H = (if snd c = 0 \<and> cells H (fst c) \<noteq> None then Some (H\<lparr>cells := (cells H)(fst c \<mapsto> n)\<rparr>) else None)"

definition delete_cell :: "cell_ptr \<Rightarrow> heap \<Rightarrow> heap ub" where
  "delete_cell c H = (if snd c = 0 \<and> cells H (fst c) \<noteq> None then Some (H\<lparr>cells := (cells H)(fst c := None)\<rparr>) else None)"

section \<open>The classes\<close>

record shared =
  sp_ptr :: "nat option"
  sp_cnt :: cell_ptr

text \<open>\<^verbatim>\<open>Shared_ptr\<close> of the first file.\<close>

definition Shared_construct :: "nat option \<Rightarrow> heap \<Rightarrow> (shared \<times> heap) ub" where
  "Shared_construct t H = (let (c, H) = new_cell 1 H in Some (\<lparr>sp_ptr = t, sp_cnt = (c, 0)\<rparr>, H))"

definition Shared_copy :: "shared \<Rightarrow> heap \<Rightarrow> (shared \<times> heap) ub" where
  "Shared_copy obj H = do {
     let this = \<lparr>sp_ptr = sp_ptr obj, sp_cnt = sp_cnt obj\<rparr>;
     n \<leftarrow> load (sp_cnt this) H;
     H \<leftarrow> store (sp_cnt this) (n + 1) H;
     Some (this, H)
   }"

definition Shared_destroy :: "shared \<Rightarrow> heap \<Rightarrow> heap ub" where
  "Shared_destroy this H = do {
     n \<leftarrow> load (sp_cnt this) H;
     H \<leftarrow> store (sp_cnt this) (n - 1) H;
     n \<leftarrow> load (sp_cnt this) H;
     if n = 0 then do { H \<leftarrow> delete_obj (sp_ptr this) H; delete_cell (sp_cnt this) H } else Some H
   }"

definition Shared_get :: "shared \<Rightarrow> nat option" where
  "Shared_get this = sp_ptr this"

definition Shared_count :: "shared \<Rightarrow> heap \<Rightarrow> int ub" where
  "Shared_count this H = load (sp_cnt this) H"

definition Shared_deref :: "shared \<Rightarrow> heap \<Rightarrow> nat ub" where
  "Shared_deref this H = do { a \<leftarrow> sp_ptr this; if a \<in> objs H then Some a else None }"

text \<open>\<^verbatim>\<open>shared_ptr\<close> of the first file: copying adds one to the pointer to the counter.\<close>

definition shared1_copy :: "shared \<Rightarrow> heap \<Rightarrow> (shared \<times> heap) ub" where
  "shared1_copy input H =
     (let (c, k) = sp_cnt input in Some (\<lparr>sp_ptr = sp_ptr input, sp_cnt = (c, k + 1)\<rparr>, H))"

definition shared1_construct :: "nat option \<Rightarrow> heap \<Rightarrow> (shared \<times> heap) ub" where
  "shared1_construct p H = (let (c, H) = new_cell 1 H in Some (\<lparr>sp_ptr = p, sp_cnt = (c, 0)\<rparr>, H))"

definition shared1_destroy :: "shared \<Rightarrow> heap \<Rightarrow> heap ub" where
  "shared1_destroy this H = do {
     n \<leftarrow> load (sp_cnt this) H;
     H \<leftarrow> store (sp_cnt this) (n - 1) H;
     n \<leftarrow> load (sp_cnt this) H;
     if n = 0 then do { H \<leftarrow> delete_obj (sp_ptr this) H; delete_cell (sp_cnt this) H } else Some H
   }"

text \<open>\<^verbatim>\<open>shared_ptr\<close> of the second file.\<close>

definition shared2_construct :: "nat option \<Rightarrow> heap \<Rightarrow> (shared \<times> heap) ub" where
  "shared2_construct p H = (let (c, H) = new_cell 1 H in Some (\<lparr>sp_ptr = p, sp_cnt = (c, 0)\<rparr>, H))"

definition shared2_copy :: "shared \<Rightarrow> heap \<Rightarrow> (shared \<times> heap) ub" where
  "shared2_copy other H = do {
     n \<leftarrow> load (sp_cnt other) H;
     H \<leftarrow> store (sp_cnt other) (n + 1) H;
     Some (\<lparr>sp_ptr = sp_ptr other, sp_cnt = sp_cnt other\<rparr>, H)
   }"

definition shared2_destroy :: "shared \<Rightarrow> heap \<Rightarrow> heap ub" where
  "shared2_destroy this H = do {
     n \<leftarrow> load (sp_cnt this) H;
     H \<leftarrow> store (sp_cnt this) (n - 1) H;
     if n - 1 = 0 then do { H \<leftarrow> delete_cell (sp_cnt this) H; delete_obj (sp_ptr this) H } else Some H
   }"

definition getCount :: "shared \<Rightarrow> heap \<Rightarrow> int ub" where
  "getCount this H = load (sp_cnt this) H"

section \<open>Programs with pointer variables\<close>

datatype ptr_op = Make nat | MakeNull nat | CopyOf nat nat | Drop nat

type_synonym vars = "nat \<Rightarrow> shared option"

fun ptr_step :: "(nat option \<Rightarrow> heap \<Rightarrow> (shared \<times> heap) ub) \<Rightarrow> (shared \<Rightarrow> heap \<Rightarrow> (shared \<times> heap) ub) \<Rightarrow>
    (shared \<Rightarrow> heap \<Rightarrow> heap ub) \<Rightarrow> ptr_op \<Rightarrow> heap \<times> vars \<Rightarrow> (heap \<times> vars) ub" where
  "ptr_step mk cp dr (Make v) (H, e) =
     (let (a, H) = new_obj H in do { (h, H) \<leftarrow> mk (Some a) H; Some (H, e(v \<mapsto> h)) })"
| "ptr_step mk cp dr (MakeNull v) (H, e) = do { (h, H) \<leftarrow> mk None H; Some (H, e(v \<mapsto> h)) }"
| "ptr_step mk cp dr (CopyOf v w) (H, e) =
     do { s \<leftarrow> e w; (h, H) \<leftarrow> cp s H; Some (H, e(v \<mapsto> h)) }"
| "ptr_step mk cp dr (Drop v) (H, e) = do { h \<leftarrow> e v; H \<leftarrow> dr h H; Some (H, e(v := None)) }"

fun ptr_run :: "(nat option \<Rightarrow> heap \<Rightarrow> (shared \<times> heap) ub) \<Rightarrow> (shared \<Rightarrow> heap \<Rightarrow> (shared \<times> heap) ub) \<Rightarrow>
    (shared \<Rightarrow> heap \<Rightarrow> heap ub) \<Rightarrow> ptr_op list \<Rightarrow> heap \<times> vars \<Rightarrow> (heap \<times> vars) ub" where
  "ptr_run mk cp dr [] s = Some s"
| "ptr_run mk cp dr (c # cs) s = do { s \<leftarrow> ptr_step mk cp dr c s; ptr_run mk cp dr cs s }"

text \<open>Variables are declared once, used while alive, and end once.\<close>

fun well_scoped :: "ptr_op list \<Rightarrow> nat set \<Rightarrow> bool" where
  "well_scoped [] V \<longleftrightarrow> True"
| "well_scoped (Make v # cs) V \<longleftrightarrow> v \<notin> V \<and> well_scoped cs (insert v V)"
| "well_scoped (MakeNull v # cs) V \<longleftrightarrow> v \<notin> V \<and> well_scoped cs (insert v V)"
| "well_scoped (CopyOf v w # cs) V \<longleftrightarrow> v \<notin> V \<and> w \<in> V \<and> well_scoped cs (insert v V)"
| "well_scoped (Drop v # cs) V \<longleftrightarrow> v \<in> V \<and> well_scoped cs (V - {v})"

text \<open>The programs of the two files: the counts the first one prints, in order.\<close>

definition shared_main :: "(int list \<times> heap \<times> vars) ub" where
  "shared_main = do {
     s \<leftarrow> ptr_run Shared_construct Shared_copy Shared_destroy [MakeNull 0, Make 1] (empty_heap, \<lambda>_. None);
     sp1 \<leftarrow> snd s 1;
     c1 \<leftarrow> Shared_count sp1 (fst s);
     s \<leftarrow> ptr_run Shared_construct Shared_copy Shared_destroy [Make 2] s;
     sp2 \<leftarrow> snd s 2;
     c2 \<leftarrow> Shared_count sp2 (fst s);
     s \<leftarrow> ptr_run Shared_construct Shared_copy Shared_destroy [CopyOf 3 2] s;
     sp3 \<leftarrow> snd s 3;
     c3 \<leftarrow> Shared_count sp3 (fst s);
     s \<leftarrow> ptr_run Shared_construct Shared_copy Shared_destroy [CopyOf 4 1] s;
     c4 \<leftarrow> Shared_count sp1 (fst s);
     sp4 \<leftarrow> snd s 4;
     c5 \<leftarrow> Shared_count sp4 (fst s);
     (H, e) \<leftarrow> ptr_run Shared_construct Shared_copy Shared_destroy [Drop 4, Drop 3, Drop 2, Drop 1, Drop 0] s;
     Some ([c1, c2, c3, c4, c5], H, e)
   }"

text \<open>The second program wraps the address of a local variable: \<open>a\<close> is not an allocated object.\<close>

definition shared2_main :: "nat \<Rightarrow> heap \<Rightarrow> heap ub" where
  "shared2_main a H = do { (p1, H) \<leftarrow> shared2_construct (Some a) H; shared2_destroy p1 H }"

section \<open>Counting the owners\<close>

definition owners :: "('v \<Rightarrow> 'h option) \<Rightarrow> ('h \<Rightarrow> 'c) \<Rightarrow> 'c \<Rightarrow> nat" where
  "owners e k c = card {v. \<exists>h. e v = Some h \<and> k h = c}"

lemma owners_finite: "finite (dom e) \<Longrightarrow> finite {v. \<exists>h. e v = Some h \<and> k h = c}"
  by (rule finite_subset [of _ "dom e"]) auto

lemma owners_new:
  assumes "finite (dom e)" "e v = None"
  shows "owners (e(v \<mapsto> h)) k c = owners e k c + (if k h = c then 1 else 0)"
proof -
  have "{u. \<exists>h'. (e(v \<mapsto> h)) u = Some h' \<and> k h' = c} =
      (if k h = c then insert v {u. \<exists>h'. e u = Some h' \<and> k h' = c} else {u. \<exists>h'. e u = Some h' \<and> k h' = c})"
    using assms(2) by auto
  then show ?thesis using owners_finite [OF assms(1), of k c] assms(2) by (simp add: owners_def card_insert_if)
qed

lemma owners_drop:
  assumes "finite (dom e)" "e v = Some h"
  shows "owners e k c = owners (e(v := None)) k c + (if k h = c then 1 else 0)"
proof -
  have "e = (e(v := None))(v \<mapsto> h)" using assms(2) by auto
  then show ?thesis using owners_new [of "e(v := None)" v h k c] assms(1) by simp
qed

lemma owners_pos: "finite (dom e) \<Longrightarrow> e v = Some h \<Longrightarrow> 0 < owners e k (k h)"
  unfolding owners_def by (auto simp: card_gt_0_iff owners_finite)

lemma owners_0: "finite (dom e) \<Longrightarrow> owners e k c = 0 \<longleftrightarrow> (\<forall>v h. e v = Some h \<longrightarrow> k h \<noteq> c)"
  using owners_finite [of e k c] by (auto simp: owners_def)

text \<open>
  The invariant: every allocated counter holds the number of its owners, the allocated
  objects are those some variable points to, and variables share a counter exactly when they
  share an object.
\<close>

definition counts_ok :: "heap \<Rightarrow> vars \<Rightarrow> bool" where
  "counts_ok H e \<longleftrightarrow> (\<forall>c. cells H c =
     (if owners e sp_cnt (c, 0) = 0 then None else Some (int (owners e sp_cnt (c, 0)))))"

definition objs_ok :: "heap \<Rightarrow> shared set \<Rightarrow> bool" where
  "objs_ok H R \<longleftrightarrow> objs H = {a. \<exists>h \<in> R. sp_ptr h = Some a}"

definition addresses_ok :: "heap \<Rightarrow> shared set \<Rightarrow> bool" where
  "addresses_ok H R \<longleftrightarrow>
     (\<forall>h \<in> R. snd (sp_cnt h) = 0 \<and> fst (sp_cnt h) < nxt H \<and> (\<forall>a. sp_ptr h = Some a \<longrightarrow> a < nxt H))"

definition sharing :: "shared set \<Rightarrow> bool" where
  "sharing R \<longleftrightarrow> (\<forall>h \<in> R. \<forall>g \<in> R. (sp_cnt h = sp_cnt g \<longrightarrow> sp_ptr h = sp_ptr g) \<and>
     (sp_ptr h = sp_ptr g \<and> sp_ptr h \<noteq> None \<longrightarrow> sp_cnt h = sp_cnt g))"

definition counted :: "heap \<Rightarrow> vars \<Rightarrow> bool" where
  "counted H e \<longleftrightarrow> finite (dom e) \<and> counts_ok H e \<and> objs_ok H (ran e) \<and> addresses_ok H (ran e) \<and> sharing (ran e)"

lemma countedD:
  assumes "counted H e"
  shows "finite (dom e)" "counts_ok H e" "objs_ok H (ran e)" "addresses_ok H (ran e)" "sharing (ran e)"
  using assms by (simp_all add: counted_def)

lemma counted_cell:
  assumes "counted H e" "e w = Some h"
  shows "sp_cnt h = (fst (sp_cnt h), 0)" "cells H (fst (sp_cnt h)) = Some (int (owners e sp_cnt (sp_cnt h)))"
    "\<forall>a. sp_ptr h = Some a \<longrightarrow> a \<in> objs H"
proof -
  have r: "h \<in> ran e" using assms(2) by (rule ranI)
  then have "snd (sp_cnt h) = 0" using countedD(4) [OF assms(1)] by (simp add: addresses_ok_def)
  then show c: "sp_cnt h = (fst (sp_cnt h), 0)" by (metis prod.collapse)
  have "owners e sp_cnt (sp_cnt h) \<noteq> 0" using owners_pos [OF countedD(1) [OF assms(1)] assms(2), of sp_cnt] by simp
  then show "cells H (fst (sp_cnt h)) = Some (int (owners e sp_cnt (sp_cnt h)))"
    using countedD(2) [OF assms(1)] c by (metis counts_ok_def)
  show "\<forall>a. sp_ptr h = Some a \<longrightarrow> a \<in> objs H" using countedD(3) [OF assms(1)] r by (auto simp: objs_ok_def)
qed

lemma sharing_eq: "sharing R \<Longrightarrow> h \<in> R \<Longrightarrow> g \<in> R \<Longrightarrow> sp_cnt h = sp_cnt g \<Longrightarrow> h = g"
proof -
  assume a: "sharing R" "h \<in> R" "g \<in> R" "sp_cnt h = sp_cnt g"
  then have "sp_ptr h = sp_ptr g" unfolding sharing_def by blast
  then show "h = g" using a(4) by (cases h; cases g) simp
qed

lemma sharing_insert:
  assumes "sharing R" "\<forall>g \<in> R. sp_cnt g \<noteq> sp_cnt h \<and> (sp_ptr g \<noteq> None \<longrightarrow> sp_ptr g \<noteq> sp_ptr h)"
  shows "sharing (insert h R)"
  unfolding sharing_def
proof (intro ballI)
  fix x y assume "x \<in> insert h R" "y \<in> insert h R"
  then consider "x = h" "y = h" | "x = h" "y \<in> R" | "x \<in> R" "y = h" | "x \<in> R" "y \<in> R" by blast
  then show "(sp_cnt x = sp_cnt y \<longrightarrow> sp_ptr x = sp_ptr y) \<and> (sp_ptr x = sp_ptr y \<and> sp_ptr x \<noteq> None \<longrightarrow> sp_cnt x = sp_cnt y)"
  proof cases
    case 2
    then show ?thesis using assms(2) by metis
  next
    case 3
    then show ?thesis using assms(2) by metis
  next
    case 4
    then show ?thesis using assms(1) unfolding sharing_def by blast
  qed simp
qed

lemma sharing_subset: "sharing R \<Longrightarrow> S \<subseteq> R \<Longrightarrow> sharing S"
  unfolding sharing_def by blast

text \<open>The handles that remain when a variable ends.\<close>

lemma ran_drop:
  assumes "counted H e" "e v = Some h"
  shows "owners e sp_cnt (sp_cnt h) \<noteq> 1 \<Longrightarrow> ran (e(v := None)) = ran e"
    and "owners e sp_cnt (sp_cnt h) = 1 \<Longrightarrow> ran (e(v := None)) = ran e - {h}"
proof -
  note fin = countedD(1) [OF assms(1)]
  have fin': "finite (dom (e(v := None)))" using fin by simp
  have o: "owners e sp_cnt (sp_cnt h) = owners (e(v := None)) sp_cnt (sp_cnt h) + 1"
    using owners_drop [OF fin assms(2), of sp_cnt "sp_cnt h"] by simp
  have "e = (e(v := None))(v \<mapsto> h)" using assms(2) by auto
  then have "ran e = insert h (ran (e(v := None)))" using ran_map_upd [of "e(v := None)" v h] by simp
  then have sub: "ran (e(v := None)) \<subseteq> ran e" "ran e \<subseteq> insert h (ran (e(v := None)))" by auto
  show "owners e sp_cnt (sp_cnt h) \<noteq> 1 \<Longrightarrow> ran (e(v := None)) = ran e"
  proof -
    assume "owners e sp_cnt (sp_cnt h) \<noteq> 1"
    then have "owners (e(v := None)) sp_cnt (sp_cnt h) \<noteq> 0" using o by simp
    then obtain w g where "(e(v := None)) w = Some g" "sp_cnt g = sp_cnt h" using owners_0 [OF fin', of sp_cnt "sp_cnt h"] by metis
    moreover have "g = h" if "g \<in> ran e" "sp_cnt g = sp_cnt h" for g
      using sharing_eq [OF countedD(5) [OF assms(1)] that(1) ranI [of e v h, OF assms(2)] that(2)] .
    moreover have "g \<in> ran (e(v := None))" using calculation(1) by (rule ranI)
    ultimately have "h \<in> ran (e(v := None))" using sub(1) by auto
    then show ?thesis using sub by blast
  qed
  show "owners e sp_cnt (sp_cnt h) = 1 \<Longrightarrow> ran (e(v := None)) = ran e - {h}"
  proof -
    assume "owners e sp_cnt (sp_cnt h) = 1"
    then have "owners (e(v := None)) sp_cnt (sp_cnt h) = 0" using o by simp
    moreover have "0 < owners (e(v := None)) sp_cnt (sp_cnt h)" if "(e(v := None)) w = Some h" for w
      using owners_pos [OF fin' that, of sp_cnt] .
    ultimately have "(e(v := None)) w \<noteq> Some h" for w by (metis less_irrefl)
    then have "h \<notin> ran (e(v := None))" unfolding ran_def by blast
    then show ?thesis using sub by blast
  qed
qed

section \<open>The contract of a counted pointer\<close>

locale counted_pointer =
  fixes mk :: "nat option \<Rightarrow> heap \<Rightarrow> (shared \<times> heap) ub"
    and cp :: "shared \<Rightarrow> heap \<Rightarrow> (shared \<times> heap) ub"
    and dr :: "shared \<Rightarrow> heap \<Rightarrow> heap ub"
  assumes mk_eq: "mk p H = Some (\<lparr>sp_ptr = p, sp_cnt = (nxt H, 0)\<rparr>, H\<lparr>cells := (cells H)(nxt H \<mapsto> 1), nxt := Suc (nxt H)\<rparr>)"
    and cp_eq: "snd (sp_cnt h) = 0 \<Longrightarrow> cells H (fst (sp_cnt h)) = Some n \<Longrightarrow>
      cp h H = Some (h, H\<lparr>cells := (cells H)(fst (sp_cnt h) \<mapsto> n + 1)\<rparr>)"
    and dr_more: "snd (sp_cnt h) = 0 \<Longrightarrow> cells H (fst (sp_cnt h)) = Some n \<Longrightarrow> n \<noteq> 1 \<Longrightarrow>
      dr h H = Some (H\<lparr>cells := (cells H)(fst (sp_cnt h) \<mapsto> n - 1)\<rparr>)"
    and dr_last: "snd (sp_cnt h) = 0 \<Longrightarrow> cells H (fst (sp_cnt h)) = Some 1 \<Longrightarrow>
      (\<forall>a. sp_ptr h = Some a \<longrightarrow> a \<in> objs H) \<Longrightarrow>
      dr h H = Some (H\<lparr>objs := objs H - set_option (sp_ptr h), cells := (cells H)(fst (sp_cnt h) := None)\<rparr>)"
begin

lemma mk_counted:
  assumes inv: "counted H e" and v: "e v = None" and m: "nxt H \<le> m" and p: "\<forall>a. p = Some a \<longrightarrow> nxt H \<le> a \<and> a < m"
  shows "\<exists>h H2. mk p (H\<lparr>objs := objs H \<union> set_option p, nxt := m\<rparr>) = Some (h, H2) \<and> counted H2 (e(v \<mapsto> h))"
proof -
  let ?h = "\<lparr>sp_ptr = p, sp_cnt = (m, 0)\<rparr>"
  let ?H = "H\<lparr>objs := objs H \<union> set_option p, cells := (cells H)(m \<mapsto> 1), nxt := Suc m\<rparr>"
  note fin = countedD(1) [OF inv]
  have old: "snd (sp_cnt h) = 0 \<and> fst (sp_cnt h) < nxt H \<and> (\<forall>a. sp_ptr h = Some a \<longrightarrow> a < nxt H)" if "h \<in> ran e" for h
    using countedD(4) [OF inv] that by (simp add: addresses_ok_def)
  have fresh: "sp_cnt h \<noteq> (m, 0) \<and> (sp_ptr h \<noteq> None \<longrightarrow> sp_ptr h \<noteq> p)" if "h \<in> ran e" for h
    using old [OF that] m p by auto
  have r: "ran (e(v \<mapsto> ?h)) = insert ?h (ran e)" using v by (rule ran_map_upd)
  have "owners e sp_cnt (m, 0) = 0" unfolding owners_0 [OF fin] using fresh ranI by metis
  then have "counts_ok ?H (e(v \<mapsto> ?h))"
    using countedD(2) [OF inv] owners_new [OF fin v, of ?h sp_cnt] by (simp add: counts_ok_def)
  moreover have "objs_ok ?H (insert ?h (ran e))" using countedD(3) [OF inv] by (auto simp: objs_ok_def elem_set)
  moreover have "addresses_ok ?H (insert ?h (ran e))" using old m p by (force simp: addresses_ok_def)
  moreover have "sharing (insert ?h (ran e))" using sharing_insert [OF countedD(5) [OF inv]] fresh by simp
  ultimately have "counted ?H (e(v \<mapsto> ?h))" using fin r by (simp add: counted_def)
  then show ?thesis by (simp add: mk_eq)
qed

lemma cp_counted:
  assumes inv: "counted H e" and v: "e v = None" and w: "e w = Some h"
  shows "\<exists>H2. cp h H = Some (h, H2) \<and> counted H2 (e(v \<mapsto> h))"
proof -
  let ?H = "H\<lparr>cells := (cells H)(fst (sp_cnt h) \<mapsto> int (owners e sp_cnt (sp_cnt h)) + 1)\<rparr>"
  note fin = countedD(1) [OF inv]
  note hc = counted_cell [OF inv w]
  have e: "cp h H = Some (h, ?H)" by (rule cp_eq) (use hc in \<open>simp_all add: prod_eq_iff\<close>)
  have "counts_ok ?H (e(v \<mapsto> h))"
    using countedD(2) [OF inv] owners_new [OF fin v, of h sp_cnt] hc(1) by (auto simp: counts_ok_def)
  moreover have "ran (e(v \<mapsto> h)) = ran e" using ran_map_upd [of e v h, OF v] insert_absorb [OF ranI [of e w h, OF w]] by simp
  ultimately have "counted ?H (e(v \<mapsto> h))"
    using inv by (simp add: counted_def objs_ok_def addresses_ok_def)
  then show ?thesis using e by blast
qed

lemma dr_counted:
  assumes inv: "counted H e" and v: "e v = Some h"
  shows "\<exists>H2. dr h H = Some H2 \<and> counted H2 (e(v := None))"
proof -
  let ?n = "owners e sp_cnt (sp_cnt h)"
  note fin = countedD(1) [OF inv]
  note hc = counted_cell [OF inv v]
  have s: "snd (sp_cnt h) = 0" using hc(1) by (simp add: prod_eq_iff)
  note od = owners_drop [OF fin v, of sp_cnt]
  have un: "(c, 0) \<noteq> sp_cnt h" if "c \<noteq> fst (sp_cnt h)" for c using that by (metis fst_conv)
  show ?thesis
  proof (cases "?n = 1")
    case True
    let ?H = "H\<lparr>objs := objs H - set_option (sp_ptr h), cells := (cells H)(fst (sp_cnt h) := None)\<rparr>"
    have e: "dr h H = Some ?H" by (rule dr_last) (use s hc True in simp_all)
    have r: "ran (e(v := None)) = ran e - {h}" using ran_drop(2) [OF inv v True] .
    have "counts_ok ?H (e(v := None))"
      using countedD(2) [OF inv] od True hc(1) unfolding counts_ok_def by (auto split: if_splits)
    moreover have "objs_ok ?H (ran e - {h})"
    proof -
      have "sp_ptr g \<noteq> Some a" if "g \<in> ran e" "g \<noteq> h" "sp_ptr h = Some a" for g a
        using countedD(5) [OF inv] that ranI [of e v h, OF v] unfolding sharing_def by (metis option.distinct(1) shared.equality unit_eq)
      then show ?thesis using countedD(3) [OF inv] by (auto simp: objs_ok_def elem_set)
    qed
    moreover have "addresses_ok ?H (ran e - {h})" using countedD(4) [OF inv] by (auto simp: addresses_ok_def)
    moreover have "sharing (ran e - {h})" using sharing_subset [OF countedD(5) [OF inv]] by blast
    ultimately have "counted ?H (e(v := None))" using fin r by (simp add: counted_def)
    then show ?thesis using e by blast
  next
    case False
    let ?H = "H\<lparr>cells := (cells H)(fst (sp_cnt h) \<mapsto> int ?n - 1)\<rparr>"
    have e: "dr h H = Some ?H" by (rule dr_more) (use s hc False in simp_all)
    have "counts_ok ?H (e(v := None))"
      using countedD(2) [OF inv] od False hc(1) unfolding counts_ok_def by (auto split: if_splits)
    then have "counted ?H (e(v := None))"
      using inv ran_drop(1) [OF inv v False] by (simp add: counted_def objs_ok_def addresses_ok_def)
    then show ?thesis using e by blast
  qed
qed

lemma step_counted:
  assumes inv: "counted H e" and ws: "well_scoped (c # cs) (dom e)"
  shows "\<exists>H2 e2. ptr_step mk cp dr c (H, e) = Some (H2, e2) \<and> counted H2 e2 \<and> well_scoped cs (dom e2)"
proof (cases c)
  case (Make v)
  then have v: "e v = None" using ws by auto
  obtain h H2 where "mk (Some (nxt H)) (H\<lparr>objs := insert (nxt H) (objs H), nxt := Suc (nxt H)\<rparr>) = Some (h, H2)"
    "counted H2 (e(v \<mapsto> h))"
    using mk_counted [OF inv v, of "Suc (nxt H)" "Some (nxt H)"] by auto
  then show ?thesis using Make ws by (simp add: new_obj_def)
next
  case (MakeNull v)
  then have v: "e v = None" using ws by auto
  obtain h H2 where "mk None H = Some (h, H2)" "counted H2 (e(v \<mapsto> h))"
    using mk_counted [OF inv v, of "nxt H" None] by auto
  then show ?thesis using MakeNull ws by simp
next
  case (CopyOf v w)
  then obtain h where v: "e v = None" "e w = Some h" using ws by auto
  obtain H2 where "cp h H = Some (h, H2)" "counted H2 (e(v \<mapsto> h))" using cp_counted [OF inv v] by blast
  then show ?thesis using CopyOf v ws by simp
next
  case (Drop v)
  then obtain h where v: "e v = Some h" using ws by auto
  obtain H2 where "dr h H = Some H2" "counted H2 (e(v := None))" using dr_counted [OF inv v] by blast
  then show ?thesis using Drop v ws by simp
qed

lemma run_counted:
  "counted H e \<Longrightarrow> well_scoped cs (dom e) \<Longrightarrow> \<exists>H2 e2. ptr_run mk cp dr cs (H, e) = Some (H2, e2) \<and> counted H2 e2"
proof (induction cs arbitrary: H e)
  case (Cons c cs)
  obtain H1 e1 where s: "ptr_step mk cp dr c (H, e) = Some (H1, e1)" "counted H1 e1" "well_scoped cs (dom e1)"
    using step_counted [OF Cons.prems] by blast
  show ?case using Cons.IH [OF s(2,3)] s(1) by simp
qed simp

end

interpretation first_class: counted_pointer Shared_construct Shared_copy Shared_destroy
  by unfold_locales
    (auto simp: Shared_construct_def Shared_copy_def Shared_destroy_def new_cell_def load_def store_def
      delete_obj_def delete_cell_def split: option.splits)

interpretation second_class: counted_pointer shared2_construct shared2_copy shared2_destroy
  by unfold_locales
    (auto simp: shared2_construct_def shared2_copy_def shared2_destroy_def new_cell_def load_def store_def
      delete_obj_def delete_cell_def split: option.splits)

lemma counted_empty: "counted empty_heap (\<lambda>_. None)"
  by (simp add: counted_def counts_ok_def objs_ok_def addresses_ok_def sharing_def owners_def empty_heap_def)

text \<open>What the invariant means for the variables in scope.\<close>

lemma counted_handles:
  assumes "counted H e" "e v = Some h"
  shows "load (sp_cnt h) H = Some (int (card {w. \<exists>g. e w = Some g \<and> sp_cnt g = sp_cnt h}))"
    and "\<forall>a. sp_ptr h = Some a \<longrightarrow> a \<in> objs H"
    and "sp_ptr h \<noteq> None \<Longrightarrow> e w = Some g \<Longrightarrow> sp_cnt g = sp_cnt h \<longleftrightarrow> sp_ptr g = sp_ptr h"
proof -
  have s: "snd (sp_cnt h) = 0" using counted_cell(1) [OF assms] by (simp add: prod_eq_iff)
  then show "load (sp_cnt h) H = Some (int (card {w. \<exists>g. e w = Some g \<and> sp_cnt g = sp_cnt h}))"
    using counted_cell(2) [OF assms] by (simp add: load_def owners_def)
  show "\<forall>a. sp_ptr h = Some a \<longrightarrow> a \<in> objs H" by (rule counted_cell(3) [OF assms])
  assume "sp_ptr h \<noteq> None" "e w = Some g"
  then show "sp_cnt g = sp_cnt h \<longleftrightarrow> sp_ptr g = sp_ptr h"
    using countedD(5) [OF assms(1)] ranI [of e v h, OF assms(2)] ranI [of e w g] unfolding sharing_def by metis
qed

lemma counted_no_leak:
  assumes "counted H e" "dom e = {}"
  shows "objs H = {}" "cells H = (\<lambda>_. None)"
proof -
  have e: "e = (\<lambda>_. None)" using assms(2) by auto
  show "objs H = {}" using countedD(3) [OF assms(1)] e by (simp add: objs_ok_def)
  show "cells H = (\<lambda>_. None)" using countedD(2) [OF assms(1)] e by (auto simp: counts_ok_def owners_def)
qed

section \<open>Properties\<close>

definition faithful :: "heap \<Rightarrow> vars \<Rightarrow> bool" where
  "faithful H e \<longleftrightarrow> (\<forall>v h. e v = Some h \<longrightarrow>
     load (sp_cnt h) H = Some (int (card {w. \<exists>g. e w = Some g \<and> sp_cnt g = sp_cnt h})) \<and>
     (\<forall>a. sp_ptr h = Some a \<longrightarrow> a \<in> objs H) \<and>
     (\<forall>w g. sp_ptr h \<noteq> None \<and> e w = Some g \<longrightarrow> (sp_cnt g = sp_cnt h \<longleftrightarrow> sp_ptr g = sp_ptr h))) \<and>
     (dom e = {} \<longrightarrow> objs H = {} \<and> cells H = (\<lambda>_. None))"

lemma counted_faithful: "counted H e \<Longrightarrow> faithful H e"
proof -
  assume c: "counted H e"
  show ?thesis
    unfolding faithful_def
  proof (intro conjI allI impI)
    fix v h w g assume vh: "e v = Some h" and wg: "sp_ptr h \<noteq> None \<and> e w = Some g"
    show "sp_cnt g = sp_cnt h \<longleftrightarrow> sp_ptr g = sp_ptr h"
      by (rule counted_handles(3) [OF c vh conjunct1 [OF wg] conjunct2 [OF wg]])
  qed (use counted_handles(1,2) [OF c] counted_no_leak [OF c] in simp_all)
qed

text \<open>
  C15. For every program that declares pointer variables on new objects or on null, copies
  variables that are alive and ends each life once, in any order: no counter or object is
  used or deleted after it was freed, in \<^verbatim>\<open>Shared_ptr\<close> as in the class of the second
  file. Every variable alive points to an allocated object, its counter is the number of
  variables that share its object, and when no variable is left nothing is allocated.
\<close>

theorem shared_pointer_safety:
  assumes "well_scoped cs {}"
  shows "(\<exists>H e. ptr_run Shared_construct Shared_copy Shared_destroy cs (empty_heap, \<lambda>_. None) = Some (H, e) \<and> faithful H e) \<and>
    (\<exists>H e. ptr_run shared2_construct shared2_copy shared2_destroy cs (empty_heap, \<lambda>_. None) = Some (H, e) \<and> faithful H e)"
  using first_class.run_counted [OF counted_empty, of cs] second_class.run_counted [OF counted_empty, of cs]
    counted_faithful assms by (simp, blast)

lemma shared_pointer_safety_witness:
  "\<exists>H e. ptr_run Shared_construct Shared_copy Shared_destroy [Make 0, CopyOf 1 0, Drop 0, Drop 1] (empty_heap, \<lambda>_. None) = Some (H, e) \<and>
    faithful H e"
  using shared_pointer_safety [of "[Make 0, CopyOf 1 0, Drop 0, Drop 1]"] by simp

text \<open>
  The program of the first file prints 1, 1, 2, 2, 2 and frees everything. In the other
  class of that file a copy points one behind the counter, so that ending the copy's life is
  undefined for every pointer. The program of the second file wraps the address of a local
  variable and is undefined.
\<close>

theorem shared_ptr_programs:
  "(\<exists>H. shared_main = Some ([1, 1, 2, 2, 2], H, \<lambda>_. None) \<and> objs H = {} \<and> cells H = (\<lambda>_. None)) \<and>
   (shared1_construct p H = Some (h, H1) \<and> shared1_copy h H2 = Some (h', H3) \<longrightarrow> shared1_destroy h' H4 = None) \<and>
   (a \<notin> objs H \<longrightarrow> shared2_main a H = None)"
proof (intro conjI impI)
  show "\<exists>H. shared_main = Some ([1, 1, 2, 2, 2], H, \<lambda>_. None) \<and> objs H = {} \<and> cells H = (\<lambda>_. None)"
    by (simp add: shared_main_def empty_heap_def new_obj_def new_cell_def Shared_construct_def Shared_copy_def Shared_destroy_def
        Shared_count_def load_def store_def delete_obj_def delete_cell_def fun_eq_iff)
next
  assume "shared1_construct p H = Some (h, H1) \<and> shared1_copy h H2 = Some (h', H3)"
  then show "shared1_destroy h' H4 = None"
    by (auto simp: shared1_construct_def new_cell_def shared1_copy_def shared1_destroy_def load_def)
next
  assume "a \<notin> objs H"
  then show "shared2_main a H = None"
    by (simp add: shared2_main_def shared2_construct_def shared2_destroy_def new_cell_def load_def store_def delete_obj_def delete_cell_def)
qed

lemma shared_ptr_programs_witness: "shared2_main 7 empty_heap = None"
  using shared_ptr_programs by (metis empty_heap_def empty_iff heap.select_convs(1))

end
