(* ===== verification/WeakPtr.thy ===== *)
theory WeakPtr
  imports SmartPtr
begin

text \<open>
  \<^verbatim>\<open>cpp/base/weak_ptr_impl.cpp\<close>: \<^verbatim>\<open>SharePtr\<close> and \<^verbatim>\<open>WeakPtr\<close>,
  which share a \<^verbatim>\<open>Counter\<close> with the numbers of strong and weak pointers. As in the theory
  of the strong pointers, a heap knows the allocated objects and counters, and every use of
  something that is not allocated is \<^term>\<open>None\<close>. The trace output is not modelled.
\<close>

section \<open>The classes\<close>

record Counter =
  cs :: int
  cw :: int

record cheap =
  cobjs :: "nat set"
  ctrs :: "nat \<Rightarrow> Counter option"
  cnxt :: nat

record ref =
  r_ptr :: "nat option"
  r_cnt :: "nat option"

definition load_ctr :: "nat option \<Rightarrow> cheap \<Rightarrow> Counter ub" where
  "load_ctr c H = do { a \<leftarrow> c; ctrs H a }"

definition store_ctr :: "nat option \<Rightarrow> Counter \<Rightarrow> cheap \<Rightarrow> cheap ub" where
  "store_ctr c n H = do { a \<leftarrow> c; m \<leftarrow> ctrs H a; Some (H\<lparr>ctrs := (ctrs H)(a \<mapsto> n)\<rparr>) }"

definition delete_ctr :: "nat option \<Rightarrow> cheap \<Rightarrow> cheap ub" where
  "delete_ctr c H = (case c of None \<Rightarrow> Some H
     | Some a \<Rightarrow> do { m \<leftarrow> ctrs H a; Some (H\<lparr>ctrs := (ctrs H)(a := None)\<rparr>) })"

definition delete_target :: "nat option \<Rightarrow> cheap \<Rightarrow> cheap ub" where
  "delete_target p H = (case p of None \<Rightarrow> Some H
     | Some a \<Rightarrow> if a \<in> cobjs H then Some (H\<lparr>cobjs := cobjs H - {a}\<rparr>) else None)"

definition new_target :: "cheap \<Rightarrow> nat \<times> cheap" where
  "new_target H = (cnxt H, H\<lparr>cobjs := insert (cnxt H) (cobjs H), cnxt := Suc (cnxt H)\<rparr>)"

definition new_Counter :: "cheap \<Rightarrow> nat \<times> cheap" where
  "new_Counter H = (cnxt H, H\<lparr>ctrs := (ctrs H)(cnxt H \<mapsto> \<lparr>cs = 0, cw = 0\<rparr>), cnxt := Suc (cnxt H)\<rparr>)"

definition add_s :: "int \<Rightarrow> nat option \<Rightarrow> cheap \<Rightarrow> cheap ub" where
  "add_s d c H = do { n \<leftarrow> load_ctr c H; store_ctr c (n\<lparr>cs := cs n + d\<rparr>) H }"

definition add_w :: "int \<Rightarrow> nat option \<Rightarrow> cheap \<Rightarrow> cheap ub" where
  "add_w d c H = do { n \<leftarrow> load_ctr c H; store_ctr c (n\<lparr>cw := cw n + d\<rparr>) H }"

definition SharePtr_construct :: "nat option \<Rightarrow> cheap \<Rightarrow> (ref \<times> cheap) ub" where
  "SharePtr_construct p H =
     (let (c, H) = new_Counter H in do {
        H \<leftarrow> (if p \<noteq> None then store_ctr (Some c) \<lparr>cs = 1, cw = 0\<rparr> H else Some H);
        Some (\<lparr>r_ptr = p, r_cnt = Some c\<rparr>, H)
      })"

definition SharePtr_copy :: "ref \<Rightarrow> cheap \<Rightarrow> (ref \<times> cheap) ub" where
  "SharePtr_copy s H = do { H \<leftarrow> add_s 1 (r_cnt s) H; Some (\<lparr>r_ptr = r_ptr s, r_cnt = r_cnt s\<rparr>, H) }"

definition SharePtr_from_weak :: "ref \<Rightarrow> cheap \<Rightarrow> (ref \<times> cheap) ub" where
  "SharePtr_from_weak w H = do { H \<leftarrow> add_s 1 (r_cnt w) H; Some (\<lparr>r_ptr = r_ptr w, r_cnt = r_cnt w\<rparr>, H) }"

definition SharePtr_release :: "ref \<Rightarrow> cheap \<Rightarrow> (ref \<times> cheap) ub" where
  "SharePtr_release this H = do {
     H \<leftarrow> add_s (-1) (r_cnt this) H;
     n \<leftarrow> load_ctr (r_cnt this) H;
     if cs n < 1
     then do {
       H \<leftarrow> delete_target (r_ptr this) H;
       if cw n < 1
       then do { H \<leftarrow> delete_ctr (r_cnt this) H; Some (this\<lparr>r_cnt := None\<rparr>, H) }
       else Some (this, H)
     }
     else Some (this, H)
   }"

definition SharePtr_assign :: "ref \<Rightarrow> ref \<Rightarrow> cheap \<Rightarrow> (ref \<times> cheap) ub" where
  "SharePtr_assign this s H = do {
     (this, H) \<leftarrow> SharePtr_release this H;
     H \<leftarrow> add_s 1 (r_cnt s) H;
     Some (this\<lparr>r_cnt := r_cnt s, r_ptr := r_ptr s\<rparr>, H)
   }"


definition WeakPtr_construct :: ref where
  "WeakPtr_construct = \<lparr>r_ptr = None, r_cnt = None\<rparr>"

definition WeakPtr_of :: "ref \<Rightarrow> cheap \<Rightarrow> (ref \<times> cheap) ub" where
  "WeakPtr_of s H = do { H \<leftarrow> add_w 1 (r_cnt s) H; Some (\<lparr>r_ptr = r_ptr s, r_cnt = r_cnt s\<rparr>, H) }"

definition WeakPtr_copy :: "ref \<Rightarrow> cheap \<Rightarrow> (ref \<times> cheap) ub" where
  "WeakPtr_copy w H = do { H \<leftarrow> add_w 1 (r_cnt w) H; Some (\<lparr>r_ptr = r_ptr w, r_cnt = r_cnt w\<rparr>, H) }"

definition WeakPtr_release :: "ref \<Rightarrow> cheap \<Rightarrow> (ref \<times> cheap) ub" where
  "WeakPtr_release this H =
     (if r_cnt this \<noteq> None
      then do {
        H \<leftarrow> add_w (-1) (r_cnt this) H;
        n \<leftarrow> load_ctr (r_cnt this) H;
        if cw n < 1 \<and> cs n < 1 then Some (this\<lparr>r_cnt := None\<rparr>, H) else Some (this, H)
      }
      else Some (this, H))"

definition WeakPtr_assign :: "ref \<Rightarrow> ref \<Rightarrow> cheap \<Rightarrow> (ref \<times> cheap) ub" where
  "WeakPtr_assign this w H = do {
     (this, H) \<leftarrow> WeakPtr_release this H;
     H \<leftarrow> add_w 1 (r_cnt w) H;
     Some (this\<lparr>r_cnt := r_cnt w, r_ptr := r_ptr w\<rparr>, H)
   }"

definition WeakPtr_assign_share :: "ref \<Rightarrow> ref \<Rightarrow> cheap \<Rightarrow> (ref \<times> cheap) ub" where
  "WeakPtr_assign_share this s H = do {
     (this, H) \<leftarrow> WeakPtr_release this H;
     H \<leftarrow> add_w 1 (r_cnt s) H;
     Some (this\<lparr>r_cnt := r_cnt s, r_ptr := r_ptr s\<rparr>, H)
   }"

definition WeakPtr_lock :: "ref \<Rightarrow> cheap \<Rightarrow> (ref \<times> cheap) ub" where
  "WeakPtr_lock this H = SharePtr_from_weak this H"


section \<open>Programs with strong and weak variables\<close>

datatype ref_op = SMake nat | SMakeNull nat | SCopy nat nat | SAssign nat nat | SDrop nat
  | WMake nat | WOf nat nat | WCopy nat nat | WAssign nat nat | WAssignS nat nat | WDrop nat | Lock nat nat

type_synonym refs = "nat \<Rightarrow> ref option"

type_synonym wstate = "cheap \<times> refs \<times> refs"

fun ref_step :: "ref_op \<Rightarrow> wstate \<Rightarrow> wstate ub" where
  "ref_step (SMake v) (H, S, W) =
     (let (a, H) = new_target H in do { (h, H) \<leftarrow> SharePtr_construct (Some a) H; Some (H, S(v \<mapsto> h), W) })"
| "ref_step (SMakeNull v) (H, S, W) = do { (h, H) \<leftarrow> SharePtr_construct None H; Some (H, S(v \<mapsto> h), W) }"
| "ref_step (SCopy v w) (H, S, W) = do { s \<leftarrow> S w; (h, H) \<leftarrow> SharePtr_copy s H; Some (H, S(v \<mapsto> h), W) }"
| "ref_step (SAssign v w) (H, S, W) =
     (if v = w then Some (H, S, W)
      else do { t \<leftarrow> S v; s \<leftarrow> S w; (h, H) \<leftarrow> SharePtr_assign t s H; Some (H, S(v \<mapsto> h), W) })"
| "ref_step (SDrop v) (H, S, W) = do { t \<leftarrow> S v; (t, H) \<leftarrow> SharePtr_release t H; Some (H, S(v := None), W) }"
| "ref_step (WMake v) (H, S, W) = Some (H, S, W(v \<mapsto> WeakPtr_construct))"
| "ref_step (WOf v w) (H, S, W) = do { s \<leftarrow> S w; (h, H) \<leftarrow> WeakPtr_of s H; Some (H, S, W(v \<mapsto> h)) }"
| "ref_step (WCopy v w) (H, S, W) = do { s \<leftarrow> W w; (h, H) \<leftarrow> WeakPtr_copy s H; Some (H, S, W(v \<mapsto> h)) }"
| "ref_step (WAssign v w) (H, S, W) =
     (if v = w then Some (H, S, W)
      else do { t \<leftarrow> W v; s \<leftarrow> W w; (h, H) \<leftarrow> WeakPtr_assign t s H; Some (H, S, W(v \<mapsto> h)) })"
| "ref_step (WAssignS v w) (H, S, W) =
     do { t \<leftarrow> W v; s \<leftarrow> S w; (h, H) \<leftarrow> WeakPtr_assign_share t s H; Some (H, S, W(v \<mapsto> h)) }"
| "ref_step (WDrop v) (H, S, W) = do { t \<leftarrow> W v; (t, H) \<leftarrow> WeakPtr_release t H; Some (H, S, W(v := None)) }"
| "ref_step (Lock v w) (H, S, W) = do { s \<leftarrow> W w; (h, H) \<leftarrow> WeakPtr_lock s H; Some (H, S(v \<mapsto> h), W) }"

fun ref_run :: "ref_op list \<Rightarrow> wstate \<Rightarrow> wstate ub" where
  "ref_run [] s = Some s"
| "ref_run (c # ops) s = do { s \<leftarrow> ref_step c s; ref_run ops s }"

definition ref_start :: wstate where
  "ref_start = (\<lparr>cobjs = {}, ctrs = (\<lambda>_. None), cnxt = 0\<rparr>, \<lambda>_. None, \<lambda>_. None)"



section \<open>The invariant\<close>









section \<open>The effect of the operations\<close>











section \<open>Properties\<close>




text \<open>
  What happens when a program does not respect the conditions, and what is never freed.
  When a weak pointer outlives the last strong one, the counter stays allocated after the
  last variable is gone. A copy of a strong pointer to null brings the counter to one for two
  owners, and the second owner uses the freed counter. Locking an expired pointer gives a
  strong pointer to the deleted object, which is deleted again. Copying a weak pointer that
  was never bound dereferences null.
\<close>

theorem weak_pointer_misuse:
  "(\<exists>H. ref_run [SMake 0, WOf 0 0, SDrop 0, WDrop 0] ref_start = Some (H, \<lambda>_. None, \<lambda>_. None) \<and>
      cobjs H = {} \<and> ctrs H 1 = Some \<lparr>cs = 0, cw = 0\<rparr>) \<and>
   ref_run [SMakeNull 0, SCopy 1 0, SDrop 1] ref_start \<noteq> None \<and>
   ref_run [SMakeNull 0, SCopy 1 0, SDrop 1, SDrop 0] ref_start = None \<and>
   ref_run [SMake 0, WOf 0 0, SDrop 0, Lock 1 0] ref_start \<noteq> None \<and>
   ref_run [SMake 0, WOf 0 0, SDrop 0, Lock 1 0, SDrop 1] ref_start = None \<and>
   ref_run [WMake 0, WCopy 1 0] ref_start = None"
  by (simp add: ref_start_def new_target_def new_Counter_def SharePtr_construct_def SharePtr_copy_def SharePtr_release_def
      SharePtr_from_weak_def WeakPtr_construct_def WeakPtr_of_def WeakPtr_copy_def WeakPtr_release_def WeakPtr_lock_def
      add_s_def add_w_def load_ctr_def store_ctr_def delete_ctr_def delete_target_def fun_eq_iff)

end
