(* ===== verification/Reactor.thy ===== *)
theory Reactor
  imports Cpp_Prelude
begin

unbundle bit_operations_syntax

text \<open>
  \<^verbatim>\<open>cpp/cpp_language/my_reactor/my_reactor_c.cpp\<close>: an echo server around
  \<^verbatim>\<open>epoll\<close>. The state is the reactor with its array of events and the list of
  system calls made so far. The operating system is a parameter: the results of the calls
  (\<^verbatim>\<open>accept\<close>, \<^verbatim>\<open>fcntl\<close>, \<^verbatim>\<open>recv\<close>, \<^verbatim>\<open>send\<close>,
  \<^verbatim>\<open>epoll_ctl\<close>, \<^verbatim>\<open>time\<close>, \<^verbatim>\<open>epoll_wait\<close>) are arguments, and
  the theorems hold for all results that satisfy the named conditions. The array comes from
  \<^verbatim>\<open>malloc\<close>, so its first contents are an argument too. Pointers to events are indices
  into the array; the argument of the callbacks is always the one reactor. Messages to the
  terminal are left out.
\<close>

section \<open>Data\<close>

abbreviation MAX_EPOLL_EVENTS :: nat where "MAX_EPOLL_EVENTS \<equiv> 1024"
abbreviation MAX_BUFFER_SIZE :: nat where "MAX_BUFFER_SIZE \<equiv> 4096"
abbreviation EPOLLIN :: int where "EPOLLIN \<equiv> 1"
abbreviation EPOLLOUT :: int where "EPOLLOUT \<equiv> 4"

datatype callback_fn = Accept_callback | Recv_callback | Send_callback

record ntyevent =
  ev_fd :: int
  ev_events :: int
  ev_callback :: callback_fn
  ev_status :: int
  ev_buffer :: "int list"
  ev_length :: int
  last_active :: int

datatype ctl_op = EPOLL_CTL_ADD | EPOLL_CTL_MOD | EPOLL_CTL_DEL

datatype syscall = Ctl ctl_op int int nat | CallAccept int int | CallRecv int "int list" | CallSend int "int list" | CallClose int

record ntyreactor =
  epoll_fd :: int
  evs :: "ntyevent list"
  calls :: "syscall list"

text \<open>The results of the system calls one callback may make; \<^verbatim>\<open>recv\<close> gives \<^term>\<open>None\<close> for -1.\<close>

record results =
  res_accept :: int
  res_fcntl :: int
  res_recv :: "int list option"
  res_send :: int
  res_ctl1 :: int
  res_ctl2 :: int
  res_time :: int

section \<open>Setting up\<close>

definition init_server :: "int \<Rightarrow> int \<Rightarrow> int \<Rightarrow> int \<Rightarrow> int" where
  "init_server sock pton bnd lst =
     (if sock = -1 then -1 else if pton = -1 then -1 else if bnd = -1 then -1 else if lst = -1 then -1 else sock)"

text \<open>The arguments say whether the two allocations succeed and what the second one contains.\<close>

definition ntyreactor_init :: "bool \<Rightarrow> int \<Rightarrow> ntyevent list option \<Rightarrow> ntyreactor option" where
  "ntyreactor_init malloc1 epoll mem =
     (if \<not> malloc1 then None
      else if epoll = -1 then None
      else case mem of None \<Rightarrow> None | Some es \<Rightarrow> Some \<lparr>epoll_fd = epoll, evs = es, calls = []\<rparr>)"

definition ntyreactor_destroy :: "ntyreactor option \<Rightarrow> int \<times> syscall list" where
  "ntyreactor_destroy r = (case r of None \<Rightarrow> (-1, []) | Some R \<Rightarrow> (0, calls R @ [CallClose (epoll_fd R)]))"

section \<open>Events\<close>

definition nty_event_set :: "int \<Rightarrow> nat \<Rightarrow> int \<Rightarrow> int \<Rightarrow> int \<Rightarrow> int \<Rightarrow> callback_fn option \<Rightarrow> ntyreactor \<Rightarrow> (int \<times> ntyreactor) ub" where
  "nty_event_set now ev fd event len status callback R =
     (if fd < 0 \<or> event < 0 \<or> len < 0 \<or> callback = None \<or> status < 0 then Some (-1, R)
      else do {
        e \<leftarrow> vget (evs R) ev;
        es \<leftarrow> vset (evs R) ev (e\<lparr>ev_fd := fd, ev_events := event, ev_callback := the callback,
          ev_status := status, ev_length := len, last_active := now\<rparr>);
        Some (0, R\<lparr>evs := es\<rparr>)
      })"

definition nty_event_add :: "int \<Rightarrow> nat \<Rightarrow> ntyreactor \<Rightarrow> (int \<times> ntyreactor) ub" where
  "nty_event_add ctl ev R =
     (if epoll_fd R < 0 then Some (-1, R)
      else do {
        e \<leftarrow> vget (evs R) ev;
        let (op, st) = (if ev_status e = 0 then (EPOLL_CTL_ADD, 1) else (EPOLL_CTL_MOD, ev_status e));
        es \<leftarrow> vset (evs R) ev (e\<lparr>ev_status := st\<rparr>);
        Some (if ctl = -1 then -1 else 0, R\<lparr>evs := es, calls := calls R @ [Ctl op (ev_fd e) (ev_events e) ev]\<rparr>)
      })"

definition nty_event_del :: "int \<Rightarrow> nat \<Rightarrow> ntyreactor \<Rightarrow> (int \<times> ntyreactor) ub" where
  "nty_event_del ctl ev R = do {
     e \<leftarrow> vget (evs R) ev;
     if epoll_fd R < 0 \<or> ev_status e \<noteq> 1 then Some (-1, R)
     else do {
       es \<leftarrow> vset (evs R) ev (e\<lparr>ev_status := 0\<rparr>);
       Some (if ctl = -1 then -1 else 0, R\<lparr>evs := es, calls := calls R @ [Ctl EPOLL_CTL_DEL (ev_fd e) 0 ev]\<rparr>)
     }
   }"

definition ntyreactor_addlistener :: "results \<Rightarrow> int \<Rightarrow> callback_fn option \<Rightarrow> ntyreactor option \<Rightarrow> (int \<times> ntyreactor option) ub" where
  "ntyreactor_addlistener a fd callback r =
     (case r of
        None \<Rightarrow> Some (-1, None)
      | Some R \<Rightarrow>
          if fd < 0 \<or> callback = None then Some (-1, Some R)
          else do {
            (x, R) \<leftarrow> nty_event_set (res_time a) (nat fd) fd EPOLLIN 0 0 callback R;
            (y, R) \<leftarrow> nty_event_add (res_ctl1 a) (nat fd) R;
            Some (0, Some R)
          })"

section \<open>Callbacks\<close>

function find_slot :: "ntyevent list \<Rightarrow> nat \<Rightarrow> nat ub" where
  "find_slot es i =
     (if i < MAX_EPOLL_EVENTS
      then do { e \<leftarrow> vget es i; if ev_status e = 0 then Some i else find_slot es (i + 1) }
      else Some i)"
  by pat_completeness auto
termination
  by (relation "measure (\<lambda>(es, i). MAX_EPOLL_EVENTS - i)") auto

declare find_slot.simps [simp del]

definition accept_callback :: "results \<Rightarrow> int \<Rightarrow> ntyreactor \<Rightarrow> (int \<times> ntyreactor) ub" where
  "accept_callback a fd R = do {
     ev \<leftarrow> iget (evs R) fd;
     let cli_fd = res_accept a;
     let R = R\<lparr>calls := calls R @ [CallAccept (ev_fd ev) cli_fd]\<rparr>;
     if cli_fd = -1 then Some (-1, R)
     else do {
       i \<leftarrow> find_slot (evs R) 5;
       if i = MAX_EPOLL_EVENTS then Some (-1, R)
       else if res_fcntl a < 0 then Some (-1, R)
       else do {
         (x, R) \<leftarrow> nty_event_set (res_time a) (nat cli_fd) cli_fd EPOLLIN 0 0 (Some Recv_callback) R;
         (y, R) \<leftarrow> nty_event_add (res_ctl1 a) (nat cli_fd) R;
         e \<leftarrow> iget (evs R) cli_fd;
         Some (0, R)
       }
     }
   }"

definition recv_callback :: "results \<Rightarrow> int \<Rightarrow> ntyreactor \<Rightarrow> (int \<times> ntyreactor) ub" where
  "recv_callback a fd R = do {
     ev \<leftarrow> iget (evs R) fd;
     (x, R) \<leftarrow> nty_event_del (res_ctl1 a) (nat fd) R;
     case res_recv a of
       None \<Rightarrow> Some (-1, R\<lparr>calls := calls R @ [CallClose (ev_fd ev)]\<rparr>)
     | Some [] \<Rightarrow> Some (0, R\<lparr>calls := calls R @ [CallRecv (ev_fd ev) [], CallClose (ev_fd ev)]\<rparr>)
     | Some bytes \<Rightarrow> do {
         let rc = length bytes;
         let R = R\<lparr>calls := calls R @ [CallRecv (ev_fd ev) bytes]\<rparr>;
         ev \<leftarrow> iget (evs R) fd;
         buf \<leftarrow> (if rc \<le> length (ev_buffer ev) then Some (bytes @ drop rc (ev_buffer ev)) else None);
         buf \<leftarrow> vset buf rc 0;
         es \<leftarrow> iset (evs R) fd (ev\<lparr>ev_buffer := buf\<rparr>);
         let R = R\<lparr>evs := es\<rparr>;
         (y, R) \<leftarrow> nty_event_set (res_time a) (nat fd) (ev_fd ev) EPOLLOUT (int rc) 0 (Some Send_callback) R;
         (z, R) \<leftarrow> nty_event_add (res_ctl2 a) (nat fd) R;
         Some (int rc, R)
       }
   }"

definition send_callback :: "results \<Rightarrow> int \<Rightarrow> ntyreactor \<Rightarrow> (int \<times> ntyreactor) ub" where
  "send_callback a fd R = do {
     ev \<leftarrow> iget (evs R) fd;
     data \<leftarrow> (if ev_length ev \<le> int (length (ev_buffer ev)) then Some (take (nat (ev_length ev)) (ev_buffer ev)) else None);
     let R = R\<lparr>calls := calls R @ [CallSend (ev_fd ev) data]\<rparr>;
     let rc = res_send a;
     if rc > 0
     then do {
       (x, R) \<leftarrow> nty_event_del (res_ctl1 a) (nat fd) R;
       (y, R) \<leftarrow> nty_event_set (res_time a) (nat fd) (ev_fd ev) EPOLLIN 0 0 (Some Recv_callback) R;
       (z, R) \<leftarrow> nty_event_add (res_ctl2 a) (nat fd) R;
       Some (rc, R)
     }
     else do {
       let R = R\<lparr>calls := calls R @ [CallClose (ev_fd ev)]\<rparr>;
       (x, R) \<leftarrow> nty_event_del (res_ctl1 a) (nat fd) R;
       Some (rc, R)
     }
   }"

section \<open>The loop\<close>

definition call_event :: "results \<Rightarrow> nat \<Rightarrow> ntyreactor \<Rightarrow> ntyreactor ub" where
  "call_event a ev R = do {
     e \<leftarrow> vget (evs R) ev;
     (x, R) \<leftarrow> (case ev_callback e of
         Accept_callback \<Rightarrow> accept_callback a (ev_fd e) R
       | Recv_callback \<Rightarrow> recv_callback a (ev_fd e) R
       | Send_callback \<Rightarrow> send_callback a (ev_fd e) R);
     Some R
   }"

text \<open>One entry of \<^verbatim>\<open>ep_events\<close>: the reported mask, the event, and the results for up to two callbacks.\<close>

definition handle_event :: "int \<times> nat \<times> results \<times> results \<Rightarrow> ntyreactor \<Rightarrow> ntyreactor ub" where
  "handle_event = (\<lambda>(mask, ev, a, b) R. do {
     e \<leftarrow> vget (evs R) ev;
     R \<leftarrow> (if mask AND EPOLLIN \<noteq> 0 \<and> ev_events e AND EPOLLIN \<noteq> 0 then call_event a ev R else Some R);
     e \<leftarrow> vget (evs R) ev;
     if mask AND EPOLLOUT \<noteq> 0 \<and> ev_events e AND EPOLLOUT \<noteq> 0 then call_event b ev R else Some R
   })"

fun handle_events :: "(int \<times> nat \<times> results \<times> results) list \<Rightarrow> ntyreactor \<Rightarrow> ntyreactor ub" where
  "handle_events [] R = Some R"
| "handle_events (x # xs) R = do { R \<leftarrow> handle_event x R; handle_events xs R }"

text \<open>
  The outcomes of \<^verbatim>\<open>epoll_wait\<close>: an error (with the flag whether it is one that is
  retried), or the entries reported, none on a timeout. After the last outcome the loop is
  still running, which is the result \<^term>\<open>None\<close> of the first component.
\<close>

datatype wait = WaitError bool | Ready "(int \<times> nat \<times> results \<times> results) list"

fun run_loop :: "wait list \<Rightarrow> ntyreactor \<Rightarrow> (int option \<times> ntyreactor) ub" where
  "run_loop [] R = Some (None, R)"
| "run_loop (WaitError retry # ws) R = (if retry then run_loop ws R else Some (Some (-1), R))"
| "run_loop (Ready xs # ws) R = do { R \<leftarrow> handle_events xs R; run_loop ws R }"

definition ntyreactor_run :: "wait list \<Rightarrow> ntyreactor option \<Rightarrow> (int option \<times> ntyreactor option) ub" where
  "ntyreactor_run ws r =
     (case r of
        None \<Rightarrow> Some (Some (-1), None)
      | Some R \<Rightarrow>
          if epoll_fd R < 0 then Some (Some (-1), Some R)
          else do { (x, R) \<leftarrow> run_loop ws R; Some (x, Some R) })"

text \<open>The program after it has read its arguments; the result is the calls made when it ends.\<close>

definition reactor_main :: "int \<Rightarrow> int \<Rightarrow> int \<Rightarrow> int \<Rightarrow> bool \<Rightarrow> int \<Rightarrow> ntyevent list option \<Rightarrow> results \<Rightarrow> wait list \<Rightarrow>
    (int option \<times> syscall list) ub" where
  "reactor_main sock pton bnd lst malloc1 epoll mem a ws = do {
     let sock_fd = init_server sock pton bnd lst;
     case ntyreactor_init malloc1 epoll mem of
       None \<Rightarrow> Some (Some 1, [])
     | Some R \<Rightarrow> do {
         (x, r) \<leftarrow> ntyreactor_addlistener a sock_fd (Some Accept_callback) (Some R);
         (y, r) \<leftarrow> ntyreactor_run ws r;
         case y of
           None \<Rightarrow> Some (None, calls (the r))
         | Some c \<Rightarrow> Some (Some 0, snd (ntyreactor_destroy r) @ [CallClose sock_fd])
       }
   }"

section \<open>The interest list of the kernel\<close>

text \<open>
  What successful calls do to the interest list of \<^verbatim>\<open>epoll\<close>: adding and modifying
  store the mask and the pointer, deleting and closing remove the descriptor.
\<close>

type_synonym interest = "int \<Rightarrow> (int \<times> nat) option"

fun table_step :: "interest \<Rightarrow> syscall \<Rightarrow> interest" where
  "table_step T (Ctl EPOLL_CTL_DEL fd m i) = T(fd := None)"
| "table_step T (Ctl EPOLL_CTL_ADD fd m i) = T(fd \<mapsto> (m, i))"
| "table_step T (Ctl EPOLL_CTL_MOD fd m i) = T(fd \<mapsto> (m, i))"
| "table_step T (CallClose fd) = T(fd := None)"
| "table_step T (CallAccept fd c) = T"
| "table_step T (CallRecv fd b) = T"
| "table_step T (CallSend fd b) = T"

definition table :: "syscall list \<Rightarrow> interest" where
  "table cs = foldl table_step (\<lambda>_. None) cs"

lemma table_append [simp]: "table (cs @ ds) = foldl table_step (table cs) ds"
  by (simp add: table_def)

text \<open>Additions only of descriptors that are not in the list, modifications only of ones that are.\<close>

fun legal_from :: "interest \<Rightarrow> syscall list \<Rightarrow> bool" where
  "legal_from T [] \<longleftrightarrow> True"
| "legal_from T (c # cs) \<longleftrightarrow>
     (case c of Ctl EPOLL_CTL_ADD fd m i \<Rightarrow> T fd = None | Ctl EPOLL_CTL_MOD fd m i \<Rightarrow> T fd \<noteq> None | _ \<Rightarrow> True) \<and>
     legal_from (table_step T c) cs"


definition legal :: "syscall list \<Rightarrow> bool" where
  "legal cs \<longleftrightarrow> legal_from (\<lambda>_. None) cs"


text \<open>What was received from and handed to \<^verbatim>\<open>send\<close> for a descriptor.\<close>

fun received :: "int \<Rightarrow> syscall list \<Rightarrow> int list list" where
  "received fd [] = []"
| "received fd (CallRecv f b # cs) = (if f = fd \<and> b \<noteq> [] then [b] else []) @ received fd cs"
| "received fd (_ # cs) = received fd cs"

fun sent :: "int \<Rightarrow> syscall list \<Rightarrow> int list list" where
  "sent fd [] = []"
| "sent fd (CallSend f b # cs) = (if f = fd then [b] else []) @ sent fd cs"
| "sent fd (_ # cs) = sent fd cs"

lemma received_append [simp]: "received fd (cs @ ds) = received fd cs @ received fd ds"
  by (induction fd cs rule: received.induct) auto

lemma sent_append [simp]: "sent fd (cs @ ds) = sent fd cs @ sent fd ds"
  by (induction fd cs rule: sent.induct) auto

section \<open>The invariant\<close>

definition entry_ok :: "nat \<Rightarrow> (int \<times> nat) option \<Rightarrow> ntyevent \<Rightarrow> bool" where
  "entry_ok i v e \<longleftrightarrow> (case v of
     None \<Rightarrow> True
   | Some (m, j) \<Rightarrow> j = i \<and> ev_fd e = int i \<and> ev_status e = 1 \<and> ev_events e = m \<and>
       (if ev_callback e = Send_callback then m = EPOLLOUT \<and> 0 < ev_length e \<and> ev_length e < int MAX_BUFFER_SIZE
        else m = EPOLLIN))"

definition pending :: "(int \<times> nat) option \<Rightarrow> ntyevent \<Rightarrow> int list list" where
  "pending v e = (if v \<noteq> None \<and> fst (the v) = EPOLLOUT then [take (nat (ev_length e)) (ev_buffer e)] else [])"

text \<open>
  With \<open>zeroed\<close> the array started with status zero everywhere, and the status tells
  exactly which descriptors are in the interest list.
\<close>

definition reactor_inv :: "bool \<Rightarrow> ntyreactor \<Rightarrow> bool" where
  "reactor_inv zeroed R \<longleftrightarrow> 0 \<le> epoll_fd R \<and> length (evs R) = MAX_EPOLL_EVENTS \<and> legal (calls R) \<and>
     (\<forall>fd. (fd < 0 \<or> int MAX_EPOLL_EVENTS \<le> fd) \<longrightarrow> table (calls R) fd = None \<and> received fd (calls R) = [] \<and> sent fd (calls R) = []) \<and>
     (\<forall>i < MAX_EPOLL_EVENTS. let e = evs R ! i; v = table (calls R) (int i) in
        length (ev_buffer e) = MAX_BUFFER_SIZE \<and> entry_ok i v e \<and>
        (zeroed \<longrightarrow> (ev_status e = 1 \<longleftrightarrow> v \<noteq> None) \<and> (ev_status e = 0 \<longleftrightarrow> v = None)) \<and>
        received (int i) (calls R) = sent (int i) (calls R) @ pending v e)"

lemma reactor_invD:
  assumes "reactor_inv z R"
  shows "0 \<le> epoll_fd R" "length (evs R) = MAX_EPOLL_EVENTS" "legal (calls R)"
    "i < MAX_EPOLL_EVENTS \<Longrightarrow> length (ev_buffer (evs R ! i)) = MAX_BUFFER_SIZE"
    "i < MAX_EPOLL_EVENTS \<Longrightarrow> entry_ok i (table (calls R) (int i)) (evs R ! i)"
    "i < MAX_EPOLL_EVENTS \<Longrightarrow> received (int i) (calls R) = sent (int i) (calls R) @ pending (table (calls R) (int i)) (evs R ! i)"
  using assms by (simp_all add: reactor_inv_def Let_def)


section \<open>The callbacks keep the invariant\<close>

lemmas event_defs = nty_event_set_def nty_event_add_def nty_event_del_def vget_def vset_def iget_def iset_def

lemma registered_entry:
  assumes "reactor_inv z R" "table (calls R) (int i) = Some (m, j)" "i < MAX_EPOLL_EVENTS"
  shows "j = i" "ev_fd (evs R ! i) = int i" "ev_status (evs R ! i) = 1" "ev_events (evs R ! i) = m"
    "if ev_callback (evs R ! i) = Send_callback then m = EPOLLOUT \<and> 0 < ev_length (evs R ! i) \<and> ev_length (evs R ! i) < int MAX_BUFFER_SIZE
     else m = EPOLLIN"
  using reactor_invD(5) [OF assms(1,3)] assms(2) unfolding entry_ok_def by auto






section \<open>The loop keeps the invariant\<close>









section \<open>The start\<close>







section \<open>Properties\<close>


definition blank_event :: ntyevent where
  "blank_event = \<lparr>ev_fd = 0, ev_events = 0, ev_callback = Accept_callback, ev_status = 0,
     ev_buffer = replicate MAX_BUFFER_SIZE 0, ev_length = 0, last_active = 0\<rparr>"


text \<open>The server with descriptor 4 on zeroed memory, and the state in which it listens.\<close>

definition listening :: ntyreactor where
  "listening = \<lparr>epoll_fd = 3,
     evs = (replicate MAX_EPOLL_EVENTS blank_event)[4 := blank_event\<lparr>ev_fd := 4, ev_events := EPOLLIN, ev_callback := Accept_callback,
       ev_length := 0, last_active := 0, ev_status := 1\<rparr>],
     calls = [Ctl EPOLL_CTL_ADD 4 EPOLLIN 4]\<rparr>"





text \<open>
  Where the bounds matter. A \<^verbatim>\<open>recv\<close> that fills the buffer of 4096 bytes writes the
  terminator behind it. A connection whose descriptor is 1024 or more is stored outside the
  array, although the search for a free slot has found one. An interrupted
  \<^verbatim>\<open>epoll_wait\<close> ends the server.
\<close>

theorem reactor_bounds:
  "(reactor_inv z R \<and> i < MAX_EPOLL_EVENTS \<and> table (calls R) (int i) = Some (EPOLLIN, i) \<and>
      res_recv a = Some bytes \<and> length bytes = MAX_BUFFER_SIZE \<longrightarrow> recv_callback a (int i) R = None) \<and>
   (reactor_inv z R \<and> i < MAX_EPOLL_EVENTS \<and> find_slot (evs R) 5 = Some k \<and> k < MAX_EPOLL_EVENTS \<and> \<not> res_fcntl a < 0 \<and>
      int MAX_EPOLL_EVENTS \<le> res_accept a \<longrightarrow> accept_callback a (int i) R = None) \<and>
   (0 \<le> epoll_fd R \<longrightarrow> ntyreactor_run (WaitError False # ws) (Some R) = Some (Some (-1), Some R))"
proof (intro conjI impI)
  assume h: "reactor_inv z R \<and> i < MAX_EPOLL_EVENTS \<and> table (calls R) (int i) = Some (EPOLLIN, i) \<and>
    res_recv a = Some bytes \<and> length bytes = MAX_BUFFER_SIZE"
  then have inv: "reactor_inv z R" and i: "i < MAX_EPOLL_EVENTS" and t: "table (calls R) (int i) = Some (EPOLLIN, i)"
    and b: "res_recv a = Some bytes" "length bytes = MAX_BUFFER_SIZE" by blast+
  note d = reactor_invD(1,2) [OF inv] reactor_invD(4) [OF inv i]
  note e = registered_entry [OF inv t i]
  obtain x xs where bs: "bytes = x # xs" using b(2) by (cases bytes) auto
  show "recv_callback a (int i) R = None" using d e i b bs by (simp add: recv_callback_def event_defs)
next
  assume h: "reactor_inv z R \<and> i < MAX_EPOLL_EVENTS \<and> find_slot (evs R) 5 = Some k \<and> k < MAX_EPOLL_EVENTS \<and> \<not> res_fcntl a < 0 \<and>
      int MAX_EPOLL_EVENTS \<le> res_accept a"
  then have len: "length (evs R) = MAX_EPOLL_EVENTS" using reactor_invD(2) by blast
  show "accept_callback a (int i) R = None" using h len by (simp add: accept_callback_def Let_def event_defs)
next
  assume "0 \<le> epoll_fd R"
  then show "ntyreactor_run (WaitError False # ws) (Some R) = Some (Some (-1), Some R)" by (simp add: ntyreactor_run_def)
qed

lemma reactor_bounds_witness: "ntyreactor_run [WaitError False] (Some listening) = Some (Some (-1), Some listening)"
  using reactor_bounds [THEN conjunct2, THEN conjunct2, THEN mp, of listening "[]"] by (simp add: listening_def)

end
