(* ===== verification/ReactorServer.thy ===== *)
theory ReactorServer
  imports Cpp_Prelude
begin

text \<open>
  \<^verbatim>\<open>cpp/cpp_language/my_reactor/my_reactor_server.cpp\<close>: a server with one thread that
  waits for events, one that accepts connections and eight workers that share a list of
  clients. The methods are functions; the threads are a step relation whose steps are the
  critical sections, the notifications and the calls. The results of the system calls are
  parameters.
\<close>

section \<open>State\<close>

abbreviation worker_thread_num :: nat where "worker_thread_num \<equiv> 8"
abbreviation recv_buf_size :: nat where "recv_buf_size \<equiv> 256"

datatype worker_pc = WCheck | WWait | WBusy int | WExit
datatype accept_pc = AStart | AWait | AWoken | AExit
datatype main_pc = MLoop | MNotify | MExit

datatype server_call = SAdd int | SDel int | SClose int | SShutdown int | SSend int "int list"

text \<open>The last two fields record the clients put into and taken from the list.\<close>

record server =
  listen_fd :: int
  server_epoll :: int
  init_flag :: bool
  stop_flag :: bool
  main_loop :: bool
  clients_list :: "int list"
  server_calls :: "server_call list"
  main_at :: main_pc
  accept_at :: accept_pc
  worker_at :: "nat \<Rightarrow> worker_pc"
  pushed :: "int list"
  taken :: "int list"

definition ReactorServer_new :: server where
  "ReactorServer_new = \<lparr>listen_fd = 0, server_epoll = 0, init_flag = False, stop_flag = True, main_loop = True,
     clients_list = [], server_calls = [], main_at = MExit, accept_at = AExit, worker_at = (\<lambda>_. WExit),
     pushed = [], taken = []\<rparr>"

section \<open>Methods\<close>

text \<open>The results of \<^verbatim>\<open>socket\<close>, \<^verbatim>\<open>bind\<close>, \<^verbatim>\<open>listen\<close>, \<^verbatim>\<open>epoll_create\<close> and \<^verbatim>\<open>epoll_ctl\<close>.\<close>

definition createServerListener :: "int \<Rightarrow> int \<Rightarrow> int \<Rightarrow> int \<Rightarrow> int \<Rightarrow> server \<Rightarrow> bool \<times> server" where
  "createServerListener sock bnd lst epoll ctl s =
     (let s = s\<lparr>listen_fd := sock\<rparr>
      in if sock = -1 then (False, s)
         else if bnd = -1 then (False, s)
         else if lst = -1 then (False, s)
         else let s = s\<lparr>server_epoll := epoll\<rparr>
              in if epoll = -1 then (False, s)
                 else let s = s\<lparr>server_calls := server_calls s @ [SAdd sock]\<rparr>
                      in if ctl = -1 then (False, s) else (True, s))"

definition server_init :: "int \<Rightarrow> int \<Rightarrow> int \<Rightarrow> int \<Rightarrow> int \<Rightarrow> server \<Rightarrow> bool \<times> server" where
  "server_init sock bnd lst epoll ctl s =
     (if init_flag s then (True, s)
      else let (ok, s) = createServerListener sock bnd lst epoll ctl s
           in if \<not> ok then (False, s)
              else (True, s\<lparr>accept_at := AStart, worker_at := (\<lambda>w. if w < worker_thread_num then WCheck else WExit),
                main_at := MLoop, init_flag := True\<rparr>))"

text \<open>The threads have ended when the joins return; \<^verbatim>\<open>stop\<close> is otherwise blocked there.\<close>

definition server_stop :: "server \<Rightarrow> (bool \<times> server) option" where
  "server_stop s =
     (if stop_flag s then Some (True, s)
      else if accept_at s = AExit \<and> (\<forall>w < worker_thread_num. worker_at s w = WExit)
      then Some (True, s\<lparr>main_loop := False, stop_flag := True,
        server_calls := server_calls s @ [SDel (listen_fd s), SShutdown (listen_fd s), SClose (listen_fd s), SClose (server_epoll s)]\<rparr>)
      else None)"

text \<open>What \<^verbatim>\<open>stop\<close> does before it joins.\<close>

definition stop_begin :: "server \<Rightarrow> server" where
  "stop_begin s =
     (if stop_flag s then s
      else s\<lparr>main_loop := False, accept_at := (if accept_at s = AWait then AWoken else accept_at s),
        worker_at := (\<lambda>w. if worker_at s w = WWait then WCheck else worker_at s w)\<rparr>)"

definition closeClient :: "int \<Rightarrow> server \<Rightarrow> server" where
  "closeClient fd s = s\<lparr>server_calls := server_calls s @ [SDel fd, SClose fd]\<rparr>"

text \<open>
  Reading a client. The buffer of 256 bytes is cleared, filled, and appended as a C string:
  up to the first zero byte. When all 256 bytes are received and none is zero, the string
  does not end in the buffer. The loop ends with the first result that is not data; the
  list of results has one.
\<close>

datatype recv_result = Data "int list" | WouldBlock | RecvError | PeerClosed

definition append_buf :: "int list \<Rightarrow> int list \<Rightarrow> int list ub" where
  "append_buf msg bytes =
     (if length bytes > recv_buf_size then None
      else let buf = bytes @ replicate (recv_buf_size - length bytes) 0
           in if 0 \<in> set buf then Some (msg @ takeWhile (\<lambda>c. c \<noteq> 0) buf) else None)"

fun recv_loop :: "recv_result list \<Rightarrow> int \<Rightarrow> int list \<Rightarrow> server \<Rightarrow> (bool \<times> int list \<times> server) ub" where
  "recv_loop [] fd msg s = None"
| "recv_loop (Data bytes # rs) fd msg s = do { msg \<leftarrow> append_buf msg bytes; recv_loop rs fd msg s }"
| "recv_loop (WouldBlock # rs) fd msg s = Some (False, msg, s)"
| "recv_loop (RecvError # rs) fd msg s = Some (True, msg, closeClient fd s)"
| "recv_loop (PeerClosed # rs) fd msg s = Some (True, msg, closeClient fd s)"

text \<open>The text \<^verbatim>\<open>" test send"\<close>.\<close>

definition test_send :: "int list" where
  "test_send = [32, 116, 101, 115, 116, 32, 115, 101, 110, 100]"

text \<open>Serving one client; the first component tells whether the worker goes on. \<open>Inl\<close> is a failed \<^verbatim>\<open>send\<close> with the flag for \<^verbatim>\<open>EWOULDBLOCK\<close>.\<close>

definition serve_client :: "recv_result list \<Rightarrow> bool + nat \<Rightarrow> int \<Rightarrow> server \<Rightarrow> (bool \<times> server) ub" where
  "serve_client rs snd_res fd s = do {
     (error, msg, s) \<leftarrow> recv_loop rs fd [] s;
     if error then Some (True, s)
     else do {
       let msg = msg @ test_send;
       let s = s\<lparr>server_calls := server_calls s @ [SSend fd msg]\<rparr>;
       case snd_res of
         Inr n \<Rightarrow> Some (True, s)
       | Inl True \<Rightarrow> Some (True, s)
       | Inl False \<Rightarrow> Some (False, closeClient fd s)
     }
   }"

text \<open>Accepting one connection, with the results of \<^verbatim>\<open>accept\<close> and \<^verbatim>\<open>fcntl\<close>.\<close>

definition accept_client :: "int \<Rightarrow> int \<Rightarrow> server \<Rightarrow> server" where
  "accept_client new_fd fcntl s =
     (if new_fd = -1 then s
      else if fcntl = -1 then s
      else s\<lparr>server_calls := server_calls s @ [SAdd new_fd]\<rparr>)"

section \<open>Threads\<close>

inductive server_step :: "server \<Rightarrow> server \<Rightarrow> bool" where
  main_push: "main_at s = MLoop \<Longrightarrow> main_loop s \<Longrightarrow> fd \<noteq> listen_fd s \<Longrightarrow>
    server_step s (s\<lparr>clients_list := clients_list s @ [fd], pushed := pushed s @ [fd], main_at := MNotify\<rparr>)"
| main_notify: "main_at s = MNotify \<Longrightarrow> worker_at s w = WWait \<Longrightarrow>
    server_step s (s\<lparr>worker_at := (worker_at s)(w := WCheck), main_at := MLoop\<rparr>)"
| main_notify_none: "main_at s = MNotify \<Longrightarrow> (\<forall>w. worker_at s w \<noteq> WWait) \<Longrightarrow> server_step s (s\<lparr>main_at := MLoop\<rparr>)"
| main_accept: "main_at s = MLoop \<Longrightarrow> main_loop s \<Longrightarrow>
    server_step s (s\<lparr>accept_at := (if accept_at s = AWait then AWoken else accept_at s)\<rparr>)"
| main_exit: "main_at s = MLoop \<Longrightarrow> \<not> main_loop s \<Longrightarrow> server_step s (s\<lparr>main_at := MExit\<rparr>)"
| accept_wait: "accept_at s = AStart \<Longrightarrow> server_step s (s\<lparr>accept_at := AWait\<rparr>)"
| accept_spurious: "accept_at s = AWait \<Longrightarrow> server_step s (s\<lparr>accept_at := AWoken\<rparr>)"
| accept_go: "accept_at s = AWoken \<Longrightarrow> main_loop s \<Longrightarrow> server_step s ((accept_client n f s)\<lparr>accept_at := AStart\<rparr>)"
| accept_exit: "accept_at s = AWoken \<Longrightarrow> \<not> main_loop s \<Longrightarrow> server_step s (s\<lparr>accept_at := AExit\<rparr>)"
| worker_take: "worker_at s w = WCheck \<Longrightarrow> clients_list s = fd # fds \<Longrightarrow>
    server_step s (s\<lparr>clients_list := fds, taken := taken s @ [fd], worker_at := (worker_at s)(w := WBusy fd)\<rparr>)"
| worker_wait: "worker_at s w = WCheck \<Longrightarrow> clients_list s = [] \<Longrightarrow> main_loop s \<Longrightarrow>
    server_step s (s\<lparr>worker_at := (worker_at s)(w := WWait)\<rparr>)"
| worker_exit: "worker_at s w = WCheck \<Longrightarrow> clients_list s = [] \<Longrightarrow> \<not> main_loop s \<Longrightarrow>
    server_step s (s\<lparr>worker_at := (worker_at s)(w := WExit)\<rparr>)"
| worker_spurious: "worker_at s w = WWait \<Longrightarrow> server_step s (s\<lparr>worker_at := (worker_at s)(w := WCheck)\<rparr>)"
| worker_serve: "worker_at s w = WBusy fd \<Longrightarrow> serve_client rs r fd s = Some (go, t) \<Longrightarrow>
    server_step s (t\<lparr>worker_at := (worker_at t)(w := (if go then WCheck else WExit))\<rparr>)"
| stopper: "server_step s (stop_begin s)"

inductive server_reach :: "server \<Rightarrow> bool" where
  start: "server_init sock bnd lst epoll ctl ReactorServer_new = (True, s) \<Longrightarrow> server_reach s"
| step: "server_reach s \<Longrightarrow> server_step s t \<Longrightarrow> server_reach t"

section \<open>The invariant\<close>

definition checkers :: "(nat \<Rightarrow> worker_pc) \<Rightarrow> nat" where
  "checkers f = card {w. w < worker_thread_num \<and> f w = WCheck}"

lemma checkers_update:
  assumes "w < worker_thread_num"
  shows "checkers (f(w := x)) + (if f w = WCheck then 1 else 0) = checkers f + (if x = WCheck then 1 else 0)"
proof -
  let ?A = "{v. v < worker_thread_num \<and> f v = WCheck \<and> v \<noteq> w}"
  have "finite ?A" "w \<notin> ?A" by simp_all
  moreover have "{v. v < worker_thread_num \<and> f v = WCheck} = (if f w = WCheck then insert w ?A else ?A)"
    "{v. v < worker_thread_num \<and> (f(w := x)) v = WCheck} = (if x = WCheck then insert w ?A else ?A)"
    using assms by auto
  ultimately show ?thesis by (simp add: checkers_def)
qed

text \<open>
  While some worker waits, every client in the list has a worker that is about to look at the
  list, or the notification for it is still to come.
\<close>

definition server_inv :: "server \<Rightarrow> bool" where
  "server_inv s \<longleftrightarrow> stop_flag s \<and> main_loop s \<and> main_at s \<noteq> MExit \<and> pushed s = taken s @ clients_list s \<and>
     (\<forall>w \<ge> worker_thread_num. worker_at s w = WExit) \<and>
     ((\<exists>w. worker_at s w = WWait) \<longrightarrow>
        length (clients_list s) \<le> checkers (worker_at s) + (if main_at s = MNotify then 1 else 0))"

lemma closeClient_frame [simp]:
  "stop_flag (closeClient fd s) = stop_flag s" "main_loop (closeClient fd s) = main_loop s" "main_at (closeClient fd s) = main_at s"
  "pushed (closeClient fd s) = pushed s" "taken (closeClient fd s) = taken s" "clients_list (closeClient fd s) = clients_list s"
  "worker_at (closeClient fd s) = worker_at s" "accept_at (closeClient fd s) = accept_at s"
  by (simp_all add: closeClient_def)

lemma recv_loop_frame:
  "recv_loop rs fd msg s = Some (err, msg', t) \<Longrightarrow> t = s \<or> t = closeClient fd s"
  by (induction rs fd msg s rule: recv_loop.induct) (auto simp: bind_eq_Some)

lemma serve_client_frame:
  assumes "serve_client rs r fd s = Some (go, t)"
  shows "stop_flag t = stop_flag s" "main_loop t = main_loop s" "main_at t = main_at s" "pushed t = pushed s" "taken t = taken s"
    "clients_list t = clients_list s" "worker_at t = worker_at s"
  using assms
  by (auto simp: serve_client_def bind_eq_Some Let_def split: if_splits sum.splits bool.splits dest!: recv_loop_frame)

lemma accept_client_frame [simp]:
  "stop_flag (accept_client n f s) = stop_flag s" "main_loop (accept_client n f s) = main_loop s" "main_at (accept_client n f s) = main_at s"
  "pushed (accept_client n f s) = pushed s" "taken (accept_client n f s) = taken s" "clients_list (accept_client n f s) = clients_list s"
  "worker_at (accept_client n f s) = worker_at s"
  by (simp_all add: accept_client_def)

text \<open>A worker whose place changes, with the list of clients it leaves.\<close>

lemma server_inv_worker:
  assumes inv: "server_inv s" and w: "worker_at s w \<noteq> WExit"
    and t: "stop_flag t" "main_loop t" "pushed t = taken t @ clients_list t" "worker_at t = (worker_at s)(w := x)"
    and m: "main_at t = main_at s \<or> main_at t = MLoop"
    and b: "length (clients_list t) + (if worker_at s w = WCheck then 1 else 0) + (if main_at s = MNotify then 1 else 0) \<le>
        length (clients_list s) + (if x = WCheck then 1 else 0) + (if main_at t = MNotify then 1 else 0) \<or> clients_list t = []"
    and y: "x = WWait \<longrightarrow> clients_list t = []"
  shows "server_inv t"
proof -
  have n: "w < worker_thread_num" using inv w unfolding server_inv_def by (meson not_less)
  note c = checkers_update [OF n, of "worker_at s" x]
  have "length (clients_list t) \<le> checkers (worker_at t) + (if main_at t = MNotify then 1 else 0)" if "worker_at t v = WWait" for v
  proof (cases "clients_list t = []")
    case False
    have "x \<noteq> WWait" using y False by blast
    then have "worker_at s v = WWait" using that t(4) by (simp split: if_splits)
    then have "length (clients_list s) \<le> checkers (worker_at s) + (if main_at s = MNotify then 1 else 0)"
      using inv unfolding server_inv_def by blast
    then show ?thesis using b c False t(4) by (auto split: if_splits)
  qed simp
  moreover have "\<forall>v \<ge> worker_thread_num. worker_at t v = WExit" using inv t(4) n by (auto simp: server_inv_def)
  moreover have "main_at t \<noteq> MExit" using inv m by (auto simp: server_inv_def)
  ultimately show ?thesis using t(1-3) unfolding server_inv_def by blast
qed

lemma server_step_inv: "server_step s t \<Longrightarrow> server_inv s \<Longrightarrow> server_inv t"
proof (induction rule: server_step.induct)
  case (main_push s fd)
  then show ?case by (simp add: server_inv_def)
next
  case (main_notify s w)
  then show ?case by (intro server_inv_worker [OF main_notify.prems, of w _ WCheck]) (auto simp: server_inv_def)
next
  case (main_notify_none s)
  then show ?case by (simp add: server_inv_def)
next
  case (worker_take s w fd fds)
  then show ?case by (intro server_inv_worker [OF worker_take.prems, of w _ "WBusy fd"]) (auto simp: server_inv_def)
next
  case (worker_wait s w)
  then show ?case by (intro server_inv_worker [OF worker_wait.prems, of w _ WWait]) (auto simp: server_inv_def)
next
  case (worker_spurious s w)
  then show ?case by (intro server_inv_worker [OF worker_spurious.prems, of w _ WCheck]) (auto simp: server_inv_def)
next
  case (worker_serve s w fd rs r go t)
  note f = serve_client_frame [OF worker_serve.hyps(2)]
  show ?case
    by (rule server_inv_worker [OF worker_serve.prems, of w _ "if go then WCheck else WExit"])
      (use worker_serve f in \<open>auto simp: server_inv_def\<close>)
qed (auto simp: server_inv_def stop_begin_def)

lemma server_reach_inv: "server_reach s \<Longrightarrow> server_inv s"
proof (induction rule: server_reach.induct)
  case (start sock bnd lst epoll ctl s)
  then show ?case
    by (auto simp: server_init_def createServerListener_def ReactorServer_new_def server_inv_def Let_def split: if_splits)
next
  case (step s t)
  then show ?case using server_step_inv by blast
qed

section \<open>Workers that end\<close>

lemma dead_workers_step:
  assumes "server_step s t" "\<forall>w. worker_at s w = WExit"
  shows "(\<forall>w. worker_at t w = WExit) \<and> taken t = taken s"
  using assms by (cases rule: server_step.cases) (auto simp: stop_begin_def)

lemma dead_workers:
  "server_step\<^sup>*\<^sup>* s t \<Longrightarrow> \<forall>w. worker_at s w = WExit \<Longrightarrow> (\<forall>w. worker_at t w = WExit) \<and> taken t = taken s"
  by (induction rule: rtranclp_induct) (use dead_workers_step in force)+

definition first_dead :: "nat \<Rightarrow> server \<Rightarrow> bool" where
  "first_dead k s \<longleftrightarrow> main_at s = MLoop \<and> main_loop s \<and> clients_list s = [] \<and>
     worker_at s = (\<lambda>w. if k \<le> w \<and> w < worker_thread_num then WCheck else WExit)"

lemma kill_worker:
  assumes r: "server_reach s" and d: "first_dead k s" and k: "k < worker_thread_num"
  shows "\<exists>t. server_reach t \<and> first_dead (Suc k) t"
proof -
  note d = d [unfolded first_dead_def]
  define fd where "fd = listen_fd s + 1"
  let ?s1 = "s\<lparr>clients_list := clients_list s @ [fd], pushed := pushed s @ [fd], main_at := MNotify\<rparr>"
  let ?s2 = "?s1\<lparr>main_at := MLoop\<rparr>"
  let ?s3 = "?s2\<lparr>clients_list := [], taken := taken ?s2 @ [fd], worker_at := (worker_at ?s2)(k := WBusy fd)\<rparr>"
  have s1: "server_reach ?s1" using r main_push [of s fd] d by (intro server_reach.step [OF r]) (auto simp: fd_def)
  have "\<forall>w. worker_at ?s1 w \<noteq> WWait" using d by simp
  then have s2: "server_reach ?s2" using main_notify_none [of ?s1] by (intro server_reach.step [OF s1]) simp
  have "worker_at ?s2 k = WCheck" "clients_list ?s2 = [fd]" using d k by simp_all
  then have s3: "server_reach ?s3" using worker_take [of ?s2 k fd "[]"] by (intro server_reach.step [OF s2]) simp
  let ?s4 = "closeClient fd (?s3\<lparr>server_calls := server_calls ?s3 @ [SSend fd test_send]\<rparr>)"
  have "serve_client [WouldBlock] (Inl False) fd ?s3 = Some (False, ?s4)" by (simp add: serve_client_def Let_def)
  then have "server_reach (?s4\<lparr>worker_at := (worker_at ?s4)(k := WExit)\<rparr>)"
    using worker_serve [of ?s3 k fd "[WouldBlock]" "Inl False" False ?s4] by (intro server_reach.step [OF s3]) simp
  moreover have "first_dead (Suc k) (?s4\<lparr>worker_at := (worker_at ?s4)(k := WExit)\<rparr>)"
    using d k by (auto simp: first_dead_def fun_eq_iff)
  ultimately show ?thesis by blast
qed

lemma all_workers_dead: "\<exists>s. server_reach s \<and> (\<forall>w. worker_at s w = WExit)"
proof -
  have "\<exists>s. server_reach s \<and> first_dead k s" if "k \<le> worker_thread_num" for k
    using that
  proof (induction k)
    case 0
    have "server_reach (snd (server_init 3 0 0 4 0 ReactorServer_new))"
      by (rule server_reach.start [of 3 0 0 4 0]) (simp add: server_init_def createServerListener_def ReactorServer_new_def Let_def)
    moreover have "first_dead 0 (snd (server_init 3 0 0 4 0 ReactorServer_new))"
      by (simp add: first_dead_def server_init_def createServerListener_def ReactorServer_new_def Let_def)
    ultimately show ?case by blast
  next
    case (Suc k)
    then show ?case using kill_worker by (metis Suc_le_lessD less_imp_le)
  qed
  from this [of worker_thread_num] show ?thesis by (auto simp: first_dead_def)
qed

section \<open>Messages\<close>

lemma append_buf_text:
  assumes "0 \<notin> set bytes" "length bytes < recv_buf_size"
  shows "append_buf msg bytes = Some (msg @ bytes)"
proof -
  obtain k where k: "recv_buf_size - length bytes = Suc k" using assms(2) by (metis Suc_diff_Suc)
  have "takeWhile (\<lambda>c. c \<noteq> 0) (bytes @ replicate (Suc k) 0) = bytes" using assms(1) by (subst takeWhile_append2) auto
  then show ?thesis using assms(2) k by (simp add: append_buf_def)
qed

lemma recv_loop_text:
  "\<forall>b \<in> set bs. 0 \<notin> set b \<and> length b < recv_buf_size \<Longrightarrow>
    recv_loop (map Data bs @ WouldBlock # rs) fd msg s = Some (False, msg @ concat bs, s)"
  by (induction bs arbitrary: msg) (simp_all add: append_buf_text)

section \<open>Properties\<close>

text \<open>
  C13. In every state the threads can reach, the clients taken by workers followed by those in
  the list are the clients put into it, in order: none is lost or served twice for one
  event. No wake-up is lost: when a client is in the list and its notification has been sent
  while some worker waits, there is a worker about to look at the list.
\<close>

theorem server_no_lost_client:
  assumes "server_reach s"
  shows "pushed s = taken s @ clients_list s \<and>
    (clients_list s \<noteq> [] \<and> main_at s \<noteq> MNotify \<and> (\<exists>w. worker_at s w = WWait) \<longrightarrow>
      (\<exists>w < worker_thread_num. worker_at s w = WCheck))"
proof -
  have inv: "server_inv s" using server_reach_inv assms .
  have "\<exists>w < worker_thread_num. worker_at s w = WCheck"
    if h: "clients_list s \<noteq> []" "main_at s \<noteq> MNotify" "\<exists>w. worker_at s w = WWait"
  proof -
    have "length (clients_list s) \<le> checkers (worker_at s)" using inv h by (simp add: server_inv_def)
    then have "checkers (worker_at s) \<noteq> 0" using h(1) by (cases "clients_list s") auto
    then have "{w. w < worker_thread_num \<and> worker_at s w = WCheck} \<noteq> {}" unfolding checkers_def by (metis card.empty)
    then show ?thesis by blast
  qed
  then show ?thesis using inv by (simp add: server_inv_def)
qed

definition started :: server where
  "started = snd (server_init 3 0 0 4 0 ReactorServer_new)"

lemma started_reach: "server_reach started"
  by (rule server_reach.start [of 3 0 0 4 0])
    (simp add: started_def server_init_def createServerListener_def ReactorServer_new_def Let_def)

lemma server_no_lost_client_witness: "pushed started = taken started @ clients_list started"
  using server_no_lost_client [OF started_reach] by (rule conjunct1)

text \<open>
  The server cannot be stopped: \<^verbatim>\<open>stop_\<close> starts as true and is never cleared, so in
  every reachable state \<^verbatim>\<open>stop\<close> returns at once and changes nothing, and the loop
  flag stays set. Worker threads end for good when a \<^verbatim>\<open>send\<close> fails: a state is
  reachable in which all eight have ended, and from such a state on no client is ever taken
  from the list.
\<close>

theorem server_stop_and_workers:
  "(server_reach s \<longrightarrow> server_stop s = Some (True, s) \<and> stop_begin s = s \<and> main_loop s) \<and>
   (\<exists>s. server_reach s \<and> (\<forall>w. worker_at s w = WExit)) \<and>
   ((\<forall>w. worker_at s w = WExit) \<and> server_step\<^sup>*\<^sup>* s t \<longrightarrow> taken t = taken s)"
  using server_reach_inv [of s] all_workers_dead dead_workers [of s t]
  by (auto simp: server_inv_def server_stop_def stop_begin_def)

lemma server_stop_and_workers_witness: "server_stop started = Some (True, started)"
  using server_stop_and_workers [THEN conjunct1, THEN mp, OF started_reach] by (rule conjunct1)

text \<open>
  A worker answers a client whose data come in pieces of at most 255 bytes without zero
  bytes with all the data, in order, followed by \<^verbatim>\<open>" test send"\<close>, and goes on unless the
  \<^verbatim>\<open>send\<close> fails for good. A piece of 256 bytes without a zero byte is read beyond the buffer.
\<close>

theorem worker_reply:
  "((\<forall>b \<in> set bs. 0 \<notin> set b \<and> length b < recv_buf_size) \<longrightarrow>
     serve_client (map Data bs @ WouldBlock # rs) r fd s =
       (let t = s\<lparr>server_calls := server_calls s @ [SSend fd (concat bs @ test_send)]\<rparr>
        in Some (if r = Inl False then (False, closeClient fd t) else (True, t)))) \<and>
   (0 \<notin> set b \<and> length b = recv_buf_size \<longrightarrow> serve_client (Data b # rs) r fd s = None)"
proof (intro conjI impI)
  assume "\<forall>b \<in> set bs. 0 \<notin> set b \<and> length b < recv_buf_size"
  then have "recv_loop (map Data bs @ WouldBlock # rs) fd [] s = Some (False, [] @ concat bs, s)" by (rule recv_loop_text)
  then show "serve_client (map Data bs @ WouldBlock # rs) r fd s =
       (let t = s\<lparr>server_calls := server_calls s @ [SSend fd (concat bs @ test_send)]\<rparr>
        in Some (if r = Inl False then (False, closeClient fd t) else (True, t)))"
    by (auto simp: serve_client_def Let_def split: sum.splits bool.splits)
next
  assume "0 \<notin> set b \<and> length b = recv_buf_size"
  then have "append_buf [] b = None" by (simp add: append_buf_def)
  then show "serve_client (Data b # rs) r fd s = None" by (simp add: serve_client_def)
qed

lemma worker_reply_witness:
  "serve_client [Data [104, 105], Data [33], WouldBlock] (Inr 13) 7 started =
    Some (True, started\<lparr>server_calls := server_calls started @ [SSend 7 ([104, 105, 33] @ test_send)]\<rparr>)"
  using worker_reply [THEN conjunct1, of "[[104, 105], [33]]" "[]" "Inr 13" 7 started] by (simp add: Let_def)

end
