(* ===== verification/ThreadPool.thy ===== *)
theory ThreadPool
  imports Cpp_Prelude
begin

text \<open>
  \<^verbatim>\<open>cpp/thread/ThreadPool.cpp\<close>: a pool of worker threads that take tasks from a queue.
  The threads, the callers of \<^verbatim>\<open>enqueue\<close> and the destructor are a step relation; a
  step is a critical section, a notification or the run of a task. Tasks are natural
  numbers; the fields \<open>enqueued\<close> and \<open>executed\<close> record their history.
\<close>

section \<open>Threads\<close>

datatype worker = TCheck | TWait | TRun nat | TExit

datatype destructor = DNone | DNotify | DJoin

record thread_pool =
  threads :: nat
  tasks :: "nat list"
  stop :: bool
  at :: "nat \<Rightarrow> worker"
  to_notify :: nat
  dtor :: destructor
  enqueued :: "nat list"
  executed :: "nat list"

definition ThreadPool_new :: "nat \<Rightarrow> thread_pool" where
  "ThreadPool_new n = \<lparr>threads = n, tasks = [], stop = False, at = (\<lambda>w. if w < n then TCheck else TExit), to_notify = 0,
     dtor = DNone, enqueued = [], executed = []\<rparr>"

text \<open>The critical section of \<^verbatim>\<open>enqueue\<close>; \<open>Inl\<close> is the exception of a stopped pool.\<close>

datatype enqueue_error = Enqueue_on_stopped

definition enqueue :: "nat \<Rightarrow> thread_pool \<Rightarrow> enqueue_error + thread_pool" where
  "enqueue t p =
     (if stop p then Inl Enqueue_on_stopped
      else Inr (p\<lparr>tasks := tasks p @ [t], enqueued := enqueued p @ [t], to_notify := to_notify p + 1\<rparr>))"

text \<open>The critical section of a worker: the predicate of the wait, the exit, the next task.\<close>

definition worker_section :: "thread_pool \<Rightarrow> worker \<times> thread_pool" where
  "worker_section p =
     (if \<not> (stop p \<or> tasks p \<noteq> []) then (TWait, p)
      else if stop p \<and> tasks p = [] then (TExit, p)
      else (TRun (hd (tasks p)), p\<lparr>tasks := tl (tasks p)\<rparr>))"

inductive pool_step :: "thread_pool \<Rightarrow> thread_pool \<Rightarrow> bool" where
  caller: "enqueue t p = Inr q \<Longrightarrow> dtor p = DNone \<Longrightarrow> pool_step p q"
| notify: "to_notify p = Suc k \<Longrightarrow> at p w = TWait \<Longrightarrow> pool_step p (p\<lparr>at := (at p)(w := TCheck), to_notify := k\<rparr>)"
| notify_none: "to_notify p = Suc k \<Longrightarrow> (\<forall>w. at p w \<noteq> TWait) \<Longrightarrow> pool_step p (p\<lparr>to_notify := k\<rparr>)"
| check: "at p w = TCheck \<Longrightarrow> worker_section p = (x, q) \<Longrightarrow> pool_step p (q\<lparr>at := (at q)(w := x)\<rparr>)"
| spurious: "at p w = TWait \<Longrightarrow> pool_step p (p\<lparr>at := (at p)(w := TCheck)\<rparr>)"
| run: "at p w = TRun t \<Longrightarrow> pool_step p (p\<lparr>executed := executed p @ [t], at := (at p)(w := TCheck)\<rparr>)"
| set_stop: "dtor p = DNone \<Longrightarrow> pool_step p (p\<lparr>stop := True, dtor := DNotify\<rparr>)"
| notify_all: "dtor p = DNotify \<Longrightarrow>
    pool_step p (p\<lparr>at := (\<lambda>w. if at p w = TWait then TCheck else at p w), dtor := DJoin\<rparr>)"

inductive pool_reach :: "nat \<Rightarrow> thread_pool \<Rightarrow> bool" for n where
  start: "pool_reach n (ThreadPool_new n)"
| step: "pool_reach n p \<Longrightarrow> pool_step p q \<Longrightarrow> pool_reach n q"

section \<open>The invariant\<close>

text \<open>The tasks that are being run, and how far the workers still have to go.\<close>

definition running :: "thread_pool \<Rightarrow> nat list" where
  "running p = concat (map (\<lambda>w. case at p w of TRun t \<Rightarrow> [t] | _ \<Rightarrow> []) [0..<threads p])"

fun worker_weight :: "worker \<Rightarrow> nat" where
  "worker_weight TCheck = 1"
| "worker_weight TWait = 2"
| "worker_weight (TRun t) = 2"
| "worker_weight TExit = 0"

definition weight :: "thread_pool \<Rightarrow> nat" where
  "weight p = 3 * length (tasks p) + sum_list (map (\<lambda>w. worker_weight (at p w)) [0..<threads p]) + to_notify p"

definition checks :: "thread_pool \<Rightarrow> nat" where
  "checks p = length (filter (\<lambda>w. at p w = TCheck) [0..<threads p])"

definition pool_inv :: "nat \<Rightarrow> thread_pool \<Rightarrow> bool" where
  "pool_inv n p \<longleftrightarrow> threads p = n \<and> (\<forall>w \<ge> n. at p w = TExit) \<and>
     mset (enqueued p) = mset (executed p) + mset (running p) + mset (tasks p) \<and>
     (stop p \<longleftrightarrow> dtor p \<noteq> DNone) \<and>
     ((\<exists>w < n. at p w = TExit) \<longrightarrow> stop p \<and> tasks p = []) \<and>
     (dtor p = DJoin \<longrightarrow> (\<forall>w. at p w \<noteq> TWait)) \<and>
     ((\<exists>w. at p w = TWait) \<longrightarrow> length (tasks p) \<le> checks p + to_notify p)"

text \<open>Sums over the workers when one of them moves.\<close>

lemma sum_workers_update:
  fixes g :: "worker \<Rightarrow> 'a::comm_monoid_add"
  assumes "w < n"
  shows "sum_list (map (\<lambda>v. g ((f(w := x)) v)) [0..<n]) + g (f w) = sum_list (map (\<lambda>v. g (f v)) [0..<n]) + g x"
proof -
  have *: "[0..<n] = [0..<w] @ w # [Suc w..<n]" using assms upt_add_eq_append [of 0 w "n - w"] by (simp add: upt_conv_Cons)
  have left: "map (\<lambda>v. g ((f(w := x)) v)) [0..<w] = map (\<lambda>v. g (f v)) [0..<w]" by (rule map_cong) auto
  have right: "map (\<lambda>v. g ((f(w := x)) v)) [Suc w..<n] = map (\<lambda>v. g (f v)) [Suc w..<n]" by (rule map_cong) auto
  show ?thesis unfolding * map_append list.map sum_list_append sum_list.Cons left right by (simp add: ac_simps)
qed

fun work_of :: "worker \<Rightarrow> nat multiset" where
  "work_of (TRun t) = {#t#}"
| "work_of _ = {#}"

fun check_of :: "worker \<Rightarrow> nat" where
  "check_of TCheck = 1"
| "check_of _ = 0"

lemma mset_running: "mset (running p) = sum_list (map (\<lambda>w. work_of (at p w)) [0..<threads p])"
proof -
  have "mset (concat (map g ws)) = sum_list (map (\<lambda>w. mset (g w)) ws)" for g :: "nat \<Rightarrow> nat list" and ws
    by (induction ws) simp_all
  moreover have "(\<lambda>w. mset (case at p w of TRun t \<Rightarrow> [t] | _ \<Rightarrow> [])) = (\<lambda>w. work_of (at p w))"
    by (auto simp: fun_eq_iff split: worker.splits)
  ultimately show ?thesis by (simp add: running_def)
qed

lemma checks_sum: "checks p = sum_list (map (\<lambda>w. check_of (at p w)) [0..<threads p])"
proof -
  have "length (filter (\<lambda>w. at p w = TCheck) ws) = sum_list (map (\<lambda>w. check_of (at p w)) ws)" for ws
  proof (induction ws)
    case (Cons w ws) thus ?case by (cases "at p w") simp_all
  qed simp
  thus ?thesis by (simp add: checks_def)
qed

text \<open>The effect of the move of one worker on the running tasks, the checks and the weight.\<close>

lemma worker_moves:
  assumes "w < threads p" "at q = (at p)(w := x)" "threads q = threads p"
  shows "mset (running q) + work_of (at p w) = mset (running p) + work_of x"
    and "checks q + check_of (at p w) = checks p + check_of x"
    and "tasks q = tasks p \<Longrightarrow> to_notify q = to_notify p \<Longrightarrow> weight q + worker_weight (at p w) = weight p + worker_weight x"
  using sum_workers_update [OF assms(1), of work_of "at p" x] sum_workers_update [OF assms(1), of check_of "at p" x]
    sum_workers_update [OF assms(1), of worker_weight "at p" x]
  by (simp_all add: mset_running checks_sum weight_def assms(2,3))

lemma pool_inv_new: "pool_inv n (ThreadPool_new n)"
proof -
  have "running (ThreadPool_new n) = []" by (auto simp: running_def ThreadPool_new_def)
  thus ?thesis by (auto simp: pool_inv_def ThreadPool_new_def)
qed

text \<open>Every step keeps the invariant; a worker that moves is one of the first \<open>n\<close>.\<close>

lemma inv_worker: "pool_inv n p \<Longrightarrow> at p w \<noteq> TExit \<Longrightarrow> w < threads p"
  unfolding pool_inv_def by (metis not_less)

lemma multiset_balance:
  fixes e :: "'a multiset"
  assumes "e = d + r + t" "d' + x + t' = d + y + t" "r' + y = r + x"
  shows "e = d' + r' + t'"
proof -
  have "e + (x + y) = (d + y + t) + (r + x)" by (simp add: assms(1) ac_simps)
  also have "\<dots> = (d' + x + t') + (r' + y)" by (simp only: assms(2,3))
  also have "\<dots> = d' + r' + t' + (x + y)" by (simp add: ac_simps)
  finally show ?thesis by simp
qed

lemma worker_move_inv:
  assumes inv: "pool_inv n p" and moved: "at p w \<noteq> TExit" "at q = (at p)(w := x)" "threads q = threads p" "enqueued q = enqueued p"
    and flags: "stop q = stop p" "dtor q = dtor p"
    and books: "mset (executed q) + work_of x + mset (tasks q) = mset (executed p) + work_of (at p w) + mset (tasks p)"
    and exit: "x = TExit \<Longrightarrow> stop q" "x = TExit \<or> tasks p = [] \<Longrightarrow> tasks q = []"
    and asleep: "x = TWait \<Longrightarrow> tasks q = [] \<and> dtor q \<noteq> DJoin"
    and wake: "tasks q \<noteq> [] \<Longrightarrow> length (tasks q) + check_of (at p w) + to_notify p \<le> length (tasks p) + check_of x + to_notify q"
  shows "pool_inv n q"
proof -
  have w: "w < threads p" using inv moved(1) by (rule inv_worker)
  note moves = worker_moves(1,2) [OF w moved(2,3)]
  have books': "mset (enqueued q) = mset (executed q) + mset (running q) + mset (tasks q)"
    unfolding moved(4) using multiset_balance [OF _ books moves(1)] inv by (simp add: pool_inv_def)
  have sleep: "length (tasks q) \<le> checks q + to_notify q" if "at q v = TWait" for v
  proof (cases "x = TWait")
    case False
    hence "\<exists>u. at p u = TWait" using that by (auto simp: moved split: if_splits)
    hence "length (tasks p) \<le> checks p + to_notify p" using inv by (auto simp: pool_inv_def)
    thus ?thesis using wake moves(2) by (cases "tasks q = []") auto
  qed (simp add: asleep)
  have "at q v = TExit" if "n \<le> v" for v using inv that w by (auto simp: pool_inv_def moved)
  moreover have "stop q \<and> tasks q = []" if "v < n" "at q v = TExit" for v
    using inv that exit by (cases "v = w") (auto simp: pool_inv_def moved flags)
  moreover have "at q v \<noteq> TWait" if "dtor q = DJoin" for v
    using inv that asleep by (auto simp: pool_inv_def moved flags)
  ultimately show ?thesis using inv books' sleep
    unfolding pool_inv_def by (simp add: moved(3) flags) blast
qed

lemma pool_step_inv:
  assumes "pool_step p q" "pool_inv n p" shows "pool_inv n q"
  using assms
proof (induction rule: pool_step.induct)
  case (caller t p q)
  hence "q = p\<lparr>tasks := tasks p @ [t], enqueued := enqueued p @ [t], to_notify := to_notify p + 1\<rparr>" "\<not> stop p"
    by (auto simp: enqueue_def split: if_splits)
  thus ?case using caller(3) by (auto simp: pool_inv_def running_def checks_def)
next
  case (notify p k w)
  show ?case by (rule worker_move_inv [OF notify(3), of w _ TCheck]) (use notify in \<open>simp_all add: pool_inv_def\<close>)
next
  case (notify_none p k)
  thus ?case by (auto simp: pool_inv_def running_def checks_def)
next
  case (check p w x q)
  consider "\<not> stop p" "tasks p = []" "x = TWait" "q = p" | "stop p" "tasks p = []" "x = TExit" "q = p"
    | "tasks p \<noteq> []" "x = TRun (hd (tasks p))" "q = p\<lparr>tasks := tl (tasks p)\<rparr>"
    using check(2) by (auto simp: worker_section_def split: if_splits)
  thus ?case
  proof cases
    case 1
    show ?thesis by (rule worker_move_inv [OF check(3), of w _ x]) (use check(1,3) 1 in \<open>auto simp: pool_inv_def\<close>)
  next
    case 2
    show ?thesis by (rule worker_move_inv [OF check(3), of w _ x]) (use check(1) 2 in auto)
  next
    case 3
    show ?thesis by (rule worker_move_inv [OF check(3), of w _ x]) (use check(1) 3 in \<open>auto simp: neq_Nil_conv\<close>)
  qed
next
  case (spurious p w)
  show ?case by (rule worker_move_inv [OF spurious(2), of w _ TCheck]) (use spurious in \<open>simp_all add: pool_inv_def\<close>)
next
  case (run p w t)
  show ?case by (rule worker_move_inv [OF run(2), of w _ TCheck]) (use run in \<open>simp_all add: pool_inv_def\<close>)
next
  case (set_stop p)
  thus ?case by (auto simp: pool_inv_def running_def checks_def)
next
  case (notify_all p)
  have "running (p\<lparr>at := \<lambda>w. if at p w = TWait then TCheck else at p w, dtor := DJoin\<rparr>) = running p"
    unfolding running_def by (intro arg_cong [of _ _ concat] map_cong) (auto split: worker.splits)
  thus ?case using notify_all by (auto simp: pool_inv_def)
qed

lemma pool_reach_inv: "pool_reach n p \<Longrightarrow> pool_inv n p"
  by (induction rule: pool_reach.induct) (auto intro: pool_inv_new pool_step_inv)

section \<open>Guarantees\<close>

lemma pool_step_join:
  assumes "pool_step p q" "pool_inv n p" "dtor p = DJoin"
  shows "weight q < weight p" "dtor q = DJoin" "enqueued q = enqueued p"
proof -
  have "weight q < weight p \<and> dtor q = DJoin \<and> enqueued q = enqueued p" using assms
  proof (cases rule: pool_step.cases)
    case (check w x r)
    have w: "w < threads p" using inv_worker [OF assms(2), of w] check by simp
    have stop: "stop p" using assms(2,3) by (simp add: pool_inv_def)
    show ?thesis
    proof (cases "tasks p = []")
      case True
      hence "x = TExit" "r = p" using check(3) stop by (auto simp: worker_section_def)
      thus ?thesis using worker_moves(3) [OF w, of q TExit] check assms(3) by simp
    next
      case False
      let ?x = "TRun (hd (tasks p))" and ?m = "p\<lparr>at := (at p)(w := TRun (hd (tasks p)))\<rparr>"
      have "x = ?x" "r = p\<lparr>tasks := tl (tasks p)\<rparr>" using check(3) False by (auto simp: worker_section_def)
      hence "weight q + 3 = weight ?m" "dtor q = DJoin" "enqueued q = enqueued p"
        using check(1) False assms(3) by (auto simp: weight_def neq_Nil_conv)
      thus ?thesis using worker_moves(3) [OF w, of ?m ?x] check(2) by simp
    qed
  next
    case (run w t)
    have w: "w < threads p" using inv_worker [OF assms(2), of w] run by simp
    show ?thesis using worker_moves(3) [OF w, of q TCheck] run assms(3) by simp
  qed (auto simp: pool_inv_def weight_def)
  thus "weight q < weight p" "dtor q = DJoin" "enqueued q = enqueued p" by simp_all
qed

lemma running_none: "(\<forall>w < threads p. at p w = TExit) \<Longrightarrow> running p = []"
  by (auto simp: running_def)

text \<open>
  C11. In every reachable state of a pool of \<open>n\<close> threads each submitted task is in exactly one place: it has been executed
  once, is being run, or waits in the queue. While a worker sleeps there are at least as many pending
  notifications and workers about to look at the queue as there are tasks in it, so no wake-up is lost,
  and a worker leaves only when the pool is stopped and the queue is empty.
\<close>

theorem threadpool_exactly_once:
  assumes "pool_reach n p"
  shows "mset (enqueued p) = mset (executed p) + mset (running p) + mset (tasks p) \<and>
    ((\<exists>w. at p w = TWait) \<longrightarrow> length (tasks p) \<le> checks p + to_notify p) \<and>
    ((\<exists>w < n. at p w = TExit) \<longrightarrow> stop p \<and> tasks p = [])"
  using pool_reach_inv [OF assms] unfolding pool_inv_def by blast

definition example_submitted :: thread_pool where
  "example_submitted = (ThreadPool_new 2)\<lparr>tasks := [7], enqueued := [7], to_notify := 1\<rparr>"

lemma example_submitted_reach: "pool_reach 2 example_submitted"
proof (rule pool_reach.step [OF pool_reach.start])
  show "pool_step (ThreadPool_new 2) example_submitted"
    by (rule pool_step.caller [of 7]) (simp_all add: enqueue_def ThreadPool_new_def example_submitted_def)
qed

definition example_stopped :: thread_pool where
  "example_stopped = example_submitted\<lparr>stop := True, at := (\<lambda>w. if at example_submitted w = TWait then TCheck else at example_submitted w),
     dtor := DJoin\<rparr>"

lemma example_stopped_reach: "pool_reach 2 example_stopped"
proof (rule pool_reach.step [OF pool_reach.step [OF example_submitted_reach]])
  show "pool_step example_submitted (example_submitted\<lparr>stop := True, dtor := DNotify\<rparr>)"
    by (rule pool_step.set_stop) (simp add: example_submitted_def ThreadPool_new_def)
  show "pool_step (example_submitted\<lparr>stop := True, dtor := DNotify\<rparr>) example_stopped"
    using pool_step.notify_all [of "example_submitted\<lparr>stop := True, dtor := DNotify\<rparr>"] by (simp add: example_stopped_def cong: if_cong)
qed

theorem threadpool_exactly_once_witness:
  "mset (enqueued example_submitted) = mset (executed example_submitted) + mset (running example_submitted) + mset (tasks example_submitted)"
  by (rule threadpool_exactly_once [OF example_submitted_reach, THEN conjunct1])

text \<open>
  C12. The destructor terminates: once it has notified all threads and waits for them, every
  step makes the weight of the pool smaller, a step is possible as long as some thread has not ended, no
  task is accepted, and when all threads of a pool with at least one thread have ended the executed
  tasks are exactly the submitted ones.
\<close>

theorem threadpool_shutdown:
  assumes "pool_reach n p" "dtor p = DJoin"
  shows "(\<forall>q. pool_step p q \<longrightarrow> weight q < weight p \<and> dtor q = DJoin \<and> enqueued q = enqueued p) \<and>
    ((\<exists>w < n. at p w \<noteq> TExit) \<longrightarrow> (\<exists>q. pool_step p q)) \<and>
    enqueue t p = Inl Enqueue_on_stopped \<and>
    (0 < n \<and> (\<forall>w < n. at p w = TExit) \<longrightarrow> tasks p = [] \<and> mset (executed p) = mset (enqueued p))"
proof (intro conjI impI allI)
  have inv: "pool_inv n p" using assms(1) by (rule pool_reach_inv)
  show "enqueue t p = Inl Enqueue_on_stopped" using inv assms(2) by (simp add: enqueue_def pool_inv_def)
  show "weight q < weight p" "dtor q = DJoin" "enqueued q = enqueued p" if "pool_step p q" for q
    using pool_step_join [OF that inv assms(2)] by simp_all
  show "\<exists>q. pool_step p q" if some: "\<exists>w < n. at p w \<noteq> TExit"
  proof -
    obtain w where w: "w < n" "at p w \<noteq> TExit" using some by blast
    moreover have "at p w \<noteq> TWait" using inv assms(2) by (simp add: pool_inv_def)
    moreover obtain x q where "worker_section p = (x, q)" by fastforce
    ultimately show ?thesis by (cases "at p w") (auto intro: pool_step.check pool_step.run)
  qed
  assume all: "0 < n \<and> (\<forall>w < n. at p w = TExit)"
  show tasks: "tasks p = []" using inv all unfolding pool_inv_def by blast
  have "running p = []" using inv all by (intro running_none) (simp add: pool_inv_def)
  thus "mset (executed p) = mset (enqueued p)" using inv tasks by (simp add: pool_inv_def)
qed

theorem threadpool_shutdown_witness:
  "(\<exists>q. pool_step example_stopped q \<and> weight q < weight example_stopped \<and> dtor q = DJoin \<and> at q 0 = TRun 7) \<and>
   enqueue 3 example_stopped = Inl Enqueue_on_stopped"
proof -
  have join: "dtor example_stopped = DJoin" by (simp add: example_stopped_def)
  let ?q = "example_stopped\<lparr>tasks := [], at := (at example_stopped)(0 := TRun 7)\<rparr>"
  have "worker_section example_stopped = (TRun 7, example_stopped\<lparr>tasks := []\<rparr>)"
    by (simp add: worker_section_def example_stopped_def example_submitted_def ThreadPool_new_def)
  moreover have "at example_stopped 0 = TCheck" by (simp add: example_stopped_def example_submitted_def ThreadPool_new_def)
  ultimately have "pool_step example_stopped ?q" using pool_step.check [of example_stopped 0 "TRun 7" "example_stopped\<lparr>tasks := []\<rparr>"] by simp
  thus ?thesis using threadpool_shutdown [OF example_stopped_reach join, of 3] by (intro conjI exI [of _ ?q]) simp_all
qed

end
