(* ===== verification/Lcs.thy ===== *)
theory Lcs
  imports Cpp_Prelude "HOL-Library.Sublist"
begin

text \<open>
  \<^verbatim>\<open>cpp/dynamic_programming/longgestSubSequence.cpp\<close>: the longest common subsequence of
  two strings by dynamic programming, and its reconstruction from the table of directions.
  String lengths are assumed to fit an \<^verbatim>\<open>int\<close>, as the code assumes.
\<close>

section \<open>The program\<close>

definition vresize :: "nat \<Rightarrow> 'a \<Rightarrow> 'a list \<Rightarrow> 'a list" where
  "vresize n d xs = take n xs @ replicate (n - length xs) d"

definition mget :: "'a list list \<Rightarrow> nat \<Rightarrow> nat \<Rightarrow> 'a ub" where
  "mget c i j = do { r \<leftarrow> vget c i; vget r j }"

definition mset2 :: "'a list list \<Rightarrow> nat \<Rightarrow> nat \<Rightarrow> 'a \<Rightarrow> 'a list list ub" where
  "mset2 c i j v = do { r \<leftarrow> vget c i; r \<leftarrow> vset r j v; vset c i r }"

type_synonym tables = "int list list \<times> char list list"

text \<open>The body of the inner loop, the inner loop over \<open>j\<close> and the outer loop over \<open>i\<close>.\<close>

definition lcs_cell :: "string \<Rightarrow> string \<Rightarrow> nat \<Rightarrow> nat \<Rightarrow> tables \<Rightarrow> tables ub" where
  "lcs_cell x y i j = (\<lambda>(c, b). do {
     p \<leftarrow> vget x (i - 1);
     q \<leftarrow> vget y (j - 1);
     if p = q
     then do {
       d \<leftarrow> mget c (i - 1) (j - 1);
       v \<leftarrow> as_int (d + 1);
       c \<leftarrow> mset2 c i j v;
       b \<leftarrow> mset2 b i j (CHR ''c'');
       Some (c, b)
     }
     else do {
       u \<leftarrow> mget c (i - 1) j;
       l \<leftarrow> mget c i (j - 1);
       if u \<ge> l
       then do { c \<leftarrow> mset2 c i j u; b \<leftarrow> mset2 b i j (CHR ''u''); Some (c, b) }
       else do { c \<leftarrow> mset2 c i j l; b \<leftarrow> mset2 b i j (CHR ''l''); Some (c, b) }
     }
   })"

fun lcs_cols :: "string \<Rightarrow> string \<Rightarrow> nat \<Rightarrow> nat list \<Rightarrow> tables \<Rightarrow> tables ub" where
  "lcs_cols x y i [] s = Some s"
| "lcs_cols x y i (j # js) s = do { s \<leftarrow> lcs_cell x y i j s; lcs_cols x y i js s }"

fun lcs_rows :: "string \<Rightarrow> string \<Rightarrow> nat list \<Rightarrow> tables \<Rightarrow> tables ub" where
  "lcs_rows x y [] s = Some s"
| "lcs_rows x y (i # ks) s = do { s \<leftarrow> lcs_cols x y i [1..<length y + 1] s; lcs_rows x y ks s }"

definition lcsLength :: "string \<Rightarrow> string \<Rightarrow> tables \<Rightarrow> tables ub" where
  "lcsLength x y = (\<lambda>(c, b). do {
     m \<leftarrow> as_int (int (length x) + 1);
     n \<leftarrow> as_int (int (length y) + 1);
     let c = vresize (nat m) [] c;
     let b = vresize (nat m) [] b;
     let c = map (vresize (nat n) 0) c;
     let b = map (vresize (nat n) (CHR 0x00)) b;
     lcs_rows x y [1..<length x + 1] (c, b)
   })"

text \<open>The characters that \<^verbatim>\<open>print_lcs\<close> prints.\<close>

function print_lcs :: "char list list \<Rightarrow> string \<Rightarrow> nat \<Rightarrow> nat \<Rightarrow> string ub" where
  "print_lcs b x i j =
     (if i = 0 \<or> j = 0 then Some ''''
      else do {
        d \<leftarrow> mget b i j;
        if d = CHR ''c''
        then do { out \<leftarrow> print_lcs b x (i - 1) (j - 1); ch \<leftarrow> vget x (i - 1); Some (out @ [ch]) }
        else if d = CHR ''u'' then print_lcs b x (i - 1) j
        else print_lcs b x i (j - 1)
      })"
  by pat_completeness auto
termination
  by (relation "measure (\<lambda>(b, x, i, j). i + j)") auto

declare print_lcs.simps [simp del]

definition lcs_program :: "string \<Rightarrow> string \<Rightarrow> string ub" where
  "lcs_program x y = do { (c, b) \<leftarrow> lcsLength x y ([], []); print_lcs b x (length x) (length y) }"

section \<open>The reference recursion\<close>

fun L :: "string \<Rightarrow> string \<Rightarrow> nat \<Rightarrow> nat \<Rightarrow> nat" where
  "L x y 0 j = 0"
| "L x y (Suc i) 0 = 0"
| "L x y (Suc i) (Suc j) = (if x ! i = y ! j then L x y i j + 1 else max (L x y i (Suc j)) (L x y (Suc i) j))"

fun D :: "string \<Rightarrow> string \<Rightarrow> nat \<Rightarrow> nat \<Rightarrow> char" where
  "D x y (Suc i) (Suc j) =
     (if x ! i = y ! j then CHR ''c'' else if L x y i (Suc j) \<ge> L x y (Suc i) j then CHR ''u'' else CHR ''l'')"
| "D x y i j = CHR 0x00"

lemma L_0 [simp]: "L x y i 0 = 0"
  by (cases i) simp_all

lemma L_le: "L x y i j \<le> i"
  by (induction x y i j rule: L.induct) auto

lemma subseq_snoc_cases:
  assumes "subseq t (u @ [a])"
  shows "subseq t u \<or> (\<exists>t'. t = t' @ [a] \<and> subseq t' u)"
proof -
  obtain t1 t2 where t: "t = t1 @ t2" "subseq t1 u" "subseq t2 [a]" using assms by (auto simp: subseq_append_iff)
  thus ?thesis by (cases t2) (auto split: if_splits)
qed

text \<open>No common subsequence of two prefixes is longer than the reference value.\<close>

lemma L_upper:
  "subseq t (take i x) \<Longrightarrow> subseq t (take j y) \<Longrightarrow> i \<le> length x \<Longrightarrow> j \<le> length y \<Longrightarrow> length t \<le> L x y i j"
proof (induction x y i j arbitrary: t rule: L.induct)
  case (3 x y i j)
  let ?u = "take i x" and ?v = "take j y" and ?a = "x ! i" and ?b = "y ! j"
  have s: "take (Suc i) x = ?u @ [?a]" "take (Suc j) y = ?v @ [?b]" using "3.prems" by (auto simp: take_Suc_conv_app_nth)
  show ?case
  proof (cases "?a = ?b")
    case True
    have "length (butlast t) \<le> L x y i j"
    proof (rule "3.IH"(1) [OF True])
      show "subseq (butlast t) ?u" "subseq (butlast t) ?v"
        using "3.prems"(1,2) unfolding s
        by (auto dest!: subseq_snoc_cases intro: subseq_order.order_trans [OF prefix_imp_subseq [OF prefixeq_butlast]])
    qed (use "3.prems" in auto)
    thus ?thesis using True by simp
  next
    case False
    have "subseq t ?u \<or> subseq t ?v"
      using subseq_snoc_cases [of t ?u ?a] subseq_snoc_cases [of t ?v ?b] "3.prems"(1,2) False unfolding s by auto
    thus ?thesis
      using "3.IH"(2,3) [OF False, of t] "3.prems" False by (auto simp: le_max_iff_disj)
  qed
qed auto

section \<open>The tables\<close>

text \<open>
  \<open>filled x y P g z t\<close>: the table \<open>t\<close> has the size of the problem and holds \<open>g\<close> at the
  positions \<open>P\<close> and the initial value \<open>z\<close> elsewhere.
\<close>

definition filled :: "string \<Rightarrow> string \<Rightarrow> (nat \<Rightarrow> nat \<Rightarrow> bool) \<Rightarrow> (nat \<Rightarrow> nat \<Rightarrow> 'a) \<Rightarrow> 'a list list \<Rightarrow> bool" where
  "filled x y P g t \<longleftrightarrow> length t = length x + 1 \<and> (\<forall>a \<le> length x. length (t ! a) = length y + 1) \<and>
     (\<forall>a \<le> length x. \<forall>k \<le> length y. P a k \<longrightarrow> t ! a ! k = g a k)"

lemma filled_get: "filled x y P g t \<Longrightarrow> i \<le> length x \<Longrightarrow> j \<le> length y \<Longrightarrow> P i j \<Longrightarrow> mget t i j = Some (g i j)"
  by (simp add: filled_def mget_def vget_def)

lemma filled_set:
  assumes "filled x y P g t" "i \<le> length x" "j \<le> length y" "\<And>a k. Q a k \<Longrightarrow> P a k \<or> (a = i \<and> k = j)"
  shows "\<exists>t'. mset2 t i j (g i j) = Some t' \<and> filled x y Q g t'"
proof -
  have "mset2 t i j (g i j) = Some (t[i := (t ! i)[j := g i j]])" using assms by (simp add: filled_def mset2_def vget_def vset_def)
  moreover have "filled x y Q g (t[i := (t ! i)[j := g i j]])"
    unfolding filled_def
  proof (intro conjI allI impI)
    fix a k assume "a \<le> length x" "k \<le> length y" "Q a k"
    thus "t[i := (t ! i)[j := g i j]] ! a ! k = g a k"
      using assms(1-3) assms(4) [of a k] by (cases "a = i"; cases "k = j") (auto simp: filled_def nth_list_update)
  qed (use assms(1,2) in \<open>auto simp: filled_def nth_list_update\<close>)
  ultimately show ?thesis by blast
qed

lemma filled_mono:
  "filled x y P g t \<Longrightarrow> (\<And>a k. a \<le> length x \<Longrightarrow> k \<le> length y \<Longrightarrow> Q a k \<Longrightarrow> P a k) \<Longrightarrow> filled x y Q g t"
  unfolding filled_def by blast

text \<open>The cells finished before cell \<open>(i, j)\<close>: the border, the rows above, the cells to the left.\<close>

definition before :: "nat \<Rightarrow> nat \<Rightarrow> nat \<Rightarrow> nat \<Rightarrow> bool" where
  "before i j a k \<longleftrightarrow> a = 0 \<or> k = 0 \<or> a < i \<or> a = i \<and> k < j"

definition tables_ok :: "string \<Rightarrow> string \<Rightarrow> nat \<Rightarrow> nat \<Rightarrow> tables \<Rightarrow> bool" where
  "tables_ok x y i j = (\<lambda>(c, b). filled x y (before i j) (\<lambda>a k. int (L x y a k)) c \<and> filled x y (before i j) (D x y) b)"

lemma tables_set:
  assumes "tables_ok x y i j (c, b)" "i \<le> length x" "j \<le> length y" "v = int (L x y i j)" "d = D x y i j"
  shows "\<exists>s. do { c \<leftarrow> mset2 c i j v; b \<leftarrow> mset2 b i j d; Some (c, b) } = Some s \<and> tables_ok x y i (Suc j) s"
  using filled_set [of x y "before i j" "\<lambda>a k. int (L x y a k)" c i j "before i (Suc j)"]
    filled_set [of x y "before i j" "D x y" b i j "before i (Suc j)"] assms
  by (fastforce simp: tables_ok_def before_def)

lemma lcs_cell_ok:
  assumes ok: "tables_ok x y (Suc i) (Suc j) s" and i: "Suc i \<le> length x" and j: "Suc j \<le> length y" and fits: "in_int (int (length x))"
  shows "\<exists>s'. lcs_cell x y (Suc i) (Suc j) s = Some s' \<and> tables_ok x y (Suc i) (Suc (Suc j)) s'"
proof -
  obtain c b where s: "s = (c, b)" by fastforce
  have get: "mget c a k = Some (int (L x y a k))" if "before (Suc i) (Suc j) a k" "a \<le> length x" "k \<le> length y" for a k
    using ok filled_get that by (fastforce simp: tables_ok_def s)
  have int: "in_int (int (L x y i j) + 1)" using L_le [of x y i j] i fits by (simp add: in_int_def)
  have chars: "vget x i = Some (x ! i)" "vget y j = Some (y ! j)" using i j by (simp_all add: vec_simps)
  note set = tables_set [OF ok [unfolded s] i j]
  note cell = lcs_cell_def s chars int get [of i j] get [of i "Suc j"] get [of "Suc i" j] before_def
  consider "x ! i = y ! j" | "x ! i \<noteq> y ! j" "L x y (Suc i) j \<le> L x y i (Suc j)" | "x ! i \<noteq> y ! j" "L x y i (Suc j) < L x y (Suc i) j"
    by linarith
  thus ?thesis
  proof cases
    case 1 thus ?thesis using set [of "int (L x y i j) + 1" "CHR ''c''"] i j by (simp add: cell)
  next
    case 2 thus ?thesis using set [of "int (L x y i (Suc j))" "CHR ''u''"] i j by (simp add: cell max_def)
  next
    case 3 thus ?thesis using set [of "int (L x y (Suc i) j)" "CHR ''l''"] i j by (simp add: cell max_def)
  qed
qed

lemma tables_ok_row: "tables_ok x y i (length y + 1) s \<Longrightarrow> tables_ok x y (Suc i) 1 s"
  by (auto simp: tables_ok_def before_def elim!: filled_mono)

lemma lcs_cols_ok:
  "tables_ok x y (Suc i) (Suc j) s \<Longrightarrow> Suc i \<le> length x \<Longrightarrow> in_int (int (length x)) \<Longrightarrow> j \<le> length y \<Longrightarrow>
    \<exists>s'. lcs_cols x y (Suc i) [Suc j..<length y + 1] s = Some s' \<and> tables_ok x y (Suc i) (length y + 1) s'"
proof (induction "length y - j" arbitrary: j s)
  case (Suc d)
  hence j: "Suc j \<le> length y" by simp
  hence "[Suc j..<length y + 1] = Suc j # [Suc (Suc j)..<length y + 1]" by (simp add: upt_conv_Cons)
  thus ?case using lcs_cell_ok [OF Suc.prems(1,2) j Suc.prems(3)] Suc.hyps(1) [of "Suc j"] Suc.hyps(2) Suc.prems j by fastforce
qed simp

lemma lcs_rows_ok:
  "tables_ok x y (Suc i) 1 s \<Longrightarrow> in_int (int (length x)) \<Longrightarrow> i \<le> length x \<Longrightarrow>
    \<exists>s'. lcs_rows x y [Suc i..<length x + 1] s = Some s' \<and> tables_ok x y (length x + 1) 1 s'"
proof (induction "length x - i" arbitrary: i s)
  case (Suc d)
  hence i: "Suc i \<le> length x" by simp
  hence "[Suc i..<length x + 1] = Suc i # [Suc (Suc i)..<length x + 1]" by (simp add: upt_conv_Cons)
  thus ?case using lcs_cols_ok [of x y i 0 s] Suc.hyps(1) [of "Suc i"] Suc.hyps(2) Suc.prems i tables_ok_row by fastforce
qed simp

lemma filled_initial:
  "(\<And>a k. a = 0 \<or> k = 0 \<Longrightarrow> g a k = d) \<Longrightarrow>
    filled x y (before 1 1) g (map (vresize (length y + 1) d) (vresize (length x + 1) [] []))"
  by (auto simp: filled_def vresize_def before_def nth_Cons' simp del: replicate.simps)

lemma D_border: "a = 0 \<or> k = 0 \<Longrightarrow> D x y a k = CHR 0x00"
  by (cases a; cases k) auto

lemma lcsLength_ok:
  assumes "in_int (int (length x) + 1)" "in_int (int (length y) + 1)"
  shows "\<exists>s. lcsLength x y ([], []) = Some s \<and> tables_ok x y (length x + 1) 1 s"
proof -
  have "tables_ok x y 1 1 (map (vresize (length y + 1) 0) (vresize (length x + 1) [] []),
      map (vresize (length y + 1) (CHR 0x00)) (vresize (length x + 1) [] []))"
    unfolding tables_ok_def prod.case by (intro conjI filled_initial) (auto simp: D_border)
  moreover have "in_int (int (length x))" using assms(1) by (simp add: in_int_def)
  ultimately show ?thesis
    using lcs_rows_ok [of x y 0] assms by (simp add: lcsLength_def nat_add_distrib add.commute)
qed

section \<open>The printed subsequence\<close>

lemma print_lcs_ok:
  "filled x y (before (length x + 1) 1) (D x y) b \<Longrightarrow> i \<le> length x \<Longrightarrow> j \<le> length y \<Longrightarrow>
    \<exists>out. print_lcs b x i j = Some out \<and> subseq out (take i x) \<and> subseq out (take j y) \<and> length out = L x y i j"
proof (induction x y i j rule: L.induct)
  case (3 x y i j)
  have get: "mget b (Suc i) (Suc j) = Some (D x y (Suc i) (Suc j))"
    using filled_get [OF "3.prems"(1), of "Suc i" "Suc j"] "3.prems" by (simp add: before_def)
  have s: "take (Suc i) x = take i x @ [x ! i]" "take (Suc j) y = take j y @ [y ! j]" "vget x i = Some (x ! i)"
    using "3.prems" by (auto simp: take_Suc_conv_app_nth vec_simps)
  note step = print_lcs.simps [of b x "Suc i" "Suc j"] get s
  show ?case
  proof (cases "x ! i = y ! j")
    case True
    thus ?thesis using "3.IH"(1) "3.prems" by (fastforce simp: step)
  next
    case False
    then obtain u l where "print_lcs b x i (Suc j) = Some u" "subseq u (take i x)" "subseq u (take (Suc j) y)" "length u = L x y i (Suc j)"
      "print_lcs b x (Suc i) j = Some l" "subseq l (take (Suc i) x)" "subseq l (take j y)" "length l = L x y (Suc i) j"
      using "3.IH"(2,3) "3.prems" by force
    thus ?thesis using False by (auto simp: step max_def intro: subseq_rev_drop_many)
  qed
qed (simp_all add: print_lcs.simps)

text \<open>
  C27. For all strings whose lengths leave room for one more in an \<^verbatim>\<open>int\<close> the program stays inside its
  tables and prints a longest common subsequence: a subsequence of both strings, of the
  length in the last cell of the table, and no common subsequence is longer.
\<close>

theorem lcs_longest:
  assumes "in_int (int (length x) + 1)" "in_int (int (length y) + 1)"
  shows "\<exists>c b out. lcsLength x y ([], []) = Some (c, b) \<and> lcs_program x y = Some out \<and>
    subseq out x \<and> subseq out y \<and> mget c (length x) (length y) = Some (int (length out)) \<and>
    (\<forall>t. subseq t x \<and> subseq t y \<longrightarrow> length t \<le> length out)"
proof -
  obtain c b where run: "lcsLength x y ([], []) = Some (c, b)" and ok: "tables_ok x y (length x + 1) 1 (c, b)"
    using lcsLength_ok [OF assms] by auto
  obtain out where out: "print_lcs b x (length x) (length y) = Some out" "subseq out x" "subseq out y" "length out = L x y (length x) (length y)"
    using print_lcs_ok [of x y b "length x" "length y"] ok by (auto simp: tables_ok_def)
  have "mget c (length x) (length y) = Some (int (length out))"
    using ok out(4) filled_get [of x y "before (length x + 1) 1" _ c "length x" "length y"] by (auto simp: tables_ok_def before_def)
  moreover have "length t \<le> length out" if "subseq t x" "subseq t y" for t
    using L_upper [of t "length x" x "length y" y] that out(4) by simp
  ultimately show ?thesis using run out by (auto simp: lcs_program_def)
qed

theorem lcs_longest_witness: "\<exists>out. lcs_program ''ABCBDAB'' ''BDCABA'' = Some out \<and> subseq out ''ABCBDAB'' \<and> subseq out ''BDCABA''"
  using lcs_longest [of "''ABCBDAB''" "''BDCABA''"] by (auto simp: in_int_def)

end
