(* ===== verification/Kmp.thy ===== *)
theory Kmp
  imports Cpp_Prelude
begin

text \<open>
  \<^verbatim>\<open>cpp/string/kmp.cpp\<close>: the table of Knuth, Morris and Pratt (the complete one of the two
  definitions of \<^verbatim>\<open>getNext\<close>) and the search, written twice in the file. A C string is a
  character array with a terminating zero; a table entry is an \<^verbatim>\<open>int\<close> because of
  its entry \<open>- 1\<close>. The loops are partial functions: that they end is part of the theorem.
\<close>

section \<open>The program\<close>

text \<open>\<^verbatim>\<open>std::string::operator[]\<close>: the position behind the last character holds a zero.\<close>

definition str_get :: "string \<Rightarrow> int \<Rightarrow> char ub" where
  "str_get T i = iget (T @ [NUL]) i"

partial_function (option) next_while :: "string \<Rightarrow> int list \<Rightarrow> int \<Rightarrow> int \<Rightarrow> int ub" where
  "next_while T nxt i k = do {
     go \<leftarrow> (if k > 0 then do { a \<leftarrow> str_get T (i - 1); b \<leftarrow> str_get T k; Some (a \<noteq> b) } else Some False);
     if go then do { k \<leftarrow> iget nxt k; next_while T nxt i k } else Some k
   }"

fun next_for :: "string \<Rightarrow> int list \<Rightarrow> int \<Rightarrow> int list \<Rightarrow> int list ub" where
  "next_for T [] k nxt = Some nxt"
| "next_for T (i # js) k nxt = do {
     k \<leftarrow> next_while T nxt i k;
     a \<leftarrow> str_get T (i - 1);
     b \<leftarrow> str_get T k;
     k \<leftarrow> (if a = b then as_int (k + 1) else Some k);
     nxt \<leftarrow> iset nxt i k;
     next_for T js k nxt
   }"

definition getNext :: "string \<Rightarrow> int list ub" where
  "getNext T = do {
     nxt \<leftarrow> iset (replicate (length T) 0) 0 (-1);
     next_for T [2..int (length T) - 1] 0 nxt
   }"

partial_function (option) kmp_loop :: "char list \<Rightarrow> char list \<Rightarrow> int list \<Rightarrow> int \<Rightarrow> int \<Rightarrow> (int \<times> int) ub" where
  "kmp_loop s t nxt i j = do {
     a \<leftarrow> iget s i;
     go \<leftarrow> (if a \<noteq> NUL then do { b \<leftarrow> iget t j; Some (b \<noteq> NUL) } else Some False);
     if go
     then do {
       b \<leftarrow> iget t j;
       (i, j) \<leftarrow> (if a = b then do { i \<leftarrow> as_int (i + 1); j \<leftarrow> as_int (j + 1); Some (i, j) }
                  else do { j \<leftarrow> iget nxt j; Some (i, j) });
       (i, j) \<leftarrow> (if j = -1 then do { i \<leftarrow> as_int (i + 1); Some (i, j + 1) } else Some (i, j));
       kmp_loop s t nxt i j
     }
     else Some (i, j)
   }"

definition kmp :: "char list \<Rightarrow> char list \<Rightarrow> int ub" where
  "kmp s t = do {
     nxt \<leftarrow> getNext (takeWhile (\<lambda>c. c \<noteq> NUL) t);
     (i, j) \<leftarrow> kmp_loop s t nxt 0 0;
     b \<leftarrow> iget t j;
     if b = NUL then Some (i - j) else Some (-1)
   }"

definition kmp2 :: "char list \<Rightarrow> char list \<Rightarrow> int ub" where
  "kmp2 src target = do {
     nxt \<leftarrow> getNext (takeWhile (\<lambda>c. c \<noteq> NUL) target);
     (i, j) \<leftarrow> kmp_loop src target nxt 0 0;
     b \<leftarrow> iget target j;
     Some (if b = NUL then i - j else -1)
   }"

section \<open>Borders\<close>

text \<open>The prefix of length \<open>k\<close> is a proper suffix of the prefix of length \<open>n\<close>.\<close>

definition border :: "string \<Rightarrow> nat \<Rightarrow> nat \<Rightarrow> bool" where
  "border T n k \<longleftrightarrow> k < n \<and> (\<forall>m < k. T ! m = T ! (n - k + m))"

definition longest :: "string \<Rightarrow> nat \<Rightarrow> nat \<Rightarrow> bool" where
  "longest T n k \<longleftrightarrow> border T n k \<and> (\<forall>b. border T n b \<longrightarrow> b \<le> k)"

lemma border_0 [simp]: "border T n 0 \<longleftrightarrow> 0 < n"
  by (simp add: border_def)

lemma border_border:
  assumes "border T n k" "b < k"
  shows "border T n b \<longleftrightarrow> border T k b"
proof -
  have "T ! (k - b + m) = T ! (n - b + m)" if "m < b" for m
  proof -
    have "k - b + m < k" "n - k + (k - b + m) = n - b + m" using assms that by (auto simp: border_def)
    thus ?thesis using assms(1) by (metis border_def)
  qed
  thus ?thesis using assms by (auto simp: border_def)
qed

lemma border_Suc: "border T (Suc n) (Suc k) \<longleftrightarrow> border T n k \<and> T ! k = T ! n"
  by (auto simp: border_def less_Suc_eq)

lemma border_next: "border T n k \<Longrightarrow> longest T k b \<Longrightarrow> border T n b \<and> (\<forall>c. border T n c \<and> c < k \<longrightarrow> c \<le> b)"
proof -
  assume border: "border T n k" and longest: "longest T k b"
  have b: "border T k b" "\<forall>c. border T k c \<longrightarrow> c \<le> b" using longest by (auto simp: longest_def)
  hence "b < k" by (simp add: border_def)
  thus ?thesis using border_border [OF border] b by blast
qed

section \<open>The table\<close>

definition next_ok :: "string \<Rightarrow> int list \<Rightarrow> nat \<Rightarrow> bool" where
  "next_ok T nxt n \<longleftrightarrow> length nxt = length T \<and> (0 < n \<longrightarrow> nxt ! 0 = -1) \<and>
     (\<forall>m. 0 < m \<and> m < n \<longrightarrow> (\<exists>k. nxt ! m = int k \<and> longest T m k))"

lemma str_get_in: "k < length T \<Longrightarrow> str_get T (int k) = Some (T ! k)"
  by (simp add: str_get_def iget_def nth_append)

lemma next_while_ok:
  assumes table: "next_ok T nxt (Suc n)" and n: "Suc n < length T"
  shows "border T n k \<Longrightarrow> \<forall>b. border T n b \<and> T ! b = T ! n \<longrightarrow> b \<le> k \<Longrightarrow>
    \<exists>k'. next_while T nxt (int (Suc n)) (int k) = Some (int k') \<and> border T n k' \<and>
      (\<forall>b. border T n b \<and> T ! b = T ! n \<longrightarrow> b \<le> k') \<and> (k' = 0 \<or> T ! k' = T ! n)"
proof (induction k rule: less_induct)
  case (less k)
  have k: "k < n" using less.prems(1) by (simp add: border_def)
  have get: "str_get T (int (Suc n) - 1) = Some (T ! n)" "str_get T (int k) = Some (T ! k)"
    using str_get_in [of n T] str_get_in [of k T] k n by simp_all
  show ?case
  proof (cases "k > 0 \<and> T ! k \<noteq> T ! n")
    case True
    then obtain c where c: "nxt ! k = int c" "longest T k c" using table k by (auto simp: next_ok_def)
    have border: "border T n c" "\<forall>d. border T n d \<and> d < k \<longrightarrow> d \<le> c" using border_next [OF less.prems(1) c(2)] by auto
    have "iget nxt (int k) = Some (int c)" using c(1) k n table by (simp add: iget_def next_ok_def)
    hence "next_while T nxt (int (Suc n)) (int k) = next_while T nxt (int (Suc n)) (int c)"
      using True get by (subst next_while.simps) auto
    moreover have "c < k" using c(2) by (simp add: longest_def border_def)
    moreover have "\<forall>b. border T n b \<and> T ! b = T ! n \<longrightarrow> b \<le> c" using border(2) less.prems(2) True le_neq_implies_less by blast
    ultimately show ?thesis using less.IH [of c] border(1) by simp
  next
    case False
    hence "next_while T nxt (int (Suc n)) (int k) = Some (int k)" using get by (subst next_while.simps) auto
    thus ?thesis using False less.prems by (intro exI [of _ k]) auto
  qed
qed

text \<open>One round of the loop computes the longest border of the next prefix.\<close>

lemma longest_extend:
  assumes "border T n k" "\<forall>b. border T n b \<and> T ! b = T ! n \<longrightarrow> b \<le> k" "k = 0 \<or> T ! k = T ! n"
  shows "longest T (Suc n) (if T ! n = T ! k then Suc k else k)"
proof -
  have "b \<le> (if T ! n = T ! k then Suc k else k)" if "border T (Suc n) b" for b
    using that assms by (cases b) (auto simp: border_Suc)
  moreover have "border T (Suc n) (if T ! n = T ! k then Suc k else k)" using assms by (auto simp: border_Suc)
  ultimately show ?thesis by (auto simp: longest_def)
qed

lemma next_for_ok:
  "next_ok T nxt (Suc n) \<Longrightarrow> longest T n k \<Longrightarrow> Suc n \<le> length T \<Longrightarrow> in_int (int (length T)) \<Longrightarrow>
    \<exists>nxt'. next_for T [int (Suc n)..int (length T) - 1] (int k) nxt = Some nxt' \<and> next_ok T nxt' (length T)"
proof (induction "length T - Suc n" arbitrary: n k nxt)
  case 0
  thus ?case by (intro exI [of _ nxt]) auto
next
  case (Suc d)
  have n: "Suc n < length T" using Suc.hyps(2) by simp
  obtain k' where k': "next_while T nxt (int (Suc n)) (int k) = Some (int k')" "border T n k'"
    "\<forall>b. border T n b \<and> T ! b = T ! n \<longrightarrow> b \<le> k'" "k' = 0 \<or> T ! k' = T ! n"
    using next_while_ok [OF Suc.prems(1) n, of k] Suc.prems(2) by (auto simp: longest_def)
  define c where "c = (if T ! n = T ! k' then Suc k' else k')"
  have c: "longest T (Suc n) c" unfolding c_def using k'(2-4) by (rule longest_extend)
  have "k' < n" using k'(2) by (simp add: border_def)
  hence get: "str_get T (int (Suc n) - 1) = Some (T ! n)" "str_get T (int k') = Some (T ! k')" "in_int (int k' + 1)"
    using str_get_in [of n T] str_get_in [of k' T] n Suc.prems(4) by (auto simp: in_int_def)
  let ?nxt = "nxt[Suc n := int c]"
  have "next_for T [int (Suc n)..int (length T) - 1] (int k) nxt = next_for T [int (Suc (Suc n))..int (length T) - 1] (int c) ?nxt"
    using n get k'(1) Suc.prems(1) by (subst upto_rec1) (auto simp: next_ok_def iset_def c_def nat_add_distrib add.commute)
  moreover have "next_ok T ?nxt (Suc (Suc n))"
    using Suc.prems(1) c n by (auto simp: next_ok_def nth_list_update less_Suc_eq)
  ultimately show ?case using Suc.hyps(1) [of "Suc n" ?nxt c] Suc.hyps(2) c n Suc.prems(4) by simp
qed

lemma getNext_ok:
  assumes "T \<noteq> []" "in_int (int (length T))"
  shows "\<exists>nxt. getNext T = Some nxt \<and> next_ok T nxt (length T)"
proof -
  let ?nxt = "(replicate (length T) 0)[0 := - 1 :: int]"
  have start: "iset (replicate (length T) 0) 0 (-1) = Some ?nxt" using assms(1) by (simp add: iset_def)
  show ?thesis
  proof (cases "length T = 1")
    case True
    thus ?thesis using start by (auto simp: getNext_def next_ok_def)
  next
    case False
    hence len: "2 \<le> length T" using assms(1) by (cases T) (auto simp: Suc_le_eq)
    have "longest T 1 0" by (auto simp: longest_def border_def)
    moreover from this have "next_ok T ?nxt (Suc 1)" using len assms(1) by (auto simp: next_ok_def less_Suc_eq)
    ultimately show ?thesis using next_for_ok [of T ?nxt 1 0] len assms(2) start by (simp add: getNext_def)
  qed
qed

section \<open>The search\<close>

definition occurs :: "string \<Rightarrow> string \<Rightarrow> nat \<Rightarrow> bool" where
  "occurs s t p \<longleftrightarrow> p + length t \<le> length s \<and> take (length t) (drop p s) = t"

lemma occurs_nth: "occurs s t p \<longleftrightarrow> p + length t \<le> length s \<and> (\<forall>m < length t. s ! (p + m) = t ! m)"
  by (auto simp: occurs_def list_eq_iff_nth_eq)

text \<open>The last \<open>j\<close> characters before \<open>i\<close> agree with the pattern, and it does not occur earlier.\<close>

definition scanned :: "string \<Rightarrow> string \<Rightarrow> nat \<Rightarrow> nat \<Rightarrow> bool" where
  "scanned s t i j \<longleftrightarrow> j \<le> i \<and> i \<le> length s \<and> j \<le> length t \<and> (\<forall>m < j. s ! (i - j + m) = t ! m) \<and>
     (\<forall>p. occurs s t p \<longrightarrow> i - j \<le> p)"

lemma scanned_match: "scanned s t i j \<Longrightarrow> i < length s \<Longrightarrow> j < length t \<Longrightarrow> s ! i = t ! j \<Longrightarrow> scanned s t (Suc i) (Suc j)"
  by (auto simp: scanned_def less_Suc_eq)

lemma scanned_skip:
  assumes "scanned s t i 0" "i < length s" "t \<noteq> []" "s ! i \<noteq> t ! 0" shows "scanned s t (Suc i) 0"
proof -
  have "i \<noteq> p" if "occurs s t p" for p using that assms(3,4) by (auto simp: occurs_nth)
  thus ?thesis using assms(1,2) by (auto simp: scanned_def Suc_le_eq le_neq_implies_less)
qed

lemma scanned_shift:
  assumes sc: "scanned s t i j" and j: "j < length t" and mismatch: "s ! i \<noteq> t ! j" and c: "longest t j c"
  shows "scanned s t i c"
proof -
  have cj: "c < j" "\<forall>m < c. t ! m = t ! (j - c + m)" using c by (auto simp: longest_def border_def)
  have agree: "\<forall>m < j. s ! (i - j + m) = t ! m" "j \<le> i" using sc by (auto simp: scanned_def)
  have "s ! (i - c + m) = t ! m" if "m < c" for m
  proof -
    have "i - c + m = i - j + (j - c + m)" "j - c + m < j" using cj agree(2) that by auto
    thus ?thesis using agree(1) cj(2) that by metis
  qed
  moreover have "i - c \<le> p" if occ: "occurs s t p" for p
  proof (rule ccontr)
    assume "\<not> i - c \<le> p"
    hence p: "i - j \<le> p" "p < i - c" using sc occ by (auto simp: scanned_def)
    have at: "s ! (p + m) = t ! m" if "m < length t" for m using occ that by (auto simp: occurs_nth)
    have "p \<noteq> i - j" using at [OF j] mismatch agree(2) by auto
    hence "border t j (i - p)"
    proof -
      have "t ! m = t ! (j - (i - p) + m)" if "m < i - p" for m
      proof -
        have m: "j - (i - p) + m < j" "i - j + (j - (i - p) + m) = p + m" "m < length t"
          using that p \<open>p \<noteq> i - j\<close> agree(2) j by auto
        thus ?thesis using agree(1) at by metis
      qed
      thus ?thesis using p \<open>p \<noteq> i - j\<close> agree(2) by (auto simp: border_def)
    qed
    thus False using c p by (auto simp: longest_def)
  qed
  ultimately show ?thesis using sc cj(1) by (auto simp: scanned_def)
qed

lemma kmp_loop_ok:
  assumes table: "next_ok t nxt (length t)" and nul: "NUL \<notin> set s" "NUL \<notin> set t" and t: "t \<noteq> []"
    and int: "in_int (int (length s))"
  shows "scanned s t i j \<Longrightarrow> \<exists>i' j'. kmp_loop (s @ [NUL]) (t @ [NUL]) nxt (int i) (int j) = Some (int i', int j') \<and>
    scanned s t i' j' \<and> (i' = length s \<or> j' = length t)"
proof (induction "2 * length s + j - 2 * i" arbitrary: i j rule: less_induct)
  case less
  have ij: "j \<le> i" "i \<le> length s" "j \<le> length t" using less.prems by (auto simp: scanned_def)
  let ?loop = "kmp_loop (s @ [NUL]) (t @ [NUL]) nxt"
  have get: "iget (s @ [NUL]) (int i) = Some ((s @ [NUL]) ! i)" "iget (t @ [NUL]) (int j) = Some ((t @ [NUL]) ! j)"
    using ij by (simp_all add: iget_def)
  show ?case
  proof (cases "i = length s \<or> j = length t")
    case True
    hence "?loop (int i) (int j) = Some (int i, int j)" using get by (subst kmp_loop.simps) auto
    thus ?thesis using True less.prems by blast
  next
    case False
    hence lt: "i < length s" "j < length t" using ij by auto
    have chars: "(s @ [NUL]) ! i = s ! i" "(t @ [NUL]) ! j = t ! j" "s ! i \<noteq> NUL" "t ! j \<noteq> NUL"
      using lt nul by (auto simp: nth_append in_set_conv_nth)
    have ints: "in_int (1 + int i)" "in_int (1 + int j)" using int lt ij by (auto simp: in_int_def)
    note step = kmp_loop.simps [of "s @ [NUL]" "t @ [NUL]" nxt "int i" "int j"] get chars ints
    have "\<exists>c. nxt ! j = int c \<and> longest t j c" if "0 < j" using table lt(2) that by (simp add: next_ok_def)
    then consider "s ! i = t ! j" | "s ! i \<noteq> t ! j" "j = 0" | c where "s ! i \<noteq> t ! j" "0 < j" "nxt ! j = int c" "longest t j c"
      by blast
    thus ?thesis
    proof cases
      case 1
      hence "?loop (int i) (int j) = ?loop (int (Suc i)) (int (Suc j))" by (simp add: step add.commute)
      thus ?thesis using less.hyps [of "Suc j" "Suc i"] scanned_match [OF less.prems lt 1] lt ij by simp
    next
      case 2
      have "iget nxt 0 = Some (-1)" using table t by (simp add: next_ok_def iget_def)
      hence "?loop (int i) (int j) = ?loop (int (Suc i)) (int 0)" using 2(1) by (simp add: step [unfolded 2(2) of_nat_0] 2(2) add.commute)
      thus ?thesis using less.hyps [of 0 "Suc i"] scanned_skip [of s t i] less.prems lt t 2 by simp
    next
      case 3
      have "iget nxt (int j) = Some (int c)" using table lt(2) 3(3) by (simp add: next_ok_def iget_def)
      hence "?loop (int i) (int j) = ?loop (int i) (int c)" using 3 step by simp
      moreover have "c < j" using 3(4) by (simp add: longest_def border_def)
      ultimately show ?thesis using less.hyps [of c i] scanned_shift [OF less.prems lt(2) 3(1,4)] ij by simp
    qed
  qed
qed

lemma takeWhile_cstr: "NUL \<notin> set t \<Longrightarrow> takeWhile (\<lambda>c. c \<noteq> NUL) (t @ [NUL]) = t"
  by (induction t) auto

lemma kmp_eq_kmp2: "kmp s t = kmp2 s t"
  by (simp add: kmp_def kmp2_def if_distrib cong: if_cong)

lemma kmp2_ok:
  assumes "NUL \<notin> set s" "NUL \<notin> set t" "in_int (int (length s))" "in_int (int (length t))" "t \<noteq> []"
  shows "kmp2 (s @ [NUL]) (t @ [NUL]) = Some (if \<exists>p. occurs s t p then int (LEAST p. occurs s t p) else -1)"
proof -
  note t = assms(5)
  obtain nxt where nxt: "getNext t = Some nxt" "next_ok t nxt (length t)" using getNext_ok [OF t assms(4)] by blast
  have "scanned s t 0 0" by (simp add: scanned_def)
  then obtain i j where ij: "kmp_loop (s @ [NUL]) (t @ [NUL]) nxt 0 0 = Some (int i, int j)" "scanned s t i j" "i = length s \<or> j = length t"
    using kmp_loop_ok [OF nxt(2) assms(1,2) t assms(3), of 0 0] by auto
  have sc: "j \<le> i" "i \<le> length s" "j \<le> length t" "\<And>m. m < j \<Longrightarrow> s ! (i - j + m) = t ! m" "\<And>p. occurs s t p \<Longrightarrow> i - j \<le> p"
    using ij(2) by (auto simp: scanned_def)
  have res: "kmp2 (s @ [NUL]) (t @ [NUL]) = Some (if j = length t then int (i - j) else -1)"
    using nxt(1) ij(1) sc(1,3) assms(2)
    by (auto simp: kmp2_def takeWhile_cstr [OF assms(2)] iget_def nth_append in_set_conv_nth of_nat_diff)
  show "kmp2 (s @ [NUL]) (t @ [NUL]) = Some (if \<exists>p. occurs s t p then int (LEAST p. occurs s t p) else -1)"
  proof (cases "j = length t")
    case True
    hence occ: "occurs s t (i - j)" using sc by (auto simp: occurs_nth)
    hence "(LEAST p. occurs s t p) = i - j" using sc(5) by (intro Least_equality) auto
    thus ?thesis using res True occ by auto
  next
    case False
    hence "\<not> occurs s t p" for p using ij(3) sc(1,3) sc(5) [of p] by (auto simp: occurs_def)
    thus ?thesis using res False by auto
  qed
qed

text \<open>
  C28. Both searches end and find the first occurrence: for a text and a non-empty pattern, as
  C strings of lengths that fit an \<^verbatim>\<open>int\<close>, the result is \<open>- 1\<close> if the pattern does not occur and the
  smallest position at which it occurs otherwise. For the empty pattern the first write to the
  table is out of range.
\<close>

theorem kmp_first_occurrence:
  assumes "NUL \<notin> set s" "NUL \<notin> set t" "in_int (int (length s))" "in_int (int (length t))"
  shows "(t \<noteq> [] \<longrightarrow> kmp2 (s @ [NUL]) (t @ [NUL]) =
      Some (if \<exists>p. occurs s t p then int (LEAST p. occurs s t p) else -1)) \<and>
    kmp2 (s @ [NUL]) [NUL] = None \<and> kmp (s @ [NUL]) (t @ [NUL]) = kmp2 (s @ [NUL]) (t @ [NUL])"
  using kmp2_ok [OF assms] kmp_eq_kmp2 by (auto simp: kmp2_def getNext_def iset_def)

theorem kmp_first_occurrence_witness: "kmp2 (''ababc'' @ [NUL]) (''abc'' @ [NUL]) = Some 2"
proof -
  have "\<not> occurs ''ababc'' ''abc'' 0" "\<not> occurs ''ababc'' ''abc'' 1" "occurs ''ababc'' ''abc'' 2"
    by (simp_all add: occurs_def)
  hence "(LEAST p. occurs ''ababc'' ''abc'' p) = 2" "\<exists>p. occurs ''ababc'' ''abc'' p"
    by (auto intro!: Least_equality simp: not_less_eq_eq numeral_2_eq_2 Suc_le_eq intro: gr0I) (metis One_nat_def Suc_lessI gr0I)
  thus ?thesis using kmp_first_occurrence [of "''ababc''" "''abc''"] by (simp add: in_int_def)
qed

section \<open>The search by comparison\<close>

text \<open>
  \<^verbatim>\<open>strStr\<close> of the exercises. The bound of its loop is an unsigned expression, which wraps when the
  pattern is longer than the text by two or more.
\<close>

function strStr_inner :: "string \<Rightarrow> string \<Rightarrow> int \<Rightarrow> nat \<Rightarrow> bool ub" where
  "strStr_inner haystack needle i j =
     (if j < length needle
      then do {
        a \<leftarrow> str_get haystack (i + int j);
        b \<leftarrow> str_get needle (int j);
        if a \<noteq> b then Some False
        else if j = length needle - 1 then Some True
        else strStr_inner haystack needle i (j + 1)
      }
      else Some False)"
  by pat_completeness auto
termination
  by (relation "measure (\<lambda>(h, n, i, j). length n - j)") auto

declare strStr_inner.simps [simp del]

partial_function (option) strStr_loop :: "string \<Rightarrow> string \<Rightarrow> int \<Rightarrow> int ub" where
  "strStr_loop haystack needle i =
     (if i < (int (length haystack) - int (length needle) + 1) mod 2 ^ 64
      then do {
        a \<leftarrow> str_get haystack i;
        b \<leftarrow> str_get needle 0;
        found \<leftarrow> (if a = b then strStr_inner haystack needle i 0 else Some False);
        if found then Some i else do { i \<leftarrow> as_int (i + 1); strStr_loop haystack needle i }
      }
      else Some (-1))"

definition strStr :: "string \<Rightarrow> string \<Rightarrow> int ub" where
  "strStr haystack needle =
     (if length haystack = 0 \<and> length needle = 0 then Some 0
      else if length needle = 0 then Some 0
      else strStr_loop haystack needle 0)"

lemma str_get_end: "str_get T (int (length T)) = Some NUL"
  by (simp add: str_get_def iget_def)

text \<open>The inner loop decides whether the pattern occurs; the zero behind the text stops it.\<close>

lemma strStr_inner_ok:
  "i \<le> length h \<Longrightarrow> j < length n \<Longrightarrow> i + j \<le> length h \<Longrightarrow> NUL \<notin> set n \<Longrightarrow>
    strStr_inner h n (int i) j = Some (i + length n \<le> length h \<and> (\<forall>m. j \<le> m \<and> m < length n \<longrightarrow> h ! (i + m) = n ! m))"
proof (induction "length n - j" arbitrary: j)
  case (Suc d)
  have b: "str_get n (int j) = Some (n ! j)" "n ! j \<noteq> NUL" using Suc.prems(2,4) by (simp add: str_get_in, metis nth_mem)
  note step = strStr_inner.simps [of h n "int i" j] b
  show ?case
  proof (cases "i + j = length h")
    case True
    hence "str_get h (int i + int j) = Some NUL" using str_get_end [of h] by (metis of_nat_add)
    thus ?thesis using Suc.prems True by (auto simp: step)
  next
    case False
    hence a: "str_get h (int i + int j) = Some (h ! (i + j))" using Suc.prems(3) str_get_in [of "i + j" h] by simp
    consider "h ! (i + j) \<noteq> n ! j" | "h ! (i + j) = n ! j" "length n = Suc j" | "h ! (i + j) = n ! j" "j < length n - 1"
      using Suc.prems(2) by linarith
    thus ?thesis
    proof cases
      case 1 thus ?thesis using Suc.prems a by (auto simp: step)
    next
      case 2
      have "strStr_inner h n (int i) j = Some True" using 2 a by (simp add: step)
      moreover have "m = j" if "j \<le> m" "m < length n" for m using 2(2) that by simp
      hence "\<forall>m. j \<le> m \<and> m < length n \<longrightarrow> h ! (i + m) = n ! m" using 2(1) by blast
      ultimately show ?thesis using 2(2) Suc.prems(3) False by simp
    next
      case 3
      hence "strStr_inner h n (int i) j = strStr_inner h n (int i) (Suc j)" using Suc.prems a by (simp add: step)
      also have "\<dots> = Some (i + length n \<le> length h \<and> (\<forall>m. Suc j \<le> m \<and> m < length n \<longrightarrow> h ! (i + m) = n ! m))"
        using 3 Suc.prems False Suc.hyps(2) by (intro Suc.hyps(1)) auto
      also have "(\<forall>m. Suc j \<le> m \<and> m < length n \<longrightarrow> h ! (i + m) = n ! m) \<longleftrightarrow> (\<forall>m. j \<le> m \<and> m < length n \<longrightarrow> h ! (i + m) = n ! m)"
        using 3(1) by (metis Suc_leI le_neq_implies_less Suc_leD)
      finally show ?thesis .
    qed
  qed
qed simp

lemma strStr_round:
  assumes "i \<le> length h" "n \<noteq> []" "NUL \<notin> set n" "int i < (int (length h) - int (length n) + 1) mod 2 ^ 64"
  shows "strStr_loop h n (int i) = (if occurs h n i then Some (int i) else do { i \<leftarrow> as_int (int i + 1); strStr_loop h n i })"
proof -
  have zero: "str_get n 0 = Some (n ! 0)" "n ! 0 \<noteq> NUL" using str_get_in [of 0 n] assms(2,3) by (simp, metis length_greater_0_conv nth_mem)
  have inner: "strStr_inner h n (int i) 0 = Some (occurs h n i)"
    using strStr_inner_ok [of i h 0 n] assms by (simp add: occurs_nth)
  have "\<exists>a. str_get h (int i) = Some a \<and> (occurs h n i \<longrightarrow> a = n ! 0)"
  proof (cases "i = length h")
    case True thus ?thesis using str_get_end [of h] assms(2) by (auto simp: occurs_def)
  next
    case False
    hence "str_get h (int i) = Some (h ! i)" using assms(1) by (simp add: str_get_in)
    moreover have "h ! i = n ! 0" if "occurs h n i" using that assms(2) unfolding occurs_nth by (metis add.right_neutral length_greater_0_conv)
    ultimately show ?thesis by blast
  qed
  thus ?thesis using assms(4) zero inner by (subst strStr_loop.simps) auto
qed

lemma strStr_loop_ok:
  assumes n: "n \<noteq> []" "NUL \<notin> set n" "length n \<le> length h + 1" and int: "in_int (int (length h))"
  shows "\<forall>p < i. \<not> occurs h n p \<Longrightarrow> i \<le> length h + 1 - length n \<Longrightarrow>
    strStr_loop h n (int i) = Some (if \<exists>p. occurs h n p then int (LEAST p. occurs h n p) else -1)"
proof (induction "length h + 1 - length n - i" arbitrary: i)
  case 0
  have bound: "(int (length h) - int (length n) + 1) mod 2 ^ 64 = int (length h + 1 - length n)"
    using n(3) int by (simp add: in_int_def of_nat_diff)
  have none: "\<not> occurs h n p" for p
  proof (cases "p < i")
    case False thus ?thesis using 0 n(3) by (auto simp: occurs_def)
  qed (use 0 in blast)
  have "i = length h + 1 - length n" using 0 by simp
  thus ?case using none bound by (subst strStr_loop.simps) simp
next
  case (Suc d)
  have bound: "(int (length h) - int (length n) + 1) mod 2 ^ 64 = int (length h + 1 - length n)"
    using n(3) int by (simp add: in_int_def of_nat_diff)
  have lt: "i < length h + 1 - length n" "i < length h" using Suc.hyps(2) n by (cases n; simp)+
  have round: "strStr_loop h n (int i) = (if occurs h n i then Some (int i) else do { i \<leftarrow> as_int (int i + 1); strStr_loop h n i })"
    using lt bound n by (intro strStr_round) auto
  show ?case
  proof (cases "occurs h n i")
    case True
    hence "(LEAST p. occurs h n p) = i" using Suc.prems(1) by (intro Least_equality) (auto simp: not_less [symmetric])
    thus ?thesis using True round by auto
  next
    case False
    have "in_int (int i + 1)" using lt int by (simp add: in_int_def)
    hence "strStr_loop h n (int i) = strStr_loop h n (int (Suc i))" using False round by (simp add: add.commute)
    thus ?thesis using Suc.hyps(1) [of "Suc i"] Suc.hyps(2) Suc.prems(1) False lt less_Suc_eq by auto
  qed
qed

lemma wrapped_bound:
  assumes "length h + 1 < length n" "in_int (int (length h) + 1)" "in_int (int (length n))"
  shows "(int (length h) - int (length n) + 1) mod 2 ^ 64 = int (length h) - int (length n) + 1 + 2 ^ 64"
proof -
  have "(int (length h) - int (length n) + 1) mod 2 ^ 64 = (int (length h) - int (length n) + 1 + 2 ^ 64) mod 2 ^ 64" by (simp only: mod_add_self2)
  also have "\<dots> = int (length h) - int (length n) + 1 + 2 ^ 64" using assms by (intro mod_pos_pos_trivial) (auto simp: in_int_def)
  finally show ?thesis .
qed

lemma strStr_wraps:
  assumes n: "n \<noteq> []" "NUL \<notin> set n" "length h + 1 < length n" and int: "in_int (int (length h) + 1)" "in_int (int (length n))"
  shows "i \<le> length h + 1 \<Longrightarrow> strStr_loop h n (int i) = None"
proof (induction "length h + 1 - i" arbitrary: i)
  case 0
  hence "str_get h (int i) = None" by (simp add: str_get_def iget_def)
  moreover have "int i < (int (length h) - int (length n) + 1) mod 2 ^ 64" using wrapped_bound [OF n(3) int] 0 int by (simp add: in_int_def)
  ultimately show ?case by (subst strStr_loop.simps) simp
next
  case (Suc d)
  have "int i < (int (length h) - int (length n) + 1) mod 2 ^ 64" using wrapped_bound [OF n(3) int] int Suc.prems by (simp add: in_int_def)
  moreover have "i \<le> length h" using Suc.hyps(2) by simp
  ultimately have "strStr_loop h n (int i) = do { i \<leftarrow> as_int (int i + 1); strStr_loop h n i }"
    using strStr_round [of i h n] n by (simp add: occurs_def)
  thus ?case using Suc.hyps(1) [of "Suc i"] Suc.hyps(2) int(1) \<open>i \<le> length h\<close> by (simp add: in_int_def add.commute)
qed

text \<open>
  For texts and patterns without zeros the two searches agree whenever the pattern is at most one
  character longer than the text. For longer patterns \<^verbatim>\<open>strStr\<close> reads behind the text, while
  the search with the table returns \<open>- 1\<close>; the empty pattern is found at 0.
\<close>

theorem strStr_agrees:
  assumes "NUL \<notin> set h" "NUL \<notin> set n" "in_int (int (length h) + 1)" "in_int (int (length n))"
  shows "strStr h n =
    (if n = [] then Some 0 else if length n \<le> length h + 1 then kmp2 (h @ [NUL]) (n @ [NUL]) else None)"
proof -
  have h: "in_int (int (length h))" using assms(3) by (simp add: in_int_def)
  have kmp: "kmp2 (h @ [NUL]) (n @ [NUL]) = Some (if \<exists>p. occurs h n p then int (LEAST p. occurs h n p) else -1)" if "n \<noteq> []"
    using kmp2_ok [OF assms(1,2) h assms(4) that] .
  show ?thesis
    using kmp strStr_loop_ok [of n h 0] strStr_wraps [of n h 0] assms h by (auto simp: strStr_def)
qed

theorem strStr_agrees_witness: "strStr ''hello'' ''ll'' = kmp2 (''hello'' @ [NUL]) (''ll'' @ [NUL])"
  using strStr_agrees [of "''hello''" "''ll''"] by (simp add: in_int_def)

end
