(* ===== verification/CMem.thy ===== *)
theory CMem
  imports Cpp_Prelude
begin

text \<open>
  The C memory and string routines of \<^verbatim>\<open>cpp/string\<close>: \<^verbatim>\<open>memcpy.cpp\<close>,
  \<^verbatim>\<open>memset.cpp\<close>, \<^verbatim>\<open>strcpy.cpp\<close> and \<^verbatim>\<open>strcmp.cpp\<close>. Pointers are
  positions in one array of characters, so that the areas of a copy may overlap; the null pointer
  is \<^term>\<open>None\<close>. Every access is checked; forming a pointer outside the array is
  not. A failed assertion is \<^term>\<open>None\<close> as well.
\<close>

type_synonym pointer = "int option"

section \<open>Copying\<close>

text \<open>\<^verbatim>\<open>while (n--) *(p++) = *(q++);\<close> and \<^verbatim>\<open>while (n--) *(p--) = *(q--);\<close>\<close>

fun copy_up :: "nat \<Rightarrow> int \<Rightarrow> int \<Rightarrow> char list \<Rightarrow> char list ub" where
  "copy_up 0 p q mem = Some mem"
| "copy_up (Suc n) p q mem = do { c \<leftarrow> iget mem q; mem \<leftarrow> iset mem p c; copy_up n (p + 1) (q + 1) mem }"

fun copy_down :: "nat \<Rightarrow> int \<Rightarrow> int \<Rightarrow> char list \<Rightarrow> char list ub" where
  "copy_down 0 p q mem = Some mem"
| "copy_down (Suc n) p q mem = do { c \<leftarrow> iget mem q; mem \<leftarrow> iset mem p c; copy_down n (p - 1) (q - 1) mem }"

definition my_memcpy :: "pointer \<Rightarrow> pointer \<Rightarrow> nat \<Rightarrow> char list \<Rightarrow> (pointer \<times> char list) ub" where
  "my_memcpy dest src n mem = do {
     p \<leftarrow> dest;
     q \<leftarrow> src;
     mem \<leftarrow> (if p \<le> q \<or> p \<ge> q + int n then copy_up n p q mem
             else copy_down n (p + int n - 1) (q + int n - 1) mem);
     Some (dest, mem)
   }"

text \<open>
  \<^verbatim>\<open>memcpy1\<close> counts an \<^verbatim>\<open>int\<close> down to zero; from a negative size the copy goes on
  until it leaves the array.
\<close>

function copy_int :: "int \<Rightarrow> int \<Rightarrow> int \<Rightarrow> char list \<Rightarrow> char list ub" where
  "copy_int sz d s mem =
     (if sz = 0 then Some mem
      else do {
        sz \<leftarrow> as_int (sz - 1);
        c \<leftarrow> iget mem s;
        mem \<leftarrow> iset mem d c;
        copy_int sz (d + 1) (s + 1) mem
      })"
  by pat_completeness auto
termination
  by (relation "measure (\<lambda>(sz, d, s, mem). nat (int (length mem) - d))") (auto simp: iset_def split: if_splits)

declare copy_int.simps [simp del]

definition memcpy1 :: "pointer \<Rightarrow> pointer \<Rightarrow> int \<Rightarrow> char list \<Rightarrow> (pointer \<times> char list) ub" where
  "memcpy1 dest src sz mem =
     (case (dest, src) of
       (Some d, Some s) \<Rightarrow> do { mem \<leftarrow> copy_int sz d s mem; Some (dest, mem) }
     | _ \<Rightarrow> Some (None, mem))"

section \<open>Filling\<close>

fun fill_loop :: "nat \<Rightarrow> int \<Rightarrow> char \<Rightarrow> char list \<Rightarrow> char list ub" where
  "fill_loop 0 cur c mem = Some mem"
| "fill_loop (Suc n) cur c mem = do { mem \<leftarrow> iset mem cur c; fill_loop n (cur + 1) c mem }"

definition memSet :: "pointer \<Rightarrow> int \<Rightarrow> nat \<Rightarrow> char list \<Rightarrow> (pointer \<times> char list) ub" where
  "memSet dest i sz mem = do {
     cur \<leftarrow> dest;
     mem \<leftarrow> fill_loop sz cur (char_of (nat (i mod 256))) mem;
     Some (dest, mem)
   }"

section \<open>Strings\<close>

function strcpy_loop :: "int \<Rightarrow> int \<Rightarrow> char list \<Rightarrow> char list ub" where
  "strcpy_loop cur src mem = do {
     c \<leftarrow> iget mem src;
     if c \<noteq> NUL
     then do { mem \<leftarrow> iset mem cur c; strcpy_loop (cur + 1) (src + 1) mem }
     else iset mem cur NUL
   }"
  by pat_completeness auto
termination
  by (relation "measure (\<lambda>(cur, src, mem). nat (int (length mem) - cur))") (auto simp: iset_def split: if_splits)

declare strcpy_loop.simps [simp del]

definition strcpy2 :: "pointer \<Rightarrow> pointer \<Rightarrow> char list \<Rightarrow> (pointer \<times> char list) ub" where
  "strcpy2 dest src mem =
     (case (dest, src) of
       (Some d, Some s) \<Rightarrow>
         if d = s then Some (dest, mem) else do { mem \<leftarrow> strcpy_loop d s mem; Some (dest, mem) }
     | _ \<Rightarrow> Some (None, mem))"

text \<open>Characters are compared as signed numbers. The two strings are two arrays.\<close>

definition schar :: "char \<Rightarrow> int" where
  "schar c = (int (of_char c) + 128) mod 256 - 128"

fun cmp_loop :: "char list \<Rightarrow> char list \<Rightarrow> int ub" where
  "cmp_loop (a # s) (b # t) =
     (if a \<noteq> NUL \<and> a \<noteq> NUL \<and> a = b then cmp_loop s t
      else if schar a > schar b then Some 1
      else if schar a < schar b then Some (-1)
      else Some 0)"
| "cmp_loop _ _ = None"

definition my_strcmp :: "char list \<Rightarrow> char list \<Rightarrow> int ub" where
  "my_strcmp str1 str2 = do {
     a \<leftarrow> vget str1 0;
     b \<leftarrow> (if a \<noteq> NUL then vget str2 0 else None);
     if b \<noteq> NUL then cmp_loop str1 str2 else None
   }"

definition my_string :: "char list option \<Rightarrow> char list option \<Rightarrow> int ub" where
  "my_string str1 str2 = do { s \<leftarrow> str1; t \<leftarrow> str2; cmp_loop s t }"

section \<open>Areas of memory\<close>

text \<open>Memory after the \<open>n\<close> characters from position \<open>q\<close> were moved to position \<open>p\<close>.\<close>

definition moved :: "nat \<Rightarrow> nat \<Rightarrow> nat \<Rightarrow> char list \<Rightarrow> char list" where
  "moved n p q mem = take p mem @ take n (drop q mem) @ drop (p + n) mem"

lemma moved_nth:
  assumes "p + n \<le> length mem" "q + n \<le> length mem" "i < length mem"
  shows "moved n p q mem ! i = (if p \<le> i \<and> i < p + n then mem ! (q + (i - p)) else mem ! i)"
proof -
  have "length (take n (drop q mem)) = n" "length (take p mem) = p" using assms by auto
  thus ?thesis using assms by (auto simp: moved_def nth_append)
qed

lemma moved_length: "p + n \<le> length mem \<Longrightarrow> q + n \<le> length mem \<Longrightarrow> length (moved n p q mem) = length mem"
  by (auto simp: moved_def min_def)

lemma moved_eqI:
  assumes "p + n \<le> length mem" "q + n \<le> length mem" "length r = length mem"
    "\<And>i. i < length mem \<Longrightarrow> r ! i = (if p \<le> i \<and> i < p + n then mem ! (q + (i - p)) else mem ! i)"
  shows "r = moved n p q mem"
  using assms by (intro nth_equalityI) (auto simp: moved_nth moved_length)

lemma copy_up_ok:
  "p + n \<le> length mem \<Longrightarrow> q + n \<le> length mem \<Longrightarrow> p \<le> q \<or> q + n \<le> p \<Longrightarrow>
    copy_up n (int p) (int q) mem = Some (moved n p q mem)"
proof (induction n arbitrary: p q mem)
  case 0 thus ?case by (simp add: moved_def)
next
  case (Suc n)
  let ?mem = "mem[p := mem ! q]"
  have "copy_up (Suc n) (int p) (int q) mem = copy_up n (int (Suc p)) (int (Suc q)) ?mem"
    using Suc.prems by (simp add: vec_simps add.commute)
  also have "\<dots> = Some (moved n (Suc p) (Suc q) ?mem)" using Suc.prems by (intro Suc.IH) auto
  also have "moved n (Suc p) (Suc q) ?mem = moved (Suc n) p q mem"
    using Suc.prems by (intro moved_eqI) (auto simp: moved_nth moved_length nth_list_update intro!: arg_cong [of _ _ "(!) mem"])
  finally show ?case .
qed

lemma copy_down_ok:
  "p + n \<le> length mem \<Longrightarrow> q + n \<le> length mem \<Longrightarrow> q \<le> p \<Longrightarrow>
    copy_down n (int p + int n - 1) (int q + int n - 1) mem = Some (moved n p q mem)"
proof (induction n arbitrary: mem)
  case 0 thus ?case by (simp add: moved_def)
next
  case (Suc n)
  let ?mem = "mem[p + n := mem ! (q + n)]"
  have "copy_down (Suc n) (int p + int (Suc n) - 1) (int q + int (Suc n) - 1) mem =
      copy_down n (int p + int n - 1) (int q + int n - 1) ?mem"
    using Suc.prems by (simp add: vec_simps nat_add_distrib)
  also have "\<dots> = Some (moved n p q ?mem)" using Suc.prems by (intro Suc.IH) auto
  also have "moved n p q ?mem = moved (Suc n) p q mem"
    using Suc.prems by (intro moved_eqI) (auto simp: moved_nth moved_length nth_list_update)
  finally show ?case .
qed

lemma copy_int_nat: "in_int (int n) \<Longrightarrow> copy_int (int n) d s mem = copy_up n d s mem"
proof (induction n arbitrary: d s mem)
  case (Suc n)
  hence "in_int (int n)" by (simp add: in_int_def)
  hence "copy_int (int n) d s = copy_up n d s" for d s using Suc.IH by (intro ext) simp
  thus ?case using Suc.prems \<open>in_int (int n)\<close> by (subst copy_int.simps) simp
qed (simp add: copy_int.simps)

lemma copy_int_negative: "sz < 0 \<Longrightarrow> copy_int sz d s mem = None"
proof (induction sz d s mem rule: copy_int.induct)
  case (1 sz d s mem)
  show ?case
  proof (rule ccontr)
    assume "copy_int sz d s mem \<noteq> None"
    then obtain c m r where "as_int (sz - 1) = Some (sz - 1)" "iget mem s = Some c" "iset mem d c = Some m" "copy_int (sz - 1) (d + 1) (s + 1) m = Some r"
      using "1.prems" by (subst (asm) copy_int.simps) (auto simp: bind_eq_Some as_int_def split: if_splits)
    thus False using "1.IH" "1.prems" by fastforce
  qed
qed

lemma fill_loop_ok:
  "p + n \<le> length mem \<Longrightarrow> fill_loop n (int p) c mem = Some (take p mem @ replicate n c @ drop (p + n) mem)"
proof (induction n arbitrary: p mem)
  case (Suc n)
  have "fill_loop (Suc n) (int p) c mem = fill_loop n (int (Suc p)) c (mem[p := c])"
    using Suc.prems by (simp add: vec_simps add.commute)
  also have "\<dots> = Some (take (Suc p) (mem[p := c]) @ replicate n c @ drop (Suc p + n) (mem[p := c]))"
    using Suc.prems by (intro Suc.IH) simp
  also have "take (Suc p) (mem[p := c]) = take p mem @ [c]"
    using Suc.prems by (simp add: take_Suc_conv_app_nth)
  finally show ?case by simp
qed simp

text \<open>Copying upwards onto the next position repeats one character.\<close>

lemma copy_up_smear:
  "Suc q + n \<le> length mem \<Longrightarrow> copy_up n (int (Suc q)) (int q) mem = fill_loop n (int (Suc q)) (mem ! q) mem"
proof (induction n arbitrary: q mem)
  case (Suc n)
  let ?mem = "mem[Suc q := mem ! q]"
  have "copy_up (Suc n) (int (Suc q)) (int q) mem = copy_up n (int (Suc (Suc q))) (int (Suc q)) ?mem"
    using Suc.prems by (simp add: vec_simps add.commute nat_add_distrib)
  also have "\<dots> = fill_loop n (int (Suc (Suc q))) (?mem ! Suc q) ?mem" using Suc.prems by (intro Suc.IH) simp
  also have "\<dots> = fill_loop (Suc n) (int (Suc q)) (mem ! q) mem"
    using Suc.prems by (simp add: vec_simps add.commute nat_add_distrib)
  finally show ?case .
qed simp

lemma memSet_char: "memSet (Some p) (int (of_char c)) n mem = do { mem \<leftarrow> fill_loop n p c mem; Some (Some p, mem) }"
  by (simp add: memSet_def)

text \<open>
  \<^verbatim>\<open>my_memcpy\<close> moves memory correctly whether or not the two areas overlap: afterwards the target
  holds what the source held before, and the rest is unchanged. \<^verbatim>\<open>memcpy1\<close> does the same
  unless the target begins inside the source; when it begins one position after the source,
  \<^verbatim>\<open>memcpy1\<close> fills the target with the first character as \<^verbatim>\<open>memSet\<close> would. A negative size makes it leave
  the array, and null pointers are reported or stopped by an assertion.
\<close>

theorem memcpy_moves:
  assumes "p + n \<le> length mem" "q + n \<le> length mem" "in_int (int n)"
  shows "my_memcpy (Some (int p)) (Some (int q)) n mem = Some (Some (int p), moved n p q mem) \<and>
    (p \<le> q \<or> q + n \<le> p \<longrightarrow> memcpy1 (Some (int p)) (Some (int q)) (int n) mem = Some (Some (int p), moved n p q mem)) \<and>
    (p = Suc q \<longrightarrow> memcpy1 (Some (int p)) (Some (int q)) (int n) mem = memSet (Some (int p)) (int (of_char (mem ! q))) n mem) \<and>
    (k < 0 \<longrightarrow> memcpy1 (Some (int p)) (Some (int q)) k mem = None) \<and>
    memcpy1 None src k mem = Some (None, mem) \<and> memcpy1 (Some (int p)) None k mem = Some (None, mem) \<and>
    my_memcpy None src n mem = None \<and> my_memcpy (Some (int p)) None n mem = None"
proof (intro conjI impI)
  show "my_memcpy (Some (int p)) (Some (int q)) n mem = Some (Some (int p), moved n p q mem)"
    using copy_up_ok [OF assms(1,2)] copy_down_ok [OF assms(1,2)] by (auto simp: my_memcpy_def)
  show "memcpy1 (Some (int p)) (Some (int q)) (int n) mem = Some (Some (int p), moved n p q mem)" if "p \<le> q \<or> q + n \<le> p"
    using copy_up_ok [OF assms(1,2) that] by (simp add: memcpy1_def copy_int_nat [OF assms(3)])
  show "memcpy1 (Some (int p)) (Some (int q)) (int n) mem = memSet (Some (int p)) (int (of_char (mem ! q))) n mem" if "p = Suc q"
    using copy_up_smear [of q n mem] assms(1) that by (simp add: memcpy1_def copy_int_nat [OF assms(3)] memSet_char)
qed (auto simp: memcpy1_def my_memcpy_def copy_int_negative split: option.splits)

theorem memcpy_moves_witness:
  "my_memcpy (Some 1) (Some 0) 3 ''abcde'' = Some (Some 1, ''aabce'') \<and>
   memcpy1 (Some 1) (Some 0) 3 ''abcde'' = Some (Some 1, ''aaaae'')"
proof -
  have "char_of (97 :: nat) = CHR ''a''" using char_of_char [of "CHR ''a''"] by (simp del: char_of_char)
  thus ?thesis using memcpy_moves [of 1 3 "''abcde''" 0]
    by (simp add: in_int_def moved_def memSet_def iset_def numeral_3_eq_3)
qed

section \<open>Copying and comparing strings\<close>

lemma strcpy_loop_ok:
  "d + length u < length mem \<Longrightarrow> s + length u < length mem \<Longrightarrow> take (Suc (length u)) (drop s mem) = u @ [NUL] \<Longrightarrow>
    NUL \<notin> set u \<Longrightarrow> d \<le> s \<or> s + length u < d \<Longrightarrow>
    strcpy_loop (int d) (int s) mem = copy_up (Suc (length u)) (int d) (int s) mem"
proof (induction u arbitrary: d s mem)
  case Nil
  have "mem ! s = take (Suc 0) (drop s mem) ! 0" using Nil.prems(2) by simp
  also have "take (Suc 0) (drop s mem) = [NUL]" using Nil.prems(3) by simp
  finally have "mem ! s = NUL" by simp
  thus ?case using Nil by (subst strcpy_loop.simps) (simp add: vec_simps)
next
  case (Cons c u)
  have at: "mem ! s = c" "take (Suc (length u)) (drop (Suc s) mem) = u @ [NUL]" "c \<noteq> NUL"
    using Cons.prems by (auto simp: Cons_nth_drop_Suc [symmetric])
  have "take (Suc (length u)) (drop (Suc s) (mem[d := c])) = u @ [NUL]"
    using Cons.prems at(2) by (auto simp: drop_update_swap take_update_cancel)
  hence "strcpy_loop (int (Suc d)) (int (Suc s)) (mem[d := c]) = copy_up (Suc (length u)) (int (Suc d)) (int (Suc s)) (mem[d := c])"
    using Cons.prems by (intro Cons.IH) auto
  thus ?case using Cons.prems at by (subst strcpy_loop.simps) (simp add: vec_simps add.commute)
qed

lemma schar_ascii: "of_char c < (128 :: nat) \<Longrightarrow> schar c = int (of_char c)"
  by (simp add: schar_def)

lemma schar_NUL [simp]: "schar NUL = 0"
  by (simp add: schar_def)

lemma of_char_pos: "c \<noteq> NUL \<Longrightarrow> 0 < (of_char c :: nat)"
proof (rule gr0I)
  assume c: "c \<noteq> NUL" "(of_char c :: nat) = 0"
  have "char_of (0 :: nat) = NUL" by (simp add: char_of_def)
  moreover have "char_of (of_char c :: nat) = c" by simp
  ultimately show False using c by simp
qed

definition ascii :: "string \<Rightarrow> bool" where
  "ascii s \<longleftrightarrow> (\<forall>c \<in> set s. c \<noteq> NUL \<and> (of_char c :: nat) < 128)"

definition codes :: "string \<Rightarrow> nat list" where
  "codes s = map of_char s"

lemma ascii_Cons: "ascii (c # s) \<Longrightarrow> 0 < schar c \<and> c \<noteq> NUL \<and> schar c = int (of_char c) \<and> ascii s"
  using of_char_pos [of c] schar_ascii [of c] by (simp add: ascii_def)

lemma cmp_loop_ok:
  "ascii s \<Longrightarrow> ascii t \<Longrightarrow> cmp_loop (s @ [NUL]) (t @ [NUL]) =
    Some (if s = t then 0 else if ord_class.lexordp (codes s) (codes t) then -1 else 1)"
proof (induction s arbitrary: t)
  case Nil
  show ?case
  proof (cases t)
    case (Cons b u)
    thus ?thesis using ascii_Cons [of b u] Nil.prems by (simp add: codes_def)
  qed (simp add: codes_def)
next
  case (Cons a s)
  note a = ascii_Cons [OF Cons.prems(1)]
  show ?case
  proof (cases t)
    case Nil
    thus ?thesis using a by (simp add: codes_def)
  next
    case t: (Cons b u)
    note b = ascii_Cons [OF Cons.prems(2) [unfolded t]]
    show ?thesis
    proof (cases "a = b")
      case True
      thus ?thesis using a b Cons.IH [of u] t by (simp add: codes_def)
    next
      case False
      hence "(of_char a :: nat) \<noteq> of_char b" by simp
      thus ?thesis using False a b t by (auto simp: codes_def)
    qed
  qed
qed

text \<open>
  \<^verbatim>\<open>strcpy2\<close> copies a string with its terminator, provided the target is big enough and does not begin
  inside the source; for equal pointers it does nothing. On strings of 7-bit characters
  \<^verbatim>\<open>my_string\<close> is the lexicographic order of the codes, and \<^verbatim>\<open>my_strcmp\<close> is the same
  function except that its assertion also rejects empty strings.
\<close>

theorem c_strings:
  assumes "ascii s" "ascii t" "a + length s < length mem" "take (Suc (length s)) (drop a mem) = s @ [NUL]"
    "d + length s < length mem" "d < a \<or> a + length s < d"
  shows "strcpy2 (Some (int d)) (Some (int a)) mem = Some (Some (int d), take d mem @ s @ [NUL] @ drop (d + length s + 1) mem) \<and>
    strcpy2 (Some (int a)) (Some (int a)) mem = Some (Some (int a), mem) \<and>
    my_string (Some (s @ [NUL])) (Some (t @ [NUL])) =
      Some (if s = t then 0 else if ord_class.lexordp (codes s) (codes t) then -1 else 1) \<and>
    my_strcmp (s @ [NUL]) (t @ [NUL]) =
      (if s = [] \<or> t = [] then None else my_string (Some (s @ [NUL])) (Some (t @ [NUL])))"
proof (intro conjI)
  have "NUL \<notin> set s" using assms(1) by (auto simp: ascii_def)
  hence "strcpy_loop (int d) (int a) mem = copy_up (Suc (length s)) (int d) (int a) mem"
    using assms(3-6) by (intro strcpy_loop_ok) auto
  also have "\<dots> = Some (moved (Suc (length s)) d a mem)" using assms(3,5,6) by (intro copy_up_ok) auto
  finally show "strcpy2 (Some (int d)) (Some (int a)) mem = Some (Some (int d), take d mem @ s @ [NUL] @ drop (d + length s + 1) mem)"
    using assms(4,6) by (auto simp: strcpy2_def moved_def)
  show "my_strcmp (s @ [NUL]) (t @ [NUL]) = (if s = [] \<or> t = [] then None else my_string (Some (s @ [NUL])) (Some (t @ [NUL])))"
    using assms(1,2) by (cases s; cases t) (auto simp: my_strcmp_def my_string_def vget_def ascii_def)
qed (use cmp_loop_ok [OF assms(1,2)] in \<open>simp_all add: strcpy2_def my_string_def\<close>)

theorem c_strings_witness:
  "strcpy2 (Some 3) (Some 0) (''ab'' @ [NUL] @ ''xyzw'') = Some (Some 3, ''ab'' @ [NUL] @ ''ab'' @ [NUL] @ ''w'')"
  using c_strings [of "''ab''" "''ab''" 0 "''ab'' @ [NUL] @ ''xyzw''" 3]
  by (simp add: ascii_def numeral_eq_Suc)

end
