(* ===== verification/Atoi.thy ===== *)
theory Atoi
  imports CMem RaceNumbers
begin

text \<open>
  The two conversions of a string to an \<^verbatim>\<open>int\<close>: \<^verbatim>\<open>_atoi\<close> of
  \<^verbatim>\<open>cpp/base/atoi.cpp\<close>, which computes with \<^verbatim>\<open>int\<close>, and \<^verbatim>\<open>strToInt\<close> of
  the exercise on strings, which computes with \<^verbatim>\<open>long long\<close> and clamps the result.
\<close>

section \<open>The programs\<close>

definition sget :: "string \<Rightarrow> int \<Rightarrow> char ub" where
  "sget s i = iget (s @ [NUL]) i"

definition is_digit :: "char \<Rightarrow> bool" where
  "is_digit c \<longleftrightarrow> schar c \<ge> 48 \<and> schar c \<le> 57"

fun skip_spaces :: "char list \<Rightarrow> char list ub" where
  "skip_spaces (c # s) = (if c = CHR '' '' then skip_spaces s else Some (c # s))"
| "skip_spaces [] = None"

text \<open>The digit loop of \<^verbatim>\<open>_atoi\<close>; a negative \<^verbatim>\<open>res\<close> is replaced by the largest number.\<close>

fun atoi_digits :: "int \<Rightarrow> char list \<Rightarrow> int ub" where
  "atoi_digits res (c # s) =
     (if is_digit c
      then do {
        r \<leftarrow> as_int (res * 10);
        r \<leftarrow> as_int (r + schar c);
        r \<leftarrow> as_int (r - 48);
        if r < 0 then Some 2147483647 else atoi_digits r s
      }
      else Some res)"
| "atoi_digits res [] = None"

definition atoi :: "char list \<Rightarrow> int ub" where
  "atoi str = do {
     str \<leftarrow> skip_spaces str;
     c \<leftarrow> vget str 0;
     let falg = (if c = CHR ''-'' then -1 else 1);
     res \<leftarrow> atoi_digits 0 (if c = CHR ''-'' \<or> c = CHR ''+'' then drop 1 str else str);
     as_int (res * falg)
   }"

partial_function (option) space_loop :: "string \<Rightarrow> int \<Rightarrow> int ub" where
  "space_loop str i = do {
     c \<leftarrow> sget str i;
     if c = CHR '' '' then do { i \<leftarrow> as_int (i + 1); space_loop str i } else Some i
   }"

function digit_loop :: "string \<Rightarrow> int \<Rightarrow> int \<Rightarrow> int \<Rightarrow> int ub" where
  "digit_loop str flag i res =
     (if i < int (length str)
      then do {
        c \<leftarrow> sget str i;
        if is_digit c
        then do {
          r \<leftarrow> as_ll (res * 10);
          r \<leftarrow> as_ll (r + (schar c - 48));
          v \<leftarrow> as_ll (r * flag);
          if v > INT_MAX then Some INT_MAX
          else if v < INT_MIN then Some INT_MIN
          else do { i \<leftarrow> as_int (i + 1); digit_loop str flag i r }
        }
        else do { v \<leftarrow> as_ll (res * flag); Some v }
      }
      else do { v \<leftarrow> as_ll (res * flag); Some v })"
  by pat_completeness auto
termination
  by (relation "measure (\<lambda>(str, flag, i, res). nat (int (length str) - i))") (auto simp: as_int_def split: if_splits)

declare digit_loop.simps [simp del]

definition strToInt :: "string \<Rightarrow> int ub" where
  "strToInt str =
     (if length str = 0 then Some 0
      else do {
        i \<leftarrow> space_loop str 0;
        c \<leftarrow> sget str i;
        let flag = (if c = CHR ''-'' then -1 else 1);
        i \<leftarrow> (if c = CHR ''+'' \<or> c = CHR ''-'' then as_int (i + 1) else Some i);
        digit_loop str flag i 0
      })"

section \<open>The reference\<close>

definition digits_value :: "int \<Rightarrow> string \<Rightarrow> int" where
  "digits_value r ds = foldl (\<lambda>r c. r * 10 + (schar c - 48)) r ds"

definition sign_of :: "string \<Rightarrow> int" where
  "sign_of s = (case dropWhile (\<lambda>c. c = CHR '' '') s of c # _ \<Rightarrow> if c = CHR ''-'' then -1 else 1 | [] \<Rightarrow> 1)"

definition number_part :: "string \<Rightarrow> string" where
  "number_part s = takeWhile is_digit
     (case dropWhile (\<lambda>c. c = CHR '' '') s of c # t \<Rightarrow> if c = CHR ''-'' \<or> c = CHR ''+'' then t else c # t | [] \<Rightarrow> [])"

definition magnitude :: "string \<Rightarrow> int" where
  "magnitude s = digits_value 0 (number_part s)"

definition clamp :: "int \<Rightarrow> int" where
  "clamp v = (if v > INT_MAX then INT_MAX else if v < INT_MIN then INT_MIN else v)"

lemma is_digit_NUL [simp]: "\<not> is_digit NUL"
  by (simp add: is_digit_def)

lemma digits_value_Cons [simp]: "digits_value r (c # ds) = digits_value (r * 10 + (schar c - 48)) ds"
  by (simp add: digits_value_def)

lemma digits_value_Nil [simp]: "digits_value r [] = r"
  by (simp add: digits_value_def)

lemma digits_value_mono: "\<forall>c \<in> set ds. is_digit c \<Longrightarrow> 0 \<le> r \<Longrightarrow> r \<le> digits_value r ds"
proof (induction ds arbitrary: r)
  case (Cons c ds)
  let ?r = "r * 10 + (schar c - 48)"
  have "r \<le> ?r" "0 \<le> ?r" using Cons.prems by (auto simp: is_digit_def)
  thus ?case using Cons.IH [of ?r] Cons.prems(1) by simp
qed simp

lemma skip_spaces_ok: "skip_spaces (s @ [NUL]) = Some (dropWhile (\<lambda>c. c = CHR '' '') s @ [NUL])"
  by (induction s) auto

lemma atoi_digits_ok:
  "0 \<le> r \<Longrightarrow> r \<le> INT_MAX - 48 \<Longrightarrow> atoi_digits r (s @ [NUL]) =
    (if digits_value r (takeWhile is_digit s) \<le> INT_MAX - 48 then Some (digits_value r (takeWhile is_digit s)) else None)"
proof (induction s arbitrary: r)
  case (Cons c s)
  let ?r = "r * 10 + (schar c - 48)"
  show ?case
  proof (cases "is_digit c")
    case True
    hence c: "48 \<le> schar c" "schar c \<le> 57" by (auto simp: is_digit_def)
    show ?thesis
    proof (cases "?r \<le> INT_MAX - 48")
      case True
      thus ?thesis using Cons.IH [of ?r] Cons.prems c \<open>is_digit c\<close> by (simp add: in_int_def algebra_simps)
    next
      case False
      hence "atoi_digits r ((c # s) @ [NUL]) = None"
        using Cons.prems c \<open>is_digit c\<close> by (simp add: as_int_def in_int_def)
      moreover have "?r \<le> digits_value ?r (takeWhile is_digit s)"
        using False by (intro digits_value_mono) (auto dest: set_takeWhileD)
      ultimately show ?thesis using False \<open>is_digit c\<close> by simp
    qed
  qed (use Cons.prems in simp)
qed simp

lemma digit_loop_ok:
  "0 \<le> r \<Longrightarrow> r \<le> INT_MAX + 1 \<Longrightarrow> in_int (r * flag) \<Longrightarrow> flag = 1 \<or> flag = -1 \<Longrightarrow> i \<le> length str \<Longrightarrow> in_int (int (length str)) \<Longrightarrow>
    digit_loop str flag (int i) r = Some (clamp (flag * digits_value r (takeWhile is_digit (drop i str))))"
proof (induction "length str - i" arbitrary: i r)
  case 0
  thus ?case by (subst digit_loop.simps) (auto simp: clamp_def in_int_def as_ll_def in_ll_def mult.commute)
next
  case (Suc d)
  hence i: "i < length str" by simp
  let ?c = "str ! i" let ?r = "r * 10 + (schar ?c - 48)"
  have get: "sget str (int i) = Some ?c" using i by (simp add: sget_def iget_def nth_append)
  have drop: "drop i str = ?c # drop (Suc i) str" using i by (simp add: Cons_nth_drop_Suc)
  note step = digit_loop.simps [of str flag "int i" r] get drop
  show ?case
  proof (cases "is_digit ?c")
    case False
    thus ?thesis using i Suc.prems by (auto simp: step clamp_def in_int_def as_ll_def in_ll_def mult.commute)
  next
    case True
    hence c: "48 \<le> schar ?c" "schar ?c \<le> 57" by (auto simp: is_digit_def)
    have ll: "as_ll (r * 10) = Some (r * 10)" "as_ll ?r = Some ?r" "as_ll (?r * flag) = Some (?r * flag)"
      using c Suc.prems by (auto simp: as_ll_def in_ll_def)
    have ge: "?r \<le> digits_value ?r (takeWhile is_digit (drop (Suc i) str))"
      using c Suc.prems(1) by (intro digits_value_mono) (auto dest: set_takeWhileD)
    show ?thesis
    proof (cases "in_int (?r * flag)")
      case False
      thus ?thesis using True ge c Suc.prems i ll by (auto simp: step clamp_def in_int_def)
    next
      case fits: True
      have "digit_loop str flag (int (Suc i)) ?r = Some (clamp (flag * digits_value ?r (takeWhile is_digit (drop (Suc i) str))))"
        using Suc.hyps(1) [of "Suc i" ?r] Suc.hyps(2) c fits Suc.prems i by (auto simp: in_int_def)
      moreover have "digit_loop str flag (int i) r = digit_loop str flag (int (Suc i)) ?r"
        using True fits ll i Suc.prems(6) by (simp add: step in_int_def add.commute)
      ultimately show ?thesis using True by (simp add: drop)
    qed
  qed
qed

lemma space_loop_ok:
  "i \<le> length s \<Longrightarrow> in_int (int (length s)) \<Longrightarrow>
    space_loop s (int i) = Some (int (i + length (takeWhile (\<lambda>c. c = CHR '' '') (drop i s))))"
proof (induction "length s - i" arbitrary: i)
  case 0
  hence "i = length s" by simp
  thus ?case by (subst space_loop.simps) (simp add: sget_def iget_def)
next
  case (Suc d)
  hence i: "i < length s" by simp
  hence get: "sget s (int i) = Some (s ! i)" "drop i s = s ! i # drop (Suc i) s" "in_int (int i + 1)"
    using Suc.prems(2) by (simp_all add: sget_def iget_def nth_append Cons_nth_drop_Suc in_int_def)
  show ?case
  proof (cases "s ! i = CHR '' ''")
    case True
    thus ?thesis using Suc.hyps(1) [of "Suc i"] Suc.hyps(2) Suc.prems i get by (subst space_loop.simps) (simp add: add.commute)
  next
    case False
    thus ?thesis using get by (subst space_loop.simps) simp
  qed
qed

lemma magnitude_nonneg: "0 \<le> magnitude s"
  unfolding magnitude_def number_part_def by (intro digits_value_mono) (auto dest: set_takeWhileD)

lemma strToInt_ok:
  assumes "in_int (int (length s))" shows "strToInt s = Some (clamp (sign_of s * magnitude s))"
proof (cases "s = []")
  case True
  thus ?thesis by (simp add: strToInt_def magnitude_def number_part_def clamp_def)
next
  case False
  let ?sp = "\<lambda>c. c = CHR '' ''"
  define i where "i = length (takeWhile ?sp s)"
  have i: "i \<le> length s" "drop i s = dropWhile ?sp s" by (simp_all add: i_def length_takeWhile_le dropWhile_eq_drop)
  have spaces: "space_loop s 0 = Some (int i)" using space_loop_ok [of 0 s] assms by (simp add: i_def)
  note digits = digit_loop_ok [of 0 "sign_of s", OF _ _ _ _ _ assms]
  show ?thesis
  proof (cases "dropWhile ?sp s")
    case Nil
    hence "drop i s = []" by (simp only: i(2))
    hence "i = length s" using i(1) by simp
    moreover have "sget s (int (length s)) = Some NUL" by (simp add: sget_def iget_def)
    moreover have "sign_of s = 1" "number_part s = []" unfolding sign_of_def number_part_def Nil by simp_all
    ultimately show ?thesis using False spaces digits [of i]
      by (simp add: strToInt_def magnitude_def in_int_def)
  next
    case (Cons c t)
    have drop: "drop i s = c # t" by (simp only: i(2) Cons)
    have "i < length s" using drop by (metis drop_all list.distinct(1) not_le)
    moreover have "s ! i = c" using drop by (rule nth_via_drop)
    moreover have "drop (Suc i) s = t" using drop by (metis drop_Suc drop_tl list.sel(3))
    ultimately have lt: "i < length s" "s ! i = c" "drop (Suc i) s = t" "drop i s = c # t" using drop by simp_all
    hence get: "sget s (int i) = Some c" "in_int (int i + 1)" using assms by (simp_all add: sget_def iget_def nth_append in_int_def)
    have sign: "sign_of s = (if c = CHR ''-'' then -1 else 1)" using Cons by (simp add: sign_of_def)
    show ?thesis
      using False spaces get digits [of "Suc i"] digits [of i] lt Cons
      by (auto simp: strToInt_def magnitude_def number_part_def sign in_int_def add.commute)
  qed
qed

lemma atoi_ok: "atoi (s @ [NUL]) = (if magnitude s \<le> INT_MAX - 48 then Some (sign_of s * magnitude s) else None)"
proof -
  define d where "d = dropWhile (\<lambda>c. c = CHR '' '') s"
  note defs = magnitude_def number_part_def sign_of_def d_def [symmetric]
  have skip: "skip_spaces (s @ [NUL]) = Some (d @ [NUL])" by (simp add: skip_spaces_ok d_def)
  have int: "in_int v \<and> in_int (- v)" if "0 \<le> v" "v \<le> INT_MAX - 48" for v using that by (simp add: in_int_def)
  show ?thesis
  proof (cases d)
    case Nil
    thus ?thesis by (simp add: atoi_def skip vget_def defs in_int_def)
  next
    case (Cons c t)
    have "atoi_digits 0 ((if c = CHR ''-'' \<or> c = CHR ''+'' then t else c # t) @ [NUL]) =
        (if magnitude s \<le> INT_MAX - 48 then Some (magnitude s) else None)"
      using Cons by (subst atoi_digits_ok) (simp_all add: defs)
    thus ?thesis using Cons int [OF magnitude_nonneg [of s]]
      by (auto simp: atoi_def skip vget_def sign_of_def d_def [symmetric] simp del: atoi_digits.simps)
  qed
qed

text \<open>
  Both conversions read spaces, an optional sign and the digits that follow. \<^verbatim>\<open>strToInt\<close> returns the
  number clamped to the range of \<^verbatim>\<open>int\<close>, without overflow for any string. \<^verbatim>\<open>_atoi\<close> returns the number
  if it is at most \<open>INT_MAX - 48\<close> in magnitude, and overflows for every larger one: the
  replacement of negative intermediate results never happens.
\<close>

theorem string_to_int:
  assumes "in_int (int (length s))"
  shows "strToInt s = Some (clamp (sign_of s * magnitude s)) \<and>
    atoi (s @ [NUL]) = (if magnitude s \<le> INT_MAX - 48 then strToInt s else None)"
  using strToInt_ok [OF assms] atoi_ok [of s] magnitude_nonneg [of s]
  by (auto simp: clamp_def sign_of_def split: list.splits)

theorem string_to_int_witness: "strToInt ''  -42abc'' = Some (-42) \<and> atoi (''  -42abc'' @ [NUL]) = Some (-42)"
  using string_to_int [of "''  -42abc''"]
  by (simp add: in_int_def clamp_def sign_of_def magnitude_def number_part_def is_digit_def schar_def)

section \<open>Printing and parsing\<close>

fun show_nat :: "nat \<Rightarrow> string" where
  "show_nat n = (if n < 10 then [] else show_nat (n div 10)) @ [char_of (48 + n mod 10)]"

declare show_nat.simps [simp del]

definition show_int :: "int \<Rightarrow> string" where
  "show_int n = (if n < 0 then ''-'' else []) @ show_nat (nat \<bar>n\<bar>)"

lemma schar_digit: "d < 10 \<Longrightarrow> schar (char_of (48 + d)) = int (48 + d)"
  by (simp add: schar_def)

lemma digits_value_append: "digits_value r (a @ b) = digits_value (digits_value r a) b"
  by (simp add: digits_value_def)

lemma show_nat_digits: "\<forall>c \<in> set (show_nat n). is_digit c"
proof (induction n rule: show_nat.induct)
  case (1 n)
  thus ?case using schar_digit [of "n mod 10"] by (subst show_nat.simps) (auto simp: is_digit_def)
qed

lemma show_nat_value: "digits_value 0 (show_nat n) = int n"
proof (induction n rule: show_nat.induct)
  case (1 n)
  show ?case
  proof (cases "n < 10")
    case True
    thus ?thesis using schar_digit [of n] by (subst show_nat.simps) simp
  next
    case False
    have "int (n div 10) * 10 + int (n mod 10) = int n" by (metis div_mult_mod_eq of_nat_add of_nat_mult of_nat_numeral)
    thus ?thesis using 1 False schar_digit [of "n mod 10"] by (subst show_nat.simps) (simp add: digits_value_append)
  qed
qed

lemma show_int_parse:
  assumes "in_int n" shows "sign_of (show_int n) * magnitude (show_int n) = n" "magnitude (show_int n) = \<bar>n\<bar>"
proof -
  have digit: "\<not> is_digit CHR '' ''" "\<not> is_digit CHR ''-''" "\<not> is_digit CHR ''+''" by (simp_all add: is_digit_def schar_def)
  have "show_nat (nat \<bar>n\<bar>) \<noteq> []" by (subst show_nat.simps) simp
  then obtain c t where ct: "show_nat (nat \<bar>n\<bar>) = c # t" by (cases "show_nat (nat \<bar>n\<bar>)") auto
  have "\<forall>x \<in> set (c # t). is_digit x" using show_nat_digits [of "nat \<bar>n\<bar>"] by (simp add: ct)
  hence part: "number_part (show_int n) = c # t" and sign: "sign_of (show_int n) = (if n < 0 then -1 else 1)"
    using digit by (auto simp: number_part_def sign_of_def show_int_def ct takeWhile_eq_all_conv split: if_splits)
  show "magnitude (show_int n) = \<bar>n\<bar>" using show_nat_value [of "nat \<bar>n\<bar>"] by (simp add: magnitude_def part ct)
  thus "sign_of (show_int n) * magnitude (show_int n) = n" by (simp add: sign)
qed

text \<open>
  Every number of type \<^verbatim>\<open>int\<close> that is printed in decimal is read back by \<^verbatim>\<open>strToInt\<close>; \<^verbatim>\<open>_atoi\<close>
  reads back exactly those of magnitude at most \<open>INT_MAX - 48\<close>.
\<close>

theorem int_roundtrip:
  assumes "in_int n" "in_int (int (length (show_int n)))"
  shows "strToInt (show_int n) = Some n \<and> atoi (show_int n @ [NUL]) = (if \<bar>n\<bar> \<le> INT_MAX - 48 then Some n else None)"
  using strToInt_ok [OF assms(2)] atoi_ok [of "show_int n"] show_int_parse [OF assms(1)] assms(1)
  by (auto simp: clamp_def in_int_def)

theorem int_roundtrip_witness: "strToInt (show_int (-305)) = Some (-305) \<and> atoi (show_int (-305) @ [NUL]) = Some (-305)"
  using int_roundtrip [of "-305"] by (simp add: in_int_def show_int_def show_nat.simps)

end
