(* ===== verification/Philosophers.thy ===== *)
theory Philosophers
  imports Cpp_Prelude
begin

text \<open>
  Two programs in which five philosophers share five chopsticks, \<^verbatim>\<open>cpp/thread/eat_think.cpp\<close>
  and \<^verbatim>\<open>cpp/thread/four_philosopher.cpp\<close>. A chopstick is a mutex with its owner; a step is one call
  on a mutex or one access to the counter. A thread that would wait is \<open>Blocked\<close>; unlocking a mutex
  that the thread does not own is \<open>Undefined\<close>.
\<close>

datatype 'a outcome = Blocked | Undefined | Next 'a

section \<open>eat\_think\<close>

datatype eater = LockLeft | TryRight | PutBack | Eat | UnlockLeft | UnlockRight

record table =
  owner :: "nat \<Rightarrow> nat option"
  eater_at :: "nat \<Rightarrow> eater"

text \<open>The \<^verbatim>\<open>switch\<close>: philosophers A to E are 0 to 4.\<close>

definition left :: "nat \<Rightarrow> nat" where
  "left phi = (if phi = 0 then 5 else phi)"

definition right :: "nat \<Rightarrow> nat" where
  "right phi = phi + 1"

definition unlock :: "nat \<Rightarrow> nat \<Rightarrow> eater \<Rightarrow> table \<Rightarrow> table outcome" where
  "unlock c phi next_at t =
     (if owner t c = Some phi then Next (t\<lparr>owner := (owner t)(c := None), eater_at := (eater_at t)(phi := next_at)\<rparr>) else Undefined)"

definition eat_think :: "nat \<Rightarrow> table \<Rightarrow> table outcome" where
  "eat_think phi t =
     (case eater_at t phi of
       LockLeft \<Rightarrow>
         if owner t (left phi) = None
         then Next (t\<lparr>owner := (owner t)(left phi \<mapsto> phi), eater_at := (eater_at t)(phi := TryRight)\<rparr>)
         else Blocked
     | TryRight \<Rightarrow>
         if owner t (right phi) = None
         then Next (t\<lparr>owner := (owner t)(right phi \<mapsto> phi), eater_at := (eater_at t)(phi := Eat)\<rparr>)
         else Next (t\<lparr>eater_at := (eater_at t)(phi := PutBack)\<rparr>)
     | PutBack \<Rightarrow> unlock (left phi) phi LockLeft t
     | Eat \<Rightarrow> Next (t\<lparr>eater_at := (eater_at t)(phi := UnlockLeft)\<rparr>)
     | UnlockLeft \<Rightarrow> unlock (left phi) phi UnlockRight t
     | UnlockRight \<Rightarrow> unlock (right phi) phi LockLeft t)"

definition table_start :: table where
  "table_start = \<lparr>owner = (\<lambda>_. None), eater_at = (\<lambda>_. LockLeft)\<rparr>"

text \<open>A schedule names the threads that take the next steps; the run lists the states it passes.\<close>

fun eat_run :: "nat list \<Rightarrow> table \<Rightarrow> table list option" where
  "eat_run [] t = Some [t]"
| "eat_run (phi # ps) t =
     (case eat_think phi t of Next u \<Rightarrow> map_option ((#) t) (eat_run ps u) | _ \<Rightarrow> None)"

definition philosophers :: "nat list \<Rightarrow> bool" where
  "philosophers ps \<longleftrightarrow> (\<forall>phi \<in> set ps. phi < 5)"

section \<open>four\_philosopher\<close>

datatype diner = Test | TakeFirst | Increment | TakeSecond | Dine | LayFirst | LaySecond | Decrement | Left

record room =
  held_by :: "nat \<Rightarrow> nat option"
  diner_at :: "nat \<Rightarrow> diner"
  count :: int

definition lay :: "nat \<Rightarrow> nat \<Rightarrow> diner \<Rightarrow> room \<Rightarrow> room outcome" where
  "lay c i next_at r =
     (if held_by r c = Some i then Next (r\<lparr>held_by := (held_by r)(c := None), diner_at := (diner_at r)(i := next_at)\<rparr>) else Undefined)"

definition take_chop :: "nat \<Rightarrow> nat \<Rightarrow> diner \<Rightarrow> room \<Rightarrow> room outcome" where
  "take_chop c i next_at r =
     (if held_by r c = None then Next (r\<lparr>held_by := (held_by r)(c \<mapsto> i), diner_at := (diner_at r)(i := next_at)\<rparr>) else Blocked)"

text \<open>\<^verbatim>\<open>getChop\<close>, the output of \<^verbatim>\<open>philosophe\<close> and \<^verbatim>\<open>layChop\<close>; when the count is 4 the loop is not entered.\<close>

definition philosophe :: "nat \<Rightarrow> room \<Rightarrow> room outcome" where
  "philosophe i r =
     (case diner_at r i of
       Test \<Rightarrow> Next (r\<lparr>diner_at := (diner_at r)(i := if count r < 4 then TakeFirst else Dine)\<rparr>)
     | TakeFirst \<Rightarrow> take_chop (i - 1) i Increment r
     | Increment \<Rightarrow> Next (r\<lparr>diner_at := (diner_at r)(i := TakeSecond), count := count r + 1\<rparr>)
     | TakeSecond \<Rightarrow> take_chop (i mod 5) i Dine r
     | Dine \<Rightarrow> Next (r\<lparr>diner_at := (diner_at r)(i := LayFirst)\<rparr>)
     | LayFirst \<Rightarrow> lay (i - 1) i LaySecond r
     | LaySecond \<Rightarrow> lay (i mod 5) i Decrement r
     | Decrement \<Rightarrow> Next (r\<lparr>diner_at := (diner_at r)(i := Left), count := count r - 1\<rparr>)
     | Left \<Rightarrow> Blocked)"

definition room_start :: room where
  "room_start = \<lparr>held_by = (\<lambda>_. None), diner_at = (\<lambda>_. Test), count = 0\<rparr>"

fun dine_run :: "nat list \<Rightarrow> room \<Rightarrow> room outcome" where
  "dine_run [] r = Next r"
| "dine_run (i # is) r = (case philosophe i r of Next s \<Rightarrow> dine_run is s | x \<Rightarrow> x)"

section \<open>Who holds which chopstick\<close>

fun holds :: "eater \<Rightarrow> nat \<Rightarrow> nat set" where
  "holds LockLeft phi = {}"
| "holds TryRight phi = {left phi}"
| "holds PutBack phi = {left phi}"
| "holds Eat phi = {left phi, right phi}"
| "holds UnlockLeft phi = {left phi, right phi}"
| "holds UnlockRight phi = {right phi}"

definition table_inv :: "table \<Rightarrow> bool" where
  "table_inv t \<longleftrightarrow> (\<forall>c phi. owner t c = Some phi \<longleftrightarrow> phi < 5 \<and> c \<in> holds (eater_at t phi) phi)"

lemma left_right [simp]: "phi < 5 \<Longrightarrow> left phi \<noteq> right phi" "phi < 5 \<Longrightarrow> right phi \<noteq> left phi"
  by (auto simp: left_def right_def)

lemma table_inv_start: "table_inv table_start"
  by (simp add: table_inv_def table_start_def)

text \<open>Each step by its effect on the chopsticks that one philosopher holds.\<close>

lemma table_inv_move:
  assumes "table_inv t" "phi < 5" "eater_at u = (eater_at t)(phi := x)"
    "\<And>c. owner u c = (if c \<in> holds x phi then Some phi else if c \<in> holds (eater_at t phi) phi then None else owner t c)"
    "\<And>c. c \<in> holds x phi \<Longrightarrow> c \<notin> holds (eater_at t phi) phi \<Longrightarrow> owner t c = None"
  shows "table_inv u"
  unfolding table_inv_def
proof (intro allI)
  fix c psi
  have t: "owner t c = Some psi \<longleftrightarrow> psi < 5 \<and> c \<in> holds (eater_at t psi) psi" for c psi using assms(1) by (simp add: table_inv_def)
  show "owner u c = Some psi \<longleftrightarrow> psi < 5 \<and> c \<in> holds (eater_at u psi) psi"
    using t [of c psi] t [of c phi] assms(2) assms(5) [of c] by (auto simp: assms(3,4))
qed

lemma eat_think_inv:
  assumes "table_inv t" "phi < 5" "eat_think phi t = Next u"
  shows "table_inv u \<and> (\<exists>x. eater_at u = (eater_at t)(phi := x))"
proof -
  have held: "owner t c = Some phi" if "c \<in> holds (eater_at t phi) phi" for c using assms(1,2) that by (simp add: table_inv_def)
  show ?thesis using assms(3) assms(2)
    by (auto simp: eat_think_def unlock_def held split: eater.splits if_splits intro!: table_inv_move [OF assms(1,2)])
qed

text \<open>A step is blocked only at the left chopstick, and never undefined.\<close>

lemma eat_think_next:
  assumes "table_inv t" "phi < 5"
  shows "eat_think phi t \<noteq> Undefined \<and> (eater_at t phi \<noteq> LockLeft \<longrightarrow> eat_think phi t \<noteq> Blocked)"
proof -
  have "owner t c = Some phi" if "c \<in> holds (eater_at t phi) phi" for c using assms that by (simp add: table_inv_def)
  thus ?thesis by (auto simp: eat_think_def unlock_def split: eater.splits)
qed

lemma eat_run_inv: "eat_run ps t = Some ts \<Longrightarrow> table_inv t \<Longrightarrow> philosophers ps \<Longrightarrow> \<forall>u \<in> set ts. table_inv u"
proof (induction ps arbitrary: t ts)
  case (Cons phi ps)
  thus ?case using eat_think_inv [of t phi] by (fastforce simp: philosophers_def split: outcome.splits)
qed simp

section \<open>Runs\<close>

definition leads :: "nat list \<Rightarrow> table \<Rightarrow> table \<Rightarrow> bool" where
  "leads ps t u \<longleftrightarrow> (\<exists>ts. eat_run ps t = Some ts \<and> last ts = u)"

lemma eat_run_not_Nil: "eat_run ps t = Some ts \<Longrightarrow> ts \<noteq> []"
  by (cases ps) (auto split: outcome.splits)

lemma leads_Nil [simp]: "leads [] t u \<longleftrightarrow> u = t"
  by (auto simp: leads_def)

lemma leads_Cons: "leads (phi # ps) t v \<longleftrightarrow> (\<exists>u. eat_think phi t = Next u \<and> leads ps u v)"
  by (auto simp: leads_def eat_run_not_Nil split: outcome.splits)

lemma leads_append: "leads ps t u \<Longrightarrow> leads qs u v \<Longrightarrow> leads (ps @ qs) t v"
  by (induction ps arbitrary: t) (auto simp: leads_Cons)

fun distance :: "eater \<Rightarrow> nat" where
  "distance LockLeft = 0"
| "distance PutBack = 1"
| "distance UnlockRight = 1"
| "distance UnlockLeft = 2"
| "distance Eat = 3"
| "distance TryRight = 4"

text \<open>A philosopher who runs alone comes back to the beginning of the loop, whatever the others hold.\<close>

lemma one_goes_home:
  "table_inv t \<Longrightarrow> phi < 5 \<Longrightarrow> \<exists>ps u. set ps \<subseteq> {phi} \<and> leads ps t u \<and> table_inv u \<and> eater_at u = (eater_at t)(phi := LockLeft)"
proof (induction "distance (eater_at t phi)" arbitrary: t rule: less_induct)
  case less
  show ?case
  proof (cases "eater_at t phi = LockLeft")
    case True
    thus ?thesis using less.prems(1) by (intro exI [of _ "[]"] exI [of _ t]) auto
  next
    case False
    then obtain u where u: "eat_think phi t = Next u" using eat_think_next [OF less.prems] by (cases "eat_think phi t") auto
    then obtain x where x: "table_inv u" "eater_at u = (eater_at t)(phi := x)" using eat_think_inv [OF less.prems] by blast
    have "distance (eater_at u phi) < distance (eater_at t phi)"
      using u False by (auto simp: eat_think_def unlock_def split: eater.splits if_splits)
    then obtain ps v where "set ps \<subseteq> {phi}" "leads ps u v" "table_inv v" "eater_at v = (eater_at u)(phi := LockLeft)"
      using less.hyps x(1) less.prems(2) by blast
    thus ?thesis using u x(2) by (intro exI [of _ "phi # ps"] exI [of _ v]) (auto simp: leads_Cons)
  qed
qed

lemma all_go_home:
  "table_inv t \<Longrightarrow> philosophers who \<Longrightarrow> \<exists>ps u. philosophers ps \<and> leads ps t u \<and> table_inv u \<and> (\<forall>phi \<in> set who. eater_at u phi = LockLeft)"
proof (induction who arbitrary: t)
  case Nil
  thus ?case by (intro exI [of _ "[]"]) (auto simp: philosophers_def)
next
  case (Cons phi who)
  have "philosophers who" using Cons.prems(2) by (simp add: philosophers_def)
  then obtain ps u where u: "philosophers ps" "leads ps t u" "table_inv u" "\<forall>psi \<in> set who. eater_at u psi = LockLeft"
    using Cons.IH [OF Cons.prems(1)] by blast
  have "phi < 5" using Cons.prems(2) by (simp add: philosophers_def)
  then obtain qs v where v: "set qs \<subseteq> {phi}" "leads qs u v" "table_inv v" "eater_at v = (eater_at u)(phi := LockLeft)"
    using one_goes_home [OF u(3)] by blast
  show ?case using u v Cons.prems(2) leads_append [OF u(2) v(2)]
    by (intro exI [of _ "ps @ qs"] exI [of _ v]) (auto simp: philosophers_def)
qed

text \<open>When all chopsticks are on the table, two steps are enough to eat.\<close>

lemma can_eat:
  assumes "table_inv t" "phi < 5"
  shows "\<exists>ps u. philosophers ps \<and> leads ps t u \<and> eater_at u phi = Eat"
proof -
  have five: "philosophers [0..<5]" by (simp add: philosophers_def)
  obtain ps u where u: "philosophers ps" "leads ps t u" "table_inv u" "\<forall>psi \<in> set [0..<5]. eater_at u psi = LockLeft"
    using all_go_home [OF assms(1) five] by blast
  have free: "owner u c = None" for c
  proof (rule ccontr)
    assume "owner u c \<noteq> None"
    then obtain psi where "psi < 5" "c \<in> holds (eater_at u psi) psi" using u(3) by (auto simp: table_inv_def)
    thus False using u(4) by simp
  qed
  have "\<exists>v. leads [phi, phi] u v \<and> eater_at v phi = Eat"
    using free u(4) assms(2) by (simp add: leads_Cons eat_think_def)
  then obtain v where "leads [phi, phi] u v" "eater_at v phi = Eat" by blast
  thus ?thesis using u(1,2) assms(2) leads_append by (intro exI [of _ "ps @ [phi, phi]"] exI [of _ v]) (auto simp: philosophers_def)
qed

section \<open>Guarantees\<close>

text \<open>
  In every run of \<^verbatim>\<open>eat_think\<close> no mutex is unlocked by a thread that does not own it, and philosophers who
  eat at the same time share no chopstick.
\<close>

theorem philosophers_safe:
  assumes "philosophers ps" "eat_run ps table_start = Some ts" "t \<in> set ts"
  shows "\<forall>phi < 5. eat_think phi t \<noteq> Undefined \<and>
    (\<forall>psi < 5. phi \<noteq> psi \<and> eater_at t phi = Eat \<and> eater_at t psi = Eat \<longrightarrow> {left phi, right phi} \<inter> {left psi, right psi} = {})"
proof -
  have inv: "table_inv t" using eat_run_inv [OF assms(2) table_inv_start assms(1)] assms(3) by blast
  have "phi = psi" if "phi < 5" "psi < 5" "eater_at t phi = Eat" "eater_at t psi = Eat" "c \<in> {left phi, right phi}" "c \<in> {left psi, right psi}" for phi psi c
  proof -
    have "owner t c = Some phi" "owner t c = Some psi" using inv that unfolding table_inv_def by simp_all
    thus ?thesis by simp
  qed
  thus ?thesis using eat_think_next [OF inv] by blast
qed

theorem philosophers_safe_witness:
  "\<exists>ts. eat_run [0, 0, 2, 2] table_start = Some ts \<and> (\<forall>phi < 5. eat_think phi (last ts) \<noteq> Undefined)"
proof -
  obtain ts where ts: "eat_run [0, 0, 2, 2] table_start = Some ts" "last ts \<in> set ts"
    by (simp add: eat_think_def table_start_def left_def right_def)
  thus ?thesis using philosophers_safe [OF _ ts] by (auto simp: philosophers_def)
qed

lemma livelock:
  "\<exists>us. eat_run [0, 1, 2, 3, 4, 0, 1, 2, 3, 4, 0, 1, 2, 3, 4] table_start = Some us \<and> last us = table_start \<and>
    (\<forall>u \<in> set us. \<forall>psi. eater_at u psi \<noteq> Eat)"
  by (simp add: eat_think_def table_start_def left_def right_def unlock_def fun_eq_iff)

text \<open>
  C26. \<^verbatim>\<open>eat_think\<close> cannot deadlock: from every state of a run each philosopher can still come to eat. It can
  livelock: there is a cycle of steps in which all take their left chopstick, fail to get the right one and put
  the left one back, so that nobody ever eats.
\<close>

theorem philosophers_progress:
  assumes "philosophers ps" "eat_run ps table_start = Some ts" "phi < 5"
  shows "(\<forall>t \<in> set ts. \<exists>qs u. philosophers qs \<and> leads qs t u \<and> eater_at u phi = Eat) \<and>
    (\<exists>us. eat_run [0, 1, 2, 3, 4, 0, 1, 2, 3, 4, 0, 1, 2, 3, 4] table_start = Some us \<and> last us = table_start \<and>
      (\<forall>u \<in> set us. \<forall>psi. eater_at u psi \<noteq> Eat))"
  using eat_run_inv [OF assms(2) table_inv_start assms(1)] can_eat [OF _ assms(3)] livelock by blast

theorem philosophers_progress_witness:
  "\<exists>qs u. philosophers qs \<and> leads qs table_start u \<and> eater_at u 4 = Eat"
  using philosophers_progress [of "[]" "[table_start]" 4] by (simp add: philosophers_def)

text \<open>
  \<^verbatim>\<open>four_philosopher\<close> tests its counter before it waits for a chopstick and increments it afterwards. All five
  threads can pass the test, and then every one waits for the chopstick of its neighbour: a deadlock.
  And a thread that finds the counter at 4 does not wait: it dines without chopsticks and unlocks a mutex that
  it does not own.
\<close>

theorem four_philosopher_fails:
  "(\<exists>r. dine_run [1, 2, 3, 4, 5, 1, 2, 3, 4, 5, 1, 2, 3, 4, 5] room_start = Next r \<and>
      list_all (\<lambda>i. philosophe i r = Blocked \<and> diner_at r i = TakeSecond) [1, 2, 3, 4, 5]) \<and>
    (\<exists>r. dine_run [1, 2, 3, 4, 1, 2, 3, 4, 1, 2, 3, 4, 5] room_start = Next r \<and> diner_at r 5 = Dine \<and>
      (\<forall>c. held_by r c \<noteq> Some 5) \<and> dine_run [5, 5] r = Undefined)"
  by (simp add: philosophe_def room_start_def take_chop_def lay_def)

end
