(* ===== verification/ListHeap.thy ===== *)
theory ListHeap
  imports Cpp_Prelude
begin

text \<open>
  Singly linked lists of \<^verbatim>\<open>struct ListNode\<close> on a heap, and \<^verbatim>\<open>cpp/link/revertLink.cpp\<close>,
  which builds a list and reverses it in place. The heap is the list of the nodes allocated so far, an address is a
  position in it, and the null pointer is \<^term>\<open>None\<close> of the pointer type. Nodes are never deleted by
  these programs. Loops over a list are partial functions, because a list may be cyclic.
\<close>

section \<open>The heap\<close>

record list_node =
  val :: int
  nxt :: "nat option"

type_synonym pointer = "nat option"
type_synonym nodes = "list_node list"

definition deref :: "nodes \<Rightarrow> pointer \<Rightarrow> list_node ub" where
  "deref h p = do { a \<leftarrow> p; vget h a }"

definition set_nxt :: "nodes \<Rightarrow> pointer \<Rightarrow> pointer \<Rightarrow> nodes ub" where
  "set_nxt h p q = do { a \<leftarrow> p; n \<leftarrow> vget h a; Some (h[a := n\<lparr>nxt := q\<rparr>]) }"

definition new_node :: "int \<Rightarrow> nodes \<Rightarrow> pointer \<times> nodes" where
  "new_node v h = (Some (length h), h @ [\<lparr>val = v, nxt = None\<rparr>])"

text \<open>\<open>cur->next = new ListNode(v); cur = cur->next\<close>\<close>

definition emit :: "int \<Rightarrow> pointer \<Rightarrow> nodes \<Rightarrow> (pointer \<times> nodes) ub" where
  "emit v cur h = (let (p, h) = new_node v h in do { h \<leftarrow> set_nxt h cur p; Some (p, h) })"

section \<open>Building, printing and reversing\<close>

fun init_loop :: "int list \<Rightarrow> pointer \<Rightarrow> nodes \<Rightarrow> nodes ub" where
  "init_loop [] p h = Some h"
| "init_loop (v # vec) p h = do { (p, h) \<leftarrow> emit v p h; init_loop vec p h }"

definition initListNode :: "int list \<Rightarrow> nodes \<Rightarrow> (pointer \<times> nodes) ub" where
  "initListNode vec h = (let (demo, h) = new_node 0 h in do { h \<leftarrow> init_loop vec demo h; Some (demo, h) })"

partial_function (option) print_list :: "nodes \<Rightarrow> pointer \<Rightarrow> int list ub" where
  "print_list h p =
     (if p = None then Some []
      else do { n \<leftarrow> deref h p; rest \<leftarrow> print_list h (nxt n); Some (val n # rest) })"

partial_function (option) reverse_loop :: "pointer \<Rightarrow> pointer \<Rightarrow> pointer \<Rightarrow> nodes \<Rightarrow> (pointer \<times> nodes) ub" where
  "reverse_loop res pNode pPrev h =
     (if pNode = None then Some (res, h)
      else do {
        n \<leftarrow> deref h pNode;
        h \<leftarrow> set_nxt h pNode pPrev;
        reverse_loop (if nxt n = None then pNode else res) (nxt n) pNode h
      })"

definition ReverseList :: "pointer \<Rightarrow> nodes \<Rightarrow> (pointer \<times> nodes) ub" where
  "ReverseList pHead h = reverse_loop None pHead None h"

text \<open>The two lists that the program prints.\<close>

definition revert_main :: "int list \<Rightarrow> (int list \<times> int list) ub" where
  "revert_main vec = do {
     (demo, h) \<leftarrow> initListNode vec [];
     before \<leftarrow> print_list h demo;
     (res, h) \<leftarrow> ReverseList demo h;
     after \<leftarrow> print_list h res;
     Some (before, after)
   }"

section \<open>Segments\<close>

text \<open>From \<open>p\<close> the pointers lead through the addresses \<open>as\<close> to \<open>q\<close>.\<close>

fun seg :: "nodes \<Rightarrow> pointer \<Rightarrow> nat list \<Rightarrow> pointer \<Rightarrow> bool" where
  "seg h p [] q \<longleftrightarrow> p = q"
| "seg h p (a # as) q \<longleftrightarrow> p = Some a \<and> a < length h \<and> seg h (nxt (h ! a)) as q"

definition vals :: "nodes \<Rightarrow> nat list \<Rightarrow> int list" where
  "vals h as = map (\<lambda>a. val (h ! a)) as"

named_theorems heap_simps \<open>reading and writing nodes that are allocated\<close>

lemma deref_in [heap_simps]: "a < length h \<Longrightarrow> deref h (Some a) = Some (h ! a)"
  by (simp add: deref_def vget_def)

lemma set_nxt_in [heap_simps]: "a < length h \<Longrightarrow> set_nxt h (Some a) q = Some (h[a := (h ! a)\<lparr>nxt := q\<rparr>])"
  by (simp add: set_nxt_def vget_def)

lemma seg_append [simp]: "seg h p (as @ bs) q \<longleftrightarrow> (\<exists>m. seg h p as m \<and> seg h m bs q)"
  by (induction as arbitrary: p) auto

lemma seg_length: "seg h p as q \<Longrightarrow> a \<in> set as \<Longrightarrow> a < length h"
  by (induction as arbitrary: p) auto

lemma seg_cong: "seg h p as q \<Longrightarrow> (\<And>a. a \<in> set as \<Longrightarrow> a < length h' \<and> nxt (h' ! a) = nxt (h ! a)) \<Longrightarrow> seg h' p as q"
  by (induction as arbitrary: p) auto

lemma seg_update [simp]: "a \<notin> set as \<Longrightarrow> seg (h[a := n]) p as q \<longleftrightarrow> seg h p as q"
  by (induction as arbitrary: p) auto

lemma vals_update [simp]: "vals (h[a := (h ! a)\<lparr>nxt := q\<rparr>]) as = vals h as"
  by (cases "a < length h") (auto simp: vals_def nth_list_update list_update_beyond not_less)

lemma vals_simps [simp]: "vals h [] = []" "vals h (a # as) = val (h ! a) # vals h as" "vals h (as @ bs) = vals h as @ vals h bs"
  by (simp_all add: vals_def)

lemma length_vals [simp]: "length (vals h as) = length as"
  by (simp add: vals_def)

lemma seg_null_unique: "seg h p as None \<Longrightarrow> seg h p bs None \<Longrightarrow> as = bs"
proof (induction as arbitrary: p bs)
  case (Cons a as)
  thus ?case by (cases bs) auto
qed (metis seg.elims(2) option.distinct(1) seg.simps(1))

lemma seg_null_distinct: "seg h p as None \<Longrightarrow> distinct as"
proof (induction as arbitrary: p)
  case (Cons a as)
  have "a \<notin> set as"
  proof
    assume "a \<in> set as"
    then obtain xs ys where as: "as = xs @ a # ys" by (auto simp: in_set_conv_decomp)
    hence "seg h (Some a) (a # ys) None" using Cons.prems by auto
    moreover have "seg h (Some a) (a # as) None" using Cons.prems by simp
    ultimately have "a # ys = a # as" by (rule seg_null_unique)
    thus False by (simp add: as)
  qed
  thus ?case using Cons by auto
qed simp

lemma print_list_ok: "seg h p as None \<Longrightarrow> print_list h p = Some (vals h as)"
  by (induction as arbitrary: p) (subst print_list.simps, simp add: heap_simps)+

text \<open>Emitting a node extends a list that ends at \<open>c\<close> and touches no other list.\<close>

lemma emit_ok:
  assumes "seg h p (as @ [c]) None"
  shows "\<exists>h'. emit v (Some c) h = Some (Some (length h), h') \<and> seg h' p (as @ [c, length h]) None \<and>
    vals h' (as @ [c, length h]) = vals h (as @ [c]) @ [v] \<and> length h' = length h + 1 \<and>
    (\<forall>a < length h. val (h' ! a) = val (h ! a) \<and> (a \<noteq> c \<longrightarrow> h' ! a = h ! a))"
proof -
  let ?new = "\<lparr>val = v, nxt = None\<rparr>"
  let ?h = "h @ [?new]"
  let ?h' = "?h[c := (h ! c)\<lparr>nxt := Some (length h)\<rparr>]"
  have c: "c < length h" and d: "distinct (as @ [c])" using assms seg_null_distinct [OF assms] by simp_all
  have "emit v (Some c) h = Some (Some (length h), ?h')"
    using c by (simp add: emit_def new_node_def set_nxt_in nth_append)
  moreover have same: "?h' ! a = h ! a" if "a < length h" "a \<noteq> c" for a using that by (simp add: nth_append)
  moreover have "seg ?h' p as (Some c)"
  proof (rule seg_cong)
    show "seg h p as (Some c)" using assms by simp
    fix a assume "a \<in> set as"
    hence "a < length h" "a \<noteq> c" using seg_length [OF assms] d by auto
    thus "a < length ?h' \<and> nxt (?h' ! a) = nxt (h ! a)" using same by simp
  qed
  moreover have "vals ?h' as = vals h as" 
  proof -
    have "?h' ! a = h ! a" if "a \<in> set as" for a using that d seg_length [OF assms] by (intro same) auto
    thus ?thesis by (simp add: vals_def)
  qed
  ultimately show ?thesis using c by (auto simp: nth_append nth_list_update intro!: exI [of _ ?h'])
qed

lemma init_loop_ok:
  "seg h p (as @ [c]) None \<Longrightarrow> \<exists>h' bs. init_loop vec (Some c) h = Some h' \<and> seg h' p (as @ c # bs) None \<and>
    vals h' (as @ c # bs) = vals h (as @ [c]) @ vec"
proof (induction vec arbitrary: as c h)
  case Nil
  thus ?case by (intro exI [of _ h] exI [of _ "[]"]) simp
next
  case (Cons v vec)
  obtain h1 where h1: "emit v (Some c) h = Some (Some (length h), h1)" "seg h1 p ((as @ [c]) @ [length h]) None"
    "vals h1 ((as @ [c]) @ [length h]) = vals h (as @ [c]) @ [v]"
    using emit_ok [OF Cons.prems, of v] by auto
  obtain h2 bs where h2: "init_loop vec (Some (length h)) h1 = Some h2" "seg h2 p ((as @ [c]) @ length h # bs) None"
    "vals h2 ((as @ [c]) @ length h # bs) = vals h1 ((as @ [c]) @ [length h]) @ vec"
    using Cons.IH [OF h1(2)] by blast
  show ?case using h1(1,3) h2 by (intro exI [of _ h2] exI [of _ "length h # bs"]) simp
qed

lemma initListNode_ok:
  "\<exists>h' as. initListNode vec h = Some (Some (length h), h') \<and> seg h' (Some (length h)) as None \<and> vals h' as = 0 # vec"
proof -
  let ?h = "h @ [\<lparr>val = 0, nxt = None\<rparr>]"
  have "seg ?h (Some (length h)) ([] @ [length h]) None" by simp
  then obtain h' bs where "init_loop vec (Some (length h)) ?h = Some h'" "seg h' (Some (length h)) ([] @ length h # bs) None"
    "vals h' ([] @ length h # bs) = vals ?h ([] @ [length h]) @ vec"
    using init_loop_ok by blast
  thus ?thesis by (intro exI [of _ h'] exI [of _ "length h # bs"]) (simp add: initListNode_def new_node_def)
qed

text \<open>Reversal: the part in front of \<open>pNode\<close> is reversed already and begins at \<open>pPrev\<close>.\<close>

lemma reverse_loop_ok:
  "seg h p as None \<Longrightarrow> seg h q bs None \<Longrightarrow> set as \<inter> set bs = {} \<Longrightarrow>
    \<exists>h' r. reverse_loop res p q h = Some (if as = [] then res else r, h') \<and> (as \<noteq> [] \<longrightarrow> seg h' r (rev as @ bs) None) \<and>
      vals h' (rev as @ bs) = vals h (rev as @ bs) \<and> length h' = length h \<and> (\<forall>a. a \<notin> set as \<longrightarrow> h' ! a = h ! a)"
proof (induction as arbitrary: p q bs h res)
  case Nil
  thus ?case by (subst reverse_loop.simps) simp
next
  case (Cons a as)
  let ?h = "h[a := (h ! a)\<lparr>nxt := q\<rparr>]" and ?n = "nxt (h ! a)"
  have a: "p = Some a" "a < length h" "seg h ?n as None" using Cons.prems by auto
  have d: "a \<notin> set as" "a \<notin> set bs" using seg_null_distinct [OF Cons.prems(1)] Cons.prems(3) by auto
  have "seg ?h ?n as None" "seg ?h (Some a) (a # bs) None" "set as \<inter> set (a # bs) = {}"
    using a d Cons.prems by auto
  then obtain h' r where IH: "reverse_loop (if ?n = None then p else res) ?n (Some a) ?h =
      Some (if as = [] then if ?n = None then p else res else r, h')" "as \<noteq> [] \<longrightarrow> seg h' r (rev as @ a # bs) None"
    "vals h' (rev as @ a # bs) = vals ?h (rev as @ a # bs)" "length h' = length ?h" "\<forall>b. b \<notin> set as \<longrightarrow> h' ! b = ?h ! b"
    using Cons.IH by metis
  have step: "reverse_loop res p q h = reverse_loop (if ?n = None then p else res) ?n (Some a) ?h"
    using a by (subst reverse_loop.simps) (simp add: heap_simps)
  have frame: "vals h' (rev (a # as) @ bs) = vals h (rev (a # as) @ bs)" "length h' = length h" "\<forall>b. b \<notin> set (a # as) \<longrightarrow> h' ! b = h ! b"
    using IH(3-5) a(2) by auto
  show ?case
  proof (cases "as = []")
    case True
    hence n: "?n = None" using a(3) by simp
    have h': "h' = ?h" using IH(4,5) True by (intro nth_equalityI) simp_all
    show ?thesis using True step IH(1) frame a n h' d Cons.prems(2) by (intro exI [of _ h'] exI [of _ p]) simp
  next
    case False
    thus ?thesis using step IH(1,2) frame by (intro exI [of _ h'] exI [of _ r]) simp
  qed
qed

lemma ReverseList_ok:
  assumes "seg h p as None"
  shows "\<exists>h' r. ReverseList p h = Some (r, h') \<and> seg h' r (rev as) None \<and> vals h' (rev as) = rev (vals h as) \<and>
    length h' = length h \<and> (\<forall>a. a \<notin> set as \<longrightarrow> h' ! a = h ! a)"
proof -
  obtain h' r where "reverse_loop None p None h = Some (if as = [] then None else r, h')" "as \<noteq> [] \<longrightarrow> seg h' r (rev as @ []) None"
    "vals h' (rev as @ []) = vals h (rev as @ [])" "length h' = length h" "\<forall>a. a \<notin> set as \<longrightarrow> h' ! a = h ! a"
    using reverse_loop_ok [OF assms, of None "[]" None] by auto
  thus ?thesis by (intro exI [of _ h'] exI [of _ "if as = [] then None else r"]) (auto simp: ReverseList_def vals_def rev_map)
qed

text \<open>
  Reversing a list in place ends for every list that ends in null, keeps the set of its nodes and their values, reverses their
  order, touches no other node, and done twice gives the first order again. The program prints the
  vector behind a leading 0, and then the whole list in reverse.
\<close>

theorem reverse_list:
  assumes "seg h p as None"
  shows "(\<exists>r h'. ReverseList p h = Some (r, h') \<and> seg h' r (rev as) None \<and> print_list h' r = Some (rev (vals h as)) \<and>
      (\<forall>a. a \<notin> set as \<longrightarrow> h' ! a = h ! a) \<and>
      (\<exists>r2 h2. ReverseList r h' = Some (r2, h2) \<and> seg h2 r2 as None \<and> print_list h2 r2 = print_list h p)) \<and>
    revert_main vec = Some (0 # vec, rev (0 # vec))"
proof
  obtain r h' where 1: "ReverseList p h = Some (r, h')" "seg h' r (rev as) None" "vals h' (rev as) = rev (vals h as)"
    "\<forall>a. a \<notin> set as \<longrightarrow> h' ! a = h ! a" using ReverseList_ok [OF assms] by blast
  obtain r2 h2 where 2: "ReverseList r h' = Some (r2, h2)" "seg h2 r2 as None" "vals h2 as = rev (vals h' (rev as))"
    using ReverseList_ok [OF 1(2)] by auto
  have "print_list h' r = Some (rev (vals h as))" "print_list h2 r2 = print_list h p"
    using print_list_ok 1(2,3) 2(2,3) assms by auto
  thus "\<exists>r h'. ReverseList p h = Some (r, h') \<and> seg h' r (rev as) None \<and> print_list h' r = Some (rev (vals h as)) \<and>
      (\<forall>a. a \<notin> set as \<longrightarrow> h' ! a = h ! a) \<and>
      (\<exists>r2 h2. ReverseList r h' = Some (r2, h2) \<and> seg h2 r2 as None \<and> print_list h2 r2 = print_list h p)"
    using 1 2 by blast
  obtain h0 bs where 3: "initListNode vec [] = Some (Some 0, h0)" "seg h0 (Some 0) bs None" "vals h0 bs = 0 # vec"
    using initListNode_ok [of vec "[]"] by auto
  obtain r3 h3 where 4: "ReverseList (Some 0) h0 = Some (r3, h3)" "seg h3 r3 (rev bs) None" "vals h3 (rev bs) = rev (vals h0 bs)"
    using ReverseList_ok [OF 3(2)] by blast
  show "revert_main vec = Some (0 # vec, rev (0 # vec))"
    using 3 4 by (simp add: revert_main_def print_list_ok)
qed

theorem reverse_list_witness:
  "(\<exists>r h'. ReverseList (Some 0) [\<lparr>val = 4, nxt = Some 1\<rparr>, \<lparr>val = 7, nxt = None\<rparr>] = Some (r, h') \<and> print_list h' r = Some [7, 4]) \<and>
   revert_main [1, 2, 3, 4, 5] = Some ([0, 1, 2, 3, 4, 5], [5, 4, 3, 2, 1, 0])"
  using reverse_list [of "[\<lparr>val = 4, nxt = Some 1\<rparr>, \<lparr>val = 7, nxt = None\<rparr>]" "Some 0" "[0, 1]" "[1, 2, 3, 4, 5]"] by auto

end
