(* ===== verification/ListCycle.thy ===== *)
theory ListCycle
  imports ListHeap
begin

text \<open>
  \<^verbatim>\<open>detectCycle\<close> of the exercise on cyclic lists: two pointers of which one is twice as fast, and
  then two pointers that meet at the entry of the cycle. The heap is only read.
\<close>

section \<open>The program\<close>

definition follow :: "nodes \<Rightarrow> pointer \<Rightarrow> pointer ub" where
  "follow h p = do { n \<leftarrow> deref h p; Some (nxt n) }"

partial_function (option) race_loop :: "nodes \<Rightarrow> pointer \<Rightarrow> pointer \<Rightarrow> (pointer \<times> pointer) ub" where
  "race_loop h left right =
     (if right = None then Some (left, right)
      else do {
        next \<leftarrow> follow h right;
        if next = None then Some (left, right)
        else do {
          left \<leftarrow> follow h left;
          right \<leftarrow> follow h next;
          if left = right then Some (left, right) else race_loop h left right
        }
      })"

partial_function (option) meet_loop :: "nodes \<Rightarrow> pointer \<Rightarrow> pointer \<Rightarrow> pointer ub" where
  "meet_loop h left right =
     (if right \<noteq> left
      then do { left \<leftarrow> follow h left; right \<leftarrow> follow h right; meet_loop h left right }
      else Some left)"

definition detectCycle :: "nodes \<Rightarrow> pointer \<Rightarrow> pointer ub" where
  "detectCycle h head =
     (if head = None then Some None
      else do {
        (left, right) \<leftarrow> race_loop h head head;
        stop \<leftarrow> (if right = None then Some True else do { n \<leftarrow> follow h right; Some (n = None) });
        if stop then Some None else meet_loop h left head
      })"

section \<open>Lists that end\<close>

lemma follow_in: "a < length h \<Longrightarrow> follow h (Some a) = Some (nxt (h ! a))"
  by (simp add: follow_def heap_simps)

definition at_pos :: "nat list \<Rightarrow> nat \<Rightarrow> pointer" where
  "at_pos as i = (if i < length as then Some (as ! i) else None)"

lemma seg_follow: "seg h p as q \<Longrightarrow> i < length as \<Longrightarrow> as ! i < length h \<and> nxt (h ! (as ! i)) = (if Suc i < length as then Some (as ! Suc i) else q)"
proof (induction as arbitrary: p i)
  case (Cons a as)
  thus ?case by (cases i; cases as) auto
qed simp

lemma race_ends:
  assumes "seg h p as None"
  shows "2 * k \<le> length as \<Longrightarrow> \<exists>l r. race_loop h (at_pos as k) (at_pos as (2 * k)) = Some (l, r) \<and> (r = None \<or> follow h r = Some None)"
proof (induction "length as - 2 * k" arbitrary: k rule: less_induct)
  case less
  have f: "follow h (at_pos as i) = Some (at_pos as (Suc i))" if "i < length as" for i
    using seg_follow [OF assms that] that by (simp add: at_pos_def follow_in)
  have d: "distinct as" using assms by (rule seg_null_distinct)
  consider "2 * k = length as" | "Suc (2 * k) = length as" | "Suc (2 * k) < length as" using less.prems by linarith
  thus ?case
  proof cases
    case 1 thus ?thesis by (subst race_loop.simps) (simp add: at_pos_def)
  next
    case 2
    thus ?thesis using f [of "2 * k"] by (subst race_loop.simps) (simp add: at_pos_def)
  next
    case 3
    have "at_pos as (Suc k) \<noteq> at_pos as (2 * Suc k)" using 3 d by (auto simp: at_pos_def nth_eq_iff_index_eq)
    hence "race_loop h (at_pos as k) (at_pos as (2 * k)) = race_loop h (at_pos as (Suc k)) (at_pos as (2 * Suc k))"
      using 3 f [of k] f [of "2 * k"] f [of "Suc (2 * k)"] by (subst race_loop.simps) (simp add: at_pos_def)
    thus ?thesis using less.hyps [of "Suc k"] 3 by simp
  qed
qed

lemma detect_none: "seg h p as None \<Longrightarrow> detectCycle h p = Some None"
proof (cases as)
  case (Cons a bs)
  assume s: "seg h p as None"
  hence p: "p = Some a" "at_pos as 0 = Some a" using Cons by (simp_all add: at_pos_def)
  obtain l r where "race_loop h p p = Some (l, r)" "r = None \<or> follow h r = Some None"
    using race_ends [OF s, of 0] p by auto
  thus ?thesis using p by (auto simp: detectCycle_def)
qed (simp add: detectCycle_def)

section \<open>Lists with a cycle\<close>

text \<open>The node after \<open>i\<close> steps in a list of the nodes \<open>as\<close> that goes on with the cycle \<open>cs\<close>.\<close>

definition pos :: "nat list \<Rightarrow> nat list \<Rightarrow> nat \<Rightarrow> nat" where
  "pos as cs i = (if i < length as then as ! i else cs ! ((i - length as) mod length cs))"

definition lasso :: "nodes \<Rightarrow> pointer \<Rightarrow> nat list \<Rightarrow> nat list \<Rightarrow> bool" where
  "lasso h p as cs \<longleftrightarrow> cs \<noteq> [] \<and> distinct (as @ cs) \<and> seg h p (as @ cs) (Some (hd cs))"

lemma pos_follow:
  assumes "lasso h p as cs" shows "follow h (Some (pos as cs i)) = Some (Some (pos as cs (Suc i)))"
proof -
  have cs: "cs \<noteq> []" "seg h p (as @ cs) (Some (hd cs))" using assms by (auto simp: lasso_def)
  let ?n = "length as" and ?k = "length cs"
  define j where "j = (if i < ?n then i else ?n + (i - ?n) mod ?k)"
  have k: "0 < ?k" using cs(1) by simp
  hence "(i - ?n) mod ?k < ?k" by simp
  hence j: "j < length (as @ cs)" "pos as cs i = (as @ cs) ! j" by (auto simp: j_def pos_def nth_append)
  have "pos as cs (Suc i) = (if Suc j < length (as @ cs) then (as @ cs) ! Suc j else hd cs)"
  proof (cases "i < ?n")
    case True
    thus ?thesis using cs(1) by (auto simp: j_def pos_def nth_append hd_conv_nth)
  next
    case False
    hence "(Suc i - ?n) mod ?k = (if Suc ((i - ?n) mod ?k) = ?k then 0 else Suc ((i - ?n) mod ?k))"
      by (simp add: Suc_diff_le mod_Suc)
    moreover have "Suc ((i - ?n) mod ?k) = ?k \<or> Suc ((i - ?n) mod ?k) < ?k" using \<open>(i - ?n) mod ?k < ?k\<close> by linarith
    ultimately show ?thesis using False cs(1) by (auto simp: j_def pos_def nth_append hd_conv_nth)
  qed
  thus ?thesis using seg_follow [OF cs(2) j(1)] j(2) by (auto simp: follow_in)
qed

lemma pos_eq:
  assumes "lasso h p as cs" "pos as cs i = pos as cs j" "i < j"
  shows "length as \<le> i" "length cs dvd j - i"
proof -
  have d: "distinct (as @ cs)" "cs \<noteq> []" using assms(1) by (auto simp: lasso_def)
  let ?n = "length as" and ?k = "length cs"
  have in_cs: "cs ! (m mod ?k) \<in> set cs" for m using d(2) by simp
  show n: "?n \<le> i"
  proof (rule ccontr)
    assume i: "\<not> ?n \<le> i"
    show False
    proof (cases "j < ?n")
      case True thus ?thesis using assms(2,3) d(1) i by (auto simp: pos_def nth_eq_iff_index_eq)
    next
      case False
      have "as ! i \<in> set as" using i by simp
      moreover have "as ! i \<in> set cs" using assms(2) i in_cs [of "j - ?n"] False by (simp add: pos_def)
      ultimately show ?thesis using d(1) by auto
    qed
  qed
  hence "cs ! ((i - ?n) mod ?k) = cs ! ((j - ?n) mod ?k)" using assms(2,3) by (simp add: pos_def)
  hence "(i - ?n) mod ?k = (j - ?n) mod ?k" using d by (simp add: nth_eq_iff_index_eq)
  hence "?k dvd (j - ?n) - (i - ?n)" using assms(3) by (intro mod_eq_dvd_iff_nat [THEN iffD1]) auto
  thus "?k dvd j - i" using n assms(3) by simp
qed

lemma pos_periodic: "length as \<le> i \<Longrightarrow> length cs dvd m \<Longrightarrow> pos as cs (i + m) = pos as cs i"
proof -
  assume i: "length as \<le> i" and "length cs dvd m"
  then obtain k where m: "m = length cs * k" by (auto simp: dvd_def)
  have "i + m - length as = (i - length as) + length cs * k" using i m by simp
  hence "(i + m - length as) mod length cs = (i - length as) mod length cs" by (metis mod_mult_self2)
  thus ?thesis using i by (simp add: pos_def)
qed

lemma race_meets:
  assumes l: "lasso h p as cs" and K: "pos as cs K = pos as cs (2 * K)"
  shows "k < K \<Longrightarrow> \<exists>m > 0. race_loop h (Some (pos as cs k)) (Some (pos as cs (2 * k))) = Some (Some (pos as cs m), Some (pos as cs m)) \<and>
    pos as cs m = pos as cs (2 * m)"
proof (induction "K - k" arbitrary: k rule: less_induct)
  case less
  note f = pos_follow [OF l]
  show ?case
  proof (cases "pos as cs (Suc k) = pos as cs (2 * Suc k)")
    case True
    thus ?thesis using f [of k] f [of "2 * k"] f [of "Suc (2 * k)"] by (intro exI [of _ "Suc k"]) (subst race_loop.simps, simp)
  next
    case False
    hence "race_loop h (Some (pos as cs k)) (Some (pos as cs (2 * k))) = race_loop h (Some (pos as cs (Suc k))) (Some (pos as cs (2 * Suc k)))"
      using f [of k] f [of "2 * k"] f [of "Suc (2 * k)"] by (subst race_loop.simps) simp
    moreover have "Suc k < K" using False K less.prems Suc_lessI by blast
    ultimately show ?thesis using less.hyps [of "Suc k"] by simp
  qed
qed

lemma meet_at_entry:
  assumes l: "lasso h p as cs" and m: "0 < m" "length cs dvd m"
  shows "i \<le> length as \<Longrightarrow> meet_loop h (Some (pos as cs (i + m))) (Some (pos as cs i)) = Some (Some (pos as cs (length as)))"
proof (induction "length as - i" arbitrary: i)
  case 0
  hence "pos as cs (i + m) = pos as cs i" "i = length as" using pos_periodic m(2) by auto
  thus ?case by (subst meet_loop.simps) simp
next
  case (Suc d)
  have "pos as cs i \<noteq> pos as cs (i + m)" using pos_eq(1) [OF l, of i "i + m"] m(1) Suc.hyps(2) by auto
  hence "meet_loop h (Some (pos as cs (i + m))) (Some (pos as cs i)) = meet_loop h (Some (pos as cs (Suc i + m))) (Some (pos as cs (Suc i)))"
    using pos_follow [OF l] by (subst meet_loop.simps) simp
  thus ?case using Suc.hyps(1) [of "Suc i"] Suc.hyps(2) by simp
qed

lemma detect_cycle:
  assumes l: "lasso h p as cs" shows "detectCycle h p = Some (Some (hd cs))"
proof -
  have cs: "cs \<noteq> []" using l by (simp add: lasso_def)
  have p: "p = Some (pos as cs 0)" using l by (cases as; cases cs) (auto simp: lasso_def pos_def)
  let ?K = "length cs * Suc (length as)"
  have "1 \<le> length cs" using cs by (simp add: Suc_le_eq)
  hence "1 * Suc (length as) \<le> ?K" by (rule mult_le_mono1)
  hence "Suc (length as) \<le> ?K" by (simp only: mult_1)
  hence "length as \<le> ?K" "0 < ?K" by (auto simp: Suc_le_eq)
  hence "pos as cs ?K = pos as cs (2 * ?K)" using pos_periodic [of as ?K cs ?K] unfolding mult_2 by simp
  then obtain m where m: "0 < m" "race_loop h p p = Some (Some (pos as cs m), Some (pos as cs m))" "pos as cs m = pos as cs (2 * m)"
    using race_meets [OF l, of ?K 0] \<open>0 < ?K\<close> p by auto
  have "length cs dvd m" using pos_eq(2) [OF l m(3)] m(1) by simp
  hence "meet_loop h (Some (pos as cs m)) p = Some (Some (pos as cs (length as)))" using meet_at_entry [OF l m(1), of 0] p by simp
  moreover have "pos as cs (length as) = hd cs" using cs by (simp add: pos_def hd_conv_nth)
  ultimately show ?thesis using m(2) pos_follow [OF l, of m] p by (simp add: detectCycle_def)
qed

text \<open>
  C36. \<^verbatim>\<open>detectCycle\<close> ends on every list and decides whether it has a cycle: it returns null for a list that ends
  in null, and for a list that leads into a cycle it returns the first node of the cycle.
\<close>

theorem detectCycle_entry:
  "(seg h p as None \<longrightarrow> detectCycle h p = Some None) \<and> (lasso h p as cs \<longrightarrow> detectCycle h p = Some (Some (hd cs)))"
  using detect_none detect_cycle by blast

theorem detectCycle_entry_witness:
  "detectCycle [\<lparr>val = 3, nxt = Some 1\<rparr>, \<lparr>val = 2, nxt = Some 2\<rparr>, \<lparr>val = 0, nxt = Some 1\<rparr>] (Some 0) = Some (Some 1)"
  using detectCycle_entry [of "[\<lparr>val = 3, nxt = Some 1\<rparr>, \<lparr>val = 2, nxt = Some 2\<rparr>, \<lparr>val = 0, nxt = Some 1\<rparr>]" "Some 0" "[0]" "[1, 2]"]
  by (simp add: lasso_def)

end
