(* ===== verification/ListAdd.thy ===== *)
theory ListAdd
  imports ListHeap
begin

text \<open>
  \<^verbatim>\<open>addTwoNumbers\<close> of the exercises: two numbers, as lists of decimal digits with the lowest digit first, are
  added into a new list.
\<close>

section \<open>The program\<close>

text \<open>The value of a new node and the next carry, from the sum of the digits and the carry.\<close>

definition digit_carry :: "int \<Rightarrow> int \<times> int" where
  "digit_carry s = (if s \<ge> 10 then (trem s 10, 1) else (s, 0))"

partial_function (option) add_both :: "pointer \<Rightarrow> pointer \<Rightarrow> pointer \<Rightarrow> int \<Rightarrow> nodes \<Rightarrow> (pointer \<times> pointer \<times> pointer \<times> int \<times> nodes) ub" where
  "add_both cur1 cur2 cur flag h =
     (if cur1 \<noteq> None \<and> cur2 \<noteq> None
      then do {
        n1 \<leftarrow> deref h cur1;
        n2 \<leftarrow> deref h cur2;
        s \<leftarrow> as_int (val n1 + val n2);
        s \<leftarrow> as_int (s + flag);
        (cur, h) \<leftarrow> emit (fst (digit_carry s)) cur h;
        add_both (nxt n1) (nxt n2) cur (snd (digit_carry s)) h
      }
      else Some (cur1, cur2, cur, flag, h))"

partial_function (option) add_rest :: "pointer \<Rightarrow> pointer \<Rightarrow> int \<Rightarrow> nodes \<Rightarrow> (pointer \<times> int \<times> nodes) ub" where
  "add_rest cur1 cur flag h =
     (if cur1 \<noteq> None
      then do {
        n1 \<leftarrow> deref h cur1;
        s \<leftarrow> as_int (val n1 + flag);
        (cur, h) \<leftarrow> emit (fst (digit_carry s)) cur h;
        add_rest (nxt n1) cur (snd (digit_carry s)) h
      }
      else Some (cur, flag, h))"

definition addTwoNumbers :: "pointer \<Rightarrow> pointer \<Rightarrow> nodes \<Rightarrow> (pointer \<times> nodes) ub" where
  "addTwoNumbers l1 l2 h =
     (if l1 = None \<or> l2 = None then Some (None, h)
      else do {
        let (res, h) = new_node (-1) h;
        (cur1, cur2, cur, flag, h) \<leftarrow> add_both l1 l2 res 0 h;
        (cur, flag, h) \<leftarrow> add_rest cur1 cur flag h;
        (cur, flag, h) \<leftarrow> add_rest cur2 cur flag h;
        (cur, h) \<leftarrow> (if flag \<noteq> 0 then emit flag cur h else Some (cur, h));
        n \<leftarrow> deref h res;
        Some (nxt n, h)
      })"

section \<open>Digits\<close>

definition digits :: "int list \<Rightarrow> bool" where
  "digits ds \<longleftrightarrow> (\<forall>d \<in> set ds. 0 \<le> d \<and> d \<le> 9)"

fun number_of :: "int list \<Rightarrow> int" where
  "number_of [] = 0"
| "number_of (d # ds) = d + 10 * number_of ds"

fun add_lists :: "int list \<Rightarrow> int list \<Rightarrow> int \<Rightarrow> int list" where
  "add_lists (x # xs) (y # ys) f = fst (digit_carry (x + y + f)) # add_lists xs ys (snd (digit_carry (x + y + f)))"
| "add_lists (x # xs) [] f = fst (digit_carry (x + f)) # add_lists xs [] (snd (digit_carry (x + f)))"
| "add_lists [] (y # ys) f = fst (digit_carry (y + f)) # add_lists [] ys (snd (digit_carry (y + f)))"
| "add_lists [] [] f = (if f \<noteq> 0 then [f] else [])"

lemma digit_carry_ok:
  assumes "0 \<le> s" "s \<le> 19"
  shows "fst (digit_carry s) + 10 * snd (digit_carry s) = s \<and> 0 \<le> fst (digit_carry s) \<and> fst (digit_carry s) \<le> 9 \<and>
    snd (digit_carry s) \<in> {0, 1}"
proof (cases "s \<ge> 10")
  case True
  hence "(s - 10) mod 10 = s - 10" using assms by (intro mod_pos_pos_trivial) simp_all
  hence "s mod 10 = s - 10" by simp
  thus ?thesis using True assms by (simp add: digit_carry_def)
qed (use assms in \<open>simp add: digit_carry_def\<close>)

lemma digits_Cons [simp]: "digits (d # ds) \<longleftrightarrow> 0 \<le> d \<and> d \<le> 9 \<and> digits ds"
  by (auto simp: digits_def)

lemma digits_Nil [simp]: "digits []"
  by (simp add: digits_def)

lemma add_lists_ok:
  "digits xs \<Longrightarrow> digits ys \<Longrightarrow> f = 0 \<or> f = 1 \<Longrightarrow> number_of (add_lists xs ys f) = number_of xs + number_of ys + f \<and> digits (add_lists xs ys f)"
proof (induction xs ys f rule: add_lists.induct)
  case (1 x xs y ys f)
  have c: "0 \<le> x + y + f" "x + y + f \<le> 19" using "1.prems" by auto
  show ?case using digit_carry_ok [OF c] "1.IH" "1.prems" by simp
next
  case (2 x xs f)
  have c: "0 \<le> x + f" "x + f \<le> 19" using "2.prems" by auto
  show ?case using digit_carry_ok [OF c] "2.IH" "2.prems" by simp
next
  case (3 y ys f)
  have c: "0 \<le> y + f" "y + f \<le> 19" using "3.prems" by auto
  show ?case using digit_carry_ok [OF c] "3.IH" "3.prems" by simp
qed auto

section \<open>The loops\<close>

text \<open>
  The state of the loops: the old nodes \<open>h0\<close> are unchanged, and the result is a list from
  \<open>r\<close> whose nodes are new, ends at \<open>c\<close> and holds the values \<open>vs\<close>.
\<close>

definition building :: "nodes \<Rightarrow> nat \<Rightarrow> nat \<Rightarrow> int list \<Rightarrow> nodes \<Rightarrow> bool" where
  "building h0 r c vs h \<longleftrightarrow> take (length h0) h = h0 \<and> length h0 \<le> length h \<and> length h0 \<le> c \<and>
     (\<exists>as. seg h (Some r) (as @ [c]) None \<and> vals h (as @ [c]) = vs)"

lemma building_old: "building h0 r c vs h \<Longrightarrow> a < length h0 \<Longrightarrow> a < length h \<and> h ! a = h0 ! a"
  unfolding building_def by (metis nth_take order_less_le_trans)

lemma building_emit:
  assumes "building h0 r c vs h"
  shows "\<exists>c' h'. emit v (Some c) h = Some (Some c', h') \<and> building h0 r c' (vs @ [v]) h'"
proof -
  obtain as where as: "seg h (Some r) (as @ [c]) None" "vals h (as @ [c]) = vs" using assms by (auto simp: building_def)
  obtain h' where h': "emit v (Some c) h = Some (Some (length h), h')" "seg h' (Some r) ((as @ [c]) @ [length h]) None"
    "vals h' ((as @ [c]) @ [length h]) = vs @ [v]" "length h' = length h + 1" "\<forall>a < length h. a \<noteq> c \<longrightarrow> h' ! a = h ! a"
    using emit_ok [OF as(1), of v] as(2) by auto
  have "take (length h0) h' = h0"
    using building_old [OF assms] h'(4,5) assms by (intro nth_equalityI) (auto simp: building_def)
  moreover have "\<exists>bs. seg h' (Some r) (bs @ [length h]) None \<and> vals h' (bs @ [length h]) = vs @ [v]" using h'(2,3) by blast
  ultimately have "building h0 r (length h) (vs @ [v]) h'" using h'(4) assms by (simp add: building_def)
  thus ?thesis using h'(1) by blast
qed

lemma add_both_ok:
  "seg h0 p as None \<Longrightarrow> seg h0 q bs None \<Longrightarrow> building h0 r c vs h \<Longrightarrow> digits (vals h0 as) \<Longrightarrow> digits (vals h0 bs) \<Longrightarrow> f = 0 \<or> f = 1 \<Longrightarrow>
    \<exists>p' q' as' bs' c' f' h' ws. add_both p q (Some c) f h = Some (p', q', Some c', f', h') \<and>
      seg h0 p' as' None \<and> seg h0 q' bs' None \<and> (as' = [] \<or> bs' = []) \<and> building h0 r c' (vs @ ws) h' \<and>
      digits (vals h0 as') \<and> digits (vals h0 bs') \<and> (f' = 0 \<or> f' = 1) \<and>
      add_lists (vals h0 as) (vals h0 bs) f = ws @ add_lists (vals h0 as') (vals h0 bs') f'"
proof (induction as arbitrary: p q bs c vs h f)
  case Nil
  hence "add_both p q (Some c) f h = Some (p, q, Some c, f, h)" by (subst add_both.simps) simp
  thus ?case using Nil
    by (intro exI [of _ p] exI [of _ q] exI [of _ "[]"] exI [of _ bs] exI [of _ c] exI [of _ f] exI [of _ h] exI [of _ "[] :: int list"]) simp
next
  case (Cons a as)
  show ?case
  proof (cases bs)
    case Nil
    thus ?thesis using Cons.prems
      by (subst add_both.simps) (simp, intro exI [of _ "a # as"] exI [of _ "[]"] exI [of _ "[] :: int list"], simp)
  next
    case bs: (Cons b bs')
    let ?s = "val (h0 ! a) + val (h0 ! b) + f"
    have ab: "p = Some a" "q = Some b" "a < length h0" "b < length h0" using Cons.prems(1,2) bs by auto
    have d: "0 \<le> val (h0 ! a)" "val (h0 ! a) \<le> 9" "0 \<le> val (h0 ! b)" "val (h0 ! b) \<le> 9" "f = 0 \<or> f = 1"
      using Cons.prems(4-6) bs by (auto simp: digits_def)
    hence fits: "in_int (val (h0 ! a) + val (h0 ! b))" "in_int ?s" by (auto simp: in_int_def)
    obtain c1 h1 where h1: "emit (fst (digit_carry ?s)) (Some c) h = Some (Some c1, h1)" "building h0 r c1 (vs @ [fst (digit_carry ?s)]) h1"
      using building_emit [OF Cons.prems(3)] by blast
    have step: "add_both p q (Some c) f h = add_both (nxt (h0 ! a)) (nxt (h0 ! b)) (Some c1) (snd (digit_carry ?s)) h1"
      using ab fits h1(1) building_old [OF Cons.prems(3)] by (subst add_both.simps) (simp add: heap_simps)
    have carry: "snd (digit_carry ?s) = 0 \<or> snd (digit_carry ?s) = 1" using digit_carry_ok [of ?s] d by auto
    have rest: "seg h0 (nxt (h0 ! a)) as None" "seg h0 (nxt (h0 ! b)) bs' None" "digits (vals h0 as)" "digits (vals h0 bs')"
      using Cons.prems bs by simp_all
    obtain p' q' as' bs'' c' f' h' ws where
      IH: "add_both (nxt (h0 ! a)) (nxt (h0 ! b)) (Some c1) (snd (digit_carry ?s)) h1 = Some (p', q', Some c', f', h')"
      "seg h0 p' as' None" "seg h0 q' bs'' None" "as' = [] \<or> bs'' = []" "building h0 r c' ((vs @ [fst (digit_carry ?s)]) @ ws) h'"
      "digits (vals h0 as')" "digits (vals h0 bs'')" "f' = 0 \<or> f' = 1"
      "add_lists (vals h0 as) (vals h0 bs') (snd (digit_carry ?s)) = ws @ add_lists (vals h0 as') (vals h0 bs'') f'"
      using Cons.IH [OF rest(1,2) h1(2) rest(3,4) carry] by (elim exE conjE) (rule that; assumption)
    have "add_lists (vals h0 (a # as)) (vals h0 bs) f = (fst (digit_carry ?s) # ws) @ add_lists (vals h0 as') (vals h0 bs'') f'"
      using IH(9) bs by simp
    moreover have "building h0 r c' (vs @ fst (digit_carry ?s) # ws) h'" using IH(5) by simp
    ultimately show ?thesis using step IH(1-4,6-8)
      by (intro exI [of _ p'] exI [of _ q'] exI [of _ as'] exI [of _ bs''] exI [of _ c'] exI [of _ f'] exI [of _ h']
          exI [of _ "fst (digit_carry ?s) # ws"]) simp
  qed
qed

lemma add_rest_ok:
  "seg h0 p as None \<Longrightarrow> building h0 r c vs h \<Longrightarrow> digits (vals h0 as) \<Longrightarrow> f = 0 \<or> f = 1 \<Longrightarrow>
    \<exists>c' f' h' ws. add_rest p (Some c) f h = Some (Some c', f', h') \<and> building h0 r c' (vs @ ws) h' \<and> (f' = 0 \<or> f' = 1) \<and>
      add_lists (vals h0 as) [] f = ws @ add_lists [] [] f' \<and> add_lists [] (vals h0 as) f = ws @ add_lists [] [] f'"
proof (induction as arbitrary: p c vs h f)
  case Nil
  thus ?case by (subst add_rest.simps) (auto intro: exI [of _ "[] :: int list"])
next
  case (Cons a as)
  let ?s = "val (h0 ! a) + f"
  have a: "p = Some a" "a < length h0" using Cons.prems(1) by auto
  have d: "0 \<le> val (h0 ! a)" "val (h0 ! a) \<le> 9" "f = 0 \<or> f = 1" using Cons.prems(3,4) by (auto simp: digits_def)
  hence fits: "in_int ?s" by (auto simp: in_int_def)
  obtain c1 h1 where h1: "emit (fst (digit_carry ?s)) (Some c) h = Some (Some c1, h1)" "building h0 r c1 (vs @ [fst (digit_carry ?s)]) h1"
    using building_emit [OF Cons.prems(2)] by blast
  have "add_rest p (Some c) f h = add_rest (nxt (h0 ! a)) (Some c1) (snd (digit_carry ?s)) h1"
    using a fits h1(1) building_old [OF Cons.prems(2)] by (subst add_rest.simps) (simp add: heap_simps)
  moreover have "snd (digit_carry ?s) = 0 \<or> snd (digit_carry ?s) = 1" using digit_carry_ok [of ?s] d by auto
  ultimately show ?case
    using Cons.IH [OF _ h1(2), of "nxt (h0 ! a)" "snd (digit_carry ?s)"] Cons.prems by (fastforce simp: digits_def)
qed

section \<open>The sum\<close>

lemma addTwoNumbers_ok:
  assumes p: "seg h p as None" "as \<noteq> []" "digits (vals h as)" and q: "seg h q bs None" "bs \<noteq> []" "digits (vals h bs)"
  shows "\<exists>s h' cs. addTwoNumbers p q h = Some (s, h') \<and> seg h' s cs None \<and> take (length h) h' = h \<and>
    vals h' cs = add_lists (vals h as) (vals h bs) 0"
proof -
  have pq: "p \<noteq> None" "q \<noteq> None" using p q by (cases as; cases bs; auto)+
  let ?h = "h @ [\<lparr>val = -1, nxt = None\<rparr>]"
  have "seg ?h (Some (length h)) ([] @ [length h]) None \<and> vals ?h ([] @ [length h]) = [-1]" by simp
  hence start: "building h (length h) (length h) [-1] ?h" unfolding building_def by (intro conjI exI [of _ "[]"]) simp_all
  obtain p' q' as' bs' c1 f1 h1 w1 where b: "add_both p q (Some (length h)) 0 ?h = Some (p', q', Some c1, f1, h1)"
    "seg h p' as' None" "seg h q' bs' None" "as' = [] \<or> bs' = []" "building h (length h) c1 ([-1] @ w1) h1"
    "digits (vals h as')" "digits (vals h bs')" "f1 = 0 \<or> f1 = 1"
    "add_lists (vals h as) (vals h bs) 0 = w1 @ add_lists (vals h as') (vals h bs') f1"
    using add_both_ok [OF p(1) q(1) start p(3) q(3) disjI1 [OF refl]] by (elim exE conjE) (rule that; assumption)
  obtain c2 f2 h2 w2 where r1: "add_rest p' (Some c1) f1 h1 = Some (Some c2, f2, h2)" "building h (length h) c2 (([-1] @ w1) @ w2) h2"
    "f2 = 0 \<or> f2 = 1" "add_lists (vals h as') [] f1 = w2 @ add_lists [] [] f2"
    using add_rest_ok [OF b(2,5,6,8)] by blast
  obtain c3 f3 h3 w3 where r2: "add_rest q' (Some c2) f2 h2 = Some (Some c3, f3, h3)" "building h (length h) c3 ((([-1] @ w1) @ w2) @ w3) h3"
    "f3 = 0 \<or> f3 = 1" "add_lists [] (vals h bs') f2 = w3 @ add_lists [] [] f3"
    using add_rest_ok [OF b(3) r1(2) b(7) r1(3)] by blast
  have rest: "add_lists (vals h as') (vals h bs') f1 = w2 @ w3 @ add_lists [] [] f3"
  proof (cases "bs' = []")
    case True
    hence "w3 @ add_lists [] [] f3 = add_lists [] [] f2" using r2(4) by simp
    thus ?thesis using True r1(4) by simp
  next
    case False
    hence "as' = []" using b(4) by simp
    hence "p' = None" using b(2) by simp
    hence "f2 = f1" "c2 = c1" "h2 = h1" using r1(1) add_rest.simps [of p' "Some c1" f1 h1] by simp_all
    moreover have "w2 = []" using r1(4) \<open>as' = []\<close> \<open>f2 = f1\<close> by simp
    ultimately show ?thesis using \<open>as' = []\<close> r2(4) by simp
  qed
  obtain c4 h4 where last: "(if f3 \<noteq> 0 then emit f3 (Some c3) h3 else Some (Some c3, h3)) = Some (Some c4, h4)"
    "building h (length h) c4 ([-1] @ w1 @ w2 @ w3 @ add_lists [] [] f3) h4"
    using building_emit [OF r2(2), of f3] r2(2) by (cases "f3 = 0") auto
  obtain cs where cs: "seg h4 (Some (length h)) (cs @ [c4]) None" "vals h4 (cs @ [c4]) = -1 # (w1 @ w2 @ w3 @ add_lists [] [] f3)"
    "take (length h) h4 = h" using last(2) by (auto simp: building_def)
  obtain d ds where d: "cs @ [c4] = d # ds" by (cases "cs @ [c4]") auto
  hence "d = length h" "d < length h4" "seg h4 (nxt (h4 ! d)) ds None" "vals h4 ds = w1 @ w2 @ w3 @ add_lists [] [] f3"
    using cs(1,2) by auto
  thus ?thesis using b(1,9) r1(1) r2(1) last(1) cs(3) rest
    by (intro exI [of _ "nxt (h4 ! d)"] exI [of _ h4] exI [of _ ds]) (simp add: pq addTwoNumbers_def new_node_def heap_simps)
qed

text \<open>
  For two non-empty lists of decimal digits \<^verbatim>\<open>addTwoNumbers\<close> builds a list of decimal digits whose number is
  the sum, of any length and without changing the two lists; if one of the lists is empty the result is null.
\<close>

theorem addTwoNumbers_sum:
  assumes "seg h p as None" "digits (vals h as)" "seg h q bs None" "digits (vals h bs)"
  shows "if as = [] \<or> bs = [] then addTwoNumbers p q h = Some (None, h)
    else \<exists>s h' cs. addTwoNumbers p q h = Some (s, h') \<and> seg h' s cs None \<and> take (length h) h' = h \<and>
      digits (vals h' cs) \<and> number_of (vals h' cs) = number_of (vals h as) + number_of (vals h bs)"
proof (cases "as = [] \<or> bs = []")
  case True
  hence "p = None \<or> q = None" using assms(1,3) by auto
  thus ?thesis using True by (simp add: addTwoNumbers_def)
next
  case False
  then obtain s h' cs where "addTwoNumbers p q h = Some (s, h')" "seg h' s cs None" "take (length h) h' = h"
    "vals h' cs = add_lists (vals h as) (vals h bs) 0"
    using addTwoNumbers_ok [OF assms(1) _ assms(2,3) _ assms(4)] by blast
  thus ?thesis using False add_lists_ok [OF assms(2,4), of 0] by auto
qed

theorem addTwoNumbers_sum_witness:
  "\<exists>s h' cs. addTwoNumbers (Some 0) (Some 2) [\<lparr>val = 5, nxt = Some 1\<rparr>, \<lparr>val = 9, nxt = None\<rparr>, \<lparr>val = 7, nxt = None\<rparr>] = Some (s, h') \<and>
    seg h' s cs None \<and> number_of (vals h' cs) = 102"
  using addTwoNumbers_sum [of "[\<lparr>val = 5, nxt = Some 1\<rparr>, \<lparr>val = 9, nxt = None\<rparr>, \<lparr>val = 7, nxt = None\<rparr>]" "Some 0" "[0, 1]" "Some 2" "[2]"]
  by auto

end
