(* ===== verification/ListMerge.thy ===== *)
theory ListMerge
  imports ListHeap
begin

text \<open>
  Exercises on linked lists that relink existing nodes or only read them: merging sorted lists
  (\<^verbatim>\<open>mergeTwoLists\<close>, \<^verbatim>\<open>mergeKLists\<close>), removing duplicates (\<^verbatim>\<open>removeDuplicateNodes\<close>), and the element
  at a distance from the end (\<^verbatim>\<open>kthToLast\<close>).
\<close>

section \<open>The programs\<close>

partial_function (option) mergeTwoLists :: "pointer \<Rightarrow> pointer \<Rightarrow> nodes \<Rightarrow> (pointer \<times> nodes) ub" where
  "mergeTwoLists l1 l2 h =
     (if l1 = None then Some (l2, h)
      else if l2 = None then Some (l1, h)
      else do {
        n1 \<leftarrow> deref h l1;
        n2 \<leftarrow> deref h l2;
        if val n1 < val n2
        then do { (p, h) \<leftarrow> mergeTwoLists (nxt n1) l2 h; h \<leftarrow> set_nxt h l1 p; Some (l1, h) }
        else do { (p, h) \<leftarrow> mergeTwoLists l1 (nxt n2) h; h \<leftarrow> set_nxt h l2 p; Some (l2, h) }
      })"

fun merge_loop :: "pointer list \<Rightarrow> pointer \<Rightarrow> nodes \<Rightarrow> nodes ub" where
  "merge_loop [] cur h = Some h"
| "merge_loop (l # ls) cur h = do {
     n \<leftarrow> deref h cur;
     (p, h) \<leftarrow> mergeTwoLists (nxt n) l h;
     h \<leftarrow> set_nxt h cur p;
     merge_loop ls cur h
   }"

definition mergeKLists :: "pointer list \<Rightarrow> nodes \<Rightarrow> (pointer \<times> nodes) ub" where
  "mergeKLists ls h = do {
     let (head, h) = new_node (-1) h;
     h \<leftarrow> merge_loop ls head h;
     n \<leftarrow> deref h head;
     Some (nxt n, h)
   }"

partial_function (option) skip_loop :: "int \<Rightarrow> pointer \<Rightarrow> nodes \<Rightarrow> pointer ub" where
  "skip_loop v nextNode h =
     (if nextNode = None then Some None
      else do { n \<leftarrow> deref h nextNode; if v = val n then skip_loop v (nxt n) h else Some nextNode })"

partial_function (option) remove_loop :: "pointer \<Rightarrow> nodes \<Rightarrow> nodes ub" where
  "remove_loop cur h =
     (if cur = None then Some h
      else do {
        n \<leftarrow> deref h cur;
        same \<leftarrow> (if nxt n = None then Some False else do { m \<leftarrow> deref h (nxt n); Some (val n = val m) });
        h \<leftarrow> (if same then do { p \<leftarrow> skip_loop (val n) (nxt n) h; set_nxt h cur p } else Some h);
        n \<leftarrow> deref h cur;
        remove_loop (nxt n) h
      })"

definition removeDuplicateNodes :: "pointer \<Rightarrow> nodes \<Rightarrow> (pointer \<times> nodes) ub" where
  "removeDuplicateNodes head h = (if head = None then Some (None, h) else do { h \<leftarrow> remove_loop head h; Some (head, h) })"

partial_function (option) length_loop :: "pointer \<Rightarrow> int \<Rightarrow> nodes \<Rightarrow> int ub" where
  "length_loop cur len h =
     (if cur = None then Some len
      else do { n \<leftarrow> deref h cur; len \<leftarrow> as_int (len + 1); length_loop (nxt n) len h })"

fun walk :: "nat \<Rightarrow> pointer \<Rightarrow> nodes \<Rightarrow> pointer ub" where
  "walk 0 cur h = Some cur"
| "walk (Suc step) cur h = do { n \<leftarrow> deref h cur; walk step (nxt n) h }"

definition kthToLast :: "pointer \<Rightarrow> int \<Rightarrow> nodes \<Rightarrow> int ub" where
  "kthToLast head k h =
     (if head = None then Some (-1)
      else if k < 0 then Some (-1)
      else do {
        len \<leftarrow> length_loop head 0 h;
        if k \<ge> len then do { n \<leftarrow> deref h head; Some (val n) }
        else do { cur \<leftarrow> walk (nat (len - k)) head h; n \<leftarrow> deref h cur; Some (val n) }
      })"

section \<open>Merging\<close>

text \<open>
  What a program that relinks the nodes \<open>S\<close> does to the heap: it changes nothing else, and no value.
\<close>

definition relinks :: "nat set \<Rightarrow> nodes \<Rightarrow> nodes \<Rightarrow> bool" where
  "relinks S h h' \<longleftrightarrow> length h' = length h \<and> (\<forall>a. val (h' ! a) = val (h ! a)) \<and> (\<forall>a. a \<notin> S \<longrightarrow> h' ! a = h ! a)"

lemma relinks_refl [simp]: "relinks S h h"
  by (simp add: relinks_def)

lemma relinks_trans: "relinks S h h' \<Longrightarrow> relinks T h' h'' \<Longrightarrow> relinks (S \<union> T) h h''"
  by (simp add: relinks_def)

lemma relinks_mono: "relinks S h h' \<Longrightarrow> S \<subseteq> T \<Longrightarrow> relinks T h h'"
  by (auto simp: relinks_def)

lemma relinks_set: "a < length h \<Longrightarrow> a \<in> S \<Longrightarrow> relinks S h (h[a := (h ! a)\<lparr>nxt := q\<rparr>])"
  by (auto simp: relinks_def nth_list_update)

lemma relinks_vals: "relinks S h h' \<Longrightarrow> vals h' as = vals h as"
  by (simp add: relinks_def vals_def)

lemma relinks_seg: "relinks S h h' \<Longrightarrow> set as \<inter> S = {} \<Longrightarrow> seg h p as q \<Longrightarrow> seg h' p as q"
proof (rule seg_cong)
  assume "relinks S h h'" "set as \<inter> S = {}" and s: "seg h p as q"
  thus "a < length h' \<and> nxt (h' ! a) = nxt (h ! a)" if "a \<in> set as" for a
    using seg_length [OF s that] that by (auto simp: relinks_def)
qed

definition merged :: "nodes \<Rightarrow> nat list \<Rightarrow> nat list \<Rightarrow> nat list \<Rightarrow> bool" where
  "merged h as bs cs \<longleftrightarrow> mset cs = mset as + mset bs \<and> (sorted (vals h as) \<and> sorted (vals h bs) \<longrightarrow> sorted (vals h cs))"

lemma merged_left:
  assumes "merged h as (b # bs) cs" "val (h ! a) < val (h ! b)" shows "merged h (a # as) (b # bs) (a # cs)"
proof -
  have "set cs = set as \<union> set (b # bs)" using assms(1) by (metis merged_def set_mset_mset set_mset_union)
  thus ?thesis using assms by (auto simp: merged_def vals_def)
qed

lemma merged_right:
  assumes "merged h (a # as) bs cs" "val (h ! b) \<le> val (h ! a)" shows "merged h (a # as) (b # bs) (b # cs)"
proof -
  have "set cs = set (a # as) \<union> set bs" using assms(1) by (metis merged_def set_mset_mset set_mset_union)
  thus ?thesis using assms by (auto simp: merged_def vals_def)
qed

text \<open>Putting a node in front of a merged list after the recursive call.\<close>

lemma prepend:
  assumes "relinks S h h'" "seg h' p cs None" "a < length h" "a \<notin> set cs"
  shows "set_nxt h' (Some a) p = Some (h'[a := (h' ! a)\<lparr>nxt := p\<rparr>])" "seg (h'[a := (h' ! a)\<lparr>nxt := p\<rparr>]) (Some a) (a # cs) None"
    "relinks (insert a S) h (h'[a := (h' ! a)\<lparr>nxt := p\<rparr>])"
proof -
  have a: "a < length h'" using assms(1,3) by (simp add: relinks_def)
  have "relinks {a} h' (h'[a := (h' ! a)\<lparr>nxt := p\<rparr>])" using a by (intro relinks_set) simp_all
  from relinks_trans [OF assms(1) this] show "relinks (insert a S) h (h'[a := (h' ! a)\<lparr>nxt := p\<rparr>])" by simp
  show "set_nxt h' (Some a) p = Some (h'[a := (h' ! a)\<lparr>nxt := p\<rparr>])" using a by (rule set_nxt_in)
  show "seg (h'[a := (h' ! a)\<lparr>nxt := p\<rparr>]) (Some a) (a # cs) None" using a assms by simp
qed

lemma mergeTwoLists_ok:
  "seg h p as None \<Longrightarrow> seg h q bs None \<Longrightarrow> set as \<inter> set bs = {} \<Longrightarrow>
    \<exists>r h' cs. mergeTwoLists p q h = Some (r, h') \<and> seg h' r cs None \<and> merged h as bs cs \<and> relinks (set as \<union> set bs) h h'"
proof (induction "length as + length bs" arbitrary: p q as bs rule: less_induct)
  case less
  have d: "distinct as" "distinct bs" using less.prems(1,2) seg_null_distinct by auto
  consider "as = []" | "as \<noteq> []" "bs = []" | a as' b bs' where "as = a # as'" "bs = b # bs'" by (cases as; cases bs) auto
  thus ?case
  proof cases
    case 1
    hence "mergeTwoLists p q h = Some (q, h)" using less.prems(1) by (subst mergeTwoLists.simps) simp
    thus ?thesis using 1 less.prems(2) by (intro exI [of _ q] exI [of _ h] exI [of _ bs]) (simp add: merged_def)
  next
    case 2
    hence "mergeTwoLists p q h = Some (p, h)" using less.prems(1,2) by (subst mergeTwoLists.simps) simp
    thus ?thesis using 2 less.prems(1) by (intro exI [of _ p] exI [of _ h] exI [of _ as]) (simp add: merged_def)
  next
    case 3
    hence ab: "p = Some a" "q = Some b" "a < length h" "b < length h" "seg h (nxt (h ! a)) as' None" "seg h (nxt (h ! b)) bs' None"
      using less.prems(1,2) by auto
    note step = mergeTwoLists.simps [of p q h]
    show ?thesis
    proof (cases "val (h ! a) < val (h ! b)")
      case True
      obtain r h' cs where r: "mergeTwoLists (nxt (h ! a)) q h = Some (r, h')" "seg h' r cs None" "merged h as' bs cs" "relinks (set as' \<union> set bs) h h'"
        using less.hyps [OF _ ab(5) less.prems(2)] less.prems(3) 3 by auto
      have "set cs = set as' \<union> set bs" using r(3) by (metis merged_def set_mset_mset set_mset_union)
      hence "a \<notin> set cs" using d less.prems(3) 3 by auto
      note pre = prepend [OF r(4,2) ab(3) this]
      have "mergeTwoLists p q h = Some (Some a, h'[a := (h' ! a)\<lparr>nxt := r\<rparr>])"
        using r(1) True ab pre(1) by (subst step) (simp add: heap_simps)
      moreover have "insert a (set as' \<union> set bs) = set as \<union> set bs" using 3 by auto
      ultimately show ?thesis using pre(2,3) merged_left [OF r(3) [unfolded 3(2)] True] 3 by metis
    next
      case False
      obtain r h' cs where r: "mergeTwoLists p (nxt (h ! b)) h = Some (r, h')" "seg h' r cs None" "merged h as bs' cs" "relinks (set as \<union> set bs') h h'"
        using less.hyps [OF _ less.prems(1) ab(6)] less.prems(3) 3 by auto
      have "set cs = set as \<union> set bs'" using r(3) by (metis merged_def set_mset_mset set_mset_union)
      hence "b \<notin> set cs" using d less.prems(3) 3 by auto
      note pre = prepend [OF r(4,2) ab(4) this]
      have "mergeTwoLists p q h = Some (Some b, h'[b := (h' ! b)\<lparr>nxt := r\<rparr>])"
        using r(1) False ab pre(1) by (subst step) (simp add: heap_simps)
      moreover have "insert b (set as \<union> set bs') = set as \<union> set bs" using 3 by auto
      ultimately show ?thesis using pre(2,3) merged_right [OF r(3) [unfolded 3(1)], of b] False 3 by (metis not_less)
    qed
  qed
qed

text \<open>The loop over the vector keeps a merged list behind the extra node \<open>c\<close>.\<close>

lemma merge_loop_ok:
  "list_all2 (\<lambda>p as. seg h p as None) ls ass \<Longrightarrow> c < length h \<Longrightarrow> seg h (nxt (h ! c)) as None \<Longrightarrow>
    distinct (c # as @ concat ass) \<Longrightarrow>
    \<exists>h' cs. merge_loop ls (Some c) h = Some h' \<and> c < length h' \<and> seg h' (nxt (h' ! c)) cs None \<and>
      mset cs = mset as + mset (concat ass) \<and> relinks (insert c (set as \<union> set (concat ass))) h h' \<and>
      (sorted (vals h as) \<and> (\<forall>bs \<in> set ass. sorted (vals h bs)) \<longrightarrow> sorted (vals h cs))"
proof (induction ls arbitrary: ass h as)
  case Nil
  thus ?case by (intro exI [of _ h] exI [of _ as]) simp
next
  case (Cons l ls)
  then obtain bs ass' where ass: "ass = bs # ass'" "seg h l bs None" "list_all2 (\<lambda>p as. seg h p as None) ls ass'"
    by (auto simp: list_all2_Cons1)
  have disjoint: "set as \<inter> set bs = {}" using Cons.prems(4) ass(1) by auto
  obtain r h1 cs where r: "mergeTwoLists (nxt (h ! c)) l h = Some (r, h1)" "seg h1 r cs None" "merged h as bs cs" "relinks (set as \<union> set bs) h h1"
    using mergeTwoLists_ok [OF Cons.prems(3) ass(2) disjoint] by blast
  have cs: "mset cs = mset as + mset bs" "set cs = set as \<union> set bs" using r(3) by (auto simp: merged_def simp flip: set_mset_mset)
  have dcs: "distinct cs" using r(2) by (rule seg_null_distinct)
  have c: "c \<notin> set cs" using Cons.prems(4) cs(2) ass(1) by auto
  let ?h = "h1[c := (h1 ! c)\<lparr>nxt := r\<rparr>]"
  have pre: "set_nxt h1 (Some c) r = Some ?h" "seg ?h (Some c) (c # cs) None" "relinks (insert c (set as \<union> set bs)) h ?h"
    using prepend [OF r(4,2) Cons.prems(2) c] by blast+
  have keep: "seg ?h p xs None" if "seg h p xs None" "xs \<in> set ass'" for p xs
    using relinks_seg [OF pre(3) _ that(1)] Cons.prems(4) that(2) ass(1) by fastforce
  have "list_all2 (\<lambda>p as. seg ?h p as None) ls ass'"
    using ass(3) keep by (simp add: list_all2_conv_all_nth)
  moreover have "distinct (c # cs @ concat ass')" using Cons.prems(4) dcs cs(2) ass(1) by auto
  moreover have "c < length ?h" "seg ?h (nxt (?h ! c)) cs None" using pre(2) unfolding seg.simps(2) [of ?h "Some c" c cs] by blast+
  ultimately have "\<exists>h' ds. merge_loop ls (Some c) ?h = Some h' \<and> c < length h' \<and> seg h' (nxt (h' ! c)) ds None \<and>
      mset ds = mset cs + mset (concat ass') \<and> relinks (insert c (set cs \<union> set (concat ass'))) ?h h' \<and>
      (sorted (vals ?h cs) \<and> (\<forall>bs \<in> set ass'. sorted (vals ?h bs)) \<longrightarrow> sorted (vals ?h ds))"
    by (intro Cons.IH)
  then obtain h' ds where IH: "merge_loop ls (Some c) ?h = Some h'" "c < length h'" "seg h' (nxt (h' ! c)) ds None"
    "mset ds = mset cs + mset (concat ass')" "relinks (insert c (set cs \<union> set (concat ass'))) ?h h'"
    "sorted (vals ?h cs) \<and> (\<forall>bs \<in> set ass'. sorted (vals ?h bs)) \<longrightarrow> sorted (vals ?h ds)"
    by blast
  have v: "vals ?h xs = vals h xs" for xs using relinks_vals [OF pre(3)] .
  have "merge_loop (l # ls) (Some c) h = Some h'" using r(1) pre(1) IH(1) Cons.prems(2) by (simp add: heap_simps)
  moreover have "relinks (insert c (set as \<union> set (concat ass))) h h'"
    using relinks_trans [OF pre(3) IH(5)] by (rule relinks_mono) (auto simp: cs(2) ass(1))
  moreover have "sorted (vals h as) \<and> (\<forall>bs \<in> set ass. sorted (vals h bs)) \<longrightarrow> sorted (vals h ds)"
    using IH(6) r(3) unfolding v by (auto simp: merged_def ass(1))
  ultimately show ?case using IH(2-4) cs(1) ass(1) by (intro exI [of _ h'] exI [of _ ds]) auto
qed

text \<open>
  C37. \<^verbatim>\<open>mergeKLists\<close> relinks the nodes of any number of disjoint lists into one list that holds exactly these
  nodes; if each list is sorted, so is the result. It changes no value and no other old node, and it never
  uses a null pointer.
\<close>

theorem mergeKLists_sorted:
  assumes "list_all2 (\<lambda>p as. seg h p as None) ls ass" "distinct (concat ass)"
  shows "\<exists>r h' cs. mergeKLists ls h = Some (r, h') \<and> seg h' r cs None \<and> mset cs = mset (concat ass) \<and>
    mset (vals h' cs) = mset (concat (map (vals h) ass)) \<and>
    (list_all (\<lambda>as. sorted (vals h as)) ass \<longrightarrow> sorted (vals h' cs)) \<and>
    (\<forall>a < length h. a \<notin> set (concat ass) \<longrightarrow> h' ! a = h ! a)"
proof -
  let ?h = "h @ [\<lparr>val = -1, nxt = None\<rparr>]" and ?c = "length h"
  have len: "a < length h" if "as \<in> set ass" "a \<in> set as" for a as
    using assms(1) that seg_length by (fastforce simp: list_all2_conv_all_nth in_set_conv_nth [of as])
  have old: "seg ?h p as None" if "seg h p as None" for p as
    using seg_length [OF that] by (intro seg_cong [OF that]) (auto simp: nth_append intro: less_SucI)
  have vals: "vals ?h as = vals h as" if "as \<in> set ass" for as using len [OF that] by (auto simp: vals_def nth_append)
  have all: "list_all2 (\<lambda>p as. seg ?h p as None) ls ass" by (rule list_all2_mono [OF assms(1) old])
  have d: "distinct (?c # [] @ concat ass)" using assms(2) len by fastforce
  obtain h' cs where m: "merge_loop ls (Some ?c) ?h = Some h'" "?c < length h'" "seg h' (nxt (h' ! ?c)) cs None"
    "mset cs = mset [] + mset (concat ass)" "relinks (insert ?c (set [] \<union> set (concat ass))) ?h h'"
    "sorted (vals ?h []) \<and> (\<forall>bs \<in> set ass. sorted (vals ?h bs)) \<longrightarrow> sorted (vals ?h cs)"
    using merge_loop_ok [OF all _ _ d] by auto
  have v: "vals h' xs = vals ?h xs" for xs using relinks_vals [OF m(5)] .
  have "mset (vals h' cs) = image_mset (\<lambda>a. val (?h ! a)) (mset (concat ass))" unfolding v using m(4) by (simp add: vals_def)
  also have "\<dots> = mset (concat (map (vals ?h) ass))" by (simp add: vals_def [abs_def] map_concat flip: mset_map)
  also have "map (vals ?h) ass = map (vals h) ass" using vals by simp
  finally have "mset (vals h' cs) = mset (concat (map (vals h) ass))" .
  moreover have "list_all (\<lambda>as. sorted (vals h as)) ass \<longrightarrow> sorted (vals h' cs)"
    unfolding v using m(6) vals by (auto simp: list_all_iff)
  moreover have "h' ! a = h ! a" if "a < length h" "a \<notin> set (concat ass)" for a
    using m(5) that by (auto simp: relinks_def nth_append)
  moreover have "mergeKLists ls h = Some (nxt (h' ! ?c), h')" using m(1,2) by (simp add: mergeKLists_def new_node_def heap_simps)
  ultimately show ?thesis using m(3,4) by (intro exI [of _ "nxt (h' ! ?c)"] exI [of _ h'] exI [of _ cs]) auto
qed

theorem mergeKLists_sorted_witness:
  "\<exists>r h' cs. mergeKLists [Some 0, Some 2] [\<lparr>val = 3, nxt = Some 1\<rparr>, \<lparr>val = 9, nxt = None\<rparr>, \<lparr>val = 5, nxt = None\<rparr>] = Some (r, h') \<and>
    seg h' r cs None \<and> mset (vals h' cs) = {#3, 5, 9#} \<and> sorted (vals h' cs)"
  using mergeKLists_sorted [of "[\<lparr>val = 3, nxt = Some 1\<rparr>, \<lparr>val = 9, nxt = None\<rparr>, \<lparr>val = 5, nxt = None\<rparr>]" "[Some 0, Some 2]" "[[0, 1], [2]]"]
  by (fastforce simp: add_mset_commute)

section \<open>Removing duplicates\<close>

lemma skip_loop_ok:
  "seg h p as None \<Longrightarrow> \<exists>q. skip_loop v p h = Some q \<and> seg h q (dropWhile (\<lambda>b. val (h ! b) = v) as) None"
proof (induction as arbitrary: p)
  case Nil
  thus ?case by (subst skip_loop.simps) simp
next
  case (Cons a as)
  show ?case
  proof (cases "val (h ! a) = v")
    case True
    hence "skip_loop v p h = skip_loop v (nxt (h ! a)) h" using Cons.prems by (subst skip_loop.simps) (simp add: heap_simps)
    thus ?thesis using Cons True by simp
  next
    case False
    hence "skip_loop v p h = Some p" using Cons.prems by (subst skip_loop.simps) (auto simp: heap_simps)
    thus ?thesis using Cons.prems False by simp
  qed
qed

lemma vals_dropWhile: "vals h (dropWhile (\<lambda>b. val (h ! b) = v) as) = dropWhile (\<lambda>x. x = v) (vals h as)"
  by (simp add: vals_def dropWhile_map o_def)

text \<open>One round of the loop: the nodes with the value of the current node are unlinked behind it.\<close>

lemma remove_round:
  assumes "seg h (Some a) (a # as) None"
  shows "\<exists>h1 q. remove_loop (Some a) h = remove_loop q h1 \<and> a < length h1 \<and> nxt (h1 ! a) = q \<and> relinks {a} h h1 \<and>
    seg h1 q (dropWhile (\<lambda>b. val (h ! b) = val (h ! a)) as) None"
proof -
  let ?v = "val (h ! a)" and ?n = "nxt (h ! a)"
  have a: "a < length h" "seg h ?n as None" "a \<notin> set as" using assms seg_null_distinct [OF assms] by auto
  have first: "as \<noteq> [] \<Longrightarrow> ?n = Some (hd as) \<and> hd as < length h" using a(2) by (cases as) auto
  note step = remove_loop.simps [of "Some a" h] deref_in
  show ?thesis
  proof (cases "as \<noteq> [] \<and> ?v = val (h ! hd as)")
    case True
    obtain q where q: "skip_loop ?v ?n h = Some q" "seg h q (dropWhile (\<lambda>b. val (h ! b) = ?v) as) None" using skip_loop_ok [OF a(2)] by blast
    let ?h = "h[a := (h ! a)\<lparr>nxt := q\<rparr>]"
    have "remove_loop (Some a) h = remove_loop q ?h" using True first a(1) q(1) by (simp add: step set_nxt_in)
    moreover have "relinks {a} h ?h" using a(1) by (intro relinks_set) simp_all
    moreover have "seg ?h q (dropWhile (\<lambda>b. val (h ! b) = ?v) as) None" 
    proof -
      have "a \<notin> set (dropWhile (\<lambda>b. val (h ! b) = ?v) as)" using a(3) set_dropWhileD [of a _ as] by blast
      thus ?thesis using q(2) by simp
    qed
    ultimately show ?thesis using a(1) by (intro exI [of _ ?h] exI [of _ q]) simp
  next
    case False
    hence "dropWhile (\<lambda>b. val (h ! b) = ?v) as = as" by (cases as) auto
    moreover have "remove_loop (Some a) h = remove_loop ?n h" using False first a by (cases as) (auto simp: step)
    ultimately show ?thesis using a by (intro exI [of _ h] exI [of _ ?n]) simp
  qed
qed

lemma remove_loop_ok:
  "seg h p as None \<Longrightarrow> \<exists>h' cs. remove_loop p h = Some h' \<and> seg h' p cs None \<and> set cs \<subseteq> set as \<and> relinks (set as) h h' \<and>
    vals h cs = remdups_adj (vals h as)"
proof (induction "length as" arbitrary: as p h rule: less_induct)
  case less
  show ?case
  proof (cases as)
    case Nil
    hence "p = None" using less.prems by simp
    thus ?thesis using Nil by (subst remove_loop.simps) (simp add: exI [of _ "[]"])
  next
    case (Cons a as')
    let ?ys = "dropWhile (\<lambda>b. val (h ! b) = val (h ! a)) as'"
    have p: "p = Some a" "seg h (Some a) (a # as') None" and fresh: "a \<notin> set as'" "set ?ys \<subseteq> set as'"
      using less.prems Cons seg_null_distinct [OF less.prems] by (auto dest: set_dropWhileD)
    obtain h1 q where h1: "remove_loop (Some a) h = remove_loop q h1" "a < length h1" "nxt (h1 ! a) = q" "relinks {a} h h1" "seg h1 q ?ys None"
      using remove_round [OF p(2)] by blast
    have "length ?ys < length as" using Cons length_dropWhile_le [of _ as'] by (simp add: le_imp_less_Suc)
    then obtain h2 cs where h2: "remove_loop q h1 = Some h2" "seg h2 q cs None" "set cs \<subseteq> set ?ys" "relinks (set ?ys) h1 h2"
      "vals h1 cs = remdups_adj (vals h1 ?ys)" using less.hyps [OF _ h1(5)] by blast
    have "h2 ! a = h1 ! a" "a < length h2" using h2(4) h1(2) fresh by (auto simp: relinks_def)
    hence "seg h2 (Some a) (a # cs) None" using h2(2) h1(3) by simp
    moreover have "relinks (set as) h h2" using relinks_trans [OF h1(4) h2(4)] by (rule relinks_mono) (use fresh Cons in auto)
    moreover have "vals h (a # cs) = remdups_adj (vals h as)"
      using h2(5) Cons unfolding relinks_vals [OF h1(4)] by (simp add: vals_dropWhile remdups_adj_Cons')
    ultimately show ?thesis using p(1) h1(1) h2(1,3) fresh(2) Cons by (intro exI [of _ h2] exI [of _ "a # cs"]) auto
  qed
qed

lemma sorted_remdups_adj_distinct: "sorted xs \<Longrightarrow> distinct (remdups_adj xs)"
proof (induction xs rule: remdups_adj.induct)
  case (3 x y xs)
  thus ?case by (cases "x = y") (auto simp: order_le_less)
qed simp_all

text \<open>
  \<^verbatim>\<open>removeDuplicateNodes\<close> unlinks every node whose value equals that of the node before it. On a
  sorted list no duplicate is left; on other lists they are left wherever they are not neighbours.
\<close>

theorem removeDuplicateNodes_neighbours:
  assumes "seg h p as None"
  shows "\<exists>h' cs. removeDuplicateNodes p h = Some (p, h') \<and> seg h' p cs None \<and> set cs \<subseteq> set as \<and>
    vals h' cs = remdups_adj (vals h as) \<and> (sorted (vals h as) \<longrightarrow> distinct (vals h' cs) \<and> set (vals h' cs) = set (vals h as))"
proof -
  obtain h' cs where r: "remove_loop p h = Some h'" "seg h' p cs None" "set cs \<subseteq> set as" "relinks (set as) h h'" "vals h cs = remdups_adj (vals h as)"
    using remove_loop_ok [OF assms] by blast
  have "removeDuplicateNodes p h = Some (p, h')" using r(1) by (auto simp: removeDuplicateNodes_def remove_loop.simps [of None])
  thus ?thesis using r relinks_vals [OF r(4)] by (intro exI [of _ h'] exI [of _ cs]) (simp add: sorted_remdups_adj_distinct)
qed

theorem removeDuplicateNodes_neighbours_witness:
  "\<exists>h' cs. removeDuplicateNodes (Some 0) [\<lparr>val = 1, nxt = Some 1\<rparr>, \<lparr>val = 2, nxt = Some 2\<rparr>, \<lparr>val = 2, nxt = Some 3\<rparr>, \<lparr>val = 1, nxt = None\<rparr>] =
    Some (Some 0, h') \<and> seg h' (Some 0) cs None \<and> vals h' cs = [1, 2, 1]"
  using removeDuplicateNodes_neighbours [of "[\<lparr>val = 1, nxt = Some 1\<rparr>, \<lparr>val = 2, nxt = Some 2\<rparr>, \<lparr>val = 2, nxt = Some 3\<rparr>, \<lparr>val = 1, nxt = None\<rparr>]"
      "Some 0" "[0, 1, 2, 3]"] by fastforce

section \<open>The element before the end\<close>

lemma length_loop_ok: "seg h p as None \<Longrightarrow> 0 \<le> n \<Longrightarrow> in_int (n + int (length as)) \<Longrightarrow> length_loop p n h = Some (n + int (length as))"
proof (induction as arbitrary: p n)
  case Nil
  thus ?case by (subst length_loop.simps) simp
next
  case (Cons a as)
  hence "in_int (n + 1)" by (simp add: in_int_def)
  thus ?case using Cons by (subst length_loop.simps) (simp add: heap_simps algebra_simps)
qed

lemma walk_ok: "seg h p as q \<Longrightarrow> i \<le> length as \<Longrightarrow> \<exists>m. walk i p h = Some m \<and> seg h m (drop i as) q"
proof (induction as arbitrary: p i)
  case (Cons a as)
  thus ?case by (cases i) (auto simp: heap_simps)
qed simp

text \<open>
  \<^verbatim>\<open>kthToLast\<close> returns the element \<open>k\<close> places from the end, and the first one when the list is shorter. For
  \<open>k = 0\<close> it goes to the end of the list and dereferences null.
\<close>

theorem kthToLast_element:
  assumes "seg h p as None" "as \<noteq> []" "in_int (int (length as))"
  shows "kthToLast p k h = (if k < 0 then Some (-1) else if k = 0 then None else Some (vals h as ! (length as - nat k)))"
proof -
  obtain a as' where as: "as = a # as'" using assms(2) by (cases as) auto
  have p: "p = Some a" "a < length h" using assms(1) as by auto
  have count: "length_loop p 0 h = Some (int (length as))" using length_loop_ok [OF assms(1), of 0] assms(3) by simp
  consider "k < 0" | "int (length as) \<le> k" | "0 \<le> k" "k < int (length as)" by linarith
  thus ?thesis
  proof cases
    case 2
    hence "nat k \<ge> length as" by simp
    thus ?thesis using 2 p count as by (auto simp: kthToLast_def heap_simps)
  next
    case 3
    define i where "i = length as - nat k"
    have i: "nat (int (length as) - k) = i" "i \<le> length as" using 3 by (auto simp: i_def)
    obtain m where m: "walk i p h = Some m" "seg h m (drop i as) None" using walk_ok [OF assms(1) i(2)] by blast
    show ?thesis
    proof (cases "k = 0")
      case True
      hence "m = None" "i \<noteq> 0" using m(2) i assms(2) by (simp_all add: i_def)
      thus ?thesis using 3 True p(1) count m(1) i by (simp add: kthToLast_def deref_def)
    next
      case False
      hence lt: "i < length as" using 3 assms(2) by (auto simp: i_def)
      hence "drop i as = as ! i # drop (Suc i) as" by (simp add: Cons_nth_drop_Suc)
      hence "m = Some (as ! i)" "as ! i < length h" using m(2) by auto
      thus ?thesis using 3 False p(1) count m(1) i lt by (simp add: kthToLast_def heap_simps vals_def flip: i_def)
    qed
  qed (use p in \<open>simp add: kthToLast_def\<close>)
qed

theorem kthToLast_element_witness:
  "kthToLast (Some 0) 1 [\<lparr>val = 4, nxt = Some 1\<rparr>, \<lparr>val = 7, nxt = None\<rparr>] = Some 7 \<and>
   kthToLast (Some 0) 0 [\<lparr>val = 4, nxt = Some 1\<rparr>, \<lparr>val = 7, nxt = None\<rparr>] = None"
  using kthToLast_element [of "[\<lparr>val = 4, nxt = Some 1\<rparr>, \<lparr>val = 7, nxt = None\<rparr>]" "Some 0" "[0, 1]" 1]
    kthToLast_element [of "[\<lparr>val = 4, nxt = Some 1\<rparr>, \<lparr>val = 7, nxt = None\<rparr>]" "Some 0" "[0, 1]" 0]
  by (simp add: in_int_def)

end
