(* ===== verification/TaskPools.thy ===== *)
theory TaskPools
  imports Cpp_Prelude
begin

text \<open>
  The two early thread pools, \<^verbatim>\<open>cpp/base/threadPool_1/threadPool_1.cpp\<close> and
  \<^verbatim>\<open>cpp/base/threadPool_2/ThreadPool.cpp\<close>. Both run a task while they hold the mutex, so a step is a
  whole critical section together with the notification at its end, which may wake any waiting thread, or none if no
  thread waits. Tasks are natural numbers and the histories record what was added and run.
\<close>

section \<open>threadPool\_2\<close>

datatype runner = RunTest | RunWait

datatype adder = Idle | AddTest nat | AddWait nat

record pool2 =
  task :: "nat list"
  isEmpty :: bool
  isFull :: bool
  initnum :: nat
  runner_at :: "nat \<Rightarrow> runner"
  adder_at :: "nat \<Rightarrow> adder"
  added :: "nat list"
  done_tasks :: "nat list"

text \<open>The constructor followed by \<^verbatim>\<open>start(num)\<close>; the members \<^verbatim>\<open>done\<close> and \<^verbatim>\<open>threads\<close> never change later.\<close>

definition pool2_start :: "nat \<Rightarrow> pool2" where
  "pool2_start num = \<lparr>task = [], isEmpty = True, isFull = False, initnum = num, runner_at = (\<lambda>_. RunTest), adder_at = (\<lambda>_. Idle),
     added = [], done_tasks = []\<rparr>"

text \<open>The part of \<^verbatim>\<open>addTask\<close> after the loop, without its notification.\<close>

definition addTask_push :: "nat \<Rightarrow> pool2 \<Rightarrow> pool2" where
  "addTask_push f s = s\<lparr>task := task s @ [f], isEmpty := False, isFull := (if length (task s) + 1 = initnum s then True else isFull s),
     added := added s @ [f]\<rparr>"

text \<open>The part of \<^verbatim>\<open>runTask\<close> after the loop, without its notification; the front of an empty queue is undefined.\<close>

definition runTask_take :: "pool2 \<Rightarrow> pool2 ub" where
  "runTask_take s =
     (case task s of
       [] \<Rightarrow> None
     | ta # rest \<Rightarrow> Some (s\<lparr>task := rest, isEmpty := (if rest = [] then True else isEmpty s), isFull := False, done_tasks := done_tasks s @ [ta]\<rparr>))"

text \<open>\<^verbatim>\<open>notify_one\<close> for a pool with \<open>n\<close> threads.\<close>

definition wake_runner :: "nat \<Rightarrow> pool2 \<Rightarrow> pool2" where
  "wake_runner w s = s\<lparr>runner_at := (runner_at s)(w := RunTest)\<rparr>"

definition wake_adder :: "nat \<Rightarrow> nat \<Rightarrow> pool2 \<Rightarrow> pool2" where
  "wake_adder p f s = s\<lparr>adder_at := (adder_at s)(p := AddTest f)\<rparr>"

inductive notify_one2 :: "nat \<Rightarrow> pool2 \<Rightarrow> pool2 \<Rightarrow> bool" for n where
  runner: "w < n \<Longrightarrow> runner_at s w = RunWait \<Longrightarrow> notify_one2 n s (wake_runner w s)"
| adder: "adder_at s p = AddWait f \<Longrightarrow> notify_one2 n s (wake_adder p f s)"
| nobody: "(\<forall>w < n. runner_at s w \<noteq> RunWait) \<Longrightarrow> (\<forall>p f. adder_at s p \<noteq> AddWait f) \<Longrightarrow> notify_one2 n s s"

text \<open>The callers of \<^verbatim>\<open>addTask\<close> are the threads of the set \<open>P\<close>.\<close>

inductive step2 :: "nat \<Rightarrow> nat set \<Rightarrow> pool2 \<Rightarrow> pool2 \<Rightarrow> bool" for n P where
  call_add: "p \<in> P \<Longrightarrow> adder_at s p = Idle \<Longrightarrow> step2 n P s (s\<lparr>adder_at := (adder_at s)(p := AddTest f)\<rparr>)"
| add_wait: "adder_at s p = AddTest f \<Longrightarrow> isFull s \<Longrightarrow> step2 n P s (s\<lparr>adder_at := (adder_at s)(p := AddWait f)\<rparr>)"
| add_push: "adder_at s p = AddTest f \<Longrightarrow> \<not> isFull s \<Longrightarrow>
    notify_one2 n ((addTask_push f s)\<lparr>adder_at := (adder_at s)(p := Idle)\<rparr>) u \<Longrightarrow> step2 n P s u"
| run_wait: "w < n \<Longrightarrow> runner_at s w = RunTest \<Longrightarrow> isEmpty s \<Longrightarrow> step2 n P s (s\<lparr>runner_at := (runner_at s)(w := RunWait)\<rparr>)"
| run_take: "w < n \<Longrightarrow> runner_at s w = RunTest \<Longrightarrow> \<not> isEmpty s \<Longrightarrow> runTask_take s = Some t \<Longrightarrow> notify_one2 n t u \<Longrightarrow> step2 n P s u"
| spurious_run: "w < n \<Longrightarrow> runner_at s w = RunWait \<Longrightarrow> step2 n P s (wake_runner w s)"
| spurious_add: "adder_at s p = AddWait f \<Longrightarrow> step2 n P s (wake_adder p f s)"

inductive reach2 :: "nat \<Rightarrow> nat set \<Rightarrow> pool2 \<Rightarrow> bool" for n P where
  start: "reach2 n P (pool2_start n)"
| step: "reach2 n P s \<Longrightarrow> step2 n P s t \<Longrightarrow> reach2 n P t"

inductive_cases notify_one2E: "notify_one2 n s t"

section \<open>What every run of the second pool keeps\<close>

definition queue_inv2 :: "nat \<Rightarrow> pool2 \<Rightarrow> bool" where
  "queue_inv2 n s \<longleftrightarrow> added s = done_tasks s @ task s \<and> isEmpty s = (task s = []) \<and> initnum s = n \<and>
     isFull s = (0 < n \<and> length (task s) = n) \<and> (0 < n \<longrightarrow> length (task s) \<le> n)"

lemma notify_queue: "notify_one2 n s t \<Longrightarrow> queue_inv2 n t = queue_inv2 n s"
  by (elim notify_one2E) (auto simp: queue_inv2_def wake_runner_def wake_adder_def)

lemma queue_inv2_step: "step2 n P s t \<Longrightarrow> queue_inv2 n s \<Longrightarrow> queue_inv2 n t"
proof (induction rule: step2.induct)
  case (add_push s p f u)
  have "queue_inv2 n ((addTask_push f s)\<lparr>adder_at := (adder_at s)(p := Idle)\<rparr>)"
    using add_push by (auto simp: queue_inv2_def addTask_push_def)
  thus ?case using notify_queue [OF add_push(3)] by simp
next
  case (run_take w s t u)
  have "queue_inv2 n t" using run_take by (auto simp: queue_inv2_def runTask_take_def split: list.splits if_splits)
  thus ?case using notify_queue [OF run_take(5)] by simp
qed (auto simp: queue_inv2_def wake_runner_def wake_adder_def)

lemma reach2_queue: "reach2 n P s \<Longrightarrow> queue_inv2 n s"
proof (induction rule: reach2.induct)
  case start
  show ?case by (auto simp: queue_inv2_def pool2_start_def)
qed (rule queue_inv2_step)

section \<open>One caller\<close>

text \<open>With one caller, a waiting runner finds as many awake runners as there are tasks, and the caller waits only while the queue is full.\<close>

definition awake :: "nat \<Rightarrow> pool2 \<Rightarrow> nat set" where
  "awake n s = {w. w < n \<and> runner_at s w = RunTest}"

definition single_inv :: "nat \<Rightarrow> nat \<Rightarrow> pool2 \<Rightarrow> bool" where
  "single_inv n p s \<longleftrightarrow> (\<forall>q. q \<noteq> p \<longrightarrow> adder_at s q = Idle) \<and> ((\<exists>w < n. runner_at s w = RunWait) \<longrightarrow> length (task s) \<le> card (awake n s)) \<and>
     (\<forall>f. adder_at s p = AddWait f \<longrightarrow> isFull s)"

lemma awake_finite [simp]: "finite (awake n s)"
  by (simp add: awake_def)

lemma awake_wake: "w < n \<Longrightarrow> runner_at s w = RunWait \<Longrightarrow> card (awake n (wake_runner w s)) = card (awake n s) + 1"
proof -
  assume w: "w < n" "runner_at s w = RunWait"
  hence "awake n (wake_runner w s) = insert w (awake n s)" "w \<notin> awake n s" by (auto simp: awake_def wake_runner_def)
  thus ?thesis by simp
qed

lemma all_awake: "card (awake n s) = n \<Longrightarrow> w < n \<Longrightarrow> runner_at s w = RunTest"
proof -
  assume "card (awake n s) = n" "w < n"
  moreover have "awake n s \<subseteq> {..<n}" by (auto simp: awake_def)
  ultimately have "awake n s = {..<n}" by (intro card_subset_eq) auto
  thus ?thesis using \<open>w < n\<close> by (auto simp: awake_def)
qed

lemma single_inv_step:
  assumes "step2 n {p} s t" "single_inv n p s" "queue_inv2 n s" "0 < n"
  shows "single_inv n p t"
  using assms(1)
proof (cases rule: step2.cases)
  case (call_add q f)
  thus ?thesis using assms(2) by (auto simp: single_inv_def awake_def)
next
  case (add_wait q f)
  thus ?thesis using assms(2) by (auto simp: single_inv_def awake_def)
next
  case (add_push q f)
  have q: "q = p" using assms(2) add_push(1) by (auto simp: single_inv_def)
  let ?u = "(addTask_push f s)\<lparr>adder_at := (adder_at s)(q := Idle)\<rparr>"
  have idle: "adder_at ?u r = Idle" for r using assms(2) q by (simp add: single_inv_def)
  have same: "runner_at ?u = runner_at s" "awake n ?u = awake n s" "length (task ?u) = length (task s) + 1"
    by (auto simp: addTask_push_def awake_def)
  show ?thesis using add_push(3)
  proof (cases rule: notify_one2.cases)
    case (runner w)
    have "runner_at s w = RunWait" using runner(3) same by simp
    hence "length (task s) \<le> card (awake n s)" using assms(2) runner(2) by (auto simp: single_inv_def)
    moreover have "card (awake n t) = card (awake n s) + 1" using awake_wake [OF runner(2,3)] runner(1) same(2) by simp
    ultimately show ?thesis using runner(1) idle same(3) by (simp add: single_inv_def wake_runner_def)
  next
    case (adder r g)
    thus ?thesis using idle by simp
  next
    case nobody
    thus ?thesis using idle by (auto simp: single_inv_def)
  qed
next
  case (run_wait w)
  thus ?thesis using assms(2,3) by (auto simp: single_inv_def queue_inv2_def)
next
  case (run_take w u)
  have u: "length (task u) + 1 = length (task s)" "runner_at u = runner_at s" "adder_at u = adder_at s" "awake n u = awake n s"
    using run_take(4) by (auto simp: runTask_take_def awake_def split: list.splits)
  show ?thesis using run_take(5)
  proof (cases rule: notify_one2.cases)
    case (runner v)
    have wait: "length (task s) \<le> card (awake n s)" using assms(2) runner(2,3) u(2) by (auto simp: single_inv_def)
    have "\<not> isFull s"
    proof
      assume "isFull s"
      hence "n \<le> card (awake n s)" using wait assms(3) by (simp add: queue_inv2_def)
      moreover have "card (awake n s) \<le> n" using card_mono [of "{..<n}" "awake n s"] by (auto simp: awake_def)
      ultimately have "runner_at s v = RunTest" using all_awake [of n s v] runner(2) by simp
      thus False using runner(3) u(2) by simp
    qed
    hence "\<forall>f. adder_at s p \<noteq> AddWait f" using assms(2) by (auto simp: single_inv_def)
    thus ?thesis using runner assms(2) u wait awake_wake [OF runner(2,3)] by (auto simp: single_inv_def wake_runner_def)
  next
    case (adder r g)
    hence "r = p" using assms(2) u(3) by (auto simp: single_inv_def)
    thus ?thesis using adder assms(2) u by (auto simp: single_inv_def wake_adder_def awake_def)
  next
    case nobody
    thus ?thesis using assms(2) u by (auto simp: single_inv_def)
  qed
next
  case (spurious_run w)
  thus ?thesis using assms(2) awake_wake [of w n s] by (auto simp: single_inv_def wake_runner_def)
next
  case (spurious_add q f)
  hence "q = p" using assms(2) by (auto simp: single_inv_def)
  thus ?thesis using spurious_add assms(2) by (auto simp: single_inv_def wake_adder_def awake_def)
qed

lemma reach2_single: "reach2 n {p} s \<Longrightarrow> 0 < n \<Longrightarrow> single_inv n p s"
proof (induction rule: reach2.induct)
  case start
  show ?case by (auto simp: single_inv_def pool2_start_def)
next
  case (step s t)
  thus ?case using single_inv_step reach2_queue by blast
qed

text \<open>
  First in, first out: what the threads have run and what is queued is, in order, exactly
  what was added, the queue never grows beyond the number of threads, and the two flags tell the truth about it. In
  every interleaving, with any number of callers and with spurious wake-ups.\<close>
theorem task_pool2_fifo:
  assumes "reach2 n P s" "0 < n"
  shows "added s = done_tasks s @ task s \<and> length (task s) \<le> n \<and> isEmpty s = (task s = []) \<and> isFull s = (length (task s) = n)"
  using reach2_queue [OF assms(1)] assms(2) by (simp add: queue_inv2_def)

lemma reach2_one: "reach2 n P (pool2_start n)"
  by (rule reach2.start)

lemma task_pool2_fifo_witness: "length (task (pool2_start 3)) \<le> 3"
  using task_pool2_fifo [OF reach2_one [of 3 "{0}"]] by simp

text \<open>
  C14. Progress with one caller: while a task is queued, or the caller waits for room, some thread of
  the pool is awake and its next critical section takes the front task; the shared condition variable loses no
  notification that matters.\<close>
theorem task_pool2_progress:
  assumes "reach2 n {p} s" "0 < n" "task s \<noteq> [] \<or> adder_at s p = AddWait f"
  shows "\<exists>w t. w < n \<and> runner_at s w = RunTest \<and> \<not> isEmpty s \<and> runTask_take s = Some t \<and> done_tasks t = done_tasks s @ [hd (task s)]"
proof -
  have q: "queue_inv2 n s" and i: "single_inv n p s" using assms reach2_queue reach2_single by blast+
  have ne: "task s \<noteq> []" using assms(2,3) q i by (auto simp: single_inv_def queue_inv2_def)
  then obtain t where t: "runTask_take s = Some t" "done_tasks t = done_tasks s @ [hd (task s)]"
    by (cases "task s") (auto simp: runTask_take_def)
  have "\<exists>w < n. runner_at s w = RunTest"
  proof (cases "\<exists>w < n. runner_at s w = RunWait")
    case True
    hence "length (task s) \<le> card (awake n s)" using i by (auto simp: single_inv_def)
    hence "awake n s \<noteq> {}" using ne by (cases "awake n s = {}") auto
    thus ?thesis by (auto simp: awake_def)
  next
    case False
    thus ?thesis using assms(2) by (metis (full_types) runner.exhaust)
  qed
  thus ?thesis using t ne q by (auto simp: queue_inv2_def)
qed

text \<open>A pool of one thread with one task queued.\<close>

lemma one_task: "reach2 1 {0} ((addTask_push 7 (pool2_start 1))\<lparr>adder_at := (\<lambda>_. Idle)\<rparr>)"
proof -
  let ?a = "(pool2_start 1)\<lparr>adder_at := (adder_at (pool2_start 1))(0 := AddTest 7)\<rparr>"
  have "reach2 1 {0} ?a" by (rule reach2.step [OF reach2.start]) (rule step2.call_add, simp_all add: pool2_start_def)
  moreover have e: "(addTask_push 7 ?a)\<lparr>adder_at := (adder_at ?a)(0 := Idle)\<rparr> = (addTask_push 7 (pool2_start 1))\<lparr>adder_at := (\<lambda>_. Idle)\<rparr>"
    by (simp add: addTask_push_def pool2_start_def fun_eq_iff)
  have "step2 1 {0} ?a ((addTask_push 7 (pool2_start 1))\<lparr>adder_at := (\<lambda>_. Idle)\<rparr>)"
    by (rule step2.add_push [where p = 0 and f = 7], simp, simp add: pool2_start_def, subst e)
      (rule notify_one2.nobody, simp_all add: pool2_start_def addTask_push_def)
  ultimately show ?thesis by (rule reach2.step)
qed

lemma task_pool2_progress_witness:
  "\<exists>w t. w < 1 \<and> runner_at ((addTask_push 7 (pool2_start 1))\<lparr>adder_at := (\<lambda>_. Idle)\<rparr>) w = RunTest \<and>
     runTask_take ((addTask_push 7 (pool2_start 1))\<lparr>adder_at := (\<lambda>_. Idle)\<rparr>) = Some t \<and> done_tasks t = [7]"
  using task_pool2_progress [OF one_task] by (force simp: pool2_start_def addTask_push_def)


section \<open>Two callers\<close>

text \<open>The states of a pool with one thread and the callers \<open>0\<close> and \<open>1\<close>.\<close>

definition pst :: "nat list \<Rightarrow> nat list \<Rightarrow> nat list \<Rightarrow> runner \<Rightarrow> adder \<Rightarrow> adder \<Rightarrow> pool2" where
  "pst a d q r x y = \<lparr>task = q, isEmpty = (q = []), isFull = (length q = 1), initnum = 1, runner_at = (\<lambda>_. RunTest)(0 := r),
     adder_at = (\<lambda>_. Idle)(0 := x, 1 := y), added = a, done_tasks = d\<rparr>"

lemma pst_sel [simp]:
  "task (pst a d q r x y) = q" "isEmpty (pst a d q r x y) = (q = [])" "isFull (pst a d q r x y) = (length q = 1)"
  "runner_at (pst a d q r x y) = (\<lambda>_. RunTest)(0 := r)" "adder_at (pst a d q r x y) = (\<lambda>_. Idle)(0 := x, 1 := y)"
  by (simp_all add: pst_def)

lemma pst_upd:
  "(pst a d q r x y)\<lparr>runner_at := (\<lambda>_. RunTest)(0 := r')\<rparr> = pst a d q r' x y"
  "(pst a d q r x y)\<lparr>adder_at := (\<lambda>_. Idle)(0 := x', Suc 0 := y')\<rparr> = pst a d q r x' y'"
  "addTask_push f (pst a d [] r x y) = pst (a @ [f]) d [f] r x y"
  "runTask_take (pst a d [f] r x y) = Some (pst a (d @ [f]) [] r x y)"
  by (simp_all add: pst_def addTask_push_def runTask_take_def)

lemma pst_steps:
  "step2 1 {0, 1} (pst a d q r Idle y) (pst a d q r (AddTest f) y)"
  "step2 1 {0, 1} (pst a d q r x Idle) (pst a d q r x (AddTest f))"
  "step2 1 {0, 1} (pst a d [g] r (AddTest f) y) (pst a d [g] r (AddWait f) y)"
  "step2 1 {0, 1} (pst a d [g] r x (AddTest f)) (pst a d [g] r x (AddWait f))"
  "step2 1 {0, 1} (pst a d [] RunTest x y) (pst a d [] RunWait x y)"
  using step2.call_add [of 0 "{0, 1}" "pst a d q r Idle y" 1 f] step2.call_add [of 1 "{0, 1}" "pst a d q r x Idle" 1 f]
    step2.add_wait [of "pst a d [g] r (AddTest f) y" 0 f 1 "{0, 1}"] step2.add_wait [of "pst a d [g] r x (AddTest f)" 1 f 1 "{0, 1}"]
    step2.run_wait [of 0 1 "pst a d [] RunTest x y" "{0, 1}"]
  by (simp_all add: pst_upd fun_upd_twist)

lemma pst_push_runner: "step2 1 {0, 1} (pst a d [] RunWait (AddTest f) y) (pst (a @ [f]) d [f] RunTest Idle y)"
proof (rule step2.add_push [where p = 0 and f = f])
  show "notify_one2 1 ((addTask_push f (pst a d [] RunWait (AddTest f) y))\<lparr>adder_at := (adder_at (pst a d [] RunWait (AddTest f) y))(0 := Idle)\<rparr>)
      (pst (a @ [f]) d [f] RunTest Idle y)"
    using notify_one2.runner [of 0 1 "pst (a @ [f]) d [f] RunWait Idle y"] by (simp add: pst_upd wake_runner_def fun_upd_twist)
qed simp_all

lemma pst_push_adder: "step2 1 {0, 1} (pst a d [] r (AddTest f) (AddWait g)) (pst (a @ [f]) d [f] r Idle (AddTest g))"
proof (rule step2.add_push [where p = 0 and f = f])
  show "notify_one2 1 ((addTask_push f (pst a d [] r (AddTest f) (AddWait g)))\<lparr>adder_at := (adder_at (pst a d [] r (AddTest f) (AddWait g)))(0 := Idle)\<rparr>)
      (pst (a @ [f]) d [f] r Idle (AddTest g))"
    using notify_one2.adder [of "pst (a @ [f]) d [f] r Idle (AddWait g)" 1 g 1] by (simp add: pst_upd wake_adder_def fun_upd_twist)
qed simp_all

lemma pst_take: "step2 1 {0, 1} (pst a d [g] RunTest (AddWait f) y) (pst a (d @ [g]) [] RunTest (AddTest f) y)"
proof (rule step2.run_take [where w = 0])
  show "notify_one2 1 (pst a (d @ [g]) [] RunTest (AddWait f) y) (pst a (d @ [g]) [] RunTest (AddTest f) y)"
    using notify_one2.adder [of "pst a (d @ [g]) [] RunTest (AddWait f) y" 0 f 1] by (simp add: pst_upd wake_adder_def fun_upd_twist)
qed (simp_all add: pst_upd)

text \<open>
  The lost wake-up: callers and threads wait on one condition variable, and a caller's
  notification may wake another caller instead of a thread. With one thread and two callers the pool reaches a state
  in which all of them wait although a task is queued.\<close>
theorem task_pool2_deadlock:
  "\<exists>s. reach2 1 {0, 1} s \<and> task s \<noteq> [] \<and> runner_at s 0 = RunWait \<and> adder_at s 0 = AddWait 4 \<and> adder_at s 1 = AddWait 3"
proof -
  have start: "reach2 1 {0, 1} (pst [] [] [] RunTest Idle Idle)" using reach2.start [of 1 "{0, 1}"] by (simp add: pst_def pool2_start_def fun_upd_def if_cancel)
  note next_step = reach2.step [where n = 1 and P = "{0, 1}"]
  have "reach2 1 {0, 1} (pst [1] [] [1] RunTest Idle Idle)"
    using next_step [OF next_step [OF next_step [OF start pst_steps(5)] pst_steps(1)] pst_push_runner, of 1] by simp
  hence "reach2 1 {0, 1} (pst [1] [] [1] RunTest (AddWait 2) (AddWait 3))"
    by (intro next_step [OF _ pst_steps(4)] next_step [OF _ pst_steps(2)] next_step [OF _ pst_steps(3)] next_step [OF _ pst_steps(1)])
  hence "reach2 1 {0, 1} (pst [1] [1] [] RunWait (AddTest 2) (AddWait 3))"
    using next_step [OF next_step [OF _ pst_take] pst_steps(5)] by fastforce
  hence "reach2 1 {0, 1} (pst [1, 2] [1] [2] RunWait Idle (AddTest 3))"
    using next_step [OF _ pst_push_adder] by fastforce
  hence "reach2 1 {0, 1} (pst [1, 2] [1] [2] RunWait (AddWait 4) (AddWait 3))"
    by (intro next_step [OF _ pst_steps(3)] next_step [OF _ pst_steps(1)] next_step [OF _ pst_steps(4)])
  thus ?thesis by (intro exI [of _ "pst [1, 2] [1] [2] RunWait (AddWait 4) (AddWait 3)"]) simp
qed

end
