(* ===== verification/TaskPool1.thy ===== *)
theory TaskPool1
  imports Cpp_Prelude
begin

text \<open>
  The first thread pool, \<^verbatim>\<open>cpp/base/threadPool_1/threadPool_1.cpp\<close>. A step is a
  critical section, a notification or a read of \<^verbatim>\<open>stop\<close> outside the lock, so \<open>step1\<close> has every
  interleaving of the workers (\<^verbatim>\<open>run\<close>), the callers (the body of the loop of \<^verbatim>\<open>main\<close>: create a task,
  \<^verbatim>\<open>append\<close> it, delete it) and the owner (the destructor). A request is its address, \<open>0\<close> the null pointer,
  and \<open>live\<close> holds the addresses that are allocated; a deleted address may be allocated again.
\<close>

section \<open>The pool\<close>

datatype run_pc = Top | Lock | Wait | Returned

datatype caller_pc = Ready | Notify nat | Delete nat

datatype owner_pc = Uses | Stopped | Joining | Destroyed

record pool1 =
  tasks_queue :: "nat list"
  stop :: bool
  workers :: nat
  run_at :: "nat \<Rightarrow> run_pc"
  caller_at :: "nat \<Rightarrow> caller_pc"
  owner_at :: owner_pc
  live :: "nat set"
  appended :: "nat list"
  taken :: "nat list"
  processed :: "nat list"

datatype pool_error = Bad_thread_number

definition MAX_THREADS :: int where
  "MAX_THREADS = 1000"

definition threadPool_new :: "int \<Rightarrow> pool_error + pool1" where
  "threadPool_new number =
     (if number \<le> 0 \<or> number > MAX_THREADS then Inl Bad_thread_number
      else Inr \<lparr>tasks_queue = [], stop = False, workers = nat number, run_at = (\<lambda>_. Top), caller_at = (\<lambda>_. Ready), owner_at = Uses,
         live = {}, appended = [], taken = [], processed = []\<rparr>)"

definition append_locked :: "nat \<Rightarrow> pool1 \<Rightarrow> pool1" where
  "append_locked request s = s\<lparr>tasks_queue := tasks_queue s @ [request], appended := appended s @ [request]\<rparr>"

text \<open>What \<^verbatim>\<open>run\<close> does with the lock held, when \<^verbatim>\<open>wait\<close> has evaluated its predicate.\<close>

definition run_locked :: "nat \<Rightarrow> pool1 \<Rightarrow> pool1" where
  "run_locked w s =
     (case tasks_queue s of
       [] \<Rightarrow> s\<lparr>run_at := (run_at s)(w := Wait)\<rparr>
     | request # rest \<Rightarrow> s\<lparr>tasks_queue := rest, run_at := (run_at s)(w := Top), taken := taken s @ [request],
         processed := (if request \<noteq> 0 then processed s @ [request] else processed s)\<rparr>)"

definition run_test :: "nat \<Rightarrow> pool1 \<Rightarrow> pool1" where
  "run_test w s = s\<lparr>run_at := (run_at s)(w := (if stop s then Returned else Lock))\<rparr>"

definition run_wake :: "nat \<Rightarrow> pool1 \<Rightarrow> pool1" where
  "run_wake w s = s\<lparr>run_at := (run_at s)(w := Lock)\<rparr>"

definition wake_all :: "pool1 \<Rightarrow> pool1" where
  "wake_all s = s\<lparr>run_at := (\<lambda>w. if run_at s w = Wait then Lock else run_at s w)\<rparr>"

definition set_caller :: "nat \<Rightarrow> caller_pc \<Rightarrow> pool1 \<Rightarrow> pool1" where
  "set_caller p c s = s\<lparr>caller_at := (caller_at s)(p := c)\<rparr>"

definition set_owner :: "owner_pc \<Rightarrow> pool1 \<Rightarrow> pool1" where
  "set_owner c s = s\<lparr>owner_at := c\<rparr>"

inductive notify_one1 :: "pool1 \<Rightarrow> pool1 \<Rightarrow> bool" where
  one: "w < workers s \<Longrightarrow> run_at s w = Wait \<Longrightarrow> notify_one1 s (run_wake w s)"
| none: "(\<forall>w < workers s. run_at s w \<noteq> Wait) \<Longrightarrow> notify_one1 s s"

text \<open>The callers are the threads below \<open>m\<close>; the destructor starts when no caller uses the pool.\<close>

inductive step1 :: "nat \<Rightarrow> pool1 \<Rightarrow> pool1 \<Rightarrow> bool" for m where
  test: "w < workers s \<Longrightarrow> run_at s w = Top \<Longrightarrow> step1 m s (run_test w s)"
| locked: "w < workers s \<Longrightarrow> run_at s w = Lock \<Longrightarrow> step1 m s (run_locked w s)"
| spurious: "w < workers s \<Longrightarrow> run_at s w = Wait \<Longrightarrow> step1 m s (run_wake w s)"
| append_push: "p < m \<Longrightarrow> caller_at s p = Ready \<Longrightarrow> owner_at s = Uses \<Longrightarrow> r \<noteq> 0 \<Longrightarrow> r \<notin> live s \<Longrightarrow>
    step1 m s (set_caller p (Notify r) (append_locked r (s\<lparr>live := insert r (live s)\<rparr>)))"
| append_notify: "p < m \<Longrightarrow> caller_at s p = Notify r \<Longrightarrow> notify_one1 s t \<Longrightarrow> step1 m s (set_caller p (Delete r) t)"
| delete: "p < m \<Longrightarrow> caller_at s p = Delete r \<Longrightarrow> step1 m s (set_caller p Ready (s\<lparr>live := live s - {r}\<rparr>))"
| destroy: "owner_at s = Uses \<Longrightarrow> (\<forall>p < m. caller_at s p = Ready) \<Longrightarrow> step1 m s (set_owner Stopped (s\<lparr>stop := True\<rparr>))"
| notify_all: "owner_at s = Stopped \<Longrightarrow> step1 m s (set_owner Joining (wake_all s))"
| joined: "owner_at s = Joining \<Longrightarrow> (\<forall>w < workers s. run_at s w = Returned) \<Longrightarrow> step1 m s (set_owner Destroyed s)"

inductive steps1 :: "nat \<Rightarrow> pool1 \<Rightarrow> pool1 \<Rightarrow> bool" for m where
  none: "steps1 m s s"
| more: "steps1 m s t \<Longrightarrow> step1 m t u \<Longrightarrow> steps1 m s u"

lemmas pool1_defs = append_locked_def run_test_def run_wake_def wake_all_def set_caller_def set_owner_def

lemma run_locked_simps:
  "tasks_queue s = [] \<Longrightarrow> run_locked w s = s\<lparr>run_at := (run_at s)(w := Wait)\<rparr>"
  "tasks_queue s = r # rest \<Longrightarrow> run_locked w s = s\<lparr>tasks_queue := rest, run_at := (run_at s)(w := Top), taken := taken s @ [r],
     processed := (if r \<noteq> 0 then processed s @ [r] else processed s)\<rparr>"
  by (simp_all add: run_locked_def)

section \<open>First in, first out\<close>

definition fifo_inv :: "pool1 \<Rightarrow> bool" where
  "fifo_inv s \<longleftrightarrow> appended s = taken s @ tasks_queue s \<and> processed s = filter (\<lambda>r. r \<noteq> 0) (taken s)"

lemma notify_one1_same:
  "notify_one1 s t \<Longrightarrow> tasks_queue t = tasks_queue s \<and> stop t = stop s \<and> workers t = workers s \<and> caller_at t = caller_at s \<and>
     owner_at t = owner_at s \<and> appended t = appended s \<and> taken t = taken s \<and> processed t = processed s \<and> live t = live s"
  by (induction rule: notify_one1.induct) (auto simp: run_wake_def)

lemma fifo_step: "step1 m s t \<Longrightarrow> fifo_inv s \<Longrightarrow> fifo_inv t"
proof (induction rule: step1.induct)
  case (locked w s)
  thus ?case by (cases "tasks_queue s") (auto simp: fifo_inv_def run_locked_simps)
next
  case (append_notify p s r t)
  thus ?case using notify_one1_same [of s t] by (simp add: fifo_inv_def pool1_defs)
qed (auto simp: fifo_inv_def pool1_defs)

lemma steps1_inv:
  assumes "steps1 m s t" "I s" "\<And>x y. step1 m x y \<Longrightarrow> I x \<Longrightarrow> I y"
  shows "I t"
  using assms(1,2) by (induction rule: steps1.induct) (auto intro: assms(3))

text \<open>
  Errors of the constructor: it throws for no threads, for a negative number and for
  more than a thousand, and otherwise builds an empty pool with that many threads in their loop.\<close>
theorem task_pool1_constructor:
  "threadPool_new number = Inl Bad_thread_number \<and> (number < 1 \<or> 1000 < number) \<or>
   (\<exists>s. threadPool_new number = Inr s \<and> int (workers s) = number \<and> 1 \<le> workers s \<and> workers s \<le> 1000 \<and> tasks_queue s = [] \<and>
     \<not> stop s \<and> run_at s = (\<lambda>_. Top))"
  by (auto simp: threadPool_new_def MAX_THREADS_def)

text \<open>
  First in, first out, in every interleaving of workers, callers and destructor: the
  requests that left the queue and those still in it are, in order, those that were appended, so none is run twice or
  out of order; those run are those taken that are not null.\<close>
theorem task_pool1_fifo:
  assumes "threadPool_new number = Inr s0" "steps1 m s0 s"
  shows "appended s = taken s @ tasks_queue s \<and> processed s = filter (\<lambda>r. r \<noteq> 0) (taken s)"
proof -
  have "fifo_inv s0" using assms(1) by (auto simp: threadPool_new_def fifo_inv_def split: if_splits)
  hence "fifo_inv s" using assms(2) fifo_step by (auto elim: steps1_inv)
  thus ?thesis by (simp add: fifo_inv_def)
qed

definition pool1_start :: "nat \<Rightarrow> pool1" where
  "pool1_start n = \<lparr>tasks_queue = [], stop = False, workers = n, run_at = (\<lambda>_. Top), caller_at = (\<lambda>_. Ready), owner_at = Uses,
     live = {}, appended = [], taken = [], processed = []\<rparr>"

lemma pool1_start: "1 \<le> n \<Longrightarrow> n \<le> 1000 \<Longrightarrow> threadPool_new (int n) = Inr (pool1_start n)"
  by (simp add: threadPool_new_def pool1_start_def MAX_THREADS_def)

text \<open>A run of one worker in which \<^verbatim>\<open>main\<close> appends the request \<open>5\<close>, notifies and deletes it.\<close>

definition ran :: "nat list \<Rightarrow> run_pc \<Rightarrow> caller_pc \<Rightarrow> nat set \<Rightarrow> pool1" where
  "ran q r c l = (pool1_start 1)\<lparr>tasks_queue := q, run_at := (\<lambda>_. Top)(0 := r), caller_at := (\<lambda>_. Ready)(0 := c), live := l, appended := q\<rparr>"

lemma ran_steps:
  "steps1 1 (pool1_start 1) (ran [] Lock Ready {})"
  "steps1 1 (pool1_start 1) (ran [5] Lock (Notify 5) {5})"
  "steps1 1 (pool1_start 1) (ran [5] Lock Ready {})"
proof -
  have "step1 1 (pool1_start 1) (ran [] Lock Ready {})"
    using step1.test [of 0 "pool1_start 1" 1] by (simp add: pool1_start_def pool1_defs ran_def fun_upd_def)
  thus a: "steps1 1 (pool1_start 1) (ran [] Lock Ready {})" by (rule steps1.more [OF steps1.none])
  have "step1 1 (ran [] Lock Ready {}) (ran [5] Lock (Notify 5) {5})"
    using step1.append_push [of 0 1 "ran [] Lock Ready {}" 5] by (simp add: pool1_start_def pool1_defs ran_def)
  thus b: "steps1 1 (pool1_start 1) (ran [5] Lock (Notify 5) {5})" by (rule steps1.more [OF a])
  have n: "notify_one1 (ran [5] Lock (Notify 5) {5}) (ran [5] Lock (Notify 5) {5})"
    by (rule notify_one1.none) (simp add: ran_def pool1_start_def)
  have "step1 1 (ran [5] Lock (Notify 5) {5}) (ran [5] Lock (Delete 5) {5})"
    using step1.append_notify [OF _ _ n, of 0 1 5] by (simp add: pool1_start_def pool1_defs ran_def)
  moreover have "step1 1 (ran [5] Lock (Delete 5) {5}) (ran [5] Lock Ready {})"
    using step1.delete [of 0 1 "ran [5] Lock (Delete 5) {5}" 5] by (simp add: pool1_start_def pool1_defs ran_def)
  ultimately show "steps1 1 (pool1_start 1) (ran [5] Lock Ready {})" by (rule steps1.more [OF steps1.more [OF b]])
qed

lemma task_pool1_fifo_witness: "appended (ran [5] Lock Ready {}) = [] @ [5]"
  using task_pool1_fifo [OF _ ran_steps(3)] pool1_start [of 1] by (fastforce simp: ran_def pool1_start_def)

text \<open>
  Use after free: \<^verbatim>\<open>main\<close> deletes a task as soon as \<^verbatim>\<open>append\<close> returns, so a worker that
  holds the lock can find at the front of the queue a request that is no longer allocated.\<close>
theorem task_pool1_use_after_free:
  "\<exists>s r rest. steps1 1 (pool1_start 1) s \<and> run_at s 0 = Lock \<and> tasks_queue s = r # rest \<and> r \<notin> live s \<and>
     processed (run_locked 0 s) = [r]"
proof (intro exI conjI)
  show "steps1 1 (pool1_start 1) (ran [5] Lock Ready {})" by (rule ran_steps)
qed (simp_all add: ran_def pool1_start_def run_locked_def)


section \<open>No lost wake-up before the pool is destroyed\<close>

definition up :: "pool1 \<Rightarrow> nat set" where
  "up s = {w. w < workers s \<and> (run_at s w = Top \<or> run_at s w = Lock)}"

definition due :: "nat \<Rightarrow> pool1 \<Rightarrow> nat set" where
  "due m s = {p. p < m \<and> (\<exists>r. caller_at s p = Notify r)}"

definition wake_inv :: "nat \<Rightarrow> pool1 \<Rightarrow> bool" where
  "wake_inv m s \<longleftrightarrow> stop s \<or> ((\<forall>w < workers s. run_at s w \<noteq> Returned) \<and>
     ((\<exists>w < workers s. run_at s w = Wait) \<longrightarrow> length (tasks_queue s) \<le> card (up s) + card (due m s)))"

lemma up_finite [simp]: "finite (up s)" and due_finite [simp]: "finite (due m s)"
  by (auto simp: up_def due_def)

lemma up_cong: "workers t = workers s \<Longrightarrow> run_at t = run_at s \<Longrightarrow> up t = up s"
  by (simp add: up_def)

lemma due_cong: "caller_at t = caller_at s \<Longrightarrow> due m t = due m s"
  by (simp add: due_def)

lemma card_up_wake: "w < workers s \<Longrightarrow> run_at s w = Wait \<Longrightarrow> card (up (run_wake w s)) = card (up s) + 1"
proof -
  assume w: "w < workers s" "run_at s w = Wait"
  hence "up (run_wake w s) = insert w (up s)" "w \<notin> up s" by (auto simp: up_def run_wake_def)
  thus ?thesis by simp
qed

lemma card_due_in: "p < m \<Longrightarrow> caller_at s p = Ready \<Longrightarrow> card (due m (set_caller p (Notify r) s)) = card (due m s) + 1"
proof -
  assume p: "p < m" "caller_at s p = Ready"
  hence "due m (set_caller p (Notify r) s) = insert p (due m s)" "p \<notin> due m s" by (auto simp: due_def set_caller_def)
  thus ?thesis by simp
qed

lemma card_due_out: "p < m \<Longrightarrow> caller_at s p = Notify r \<Longrightarrow> card (due m (set_caller p (Delete r) s)) + 1 = card (due m s)"
proof -
  assume p: "p < m" "caller_at s p = Notify r"
  hence "due m s = insert p (due m (set_caller p (Delete r) s))" "p \<notin> due m (set_caller p (Delete r) s)"
    by (auto simp: due_def set_caller_def)
  thus ?thesis by (metis card_insert_disjoint due_finite Suc_eq_plus1)
qed

lemma set_caller_same [simp]:
  "tasks_queue (set_caller p c s) = tasks_queue s" "stop (set_caller p c s) = stop s" "workers (set_caller p c s) = workers s"
  "run_at (set_caller p c s) = run_at s" "up (set_caller p c s) = up s"
  by (simp_all add: set_caller_def up_def)

lemma wake_step: "step1 m s t \<Longrightarrow> wake_inv m s \<Longrightarrow> wake_inv m t"
proof (induction rule: step1.induct)
  case (test w s)
  have "\<not> stop s \<Longrightarrow> up (run_test w s) = up s" using test by (auto simp: up_def run_test_def)
  thus ?case using test by (auto simp: wake_inv_def run_test_def due_def split: if_splits)
next
  case (locked w s)
  show ?case
  proof (cases "tasks_queue s")
    case Nil
    thus ?thesis using locked by (auto simp: wake_inv_def run_locked_simps)
  next
    case (Cons r rest)
    have "up (run_locked w s) = up s" using locked Cons by (auto simp: up_def run_locked_simps)
    moreover have "due m (run_locked w s) = due m s" using Cons by (simp add: due_def run_locked_simps)
    ultimately show ?thesis using locked Cons by (auto simp: wake_inv_def run_locked_simps split: if_splits)
  qed
next
  case (spurious w s)
  have "due m (run_wake w s) = due m s" by (simp add: due_def run_wake_def)
  thus ?case using spurious card_up_wake [of w s] by (auto simp: wake_inv_def run_wake_def)
next
  case (append_push p s r)
  let ?t = "append_locked r (s\<lparr>live := insert r (live s)\<rparr>)"
  have t: "run_at ?t = run_at s" "workers ?t = workers s" "stop ?t = stop s" "up ?t = up s" "due m ?t = due m s"
    "length (tasks_queue ?t) = length (tasks_queue s) + 1" "caller_at ?t = caller_at s" by (simp_all add: append_locked_def up_def due_def)
  show ?case using append_push card_due_in [of p m ?t r] t by (auto simp: wake_inv_def)
next
  case (append_notify p s r t)
  have d: "card (due m (set_caller p (Delete r) s)) + 1 = card (due m s)" using append_notify card_due_out by blast
  from append_notify(3) show ?case
  proof (cases rule: notify_one1.cases)
    case (one w)
    have "due m (set_caller p (Delete r) t) = due m (set_caller p (Delete r) s)" using one by (simp add: due_def set_caller_def run_wake_def)
    thus ?thesis using append_notify(4) d one card_up_wake [of w s] by (auto simp: wake_inv_def run_wake_def)
  next
    case none
    thus ?thesis using append_notify(4) by (auto simp: wake_inv_def)
  qed
next
  case (delete p s r)
  have "due m (set_caller p Ready (s\<lparr>live := live s - {r}\<rparr>)) = due m s" using delete by (auto simp: due_def set_caller_def)
  moreover have "up (s\<lparr>live := live s - {r}\<rparr>) = up s" by (simp add: up_def)
  ultimately show ?case using delete by (simp add: wake_inv_def)
qed (auto simp: wake_inv_def set_owner_def wake_all_def up_def due_def)

lemma workers_step: "step1 m s t \<Longrightarrow> workers t = workers s"
proof (induction rule: step1.induct)
  case (locked w s)
  thus ?case by (cases "tasks_queue s") (simp_all add: run_locked_simps)
qed (auto simp: pool1_defs dest: notify_one1_same)

text \<open>
  No lost wake-up: until the destructor runs, whenever a request is queued some worker is
  awake, on its way to the lock, or a caller has still to notify.\<close>
theorem task_pool1_no_lost_wakeup:
  assumes "threadPool_new number = Inr s0" "steps1 m s0 s" "\<not> stop s" "tasks_queue s \<noteq> []"
  shows "(\<exists>w < workers s. run_at s w = Top \<or> run_at s w = Lock) \<or> (\<exists>p < m. \<exists>r. caller_at s p = Notify r)"
proof -
  have "wake_inv m s0" using assms(1) by (auto simp: threadPool_new_def wake_inv_def split: if_splits)
  hence "wake_inv m s" using assms(2) wake_step by (auto elim: steps1_inv)
  hence i: "\<forall>w < workers s. run_at s w \<noteq> Returned"
      "(\<exists>w < workers s. run_at s w = Wait) \<longrightarrow> length (tasks_queue s) \<le> card (up s) + card (due m s)"
    using assms(3) by (auto simp: wake_inv_def)
  have "(up s \<noteq> {} \<or> due m s \<noteq> {}) \<or> workers s = 0"
  proof (cases "\<exists>w < workers s. run_at s w = Wait")
    case True
    hence "0 < card (up s) + card (due m s)" using i assms(4) by (cases "tasks_queue s") auto
    thus ?thesis by (cases "up s = {}"; cases "due m s = {}") auto
  next
    case False
    hence "workers s = 0 \<or> 0 \<in> up s" using i(1) by (auto simp: up_def) (metis run_pc.exhaust)+
    thus ?thesis by auto
  qed
  moreover have "0 < workers s"
    using assms(1) steps1_inv [OF assms(2), of "\<lambda>x. 0 < workers x"] workers_step by (auto simp: threadPool_new_def split: if_splits)
  ultimately show ?thesis by (auto simp: up_def due_def)
qed

lemma task_pool1_no_lost_wakeup_witness:
  "(\<exists>w < 1. run_at (ran [5] Lock Ready {}) w = Top \<or> run_at (ran [5] Lock Ready {}) w = Lock)"
  using task_pool1_no_lost_wakeup [OF _ ran_steps(3)] pool1_start [of 1] by (force simp: ran_def pool1_start_def)


section \<open>The destructor\<close>

definition inside :: "pool1 \<Rightarrow> nat set" where
  "inside s = {w. w < workers s \<and> (run_at s w = Lock \<or> run_at s w = Wait)}"

definition hang_inv :: "pool1 \<Rightarrow> bool" where
  "hang_inv s \<longleftrightarrow> stop s \<and> (owner_at s = Stopped \<or> owner_at s = Joining) \<and> length (tasks_queue s) < card (inside s)"

lemma inside_finite [simp]: "finite (inside s)"
  by (simp add: inside_def)

lemma inside_same: "workers t = workers s \<Longrightarrow> (\<And>w. (run_at t w = Lock \<or> run_at t w = Wait) = (run_at s w = Lock \<or> run_at s w = Wait)) \<Longrightarrow> inside t = inside s"
  by (simp add: inside_def)

lemma hang_step: "step1 m s t \<Longrightarrow> hang_inv s \<Longrightarrow> hang_inv t"
proof (induction rule: step1.induct)
  case (test w s)
  hence "inside (run_test w s) = inside s" by (auto simp: inside_def run_test_def hang_inv_def)
  thus ?case using test by (simp add: hang_inv_def run_test_def)
next
  case (locked w s)
  show ?case
  proof (cases "tasks_queue s")
    case Nil
    have "inside (run_locked w s) = inside s" using locked Nil by (intro inside_same) (auto simp: run_locked_simps)
    thus ?thesis using locked Nil by (simp add: hang_inv_def run_locked_simps)
  next
    case (Cons r rest)
    have "inside s = insert w (inside (run_locked w s))" "w \<notin> inside (run_locked w s)"
      using locked Cons by (auto simp: inside_def run_locked_simps)
    hence "card (inside s) = card (inside (run_locked w s)) + 1" by simp
    thus ?thesis using locked Cons by (simp add: hang_inv_def run_locked_simps)
  qed
next
  case (spurious w s)
  have "inside (run_wake w s) = inside s" using spurious by (intro inside_same) (auto simp: run_wake_def)
  thus ?case using spurious by (simp add: hang_inv_def run_wake_def)
next
  case (append_push p s r)
  thus ?case by (simp add: hang_inv_def)
next
  case (append_notify p s r t)
  have "inside (set_caller p (Delete r) t) = inside s"
    using append_notify(3) by (cases rule: notify_one1.cases) (auto intro!: inside_same simp: set_caller_def run_wake_def split: if_splits)
  thus ?case using append_notify notify_one1_same [of s t] by (simp add: hang_inv_def pool1_defs)
next
  case (delete p s r)
  thus ?case by (simp add: hang_inv_def set_caller_def inside_def)
next
  case (destroy s)
  thus ?case by (simp add: hang_inv_def)
next
  case (notify_all s)
  have "inside (set_owner Joining (wake_all s)) = inside s" by (intro inside_same) (auto simp: set_owner_def wake_all_def)
  thus ?case using notify_all by (simp add: hang_inv_def set_owner_def wake_all_def)
next
  case (joined s)
  hence "inside s = {}" by (auto simp: inside_def)
  thus ?case using joined by (simp add: hang_inv_def)
qed

text \<open>
  The destructor may never return: when it sets \<^verbatim>\<open>stop\<close> while more workers are past
  their test of \<^verbatim>\<open>stop\<close> than there are requests left, some worker waits for ever, as the predicate of the
  wait does not look at \<^verbatim>\<open>stop\<close>; the join is never over, whatever the interleaving.\<close>
theorem task_pool1_destructor_hangs:
  assumes "owner_at s = Stopped" "stop s" "length (tasks_queue s) < card {w. w < workers s \<and> (run_at s w = Lock \<or> run_at s w = Wait)}"
    and "steps1 m s t"
  shows "owner_at t \<noteq> Destroyed \<and> (\<exists>w < workers t. run_at t w = Lock \<or> run_at t w = Wait)"
proof -
  have "hang_inv s" using assms by (simp add: hang_inv_def inside_def)
  hence h: "hang_inv t" using assms(4) hang_step by (auto elim: steps1_inv)
  hence "inside t \<noteq> {}" by (auto simp: hang_inv_def)
  thus ?thesis using h by (auto simp: hang_inv_def inside_def)
qed

lemma task_pool1_destructor_hangs_witness:
  "owner_at (set_owner Stopped ((pool1_start 1)\<lparr>run_at := (\<lambda>_. Wait), stop := True\<rparr>)) \<noteq> Destroyed"
proof -
  have "{w. w < (1::nat)} = {0}" by auto
  thus ?thesis
    using task_pool1_destructor_hangs [OF _ _ _ steps1.none, of "set_owner Stopped ((pool1_start 1)\<lparr>run_at := (\<lambda>_. Wait), stop := True\<rparr>)"]
    by (simp add: set_owner_def pool1_start_def)
qed

end
