(* ===== verification/Median.thy ===== *)
theory Median
  imports Complex_Main Cpp_Prelude
begin

text \<open>
  Medians, in \<^verbatim>\<open>cpp/online_judge/leetcode/editor/cn\<close>: the median of two sorted arrays
  (\<open>findKth\<close>) and the median of a stream of numbers (class \<open>MedianFinder\<close> on two priority
  queues). A \<^verbatim>\<open>double\<close> that is half the sum of two numbers of type \<^verbatim>\<open>int\<close> is exact, so results are rational.
\<close>

section \<open>The median of two sorted arrays\<close>

text \<open>With \<open>k = 0\<close> inside both arrays the recursion of the code does not end.\<close>

fun findKth :: "int list \<Rightarrow> nat \<Rightarrow> int list \<Rightarrow> nat \<Rightarrow> nat \<Rightarrow> int ub" where
  "findKth nums1 i nums2 j k =
     (if i \<ge> length nums1 then iget nums2 (int j + int k - 1)
      else if j \<ge> length nums2 then iget nums1 (int i + int k - 1)
      else if k = 1 then Some (min (nums1 ! i) (nums2 ! j))
      else if k = 0 then None
      else let midVal1 = (if i + k div 2 - 1 < length nums1 then nums1 ! (i + k div 2 - 1) else INT_MAX);
               midVal2 = (if j + k div 2 - 1 < length nums2 then nums2 ! (j + k div 2 - 1) else INT_MAX)
           in if midVal1 < midVal2 then findKth nums1 (i + k div 2) nums2 j (k - k div 2)
              else findKth nums1 i nums2 (j + k div 2) (k - k div 2))"

declare findKth.simps [simp del]

definition findMedianSortedArrays :: "int list \<Rightarrow> int list \<Rightarrow> rat ub" where
  "findMedianSortedArrays nums1 nums2 =
     (let m = length nums1; n = length nums2 in
      do { _ \<leftarrow> as_int (int m + int n + 2);
           data1 \<leftarrow> findKth nums1 0 nums2 0 ((m + n + 1) div 2);
           data2 \<leftarrow> findKth nums1 0 nums2 0 ((m + n + 2) div 2);
           Some ((of_int data1 + of_int data2) / 2) })"

text \<open>A sorted list splits at a value.\<close>

lemma split_less:
  fixes ys :: "'a::linorder list"
  assumes "sorted ys" "length ys < h \<or> a \<le> ys ! (h - 1)" "0 < h"
  obtains us vs where "ys = us @ vs" "length us < h" "\<forall>u \<in> set us. u < a" "\<forall>v \<in> set vs. a \<le> v"
proof
  let ?us = "takeWhile (\<lambda>y. y < a) ys" and ?vs = "dropWhile (\<lambda>y. y < a) ys"
  show "ys = ?us @ ?vs" by simp
  show "\<forall>u \<in> set ?us. u < a" by (auto dest: set_takeWhileD)
  show "\<forall>v \<in> set ?vs. a \<le> v"
  proof (cases ?vs)
    case (Cons w ws)
    hence "a \<le> w" using hd_dropWhile [of "\<lambda>y. y < a" ys] by auto
    moreover have "sorted (w # ws)" using assms(1) Cons by (metis sorted_append takeWhile_dropWhile_id)
    ultimately show ?thesis using Cons by auto
  next
    case Nil
    show ?thesis unfolding Nil by simp
  qed
  show "length ?us < h"
  proof (rule ccontr)
    assume n: "\<not> length ?us < h"
    hence "h - 1 < length ?us" using assms(3) by simp
    hence "?us ! (h - 1) \<in> set ?us" "?us ! (h - 1) = ys ! (h - 1)" by (rule nth_mem, rule takeWhile_nth)
    hence "ys ! (h - 1) < a" by (auto dest: set_takeWhileD)
    moreover have "length ?us \<le> length ys" by (simp add: length_takeWhile_le)
    ultimately show False using assms(2) n by simp
  qed
qed

lemma drop_smaller:
  fixes xs ys :: "'a::linorder list"
  assumes "sorted xs" "sorted ys" "0 < h" "h \<le> length xs" "length ys < h \<or> xs ! (h - 1) \<le> ys ! (h - 1)" "2 * h \<le> k" "k \<le> length xs + length ys"
  shows "sort (xs @ ys) ! (k - 1) = sort (drop h xs @ ys) ! (k - h - 1)"
proof -
  obtain us vs where ys: "ys = us @ vs" "length us < h" "\<forall>u \<in> set us. u < xs ! (h - 1)" "\<forall>v \<in> set vs. xs ! (h - 1) \<le> v"
    using split_less [OF assms(2,5,3)] .
  have t: "x \<le> xs ! (h - 1)" if "x \<in> set (take h xs)" for x
    using that assms(1,3,4) by (auto simp: in_set_conv_nth intro!: sorted_nth_mono)
  have d: "xs ! (h - 1) \<le> x" if "x \<in> set (drop h xs)" for x
    using that assms(1,3,4) by (auto simp: in_set_conv_nth intro!: sorted_nth_mono)
  have "mset (take h xs) + mset (drop h xs) = mset xs" by (simp flip: mset_append)
  hence "mset (xs @ ys) = mset ((take h xs @ us) @ (drop h xs @ vs))" using ys(1) by (simp add: add_ac)
  hence "sort (xs @ ys) = sort ((take h xs @ us) @ (drop h xs @ vs))" by (metis sorted_list_of_multiset_mset)
  also have "\<dots> = sort (take h xs @ us) @ sort (drop h xs @ vs)" using t d ys(3,4) by (intro sort_append_le) fastforce
  finally have e: "sort (xs @ ys) = sort (take h xs @ us) @ sort (drop h xs @ vs)" .
  have l: "length (sort (take h xs @ us)) = h + length us" using assms(4) by simp
  have "h + length us \<le> k - 1" using assms(6) ys(2) by linarith
  hence 1: "sort (xs @ ys) ! (k - 1) = sort (drop h xs @ vs) ! (k - 1 - (h + length us))"
    unfolding e nth_append l by simp
  have "mset (drop h xs @ ys) = mset (us @ (drop h xs @ vs))" using ys(1) by simp
  hence "sort (drop h xs @ ys) = sort (us @ (drop h xs @ vs))" by (metis sorted_list_of_multiset_mset)
  also have "\<dots> = sort us @ sort (drop h xs @ vs)" using d ys(3,4) by (intro sort_append_le) fastforce
  finally have e: "sort (drop h xs @ ys) = sort us @ sort (drop h xs @ vs)" .
  have "length us \<le> k - h - 1" using assms(6) ys(2) by linarith
  hence "sort (drop h xs @ ys) ! (k - h - 1) = sort (drop h xs @ vs) ! (k - h - 1 - length us)" unfolding e nth_append by simp
  thus ?thesis using 1 by simp
qed

lemma sort_append_commute: "sort (xs @ ys) = sort (ys @ xs)" for xs ys :: "'a::linorder list"
  by (metis mset_append sorted_list_of_multiset_mset union_commute)

text \<open>When the second array is short, its last resort in the code is the greatest number.\<close>

lemma all_greatest:
  fixes xs ys :: "'a::linorder list"
  assumes "sorted xs" "\<forall>x \<in> set xs \<union> set ys. x \<le> m" "0 < h" "h \<le> length xs" "xs ! (h - 1) = m" "h - 1 + length ys < k" "k \<le> length xs + length ys"
  shows "sort (xs @ ys) ! (k - 1) = m"
proof -
  have m: "x = m" if in_drop: "x \<in> set (drop (h - 1) xs)" for x
  proof -
    obtain i where "i < length (drop (h - 1) xs)" "x = drop (h - 1) xs ! i" using in_drop unfolding in_set_conv_nth by blast
    hence i: "h - 1 + i < length xs" "x = xs ! (h - 1 + i)" using assms(4) by simp_all
    have "xs ! (h - 1) \<le> xs ! (h - 1 + i)" by (rule sorted_nth_mono [OF assms(1) _ i(1)]) (rule le_add1)
    hence "xs ! (h - 1) \<le> x" using i(2) by metis
    moreover have "x \<le> m" using i assms(2) by (simp add: nth_mem)
    ultimately show ?thesis using assms(5) by simp
  qed
  have "mset (take (h - 1) xs) + mset (drop (h - 1) xs) = mset xs" by (simp flip: mset_append)
  hence "mset (xs @ ys) = mset ((take (h - 1) xs @ ys) @ drop (h - 1) xs)" by (simp add: add_ac)
  hence "sort (xs @ ys) = sort ((take (h - 1) xs @ ys) @ drop (h - 1) xs)" by (metis sorted_list_of_multiset_mset)
  also have "\<dots> = sort (take (h - 1) xs @ ys) @ sort (drop (h - 1) xs)"
    using m assms(2) by (intro sort_append_le) (auto dest: in_set_takeD)
  finally have e: "sort (xs @ ys) = sort (take (h - 1) xs @ ys) @ sort (drop (h - 1) xs)" .
  have l: "length (sort (take (h - 1) xs @ ys)) = h - 1 + length ys" using assms(4) by simp
  have "h - 1 + length ys \<le> k - 1" using assms(6) by linarith
  hence "sort (xs @ ys) ! (k - 1) = sort (drop (h - 1) xs) ! (k - 1 - (h - 1 + length ys))"
    unfolding e nth_append l by simp
  moreover have "k - 1 - (h - 1 + length ys) < length (sort (drop (h - 1) xs))" using assms(3,4,6,7) by simp
  ultimately show ?thesis using m by (metis nth_mem set_sort)
qed


lemma iget_drop: "j \<le> length ys \<Longrightarrow> 1 \<le> k \<Longrightarrow> k \<le> length ys - j \<Longrightarrow> iget ys (int j + int k - 1) = Some (drop j ys ! (k - 1))"
  by (simp add: iget_def nat_add_distrib nat_diff_distrib' of_nat_diff le_diff_conv2 flip: of_nat_add)

lemma sort_first:
  fixes us vs :: "'a::linorder list"
  assumes "sorted (u # us)" "sorted (v # vs)"
  shows "sort ((u # us) @ (v # vs)) ! 0 = min u v"
proof (rule antisym)
  let ?s = "sort ((u # us) @ (v # vs))"
  have "?s ! 0 \<le> x" if "x \<in> set ?s" for x
    using that sorted_nth_mono [of ?s 0] by (metis in_set_conv_nth le0 sorted_sort)
  hence "?s ! 0 \<le> u" "?s ! 0 \<le> v" by (metis in_set_conv_decomp set_sort append_Cons append_Nil)+
  thus "?s ! 0 \<le> min u v" by (rule min.boundedI)
  have "min u v \<le> x" if "x \<in> set (u # us) \<union> set (v # vs)" for x using that assms by (auto simp: min_le_iff_disj)
  moreover have "?s ! 0 \<in> set ?s" by (rule nth_mem) simp
  ultimately show "min u v \<le> ?s ! 0" by (metis set_sort set_append)
qed

text \<open>The two recursive calls.\<close>

lemma findKth_first:
  assumes "sorted xs" "sorted ys" "i < length xs" "j < length ys" "1 < k" "k \<le> (length xs - i) + (length ys - j)" "h = k div 2"
    "i + h \<le> length xs" "length ys < j + h \<or> xs ! (i + h - 1) \<le> ys ! (j + h - 1)"
  shows "sort (drop i xs @ drop j ys) ! (k - 1) = sort (drop (i + h) xs @ drop j ys) ! (k - h - 1)"
proof -
  have h: "0 < h" "2 * h \<le> k" using assms(5,7) by auto
  have "sort (drop i xs @ drop j ys) ! (k - 1) = sort (drop h (drop i xs) @ drop j ys) ! (k - h - 1)"
    by (rule drop_smaller) (use assms h in \<open>auto simp: sorted_wrt_drop less_diff_conv add.commute\<close>)
  thus ?thesis by (simp add: add.commute)
qed

lemma findKth_spec:
  assumes "sorted xs" "sorted ys" "\<forall>x \<in> set xs \<union> set ys. x \<le> INT_MAX"
  shows "1 \<le> k \<Longrightarrow> i \<le> length xs \<Longrightarrow> j \<le> length ys \<Longrightarrow> k \<le> (length xs - i) + (length ys - j) \<Longrightarrow>
    findKth xs i ys j k = Some (sort (drop i xs @ drop j ys) ! (k - 1))"
proof (induction k arbitrary: i j rule: less_induct)
  case (less k)
  have sorted: "sorted (drop i xs)" "sorted (drop j ys)" using assms(1,2) by (simp_all add: sorted_wrt_drop)
  consider "length xs \<le> i" | "i < length xs" "length ys \<le> j" | "i < length xs" "j < length ys" "k = 1" | "i < length xs" "j < length ys" "1 < k"
    using less.prems(1) by linarith
  thus ?case
  proof cases
    case 1
    thus ?thesis using less.prems sorted iget_drop [of j ys k] by (simp add: findKth.simps sorted_sort_id)
  next
    case 2
    thus ?thesis using less.prems sorted iget_drop [of i xs k] by (simp add: findKth.simps sorted_sort_id)
  next
    case 3
    have "drop i xs = xs ! i # drop (Suc i) xs" "drop j ys = ys ! j # drop (Suc j) ys" using 3 by (simp_all add: Cons_nth_drop_Suc)
    hence "sort (drop i xs @ drop j ys) ! 0 = min (xs ! i) (ys ! j)" using sorted sort_first by metis
    thus ?thesis using 3 by (simp add: findKth.simps)
  next
    case 4
    define h where "h = k div 2"
    have h: "0 < h" "2 * h \<le> k" "k - h < k" using 4(3) by (auto simp: h_def)
    define m1 where "m1 = (if i + h - 1 < length xs then xs ! (i + h - 1) else INT_MAX)"
    define m2 where "m2 = (if j + h - 1 < length ys then ys ! (j + h - 1) else INT_MAX)"
    have le: "x \<le> INT_MAX" if "x \<in> set xs \<or> x \<in> set ys" for x using that assms(3) by auto
    have code: "findKth xs i ys j k = (if m1 < m2 then findKth xs (i + h) ys j (k - h) else findKth xs i ys (j + h) (k - h))"
      using 4 by (subst findKth.simps) (simp add: Let_def h_def m1_def m2_def)
    consider "m1 < m2" | "\<not> m1 < m2" "j + h \<le> length ys" | "\<not> m1 < m2" "length ys < j + h" by linarith
    thus ?thesis
    proof cases
      case 1
      have "i + h - 1 < length xs" using 1 le [of m2] by (auto simp: m1_def m2_def split: if_splits)
      hence "i + h \<le> length xs" "length ys < j + h \<or> xs ! (i + h - 1) \<le> ys ! (j + h - 1)"
        using 1 h(1) by (auto simp: m1_def m2_def split: if_splits)
      thus ?thesis using 1 code findKth_first [OF assms(1,2) 4(1-3) less.prems(4) h_def] less.IH [OF h(3)] less.prems h by simp
    next
      case 2
      have "length xs < i + h \<or> ys ! (j + h - 1) \<le> xs ! (i + h - 1)"
        using 2 h(1) by (auto simp: m1_def m2_def split: if_splits)
      thus ?thesis
        using 2 code findKth_first [OF assms(2,1) 4(2,1,3) _ h_def 2(2)] less.IH [OF h(3), of i "j + h"] less.prems h
        by (simp add: sort_append_commute add.commute)
    next
      case 3
      have len: "length ys - j < h" using 3(2) 4(2) by linarith
      have l: "i + h \<le> length xs" "k - h \<le> length xs - i" using less.prems(4) h len by linarith+
      have "i + h - 1 < length xs" "\<not> j + h - 1 < length ys" using l(1) h(1) 3(2) by linarith+
      hence "INT_MAX \<le> xs ! (i + h - 1)" "xs ! (i + h - 1) \<in> set xs" using 3 by (auto simp: m1_def m2_def)
      hence top: "drop i xs ! (h - 1) = INT_MAX" using le [of "xs ! (i + h - 1)"] 4(1) h(1) l(1) by simp
      have bound: "\<forall>x \<in> set (drop i xs) \<union> set (drop j ys). x \<le> INT_MAX" using assms(3) by (meson UnCI UnE in_set_dropD)
      have "sort (drop i xs @ drop j ys) ! (k - 1) = INT_MAX"
        by (rule all_greatest [OF sorted(1) bound h(1) _ top]) (use l len h less.prems(4) in auto)
      moreover have "drop i xs ! (k - h - 1) = INT_MAX"
      proof (rule antisym)
        have "drop i xs ! (h - 1) \<le> drop i xs ! (k - h - 1)" using sorted(1) h l by (intro sorted_nth_mono) auto
        thus "INT_MAX \<le> drop i xs ! (k - h - 1)" using top by simp
        have "drop i xs ! (k - h - 1) \<in> set (drop i xs)" using h l by (intro nth_mem) auto
        thus "drop i xs ! (k - h - 1) \<le> INT_MAX" using bound by blast
      qed
      moreover have "findKth xs i ys (j + h) (k - h) = Some (drop i xs ! (k - h - 1))"
        using 3(2) 4(1) iget_drop [of i xs "k - h"] l(2) h by (subst findKth.simps) simp
      ultimately show ?thesis using 3(1) code by simp
    qed
  qed
qed


definition median :: "int list \<Rightarrow> rat" where
  "median xs = (of_int (sort xs ! ((length xs - 1) div 2)) + of_int (sort xs ! (length xs div 2))) / 2"

text \<open>
  C24. The median of two sorted arrays: for arrays that are not both empty,
  \<^verbatim>\<open>findMedianSortedArrays\<close> reads nothing out of range and returns the median of all the numbers, also when some
  of them are the greatest number of the type, which the code uses for positions past the end.\<close>
theorem findMedianSortedArrays_median:
  assumes "sorted xs" "sorted ys" "\<forall>x \<in> set xs \<union> set ys. in_int x" "xs \<noteq> [] \<or> ys \<noteq> []" "int (length xs) + int (length ys) < INT_MAX - 1"
  shows "findMedianSortedArrays xs ys = Some (median (xs @ ys))"
proof -
  have m: "\<forall>x \<in> set xs \<union> set ys. x \<le> INT_MAX" using assms(3) by (auto simp: in_int_def)
  have n: "0 < length xs + length ys" using assms(4) by auto
  let ?n = "length xs + length ys"
  have k: "1 \<le> (?n + 1) div 2" "(?n + 1) div 2 \<le> ?n" "1 \<le> (?n + 2) div 2" "(?n + 2) div 2 \<le> ?n" using n by linarith+
  have "findKth xs 0 ys 0 ((?n + 1) div 2) = Some (sort (xs @ ys) ! ((?n + 1) div 2 - 1))"
    using findKth_spec [OF assms(1,2) m, of "(?n + 1) div 2" 0 0] k(1,2) by simp
  moreover have "findKth xs 0 ys 0 ((?n + 2) div 2) = Some (sort (xs @ ys) ! ((?n + 2) div 2 - 1))"
    using findKth_spec [OF assms(1,2) m, of "(?n + 2) div 2" 0 0] k(3,4) by simp
  moreover have "(?n + 1) div 2 - 1 = (?n - 1) div 2" "(?n + 2) div 2 - 1 = ?n div 2" using n by linarith+
  moreover have "in_int (int (length xs) + int (length ys) + 2)" using assms(5) by (simp add: in_int_def)
  ultimately show ?thesis by (simp add: findMedianSortedArrays_def median_def Let_def)
qed

lemma findMedianSortedArrays_median_witness:
  "findMedianSortedArrays [1, INT_MAX, INT_MAX] [2] = Some (of_int (2 + INT_MAX) / 2)"
  using findMedianSortedArrays_median [of "[1, INT_MAX, INT_MAX]" "[2]"] by (simp add: in_int_def median_def)

lemma findMedianSortedArrays_empty: "findMedianSortedArrays [] [] = None"
  by (simp add: findMedianSortedArrays_def findKth.simps iget_def)


section \<open>Priority queues\<close>

text \<open>
  The contract of \<^verbatim>\<open>std::priority_queue\<close>: the top is an element that no other
  precedes, \<^verbatim>\<open>pop\<close> removes it, and the top of an empty queue is undefined.\<close>

locale priority_queue =
  fixes push :: "int \<Rightarrow> 'q \<Rightarrow> 'q" and top :: "'q \<Rightarrow> int ub" and pop :: "'q \<Rightarrow> 'q" and elems :: "'q \<Rightarrow> int multiset"
    and before :: "int \<Rightarrow> int \<Rightarrow> bool" and ok :: "'q \<Rightarrow> bool"
  assumes ok_push: "ok q \<Longrightarrow> ok (push x q)" and ok_pop: "ok q \<Longrightarrow> ok (pop q)"
    and elems_push: "elems (push x q) = add_mset x (elems q)"
    and top_empty: "elems q = {#} \<Longrightarrow> top q = None"
    and top_first: "ok q \<Longrightarrow> elems q \<noteq> {#} \<Longrightarrow> \<exists>x. top q = Some x \<and> x \<in># elems q \<and> (\<forall>y \<in># elems q. before x y) \<and> elems (pop q) = elems q - {#x#}"
begin

text \<open>Pushing a number and taking the top leaves the other numbers and gives the first one.\<close>

lemma push_top:
  assumes "ok q"
  obtains x where "top (push n q) = Some x" "x \<in># add_mset n (elems q)" "\<forall>y \<in># add_mset n (elems q). before x y"
    "elems (pop (push n q)) = add_mset n (elems q) - {#x#}" "ok (pop (push n q))"
  using top_first [OF ok_push [OF assms], of n] ok_pop [OF ok_push [OF assms]] by (auto simp: elems_push)

lemma push_top_size: "ok q \<Longrightarrow> size (elems (pop (push n q))) = size (elems q)"
  using push_top [of q n] by (metis size_Diff_singleton size_add_mset diff_Suc_1)

end

text \<open>A queue is its elements from the top on.\<close>

definition less_push :: "int \<Rightarrow> int list \<Rightarrow> int list" where
  "less_push x q = rev (insort x (rev q))"

definition greater_push :: "int \<Rightarrow> int list \<Rightarrow> int list" where
  "greater_push x q = insort x q"

definition pq_top :: "int list \<Rightarrow> int ub" where
  "pq_top q = (case q of [] \<Rightarrow> None | x # _ \<Rightarrow> Some x)"

definition pq_pop :: "int list \<Rightarrow> int list" where
  "pq_pop q = tl q"

interpretation max_heap: priority_queue less_push pq_top pq_pop mset "\<lambda>x y. y \<le> x" "\<lambda>q. sorted (rev q)"
proof unfold_locales
  fix q :: "int list" and x :: int
  show "sorted (rev q) \<Longrightarrow> sorted (rev (less_push x q))" by (simp add: less_push_def sorted_insort)
  show "sorted (rev q) \<Longrightarrow> sorted (rev (pq_pop q))" by (cases q) (simp_all add: pq_pop_def sorted_append)
  show "mset (less_push x q) = add_mset x (mset q)" by (simp add: less_push_def)
  show "mset q = {#} \<Longrightarrow> pq_top q = None" by (simp add: pq_top_def)
  show "sorted (rev q) \<Longrightarrow> mset q \<noteq> {#} \<Longrightarrow>
      \<exists>x. pq_top q = Some x \<and> x \<in># mset q \<and> (\<forall>y \<in># mset q. y \<le> x) \<and> mset (pq_pop q) = mset q - {#x#}"
    by (cases q) (auto simp: pq_top_def pq_pop_def sorted_append)
qed

interpretation min_heap: priority_queue greater_push pq_top pq_pop mset "(\<le>)" sorted
proof unfold_locales
  fix q :: "int list" and x :: int
  show "sorted q \<Longrightarrow> sorted (greater_push x q)" by (simp add: greater_push_def sorted_insort)
  show "sorted q \<Longrightarrow> sorted (pq_pop q)" by (cases q) (simp_all add: pq_pop_def)
  show "mset (greater_push x q) = add_mset x (mset q)" by (simp add: greater_push_def)
  show "mset q = {#} \<Longrightarrow> pq_top q = None" by (simp add: pq_top_def)
  show "sorted q \<Longrightarrow> mset q \<noteq> {#} \<Longrightarrow> \<exists>x. pq_top q = Some x \<and> x \<in># mset q \<and> (\<forall>y \<in># mset q. x \<le> y) \<and> mset (pq_pop q) = mset q - {#x#}"
    by (cases q) (auto simp: pq_top_def pq_pop_def)
qed

section \<open>MedianFinder\<close>

record median_finder =
  maxHeap :: "int list"
  minHeap :: "int list"
  count :: int

definition MedianFinder_new :: median_finder where
  "MedianFinder_new = \<lparr>maxHeap = [], minHeap = [], count = 0\<rparr>"

definition addNum :: "int \<Rightarrow> median_finder \<Rightarrow> median_finder ub" where
  "addNum num s =
     (if trem (count s) 2 = 0 then
        do { let maxs = less_push num (maxHeap s);
             t \<leftarrow> pq_top maxs;
             c \<leftarrow> as_int (count s + 1);
             Some \<lparr>maxHeap = pq_pop maxs, minHeap = greater_push t (minHeap s), count = c\<rparr> }
      else
        do { let mins = greater_push num (minHeap s);
             t \<leftarrow> pq_top mins;
             c \<leftarrow> as_int (count s + 1);
             Some \<lparr>maxHeap = less_push t (maxHeap s), minHeap = pq_pop mins, count = c\<rparr> })"

definition findMedian :: "median_finder \<Rightarrow> rat ub" where
  "findMedian s =
     (if trem (count s) 2 = 0 then
        do { a \<leftarrow> pq_top (maxHeap s); b \<leftarrow> pq_top (minHeap s); sum \<leftarrow> as_int (a + b); Some (of_int sum / 2) }
      else do { b \<leftarrow> pq_top (minHeap s); Some (of_int b) })"

fun addNums :: "int list \<Rightarrow> median_finder \<Rightarrow> median_finder ub" where
  "addNums [] s = Some s"
| "addNums (x # xs) s = do { s' \<leftarrow> addNum x s; addNums xs s' }"

definition finder_inv :: "int list \<Rightarrow> median_finder \<Rightarrow> bool" where
  "finder_inv xs s \<longleftrightarrow> count s = int (length xs) \<and> mset (maxHeap s) + mset (minHeap s) = mset xs \<and> sorted (rev (maxHeap s)) \<and>
     sorted (minHeap s) \<and> (\<forall>x \<in> set (maxHeap s). \<forall>y \<in> set (minHeap s). x \<le> y) \<and>
     length (minHeap s) = length (maxHeap s) + length xs mod 2"


text \<open>A number moved through one heap keeps the heaps apart.\<close>

lemma move_between:
  fixes num x :: int
  assumes "\<forall>a \<in># A. \<forall>b \<in># B. le a b" "x \<in># add_mset num A" "\<forall>y \<in># add_mset num A. le y x" "\<And>u v w. le u v \<Longrightarrow> le v w \<Longrightarrow> le u w"
    "a \<in># add_mset num A - {#x#}" "b \<in># add_mset x B"
  shows "le a b"
proof -
  have "a \<in># add_mset num A" using assms(5) by (rule in_diffD)
  hence ax: "le a x" using assms(3) by blast
  show ?thesis
  proof (cases "x = num")
    case True
    thus ?thesis using assms(1,5,6) ax by auto
  next
    case False
    hence "x \<in># A" using assms(2) by simp
    thus ?thesis using assms(1,4,6) ax by auto
  qed
qed

lemma addNum_even:
  assumes "finder_inv xs s" "int (length xs) < INT_MAX" "even (length xs)"
  shows "\<exists>s'. addNum n s = Some s' \<and> finder_inv (xs @ [n]) s'"
proof -
  note i = assms(1) [unfolded finder_inv_def]
  obtain x where x: "pq_top (less_push n (maxHeap s)) = Some x" "x \<in># add_mset n (mset (maxHeap s))" "\<forall>y \<in># add_mset n (mset (maxHeap s)). y \<le> x"
      "mset (pq_pop (less_push n (maxHeap s))) = add_mset n (mset (maxHeap s)) - {#x#}" "sorted (rev (pq_pop (less_push n (maxHeap s))))"
    using max_heap.push_top [of "maxHeap s" n] i by blast
  define m where "m = pq_pop (less_push n (maxHeap s))"
  have e: "trem (count s) 2 = 0" using i assms(3) by (simp add: trem_def)
  have c: "as_int (count s + 1) = Some (int (length (xs @ [n])))" using i assms(2) by (simp add: as_int_def in_int_def)
  have step: "addNum n s = Some \<lparr>maxHeap = m, minHeap = greater_push x (minHeap s), count = int (length (xs @ [n]))\<rparr>"
    using e x(1) c by (simp add: addNum_def m_def Let_def)
  have "add_mset x (mset m) = add_mset n (mset (maxHeap s))" using x(2,4) by (simp add: m_def)
  hence ms: "mset m + mset (greater_push x (minHeap s)) = mset (xs @ [n])"
    using i by (simp add: min_heap.elems_push) (metis add_mset_add_single union_mset_add_mset_left)
  have "length m = length (maxHeap s)" using max_heap.push_top_size [of "maxHeap s" n] i by (simp add: m_def)
  moreover have "length (greater_push x (minHeap s)) = length (minHeap s) + 1" by (simp add: greater_push_def)
  moreover have "Suc (length xs) mod 2 = 1" using assms(3) by presburger
  moreover have "a \<le> b" if "a \<in> set m" "b \<in> set (greater_push x (minHeap s))" for a b
    using that move_between [of "mset (maxHeap s)" "mset (minHeap s)" "(\<le>)" x n a b] i x(2,3) x(4) [folded m_def]
    by (simp flip: set_mset_mset add: min_heap.elems_push)
  ultimately have "finder_inv (xs @ [n]) \<lparr>maxHeap = m, minHeap = greater_push x (minHeap s), count = int (length (xs @ [n]))\<rparr>"
    using i ms x(5) [folded m_def] assms(3) min_heap.ok_push by (simp add: finder_inv_def)
  thus ?thesis using step by blast
qed


lemma addNum_odd:
  assumes "finder_inv xs s" "int (length xs) < INT_MAX" "odd (length xs)"
  shows "\<exists>s'. addNum n s = Some s' \<and> finder_inv (xs @ [n]) s'"
proof -
  note i = assms(1) [unfolded finder_inv_def]
  obtain x where x: "pq_top (greater_push n (minHeap s)) = Some x" "x \<in># add_mset n (mset (minHeap s))" "\<forall>y \<in># add_mset n (mset (minHeap s)). x \<le> y"
      "mset (pq_pop (greater_push n (minHeap s))) = add_mset n (mset (minHeap s)) - {#x#}" "sorted (pq_pop (greater_push n (minHeap s)))"
    using min_heap.push_top [of "minHeap s" n] i by blast
  define m where "m = pq_pop (greater_push n (minHeap s))"
  have e: "trem (count s) 2 \<noteq> 0" using i assms(3) by (simp add: trem_def) presburger
  have c: "as_int (count s + 1) = Some (int (length (xs @ [n])))" using i assms(2) by (simp add: as_int_def in_int_def)
  have step: "addNum n s = Some \<lparr>maxHeap = less_push x (maxHeap s), minHeap = m, count = int (length (xs @ [n]))\<rparr>"
    using e x(1) c by (simp add: addNum_def m_def Let_def)
  have "add_mset x (mset m) = add_mset n (mset (minHeap s))" using x(2,4) by (simp add: m_def)
  hence ms: "mset (less_push x (maxHeap s)) + mset m = mset (xs @ [n])"
    using i by (simp add: max_heap.elems_push) (metis add_mset_add_single union_mset_add_mset_right)
  have "length m = length (minHeap s)" using min_heap.push_top_size [of "minHeap s" n] i by (simp add: m_def)
  moreover have "length (less_push x (maxHeap s)) = length (maxHeap s) + 1" by (simp add: less_push_def)
  moreover have "Suc (length xs) mod 2 = 0" "length xs mod 2 = 1" using assms(3) by presburger+
  moreover have "b \<le> a" if "a \<in> set m" "b \<in> set (less_push x (maxHeap s))" for a b
    using that move_between [of "mset (minHeap s)" "mset (maxHeap s)" "(\<ge>)" x n a b] i x(2,3) x(4) [folded m_def]
    by (simp flip: set_mset_mset add: max_heap.elems_push)
  ultimately have "finder_inv (xs @ [n]) \<lparr>maxHeap = less_push x (maxHeap s), minHeap = m, count = int (length (xs @ [n]))\<rparr>"
    using i ms x(5) [folded m_def] max_heap.ok_push by (simp add: finder_inv_def)
  thus ?thesis using step by blast
qed

lemma addNums_inv:
  "finder_inv ys s \<Longrightarrow> int (length ys + length xs) \<le> INT_MAX \<Longrightarrow> \<exists>s'. addNums xs s = Some s' \<and> finder_inv (ys @ xs) s'"
proof (induction xs arbitrary: ys s)
  case (Cons x xs)
  have "int (length ys) < INT_MAX" using Cons.prems(2) by simp
  then obtain t where t: "addNum x s = Some t" "finder_inv (ys @ [x]) t"
    using addNum_even [OF Cons.prems(1)] addNum_odd [OF Cons.prems(1)] by blast
  thus ?case using Cons.IH [OF t(2)] Cons.prems(2) by simp
qed simp

lemma findMedian_inv:
  assumes "finder_inv xs s" "xs \<noteq> []" "\<forall>x \<in> set xs. 2 * \<bar>x\<bar> \<le> INT_MAX"
  shows "findMedian s = Some (median xs)"
proof -
  note i = assms(1) [unfolded finder_inv_def]
  have sort: "sort xs = rev (maxHeap s) @ minHeap s"
    using i by (intro properties_for_sort) (auto simp: sorted_append)
  have len: "length xs = length (maxHeap s) + length (minHeap s)" using i by (metis size_mset size_union)
  have sets: "set xs = set (maxHeap s) \<union> set (minHeap s)" using i by (metis set_mset_mset set_mset_union)
  have ne: "minHeap s \<noteq> []" using len i assms(2) by auto
  then obtain b bs where b: "minHeap s = b # bs" by (cases "minHeap s") auto
  show ?thesis
  proof (cases "even (length xs)")
    case True
    hence eq: "length (minHeap s) = length (maxHeap s)" using i by (simp add: even_iff_mod_2_eq_zero)
    then obtain a as where a: "maxHeap s = a # as" using b by (cases "maxHeap s") auto
    have ind: "(length xs - 1) div 2 = length as" "length xs div 2 = Suc (length as)" using len eq a b by simp_all
    have "in_int (a + b)" using assms(3) sets a b by (auto simp: in_int_def)
    moreover have "trem (count s) 2 = 0" using i True by (simp add: trem_def)
    ultimately show ?thesis using a b unfolding findMedian_def median_def sort ind by (simp add: pq_top_def nth_append)
  next
    case False
    hence eq: "length (minHeap s) = Suc (length (maxHeap s))" using i by (simp add: odd_iff_mod_2_eq_one)
    have ind: "(length xs - 1) div 2 = length (maxHeap s)" "length xs div 2 = length (maxHeap s)" using len eq by simp_all
    have "trem (count s) 2 \<noteq> 0" using i False by (simp add: trem_def) presburger
    thus ?thesis using b unfolding findMedian_def median_def sort ind by (simp add: pq_top_def nth_append)
  qed
qed

text \<open>
  The median of a stream: after numbers have been added to an empty finder (each small enough for
  the sum of two to fit), \<^verbatim>\<open>findMedian\<close> returns the median of all of them; on an empty finder it is undefined.\<close>
theorem median_finder_median:
  assumes "xs \<noteq> []" "\<forall>x \<in> set xs. 2 * \<bar>x\<bar> \<le> INT_MAX" "int (length xs) \<le> INT_MAX"
  shows "\<exists>s. addNums xs MedianFinder_new = Some s \<and> findMedian s = Some (median xs) \<and> findMedian MedianFinder_new = None"
proof -
  have "finder_inv [] MedianFinder_new" by (simp add: finder_inv_def MedianFinder_new_def)
  from addNums_inv [OF this, of xs] obtain s where s: "addNums xs MedianFinder_new = Some s" "finder_inv xs s" using assms(3) by auto
  moreover have "findMedian MedianFinder_new = None" by (simp add: findMedian_def MedianFinder_new_def pq_top_def)
  ultimately show ?thesis using findMedian_inv assms(1,2) by blast
qed

lemma median_finder_median_witness: "\<exists>s. addNums [3, 1, 2, 10] MedianFinder_new = Some s \<and> findMedian s = Some (5 / 2)"
proof -
  have "median [3, 1, 2, 10] = 5 / 2" by (simp add: median_def)
  thus ?thesis using median_finder_median [of "[3, 1, 2, 10]"] by auto
qed

lemma median_finder_overflow: "do { s \<leftarrow> addNums [INT_MAX, INT_MAX] MedianFinder_new; findMedian s } = None"
  by (simp add: addNum_def findMedian_def MedianFinder_new_def less_push_def greater_push_def pq_top_def pq_pop_def trem_def as_int_def in_int_def)

end
