(* ===== verification/QuickSelect.thy ===== *)
theory QuickSelect
  imports Cpp_Prelude
begin

text \<open>
  The k-th greatest element by quick select,
  \<^verbatim>\<open>findKthLargest\<close> in \<^verbatim>\<open>cpp/online_judge/leetcode/editor/cn\<close>. The partition moves a hole
  from both ends. The main loop always restarts at one of the two ends of the array, so
  its termination is not obvious: it rests on the number of positions that are not settled yet.
\<close>

section \<open>The code\<close>

function scan_up :: "int list \<Rightarrow> int \<Rightarrow> nat \<Rightarrow> nat \<Rightarrow> nat ub" where
  "scan_up nums val left right =
     (if left < right
      then do { x \<leftarrow> vget nums left; if x \<le> val then scan_up nums val (left + 1) right else Some left }
      else Some left)"
  by auto
termination by (relation "measure (\<lambda>(_, _, left, right). right - left)") auto

function scan_down :: "int list \<Rightarrow> int \<Rightarrow> nat \<Rightarrow> nat \<Rightarrow> nat ub" where
  "scan_down nums val left right =
     (if left < right
      then do { x \<leftarrow> vget nums right; if x \<ge> val then scan_down nums val left (right - 1) else Some right }
      else Some right)"
  by auto
termination by (relation "measure (\<lambda>(_, _, left, right). right - left)") auto

partial_function (option) hole_loop :: "int list \<Rightarrow> int \<Rightarrow> nat \<Rightarrow> nat \<Rightarrow> (int list \<times> nat) ub" where
  "hole_loop nums val left right =
     (if left < right
      then do { left \<leftarrow> scan_up nums val left right;
                x \<leftarrow> vget nums left;
                nums \<leftarrow> vset nums right x;
                right \<leftarrow> scan_down nums val left right;
                y \<leftarrow> vget nums right;
                nums \<leftarrow> vset nums left y;
                hole_loop nums val left right }
      else Some (nums, left))"

definition partition_hole :: "int list \<Rightarrow> nat \<Rightarrow> nat \<Rightarrow> (int list \<times> nat) ub" where
  "partition_hole nums left right =
     do { val \<leftarrow> vget nums right;
          (nums, left) \<leftarrow> hole_loop nums val left right;
          nums \<leftarrow> vset nums left val;
          Some (nums, left) }"

partial_function (option) select_loop :: "int list \<Rightarrow> nat \<Rightarrow> nat \<Rightarrow> int ub" where
  "select_loop nums k cur =
     (if cur = k then vget nums k
      else if cur > k then do { (nums, cur) \<leftarrow> partition_hole nums 0 (cur - 1); select_loop nums k cur }
      else do { (nums, cur) \<leftarrow> partition_hole nums (cur + 1) (length nums - 1); select_loop nums k cur })"

text \<open>A negative \<open>k\<close> is converted to an unsigned number above every size.\<close>

definition findKthLargest :: "int list \<Rightarrow> int \<Rightarrow> int ub" where
  "findKthLargest nums k =
     (if nums = [] then Some (-1)
      else if k < 0 \<or> int (length nums) < k then Some (-1)
      else do { (nums', cur) \<leftarrow> partition_hole nums 0 (length nums - 1);
                select_loop nums' (length nums - nat k) cur })"

declare scan_up.simps [simp del] scan_down.simps [simp del]

section \<open>The partition\<close>

lemma scan_up_ok:
  "left \<le> right \<Longrightarrow> right \<le> length nums \<Longrightarrow> \<exists>l. scan_up nums v left right = Some l \<and> left \<le> l \<and> l \<le> right \<and>
     (\<forall>i. left \<le> i \<and> i < l \<longrightarrow> nums ! i \<le> v) \<and> (l < right \<longrightarrow> v < nums ! l)"
proof (induction nums v left right rule: scan_up.induct)
  case (1 nums v left right)
  show ?case
  proof (cases "left < right \<and> nums ! left \<le> v")
    case True
    then obtain l where l: "scan_up nums v (left + 1) right = Some l" "left + 1 \<le> l" "l \<le> right"
        "\<forall>i. left + 1 \<le> i \<and> i < l \<longrightarrow> nums ! i \<le> v" "l < right \<longrightarrow> v < nums ! l"
      using "1.IH" [of "nums ! left"] "1.prems" by (auto simp: vec_simps)
    have "nums ! i \<le> v" if "left \<le> i" "i < l" for i using that l(4) True by (cases "i = left") auto
    moreover have "scan_up nums v left right = Some l" using True l(1) "1.prems" by (subst scan_up.simps) (simp add: vec_simps)
    ultimately show ?thesis using l by auto
  next
    case False
    thus ?thesis using "1.prems" by (subst scan_up.simps) (auto simp: vec_simps)
  qed
qed

lemma scan_down_ok:
  "left \<le> right \<Longrightarrow> right < length nums \<Longrightarrow> \<exists>r. scan_down nums v left right = Some r \<and> left \<le> r \<and> r \<le> right \<and>
     (\<forall>i. r < i \<and> i \<le> right \<longrightarrow> v \<le> nums ! i) \<and> (left < r \<longrightarrow> nums ! r < v)"
proof (induction nums v left right rule: scan_down.induct)
  case (1 nums v left right)
  show ?case
  proof (cases "left < right \<and> v \<le> nums ! right")
    case True
    hence "left \<le> right - 1" "right - 1 < length nums" using "1.prems" by auto
    from "1.IH" [OF _ _ _ this, of "nums ! right"] True "1.prems"
    obtain r where r: "scan_down nums v left (right - 1) = Some r" "left \<le> r" "r \<le> right - 1"
        "\<forall>i. r < i \<and> i \<le> right - 1 \<longrightarrow> v \<le> nums ! i" "left < r \<longrightarrow> nums ! r < v"
      by (auto simp: vec_simps)
    have "v \<le> nums ! i" if "r < i" "i \<le> right" for i using that r(4) True by (cases "i = right") auto
    moreover have "scan_down nums v left right = Some r" using True r(1) "1.prems" by (subst scan_down.simps) (simp add: vec_simps)
    ultimately show ?thesis using r True by auto
  next
    case False
    thus ?thesis using "1.prems" by (subst scan_down.simps) (auto simp: vec_simps)
  qed
qed

text \<open>Moving the hole is a swap.\<close>

lemma mset_move_hole: "l < length xs \<Longrightarrow> r < length xs \<Longrightarrow> l \<noteq> r \<Longrightarrow> mset (xs[r := xs ! l, l := v]) = mset (xs[r := v])"
proof -
  assume a: "l < length xs" "r < length xs" "l \<noteq> r"
  have "mset ((xs[r := v])[l := xs[r := v] ! r, r := xs[r := v] ! l]) = mset (xs[r := v])" using a by (intro mset_swap_list) simp_all
  moreover have "(xs[r := v])[l := xs[r := v] ! r, r := xs[r := v] ! l] = xs[r := xs ! l, l := v]"
    using a by (simp add: list_update_swap)
  ultimately show ?thesis by simp
qed

definition hole_post :: "int list \<Rightarrow> int \<Rightarrow> nat \<Rightarrow> nat \<Rightarrow> int list \<Rightarrow> nat \<Rightarrow> bool" where
  "hole_post xs v l r ys c \<longleftrightarrow> l \<le> c \<and> c \<le> r \<and> length ys = length xs \<and> mset (ys[c := v]) = mset (xs[r := v]) \<and>
     (\<forall>i. i < l \<or> r < i \<longrightarrow> ys ! i = xs ! i) \<and> (\<forall>i. l \<le> i \<and> i < c \<longrightarrow> ys ! i \<le> v) \<and> (\<forall>i. c < i \<and> i \<le> r \<longrightarrow> v \<le> ys ! i) \<and>
     (\<forall>p < r. l \<le> p \<longrightarrow> (\<forall>i. l \<le> i \<and> i \<le> p \<longrightarrow> xs ! i \<le> v) \<longrightarrow> p < c \<and> (\<forall>i \<le> p. ys ! i = xs ! i))"

lemma hole_loop_ok: "l \<le> r \<Longrightarrow> r < length xs \<Longrightarrow> \<exists>ys c. hole_loop xs v l r = Some (ys, c) \<and> hole_post xs v l r ys c"
proof (induction "r - l" arbitrary: xs l r rule: less_induct)
  case less
  show ?case
  proof (cases "l < r")
    case False
    thus ?thesis using less.prems by (subst hole_loop.simps) (auto simp: hole_post_def)
  next
    case True
    obtain l' where l': "scan_up xs v l r = Some l'" "l \<le> l'" "l' \<le> r" "\<forall>i. l \<le> i \<and> i < l' \<longrightarrow> xs ! i \<le> v" "l' < r \<longrightarrow> v < xs ! l'"
      using scan_up_ok [of l r xs v] less.prems by auto
    let ?us = "xs[r := xs ! l']"
    obtain r' where r': "scan_down ?us v l' r = Some r'" "l' \<le> r'" "r' \<le> r" "\<forall>i. r' < i \<and> i \<le> r \<longrightarrow> v \<le> ?us ! i" "l' < r' \<longrightarrow> ?us ! r' < v"
      using scan_down_ok [of l' r ?us v] l' less.prems by auto
    have rr: "r' < r" if "l' < r" using that r'(2,5) r'(3) l'(5) less.prems(2) by (cases "r' = r") auto
    let ?ws = "?us[l' := ?us ! r']"
    have step: "hole_loop xs v l r = hole_loop ?ws v l' r'"
      using True l'(1,3) r'(1,3) less.prems by (subst hole_loop.simps) (simp add: vec_simps)
    have "r' - l' < r - l" using rr l' r'(2,3) True by (cases "l' < r") auto
    from less.hyps [OF this, of ?ws] obtain ys c where y: "hole_loop ?ws v l' r' = Some (ys, c)" "hole_post ?ws v l' r' ys c"
      using r'(2,3) less.prems by auto
    have "hole_post xs v l r ys c"
    proof (cases "l' < r")
      case False
      hence "l' = r" "r' = r" using l'(3) r'(2,3) by auto
      thus ?thesis using y(2) l'(2,4) less.prems by (auto simp: hole_post_def)
    next
      case True
      have ws: "?ws ! i = (if i = l' then xs ! r' else if i = r then xs ! l' else xs ! i)" for i
        using True rr r' less.prems by (simp add: nth_list_update)
      note post = y(2) [unfolded hole_post_def]
      have "mset (?ws[r' := v]) = mset (?us[l' := v])"
      proof (cases "l' = r'")
        case False
        thus ?thesis using mset_move_hole [of r' ?us l' v] r'(2,3) less.prems by simp
      qed simp
      also have "\<dots> = mset (xs[r := v])" using mset_move_hole [of l' xs r v] True less.prems by simp
      finally have "mset (ys[c := v]) = mset (xs[r := v])" using post by simp
      moreover have "ys ! i = xs ! i" if "i < l \<or> r < i" for i
        using that post ws [of i] l'(2) True r'(3) by auto
      moreover have "ys ! i \<le> v" if "l \<le> i" "i < c" for i
        using that post ws [of i] l'(4) True by (cases "i < l'") auto
      moreover have "v \<le> ys ! i" if "c < i" "i \<le> r" for i
      proof (cases "i \<le> r'")
        case False
        hence "ys ! i = ?ws ! i" "i \<noteq> l'" using post r'(2) by auto
        moreover have "v \<le> ?us ! i" using r'(4) False that(2) by simp
        ultimately show ?thesis using ws [of i] l'(5) True by (cases "i = r") auto
      qed (use post that in auto)
      moreover have "p < c \<and> (\<forall>i \<le> p. ys ! i = xs ! i)" if "p < r" "l \<le> p" "\<forall>i. l \<le> i \<and> i \<le> p \<longrightarrow> xs ! i \<le> v" for p
      proof -
        have "p < l'" using that(3) l'(2,5) True by (meson leD leI)
        thus ?thesis using post ws True by auto
      qed
      ultimately show ?thesis using post l'(2) r'(3) unfolding hole_post_def by auto
    qed
    thus ?thesis using step y(1) by auto
  qed
qed

lemma partition_hole_ok:
  assumes "l \<le> r" "r < length xs"
  shows "\<exists>ys c. partition_hole xs l r = Some (ys, c) \<and> l \<le> c \<and> c \<le> r \<and> mset ys = mset xs \<and> ys ! c = xs ! r \<and>
     (\<forall>i. i < l \<or> r < i \<longrightarrow> ys ! i = xs ! i) \<and> (\<forall>i. l \<le> i \<and> i < c \<longrightarrow> ys ! i \<le> xs ! r) \<and> (\<forall>i. c < i \<and> i \<le> r \<longrightarrow> xs ! r \<le> ys ! i) \<and>
     (\<forall>p < r. l \<le> p \<longrightarrow> (\<forall>i. l \<le> i \<and> i \<le> p \<longrightarrow> xs ! i \<le> xs ! r) \<longrightarrow> p < c \<and> (\<forall>i \<le> p. ys ! i = xs ! i))"
proof -
  obtain ys c where y: "hole_loop xs (xs ! r) l r = Some (ys, c)" "hole_post xs (xs ! r) l r ys c" using hole_loop_ok [OF assms] by blast
  note post = y(2) [unfolded hole_post_def]
  have "c < length ys" using post assms by linarith
  hence p: "partition_hole xs l r = Some (ys[c := xs ! r], c)" using y(1) assms by (simp add: partition_hole_def vec_simps)
  have nth: "ys[c := xs ! r] ! i = (if i = c then xs ! r else ys ! i)" for i using \<open>c < length ys\<close> by (simp add: nth_list_update)
  have "mset (ys[c := xs ! r]) = mset xs" using post assms(2) by simp
  thus ?thesis unfolding p using post nth by (intro exI [of _ "ys[c := xs ! r]"] exI [of _ c]) auto
qed

section \<open>Settled positions\<close>

text \<open>A position is settled when nothing before it is greater and nothing after it is smaller.\<close>

definition settled :: "int list \<Rightarrow> nat \<Rightarrow> bool" where
  "settled xs p \<longleftrightarrow> p < length xs \<and> (\<forall>x \<in> set (take p xs). x \<le> xs ! p) \<and> (\<forall>x \<in> set (drop (Suc p) xs). xs ! p \<le> x)"

lemma settled_sort: "settled xs p \<Longrightarrow> sort xs ! p = xs ! p"
proof -
  assume s: "settled xs p"
  hence p: "p < length xs" by (simp add: settled_def)
  have "x \<le> y" if "x \<in> set (take p xs)" "y \<in> set (xs ! p # drop (Suc p) xs)" for x y
    using s that by (fastforce simp: settled_def)
  hence "sort (take p xs @ xs ! p # drop (Suc p) xs) = sort (take p xs) @ sort ([xs ! p] @ drop (Suc p) xs)"
    by (subst sort_append_le) auto
  also have "sort ([xs ! p] @ drop (Suc p) xs) = sort [xs ! p] @ sort (drop (Suc p) xs)"
    using s by (intro sort_append_le) (simp add: settled_def)
  finally have "sort xs = sort (take p xs) @ xs ! p # sort (drop (Suc p) xs)" using p by (simp add: id_take_nth_drop [symmetric])
  thus ?thesis using p by (simp add: nth_append)
qed

lemma drop_same_mset: "mset xs = mset ys \<Longrightarrow> take n xs = take n ys \<Longrightarrow> mset (drop n xs) = mset (drop n ys)"
  by (metis append_take_drop_id mset_append add_left_cancel)

lemma take_same_mset: "mset xs = mset ys \<Longrightarrow> drop n xs = drop n ys \<Longrightarrow> mset (take n xs) = mset (take n ys)"
  by (metis append_take_drop_id mset_append add_right_cancel)

lemma settled_before:
  assumes "settled xs p" "mset ys = mset xs" "take (Suc p) ys = take (Suc p) xs"
  shows "settled ys p"
proof -
  have len: "length ys = length xs" using assms(2) by (metis size_mset)
  have "set (drop (Suc p) ys) = set (drop (Suc p) xs)" using drop_same_mset [OF assms(2,3)] by (metis set_mset_mset)
  moreover have "take p ys = take p xs" using assms(3) by (metis take_Suc_conv_app_nth append1_eq_conv assms(1) len settled_def)
  moreover have "ys ! p = xs ! p" using assms(3) by (metis lessI nth_take)
  ultimately show ?thesis using assms(1) len by (simp add: settled_def)
qed

lemma settled_after:
  assumes "settled xs p" "mset ys = mset xs" "drop p ys = drop p xs"
  shows "settled ys p"
proof -
  have len: "length ys = length xs" using assms(2) by (metis size_mset)
  have "set (take p ys) = set (take p xs)" using take_same_mset [OF assms(2,3)] by (metis set_mset_mset)
  moreover have "drop (Suc p) ys = drop (Suc p) xs" using assms(3) by (metis drop_Suc tl_drop)
  moreover have "ys ! p = xs ! p" using assms(1,3) len by (metis hd_drop_conv_nth settled_def)
  ultimately show ?thesis using assms(1) len by (simp add: settled_def)
qed

lemma settled_le: "settled xs p \<Longrightarrow> i \<le> p \<Longrightarrow> xs ! i \<le> xs ! p"
proof (cases "i = p")
  case False
  assume a: "settled xs p" "i \<le> p"
  have "take p xs ! i \<in> set (take p xs)" using a False by (intro nth_mem) (simp add: settled_def)
  thus ?thesis using a False by (simp add: settled_def)
qed simp

lemma settled_ge: "settled xs p \<Longrightarrow> p \<le> i \<Longrightarrow> i < length xs \<Longrightarrow> xs ! p \<le> xs ! i"
proof (cases "i = p")
  case False
  assume a: "settled xs p" "p \<le> i" "i < length xs"
  have "drop (Suc p) xs ! (i - Suc p) \<in> set (drop (Suc p) xs)" using a False by (intro nth_mem) simp
  thus ?thesis using a False by (simp add: settled_def)
qed simp

lemma settledI:
  assumes "p < length xs" "\<And>i. i < p \<Longrightarrow> xs ! i \<le> xs ! p" "\<And>i. p < i \<Longrightarrow> i < length xs \<Longrightarrow> xs ! p \<le> xs ! i"
  shows "settled xs p"
proof -
  have "x \<le> xs ! p" if mem: "x \<in> set (take p xs)" for x
    using mem assms(1,2) unfolding in_set_conv_nth by auto
  moreover have "xs ! p \<le> x" if mem: "x \<in> set (drop (Suc p) xs)" for x
    using mem assms(3) unfolding in_set_conv_nth by auto
  ultimately show ?thesis using assms(1) by (simp add: settled_def)
qed

lemma partition_settles:
  assumes "l \<le> r" "r < length xs" "l = 0 \<or> settled xs (l - 1)" "r = length xs - 1 \<or> settled xs (r + 1)"
  shows "\<exists>ys c. partition_hole xs l r = Some (ys, c) \<and> l \<le> c \<and> c \<le> r \<and> mset ys = mset xs \<and> settled ys c \<and>
    (\<forall>p. settled xs p \<longrightarrow> settled ys p) \<and> (c \<noteq> r \<longrightarrow> \<not> settled xs c)"
proof -
  obtain ys c where y: "partition_hole xs l r = Some (ys, c)" "l \<le> c" "c \<le> r" "mset ys = mset xs" "ys ! c = xs ! r"
      "\<forall>i. i < l \<or> r < i \<longrightarrow> ys ! i = xs ! i" "\<forall>i. l \<le> i \<and> i < c \<longrightarrow> ys ! i \<le> xs ! r" "\<forall>i. c < i \<and> i \<le> r \<longrightarrow> xs ! r \<le> ys ! i"
      "\<forall>p < r. l \<le> p \<longrightarrow> (\<forall>i. l \<le> i \<and> i \<le> p \<longrightarrow> xs ! i \<le> xs ! r) \<longrightarrow> p < c \<and> (\<forall>i \<le> p. ys ! i = xs ! i)"
    using partition_hole_ok [OF assms(1,2)] by (elim exE conjE) (rule that; assumption)
  have len: "length ys = length xs" using y(4) by (metis size_mset)
  have keep: "c' < c \<and> settled ys c'" if c': "settled xs c'" "l \<le> c'" "c' < r" for c'
  proof -
    have "xs ! i \<le> xs ! r" if "i \<le> c'" for i
      using settled_le [OF c'(1) that] settled_ge [OF c'(1), of r] c'(3) assms(2) by simp
    hence "c' < c" "\<forall>i \<le> c'. ys ! i = xs ! i" using y(9) c' by blast+
    moreover from this have "take (Suc c') ys = take (Suc c') xs" using len c'(3) assms(2) by (intro nth_take_lemma) auto
    ultimately show ?thesis using settled_before [OF c'(1) y(4)] by blast
  qed
  have kept: "settled ys p" if p: "settled xs p" for p
  proof -
    consider "p < l" | "l \<le> p" "p < r" | "r < p" | "p = r" by linarith
    thus ?thesis
    proof cases
      case 1
      have "take (Suc p) ys = take (Suc p) xs" using len y(6) 1 assms(1,2) by (intro nth_take_lemma) auto
      thus ?thesis using settled_before [OF p y(4)] by blast
    next
      case 2
      thus ?thesis using keep p by blast
    next
      case 3
      have "drop p ys = drop p xs" using len y(6) 3 by (intro nth_equalityI) auto
      thus ?thesis using settled_after [OF p y(4)] by blast
    next
      case 4
      have all: "xs ! i \<le> xs ! r" if "i \<le> r" for i using settled_le [OF p [unfolded 4] that] .
      have "c = r \<and> (\<forall>i < r. ys ! i = xs ! i)"
      proof (cases "l = r")
        case True
        thus ?thesis using y(2,3,6) by auto
      next
        case False
        hence "r - 1 < r" "l \<le> r - 1" "\<forall>i. l \<le> i \<and> i \<le> r - 1 \<longrightarrow> xs ! i \<le> xs ! r" using all assms(1) by auto
        hence "r - 1 < c \<and> (\<forall>i \<le> r - 1. ys ! i = xs ! i)" using y(9) by blast
        thus ?thesis using y(3) by auto
      qed
      hence "ys = xs" using len y(5,6) by (intro nth_equalityI) (auto simp: not_less_iff_gr_or_eq, metis nat_neq_iff)
      thus ?thesis using p by simp
    qed
  qed
  moreover have "settled ys c"
  proof (rule settledI)
    show "c < length ys" using y(3) assms(2) len by simp
    show "ys ! i \<le> ys ! c" if i: "i < c" for i
    proof (cases "l \<le> i")
      case False
      hence "settled ys (l - 1)" using assms(3) kept by auto
      moreover have "i \<le> l - 1" "l - 1 \<le> c" using False y(2) by auto
      ultimately show ?thesis using settled_le [of ys "l - 1" i] settled_ge [of ys "l - 1" c] \<open>c < length ys\<close> by simp
    qed (use y(5,7) i in simp)
    show "ys ! c \<le> ys ! i" if i: "c < i" "i < length ys" for i
    proof (cases "i \<le> r")
      case False
      hence "settled ys (r + 1)" using assms(4) kept i len by auto
      moreover have "r + 1 \<le> i" "c \<le> r + 1" using False y(3) by auto
      ultimately show ?thesis using settled_ge [of ys "r + 1" i] settled_le [of ys "r + 1" c] i by simp
    qed (use y(5,8) i in simp)
  qed
  moreover have "c \<noteq> r \<longrightarrow> \<not> settled xs c" using keep [of c] y(2,3) by auto
  ultimately show ?thesis using y(1-4) by (intro exI [of _ ys] exI [of _ c]) auto
qed


section \<open>The main loop\<close>

text \<open>A turn either settles a new position or comes closer to \<open>k\<close> from above.\<close>

definition unsettled :: "int list \<Rightarrow> nat" where
  "unsettled xs = card {p. p < length xs \<and> \<not> settled xs p}"

definition potential :: "int list \<Rightarrow> nat \<Rightarrow> nat \<Rightarrow> nat" where
  "potential xs k cur = unsettled xs * (length xs + 1) + (if cur < k then length xs else cur)"

lemma unsettled_mono: "length ys = length xs \<Longrightarrow> (\<forall>p. settled xs p \<longrightarrow> settled ys p) \<Longrightarrow> unsettled ys \<le> unsettled xs"
  unfolding unsettled_def by (intro card_mono) auto

lemma unsettled_less:
  "length ys = length xs \<Longrightarrow> (\<forall>p. settled xs p \<longrightarrow> settled ys p) \<Longrightarrow> \<not> settled xs c \<Longrightarrow> settled ys c \<Longrightarrow> unsettled ys < unsettled xs"
  unfolding unsettled_def by (intro psubset_card_mono) (auto simp: settled_def)

lemma potential_less:
  assumes "length ys = length xs" "\<forall>p. settled xs p \<longrightarrow> settled ys p" "settled ys c" "c \<le> r" "k \<le> r" "c \<noteq> r \<longrightarrow> \<not> settled xs c"
    "cur < k \<or> r < cur" "cur < length xs" "r < length xs"
  shows "potential ys k c < potential xs k cur"
proof (cases "c = r")
  case True
  have "c < (if cur < k then length xs else cur)" using True assms by auto
  moreover have "\<not> c < k" using True assms(5) by simp
  ultimately show ?thesis using unsettled_mono [OF assms(1,2)] assms(1) unfolding potential_def
    by (simp add: add_le_less_mono mult_le_mono1 del: mult_Suc_right)
next
  case False
  have less: "unsettled ys + 1 \<le> unsettled xs" using unsettled_less [OF assms(1,2)] False assms(3,6) by fastforce
  have "(if c < k then length xs else c) < length xs + 1" using assms(4,9) by auto
  hence "potential ys k c < (unsettled ys + 1) * (length xs + 1)" unfolding potential_def assms(1) by (simp only: add_mult_distrib nat_mult_1 add_less_cancel_left)
  also have "\<dots> \<le> unsettled xs * (length xs + 1)" using less by (rule mult_le_mono1)
  finally show ?thesis by (simp add: potential_def)
qed

lemma select_loop_ok: "settled xs cur \<Longrightarrow> k < length xs \<Longrightarrow> select_loop xs k cur = Some (sort xs ! k)"
proof (induction "potential xs k cur" arbitrary: xs cur rule: less_induct)
  case less
  have cur: "cur < length xs" using less.prems(1) by (simp add: settled_def)
  consider "cur = k" | "k < cur" | "cur < k" by linarith
  thus ?case
  proof cases
    case 1
    thus ?thesis using less.prems settled_sort by (subst select_loop.simps) (simp add: vec_simps)
  next
    case 2
    have "cur - 1 < length xs" "cur - 1 = length xs - 1 \<or> settled xs (cur - 1 + 1)" using 2 cur less.prems(1) by auto
    from partition_settles [OF le0 this(1) _ this(2)] obtain ys c where y: "partition_hole xs 0 (cur - 1) = Some (ys, c)" "c \<le> cur - 1"
        "mset ys = mset xs" "settled ys c" "\<forall>p. settled xs p \<longrightarrow> settled ys p" "c \<noteq> cur - 1 \<longrightarrow> \<not> settled xs c" by auto
    have len: "length ys = length xs" using y(3) by (metis size_mset)
    have "potential ys k c < potential xs k cur" by (rule potential_less [OF len y(5,4,2) _ y(6)]) (use 2 cur in auto)
    from less.hyps [OF this y(4)] have "select_loop ys k c = Some (sort xs ! k)"
      using less.prems(2) len y(3) by (metis sorted_list_of_multiset_mset)
    thus ?thesis using 2 y(1) by (subst select_loop.simps) simp
  next
    case 3
    have "cur + 1 \<le> length xs - 1" "length xs - 1 < length xs" "cur + 1 = 0 \<or> settled xs (cur + 1 - 1)" using 3 less.prems by auto
    from partition_settles [OF this] obtain ys c where y: "partition_hole xs (cur + 1) (length xs - 1) = Some (ys, c)" "c \<le> length xs - 1"
        "mset ys = mset xs" "settled ys c" "\<forall>p. settled xs p \<longrightarrow> settled ys p" "c \<noteq> length xs - 1 \<longrightarrow> \<not> settled xs c" by auto
    have len: "length ys = length xs" using y(3) by (metis size_mset)
    have "potential ys k c < potential xs k cur" by (rule potential_less [OF len y(5,4,2) _ y(6)]) (use 3 cur less.prems(2) in auto)
    from less.hyps [OF this y(4)] have "select_loop ys k c = Some (sort xs ! k)"
      using less.prems(2) len y(3) by (metis sorted_list_of_multiset_mset)
    thus ?thesis using 3 y(1) by (subst select_loop.simps) simp
  qed
qed

text \<open>
  C25. Quick select ends and is right: for \<open>k\<close> between one and the size, \<^verbatim>\<open>findKthLargest\<close> returns the
  k-th greatest element, on every array, although each turn starts again at an end of the array.\<close>
theorem findKthLargest_kth:
  assumes "1 \<le> k" "k \<le> int (length nums)"
  shows "findKthLargest nums k = Some (rev (sort nums) ! nat (k - 1))"
proof -
  have ne: "nums \<noteq> []" using assms by auto
  hence "length nums - 1 < length nums" by simp
  from partition_settles [OF le0 this] obtain ys c where y: "partition_hole nums 0 (length nums - 1) = Some (ys, c)" "mset ys = mset nums" "settled ys c" by auto
  have len: "length ys = length nums" using y(2) by (metis size_mset)
  have "select_loop ys (length nums - nat k) c = Some (sort ys ! (length nums - nat k))"
    using assms len by (intro select_loop_ok [OF y(3)]) auto
  moreover have "sort ys = sort nums" using y(2) by (metis sorted_list_of_multiset_mset)
  moreover have "rev (sort nums) ! nat (k - 1) = sort nums ! (length nums - nat k)"
    using assms by (subst rev_nth) (auto simp: nat_diff_distrib intro!: arg_cong [where f = "(!) (sort nums)"])
  ultimately show ?thesis using ne assms y(1) by (simp add: findKthLargest_def)
qed

lemma findKthLargest_kth_witness: "findKthLargest [3, 2, 1, 5, 6, 4] 2 = Some 5"
  using findKthLargest_kth [of 2 "[3, 2, 1, 5, 6, 4]"] by simp

end
