(* ===== verification/SpiralOrder.thy ===== *)
theory SpiralOrder
  imports Cpp_Prelude
begin

text \<open>
  Reading a matrix in a spiral: \<^verbatim>\<open>spiralOrder\<close>, once from the problem of printing a matrix
  clockwise and once from the spiral matrix problem, both in \<^verbatim>\<open>cpp/online_judge/leetcode/editor/cn\<close>. Each
  round walks the border of a rectangle with four loops and shrinks the rectangle.
\<close>

definition matrix_cell :: "int list list \<Rightarrow> int \<Rightarrow> int \<Rightarrow> int ub" where
  "matrix_cell m i j = do { row \<leftarrow> iget m i; iget row j }"

section \<open>The spiral matrix\<close>

function go_right :: "int list list \<Rightarrow> int \<Rightarrow> int \<Rightarrow> int \<Rightarrow> int list \<Rightarrow> int list ub" where
  "go_right m tp right j res = (if j \<le> right then do { x \<leftarrow> matrix_cell m tp j; go_right m tp right (j + 1) (res @ [x]) } else Some res)"
  by auto
termination by (relation "measure (\<lambda>(_, _, right, j, _). nat (right - j + 1))") auto

function go_down :: "int list list \<Rightarrow> int \<Rightarrow> int \<Rightarrow> int \<Rightarrow> int list \<Rightarrow> int list ub" where
  "go_down m bt right i res = (if i < bt then do { x \<leftarrow> matrix_cell m i right; go_down m bt right (i + 1) (res @ [x]) } else Some res)"
  by auto
termination by (relation "measure (\<lambda>(_, bt, _, i, _). nat (bt - i))") auto

function go_left :: "int list list \<Rightarrow> int \<Rightarrow> int \<Rightarrow> int \<Rightarrow> int \<Rightarrow> int list \<Rightarrow> int list ub" where
  "go_left m tp bt left j res =
     (if j \<ge> 0 \<and> j \<ge> left \<and> tp \<noteq> bt then do { x \<leftarrow> matrix_cell m bt j; go_left m tp bt left (j - 1) (res @ [x]) } else Some res)"
  by auto
termination by (relation "measure (\<lambda>(_, _, _, _, j, _). nat (j + 1))") auto

function go_up :: "int list list \<Rightarrow> int \<Rightarrow> int \<Rightarrow> int \<Rightarrow> int \<Rightarrow> int list \<Rightarrow> int list ub" where
  "go_up m tp left right i res =
     (if i \<ge> 0 \<and> i > tp \<and> left \<noteq> right then do { x \<leftarrow> matrix_cell m i left; go_up m tp left right (i - 1) (res @ [x]) } else Some res)"
  by auto
termination by (relation "measure (\<lambda>(_, _, _, _, i, _). nat (i + 1))") auto

fun rounds :: "nat \<Rightarrow> int list list \<Rightarrow> int \<Rightarrow> int \<Rightarrow> int \<Rightarrow> int \<Rightarrow> int list \<Rightarrow> int list ub" where
  "rounds 0 m tp bt left right res = Some res"
| "rounds (Suc round) m tp bt left right res =
     do { res \<leftarrow> go_right m tp right left res;
          res \<leftarrow> go_down m bt right (tp + 1) res;
          res \<leftarrow> go_left m tp bt left right res;
          res \<leftarrow> go_up m tp left right (bt - 1) res;
          rounds round m (tp + 1) (bt - 1) (left + 1) (right - 1) res }"

definition spiralOrder :: "int list list \<Rightarrow> int list ub" where
  "spiralOrder matrix =
     do { first \<leftarrow> vget matrix 0;
          let row = length matrix;
          let col = length first;
          rounds ((min row col + 1) div 2) matrix 0 (int row - 1) 0 (int col - 1) [] }"

declare go_right.simps [simp del] go_down.simps [simp del] go_left.simps [simp del] go_up.simps [simp del]

section \<open>Printing a matrix clockwise\<close>

text \<open>This program calls the number of rows \<open>col\<close> and the number of columns \<open>row\<close>.\<close>

function go_right1 :: "int list list \<Rightarrow> int \<Rightarrow> int \<Rightarrow> int \<Rightarrow> int \<Rightarrow> int list \<Rightarrow> int list ub" where
  "go_right1 m row i right j res =
     (if j \<le> right \<and> j < row then do { x \<leftarrow> matrix_cell m i j; go_right1 m row i right (j + 1) (res @ [x]) } else Some res)"
  by auto
termination by (relation "measure (\<lambda>(_, _, _, right, j, _). nat (right - j + 1))") auto

function go_down1 :: "int list list \<Rightarrow> int \<Rightarrow> int \<Rightarrow> int \<Rightarrow> int \<Rightarrow> int list \<Rightarrow> int list ub" where
  "go_down1 m col bt j i res =
     (if i < bt \<and> i < col then do { x \<leftarrow> matrix_cell m i j; go_down1 m col bt j (i + 1) (res @ [x]) } else Some res)"
  by auto
termination by (relation "measure (\<lambda>(_, _, bt, _, i, _). nat (bt - i))") auto

function go_left1 :: "int list list \<Rightarrow> int \<Rightarrow> int \<Rightarrow> int \<Rightarrow> int \<Rightarrow> int list \<Rightarrow> int list ub" where
  "go_left1 m tp bt left j res =
     (if j \<ge> left \<and> j \<ge> 0 \<and> tp \<noteq> bt then do { x \<leftarrow> matrix_cell m bt j; go_left1 m tp bt left (j - 1) (res @ [x]) } else Some res)"
  by auto
termination by (relation "measure (\<lambda>(_, _, _, _, j, _). nat (j + 1))") auto

function go_up1 :: "int list list \<Rightarrow> int \<Rightarrow> int \<Rightarrow> int \<Rightarrow> int \<Rightarrow> int list \<Rightarrow> int list ub" where
  "go_up1 m tp left right i res =
     (if i > tp \<and> i \<ge> 0 \<and> left \<noteq> right then do { x \<leftarrow> matrix_cell m i left; go_up1 m tp left right (i - 1) (res @ [x]) } else Some res)"
  by auto
termination by (relation "measure (\<lambda>(_, _, _, _, i, _). nat (i + 1))") auto

fun rounds1 :: "nat \<Rightarrow> int list list \<Rightarrow> int \<Rightarrow> int \<Rightarrow> int \<Rightarrow> int \<Rightarrow> int \<Rightarrow> int \<Rightarrow> int list \<Rightarrow> int list ub" where
  "rounds1 0 m col row tp bt left right res = Some res"
| "rounds1 (Suc r) m col row tp bt left right res =
     do { res \<leftarrow> go_right1 m row tp right left res;
          res \<leftarrow> go_down1 m col bt right (tp + 1) res;
          res \<leftarrow> go_left1 m tp bt left right res;
          res \<leftarrow> go_up1 m tp left right (bt - 1) res;
          rounds1 r m col row (tp + 1) (bt - 1) (left + 1) (right - 1) res }"

definition spiralOrder1 :: "int list list \<Rightarrow> int list ub" where
  "spiralOrder1 matrix =
     (if length matrix = 0 then Some []
      else do { first \<leftarrow> vget matrix 0;
                let col = length matrix;
                let row = length first;
                rounds1 ((min col row + 1) div 2) matrix (int col) (int row) 0 (int col - 1) 0 (int row - 1) [] })"

declare go_right1.simps [simp del] go_down1.simps [simp del] go_left1.simps [simp del] go_up1.simps [simp del]

section \<open>The cells of a round\<close>

definition ring :: "int \<Rightarrow> int \<Rightarrow> int \<Rightarrow> int \<Rightarrow> (int \<times> int) list" where
  "ring tp bt left right =
     map (\<lambda>j. (tp, j)) [left..right] @ map (\<lambda>i. (i, right)) [tp + 1..bt - 1] @
     (if tp \<noteq> bt then map (\<lambda>j. (bt, j)) (rev [left..right]) else []) @
     (if left \<noteq> right then map (\<lambda>i. (i, left)) (rev [tp + 1..bt - 1]) else [])"

fun rings :: "nat \<Rightarrow> int \<Rightarrow> int \<Rightarrow> int \<Rightarrow> int \<Rightarrow> (int \<times> int) list" where
  "rings 0 tp bt left right = []"
| "rings (Suc n) tp bt left right = ring tp bt left right @ rings n (tp + 1) (bt - 1) (left + 1) (right - 1)"

definition entry :: "int list list \<Rightarrow> int \<times> int \<Rightarrow> int" where
  "entry m p = m ! nat (fst p) ! nat (snd p)"

definition rectangular :: "int list list \<Rightarrow> int \<Rightarrow> int \<Rightarrow> bool" where
  "rectangular m rows cols \<longleftrightarrow> int (length m) = rows \<and> (\<forall>r \<in> set m. int (length r) = cols)"

lemma cell_in: "rectangular m rows cols \<Longrightarrow> 0 \<le> i \<Longrightarrow> i < rows \<Longrightarrow> 0 \<le> j \<Longrightarrow> j < cols \<Longrightarrow> matrix_cell m i j = Some (entry m (i, j))"
  by (auto simp: matrix_cell_def iget_def rectangular_def entry_def)

lemma go_right_ok:
  "rectangular m rows cols \<Longrightarrow> 0 \<le> tp \<Longrightarrow> tp < rows \<Longrightarrow> 0 \<le> j \<Longrightarrow> right < cols \<Longrightarrow>
   go_right m tp right j res = Some (res @ map (entry m) (map (\<lambda>j. (tp, j)) [j..right])) \<and>
   go_right1 m cols tp right j res = Some (res @ map (entry m) (map (\<lambda>j. (tp, j)) [j..right]))"
proof (induction m tp right j res rule: go_right.induct)
  case (1 m tp right j res)
  thus ?case by (subst go_right.simps, subst go_right1.simps) (auto simp: cell_in upto_rec1)
qed

lemma go_down_ok:
  "rectangular m rows cols \<Longrightarrow> 0 \<le> i \<Longrightarrow> bt \<le> rows \<Longrightarrow> 0 \<le> right \<Longrightarrow> right < cols \<Longrightarrow>
   go_down m bt right i res = Some (res @ map (entry m) (map (\<lambda>i. (i, right)) [i..bt - 1])) \<and>
   go_down1 m rows bt right i res = Some (res @ map (entry m) (map (\<lambda>i. (i, right)) [i..bt - 1]))"
proof (induction m bt right i res rule: go_down.induct)
  case (1 m bt right i res)
  thus ?case by (subst go_down.simps, subst go_down1.simps) (auto simp: cell_in upto_rec1)
qed

lemma go_left_ok:
  "rectangular m rows cols \<Longrightarrow> 0 \<le> bt \<Longrightarrow> bt < rows \<Longrightarrow> 0 \<le> left \<Longrightarrow> j < cols \<Longrightarrow>
   go_left m tp bt left j res = Some (res @ map (entry m) (if tp \<noteq> bt then map (\<lambda>j. (bt, j)) (rev [left..j]) else [])) \<and>
   go_left1 m tp bt left j res = Some (res @ map (entry m) (if tp \<noteq> bt then map (\<lambda>j. (bt, j)) (rev [left..j]) else []))"
proof (induction m tp bt left j res rule: go_left.induct)
  case (1 m tp bt left j res)
  thus ?case by (subst go_left.simps, subst go_left1.simps) (auto simp: cell_in upto_rec2)
qed

lemma go_up_ok:
  "rectangular m rows cols \<Longrightarrow> 0 \<le> tp \<Longrightarrow> i < rows \<Longrightarrow> 0 \<le> left \<Longrightarrow> left < cols \<Longrightarrow>
   go_up m tp left right i res = Some (res @ map (entry m) (if left \<noteq> right then map (\<lambda>i. (i, left)) (rev [tp + 1..i]) else [])) \<and>
   go_up1 m tp left right i res = Some (res @ map (entry m) (if left \<noteq> right then map (\<lambda>i. (i, left)) (rev [tp + 1..i]) else []))"
proof (induction m tp left right i res rule: go_up.induct)
  case (1 m tp left right i res)
  thus ?case by (subst go_up.simps, subst go_up1.simps) (auto simp: cell_in upto_rec2)
qed

lemma rounds_ok:
  "rectangular m rows cols \<Longrightarrow> 0 \<le> tp \<Longrightarrow> bt < rows \<Longrightarrow> 0 \<le> left \<Longrightarrow> right < cols \<Longrightarrow> 2 * int n \<le> bt - tp + 2 \<Longrightarrow> 2 * int n \<le> right - left + 2 \<Longrightarrow>
   rounds n m tp bt left right res = Some (res @ map (entry m) (rings n tp bt left right)) \<and>
   rounds1 n m rows cols tp bt left right res = Some (res @ map (entry m) (rings n tp bt left right))"
proof (induction n arbitrary: tp bt left right res)
  case (Suc n)
  have b: "tp \<le> bt" "left \<le> right" using Suc.prems(6,7) by simp_all
  note r = go_right_ok [OF Suc.prems(1), of tp left right res] go_down_ok [OF Suc.prems(1), of "tp + 1" bt right]
    go_left_ok [OF Suc.prems(1), of bt left right tp] go_up_ok [OF Suc.prems(1), of tp "bt - 1" left right]
  note ih = Suc.IH [OF Suc.prems(1), of "tp + 1" "bt - 1" "left + 1" "right - 1"]
  show ?case using r ih b Suc.prems(2-7) by (simp add: ring_def)
qed simp

text \<open>A rectangle is its border and the rectangle inside.\<close>

lemma ring_cells:
  assumes "tp \<le> bt" "left \<le> right"
  shows "distinct (ring tp bt left right)"
    "set (ring tp bt left right) = {tp..bt} \<times> {left..right} - {tp + 1..bt - 1} \<times> {left + 1..right - 1}"
proof -
  show "distinct (ring tp bt left right)" using assms by (auto simp: ring_def distinct_map inj_on_def)
  show "set (ring tp bt left right) = {tp..bt} \<times> {left..right} - {tp + 1..bt - 1} \<times> {left + 1..right - 1}"
    using assms by (auto simp: ring_def image_iff)
qed

lemma rings_cells:
  "bt - tp + 1 \<le> 2 * int n \<or> right - left + 1 \<le> 2 * int n \<Longrightarrow> 2 * int n \<le> bt - tp + 2 \<Longrightarrow> 2 * int n \<le> right - left + 2 \<Longrightarrow>
   distinct (rings n tp bt left right) \<and> set (rings n tp bt left right) = {tp..bt} \<times> {left..right}"
proof (induction n arbitrary: tp bt left right)
  case (Suc n)
  have b: "tp \<le> bt" "left \<le> right" using Suc.prems(2,3) by simp_all
  have ih: "distinct (rings n (tp + 1) (bt - 1) (left + 1) (right - 1))"
      "set (rings n (tp + 1) (bt - 1) (left + 1) (right - 1)) = {tp + 1..bt - 1} \<times> {left + 1..right - 1}"
    using Suc.IH [of "bt - 1" "tp + 1" "right - 1" "left + 1"] Suc.prems by auto
  show ?case using ih ring_cells [OF b] by auto
qed auto

text \<open>
  C40. Reading in a spiral: on every rectangular matrix with a row, both programs return the
  same list, which reads every cell exactly once and starts with the first row; the programs differ on a matrix
  without rows, where the second reads out of range.\<close>
theorem spiralOrder_every_cell_once:
  assumes "rectangular m rows cols" "1 \<le> rows"
  shows "\<exists>ps. spiralOrder m = Some (map (entry m) ps) \<and> spiralOrder1 m = spiralOrder m \<and> distinct ps \<and>
    set ps = {0..rows - 1} \<times> {0..cols - 1} \<and> take (nat cols) (map (entry m) ps) = hd m"
proof -
  obtain r rs where m: "m = r # rs" using assms by (cases m) (auto simp: rectangular_def)
  have len: "int (length m) = rows" "int (length r) = cols" using assms m by (auto simp: rectangular_def)
  define n where "n = (min (length m) (length r) + 1) div 2"
  have n: "2 * int n \<le> rows - 1 - 0 + 2" "2 * int n \<le> cols - 1 - 0 + 2" "rows - 1 - 0 + 1 \<le> 2 * int n \<or> cols - 1 - 0 + 1 \<le> 2 * int n"
    using len by (auto simp: n_def)
  let ?ps = "rings n 0 (rows - 1) 0 (cols - 1)"
  have run: "rounds n m 0 (rows - 1) 0 (cols - 1) [] = Some (map (entry m) ?ps)" "rounds1 n m rows cols 0 (rows - 1) 0 (cols - 1) [] = Some (map (entry m) ?ps)"
    using rounds_ok [OF assms(1) _ _ _ _ n(1,2)] by simp_all
  have code: "spiralOrder m = Some (map (entry m) ?ps)" "spiralOrder1 m = Some (map (entry m) ?ps)"
    using run len m by (simp_all add: spiralOrder_def spiralOrder1_def vget_def Let_def n_def)
  have "take (nat cols) (map (entry m) ?ps) = hd m"
  proof (cases n)
    case 0
    hence "r = []" using m by (cases r) (auto simp: n_def min_def split: if_splits)
    thus ?thesis using 0 len m by simp
  next
    case (Suc k)
    have "map (entry m) (map (\<lambda>j. (0, j)) [0..cols - 1]) = r"
      using len(2) m by (intro nth_equalityI) (auto simp: entry_def)
    then obtain qs where "map (entry m) ?ps = r @ qs" using Suc by (auto simp: ring_def simp del: map_map)
    moreover have "length r = nat cols" using len(2) by simp
    ultimately show ?thesis using m by simp
  qed
  moreover have "distinct ?ps" "set ?ps = {0..rows - 1} \<times> {0..cols - 1}" using rings_cells [OF n(3,1,2)] by simp_all
  ultimately show ?thesis using code by (intro exI [of _ ?ps]) simp
qed

lemma spiralOrder_every_cell_once_witness: "\<exists>ps. spiralOrder [[1, 2, 3], [4, 5, 6]] = Some (map (entry [[1, 2, 3], [4, 5, 6]]) ps) \<and> distinct ps"
  using spiralOrder_every_cell_once [of "[[1, 2, 3], [4, 5, 6]]" 2 3] by (auto simp: rectangular_def)

lemma spiralOrder_no_rows: "spiralOrder [] = None \<and> spiralOrder1 [] = Some []"
  by (simp add: spiralOrder_def spiralOrder1_def vget_def)

end
