(* ===== verification/ArrayScans.thy ===== *)
theory ArrayScans
  imports Cpp_Prelude "HOL-Library.Sublist"
begin

text \<open>
  Exercises of \<^verbatim>\<open>cpp/online_judge/leetcode/editor/cn\<close> that solve a problem in one or two passes
  over an array: majority element, longest substring without repetition, longest run of consecutive numbers,
  shortest unsorted part, intersection, and straights in a hand of cards. Each pass is a recursion over the rest of
  the array. Counters are bounded by the length of the array.
\<close>

section \<open>Majority element\<close>

fun majority_loop :: "int list \<Rightarrow> int \<Rightarrow> nat \<Rightarrow> int" where
  "majority_loop [] curNum cnt = curNum"
| "majority_loop (x # xs) curNum cnt =
     (if curNum = x then majority_loop xs curNum (cnt + 1)
      else if cnt = 0 then majority_loop xs x 1
      else majority_loop xs curNum (cnt - 1))"

definition majorityElement :: "int list \<Rightarrow> int ub" where
  "majorityElement nums = (case nums of [] \<Rightarrow> None | x # xs \<Rightarrow> Some (majority_loop xs x 1))"

lemma majority_loop_spec:
  "int (length xs) < 2 * int (count_list xs v) + (if c = v then int n else - int n) \<Longrightarrow> majority_loop xs c n = v"
proof (induction xs c n rule: majority_loop.induct)
  case (2 x xs c n)
  thus ?case by (auto split: if_splits)
qed (auto split: if_splits)

text \<open>
  The majority element: a number that fills more than half of the array is found, in one pass;
  an empty array is read out of range.\<close>
theorem majorityElement_majority:
  assumes "length nums < 2 * count_list nums v"
  shows "majorityElement nums = Some v"
proof (cases nums)
  case (Cons x xs)
  have "int (length xs) < 2 * int (count_list xs v) + (if x = v then int 1 else - int 1)"
    using assms Cons by (auto split: if_splits)
  from majority_loop_spec [OF this] show ?thesis using Cons by (simp add: majorityElement_def)
qed (use assms in simp)

lemma majorityElement_majority_witness: "majorityElement [3, 2, 3, 4, 3] = Some 3"
  using majorityElement_majority [of "[3, 2, 3, 4, 3]" 3] by simp

section \<open>Longest substring without repetition\<close>

text \<open>A \<^verbatim>\<open>char\<close> is signed, so its value as an index may be negative.\<close>

definition signed_char :: "char \<Rightarrow> int" where
  "signed_char c = (if of_char c < (128::int) then of_char c else of_char c - 256)"

fun substring_loop :: "char list \<Rightarrow> int \<Rightarrow> int list \<Rightarrow> int \<Rightarrow> int \<Rightarrow> int ub" where
  "substring_loop [] i dp curLen maxLen = Some maxLen"
| "substring_loop (c # cs) i dp curLen maxLen =
     do { let index = signed_char c;
          d \<leftarrow> iget dp index;
          let cur = (if d < 0 then curLen + 1 else let len = i - d in if curLen \<ge> len then len else curLen + 1);
          dp' \<leftarrow> iset dp index i;
          substring_loop cs (i + 1) dp' cur (max maxLen cur) }"

definition lengthOfLongestSubstring :: "char list \<Rightarrow> int ub" where
  "lengthOfLongestSubstring s = (if s = [] then Some 0 else substring_loop s 0 (replicate 256 (-1)) 0 0)"

definition ascii :: "char \<Rightarrow> bool" where
  "ascii c = (of_char c < (128::int))"

text \<open>The last place of a character, the longest distinct suffix, the longest distinct substring.\<close>

definition last_place :: "'a list \<Rightarrow> 'a \<Rightarrow> int \<Rightarrow> bool" where
  "last_place p c d \<longleftrightarrow> (if c \<in> set p then 0 \<le> d \<and> nat d < length p \<and> p ! nat d = c \<and> c \<notin> set (drop (nat d + 1) p) else d = -1)"

definition longest_suffix :: "'a list \<Rightarrow> nat \<Rightarrow> bool" where
  "longest_suffix p k \<longleftrightarrow> k \<le> length p \<and> (\<forall>j \<le> length p. distinct (drop (length p - j) p) = (j \<le> k))"

definition longest_distinct :: "'a list \<Rightarrow> nat \<Rightarrow> bool" where
  "longest_distinct p n \<longleftrightarrow> (\<exists>t. sublist t p \<and> distinct t \<and> length t = n) \<and> (\<forall>t. sublist t p \<longrightarrow> distinct t \<longrightarrow> length t \<le> n)"

lemma in_drop_last: "last_place p c d \<Longrightarrow> c \<in> set p \<Longrightarrow> c \<in> set (drop m p) \<longleftrightarrow> m \<le> nat d"
proof
  assume d: "last_place p c d" "c \<in> set p"
  assume "c \<in> set (drop m p)"
  show "m \<le> nat d"
  proof (rule ccontr)
    assume "\<not> m \<le> nat d"
    hence "set (drop m p) \<subseteq> set (drop (nat d + 1) p)" by (intro set_drop_subset_set_drop) simp
    thus False using d \<open>c \<in> set (drop m p)\<close> by (auto simp: last_place_def)
  qed
next
  assume d: "last_place p c d" "c \<in> set p" "m \<le> nat d"
  hence "drop m p ! (nat d - m) = c" "nat d - m < length (drop m p)" by (auto simp: last_place_def)
  thus "c \<in> set (drop m p)" by (metis nth_mem)
qed

lemma last_place_snoc: "last_place p b d \<Longrightarrow> last_place (p @ [c]) b (if b = c then int (length p) else d)"
  by (auto simp: last_place_def nth_append)

lemma longest_suffix_snoc:
  assumes "longest_suffix p k" "last_place p c d"
  shows "longest_suffix (p @ [c]) (if d < 0 then k + 1 else min (k + 1) (length p - nat d))"
proof -
  let ?k = "if d < 0 then k + 1 else min (k + 1) (length p - nat d)"
  have dn: "d < 0 \<longleftrightarrow> c \<notin> set p" "0 \<le> d \<Longrightarrow> nat d < length p"
    using assms(2) by (simp_all add: last_place_def split: if_splits)
  have "distinct (drop (length (p @ [c]) - j) (p @ [c])) = (j \<le> ?k)" if "j \<le> length (p @ [c])" for j
  proof (cases j)
    case (Suc i)
    have i: "i \<le> length p" "drop (length (p @ [c]) - j) (p @ [c]) = drop (length p - i) p @ [c]" using Suc that by auto
    have "distinct (drop (length p - i) p @ [c]) = (i \<le> k \<and> c \<notin> set (drop (length p - i) p))"
      using assms(1) i(1) by (auto simp: longest_suffix_def)
    also have "\<dots> = (j \<le> ?k)"
    proof (cases "c \<in> set p")
      case True
      hence e: "?k = min (k + 1) (length p - nat d)" and d: "nat d < length p" using dn by simp_all
      have "c \<in> set (drop (length p - i) p) \<longleftrightarrow> length p - i \<le> nat d" by (rule in_drop_last [OF assms(2) True])
      thus ?thesis unfolding e Suc using d i(1) by (simp only: min_less_iff_conj le_simps min.bounded_iff) linarith
    next
      case False
      thus ?thesis using dn Suc by (auto dest: in_set_dropD)
    qed
    finally show ?thesis using i(2) by simp
  qed simp
  moreover have "?k \<le> length (p @ [c])" using assms(1) by (auto simp: longest_suffix_def)
  ultimately show ?thesis by (simp add: longest_suffix_def)
qed

lemma longest_distinct_snoc:
  assumes "longest_distinct p n" "longest_suffix (p @ [c]) k"
  shows "longest_distinct (p @ [c]) (max n k)"
proof -
  have suffix: "suffix t (p @ [c]) \<Longrightarrow> distinct t \<Longrightarrow> length t \<le> k" for t
  proof -
    assume t: "suffix t (p @ [c])" "distinct t"
    then obtain u where "p @ [c] = u @ t" by (auto simp: suffix_def)
    hence "t = drop (length (p @ [c]) - length t) (p @ [c])" by simp
    thus "length t \<le> k" using assms(2) t by (metis longest_suffix_def suffix_length_le)
  qed
  define b where "b = drop (length (p @ [c]) - k) (p @ [c])"
  have best: "sublist b (p @ [c])" "distinct b" "length b = k"
    using assms(2) suffix_drop [of "length (p @ [c]) - k" "p @ [c]"] unfolding b_def by (auto simp: longest_suffix_def simp del: drop_append)
  have "length t \<le> max n k" if "sublist t (p @ [c])" "distinct t" for t
    using that assms(1) suffix by (auto simp: sublist_snoc longest_distinct_def le_max_iff_disj)
  moreover have "\<exists>t. sublist t (p @ [c]) \<and> distinct t \<and> length t = max n k"
    using assms(1) best by (auto simp: longest_distinct_def max_def sublist_snoc)
  ultimately show ?thesis by (auto simp: longest_distinct_def)
qed


text \<open>One turn of the loop keeps what the three variables stand for.\<close>

definition places :: "char list \<Rightarrow> int list \<Rightarrow> bool" where
  "places p dp \<longleftrightarrow> length dp = 256 \<and> (\<forall>c. ascii c \<longrightarrow> last_place p c (dp ! nat (signed_char c)))"

lemma signed_char_ascii: "ascii c \<Longrightarrow> signed_char c = of_char c"
  by (simp add: ascii_def signed_char_def)

lemma signed_char_range: "ascii c \<Longrightarrow> 0 \<le> signed_char c \<and> signed_char c < 128"
proof -
  have "(of_char c :: int) = int (of_char c)" by (simp only: of_nat_of_char)
  hence "0 \<le> (of_char c :: int)" by (simp only: of_nat_0_le_iff)
  thus "ascii c \<Longrightarrow> 0 \<le> signed_char c \<and> signed_char c < 128" by (simp add: ascii_def signed_char_def)
qed

lemma signed_char_inj: "ascii b \<Longrightarrow> ascii c \<Longrightarrow> signed_char b = signed_char c \<Longrightarrow> b = c"
  by (simp add: signed_char_ascii)

lemma places_step:
  assumes "places p dp" "ascii c"
  shows "places (p @ [c]) (dp[nat (signed_char c) := int (length p)])"
proof -
  have "last_place (p @ [c]) b (dp[nat (signed_char c) := int (length p)] ! nat (signed_char b))" if b: "ascii b" for b
  proof -
    have "nat (signed_char b) < length dp" using signed_char_range [OF b] assms(1) by (simp add: places_def nat_less_iff)
    hence "dp[nat (signed_char c) := int (length p)] ! nat (signed_char b) = (if b = c then int (length p) else dp ! nat (signed_char b))"
    proof (cases "b = c")
      case False
      hence "nat (signed_char c) \<noteq> nat (signed_char b)"
        using signed_char_inj [OF b assms(2)] signed_char_range [OF b] signed_char_range [OF assms(2)] by linarith
      thus ?thesis using False by (simp add: nth_list_update_neq)
    qed simp
    moreover have "last_place p b (dp ! nat (signed_char b))" using assms(1) b by (simp add: places_def)
    ultimately show ?thesis using last_place_snoc [of p b _ c] by simp
  qed
  thus ?thesis using assms(1) by (simp add: places_def)
qed

lemma substring_loop_spec:
  "\<forall>c \<in> set cs. ascii c \<Longrightarrow> places p dp \<Longrightarrow> longest_suffix p cur \<Longrightarrow> longest_distinct p best \<Longrightarrow>
   \<exists>n. substring_loop cs (int (length p)) dp (int cur) (int best) = Some (int n) \<and> longest_distinct (p @ cs) n"
proof (induction cs arbitrary: p dp cur best)
  case (Cons c cs)
  have c: "ascii c" using Cons.prems(1) by simp
  define d where "d = dp ! nat (signed_char c)"
  have d: "last_place p c d" using Cons.prems(2) c by (simp add: places_def d_def)
  define k where "k = (if d < 0 then cur + 1 else min (cur + 1) (length p - nat d))"
  have dl: "0 \<le> d \<Longrightarrow> nat d < length p" using d by (auto simp: last_place_def split: if_splits)
  have k: "int k = (if d < 0 then int cur + 1 else if int cur \<ge> int (length p) - d then int (length p) - d else int cur + 1)"
    using dl by (auto simp: k_def min_def)
  have range: "0 \<le> signed_char c" "nat (signed_char c) < length dp" using signed_char_range [OF c] Cons.prems(2) by (auto simp: places_def nat_less_iff)
  have s: "longest_suffix (p @ [c]) k" using longest_suffix_snoc [OF Cons.prems(3) d] by (simp add: k_def)
  from Cons.IH [OF _ places_step [OF Cons.prems(2) c] s longest_distinct_snoc [OF Cons.prems(4) s]] Cons.prems(1)
  obtain n where n: "substring_loop cs (int (length (p @ [c]))) (dp[nat (signed_char c) := int (length p)]) (int k) (int (max best k)) = Some (int n)"
      "longest_distinct ((p @ [c]) @ cs) n" by auto
  have "iget dp (signed_char c) = Some d" "iset dp (signed_char c) (int (length p)) = Some (dp[nat (signed_char c) := int (length p)])"
    using range by (simp_all add: iget_def iset_def d_def)
  hence "substring_loop (c # cs) (int (length p)) dp (int cur) (int best) =
      substring_loop cs (int (length p) + 1) (dp[nat (signed_char c) := int (length p)]) (int k) (max (int best) (int k))"
    unfolding k by (simp add: Let_def)
  hence "substring_loop (c # cs) (int (length p)) dp (int cur) (int best) = Some (int n)" using n(1) by (simp add: of_nat_max add.commute)
  thus ?case using n(2) by auto
qed auto

text \<open>
  The longest substring without a repeated character, for text in ASCII; a character
  beyond ASCII is negative as an index and its access is out of range.\<close>
theorem lengthOfLongestSubstring_longest:
  assumes "\<forall>c \<in> set s. ascii c"
  shows "\<exists>n. lengthOfLongestSubstring s = Some (int n) \<and> longest_distinct s n"
proof (cases "s = []")
  case True
  thus ?thesis by (auto simp: lengthOfLongestSubstring_def longest_distinct_def intro!: exI [of _ "0::nat"])
next
  case False
  have "places [] (replicate 256 (-1))" using signed_char_range by (force simp: places_def last_place_def)
  moreover have "longest_suffix ([] :: char list) 0" "longest_distinct ([] :: char list) 0" by (auto simp: longest_suffix_def longest_distinct_def)
  ultimately obtain n where "substring_loop s (int (length ([] :: char list))) (replicate 256 (-1)) (int 0) (int 0) = Some (int n) \<and> longest_distinct ([] @ s) n"
    using substring_loop_spec [OF assms] by blast
  thus ?thesis using False by (auto simp: lengthOfLongestSubstring_def)
qed

lemma lengthOfLongestSubstring_longest_witness: "\<exists>n. lengthOfLongestSubstring ''pwwkew'' = Some (int n) \<and> longest_distinct ''pwwkew'' n"
  using lengthOfLongestSubstring_longest [of "''pwwkew''"] by (simp add: ascii_def)

lemma lengthOfLongestSubstring_beyond_ascii: "lengthOfLongestSubstring [CHR 0x80] = None"
  by (simp add: lengthOfLongestSubstring_def signed_char_def iget_def)


section \<open>Shortest unsorted part\<close>

function unsorted_loop :: "int list \<Rightarrow> nat \<Rightarrow> int \<Rightarrow> int \<Rightarrow> int \<Rightarrow> int \<Rightarrow> int \<times> int" where
  "unsorted_loop nums i maxVal minVal left right =
     (if i < length nums then
        let j = length nums - 1 - i; maxVal' = max maxVal (nums ! i); minVal' = min minVal (nums ! j)
        in unsorted_loop nums (i + 1) maxVal' minVal' (if nums ! j \<noteq> minVal' then int j else left) (if nums ! i \<noteq> maxVal' then int i else right)
      else (left, right))"
  by auto
termination by (relation "measure (\<lambda>(nums, i, _). length nums - i)") auto

declare unsorted_loop.simps [simp del]

definition findUnsortedSubarray :: "int list \<Rightarrow> int" where
  "findUnsortedSubarray nums =
     (if nums = [] then 0
      else let (left, right) = unsorted_loop nums 0 (nums ! 0) (nums ! (length nums - 1)) (-1) (-2) in right - left + 1)"

text \<open>What the variables hold when the first \<open>i\<close> and the last \<open>i\<close> elements have been seen.\<close>

definition right_inv :: "int list \<Rightarrow> nat \<Rightarrow> int \<Rightarrow> int \<Rightarrow> bool" where
  "right_inv nums i m right \<longleftrightarrow> (\<forall>q < i. nums ! q \<le> m) \<and> (\<exists>q < max 1 i. m = nums ! q) \<and>
     (right = -2 \<and> (\<forall>p < i. \<forall>q < p. nums ! q \<le> nums ! p) \<or>
      (\<exists>r < i. right = int r \<and> (\<exists>q < r. nums ! r < nums ! q) \<and> (\<forall>p < i. r < p \<longrightarrow> (\<forall>q < p. nums ! q \<le> nums ! p))))"

definition left_inv :: "int list \<Rightarrow> nat \<Rightarrow> int \<Rightarrow> int \<Rightarrow> bool" where
  "left_inv nums k m left \<longleftrightarrow> (\<forall>q < length nums. k \<le> q \<longrightarrow> m \<le> nums ! q) \<and> (\<exists>q < length nums. min (length nums - 1) k \<le> q \<and> m = nums ! q) \<and>
     (left = -1 \<and> (\<forall>p < length nums. k \<le> p \<longrightarrow> (\<forall>q < length nums. p < q \<longrightarrow> nums ! p \<le> nums ! q)) \<or>
      (\<exists>l < length nums. k \<le> l \<and> left = int l \<and> (\<exists>q < length nums. l < q \<and> nums ! q < nums ! l) \<and>
         (\<forall>p < l. k \<le> p \<longrightarrow> (\<forall>q < length nums. p < q \<longrightarrow> nums ! p \<le> nums ! q))))"

lemma right_step:
  assumes "right_inv nums i m right"
  shows "right_inv nums (i + 1) (max m (nums ! i)) (if nums ! i \<noteq> max m (nums ! i) then int i else right)"
proof (cases "nums ! i < m")
  case True
  obtain q where q: "q < max 1 i" "m = nums ! q" using assms by (auto simp: right_inv_def)
  hence "q < i" using True by (cases "i = 0") auto
  have "right_inv nums (i + 1) m (int i)" unfolding right_inv_def
  proof (intro conjI)
    show "\<forall>r < i + 1. nums ! r \<le> m" using assms True by (auto simp: right_inv_def less_Suc_eq)
    show "\<exists>r < max 1 (i + 1). m = nums ! r" using q \<open>q < i\<close> by (intro exI [of _ q]) auto
    have "\<exists>r < i. nums ! i < nums ! r" using True q \<open>q < i\<close> by blast
    thus "int i = -2 \<and> (\<forall>p < i + 1. \<forall>q < p. nums ! q \<le> nums ! p) \<or>
      (\<exists>r < i + 1. int i = int r \<and> (\<exists>q < r. nums ! r < nums ! q) \<and> (\<forall>p < i + 1. r < p \<longrightarrow> (\<forall>q < p. nums ! q \<le> nums ! p)))"
      by (intro disjI2 exI [of _ i]) auto
  qed
  thus ?thesis using True by (simp add: max_def)
next
  case False
  hence le: "\<forall>q < i. nums ! q \<le> nums ! i" using assms by (force simp: right_inv_def)
  have "right_inv nums (i + 1) (nums ! i) right" unfolding right_inv_def
  proof (intro conjI)
    show "\<forall>r < i + 1. nums ! r \<le> nums ! i" using le by (auto simp: less_Suc_eq)
    show "\<exists>r < max 1 (i + 1). nums ! i = nums ! r" by (intro exI [of _ i]) simp
    from assms consider "right = -2" "\<forall>p < i. \<forall>q < p. nums ! q \<le> nums ! p"
      | r where "r < i" "right = int r" "\<exists>q < r. nums ! r < nums ! q" "\<forall>p < i. r < p \<longrightarrow> (\<forall>q < p. nums ! q \<le> nums ! p)"
      by (auto simp: right_inv_def)
    thus "right = -2 \<and> (\<forall>p < i + 1. \<forall>q < p. nums ! q \<le> nums ! p) \<or>
      (\<exists>r < i + 1. right = int r \<and> (\<exists>q < r. nums ! r < nums ! q) \<and> (\<forall>p < i + 1. r < p \<longrightarrow> (\<forall>q < p. nums ! q \<le> nums ! p)))" (is ?goal)
    proof cases
      case 1
      thus ?goal using le by (simp add: less_Suc_eq)
    next
      case 2
      thus ?goal using le by (intro disjI2 exI [of _ r]) (simp add: less_Suc_eq)
    qed
  qed
  thus ?thesis using False by (simp add: max_def)
qed

lemma left_step:
  assumes "left_inv nums (k + 1) m left" "k < length nums"
  shows "left_inv nums k (min m (nums ! k)) (if nums ! k \<noteq> min m (nums ! k) then int k else left)"
proof (cases "m < nums ! k")
  case True
  obtain q where q: "q < length nums" "min (length nums - 1) (k + 1) \<le> q" "m = nums ! q" using assms by (auto simp: left_inv_def)
  hence "k < q" using True assms(2) by (cases "q = k") auto
  have "left_inv nums k m (int k)" unfolding left_inv_def
  proof (intro conjI)
    show "\<forall>r < length nums. k \<le> r \<longrightarrow> m \<le> nums ! r" using assms True by (auto simp: left_inv_def Suc_le_eq le_less)
    show "\<exists>r < length nums. min (length nums - 1) k \<le> r \<and> m = nums ! r" using q \<open>k < q\<close> by (intro exI [of _ q]) auto
    have "\<exists>r < length nums. k < r \<and> nums ! r < nums ! k" using True q \<open>k < q\<close> by blast
    thus "int k = -1 \<and> (\<forall>p < length nums. k \<le> p \<longrightarrow> (\<forall>q < length nums. p < q \<longrightarrow> nums ! p \<le> nums ! q)) \<or>
      (\<exists>l < length nums. k \<le> l \<and> int k = int l \<and> (\<exists>q < length nums. l < q \<and> nums ! q < nums ! l) \<and>
         (\<forall>p < l. k \<le> p \<longrightarrow> (\<forall>q < length nums. p < q \<longrightarrow> nums ! p \<le> nums ! q)))"
      using assms(2) by (intro disjI2 exI [of _ k]) auto
  qed
  thus ?thesis using True by (simp add: min_def)
next
  case False
  hence le: "\<forall>q < length nums. k < q \<longrightarrow> nums ! k \<le> nums ! q" using assms by (force simp: left_inv_def Suc_le_eq)
  have "left_inv nums k (nums ! k) left" unfolding left_inv_def
  proof (intro conjI)
    show "\<forall>r < length nums. k \<le> r \<longrightarrow> nums ! k \<le> nums ! r" using le by (auto simp: le_less)
    show "\<exists>r < length nums. min (length nums - 1) k \<le> r \<and> nums ! k = nums ! r" using assms(2) by (intro exI [of _ k]) simp
    from assms consider "left = -1" "\<forall>p < length nums. k + 1 \<le> p \<longrightarrow> (\<forall>q < length nums. p < q \<longrightarrow> nums ! p \<le> nums ! q)"
      | l where "l < length nums" "k + 1 \<le> l" "left = int l" "\<exists>q < length nums. l < q \<and> nums ! q < nums ! l"
         "\<forall>p < l. k + 1 \<le> p \<longrightarrow> (\<forall>q < length nums. p < q \<longrightarrow> nums ! p \<le> nums ! q)"
      by (auto simp: left_inv_def)
    thus "left = -1 \<and> (\<forall>p < length nums. k \<le> p \<longrightarrow> (\<forall>q < length nums. p < q \<longrightarrow> nums ! p \<le> nums ! q)) \<or>
      (\<exists>l < length nums. k \<le> l \<and> left = int l \<and> (\<exists>q < length nums. l < q \<and> nums ! q < nums ! l) \<and>
         (\<forall>p < l. k \<le> p \<longrightarrow> (\<forall>q < length nums. p < q \<longrightarrow> nums ! p \<le> nums ! q)))" (is ?goal)
    proof cases
      case 1
      thus ?goal using le by (metis Suc_eq_plus1 Suc_leI le_neq_implies_less)
    next
      case 2
      thus ?goal using le by (intro disjI2 exI [of _ l]) (metis Suc_eq_plus1 Suc_leD Suc_leI le_neq_implies_less)
    qed
  qed
  thus ?thesis using False by (simp add: min_def)
qed


lemma unsorted_loop_inv:
  "right_inv nums i mx right \<Longrightarrow> left_inv nums (length nums - i) mn left \<Longrightarrow> i \<le> length nums \<Longrightarrow>
   \<exists>l r mx' mn'. unsorted_loop nums i mx mn left right = (l, r) \<and> right_inv nums (length nums) mx' r \<and> left_inv nums 0 mn' l"
proof (induction nums i mx mn left right rule: unsorted_loop.induct)
  case (1 nums i mx mn left right)
  show ?case
  proof (cases "i < length nums")
    case True
    have "left_inv nums (length nums - 1 - i + 1) mn left" using "1.prems"(2) True by (simp add: Suc_diff_Suc)
    from left_step [OF this] have l: "left_inv nums (length nums - (i + 1)) (min mn (nums ! (length nums - 1 - i)))
        (if nums ! (length nums - 1 - i) \<noteq> min mn (nums ! (length nums - 1 - i)) then int (length nums - 1 - i) else left)"
      using True by simp
    have step: "unsorted_loop nums i mx mn left right = unsorted_loop nums (i + 1) (max mx (nums ! i)) (min mn (nums ! (length nums - 1 - i)))
        (if nums ! (length nums - 1 - i) \<noteq> min mn (nums ! (length nums - 1 - i)) then int (length nums - 1 - i) else left)
        (if nums ! i \<noteq> max mx (nums ! i) then int i else right)"
      by (subst unsorted_loop.simps) (simp only: Let_def True if_True)
    show ?thesis unfolding step by (rule "1.IH" [OF True refl refl refl right_step [OF "1.prems"(1)] l]) (use True in simp)
  next
    case False
    thus ?thesis using "1.prems" by (subst unsorted_loop.simps) auto
  qed
qed

lemma unsorted_right:
  assumes "right_inv nums (length nums) m r" "r \<noteq> -2"
  shows "0 \<le> r \<and> nat r < length nums \<and> drop (nat r + 1) (sort nums) = drop (nat r + 1) nums \<and> nums ! nat r < sort nums ! nat r"
proof -
  obtain k q where k: "k < length nums" "r = int k" "q < k" "nums ! k < nums ! q" "\<And>p q. p < length nums \<Longrightarrow> k < p \<Longrightarrow> q < p \<Longrightarrow> nums ! q \<le> nums ! p"
    using assms by (auto simp: right_inv_def)
  let ?a = "take (k + 1) nums" and ?b = "drop (k + 1) nums"
  have le: "u \<le> v" if mem: "u \<in> set ?a" "v \<in> set ?b" for u v
  proof -
    obtain i j where "i < length ?a" "u = ?a ! i" "j < length ?b" "v = ?b ! j" using mem unfolding in_set_conv_nth by blast
    thus ?thesis using k(5) [of "k + 1 + j" i] by simp
  qed
  have "sorted ?b" unfolding sorted_iff_nth_mono_less using k(5) by simp
  hence "sort nums = sort ?a @ ?b" using sort_append_le [of ?a ?b] le by (simp add: sorted_sort_id)
  moreover have "length (sort ?a) = k + 1" using k(1) by simp
  moreover have "nums ! q \<le> sort ?a ! k"
  proof -
    have "nums ! q \<in> set (sort ?a)" using k(1,3) by (auto simp: in_set_conv_nth intro!: exI [of _ q])
    then obtain i where "i < k + 1" "nums ! q = sort ?a ! i" using \<open>length (sort ?a) = k + 1\<close> by (metis in_set_conv_nth)
    thus ?thesis using \<open>length (sort ?a) = k + 1\<close> by (auto intro!: sorted_nth_mono)
  qed
  ultimately show ?thesis using k by (simp add: nth_append)
qed

lemma unsorted_left:
  assumes "left_inv nums 0 m l" "l \<noteq> -1"
  shows "0 \<le> l \<and> nat l < length nums \<and> take (nat l) (sort nums) = take (nat l) nums \<and> sort nums ! nat l < nums ! nat l"
proof -
  obtain k q where k: "k < length nums" "l = int k" "q < length nums" "k < q" "nums ! q < nums ! k" "\<And>p q. p < k \<Longrightarrow> q < length nums \<Longrightarrow> p < q \<Longrightarrow> nums ! p \<le> nums ! q"
    using assms by (auto simp: left_inv_def)
  let ?a = "take k nums" and ?b = "drop k nums"
  have le: "u \<le> v" if mem: "u \<in> set ?a" "v \<in> set ?b" for u v
  proof -
    obtain i j where "i < length ?a" "u = ?a ! i" "j < length ?b" "v = ?b ! j" using mem unfolding in_set_conv_nth by blast
    thus ?thesis using k(6) [of i "k + j"] by simp
  qed
  have "sorted ?a" unfolding sorted_iff_nth_mono_less using k(1,6) by simp
  hence "sort nums = ?a @ sort ?b" using sort_append_le [of ?a ?b] le by (simp add: sorted_sort_id)
  moreover have "sort ?b ! 0 \<le> nums ! q"
  proof -
    have "?b ! (q - k) \<in> set ?b" using k(3,4) by (intro nth_mem) simp
    hence "nums ! q \<in> set (sort ?b)" using k(1,3,4) by simp
    then obtain i where "i < length (sort ?b)" "nums ! q = sort ?b ! i" by (metis in_set_conv_nth)
    thus ?thesis by (auto intro!: sorted_nth_mono)
  qed
  ultimately show ?thesis using k by (simp add: nth_append)
qed

text \<open>
  The shortest part to sort: \<^verbatim>\<open>findUnsortedSubarray\<close> returns zero for a sorted array, and otherwise
  the distance between the first and the last place where the array differs from the sorted one.\<close>
theorem findUnsortedSubarray_shortest:
  "sorted nums \<and> findUnsortedSubarray nums = 0 \<or>
   (\<exists>l r. l \<le> r \<and> r < length nums \<and> findUnsortedSubarray nums = int (r - l + 1) \<and>
      take l nums = take l (sort nums) \<and> nums ! l \<noteq> sort nums ! l \<and>
      drop (r + 1) nums = drop (r + 1) (sort nums) \<and> nums ! r \<noteq> sort nums ! r)"
proof (cases "nums = []")
  case False
  have a: "right_inv nums 0 (nums ! 0) (-2)" by (auto simp: right_inv_def)
  have b: "left_inv nums (length nums - 0) (nums ! (length nums - 1)) (-1)"
    using False by (auto simp: left_inv_def intro!: exI [of _ "length nums - 1"])
  obtain l r mx mn where u: "unsorted_loop nums 0 (nums ! 0) (nums ! (length nums - 1)) (-1) (-2) = (l, r)"
      "right_inv nums (length nums) mx r" "left_inv nums 0 mn l"
    using unsorted_loop_inv [OF a b le0] by blast
  have f: "findUnsortedSubarray nums = r - l + 1" using False u(1) by (simp add: findUnsortedSubarray_def)
  have "r = -2 \<Longrightarrow> sorted nums" "l = -1 \<Longrightarrow> sorted nums"
    using u(2,3) by (auto simp: right_inv_def left_inv_def sorted_iff_nth_mono_less)
  moreover have "sorted nums \<Longrightarrow> r = -2" "sorted nums \<Longrightarrow> l = -1"
    using unsorted_right [OF u(2)] unsorted_left [OF u(3)] by (auto simp: sorted_sort_id)
  ultimately have same: "r = -2 \<longleftrightarrow> sorted nums" "l = -1 \<longleftrightarrow> sorted nums" by blast+
  show ?thesis
  proof (cases "sorted nums")
    case False
    note R = unsorted_right [OF u(2)] and L = unsorted_left [OF u(3)]
    have "r \<noteq> -2" "l \<noteq> -1" using same False by auto
    note R = R [OF this(1)] and L = L [OF this(2)]
    have "nat l \<le> nat r"
    proof (rule ccontr)
      assume "\<not> nat l \<le> nat r"
      hence t: "take (nat l) xs ! nat r = xs ! nat r" for xs :: "int list" by (intro nth_take) linarith
      have "take (nat l) (sort nums) = take (nat l) nums" using L by blast
      hence "sort nums ! nat r = nums ! nat r" using t [of "sort nums"] t [of nums] by argo
      thus False using R by linarith
    qed
    thus ?thesis using f R L by (intro disjI2 exI [of _ "nat l"] exI [of _ "nat r"]) auto
  qed (use f same in auto)
qed (simp add: findUnsortedSubarray_def)

end
