(* ===== verification/ArrayMaps.thy ===== *)
theory ArrayMaps
  imports Cpp_Prelude
begin

text \<open>
  Exercises of \<^verbatim>\<open>cpp/online_judge/leetcode/editor/cn\<close> that keep a hash map from numbers to
  counters: the longest run of consecutive numbers, and the intersection of two arrays. A
  \<^verbatim>\<open>std::unordered_map\<close> is a finite map, and \<^verbatim>\<open>m[x]\<close> inserts zero for a missing key.
\<close>

section \<open>The longest run of consecutive numbers\<close>

fun consecutive_loop :: "int list \<Rightarrow> (int \<rightharpoonup> int) \<Rightarrow> int \<Rightarrow> int ub" where
  "consecutive_loop [] m res = Some res"
| "consecutive_loop (cur # nums) m res =
     (if m cur \<noteq> None then consecutive_loop nums m res
      else do { before \<leftarrow> as_int (cur - 1);
                after \<leftarrow> as_int (cur + 1);
                let left = (case m before of Some n \<Rightarrow> n | None \<Rightarrow> 0);
                let right = (case m after of Some n \<Rightarrow> n | None \<Rightarrow> 0);
                sum \<leftarrow> as_int (left + right + 1);
                first \<leftarrow> as_int (cur - left);
                last \<leftarrow> as_int (cur + right);
                consecutive_loop nums (m(cur \<mapsto> sum, first \<mapsto> sum, last \<mapsto> sum)) (max res sum) })"

definition longestConsecutive :: "int list \<Rightarrow> int ub" where
  "longestConsecutive nums = consecutive_loop nums Map.empty 0"

text \<open>The specification: the greatest number of consecutive elements of a set.\<close>

definition longest_run :: "int set \<Rightarrow> int \<Rightarrow> bool" where
  "longest_run S n \<longleftrightarrow> 0 \<le> n \<and> (\<exists>a. {a..<a + n} \<subseteq> S) \<and> (\<forall>a k. {a..<a + k} \<subseteq> S \<longrightarrow> k \<le> n)"

text \<open>The map knows the length of every run at both of its ends.\<close>

definition run_in :: "int set \<Rightarrow> int \<Rightarrow> int \<Rightarrow> bool" where
  "run_in S a b \<longleftrightarrow> a \<le> b \<and> {a..b} \<subseteq> S \<and> a - 1 \<notin> S \<and> b + 1 \<notin> S"

definition runs_inv :: "int set \<Rightarrow> (int \<rightharpoonup> int) \<Rightarrow> bool" where
  "runs_inv S m \<longleftrightarrow> finite S \<and> dom m = S \<and> (\<forall>a b. run_in S a b \<longrightarrow> m a = Some (b - a + 1) \<and> m b = Some (b - a + 1))"

lemma leftmost: "finite S \<Longrightarrow> \<exists>a \<le> x. {a..<x} \<subseteq> S \<and> a - 1 \<notin> S" for x :: int
proof (induction "card {y \<in> S. y < x}" arbitrary: x)
  case 0
  hence "{y \<in> S. y < x} = {}" by simp
  thus ?case by (intro exI [of _ x]) auto
next
  case (Suc n)
  show ?case
  proof (cases "x - 1 \<in> S")
    case True
    have "{y \<in> S. y < x} = insert (x - 1) {y \<in> S. y < x - 1}" using True by auto
    hence "n = card {y \<in> S. y < x - 1}" using Suc(2,3) by simp
    then obtain a where a: "a \<le> x - 1" "{a..<x - 1} \<subseteq> S" "a - 1 \<notin> S" using Suc(1,3) by blast
    have "{a..<x} = insert (x - 1) {a..<x - 1}" using a(1) by auto
    thus ?thesis using a True by (intro exI [of _ a]) auto
  qed (auto intro: exI [of _ x])
qed

lemma rightmost: "finite S \<Longrightarrow> \<exists>b \<ge> x. {x<..b} \<subseteq> S \<and> b + 1 \<notin> S" for x :: int
proof -
  assume "finite S"
  hence "finite (uminus ` S)" by simp
  from leftmost [OF this, of "- x"] obtain a where a: "a \<le> - x" "{a..<- x} \<subseteq> uminus ` S" "a - 1 \<notin> uminus ` S" by blast
  have "{x<..- a} \<subseteq> S"
  proof
    fix y assume "y \<in> {x<..- a}"
    hence "- y \<in> {a..<- x}" by auto
    hence "- y \<in> uminus ` S" using a(2) by blast
    thus "y \<in> S" by auto
  qed
  moreover have "- a + 1 \<notin> S" using a(3) by (metis image_eqI minus_add_distrib minus_minus uminus_add_conv_diff diff_minus_eq_add add.commute)
  ultimately show ?thesis using a(1) by (intro exI [of _ "- a"]) auto
qed

lemma run_ends:
  assumes "runs_inv S m" "x \<notin> S" "a \<le> x" "{a..<x} \<subseteq> S" "a - 1 \<notin> S" "x \<le> b" "{x<..b} \<subseteq> S" "b + 1 \<notin> S"
  shows "(case m (x - 1) of Some n \<Rightarrow> n | None \<Rightarrow> 0) = x - a" "(case m (x + 1) of Some n \<Rightarrow> n | None \<Rightarrow> 0) = b - x"
proof -
  note i = assms(1) [unfolded runs_inv_def]
  show "(case m (x - 1) of Some n \<Rightarrow> n | None \<Rightarrow> 0) = x - a"
  proof (cases "a = x")
    case True
    hence "m (x - 1) = None" using i assms(5) by (auto simp: dom_def)
    thus ?thesis using True by simp
  next
    case False
    have "{a..x - 1} = {a..<x}" by auto
    hence "run_in S a (x - 1)" using False assms by (simp add: run_in_def)
    thus ?thesis using i by simp
  qed
  show "(case m (x + 1) of Some n \<Rightarrow> n | None \<Rightarrow> 0) = b - x"
  proof (cases "b = x")
    case True
    hence "m (x + 1) = None" using i assms(8) by (auto simp: dom_def)
    thus ?thesis using True by simp
  next
    case False
    have "{x + 1..b} = {x<..b}" by auto
    hence "run_in S (x + 1) b" using False assms by (simp add: run_in_def)
    thus ?thesis using i by simp
  qed
qed

text \<open>A run of \<open>S\<close> with \<open>x\<close> lies between \<open>a\<close> and \<open>b\<close>, or apart from them.\<close>

lemma run_within:
  fixes a b c d x :: int
  assumes "{c..d} \<subseteq> insert x S" "c \<le> x" "x \<le> d" "a \<le> x" "a - 1 \<notin> S" "x \<le> b" "b + 1 \<notin> S"
  shows "a \<le> c" "d \<le> b"
proof -
  have "a - 1 \<notin> insert x S" "b + 1 \<notin> insert x S" using assms(4-7) by auto
  hence "a - 1 \<notin> {c..d}" "b + 1 \<notin> {c..d}" using assms(1) by blast+
  thus "a \<le> c" "d \<le> b" using assms by auto
qed

lemma runs_step:
  assumes "runs_inv S m" "x \<notin> S" "a \<le> x" "{a..<x} \<subseteq> S" "a - 1 \<notin> S" "x \<le> b" "{x<..b} \<subseteq> S" "b + 1 \<notin> S"
  shows "runs_inv (insert x S) (m(x \<mapsto> b - a + 1, a \<mapsto> b - a + 1, b \<mapsto> b - a + 1))" (is "runs_inv _ ?m")
proof -
  note i = assms(1) [unfolded runs_inv_def]
  have "{a..b} = insert x ({a..<x} \<union> {x<..b})" using assms(3,6) by auto
  hence ab: "{a..b} \<subseteq> insert x S" using assms(4,7) by auto
  moreover have "a \<in> {a..b}" "b \<in> {a..b}" using assms(3,6) by simp_all
  ultimately have "a \<in> insert x S" "b \<in> insert x S" by blast+
  hence "dom ?m = insert x S" using i by (simp add: insert_absorb insert_commute)
  moreover have "?m c = Some (d - c + 1) \<and> ?m d = Some (d - c + 1)" if r: "run_in (insert x S) c d" for c d
  proof (cases "c \<le> x \<and> x \<le> d")
    case True
    note w = run_within [of c d x S a b]
    have "a \<le> c" "d \<le> b" using w r True assms(3,5,6,8) by (auto simp: run_in_def)
    moreover have "c \<le> a" "b \<le> d"
    proof -
      have "c - 1 \<notin> insert x S" "d + 1 \<notin> insert x S" using r by (simp_all add: run_in_def)
      hence "c - 1 \<notin> {a..b}" "d + 1 \<notin> {a..b}" using ab by blast+
      thus "c \<le> a" "b \<le> d" using True assms(3,6) by auto
    qed
    ultimately show ?thesis by simp
  next
    case False
    have cd: "c \<le> d" "{c..d} \<subseteq> S" "c - 1 \<notin> insert x S" "d + 1 \<notin> insert x S" using r False by (auto simp: run_in_def)
    have "c - 1 \<notin> {a..b}" "d + 1 \<notin> {a..b}" using cd(3,4) ab by blast+
    moreover have "a - 1 \<notin> {c..d}" "b + 1 \<notin> {c..d}" using cd(2) assms(5,8) by blast+
    ultimately have "c \<notin> {a..b}" "d \<notin> {a..b}" using False cd(1) assms(3,6) by auto
    hence "?m c = m c" "?m d = m d" using assms(3,6) by auto
    moreover have "run_in S c d" using r False by (auto simp: run_in_def subset_eq)
    ultimately show ?thesis using i by simp
  qed
  ultimately show ?thesis using i by (simp add: runs_inv_def)
qed

lemma longest_run_step:
  assumes "longest_run S n" "x \<notin> S" "a \<le> x" "{a..<x} \<subseteq> S" "a - 1 \<notin> S" "x \<le> b" "{x<..b} \<subseteq> S" "b + 1 \<notin> S"
  shows "longest_run (insert x S) (max n (b - a + 1))"
proof -
  note l = assms(1) [unfolded longest_run_def]
  have "{a..<a + (b - a + 1)} = insert x ({a..<x} \<union> {x<..b})" using assms(3,6) by auto
  hence ab: "{a..<a + (b - a + 1)} \<subseteq> insert x S" using assms(4,7) by auto
  have "k \<le> max n (b - a + 1)" if r: "{c..<c + k} \<subseteq> insert x S" for c k
  proof (cases "x \<in> {c..<c + k}")
    case True
    have "{c..c + k - 1} = {c..<c + k}" by auto
    hence "a \<le> c" "c + k - 1 \<le> b" using run_within [of c "c + k - 1" x S a b] r True assms by auto
    thus ?thesis by simp
  next
    case False
    hence "{c..<c + k} \<subseteq> S" using r by auto
    thus ?thesis using l by (auto simp: le_max_iff_disj)
  qed
  moreover have "\<exists>c. {c..<c + max n (b - a + 1)} \<subseteq> insert x S"
  proof (cases "n \<le> b - a + 1")
    case True
    thus ?thesis using ab by (simp only: max_absorb2) blast
  next
    case False
    thus ?thesis using l by (auto simp: max_def)
  qed
  ultimately show ?thesis using l by (auto simp: longest_run_def)
qed

lemma consecutive_loop_spec:
  "runs_inv S m \<Longrightarrow> longest_run S res \<Longrightarrow> \<forall>x \<in> S \<union> set nums. INT_MIN < x \<and> x < INT_MAX \<Longrightarrow> int (card S) + int (length nums) \<le> INT_MAX \<Longrightarrow>
   \<exists>n. consecutive_loop nums m res = Some n \<and> longest_run (S \<union> set nums) n"
proof (induction nums arbitrary: S m res)
  case (Cons x nums)
  show ?case
  proof (cases "x \<in> S")
    case True
    hence "m x \<noteq> None" using Cons.prems(1) by (auto simp: runs_inv_def)
    thus ?thesis using Cons.IH [OF Cons.prems(1,2)] Cons.prems(3,4) True by (simp add: insert_absorb)
  next
    case False
    have fin: "finite S" and dom: "dom m = S" using Cons.prems(1) by (simp_all add: runs_inv_def)
    obtain a where a: "a \<le> x" "{a..<x} \<subseteq> S" "a - 1 \<notin> S" using leftmost [OF fin] by blast
    obtain b where b: "x \<le> b" "{x<..b} \<subseteq> S" "b + 1 \<notin> S" using rightmost [OF fin] by blast
    note ends = run_ends [OF Cons.prems(1) False a b]
    have "{a..b} = insert x ({a..<x} \<union> {x<..b})" using a(1) b(1) by auto
    hence sub: "{a..b} \<subseteq> insert x S" using a(2) b(2) by auto
    hence "card {a..b} \<le> card (insert x S)" using fin by (intro card_mono) auto
    hence sum: "b - a + 1 \<le> INT_MAX" using a(1) b(1) fin False Cons.prems(4) by simp
    have "a \<in> {a..b}" "b \<in> {a..b}" using a(1) b(1) by simp_all
    hence "a \<in> insert x S" "b \<in> insert x S" using sub by blast+
    hence "INT_MIN < a" "b < INT_MAX" "INT_MIN < x" "x < INT_MAX" using Cons.prems(3) by auto
    hence "in_int a" "in_int b" "in_int (x - 1)" "in_int (x + 1)" "in_int (b - a + 1)"
      using sum a(1) b(1) by (simp_all add: in_int_def)
    hence step: "consecutive_loop (x # nums) m res = consecutive_loop nums (m(x \<mapsto> b - a + 1, a \<mapsto> b - a + 1, b \<mapsto> b - a + 1)) (max res (b - a + 1))"
    proof -
      have none: "m x = None" using dom False by (auto simp: dom_def)
      have arith: "x - a + (b - x) + 1 = b - a + 1" "x - (x - a) = a" "x + (b - x) = b" by simp_all
      show ?thesis unfolding consecutive_loop.simps Let_def none ends arith
        using \<open>in_int a\<close> \<open>in_int b\<close> \<open>in_int (x - 1)\<close> \<open>in_int (x + 1)\<close> \<open>in_int (b - a + 1)\<close> ends
        by (simp only: as_int_in bind.simps arith simp_thms if_False Option.bind.simps)
    qed
    define m' where "m' = m(x \<mapsto> b - a + 1, a \<mapsto> b - a + 1, b \<mapsto> b - a + 1)"
    have "runs_inv (insert x S) m'" unfolding m'_def by (rule runs_step [OF Cons.prems(1) False a b])
    from Cons.IH [OF this longest_run_step [OF Cons.prems(2) False a b]] show ?thesis
      unfolding step m'_def [symmetric] using Cons.prems(3,4) fin False by simp
  qed
qed simp

text \<open>
  The longest run of consecutive numbers, in any order and with repetitions, is found with one
  pass and a map that is only kept right at the ends of runs; numbers at either end of the type overflow.\<close>
theorem longestConsecutive_longest:
  assumes "\<forall>x \<in> set nums. INT_MIN < x \<and> x < INT_MAX" "int (length nums) \<le> INT_MAX"
  shows "\<exists>n. longestConsecutive nums = Some n \<and> longest_run (set nums) n"
proof -
  have "longest_run {} 0" by (auto simp: longest_run_def)
  moreover have "runs_inv {} Map.empty" by (simp add: runs_inv_def run_in_def)
  ultimately show ?thesis using consecutive_loop_spec [of "{}" Map.empty 0 nums] assms by (simp add: longestConsecutive_def)
qed

lemma longestConsecutive_longest_witness: "\<exists>n. longestConsecutive [100, 4, 200, 1, 3, 2] = Some n \<and> longest_run (set [100, 4, 200, 1, 3, 2]) n"
  using longestConsecutive_longest [of "[100, 4, 200, 1, 3, 2]"] by simp

lemma longestConsecutive_overflow: "longestConsecutive [INT_MAX] = None"
  by (simp add: longestConsecutive_def as_int_def in_int_def)

section \<open>The intersection of two arrays\<close>

fun count_loop1 :: "int list \<Rightarrow> (int \<rightharpoonup> int) \<Rightarrow> (int \<rightharpoonup> int)" where
  "count_loop1 [] m = m"
| "count_loop1 (x # xs) m = count_loop1 xs (m(x \<mapsto> (case m x of Some n \<Rightarrow> n + 1 | None \<Rightarrow> 1)))"

fun intersection_loop :: "int list \<Rightarrow> (int \<rightharpoonup> int) \<Rightarrow> int list \<Rightarrow> int list" where
  "intersection_loop [] m res = res"
| "intersection_loop (x # xs) m res =
     (if m x \<noteq> None \<and> m x \<noteq> Some (-1) then intersection_loop xs (m(x \<mapsto> -1)) (res @ [x]) else intersection_loop xs m res)"

definition intersection :: "int list \<Rightarrow> int list \<Rightarrow> int list" where
  "intersection nums1 nums2 = intersection_loop nums2 (count_loop1 nums1 Map.empty) []"

lemma count_loop1_spec:
  "\<forall>x n. m x = Some n \<longrightarrow> 0 < n \<Longrightarrow> dom (count_loop1 xs m) = set xs \<union> dom m \<and> (\<forall>x n. count_loop1 xs m x = Some n \<longrightarrow> 0 < n)"
proof (induction xs arbitrary: m)
  case (Cons x xs)
  define m' where "m' = m(x \<mapsto> (case m x of Some n \<Rightarrow> n + 1 | None \<Rightarrow> 1))"
  have "\<forall>y n. m' y = Some n \<longrightarrow> 0 < n" using Cons.prems by (auto simp: m'_def split: option.splits intro: add_pos_pos less_imp_le)
  from Cons.IH [OF this] have "dom (count_loop1 xs m') = set xs \<union> dom m' \<and> (\<forall>y n. count_loop1 xs m' y = Some n \<longrightarrow> 0 < n)" .
  moreover have "dom m' = insert x (dom m)" "count_loop1 (x # xs) m = count_loop1 xs m'" by (simp_all add: m'_def)
  ultimately show ?case by simp
qed simp

lemma intersection_loop_spec:
  assumes "\<And>x. x \<in> D \<longleftrightarrow> m x \<noteq> None \<and> m x \<noteq> Some (-1)"
  shows "\<exists>ys. intersection_loop xs m res = res @ ys \<and> distinct ys \<and> set ys = set xs \<inter> D"
  using assms
proof (induction xs arbitrary: m res D)
  case (Cons x xs)
  show ?case
  proof (cases "x \<in> D")
    case True
    have "\<And>y. y \<in> D - {x} \<longleftrightarrow> (m(x \<mapsto> -1)) y \<noteq> None \<and> (m(x \<mapsto> -1)) y \<noteq> Some (-1)" using Cons.prems by auto
    from Cons.IH [OF this, of "res @ [x]"] obtain ys where ys: "intersection_loop xs (m(x \<mapsto> -1)) (res @ [x]) = (res @ [x]) @ ys"
        "distinct ys" "set ys = set xs \<inter> (D - {x})" by blast
    have "m x \<noteq> None \<and> m x \<noteq> Some (-1)" using Cons.prems True by blast
    hence "intersection_loop (x # xs) m res = res @ (x # ys)" using ys(1) by simp
    moreover have "distinct (x # ys)" "set (x # ys) = set (x # xs) \<inter> D" using ys(2,3) True by auto
    ultimately show ?thesis by blast
  next
    case False
    hence "\<not> (m x \<noteq> None \<and> m x \<noteq> Some (-1))" using Cons.prems by blast
    hence "intersection_loop (x # xs) m res = intersection_loop xs m res" by auto
    moreover have "set (x # xs) \<inter> D = set xs \<inter> D" using False by auto
    ultimately show ?thesis using Cons.IH [OF Cons.prems] by simp
  qed
qed simp

text \<open>
  The intersection of two arrays has every common number exactly once.\<close>
theorem intersection_common:
  "distinct (intersection nums1 nums2) \<and> set (intersection nums1 nums2) = set nums1 \<inter> set nums2"
proof -
  let ?m = "count_loop1 nums1 Map.empty"
  have "dom ?m = set nums1" "\<forall>x n. ?m x = Some n \<longrightarrow> 0 < n" using count_loop1_spec [of Map.empty nums1] by simp_all
  hence "x \<in> set nums1 \<longleftrightarrow> ?m x \<noteq> None \<and> ?m x \<noteq> Some (-1)" for x by (force simp: dom_def)
  from intersection_loop_spec [OF this, of nums2 "[]"] show ?thesis by (auto simp: intersection_def)
qed

end
