(* ===== verification/CycleQueue.thy ===== *)
theory CycleQueue
  imports Cpp_Prelude
begin

text \<open>
  The ring buffer \<^verbatim>\<open>cycleQueue\<close> of \<^verbatim>\<open>cpp/stl/queue.cpp\<close> and the unfinished circular queue of
  \<^verbatim>\<open>cpp/online_judge/leetcode/editor/cn\<close>. The contract of a bounded queue is the locale
  \<open>bounded_queue\<close>: a call behaves as the same call on a list. A cell of the new array is
  uninitialised, \<^term>\<open>None\<close>, and reading it is undefined.
\<close>

section \<open>The contract\<close>

datatype 'a call = Push 'a | Pop

datatype 'a queue_result = Pushed | Popped 'a | Bad_exception

fun list_call :: "nat \<Rightarrow> 'a call \<Rightarrow> 'a list \<Rightarrow> 'a queue_result \<times> 'a list" where
  "list_call cap (Push x) xs = (if length xs = cap then (Bad_exception, xs) else (Pushed, xs @ [x]))"
| "list_call cap Pop xs = (case xs of [] \<Rightarrow> (Bad_exception, xs) | x # ys \<Rightarrow> (Popped x, ys))"

fun list_calls :: "nat \<Rightarrow> 'a call list \<Rightarrow> 'a list \<Rightarrow> 'a queue_result list" where
  "list_calls cap [] xs = []"
| "list_calls cap (c # cs) xs = (let (r, ys) = list_call cap c xs in r # list_calls cap cs ys)"

fun run_calls :: "('a call \<Rightarrow> 'q \<Rightarrow> ('a queue_result \<times> 'q) ub) \<Rightarrow> 'a call list \<Rightarrow> 'q \<Rightarrow> 'a queue_result list ub" where
  "run_calls f [] q = Some []"
| "run_calls f (c # cs) q = do { (r, q') \<leftarrow> f c q; rs \<leftarrow> run_calls f cs q'; Some (r # rs) }"

locale bounded_queue =
  fixes call :: "'a call \<Rightarrow> 'q \<Rightarrow> ('a queue_result \<times> 'q) ub" and ok :: "'q \<Rightarrow> bool" and contents :: "'q \<Rightarrow> 'a list" and cap :: "'q \<Rightarrow> nat"
  assumes call_refines: "ok q \<Longrightarrow> \<exists>r q'. call c q = Some (r, q') \<and> ok q' \<and> cap q' = cap q \<and> (r, contents q') = list_call (cap q) c (contents q)"
begin

lemma calls_refine: "ok q \<Longrightarrow> run_calls call cs q = Some (list_calls (cap q) cs (contents q))"
proof (induction cs arbitrary: q)
  case (Cons c cs)
  obtain r q' where c: "call c q = Some (r, q')" "ok q'" "cap q' = cap q" "(r, contents q') = list_call (cap q) c (contents q)"
    using call_refines [OF Cons.prems] by blast
  thus ?case using Cons.IH [OF c(2)] by (simp add: c(4) [symmetric])
qed simp

end

section \<open>cycleQueue\<close>

record 'a cycle_queue =
  m_size :: nat
  m_front :: nat
  m_rear :: nat
  m_data :: "'a option list"

definition cycleQueue :: "nat \<Rightarrow> 'a cycle_queue" where
  "cycleQueue n = \<lparr>m_size = n, m_front = 0, m_rear = 0, m_data = replicate n None\<rparr>"

definition isEmpty :: "'a cycle_queue \<Rightarrow> bool" where
  "isEmpty q = (m_front q = m_rear q)"

text \<open>The remainder by a size of zero is undefined.\<close>

definition isFull :: "'a cycle_queue \<Rightarrow> bool ub" where
  "isFull q = (if m_size q = 0 then None else Some (m_front q = (m_rear q + 1) mod m_size q))"

definition push_back_cell :: "'a \<Rightarrow> 'a cycle_queue \<Rightarrow> ('a queue_result \<times> 'a cycle_queue) ub" where
  "push_back_cell ele q =
     do { full \<leftarrow> isFull q;
          if full then Some (Bad_exception, q)
          else do { cells \<leftarrow> vset (m_data q) (m_rear q) (Some ele);
                    Some (Pushed, q\<lparr>m_data := cells, m_rear := (m_rear q + 1) mod m_size q\<rparr>) } }"

definition pop_cell :: "'a cycle_queue \<Rightarrow> ('a queue_result \<times> 'a cycle_queue) ub" where
  "pop_cell q =
     (if isEmpty q then Some (Bad_exception, q)
      else do { c \<leftarrow> vget (m_data q) (m_front q);
                tmp \<leftarrow> c;
                Some (Popped tmp, q\<lparr>m_front := (m_front q + 1) mod m_size q\<rparr>) })"

fun cycle_call :: "'a call \<Rightarrow> 'a cycle_queue \<Rightarrow> ('a queue_result \<times> 'a cycle_queue) ub" where
  "cycle_call (Push x) q = push_back_cell x q"
| "cycle_call Pop q = pop_cell q"

definition cycle_main :: "int queue_result list ub" where
  "cycle_main = run_calls cycle_call (map Push [1, 2, 3, 4] @ replicate 4 Pop @ map Push [5, 5, 5] @ replicate 3 Pop) (cycleQueue 5)"

section \<open>The ring holds a list\<close>

definition used :: "'a cycle_queue \<Rightarrow> nat" where
  "used q = (m_rear q + m_size q - m_front q) mod m_size q"

definition at_place :: "'a cycle_queue \<Rightarrow> nat \<Rightarrow> nat" where
  "at_place q k = (m_front q + k) mod m_size q"

definition contents :: "'a cycle_queue \<Rightarrow> 'a list" where
  "contents q = map (\<lambda>k. the (m_data q ! at_place q k)) [0..<used q]"

definition ring_ok :: "'a cycle_queue \<Rightarrow> bool" where
  "ring_ok q \<longleftrightarrow> 0 < m_size q \<and> m_front q < m_size q \<and> m_rear q < m_size q \<and> length (m_data q) = m_size q \<and>
     (\<forall>k < used q. m_data q ! at_place q k \<noteq> None)"

lemma mod_wrap: "m < 2 * n \<Longrightarrow> m mod n = (if m < n then m else m - n)" for m n :: nat
  by (simp add: le_mod_geq)

text \<open>The places of the elements and of the next one.\<close>

lemma ring_places:
  assumes "f < n" "r < (n :: nat)"
  shows "(f + (r + n - f) mod n) mod n = r" "(r + n - f) mod n = 0 \<longleftrightarrow> f = r"
    "f = (r + 1) mod n \<longleftrightarrow> (r + n - f) mod n = n - 1"
    "f \<noteq> (r + 1) mod n \<Longrightarrow> ((r + 1) mod n + n - f) mod n = (r + n - f) mod n + 1"
    "f \<noteq> r \<Longrightarrow> (r + n - (f + 1) mod n) mod n + 1 = (r + n - f) mod n"
proof -
  have u: "(r + n - f) mod n = (if f \<le> r then r - f else r + n - f)" if "f < n" "r < n" for f r :: nat
    using that by (simp add: mod_wrap)
  have s: "Suc k mod n = (if Suc k = n then 0 else Suc k)" if "k < n" for k using that by (auto simp: mod_wrap)
  show "(f + (r + n - f) mod n) mod n = r" using assms by (simp add: u)
  show "(r + n - f) mod n = 0 \<longleftrightarrow> f = r" using assms by (auto simp: u)
  show "f = (r + 1) mod n \<longleftrightarrow> (r + n - f) mod n = n - 1" using assms by (auto simp: u s)
  have "(r + 1) mod n < n" "(f + 1) mod n < n" using assms by simp_all
  thus "f \<noteq> (r + 1) mod n \<Longrightarrow> ((r + 1) mod n + n - f) mod n = (r + n - f) mod n + 1"
    "f \<noteq> r \<Longrightarrow> (r + n - (f + 1) mod n) mod n + 1 = (r + n - f) mod n"
    using assms by (auto simp: u s)
qed

lemma at_place_inj: "ring_ok q \<Longrightarrow> j < m_size q \<Longrightarrow> k < m_size q \<Longrightarrow> at_place q j = at_place q k \<Longrightarrow> j = k"
  by (simp add: at_place_def ring_ok_def mod_wrap split: if_splits)

lemma cycle_push:
  assumes "ring_ok q"
  shows "\<exists>r q'. push_back_cell x q = Some (r, q') \<and> ring_ok q' \<and> m_size q' = m_size q \<and> (r, contents q') = list_call (m_size q - 1) (Push x) (contents q)"
proof (cases "m_front q = (m_rear q + 1) mod m_size q")
  case True
  hence "used q = m_size q - 1" using assms ring_places(3) [of "m_front q" "m_size q" "m_rear q"] by (simp add: ring_ok_def used_def)
  thus ?thesis using True assms by (simp add: push_back_cell_def isFull_def ring_ok_def contents_def)
next
  case False
  note ok = assms [unfolded ring_ok_def]
  note places = ring_places [of "m_front q" "m_size q" "m_rear q"]
  let ?q = "q\<lparr>m_data := (m_data q)[m_rear q := Some x], m_rear := (m_rear q + 1) mod m_size q\<rparr>"
  have u: "used ?q = used q + 1" "used q \<noteq> m_size q - 1" "used q < m_size q" "at_place q (used q) = m_rear q"
    using places False ok by (simp_all add: used_def at_place_def)
  have same: "at_place ?q k = at_place q k" for k by (simp add: at_place_def)
  have nth: "m_data ?q ! at_place ?q k = (if k = used q then Some x else m_data q ! at_place q k)" if "k < m_size q" for k
  proof (cases "k = used q")
    case False
    hence "at_place q k \<noteq> m_rear q" using at_place_inj [OF assms that u(3)] u(4) by auto
    thus ?thesis unfolding same using False by simp
  next
    case True
    thus ?thesis unfolding same using u(4) ok by simp
  qed
  have "ring_ok ?q" using ok u nth by (auto simp: ring_ok_def less_Suc_eq)
  moreover have "contents ?q = contents q @ [x]" using nth u by (auto simp: contents_def)
  moreover have "push_back_cell x q = Some (Pushed, ?q)" using False ok by (simp add: push_back_cell_def isFull_def vec_simps)
  ultimately show ?thesis using u by (intro exI [of _ Pushed] exI [of _ ?q]) (simp add: contents_def)
qed

lemma cycle_pop:
  assumes "ring_ok q"
  shows "\<exists>r q'. pop_cell q = Some (r, q') \<and> ring_ok q' \<and> m_size q' = m_size q \<and> (r, contents q') = list_call (m_size q - 1) Pop (contents q)"
proof (cases "isEmpty q")
  case True
  hence "used q = 0" using assms ring_places(2) [of "m_front q" "m_size q" "m_rear q"] by (simp add: ring_ok_def used_def isEmpty_def)
  thus ?thesis using True assms by (simp add: pop_cell_def contents_def)
next
  case False
  note ok = assms [unfolded ring_ok_def]
  note places = ring_places [of "m_front q" "m_size q" "m_rear q"]
  let ?q = "q\<lparr>m_front := (m_front q + 1) mod m_size q\<rparr>"
  have u: "used ?q + 1 = used q" using places(5) False ok by (simp add: used_def isEmpty_def)
  have a: "at_place q 0 = m_front q" "at_place ?q k = at_place q (k + 1)" for k using ok by (simp_all add: at_place_def mod_add_left_eq)
  obtain y where y: "m_data q ! m_front q = Some y" using ok u a(1) by (metis add_is_0 gr0I not_None_eq one_neq_zero)
  have "[0..<used q] = 0 # map Suc [0..<used ?q]" using u by (metis Suc_eq_plus1 map_Suc_upt upt_conv_Cons zero_less_Suc)
  hence "contents q = y # contents ?q" using y a by (simp add: contents_def)
  moreover have "ring_ok ?q" using ok u a(2) by (auto simp: ring_ok_def)
  moreover have "pop_cell q = Some (Popped y, ?q)" using False ok y by (simp add: pop_cell_def vec_simps)
  ultimately show ?thesis by (intro exI [of _ "Popped y"] exI [of _ ?q]) simp
qed

interpretation cycle: bounded_queue cycle_call ring_ok contents "\<lambda>q. m_size q - 1"
proof unfold_locales
  fix q :: "'a cycle_queue" and c :: "'a call"
  assume ok: "ring_ok q"
  show "\<exists>r q'. cycle_call c q = Some (r, q') \<and> ring_ok q' \<and> m_size q' - 1 = m_size q - 1 \<and> (r, contents q') = list_call (m_size q - 1) c (contents q)"
    using cycle_push [OF ok] cycle_pop [OF ok] by (cases c) fastforce+
qed


lemma cycle_new: "1 \<le> n \<Longrightarrow> ring_ok (cycleQueue n)" "contents (cycleQueue n) = []" "m_size (cycleQueue n) = n"
  by (simp_all add: ring_ok_def cycleQueue_def contents_def used_def)



lemma cycle_main_run: "cycle_main = Some (replicate 4 Pushed @ map Popped [1, 2, 3, 4] @ replicate 3 Pushed @ map Popped [5, 5, 5])"
proof -
  have "cycle_main = Some (list_calls 4 (map Push [1, 2, 3, 4] @ replicate 4 Pop @ map Push [5, 5, 5] @ replicate 3 Pop) [])"
    unfolding cycle_main_def by (subst cycle.calls_refine) (simp_all only: cycle_new, simp_all)
  thus ?thesis by (simp add: numeral_eq_Suc)
qed

lemma cycle_queue_size_zero: "cycle_call (Push x) (cycleQueue 0) = None"
  by (simp add: push_back_cell_def isFull_def cycleQueue_def)

section \<open>The circular queue of the exercise\<close>

record circular_queue =
  head :: int
  tail :: int
  count :: int
  data :: "int option list"

definition MyCircularQueue :: "int \<Rightarrow> circular_queue ub" where
  "MyCircularQueue k = (if k + 1 < 0 then None else Some \<lparr>head = -1, tail = -1, count = k + 1, data = replicate (nat (k + 1)) None\<rparr>)"

definition queue_isEmpty :: "circular_queue \<Rightarrow> bool" where
  "queue_isEmpty q = (tail q = head q)"

definition queue_isFull :: "circular_queue \<Rightarrow> bool ub" where
  "queue_isFull q = (if count q = 0 then None else Some (trem (tail q + 1) (count q) = trem (head q + count q) (count q)))"

definition enQueue :: "int \<Rightarrow> circular_queue \<Rightarrow> (bool \<times> circular_queue) ub" where
  "enQueue value q =
     do { full \<leftarrow> queue_isFull q;
          if full then Some (False, q)
          else do { let t = trem (tail q) (count q);
                    cells \<leftarrow> iset (data q) t (Some value);
                    Some (True, q\<lparr>tail := t, data := cells\<rparr>) } }"

definition deQueue :: "circular_queue \<Rightarrow> (bool \<times> circular_queue) ub" where
  "deQueue q =
     (if queue_isEmpty q then Some (False, q)
      else if count q = 0 then None
      else Some (True, q\<lparr>head := trem (head q + 1) (count q)\<rparr>))"

definition queue_Front :: "circular_queue \<Rightarrow> int ub" where
  "queue_Front q = (if queue_isEmpty q then Some (-1) else do { c \<leftarrow> iget (data q) (head q + 1); c })"

definition queue_Rear :: "circular_queue \<Rightarrow> int ub" where
  "queue_Rear q = (if queue_isEmpty q then Some (-1) else do { c \<leftarrow> iget (data q) (tail q); c })"

text \<open>
  The circular queue of the exercise does not work: the first insertion into a queue of any positive
  size writes before the array, as the tail starts at minus one and never moves; a queue of size zero is always full. Removing
  and reading are right only for the empty queue.\<close>
theorem circular_queue_unusable:
  assumes "0 \<le> k" "MyCircularQueue k = Some q"
  shows "(if k = 0 then enQueue v q = Some (False, q) else enQueue v q = None) \<and> deQueue q = Some (False, q) \<and> queue_Front q = Some (-1) \<and> queue_Rear q = Some (-1)"
proof -
  have q: "q = \<lparr>head = -1, tail = -1, count = k + 1, data = replicate (nat (k + 1)) None\<rparr>"
    using assms by (simp add: MyCircularQueue_def)
  have "k \<noteq> 0 \<Longrightarrow> trem (-1) (k + 1) = -1" using assms(1) by (simp add: trem_def)
  thus ?thesis using assms(1)
    by (auto simp: q enQueue_def queue_isFull_def deQueue_def queue_Front_def queue_Rear_def queue_isEmpty_def iset_def Let_def)
qed

lemma circular_queue_unusable_witness: "do { q \<leftarrow> MyCircularQueue 3; enQueue 1 q } = None"
  using circular_queue_unusable [of 3 _ 1] by (simp add: MyCircularQueue_def)

section \<open>The stack with a minimum\<close>

record min_stack =
  numbers :: "int list"
  minima :: "int list"

definition MinStack :: min_stack where
  "MinStack = \<lparr>numbers = [], minima = []\<rparr>"

text \<open>The top of an empty stack is undefined.\<close>

definition stack_top :: "int list \<Rightarrow> int ub" where
  "stack_top s = (case s of [] \<Rightarrow> None | x # _ \<Rightarrow> Some x)"

definition min_push :: "int \<Rightarrow> min_stack \<Rightarrow> min_stack ub" where
  "min_push x s = do { m \<leftarrow> stack_top (minima s); Some (s\<lparr>numbers := x # numbers s, minima := (if x \<le> m then x # minima s else minima s)\<rparr>) }"

definition min_pop :: "min_stack \<Rightarrow> min_stack ub" where
  "min_pop s =
     (case numbers s of
       [] \<Rightarrow> Some s
     | temp # rest \<Rightarrow> do { m \<leftarrow> stack_top (minima s);
                        Some (s\<lparr>numbers := rest, minima := (if temp = m then tl (minima s) else minima s)\<rparr>) })"

definition min_top :: "min_stack \<Rightarrow> int ub" where
  "min_top s = (if numbers s = [] then Some (-1) else stack_top (numbers s))"

definition getMin :: "min_stack \<Rightarrow> int ub" where
  "getMin s = (if numbers s = [] then Some (-1) else stack_top (minima s))"

fun min_pushes :: "int list \<Rightarrow> min_stack \<Rightarrow> min_stack ub" where
  "min_pushes [] s = Some s"
| "min_pushes (x # xs) s = do { s' \<leftarrow> min_push x s; min_pushes xs s' }"

definition min_inv :: "min_stack \<Rightarrow> bool" where
  "min_inv s \<longleftrightarrow> (\<exists>v vs m ms. numbers s = v # vs \<and> minima s = m # ms \<and> m = Min (set (numbers s)))"

text \<open>
  The stack with a minimum: the first push onto a new stack reads the top of an empty stack; on a
  stack that holds one number with its minimum, any pushes work and the minimum of all numbers is returned.\<close>
theorem min_stack_minimum:
  "min_push x MinStack = None \<and>
   (\<exists>s. min_pushes xs \<lparr>numbers = [x], minima = [x]\<rparr> = Some s \<and> numbers s = rev xs @ [x] \<and> getMin s = Some (Min (set (x # xs))))"
proof -
  have "\<exists>t. min_pushes xs s = Some t \<and> numbers t = rev xs @ numbers s \<and> min_inv t" if "min_inv s" for s
    using that
  proof (induction xs arbitrary: s)
    case (Cons y ys)
    obtain v vs m ms where s: "numbers s = v # vs" "minima s = m # ms" "m = Min (set (numbers s))" using Cons.prems by (auto simp: min_inv_def)
    define t where "t = s\<lparr>numbers := y # numbers s, minima := (if y \<le> m then y # minima s else minima s)\<rparr>"
    have p: "min_push y s = Some t" using s by (simp add: min_push_def stack_top_def t_def)
    have "Min (set (y # numbers s)) = min y m" using s by simp
    hence "min_inv t" using s by (auto simp: min_inv_def t_def min_def)
    from Cons.IH [OF this] show ?case using p by (auto simp: t_def)
  qed simp
  moreover have "min_inv \<lparr>numbers = [x], minima = [x]\<rparr>" by (simp add: min_inv_def)
  ultimately obtain t where t: "min_pushes xs \<lparr>numbers = [x], minima = [x]\<rparr> = Some t" "numbers t = rev xs @ [x]" "min_inv t" by fastforce
  hence "getMin t = Some (Min (set (x # xs)))" by (auto simp: min_inv_def getMin_def stack_top_def insert_commute)
  thus ?thesis using t by (simp add: min_push_def MinStack_def stack_top_def)
qed

end
