(* ===== verification/Turns.thy ===== *)
theory Turns
  imports Cpp_Prelude
begin

text \<open>
  Threads that print in turn, \<^verbatim>\<open>cpp/thread/print.cpp\<close>, \<^verbatim>\<open>print_a_b.cpp\<close>,
  \<^verbatim>\<open>print_abc.cpp\<close> and \<^verbatim>\<open>print_1.cpp\<close>. The first two wait for their turn on a condition variable, the others
  spin. A step is a critical section or a read of the shared variable outside the lock. The contract
  that makes the order of the output right is the locale \<open>turn_taking\<close>; the programs interpret it.
\<close>

section \<open>Taking turns\<close>

text \<open>A step prints nothing and keeps the turn, or prints the thread whose turn it is and passes the turn on.\<close>

locale turn_taking =
  fixes n :: nat and start :: 's and step :: "'s \<Rightarrow> 's \<Rightarrow> bool" and ok :: "'s \<Rightarrow> bool" and out :: "'s \<Rightarrow> nat list" and turn :: "'s \<Rightarrow> nat"
  assumes some_thread: "0 < n" and start_ok: "ok start" and start_out: "out start = []" and start_turn: "turn start = 0"
    and step_ok: "ok s \<Longrightarrow> step s t \<Longrightarrow> ok t"
    and step_turn: "ok s \<Longrightarrow> step s t \<Longrightarrow> (out t = out s \<and> turn t = turn s) \<or> (out t = out s @ [turn s] \<and> turn t = (turn s + 1) mod n)"
begin

lemma runs_in_turn: "step\<^sup>*\<^sup>* start s \<Longrightarrow> ok s \<and> out s = map (\<lambda>i. i mod n) [0..<length (out s)] \<and> turn s = length (out s) mod n"
proof (induction rule: rtranclp_induct)
  case base
  show ?case by (simp add: start_ok start_out start_turn)
next
  case (step s t)
  have ok: "ok s" and o: "out s = map (\<lambda>i. i mod n) [0..<length (out s)]" and t: "turn s = length (out s) mod n" using step.IH by blast+
  from step_turn [OF ok step.hyps(2)] show ?case
  proof
    assume "out t = out s \<and> turn t = turn s"
    thus ?thesis using o t step_ok [OF ok step.hyps(2)] by simp
  next
    assume a: "out t = out s @ [turn s] \<and> turn t = (turn s + 1) mod n"
    have "out t = map (\<lambda>i. i mod n) [0..<length (out s)] @ [length (out s) mod n]" using a o t by simp
    moreover have "turn t = (length (out s) + 1) mod n" using a t by (simp add: mod_Suc_eq)
    ultimately show ?thesis using a step_ok [OF ok step.hyps(2)] by simp
  qed
qed

end

section \<open>print.cpp\<close>

text \<open>The threads 0, 1 and 2 print three times each; a thread is in its loop with \<open>i\<close>, waits there, or has left it.\<close>

datatype fun_pc = Loop nat | Waits nat | Left

record abc_state =
  flag :: nat
  fun_at :: "nat \<Rightarrow> fun_pc"
  printed :: "nat list"

definition print_start :: abc_state where
  "print_start = \<lparr>flag = 0, fun_at = (\<lambda>_. Loop 0), printed = []\<rparr>"

definition loop_from :: "nat \<Rightarrow> fun_pc" where
  "loop_from i = (if i < 3 then Loop i else Left)"

definition wake_waiting :: "(nat \<Rightarrow> fun_pc) \<Rightarrow> nat \<Rightarrow> fun_pc" where
  "wake_waiting f = (\<lambda>k. case f k of Waits i \<Rightarrow> Loop i | pc \<Rightarrow> pc)"

definition print_turn :: "nat \<Rightarrow> nat \<Rightarrow> abc_state \<Rightarrow> abc_state" where
  "print_turn k i s = \<lparr>flag = (flag s + 1) mod 3, fun_at = wake_waiting ((fun_at s)(k := loop_from (i + 1))), printed = printed s @ [k]\<rparr>"

inductive print_step :: "abc_state \<Rightarrow> abc_state \<Rightarrow> bool" where
  wait: "k < 3 \<Longrightarrow> fun_at s k = Loop i \<Longrightarrow> k \<noteq> flag s \<Longrightarrow> print_step s (s\<lparr>fun_at := (fun_at s)(k := Waits i)\<rparr>)"
| print: "k < 3 \<Longrightarrow> fun_at s k = Loop i \<Longrightarrow> k = flag s \<Longrightarrow> print_step s (print_turn k i s)"
| spurious: "k < 3 \<Longrightarrow> fun_at s k = Waits i \<Longrightarrow> print_step s (s\<lparr>fun_at := (fun_at s)(k := Loop i)\<rparr>)"

text \<open>How often a thread has printed, from its place in the loop.\<close>

fun rounds_done :: "fun_pc \<Rightarrow> nat" where
  "rounds_done (Loop i) = i"
| "rounds_done (Waits i) = i"
| "rounds_done Left = 3"

fun pc_ok :: "fun_pc \<Rightarrow> bool" where
  "pc_ok (Loop i) = (i < 3)"
| "pc_ok (Waits i) = (i < 3)"
| "pc_ok Left = True"

definition print_ok :: "abc_state \<Rightarrow> bool" where
  "print_ok s \<longleftrightarrow> flag s < 3 \<and> (\<forall>k < 3. pc_ok (fun_at s k) \<and> rounds_done (fun_at s k) = count_list (printed s) k \<and> (\<forall>i. fun_at s k = Waits i \<longrightarrow> k \<noteq> flag s))"

lemma wake_waiting_facts: "rounds_done (wake_waiting f k) = rounds_done (f k)" "wake_waiting f k \<noteq> Waits i" "pc_ok (wake_waiting f k) = pc_ok (f k)"
  by (auto simp: wake_waiting_def split: fun_pc.splits)

lemma loop_from_facts: "i < 3 \<Longrightarrow> rounds_done (loop_from (i + 1)) = i + 1" "pc_ok (loop_from i)"
  by (auto simp: loop_from_def)

interpretation abc: turn_taking 3 print_start print_step print_ok printed flag
proof unfold_locales
  show "print_ok print_start" by (simp add: print_ok_def print_start_def)
  fix s t
  assume ok: "print_ok s" and st: "print_step s t"
  from st show "print_ok t"
  proof (cases rule: print_step.cases)
    case (wait k i)
    thus ?thesis using ok by (auto simp: print_ok_def)
  next
    case (print k i)
    have i: "i < 3" "i = count_list (printed s) k" using ok print by (auto simp: print_ok_def)
    show ?thesis using ok print i loop_from_facts(1) [OF i(1)] loop_from_facts(2) [of "i + 1"]
      by (auto simp: print_ok_def print_turn_def wake_waiting_facts)
  next
    case (spurious k i)
    thus ?thesis using ok by (auto simp: print_ok_def)
  qed
  from st show "(printed t = printed s \<and> flag t = flag s) \<or> (printed t = printed s @ [flag s] \<and> flag t = (flag s + 1) mod 3)"
    by (cases rule: print_step.cases) (auto simp: print_turn_def)
qed (simp_all add: print_start_def)

text \<open>
  Three threads print in turn: in every interleaving what has been printed is a beginning of ABCABCABC; while
  a letter is missing, the thread whose turn it is is awake in its loop, so no wake-up is lost, and when all threads have left their
  loops the output is complete.\<close>
theorem print_abc_in_turn:
  assumes "print_step\<^sup>*\<^sup>* print_start s"
  shows "printed s = take (length (printed s)) [0, 1, 2, 0, 1, 2, 0, 1, 2] \<and>
    (length (printed s) < 9 \<longrightarrow> (\<exists>i. fun_at s (flag s) = Loop i \<and> print_step s (print_turn (flag s) i s))) \<and>
    (fun_at s 0 = Left \<and> fun_at s 1 = Left \<and> fun_at s 2 = Left \<longrightarrow> printed s = [0, 1, 2, 0, 1, 2, 0, 1, 2])"
proof -
  define m where "m = length (printed s)"
  have r: "print_ok s" "printed s = map (\<lambda>i. i mod 3) [0..<m]" "flag s = m mod 3" using abc.runs_in_turn [OF assms] by (simp_all add: m_def)
  have c: "pc_ok (fun_at s k)" "rounds_done (fun_at s k) = count_list (printed s) k" if "k < 3" for k using r(1) that by (auto simp: print_ok_def)
  have three: "count_list (printed s) k \<le> 3" if "k < 3" for k using c [OF that] by (cases "fun_at s k") auto
  have "set (printed s) \<subseteq> {0, 1, 2}"
  proof
    fix x assume "x \<in> set (printed s)"
    hence "x < 3" using r(2) by (metis (mono_tags, lifting) imageE list.set_map mod_less_divisor zero_less_numeral)
    thus "x \<in> {0, 1, 2}" by auto
  qed
  hence "sum (count_list (printed s)) {0, 1, 2} = m" using sum_count_set by (metis finite.emptyI finite.insertI m_def)
  hence m9: "m \<le> 9" using three [of 0] three [of 1] three [of 2] by simp
  hence cases: "m \<in> {0, 1, 2, 3, 4, 5, 6, 7, 8, 9}" by auto
  have out: "printed s = take m [0, 1, 2, 0, 1, 2, 0, 1, 2]" using cases r(2) by (auto simp: upt_rec)
  have "\<exists>i. fun_at s (flag s) = Loop i" if "m < 9"
  proof -
    have "count_list (printed s) (flag s) < 3" using that cases out r(3) by auto
    moreover have "flag s < 3" "\<forall>i. fun_at s (flag s) \<noteq> Waits i" using r(1) by (auto simp: print_ok_def)
    ultimately show ?thesis using c(2) [of "flag s"] by (cases "fun_at s (flag s)") auto
  qed
  moreover have "m = 9" if "fun_at s 0 = Left" "fun_at s 1 = Left" "fun_at s 2 = Left"
  proof -
    have "count_list (printed s) 2 = 3" using c(2) [of 2] that by simp
    thus ?thesis using cases out by auto
  qed
  moreover have "flag s < 3" using r(1) by (simp add: print_ok_def)
  ultimately show ?thesis using out print_step.print [of "flag s" s] unfolding m_def [symmetric] by fastforce
qed


lemma print_abc_in_turn_witness: "\<exists>i. fun_at print_start 0 = Loop i \<and> print_step print_start (print_turn 0 i print_start)"
  using print_abc_in_turn [OF rtranclp.rtrancl_refl] by (simp add: print_start_def)

section \<open>print\_a\_b.cpp\<close>

text \<open>Thread 0 prints A when the flag is set, thread 1 prints B when it is not; each prints for ever.\<close>

record ab_state =
  ab_flag :: bool
  blocked :: "nat \<Rightarrow> bool"
  ab_out :: "nat list"

definition ab_start :: ab_state where
  "ab_start = \<lparr>ab_flag = True, blocked = (\<lambda>_. False), ab_out = []\<rparr>"

text \<open>The predicate that a thread waits for.\<close>

definition may_print :: "nat \<Rightarrow> ab_state \<Rightarrow> bool" where
  "may_print k s = (if k = 0 then ab_flag s else \<not> ab_flag s)"

definition ab_print :: "nat \<Rightarrow> ab_state \<Rightarrow> ab_state" where
  "ab_print k s = \<lparr>ab_flag = (k \<noteq> 0), blocked = (\<lambda>_. False), ab_out = ab_out s @ [k]\<rparr>"

inductive ab_step :: "ab_state \<Rightarrow> ab_state \<Rightarrow> bool" where
  wait: "k < 2 \<Longrightarrow> \<not> blocked s k \<Longrightarrow> \<not> may_print k s \<Longrightarrow> ab_step s (s\<lparr>blocked := (blocked s)(k := True)\<rparr>)"
| print: "k < 2 \<Longrightarrow> \<not> blocked s k \<Longrightarrow> may_print k s \<Longrightarrow> ab_step s (ab_print k s)"
| spurious: "k < 2 \<Longrightarrow> blocked s k \<Longrightarrow> ab_step s (s\<lparr>blocked := (blocked s)(k := False)\<rparr>)"

definition ab_turn :: "ab_state \<Rightarrow> nat" where
  "ab_turn s = (if ab_flag s then 0 else 1)"

definition ab_ok :: "ab_state \<Rightarrow> bool" where
  "ab_ok s \<longleftrightarrow> (\<forall>k < 2. blocked s k \<longrightarrow> \<not> may_print k s)"

lemma all_less_2: "(\<forall>k < 2. P k) \<longleftrightarrow> P 0 \<and> P (1 :: nat)"
  by (auto simp: less_2_cases_iff)

interpretation ab: turn_taking 2 ab_start ab_step ab_ok ab_out ab_turn
proof unfold_locales
  fix s t
  assume ok: "ab_ok s" and st: "ab_step s t"
  from st show "ab_ok t" by (cases rule: ab_step.cases) (use ok in \<open>auto simp: ab_ok_def ab_print_def may_print_def all_less_2 less_2_cases_iff\<close>)
  from st show "(ab_out t = ab_out s \<and> ab_turn t = ab_turn s) \<or> (ab_out t = ab_out s @ [ab_turn s] \<and> ab_turn t = (ab_turn s + 1) mod 2)"
    by (cases rule: ab_step.cases) (auto simp: ab_print_def may_print_def ab_turn_def less_2_cases_iff)
qed (auto simp: ab_start_def ab_ok_def ab_turn_def)

text \<open>
  Two threads alternate for ever: the output is ABAB in every interleaving, and at every moment the thread
  whose turn it is is awake and can print.\<close>
theorem print_a_b_alternate:
  assumes "ab_step\<^sup>*\<^sup>* ab_start s"
  shows "ab_out s = map (\<lambda>i. i mod 2) [0..<length (ab_out s)] \<and>
    (\<exists>k < 2. \<not> blocked s k \<and> may_print k s \<and> ab_step s (ab_print k s) \<and> k = length (ab_out s) mod 2)"
proof -
  have r: "ab_ok s" "ab_out s = map (\<lambda>i. i mod 2) [0..<length (ab_out s)]" "ab_turn s = length (ab_out s) mod 2" using ab.runs_in_turn [OF assms] by simp_all
  have t: "ab_turn s < 2" "may_print (ab_turn s) s" by (simp_all add: ab_turn_def may_print_def)
  hence "\<not> blocked s (ab_turn s)" using r(1) by (auto simp: ab_ok_def)
  thus ?thesis using t r(2,3) ab_step.print [of "ab_turn s" s] by metis
qed

lemma print_a_b_alternate_witness: "ab_out (ab_print 0 ab_start) = [0]"
proof -
  have "ab_step\<^sup>*\<^sup>* ab_start (ab_print 0 ab_start)" by (intro r_into_rtranclp ab_step.print) (simp_all add: ab_start_def may_print_def)
  from print_a_b_alternate [OF this] show ?thesis by (simp add: ab_print_def ab_start_def)
qed

section \<open>print\_abc.cpp\<close>

text \<open>Each of three threads spins until it is its turn, takes the lock, prints and passes the turn on, ten times.\<close>

datatype spin_pc = Spin nat | Won nat | Ended

record spin_state =
  cnt :: nat
  spin_at :: "nat \<Rightarrow> spin_pc"
  letters :: "nat list"

definition spin_start :: spin_state where
  "spin_start = \<lparr>cnt = 0, spin_at = (\<lambda>_. Spin 10), letters = []\<rparr>"

definition spin_print :: "nat \<Rightarrow> nat \<Rightarrow> spin_state \<Rightarrow> spin_state" where
  "spin_print k r s = \<lparr>cnt = (cnt s + 1) mod 3, spin_at = (spin_at s)(k := (if r - 1 = 0 then Ended else Spin (r - 1))), letters = letters s @ [k]\<rparr>"

inductive spin_step :: "spin_state \<Rightarrow> spin_state \<Rightarrow> bool" where
  yield: "k < 3 \<Longrightarrow> spin_at s k = Spin r \<Longrightarrow> k \<noteq> cnt s \<Longrightarrow> spin_step s s"
| look: "k < 3 \<Longrightarrow> spin_at s k = Spin r \<Longrightarrow> k = cnt s \<Longrightarrow> spin_step s (s\<lparr>spin_at := (spin_at s)(k := Won r)\<rparr>)"
| print: "k < 3 \<Longrightarrow> spin_at s k = Won r \<Longrightarrow> spin_step s (spin_print k r s)"

fun rounds_left :: "spin_pc \<Rightarrow> nat" where
  "rounds_left (Spin r) = r"
| "rounds_left (Won r) = r"
| "rounds_left Ended = 0"

fun spin_pc_ok :: "nat \<Rightarrow> nat \<Rightarrow> spin_pc \<Rightarrow> bool" where
  "spin_pc_ok c k (Spin r) = (0 < r)"
| "spin_pc_ok c k (Won r) = (0 < r \<and> k = c)"
| "spin_pc_ok c k Ended = True"

definition spin_ok :: "spin_state \<Rightarrow> bool" where
  "spin_ok s \<longleftrightarrow> cnt s < 3 \<and> (\<forall>k < 3. spin_pc_ok (cnt s) k (spin_at s k) \<and> rounds_left (spin_at s k) + count_list (letters s) k = 10)"

lemma spin_pc_other: "spin_pc_ok c k pc \<Longrightarrow> k \<noteq> c \<Longrightarrow> spin_pc_ok d k pc"
  by (cases pc) auto

lemma spin_ok_print:
  assumes "spin_ok s" "k < 3" "spin_at s k = Won r"
  shows "k = cnt s \<and> spin_ok (spin_print k r s)"
proof -
  have k: "0 < r" "k = cnt s" "r + count_list (letters s) k = 10" using assms by (auto simp: spin_ok_def)
  have "spin_pc_ok (cnt s) j (spin_at s j)" if "j < 3" for j using assms(1) that by (simp add: spin_ok_def)
  hence "spin_pc_ok ((cnt s + 1) mod 3) j (spin_at s j)" if "j < 3" "j \<noteq> k" for j using that k(2) spin_pc_other by blast
  thus ?thesis using assms(1) k by (auto simp: spin_ok_def spin_print_def)
qed

interpretation spin: turn_taking 3 spin_start spin_step spin_ok letters cnt
proof unfold_locales
  show "spin_ok spin_start" by (simp add: spin_ok_def spin_start_def)
  fix s t
  assume ok: "spin_ok s" and st: "spin_step s t"
  from st show "spin_ok t"
  proof (cases rule: spin_step.cases)
    case (look k r)
    thus ?thesis using ok by (fastforce simp: spin_ok_def)
  next
    case (print k r)
    thus ?thesis using spin_ok_print [OF ok] by blast
  qed (use ok in simp)
  from st show "(letters t = letters s \<and> cnt t = cnt s) \<or> (letters t = letters s @ [cnt s] \<and> cnt t = (cnt s + 1) mod 3)"
    by (cases rule: spin_step.cases) (use spin_ok_print [OF ok] in \<open>auto simp: spin_print_def\<close>)
qed (simp_all add: spin_start_def)

text \<open>
  Three spinning threads print in turn although they read the turn outside the lock: at most one thread is past
  its test, the output is a beginning of ABC repeated ten times, and until it is complete the thread whose turn it is can go on.\<close>
theorem print_abc_spinning:
  assumes "spin_step\<^sup>*\<^sup>* spin_start s"
  shows "letters s = map (\<lambda>i. i mod 3) [0..<length (letters s)] \<and> length (letters s) \<le> 30 \<and>
    (\<forall>j < 3. \<forall>k < 3. \<forall>p q. spin_at s j = Won p \<and> spin_at s k = Won q \<longrightarrow> j = k) \<and>
    (spin_at s (cnt s) \<noteq> Ended \<or> length (letters s) = 30)"
proof -
  define m where "m = length (letters s)"
  have r: "spin_ok s" "letters s = map (\<lambda>i. i mod 3) [0..<m]" "cnt s = m mod 3" using spin.runs_in_turn [OF assms] by (simp_all add: m_def)
  have c: "spin_pc_ok (cnt s) k (spin_at s k)" "rounds_left (spin_at s k) + count_list (letters s) k = 10" if "k < 3" for k using r(1) that by (auto simp: spin_ok_def)
  have count: "count_list (map (\<lambda>i. i mod 3) [0..<n]) k = (n + 2 - k) div 3" if "k < 3" for n k :: nat
  proof (induction n)
    case 0
    show ?case using that by simp
  next
    case (Suc n)
    have e: "(Suc n + 2) div 3 = (n + 2) div 3 + (if n mod 3 = 0 then 1 else 0)" "(Suc n + 1) div 3 = (n + 1) div 3 + (if n mod 3 = 1 then 1 else 0)"
      "Suc n div 3 = n div 3 + (if n mod 3 = 2 then 1 else 0)" by presburger+
    have "k = 0 \<or> k = 1 \<or> k = 2" using that by auto
    hence "(Suc n + 2 - k) div 3 = (n + 2 - k) div 3 + (if n mod 3 = k then 1 else 0)" using e by auto
    thus ?case using Suc by auto
  qed
  have cl: "count_list (letters s) k = (m + 2 - k) div 3" if "k < 3" for k
    by (subst r(2)) (rule count [OF that])
  have "count_list (letters s) 0 \<le> 10" using c(2) [of 0] by simp
  hence "(m + 2) div 3 \<le> 10" using cl [of 0] by simp
  hence m: "m \<le> 30" by presburger
  have "spin_at s (cnt s) \<noteq> Ended \<or> m = 30"
  proof (rule disjCI)
    assume "m \<noteq> 30"
    hence "(m + 2 - m mod 3) div 3 < 10" using m by presburger
    hence "0 < rounds_left (spin_at s (cnt s))" using c(2) [of "cnt s"] cl [of "cnt s"] r(3) by linarith
    thus "spin_at s (cnt s) \<noteq> Ended" by (cases "spin_at s (cnt s)") auto
  qed
  moreover have "j = k" if "j < 3" "k < 3" "spin_at s j = Won p" "spin_at s k = Won q" for j k p q
    using c(1) [OF that(1)] c(1) [OF that(2)] that by simp
  ultimately show ?thesis using r(2) m unfolding m_def [symmetric] by auto
qed

lemma print_abc_spinning_witness: "length (letters spin_start) \<le> 30"
  using print_abc_spinning [OF rtranclp.rtrancl_refl] by blast

section \<open>print\_1.cpp\<close>

text \<open>The two threads have the numbers 10 and 100, the shared flag changes between 1 and 10 and starts as 1.\<close>

record flag_state =
  shared_flag :: nat
  lines :: "nat list"

definition flag_start :: flag_state where
  "flag_start = \<lparr>shared_flag = 1, lines = []\<rparr>"

inductive flag_step :: "flag_state \<Rightarrow> flag_state \<Rightarrow> bool" where
  yield: "num \<in> {10, 100} \<Longrightarrow> num \<noteq> shared_flag s \<Longrightarrow> flag_step s s"
| turn: "num \<in> {10, 100} \<Longrightarrow> num = shared_flag s \<Longrightarrow>
    flag_step s \<lparr>shared_flag = (if shared_flag s = 1 then 10 else 1), lines = lines s @ replicate num num\<rparr>"

text \<open>
  The fourth program never prints: the flag is 1 and no thread waits for 1, so both spin for ever.\<close>
theorem print_1_livelock:
  assumes "flag_step\<^sup>*\<^sup>* flag_start s"
  shows "s = flag_start"
  using assms
proof (induction rule: rtranclp_induct)
  case (step s t)
  from step.hyps(2) show ?case by (cases rule: flag_step.cases) (use step.IH in \<open>auto simp: flag_start_def\<close>)
qed simp

lemma print_1_livelock_witness: "flag_step flag_start flag_start \<and> flag_start = flag_start"
  using print_1_livelock [OF r_into_rtranclp] flag_step.yield [of 10 flag_start] by (simp add: flag_start_def)

end
