(* ===== verification/ThreeSum.thy ===== *)
theory ThreeSum
  imports Cpp_Prelude
begin

text \<open>
  All triples of numbers with sum zero, \<^verbatim>\<open>cpp/algorithm/three_sum.cpp\<close>: the array is sorted, the first
  number is fixed and two indices move towards each other. Both loops that skip equal numbers compare with the
  element behind the current one without looking at the end of the array.
\<close>

section \<open>The code\<close>

function skip_equal :: "int list \<Rightarrow> nat \<Rightarrow> nat ub" where
  "skip_equal nums j =
     (if j + 1 < length nums
      then if nums ! (j + 1) = nums ! j then skip_equal nums (j + 1) else Some j
      else None)"
  by auto
termination by (relation "measure (\<lambda>(nums, j). length nums - j)") auto

declare skip_equal.simps [simp del]

text \<open>The sum of three elements, whose two additions can overflow.\<close>

definition sum3 :: "int list \<Rightarrow> nat \<Rightarrow> nat \<Rightarrow> nat \<Rightarrow> int ub" where
  "sum3 nums i j k = do { a \<leftarrow> vget nums i; b \<leftarrow> vget nums j; ab \<leftarrow> as_int (a + b); c \<leftarrow> vget nums k; as_int (ab + c) }"

partial_function (option) pairs_loop :: "int list \<Rightarrow> nat \<Rightarrow> nat \<Rightarrow> nat \<Rightarrow> (int \<times> int \<times> int) list \<Rightarrow> (int \<times> int \<times> int) list ub" where
  "pairs_loop nums i j k res =
     (if j < k
      then do { s \<leftarrow> sum3 nums i j k;
                if s > 0 then pairs_loop nums i j (k - 1) res
                else if s < 0 then pairs_loop nums i (j + 1) k res
                else do { j' \<leftarrow> skip_equal nums j;
                          pairs_loop nums i (j' + 1) k (res @ [(nums ! i, nums ! j, nums ! k)]) } }
      else Some res)"

partial_function (option) first_loop :: "int list \<Rightarrow> nat \<Rightarrow> (int \<times> int \<times> int) list \<Rightarrow> (int \<times> int \<times> int) list ub" where
  "first_loop nums i res =
     (if i + 2 < length nums
      then do { res \<leftarrow> pairs_loop nums i (i + 1) (length nums - 1) res;
                i \<leftarrow> skip_equal nums i;
                first_loop nums (i + 1) res }
      else Some res)"

definition threeSum :: "int list \<Rightarrow> (int \<times> int \<times> int) list ub" where
  "threeSum nums = first_loop (sort nums) 0 []"

section \<open>Correctness\<close>

text \<open>Sorted numbers whose greatest occurs once, small enough for the sum of three.\<close>

definition suitable :: "int list \<Rightarrow> bool" where
  "suitable xs \<longleftrightarrow> sorted xs \<and> (\<forall>x \<in> set xs. 3 * \<bar>x\<bar> \<le> INT_MAX) \<and> (2 \<le> length xs \<longrightarrow> xs ! (length xs - 2) < xs ! (length xs - 1))"

lemma suitable_le: "suitable xs \<Longrightarrow> i \<le> j \<Longrightarrow> j < length xs \<Longrightarrow> xs ! i \<le> xs ! j"
  by (auto simp: suitable_def intro: sorted_nth_mono)

lemma skip_equal_ok:
  "suitable xs \<Longrightarrow> j + 1 < length xs \<Longrightarrow> \<exists>j'. skip_equal xs j = Some j' \<and> j \<le> j' \<and> j' + 1 < length xs \<and> xs ! j' = xs ! j \<and> xs ! j < xs ! (j' + 1)"
proof (induction xs j rule: skip_equal.induct)
  case (1 xs j)
  show ?case
  proof (cases "xs ! (j + 1) = xs ! j")
    case True
    have "j + 2 < length xs"
    proof (rule ccontr)
      assume "\<not> j + 2 < length xs"
      hence "j + 1 = length xs - 1" "j = length xs - 2" using "1.prems"(2) by auto
      thus False using True "1.prems" by (auto simp: suitable_def)
    qed
    hence "\<exists>j'. skip_equal xs (j + 1) = Some j' \<and> j + 1 \<le> j' \<and> j' + 1 < length xs \<and> xs ! j' = xs ! (j + 1) \<and> xs ! (j + 1) < xs ! (j' + 1)"
      using "1.IH" [OF "1.prems"(2) True] "1.prems"(1) by simp
    moreover have "skip_equal xs j = skip_equal xs (j + 1)" using True "1.prems"(2) by (subst skip_equal.simps) simp
    ultimately show ?thesis using True by auto
  next
    case False
    have "skip_equal xs j = Some j" using False "1.prems"(2) by (subst skip_equal.simps) simp
    moreover have "xs ! j < xs ! (j + 1)" using False suitable_le [OF "1.prems"(1), of j "j + 1"] "1.prems"(2) by simp
    ultimately show ?thesis using "1.prems"(2) by blast
  qed
qed

lemma sum3_ok: "suitable xs \<Longrightarrow> i < length xs \<Longrightarrow> j < length xs \<Longrightarrow> k < length xs \<Longrightarrow> sum3 xs i j k = Some (xs ! i + xs ! j + xs ! k)"
proof -
  assume a: "suitable xs" "i < length xs" "j < length xs" "k < length xs"
  have b: "3 * \<bar>xs ! m\<bar> \<le> INT_MAX" if "m < length xs" for m using a(1) that by (auto simp: suitable_def)
  have "in_int (xs ! i + xs ! j)" "in_int (xs ! i + xs ! j + xs ! k)" using b [OF a(2)] b [OF a(3)] b [OF a(4)] by (auto simp: in_int_def)
  thus ?thesis using a by (simp add: sum3_def vec_simps)
qed

definition pairs :: "int list \<Rightarrow> nat \<Rightarrow> nat \<Rightarrow> nat \<Rightarrow> (int \<times> int \<times> int) set" where
  "pairs xs i j k = {(xs ! i, xs ! p, xs ! q) | p q. j \<le> p \<and> p < q \<and> q \<le> k \<and> xs ! i + xs ! p + xs ! q = 0}"

lemma pairs_less_k: "suitable xs \<Longrightarrow> k < length xs \<Longrightarrow> 0 < xs ! i + xs ! j + xs ! k \<Longrightarrow> j < k \<Longrightarrow> pairs xs i j k = pairs xs i j (k - 1)"
proof -
  assume a: "suitable xs" "k < length xs" "0 < xs ! i + xs ! j + xs ! k" "j < k"
  have "q \<noteq> k" if "j \<le> p" "p < q" "q \<le> k" "xs ! i + xs ! p + xs ! q = 0" for p q
    using that a suitable_le [OF a(1), of j p] by auto
  thus ?thesis using a(4) unfolding pairs_def by (intro Collect_cong) (metis Suc_pred' le_less less_Suc_eq_le not_less_zero gr0I)
qed

lemma pairs_less_j: "suitable xs \<Longrightarrow> k < length xs \<Longrightarrow> xs ! i + xs ! j + xs ! k < 0 \<Longrightarrow> pairs xs i j k = pairs xs i (j + 1) k"
proof -
  assume a: "suitable xs" "k < length xs" "xs ! i + xs ! j + xs ! k < 0"
  have "p \<noteq> j" if "j \<le> p" "p < q" "q \<le> k" "xs ! i + xs ! p + xs ! q = 0" for p q
    using that a suitable_le [OF a(1), of q k] by auto
  thus ?thesis unfolding pairs_def by (intro Collect_cong) (metis Suc_eq_plus1 Suc_leI le_neq_implies_less Suc_leD)
qed

lemma pairs_hit:
  assumes "suitable xs" "k < length xs" "xs ! i + xs ! j + xs ! k = 0" "j < k" "j \<le> j'" "j' < length xs" "xs ! j' = xs ! j"
  shows "pairs xs i j k = insert (xs ! i, xs ! j, xs ! k) (pairs xs i (j' + 1) k)"
proof -
  have "xs ! p = xs ! j \<and> xs ! q = xs ! k \<or> j' < p" if "j \<le> p" "p < q" "q \<le> k" "xs ! i + xs ! p + xs ! q = 0" for p q
  proof (cases "p \<le> j'")
    case True
    have "xs ! p = xs ! j" using suitable_le [OF assms(1) that(1)] suitable_le [OF assms(1) True assms(6)] assms(7) True assms(6) by simp
    thus ?thesis using that(4) assms(3) by simp
  qed simp
  hence "pairs xs i j k \<subseteq> insert (xs ! i, xs ! j, xs ! k) (pairs xs i (j' + 1) k)" unfolding pairs_def by fastforce
  moreover have "insert (xs ! i, xs ! j, xs ! k) (pairs xs i (j' + 1) k) \<subseteq> pairs xs i j k" using assms unfolding pairs_def by force
  ultimately show ?thesis by blast
qed

lemma pairs_loop_ok:
  "suitable xs \<Longrightarrow> i < length xs \<Longrightarrow> k < length xs \<Longrightarrow>
   \<exists>ys. pairs_loop xs i j k res = Some (res @ ys) \<and> set ys = pairs xs i j k \<and> distinct ys \<and> (\<forall>t \<in> set ys. xs ! j \<le> fst (snd t))"
proof (induction "k - j" arbitrary: j k res rule: less_induct)
  case less
  show ?case
  proof (cases "j < k")
    case False
    hence "pairs xs i j k = {}" by (auto simp: pairs_def)
    thus ?thesis using False by (subst pairs_loop.simps) simp
  next
    case True
    have s: "sum3 xs i j k = Some (xs ! i + xs ! j + xs ! k)" using sum3_ok [OF less.prems(1,2)] True less.prems(3) by simp
    consider "0 < xs ! i + xs ! j + xs ! k" | "xs ! i + xs ! j + xs ! k < 0" | "xs ! i + xs ! j + xs ! k = 0" by linarith
    thus ?thesis
    proof cases
      case 1
      have "pairs_loop xs i j k res = pairs_loop xs i j (k - 1) res" using True s 1 by (subst pairs_loop.simps) simp
      thus ?thesis using less.hyps [of "k - 1" j res] pairs_less_k [OF less.prems(1,3) 1 True] less.prems True by simp
    next
      case 2
      have "pairs_loop xs i j k res = pairs_loop xs i (j + 1) k res" using True s 2 by (subst pairs_loop.simps) simp
      moreover have "xs ! j \<le> xs ! (j + 1)" using suitable_le [OF less.prems(1)] True less.prems(3) by simp
      ultimately show ?thesis using less.hyps [of k "j + 1" res] pairs_less_j [OF less.prems(1,3) 2] less.prems True by fastforce
    next
      case 3
      obtain j' where j': "skip_equal xs j = Some j'" "j \<le> j'" "j' + 1 < length xs" "xs ! j' = xs ! j" "xs ! j < xs ! (j' + 1)"
        using skip_equal_ok [OF less.prems(1), of j] True less.prems(3) by auto
      let ?t = "(xs ! i, xs ! j, xs ! k)"
      have step: "pairs_loop xs i j k res = pairs_loop xs i (j' + 1) k (res @ [?t])" using True s 3 j'(1) by (subst pairs_loop.simps) simp
      have "k - (j' + 1) < k - j" using True j'(2) by linarith
      from less.hyps [OF this less.prems] obtain ys where ys: "pairs_loop xs i (j' + 1) k (res @ [?t]) = Some ((res @ [?t]) @ ys)" "set ys = pairs xs i (j' + 1) k" "distinct ys"
          "\<forall>t \<in> set ys. xs ! (j' + 1) \<le> fst (snd t)"
        by blast
      have "?t \<notin> set ys" using ys(4) j'(5) by force
      moreover have "set (?t # ys) = pairs xs i j k" using pairs_hit [OF less.prems(1,3) 3 True j'(2)] j'(3,4) ys(2) by simp
      moreover have "\<forall>t \<in> set (?t # ys). xs ! j \<le> fst (snd t)" using ys(4) j'(5) by force
      moreover have "pairs_loop xs i j k res = Some (res @ (?t # ys))" "distinct (?t # ys)" using step ys(1,3) calculation(1) by simp_all
      ultimately show ?thesis by blast
    qed
  qed
qed

text \<open>The triples whose first index is at least \<open>i\<close>.\<close>

definition triples :: "int list \<Rightarrow> nat \<Rightarrow> (int \<times> int \<times> int) set" where
  "triples xs i = {(xs ! p, xs ! q, xs ! r) | p q r. i \<le> p \<and> p < q \<and> q < r \<and> r < length xs \<and> xs ! p + xs ! q + xs ! r = 0}"

lemma triples_step:
  assumes "suitable xs" "i \<le> i'" "i' < length xs" "xs ! i' = xs ! i"
  shows "triples xs i = pairs xs i (i + 1) (length xs - 1) \<union> triples xs (i' + 1)"
proof -
  have "(xs ! p, xs ! q, xs ! r) \<in> pairs xs i (i + 1) (length xs - 1) \<union> triples xs (i' + 1)"
    if h: "i \<le> p" "p < q" "q < r" "r < length xs" "xs ! p + xs ! q + xs ! r = 0" for p q r
  proof (cases "p \<le> i'")
    case True
    have "xs ! p = xs ! i" using suitable_le [OF assms(1) h(1)] suitable_le [OF assms(1) True assms(3)] assms(3,4) True by simp
    thus ?thesis using h unfolding pairs_def by force
  next
    case False
    thus ?thesis using h unfolding triples_def by force
  qed
  hence "triples xs i \<subseteq> pairs xs i (i + 1) (length xs - 1) \<union> triples xs (i' + 1)" unfolding triples_def by blast
  moreover have "pairs xs i (i + 1) (length xs - 1) \<union> triples xs (i' + 1) \<subseteq> triples xs i"
    using assms(2,3) unfolding pairs_def triples_def by force
  ultimately show ?thesis by blast
qed

lemma first_loop_ok:
  "suitable xs \<Longrightarrow> \<exists>ys. first_loop xs i res = Some (res @ ys) \<and> set ys = triples xs i \<and> distinct ys \<and> (i < length xs \<longrightarrow> (\<forall>t \<in> set ys. xs ! i \<le> fst t))"
proof (induction "length xs - i" arbitrary: i res rule: less_induct)
  case less
  show ?case
  proof (cases "i + 2 < length xs")
    case False
    hence "triples xs i = {}" by (auto simp: triples_def)
    thus ?thesis using False by (subst first_loop.simps) simp
  next
    case True
    have len: "i < length xs" "length xs - 1 < length xs" using True by auto
    obtain ps where ps: "pairs_loop xs i (i + 1) (length xs - 1) res = Some (res @ ps)" "set ps = pairs xs i (i + 1) (length xs - 1)" "distinct ps"
      using pairs_loop_ok [OF less.prems len] by blast
    obtain i' where i': "skip_equal xs i = Some i'" "i \<le> i'" "i' + 1 < length xs" "xs ! i' = xs ! i" "xs ! i < xs ! (i' + 1)"
      using skip_equal_ok [OF less.prems, of i] True by auto
    have "length xs - (i' + 1) < length xs - i" using i'(2,3) by linarith
    from less.hyps [OF this less.prems] obtain ys where ys: "first_loop xs (i' + 1) (res @ ps) = Some ((res @ ps) @ ys)" "set ys = triples xs (i' + 1)" "distinct ys" "\<forall>t \<in> set ys. xs ! (i' + 1) \<le> fst t"
      using i'(3) by blast
    have "first_loop xs i res = Some (res @ (ps @ ys))" using True ps(1) i'(1) ys(1) by (subst first_loop.simps) simp
    moreover have "set (ps @ ys) = triples xs i" using triples_step [OF less.prems i'(2) _ i'(4)] i'(3) ps(2) ys(2) by simp
    moreover have "\<forall>t \<in> set ps. fst t = xs ! i" using ps(2) by (auto simp: pairs_def)
    moreover have "distinct (ps @ ys)" using ps(3) ys(3,4) calculation(3) i'(5) by force
    moreover have "\<forall>t \<in> set (ps @ ys). xs ! i \<le> fst t" using calculation(3) ys(4) i'(5) by force
    ultimately show ?thesis by blast
  qed
qed

text \<open>
  All triples with sum zero: when the greatest number occurs once (and no sum of three overflows),
  \<^verbatim>\<open>threeSum\<close> ends, reads nothing out of range and returns every triple of numbers at three places of the sorted array
  with sum zero exactly once.\<close>
theorem threeSum_all_triples:
  assumes "suitable (sort nums)"
  shows "\<exists>ys. threeSum nums = Some ys \<and> distinct ys \<and>
    set ys = {(sort nums ! p, sort nums ! q, sort nums ! r) | p q r. p < q \<and> q < r \<and> r < length nums \<and> sort nums ! p + sort nums ! q + sort nums ! r = 0}"
  using first_loop_ok [OF assms, of 0 "[]"] by (auto simp: threeSum_def triples_def)

lemma threeSum_all_triples_witness: "\<exists>ys. threeSum [-1, 0, 1, 2, -1, -4] = Some ys \<and> distinct ys"
  using threeSum_all_triples [of "[-1, 0, 1, 2, -1, -4]"] by (auto simp: suitable_def)

text \<open>Three zeros make the code read past the end.\<close>

lemma threeSum_zeros: "threeSum [0, 0, 0] = None"
  by (simp add: threeSum_def) (subst first_loop.simps, simp, subst pairs_loop.simps, simp add: sum3_def vec_simps in_int_def, subst skip_equal.simps, simp, subst skip_equal.simps, simp)

end
