(* ===== verification/Knapsack.thy ===== *)
theory Knapsack
  imports Cpp_Prelude "HOL-Library.Sublist"
begin

text \<open>
  The knapsack program \<^verbatim>\<open>cpp/dynamic_programming/dp_bag1.cpp\<close>. Its arrays of weights and values are
  a list of items, its capacity a parameter; \<open>bag_main\<close> runs the program with its numbers. The program
  fills the table twice, so its total may use every item twice.
\<close>

section \<open>The code\<close>

type_synonym item = "nat \<times> int"

text \<open>One item in the first loop: \<open>j\<close> runs down from the capacity, the row of \<^verbatim>\<open>path\<close> records the updates.\<close>

function bag_loop :: "nat \<Rightarrow> int \<Rightarrow> int \<Rightarrow> int list \<Rightarrow> bool list \<Rightarrow> (int list \<times> bool list) ub" where
  "bag_loop w v j dp row =
     (if j \<ge> int w
      then do { a \<leftarrow> iget dp j;
                b \<leftarrow> iget dp (j - int w);
                c \<leftarrow> as_int (b + v);
                if a < c then do { dp' \<leftarrow> iset dp j c; row' \<leftarrow> iset row j True; bag_loop w v (j - 1) dp' row' }
                else bag_loop w v (j - 1) dp row }
      else Some (dp, row))"
  by auto
termination by (relation "measure (\<lambda>(w, v, j, _). nat (j - int w + 1))") auto

text \<open>One item in the second loop.\<close>

function max_loop :: "nat \<Rightarrow> int \<Rightarrow> int \<Rightarrow> int list \<Rightarrow> int list ub" where
  "max_loop w v j dp =
     (if j \<ge> int w
      then do { a \<leftarrow> iget dp j;
                b \<leftarrow> iget dp (j - int w);
                c \<leftarrow> as_int (b + v);
                dp' \<leftarrow> iset dp j (max a c);
                max_loop w v (j - 1) dp' }
      else Some dp)"
  by auto
termination by (relation "measure (\<lambda>(w, v, j, _). nat (j - int w + 1))") auto

declare bag_loop.simps [simp del] max_loop.simps [simp del]

fun bag_items :: "item list \<Rightarrow> nat \<Rightarrow> int list \<Rightarrow> (int list \<times> bool list list) ub" where
  "bag_items [] n dp = Some (dp, [])"
| "bag_items ((w, v) # items) n dp =
     do { (dp', row) \<leftarrow> bag_loop w v (int n) dp (replicate (n + 1) False);
          (dp'', rows) \<leftarrow> bag_items items n dp';
          Some (dp'', row # rows) }"

fun max_items :: "item list \<Rightarrow> nat \<Rightarrow> int list \<Rightarrow> int list ub" where
  "max_items [] n dp = Some dp"
| "max_items ((w, v) # items) n dp = do { dp' \<leftarrow> max_loop w v (int n) dp; max_items items n dp' }"

text \<open>Reading the chosen items back, from the last to the first; row and weight 0 of the arrays are not used.\<close>

fun chosen :: "nat \<Rightarrow> int \<Rightarrow> item list \<Rightarrow> bool list list \<Rightarrow> nat list ub" where
  "chosen 0 j items path = Some []"
| "chosen (Suc i) j items path =
     (if j > 0
      then do { row \<leftarrow> vget path i;
                p \<leftarrow> iget row j;
                x \<leftarrow> vget items i;
                if p then do { ns \<leftarrow> chosen i (j - int (fst x)) items path; Some (Suc i # ns) }
                else chosen i j items path }
      else Some [])"

text \<open>The program prints the numbers of the chosen items and the total value.\<close>

definition bag :: "item list \<Rightarrow> nat \<Rightarrow> (nat list \<times> int) ub" where
  "bag items n =
     do { (dp, path) \<leftarrow> bag_items items n (replicate (n + 1) 0);
          dp2 \<leftarrow> max_items items n dp;
          ns \<leftarrow> chosen (length items) (int n) items path;
          total \<leftarrow> iget dp2 (int n);
          Some (ns, total) }"

definition bag_main :: "(nat list \<times> int) ub" where
  "bag_main = bag [(5, 1), (4, 2), (3, 3), (2, 4), (1, 5)] 10"

section \<open>The best choice\<close>

definition weight :: "item list \<Rightarrow> nat" where
  "weight ys = sum_list (map fst ys)"

definition worth :: "item list \<Rightarrow> int" where
  "worth ys = sum_list (map snd ys)"

definition is_best :: "item list \<Rightarrow> nat \<Rightarrow> int \<Rightarrow> bool" where
  "is_best items n b \<longleftrightarrow> (\<exists>ys. subseq ys items \<and> weight ys \<le> n \<and> worth ys = b) \<and> (\<forall>ys. subseq ys items \<longrightarrow> weight ys \<le> n \<longrightarrow> worth ys \<le> b)"

text \<open>The value of the best choice by recursion over the items; the last one considered comes first.\<close>

fun opt :: "item list \<Rightarrow> nat \<Rightarrow> int" where
  "opt [] k = 0"
| "opt ((w, v) # xs) k = (if w \<le> k then max (opt xs k) (opt xs (k - w) + v) else opt xs k)"

definition items_ok :: "item list \<Rightarrow> bool" where
  "items_ok items \<longleftrightarrow> (\<forall>x \<in> set items. 0 < fst x \<and> 0 \<le> snd x)"

lemma sums_Cons [simp]: "weight (x # ys) = fst x + weight ys" "worth (x # ys) = snd x + worth ys" "weight [] = 0" "worth [] = 0"
  by (simp_all add: weight_def worth_def)

lemma opt_best: "is_best xs k (opt xs k)"
proof (induction xs arbitrary: k)
  case Nil
  show ?case by (auto simp: is_best_def dest: list_emb_Nil2)
next
  case (Cons x xs)
  obtain w v where x: "x = (w, v)" by (cases x)
  have ub: "subseq ys xs \<Longrightarrow> weight ys \<le> n \<Longrightarrow> worth ys \<le> opt xs n" and ex: "\<exists>ys. subseq ys xs \<and> weight ys \<le> n \<and> worth ys = opt xs n" for ys n
    using Cons.IH [of n] by (auto simp: is_best_def)
  have "worth ys \<le> opt (x # xs) k" if ys: "subseq ys (x # xs)" "weight ys \<le> k" for ys
  proof (cases "\<exists>zs. ys = x # zs \<and> subseq zs xs")
    case True
    then obtain zs where z: "ys = x # zs" "subseq zs xs" by blast
    hence "w \<le> k" "weight zs \<le> k - w" using ys(2) x by auto
    thus ?thesis using ub [OF z(2)] z(1) x by fastforce
  next
    case False
    hence "subseq ys xs" using ys(1) by (cases ys) (auto split: if_splits elim: list_emb.cases)
    thus ?thesis using ub [OF _ ys(2)] x by auto
  qed
  moreover have "\<exists>ys. subseq ys (x # xs) \<and> weight ys \<le> k \<and> worth ys = opt (x # xs) k"
  proof (cases "w \<le> k \<and> opt xs k < opt xs (k - w) + v")
    case True
    obtain ys where "subseq ys xs" "weight ys \<le> k - w" "worth ys = opt xs (k - w)" using ex by blast
    thus ?thesis using True x by (intro exI [of _ "x # ys"]) auto
  next
    case False
    obtain ys where "subseq ys xs" "weight ys \<le> k" "worth ys = opt xs k" using ex by blast
    thus ?thesis using False x by (intro exI [of _ ys]) (auto simp: max_def)
  qed
  ultimately show ?case by (simp add: is_best_def)
qed

lemma opt_bounds: "\<forall>x \<in> set xs. 0 \<le> snd x \<Longrightarrow> 0 \<le> opt xs k \<and> opt xs k \<le> worth xs"
proof (induction xs k rule: opt.induct)
  case (2 w v xs k)
  thus ?case by fastforce
qed simp

lemma best_unique: "is_best xs k a \<Longrightarrow> is_best xs k b \<Longrightarrow> a = b"
  unfolding is_best_def by (metis order_antisym)

lemma rev_subseq: "subseq ys xs \<Longrightarrow> subseq (rev ys) (rev xs)"
  by (induction rule: list_emb.induct) (auto intro: subseq_rev_drop_many list_emb_append_mono)

lemma is_best_rev: "is_best (rev xs) k b = is_best xs k b"
proof -
  have "is_best (rev xs) k b" if "is_best xs k b" for xs
  proof -
    have r: "subseq ys xs \<Longrightarrow> subseq (rev ys) (rev xs)" "weight (rev ys) = weight ys" "worth (rev ys) = worth ys" for ys xs
      by (simp_all add: weight_def worth_def rev_map [symmetric] sum_list_rev rev_subseq)
    have "worth ys \<le> b" if "subseq ys (rev xs)" "weight ys \<le> k" for ys
      using \<open>is_best xs k b\<close> r(1) [OF that(1)] that(2) r(2,3) [of ys] unfolding is_best_def by (metis rev_rev_ident)
    moreover have "\<exists>ys. subseq ys (rev xs) \<and> weight ys \<le> k \<and> worth ys = b"
      using \<open>is_best xs k b\<close> r unfolding is_best_def by metis
    ultimately show ?thesis by (simp add: is_best_def)
  qed
  from this [of xs] this [of "rev xs"] show ?thesis by auto
qed

section \<open>The loops\<close>

text \<open>One item changes the table from the top down to its weight.\<close>

definition with_item :: "nat \<Rightarrow> int \<Rightarrow> int list \<Rightarrow> nat \<Rightarrow> int" where
  "with_item w v dp k = (if w \<le> k then max (dp ! k) (dp ! (k - w) + v) else dp ! k)"

lemma with_item_below: "k < j \<Longrightarrow> with_item w v (dp[j := c]) k = with_item w v dp k"
  by (simp add: with_item_def)

lemma max_loop_ok:
  "j < int (length dp) \<Longrightarrow> \<forall>k. int k \<le> j \<longrightarrow> in_int (dp ! k + v) \<Longrightarrow>
   \<exists>dp'. max_loop w v j dp = Some dp' \<and> length dp' = length dp \<and> (\<forall>k < length dp. dp' ! k = (if int k \<le> j then with_item w v dp k else dp ! k))"
proof (induction w v j dp rule: max_loop.induct)
  case (1 w v j dp)
  show ?case
  proof (cases "j \<ge> int w")
    case False
    thus ?thesis by (subst max_loop.simps) (auto simp: with_item_def)
  next
    case True
    define n where "n = nat j"
    have j: "j = int n" "w \<le> n" "n < length dp" using True "1.prems"(1) by (auto simp: n_def)
    let ?c = "dp ! (n - w) + v"
    have e: "iget dp j = Some (dp ! n)" "iget dp (j - int w) = Some (dp ! (n - w))" "as_int ?c = Some ?c" "iset dp j (max (dp ! n) ?c) = Some (dp[n := max (dp ! n) ?c])"
      using j "1.prems"(2) by (auto simp: iget_def iset_def nat_diff_distrib)
    have step: "max_loop w v j dp = max_loop w v (j - 1) (dp[n := max (dp ! n) ?c])" using True e by (subst max_loop.simps) simp
    have p: "j - 1 < int (length (dp[n := max (dp ! n) ?c]))" "\<forall>k. int k \<le> j - 1 \<longrightarrow> in_int (dp[n := max (dp ! n) ?c] ! k + v)"
      using j "1.prems"(2) by auto
    obtain dp' where d: "max_loop w v (j - 1) (dp[n := max (dp ! n) ?c]) = Some dp'" "length dp' = length dp"
        "\<forall>k < length dp. dp' ! k = (if int k \<le> j - 1 then with_item w v (dp[n := max (dp ! n) ?c]) k else dp[n := max (dp ! n) ?c] ! k)"
      using "1.IH" [OF True e(1-4) p] by auto
    have "dp' ! k = (if int k \<le> j then with_item w v dp k else dp ! k)" if "k < length dp" for k
      using d(3) that j with_item_below [of k n] by (cases "k = n") (auto simp: with_item_def)
    thus ?thesis using step d(1,2) by auto
  qed
qed

lemma bag_loop_ok:
  "j < int (length dp) \<Longrightarrow> length row = length dp \<Longrightarrow> \<forall>k. int k \<le> j \<longrightarrow> in_int (dp ! k + v) \<Longrightarrow>
   \<exists>dp' row'. bag_loop w v j dp row = Some (dp', row') \<and> length dp' = length dp \<and> length row' = length dp \<and>
     (\<forall>k < length dp. dp' ! k = (if int k \<le> j then with_item w v dp k else dp ! k) \<and>
        row' ! k = (row ! k \<or> (int k \<le> j \<and> w \<le> k \<and> dp ! k < dp ! (k - w) + v)))"
proof (induction w v j dp row rule: bag_loop.induct)
  case (1 w v j dp row)
  show ?case
  proof (cases "j \<ge> int w")
    case False
    thus ?thesis by (subst bag_loop.simps) (auto simp: with_item_def "1.prems")
  next
    case True
    define n where "n = nat j"
    have j: "j = int n" "w \<le> n" "n < length dp" using True "1.prems"(1) by (auto simp: n_def)
    let ?c = "dp ! (n - w) + v"
    have e: "iget dp j = Some (dp ! n)" "iget dp (j - int w) = Some (dp ! (n - w))" "as_int ?c = Some ?c"
        "iset dp j ?c = Some (dp[n := ?c])" "iset row j True = Some (row[n := True])"
      using j "1.prems"(2,3) by (auto simp: iget_def iset_def nat_diff_distrib)
    show ?thesis
    proof (cases "dp ! n < ?c")
      case less: True
      have step: "bag_loop w v j dp row = bag_loop w v (j - 1) (dp[n := ?c]) (row[n := True])" using True e less by (subst bag_loop.simps) simp
      have p: "j - 1 < int (length (dp[n := ?c]))" "length (row[n := True]) = length (dp[n := ?c])" "\<forall>k. int k \<le> j - 1 \<longrightarrow> in_int (dp[n := ?c] ! k + v)"
        using j "1.prems" by auto
      obtain dp' row' where d: "bag_loop w v (j - 1) (dp[n := ?c]) (row[n := True]) = Some (dp', row')" "length dp' = length dp" "length row' = length dp"
          "\<forall>k < length dp. dp' ! k = (if int k \<le> j - 1 then with_item w v (dp[n := ?c]) k else dp[n := ?c] ! k) \<and>
             row' ! k = (row[n := True] ! k \<or> (int k \<le> j - 1 \<and> w \<le> k \<and> dp[n := ?c] ! k < dp[n := ?c] ! (k - w) + v))"
        using "1.IH"(1) [OF True e(1-3) less e(4,5) p] by auto
      have "dp' ! k = (if int k \<le> j then with_item w v dp k else dp ! k) \<and> row' ! k = (row ! k \<or> (int k \<le> j \<and> w \<le> k \<and> dp ! k < dp ! (k - w) + v))"
        if "k < length dp" for k
        using d(4) that j less "1.prems"(2) with_item_below [of k n] by (cases "k = n") (auto simp: with_item_def)
      thus ?thesis using step d(1-3) by auto
    next
      case False
      have step: "bag_loop w v j dp row = bag_loop w v (j - 1) dp row" using True e False by (subst bag_loop.simps) simp
      have p: "j - 1 < int (length dp)" "\<forall>k. int k \<le> j - 1 \<longrightarrow> in_int (dp ! k + v)" using "1.prems" by auto
      obtain dp' row' where d: "bag_loop w v (j - 1) dp row = Some (dp', row')" "length dp' = length dp" "length row' = length dp"
          "\<forall>k < length dp. dp' ! k = (if int k \<le> j - 1 then with_item w v dp k else dp ! k) \<and> row' ! k = (row ! k \<or> (int k \<le> j - 1 \<and> w \<le> k \<and> dp ! k < dp ! (k - w) + v))"
        using "1.IH"(2) [OF True e(1-3) False p(1) "1.prems"(2) p(2)] by auto
      have "dp' ! k = (if int k \<le> j then with_item w v dp k else dp ! k) \<and> row' ! k = (row ! k \<or> (int k \<le> j \<and> w \<le> k \<and> dp ! k < dp ! (k - w) + v))"
        if "k < length dp" for k
        using d(4) that j False by (cases "k = n") (auto simp: with_item_def max_def)
      thus ?thesis using step d(1-3) by auto
    qed
  qed
qed


section \<open>The tables\<close>

definition table_of :: "item list \<Rightarrow> nat \<Rightarrow> int list \<Rightarrow> bool" where
  "table_of pre n dp \<longleftrightarrow> length dp = n + 1 \<and> (\<forall>k \<le> n. dp ! k = opt (rev pre) k)"

lemma table_snoc: "table_of pre n dp \<Longrightarrow> length dp' = n + 1 \<Longrightarrow> \<forall>k \<le> n. dp' ! k = with_item w v dp k \<Longrightarrow> table_of (pre @ [(w, v)]) n dp'"
  by (auto simp: table_of_def with_item_def)

lemma table_in_int:
  assumes "table_of pre n dp" "items_ok pre" "0 \<le> v" "worth pre + v \<le> INT_MAX" "k \<le> n"
  shows "in_int (dp ! k + v)"
proof -
  have "0 \<le> opt (rev pre) k \<and> opt (rev pre) k \<le> worth (rev pre)" using assms(2) by (intro opt_bounds) (auto simp: items_ok_def)
  moreover have "worth (rev pre) = worth pre" by (simp add: worth_def rev_map [symmetric] sum_list_rev)
  ultimately show ?thesis using assms by (simp add: table_of_def in_int_def)
qed

lemma items_ok_append [simp]: "items_ok (xs @ ys) \<longleftrightarrow> items_ok xs \<and> items_ok ys"
  by (auto simp: items_ok_def)

lemma worth_append [simp]: "worth (xs @ ys) = worth xs + worth ys"
  by (simp add: worth_def)

lemma worth_nonneg: "items_ok xs \<Longrightarrow> 0 \<le> worth xs"
  by (auto simp: items_ok_def worth_def intro!: sum_list_nonneg)

text \<open>What a row of \<^verbatim>\<open>path\<close> says about an item that follows the items \<open>pre\<close>.\<close>

definition row_of :: "item list \<Rightarrow> item \<Rightarrow> nat \<Rightarrow> bool list \<Rightarrow> bool" where
  "row_of pre x n row \<longleftrightarrow> length row = n + 1 \<and> (\<forall>k \<le> n. row ! k = (fst x \<le> k \<and> opt (rev pre) k < opt (rev pre) (k - fst x) + snd x))"

lemma bag_items_ok:
  "table_of pre n dp \<Longrightarrow> items_ok (pre @ items) \<Longrightarrow> worth (pre @ items) \<le> INT_MAX \<Longrightarrow>
   \<exists>dp' rows. bag_items items n dp = Some (dp', rows) \<and> table_of (pre @ items) n dp' \<and> length rows = length items \<and>
     (\<forall>i < length items. row_of (pre @ take i items) (items ! i) n (rows ! i))"
proof (induction items n dp arbitrary: pre rule: bag_items.induct)
  case (2 w v items n dp)
  have pre: "items_ok pre" "0 \<le> v" "worth pre + v \<le> INT_MAX"
    using "2.prems"(2,3) worth_nonneg [of items] by (auto simp: items_ok_def)
  have len: "length dp = n + 1" using "2.prems"(1) by (simp add: table_of_def)
  have "\<forall>k. int k \<le> int n \<longrightarrow> in_int (dp ! k + v)" using table_in_int [OF "2.prems"(1) pre] by simp
  define zs where "zs = replicate (n + 1) False"
  have zs: "length zs = n + 1" "\<forall>k < n + 1. \<not> zs ! k" unfolding zs_def by (simp_all del: replicate_Suc)
  from bag_loop_ok [OF _ _ \<open>\<forall>k. int k \<le> int n \<longrightarrow> in_int (dp ! k + v)\<close>, of zs w] len zs
  obtain dp' row where l: "bag_loop w v (int n) dp zs = Some (dp', row)" "length dp' = n + 1" "length row = n + 1"
      "\<forall>k < n + 1. dp' ! k = with_item w v dp k \<and> row ! k = (w \<le> k \<and> dp ! k < dp ! (k - w) + v)" by auto
  have t: "table_of (pre @ [(w, v)]) n dp'" using l(2,4) "2.prems"(1) by (intro table_snoc [of pre n dp]) auto
  have r: "row_of pre (w, v) n row" using l(3,4) "2.prems"(1) by (auto simp: row_of_def table_of_def)
  obtain dp'' rows where i: "bag_items items n dp' = Some (dp'', rows)" "table_of (pre @ (w, v) # items) n dp''" "length rows = length items"
      "\<forall>i < length items. row_of (pre @ (w, v) # take i items) (items ! i) n (rows ! i)"
    using "2.IH" [OF l(1) [unfolded zs_def] refl t] "2.prems"(2,3) by auto
  have "row_of (pre @ take i ((w, v) # items)) (((w, v) # items) ! i) n ((row # rows) ! i)" if "i < length ((w, v) # items)" for i
    using that i(4) r by (cases i) auto
  thus ?case using l(1) [unfolded zs_def] i by auto
qed auto

lemma max_items_ok:
  "table_of pre n dp \<Longrightarrow> items_ok (pre @ items) \<Longrightarrow> worth (pre @ items) \<le> INT_MAX \<Longrightarrow>
   \<exists>dp'. max_items items n dp = Some dp' \<and> table_of (pre @ items) n dp'"
proof (induction items n dp arbitrary: pre rule: max_items.induct)
  case (2 w v items n dp)
  have pre: "items_ok pre" "0 \<le> v" "worth pre + v \<le> INT_MAX"
    using "2.prems"(2,3) worth_nonneg [of items] by (auto simp: items_ok_def)
  have len: "length dp = n + 1" using "2.prems"(1) by (simp add: table_of_def)
  have "\<forall>k. int k \<le> int n \<longrightarrow> in_int (dp ! k + v)" using table_in_int [OF "2.prems"(1) pre] by simp
  from max_loop_ok [OF _ this, of w] len
  obtain dp' where l: "max_loop w v (int n) dp = Some dp'" "length dp' = n + 1" "\<forall>k < n + 1. dp' ! k = (if int k \<le> int n then with_item w v dp k else dp ! k)" by auto
  have "table_of (pre @ [(w, v)]) n dp'" using l(2,3) "2.prems"(1) by (intro table_snoc [of pre n dp]) auto
  from "2.IH" [OF l(1) this] "2.prems"(2,3) show ?case using l(1) by auto
qed auto

lemma opt_zero: "items_ok xs \<Longrightarrow> opt xs 0 = 0"
  by (induction xs) (auto simp: items_ok_def)

text \<open>Reading back finds a choice of the value in the table.\<close>

definition picked :: "item list \<Rightarrow> nat list \<Rightarrow> item list" where
  "picked items ns = map (\<lambda>i. items ! (i - 1)) ns"

lemma chosen_ok:
  assumes "items_ok items" "length path = length items" "\<forall>i < length items. row_of (take i items) (items ! i) n (path ! i)"
  shows "i \<le> length items \<Longrightarrow> k \<le> n \<Longrightarrow> \<exists>ns. chosen i (int k) items path = Some ns \<and> sorted_wrt (<) (rev ns) \<and> set ns \<subseteq> {1..i} \<and>
    weight (picked items ns) \<le> k \<and> worth (picked items ns) = opt (rev (take i items)) k"
proof (induction i arbitrary: k)
  case 0
  show ?case by (simp add: picked_def)
next
  case (Suc i)
  have tk: "rev (take (Suc i) items) = items ! i # rev (take i items)" using Suc.prems(1) by (simp add: take_Suc_conv_app_nth)
  obtain w v where x: "items ! i = (w, v)" by (cases "items ! i")
  show ?case
  proof (cases "k = 0")
    case True
    have "items_ok (rev (take (Suc i) items))" using assms(1) by (auto simp: items_ok_def dest: in_set_takeD)
    thus ?thesis using True opt_zero by (simp add: picked_def)
  next
    case False
    have r: "length (path ! i) = n + 1" "path ! i ! k = (w \<le> k \<and> opt (rev (take i items)) k < opt (rev (take i items)) (k - w) + v)"
      using assms(3) Suc.prems x by (auto simp: row_of_def)
    have g: "vget path i = Some (path ! i)" "iget (path ! i) (int k) = Some (path ! i ! k)" "vget items i = Some (w, v)"
      using Suc.prems assms(2) r(1) x by (auto simp: vget_def iget_def)
    show ?thesis
    proof (cases "path ! i ! k")
      case True
      hence le: "w \<le> k" using r(2) by simp
      have "i \<le> length items" "k - w \<le> n" using Suc.prems by auto
      from Suc.IH [OF this] obtain ns where ns: "chosen i (int (k - w)) items path = Some ns" "sorted_wrt (<) (rev ns)" "set ns \<subseteq> {1..i}" "weight (picked items ns) \<le> k - w"
          "worth (picked items ns) = opt (rev (take i items)) (k - w)" by blast
      have "chosen (Suc i) (int k) items path = Some (Suc i # ns)" using False g True ns(1) le by (simp add: of_nat_diff)
      moreover have "sorted_wrt (<) (rev (Suc i # ns))" using ns(2,3) by (auto simp: sorted_wrt_append)
      moreover have "set (Suc i # ns) \<subseteq> {1..Suc i}" using ns(3) by auto
      moreover have "weight (picked items (Suc i # ns)) \<le> k" using ns(4) le x by (simp add: picked_def)
      moreover have "worth (picked items (Suc i # ns)) = opt (rev (take (Suc i) items)) k" using ns(5) True r(2) tk x by (simp add: picked_def)
      ultimately show ?thesis by blast
    next
      case noitem: False
      have "i \<le> length items" "k \<le> n" using Suc.prems by auto
      from Suc.IH [OF this] obtain ns where ns: "chosen i (int k) items path = Some ns" "sorted_wrt (<) (rev ns)" "set ns \<subseteq> {1..i}" "weight (picked items ns) \<le> k"
          "worth (picked items ns) = opt (rev (take i items)) k" by blast
      have "chosen (Suc i) (int k) items path = Some ns" using False g noitem ns(1) by simp
      moreover have "opt (rev (take (Suc i) items)) k = opt (rev (take i items)) k" using noitem r(2) tk x by (auto simp: max_def)
      ultimately show ?thesis using ns(2-5) by fastforce
    qed
  qed
qed

text \<open>
  C35. The knapsack: for items of positive weight and values that are not negative, the program prints
  numbers of different items that fit and have together the greatest value any choice of items can have; the total it prints
  is the greatest value when every item may be used twice, because the table is filled a second time.\<close>
theorem bag_best:
  assumes "items_ok items" "2 * worth items \<le> INT_MAX"
  shows "\<exists>ns total. bag items n = Some (ns, total) \<and> sorted_wrt (<) (rev ns) \<and> set ns \<subseteq> {1..length items} \<and>
    weight (picked items ns) \<le> n \<and> is_best items n (worth (picked items ns)) \<and> is_best (items @ items) n total"
proof -
  have w: "worth items \<le> INT_MAX" using assms worth_nonneg [OF assms(1)] by simp
  have "table_of [] n (replicate (n + 1) 0)" unfolding table_of_def by (simp del: replicate_Suc)
  from bag_items_ok [OF this, of items] assms(1) w obtain dp path where d: "bag_items items n (replicate (n + 1) 0) = Some (dp, path)"
      "table_of items n dp" "length path = length items" "\<forall>i < length items. row_of (take i items) (items ! i) n (path ! i)" by auto
  obtain dp2 where d2: "max_items items n dp = Some dp2" "table_of (items @ items) n dp2" using max_items_ok [OF d(2), of items] assms by auto
  obtain ns where ns: "chosen (length items) (int n) items path = Some ns" "sorted_wrt (<) (rev ns)" "set ns \<subseteq> {1..length items}"
      "weight (picked items ns) \<le> n" "worth (picked items ns) = opt (rev items) n"
    using chosen_ok [OF assms(1) d(3,4), of "length items" n] by auto
  have "iget dp2 (int n) = Some (opt (rev (items @ items)) n)" using d2(2) by (auto simp: table_of_def iget_def)
  hence "bag items n = Some (ns, opt (rev (items @ items)) n)" using d(1) d2(1) ns(1) by (simp add: bag_def)
  moreover have "is_best items n (opt (rev items) n)" "is_best (items @ items) n (opt (rev (items @ items)) n)"
    using opt_best is_best_rev by blast+
  ultimately show ?thesis using ns by fastforce
qed

lemma bag_best_witness: "\<exists>ns total. bag [(5, 1), (4, 2), (3, 3), (2, 4), (1, 5)] 10 = Some (ns, total) \<and> weight (picked [(5, 1), (4, 2), (3, 3), (2, 4), (1, 5)] ns) \<le> 10"
  using bag_best [of "[(5, 1), (4, 2), (3, 3), (2, 4), (1, 5)]" 10] by (auto simp: items_ok_def worth_def)


text \<open>The program prints the items of the best choice, of value 14, and then the total 21.\<close>

lemma bag_main_run: "bag_main = Some ([5, 4, 3, 2], 21) \<and> worth (picked [(5, 1), (4, 2), (3, 3), (2, 4), (1, 5)] [5, 4, 3, 2]) = 14"
  by code_simp

end
