(* ===== verification/TreeMains.thy ===== *)
theory TreeMains
  imports RbTree AvlTree BinSearchTree
begin

text \<open>
  The main functions of the three search trees: \<^verbatim>\<open>cpp/tree/rbTree.cpp\<close>,
  \<^verbatim>\<open>cpp/tree/avl2.cpp\<close> and \<^verbatim>\<open>cpp/tree/bst.cpp\<close>. What a
  main function prints is a list of output items, one per value or listing, without the fixed
  texts around them. The red-black main is a function of its array and of its two switches;
  the other two mains are evaluated as they are written.
\<close>

section \<open>The red-black tree\<close>

datatype rb_out =
  Row_data "int list"
| Added int "print_line list"
| Pre_order "int list"
| In_order "int list"
| After_order "int list"
| Min_key int
| Max_key int
| Info "print_line list"
| Deleted int "print_line list"

text \<open>Both loops over the array: an operation per element, with the tree printed behind it when the switch is on.\<close>

fun row_loop ::
    "(int \<Rightarrow> rbt \<Rightarrow> rbt ub) \<Rightarrow> (int \<Rightarrow> print_line list \<Rightarrow> rb_out) \<Rightarrow> bool \<Rightarrow> int list \<Rightarrow> rbt \<Rightarrow> (rb_out list \<times> rbt) ub" where
  "row_loop oper line check [] tree = Some ([], tree)"
| "row_loop oper line check (k # ks) tree =
     do { tree' \<leftarrow> oper k tree;
          (out, last_tree) \<leftarrow> row_loop oper line check ks tree';
          Some ((if check then [line k (print_root tree')] else []) @ out, last_tree) }"

text \<open>The result is the output with the nodes that are still allocated at the end.\<close>

definition rb_main :: "bool \<Rightarrow> bool \<Rightarrow> int list \<Rightarrow> (rb_out list \<times> rbt) ub" where
  "rb_main check_insert check_remove a =
     do { (added, tree) \<leftarrow> row_loop rb_insert Added check_insert a rb_new;
          (deleted, tree') \<leftarrow> (if check_remove then row_loop rb_remove Deleted True a tree else Some ([], tree));
          Some ([Row_data a] @ added @
                [Pre_order (preOrder tree), In_order (inOrder tree), After_order (postOrder tree),
                 Min_key (minimum_key tree), Max_key (maximum_key tree), Info (print_root tree)] @ deleted,
                destroy tree') }"

lemma insert_row_ok:
  "rb_wf t \<Longrightarrow> \<exists>out t'. row_loop rb_insert line check a t = Some (out, t') \<and> rb_wf t' \<and>
     inOrder t' = foldl (\<lambda>ks k. insort k ks) (inOrder t) a \<and>
     out = (if check then out else [])"
proof (induction a arbitrary: t)
  case (Cons k a)
  from rb.insert_ok [OF Cons.prems, of k] obtain u
    where "rb_insert k t = Some u" "rb_wf u" "inOrder u = insort k (inOrder t)" by blast
  with Cons.IH [of u] show ?case by auto
qed simp

lemma remove_row_ok:
  "rb_wf t \<Longrightarrow> \<exists>out t'. row_loop rb_remove line check a t = Some (out, t') \<and> rb_wf t' \<and>
     inOrder t' = foldl (\<lambda>ks k. remove1 k ks) (inOrder t) a"
proof (induction a arbitrary: t)
  case (Cons k a)
  from rb.remove_ok [OF Cons.prems, of k] obtain u
    where "rb_remove k t = Some u" "rb_wf u" "inOrder u = remove1 k (inOrder t)" by blast
  with Cons.IH [of u] show ?case by auto
qed simp

lemma foldl_insort: "mset (foldl (\<lambda>ks k. insort k ks) ks a) = mset ks + mset a \<and>
    (sorted ks \<longrightarrow> sorted (foldl (\<lambda>ks k. insort k ks) ks a))"
  by (induction a arbitrary: ks) (auto simp: sorted_insort)

lemma foldl_insort_sort: "foldl (\<lambda>ks k. insort k ks) [] a = sort a"
  using foldl_insort [of "[]" a] properties_for_sort [of "foldl (\<lambda>ks k. insort k ks) [] a" a] by simp

lemma foldl_remove1: "mset (foldl (\<lambda>ks k. remove1 k ks) ks a) = mset ks - mset a"
  by (induction a arbitrary: ks) simp_all

lemma preOrder_mset: "mset (preOrder t) = mset (inOrder t)" and postOrder_mset: "mset (postOrder t) = mset (inOrder t)"
  by (induction t rule: inOrder.induct) auto

lemma destroy_size: "size (destroy t) = size t - 1"
proof (induction t rule: destroy.induct)
  case (2 l a r)
  then show ?case by (cases l; cases r) auto
qed simp

lemma size_inOrder: "length (inOrder t) = size t"
  by (simp add: inOrder_keys)

lemma hd_sorted: "sorted xs \<Longrightarrow> xs \<noteq> [] \<Longrightarrow> hd xs = Min (set xs)" for xs :: "int list"
  by (rule Min_eqI [symmetric]) (cases xs; auto)+

lemma inOrder_Leaf: "inOrder t = [] \<longleftrightarrow> t = Leaf"
  using size_inOrder [of t] by auto

lemma minimum_key_sort: "inOrder t = sort a \<Longrightarrow> minimum_key t = (if a = [] then 0 else Min (set a))"
  using minimum_key_hd [of t] hd_sorted [of "sort a"] inOrder_Leaf [of t]
  by (cases "a = []") (simp_all add: inOrder_keys minimum_key_def flip: set_empty [of "sort a"])

lemma maximum_key_sort: "inOrder t = sort a \<Longrightarrow> maximum_key t = (if a = [] then 0 else Max (set a))"
  using maximum_key_last [of t] sorted_last_Max [of "sort a"] inOrder_Leaf [of t]
  by (cases "a = []") (simp_all add: inOrder_keys maximum_key_def flip: set_empty [of "sort a"])

text \<open>
  The main function of the red-black tree, for every array and both switches, runs to its end
  without a null dereference. It prints the elements in order, the pre- and post-order lines
  hold the same elements, and the minimum and maximum are those of the array. When it ends all
  nodes but one are still allocated; with the removals switched on none is left.
\<close>

theorem rb_main_output:
  "\<exists>added pre post info deleted rest.
     rb_main check_insert check_remove a =
       Some ([Row_data a] @ added @
             [Pre_order pre, In_order (sort a), After_order post,
              Min_key (if a = [] then 0 else Min (set a)), Max_key (if a = [] then 0 else Max (set a)), Info info] @ deleted,
             rest) \<and>
     mset pre = mset a \<and> mset post = mset a \<and>
     size rest = (if check_remove then 0 else length a - 1) \<and>
     (check_insert \<or> added = []) \<and> (check_remove \<or> deleted = [])"
proof -
  obtain added t where ins: "row_loop rb_insert Added check_insert a rb_new = Some (added, t)" "rb_wf t"
      "inOrder t = sort a" "added = (if check_insert then added else [])"
    using insert_row_ok [of rb_new Added check_insert a] foldl_insort_sort [of a]
    by (auto simp: rb_new_def rb_wf_def rb_inv_def)
  obtain deleted u where rem: "row_loop rb_remove Deleted True a t = Some (deleted, u)"
      "inOrder u = foldl (\<lambda>ks k. remove1 k ks) (inOrder t) a"
    using remove_row_ok [OF ins(2), of Deleted True a] by auto
  have "mset (inOrder u) = {#}"
    by (simp only: rem(2) foldl_remove1 ins(3) mset_sort diff_self_eq_0 cancel_comm_monoid_add_class.diff_cancel)
  then have "size u = 0" using size_inOrder [of u] by simp
  moreover have "size t = length a" using size_inOrder [of t] ins(3) by simp
  moreover have "minimum_key t = (if a = [] then 0 else Min (set a))" "maximum_key t = (if a = [] then 0 else Max (set a))"
    using minimum_key_sort [OF ins(3)] maximum_key_sort [OF ins(3)] by simp_all
  moreover have "check_insert \<or> added = []" using ins(4) by (metis (full_types))
  ultimately show ?thesis
    using ins(1,3) rem(1) preOrder_mset [of t] postOrder_mset [of t] destroy_size [of t] destroy_size [of u]
    by (intro exI [where x = added] exI [where x = "preOrder t"] exI [where x = "postOrder t"]
          exI [where x = "print_root t"] exI [where x = "if check_remove then deleted else []"]
          exI [where x = "destroy (if check_remove then u else t)"])
       (simp add: rb_main_def)
qed


text \<open>The array of the program.\<close>

lemma rb_main_run:
  "map_option fst (rb_main False False [1, 4, 3, 6, 9, 7, 2, 5, 8]) =
     Some [Row_data [1, 4, 3, 6, 9, 7, 2, 5, 8],
           Pre_order [3, 1, 2, 6, 4, 5, 8, 7, 9], In_order [1, 2, 3, 4, 5, 6, 7, 8, 9],
           After_order [2, 1, 5, 4, 7, 9, 8, 6, 3], Min_key 1, Max_key 9,
           Info [Root_line 3, Child_line 1 BLACK 3 False, Child_line 2 RED 1 True,
             Child_line 6 RED 3 True, Child_line 4 BLACK 6 False, Child_line 5 RED 4 True,
             Child_line 8 BLACK 6 True, Child_line 7 RED 8 False, Child_line 9 RED 8 True]]"
  by code_simp

section \<open>The AVL tree\<close>

text \<open>The key of the node that a search returns, or \<^verbatim>\<open>-1\<close> for null.\<close>

definition key_or :: "avl \<Rightarrow> int" where
  "key_or p = (case p of Leaf \<Rightarrow> -1 | Node l (k, h) r \<Rightarrow> k)"

fun avl_insert_all :: "int list \<Rightarrow> avl \<Rightarrow> avl ub" where
  "avl_insert_all [] t = Some t"
| "avl_insert_all (i # rest) t = do { t' \<leftarrow> avl_insert i t; avl_insert_all rest t' }"

definition avl_main :: "(int list \<times> avl) ub" where
  "avl_main =
     do { avl \<leftarrow> avl_insert_all [3, 2, 1, 4, 4, 5, 6, 7, 10, 9, 7, 8] Leaf;
          p \<leftarrow> find_real 2 avl;
          q \<leftarrow> find_real 100 avl;
          let found = [key_or p, key_or q, key_or (loop_find 14 avl), key_or (loop_find 5 avl)];
          avl1 \<leftarrow> avl_erase 100 avl;
          avl2 \<leftarrow> avl_erase 9 avl1;
          avl3 \<leftarrow> avl_erase 8 avl2;
          Some (found, avl3) }"

definition avl_main_tree :: avl where
  "avl_main_tree =
     Node (Node (Node Leaf (1, 1) Leaf) (2, 2) (Node Leaf (3, 1) Leaf)) (4, 4)
       (Node (Node (Node Leaf (5, 1) Leaf) (6, 2) Leaf) (7, 3)
         (Node (Node Leaf (8, 1) Leaf) (9, 2) (Node Leaf (10, 1) Leaf)))"

text \<open>
  The main function of the AVL tree is undefined: its first search, for the key 2, does not
  stop at the root of the tree the insertions have built. The loop search of the program
  answers -1 for 14 and 5 for 5 on the same tree, and the three removals succeed on it.
\<close>

theorem avl_main_undefined:
  "avl_main = None \<and>
   avl_insert_all [3, 2, 1, 4, 4, 5, 6, 7, 10, 9, 7, 8] Leaf = Some avl_main_tree \<and>
   find_real 2 avl_main_tree = None \<and>
   [key_or (loop_find 14 avl_main_tree), key_or (loop_find 5 avl_main_tree)] = [-1, 5] \<and>
   map_option avl_keys (avl_erase 100 avl_main_tree \<bind> avl_erase 9 \<bind> avl_erase 8) = Some [1, 2, 3, 4, 5, 6, 7, 10]"
  by (intro conjI; code_simp)

section \<open>The binary search tree\<close>

datatype bst_out =
  Traversal "int list"
| Node_count int
| Leaf_count int
| Smallest "int option"
| Greatest "int option"
| Looking_for int
| Not_in_tree int
| Predecessor_of int "int option"
| Successor_of int "int option"
| Removing int
| Removed bool

text \<open>The data of a node that may be null.\<close>

definition data_of :: "int tree \<Rightarrow> int option" where
  "data_of p = (case p of Leaf \<Rightarrow> None | Node l d r \<Rightarrow> Some d)"

text \<open>The search for a number with both its neighbours, which the main function does twice.\<close>

definition look_up :: "int \<Rightarrow> bst_state \<Rightarrow> bst_out list" where
  "look_up data b =
     Looking_for data #
     (if bst_search data b
      then [Predecessor_of data (bst_predecessor data b), Successor_of data (data_of (bst_successor data b))]
      else [Not_in_tree data])"

definition list_tree :: "bst_state \<Rightarrow> bst_out list" where
  "list_tree b = [Traversal (bst_traverse b), Node_count (bst_size b), Leaf_count (bst_leaf b)]"

definition bst_main :: "int list \<Rightarrow> int \<Rightarrow> int \<Rightarrow> int \<Rightarrow> (bst_out list \<times> bst_state) ub" where
  "bst_main arr first removed second =
     do { let b = bst_new arr;
          (ok, b') \<leftarrow> bst_deleteNode removed b;
          Some (list_tree b @ [Smallest (data_of (bst_minimum b)), Greatest (data_of (bst_maximum b))] @
                look_up first b @ [Removing removed, Removed ok] @
                (if ok then list_tree b' @ look_up second b' else []), b') }"

text \<open>The numbers of the program. The tree is a chain, as its array is in order.\<close>

lemma bst_main_run:
  "map_option fst (bst_main [1, 2, 3, 4, 5, 6, 7, 8, 9] 2 6 5) =
     Some [Traversal [1, 2, 3, 4, 5, 6, 7, 8, 9], Node_count 9, Leaf_count 1, Smallest (Some 1), Greatest (Some 9),
           Looking_for 2, Predecessor_of 2 (Some 1), Successor_of 2 (Some 3), Removing 6, Removed True,
           Traversal [1, 2, 3, 4, 5, 7, 8, 9], Node_count 8, Leaf_count 1,
           Looking_for 5, Predecessor_of 5 (Some 4), Successor_of 5 (Some 7)]"
  by code_simp

end
