(* ===== verification/TreePrograms.thy ===== *)
theory TreePrograms
  imports BinSearchTree
begin

text \<open>
  Small programs on binary trees: the lowest common ancestor, the tree of sums in both versions
  (recursive and with two stacks), the check for balance, the recognition of the post-order of a
  search tree, and the pre- and in-order walks with a stack. A walk's stack holds
  non-null nodes; a node is its left tree, its value and its right tree.
\<close>

section \<open>Lowest common ancestor\<close>

text \<open>
  \<^verbatim>\<open>lowestCommonAncestor\<close> compares pointers and never reads a value, so a
  node is its address here, and a pointer is an address or null.
\<close>

type_synonym addr = nat

fun lowestCommonAncestor :: "addr tree \<Rightarrow> addr option \<Rightarrow> addr option \<Rightarrow> addr option" where
  "lowestCommonAncestor Leaf p q = None"
| "lowestCommonAncestor (Node l a r) p q =
     (if Some a = p \<or> Some a = q then Some a
      else let left = lowestCommonAncestor l p q; right = lowestCommonAncestor r p q
           in if left = None \<and> right = None then None
              else if left \<noteq> None \<and> right \<noteq> None then Some a
              else if left \<noteq> None then left
              else right)"

section \<open>The tree of sums\<close>

text \<open>\<^verbatim>\<open>helper(root, sum)\<close>: the changed tree and the new \<^verbatim>\<open>sum\<close>.\<close>

fun sum_helper :: "int tree \<Rightarrow> int \<Rightarrow> (int tree \<times> int) ub" where
  "sum_helper Leaf s = Some (Leaf, s)"
| "sum_helper (Node l a r) s =
     do { (r', sum1) \<leftarrow> sum_helper r s;
          v \<leftarrow> as_int (a + sum1);
          (l', sum2) \<leftarrow> sum_helper l v;
          Some (Node l' v r', sum2) }"

definition convertBST :: "int tree \<Rightarrow> int tree ub" where
  "convertBST root = map_option fst (sum_helper root 0)"

text \<open>
  The second version. Its loop declares a new \<^verbatim>\<open>cur\<close> in the branch that pops, so the
  pointer of the loop stays null there: the walk pushes the nodes on the way to the left, pops them
  all and never enters a right tree. \<^verbatim>\<open>data\<close> (its top first) is then the way to
  the left, from the root. The second loop adds to each the value of the one above it.
\<close>

function collect_loop :: "int tree \<Rightarrow> int tree list \<Rightarrow> int tree list \<Rightarrow> int tree list" where
  "collect_loop cur s data =
     (if cur \<noteq> Leaf then collect_loop (left cur) (cur # s) data
      else case s of [] \<Rightarrow> data | p # s' \<Rightarrow> collect_loop Leaf s' (p # data))"
  by pat_completeness auto
termination
  by (relation "measure (\<lambda>(cur, s, data). 2 * size cur + length s)") (auto simp: neq_Leaf_iff)

declare collect_loop.simps [simp del]

text \<open>The nodes that are changed are the top nodes of the left trees, so the loop over them is one down the tree.\<close>

fun add_down :: "int \<Rightarrow> int tree list \<Rightarrow> int list ub" where
  "add_down pre [] = Some []"
| "add_down pre (t # data) = do { v \<leftarrow> as_int (value t + pre); vs \<leftarrow> add_down v data; Some (v # vs) }"

text \<open>The tree with new values on the way to the left.\<close>

fun write_spine :: "int list \<Rightarrow> int tree \<Rightarrow> int tree" where
  "write_spine (v # vs) (Node l a r) = Node (write_spine vs l) v r"
| "write_spine _ t = t"

definition convertBST2 :: "int tree \<Rightarrow> int tree ub" where
  "convertBST2 root =
     (if root = Leaf then Some Leaf
      else case collect_loop root [] [] of
        [] \<Rightarrow> None
      | pre # data \<Rightarrow> do { vs \<leftarrow> add_down (value pre) data; Some (write_spine (value pre # vs) root) })"

section \<open>Balance\<close>

fun getHeight :: "int tree \<Rightarrow> int" where
  "getHeight Leaf = 0"
| "getHeight (Node l a r) = max (getHeight l) (getHeight r) + 1"

fun isBalanced :: "int tree \<Rightarrow> bool" where
  "isBalanced Leaf = True"
| "isBalanced (Node l a r) =
     (\<bar>getHeight l - getHeight r\<bar> \<le> 1 \<and> isBalanced l \<and> isBalanced r)"

section \<open>Post-order of a search tree\<close>

text \<open>The first loop of \<^verbatim>\<open>verify\<close>, and the second, with \<^verbatim>\<open>cur++\<close> before each test.\<close>

function skip_smaller :: "int list \<Rightarrow> int \<Rightarrow> int \<Rightarrow> int ub" where
  "skip_smaller data val cur =
     (if 0 \<le> cur \<and> cur < int (length data)
      then if data ! nat cur < val then skip_smaller data val (cur + 1) else Some cur
      else None)"
  by pat_completeness auto
termination
  by (relation "measure (\<lambda>(data, val, cur). nat (int (length data) - cur))") auto

function none_smaller :: "int list \<Rightarrow> int \<Rightarrow> int \<Rightarrow> int \<Rightarrow> bool ub" where
  "none_smaller data val cur hi =
     (if cur < hi
      then do { x \<leftarrow> iget data (cur + 1);
                if x < val then Some False else none_smaller data val (cur + 1) hi }
      else Some True)"
  by pat_completeness auto
termination
  by (relation "measure (\<lambda>(data, val, cur, hi). nat (hi - cur))") auto

declare skip_smaller.simps [simp del] none_smaller.simps [simp del]

partial_function (option) verify :: "int list \<Rightarrow> int \<Rightarrow> int \<Rightarrow> bool ub" where
  "verify data lo hi =
     (if lo \<ge> hi then Some True
      else do { val \<leftarrow> iget data hi;
                mid \<leftarrow> skip_smaller data val lo;
                ok \<leftarrow> none_smaller data val mid hi;
                if \<not> ok then Some False
                else do { b \<leftarrow> verify data lo (mid - 1);
                          if \<not> b then Some False else verify data mid (hi - 1) } })"

definition verifyPostorder :: "int list \<Rightarrow> bool ub" where
  "verifyPostorder data =
     (if data = [] then Some True else verify data 0 (int (length data) - 1))"

section \<open>Walks with a stack\<close>

function inorder_walk :: "int tree \<Rightarrow> bst_node list \<Rightarrow> int list \<Rightarrow> int list" where
  "inorder_walk (Node l a r) s res = inorder_walk l ((l, a, r) # s) res"
| "inorder_walk Leaf ((l, a, r) # s) res = inorder_walk r s (res @ [a])"
| "inorder_walk Leaf [] res = res"
  by pat_completeness auto
termination
  by (relation "measure (\<lambda>(cur, s, res). walk_measure cur s)") auto

definition inorderTraversal :: "int tree \<Rightarrow> int list" where
  "inorderTraversal root = (if root = Leaf then [] else inorder_walk root [] [])"

text \<open>The version with an inner loop, \<^verbatim>\<open>while(cur) st.push(cur), cur = cur->left\<close>.\<close>

fun push_left :: "int tree \<Rightarrow> bst_node list \<Rightarrow> bst_node list" where
  "push_left Leaf st = st"
| "push_left (Node l a r) st = push_left l ((l, a, r) # st)"

partial_function (option) inorder_walk2 :: "int tree \<Rightarrow> bst_node list \<Rightarrow> int list \<Rightarrow> int list option" where
  "inorder_walk2 cur st res =
     (if st \<noteq> [] \<or> cur \<noteq> Leaf
      then case push_left cur st of
        [] \<Rightarrow> None
      | (l, a, r) # st' \<Rightarrow> inorder_walk2 r st' (res @ [a])
      else Some res)"

definition inorderTraversal2 :: "int tree \<Rightarrow> int list \<Rightarrow> int list option" where
  "inorderTraversal2 root res = (if root = Leaf then Some res else inorder_walk2 root [] res)"

text \<open>The pre-order walk: the right child is pushed first. The members \<^verbatim>\<open>res\<close> are arguments.\<close>

fun push_node :: "int tree \<Rightarrow> bst_node list \<Rightarrow> bst_node list" where
  "push_node Leaf st = st"
| "push_node (Node l a r) st = (l, a, r) # st"

function preorder_walk :: "bst_node list \<Rightarrow> int list \<Rightarrow> int list" where
  "preorder_walk ((l, a, r) # st) res = preorder_walk (push_node l (push_node r st)) (res @ [a])"
| "preorder_walk [] res = res"
  by pat_completeness auto
termination
proof (relation "measure (\<lambda>(st, res). queue_size st)")
  fix l r :: "int tree" and a :: int and st :: "bst_node list" and res :: "int list"
  show "((push_node l (push_node r st), res @ [a]), (l, a, r) # st, res) \<in> measure (\<lambda>(st, res). queue_size st)"
    by (cases l; cases r) auto
qed simp

definition preorderTraversal :: "int tree \<Rightarrow> int list \<Rightarrow> int list" where
  "preorderTraversal root res = (case root of Leaf \<Rightarrow> res | Node l a r \<Rightarrow> preorder_walk [(l, a, r)] res)"

section \<open>Lowest common ancestor: lemmas\<close>

lemma lca_None: "lowestCommonAncestor t p q = None \<longleftrightarrow> (\<forall>a\<in>set_tree t. Some a \<noteq> p \<and> Some a \<noteq> q)"
  by (induction t) (auto simp: Let_def)

lemma lca_lowest:
  assumes "distinct (inorder t)" "p \<in> set_tree t" "q \<in> set_tree t"
  shows "\<exists>l c r. lowestCommonAncestor t (Some p) (Some q) = Some c \<and> Node l c r \<in> subtrees t \<and>
    {p, q} \<subseteq> set_tree (Node l c r) \<and> \<not> {p, q} \<subseteq> set_tree l \<and> \<not> {p, q} \<subseteq> set_tree r"
  using assms
proof (induction t)
  case (Node l a r)
  have dis: "set_tree l \<inter> set_tree r = {}" "a \<notin> set_tree l" "a \<notin> set_tree r" "distinct (inorder l)" "distinct (inorder r)"
    using Node.prems(1) by auto
  show ?case
  proof (cases "a = p \<or> a = q")
    case True
    then show ?thesis using dis Node.prems by (intro exI [of _ l] exI [of _ a] exI [of _ r]) auto
  next
    case False
    then consider "{p, q} \<subseteq> set_tree l" | "{p, q} \<subseteq> set_tree r"
      | "p \<in> set_tree l" "q \<in> set_tree r" | "q \<in> set_tree l" "p \<in> set_tree r"
      using Node.prems by auto
    then show ?thesis
    proof cases
      case 1
      then have "lowestCommonAncestor r (Some p) (Some q) = None" using dis by (auto simp: lca_None)
      then show ?thesis using Node.IH(1) 1 dis False by (fastforce simp: Let_def)
    next
      case 2
      then have "lowestCommonAncestor l (Some p) (Some q) = None" using dis by (auto simp: lca_None)
      then show ?thesis using Node.IH(2) 2 dis False by (fastforce simp: Let_def)
    next
      case 3
      then have "lowestCommonAncestor l (Some p) (Some q) \<noteq> None" "lowestCommonAncestor r (Some p) (Some q) \<noteq> None"
        by (simp only: lca_None; blast)+
      then show ?thesis using 3 dis False
        by (intro exI [of _ l] exI [of _ a] exI [of _ r]) (auto simp: Let_def)
    next
      case 4
      then have "lowestCommonAncestor l (Some p) (Some q) \<noteq> None" "lowestCommonAncestor r (Some p) (Some q) \<noteq> None"
        by (simp only: lca_None; blast)+
      then show ?thesis using 4 dis False
        by (intro exI [of _ l] exI [of _ a] exI [of _ r]) (auto simp: Let_def)
    qed
  qed
qed simp

section \<open>Walks: lemmas\<close>

lemma inorder_walk_ahead: "inorder_walk p s res = res @ ahead p s"
  by (induction p s res rule: inorder_walk.induct) auto

lemma push_left_ahead: "ahead Leaf (push_left cur st) = ahead cur st"
  by (induction cur st rule: push_left.induct) auto

lemma inorder_walk2_ahead: "inorder_walk2 cur st res = Some (res @ ahead cur st)"
proof (induction "length (ahead cur st)" arbitrary: cur st res rule: less_induct)
  case less
  show ?case
  proof (cases "push_left cur st")
    case Nil
    then have "cur = Leaf \<and> st = []"
      by (induction cur st rule: push_left.induct) auto
    then show ?thesis by (simp add: inorder_walk2.simps)
  next
    case (Cons n st')
    obtain l a r where n: "n = (l, a, r)" by (cases n) auto
    have eq: "ahead cur st = a # ahead r st'"
      using push_left_ahead [of cur st] Cons n by simp
    then have "st \<noteq> [] \<or> cur \<noteq> Leaf" by auto
    then show ?thesis using less.hyps [of r st' "res @ [a]"] eq Cons n
      by (subst inorder_walk2.simps) simp
  qed
qed

abbreviation pre_ahead :: "bst_node list \<Rightarrow> int list" where
  "pre_ahead st \<equiv> concat (map (\<lambda>(l, a, r). a # preorder l @ preorder r) st)"

lemma pre_ahead_push: "pre_ahead (push_node t st) = preorder t @ pre_ahead st"
  by (cases t) auto

lemma preorder_walk_ahead: "preorder_walk st res = res @ pre_ahead st"
  by (induction st res rule: preorder_walk.induct) (simp_all add: pre_ahead_push)

section \<open>The tree of sums: lemmas\<close>

text \<open>The sum of the values of a tree that are at least as great as one of them.\<close>

definition sum_from :: "int tree \<Rightarrow> int \<Rightarrow> int" where
  "sum_from t a = \<Sum> {x \<in> set_tree t. a \<le> x}"

lemma sum_from_left:
  assumes "strict_sorted (inorder (Node l a r))" "b \<in> set_tree l"
  shows "sum_from (Node l a r) b = sum_from l b + a + \<Sum> (set_tree r)"
proof -
  have less: "x < a" if "x \<in> set_tree l" for x using assms(1) that by (auto simp: sorted_wrt_append)
  have greater: "a < x" if "x \<in> set_tree r" for x using assms(1) that by (auto simp: sorted_wrt_append)
  have "{x \<in> set_tree (Node l a r). b \<le> x} = {x \<in> set_tree l. b \<le> x} \<union> insert a (set_tree r)"
    using less [OF assms(2)] greater by force
  moreover have "{x \<in> set_tree l. b \<le> x} \<inter> insert a (set_tree r) = {}" "a \<notin> set_tree r"
    using less greater by force+
  ultimately show ?thesis by (simp add: sum_from_def sum.union_disjoint)
qed

lemma sum_from_right:
  assumes "strict_sorted (inorder (Node l a r))"
  shows "sum_from (Node l a r) a = a + \<Sum> (set_tree r)"
    and "b \<in> set_tree r \<Longrightarrow> sum_from (Node l a r) b = sum_from r b"
proof -
  have less: "x < a" if "x \<in> set_tree l" for x using assms that by (auto simp: sorted_wrt_append)
  have greater: "a < x" if "x \<in> set_tree r" for x using assms that by (auto simp: sorted_wrt_append)
  have "{x \<in> set_tree (Node l a r). a \<le> x} = insert a (set_tree r)" "a \<notin> set_tree r"
    using less greater by force+
  then show "sum_from (Node l a r) a = a + \<Sum> (set_tree r)" by (simp add: sum_from_def)
  show "sum_from (Node l a r) b = sum_from r b" if "b \<in> set_tree r"
  proof -
    have "{x \<in> set_tree (Node l a r). b \<le> x} = {x \<in> set_tree r. b \<le> x}"
      using less greater [OF that] by force
    then show ?thesis by (simp add: sum_from_def)
  qed
qed

lemma sum_helper_correct:
  assumes "strict_sorted (inorder t)" "\<forall>a\<in>set_tree t. in_int (s + sum_from t a)"
  shows "sum_helper t s = Some (map_tree (\<lambda>a. s + sum_from t a) t, s + \<Sum> (set_tree t))"
  using assms
proof (induction t arbitrary: s)
  case (Node l a r)
  note sorted = Node.prems(1)
  have parts: "strict_sorted (inorder l)" "strict_sorted (inorder r)"
    using sorted by (auto simp: sorted_wrt_append)
  have r: "sum_helper r s = Some (map_tree (\<lambda>b. s + sum_from r b) r, s + \<Sum> (set_tree r))"
    using Node.IH(2) [OF parts(2), of s] Node.prems(2) sum_from_right(2) [OF sorted] by (simp add: ball_Un)
  define v where "v = a + (s + \<Sum> (set_tree r))"
  have v: "in_int v" "s + sum_from (Node l a r) a = v"
    using Node.prems(2) sum_from_right(1) [OF sorted] by (auto simp: v_def algebra_simps)
  have from_left: "v + sum_from l b = s + sum_from (Node l a r) b" if "b \<in> set_tree l" for b
    using sum_from_left [OF sorted that] by (simp add: v_def)
  have l: "sum_helper l v = Some (map_tree (\<lambda>b. v + sum_from l b) l, v + \<Sum> (set_tree l))"
    using Node.IH(1) [OF parts(1), of v] Node.prems(2) from_left by (simp add: ball_Un)
  have "map_tree (\<lambda>b. v + sum_from l b) l = map_tree (\<lambda>b. s + sum_from (Node l a r) b) l"
    using from_left by (intro tree.map_cong) auto
  moreover have "map_tree (\<lambda>b. s + sum_from r b) r = map_tree (\<lambda>b. s + sum_from (Node l a r) b) r"
    using sum_from_right(2) [OF sorted] by (intro tree.map_cong) auto
  moreover have "\<Sum> (set_tree (Node l a r)) = \<Sum> (set_tree l) + a + \<Sum> (set_tree r)"
  proof -
    have "set_tree l \<inter> set_tree r = {}" "a \<notin> set_tree l" "a \<notin> set_tree r"
      using sorted by (force simp: sorted_wrt_append)+
    then show ?thesis by (simp add: sum.union_disjoint)
  qed
  moreover have "as_int (a + (s + \<Sum> (set_tree r))) = Some v" using v(1) by (simp add: v_def)
  ultimately show ?case using l r v(2) by (simp add: v_def)
qed simp

fun spine :: "int tree \<Rightarrow> int tree list" where
  "spine Leaf = []"
| "spine (Node l a r) = Node l a r # spine l"

lemma collect_loop_Leaf: "collect_loop Leaf s data = rev s @ data"
  by (induction s arbitrary: data) (simp_all add: collect_loop.simps [of Leaf])

lemma collect_loop_spine: "collect_loop t s data = rev s @ spine t @ data"
  by (induction t arbitrary: s data) (simp_all add: collect_loop_Leaf collect_loop.simps [of "Node _ _ _"])

section \<open>Balance: lemmas\<close>

lemma getHeight_height: "getHeight t = int (height t)"
  by (induction t) auto

lemma isBalanced_subtrees:
  "isBalanced t \<longleftrightarrow> (\<forall>l a r. Node l a r \<in> subtrees t \<longrightarrow> \<bar>int (height l) - int (height r)\<bar> \<le> 1)"
  by (induction t) (auto simp: getHeight_height)

lemma squares_sum:
  fixes x y h :: nat
  assumes "2 ^ (h + 1) \<le> x ^ 2" "2 ^ h \<le> y ^ 2"
  shows "2 ^ (h + 2) \<le> (x + y) ^ 2"
proof -
  have "(2 ^ h) ^ 2 \<le> x ^ 2 * y ^ 2"
    using mult_mono [OF assms] by (simp add: power2_eq_square)
  then have "2 ^ h \<le> x * y" by (simp flip: power_mult_distrib)
  with assms show ?thesis by (simp add: power2_eq_square algebra_simps)
qed

lemma isBalanced_size: "isBalanced t \<Longrightarrow> 2 ^ height t \<le> size1 t ^ 2"
proof (induction t)
  case (Node l a r)
  have IH: "2 ^ height l \<le> size1 l ^ 2" "2 ^ height r \<le> size1 r ^ 2" using Node by auto
  have "height l \<le> height r + 1" "height r \<le> height l + 1" using Node.prems by (auto simp: getHeight_height)
  then consider "height l = height r + 1" | "height r = height l + 1" | "height l = height r" by linarith
  then show ?case
  proof cases
    case 1
    then show ?thesis using squares_sum [of "height r" "size1 l" "size1 r"] IH by simp
  next
    case 2
    then show ?thesis using squares_sum [of "height l" "size1 r" "size1 l"] IH by (simp add: add.commute)
  next
    case 3
    have "size1 l ^ 2 + size1 r ^ 2 \<le> (size1 l + size1 r) ^ 2" by (simp add: power2_eq_square algebra_simps)
    then show ?thesis using 3 IH by simp
  qed
qed simp

section \<open>Post-order: lemmas\<close>

text \<open>A search tree whose equal values are to the right.\<close>

fun search_tree_le :: "int tree \<Rightarrow> bool" where
  "search_tree_le Leaf = True"
| "search_tree_le (Node l a r) =
     (search_tree_le l \<and> search_tree_le r \<and> (\<forall>x\<in>set_tree l. x < a) \<and> (\<forall>x\<in>set_tree r. a \<le> x))"

definition is_postorder :: "int list \<Rightarrow> bool" where
  "is_postorder xs \<longleftrightarrow> (\<exists>t. postorder t = xs \<and> search_tree_le t)"

lemma is_postorder_short: "length xs \<le> 1 \<Longrightarrow> is_postorder xs"
  by (cases xs) (auto simp: is_postorder_def intro: exI [of _ Leaf] exI [of _ "Node Leaf _ Leaf"])

lemma is_postorder_split:
  assumes us: "\<forall>x\<in>set us. x < v" and ws: "ws = [] \<or> v \<le> hd ws"
  shows "is_postorder (us @ ws @ [v]) \<longleftrightarrow> (\<forall>x\<in>set ws. v \<le> x) \<and> is_postorder us \<and> is_postorder ws"
proof
  assume "is_postorder (us @ ws @ [v])"
  then obtain t where t: "postorder t = us @ ws @ [v]" "search_tree_le t" by (auto simp: is_postorder_def)
  then obtain l a r where n: "t = Node l a r" by (cases t) auto
  have eq: "postorder l @ postorder r = us @ ws" and a: "a = v" using t(1) n by auto
  have l: "\<forall>x\<in>set (postorder l). x < v" and r: "\<forall>x\<in>set (postorder r). v \<le> x"
    using t(2) n a by auto
  have "takeWhile (\<lambda>x. x < v) (postorder r) = []" using r by (cases "postorder r") auto
  moreover have "takeWhile (\<lambda>x. x < v) ws = []" using ws by (cases ws) auto
  moreover have "takeWhile (\<lambda>x. x < v) (xs @ ys) = xs @ takeWhile (\<lambda>x. x < v) ys" if "\<forall>x\<in>set xs. x < v" for xs ys
    using that by (intro takeWhile_append2) auto
  from this [OF l] this [OF us] have "postorder l @ takeWhile (\<lambda>x. x < v) (postorder r) = us @ takeWhile (\<lambda>x. x < v) ws"
    using arg_cong [OF eq, of "takeWhile (\<lambda>x. x < v)"] by metis
  ultimately have "postorder l = us" by simp
  with eq have "postorder r = ws" by simp
  with \<open>postorder l = us\<close> r t(2) n show "(\<forall>x\<in>set ws. v \<le> x) \<and> is_postorder us \<and> is_postorder ws"
    by (auto simp: is_postorder_def)
next
  assume "(\<forall>x\<in>set ws. v \<le> x) \<and> is_postorder us \<and> is_postorder ws"
  then obtain l r where "postorder l = us" "search_tree_le l" "postorder r = ws" "search_tree_le r"
      "\<forall>x\<in>set ws. v \<le> x" by (auto simp: is_postorder_def)
  then show "is_postorder (us @ ws @ [v])"
    using us by (auto simp: is_postorder_def intro!: exI [of _ "Node l v r"] simp flip: set_postorder)
qed

lemma skip_smaller_stop:
  assumes "0 \<le> cur" "cur \<le> hi" "hi < int (length data)" "data ! nat hi = val"
  shows "\<exists>mid. skip_smaller data val cur = Some mid \<and> cur \<le> mid \<and> mid \<le> hi \<and>
    (\<forall>k. cur \<le> k \<and> k < mid \<longrightarrow> data ! nat k < val) \<and> val \<le> data ! nat mid"
  using assms
proof (induction "nat (hi - cur)" arbitrary: cur rule: less_induct)
  case less
  show ?case
  proof (cases "data ! nat cur < val")
    case True
    then have "cur < hi" using less.prems by (cases "cur = hi") auto
    then obtain mid where "skip_smaller data val (cur + 1) = Some mid" "cur + 1 \<le> mid" "mid \<le> hi"
        "\<forall>k. cur + 1 \<le> k \<and> k < mid \<longrightarrow> data ! nat k < val" "val \<le> data ! nat mid"
      using less.hyps [of "cur + 1"] less.prems by auto
    moreover have "data ! nat k < val" if "cur \<le> k" "k < mid" for k
      using calculation(4) that True by (cases "k = cur") auto
    ultimately show ?thesis using True less.prems by (auto simp: skip_smaller.simps [of data val cur])
  next
    case False
    then show ?thesis using less.prems by (auto simp: skip_smaller.simps [of data val cur])
  qed
qed

lemma none_smaller_all:
  assumes "0 \<le> cur" "hi < int (length data)"
  shows "none_smaller data val cur hi = Some (\<forall>k. cur < k \<and> k \<le> hi \<longrightarrow> val \<le> data ! nat k)"
  using assms
proof (induction data val cur hi rule: none_smaller.induct)
  case (1 data val cur hi)
  show ?case
  proof (cases "cur < hi")
    case True
    have "(\<forall>k. cur < k \<and> k \<le> hi \<longrightarrow> val \<le> data ! nat k) \<longleftrightarrow>
        val \<le> data ! nat (cur + 1) \<and> (\<forall>k. cur + 1 < k \<and> k \<le> hi \<longrightarrow> val \<le> data ! nat k)"
      using True by (metis add1_zle_eq order_le_less)
    then show ?thesis using 1 True by (simp add: none_smaller.simps [of data val cur] vec_simps)
  qed (simp add: none_smaller.simps [of data val cur])
qed

lemma verify_is_postorder:
  assumes "0 \<le> lo" "hi < int (length data)"
  shows "verify data lo hi = Some (is_postorder (slice data lo hi))"
  using assms
proof (induction "nat (hi - lo)" arbitrary: lo hi rule: less_induct)
  case less
  show ?case
  proof (cases "lo < hi")
    case False
    then show ?thesis by (simp add: verify.simps is_postorder_short)
  next
    case True
    let ?v = "data ! nat hi"
    obtain mid where mid: "skip_smaller data ?v lo = Some mid" "lo \<le> mid" "mid \<le> hi"
        "\<forall>k. lo \<le> k \<and> k < mid \<longrightarrow> data ! nat k < ?v" "?v \<le> data ! nat mid"
      using skip_smaller_stop [of lo hi data ?v] True less.prems by auto
    let ?us = "slice data lo (mid - 1)" and ?ws = "slice data mid (hi - 1)"
    have whole: "slice data lo hi = ?us @ ?ws @ [?v]"
      using slice_snoc [of lo hi data] slice_append [of lo "mid - 1" "hi - 1" data] True mid(2,3) by simp
    have us: "\<forall>x\<in>set ?us. x < ?v" using mid(4) by (auto simp: set_slice)
    have "?ws = [] \<or> ?v \<le> hd ?ws" using mid(5) slice_Cons [of mid "hi - 1" data] by (cases "mid \<le> hi - 1") auto
    note split = is_postorder_split [OF us this]
    have ws: "(\<forall>k. mid < k \<and> k \<le> hi \<longrightarrow> ?v \<le> data ! nat k) \<longleftrightarrow> (\<forall>x\<in>set ?ws. ?v \<le> x)"
    proof -
      have "?v \<le> data ! nat k" if "\<forall>x\<in>set ?ws. ?v \<le> x" "mid < k" "k \<le> hi" for k
      proof (cases "k = hi")
        case False
        then have "data ! nat k \<in> set ?ws" using that by (auto simp: set_slice)
        with that(1) show ?thesis by blast
      qed simp
      moreover have "?v \<le> data ! nat k" if "\<forall>k. mid < k \<and> k \<le> hi \<longrightarrow> ?v \<le> data ! nat k" "mid \<le> k" "k \<le> hi - 1" for k
        using that mid(5) by (cases "k = mid") auto
      ultimately show ?thesis by (auto simp: set_slice)
    qed
    have "verify data lo (mid - 1) = Some (is_postorder ?us)" "verify data mid (hi - 1) = Some (is_postorder ?ws)"
      using less.hyps [of "mid - 1" lo] less.hyps [of "hi - 1" mid] True mid(2,3) less.prems by auto
    then show ?thesis
      using True mid(1,2,3) less.prems split ws
      by (subst verify.simps) (auto simp: vec_simps none_smaller_all whole)
  qed
qed

section \<open>Properties\<close>

text \<open>
  In a tree of distinct nodes that holds p and q, \<^verbatim>\<open>lowestCommonAncestor\<close> returns a
  node of the tree that has both below it or is one of them, while neither of its subtrees has both.
\<close>

theorem lowestCommonAncestor_lowest:
  "distinct (inorder t) \<Longrightarrow> p \<in> set_tree t \<Longrightarrow> q \<in> set_tree t \<Longrightarrow>
     \<exists>l c r. lowestCommonAncestor t (Some p) (Some q) = Some c \<and> Node l c r \<in> subtrees t \<and>
       {p, q} \<subseteq> set_tree (Node l c r) \<and> \<not> {p, q} \<subseteq> set_tree l \<and> \<not> {p, q} \<subseteq> set_tree r"
  by (rule lca_lowest)

theorem lowestCommonAncestor_lowest_witness:
  "lowestCommonAncestor (Node (Node (Node Leaf 3 Leaf) 1 (Node Leaf 4 Leaf)) 0 (Node Leaf 2 Leaf)) (Some 3) (Some 4) = Some 1 \<and>
   (\<exists>l c r. lowestCommonAncestor (Node (Node Leaf 1 Leaf) 0 (Node Leaf 2 Leaf)) (Some 1) (Some 2) = Some c \<and>
      Node l c r \<in> subtrees (Node (Node Leaf 1 Leaf) 0 (Node Leaf 2 Leaf)))"
  using lowestCommonAncestor_lowest [of "Node (Node Leaf 1 Leaf) 0 (Node Leaf 2 Leaf)" 1 2]
  by (auto simp: Let_def)

text \<open>
  \<^verbatim>\<open>convertBST\<close> on a search tree of distinct values: every value becomes the sum of
  all values that are at least as great, and the shape stays, if none of these sums overflows.
\<close>

theorem convertBST_sums:
  "strict_sorted (inorder t) \<Longrightarrow> \<forall>a\<in>set_tree t. in_int (sum_from t a) \<Longrightarrow>
     convertBST t = Some (map_tree (sum_from t) t)"
  using sum_helper_correct [of t 0] by (simp add: convertBST_def)

theorem convertBST_sums_witness:
  "convertBST (Node (Node Leaf 1 Leaf) 2 (Node Leaf 3 Leaf)) = Some (Node (Node Leaf 6 Leaf) 5 (Node Leaf 3 Leaf))"
proof -
  let ?t = "Node (Node Leaf 1 Leaf) 2 (Node Leaf (3::int) Leaf)"
  have "{x. (x = 3 \<or> x = 2 \<or> x = 1) \<and> (2::int) \<le> x} = {2, 3}" "{x. (x = 3 \<or> x = 2 \<or> x = 1) \<and> (1::int) \<le> x} = {1, 2, 3}"
    "{x. (x = 3 \<or> x = 2 \<or> x = 1) \<and> (3::int) \<le> x} = {3}" by auto
  then have "sum_from ?t 1 = 6" "sum_from ?t 2 = 5" "sum_from ?t 3 = 3" by (simp_all add: sum_from_def)
  then show ?thesis using convertBST_sums [of ?t] by (simp add: in_int_def)
qed

text \<open>
  \<^verbatim>\<open>convertBST2\<close> does not compute these sums: whatever the tree, the root keeps its
  value and the right tree is left as it is.
\<close>

theorem convertBST2_keeps_right:
  "(case convertBST2 (Node l a r) of None \<Rightarrow> True | Some t' \<Rightarrow> value t' = a \<and> right t' = r) \<and>
   convertBST2 (Node (Node Leaf 1 Leaf) 2 (Node Leaf 3 Leaf)) = Some (Node (Node Leaf 3 Leaf) 2 (Node Leaf 3 Leaf)) \<and>
   convertBST (Node (Node Leaf 1 Leaf) 2 (Node Leaf 3 Leaf)) = Some (Node (Node Leaf 6 Leaf) 5 (Node Leaf 3 Leaf))"
  by (auto simp: convertBST2_def convertBST_def collect_loop_spine in_int_def split: option.split Option.bind_split)

text \<open>
  \<^verbatim>\<open>isBalanced\<close> holds exactly when the heights of the two subtrees differ by at most one
  at every node; such a tree of height h has at least 2 to the power h/2, minus 1, nodes.
\<close>

theorem isBalanced_everywhere:
  "(isBalanced t \<longleftrightarrow> (\<forall>l a r. Node l a r \<in> subtrees t \<longrightarrow> \<bar>int (height l) - int (height r)\<bar> \<le> 1)) \<and>
   (isBalanced t \<longrightarrow> 2 ^ height t \<le> (size t + 1) ^ 2)"
  using isBalanced_subtrees [of t] isBalanced_size [of t] by (simp add: size1_size)

theorem isBalanced_everywhere_witness:
  "isBalanced (Node (Node Leaf 1 Leaf) 2 Leaf) \<and> 2 ^ height (Node (Node Leaf (1::int) Leaf) 2 Leaf) \<le> ((2::nat) + 1) ^ 2"
  using isBalanced_everywhere [of "Node (Node Leaf 1 Leaf) 2 Leaf"] by simp

text \<open>
  \<^verbatim>\<open>verifyPostorder\<close> never reads out of range, ends on every array, and answers
  whether the array is the post-order of a search tree with smaller values to the left of a node and
  greater or equal ones to its right.
\<close>

theorem verifyPostorder_correct:
  "verifyPostorder data = Some (\<exists>t. postorder t = data \<and> search_tree_le t)"
  using verify_is_postorder [of 0 "int (length data) - 1" data] is_postorder_short [of "[]"]
  by (simp add: verifyPostorder_def slice_whole is_postorder_def)

text \<open>
  The two in-order walks and the pre-order walk with a stack end, and return what the recursive walks do.
\<close>

theorem stack_walks:
  "inorderTraversal t = inorder t \<and>
   inorderTraversal2 t res = Some (res @ inorder t) \<and>
   preorderTraversal t res = res @ preorder t"
  by (cases t) (simp_all add: inorderTraversal_def inorder_walk_ahead inorderTraversal2_def
    inorder_walk2_ahead preorderTraversal_def preorder_walk_ahead)

end
