(* ===== verification/RangeSearch.thy ===== *)
theory RangeSearch
  imports Searching
begin

text \<open>
  Three exercises on binary search: \<^verbatim>\<open>search\<close>, which satisfies the contract of
  \<open>Searching\<close>; the first and last position of a number (\<^verbatim>\<open>searchRange\<close> with its
  own \<^verbatim>\<open>lower_bound\<close>); and the missing number, whose middle is not
  computed from the left end, so its loop need not end.
\<close>

section \<open>The code\<close>

function search_nums :: "int list \<Rightarrow> int \<Rightarrow> int \<Rightarrow> int \<Rightarrow> int ub" where
  "search_nums nums target lo hi =
     (if lo \<le> hi
      then if \<not> in_int (lo + hi) then None
      else let mid = (lo + hi) div 2 in do {
        v \<leftarrow> iget nums mid;
        if v = target then Some mid
        else if v > target then search_nums nums target lo (mid - 1)
        else search_nums nums target (mid + 1) hi
      }
      else Some (-1))"
  by pat_completeness auto
termination
  by (relation "measure (\<lambda>(nums, target, lo, hi). nat (hi - lo + 1))") auto

definition search_sorted :: "int list \<Rightarrow> int \<Rightarrow> int ub" where
  "search_sorted nums target =
     (if nums = [] then Some (-1) else search_nums nums target 0 (int (length nums) - 1))"

function lower_bound_loop :: "int list \<Rightarrow> int \<Rightarrow> int \<Rightarrow> int \<Rightarrow> int ub" where
  "lower_bound_loop nums target lo hi =
     (if lo \<le> hi
      then let mid = lo + (hi - lo) div 2 in do {
        v \<leftarrow> iget nums mid;
        if v < target then lower_bound_loop nums target (mid + 1) hi
        else lower_bound_loop nums target lo (mid - 1)
      }
      else Some lo)"
  by pat_completeness auto
termination
  by (relation "measure (\<lambda>(nums, target, lo, hi). nat (hi - lo + 1))") auto

definition lower_bound_index :: "int list \<Rightarrow> int \<Rightarrow> int ub" where
  "lower_bound_index nums target = lower_bound_loop nums target 0 (int (length nums) - 1)"

definition searchRange :: "int list \<Rightarrow> int \<Rightarrow> (int \<times> int) ub" where
  "searchRange nums target =
     do { idx1 \<leftarrow> lower_bound_index nums target;
          next_target \<leftarrow> as_int (target + 1);
          idx2 \<leftarrow> map_option (\<lambda>i. i - 1) (lower_bound_index nums next_target);
          if idx1 < int (length nums)
          then do { v \<leftarrow> iget nums idx1; Some (if v = target then (idx1, idx2) else (-1, -1)) }
          else Some (-1, -1) }"

partial_function (option) missing_loop :: "int list \<Rightarrow> int \<Rightarrow> int \<Rightarrow> int ub" where
  "missing_loop nums lo hi =
     (if lo \<le> hi
      then let mid = (hi - lo) div 2 in do {
        v \<leftarrow> iget nums mid;
        if v = mid + 1 then Some v
        else if v = mid then missing_loop nums mid hi
        else missing_loop nums lo (mid - 1)
      }
      else Some (-1))"

definition missingNumber :: "int list \<Rightarrow> int ub" where
  "missingNumber nums = (if nums = [] then Some (-1) else missing_loop nums 0 (int (length nums) - 1))"

declare search_nums.simps [simp del] lower_bound_loop.simps [simp del]

section \<open>The search satisfies the contract\<close>

lemma search_nums_ok:
  "0 \<le> lo \<Longrightarrow> hi < int (length xs) \<Longrightarrow> int (length xs) \<le> 2 ^ 30 \<Longrightarrow> sorted xs \<Longrightarrow>
    \<exists>i. search_nums xs key lo hi = Some i \<and> found_in xs key lo hi i"
proof (induction xs key lo hi rule: search_nums.induct)
  case (1 xs key lo hi)
  note e = search_nums.simps [of xs key lo hi]
  show ?case
  proof (cases "lo \<le> hi")
    case False
    then show ?thesis using e found_in_empty by simp
  next
    case True
    let ?m = "(lo + hi) div 2"
    have m: "lo \<le> ?m" "?m \<le> hi" using True by auto
    have n: "\<not> \<not> in_int (lo + hi)" using "1.prems" True by (simp add: in_int_def)
    have g: "iget xs ?m = Some (xs ! nat ?m)" using m "1.prems" by (simp add: iget_def)
    consider "xs ! nat ?m = key" | "key < xs ! nat ?m" | "xs ! nat ?m < key" by linarith
    then show ?thesis
    proof cases
      case 1
      then show ?thesis using e True n g found_in_here [OF m, of xs key] by (simp add: Let_def)
    next
      case 2
      then show ?thesis
        using "1.IH"(1) [OF True n refl g] "1.prems" m e True n g found_in_lower [OF _ m]
        by (auto simp: Let_def)
    next
      case 3
      then show ?thesis
        using "1.IH"(2) [OF True n refl g] "1.prems" m e True n g found_in_upper [OF _ m]
        by (auto simp: Let_def)
    qed
  qed
qed

interpretation search: sorted_search search_sorted "\<lambda>xs. int (length xs) \<le> 2 ^ 30"
proof unfold_locales
  fix xs :: "int list" and key assume len: "int (length xs) \<le> 2 ^ 30" and sorted: "sorted xs"
  show "\<exists>i. search_sorted xs key = Some i \<and>
      (if key \<in> set xs then 0 \<le> i \<and> i < int (length xs) \<and> xs ! nat i = key else i = -1)"
  proof (cases "xs = []")
    case False
    then obtain i where "search_sorted xs key = Some i" "found_in xs key 0 (int (length xs) - 1) i"
      using search_nums_ok [of 0 "int (length xs) - 1" xs key] len sorted by (auto simp: search_sorted_def)
    then show ?thesis by (auto simp: found_in_def slice_whole split: if_splits)
  qed (simp add: search_sorted_def)
qed

section \<open>The first and the last position\<close>

text \<open>Where the elements that are less than the target end.\<close>

definition splits_at :: "int list \<Rightarrow> int \<Rightarrow> int \<Rightarrow> bool" where
  "splits_at xs target i \<longleftrightarrow> 0 \<le> i \<and> i \<le> int (length xs) \<and>
     (\<forall>k. 0 \<le> k \<and> k < int (length xs) \<longrightarrow> (xs ! nat k < target \<longleftrightarrow> k < i))"

lemma lower_bound_loop_ok:
  assumes "sorted xs" "0 \<le> lo" "lo \<le> hi + 1" "hi < int (length xs)"
    "\<forall>k. 0 \<le> k \<and> k < lo \<longrightarrow> xs ! nat k < target" "\<forall>k. hi < k \<and> k < int (length xs) \<longrightarrow> target \<le> xs ! nat k"
  shows "\<exists>i. lower_bound_loop xs target lo hi = Some i \<and> splits_at xs target i"
  using assms
proof (induction xs target lo hi rule: lower_bound_loop.induct)
  case (1 xs target lo hi)
  note e = lower_bound_loop.simps [of xs target lo hi]
  show ?case
  proof (cases "lo \<le> hi")
    case False
    have "xs ! nat k < target \<longleftrightarrow> k < lo" if "0 \<le> k" "k < int (length xs)" for k
      using "1.prems"(5,6) False that by (meson leD leI less_le_trans not_less_iff_gr_or_eq)
    then have "splits_at xs target lo"
      using "1.prems"(2-4) False by (simp add: splits_at_def)
    then show ?thesis using e False by simp
  next
    case True
    let ?m = "lo + (hi - lo) div 2"
    have m: "lo \<le> ?m" "?m \<le> hi" using True by auto
    have g: "iget xs ?m = Some (xs ! nat ?m)" using m "1.prems" by (simp add: iget_def)
    have mono: "xs ! nat j \<le> xs ! nat k" if "0 \<le> j" "j \<le> k" "k < int (length xs)" for j k
      using sorted_nth_mono [of xs "nat j" "nat k"] "1.prems"(1) that by simp
    show ?thesis
    proof (cases "xs ! nat ?m < target")
      case less: True
      have "\<forall>k. 0 \<le> k \<and> k < ?m + 1 \<longrightarrow> xs ! nat k < target"
      proof (intro allI impI)
        fix k assume "0 \<le> k \<and> k < ?m + 1"
        then show "xs ! nat k < target"
          using mono [of k ?m] less m "1.prems"(4) le_less_trans [of "xs ! nat k" "xs ! nat ?m" target] by simp
      qed
      then show ?thesis
        using "1.IH"(1) [OF True refl g less] "1.prems" m e True g less by (simp add: Let_def)
    next
      case False
      have "\<forall>k. ?m - 1 < k \<and> k < int (length xs) \<longrightarrow> target \<le> xs ! nat k"
      proof (intro allI impI)
        fix k assume "?m - 1 < k \<and> k < int (length xs)"
        then show "target \<le> xs ! nat k"
          using mono [of ?m k] False m "1.prems"(2) by simp
      qed
      then show ?thesis
        using "1.IH"(2) [OF True refl g False] "1.prems" m e True g False by (simp add: Let_def)
    qed
  qed
qed

lemma lower_bound_ok: "sorted xs \<Longrightarrow> \<exists>i. lower_bound_index xs target = Some i \<and> splits_at xs target i"
  using lower_bound_loop_ok [of xs 0 "int (length xs) - 1" target] by (simp add: lower_bound_index_def)

text \<open>
  On a sorted array \<^verbatim>\<open>searchRange\<close> reads nothing out of range, ends, and returns the
  first and the last position of the number (the positions between them are exactly those that hold
  it), or twice -1 when it is absent, for every number but \<^verbatim>\<open>INT_MAX\<close>, where
  \<^verbatim>\<open>target + 1\<close> overflows.
\<close>

theorem searchRange_positions:
  assumes "sorted nums" "in_int target"
  shows "case searchRange nums target of
      None \<Rightarrow> target = INT_MAX
    | Some (i, j) \<Rightarrow> target < INT_MAX \<and> (i = -1 \<longleftrightarrow> target \<notin> set nums) \<and>
        (\<forall>k. k < length nums \<longrightarrow> (nums ! k = target \<longleftrightarrow> i \<le> int k \<and> int k \<le> j))"
proof (cases "target = INT_MAX")
  case True
  then show ?thesis
    using lower_bound_ok [OF assms(1), of INT_MAX] by (auto simp: searchRange_def in_int_def as_int_def)
next
  case False
  then have t: "as_int (target + 1) = Some (target + 1)" "target < INT_MAX" using assms(2) by (auto simp: in_int_def)
  obtain i j where i: "lower_bound_index nums target = Some i" "splits_at nums target i"
    and j: "lower_bound_index nums (target + 1) = Some j" "splits_at nums (target + 1) j"
    using lower_bound_ok [OF assms(1)] by metis
  have pos: "nums ! k = target \<longleftrightarrow> i \<le> int k \<and> int k \<le> j - 1" if "k < length nums" for k
  proof -
    have "nums ! k < target \<longleftrightarrow> int k < i" "nums ! k < target + 1 \<longleftrightarrow> int k < j"
      using i(2) j(2) that by (auto simp: splits_at_def elim!: allE [of _ "int k"])
    then show ?thesis by linarith
  qed
  have none: "target \<notin> set nums" if "\<not> (i < int (length nums) \<and> nums ! nat i = target)"
  proof
    assume "target \<in> set nums"
    then obtain k where k: "k < length nums" "nums ! k = target" by (auto simp: in_set_conv_nth)
    then have "i \<le> int k" "int k \<le> j - 1" using pos by auto
    moreover have "0 \<le> i" using i(2) by (simp add: splits_at_def)
    ultimately have "nat i < length nums" "int (nat i) = i" "nums ! nat i = target"
      using k pos [of "nat i"] by auto
    with that show False by simp
  qed
  have ge: "0 \<le> i" using i(2) by (simp add: splits_at_def)
  show ?thesis
  proof (cases "i < int (length nums) \<and> nums ! nat i = target")
    case True
    then have "target \<in> set nums" using ge nth_mem [of "nat i" nums] by auto
    then show ?thesis using True i(1) j(1) t pos ge by (simp add: searchRange_def vec_simps)
  next
    case False
    then have "searchRange nums target = Some (-1, -1)"
      using i(1) j(1) t ge by (auto simp: searchRange_def vec_simps)
    then show ?thesis using none [OF False] t(2) nth_mem by fastforce
  qed
qed

theorem searchRange_positions_witness:
  "searchRange [5, 7, 7, 8, 8, 10] 8 = Some (3, 4) \<and>
   (case searchRange [5, 7] 7 of None \<Rightarrow> False | Some (i, j) \<Rightarrow> i \<noteq> -1)"
proof -
  have "searchRange [5, 7, 7, 8, 8, 10] 8 = Some (3, 4)" by code_simp
  moreover have "case searchRange [5, 7] 7 of None \<Rightarrow> False | Some (i, j) \<Rightarrow> i \<noteq> -1"
    using searchRange_positions [of "[5, 7]" 7] by (simp add: in_int_def split: option.splits prod.splits)
  ultimately show ?thesis ..
qed

text \<open>
  \<^verbatim>\<open>search\<close> on a sorted array of up to \<open>2 ^ 30\<close> elements returns a position
  of the number, or -1 when it is absent.
\<close>

theorem search_sorted_finds:
  "sorted nums \<Longrightarrow> int (length nums) \<le> 2 ^ 30 \<Longrightarrow> \<exists>i. search_sorted nums target = Some i \<and>
     (if target \<in> set nums then 0 \<le> i \<and> i < int (length nums) \<and> nums ! nat i = target else i = -1)"
  by (rule search.searches)

theorem search_sorted_finds_witness: "\<exists>i. search_sorted [-1, 0, 3, 5, 9, 12] 2 = Some i \<and> i = -1"
  using search_sorted_finds [of "[-1, 0, 3, 5, 9, 12]" 2] by simp

section \<open>The missing number\<close>

lemma missing_loop_present:
  assumes "missing_loop nums lo hi = Some x"
  shows "x = -1 \<or> x \<in> set nums"
proof (rule missing_loop.raw_induct [OF _ assms], goal_cases)
  case (1 f nums lo hi x)
  from 1(2) show ?case
    using 1(1) [of nums "(hi - lo) div 2" hi x] 1(1) [of nums lo "(hi - lo) div 2 - 1" x]
    by (auto simp: Let_def bind_eq_Some iget_def vget_def split: if_splits)
qed

lemma missing_loop_stuck:
  assumes "missing_loop nums lo hi = Some x"
  shows "\<not> (nums = [0] \<and> lo = 0 \<and> hi = 0)"
proof (rule missing_loop.raw_induct [OF _ assms], goal_cases)
  case (1 f nums lo hi x)
  from 1(2) 1(1) [of nums 0 0] show ?case by (auto simp: Let_def iget_def)
qed

text \<open>
  \<^verbatim>\<open>missingNumber\<close> never returns the number that is missing: what it returns is -1 or a
  number of the array. For the array \<open>[0]\<close>, where 1 is missing, it does not return, and
  for \<open>[1]\<close> it returns 1 although 0 is missing.
\<close>

theorem missingNumber_wrong:
  "(case missingNumber nums of None \<Rightarrow> True | Some x \<Rightarrow> x = -1 \<or> x \<in> set nums) \<and>
   missingNumber [0] = None \<and> missingNumber [1] = Some 1"
proof -
  have "missingNumber [0] = None"
    using missing_loop_stuck [of "[0]" 0 0] by (cases "missing_loop [0] 0 0") (auto simp: missingNumber_def)
  moreover have "missingNumber [1] = Some 1"
    by (simp add: missingNumber_def missing_loop.simps iget_def)
  ultimately show ?thesis
    using missing_loop_present [of nums 0 "int (length nums) - 1"]
    by (auto simp: missingNumber_def split: option.split)
qed

end
