(* ===== verification/ReverseWords.thy ===== *)
theory ReverseWords
  imports Cpp_Prelude
begin

text \<open>
  Reversing the words of a string in place: the spaces in front are skipped, runs of
  spaces become one, a space at the end is cut, every word is reversed, and at last the
  whole string is. Reading \<^verbatim>\<open>s[i]\<close> at the length of a string gives the terminating
  null character; behind it, and for a negative index, it is undefined.
\<close>

section \<open>The code\<close>

abbreviation SP :: char where "SP \<equiv> CHR '' ''"

text \<open>The inner loop of \<^verbatim>\<open>reverse\<close>.\<close>

function swap_ends :: "string \<Rightarrow> int \<Rightarrow> int \<Rightarrow> string ub" where
  "swap_ends s l r =
     (if l < r then do { s' \<leftarrow> iswap s l r; swap_ends s' (l + 1) (r - 1) } else Some s)"
  by pat_completeness auto
termination
  by (relation "measure (\<lambda>(s, l, r). nat (r - l))") auto

declare swap_ends.simps [simp del]

definition reverse :: "string \<Rightarrow> int \<Rightarrow> int \<Rightarrow> string ub" where
  "reverse s l r =
     (if l < 0 \<or> l \<ge> int (length s) then Some s
      else if r < 0 \<or> r \<ge> int (length s) then Some s
      else swap_ends s l r)"

text \<open>
  The loops that build \<^verbatim>\<open>rm_s\<close>, over the rest of the string: the spaces in front, and
  the copying loop, which goes to the last of several spaces before it copies one.
\<close>

fun front_spaces :: "string \<Rightarrow> string" where
  "front_spaces [] = []"
| "front_spaces (c # cs) = (if c = SP then front_spaces cs else c # cs)"

lemma length_front_spaces: "length (front_spaces s) \<le> length s"
  by (induction s) auto

function copy_words :: "string \<Rightarrow> string" where
  "copy_words [] = []"
| "copy_words (c # cs) = c # copy_words (if c = SP then front_spaces cs else cs)"
  by pat_completeness auto
termination
  by (relation "measure length") (auto simp: less_Suc_eq_le length_front_spaces)

text \<open>The cut at the end reads the last character, which an empty string does not have.\<close>

definition cut_space :: "string \<Rightarrow> string ub" where
  "cut_space rm_s =
     (if rm_s = [] then None
      else if last rm_s = SP then Some (butlast rm_s) else Some rm_s)"

text \<open>The loop that reverses each word; the test of the length always holds, as a reversal keeps it.\<close>

function words_loop :: "string \<Rightarrow> int \<Rightarrow> nat \<Rightarrow> string ub" where
  "words_loop s l i =
     (if i < length s
      then do {
        (s1, l1) \<leftarrow> (if s ! i = SP
          then do { s' \<leftarrow> reverse s l (int i - 1); Some (s', int i + 1) }
          else Some (s, l));
        s2 \<leftarrow> (if i = length s - 1 then reverse s1 l1 (int (length s) - 1) else Some s1);
        if length s2 = length s then words_loop s2 l1 (i + 1) else None
      }
      else Some s)"
  by pat_completeness auto
termination
  by (relation "measure (\<lambda>(s, l, i). length s - i)") auto

declare words_loop.simps [simp del]

definition reverseWords :: "string \<Rightarrow> string ub" where
  "reverseWords s =
     (if length s \<le> 1 \<and> s \<noteq> [SP] then Some s
      else do { rm_s \<leftarrow> cut_space (copy_words (front_spaces s));
                rm_s \<leftarrow> words_loop rm_s 0 0;
                reverse rm_s 0 (int (length rm_s) - 1) })"

section \<open>Words\<close>

text \<open>The words of a string, and words with single spaces between them.\<close>

function words :: "string \<Rightarrow> string list" where
  "words [] = []"
| "words (c # cs) =
     (if c = SP then words cs
      else (c # takeWhile (\<lambda>x. x \<noteq> SP) cs) # words (dropWhile (\<lambda>x. x \<noteq> SP) cs))"
  by pat_completeness auto
termination
  by (relation "measure length") (auto simp: less_Suc_eq_le length_dropWhile_le)

fun join :: "string list \<Rightarrow> string" where
  "join [] = []"
| "join [w] = w"
| "join (w # ws) = w @ SP # join ws"

lemma join_Cons: "ws \<noteq> [] \<Longrightarrow> join (w # ws) = w @ SP # join ws"
  by (cases ws) auto

lemma join_snoc: "join (ws @ [w]) = (if ws = [] then w else join ws @ SP # w)"
  by (induction ws rule: join.induct) auto

lemma rev_join: "rev (join ws) = join (rev (map rev ws))"
proof (induction ws)
  case (Cons w ws)
  then show ?case using join_snoc [of "rev (map rev ws)" "rev w"] by (cases "ws = []") (simp_all add: join_Cons)
qed simp

lemma length_join_rev: "length (join (map rev ws)) = length (join ws)"
  by (induction ws rule: join.induct) auto

abbreviation is_word :: "string \<Rightarrow> bool" where
  "is_word w \<equiv> w \<noteq> [] \<and> SP \<notin> set w"

lemma words_are_words: "w \<in> set (words s) \<Longrightarrow> is_word w"
  by (induction s rule: words.induct) (auto split: if_splits dest: set_takeWhileD)

lemma words_skip: "words (front_spaces s) = words s"
  by (induction s) auto

lemma front_spaces_hd: "front_spaces s \<noteq> [] \<Longrightarrow> hd (front_spaces s) \<noteq> SP"
  by (induction s) auto

lemma front_spaces_Nil: "front_spaces s = [] \<longleftrightarrow> words s = []"
  by (induction s) auto

lemma front_spaces_last: "front_spaces s \<noteq> [] \<Longrightarrow> last (front_spaces s) = last s"
  by (induction s) auto

lemma front_spaces_all: "front_spaces s = [] \<Longrightarrow> s \<noteq> [] \<Longrightarrow> last s = SP"
  by (induction s) (auto split: if_splits)

lemma copy_words_word: "SP \<notin> set w \<Longrightarrow> copy_words (w @ s) = w @ copy_words s"
  by (induction w) auto

lemma copy_words_join:
  "s \<noteq> [] \<Longrightarrow> hd s \<noteq> SP \<Longrightarrow> copy_words s = join (words s) @ (if last s = SP then [SP] else [])"
proof (induction "length s" arbitrary: s rule: less_induct)
  case less
  let ?w = "takeWhile (\<lambda>x. x \<noteq> SP) s" and ?rest = "dropWhile (\<lambda>x. x \<noteq> SP) s"
  have w: "SP \<notin> set ?w" by (auto dest: set_takeWhileD)
  have words: "words s = ?w # words ?rest" using less.prems by (cases s) auto
  have copy: "copy_words s = ?w @ copy_words ?rest"
    using copy_words_word [OF w, of ?rest] by simp
  show ?case
  proof (cases ?rest)
    case Nil
    then have "\<forall>x\<in>set s. x \<noteq> SP" by (simp add: dropWhile_eq_Nil_conv)
    then have "last s \<noteq> SP" using less.prems by auto
    then show ?thesis using words copy Nil by simp
  next
    case (Cons c cs)
    have c: "c = SP" using Cons hd_dropWhile [of "\<lambda>x. x \<noteq> SP" s] by simp
    have ls: "last s = last (c # cs)" using Cons takeWhile_dropWhile_id [of "\<lambda>x. x \<noteq> SP" s] last_append [of ?w ?rest] by simp
    show ?thesis
    proof (cases "front_spaces cs = []")
      case True
      then have "last s = SP" using ls c front_spaces_all [of cs] by auto
      then show ?thesis using words copy Cons c True front_spaces_Nil [of cs] by simp
    next
      case False
      have "length (front_spaces cs) < length s"
        using length_front_spaces [of cs] Cons length_dropWhile_le [of "\<lambda>x. x \<noteq> SP" s] by simp
      then have "copy_words (front_spaces cs) = join (words cs) @ (if last s = SP then [SP] else [])"
        using less.hyps [of "front_spaces cs"] False front_spaces_hd [OF False] front_spaces_last [OF False] ls words_skip [of cs]
        by (cases cs) auto
      then show ?thesis using words copy Cons c False front_spaces_Nil [of cs] by (simp add: join_Cons)
    qed
  qed
qed

section \<open>The reversals\<close>

lemma swap_ends_ok:
  "swap_ends (us @ w @ vs) (int (length us)) (int (length us) + int (length w) - 1) = Some (us @ rev w @ vs)"
proof (induction "length w" arbitrary: us w vs rule: less_induct)
  case less
  show ?case
  proof (cases "length w \<le> 1")
    case True
    then show ?thesis by (cases w) (simp_all add: swap_ends.simps)
  next
    case False
    then obtain a m b where w: "w = a # m @ [b]"
      by (cases w; cases "tl w" rule: rev_cases) auto
    have "iswap (us @ w @ vs) (int (length us)) (int (length us) + int (length w) - 1) = Some ((us @ [b]) @ m @ a # vs)"
      using w by (auto simp: iswap_in nat_add_distrib nth_append list_update_append nat_diff_distrib)
    then show ?thesis
      using less.hyps [of m "us @ [b]" "a # vs"] w
      by (subst swap_ends.simps) (simp add: algebra_simps)
  qed
qed

lemma reverse_part:
  "w \<noteq> [] \<Longrightarrow> reverse (us @ w @ vs) (int (length us)) (int (length us) + int (length w) - 1) = Some (us @ rev w @ vs)"
  using swap_ends_ok [of us w vs] by (cases w) (auto simp: reverse_def)

lemma words_loop_scan:
  "SP \<notin> set w \<Longrightarrow> length us + length w < length s \<Longrightarrow> take (length us + length w) s = us @ w \<Longrightarrow> k \<le> length w \<Longrightarrow>
     words_loop s l (length us + k) = words_loop s l (length us + length w)"
proof (induction "length w - k" arbitrary: k)
  case (Suc n)
  have "s ! (length us + k) = (us @ w) ! (length us + k)"
    using Suc.prems(2-4) Suc.hyps(2) by (simp flip: Suc.prems(3) add: nth_take)
  also have "\<dots> = w ! k" by (simp add: nth_append)
  finally have "s ! (length us + k) = w ! k" .
  moreover have k: "k < length w" using Suc.hyps(2) by linarith
  ultimately have "s ! (length us + k) \<noteq> SP" using Suc.prems(1) nth_mem [of k w] by metis
  moreover have "length us + k < length s" "length us + k \<noteq> length s - 1" using k Suc.prems(2) by linarith+
  ultimately have "words_loop s l (length us + k) = words_loop s l (length us + Suc k)"
    by (subst words_loop.simps) simp
  then show ?case using Suc.hyps(1) [of "Suc k"] Suc.hyps(2) Suc.prems by simp
qed simp

lemma words_loop_ok:
  "\<forall>w\<in>set ws. is_word w \<Longrightarrow> ws \<noteq> [] \<Longrightarrow>
     words_loop (us @ join ws) (int (length us)) (length us) = Some (us @ join (map rev ws))"
proof (induction ws arbitrary: us)
  case (Cons w ws)
  have w: "is_word w" and ws: "\<forall>w\<in>set ws. is_word w" using Cons.prems by auto
  show ?case
  proof (cases "ws = []")
    case True
    obtain v z where z: "w = v @ [z]" using w by (cases w rule: rev_cases) auto
    have "words_loop (us @ w) (int (length us)) (length us) = words_loop (us @ w) (int (length us)) (length us + length v)"
      using words_loop_scan [of v us "us @ w" 0] w z by simp
    also have "\<dots> = Some (us @ rev w)"
    proof -
      have "reverse (us @ w) (int (length us)) (int (length (us @ w)) - 1) = Some (us @ rev w)"
        using reverse_part [of w us "[]"] w by simp
      moreover have "(us @ w) ! (length us + length v) = z" "z \<noteq> SP" using z w by (auto simp: nth_append)
      ultimately show ?thesis using z
        by (subst words_loop.simps) (simp add: words_loop.simps [of _ _ "Suc (length us + length v)"])
    qed
    finally show ?thesis using True by simp
  next
    case False
    let ?s = "us @ w @ SP # join ws" and ?s' = "(us @ rev w @ [SP]) @ join ws"
    have len: "0 < length (join ws)" using False ws by (cases ws; cases "tl ws") auto
    have "words_loop ?s (int (length us)) (length us) = words_loop ?s (int (length us)) (length us + length w)"
      using words_loop_scan [of w us ?s 0] w by simp
    also have "\<dots> = words_loop ?s' (int (length (us @ rev w @ [SP]))) (length (us @ rev w @ [SP]))"
    proof -
      have "reverse ?s (int (length us)) (int (length us + length w) - 1) = Some ?s'"
        using reverse_part [of w us "SP # join ws"] w by simp
      moreover have "?s ! (length us + length w) = SP" by (simp add: nth_append)
      ultimately show ?thesis using len by (subst words_loop.simps) (simp add: add_ac)
    qed
    also have "\<dots> = Some ((us @ rev w @ [SP]) @ join (map rev ws))" using Cons.IH [OF ws False] .
    finally show ?thesis using False by (simp add: join_Cons)
  qed
qed simp

text \<open>
  \<^verbatim>\<open>reverseWords\<close> gives the words in reverse order with single spaces between them, for
  every string but the empty one that holds a word or is shorter than two characters, and
  reads the character before the start of an empty string when the string holds spaces only.
\<close>

theorem reverseWords_words:
  "reverseWords s =
     (if words s \<noteq> [] then Some (join (rev (words s))) else if s = [] then Some [] else None)"
proof (cases "words s = []")
  case True
  then have skip: "front_spaces s = []" by (simp add: front_spaces_Nil)
  show ?thesis
  proof (cases "s = []")
    case False
    have "length s \<le> 1 \<Longrightarrow> s = [SP]"
      using False front_spaces_all [OF skip False] by (cases s) auto
    then show ?thesis using True False skip by (auto simp: reverseWords_def cut_space_def)
  qed (simp add: reverseWords_def)
next
  case False
  let ?ws = "words s" and ?t = "front_spaces s"
  have t: "?t \<noteq> []" "hd ?t \<noteq> SP" using False front_spaces_Nil [of s] front_spaces_hd [of s] by auto
  have ws: "\<forall>w\<in>set ?ws. is_word w" using words_are_words by blast
  have ne: "join ?ws \<noteq> []" "last (join ?ws) \<noteq> SP"
  proof -
    obtain vs w where "?ws = vs @ [w]" using False by (cases ?ws rule: rev_cases) auto
    with ws have "is_word w" "join ?ws = w \<or> join ?ws = join vs @ SP # w" by (auto simp: join_snoc)
    moreover have "last w \<noteq> SP" using calculation(1) last_in_set [of w] by metis
    ultimately show "join ?ws \<noteq> []" "last (join ?ws) \<noteq> SP" by auto
  qed
  have cut: "cut_space (copy_words ?t) = Some (join ?ws)"
    using copy_words_join [OF t] ne by (simp add: cut_space_def words_skip)
  have loop: "words_loop (join ?ws) 0 0 = Some (join (map rev ?ws))"
    using words_loop_ok [OF ws False, of "[]"] by simp
  have ne': "join (map rev ?ws) \<noteq> []" using ne(1) length_join_rev [of ?ws] by auto
  have "reverse (join (map rev ?ws)) 0 (int (length (join (map rev ?ws))) - 1) = Some (join (rev ?ws))"
    using reverse_part [OF ne', of "[]" "[]"] rev_join [of "map rev ?ws"] by (simp add: rev_map comp_def)
  moreover have "reverseWords s = Some (join (rev ?ws))" if "length s \<le> 1" "s \<noteq> [SP]"
    using that False by (cases s) (auto simp: reverseWords_def)
  ultimately show ?thesis using False cut loop by (cases "length s \<le> 1 \<and> s \<noteq> [SP]") (auto simp: reverseWords_def)
qed

end
