(* ===== verification/StringPrograms.thy ===== *)
theory StringPrograms
  imports Cpp_Prelude "HOL-Library.Sublist"
begin

text \<open>
  Four exercises on strings: the replacement of spaces by \<^verbatim>\<open>%20\<close> in
  place, the sum of two binary numbers, the test for a subsequence, and the
  count-and-say sequence. Indices are \<open>int\<close>; a string can be read at its length, where
  it has the null character.
\<close>

section \<open>Replacing spaces\<close>

text \<open>The loop from the last character of the old string to its first; \<open>s\<close> is already longer.\<close>

function replace_loop :: "string \<Rightarrow> int \<Rightarrow> int \<Rightarrow> string ub" where
  "replace_loop s plusNum i =
     (if i \<ge> 0
      then let index = plusNum + i in do {
        c \<leftarrow> iget s i;
        if c \<noteq> CHR '' ''
        then do { s1 \<leftarrow> iset s index c; replace_loop s1 plusNum (i - 1) }
        else do {
          s1 \<leftarrow> iset s index (CHR ''0'');
          s2 \<leftarrow> iset s1 (index - 1) (CHR ''2'');
          s3 \<leftarrow> iset s2 (index - 2) (CHR ''%'');
          replace_loop s3 (plusNum - 2) (i - 1)
        }
      }
      else Some s)"
  by pat_completeness auto
termination
  by (relation "measure (\<lambda>(s, plusNum, i). nat (i + 1))") auto

declare replace_loop.simps [simp del]

definition replaceSpace :: "string \<Rightarrow> string ub" where
  "replaceSpace s =
     (let spaceLen = length (filter (\<lambda>c. c = CHR '' '') s); len = int (length s)
      in replace_loop (s @ replicate (2 * spaceLen) (CHR '' '')) (2 * int spaceLen) (len - 1))"

text \<open>What a character becomes.\<close>

definition coded :: "char \<Rightarrow> string" where
  "coded c = (if c = CHR '' '' then ''%20'' else [c])"

lemma coded_space: "coded (CHR '' '') = ''%20''"
  by (simp add: coded_def)

lemma length_coded: "length (concat (map coded s)) = length s + 2 * length (filter (\<lambda>c. c = CHR '' '') s)"
  by (induction s) (auto simp: coded_def)

lemma iset_at: "i = int (length us) \<Longrightarrow> iset (us @ x # vs) i v = Some (us @ v # vs)"
  by (simp add: iset_in)

text \<open>
  The state of the loop: the part of the old string that is still to be read, room for two
  characters for each of its spaces, and the part that is finished.
\<close>

lemma replace_loop_ok:
  "length gap = 2 * length (filter (\<lambda>c. c = CHR '' '') us) \<Longrightarrow>
     replace_loop (us @ gap @ fin) (int (length gap)) (int (length us) - 1) = Some (concat (map coded us) @ fin)"
proof (induction us arbitrary: gap fin rule: rev_induct)
  case (snoc c us)
  let ?s = "(us @ [c]) @ gap @ fin"
  have c: "iget ?s (int (length us)) = Some c" by (simp add: iget_in nth_append)
  show ?case
  proof (cases "c = CHR '' ''")
    case False
    have gap: "length gap = 2 * length (filter (\<lambda>c. c = CHR '' '') us)" using snoc.prems False by simp
    obtain gap' where gap': "length gap' = length gap" "iset ?s (int (length gap) + int (length us)) c = Some (us @ gap' @ c # fin)"
    proof (cases gap rule: rev_cases)
      case Nil
      show ?thesis using Nil by (intro that [of "[]"]) (simp_all add: iset_in list_update_append)
    next
      case (snoc g z)
      show ?thesis using snoc
        by (intro that [of "c # g"]) (simp_all add: iset_in list_update_append nat_add_distrib)
    qed
    moreover have "coded c = [c]" using False by (simp add: coded_def)
    ultimately show ?thesis using snoc.IH [of gap' "c # fin"] gap c False
      by (subst replace_loop.simps) (simp add: Let_def)
  next
    case True
    then have len: "length gap = 2 * length (filter (\<lambda>c. c = CHR '' '') us) + 2" using snoc.prems by simp
    then obtain g y z where g: "gap = g @ [y, z]"
      by (cases gap rule: rev_cases; cases "butlast gap" rule: rev_cases) auto
    obtain gap' q where shape: "?s = us @ gap' @ q # y # z # fin" "length gap' = length g"
      by (rule that [of "butlast (c # g)" "last (c # g)"]) (use g in \<open>auto simp flip: append_butlast_last_id\<close>)
    have idx: "int (length gap) + int (length us) = int (length us + length gap' + 2)" using g shape(2) by simp
    have "iset ?s (int (length us + length gap' + 2)) (CHR ''0'') = Some (us @ gap' @ [q, y, CHR ''0''] @ fin)"
      using iset_at [of _ "us @ gap' @ [q, y]" z fin] unfolding shape(1) by simp
    moreover have "iset (us @ gap' @ [q, y, CHR ''0''] @ fin) (int (length us + length gap' + 2) - 1) (CHR ''2'')
        = Some (us @ gap' @ [q, CHR ''2'', CHR ''0''] @ fin)"
      using iset_at [of _ "us @ gap' @ [q]" y "CHR ''0'' # fin"] by simp
    moreover have "iset (us @ gap' @ [q, CHR ''2'', CHR ''0''] @ fin) (int (length us + length gap' + 2) - 2) (CHR ''%'')
        = Some (us @ gap' @ ''%20'' @ fin)"
      using iset_at [of _ "us @ gap'" q "''20'' @ fin"] by simp
    ultimately have "replace_loop ?s (int (length gap)) (int (length us)) =
        replace_loop (us @ gap' @ ''%20'' @ fin) (int (length gap) - 2) (int (length us) - 1)"
      using c True idx by (subst replace_loop.simps) (simp add: Let_def add_ac)
    then show ?thesis
      using snoc.IH [of gap' "''%20'' @ fin"] len g shape(2) True coded_space by simp
  qed
qed (simp add: replace_loop.simps)

text \<open>
  \<^verbatim>\<open>replaceSpace\<close> works in place: although the string is read and written in the
  same pass, every space becomes \<^verbatim>\<open>%20\<close>, every other character stays, and
  nothing is accessed out of range.
\<close>

theorem replaceSpace_replaces: "replaceSpace s = Some (concat (map coded s))"
  using replace_loop_ok [of "replicate (2 * length (filter (\<lambda>c. c = CHR '' '') s)) (CHR '' '')" s "[]"]
  by (simp add: replaceSpace_def Let_def)

section \<open>Adding binary numbers\<close>

text \<open>\<^verbatim>\<open>to_string\<close> of a number between -1 and 1, which is what \<^verbatim>\<open>k % 2\<close> can be.\<close>

definition digit_string :: "int \<Rightarrow> string" where
  "digit_string d = (if d < 0 then ''-1'' else if d = 0 then ''0'' else ''1'')"

text \<open>\<^verbatim>\<open>a[m--] - '0'\<close> with \<^verbatim>\<open>char\<close> signed.\<close>

definition char_minus_0 :: "char \<Rightarrow> int" where
  "char_minus_0 c = (if of_char c < (128::int) then of_char c else of_char c - 256) - 48"

function add_binary_loop :: "string \<Rightarrow> string \<Rightarrow> int \<Rightarrow> int \<Rightarrow> int \<Rightarrow> string \<Rightarrow> string ub" where
  "add_binary_loop a b m n carry res =
     (if m \<ge> 0 \<or> n \<ge> 0
      then do { q \<leftarrow> (if m \<ge> 0 then map_option char_minus_0 (iget a m) else Some 0);
                p \<leftarrow> (if n \<ge> 0 then map_option char_minus_0 (iget b n) else Some 0);
                let k = q + p + carry;
                add_binary_loop a b (if m \<ge> 0 then m - 1 else m) (if n \<ge> 0 then n - 1 else n)
                  (tquot k 2) (digit_string (trem k 2) @ res) }
      else Some (if carry = 1 then CHR ''1'' # res else res))"
  by pat_completeness auto
termination
  by (relation "measure (\<lambda>(a, b, m, n, carry, res). nat (m + 1) + nat (n + 1))") auto

declare add_binary_loop.simps [simp del]

definition addBinary :: "string \<Rightarrow> string \<Rightarrow> string ub" where
  "addBinary a b = add_binary_loop a b (int (length a) - 1) (int (length b) - 1) 0 []"

text \<open>The number a string of binary digits stands for.\<close>

abbreviation bit :: "char \<Rightarrow> int" where
  "bit c \<equiv> (if c = CHR ''1'' then 1 else 0)"

definition binary :: "string \<Rightarrow> bool" where
  "binary s \<longleftrightarrow> (\<forall>c\<in>set s. c = CHR ''0'' \<or> c = CHR ''1'')"

fun number :: "string \<Rightarrow> int" where
  "number [] = 0"
| "number (c # s) = bit c * 2 ^ length s + number s"

lemma number_append: "number (s @ t) = number s * 2 ^ length t + number t"
  by (induction s) (auto simp: power_add algebra_simps)

lemma char_minus_0_bit: "c = CHR ''0'' \<or> c = CHR ''1'' \<Longrightarrow> char_minus_0 c = bit c"
  by (auto simp: char_minus_0_def)

text \<open>A string read from its end: its last digit, or 0 when none is left, and the digits before it.\<close>

lemma digit_at:
  assumes "binary (u @ x)"
  obtains d u' y where
    "(if int (length u) - 1 \<ge> 0 then map_option char_minus_0 (iget (u @ x) (int (length u) - 1)) else Some 0) = Some d"
    "(if int (length u) - 1 \<ge> 0 then int (length u) - 1 - 1 else int (length u) - 1) = int (length u') - 1"
    "d = 0 \<or> d = 1" "number u = 2 * number u' + d" "u @ x = u' @ y" "length u' = length u - 1"
proof (cases u rule: rev_cases)
  case Nil
  then show ?thesis by (intro that [of 0 "[]" x]) simp_all
next
  case (snoc w c)
  have c: "c = CHR ''0'' \<or> c = CHR ''1''" using assms snoc by (auto simp: binary_def)
  have "iget (u @ x) (int (length w)) = Some c" using snoc by (simp add: iget_in nth_append)
  with snoc show ?thesis
    by (intro that [of "bit c" w "c # x"]) (simp_all add: number_append char_minus_0_bit [OF c])
qed

lemma add_binary_loop_ok:
  assumes "binary (u @ x)" "binary (v @ y)" "carry = 0 \<or> carry = 1" "binary res"
  shows "\<exists>r. add_binary_loop (u @ x) (v @ y) (int (length u) - 1) (int (length v) - 1) carry res = Some r \<and>
    binary r \<and> number r = (number u + number v + carry) * 2 ^ length res + number res"
  using assms
proof (induction "length u + length v" arbitrary: u v x y carry res rule: less_induct)
  case less
  show ?case
  proof (cases "u = [] \<and> v = []")
    case True
    then show ?thesis using less.prems by (auto simp: add_binary_loop.simps binary_def)
  next
    case False
    obtain q u' x' where u: "(if int (length u) - 1 \<ge> 0 then map_option char_minus_0 (iget (u @ x) (int (length u) - 1)) else Some 0) = Some q"
        "(if int (length u) - 1 \<ge> 0 then int (length u) - 1 - 1 else int (length u) - 1) = int (length u') - 1"
        "q = 0 \<or> q = 1" "number u = 2 * number u' + q" "u @ x = u' @ x'" "length u' = length u - 1"
      using digit_at [OF less.prems(1)] .
    obtain p v' y' where v: "(if int (length v) - 1 \<ge> 0 then map_option char_minus_0 (iget (v @ y) (int (length v) - 1)) else Some 0) = Some p"
        "(if int (length v) - 1 \<ge> 0 then int (length v) - 1 - 1 else int (length v) - 1) = int (length v') - 1"
        "p = 0 \<or> p = 1" "number v = 2 * number v' + p" "v @ y = v' @ y'" "length v' = length v - 1"
      using digit_at [OF less.prems(2)] .
    let ?k = "q + p + carry"
    have k: "0 \<le> ?k" "tquot ?k 2 = 0 \<or> tquot ?k 2 = 1" "trem ?k 2 = 0 \<or> trem ?k 2 = 1"
      "?k = 2 * tquot ?k 2 + trem ?k 2" using u(3) v(3) less.prems(3) by auto
    then have d: "binary (digit_string (trem ?k 2) @ res)" "length (digit_string (trem ?k 2)) = 1"
      "number (digit_string (trem ?k 2)) = trem ?k 2"
      using less.prems(4) by (auto simp: digit_string_def binary_def)
    have "0 < length u + length v" using False by auto
    then have smaller: "length u' + length v' < length u + length v" using u(6) v(6) by arith
    have step: "add_binary_loop (u @ x) (v @ y) (int (length u) - 1) (int (length v) - 1) carry res =
        add_binary_loop (u' @ x') (v' @ y') (int (length u') - 1) (int (length v') - 1) (tquot ?k 2) (digit_string (trem ?k 2) @ res)"
    proof -
      have "int (length u) - 1 \<ge> 0 \<or> int (length v) - 1 \<ge> 0" using False by (cases u; cases v) auto
      then show ?thesis
        by (subst add_binary_loop.simps, simp only: if_True u(1,2) v(1,2) Option.bind.simps Let_def, simp only: u(5) v(5))
    qed
    obtain r where r: "add_binary_loop (u' @ x') (v' @ y') (int (length u') - 1) (int (length v') - 1) (tquot ?k 2)
          (digit_string (trem ?k 2) @ res) = Some r" "binary r"
        "number r = (number u' + number v' + tquot ?k 2) * 2 ^ length (digit_string (trem ?k 2) @ res) +
          number (digit_string (trem ?k 2) @ res)"
      using less.hyps [OF smaller _ _ k(2) d(1), of x' y'] less.prems(1,2) u(5) v(5) by auto
    have "number r = (2 * (number u' + number v' + tquot ?k 2) + trem ?k 2) * 2 ^ length res + number res"
      using r(3) d(2,3) by (simp add: number_append algebra_simps)
    also have "2 * (number u' + number v' + tquot ?k 2) + trem ?k 2 = number u + number v + carry"
      using k(4) unfolding u(4) v(4) by (simp add: algebra_simps)
    finally show ?thesis using r step by auto
  qed
qed

text \<open>
  The sum of two binary numbers of any length, empty ones included, is a binary number whose
  value is the sum of the values.
\<close>

theorem addBinary_sum:
  "binary a \<Longrightarrow> binary b \<Longrightarrow>
     \<exists>r. addBinary a b = Some r \<and> binary r \<and> number r = number a + number b"
  using add_binary_loop_ok [of a "[]" b "[]" 0 "[]"] by (auto simp: addBinary_def binary_def)

theorem addBinary_sum_witness:
  "\<exists>r. addBinary ''1010'' ''1011'' = Some r \<and> number r = 21"
  using addBinary_sum [of "''1010''" "''1011''"] by (auto simp: binary_def)

section \<open>Subsequences\<close>

definition char_at :: "string \<Rightarrow> nat \<Rightarrow> char ub" where
  "char_at s i = (if i < length s then Some (s ! i) else if i = length s then Some NUL else None)"

fun subsequence_loop :: "string \<Rightarrow> string \<Rightarrow> nat \<Rightarrow> bool ub" where
  "subsequence_loop s [] cur = Some False"
| "subsequence_loop s (c # t) cur =
     do { d \<leftarrow> char_at s cur;
          let cur' = (if c = d then cur + 1 else cur);
          if cur' = length s then Some True else subsequence_loop s t cur' }"

definition isSubsequence :: "string \<Rightarrow> string \<Rightarrow> bool ub" where
  "isSubsequence s t = (if s = t then Some True else subsequence_loop s t 0)"

lemma subsequence_loop_ok: "cur < length s \<Longrightarrow> subsequence_loop s t cur = Some (subseq (drop cur s) t)"
proof (induction t arbitrary: cur)
  case (Cons c t)
  have "drop cur s = s ! cur # drop (Suc cur) s" using Cons.prems by (rule Cons_nth_drop_Suc [symmetric])
  then show ?case using Cons by (auto simp: char_at_def Let_def)
qed simp

text \<open>
  The test answers whether the first string is a subsequence of the second, if it is not
  empty or the second string has no null character, which the code takes for the end of the first.
\<close>

theorem isSubsequence_subseq:
  "s \<noteq> [] \<or> NUL \<notin> set t \<Longrightarrow> isSubsequence s t = Some (subseq s t)"
  using subsequence_loop_ok [of 0 s t] by (cases s; cases t) (auto simp: isSubsequence_def char_at_def Let_def)

theorem isSubsequence_subseq_witness:
  "isSubsequence ''ace'' ''abcde'' = Some True \<and> isSubsequence '''' ''abc'' = Some True"
  using isSubsequence_subseq [of "''ace''" "''abcde''"] isSubsequence_subseq [of "''''" "''abc''"] by simp

section \<open>Count and say\<close>

text \<open>\<^verbatim>\<open>to_string\<close> of a number that is not negative; \<^verbatim>\<open>pre\<close> is a char, so it is printed as its code.\<close>

fun nat_string :: "nat \<Rightarrow> string" where
  "nat_string n = (if n < 10 then [char_of (48 + n)] else nat_string (n div 10) @ [char_of (48 + n mod 10)])"

declare nat_string.simps [simp del]

fun say_row :: "string \<Rightarrow> nat \<Rightarrow> char \<Rightarrow> nat \<Rightarrow> string \<Rightarrow> string" where
  "say_row [] i pre cnt cur = cur"
| "say_row (c # cs) i pre cnt cur =
     (if c = pre then say_row cs (i + 1) pre (cnt + 1) cur
      else say_row cs (i + 1) c 1 (if i \<noteq> 0 then cur @ nat_string (of_char pre) @ nat_string cnt else cur))"

partial_function (option) say_rounds :: "int \<Rightarrow> string \<Rightarrow> string ub" where
  "say_rounds n res =
     do { n' \<leftarrow> as_int (n - 1);
          if n' \<noteq> 0 then say_rounds n' (say_row res 0 NUL 0 []) else Some res }"

definition countAndSay :: "int \<Rightarrow> string ub" where
  "countAndSay n = say_rounds n ''1''"

lemma say_rounds_empty: "in_int (int k + 1) \<Longrightarrow> say_rounds (int k + 1) [] = Some []"
  by (induction k) (simp_all add: say_rounds.simps [of _ "[]"] in_int_def)

text \<open>
  \<^verbatim>\<open>countAndSay\<close> never writes the last group of a row: for 1 it returns \<open>1\<close>, and
  for every greater number the empty string.
\<close>

theorem countAndSay_empty:
  "1 < n \<Longrightarrow> n \<le> INT_MAX \<Longrightarrow> countAndSay 1 = Some ''1'' \<and> countAndSay n = Some []"
  using say_rounds_empty [of "nat (n - 2)"]
  by (simp add: countAndSay_def say_rounds.simps [of _ "''1''"] in_int_def)

theorem countAndSay_empty_witness: "countAndSay 4 = Some []"
  using countAndSay_empty [of 4] by simp

end
