(* ===== verification/StringClass.thy ===== *)
theory StringClass
  imports MyString
begin

text \<open>
  The class \<^verbatim>\<open>String\<close> of \<^verbatim>\<open>cpp/string/string_class.cpp\<close>: an object owns a block
  of characters on the heap and knows its length. The heap is explicit here, so that a use of a freed
  block, a block that is freed twice and a block that is lost are visible. A \<^verbatim>\<open>const char *\<close>
  argument is the memory of a literal, or a position inside a block. A program is a sequence of
  statements over numbered variables; the operations that give a new object give it to a variable. The
  contract says that such a program computes what the same statements do on strings, and that the
  allocated blocks are at every point those of the variables that are alive. The class
  \<^verbatim>\<open>MyString2\<close> of the same file does not compile and is left out.
\<close>

section \<open>The heap\<close>

record str_heap =
  blocks :: "nat \<Rightarrow> bytes option"
  fresh :: nat

definition new_block :: "int \<Rightarrow> str_heap \<Rightarrow> (nat \<times> str_heap) ub" where
  "new_block n H =
     (if n < 0 then None
      else Some (fresh H, H\<lparr>blocks := (blocks H)(fresh H \<mapsto> replicate (nat n) None), fresh := fresh H + 1\<rparr>))"

definition delete_block :: "nat \<Rightarrow> str_heap \<Rightarrow> str_heap ub" where
  "delete_block a H = (if blocks H a = None then None else Some (H\<lparr>blocks := (blocks H)(a := None)\<rparr>))"

definition set_block :: "nat \<Rightarrow> bytes \<Rightarrow> str_heap \<Rightarrow> str_heap" where
  "set_block a b H = H\<lparr>blocks := (blocks H)(a \<mapsto> b)\<rparr>"

text \<open>\<^verbatim>\<open>strcpy(dst + off, src)\<close>, where source and destination are different blocks.\<close>

fun strcpy_at :: "bytes \<Rightarrow> nat \<Rightarrow> bytes \<Rightarrow> bytes ub" where
  "strcpy_at dst off [] = None"
| "strcpy_at dst off (b # src) =
     (case b of
        None \<Rightarrow> None
      | Some c \<Rightarrow>
          if off < length dst
          then if c = NUL then Some (dst[off := Some c]) else strcpy_at (dst[off := Some c]) (off + 1) src
          else None)"

definition copy_string :: "nat \<Rightarrow> int \<Rightarrow> bytes \<Rightarrow> str_heap \<Rightarrow> str_heap ub" where
  "copy_string a off src H =
     do { dst \<leftarrow> blocks H a;
          dst' \<leftarrow> (if off < 0 then None else strcpy_at dst (nat off) src);
          Some (set_block a dst' H) }"

text \<open>\<^verbatim>\<open>strcmp(a, b) == 0\<close>.\<close>

fun same_string :: "bytes \<Rightarrow> bytes \<Rightarrow> bool ub" where
  "same_string (Some c # as) (Some d # bs) =
     (if c \<noteq> d then Some False else if c = NUL then Some True else same_string as bs)"
| "same_string _ _ = None"

text \<open>What \<^verbatim>\<open><<\<close> writes for a \<^verbatim>\<open>char *\<close>.\<close>

fun written :: "bytes \<Rightarrow> string ub" where
  "written [] = None"
| "written (b # bs) = (case b of None \<Rightarrow> None | Some c \<Rightarrow> if c = NUL then Some [] else map_option ((#) c) (written bs))"

section \<open>The class\<close>

record str_obj =
  sdata :: nat
  ssize :: int

datatype char_ptr = Literal bytes | Inside nat nat

definition memory_at :: "char_ptr \<Rightarrow> str_heap \<Rightarrow> bytes ub" where
  "memory_at p H = (case p of Literal b \<Rightarrow> Some b | Inside a off \<Rightarrow> map_option (drop off) (blocks H a))"

text \<open>\<^verbatim>\<open>String(const char *)\<close>; \<^term>\<open>None\<close> is the null pointer.\<close>

definition String_new :: "char_ptr option \<Rightarrow> str_heap \<Rightarrow> (str_obj \<times> str_heap) ub" where
  "String_new str H =
     (case str of
        None \<Rightarrow> do { (a, H) \<leftarrow> new_block 1 H; Some (\<lparr>sdata = a, ssize = 0\<rparr>, set_block a [Some NUL] H) }
      | Some p \<Rightarrow>
          do { m \<leftarrow> memory_at p H;
               n \<leftarrow> strlen m;
               sz \<leftarrow> as_int (int n);
               (a, H) \<leftarrow> new_block (sz + 1) H;
               H \<leftarrow> copy_string a 0 m H;
               Some (\<lparr>sdata = a, ssize = sz\<rparr>, H) })"

definition String_copy :: "str_obj \<Rightarrow> str_heap \<Rightarrow> (str_obj \<times> str_heap) ub" where
  "String_copy str H =
     do { n \<leftarrow> as_int (ssize str + 1);
          (a, H) \<leftarrow> new_block n H;
          src \<leftarrow> blocks H (sdata str);
          H \<leftarrow> copy_string a 0 src H;
          Some (\<lparr>sdata = a, ssize = ssize str\<rparr>, H) }"

definition String_destroy :: "str_obj \<Rightarrow> str_heap \<Rightarrow> str_heap ub" where
  "String_destroy this H = delete_block (sdata this) H"

definition String_plus :: "str_obj \<Rightarrow> str_obj \<Rightarrow> str_heap \<Rightarrow> (str_obj \<times> str_heap) ub" where
  "String_plus this str H =
     do { (newStr, H) \<leftarrow> String_new None H;
          H \<leftarrow> delete_block (sdata newStr) H;
          sz \<leftarrow> as_int (ssize this + ssize str);
          n \<leftarrow> as_int (sz + 1);
          (a, H) \<leftarrow> new_block n H;
          src1 \<leftarrow> blocks H (sdata this);
          H \<leftarrow> copy_string a 0 src1 H;
          src2 \<leftarrow> blocks H (sdata str);
          H \<leftarrow> copy_string a (ssize this) src2 H;
          Some (\<lparr>sdata = a, ssize = sz\<rparr>, H) }"

definition String_assign :: "str_obj \<Rightarrow> str_obj \<Rightarrow> str_heap \<Rightarrow> (str_obj \<times> str_heap) ub" where
  "String_assign this str H =
     (if sdata this = sdata str then Some (this, H)
      else do { H \<leftarrow> delete_block (sdata this) H;
                n \<leftarrow> as_int (ssize str + 1);
                (a, H) \<leftarrow> new_block n H;
                src \<leftarrow> blocks H (sdata str);
                H \<leftarrow> copy_string a 0 src H;
                Some (\<lparr>sdata = a, ssize = ssize str\<rparr>, H) })"

definition String_assign_chars :: "str_obj \<Rightarrow> char_ptr \<Rightarrow> str_heap \<Rightarrow> (str_obj \<times> str_heap) ub" where
  "String_assign_chars this str H =
     (if str = Inside (sdata this) 0 then Some (this, H)
      else do { H \<leftarrow> delete_block (sdata this) H;
                m \<leftarrow> memory_at str H;
                k \<leftarrow> strlen m;
                sz \<leftarrow> as_int (int k);
                n \<leftarrow> as_int (sz + 1);
                (a, H) \<leftarrow> new_block n H;
                H \<leftarrow> copy_string a 0 m H;
                Some (\<lparr>sdata = a, ssize = sz\<rparr>, H) })"

definition String_eq :: "str_obj \<Rightarrow> str_obj \<Rightarrow> str_heap \<Rightarrow> bool ub" where
  "String_eq this str H = do { a \<leftarrow> blocks H (sdata this); b \<leftarrow> blocks H (sdata str); same_string a b }"

definition String_length :: "str_obj \<Rightarrow> int" where
  "String_length this = ssize this"

text \<open>The loop of \<^verbatim>\<open>substr\<close>, which does not look at the length of the string it reads.\<close>

function substr_copy :: "bytes \<Rightarrow> int \<Rightarrow> int \<Rightarrow> int \<Rightarrow> bytes \<Rightarrow> bytes ub" where
  "substr_copy src start n i dst =
     (if i < n
      then do { k \<leftarrow> as_int (start + i);
                b \<leftarrow> iget src k;
                c \<leftarrow> b;
                dst' \<leftarrow> iset dst i (Some c);
                substr_copy src start n (i + 1) dst' }
      else Some dst)"
  by pat_completeness auto
termination
  by (relation "measure (\<lambda>(src, start, n, i, dst). nat (n - i))") auto

declare substr_copy.simps [simp del]

definition String_substr :: "str_obj \<Rightarrow> int \<Rightarrow> int \<Rightarrow> str_heap \<Rightarrow> (str_obj \<times> str_heap) ub" where
  "String_substr this start n H =
     do { (newStr, H) \<leftarrow> String_new None H;
          H \<leftarrow> delete_block (sdata newStr) H;
          m \<leftarrow> as_int (n + 1);
          (a, H) \<leftarrow> new_block m H;
          src \<leftarrow> blocks H (sdata this);
          dst \<leftarrow> blocks H a;
          dst \<leftarrow> substr_copy src start n 0 dst;
          dst \<leftarrow> iset dst n (Some NUL);
          Some (\<lparr>sdata = a, ssize = n\<rparr>, set_block a dst H) }"

definition String_out :: "str_obj \<Rightarrow> str_heap \<Rightarrow> string ub" where
  "String_out str H = do { b \<leftarrow> blocks H (sdata str); written b }"

section \<open>Programs with strings\<close>

datatype str_stmt =
  Declare nat "string option"
| CopyOf nat nat
| Concat nat nat nat
| AssignTo nat nat
| AssignChars nat string
| Substr nat nat int int
| Scope_end nat

type_synonym str_vars = "nat \<Rightarrow> str_obj option"

fun str_exec :: "str_stmt \<Rightarrow> str_vars \<times> str_heap \<Rightarrow> (str_vars \<times> str_heap) ub" where
  "str_exec (Declare v lit) (V, H) =
     do { (s, H) \<leftarrow> String_new (map_option (\<lambda>w. Literal (cstring w)) lit) H; Some (V(v \<mapsto> s), H) }"
| "str_exec (CopyOf v w) (V, H) = do { t \<leftarrow> V w; (s, H) \<leftarrow> String_copy t H; Some (V(v \<mapsto> s), H) }"
| "str_exec (Concat v w u) (V, H) =
     do { t \<leftarrow> V w; t' \<leftarrow> V u; (s, H) \<leftarrow> String_plus t t' H; Some (V(v \<mapsto> s), H) }"
| "str_exec (AssignTo v w) (V, H) =
     do { this \<leftarrow> V v; t \<leftarrow> V w; (s, H) \<leftarrow> String_assign this t H; Some (V(v \<mapsto> s), H) }"
| "str_exec (AssignChars v w) (V, H) =
     do { this \<leftarrow> V v; (s, H) \<leftarrow> String_assign_chars this (Literal (cstring w)) H; Some (V(v \<mapsto> s), H) }"
| "str_exec (Substr v w start n) (V, H) =
     do { t \<leftarrow> V w; (s, H) \<leftarrow> String_substr t start n H; Some (V(v \<mapsto> s), H) }"
| "str_exec (Scope_end v) (V, H) = do { this \<leftarrow> V v; H \<leftarrow> String_destroy this H; Some (V(v := None), H) }"

fun str_run :: "str_stmt list \<Rightarrow> str_vars \<times> str_heap \<Rightarrow> (str_vars \<times> str_heap) ub" where
  "str_run [] s = Some s"
| "str_run (c # cs) s = do { s' \<leftarrow> str_exec c s; str_run cs s' }"

definition str_start :: "str_vars \<times> str_heap" where
  "str_start = (\<lambda>_. None, \<lparr>blocks = \<lambda>_. None, fresh = 0\<rparr>)"

section \<open>The same statements on strings\<close>

type_synonym texts = "nat \<Rightarrow> string option"

text \<open>
  A statement is admissible when the variables it reads are alive, the one it declares is not, a
  substring lies within its string, and no string is longer than an \<^verbatim>\<open>int\<close> can say.
\<close>

fun text_ok :: "str_stmt \<Rightarrow> texts \<Rightarrow> bool" where
  "text_ok (Declare v lit) T \<longleftrightarrow> T v = None \<and> (\<forall>w. lit = Some w \<longrightarrow> NUL \<notin> set w \<and> in_int (int (length w) + 1))"
| "text_ok (CopyOf v w) T \<longleftrightarrow> T v = None \<and> T w \<noteq> None"
| "text_ok (Concat v w u) T \<longleftrightarrow> T v = None \<and> T w \<noteq> None \<and> T u \<noteq> None \<and>
     in_int (int (length (the (T w))) + int (length (the (T u))) + 1)"
| "text_ok (AssignTo v w) T \<longleftrightarrow> T v \<noteq> None \<and> T w \<noteq> None"
| "text_ok (AssignChars v w) T \<longleftrightarrow> T v \<noteq> None \<and> NUL \<notin> set w \<and> in_int (int (length w) + 1)"
| "text_ok (Substr v w start n) T \<longleftrightarrow> T v = None \<and> T w \<noteq> None \<and> 0 \<le> start \<and> 0 \<le> n \<and> start + n \<le> int (length (the (T w)))"
| "text_ok (Scope_end v) T \<longleftrightarrow> T v \<noteq> None"

fun text_exec :: "str_stmt \<Rightarrow> texts \<Rightarrow> texts" where
  "text_exec (Declare v lit) T = T(v \<mapsto> (case lit of None \<Rightarrow> [] | Some w \<Rightarrow> w))"
| "text_exec (CopyOf v w) T = T(v := T w)"
| "text_exec (Concat v w u) T = T(v \<mapsto> the (T w) @ the (T u))"
| "text_exec (AssignTo v w) T = T(v := T w)"
| "text_exec (AssignChars v w) T = T(v \<mapsto> w)"
| "text_exec (Substr v w start n) T = T(v \<mapsto> take (nat n) (drop (nat start) (the (T w))))"
| "text_exec (Scope_end v) T = T(v := None)"

fun texts_ok :: "str_stmt list \<Rightarrow> texts \<Rightarrow> bool" where
  "texts_ok [] T = True"
| "texts_ok (c # cs) T = (text_ok c T \<and> texts_ok cs (text_exec c T))"

definition text_run :: "str_stmt list \<Rightarrow> texts" where
  "text_run cs = fold text_exec cs (\<lambda>_. None)"

section \<open>Lemmas on characters in memory\<close>

lemma blocks_set_block [simp]: "blocks (set_block a b H) = (blocks H)(a \<mapsto> b)" "fresh (set_block a b H) = fresh H"
  by (simp_all add: set_block_def)

lemma strlen_heap_text: "NUL \<notin> set w \<Longrightarrow> strlen (cstring w @ rest) = Some (length w)"
  by (induction w) (auto simp: cstring_def)

lemma strcpy_at_cstring:
  "NUL \<notin> set w \<Longrightarrow> length us + length w < length (us @ vs) \<Longrightarrow>
     strcpy_at (us @ vs) (length us) (cstring w) = Some (us @ cstring w @ drop (length w + 1) vs)"
proof (induction w arbitrary: us vs)
  case Nil
  then show ?case by (cases vs) (auto simp: cstring_def)
next
  case (Cons c w)
  then obtain v vs' where vs: "vs = v # vs'" by (cases vs) auto
  have "(us @ vs)[length us := Some c] = (us @ [Some c]) @ vs'" using vs by simp
  then show ?case
    using Cons.IH [of "us @ [Some c]" vs'] Cons.prems vs by (auto simp: cstring_def)
qed

lemma same_string_cstring:
  "NUL \<notin> set v \<Longrightarrow> NUL \<notin> set w \<Longrightarrow> same_string (cstring v) (cstring w) = Some (v = w)"
proof (induction v arbitrary: w)
  case Nil
  then show ?case by (cases w) (auto simp: cstring_def)
next
  case (Cons c v)
  then show ?case by (cases w) (auto simp: cstring_def)
qed

lemma written_cstring: "NUL \<notin> set w \<Longrightarrow> written (cstring w) = Some w"
  by (induction w) (auto simp: cstring_def)

section \<open>Every operation creates a well-formed object\<close>

text \<open>The new object has a block of its own with its text; the other blocks are as they were.\<close>

definition created :: "string \<Rightarrow> str_heap \<Rightarrow> str_obj \<Rightarrow> str_heap \<Rightarrow> bool" where
  "created w H s H' \<longleftrightarrow> NUL \<notin> set w \<and> in_int (int (length w) + 1) \<and> ssize s = int (length w) \<and>
     fresh H \<le> sdata s \<and> sdata s < fresh H' \<and> blocks H' = (blocks H)(sdata s \<mapsto> cstring w)"

definition heap_ok :: "str_heap \<Rightarrow> bool" where
  "heap_ok H \<longleftrightarrow> (\<forall>a\<in>dom (blocks H). a < fresh H)"

lemma heap_ok_fresh: "heap_ok H \<Longrightarrow> fresh H \<le> a \<Longrightarrow> blocks H a = None"
  by (auto simp: heap_ok_def dom_def)

lemma heap_ok_neq: "heap_ok H \<Longrightarrow> blocks H a = Some b \<Longrightarrow> a < fresh H"
  by (auto simp: heap_ok_def)

text \<open>An object of the heap and its text.\<close>

definition holds :: "str_obj \<Rightarrow> string \<Rightarrow> str_heap \<Rightarrow> bool" where
  "holds s w H \<longleftrightarrow> NUL \<notin> set w \<and> in_int (int (length w) + 1) \<and> ssize s = int (length w) \<and>
     blocks H (sdata s) = Some (cstring w)"

lemma in_int_less: "in_int (int n + 1) \<Longrightarrow> in_int (int n)"
  by (simp add: in_int_def)

lemma copy_new:
  "NUL \<notin> set w \<Longrightarrow> copy_string a 0 (cstring w) (set_block a (replicate (length w + 1) None) H) = Some (set_block a (cstring w) H)"
  using strcpy_at_cstring [of w "[]" "replicate (length w + 1) None"]
  by (simp add: copy_string_def set_block_def del: replicate_Suc)

lemma new_block_set: "0 \<le> n \<Longrightarrow> new_block n H = Some (fresh H, set_block (fresh H) (replicate (nat n) None) (H\<lparr>fresh := fresh H + 1\<rparr>))"
  by (simp add: new_block_def set_block_def)

lemma String_new_literal:
  "NUL \<notin> set w \<Longrightarrow> in_int (int (length w) + 1) \<Longrightarrow>
     \<exists>s H'. String_new (Some (Literal (cstring w))) H = Some (s, H') \<and> created w H s H'"
  using strlen_heap_text [of w "[]"] copy_new [of w "fresh H" "H\<lparr>fresh := fresh H + 1\<rparr>"]
  by (simp add: String_new_def memory_at_def in_int_less new_block_set nat_add_distrib created_def)

lemma String_new_null: "\<exists>s H'. String_new None H = Some (s, H') \<and> created [] H s H'"
  by (simp add: String_new_def new_block_set created_def cstring_def in_int_def)

lemma String_copy_created:
  "heap_ok H \<Longrightarrow> holds t w H \<Longrightarrow> \<exists>s H'. String_copy t H = Some (s, H') \<and> created w H s H'"
  using copy_new [of w "fresh H" "H\<lparr>fresh := fresh H + 1\<rparr>"] heap_ok_neq [of H "sdata t"]
  by (auto simp: String_copy_def holds_def new_block_set nat_add_distrib created_def)

text \<open>The block that the default constructor allocates for \<^verbatim>\<open>newStr\<close> and that is deleted at once.\<close>

lemma scratch_block:
  assumes "heap_ok H"
  shows "String_new None H = Some (\<lparr>sdata = fresh H, ssize = 0\<rparr>, set_block (fresh H) [Some NUL] (H\<lparr>fresh := fresh H + 1\<rparr>))"
    and "delete_block (fresh H) (set_block (fresh H) [Some NUL] (H\<lparr>fresh := fresh H + 1\<rparr>)) = Some (H\<lparr>fresh := fresh H + 1\<rparr>)"
  using heap_ok_fresh [OF assms order.refl]
  by (simp_all add: String_new_def new_block_set delete_block_def set_block_def fun_upd_idem)

lemma created_later: "created w (H\<lparr>fresh := fresh H + 1\<rparr>) s H' \<Longrightarrow> created w H s H'"
  by (auto simp: created_def)

lemma String_plus_created:
  assumes "heap_ok H" "holds s v H" "holds t w H" "in_int (int (length v) + int (length w) + 1)"
  shows "\<exists>u H'. String_plus s t H = Some (u, H') \<and> created (v @ w) H u H'"
proof -
  let ?H = "H\<lparr>fresh := fresh H + 1\<rparr>" and ?n = "length v + length w"
  let ?a = "fresh H + 1"
  let ?H1 = "set_block ?a (replicate (?n + 1) None) (?H\<lparr>fresh := ?a + 1\<rparr>)"
  let ?H2 = "set_block ?a (cstring v @ replicate (length w) None) (?H\<lparr>fresh := ?a + 1\<rparr>)"
  have n: "in_int (int ?n + 1)" "in_int (int ?n)" using assms(4) by (auto simp: in_int_def)
  have new: "new_block (int ?n + 1) ?H = Some (?a, ?H1)"
    by (simp add: new_block_set nat_add_distrib del: replicate_Suc)
  have vw: "NUL \<notin> set v" "NUL \<notin> set w" "ssize s = int (length v)" "ssize t = int (length w)"
    "blocks ?H1 (sdata s) = Some (cstring v)" "blocks ?H2 (sdata t) = Some (cstring w)"
    using assms(2,3) heap_ok_neq [OF assms(1), of "sdata s"] heap_ok_neq [OF assms(1), of "sdata t"] by (auto simp: holds_def)
  have c1: "copy_string ?a 0 (cstring v) ?H1 = Some ?H2"
  proof -
    have "drop (length v + 1) (replicate (?n + 1) (None :: char option)) = replicate (length w) None"
      by (simp del: replicate_Suc)
    then show ?thesis
      using strcpy_at_cstring [of v "[]" "replicate (?n + 1) None"] vw(1)
      by (simp add: copy_string_def set_block_def del: replicate_Suc)
  qed
  have c2: "copy_string ?a (int (length v)) (cstring w) ?H2 = Some (set_block ?a (cstring (v @ w)) (?H\<lparr>fresh := ?a + 1\<rparr>))"
    using strcpy_at_cstring [of w "map Some v" "Some NUL # replicate (length w) None"] vw(2)
    by (simp add: copy_string_def set_block_def cstring_def)
  have "String_plus s t H = Some (\<lparr>sdata = ?a, ssize = int ?n\<rparr>, set_block ?a (cstring (v @ w)) (?H\<lparr>fresh := ?a + 1\<rparr>))"
    unfolding String_plus_def scratch_block(1) [OF assms(1)] Option.bind.simps case_prod_conv str_obj.select_convs scratch_block(2) [OF assms(1)]
    using n new vw c1 c2 by simp
  then show ?thesis using n vw(1,2) by (auto simp: created_def)
qed

text \<open>The copying loop of \<^verbatim>\<open>substr\<close> inside the string.\<close>

lemma substr_copy_ok:
  assumes "0 \<le> start" "in_int (int (length w) + 1)" "start + int n \<le> int (length w)" "i \<le> n" "length us = i"
  shows "substr_copy (cstring w) start (int n) (int i) (us @ replicate (n - i + 1) None) =
    Some (us @ map Some (take (n - i) (drop (nat start + i) w)) @ [None])"
  using assms(4,5)
proof (induction "n - i" arbitrary: i us)
  case 0
  then show ?case by (subst substr_copy.simps) simp
next
  case (Suc k)
  then have lt: "i < n" by simp
  let ?c = "w ! (nat start + i)"
  have idx: "nat start + i < length w" using lt assms(1,3) by linarith
  have "in_int (start + int i)" using assms(1,2) idx by (auto simp: in_int_def)
  moreover have "iget (cstring w) (start + int i) = Some (Some ?c)"
    using assms(1) idx by (simp add: iget_in cstring_def nth_append nat_add_distrib)
  moreover have "iset (us @ replicate (n - i + 1) None) (int i) (Some ?c) = Some ((us @ [Some ?c]) @ replicate (n - Suc i + 1) None)"
    using lt Suc.prems(2) by (simp add: iset_in list_update_append Suc_diff_Suc)
  moreover have "take (n - i) (drop (nat start + i) w) = ?c # take (n - Suc i) (drop (nat start + Suc i) w)"
    by (simp add: Cons_nth_drop_Suc [OF idx, symmetric] Suc_diff_Suc [OF lt, symmetric])
  moreover have "substr_copy (cstring w) start (int n) (int (Suc i)) ((us @ [Some ?c]) @ replicate (n - Suc i + 1) None) =
      Some ((us @ [Some ?c]) @ map Some (take (n - Suc i) (drop (nat start + Suc i) w)) @ [None])"
    using Suc.hyps(1) [of "Suc i" "us @ [Some ?c]"] Suc.hyps(2) Suc.prems by simp
  ultimately show ?case
    using lt by (subst substr_copy.simps) (simp add: add.commute)
qed

lemma String_substr_created:
  assumes "heap_ok H" "holds t w H" "0 \<le> start" "0 \<le> n" "start + n \<le> int (length w)"
  shows "\<exists>s H'. String_substr t start n H = Some (s, H') \<and> created (take (nat n) (drop (nat start) w)) H s H'"
proof -
  obtain k where k: "n = int k" using assms(4) nonneg_int_cases by blast
  let ?H = "H\<lparr>fresh := fresh H + 1\<rparr>" and ?a = "fresh H + 1" and ?sub = "take k (drop (nat start) w)"
  let ?H1 = "set_block ?a (replicate (k + 1) None) (?H\<lparr>fresh := ?a + 1\<rparr>)"
  have w: "NUL \<notin> set w" "in_int (int (length w) + 1)" "blocks ?H1 (sdata t) = Some (cstring w)"
    using assms(2) heap_ok_neq [OF assms(1), of "sdata t"] by (auto simp: holds_def)
  have len: "length ?sub = k" using assms(3,5) k by simp
  have m: "in_int (int k + 1)" using w(2) assms(3,5) k by (auto simp: in_int_def)
  have new: "new_block (int k + 1) ?H = Some (?a, ?H1)"
    by (simp add: new_block_set nat_add_distrib del: replicate_Suc)
  have copy: "substr_copy (cstring w) start (int k) 0 (replicate (k + 1) None) = Some (map Some ?sub @ [None])"
    using substr_copy_ok [of start w k 0 "[]"] assms(3,5) w(2) k by simp
  have nul: "iset (map Some ?sub @ [None]) (int k) (Some NUL) = Some (cstring ?sub)"
    using len by (simp add: iset_in list_update_append cstring_def)
  have "String_substr t start n H =
      Some (\<lparr>sdata = ?a, ssize = n\<rparr>, set_block ?a (cstring ?sub) ?H1)"
    unfolding String_substr_def scratch_block(1) [OF assms(1)] Option.bind.simps case_prod_conv str_obj.select_convs scratch_block(2) [OF assms(1)] k
    using m new w(3) copy nul by (simp del: replicate_Suc)
  moreover have "NUL \<notin> set ?sub" using w(1) by (auto dest: in_set_takeD in_set_dropD)
  ultimately show ?thesis using len m k by (auto simp: created_def)
qed

lemma String_assign_created:
  assumes "heap_ok H" "holds s v H" "holds t w H" "sdata s \<noteq> sdata t"
  shows "\<exists>u H'. String_assign s t H = Some (u, H') \<and> created w (H\<lparr>blocks := (blocks H)(sdata s := None)\<rparr>) u H'"
proof -
  let ?H = "H\<lparr>blocks := (blocks H)(sdata s := None)\<rparr>"
  have "heap_ok ?H" "holds t w ?H" using assms by (auto simp: heap_ok_def holds_def split: if_splits)
  then obtain u H' where "String_copy t ?H = Some (u, H')" "created w ?H u H'" using String_copy_created by blast
  moreover have "String_assign s t H = String_copy t ?H"
    using assms(2,4) by (simp add: String_assign_def String_copy_def delete_block_def holds_def)
  ultimately show ?thesis by auto
qed

lemma String_assign_chars_created:
  assumes "holds s v H" "NUL \<notin> set w" "in_int (int (length w) + 1)"
  shows "\<exists>u H'. String_assign_chars s (Literal (cstring w)) H = Some (u, H') \<and>
    created w (H\<lparr>blocks := (blocks H)(sdata s := None)\<rparr>) u H'"
proof -
  let ?H = "H\<lparr>blocks := (blocks H)(sdata s := None)\<rparr>"
  obtain u H' where "String_new (Some (Literal (cstring w))) ?H = Some (u, H')" "created w ?H u H'"
    using String_new_literal [OF assms(2,3)] by blast
  moreover have "String_assign_chars s (Literal (cstring w)) H = String_new (Some (Literal (cstring w))) ?H"
    using assms strlen_heap_text [OF assms(2), of "[]"]
    by (simp add: String_assign_chars_def String_new_def delete_block_def holds_def memory_at_def in_int_less)
  ultimately show ?thesis by auto
qed

section \<open>Programs with strings compute on strings\<close>

text \<open>
  The state of a program: every variable that is alive holds its text, no two variables share a
  block, and the allocated blocks are exactly those of the variables.
\<close>

definition strings_ok :: "texts \<Rightarrow> str_vars \<Rightarrow> str_heap \<Rightarrow> bool" where
  "strings_ok T V H \<longleftrightarrow>
     (\<forall>v. case V v of None \<Rightarrow> T v = None | Some s \<Rightarrow> (\<exists>w. T v = Some w \<and> holds s w H)) \<and>
     (\<forall>v u s t. V v = Some s \<longrightarrow> V u = Some t \<longrightarrow> sdata s = sdata t \<longrightarrow> v = u) \<and>
     (\<forall>a. a \<in> dom (blocks H) \<longleftrightarrow> (\<exists>v s. V v = Some s \<and> sdata s = a)) \<and>
     heap_ok H"

lemma strings_ok_var: "strings_ok T V H \<Longrightarrow> T v = Some w \<Longrightarrow> \<exists>s. V v = Some s \<and> holds s w H"
  unfolding strings_ok_def by (elim conjE allE [of _ v]) (auto split: option.splits)

lemma strings_ok_none: "strings_ok T V H \<Longrightarrow> V v = None \<longleftrightarrow> T v = None"
  unfolding strings_ok_def by (elim conjE allE [of _ v]) (auto split: option.splits)

lemma strings_ok_heap: "strings_ok T V H \<Longrightarrow> heap_ok H"
  by (simp add: strings_ok_def)

lemma strings_ok_shared: "strings_ok T V H \<Longrightarrow> V v = Some s \<Longrightarrow> V u = Some t \<Longrightarrow> sdata s = sdata t \<Longrightarrow> v = u"
  unfolding strings_ok_def by blast

lemma strings_ok_create:
  assumes ok: "strings_ok T V H" and none: "V v = None" and new: "created w H s H'"
  shows "strings_ok (T(v \<mapsto> w)) (V(v \<mapsto> s)) H'"
proof -
  have blocks: "blocks H' = (blocks H)(sdata s \<mapsto> cstring w)" and fresh: "fresh H \<le> sdata s" "sdata s < fresh H'"
    using new by (auto simp: created_def)
  have old: "sdata t < fresh H" if "V u = Some t" for u t
    using ok that unfolding strings_ok_def heap_ok_def by blast
  have other: "holds t x H'" if "V u = Some t" "holds t x H" for u t x
    using that old [OF that(1)] fresh blocks by (auto simp: holds_def)
  have self: "holds s w H'" using new by (auto simp: created_def holds_def)
  have "case (V(v \<mapsto> s)) u of None \<Rightarrow> (T(v \<mapsto> w)) u = None | Some t \<Rightarrow> (\<exists>x. (T(v \<mapsto> w)) u = Some x \<and> holds t x H')" for u
  proof (cases "V u")
    case None
    then show ?thesis using self strings_ok_none [OF ok, of u] by auto
  next
    case (Some t)
    then obtain x where "T u = Some x" using strings_ok_none [OF ok, of u] by auto
    then have "holds t x H" using strings_ok_var [OF ok, of u x] Some by auto
    with \<open>T u = Some x\<close> show ?thesis using Some none self other [OF Some] by auto
  qed
  moreover have "u = u'" if "(V(v \<mapsto> s)) u = Some t" "(V(v \<mapsto> s)) u' = Some t'" "sdata t = sdata t'" for u u' t t'
    using that strings_ok_shared [OF ok, of u t u' t'] old [of u t] old [of u' t'] fresh(1) by (auto split: if_splits)
  moreover have "a \<in> dom (blocks H') \<longleftrightarrow> (\<exists>u t. (V(v \<mapsto> s)) u = Some t \<and> sdata t = a)" for a
  proof -
    have "a \<in> dom (blocks H) \<longleftrightarrow> (\<exists>u t. V u = Some t \<and> sdata t = a)" using ok unfolding strings_ok_def by blast
    moreover have "a \<in> dom (blocks H') \<longleftrightarrow> a = sdata s \<or> a \<in> dom (blocks H)" by (auto simp: blocks)
    moreover have "(\<exists>u t. (V(v \<mapsto> s)) u = Some t \<and> sdata t = a) \<longleftrightarrow> a = sdata s \<or> (\<exists>u t. V u = Some t \<and> sdata t = a)"
      using none by (metis fun_upd_apply option.distinct(1) option.inject)
    ultimately show ?thesis by simp
  qed
  moreover have "a < fresh H'" if "a \<in> dom (blocks H')" for a
  proof (cases "a = sdata s")
    case False
    then have "a < fresh H" using that strings_ok_heap [OF ok] by (auto simp: blocks heap_ok_def)
    then show ?thesis using fresh by simp
  qed (use fresh in simp)
  then have "heap_ok H'" by (simp add: heap_ok_def)
  ultimately show ?thesis unfolding strings_ok_def by blast
qed

lemma strings_ok_delete:
  assumes ok: "strings_ok T V H" and s: "V v = Some s"
  shows "strings_ok (T(v := None)) (V(v := None)) (H\<lparr>blocks := (blocks H)(sdata s := None)\<rparr>)"
proof -
  let ?H = "H\<lparr>blocks := (blocks H)(sdata s := None)\<rparr>"
  have other: "holds t x ?H" if "V u = Some t" "holds t x H" "u \<noteq> v" for u t x
    using that strings_ok_shared [OF ok that(1) s] by (auto simp: holds_def)
  have "case (V(v := None)) u of None \<Rightarrow> (T(v := None)) u = None | Some t \<Rightarrow> (\<exists>x. (T(v := None)) u = Some x \<and> holds t x ?H)" for u
  proof (cases "V u")
    case None
    then show ?thesis using strings_ok_none [OF ok, of u] by auto
  next
    case (Some t)
    then obtain x where "T u = Some x" using strings_ok_none [OF ok, of u] by auto
    then have "holds t x H" using strings_ok_var [OF ok, of u x] Some by auto
    with \<open>T u = Some x\<close> show ?thesis using Some other [OF Some] by auto
  qed
  moreover have "u = u'" if "(V(v := None)) u = Some t" "(V(v := None)) u' = Some t'" "sdata t = sdata t'" for u u' t t'
    using that strings_ok_shared [OF ok, of u t u' t'] by (auto split: if_splits)
  moreover have "a \<in> dom (blocks ?H) \<longleftrightarrow> (\<exists>u t. (V(v := None)) u = Some t \<and> sdata t = a)" for a
  proof -
    have "a \<in> dom (blocks H) \<longleftrightarrow> (\<exists>u t. V u = Some t \<and> sdata t = a)" using ok unfolding strings_ok_def by blast
    moreover have "a \<in> dom (blocks ?H) \<longleftrightarrow> a \<noteq> sdata s \<and> a \<in> dom (blocks H)" by auto
    moreover have "(\<exists>u t. (V(v := None)) u = Some t \<and> sdata t = a) \<longleftrightarrow> a \<noteq> sdata s \<and> (\<exists>u t. V u = Some t \<and> sdata t = a)"
      using s strings_ok_shared [OF ok _ s] by (metis fun_upd_apply option.distinct(1) option.inject)
    ultimately show ?thesis by simp
  qed
  moreover have "heap_ok ?H" using strings_ok_heap [OF ok] by (auto simp: heap_ok_def split: if_splits)
  ultimately show ?thesis unfolding strings_ok_def by blast
qed

lemma str_exec_ok:
  assumes ok: "strings_ok T V H" and adm: "text_ok c T"
  shows "\<exists>V' H'. str_exec c (V, H) = Some (V', H') \<and> strings_ok (text_exec c T) V' H'"
proof -
  note heap = strings_ok_heap [OF ok]
  show ?thesis
  proof (cases c)
    case (Declare v lit)
    obtain s H' where "String_new (map_option (\<lambda>w. Literal (cstring w)) lit) H = Some (s, H')"
        "created (case lit of None \<Rightarrow> [] | Some w \<Rightarrow> w) H s H'"
      using adm Declare String_new_null [of H] String_new_literal [of "the lit" H] by (cases lit) auto
    then show ?thesis using Declare adm strings_ok_create [OF ok, of v] strings_ok_none [OF ok, of v] by auto
  next
    case (CopyOf v w)
    then obtain x t where "T w = Some x" "V w = Some t" "holds t x H" using adm strings_ok_var [OF ok, of w] by auto
    moreover obtain s H' where "String_copy t H = Some (s, H')" "created x H s H'"
      using String_copy_created [OF heap \<open>holds t x H\<close>] by auto
    ultimately show ?thesis using CopyOf adm strings_ok_create [OF ok, of v x] strings_ok_none [OF ok, of v] by auto
  next
    case (Concat v w u)
    then obtain x t y t' where xs: "T w = Some x" "V w = Some t" "holds t x H" "T u = Some y" "V u = Some t'" "holds t' y H"
      using adm strings_ok_var [OF ok, of w] strings_ok_var [OF ok, of u] by auto
    moreover obtain s H' where "String_plus t t' H = Some (s, H')" "created (x @ y) H s H'"
      using String_plus_created [OF heap xs(3,6)] adm Concat xs by auto
    ultimately show ?thesis using Concat adm strings_ok_create [OF ok, of v "x @ y"] strings_ok_none [OF ok, of v] by auto
  next
    case (AssignTo v w)
    then obtain x t y t' where xs: "T v = Some x" "V v = Some t" "holds t x H" "T w = Some y" "V w = Some t'" "holds t' y H"
      using adm strings_ok_var [OF ok, of v] strings_ok_var [OF ok, of w] by auto
    show ?thesis
    proof (cases "v = w")
      case True
      then have "T(v := T w) = T" "V(v \<mapsto> t) = V" using xs by auto
      then show ?thesis using True AssignTo xs ok by (simp add: String_assign_def)
    next
      case False
      then have "sdata t \<noteq> sdata t'" using strings_ok_shared [OF ok xs(2,5)] by auto
      then obtain s H' where "String_assign t t' H = Some (s, H')" "created y (H\<lparr>blocks := (blocks H)(sdata t := None)\<rparr>) s H'"
        using String_assign_created [OF heap xs(3,6)] by auto
      then show ?thesis
        using AssignTo xs strings_ok_create [OF strings_ok_delete [OF ok xs(2)], of v y s H'] by simp
    qed
  next
    case (AssignChars v w)
    then obtain x t where xs: "T v = Some x" "V v = Some t" "holds t x H" using adm strings_ok_var [OF ok, of v] by auto
    then obtain s H' where "String_assign_chars t (Literal (cstring w)) H = Some (s, H')"
        "created w (H\<lparr>blocks := (blocks H)(sdata t := None)\<rparr>) s H'"
      using String_assign_chars_created [OF xs(3), of w] adm AssignChars by auto
    then show ?thesis
      using AssignChars xs strings_ok_create [OF strings_ok_delete [OF ok xs(2)], of v w s H'] by simp
  next
    case (Substr v w start n)
    then obtain x t where xs: "T w = Some x" "V w = Some t" "holds t x H" using adm strings_ok_var [OF ok, of w] by auto
    then obtain s H' where "String_substr t start n H = Some (s, H')" "created (take (nat n) (drop (nat start) x)) H s H'"
      using String_substr_created [OF heap xs(3), of start n] adm Substr by auto
    then show ?thesis using Substr xs adm strings_ok_create [OF ok, of v] strings_ok_none [OF ok, of v] by auto
  next
    case (Scope_end v)
    then obtain x t where xs: "T v = Some x" "V v = Some t" "holds t x H" using adm strings_ok_var [OF ok, of v] by auto
    then show ?thesis
      using Scope_end strings_ok_delete [OF ok xs(2)] by (simp add: String_destroy_def delete_block_def holds_def)
  qed
qed

lemma str_run_ok:
  "strings_ok T V H \<Longrightarrow> texts_ok cs T \<Longrightarrow> \<exists>V' H'. str_run cs (V, H) = Some (V', H') \<and> strings_ok (fold text_exec cs T) V' H'"
proof (induction cs arbitrary: T V H)
  case (Cons c cs)
  then obtain V' H' where "str_exec c (V, H) = Some (V', H')" "strings_ok (text_exec c T) V' H'"
    using str_exec_ok [of T V H c] by auto
  then show ?case using Cons.IH [of "text_exec c T" V' H'] Cons.prems(2) by simp
qed simp

lemma str_start_ok: "str_start = (\<lambda>_. None, \<lparr>blocks = \<lambda>_. None, fresh = 0\<rparr>) \<and> strings_ok (\<lambda>_. None) (\<lambda>_. None) \<lparr>blocks = \<lambda>_. None, fresh = 0\<rparr>"
  by (simp add: str_start_def strings_ok_def heap_ok_def)

text \<open>
  C29. Every program of admissible statements (declarations, copies, concatenations, both assignments
  with assignment to itself included, substrings within their string, ends of scope) runs to its
  end: no block is used after it is freed, freed twice or overrun. At the end every variable
  holds the text the same statements give on strings and its length, and the allocated blocks are
  those of the variables that are alive, so nothing is lost.
\<close>

theorem string_class_refines:
  assumes "texts_ok cs (\<lambda>_. None)"
  shows "\<exists>V H. str_run cs str_start = Some (V, H) \<and>
    (\<forall>v. case V v of
        None \<Rightarrow> text_run cs v = None
      | Some s \<Rightarrow> \<exists>w. text_run cs v = Some w \<and> String_out s H = Some w \<and> String_length s = int (length w)) \<and>
    dom (blocks H) = {sdata s | s. s \<in> ran V}"
proof -
  obtain V H where run: "str_run cs str_start = Some (V, H)" "strings_ok (text_run cs) V H"
    using str_run_ok [OF conjunct2 [OF str_start_ok] assms] str_start_ok by (auto simp: text_run_def)
  have "case V v of None \<Rightarrow> text_run cs v = None
      | Some s \<Rightarrow> \<exists>w. text_run cs v = Some w \<and> String_out s H = Some w \<and> String_length s = int (length w)" for v
    using strings_ok_none [OF run(2), of v] strings_ok_var [OF run(2), of v]
    by (cases "V v"; cases "text_run cs v") (auto simp: String_out_def String_length_def holds_def written_cstring)
  moreover have "a \<in> dom (blocks H) \<longleftrightarrow> (\<exists>v s. V v = Some s \<and> sdata s = a)" for a
    using run(2) unfolding strings_ok_def by blast
  then have "dom (blocks H) = {sdata s | s. s \<in> ran V}"
    by (intro set_eqI) (simp add: ran_def, blast)
  ultimately show ?thesis using run(1) by blast
qed

text \<open>The main function of the file, with its destructors; the temporary strings of the last line are variables 5 and 6.\<close>

definition string_class_main :: "str_stmt list" where
  "string_class_main =
     [Declare 1 (Some ''hello ''), Declare 2 (Some ''world''), Concat 3 1 2, Declare 4 (Some ''helloworld''),
      Substr 5 3 6 5, Substr 6 3 6 5, Scope_end 6, Scope_end 5, Scope_end 4, Scope_end 3, Scope_end 2, Scope_end 1]"

theorem string_class_refines_witness:
  "\<exists>V H. str_run string_class_main str_start = Some (V, H) \<and> dom (blocks H) = {sdata s | s. s \<in> ran V}"
proof -
  have "texts_ok string_class_main (\<lambda>_. None)" by (simp add: string_class_main_def in_int_def)
  from string_class_refines [OF this] show ?thesis by blast
qed

end
