(* ===== verification/NumberPrograms.thy ===== *)
theory NumberPrograms
  imports Cpp_Prelude
begin

text \<open>
  Exercises on numbers: Fibonacci numbers and the stairs of the frog, both modulo a prime, the n-th number
  whose only prime factors are 2, 3 and 5, the straight in a hand of cards, and all permutations of a vector.
\<close>

section \<open>Fibonacci numbers\<close>

abbreviation MOD :: int where "MOD \<equiv> 1000000007"

text \<open>
  \<^verbatim>\<open>while(--n)\<close>, the same loop in both programs. The variables are
  \<^verbatim>\<open>long long\<close> and below the modulus from the first turn on, so only the decrement
  can overflow.
\<close>

partial_function (option) fib_loop :: "int \<Rightarrow> int \<Rightarrow> int \<Rightarrow> int \<Rightarrow> int ub" where
  "fib_loop n l r res =
     do { n' \<leftarrow> as_int (n - 1);
          if n' \<noteq> 0 then (let res' = trem (l + r) MOD in fib_loop n' r res' res') else Some (trem res MOD) }"

definition fib :: "int \<Rightarrow> int ub" where
  "fib n = (if n = 0 then Some n else fib_loop n 0 1 1)"

definition numWays :: "int \<Rightarrow> int ub" where
  "numWays n = (if n = 0 then Some 1 else if n = 1 then Some 1 else fib_loop n 1 1 2)"

fun fibonacci :: "nat \<Rightarrow> int" where
  "fibonacci 0 = 0"
| "fibonacci (Suc 0) = 1"
| "fibonacci (Suc (Suc n)) = fibonacci n + fibonacci (Suc n)"

lemma fib_step: "trem (fibonacci m mod MOD + fibonacci (m + 1) mod MOD) MOD = fibonacci (m + 2) mod MOD"
proof -
  have "trem (fibonacci m mod MOD + fibonacci (m + 1) mod MOD) MOD = (fibonacci m mod MOD + fibonacci (m + 1) mod MOD) mod MOD"
    by (intro trem_nonneg add_nonneg_nonneg pos_mod_sign) simp_all
  also have "\<dots> = fibonacci (m + 2) mod MOD" by (simp only: mod_add_eq) (simp add: add_2_eq_Suc')
  finally show ?thesis .
qed

lemma fib_loop_end: "fib_loop 1 l r (x mod MOD) = Some (x mod MOD)"
proof -
  have "trem (x mod MOD) MOD = x mod MOD" by (subst trem_nonneg) simp_all
  then show ?thesis by (subst fib_loop.simps) (simp add: in_int_def)
qed

lemma fib_loop_turn:
  assumes "in_int (int k + 2)"
  shows "fib_loop (int k + 2) l r res = fib_loop (int k + 1) r (trem (l + r) MOD) (trem (l + r) MOD)"
proof -
  have "as_int (int k + 2 - 1) = Some (int k + 1)" using assms by (simp add: in_int_def)
  then show ?thesis by (subst fib_loop.simps) (simp add: Let_def)
qed

lemma fib_loop_ok:
  "in_int (int k + 1) \<Longrightarrow> 0 < k \<or> res = fibonacci (m + 1) mod MOD \<Longrightarrow>
     fib_loop (int k + 1) (fibonacci m mod MOD) (fibonacci (m + 1) mod MOD) res = Some (fibonacci (m + 1 + k) mod MOD)"
proof (induction k arbitrary: res m)
  case 0
  then show ?case by (simp only: fib_loop_end of_nat_0 add_0 add_0_right) (simp add: fib_loop_end)
next
  case (Suc k)
  have turn: "int (Suc k) + 1 = int k + 2" by simp
  have "fib_loop (int (Suc k) + 1) (fibonacci m mod MOD) (fibonacci (m + 1) mod MOD) res =
      fib_loop (int k + 1) (fibonacci (m + 1) mod MOD) (fibonacci (m + 1 + 1) mod MOD) (fibonacci (m + 1 + 1) mod MOD)"
    using fib_loop_turn [of k "fibonacci m mod MOD" "fibonacci (m + 1) mod MOD" res] Suc.prems(1)
    unfolding turn fib_step by (simp only: add.assoc one_add_one)
  also have "\<dots> = Some (fibonacci (m + 1 + 1 + k) mod MOD)"
    using Suc.IH [of "fibonacci (m + 1 + 1) mod MOD" "m + 1"] Suc.prems(1) by (simp add: in_int_def)
  finally show ?case by simp
qed

text \<open>
  For every \<^verbatim>\<open>int\<close> that is not negative, \<^verbatim>\<open>fib\<close> returns its Fibonacci number modulo
  the prime, and the frog has as many ways as the next Fibonacci number says.
\<close>

theorem fib_fibonacci:
  "0 \<le> n \<Longrightarrow> n < INT_MAX \<Longrightarrow>
     fib n = Some (fibonacci (nat n) mod MOD) \<and> numWays n = Some (fibonacci (nat n + 1) mod MOD)"
proof -
  assume n: "0 \<le> n" "n < INT_MAX"
  show ?thesis
  proof (cases "n \<le> 1")
    case True
    then have "n = 0 \<or> n = 1" using n(1) by linarith
    then show ?thesis using fib_loop_ok [of 0 1 0] by (auto simp: fib_def numWays_def in_int_def)
  next
    case False
    define k where "k = nat (n - 1)"
    have k: "n = int k + 1" "0 < k" "in_int (int k + 1)" using False n by (auto simp: k_def in_int_def)
    have "fib_loop n 0 1 1 = Some (fibonacci (0 + 1 + k) mod MOD)"
      using fib_loop_ok [of k 1 0] k by simp
    moreover have "fib_loop n 1 1 2 = Some (fibonacci (1 + 1 + k) mod MOD)"
      using fib_loop_ok [of k 2 1] k by (simp add: eval_nat_numeral)
    moreover have "nat n = Suc k" using k(1) by simp
    ultimately show ?thesis using False n(1) by (simp add: fib_def numWays_def)
  qed
qed

theorem fib_fibonacci_witness: "fib 10 = Some 55 \<and> numWays 7 = Some 21"
  using fib_fibonacci [of 10] fib_fibonacci [of 7] by (simp add: eval_nat_numeral)

section \<open>Straights\<close>

text \<open>The loop over the sorted cards with the card before the current one; \<^term>\<open>None\<close> is the early \<^verbatim>\<open>return false\<close>.\<close>

fun straight_loop :: "int option \<Rightarrow> int list \<Rightarrow> int \<Rightarrow> int \<Rightarrow> (int \<times> int) option" where
  "straight_loop before [] maxVal minVal = Some (maxVal, minVal)"
| "straight_loop before (x # xs) maxVal minVal =
     (if x = 0 then straight_loop (Some x) xs maxVal minVal
      else if before = Some x then None
      else straight_loop (Some x) xs (max x maxVal) (min x minVal))"

definition isStraight :: "int list \<Rightarrow> bool ub" where
  "isStraight nums =
     (if length nums \<noteq> 5 then Some False
      else case straight_loop None (sort nums) (-1) 99 of
        None \<Rightarrow> Some False
      | Some (maxVal, minVal) \<Rightarrow> do { d \<leftarrow> as_int (maxVal - minVal); Some (d \<le> 4) })"

abbreviation cards :: "int list \<Rightarrow> int list" where
  "cards xs \<equiv> filter (\<lambda>x. x \<noteq> 0) xs"

abbreviation opt_list :: "int option \<Rightarrow> int list" where
  "opt_list b \<equiv> (case b of None \<Rightarrow> [] | Some x \<Rightarrow> [x])"

lemma straight_loop_ok:
  "sorted (opt_list b @ xs) \<Longrightarrow>
     straight_loop b xs mx mn =
       (if distinct (cards (opt_list b @ xs)) then Some (foldl max mx (cards xs), foldl min mn (cards xs)) else None)"
proof (induction xs arbitrary: b mx mn)
  case (Cons x xs)
  have IH: "straight_loop (Some x) xs mx' mn' =
      (if distinct (cards (x # xs)) then Some (foldl max mx' (cards xs), foldl min mn' (cards xs)) else None)" for mx' mn'
    using Cons.IH [of "Some x"] Cons.prems by (auto split: option.splits)
  have before: "y \<le> x" if "b = Some y" for y using Cons.prems that by auto
  have "y \<notin> set xs" if "b = Some y" "y \<noteq> x" for y
    using Cons.prems that by force
  then show ?case
    using IH by (cases b) (auto simp: max.commute min.commute)
qed (auto split: option.splits)

text \<open>Jokers can be replaced so that the hand has exactly the values of a set of the right size.\<close>

lemma fill_jokers:
  "finite W \<Longrightarrow> card W = length xs \<Longrightarrow> distinct (cards xs) \<Longrightarrow> set (cards xs) \<subseteq> W \<Longrightarrow>
     \<exists>ys. list_all2 (\<lambda>x y. x \<noteq> 0 \<longrightarrow> y = x) xs ys \<and> distinct ys \<and> set ys = W"
proof (induction xs arbitrary: W)
  case (Cons x xs)
  have "\<exists>w\<in>W. (x \<noteq> 0 \<longrightarrow> w = x) \<and> w \<notin> set (cards xs)"
  proof (cases "x = 0")
    case True
    have "card (set (cards xs)) \<le> length (cards xs)" by (rule card_length)
    also have "\<dots> \<le> length xs" by simp
    also have "\<dots> < card W" using Cons.prems(2) by simp
    finally have "\<not> W \<subseteq> set (cards xs)" using card_mono [of "set (cards xs)" W] by auto
    then show ?thesis using True by auto
  next
    case False
    then show ?thesis using Cons.prems(3,4) by auto
  qed
  then obtain w where w: "w \<in> W" "x \<noteq> 0 \<longrightarrow> w = x" "w \<notin> set (cards xs)" by blast
  obtain ys where "list_all2 (\<lambda>x y. x \<noteq> 0 \<longrightarrow> y = x) xs ys" "distinct ys" "set ys = W - {w}"
    using Cons.IH [of "W - {w}"] Cons.prems w by (auto split: if_splits)
  then show ?case using w by (intro exI [of _ "w # ys"]) auto
qed simp

lemma cards_filled: "list_all2 (\<lambda>x y. x \<noteq> 0 \<longrightarrow> y = x) xs ys \<Longrightarrow> set (cards xs) \<subseteq> set ys"
  by (induction rule: list_all2_induct) auto

lemma cards_filled_distinct:
  "list_all2 (\<lambda>x y. x \<noteq> 0 \<longrightarrow> y = x) xs ys \<Longrightarrow> distinct ys \<Longrightarrow> distinct (cards xs)"
proof (induction rule: list_all2_induct)
  case (Cons x xs y ys)
  then show ?case using cards_filled [of xs ys] by auto
qed simp

lemma foldl_max: "foldl max (m::int) xs \<le> k \<longleftrightarrow> m \<le> k \<and> (\<forall>x\<in>set xs. x \<le> k)"
  and foldl_min: "k \<le> foldl min (m::int) xs \<longleftrightarrow> k \<le> m \<and> (\<forall>x\<in>set xs. k \<le> x)"
  by (induction xs arbitrary: m) auto

lemma foldl_max_mem: "foldl max (m::int) xs \<in> insert m (set xs)" and foldl_min_mem: "foldl min (m::int) xs \<in> insert m (set xs)"
  by (induction xs arbitrary: m) (auto simp: max_def min_def)

text \<open>
  For five cards (0 is a joker) \<^verbatim>\<open>isStraight\<close> answers whether the jokers can be given
  values such that the hand consists of five consecutive numbers.
\<close>

theorem isStraight_correct:
  assumes "length nums = 5" "\<forall>x\<in>set nums. 0 \<le> x \<and> x \<le> 99"
  shows "isStraight nums =
    Some (\<exists>s ys. list_all2 (\<lambda>x y. x \<noteq> 0 \<longrightarrow> y = x) nums ys \<and> distinct ys \<and> set ys = {s..s + 4})"
proof -
  define cs where "cs = cards (sort nums)"
  define mx where "mx = foldl max (-1) cs"
  define mn where "mn = foldl min 99 cs"
  have cs: "set cs = set (cards nums)" "distinct cs = distinct (cards nums)"
    by (simp_all add: cs_def filter_sort)
  have range: "0 < x \<and> x \<le> 99" if "x \<in> set cs" for x using that assms(2) cs(1) by (auto simp: order_less_le)
  have mx: "x \<le> mx" "mn \<le> x" if "x \<in> set cs" for x
    using foldl_max [of "-1" cs mx] foldl_min [of mn 99 cs] that by (auto simp: mx_def mn_def)
  have ends: "mx = -1 \<or> mx \<in> set cs" "mn = 99 \<or> mn \<in> set cs"
    using foldl_max_mem [of "-1" cs] foldl_min_mem [of 99 cs] by (auto simp: mx_def mn_def)
  have "-1 \<le> mx \<and> mx \<le> 99" "0 < mn \<and> mn \<le> 99" using ends range [of mx] range [of mn] by auto
  then have small: "in_int (mx - mn)" by (simp add: in_int_def)
  have res: "isStraight nums = Some (distinct cs \<and> mx - mn \<le> 4)"
    using straight_loop_ok [of None "sort nums" "-1" 99] small assms(1)
    by (simp add: isStraight_def cs_def mx_def mn_def)
  have "(\<exists>s ys. list_all2 (\<lambda>x y. x \<noteq> 0 \<longrightarrow> y = x) nums ys \<and> distinct ys \<and> set ys = {s..s + 4}) \<longleftrightarrow>
      distinct cs \<and> mx - mn \<le> 4"
  proof
    assume "distinct cs \<and> mx - mn \<le> 4"
    then have "distinct (cards nums)" "set (cards nums) \<subseteq> {mn..mn + 4}" using cs mx by force+
    moreover have "card {mn..mn + 4} = length nums" using assms(1) by simp
    ultimately show "\<exists>s ys. list_all2 (\<lambda>x y. x \<noteq> 0 \<longrightarrow> y = x) nums ys \<and> distinct ys \<and> set ys = {s..s + 4}"
      using fill_jokers [of "{mn..mn + 4}" nums] by blast
  next
    assume "\<exists>s ys. list_all2 (\<lambda>x y. x \<noteq> 0 \<longrightarrow> y = x) nums ys \<and> distinct ys \<and> set ys = {s..s + 4}"
    then obtain s ys where ys: "list_all2 (\<lambda>x y. x \<noteq> 0 \<longrightarrow> y = x) nums ys" "distinct ys" "set ys = {s..s + 4}" by blast
    have "distinct cs" using cards_filled_distinct [OF ys(1,2)] cs by simp
    moreover have "mx - mn \<le> 4"
    proof (cases "cs = []")
      case False
      then obtain x where x: "x \<in> set cs" by (cases cs) auto
      have "mn = x" if "mn = 99" using range [OF x] mx [OF x] that by simp
      then have "mx \<in> set cs" "mn \<in> set cs" using ends range [OF x] mx(1) [OF x] x by auto
      then have "mx \<in> {s..s + 4}" "mn \<in> {s..s + 4}" using cards_filled [OF ys(1)] ys(3) cs(1) by blast+
      then show ?thesis by simp
    qed (simp add: mx_def mn_def)
    ultimately show "distinct cs \<and> mx - mn \<le> 4" ..
  qed
  then show ?thesis using res by simp
qed

theorem isStraight_correct_witness:
  "isStraight [0, 0, 1, 2, 5] = Some True \<and>
   (\<exists>s ys. list_all2 (\<lambda>x y. x \<noteq> 0 \<longrightarrow> y = x) [0, 0, 1, 2, 5] ys \<and> set ys = {s..s + 4::int})"
  using isStraight_correct [of "[0, 0, 1, 2, 5]"] by (simp add: isStraight_def insort_key_def in_int_def; blast)

section \<open>Permutations\<close>

text \<open>
  \<^verbatim>\<open>BT\<close> with its loop: \<open>i\<close> is the loop variable of the call for \<open>start\<close>, and the
  call for \<open>start + 1\<close> starts its own loop. The result and the vector are handed through, as
  the code passes both by reference.
\<close>

partial_function (option) BT :: "int list list \<Rightarrow> int list \<Rightarrow> nat \<Rightarrow> nat \<Rightarrow> (int list list \<times> int list) ub" where
  "BT res nums start i =
     (if start = length nums then Some (res @ [nums], nums)
      else if i < length nums
      then do { nums1 \<leftarrow> vswap nums i start;
                (res1, nums2) \<leftarrow> BT res nums1 (start + 1) (start + 1);
                nums3 \<leftarrow> vswap nums2 i start;
                BT res1 nums3 start (i + 1) }
      else Some (res, nums))"

definition permute :: "int list \<Rightarrow> int list list ub" where
  "permute nums = map_option fst (BT [] nums 0 0)"

text \<open>The arrangements of some elements that begin in a given way.\<close>

definition extensions :: "int list \<Rightarrow> int multiset \<Rightarrow> int list set" where
  "extensions p M = {ys. mset ys = M \<and> take (length p) ys = p}"

abbreviation swapped :: "int list \<Rightarrow> nat \<Rightarrow> nat \<Rightarrow> int list" where
  "swapped xs i j \<equiv> xs[i := xs ! j, j := xs ! i]"

lemma swapped_twice: "i < length xs \<Longrightarrow> j < length xs \<Longrightarrow> swapped (swapped xs i j) i j = xs"
  by (rule nth_equalityI) (auto simp: nth_list_update)

lemma extensions_all: "extensions (take (length nums) nums) (mset nums) = {nums}"
proof -
  have "ys = nums" if "mset ys = mset nums" "take (length nums) ys = nums" for ys
    using that mset_eq_length [of ys nums] by simp
  then show ?thesis by (auto simp: extensions_def)
qed

lemma extensions_split:
  assumes "start < length nums"
  shows "extensions (take start nums) (mset nums) =
    (\<Union>k\<in>{start..<length nums}. extensions (take start nums @ [nums ! k]) (mset nums))"
proof (intro equalityI subsetI)
  fix ys assume "ys \<in> extensions (take start nums) (mset nums)"
  then have ys: "mset ys = mset nums" "take start ys = take start nums" using assms by (simp_all add: extensions_def min_absorb2)
  then have len: "length ys = length nums" using mset_eq_length by blast
  have "mset (take start ys @ drop start ys) = mset (take start nums @ drop start nums)" using ys(1) by simp
  then have "mset (drop start ys) = mset (drop start nums)" using ys(2) by (simp only: mset_append) simp
  then have "ys ! start \<in> set (drop start nums)"
    using assms len hd_drop_conv_nth [of start ys] by (metis drop_eq_Nil hd_in_set mset_eq_setD not_le)
  then obtain j where "j < length (drop start nums)" "drop start nums ! j = ys ! start" by (auto simp: in_set_conv_nth)
  then obtain k where k: "k \<in> {start..<length nums}" "ys ! start = nums ! k"
    using that [of "start + j"] assms by auto
  have "take (Suc start) ys = take start nums @ [nums ! k]"
    using ys(2) k(2) assms len by (simp add: take_Suc_conv_app_nth)
  then show "ys \<in> (\<Union>k\<in>{start..<length nums}. extensions (take start nums @ [nums ! k]) (mset nums))"
    using k(1) ys(1) assms by (auto simp: extensions_def min_absorb2)
next
  fix ys assume "ys \<in> (\<Union>k\<in>{start..<length nums}. extensions (take start nums @ [nums ! k]) (mset nums))"
  then obtain k where "mset ys = mset nums" "take (Suc start) ys = take start nums @ [nums ! k]"
    using assms by (auto simp: extensions_def min_absorb2)
  moreover have "take start ys = take start nums"
    using arg_cong [OF calculation(2), of "take start"] assms by (simp add: min_absorb1)
  ultimately show "ys \<in> extensions (take start nums) (mset nums)"
    using assms by (simp add: extensions_def min_absorb2)
qed

definition all_of :: "int list list \<Rightarrow> nat \<Rightarrow> int list set \<Rightarrow> bool \<Rightarrow> bool" where
  "all_of rs n A dis \<longleftrightarrow> length rs = n \<and> set rs = A \<and> (dis \<longrightarrow> distinct rs)"

lemma BT_loop_ok:
  assumes sub: "\<And>ns res. length ns = length nums \<Longrightarrow> \<exists>rs. BT res ns (start + 1) (start + 1) = Some (res @ rs, ns) \<and>
      all_of rs (fact (length nums - (start + 1))) (extensions (take (start + 1) ns) (mset ns)) (distinct ns)"
    and "start \<le> i" "i \<le> length nums" "start < length nums"
  shows "\<exists>rs. BT res nums start i = Some (res @ rs, nums) \<and>
    all_of rs ((length nums - i) * fact (length nums - (start + 1)))
      (\<Union>k\<in>{i..<length nums}. extensions (take start nums @ [nums ! k]) (mset nums)) (distinct nums)"
  using assms(2-)
proof (induction "length nums - i" arbitrary: i res)
  case 0
  then show ?case by (subst BT.simps) (auto simp: all_of_def)
next
  case (Suc m)
  then have i: "i < length nums" by simp
  let ?sw = "swapped nums i start"
  have sw: "length ?sw = length nums" "mset ?sw = mset nums" "distinct ?sw = distinct nums"
    "take (start + 1) ?sw = take start nums @ [nums ! i]" "vswap ?sw i start = Some nums"
    using i Suc.prems mset_swap_list [of i nums start] distinct_swap [of i nums start] swapped_twice [of i nums start]
    by (simp_all add: take_Suc_conv_app_nth vswap_def)
  obtain rs1 where rs1: "BT res ?sw (start + 1) (start + 1) = Some (res @ rs1, ?sw)"
      "all_of rs1 (fact (length nums - (start + 1))) (extensions (take start nums @ [nums ! i]) (mset nums)) (distinct nums)"
    using sub [of ?sw res] sw by auto
  obtain rs2 where rs2: "BT (res @ rs1) nums start (i + 1) = Some ((res @ rs1) @ rs2, nums)"
      "all_of rs2 ((length nums - (i + 1)) * fact (length nums - (start + 1)))
        (\<Union>k\<in>{i + 1..<length nums}. extensions (take start nums @ [nums ! k]) (mset nums)) (distinct nums)"
  proof -
    have "m = length nums - (i + 1)" using Suc.hyps(2) by simp
    from Suc.hyps(1) [OF this, of "res @ rs1"] show ?thesis using Suc.prems i that by auto
  qed
  have "BT res nums start i = Some (res @ rs1 @ rs2, nums)"
    using rs1(1) rs2(1) sw(5) i Suc.prems by (subst BT.simps) (simp add: vswap_in)
  moreover have "set rs1 \<inter> set rs2 = {}" if "distinct nums"
  proof -
    have "nums ! i \<noteq> nums ! k" if "k \<in> {i + 1..<length nums}" for k
      using that \<open>distinct nums\<close> i by (auto simp: nth_eq_iff_index_eq)
    then show ?thesis using rs1(2) rs2(2) by (fastforce simp: all_of_def extensions_def)
  qed
  moreover have "{i..<length nums} = insert i {i + 1..<length nums}" using i by auto
  moreover have "length nums - i = Suc (length nums - (i + 1))" using i by simp
  ultimately show ?case
    using rs1(2) rs2(2) by (intro exI [of _ "rs1 @ rs2"]) (auto simp: all_of_def)
qed

lemma BT_ok:
  "start \<le> length nums \<Longrightarrow> \<exists>rs. BT res nums start start = Some (res @ rs, nums) \<and>
     all_of rs (fact (length nums - start)) (extensions (take start nums) (mset nums)) (distinct nums)"
proof (induction "length nums - start" arbitrary: nums start res)
  case 0
  then show ?case by (subst BT.simps) (simp add: all_of_def extensions_all [of nums, simplified])
next
  case (Suc m)
  then have lt: "start < length nums" by simp
  have sub: "\<exists>rs. BT res ns (start + 1) (start + 1) = Some (res @ rs, ns) \<and>
      all_of rs (fact (length nums - (start + 1))) (extensions (take (start + 1) ns) (mset ns)) (distinct ns)"
    if "length ns = length nums" for ns res
    using Suc.hyps(1) [of ns "start + 1" res] Suc.hyps(2) that lt by simp
  have "(length nums - start) * fact (length nums - (start + 1)) = (fact (length nums - start) :: nat)"
    using lt fact_reduce [of "length nums - start", where 'a = nat] by simp
  then show ?case
    using BT_loop_ok [OF sub order.refl less_imp_le [OF lt] lt, of res] extensions_split [OF lt] by simp
qed

text \<open>
  \<^verbatim>\<open>permute\<close> ends, accesses nothing out of range and returns exactly the arrangements of the
  vector, as many as the factorial of its length, and each of them once if its elements are distinct.
\<close>

theorem permute_all:
  "\<exists>rs. permute nums = Some rs \<and> length rs = fact (length nums) \<and> set rs = {ys. mset ys = mset nums} \<and>
     (distinct nums \<longrightarrow> distinct rs)"
  using BT_ok [of 0 nums "[]"] by (auto simp: permute_def all_of_def extensions_def)

theorem permute_all_witness:
  "\<exists>rs. permute [1, 2, 3] = Some rs \<and> length rs = 6 \<and> [3, 1, 2] \<in> set rs \<and> distinct rs"
  using permute_all [of "[1, 2, 3]"] by (auto simp: fact_numeral)

end
