(* ===== verification/UglyNumbers.thy ===== *)
theory UglyNumbers
  imports Cpp_Prelude
begin

text \<open>
  The n-th ugly number, a number with no other prime factors than 2, 3 and 5. The table is filled in order;
  three indices say which entry is next to be multiplied by 2, 3 and 5. The theorem says that the
  result is the n-th ugly number in order of size, or that a product overflowed.
\<close>

section \<open>The code\<close>

definition minVal :: "int \<Rightarrow> int \<Rightarrow> int \<Rightarrow> int" where
  "minVal a b c = (if a > b then min b c else min a c)"

definition cdiv :: "int \<Rightarrow> int \<Rightarrow> int ub" where
  "cdiv a b = (if b = 0 then None else Some (tquot a b))"

function ugly_loop :: "int \<Rightarrow> nat \<Rightarrow> int list \<Rightarrow> nat \<Rightarrow> nat \<Rightarrow> nat \<Rightarrow> int list ub" where
  "ugly_loop n i dp c2 c3 c5 =
     (if int i < n
      then do {
        a \<leftarrow> vget dp c2 \<bind> (\<lambda>x. as_int (x * 2));
        b \<leftarrow> vget dp c3 \<bind> (\<lambda>x. as_int (x * 3));
        c \<leftarrow> vget dp c5 \<bind> (\<lambda>x. as_int (x * 5));
        dp \<leftarrow> vset dp i (minVal a b c);
        v \<leftarrow> vget dp i;
        q2 \<leftarrow> vget dp c2 \<bind> cdiv v;
        q3 \<leftarrow> vget dp c3 \<bind> cdiv v;
        q5 \<leftarrow> vget dp c5 \<bind> cdiv v;
        ugly_loop n (i + 1) dp (if q2 = 2 then c2 + 1 else c2) (if q3 = 3 then c3 + 1 else c3) (if q5 = 5 then c5 + 1 else c5)
      }
      else Some dp)"
  by pat_completeness auto
termination
  by (relation "measure (\<lambda>(n, i, dp, c2, c3, c5). nat (n - int i))") auto

declare ugly_loop.simps [simp del]

text \<open>A vector of negative size cannot be made, and for 0 the element before the first is read.\<close>

definition nthUglyNumber :: "int \<Rightarrow> int ub" where
  "nthUglyNumber n =
     (if n + 1 < 0 then None
      else do { dp \<leftarrow> ugly_loop n 1 (replicate (nat (n + 1)) 1) 0 0 0; iget dp (n - 1) })"

section \<open>Ugly numbers\<close>

definition ugly :: "int \<Rightarrow> bool" where
  "ugly u \<longleftrightarrow> (\<exists>a b c. u = 2 ^ a * 3 ^ b * 5 ^ c)"

lemma ugly_pos: "ugly u \<Longrightarrow> 0 < u"
  by (auto simp: ugly_def)

lemma ugly_1: "ugly 1"
  unfolding ugly_def by (intro exI [of _ 0]) simp

lemma ugly_mult: "ugly u \<Longrightarrow> ugly (u * 2)" "ugly u \<Longrightarrow> ugly (u * 3)" "ugly u \<Longrightarrow> ugly (u * 5)"
proof -
  assume "ugly u"
  then obtain a b c where u: "u = 2 ^ a * 3 ^ b * 5 ^ c" by (auto simp: ugly_def)
  show "ugly (u * 2)" unfolding ugly_def using u by (intro exI [of _ "Suc a"] exI [of _ b] exI [of _ c]) simp
  show "ugly (u * 3)" unfolding ugly_def using u by (intro exI [of _ a] exI [of _ "Suc b"] exI [of _ c]) simp
  show "ugly (u * 5)" unfolding ugly_def using u by (intro exI [of _ a] exI [of _ b] exI [of _ "Suc c"]) simp
qed

lemma ugly_cases:
  assumes "ugly u"
  shows "u = 1 \<or> (\<exists>v p. ugly v \<and> u = v * p \<and> p \<in> {2, 3, 5})"
proof -
  obtain a b c where u: "u = 2 ^ a * 3 ^ b * 5 ^ c" using assms by (auto simp: ugly_def)
  have factors: "ugly (2 ^ x * 3 ^ y * 5 ^ z)" for x y z by (auto simp: ugly_def)
  consider "a = 0 \<and> b = 0 \<and> c = 0" | a' where "a = Suc a'" | b' where "b = Suc b'" | c' where "c = Suc c'"
    by (cases a; cases b; cases c) auto
  then show ?thesis
  proof cases
    case (2 a')
    then show ?thesis using u factors [of a' b c] by (intro disjI2 exI [of _ "2 ^ a' * 3 ^ b * 5 ^ c"] exI [of _ 2]) simp
  next
    case (3 b')
    then show ?thesis using u factors [of a b' c] by (intro disjI2 exI [of _ "2 ^ a * 3 ^ b' * 5 ^ c"] exI [of _ 3]) simp
  next
    case (4 c')
    then show ?thesis using u factors [of a b c'] by (intro disjI2 exI [of _ "2 ^ a * 3 ^ b * 5 ^ c'"] exI [of _ 5]) simp
  qed (simp add: u)
qed

text \<open>The table so far: the ugly numbers up to its last entry, in order.\<close>

definition table :: "int list \<Rightarrow> bool" where
  "table d \<longleftrightarrow> d \<noteq> [] \<and> sorted_wrt (<) d \<and> set d = {u. ugly u \<and> u \<le> last d}"

text \<open>The index of the entry whose product with p is next.\<close>

definition next_at :: "int \<Rightarrow> nat \<Rightarrow> int list \<Rightarrow> bool" where
  "next_at p c d \<longleftrightarrow> c < length d \<and> last d < d ! c * p \<and> (\<forall>k<c. d ! k * p \<le> last d)"

lemma next_at_least:
  assumes "table d" "next_at p c d" "ugly v" "0 < p" "last d < v * p" "v \<le> last d"
  shows "d ! c * p \<le> v * p"
proof -
  have "v \<in> set d" using assms(1,3,6) by (simp add: table_def)
  then obtain k where k: "k < length d" "v = d ! k" by (auto simp: in_set_conv_nth)
  have "\<not> k < c" using assms(2,5) k(2) by (force simp: next_at_def)
  then have "d ! c \<le> d ! k"
    using assms(1) k(1) by (cases "c = k") (auto simp: table_def sorted_wrt_nth_less order_less_imp_le)
  then show ?thesis using k(2) assms(4) by simp
qed

lemma ugly_table_snoc:
  assumes d: "table d" and at: "next_at 2 c2 d" "next_at 3 c3 d" "next_at 5 c5 d"
    and m: "m = minVal (d ! c2 * 2) (d ! c3 * 3) (d ! c5 * 5)"
  shows "table (d @ [m])"
proof -
  have mem: "ugly (d ! c)" if "c < length d" for c
    using d that nth_mem [OF that] by (auto simp: table_def)
  have m_in: "m \<in> {d ! c2 * 2, d ! c3 * 3, d ! c5 * 5}" and m_le: "m \<le> d ! c2 * 2" "m \<le> d ! c3 * 3" "m \<le> d ! c5 * 5"
    by (auto simp: m minVal_def min_def)
  have um: "ugly m" "last d < m" using m_in at mem ugly_mult by (auto simp: next_at_def)
  have none: "\<not> (last d < u \<and> u < m)" if "ugly u" for u
    using that
  proof (induction "nat u" arbitrary: u rule: less_induct)
    case less
    show ?case
    proof
      assume u: "last d < u \<and> u < m"
      have "1 \<le> last d" using d ugly_pos [of "last d"] last_in_set [of d] by (fastforce simp: table_def)
      then obtain v p where v: "ugly v" "u = v * p" "p \<in> {2, 3, 5}" using ugly_cases [OF less.prems] u by auto
      have "v < u" using v ugly_pos [OF v(1)] by auto
      show False
      proof (cases "v \<le> last d")
        case True
        then have "d ! c2 * 2 \<le> u \<or> d ! c3 * 3 \<le> u \<or> d ! c5 * 5 \<le> u"
          using v u next_at_least [OF d at(1), of v] next_at_least [OF d at(2), of v] next_at_least [OF d at(3), of v] by auto
        then show False using u m_le by linarith
      next
        case False
        then show False using less.hyps [of v] v(1) \<open>v < u\<close> u ugly_pos [OF v(1)] by auto
      qed
    qed
  qed
  have "set (d @ [m]) = {u. ugly u \<and> u \<le> m}"
    using d um none by (fastforce simp: table_def not_less)
  moreover have "sorted_wrt (<) (d @ [m])"
    using d um(2) by (force simp: table_def sorted_wrt_append)
  ultimately show ?thesis by (simp add: table_def)
qed

lemma next_at_snoc:
  assumes d: "table d" and at: "next_at p c d" and p: "1 < p" and m: "m \<le> d ! c * p" "last d < m"
  shows "next_at p (if m = d ! c * p then c + 1 else c) (d @ [m])"
proof -
  have c: "c < length d" "\<forall>k<c. d ! k * p \<le> m" using at m by (auto simp: next_at_def)
  have pos: "0 < d ! k" if "k < length d" for k using d nth_mem [OF that] ugly_pos by (auto simp: table_def)
  show ?thesis
  proof (cases "m = d ! c * p")
    case True
    have "m < (d @ [m]) ! (c + 1) * p"
    proof (cases "c + 1 < length d")
      case inner: True
      then have "d ! c < d ! (c + 1)" using d by (simp add: table_def sorted_wrt_nth_less)
      then show ?thesis using inner True p by (simp add: nth_append)
    next
      case False
      then have "c + 1 = length d" using c(1) by simp
      moreover have "0 < m" using pos [OF c(1)] p True by simp
      ultimately show ?thesis using p by (simp add: nth_append)
    qed
    moreover have "(d @ [m]) ! k * p \<le> m" if "k < c + 1" for k
      using that c True by (auto simp: nth_append less_Suc_eq)
    ultimately show ?thesis using True c(1) by (simp add: next_at_def)
  next
    case False
    then show ?thesis using c m by (auto simp: next_at_def nth_append)
  qed
qed

lemma table_pos: "table d \<Longrightarrow> k < length d \<Longrightarrow> ugly (d ! k) \<and> 0 < d ! k"
  using nth_mem [of k d] ugly_pos by (auto simp: table_def)

lemma table_card: "table d \<Longrightarrow> k < length d \<Longrightarrow> card {u. ugly u \<and> u < d ! k} = k"
proof -
  assume d: "table d" and k: "k < length d"
  have sorted: "d ! i < d ! j" if "i < j" "j < length d" for i j
    using d that by (simp add: table_def sorted_wrt_nth_less)
  have "{u. ugly u \<and> u < d ! k} = set (take k d)"
  proof (intro equalityI subsetI)
    fix u assume u: "u \<in> {u. ugly u \<and> u < d ! k}"
    have "d ! k \<le> last d" using sorted [of k "length d - 1"] k d by (cases "k = length d - 1") (auto simp: table_def last_conv_nth)
    then have "u \<in> set d" using u d by (auto simp: table_def)
    then obtain i where i: "i < length d" "u = d ! i" by (auto simp: in_set_conv_nth)
    then have "i < k" using u sorted [of k i] by (cases i k rule: linorder_cases) auto
    then show "u \<in> set (take k d)" using i k by (auto simp: in_set_conv_nth)
  next
    fix u assume "u \<in> set (take k d)"
    then obtain i where "i < k" "u = d ! i" using k by (auto simp: in_set_conv_nth)
    then show "u \<in> {u. ugly u \<and> u < d ! k}" using sorted [of i k] table_pos [OF d, of i] k by auto
  qed
  moreover have "distinct d" using d by (simp add: table_def strict_sorted_iff)
  ultimately show ?thesis using k by (simp add: distinct_card)
qed

lemma tquot_eq: "0 < x \<Longrightarrow> 0 \<le> m \<Longrightarrow> m \<le> x * p \<Longrightarrow> tquot m x = p \<longleftrightarrow> m = x * p"
proof -
  assume x: "0 < x" "0 \<le> m" "m \<le> x * p"
  have "x * (m div x) \<le> m" using x mult_div_mod_eq [of x m] pos_mod_sign [of x m] by linarith
  then show ?thesis using x by auto
qed

definition overflow :: "int \<Rightarrow> bool" where
  "overflow n \<longleftrightarrow> (\<exists>v. ugly v \<and> int (card {u. ugly u \<and> u < v}) < n - 1 \<and> INT_MAX < 5 * v)"

lemma overflow_at:
  assumes "table d" "int (length d) < n" "c < length d" "\<not> in_int (d ! c * p)" "0 < p" "p \<le> 5"
  shows "overflow n"
proof -
  have v: "ugly (d ! c)" "0 < d ! c" using table_pos [OF assms(1,3)] by auto
  have "0 < d ! c * p" using v(2) assms(5) by simp
  then have "INT_MAX < d ! c * p" using assms(4) by (auto simp: in_int_def)
  also have "d ! c * p \<le> 5 * d ! c" using v(2) assms(6) by (simp add: mult.commute)
  finally show ?thesis
    using v(1) table_card [OF assms(1,3)] assms(2,3) unfolding overflow_def by (intro exI [of _ "d ! c"]) auto
qed

lemma ugly_loop_ok:
  assumes "table d" "next_at 2 c2 d" "next_at 3 c3 d" "next_at 5 c5 d" "length d = i" "int i \<le> n" "length rest = nat (n + 1) - i"
  shows "case ugly_loop n i (d @ rest) c2 c3 c5 of
      None \<Rightarrow> overflow n
    | Some dp \<Rightarrow> \<exists>d' rest'. dp = d' @ rest' \<and> table d' \<and> int (length d') = n"
  using assms
proof (induction "nat (n - int i)" arbitrary: d rest i c2 c3 c5 rule: less_induct)
  case less
  note d = less.prems(1) and at = less.prems(2-4) and i = less.prems(5)
  show ?case
  proof (cases "int i < n")
    case False
    then show ?thesis using less.prems by (subst ugly_loop.simps) auto
  next
    case True
    have c: "c2 < i" "c3 < i" "c5 < i" using at i by (auto simp: next_at_def)
    let ?m = "minVal (d ! c2 * 2) (d ! c3 * 3) (d ! c5 * 5)"
    show ?thesis
    proof (cases "in_int (d ! c2 * 2) \<and> in_int (d ! c3 * 3) \<and> in_int (d ! c5 * 5)")
      case False
      then have "overflow n"
        using overflow_at [OF d, of n c2 2] overflow_at [OF d, of n c3 3] overflow_at [OF d, of n c5 5] c i True by auto
      moreover have "ugly_loop n i (d @ rest) c2 c3 c5 = None"
        using False True c i by (subst ugly_loop.simps) (auto simp: vget_in nth_append as_int_def)
      ultimately show ?thesis by simp
    next
      case ok: True
      obtain x rest' where rest: "rest = x # rest'" using less.prems(7) True by (cases rest) auto
      have m: "?m \<le> d ! c2 * 2" "?m \<le> d ! c3 * 3" "?m \<le> d ! c5 * 5" by (auto simp: minVal_def min_def)
      have pos: "0 < d ! c2" "0 < d ! c3" "0 < d ! c5" "0 \<le> ?m"
        using table_pos [OF d, of c2] table_pos [OF d, of c3] table_pos [OF d, of c5] c i by (auto simp: minVal_def)
      have last: "last d < ?m" using at by (auto simp: minVal_def next_at_def)
      have "ugly_loop n i (d @ rest) c2 c3 c5 =
          ugly_loop n (i + 1) ((d @ [?m]) @ rest') (if ?m = d ! c2 * 2 then c2 + 1 else c2)
            (if ?m = d ! c3 * 3 then c3 + 1 else c3) (if ?m = d ! c5 * 5 then c5 + 1 else c5)"
      proof -
        have vals: "vget (d @ rest) c2 = Some (d ! c2)" "vget (d @ rest) c3 = Some (d ! c3)" "vget (d @ rest) c5 = Some (d ! c5)"
          "vset (d @ rest) i ?m = Some ((d @ [?m]) @ rest')"
          "vget ((d @ [?m]) @ rest') i = Some ?m"
          "vget ((d @ [?m]) @ rest') c2 = Some (d ! c2)" "vget ((d @ [?m]) @ rest') c3 = Some (d ! c3)"
          "vget ((d @ [?m]) @ rest') c5 = Some (d ! c5)"
          using c i rest by (auto simp: vget_in vset_in nth_append list_update_append)
        have q: "tquot ?m (d ! c2) = 2 \<longleftrightarrow> ?m = d ! c2 * 2" "tquot ?m (d ! c3) = 3 \<longleftrightarrow> ?m = d ! c3 * 3"
          "tquot ?m (d ! c5) = 5 \<longleftrightarrow> ?m = d ! c5 * 5"
          using tquot_eq [OF pos(1,4) m(1)] tquot_eq [OF pos(2,4) m(2)] tquot_eq [OF pos(3,4) m(3)] by auto
        have div: "cdiv ?m (d ! c2) = Some (tquot ?m (d ! c2))" "cdiv ?m (d ! c3) = Some (tquot ?m (d ! c3))"
          "cdiv ?m (d ! c5) = Some (tquot ?m (d ! c5))" using pos by (simp_all add: cdiv_def)
        have ints: "as_int (d ! c2 * 2) = Some (d ! c2 * 2)" "as_int (d ! c3 * 3) = Some (d ! c3 * 3)"
          "as_int (d ! c5 * 5) = Some (d ! c5 * 5)" using ok by simp_all
        show ?thesis
          by (subst ugly_loop.simps) (simp only: True if_True Option.bind.simps vals ints div q)
      qed
      moreover have "table (d @ [?m])" by (rule ugly_table_snoc [OF d at refl])
      moreover note next_at_snoc [OF d at(1) _ m(1) last] next_at_snoc [OF d at(2) _ m(2) last] next_at_snoc [OF d at(3) _ m(3) last]
      ultimately show ?thesis
        using less.hyps [of "i + 1" "d @ [?m]" "if ?m = d ! c2 * 2 then c2 + 1 else c2"
            "if ?m = d ! c3 * 3 then c3 + 1 else c3" "if ?m = d ! c5 * 5 then c5 + 1 else c5" rest']
          less.prems(5-7) True rest by simp
    qed
  qed
qed

text \<open>
  C32. For every positive n, \<^verbatim>\<open>nthUglyNumber\<close> returns the n-th ugly number in order of size:
  an ugly number below which there are n - 1 others. It is undefined only if five times
  a smaller ugly number than that is no \<^verbatim>\<open>int\<close>.
\<close>

theorem nthUglyNumber_nth:
  assumes "1 \<le> n"
  shows "case nthUglyNumber n of
      None \<Rightarrow> \<exists>v. ugly v \<and> int (card {u. ugly u \<and> u < v}) < n - 1 \<and> INT_MAX < 5 * v
    | Some r \<Rightarrow> ugly r \<and> int (card {u. ugly u \<and> u < r}) = n - 1"
proof -
  have "v = 1" if "ugly v" "v \<le> 1" for v using ugly_pos [OF that(1)] that(2) by linarith
  then have "table [1]" "next_at 2 0 [1]" "next_at 3 0 [1]" "next_at 5 0 [1]"
    using ugly_1 by (auto simp: table_def next_at_def)
  moreover have "replicate (nat (n + 1)) (1::int) = [1] @ replicate (nat n) 1"
    using assms by (simp add: nat_add_distrib)
  moreover have "nat n = nat (n + 1) - 1" using assms by (simp add: nat_add_distrib)
  ultimately have "case ugly_loop n 1 (replicate (nat (n + 1)) 1) 0 0 0 of
      None \<Rightarrow> overflow n
    | Some dp \<Rightarrow> \<exists>d' rest'. dp = d' @ rest' \<and> table d' \<and> int (length d') = n"
    using ugly_loop_ok [of "[1]" 0 0 0 1 n "replicate (nat n) 1"] assms by simp
  then show ?thesis
  proof (cases "ugly_loop n 1 (replicate (nat (n + 1)) 1) 0 0 0")
    case (Some dp)
    with \<open>case ugly_loop n 1 (replicate (nat (n + 1)) 1) 0 0 0 of None \<Rightarrow> _ | Some dp \<Rightarrow> _\<close>
    obtain d rest where d: "dp = d @ rest" "table d" "int (length d) = n" by auto
    have "\<not> n + 1 < 0" using assms by simp
    moreover have at: "nat (n - 1) < length d" "int (nat (n - 1)) = n - 1" using d(3) assms by auto
    moreover have "iget dp (n - 1) = Some (d ! nat (n - 1))" using d(1) at assms by (simp add: iget_in nth_append)
    ultimately show ?thesis
      using table_pos [OF d(2), of "nat (n - 1)"] table_card [OF d(2), of "nat (n - 1)"] Some assms at \<open>1 \<le> n\<close>
      by (simp add: nthUglyNumber_def)
  qed (use assms in \<open>simp add: nthUglyNumber_def overflow_def\<close>)
qed

theorem nthUglyNumber_nth_witness:
  "nthUglyNumber 10 = Some 12 \<and> card {u. ugly u \<and> u < 12} = 9"
proof -
  have "nthUglyNumber 10 = Some 12" by code_simp
  then show ?thesis using nthUglyNumber_nth [of 10] by simp
qed

end
