(* ===== verification/Producers.thy ===== *)
theory Producers
  imports Cpp_Prelude
begin

text \<open>
  Producers and consumers around a buffer (\<^verbatim>\<open>producer_consumer_1.cpp\<close>,
  \<^verbatim>\<open>producer_consumer_2.cpp\<close>, \<^verbatim>\<open>thread/producer_and_consumer.cpp\<close>) and the
  semaphore of \<^verbatim>\<open>my_semaphore_impl.cpp\<close>. A step is what a thread does while it holds
  the mutex, from one point where the mutex is free to the next: a failed test of the
  loop around \<^verbatim>\<open>wait\<close> puts the thread to sleep, a passed one leads through
  the body. A thread that is woken tests again; it can wake without a notification. Threads are
  numbered and there may be any number of them. What was made and what was taken is recorded.
\<close>

section \<open>What the programs have in common\<close>

locale channel =
  fixes start :: 's and step :: "'s \<Rightarrow> 's \<Rightarrow> bool"
    and buffer taken made :: "'s \<Rightarrow> int list"
  assumes initially: "buffer start = []" "taken start = []" "made start = []"
    and turns: "step s t \<Longrightarrow>
      buffer t = buffer s \<and> taken t = taken s \<and> made t = made s \<or>
      (\<exists>x. buffer t = buffer s @ [x] \<and> taken t = taken s \<and> made t = made s @ [x]) \<or>
      (\<exists>x. buffer s = x # buffer t \<and> taken t = taken s @ [x] \<and> made t = made s)"
begin

lemma fifo: "step\<^sup>*\<^sup>* start s \<Longrightarrow> made s = taken s @ buffer s"
proof (induction rule: rtranclp_induct)
  case base
  show ?case using initially by simp
next
  case (step s t)
  then show ?case using turns [OF step.hyps(2)] by auto
qed

end

section \<open>One condition variable\<close>

text \<open>
  The first two programs differ in their limit and in the number their first item has:
  a producer waits while the buffer has more than \<open>limit\<close> items.
\<close>

record pc_state =
  items :: "int list"
  g_id :: int
  asleep :: "nat \<Rightarrow> bool"
  got :: "int list"
  put :: "int list"

datatype role = Producer | Customer

definition monitor_start :: "int \<Rightarrow> pc_state" where
  "monitor_start first = \<lparr>items = [], g_id = first, asleep = \<lambda>_. False, got = [], put = []\<rparr>"

definition notify_all :: "pc_state \<Rightarrow> pc_state" where
  "notify_all s = s\<lparr>asleep := \<lambda>_. False\<rparr>"

text \<open>The bodies behind the waiting loops; the counter of the items is an \<^verbatim>\<open>int\<close>.\<close>

definition produce :: "pc_state \<Rightarrow> pc_state ub" where
  "produce s =
     do { next_id \<leftarrow> as_int (g_id s + 1);
          Some (notify_all (s\<lparr>items := items s @ [g_id s], g_id := next_id, put := put s @ [g_id s]\<rparr>)) }"

definition consume :: "pc_state \<Rightarrow> pc_state ub" where
  "consume s =
     (case items s of
        [] \<Rightarrow> None
      | x # q \<Rightarrow> Some (notify_all (s\<lparr>items := q, got := got s @ [x]\<rparr>)))"

inductive monitor_step :: "nat \<Rightarrow> (nat \<Rightarrow> role) \<Rightarrow> pc_state \<Rightarrow> pc_state \<Rightarrow> bool" for limit roles where
  full: "\<not> asleep s t \<Longrightarrow> roles t = Producer \<Longrightarrow> length (items s) > limit \<Longrightarrow>
    monitor_step limit roles s (s\<lparr>asleep := (asleep s)(t := True)\<rparr>)"
| made: "\<not> asleep s t \<Longrightarrow> roles t = Producer \<Longrightarrow> length (items s) \<le> limit \<Longrightarrow> produce s = Some s' \<Longrightarrow>
    monitor_step limit roles s s'"
| empty: "\<not> asleep s t \<Longrightarrow> roles t = Customer \<Longrightarrow> items s = [] \<Longrightarrow>
    monitor_step limit roles s (s\<lparr>asleep := (asleep s)(t := True)\<rparr>)"
| taken: "\<not> asleep s t \<Longrightarrow> roles t = Customer \<Longrightarrow> items s \<noteq> [] \<Longrightarrow> consume s = Some s' \<Longrightarrow>
    monitor_step limit roles s s'"
| spurious: "asleep s t \<Longrightarrow> monitor_step limit roles s (s\<lparr>asleep := (asleep s)(t := False)\<rparr>)"

inductive_cases monitor_stepE: "monitor_step limit roles s s'"

interpretation monitor: channel "monitor_start first" "monitor_step limit roles" items got put
proof unfold_locales
  show "monitor_step limit roles s t \<Longrightarrow>
      items t = items s \<and> got t = got s \<and> put t = put s \<or>
      (\<exists>x. items t = items s @ [x] \<and> got t = got s \<and> put t = put s @ [x]) \<or>
      (\<exists>x. items s = x # items t \<and> got t = got s @ [x] \<and> put t = put s)" for s t
    by (erule monitor_stepE) (auto simp: produce_def consume_def notify_all_def bind_eq_Some split: list.splits)
qed (simp_all add: monitor_start_def)

text \<open>
  The invariant: the items are numbered in order, the buffer keeps its limit, and a thread
  sleeps only while its test fails.
\<close>

definition monitor_inv :: "nat \<Rightarrow> (nat \<Rightarrow> role) \<Rightarrow> int \<Rightarrow> pc_state \<Rightarrow> bool" where
  "monitor_inv limit roles first s \<longleftrightarrow>
     put s = map (\<lambda>k. first + int k) [0..<length (put s)] \<and> g_id s = first + int (length (put s)) \<and>
     length (items s) \<le> limit + 1 \<and>
     (\<forall>t. asleep s t \<longrightarrow> (case roles t of Producer \<Rightarrow> length (items s) > limit | Customer \<Rightarrow> items s = []))"

lemma monitor_inv_step: "monitor_step limit roles s s' \<Longrightarrow> monitor_inv limit roles first s \<Longrightarrow> monitor_inv limit roles first s'"
proof (induction rule: monitor_step.induct)
  case (made s t s')
  then show ?case by (auto simp: monitor_inv_def produce_def notify_all_def bind_eq_Some as_int_def split: if_splits)
next
  case (taken s t s')
  then show ?case by (auto simp: monitor_inv_def consume_def notify_all_def split: list.splits)
qed (auto simp: monitor_inv_def split: role.splits)

lemma monitor_inv_reach: "(monitor_step limit roles)\<^sup>*\<^sup>* (monitor_start first) s \<Longrightarrow> monitor_inv limit roles first s"
proof (induction rule: rtranclp_induct)
  case base
  show ?case by (simp add: monitor_start_def monitor_inv_def)
next
  case (step s t)
  then show ?case using monitor_inv_step by blast
qed

text \<open>
  For any numbers of producers and customers, in every interleaving: the items
  that were taken and those in the buffer are the numbers from the first one on, in order,
  without a gap or a repetition; the buffer never has more than one item above the limit; and
  every thread whose test would pass is awake, so no wake-up is lost.
\<close>

theorem producer_consumer_fifo:
  "(monitor_step limit roles)\<^sup>*\<^sup>* (monitor_start first) s \<Longrightarrow>
     got s @ items s = map (\<lambda>k. first + int k) [0..<length (got s) + length (items s)] \<and>
     length (items s) \<le> limit + 1 \<and>
     (items s \<noteq> [] \<longrightarrow> (\<forall>t. roles t = Customer \<longrightarrow> \<not> asleep s t)) \<and>
     (length (items s) \<le> limit \<longrightarrow> (\<forall>t. roles t = Producer \<longrightarrow> \<not> asleep s t))"
  using monitor.fifo [of limit roles first s] monitor_inv_reach [of limit roles first s]
  by (force simp: monitor_inv_def split: role.splits)

text \<open>A run of two steps: customer 1 finds nothing and sleeps, producer 0 makes item 1 and wakes it.\<close>

theorem producer_consumer_fifo_witness:
  "\<exists>s. (monitor_step 10 (\<lambda>t. if t = 0 then Producer else Customer))\<^sup>*\<^sup>* (monitor_start 1) s \<and>
     items s = [1] \<and> \<not> asleep s 1"
proof -
  let ?roles = "\<lambda>t::nat. if t = 0 then Producer else Customer"
  let ?s1 = "(monitor_start 1)\<lparr>asleep := (asleep (monitor_start 1))(1 := True)\<rparr>"
  let ?s2 = "\<lparr>items = [1], g_id = 2, asleep = \<lambda>_. False, got = [], put = [1]\<rparr>"
  have 1: "monitor_step 10 ?roles (monitor_start 1) ?s1"
    by (rule monitor_step.empty) (simp_all add: monitor_start_def)
  have 2: "monitor_step 10 ?roles ?s1 ?s2"
    by (rule monitor_step.made [of _ 0]) (simp_all add: monitor_start_def produce_def notify_all_def in_int_def)
  have run: "(monitor_step 10 ?roles)\<^sup>*\<^sup>* (monitor_start 1) ?s2" using 1 2 by (meson rtranclp.rtrancl_refl rtranclp.rtrancl_into_rtrancl)
  from producer_consumer_fifo [OF run] have "\<not> asleep ?s2 1" by simp
  with run show ?thesis by (intro exI [of _ ?s2]) simp
qed

section \<open>Two condition variables\<close>

text \<open>
  The class \<^verbatim>\<open>demo\<close>. A producer leaves the mutex before it notifies, so there is a point
  between; a consumer that finds nothing wakes one producer and goes to sleep. Nothing is notified when an
  item is taken. The right side of \<^verbatim>\<open>item_id = item_id++ % buffsize\<close> is evaluated with
  its increment before the assignment, so the increment is lost.
\<close>

datatype demo_pc = Tests | Full_wait | Must_notify | Empty_wait

record demo =
  item_buff :: "int list"
  item_id :: int
  at :: "nat \<Rightarrow> demo_pc"
  consumed :: "int list"
  produced :: "int list"

definition demo_start :: demo where
  "demo_start = \<lparr>item_buff = [], item_id = 0, at = \<lambda>_. Tests, consumed = [], produced = []\<rparr>"

definition producItem :: "int \<Rightarrow> nat \<Rightarrow> demo \<Rightarrow> demo ub" where
  "producItem buffsize t s =
     (if buffsize = 0 then None
      else do { _ \<leftarrow> as_int (item_id s + 1);
                let i = trem (item_id s) buffsize;
                Some (s\<lparr>item_id := i, item_buff := item_buff s @ [i], at := (at s)(t := Must_notify),
                  produced := produced s @ [i]\<rparr>) })"

definition consumeItem :: "demo \<Rightarrow> demo ub" where
  "consumeItem s =
     (case item_buff s of [] \<Rightarrow> None | x # q \<Rightarrow> Some (s\<lparr>item_buff := q, consumed := consumed s @ [x]\<rparr>))"

text \<open>\<^verbatim>\<open>is_empty.notify_all()\<close>, and \<^verbatim>\<open>is_full.notify_one()\<close> with the thread that is woken, if any.\<close>

definition wake_empty :: "(nat \<Rightarrow> demo_pc) \<Rightarrow> nat \<Rightarrow> demo_pc" where
  "wake_empty p = (\<lambda>u. if p u = Empty_wait then Tests else p u)"

inductive wakes_one :: "nat set \<Rightarrow> (nat \<Rightarrow> demo_pc) \<Rightarrow> (nat \<Rightarrow> demo_pc) \<Rightarrow> bool" for T where
  none: "\<forall>u\<in>T. p u \<noteq> Full_wait \<Longrightarrow> wakes_one T p p"
| one: "u \<in> T \<Longrightarrow> p u = Full_wait \<Longrightarrow> wakes_one T p (p(u := Tests))"

inductive demo_step :: "int \<Rightarrow> nat set \<Rightarrow> (nat \<Rightarrow> role) \<Rightarrow> demo \<Rightarrow> demo \<Rightarrow> bool" for buffsize T roles where
  is_full: "t \<in> T \<Longrightarrow> roles t = Producer \<Longrightarrow> at s t = Tests \<Longrightarrow> int (length (item_buff s)) = buffsize \<Longrightarrow>
    demo_step buffsize T roles s (s\<lparr>at := (at s)(t := Full_wait)\<rparr>)"
| produces: "t \<in> T \<Longrightarrow> roles t = Producer \<Longrightarrow> at s t = Tests \<Longrightarrow> int (length (item_buff s)) \<noteq> buffsize \<Longrightarrow>
    producItem buffsize t s = Some s' \<Longrightarrow> demo_step buffsize T roles s s'"
| notifies: "t \<in> T \<Longrightarrow> at s t = Must_notify \<Longrightarrow>
    demo_step buffsize T roles s (s\<lparr>at := wake_empty ((at s)(t := Tests))\<rparr>)"
| is_empty: "t \<in> T \<Longrightarrow> roles t = Customer \<Longrightarrow> at s t = Tests \<Longrightarrow> item_buff s = [] \<Longrightarrow> wakes_one T (at s) p \<Longrightarrow>
    demo_step buffsize T roles s (s\<lparr>at := p(t := Empty_wait)\<rparr>)"
| consumes: "t \<in> T \<Longrightarrow> roles t = Customer \<Longrightarrow> at s t = Tests \<Longrightarrow> item_buff s \<noteq> [] \<Longrightarrow> consumeItem s = Some s' \<Longrightarrow>
    demo_step buffsize T roles s s'"
| wakes_up: "t \<in> T \<Longrightarrow> at s t = Full_wait \<or> at s t = Empty_wait \<Longrightarrow>
    demo_step buffsize T roles s (s\<lparr>at := (at s)(t := Tests)\<rparr>)"

inductive_cases demo_stepE: "demo_step buffsize T roles s s'"

interpretation demo: channel demo_start "demo_step buffsize T roles" item_buff consumed produced
proof unfold_locales
  show "demo_step buffsize T roles s t \<Longrightarrow>
      item_buff t = item_buff s \<and> consumed t = consumed s \<and> produced t = produced s \<or>
      (\<exists>x. item_buff t = item_buff s @ [x] \<and> consumed t = consumed s \<and> produced t = produced s @ [x]) \<or>
      (\<exists>x. item_buff s = x # item_buff t \<and> consumed t = consumed s @ [x] \<and> produced t = produced s)" for s t
    by (erule demo_stepE)
      (auto simp: producItem_def consumeItem_def bind_eq_Some Let_def split: list.splits if_splits)
qed (simp_all add: demo_start_def)













section \<open>The semaphore\<close>

text \<open>
  \<^verbatim>\<open>semaphore\<close>, used by any threads T that wait in a loop, as \<^verbatim>\<open>func2\<close> does, and one
  that signals. \<open>signals\<close> and \<open>passes\<close> count the calls of \<^verbatim>\<open>signal\<close> and the returns
  of \<^verbatim>\<open>wait\<close>. The counter is a \<^verbatim>\<open>long\<close>.
\<close>

record sema =
  cnt :: int
  waiters :: "nat set"
  signals :: nat
  passes :: nat

definition sema_start :: "int \<Rightarrow> sema" where
  "sema_start n = \<lparr>cnt = n, waiters = {}, signals = 0, passes = 0\<rparr>"

text \<open>\<^verbatim>\<open>++count\<close> and \<^verbatim>\<open>notify_one\<close>, which wakes w if there is a waiter.\<close>

definition signal :: "nat \<Rightarrow> sema \<Rightarrow> sema ub" where
  "signal w s =
     (if cnt s + 1 > 9223372036854775807 then None
      else Some (s\<lparr>cnt := cnt s + 1, waiters := waiters s - {w}, signals := signals s + 1\<rparr>))"

inductive sema_step :: "nat set \<Rightarrow> sema \<Rightarrow> sema \<Rightarrow> bool" for T where
  signals: "waiters s = {} \<or> w \<in> waiters s \<Longrightarrow> signal w s = Some s' \<Longrightarrow> sema_step T s s'"
| passes: "t \<in> T - waiters s \<Longrightarrow> cnt s > 0 \<Longrightarrow> sema_step T s (s\<lparr>cnt := cnt s - 1, passes := passes s + 1\<rparr>)"
| blocks: "t \<in> T - waiters s \<Longrightarrow> \<not> cnt s > 0 \<Longrightarrow> sema_step T s (s\<lparr>waiters := insert t (waiters s)\<rparr>)"
| wakes: "t \<in> waiters s \<Longrightarrow> sema_step T s (s\<lparr>waiters := waiters s - {t}\<rparr>)"

definition sema_inv :: "nat set \<Rightarrow> int \<Rightarrow> sema \<Rightarrow> bool" where
  "sema_inv T n s \<longleftrightarrow>
     0 \<le> cnt s \<and> cnt s + int (passes s) = n + int (signals s) \<and> waiters s \<subseteq> T \<and>
     (waiters s = {} \<or> cnt s \<le> int (card (T - waiters s)))"

lemma card_wake: "finite T \<Longrightarrow> w \<in> W \<Longrightarrow> W \<subseteq> T \<Longrightarrow> card (T - (W - {w})) = Suc (card (T - W))"
proof -
  assume "finite T" "w \<in> W" "W \<subseteq> T"
  then have "T - (W - {w}) = insert w (T - W)" by auto
  then show ?thesis using \<open>finite T\<close> \<open>w \<in> W\<close> by simp
qed

lemma sema_inv_step: "sema_step T s s' \<Longrightarrow> sema_inv T n s \<Longrightarrow> finite T \<Longrightarrow> sema_inv T n s'"
proof (induction rule: sema_step.induct)
  case (signals s w s')
  then show ?case
    by (auto simp: sema_inv_def signal_def card_wake split: if_splits)
next
  case (passes t s)
  then show ?case by (auto simp: sema_inv_def)
next
  case (blocks t s)
  then show ?case by (auto simp: sema_inv_def)
next
  case (wakes t s)
  then show ?case by (auto simp: sema_inv_def card_wake)
qed

text \<open>
  In every interleaving of signals and waits the counter is the initial one plus the signals minus the
  waits that returned and never negative, so no more waits return than that; and while it is positive
  a thread is awake to take it: more precisely, if any thread sleeps, at least as many are awake
  as the counter says, so no signal is lost although only one thread is notified.
\<close>

theorem semaphore_counts:
  assumes "(sema_step T)\<^sup>*\<^sup>* (sema_start n) s" "0 \<le> n" "finite T"
  shows "cnt s = n + int (signals s) - int (passes s) \<and> 0 \<le> cnt s \<and>
    (waiters s \<noteq> {} \<longrightarrow> cnt s \<le> int (card (T - waiters s)))"
proof -
  from assms(1) have "sema_inv T n s"
  proof (induction rule: rtranclp_induct)
    case base
    show ?case using assms(2) by (simp add: sema_inv_def sema_start_def)
  next
    case (step s t)
    then show ?case using sema_inv_step assms(3) by blast
  qed
  then show ?thesis by (auto simp: sema_inv_def)
qed

theorem semaphore_counts_witness:
  "\<exists>s. (sema_step {2})\<^sup>*\<^sup>* (sema_start 0) s \<and> cnt s = 1 \<and> cnt s = 0 + int (signals s) - int (passes s)"
proof -
  let ?s1 = "(sema_start 0)\<lparr>waiters := insert 2 (waiters (sema_start 0))\<rparr>"
  let ?s2 = "\<lparr>cnt = 1, waiters = {}, signals = 1, passes = 0\<rparr>"
  have 1: "sema_step {2} (sema_start 0) ?s1" by (rule sema_step.blocks) (simp_all add: sema_start_def)
  have 2: "sema_step {2} ?s1 ?s2" by (rule sema_step.signals [of _ 2]) (simp_all add: sema_start_def signal_def)
  have run: "(sema_step {2})\<^sup>*\<^sup>* (sema_start 0) ?s2" using 1 2 by (meson rtranclp.rtrancl_refl rtranclp.rtrancl_into_rtrancl)
  from semaphore_counts [OF run] run show ?thesis by (intro exI [of _ ?s2]) simp
qed

end
