(* ===== verification/IntrusivePtr.thy ===== *)
theory IntrusivePtr
  imports SmartPtr
begin

text \<open>
  The intrusive pointer of \<^verbatim>\<open>cpp/stl/smartpointer.h\<close>: the object itself derives from
  \<^verbatim>\<open>RefBase\<close> and holds the counter, so that, unlike with the classes of \<open>SmartPtr\<close>, a raw
  pointer to a living object can be wrapped again. The test program is
  \<^verbatim>\<open>cpp/stl/smartpointer2.cpp\<close>. The heap maps each allocated object to its counter; using or
  deleting an object that is not allocated is \<^term>\<open>None\<close>, and so is a counter that overflows.
\<close>

section \<open>Objects with a counter\<close>

record ref_heap =
  mCount :: "nat \<Rightarrow> int option"
  ref_next :: nat

definition ref_empty :: ref_heap where
  "ref_empty = \<lparr>mCount = (\<lambda>_. None), ref_next = 0\<rparr>"

definition RefBase_new :: "ref_heap \<Rightarrow> nat \<times> ref_heap" where
  "RefBase_new H = (ref_next H, H\<lparr>mCount := (mCount H)(ref_next H \<mapsto> 0), ref_next := Suc (ref_next H)\<rparr>)"

definition incRefCount :: "nat \<Rightarrow> ref_heap \<Rightarrow> ref_heap ub" where
  "incRefCount a H = do { n \<leftarrow> mCount H a; n \<leftarrow> as_int (n + 1); Some (H\<lparr>mCount := (mCount H)(a \<mapsto> n)\<rparr>) }"

definition decRefCount :: "nat \<Rightarrow> ref_heap \<Rightarrow> (int \<times> ref_heap) ub" where
  "decRefCount a H = do { n \<leftarrow> mCount H a; n \<leftarrow> as_int (n - 1); Some (n, H\<lparr>mCount := (mCount H)(a \<mapsto> n)\<rparr>) }"

definition getRefCount :: "nat \<Rightarrow> ref_heap \<Rightarrow> int ub" where
  "getRefCount a H = mCount H a"

definition delete_ref :: "nat \<Rightarrow> ref_heap \<Rightarrow> ref_heap ub" where
  "delete_ref a H = (if mCount H a \<noteq> None then Some (H\<lparr>mCount := (mCount H)(a := None)\<rparr>) else None)"

section \<open>The pointer\<close>

text \<open>A pointer is its member \<^verbatim>\<open>mPointer\<close>, which may be null.\<close>

type_synonym smart = "nat option"

definition SmartPointer_null :: smart where
  "SmartPointer_null = None"

definition SmartPointer_raw :: "nat option \<Rightarrow> ref_heap \<Rightarrow> (smart \<times> ref_heap) ub" where
  "SmartPointer_raw p H = (case p of None \<Rightarrow> Some (p, H) | Some a \<Rightarrow> do { H \<leftarrow> incRefCount a H; Some (p, H) })"

definition SmartPointer_copy :: "smart \<Rightarrow> ref_heap \<Rightarrow> (smart \<times> ref_heap) ub" where
  "SmartPointer_copy other H =
     (case other of None \<Rightarrow> Some (other, H) | Some a \<Rightarrow> do { H \<leftarrow> incRefCount a H; Some (other, H) })"

definition SmartPointer_destroy :: "smart \<Rightarrow> ref_heap \<Rightarrow> ref_heap ub" where
  "SmartPointer_destroy this H =
     (case this of
       None \<Rightarrow> Some H
     | Some a \<Rightarrow> do { (n, H) \<leftarrow> decRefCount a H; if n = 0 then delete_ref a H else Some H })"

definition SmartPointer_assign :: "smart \<Rightarrow> smart \<Rightarrow> ref_heap \<Rightarrow> (smart \<times> ref_heap) ub" where
  "SmartPointer_assign this other H = do {
     let temp = other;
     H \<leftarrow> (case temp of None \<Rightarrow> Some H | Some a \<Rightarrow> incRefCount a H);
     H \<leftarrow> (case this of
            None \<Rightarrow> Some H
          | Some a \<Rightarrow> do { (n, H) \<leftarrow> decRefCount a H; if n = 0 then delete_ref a H else Some H });
     Some (temp, H)
   }"

section \<open>Programs with pointer variables\<close>

text \<open>
  \<open>SpRaw v w\<close> makes the variable \<open>v\<close> from the raw pointer that the variable \<open>w\<close> holds.
\<close>

datatype sp_stmt = SpNull nat | SpNew nat | SpRaw nat nat | SpCopy nat nat | SpAssign nat nat | SpEnd nat

type_synonym sp_vars = "nat \<Rightarrow> smart option"

fun sp_step :: "sp_stmt \<Rightarrow> ref_heap \<times> sp_vars \<Rightarrow> (ref_heap \<times> sp_vars) ub" where
  "sp_step (SpNull v) (H, e) = Some (H, e(v \<mapsto> SmartPointer_null))"
| "sp_step (SpNew v) (H, e) =
     (let (a, H) = RefBase_new H in do { (p, H) \<leftarrow> SmartPointer_raw (Some a) H; Some (H, e(v \<mapsto> p)) })"
| "sp_step (SpRaw v w) (H, e) = do { q \<leftarrow> e w; (p, H) \<leftarrow> SmartPointer_raw q H; Some (H, e(v \<mapsto> p)) }"
| "sp_step (SpCopy v w) (H, e) = do { q \<leftarrow> e w; (p, H) \<leftarrow> SmartPointer_copy q H; Some (H, e(v \<mapsto> p)) }"
| "sp_step (SpAssign v w) (H, e) =
     do { this \<leftarrow> e v; q \<leftarrow> e w; (p, H) \<leftarrow> SmartPointer_assign this q H; Some (H, e(v \<mapsto> p)) }"
| "sp_step (SpEnd v) (H, e) = do { this \<leftarrow> e v; H \<leftarrow> SmartPointer_destroy this H; Some (H, e(v := None)) }"

fun sp_run :: "sp_stmt list \<Rightarrow> ref_heap \<times> sp_vars \<Rightarrow> (ref_heap \<times> sp_vars) ub" where
  "sp_run [] s = Some s"
| "sp_run (c # cs) s = do { s \<leftarrow> sp_step c s; sp_run cs s }"

text \<open>The test program and the counts it prints: 0 is \<^verbatim>\<open>spOuter\<close>, 1 \<^verbatim>\<open>spInner\<close>, 2 \<^verbatim>\<open>spOuter2\<close>.\<close>

definition testcase3 :: "(int list \<times> ref_heap \<times> sp_vars) ub" where
  "testcase3 = do {
     let pSomeClass = ref_next ref_empty;
     s \<leftarrow> sp_run [SpNew 0] (ref_empty, \<lambda>_. None);
     c1 \<leftarrow> getRefCount pSomeClass (fst s);
     s \<leftarrow> sp_run [SpCopy 1 0] s;
     c2 \<leftarrow> getRefCount pSomeClass (fst s);
     s \<leftarrow> sp_run [SpEnd 1] s;
     c3 \<leftarrow> getRefCount pSomeClass (fst s);
     (H, e) \<leftarrow> sp_run [SpNew 2, SpAssign 0 2, SpEnd 2, SpEnd 0] s;
     Some ([c1, c2, c3], H, e)
   }"

text \<open>A variable is declared once, used only while it is alive, and ends once.\<close>

fun in_scope :: "sp_stmt list \<Rightarrow> nat set \<Rightarrow> bool" where
  "in_scope [] V \<longleftrightarrow> True"
| "in_scope (SpNull v # cs) V \<longleftrightarrow> v \<notin> V \<and> in_scope cs (insert v V)"
| "in_scope (SpNew v # cs) V \<longleftrightarrow> v \<notin> V \<and> in_scope cs (insert v V)"
| "in_scope (SpRaw v w # cs) V \<longleftrightarrow> v \<notin> V \<and> w \<in> V \<and> in_scope cs (insert v V)"
| "in_scope (SpCopy v w # cs) V \<longleftrightarrow> v \<notin> V \<and> w \<in> V \<and> in_scope cs (insert v V)"
| "in_scope (SpAssign v w # cs) V \<longleftrightarrow> v \<in> V \<and> w \<in> V \<and> in_scope cs V"
| "in_scope (SpEnd v # cs) V \<longleftrightarrow> v \<in> V \<and> in_scope cs (V - {v})"

section \<open>The counter is the number of owners\<close>

abbreviation pointing :: "sp_vars \<Rightarrow> nat \<Rightarrow> nat" where
  "pointing e a \<equiv> owners e id (Some a)"

definition ref_counted :: "ref_heap \<Rightarrow> sp_vars \<Rightarrow> bool" where
  "ref_counted H e \<longleftrightarrow> finite (dom e) \<and>
     (\<forall>a. mCount H a = (if pointing e a = 0 then None else Some (int (pointing e a)))) \<and>
     (\<forall>a. ref_next H \<le> a \<longrightarrow> pointing e a = 0)"

lemma ref_countedD:
  assumes "ref_counted H e"
  shows "finite (dom e)" "mCount H a = (if pointing e a = 0 then None else Some (int (pointing e a)))"
    "ref_next H \<le> a \<Longrightarrow> pointing e a = 0"
  using assms by (auto simp: ref_counted_def)

lemma ref_counted_empty: "ref_counted ref_empty (\<lambda>_. None)"
  by (simp add: ref_counted_def ref_empty_def owners_def)

lemma pointing_le: "finite (dom e) \<Longrightarrow> pointing e a \<le> card (dom e)"
  unfolding owners_def by (rule card_mono) auto

lemma pointing_pos: "finite (dom e) \<Longrightarrow> e v = Some (Some a) \<Longrightarrow> 0 < pointing e a"
  using owners_pos [of e v "Some a" id] by simp

lemma pointing_new: "finite (dom e) \<Longrightarrow> e v = None \<Longrightarrow> pointing (e(v \<mapsto> p)) a = pointing e a + (if p = Some a then 1 else 0)"
  using owners_new [of e v p id "Some a"] by simp

lemma pointing_end: "finite (dom e) \<Longrightarrow> e v = Some p \<Longrightarrow> pointing e a = pointing (e(v := None)) a + (if p = Some a then 1 else 0)"
  using owners_drop [of e v p id "Some a"] by simp

lemma pointing_assign:
  assumes "finite (dom e)" "e v = Some p"
  shows "pointing (e(v \<mapsto> q)) a + (if p = Some a then 1 else 0) = pointing e a + (if q = Some a then 1 else 0)"
proof -
  have "pointing (e(v \<mapsto> q)) a = pointing (e(v := None)) a + (if q = Some a then 1 else 0)"
    using pointing_new [of "e(v := None)" v q a] assms(1) by simp
  then show ?thesis using pointing_end [OF assms, of a] by simp
qed

text \<open>Taking and giving up a unit of the counter.\<close>

lemma inc_live: "mCount H a = Some n \<Longrightarrow> 0 \<le> n \<Longrightarrow> n < INT_MAX \<Longrightarrow>
    incRefCount a H = Some (H\<lparr>mCount := (mCount H)(a \<mapsto> n + 1)\<rparr>)"
  by (simp add: incRefCount_def in_int_def)

lemma destroy_live: "mCount H a = Some n \<Longrightarrow> 0 < n \<Longrightarrow> n \<le> INT_MAX \<Longrightarrow>
    SmartPointer_destroy (Some a) H = Some (H\<lparr>mCount := (mCount H)(a := if n = 1 then None else Some (n - 1))\<rparr>)"
  by (simp add: SmartPointer_destroy_def decRefCount_def delete_ref_def in_int_def)

lemma assign_as_destroy:
  "SmartPointer_assign this other H = do { (p, H) \<leftarrow> SmartPointer_copy other H; H \<leftarrow> SmartPointer_destroy this H; Some (p, H) }"
  by (cases other) (simp_all add: SmartPointer_assign_def SmartPointer_copy_def SmartPointer_destroy_def)

lemma raw_is_copy: "SmartPointer_raw p H = SmartPointer_copy p H"
  by (simp add: SmartPointer_raw_def SmartPointer_copy_def)

lemma copy_counted:
  assumes "ref_counted H e" "e w = Some q" "card (dom e) < 2147483647"
  shows "\<exists>H2. SmartPointer_copy q H = Some (q, H2) \<and> ref_next H2 = ref_next H \<and>
    (\<forall>a. mCount H2 a = (let n = pointing e a + (if q = Some a then 1 else 0) in if n = 0 then None else Some (int n)))"
proof (cases q)
  case None
  then show ?thesis using ref_countedD(2) [OF assms(1)] by (simp add: SmartPointer_copy_def)
next
  case (Some b)
  have p: "0 < pointing e b" using pointing_pos [OF ref_countedD(1) [OF assms(1)]] assms(2) Some by simp
  have "pointing e b < 2147483647" using pointing_le [OF ref_countedD(1) [OF assms(1)], of b] assms(3) by simp
  then have "incRefCount b H = Some (H\<lparr>mCount := (mCount H)(b \<mapsto> int (pointing e b) + 1)\<rparr>)"
    by (intro inc_live) (use ref_countedD(2) [OF assms(1)] p in simp_all)
  then show ?thesis using ref_countedD(2) [OF assms(1)] Some by (simp add: SmartPointer_copy_def)
qed

lemma release_counted:
  assumes c: "\<forall>a. mCount H a = (if f a = 0 then None else Some (int (f a)))" and p: "\<forall>a. p = Some a \<longrightarrow> 0 < f a \<and> f a < 2147483648"
  shows "\<exists>H2. SmartPointer_destroy p H = Some H2 \<and> ref_next H2 = ref_next H \<and>
    (\<forall>a. mCount H2 a = (let n = f a - (if p = Some a then 1 else 0) in if n = 0 then None else Some (int n)))"
proof (cases p)
  case None
  then show ?thesis using c by (simp add: SmartPointer_destroy_def)
next
  case (Some b)
  then have b: "0 < f b" "f b < 2147483648" using p by auto
  then have "mCount H b = Some (int (f b))" using c by simp
  then have "SmartPointer_destroy (Some b) H = Some (H\<lparr>mCount := (mCount H)(b := if int (f b) = 1 then None else Some (int (f b) - 1))\<rparr>)"
    by (rule destroy_live) (use b in linarith)+
  then show ?thesis using c b Some by (auto simp: Let_def of_nat_diff)
qed

lemma sp_step_counted:
  assumes inv: "ref_counted H e" and ws: "in_scope (c # cs) (dom e)" and small: "card (dom e) < 2147483646"
  shows "\<exists>H2 e2. sp_step c (H, e) = Some (H2, e2) \<and> ref_counted H2 e2 \<and> in_scope cs (dom e2) \<and> card (dom e2) \<le> Suc (card (dom e))"
proof -
  note fin = ref_countedD(1) [OF inv]
  note grow = pointing_new [OF fin]
  have nx: "pointing e a = 0" if "ref_next H \<le> a" for a using ref_countedD(3) [OF inv that] .
  have copied: "\<exists>H2. SmartPointer_copy q H = Some (q, H2) \<and> ref_counted H2 (e(v \<mapsto> q))" if v: "e v = None" and w: "e w = Some q" for v w q
  proof -
    obtain H2 where h: "SmartPointer_copy q H = Some (q, H2)" "ref_next H2 = ref_next H"
      "\<forall>a. mCount H2 a = (let n = pointing e a + (if q = Some a then 1 else 0) in if n = 0 then None else Some (int n))"
      using copy_counted [OF inv w] small by auto
    have "q \<noteq> Some a" if "ref_next H \<le> a" for a using nx [OF that] pointing_pos [OF fin, of w a] w by auto
    then have "ref_counted H2 (e(v \<mapsto> q))" using h(2,3) fin nx by (simp add: ref_counted_def grow [OF v] Let_def)
    then show ?thesis using h(1) by blast
  qed
  show ?thesis
  proof (cases c)
    case (SpNull v)
    then have "e v = None" using ws by auto
    then show ?thesis using SpNull ws inv fin by (simp add: SmartPointer_null_def ref_counted_def grow card_insert_if)
  next
    case (SpNew v)
    then have v: "e v = None" using ws by auto
    let ?a = "ref_next H"
    let ?H = "H\<lparr>mCount := (mCount H)(?a \<mapsto> 1), ref_next := Suc ?a\<rparr>"
    have "SmartPointer_raw (Some ?a) (snd (RefBase_new H)) = Some (Some ?a, ?H)"
      by (simp add: RefBase_new_def SmartPointer_raw_def incRefCount_def in_int_def)
    moreover have "ref_counted ?H (e(v \<mapsto> Some ?a))"
      using ref_countedD(2) [OF inv] nx fin by (auto simp: ref_counted_def grow [OF v])
    ultimately show ?thesis using SpNew ws fin by (simp add: RefBase_new_def card_insert_if)
  next
    case (SpRaw v w)
    then obtain q where v: "e v = None" "e w = Some q" using ws by auto
    show ?thesis using copied [OF v] SpRaw v ws fin by (auto simp: raw_is_copy card_insert_if)
  next
    case (SpCopy v w)
    then obtain q where v: "e v = None" "e w = Some q" using ws by auto
    show ?thesis using copied [OF v] SpCopy v ws fin by (auto simp: card_insert_if)
  next
    case (SpAssign v w)
    then obtain p q where v: "e v = Some p" "e w = Some q" using ws by auto
    let ?f = "\<lambda>a. pointing e a + (if q = Some a then 1 else 0)"
    obtain H1 where h1: "SmartPointer_copy q H = Some (q, H1)" "ref_next H1 = ref_next H"
      "\<forall>a. mCount H1 a = (let n = ?f a in if n = 0 then None else Some (int n))"
      using copy_counted [OF inv v(2)] small by auto
    have "0 < ?f a \<and> ?f a < 2147483648" if "p = Some a" for a
      using pointing_pos [OF fin, of v a] pointing_le [OF fin, of a] v(1) that small by auto
    then obtain H2 where h2: "SmartPointer_destroy p H1 = Some H2" "ref_next H2 = ref_next H1"
      "\<forall>a. mCount H2 a = (let n = ?f a - (if p = Some a then 1 else 0) in if n = 0 then None else Some (int n))"
      using release_counted [of H1 ?f p] h1(3) by (auto simp: Let_def)
    have f: "pointing (e(v \<mapsto> q)) a = ?f a - (if p = Some a then 1 else 0)" for a
      using pointing_assign [OF fin v(1), of q a] by simp
    have far: "q \<noteq> Some a" if "ref_next H \<le> a" for a using nx [OF that] pointing_pos [OF fin, of w a] v(2) by auto
    have "ref_counted H2 (e(v \<mapsto> q))"
      using h1(2) h2(2,3) fin nx far by (simp add: ref_counted_def f Let_def)
    then show ?thesis using SpAssign v ws h1(1) h2(1) fin by (simp add: assign_as_destroy insert_absorb domI)
  next
    case (SpEnd v)
    then obtain p where v: "e v = Some p" using ws by auto
    have f: "pointing (e(v := None)) a = pointing e a - (if p = Some a then 1 else 0)" for a
      using pointing_end [OF fin v, of a] by simp
    have "0 < pointing e a \<and> pointing e a < 2147483648" if "p = Some a" for a
      using pointing_pos [OF fin, of v a] pointing_le [OF fin, of a] v that small by auto
    then obtain H2 where h2: "SmartPointer_destroy p H = Some H2" "ref_next H2 = ref_next H"
      "\<forall>a. mCount H2 a = (let n = pointing e a - (if p = Some a then 1 else 0) in if n = 0 then None else Some (int n))"
      using release_counted [of H "pointing e" p] ref_countedD(2) [OF inv] by auto
    have "ref_counted H2 (e(v := None))" using h2(2,3) fin nx by (simp add: ref_counted_def f Let_def)
    moreover have "card (dom e - {v}) \<le> Suc (card (dom e))" using card_Diff1_le [of "dom e" v] by simp
    ultimately show ?thesis using SpEnd v ws h2(1) by simp
  qed
qed

lemma sp_run_counted:
  "ref_counted H e \<Longrightarrow> in_scope cs (dom e) \<Longrightarrow> card (dom e) + length cs \<le> 2147483646 \<Longrightarrow>
    \<exists>H2 e2. sp_run cs (H, e) = Some (H2, e2) \<and> ref_counted H2 e2"
proof (induction cs arbitrary: H e)
  case (Cons c cs)
  obtain H1 e1 where s: "sp_step c (H, e) = Some (H1, e1)" "ref_counted H1 e1" "in_scope cs (dom e1)" "card (dom e1) \<le> Suc (card (dom e))"
    using sp_step_counted [OF Cons.prems(1,2)] Cons.prems(3) by auto
  show ?case using Cons.IH [OF s(2,3)] Cons.prems(3) s(1,4) by simp
qed simp

section \<open>Properties\<close>

text \<open>
  C16. Every program that declares, copies, assigns (to itself as well), re-wraps raw pointers and ends
  its pointer variables within their scopes runs without misuse of memory or overflow of a counter: an object is allocated
  exactly while some variable points to it, its counter is the number of these variables, and
  nothing is left when no variable is left. The test program prints 1, 2 and 1 and leaves nothing.
\<close>

theorem intrusive_pointer_safety:
  assumes "in_scope cs {}" "length cs \<le> 2147483646"
  shows "\<exists>H e. sp_run cs (ref_empty, \<lambda>_. None) = Some (H, e) \<and>
    (\<forall>a. getRefCount a H = (let n = card {v. e v = Some (Some a)} in if n = 0 then None else Some (int n))) \<and>
    (\<forall>v a. e v = Some (Some a) \<longrightarrow> mCount H a \<noteq> None) \<and>
    (dom e = {} \<longrightarrow> mCount H = (\<lambda>_. None))"
proof -
  obtain H e where r: "sp_run cs (ref_empty, \<lambda>_. None) = Some (H, e)" "ref_counted H e"
    using sp_run_counted [OF ref_counted_empty, of cs] assms by auto
  have p: "pointing e a = card {v. e v = Some (Some a)}" for a by (simp add: owners_def)
  have "mCount H = (\<lambda>_. None)" if "dom e = {}" using ref_countedD(2) [OF r(2)] that by (auto simp: p)
  moreover have "mCount H a \<noteq> None" if "e v = Some (Some a)" for v a
    using ref_countedD(2) [OF r(2), of a] pointing_pos [OF ref_countedD(1) [OF r(2)] that] by simp
  ultimately show ?thesis using r ref_countedD(2) [OF r(2)] by (simp add: getRefCount_def p Let_def)
qed

lemma intrusive_pointer_safety_witness:
  "\<exists>H e. sp_run [SpNew 0, SpRaw 1 0, SpAssign 0 0, SpEnd 0, SpEnd 1] (ref_empty, \<lambda>_. None) = Some (H, e) \<and>
    (dom e = {} \<longrightarrow> mCount H = (\<lambda>_. None))"
  using intrusive_pointer_safety [of "[SpNew 0, SpRaw 1 0, SpAssign 0 0, SpEnd 0, SpEnd 1]"] by auto

text \<open>The test program prints 1, 2 and 1, and both objects are freed.\<close>

theorem testcase3_counts: "\<exists>H. testcase3 = Some ([1, 2, 1], H, \<lambda>_. None) \<and> mCount H = (\<lambda>_. None)"
  by (simp add: testcase3_def ref_empty_def RefBase_new_def SmartPointer_raw_def SmartPointer_copy_def SmartPointer_assign_def
      SmartPointer_destroy_def incRefCount_def decRefCount_def delete_ref_def getRefCount_def in_int_def fun_eq_iff)

end
