(* ===== verification/Flyweight.thy ===== *)
theory Flyweight
  imports Cpp_Prelude
begin

text \<open>
  \<^verbatim>\<open>cpp/design_pattern/Flyweight.cpp\<close>: gomoku with one shared piece object per colour. The
  factory owns the pieces, the chessboard maps points to pointers to them; the position in a
  piece is set anew for each move. Objects live on a heap; a pointer that is used when its object is
  gone, or a position that is read before it is set, is \<^term>\<open>None\<close>. The classes have no virtual destructor, so
  that \<^verbatim>\<open>delete *it\<close> is formally undefined; it is modelled as what it is meant to do, to release the piece.
\<close>

section \<open>Points\<close>

datatype POINT = POINT (pt_x: int) (pt_y: int)

definition point_less :: "POINT \<Rightarrow> POINT \<Rightarrow> bool" where
  "point_less this other =
     (if pt_x this < pt_x other then True
      else if pt_x this = pt_x other then pt_y this < pt_y other
      else False)"

text \<open>\<^verbatim>\<open>operator<\<close> is a linear order, so the order of a \<^verbatim>\<open>std::map\<close> over points is the library's.\<close>

instantiation POINT :: linorder
begin

definition less_POINT :: "POINT \<Rightarrow> POINT \<Rightarrow> bool" where
  "less_POINT = point_less"

definition less_eq_POINT :: "POINT \<Rightarrow> POINT \<Rightarrow> bool" where
  "less_eq_POINT p q \<longleftrightarrow> point_less p q \<or> p = q"

instance
proof
  fix p q r :: POINT
  show "p < q \<longleftrightarrow> p \<le> q \<and> \<not> q \<le> p" "p \<le> p"
    by (auto simp: less_POINT_def less_eq_POINT_def point_less_def)
  show "p \<le> q \<or> q \<le> p"
    by (cases p; cases q) (auto simp: less_eq_POINT_def point_less_def)
  show "p \<le> q \<Longrightarrow> q \<le> r \<Longrightarrow> p \<le> r" "p \<le> q \<Longrightarrow> q \<le> p \<Longrightarrow> p = q"
    by (auto simp: less_eq_POINT_def point_less_def split: if_splits)
qed

end


section \<open>Pieces, factory and board\<close>

datatype PIECECOLOR = BLACK | WHITE

record CPiece =
  m_color :: PIECECOLOR
  m_point :: "POINT option"

record gomoku =
  pieces :: "nat \<Rightarrow> CPiece option"
  piece_next :: nat
  m_vecPiece :: "nat list"
  m_mapPieces :: "(POINT \<times> nat) list"
  drawn :: "(PIECECOLOR \<times> POINT) list"













section \<open>Games\<close>




section \<open>The ordered map\<close>






section \<open>The invariant\<close>

text \<open>The colour of a piece, and the board as a function from points to colours.\<close>

abbreviation hue :: "gomoku \<Rightarrow> nat \<Rightarrow> PIECECOLOR" where
  "hue G p \<equiv> m_color (the (pieces G p))"

definition shared_pieces :: "gomoku \<Rightarrow> bool" where
  "shared_pieces G \<longleftrightarrow> dom (pieces G) = set (m_vecPiece G) \<and> distinct (map (hue G) (m_vecPiece G)) \<and>
     (\<forall>p \<in> set (m_vecPiece G). p < piece_next G)"





lemma GetPiece_same: "shared_pieces G \<Longrightarrow> p \<in> set (m_vecPiece G) \<Longrightarrow> q \<in> set (m_vecPiece G) \<Longrightarrow> hue G p = hue G q \<Longrightarrow> p = q"
  by (simp add: shared_pieces_def distinct_map inj_on_def)






section \<open>Properties\<close>






end
