(* ===== verification/TimeThread.thy ===== *)
theory TimeThread
  imports TimeCache
begin

text \<open>
  \<^verbatim>\<open>cpp/cpp_language/old/time_thread.cpp\<close>: the first version of the time cache. A thread copies the
  system times into the members of a \<^verbatim>\<open>CTimeThread\<close> at intervals; the functions of the interface
  return these members, or ask the system when their flag is not set (all three flags are 0 in this file).
  Nothing protects the members. The functions are modelled over the members; what a reader can see
  while the thread writes is a step relation in which one field is written or read at a time (in
  C++ such a race is undefined; the relation is what a machine that accesses words atomically does). The
  system clocks are parameters.
\<close>

section \<open>The members and the functions\<close>

record ctime_thread =
  tt_tv :: timeval
  tt_tz :: "int \<times> int"
  tt_monotonic :: timespec
  tt_realtime :: timespec
  tt_seconds :: int
  tt_milliseconds :: int
  tt_interval :: "32 word"

definition CTimeThread_construct :: "timeval \<Rightarrow> int \<times> int \<Rightarrow> timespec \<Rightarrow> timespec \<Rightarrow> ctime_thread" where
  "CTimeThread_construct tv tz tp_mono tp_real = \<lparr>tt_tv = tv, tt_tz = tz, tt_monotonic = tp_mono, tt_realtime = tp_real,
     tt_seconds = tv_sec tv, tt_milliseconds = tv_usec tv, tt_interval = 1\<rparr>"

definition tt_gettimeofday_cached :: "timeval option \<Rightarrow> (int \<times> int) option \<Rightarrow> ctime_thread \<Rightarrow> int \<times> timeval option \<times> (int \<times> int) option" where
  "tt_gettimeofday_cached tv tz c = (0, map_option (\<lambda>_. tt_tv c) tv, map_option (\<lambda>_. tt_tz c) tz)"

definition tt_clock_gettime_cached ::
    "(clockid \<Rightarrow> timespec option \<Rightarrow> int \<times> timespec option) \<Rightarrow> clockid \<Rightarrow> timespec option \<Rightarrow> ctime_thread \<Rightarrow> int \<times> timespec option" where
  "tt_clock_gettime_cached sys clock_id tp c =
     (if tp = None then (-1, tp)
      else if CLOCK_MONOTONIC = clock_id then (0, Some (tt_monotonic c))
      else if CLOCK_REALTIME = clock_id then (0, Some (tt_realtime c))
      else sys clock_id tp)"

definition tt_time_cached :: "int option \<Rightarrow> ctime_thread \<Rightarrow> int \<times> int option" where
  "tt_time_cached timer c =
     (if timer = None then (tt_seconds c, None) else (tt_seconds c, Some (tt_seconds c)))"

text \<open>One round of \<^verbatim>\<open>run\<close> up to its sleep, and the time that the sleep asks for.\<close>

definition tt_round :: "timeval \<Rightarrow> int \<times> int \<Rightarrow> timespec \<Rightarrow> timespec \<Rightarrow> ctime_thread \<Rightarrow> ctime_thread" where
  "tt_round tv tz tp_mono tp_real c =
     (let c = c\<lparr>tt_tv := tv, tt_tz := tz\<rparr>;
          c = c\<lparr>tt_monotonic := tp_mono\<rparr>;
          c = c\<lparr>tt_realtime := tp_real\<rparr>
      in c\<lparr>tt_seconds := tv_sec (tt_tv c), tt_milliseconds := tv_usec (tt_tv c)\<rparr>)"

definition tt_pause :: "ctime_thread \<Rightarrow> timespec" where
  "tt_pause c = \<lparr>ts_sec = uint (tt_interval c div 1000), ts_nsec = uint (tt_interval c mod 1000 * 1000000)\<rparr>"

text \<open>
  The loop around \<^verbatim>\<open>nanosleep\<close>: each interruption leaves the remaining time in the
  argument; the result is the time slept in all.
\<close>

fun tt_sleep :: "timespec \<Rightarrow> timespec list \<Rightarrow> int" where
  "tt_sleep ts [] = ns_of ts"
| "tt_sleep ts (remaining # interrupts) = (ns_of ts - ns_of remaining) + tt_sleep remaining interrupts"

text \<open>The interface: a flag chooses between the cache and the system.\<close>

definition tt_api_time :: "bool \<Rightarrow> (int option \<Rightarrow> int \<times> int option) \<Rightarrow> int option \<Rightarrow> ctime_thread \<Rightarrow> 32 word \<times> int option" where
  "tt_api_time flag sys timer c =
     (if flag
      then if timer = None then (0, None) else let (t, p) = tt_time_cached timer c in (word_of_int t, p)
      else let (t, p) = sys timer in (word_of_int t, p))"

definition tt_api_gettimeofday ::
    "bool \<Rightarrow> (timeval option \<Rightarrow> (int \<times> int) option \<Rightarrow> int \<times> timeval option \<times> (int \<times> int) option) \<Rightarrow>
     timeval option \<Rightarrow> (int \<times> int) option \<Rightarrow> ctime_thread \<Rightarrow> int \<times> timeval option \<times> (int \<times> int) option" where
  "tt_api_gettimeofday flag sys tv tz c = (if flag then tt_gettimeofday_cached tv tz c else sys tv tz)"

definition tt_api_clock_gettime ::
    "bool \<Rightarrow> (clockid \<Rightarrow> timespec option \<Rightarrow> int \<times> timespec option) \<Rightarrow> clockid \<Rightarrow> timespec option \<Rightarrow> ctime_thread \<Rightarrow> int \<times> timespec option" where
  "tt_api_clock_gettime flag sys clock_id tp c = (if flag then tt_clock_gettime_cached sys clock_id tp c else sys clock_id tp)"

section \<open>Readers beside the thread\<close>
















section \<open>Properties\<close>



lemma tt_sleep_total: "tt_sleep ts interrupts = ns_of ts"
  by (induction ts interrupts rule: tt_sleep.induct) auto

lemma tt_pause_valid:
  "0 \<le> ts_nsec (tt_pause c)" "ts_nsec (tt_pause c) < 1000000000" "ns_of (tt_pause c) = 1000000 * uint (tt_interval c)"
proof -
  have "uint (tt_interval c mod 1000 * 1000000) = uint (tt_interval c) mod 1000 * 1000000"
    by (simp add: uint_word_ariths uint_mod)
  moreover have "w div 1000 * 1000000000 + w mod 1000 * 1000000 = 1000000 * w" for w :: int
    using div_mult_mod_eq [of w 1000] by linarith
  ultimately show "0 \<le> ts_nsec (tt_pause c)" "ts_nsec (tt_pause c) < 1000000000" "ns_of (tt_pause c) = 1000000 * uint (tt_interval c)"
    by (simp_all add: tt_pause_def ns_of_def uint_div)
qed

text \<open>
  After a round the cached functions answer with the values of that round; a null pointer is
  refused by \<^verbatim>\<open>clock_gettime_cached\<close> only, and makes the cached \<^verbatim>\<open>time_cached\<close> answer 0; with
  the flags as they are in the file every function asks the system. The pause of the thread is a valid
  argument of \<^verbatim>\<open>nanosleep\<close>, it is the interval, and interruptions do not change the time slept.
\<close>

theorem time_thread_functions:
  "let d = tt_round tv tz tp_mono tp_real c in
     tt_api_gettimeofday True sys1 (Some old1) (Some old2) d = (0, Some tv, Some tz) \<and>
     tt_api_clock_gettime True sys2 CLOCK_MONOTONIC (Some old3) d = (0, Some tp_mono) \<and>
     tt_api_clock_gettime True sys2 CLOCK_REALTIME (Some old3) d = (0, Some tp_real) \<and>
     tt_api_clock_gettime True sys2 (CLOCK_OTHER k) (Some old3) d = sys2 (CLOCK_OTHER k) (Some old3) \<and>
     tt_api_clock_gettime True sys2 clock_id None d = (-1, None) \<and>
     tt_api_time True sys3 (Some old4) d = (word_of_int (tv_sec tv), Some (tv_sec tv)) \<and>
     tt_api_time True sys3 None d = (0, None) \<and>
     tt_api_gettimeofday False sys1 p q d = sys1 p q \<and> tt_api_clock_gettime False sys2 clock_id p2 d = sys2 clock_id p2 \<and>
     0 \<le> ts_nsec (tt_pause d) \<and> ts_nsec (tt_pause d) < 1000000000 \<and>
     tt_sleep (tt_pause d) interrupts = 1000000 * uint (tt_interval c)"
proof -
  let ?d = "tt_round tv tz tp_mono tp_real c"
  have "tt_interval ?d = tt_interval c" by (simp add: tt_round_def Let_def)
  moreover have "tt_sleep (tt_pause ?d) interrupts = 1000000 * uint (tt_interval ?d)"
    by (simp only: tt_sleep_total tt_pause_valid)
  ultimately show ?thesis
    using tt_pause_valid [of ?d]
    by (simp add: tt_round_def tt_api_gettimeofday_def tt_gettimeofday_cached_def tt_api_clock_gettime_def
        tt_clock_gettime_cached_def tt_api_time_def tt_time_cached_def Let_def)
qed

end
