(* ===== verification/SafeQueue2.thy ===== *)
theory SafeQueue2
  imports Cpp_Prelude
begin

text \<open>
  \<^verbatim>\<open>cpp/stl/safe_queue_2.cpp\<close>: the unbounded queue \<^verbatim>\<open>threadsafe_queue\<close> with one condition variable,
  and the program of one producer and one consumer. Every operation is one critical section, except that a wait splits
  it: a thread that finds its predicate false releases the mutex and sleeps in one step, and tests again after it was
  notified (or woke spuriously). Taking the front of an empty \<^verbatim>\<open>std::queue\<close> is undefined; the flag
  \<open>broken\<close> records it. The overload \<^verbatim>\<open>shared_ptr<T> try_pop()\<close> does not compile
  (\<^verbatim>\<open>make_shared\<close> without its type) and is not modelled.
\<close>

section \<open>The operations\<close>

definition front_pop :: "'a list \<Rightarrow> ('a \<times> 'a list) ub" where
  "front_pop q = (case q of [] \<Rightarrow> None | x # xs \<Rightarrow> Some (x, xs))"

text \<open>The predicates of the two waits; the first one is the wrong way round.\<close>

definition ref_ready :: "'a list \<Rightarrow> bool" where
  "ref_ready q \<longleftrightarrow> q = []"

definition ptr_ready :: "'a list \<Rightarrow> bool" where
  "ptr_ready q \<longleftrightarrow> q \<noteq> []"

definition tsq_try_pop :: "'a list \<Rightarrow> ('a option \<times> 'a list) ub" where
  "tsq_try_pop q = (if q = [] then Some (None, q) else do { (x, q) \<leftarrow> front_pop q; Some (Some x, q) })"

definition tsq_empty :: "'a list \<Rightarrow> bool" where
  "tsq_empty q \<longleftrightarrow> q = []"

definition tsq_copy :: "'a list \<Rightarrow> 'a list" where
  "tsq_copy other = other"

text \<open>The state of a queue with the threads that use it.\<close>

datatype tsq_pc = Out | RefAsleep | RefAwake | PtrAsleep | PtrAwake

record tsq =
  data_queue :: "int list"
  pcs :: "nat \<Rightarrow> tsq_pc"
  put :: "int list"
  taken :: "int list"
  broken :: bool

definition tsq_new :: tsq where
  "tsq_new = \<lparr>data_queue = [], pcs = (\<lambda>_. Out), put = [], taken = [], broken = False\<rparr>"

text \<open>\<^verbatim>\<open>notify_one\<close> wakes one sleeper, whichever, if there is one.\<close>

inductive notify_one :: "(nat \<Rightarrow> tsq_pc) \<Rightarrow> (nat \<Rightarrow> tsq_pc) \<Rightarrow> bool" where
  nobody: "\<forall>i. f i \<noteq> RefAsleep \<and> f i \<noteq> PtrAsleep \<Longrightarrow> notify_one f f"
| wake_ref: "f i = RefAsleep \<Longrightarrow> notify_one f (f(i := RefAwake))"
| wake_ptr: "f i = PtrAsleep \<Longrightarrow> notify_one f (f(i := PtrAwake))"

text \<open>What the critical section does after the wait: front and pop.\<close>

definition tsq_take :: "nat \<Rightarrow> tsq \<Rightarrow> tsq" where
  "tsq_take i s = (case front_pop (data_queue s) of
     None \<Rightarrow> s\<lparr>broken := True\<rparr>
   | Some (x, q) \<Rightarrow> s\<lparr>data_queue := q, taken := taken s @ [x], pcs := (pcs s)(i := Out)\<rparr>)"

inductive tsq_step :: "tsq \<Rightarrow> tsq \<Rightarrow> bool" where
  tsq_push: "pcs s i = Out \<Longrightarrow> notify_one (pcs s) f \<Longrightarrow>
    tsq_step s (s\<lparr>data_queue := data_queue s @ [v], put := put s @ [v], pcs := f\<rparr>)"
| ptr_call: "pcs s i = Out \<or> pcs s i = PtrAwake \<Longrightarrow> ptr_ready (data_queue s) \<Longrightarrow> tsq_step s (tsq_take i s)"
| ptr_wait: "pcs s i = Out \<or> pcs s i = PtrAwake \<Longrightarrow> \<not> ptr_ready (data_queue s) \<Longrightarrow>
    tsq_step s (s\<lparr>pcs := (pcs s)(i := PtrAsleep)\<rparr>)"
| try_got: "pcs s i = Out \<Longrightarrow> tsq_try_pop (data_queue s) = Some (Some x, q) \<Longrightarrow>
    tsq_step s (s\<lparr>data_queue := q, taken := taken s @ [x]\<rparr>)"
| ptr_spurious: "pcs s i = PtrAsleep \<Longrightarrow> tsq_step s (s\<lparr>pcs := (pcs s)(i := PtrAwake)\<rparr>)"

inductive tsq_ref_step :: "tsq \<Rightarrow> tsq \<Rightarrow> bool" where
  ref_call: "pcs s i = Out \<or> pcs s i = RefAwake \<Longrightarrow> ref_ready (data_queue s) \<Longrightarrow> tsq_ref_step s (tsq_take i s)"
| ref_wait: "pcs s i = Out \<or> pcs s i = RefAwake \<Longrightarrow> \<not> ref_ready (data_queue s) \<Longrightarrow>
    tsq_ref_step s (s\<lparr>pcs := (pcs s)(i := RefAsleep)\<rparr>)"
| ref_spurious: "pcs s i = RefAsleep \<Longrightarrow> tsq_ref_step s (s\<lparr>pcs := (pcs s)(i := RefAwake)\<rparr>)"

section \<open>The program\<close>

text \<open>
  Both thread functions take the queue by value, so that each works on a copy that no other thread can change: a
  wait whose predicate is false never ends.
\<close>

datatype 'a ending = Returned 'a | Blocked | Undefined

definition wait_and_pop_alone :: "'a list \<Rightarrow> ('a \<times> 'a list) ending" where
  "wait_and_pop_alone q =
     (if ref_ready q then (case front_pop q of None \<Rightarrow> Undefined | Some r \<Rightarrow> Returned r) else Blocked)"

fun produce_loop :: "nat \<Rightarrow> 'a \<Rightarrow> 'a list \<Rightarrow> 'a list" where
  "produce_loop 0 a q = q"
| "produce_loop (Suc n) a q = produce_loop n a (q @ [a])"

text \<open>An object of the class \<^verbatim>\<open>A\<close> is its member, which is 1.\<close>

definition prepare_A :: int where
  "prepare_A = 1"

definition produce_thread :: "int list \<Rightarrow> int list" where
  "produce_thread queue = produce_loop 10 prepare_A (tsq_copy queue)"

text \<open>The consumer deletes what it got, which is a local variable.\<close>

definition consume_thread :: "'a list \<Rightarrow> unit ending" where
  "consume_thread queue =
     (case wait_and_pop_alone (tsq_copy queue) of
        Blocked \<Rightarrow> Blocked
      | Undefined \<Rightarrow> Undefined
      | Returned (a, q) \<Rightarrow> Undefined)"

text \<open>The queue of the main function, the copy of the producer, and how the consumer ends.\<close>

definition test_queue :: "int list \<times> int list \<times> unit ending" where
  "test_queue = (let queue = [] in (queue, produce_thread queue, consume_thread queue))"

section \<open>Order and wake-ups\<close>

definition tsq_sleeping :: "tsq \<Rightarrow> nat set" where
  "tsq_sleeping s = {i. pcs s i = PtrAsleep}"

definition tsq_awake :: "tsq \<Rightarrow> nat set" where
  "tsq_awake s = {i. pcs s i = PtrAwake}"

text \<open>While somebody sleeps, there is a thread on its way for every element of the queue.\<close>

definition tsq_inv :: "tsq \<Rightarrow> bool" where
  "tsq_inv s \<longleftrightarrow> \<not> broken s \<and> put s = taken s @ data_queue s \<and>
     (\<forall>i. pcs s i \<noteq> RefAsleep \<and> pcs s i \<noteq> RefAwake) \<and> finite (tsq_awake s) \<and>
     (tsq_sleeping s \<noteq> {} \<longrightarrow> length (data_queue s) \<le> card (tsq_awake s))"

lemma tsq_inv_new: "tsq_inv tsq_new"
  by (simp add: tsq_inv_def tsq_new_def tsq_awake_def tsq_sleeping_def)

lemma awake_upd:
  "{j. ((pcs s)(i := PtrAwake)) j = PtrAwake} = insert i (tsq_awake s)"
  "c \<noteq> PtrAwake \<Longrightarrow> {j. ((pcs s)(i := c)) j = PtrAwake} = tsq_awake s - {i}"
  by (auto simp: tsq_awake_def)

lemma tsq_take_inv:
  assumes "tsq_inv s" "pcs s i = Out \<or> pcs s i = PtrAwake" "data_queue s \<noteq> []"
  shows "tsq_inv (tsq_take i s)"
proof -
  obtain x q where q: "data_queue s = x # q" using assms(3) by (cases "data_queue s") auto
  have t: "tsq_take i s = s\<lparr>data_queue := q, taken := taken s @ [x], pcs := (pcs s)(i := Out)\<rparr>"
    using q by (simp add: tsq_take_def front_pop_def)
  have f: "finite (tsq_awake s)" and w: "tsq_sleeping s \<noteq> {} \<Longrightarrow> length q < card (tsq_awake s)"
    using assms(1) q by (auto simp: tsq_inv_def)
  have a: "tsq_awake (tsq_take i s) = tsq_awake s - {i}" by (auto simp: t tsq_awake_def)
  have sl: "tsq_sleeping (tsq_take i s) \<subseteq> tsq_sleeping s" by (auto simp: t tsq_sleeping_def)
  have "card (tsq_awake s) \<le> Suc (card (tsq_awake s - {i}))" using card_Suc_Diff1 [OF f, of i] by (cases "i \<in> tsq_awake s") simp_all
  then have "tsq_sleeping (tsq_take i s) \<noteq> {} \<Longrightarrow> length q \<le> card (tsq_awake s - {i})" using w sl by fastforce
  then show ?thesis using assms(1) q f unfolding tsq_inv_def a by (auto simp: t)
qed

lemma tsq_push_inv:
  assumes "tsq_inv s" "notify_one (pcs s) f"
  shows "tsq_inv (s\<lparr>data_queue := data_queue s @ [v], put := put s @ [v], pcs := f\<rparr>)"
  using assms(2)
proof cases
  case nobody
  then show ?thesis using assms(1) by (auto simp: tsq_inv_def tsq_sleeping_def tsq_awake_def)
next
  case (wake_ref i)
  then show ?thesis using assms(1) by (simp add: tsq_inv_def)
next
  case (wake_ptr i)
  have "i \<in> tsq_sleeping s" "i \<notin> tsq_awake s" using wake_ptr by (simp_all add: tsq_sleeping_def tsq_awake_def)
  moreover have "{j. f j = PtrAwake} = insert i (tsq_awake s)" unfolding wake_ptr(1) awake_upd ..
  ultimately have "length (data_queue s) + 1 \<le> card {j. f j = PtrAwake}" "finite {j. f j = PtrAwake}"
    using assms(1) by (auto simp: tsq_inv_def)
  then show ?thesis using assms(1) wake_ptr(1) by (auto simp: tsq_inv_def tsq_awake_def)
qed

lemma tsq_inv_step: "tsq_step s s' \<Longrightarrow> tsq_inv s \<Longrightarrow> tsq_inv s'"
proof (induction rule: tsq_step.induct)
  case (tsq_push s i f v)
  then show ?case using tsq_push_inv by blast
next
  case (ptr_call s i)
  then show ?case using tsq_take_inv by (simp add: ptr_ready_def)
next
  case (ptr_wait s i)
  moreover have "finite {j. ((pcs s)(i := PtrAsleep)) j = PtrAwake}"
    using ptr_wait by (simp add: awake_upd(2) tsq_inv_def del: fun_upd_apply)
  ultimately show ?case by (auto simp: tsq_inv_def ptr_ready_def tsq_awake_def)
next
  case (try_got s i x q)
  then have "data_queue s = x # q" by (auto simp: tsq_try_pop_def front_pop_def split: if_splits list.splits)
  then show ?case using try_got by (auto simp: tsq_inv_def tsq_awake_def tsq_sleeping_def)
next
  case (ptr_spurious s i)
  have "i \<notin> tsq_awake s" "finite (tsq_awake s)" using ptr_spurious by (simp_all add: tsq_awake_def tsq_inv_def)
  moreover have "i \<in> tsq_sleeping s" using ptr_spurious by (simp add: tsq_sleeping_def)
  moreover have "tsq_awake (s\<lparr>pcs := (pcs s)(i := PtrAwake)\<rparr>) = insert i (tsq_awake s)"
    using awake_upd(1) by (simp add: tsq_awake_def del: fun_upd_apply)
  ultimately show ?case using ptr_spurious unfolding tsq_inv_def by (auto simp: tsq_sleeping_def)
qed

lemma tsq_inv_reach: "tsq_step\<^sup>*\<^sup>* tsq_new s \<Longrightarrow> tsq_inv s"
  by (induction rule: rtranclp_induct) (auto intro: tsq_inv_new tsq_inv_step)

section \<open>Properties\<close>

text \<open>
  Used through \<^verbatim>\<open>push\<close>, \<^verbatim>\<open>try_pop\<close> and the \<^verbatim>\<open>wait_and_pop\<close> that returns a pointer, by
  any number of threads, the queue is first in first out and never touches an empty queue, and no
  notification is lost: when elements are left while a thread sleeps, at least as many woken threads are on
  their way to take them.
\<close>

theorem threadsafe_queue_fifo:
  assumes "tsq_step\<^sup>*\<^sup>* tsq_new s"
  shows "\<not> broken s \<and> put s = taken s @ data_queue s \<and>
    (pcs s i = PtrAsleep \<and> data_queue s \<noteq> [] \<longrightarrow> length (data_queue s) \<le> card (tsq_awake s) \<and> tsq_awake s \<noteq> {})"
proof -
  have "tsq_inv s" using tsq_inv_reach [OF assms] .
  then show ?thesis by (auto simp: tsq_inv_def tsq_sleeping_def)
qed

lemma threadsafe_queue_fifo_witness:
  "let s = tsq_new\<lparr>data_queue := [7], put := [7]\<rparr> in tsq_step\<^sup>*\<^sup>* tsq_new s \<and> put s = taken s @ data_queue s"
proof -
  let ?s = "tsq_new\<lparr>data_queue := [7], put := [7]\<rparr>"
  have "notify_one (pcs tsq_new) (pcs tsq_new)" by (rule nobody) (simp add: tsq_new_def)
  then have "tsq_step tsq_new ?s" using tsq_push [of tsq_new 0 "pcs tsq_new" 7] by (simp add: tsq_new_def)
  then have r: "tsq_step\<^sup>*\<^sup>* tsq_new ?s" by blast
  then show ?thesis using threadsafe_queue_fifo [OF r] by (simp add: Let_def)
qed

text \<open>
  The other \<^verbatim>\<open>wait_and_pop\<close> never returns a value: it waits while the queue has elements, and what it
  does with the empty queue is undefined. In the program, producer and consumer work on copies: the queue of the main function and that of the consumer stay empty,
  the ten elements are in the producer's copy, and the consumer's first wait is undefined.
\<close>

theorem wait_and_pop_ref_fails:
  "(tsq_ref_step s s' \<longrightarrow> taken s' = taken s \<and> data_queue s' = data_queue s \<and> (broken s' \<or> (\<exists>i. pcs s' i = RefAsleep \<or> pcs s' i = RefAwake))) \<and>
   (pcs s i = Out \<and> data_queue s = [] \<longrightarrow> tsq_ref_step s (s\<lparr>broken := True\<rparr>)) \<and>
   (\<forall>r. wait_and_pop_alone q \<noteq> Returned r) \<and>
   test_queue = ([], replicate 10 1, Undefined)"
proof -
  have "taken s' = taken s \<and> data_queue s' = data_queue s \<and> (broken s' \<or> (\<exists>i. pcs s' i = RefAsleep \<or> pcs s' i = RefAwake))"
    if "tsq_ref_step s s'"
    using that by cases (auto simp: tsq_take_def front_pop_def ref_ready_def)
  moreover have "tsq_ref_step s (s\<lparr>broken := True\<rparr>)" if "pcs s i = Out" "data_queue s = []"
    using ref_call [of s i] that by (simp add: tsq_take_def front_pop_def ref_ready_def)
  moreover have "wait_and_pop_alone q \<noteq> Returned r" for r
    by (auto simp: wait_and_pop_alone_def ref_ready_def front_pop_def)
  moreover have "test_queue = ([], replicate 10 1, Undefined)"
    by (simp add: test_queue_def produce_thread_def prepare_A_def consume_thread_def wait_and_pop_alone_def ref_ready_def front_pop_def
        tsq_copy_def numeral_eq_Suc)
  ultimately show ?thesis by blast
qed

lemma wait_and_pop_ref_fails_witness: "tsq_ref_step tsq_new (tsq_new\<lparr>broken := True\<rparr>)"
proof -
  have "pcs tsq_new 0 = Out \<and> data_queue tsq_new = []" by (simp add: tsq_new_def)
  then show ?thesis using wait_and_pop_ref_fails [of tsq_new tsq_new 0 "[] :: int list"] by blast
qed

end
