(* ===== verification/WordReader.thy ===== *)
theory WordReader
  imports Cpp_Prelude
begin

text \<open>
  \<^verbatim>\<open>cpp/string/write_a_word.cpp\<close>: \<^verbatim>\<open>readWord\<close> reads the next word of a stream, with a token of its
  own for the end of a line. The stream is the list of the characters not yet read; putting a character back with
  \<^verbatim>\<open>sungetc\<close> leaves it in the list. The result is shown equal to a description that splits the text into lines and the lines into
  words.
\<close>

section \<open>Reading one word and all words\<close>

abbreviation LF :: char where "LF \<equiv> CHR 0x0A"

definition EOS :: "char list" where
  "EOS = ''</s>''"

definition separator :: "char \<Rightarrow> bool" where
  "separator c \<longleftrightarrow> c = CHR '' '' \<or> c = LF \<or> c = CHR 0x0D \<or> c = CHR 0x09 \<or> c = CHR 0x0B \<or> c = CHR 0x0C \<or> c = NUL"

text \<open>The loop returns the answer of \<^verbatim>\<open>readWord\<close>, the word and the rest of the stream.\<close>

fun readWord_loop :: "char list \<Rightarrow> char list \<Rightarrow> bool \<times> char list \<times> char list" where
  "readWord_loop [] word = (word \<noteq> [], word, [])"
| "readWord_loop (c # cs) word =
     (if separator c
      then if word = []
           then if c = LF then (True, word @ EOS, cs) else readWord_loop cs word
           else if c = LF then (True, word, c # cs) else (True, word, cs)
      else readWord_loop cs (word @ [c]))"

definition readWord :: "char list \<Rightarrow> bool \<times> char list \<times> char list" where
  "readWord cs = readWord_loop cs []"

text \<open>A word that is returned uses up at least one character, so that the loop over a text ends.\<close>

lemma readWord_loop_shrinks:
  "readWord_loop cs word = (True, v, rest) \<Longrightarrow> length rest \<le> length cs \<and> (word = [] \<longrightarrow> length rest < length cs)"
proof (induction cs word rule: readWord_loop.induct)
  case (2 c cs word)
  then show ?case by (auto split: if_splits)
qed simp

text \<open>\<^verbatim>\<open>while (readWord(in, word))\<close>: the words in their order.\<close>

function read_words :: "char list \<Rightarrow> char list list" where
  "read_words cs = (case readWord cs of (True, word, rest) \<Rightarrow> word # read_words rest | (False, word, rest) \<Rightarrow> [])"
  by pat_completeness auto
termination
proof (relation "measure length")
  fix cs x y xa ya
  assume "(x, y) = readWord cs" "x = True" "(xa, ya) = y"
  then have "readWord_loop cs [] = (True, xa, ya)" by (auto simp: readWord_def)
  then show "(ya, cs) \<in> measure length" using readWord_loop_shrinks by fastforce
qed simp

declare read_words.simps [simp del]

text \<open>The text of the program: one literal for each line number.\<close>

definition words_literal :: "char list" where
  "words_literal = ''dsf dsf '' @ LF # '' sdfdsf dsfdsg fdgdf gfdsgf gdfs gfg f '' @ CHR 0x0D # LF # '' sdfdsf dsfdsg '' @
     CHR 0x0D # '' gfdsgf gdfs gfg f '' @ CHR 0x0D # LF # '' ''"

definition myFun :: "nat \<Rightarrow> char list list" where
  "myFun lineNum = read_words (concat (replicate lineNum words_literal))"

section \<open>The description\<close>

text \<open>The segments of a text between the characters with a property.\<close>

fun segments :: "('a \<Rightarrow> bool) \<Rightarrow> 'a list \<Rightarrow> 'a list list" where
  "segments P [] = [[]]"
| "segments P (c # cs) = (if P c then [] # segments P cs else (c # hd (segments P cs)) # tl (segments P cs))"

definition words_of :: "char list \<Rightarrow> char list list" where
  "words_of l = filter (\<lambda>w. w \<noteq> []) (segments separator l)"

definition tokens :: "char list \<Rightarrow> char list list" where
  "tokens cs = (let ls = segments (\<lambda>c. c = LF) cs in concat (map (\<lambda>l. words_of l @ [EOS]) (butlast ls)) @ words_of (last ls))"

lemma segments_nonempty [simp]: "segments P cs \<noteq> []"
  by (cases cs) auto

lemma segments_append:
  "\<forall>c \<in> set w. \<not> P c \<Longrightarrow> segments P (w @ cs) = (w @ hd (segments P cs)) # tl (segments P cs)"
  by (induction w) auto

lemma words_of_append:
  assumes "\<forall>c \<in> set w. \<not> separator c"
  shows "words_of w = (if w = [] then [] else [w])"
    and "separator b \<Longrightarrow> words_of (w @ b # l) = (if w = [] then [] else [w]) @ words_of l"
proof -
  have "segments separator w = [w]" using segments_append [OF assms, of "[]"] by simp
  then show "words_of w = (if w = [] then [] else [w])" by (simp add: words_of_def)
  assume "separator b"
  then show "words_of (w @ b # l) = (if w = [] then [] else [w]) @ words_of l"
    using segments_append [of w separator "b # l"] assms by (simp add: words_of_def)
qed

lemma not_LF: "\<forall>c \<in> set w. \<not> separator c \<Longrightarrow> \<forall>c \<in> set w. c \<noteq> LF"
  by (auto simp: separator_def)

lemma tokens_word: "\<forall>c \<in> set w. \<not> separator c \<Longrightarrow> tokens w = (if w = [] then [] else [w])"
  using segments_append [of w "\<lambda>c. c = LF" "[]"] not_LF words_of_append(1) by (simp add: tokens_def)

lemma tokens_line: "\<forall>c \<in> set w. \<not> separator c \<Longrightarrow> tokens (w @ LF # cs) = (if w = [] then [] else [w]) @ EOS # tokens cs"
  using segments_append [of w "\<lambda>c. c = LF" "LF # cs"] not_LF words_of_append(1) by (simp add: tokens_def Let_def)

lemma tokens_blank:
  assumes w: "\<forall>c \<in> set w. \<not> separator c" and b: "separator b" "b \<noteq> LF"
  shows "tokens (w @ b # cs) = (if w = [] then [] else [w]) @ tokens cs"
proof -
  obtain l ls where s: "segments (\<lambda>c. c = LF) cs = l # ls" by (metis list.exhaust segments_nonempty)
  then have "segments (\<lambda>c. c = LF) (w @ b # cs) = (w @ b # l) # ls"
    using segments_append [of w "\<lambda>c. c = LF" "b # cs"] not_LF [OF w] b(2) by simp
  then show ?thesis
    using s words_of_append(2) [OF w b(1)] by (cases ls) (auto simp: tokens_def Let_def)
qed

lemma read_words_unfold: "read_words cs = (let (ok, v, rest) = readWord_loop cs [] in if ok then v # read_words rest else [])"
  by (subst read_words.simps) (auto simp: readWord_def split: prod.splits bool.splits)

lemma read_words_more: "readWord_loop cs [] = (True, v, rest) \<Longrightarrow> read_words cs = v # read_words rest"
  by (subst read_words_unfold) simp

lemma read_words_end: "readWord_loop cs [] = (False, v, rest) \<Longrightarrow> read_words cs = []"
  by (subst read_words_unfold) simp

lemma read_words_LF: "read_words (LF # cs) = EOS # read_words cs"
  by (subst read_words_unfold) (simp add: separator_def)

lemma read_words_tokens_gen:
  "\<forall>c \<in> set w. \<not> separator c \<Longrightarrow>
    (let (ok, v, rest) = readWord_loop cs w in if ok then v # read_words rest else []) = tokens (w @ cs)"
proof (induction cs arbitrary: w rule: length_induct)
  case (1 cs)
  show ?case
  proof (cases cs)
    case Nil
    have "read_words [] = []" by (subst read_words_unfold) simp
    then show ?thesis using Nil tokens_word [OF 1(2)] by simp
  next
    case (Cons c cs')
    have IH: "\<forall>c \<in> set w. \<not> separator c \<Longrightarrow>
        (let (ok, v, rest) = readWord_loop cs' w in if ok then v # read_words rest else []) = tokens (w @ cs')" for w
      using 1(1) Cons by auto
    have all: "read_words cs' = tokens cs'" using IH [of "[]"] read_words_unfold [of cs'] by simp
    consider "\<not> separator c" | "c = LF" | "separator c" "c \<noteq> LF" by blast
    then show ?thesis
    proof cases
      case 1
      then show ?thesis using IH [of "w @ [c]"] \<open>\<forall>c \<in> set w. \<not> separator c\<close> Cons by simp
    next
      case 2
      then show ?thesis using tokens_line [OF 1(2), of cs'] Cons all by (simp add: separator_def read_words_LF)
    next
      case 3
      then show ?thesis using tokens_blank [OF 1(2) 3, of cs'] Cons all IH [of "[]"] by auto
    qed
  qed
qed

lemma read_words_tokens: "read_words cs = tokens cs"
  using read_words_tokens_gen [of "[]" cs] read_words_unfold [of cs] by simp

section \<open>Properties\<close>

text \<open>
  For every text the words read are, line by line, the longest runs of characters that are no separators,
  followed by the token for the end of the line; the last line has none when no newline ends it.
\<close>

theorem readWord_tokens:
  "read_words cs =
     (let ls = segments (\<lambda>c. c = LF) cs; ws = (\<lambda>l. filter (\<lambda>w. w \<noteq> []) (segments separator l))
      in concat (map (\<lambda>l. ws l @ [EOS]) (butlast ls)) @ ws (last ls))"
  by (simp add: read_words_tokens tokens_def words_of_def Let_def)







text \<open>A text that ends in a separator can be read in parts.\<close>

lemma tokens_append: "x \<noteq> [] \<Longrightarrow> separator (last x) \<Longrightarrow> tokens (x @ v) = tokens x @ tokens v"
proof (induction x rule: length_induct)
  case (1 x)
  have "dropWhile (\<lambda>c. \<not> separator c) x \<noteq> []" using 1(2,3) by (metis dropWhile_eq_Nil_conv last_in_set)
  then obtain b x' where d: "dropWhile (\<lambda>c. \<not> separator c) x = b # x'" by (cases "dropWhile (\<lambda>c. \<not> separator c) x") auto
  then have b: "separator b" by (metis dropWhile_eq_Cons_conv)
  obtain w where w: "\<forall>c \<in> set w. \<not> separator c" and x: "x = w @ b # x'"
    using d by (metis set_takeWhileD takeWhile_dropWhile_id)
  have cut: "tokens (w @ b # u) = (if w = [] then [] else [w]) @ (if b = LF then [EOS] else []) @ tokens u" for u
    using tokens_line [OF w, of u] tokens_blank [OF w b, of u] by (cases "b = LF") simp_all
  have "tokens (x' @ v) = tokens x' @ tokens v"
  proof (cases "x' = []")
    case True
    then show ?thesis using tokens_word [of "[]"] by simp
  next
    case False
    moreover have "length x' < length x" using x by simp
    moreover have "separator (last x')" using 1(3) x False by simp
    ultimately show ?thesis using 1(1) by blast
  qed
  then show ?case using cut [of x'] cut [of "x' @ v"] x by simp
qed

lemma tokens_repeat: "x \<noteq> [] \<Longrightarrow> separator (last x) \<Longrightarrow> tokens (concat (replicate n x)) = concat (replicate n (tokens x))"
  using tokens_word [of "[]"] by (induction n) (auto simp: tokens_append)

text \<open>The program reads each of its lines as the same 18 words and tokens.\<close>

theorem myFun_words:
  "myFun n = concat (replicate n [''dsf'', ''dsf'', EOS, ''sdfdsf'', ''dsfdsg'', ''fdgdf'', ''gfdsgf'', ''gdfs'', ''gfg'', ''f'', EOS,
     ''sdfdsf'', ''dsfdsg'', ''gfdsgf'', ''gdfs'', ''gfg'', ''f'', EOS])"
proof -
  have "separator (last words_literal)" "words_literal \<noteq> []" by (simp_all add: words_literal_def separator_def)
  moreover have "tokens words_literal = [''dsf'', ''dsf'', EOS, ''sdfdsf'', ''dsfdsg'', ''fdgdf'', ''gfdsgf'', ''gdfs'', ''gfg'', ''f'', EOS,
     ''sdfdsf'', ''dsfdsg'', ''gfdsgf'', ''gdfs'', ''gfg'', ''f'', EOS]"
    unfolding read_words_tokens [symmetric] words_literal_def by (simp add: read_words_more read_words_end separator_def)
  ultimately show ?thesis
    by (simp add: myFun_def read_words_tokens tokens_repeat)
qed

end
