(* ===== verification/VectorClass.thy ===== *)
theory VectorClass
  imports Cpp_Prelude
begin

text \<open>
  \<^verbatim>\<open>cpp/stl/vector.cpp\<close>: a growing array of \<^verbatim>\<open>int\<close> (the members fix the element type, so that the template
  only works for it). The array of the object is a list of cells, where \<^term>\<open>None\<close> is a cell that was never written;
  \<^verbatim>\<open>_start\<close> is the first cell and \<^verbatim>\<open>_end\<close> the position of the last element. Reading an unwritten cell,
  an access outside the array and a negative size for \<^verbatim>\<open>new\<close> are \<^term>\<open>None\<close>. The class has no destructor, so the
  array of every object leaks.
\<close>

section \<open>The class\<close>

record Vector =
  v_size :: int
  v_capacity :: int
  v_end :: int
  v_data :: "int option list"

definition new_array :: "int \<Rightarrow> int option list ub" where
  "new_array n = (if 0 \<le> n then Some (replicate (nat n) None) else None)"

fun fill_array :: "nat \<Rightarrow> nat \<Rightarrow> int \<Rightarrow> int option list \<Rightarrow> int option list ub" where
  "fill_array 0 i value a = Some a"
| "fill_array (Suc k) i value a = do { a \<leftarrow> vset a i (Some value); fill_array k (Suc i) value a }"

definition Vector_new :: "int \<Rightarrow> int \<Rightarrow> Vector ub" where
  "Vector_new n value = do {
     a \<leftarrow> new_array n;
     a \<leftarrow> fill_array (nat n) 0 value a;
     e \<leftarrow> as_int (n - 1);
     Some \<lparr>v_size = n, v_capacity = n, v_end = e, v_data = a\<rparr>
   }"

fun copy_array :: "nat \<Rightarrow> nat \<Rightarrow> int option list \<Rightarrow> int option list \<Rightarrow> int option list ub" where
  "copy_array 0 i from to = Some to"
| "copy_array (Suc k) i from to = do {
     c \<leftarrow> vget from i;
     x \<leftarrow> c;
     to \<leftarrow> vset to i (Some x);
     copy_array k (Suc i) from to
   }"

text \<open>The second component is the number of elements copied.\<close>

definition reMall :: "Vector \<Rightarrow> (Vector \<times> nat) ub" where
  "reMall v =
     (if v_capacity v = v_size v
      then do {
        n \<leftarrow> as_int (2 * v_size v);
        temp \<leftarrow> new_array n;
        temp \<leftarrow> copy_array (nat (v_size v)) 0 (v_data v) temp;
        e \<leftarrow> as_int (v_size v - 1);
        Some (v\<lparr>v_data := temp, v_end := e, v_capacity := n\<rparr>, nat (v_size v))
      }
      else Some (v, 0))"

definition Vector_push_back :: "int \<Rightarrow> Vector \<Rightarrow> (Vector \<times> nat) ub" where
  "Vector_push_back t v = do {
     (v, k) \<leftarrow> reMall v;
     a \<leftarrow> iset (v_data v) (v_end v + 1) (Some t);
     n \<leftarrow> as_int (v_size v + 1);
     Some (v\<lparr>v_data := a, v_end := v_end v + 1, v_size := n\<rparr>, k)
   }"

definition Vector_capacity :: "Vector \<Rightarrow> int" where
  "Vector_capacity v = v_capacity v"

definition Vector_size :: "Vector \<Rightarrow> int" where
  "Vector_size v = v_size v"

definition Vector_at :: "Vector \<Rightarrow> int \<Rightarrow> int ub" where
  "Vector_at v i = do { c \<leftarrow> iget (v_data v) i; c }"

fun Vector_print_from :: "nat \<Rightarrow> nat \<Rightarrow> Vector \<Rightarrow> int list ub" where
  "Vector_print_from 0 i v = Some []"
| "Vector_print_from (Suc k) i v = do { x \<leftarrow> Vector_at v (int i); xs \<leftarrow> Vector_print_from k (Suc i) v; Some (x # xs) }"

definition Vector_print :: "Vector \<Rightarrow> int list ub" where
  "Vector_print v = Vector_print_from (nat (v_size v)) 0 v"

text \<open>A sequence of pushes, with the elements copied in all, and the program.\<close>

fun Vector_pushes :: "int list \<Rightarrow> Vector \<Rightarrow> (Vector \<times> nat) ub" where
  "Vector_pushes [] v = Some (v, 0)"
| "Vector_pushes (t # ts) v = do { (v, k) \<leftarrow> Vector_push_back t v; (v, k') \<leftarrow> Vector_pushes ts v; Some (v, k + k') }"

definition Vector_main :: "(int list \<times> int list \<times> int) ub" where
  "Vector_main = do {
     v \<leftarrow> Vector_new 9 0;
     x1 \<leftarrow> Vector_at v 1;
     x0 \<leftarrow> Vector_at v 0;
     before \<leftarrow> Vector_print v;
     (v, k) \<leftarrow> Vector_push_back 7 v;
     after \<leftarrow> Vector_print v;
     Some (x1 # x0 # before, after, Vector_capacity v)
   }"

section \<open>The contents\<close>

text \<open>The object holds the elements \<open>xs\<close> in the first cells of its array.\<close>

definition holds_elems :: "Vector \<Rightarrow> int list \<Rightarrow> bool" where
  "holds_elems v xs \<longleftrightarrow> xs \<noteq> [] \<and> v_size v = int (length xs) \<and> v_end v = v_size v - 1 \<and> v_size v \<le> v_capacity v \<and>
     v_capacity v = int (length (v_data v)) \<and> take (length xs) (v_data v) = map Some xs"

lemma fill_array_spec: "i + k = length a \<Longrightarrow> fill_array k i x a = Some (take i a @ replicate k (Some x))"
proof (induction k arbitrary: i a)
  case (Suc k)
  then have "take (Suc i) (a[i := Some x]) = take i a @ [Some x]" by (simp add: take_Suc_conv_app_nth)
  then show ?case using Suc.IH [of "Suc i" "a[i := Some x]"] Suc.prems by (simp add: vset_in)
qed simp

lemma copy_array_spec:
  "i + k \<le> length to \<Longrightarrow> i + k \<le> length xs \<Longrightarrow> take (length xs) from = map Some xs \<Longrightarrow> take i to = map Some (take i xs) \<Longrightarrow>
    \<exists>to2. copy_array k i from to = Some to2 \<and> length to2 = length to \<and> take (i + k) to2 = map Some (take (i + k) xs)"
proof (induction k arbitrary: i to)
  case (Suc k)
  have i: "i < length from" "from ! i = Some (xs ! i)"
  proof -
    have "length (take (length xs) from) = length xs" using Suc.prems(3) by simp
    then show "i < length from" using Suc.prems(2) by simp
    have "take (length xs) from ! i = Some (xs ! i)" using Suc.prems(2,3) by simp
    then show "from ! i = Some (xs ! i)" using Suc.prems(2) by simp
  qed
  have "take (Suc i) (to[i := Some (xs ! i)]) = map Some (take (Suc i) xs)"
    using Suc.prems by (simp add: take_Suc_conv_app_nth)
  then show ?case
    using Suc.IH [of "Suc i" "to[i := Some (xs ! i)]"] Suc.prems i by (simp add: vget_in vset_in)
qed simp

lemma holds_new: "0 < n \<Longrightarrow> n \<le> INT_MAX \<Longrightarrow> \<exists>v. Vector_new n x = Some v \<and> holds_elems v (replicate (nat n) x) \<and> v_capacity v = n"
  using fill_array_spec [of 0 "nat n" "replicate (nat n) None" x]
  by (simp add: Vector_new_def new_array_def holds_elems_def in_int_def)

lemma holds_reMall:
  assumes "holds_elems v xs" "2 * v_size v \<le> INT_MAX"
  shows "\<exists>w. reMall v = Some (w, if v_capacity v = v_size v then length xs else 0) \<and> holds_elems w xs \<and> v_size w < v_capacity w \<and>
    v_capacity w = (if v_capacity v = v_size v then 2 * v_size v else v_capacity v)"
proof (cases "v_capacity v = v_size v")
  case True
  have s: "v_size v = int (length xs)" "xs \<noteq> []" "take (length xs) (v_data v) = map Some xs"
    using assms(1) by (auto simp: holds_elems_def)
  then have "0 < length xs" by simp
  let ?n = "2 * length xs"
  obtain a where a: "copy_array (length xs) 0 (v_data v) (replicate ?n None) = Some a" "length a = ?n" "take (length xs) a = map Some xs"
    using copy_array_spec [of 0 "length xs" "replicate ?n None" xs "v_data v"] s by auto
  have r: "in_int (2 * int (length xs))" "in_int (int (length xs) - 1)" using assms(2) s by (auto simp: in_int_def)
  have n: "nat (2 * int (length xs)) = ?n" by simp
  have "reMall v = Some (v\<lparr>v_data := a, v_end := int (length xs) - 1, v_capacity := 2 * int (length xs)\<rparr>, length xs)"
    using True s(1) a(1) r by (simp add: reMall_def new_array_def n)
  then show ?thesis using True s a \<open>0 < length xs\<close> by (simp add: holds_elems_def)
next
  case False
  then show ?thesis using assms(1) by (auto simp: reMall_def holds_elems_def)
qed

lemma holds_push:
  assumes "holds_elems v xs" "2 * v_size v < INT_MAX"
  shows "\<exists>w. Vector_push_back t v = Some (w, if v_capacity v = v_size v then length xs else 0) \<and> holds_elems w (xs @ [t]) \<and>
    v_capacity w = (if v_capacity v = v_size v then 2 * v_size v else v_capacity v)"
proof -
  obtain w where w: "reMall v = Some (w, if v_capacity v = v_size v then length xs else 0)" "holds_elems w xs" "v_size w < v_capacity w"
    "v_capacity w = (if v_capacity v = v_size v then 2 * v_size v else v_capacity v)"
    using holds_reMall [OF assms(1)] assms(2) by auto
  have s: "v_size w = int (length xs)" "v_end w + 1 = int (length xs)" "length xs < length (v_data w)" "v_size v = v_size w"
    using w(2,3) assms(1) by (auto simp: holds_elems_def)
  have "in_int (v_size w + 1)" using assms(2) s(1,4) by (simp add: in_int_def)
  then have "Vector_push_back t v = Some (w\<lparr>v_data := (v_data w)[length xs := Some t], v_end := int (length xs), v_size := int (length xs) + 1\<rparr>,
      if v_capacity v = v_size v then length xs else 0)"
    using w(1) s by (simp add: Vector_push_back_def iset_in)
  then show ?thesis using w s by (simp add: holds_elems_def take_Suc_conv_app_nth)
qed

lemma holds_pushes:
  "holds_elems v xs \<Longrightarrow> 2 * (v_size v + int (length ts)) < INT_MAX \<Longrightarrow>
    \<exists>w k d. Vector_pushes ts v = Some (w, k) \<and> holds_elems w (xs @ ts) \<and> int k = v_capacity w - v_capacity v \<and>
      v_capacity w = v_capacity v * 2 ^ d \<and> (v_capacity w = v_capacity v \<or> v_capacity w < 2 * v_size w)"
proof (induction ts arbitrary: v xs)
  case Nil
  then show ?case by (auto intro!: exI [of _ 0])
next
  case (Cons t ts)
  have s: "v_size v = int (length xs)" using Cons.prems(1) by (simp add: holds_elems_def)
  obtain u where u: "Vector_push_back t v = Some (u, if v_capacity v = v_size v then length xs else 0)" "holds_elems u (xs @ [t])"
    "v_capacity u = (if v_capacity v = v_size v then 2 * v_size v else v_capacity v)"
    using holds_push [OF Cons.prems(1), of t] Cons.prems(2) by auto
  have su: "v_size u = v_size v + 1" using u(2) s by (simp add: holds_elems_def)
  obtain w k d where w: "Vector_pushes ts u = Some (w, k)" "holds_elems w ((xs @ [t]) @ ts)" "int k = v_capacity w - v_capacity u"
    "v_capacity w = v_capacity u * 2 ^ d" "v_capacity w = v_capacity u \<or> v_capacity w < 2 * v_size w"
  proof -
    have "2 * (v_size u + int (length ts)) < INT_MAX" using Cons.prems(2) su by simp
    then show ?thesis using Cons.IH [OF u(2)] that by blast
  qed
  have sw: "v_size w = v_size v + 1 + int (length ts)" using w(2) s by (simp add: holds_elems_def)
  show ?case
  proof (cases "v_capacity v = v_size v")
    case True
    then have "v_capacity w = v_capacity v * 2 ^ Suc d" using u(3) w(4) by simp
    then show ?thesis using True u w s sw by (intro exI [of _ w] exI [of _ "length xs + k"] exI [of _ "Suc d"]) auto
  next
    case False
    then show ?thesis using u w by auto
  qed
qed

lemma holds_at: "holds_elems v xs \<Longrightarrow> i < length xs \<Longrightarrow> Vector_at v (int i) = Some (xs ! i)"
proof -
  assume h: "holds_elems v xs" and i: "i < length xs"
  then have "take (length xs) (v_data v) ! i = Some (xs ! i)" "length xs \<le> length (v_data v)" by (simp_all add: holds_elems_def)
  then show ?thesis using i by (simp add: Vector_at_def iget_in)
qed

lemma holds_print_from: "holds_elems v xs \<Longrightarrow> i + k = length xs \<Longrightarrow> Vector_print_from k i v = Some (drop i xs)"
  by (induction k i v rule: Vector_print_from.induct) (auto simp: holds_at Cons_nth_drop_Suc)

lemma holds_print: "holds_elems v xs \<Longrightarrow> Vector_print v = Some xs"
  using holds_print_from [of v xs 0 "length xs"] by (simp add: Vector_print_def holds_elems_def)

section \<open>Properties\<close>

text \<open>
  A vector that starts with at least one element contains what was pushed, in order, behind its first
  elements; its capacity is the first size times a power of two and, once it has grown, less than twice the size; and all the pushes
  together copy fewer than twice as many elements as the vector has in the end.
\<close>

theorem vector_pushes:
  assumes "0 < n" "2 * (n + int (length ts)) < INT_MAX"
  shows "\<exists>v w k d. Vector_new n x = Some v \<and> Vector_pushes ts v = Some (w, k) \<and>
    Vector_print w = Some (replicate (nat n) x @ ts) \<and> Vector_size w = n + int (length ts) \<and>
    Vector_capacity w = n * 2 ^ d \<and> (ts \<noteq> [] \<longrightarrow> Vector_capacity w < 2 * Vector_size w) \<and> int k < 2 * Vector_size w"
proof -
  obtain v where v: "Vector_new n x = Some v" "holds_elems v (replicate (nat n) x)" "v_capacity v = n"
    using holds_new [OF assms(1), of x] assms(2) by auto
  have s: "v_size v = n" using v(2) assms(1) by (simp add: holds_elems_def)
  obtain w k d where w: "Vector_pushes ts v = Some (w, k)" "holds_elems w (replicate (nat n) x @ ts)" "int k = v_capacity w - v_capacity v"
    "v_capacity w = v_capacity v * 2 ^ d" "v_capacity w = v_capacity v \<or> v_capacity w < 2 * v_size w"
  proof -
    have "2 * (v_size v + int (length ts)) < INT_MAX" using assms(2) s by simp
    then show ?thesis using holds_pushes [OF v(2)] that by blast
  qed
  have "v_size w = n + int (length ts)" using w(2) assms(1) by (simp add: holds_elems_def)
  moreover have "ts \<noteq> [] \<longrightarrow> v_capacity w < 2 * v_size w" using w(2,5) v(3) assms(1) calculation by auto
  moreover have "int k < 2 * v_size w" using w(3,5) v(3) assms(1) calculation(1) by auto
  ultimately show ?thesis
    using v w(1,4) holds_print [OF w(2)] by (simp add: Vector_size_def Vector_capacity_def)
qed

lemma vector_pushes_witness:
  "\<exists>v w k. Vector_new 2 5 = Some v \<and> Vector_pushes [7, 8, 9] v = Some (w, k) \<and> Vector_print w = Some [5, 5, 7, 8, 9]"
  using vector_pushes [of 2 "[7, 8, 9]" 5] by (auto simp: numeral_2_eq_2)

text \<open>
  With no element at the start the first push writes outside the array, because doubling 0
  gives 0; a negative size is refused by \<^verbatim>\<open>new\<close>. The program prints nine zeros, then the 7 behind them, and the
  capacity 18.
\<close>

theorem vector_edges:
  "(n < 0 \<longrightarrow> Vector_new n x = None) \<and> (\<exists>v. Vector_new 0 x = Some v \<and> Vector_push_back t v = None) \<and>
   Vector_main = Some (replicate 11 0, replicate 9 0 @ [7], 18)"
proof -
  have "\<exists>v. Vector_new 0 x = Some v \<and> Vector_push_back t v = None"
    by (simp add: Vector_new_def new_array_def Vector_push_back_def reMall_def iset_def in_int_def)
  moreover have "Vector_main = Some (replicate 11 0, replicate 9 0 @ [7], 18)"
    by code_simp
  ultimately show ?thesis by (simp add: Vector_new_def new_array_def)
qed

lemma vector_edges_witness: "Vector_new (-3) 1 = None"
  using vector_edges by simp

end
