(* ===== verification/CStrings.thy ===== *)
theory CStrings
  imports CMem Kmp ReverseWords
begin

text \<open>
  Short programs on C strings of \<^verbatim>\<open>cpp/string\<close>: \<^verbatim>\<open>strlen.cpp\<close>, \<^verbatim>\<open>strcat.cpp\<close>,
  \<^verbatim>\<open>string_row_match.cpp\<close>, \<^verbatim>\<open>reverstWord.cpp\<close> and \<^verbatim>\<open>reverseSentence.cpp\<close>. A string is an array of
  characters that contains a zero; each pointer argument is an array of its own, \<^term>\<open>None\<close> is the null pointer, and
  every access is checked.
\<close>

section \<open>The programs\<close>

text \<open>\<^verbatim>\<open>while (*str++ != 0) cnt++;\<close>; the second function increments in the body.\<close>

fun strlen_loop :: "char list \<Rightarrow> int \<Rightarrow> int ub" where
  "strlen_loop [] cnt = None"
| "strlen_loop (c # str) cnt = (if c \<noteq> NUL then do { cnt \<leftarrow> as_int (cnt + 1); strlen_loop str cnt } else Some cnt)"

definition myStrlen :: "char list option \<Rightarrow> int ub" where
  "myStrlen str = (case str of None \<Rightarrow> Some (-1) | Some s \<Rightarrow> strlen_loop s 0)"

function strlen2_loop :: "char list \<Rightarrow> nat \<Rightarrow> int \<Rightarrow> int ub" where
  "strlen2_loop a str cnt = do {
     c \<leftarrow> vget a str;
     if c \<noteq> NUL then do { cnt \<leftarrow> as_int (cnt + 1); strlen2_loop a (Suc str) cnt } else Some cnt
   }"
  by pat_completeness auto
termination
  by (relation "measure (\<lambda>(a, str, cnt). length a - str)") (auto simp: vget_def split: if_splits)

declare strlen2_loop.simps [simp del]

definition strlen2 :: "char list option \<Rightarrow> int ub" where
  "strlen2 str = (case str of None \<Rightarrow> Some (-1) | Some a \<Rightarrow> strlen2_loop a 0 0)"

text \<open>\<^verbatim>\<open>Mystrcat\<close>: to the end of the target, the copy, and one more zero.\<close>

function des_end :: "char list \<Rightarrow> nat \<Rightarrow> nat ub" where
  "des_end des i = do { c \<leftarrow> vget des i; if c \<noteq> NUL then des_end des (Suc i) else Some i }"
  by pat_completeness auto
termination
  by (relation "measure (\<lambda>(des, i). length des - i)") (auto simp: vget_def split: if_splits)

declare des_end.simps [simp del]

fun cat_loop :: "char list \<Rightarrow> nat \<Rightarrow> char list \<Rightarrow> (char list \<times> nat) ub" where
  "cat_loop des i [] = None"
| "cat_loop des i (c # src) =
     do { des \<leftarrow> vset des i c; if c \<noteq> NUL then cat_loop des (Suc i) src else Some (des, Suc i) }"

definition Mystrcat :: "char list option \<Rightarrow> char list option \<Rightarrow> char list ub" where
  "Mystrcat des src = do {
     src \<leftarrow> src;
     des \<leftarrow> des;
     i \<leftarrow> des_end des 0;
     (des, i) \<leftarrow> cat_loop des i src;
     vset des i NUL
   }"

text \<open>\<^verbatim>\<open>violentMatch\<close>: the inner loop returns whether it reached the last character.\<close>

fun match_at :: "nat \<Rightarrow> char list \<Rightarrow> char list \<Rightarrow> nat \<Rightarrow> nat \<Rightarrow> nat \<Rightarrow> bool ub" where
  "match_at 0 s p pLen i j = Some False"
| "match_at (Suc k) s p pLen i j = do {
     a \<leftarrow> vget s (i + j);
     b \<leftarrow> vget p j;
     if a \<noteq> b then Some False
     else if j = pLen - 1 then Some True
     else match_at k s p pLen i (Suc j)
   }"

fun match_from :: "nat \<Rightarrow> char list \<Rightarrow> char list \<Rightarrow> nat \<Rightarrow> nat \<Rightarrow> int ub" where
  "match_from 0 s p pLen i = Some (-1)"
| "match_from (Suc k) s p pLen i = do {
     found \<leftarrow> match_at pLen s p pLen i 0;
     if found then Some (int i) else match_from k s p pLen (Suc i)
   }"

definition violentMatch :: "char list \<Rightarrow> char list \<Rightarrow> int ub" where
  "violentMatch s p = do {
     sLen \<leftarrow> des_end s 0;
     pLen \<leftarrow> des_end p 0;
     match_from (sLen - pLen) s p pLen 0
   }"

text \<open>\<^verbatim>\<open>reverse\<close> of both programs, on positions of one array; the loop of \<^verbatim>\<open>reverseSentence\<close> may run for ever.\<close>

function reverse_chars :: "int \<Rightarrow> int \<Rightarrow> char list \<Rightarrow> char list ub" where
  "reverse_chars b e mem = (if b < e then do { mem \<leftarrow> iswap mem b e; reverse_chars (b + 1) (e - 1) mem } else Some mem)"
  by pat_completeness auto
termination
  by (relation "measure (\<lambda>(b, e, mem). nat (e - b))") auto

declare reverse_chars.simps [simp del]

definition reverse_ptr :: "pointer \<Rightarrow> pointer \<Rightarrow> char list \<Rightarrow> char list ub" where
  "reverse_ptr beg end mem = (case (beg, end) of (Some b, Some e) \<Rightarrow> reverse_chars b e mem | _ \<Rightarrow> Some mem)"

partial_function (option) sentence_loop :: "int \<Rightarrow> int \<Rightarrow> char list \<Rightarrow> char list ub" where
  "sentence_loop beg end mem = do {
     b \<leftarrow> iget mem beg;
     if b = NUL then Some mem
     else if b = CHR '' '' then sentence_loop (beg + 1) (end + 1) mem
     else do {
       e \<leftarrow> iget mem end;
       if e = CHR '' '' \<or> e = NUL
       then do { mem \<leftarrow> reverse_ptr (Some beg) (Some end) mem; sentence_loop beg end mem }
       else sentence_loop beg (end + 1) mem
     }
   }"

text \<open>The test \<^verbatim>\<open>if (data = NULL)\<close> assigns; its value is false.\<close>

definition reverseSentence :: "pointer \<Rightarrow> char list \<Rightarrow> (pointer \<times> char list) ub" where
  "reverseSentence data mem = do {
     let data = None;
     beg \<leftarrow> data;
     end \<leftarrow> des_end mem (nat beg);
     mem \<leftarrow> reverse_ptr (Some beg) (Some (int end - 1)) mem;
     mem \<leftarrow> sentence_loop beg beg mem;
     Some (data, mem)
   }"

section \<open>Lengths and concatenation\<close>

lemma strlen_loop_ok:
  "NUL \<notin> set s \<Longrightarrow> 0 \<le> cnt \<Longrightarrow> cnt + int (length s) \<le> INT_MAX \<Longrightarrow> strlen_loop (s @ NUL # r) cnt = Some (cnt + int (length s))"
  by (induction s arbitrary: cnt) (auto simp: in_int_def)

lemma strlen2_loop_ok:
  "NUL \<notin> set s \<Longrightarrow> i \<le> length s \<Longrightarrow> int (length s) \<le> INT_MAX \<Longrightarrow> strlen2_loop (s @ NUL # r) i (int i) = Some (int (length s))"
proof (induction "length s - i" arbitrary: i)
  case 0
  then show ?case by (subst strlen2_loop.simps) (simp add: vget_in nth_append)
next
  case (Suc k)
  then have "i < length s" by simp
  moreover have "s ! i \<noteq> NUL" using Suc.prems(1) calculation by (metis nth_mem)
  moreover have "in_int (int i + 1)" using Suc.prems(3) calculation by (simp add: in_int_def)
  ultimately show ?case
    using Suc.hyps(1) [of "Suc i"] Suc.hyps(2) Suc.prems by (subst strlen2_loop.simps) (simp add: vget_in nth_append add.commute)
qed

lemma strlen_loop_None: "NUL \<notin> set s \<Longrightarrow> strlen_loop s cnt = None"
  by (induction s arbitrary: cnt) (auto simp: as_int_def)

lemma des_end_ok: "NUL \<notin> set s \<Longrightarrow> i \<le> length s \<Longrightarrow> des_end (s @ NUL # r) i = Some (length s)"
proof (induction "length s - i" arbitrary: i)
  case 0
  then show ?case by (subst des_end.simps) (simp add: vget_in nth_append)
next
  case (Suc k)
  then have "i < length s" by simp
  moreover have "s ! i \<noteq> NUL" using Suc.prems(1) calculation by (metis nth_mem)
  ultimately show ?case using Suc.hyps(1) [of "Suc i"] Suc.hyps(2) Suc.prems by (subst des_end.simps) (simp add: vget_in nth_append)
qed

lemma cat_loop_ok:
  "NUL \<notin> set t \<Longrightarrow> length s + length t < length (s @ r) \<Longrightarrow>
    cat_loop (s @ r) (length s) (t @ NUL # u) = Some (s @ t @ NUL # drop (Suc (length t)) r, length s + length t + 1)"
proof (induction t arbitrary: s r)
  case Nil
  then show ?case by (cases r) (auto simp: vset_in)
next
  case (Cons c t)
  then obtain x q where r: "r = x # q" by (cases r) auto
  have "vset (s @ r) (length s) c = Some ((s @ [c]) @ q)" using r by (simp add: vset_in)
  moreover have "c \<noteq> NUL" using Cons.prems(1) by auto
  ultimately show ?case using Cons.IH [of "s @ [c]" q] Cons.prems r by simp
qed

text \<open>
  Both length functions count the characters before the first zero and answer \<open>-1\<close> for null. \<^verbatim>\<open>Mystrcat\<close> appends
  the source but writes a second zero behind the first: it needs one cell more than \<^verbatim>\<open>strcat\<close>, and with exactly the
  room that the result needs it writes outside the array.
\<close>

theorem strlen_strcat:
  assumes "NUL \<notin> set s" "NUL \<notin> set t" "int (length s) \<le> INT_MAX"
  shows "myStrlen (Some (s @ NUL # r)) = Some (int (length s)) \<and> strlen2 (Some (s @ NUL # r)) = Some (int (length s)) \<and>
    myStrlen None = Some (-1) \<and> strlen2 None = Some (-1) \<and> myStrlen (Some s) = None \<and>
    (length t < length r \<longrightarrow> Mystrcat (Some (s @ NUL # r)) (Some (t @ NUL # u)) = Some (s @ t @ NUL # NUL # drop (Suc (length t)) r)) \<and>
    (length t = length r \<longrightarrow> Mystrcat (Some (s @ NUL # r)) (Some (t @ NUL # u)) = None)"
proof -
  have e: "des_end (s @ NUL # r) 0 = Some (length s)" using des_end_ok [OF assms(1)] by simp
  have c: "cat_loop (s @ NUL # r) (length s) (t @ NUL # u) = Some (s @ t @ NUL # drop (length t) r, length s + length t + 1)"
    if "length t \<le> length r"
    using cat_loop_ok [OF assms(2), of s "NUL # r" u] that by simp
  have "Mystrcat (Some (s @ NUL # r)) (Some (t @ NUL # u)) = Some (s @ t @ NUL # NUL # drop (Suc (length t)) r)"
    if "length t < length r"
  proof -
    have "drop (length t) r = r ! length t # drop (Suc (length t)) r" using that by (simp add: Cons_nth_drop_Suc)
    then show ?thesis using e c that by (simp add: Mystrcat_def vset_in list_update_append)
  qed
  moreover have "Mystrcat (Some (s @ NUL # r)) (Some (t @ NUL # u)) = None" if "length t = length r"
    using e c that by (simp add: Mystrcat_def vset_def)
  ultimately show ?thesis
    using strlen_loop_ok [OF assms(1), of 0 r] strlen2_loop_ok [OF assms(1), of 0 r] strlen_loop_None [OF assms(1)] assms(3)
    by (simp add: myStrlen_def strlen2_def)
qed

lemma strlen_strcat_witness:
  "Mystrcat (Some (''ab'' @ NUL # ''xyz'')) (Some (''cd'' @ [NUL])) = Some (''abcd'' @ NUL # [NUL])"
  using strlen_strcat [of "''ab''" "''cd''" "''xyz''" "[]"] by simp


section \<open>Matching\<close>

lemma match_at_ok:
  "j + k = length p \<Longrightarrow> i + length p \<le> length s \<Longrightarrow> \<forall>m < j. s ! (i + m) = p ! m \<Longrightarrow> 0 < k \<Longrightarrow>
    match_at k (s @ r) (p @ q) (length p) i j = Some (occurs s p i)"
proof (induction k arbitrary: j)
  case (Suc k)
  have j: "j < length p" using Suc.prems(1) by simp
  have g: "vget (s @ r) (i + j) = Some (s ! (i + j))" "vget (p @ q) j = Some (p ! j)"
    using j Suc.prems(2) by (simp_all add: vget_in nth_append)
  show ?case
  proof (cases "s ! (i + j) = p ! j")
    case False
    then show ?thesis using g j Suc.prems(2) by (auto simp: occurs_nth)
  next
    case True
    then have m: "\<forall>m < Suc j. s ! (i + m) = p ! m" using Suc.prems(3) less_Suc_eq by auto
    show ?thesis
    proof (cases "k = 0")
      case k: True
      then have "occurs s p i" using m Suc.prems(1,2) by (auto simp: occurs_nth)
      then show ?thesis using k g True Suc.prems(1) by simp
    next
      case False
      then have "j \<noteq> length p - 1" using Suc.prems(1) by simp
      then show ?thesis using Suc.IH [of "Suc j"] m g True Suc.prems False by simp
    qed
  qed
qed simp

lemma match_from_ok:
  "p \<noteq> [] \<Longrightarrow> i + k + length p \<le> length s \<Longrightarrow>
    match_from k (s @ r) (p @ q) (length p) i = Some (case find (occurs s p) [i..<i + k] of None \<Rightarrow> -1 | Some m \<Rightarrow> int m)"
proof (induction k arbitrary: i)
  case (Suc k)
  have "match_at (length p) (s @ r) (p @ q) (length p) i 0 = Some (occurs s p i)"
    using match_at_ok [of 0 "length p" p i s r q] Suc.prems by simp
  moreover have "[i..<i + Suc k] = i # [Suc i..<Suc i + k]" by (simp add: upt_conv_Cons del: upt_Suc)
  ultimately show ?case using Suc.IH [of "Suc i"] Suc.prems by simp
qed simp

lemma violentMatch_find:
  assumes "NUL \<notin> set s" "NUL \<notin> set p" "p \<noteq> []"
  shows "violentMatch (s @ NUL # r) (p @ NUL # q) =
    Some (case find (occurs s p) [0..<length s - length p] of None \<Rightarrow> -1 | Some m \<Rightarrow> int m)"
proof (cases "length p \<le> length s")
  case True
  then show ?thesis
    using des_end_ok [OF assms(1), of 0 r] des_end_ok [OF assms(2), of 0 q]
      match_from_ok [OF assms(3), of 0 "length s - length p" s "NUL # r" "NUL # q"] by (simp add: violentMatch_def)
next
  case False
  then show ?thesis
    using des_end_ok [OF assms(1), of 0 r] des_end_ok [OF assms(2), of 0 q] by (simp add: violentMatch_def)
qed

text \<open>
  \<^verbatim>\<open>violentMatch\<close> never reads outside the strings and returns the first occurrence of the pattern, but its loop stops one
  position early: an occurrence at the very end of the text is missed, so that a text does not match itself, nor does the empty
  pattern match anything.
\<close>

theorem violentMatch_spec:
  assumes "NUL \<notin> set s" "NUL \<notin> set p"
  shows "violentMatch (s @ NUL # r) (p @ NUL # q) =
      Some (if p \<noteq> [] \<and> (\<exists>i. occurs s p i \<and> i + length p < length s) then int (LEAST i. occurs s p i) else -1)"
proof (cases "p = []")
  case True
  have "match_from k (s @ NUL # r) (NUL # q) 0 i = Some (-1)" for k i by (induction k arbitrary: i) auto
  then show ?thesis
    using True des_end_ok [OF assms(1), of 0 r] des_end_ok [of "[]" 0 q] by (simp add: violentMatch_def)
next
  case False
  note f = violentMatch_find [OF assms False, of r q]
  show ?thesis
  proof (cases "\<exists>i. occurs s p i \<and> i + length p < length s")
    case True
    then obtain i where i: "occurs s p i" "i + length p < length s" by blast
    define m where "m = (LEAST i. occurs s p i)"
    have m: "occurs s p m" "m \<le> i" "\<forall>j < m. \<not> occurs s p j"
      unfolding m_def using LeastI [of "occurs s p", OF i(1)] Least_le [of "occurs s p", OF i(1)] not_less_Least [of _ "occurs s p"] by blast+
    have "find (occurs s p) [0..<length s - length p] = Some m"
      unfolding find_Some_iff using m i(2) by (intro exI [of _ m]) simp
    then show ?thesis using f True False by (simp add: m_def)
  next
    case none: False
    then have "find (occurs s p) [0..<length s - length p] = None" by (auto simp: find_None_iff)
    then show ?thesis using f none by simp
  qed
qed

lemma violentMatch_spec_witness: "violentMatch (''abcab'' @ [NUL]) (''cab'' @ [NUL]) = Some (-1)"
proof -
  have "\<not> (\<exists>i. occurs ''abcab'' ''cab'' i \<and> i + length ''cab'' < length ''abcab'')"
  proof
    assume "\<exists>i. occurs ''abcab'' ''cab'' i \<and> i + length ''cab'' < length ''abcab''"
    then obtain i where "occurs ''abcab'' ''cab'' i" "i < 2" by auto
    moreover have "i = 0 \<or> i = 1" using calculation(2) by auto
    ultimately show False by (auto simp: occurs_def)
  qed
  then show ?thesis using violentMatch_spec [of "''abcab''" "''cab''" "[]" "[]"] by simp
qed

section \<open>Reversing\<close>

lemma reverse_chars_swap_ends: "reverse_chars b e mem = swap_ends mem b e"
proof (induction b e mem rule: reverse_chars.induct)
  case (1 b e mem)
  then show ?case by (subst reverse_chars.simps, subst swap_ends.simps) (auto intro: Option.bind_cong)
qed

text \<open>
  \<^verbatim>\<open>reverse\<close> turns round the characters between its two pointers, both included, and leaves everything when a pointer is null.
  \<^verbatim>\<open>reverseSentence\<close> assigns null to its argument in the test for null and then reads through it: it is undefined for every
  argument.
\<close>

theorem reverse_programs:
  "reverse_ptr (Some (int (length us))) (Some (int (length us) + int (length w) - 1)) (us @ w @ vs) = Some (us @ rev w @ vs) \<and>
   reverse_ptr None e mem = Some mem \<and> reverse_ptr b None mem = Some mem \<and> reverseSentence data mem = None"
  using swap_ends_ok [of us w vs] by (simp add: reverse_ptr_def reverse_chars_swap_ends reverseSentence_def split: option.splits)

end
