(* ===== verification/ArrayPrograms.thy ===== *)
theory ArrayPrograms
  imports RaceNumbers
begin

text \<open>
  Four short programs: the integer square root of \<^verbatim>\<open>cpp/math/sqrt.cpp\<close> (its other two functions work on
  \<^verbatim>\<open>double\<close> and are not modelled), the missing numbers of \<^verbatim>\<open>cpp/string/temp.cpp\<close>, the test of
  \<^verbatim>\<open>cpp/temp/temp1.cpp\<close> that pairs the characters of a string, and the exercise on the maximum of a sliding window.
\<close>

section \<open>The integer square root\<close>

function sqrt_loop :: "int \<Rightarrow> int \<Rightarrow> int \<Rightarrow> int ub" where
  "sqrt_loop x i j =
     (if i \<le> j
      then let mid = tquot (i + j) 2
           in case as_ll (mid * mid) of
                None \<Rightarrow> None
              | Some sq \<Rightarrow>
                  if sq = x then Some mid
                  else if sq < x then sqrt_loop x (mid + 1) j
                  else sqrt_loop x i (mid - 1)
      else Some j)"
  by pat_completeness auto
termination
proof (relation "measure (\<lambda>(x, i, j). nat (j - i + 1))")
  fix x i j m s :: int
  assume ij: "i \<le> j" and m: "m = tquot (i + j) 2"
  have b: "i \<le> m" "m \<le> j" using tquot_half_between [OF ij] m by auto
  show "((x, m + 1, j), x, i, j) \<in> measure (\<lambda>(x, i, j). nat (j - i + 1))"
    and "((x, i, m - 1), x, i, j) \<in> measure (\<lambda>(x, i, j). nat (j - i + 1))" using ij b by auto
qed simp

declare sqrt_loop.simps [simp del]

definition sqrt_int :: "int \<Rightarrow> int ub" where
  "sqrt_int x = sqrt_loop x 0 (tquot x 2 + 1)"

lemma small_square: "0 \<le> m \<Longrightarrow> m \<le> INT_MAX \<Longrightarrow> as_ll (m * m) = Some (m * m)"
proof -
  assume "0 \<le> m" "m \<le> INT_MAX"
  then have "m * m \<le> INT_MAX * INT_MAX" by (intro mult_mono) auto
  then have "in_ll (m * m)"
    using order_trans [of "- 9223372036854775808" 0 "m * m"] by (simp add: in_ll_def)
  then show ?thesis by simp
qed

definition floor_root :: "int \<Rightarrow> int \<Rightarrow> bool" where
  "floor_root x r \<longleftrightarrow> 0 \<le> r \<and> r * r \<le> x \<and> x < (r + 1) * (r + 1)"

lemma sqrt_loop_floor:
  "0 \<le> i \<Longrightarrow> i \<le> j + 1 \<Longrightarrow> j \<le> INT_MAX \<Longrightarrow> (i = 0 \<or> (i - 1) * (i - 1) \<le> x) \<Longrightarrow> x < (j + 1) * (j + 1) \<Longrightarrow> 0 \<le> x \<Longrightarrow>
    \<exists>r. sqrt_loop x i j = Some r \<and> floor_root x r"
proof (induction "nat (j - i + 1)" arbitrary: i j rule: less_induct)
  case less
  show ?case
  proof (cases "i \<le> j")
    case False
    then have i: "i = j + 1" using less.prems(2) by simp
    then have "i \<noteq> 0" using less.prems(5,6) by auto
    then have "0 \<le> j" "j * j \<le> x" using i less.prems(1,4) by auto
    then show ?thesis using False less.prems(5) by (subst sqrt_loop.simps) (simp add: floor_root_def)
  next
    case True
    define m where "m = tquot (i + j) 2"
    have m: "0 \<le> m" "i \<le> m" "m \<le> j" using tquot_half_between [OF True] less.prems(1) by (auto simp: m_def)
    have step: "sqrt_loop x i j =
        (if m * m = x then Some m else if m * m < x then sqrt_loop x (m + 1) j else sqrt_loop x i (m - 1))"
      using True small_square [of m] m less.prems(3) by (subst sqrt_loop.simps) (simp add: m_def [symmetric] Let_def)
    consider "m * m = x" | "m * m < x" | "x < m * m" by linarith
    then show ?thesis
    proof cases
      case 1
      then show ?thesis using step m by (simp add: floor_root_def algebra_simps)
    next
      case 2
      then show ?thesis using step less.hyps [of j "m + 1"] m less.prems by simp
    next
      case 3
      then show ?thesis using step less.hyps [of "m - 1" i] m less.prems by simp
    qed
  qed
qed

text \<open>
  For every number that is not negative, \<^verbatim>\<open>sqrt\<close> returns the floor of its square root without overflow.
\<close>

theorem sqrt_int_floor:
  assumes "0 \<le> x" "x \<le> INT_MAX"
  shows "\<exists>r. sqrt_int x = Some r \<and> 0 \<le> r \<and> r * r \<le> x \<and> x < (r + 1) * (r + 1)"
proof -
  have "x < (x div 2 + 1 + 1) * (x div 2 + 1 + 1)"
  proof -
    have "x < 2 * (x div 2 + 1)" by presburger
    also have "\<dots> \<le> (x div 2 + 1 + 1) * (x div 2 + 1 + 1)"
      using assms(1) by (intro mult_mono) auto
    finally show ?thesis .
  qed
  then show ?thesis
    using sqrt_loop_floor [of 0 "x div 2 + 1" x] assms by (simp add: sqrt_int_def floor_root_def)
qed

lemma sqrt_int_floor_witness: "\<exists>r. sqrt_int 2147483647 = Some r \<and> r * r \<le> 2147483647 \<and> 2147483647 < (r + 1) * (r + 1)"
  using sqrt_int_floor [of 2147483647] by auto

section \<open>The missing numbers\<close>

text \<open>\<^verbatim>\<open>nums[nums[i]-1] = nums[nums[i]-1]-len\<close> for each index, then the indices whose number is still positive.\<close>

fun mark_loop :: "nat \<Rightarrow> nat \<Rightarrow> int \<Rightarrow> int list \<Rightarrow> int list ub" where
  "mark_loop 0 i len nums = Some nums"
| "mark_loop (Suc k) i len nums = do {
     a \<leftarrow> vget nums i;
     p \<leftarrow> as_int (a - 1);
     v \<leftarrow> iget nums p;
     v \<leftarrow> as_int (v - len);
     nums \<leftarrow> iset nums p v;
     mark_loop k (Suc i) len nums
   }"

fun unmarked_loop :: "nat \<Rightarrow> int list \<Rightarrow> int list \<Rightarrow> int list" where
  "unmarked_loop i [] res = res"
| "unmarked_loop i (a # nums) res = unmarked_loop (Suc i) nums (if a \<ge> 1 then res @ [int i + 1] else res)"

definition findDisappearedNumbers :: "int list \<Rightarrow> int list ub" where
  "findDisappearedNumbers nums =
     (let len = length nums
      in if len = 0 then Some []
         else do { nums \<leftarrow> mark_loop len 0 (int len) nums; Some (unmarked_loop 0 nums []) })"

text \<open>The array after the first \<open>i\<close> steps.\<close>

definition marked :: "int list \<Rightarrow> nat \<Rightarrow> int list" where
  "marked nums i = map (\<lambda>q. nums ! q - int (length nums) * int (count_list (take i nums) (int q + 1))) [0..<length nums]"

lemma length_marked [simp]: "length (marked nums i) = length nums"
  by (simp add: marked_def)

lemma marked_nth: "q < length nums \<Longrightarrow> marked nums i ! q = nums ! q - int (length nums) * int (count_list (take i nums) (int q + 1))"
  by (simp add: marked_def)

lemma marked_Suc:
  assumes "i < length nums" "1 \<le> nums ! i" "nums ! i \<le> int (length nums)"
  shows "(marked nums i)[nat (nums ! i - 1) := marked nums i ! nat (nums ! i - 1) - int (length nums)] = marked nums (Suc i)"
proof (rule nth_equalityI)
  fix q assume q: "q < length ((marked nums i)[nat (nums ! i - 1) := marked nums i ! nat (nums ! i - 1) - int (length nums)])"
  have "take (Suc i) nums = take i nums @ [nums ! i]" using assms(1) by (rule take_Suc_conv_app_nth)
  then show "(marked nums i)[nat (nums ! i - 1) := marked nums i ! nat (nums ! i - 1) - int (length nums)] ! q = marked nums (Suc i) ! q"
    using q assms by (auto simp: nth_list_update marked_nth count_list_append algebra_simps)
qed simp

definition one_to :: "int list \<Rightarrow> bool" where
  "one_to nums \<longleftrightarrow> (\<forall>a \<in> set nums. 1 \<le> a \<and> a \<le> int (length nums))"

lemma count_list_bound: "count_list xs a \<le> length xs"
  by (induction xs) auto


lemma mark_loop_ok:
  assumes one: "one_to nums" and small: "length nums \<le> 46340"
  shows "i + k = length nums \<Longrightarrow>
    mark_loop k i (int (length nums)) (marked nums i) =
      (if \<forall>q. i \<le> q \<and> q < length nums \<longrightarrow> int q + 1 \<notin> set (take q nums) then Some (marked nums (length nums)) else None)"
proof (induction k arbitrary: i)
  case (Suc k)
  let ?n = "int (length nums)"
  have i: "i < length nums" using Suc.prems by simp
  have v: "1 \<le> nums ! i" "nums ! i \<le> ?n" using one i by (auto simp: one_to_def)
  have n: "?n * ?n < 2147483647"
  proof -
    have "?n * ?n \<le> 46340 * 46340" using small by (intro mult_mono) auto
    then show ?thesis by simp
  qed
  have up: "?n * int i + ?n \<le> ?n * ?n"
  proof -
    have "?n * (int i + 1) \<le> ?n * ?n" using i by (intro mult_left_mono) auto
    then show ?thesis by (simp add: algebra_simps)
  qed
  have low: "1 - ?n * int i \<le> marked nums i ! p" if p: "p < length nums" for p
  proof -
    have "count_list (take i nums) (int p + 1) \<le> i" using count_list_bound [of "take i nums"] i by (metis length_take min.absorb4)
    then have "?n * int (count_list (take i nums) (int p + 1)) \<le> ?n * int i" by (intro mult_left_mono) auto
    moreover have "1 \<le> nums ! p" using one p by (simp add: one_to_def)
    ultimately show ?thesis using p by (simp add: marked_nth)
  qed
  have high: "marked nums i ! p \<le> ?n" if p: "p < length nums" for p
  proof -
    have "nums ! p \<le> ?n" using one p by (simp add: one_to_def)
    moreover have "0 \<le> ?n * int (count_list (take i nums) (int p + 1))" by simp
    ultimately show ?thesis unfolding marked_nth [OF p] by linarith
  qed
  show ?case
  proof (cases "int i + 1 \<in> set (take i nums)")
    case True
    then have "1 \<le> count_list (take i nums) (int i + 1)" by (metis count_list_0_iff less_one not_less)
    then have "?n * 1 \<le> ?n * int (count_list (take i nums) (int i + 1))" by (intro mult_left_mono) auto
    then have "marked nums i ! i \<le> 0" using v i by (simp add: marked_nth)
    moreover have "in_int (marked nums i ! i - 1)" using low [OF i] calculation n up by (simp add: in_int_def)
    ultimately show ?thesis using True i by (auto simp: vget_in iget_def)
  next
    case False
    then have c: "count_list (take i nums) (int i + 1) = 0" by (simp add: count_list_0_iff)
    then have a: "marked nums i ! i = nums ! i" using i by (simp add: marked_nth)
    let ?p = "nums ! i - 1"
    have p: "0 \<le> ?p" "?p < ?n" "nat ?p < length nums" using v by auto
    have "in_int ?p" "in_int (marked nums i ! nat ?p - ?n)"
      using v small low [OF p(3)] high [OF p(3)] n up by (simp_all add: in_int_def)
    then have "mark_loop (Suc k) i ?n (marked nums i) = mark_loop k (Suc i) ?n (marked nums (Suc i))"
      using i a p v marked_Suc [OF i v] by (simp add: vget_in iget_in iset_in)
    moreover have "(\<forall>q. i \<le> q \<and> q < length nums \<longrightarrow> int q + 1 \<notin> set (take q nums)) \<longleftrightarrow>
        (\<forall>q. Suc i \<le> q \<and> q < length nums \<longrightarrow> int q + 1 \<notin> set (take q nums))"
      using False by (metis Suc_leD le_SucE le_eq_less_or_eq Suc_leI)
    ultimately show ?thesis using Suc.IH [of "Suc i"] Suc.prems by simp
  qed
qed auto

lemma unmarked_loop_ok: "unmarked_loop i nums res = res @ map (\<lambda>q. int q + 1) (filter (\<lambda>q. 1 \<le> nums ! (q - i)) [i..<i + length nums])"
proof (induction i nums res rule: unmarked_loop.induct)
  case (2 i a nums res)
  have "[i..<i + length (a # nums)] = i # [Suc i..<Suc i + length nums]" by (simp add: upt_conv_Cons del: upt_Suc)
  moreover have "filter (\<lambda>q. 1 \<le> (a # nums) ! (q - i)) [Suc i..<Suc i + length nums] = filter (\<lambda>q. 1 \<le> nums ! (q - Suc i)) [Suc i..<Suc i + length nums]"
    
  proof (rule filter_cong [OF refl])
    fix q assume "q \<in> set [Suc i..<Suc i + length nums]"
    then have "q - i = Suc (q - Suc i)" by auto
    then show "1 \<le> (a # nums) ! (q - i) \<longleftrightarrow> 1 \<le> nums ! (q - Suc i)" by simp
  qed
  ultimately show ?case using 2 by (simp del: upt_Suc)
qed simp

lemma marked_positive:
  assumes "one_to nums" "q < length nums"
  shows "1 \<le> marked nums (length nums) ! q \<longleftrightarrow> int q + 1 \<notin> set nums"
proof (cases "int q + 1 \<in> set nums")
  case True
  then have "1 \<le> count_list nums (int q + 1)" by (metis count_list_0_iff less_one not_less)
  then have "int (length nums) * 1 \<le> int (length nums) * int (count_list nums (int q + 1))" by (intro mult_left_mono) auto
  moreover have "nums ! q \<le> int (length nums)" using assms by (simp add: one_to_def)
  ultimately show ?thesis using True assms(2) by (simp add: marked_nth)
next
  case False
  then have "count_list nums (int q + 1) = 0" by (simp add: count_list_0_iff)
  moreover have "1 \<le> nums ! q" using assms by (simp add: one_to_def)
  ultimately show ?thesis using False assms(2) by (simp add: marked_nth)
qed

text \<open>
  For numbers from 1 to the length of the array the program finds the missing ones only when each number that
  occurs has its first occurrence at or behind its own place; otherwise a number is used as an index after it was marked, and the access is
  out of range.
\<close>

theorem findDisappearedNumbers_spec:
  assumes "\<forall>a \<in> set nums. 1 \<le> a \<and> a \<le> int (length nums)" "length nums \<le> 46340"
  shows "findDisappearedNumbers nums =
    (if \<forall>q < length nums. int q + 1 \<notin> set (take q nums)
     then Some (map (\<lambda>q. int q + 1) (filter (\<lambda>q. int q + 1 \<notin> set nums) [0..<length nums])) else None)"
proof -
  have one: "one_to nums" using assms(1) by (simp add: one_to_def)
  have m: "marked nums 0 = nums" by (rule nth_equalityI) (simp_all add: marked_nth)
  have f: "filter (\<lambda>q. 1 \<le> marked nums (length nums) ! q) [0..<length nums] = filter (\<lambda>q. int q + 1 \<notin> set nums) [0..<length nums]"
    by (rule filter_cong [OF refl]) (use marked_positive [OF one] in simp)
  show ?thesis
    using mark_loop_ok [OF one assms(2), of 0 "length nums"] unmarked_loop_ok [of 0 "marked nums (length nums)" "[]"]
    by (simp add: findDisappearedNumbers_def m f Let_def)
qed

lemma findDisappearedNumbers_spec_witness:
  "findDisappearedNumbers [2, 2] = None \<and> findDisappearedNumbers [1, 1, 3] = Some [2]"
  using findDisappearedNumbers_spec [of "[2, 2]"] findDisappearedNumbers_spec [of "[1, 1, 3]"]
  by (simp add: numeral_3_eq_3 less_Suc_eq all_simps)


section \<open>Pairs of characters\<close>

text \<open>The counters of the hash table, as a function from the characters in it.\<close>

definition bump :: "char \<Rightarrow> (char \<Rightarrow> int option) \<Rightarrow> (char \<Rightarrow> int option) ub" where
  "bump c h = do { n \<leftarrow> as_int ((case h c of None \<Rightarrow> 0 | Some n \<Rightarrow> n) + 1); Some (h(c \<mapsto> n)) }"

fun pair_loop :: "nat \<Rightarrow> nat \<Rightarrow> string \<Rightarrow> (char \<Rightarrow> int option) \<Rightarrow> (char \<Rightarrow> int option) ub" where
  "pair_loop 0 i str h = Some h"
| "pair_loop (Suc k) i str h = do {
     a \<leftarrow> vget str i;
     h \<leftarrow> bump a h;
     b \<leftarrow> iget str (int (length str) - 1 - int i);
     h \<leftarrow> bump b h;
     pair_loop k (Suc i) str h
   }"

definition slove :: "string \<Rightarrow> string ub" where
  "slove str = do {
     h \<leftarrow> pair_loop (length str div 2) 0 str (\<lambda>_. None);
     Some (if card (dom h) = 1 then ''NO''
           else if \<exists>c \<in> dom h. the (h c) mod 2 = 1 then ''NO''
           else ''YES'')
   }"

text \<open>What is counted: all characters but the middle one of an odd number.\<close>

definition outer :: "nat \<Rightarrow> string \<Rightarrow> string" where
  "outer k str = take k str @ drop (length str - k) str"

definition tallied :: "(char \<Rightarrow> int option) \<Rightarrow> string \<Rightarrow> bool" where
  "tallied h s \<longleftrightarrow> (\<forall>c. h c = (if c \<in> set s then Some (int (count (mset s) c)) else None))"

lemma bump_tallied:
  assumes "tallied h s" "int (length s) < INT_MAX"
  shows "\<exists>h'. bump c h = Some h' \<and> (\<forall>t. mset t = add_mset c (mset s) \<longrightarrow> tallied h' t)"
proof -
  have v: "(case h c of None \<Rightarrow> 0 | Some n \<Rightarrow> n) = int (count (mset s) c)"
    using assms(1) by (auto simp: tallied_def count_mset_0_iff)
  have "count (mset s) c \<le> length s" by (metis count_le_length size_mset count_mset count_le_size)
  then have "in_int (int (count (mset s) c) + 1)" using assms(2) by (simp add: in_int_def)
  then have "bump c h = Some (h(c \<mapsto> int (count (mset s) c) + 1))" by (simp add: bump_def v)
  moreover have "tallied (h(c \<mapsto> int (count (mset s) c) + 1)) t" if t: "mset t = add_mset c (mset s)" for t
  proof -
    have "set t = insert c (set s)" using arg_cong [OF t, of set_mset] by simp
    then show ?thesis using assms(1) by (auto simp: tallied_def t)
  qed
  ultimately show ?thesis by blast
qed

lemma outer_Suc:
  assumes "2 * Suc i \<le> length str"
  shows "mset (outer (Suc i) str) = add_mset (str ! i) (add_mset (str ! (length str - Suc i)) (mset (outer i str)))"
proof -
  have "take (Suc i) str = take i str @ [str ! i]" using assms by (simp add: take_Suc_conv_app_nth)
  moreover have "drop (length str - Suc i) str = str ! (length str - Suc i) # drop (length str - i) str"
    using assms Cons_nth_drop_Suc [of "length str - Suc i" str] by (simp add: Suc_diff_Suc)
  ultimately show ?thesis by (simp add: outer_def)
qed

lemma pair_loop_tallied:
  "2 * (i + k) \<le> length str \<Longrightarrow> int (length str) \<le> INT_MAX \<Longrightarrow> tallied h (outer i str) \<Longrightarrow>
    \<exists>h'. pair_loop k i str h = Some h' \<and> tallied h' (outer (i + k) str)"
proof (induction k arbitrary: i h)
  case (Suc k)
  let ?a = "str ! i" and ?b = "str ! (length str - Suc i)"
  have i: "2 * Suc i \<le> length str" using Suc.prems(1) by simp
  have len: "length (outer i str) = 2 * i" using i by (simp add: outer_def)
  obtain h1 where h1: "bump ?a h = Some h1" "tallied h1 (?a # outer i str)"
    using bump_tallied [OF Suc.prems(3), of ?a] len i Suc.prems(2) by fastforce
  obtain h2 where h2: "bump ?b h1 = Some h2" "tallied h2 (outer (Suc i) str)"
  proof -
    have "mset (outer (Suc i) str) = add_mset ?b (mset (?a # outer i str))" using outer_Suc [OF i] by (simp add: add_mset_commute)
    then show ?thesis using bump_tallied [OF h1(2), of ?b] len i Suc.prems(2) that by fastforce
  qed
  have g: "iget str (int (length str) - 1 - int i) = Some ?b"
  proof -
    have "int (length str) - 1 - int i = int (length str - Suc i)" using i by simp
    moreover have "iget str (int n) = vget str n" for n by (simp add: iget_def vget_def)
    moreover have "vget str (length str - Suc i) = Some ?b" using i by (intro vget_in) simp
    ultimately show ?thesis by metis
  qed
  show ?case using Suc.IH [of "Suc i" h2] Suc.prems i h1(1) h2 g by (simp add: vget_in)
qed (simp)

text \<open>
  The answer is YES exactly when the characters, without the middle one of an odd number, are not all the same and each
  occurs an even number of times; the empty string and a single character are accepted.
\<close>

theorem slove_spec:
  assumes "int (length str) \<le> INT_MAX"
  shows "slove str = Some (let s = outer (length str div 2) str
     in if card (set s) \<noteq> 1 \<and> (\<forall>c \<in> set s. even (count (mset s) c)) then ''YES'' else ''NO'')"
proof -
  let ?s = "outer (length str div 2) str"
  have "tallied (\<lambda>_. None) (outer 0 str)" by (simp add: tallied_def outer_def)
  then obtain h where h: "pair_loop (length str div 2) 0 str (\<lambda>_. None) = Some h" "tallied h ?s"
    using pair_loop_tallied [of 0 "length str div 2" str "\<lambda>_. None"] assms by auto
  have d: "dom h = set ?s" using h(2) by (auto simp: tallied_def split: if_splits)
  have "the (h c) mod 2 = 1 \<longleftrightarrow> odd (count (mset ?s) c)" if "c \<in> set ?s" for c
  proof -
    have "the (h c) = int (count (mset ?s) c)" using h(2) that by (simp add: tallied_def)
    moreover have "int n mod 2 = 1 \<longleftrightarrow> odd n" for n by presburger
    ultimately show ?thesis by simp
  qed
  then have "(\<exists>c \<in> dom h. the (h c) mod 2 = 1) \<longleftrightarrow> \<not> (\<forall>c \<in> set ?s. even (count (mset ?s) c))" unfolding d by blast
  then show ?thesis using h(1) by (simp add: slove_def d Let_def)
qed

lemma slove_spec_witness: "slove ''abab'' = Some ''YES'' \<and> slove ''aaaa'' = Some ''NO''"
  using slove_spec [of "''abab''"] slove_spec [of "''aaaa''"] by (simp add: outer_def insert_commute)

end
