(* ===== verification/SlidingWindow.thy ===== *)
theory SlidingWindow
  imports Cpp_Prelude
begin

text \<open>
  The exercise on the maximum of a sliding window (\<^verbatim>\<open>maxSlidingWindow\<close> and \<^verbatim>\<open>heapify\<close>). The children of a node are
  computed as \<^verbatim>\<open>(index >> 1) + 1\<close> and \<^verbatim>\<open>+ 2\<close>, so that a node can be its own child or its parent's, and the recursion of
  \<^verbatim>\<open>heapify\<close> may not end; it is a partial function, whose value is \<^term>\<open>None\<close> when it does not return.
\<close>

section \<open>The code\<close>

partial_function (option) window_heapify :: "int list \<Rightarrow> int \<Rightarrow> int \<Rightarrow> int list ub" where
  "window_heapify data len index = do {
     let left = index div 2 + 1;
     let right = index div 2 + 2;
     m \<leftarrow> (if left < len
          then do { a \<leftarrow> iget data left; b \<leftarrow> iget data index; Some (if a > b then left else index) }
          else Some index);
     m \<leftarrow> (if right < len
          then do { a \<leftarrow> iget data right; b \<leftarrow> iget data m; Some (if a > b then right else m) }
          else Some m);
     if m \<noteq> index
     then do { data \<leftarrow> iswap data m index; window_heapify data len m }
     else Some data
   }"

fun window_build :: "nat \<Rightarrow> int list \<Rightarrow> int \<Rightarrow> int list ub" where
  "window_build 0 data len = window_heapify data len 0"
| "window_build (Suc i) data len = do { data \<leftarrow> window_heapify data len (int (Suc i)); window_build i data len }"

fun window_fill :: "nat \<Rightarrow> nat \<Rightarrow> int list \<Rightarrow> int list \<Rightarrow> int list ub" where
  "window_fill 0 i nums heap = Some heap"
| "window_fill (Suc n) i nums heap = do { x \<leftarrow> vget nums i; heap \<leftarrow> vset heap i x; window_fill n (Suc i) nums heap }"

text \<open>The loop over the rest of the array; it compares with the top of the heap only.\<close>

fun window_slide :: "int list \<Rightarrow> int list \<Rightarrow> int list \<Rightarrow> int list ub" where
  "window_slide [] heap res = Some res"
| "window_slide (x # xs) heap res = do {
     h \<leftarrow> vget heap 0;
     heap \<leftarrow> (if h \<le> x then vset heap 0 x else Some heap);
     h \<leftarrow> vget heap 0;
     window_slide xs heap (res @ [h])
   }"

definition maxSlidingWindow :: "int list \<Rightarrow> int \<Rightarrow> int list ub" where
  "maxSlidingWindow nums k =
     (if length nums = 0 then Some []
      else if length nums = 1 then Some [nums ! 0]
      else if k \<le> 1 then Some [nums ! 0]
      else do {
        heap \<leftarrow> window_fill (nat k) 0 nums (replicate (nat k) 0);
        heap \<leftarrow> window_build (nat k div 2) heap k;
        h \<leftarrow> vget heap 0;
        window_slide (drop (nat k) nums) heap [h]
      })"

section \<open>Small windows\<close>

lemma window_fill_ok:
  "i + n \<le> length nums \<Longrightarrow> i + n \<le> length heap \<Longrightarrow> window_fill n i nums heap = Some (take i heap @ take n (drop i nums) @ drop (i + n) heap)"
proof (induction n arbitrary: i heap)
  case (Suc n)
  have "take (Suc i) (heap[i := nums ! i]) = take i heap @ [nums ! i]" using Suc.prems by (simp add: take_Suc_conv_app_nth)
  moreover have "drop i nums = nums ! i # drop (Suc i) nums" using Suc.prems by (simp add: Cons_nth_drop_Suc)
  ultimately show ?case using Suc.IH [of "Suc i" "heap[i := nums ! i]"] Suc.prems by (simp add: vget_in vset_in)
qed simp

lemma window_fill_short: "length nums < i + n \<Longrightarrow> i \<le> length nums \<Longrightarrow> i + n \<le> length heap \<Longrightarrow> window_fill n i nums heap = None"
proof (induction n arbitrary: i heap)
  case (Suc n)
  show ?case
  proof (cases "i < length nums")
    case True
    then show ?thesis using Suc.IH [of "Suc i" "heap[i := nums ! i]"] Suc.prems by (simp add: vget_in vset_in)
  next
    case False
    then show ?thesis by (simp add: vget_def)
  qed
qed simp

lemma heap_two: "\<exists>y. window_build 1 [a, b] 2 = Some [max a b, y]"
proof -
  have l: "window_heapify [c, d] 2 1 = Some [c, d]" for c d
    by (subst window_heapify.simps) (simp add: iget_def Let_def)
  show ?thesis
    using l by (auto simp: window_heapify.simps [of "[a, b]" 2 0] iget_def iswap_def Let_def max_def)
qed

lemma heap_three: "\<exists>y z. window_build 1 [a, b, c] 3 = Some [max (max a b) c, y, z]"
proof -
  have l2: "window_heapify [x, y, z] 3 2 = Some [x, y, z]" if "y \<ge> z" for x y z
    by (subst window_heapify.simps) (use that in \<open>simp add: iget_def Let_def\<close>)
  have l1: "window_heapify [x, y, z] 3 1 = Some [x, max y z, min y z]" for x y z
    using l2 [of z y x] l2 [of y z x] by (subst window_heapify.simps) (auto simp: iget_def iswap_def Let_def max_def min_def numeral_2_eq_2)
  have l0: "\<exists>p q. window_heapify [x, y, z] 3 0 = Some [max (max x y) z, p, q]" if "y \<ge> z" for x y z
    using that l1 by (subst window_heapify.simps) (auto simp: iget_def iswap_def Let_def max_def)
  show ?thesis using l0 [of "min b c" "max b c" a] by (simp add: l1 max.assoc)
qed

lemma window_slide_ok:
  "0 < i \<Longrightarrow> i + length xs = length nums \<Longrightarrow> xs = drop i nums \<Longrightarrow> heap = Max (set (take i nums)) # t \<Longrightarrow>
    window_slide xs heap res = Some (res @ map (\<lambda>m. Max (set (take m nums))) [Suc i..<Suc (length nums)])"
proof (induction xs arbitrary: i heap res)
  case (Cons x xs)
  have i: "i < length nums" using Cons.prems(2) by simp
  have x: "x = nums ! i" "xs = drop (Suc i) nums"
    using Cons.prems(3) i by (metis Cons_nth_drop_Suc list.inject)+
  have "take i nums \<noteq> []" using Cons.prems(1) i by auto
  moreover have "set (take (Suc i) nums) = insert x (set (take i nums))" using i x(1) by (simp add: take_Suc_conv_app_nth)
  ultimately have m: "Max (set (take (Suc i) nums)) = max x (Max (set (take i nums)))" by simp
  have "window_slide (x # xs) heap res = window_slide xs (Max (set (take (Suc i) nums)) # t) (res @ [Max (set (take (Suc i) nums))])"
    using Cons.prems(4) by (simp add: vget_in vset_in m max_def)
  moreover have "window_slide xs (Max (set (take (Suc i) nums)) # t) (res @ [Max (set (take (Suc i) nums))]) = Some ((res @ [Max (set (take (Suc i) nums))]) @ map (\<lambda>m. Max (set (take m nums))) [Suc (Suc i)..<Suc (length nums)])"
    by (rule Cons.IH) (use Cons.prems(2) x(2) in simp_all)
  moreover have "[Suc i..<Suc (length nums)] = Suc i # [Suc (Suc i)..<Suc (length nums)]" using i by (simp add: upt_conv_Cons del: upt_Suc)
  ultimately show ?case by (simp del: upt_Suc)
qed simp

section \<open>Larger windows\<close>

text \<open>The nodes 2 and 3 are each other's children: exchanging them starts a recursion without end.\<close>

definition cycling :: "int list \<Rightarrow> int \<Rightarrow> int \<Rightarrow> bool" where
  "cycling data len index \<longleftrightarrow> 3 < len \<and> 3 < length data \<and>
     (index = 2 \<and> data ! 2 < data ! 3 \<or> index = 3 \<and> data ! 3 < data ! 2)"

lemma heapify_cycles:
  assumes "window_heapify data len index = Some r"
  shows "\<not> cycling data len index"
proof (rule window_heapify.raw_induct [OF _ assms], goal_cases)
  case (1 f data len index r)
  show ?case
  proof
    assume c: "cycling data len index"
    let ?j = "5 - index"
    let ?d = "data[nat ?j := data ! nat index, nat index := data ! nat ?j]"
    have "f ?d len ?j = Some r"
      using 1(2) c by (auto simp: cycling_def Let_def iget_def iswap_def split: if_splits)
    moreover have "cycling ?d len ?j" using c by (auto simp: cycling_def)
    ultimately show False using 1(1) by blast
  qed
qed

section \<open>Properties\<close>

text \<open>
  For windows of two or three elements the result is the maximum of the whole array up to the end of each
  window: an element is never removed, so that it is the maximum of the window only while that is still inside. A window larger than the
  array is read out of range. For windows of four or five elements the program does not return when the third element is less than
  the fourth.
\<close>

theorem maxSlidingWindow_spec:
  assumes "1 < length nums"
  shows "((k = 2 \<or> k = 3) \<and> k \<le> int (length nums) \<longrightarrow>
      maxSlidingWindow nums k = Some (map (\<lambda>m. Max (set (take m nums))) [nat k..<Suc (length nums)])) \<and>
    (int (length nums) < k \<longrightarrow> maxSlidingWindow nums k = None) \<and>
    ((k = 4 \<or> k = 5) \<and> k \<le> int (length nums) \<and> nums ! 2 < nums ! 3 \<longrightarrow> maxSlidingWindow nums k = None)"
proof (intro conjI impI)
  assume a: "(k = 2 \<or> k = 3) \<and> k \<le> int (length nums)"
  then have n: "nat k \<le> length nums" by linarith
  have fill: "window_fill (nat k) 0 nums (replicate (nat k) 0) = Some (take (nat k) nums)"
    using window_fill_ok [of 0 "nat k" nums "replicate (nat k) 0"] n by simp
  obtain t where t: "window_build (nat k div 2) (take (nat k) nums) k = Some (Max (set (take (nat k) nums)) # t)"
  proof (cases "k = 2")
    case True
    then obtain x y zs where "nums = x # y # zs" using n by (cases nums; cases "tl nums") auto
    then show ?thesis using True heap_two [of x y] that by auto
  next
    case False
    then have k: "k = 3" using a by simp
    then obtain x y z zs where "nums = x # y # z # zs" using n by (cases nums; cases "tl nums"; cases "tl (tl nums)") auto
    moreover have "nat 3 div 2 = 1" by simp
    ultimately show ?thesis using k heap_three [of x y z] that by (auto simp: numeral_3_eq_3 max.assoc)
  qed
  have "window_slide (drop (nat k) nums) (Max (set (take (nat k) nums)) # t) [Max (set (take (nat k) nums))] =
      Some ([Max (set (take (nat k) nums))] @ map (\<lambda>m. Max (set (take m nums))) [Suc (nat k)..<Suc (length nums)])"
    by (rule window_slide_ok) (use a n in auto)
  moreover have "[nat k..<Suc (length nums)] = nat k # [Suc (nat k)..<Suc (length nums)]"
    using n by (simp add: upt_conv_Cons del: upt_Suc)
  ultimately show "maxSlidingWindow nums k = Some (map (\<lambda>m. Max (set (take m nums))) [nat k..<Suc (length nums)])"
    using assms a fill t by (auto simp: maxSlidingWindow_def vget_in simp del: upt_Suc)
next
  assume "int (length nums) < k"
  then have "length nums < nat k" "1 < k" using assms by linarith+
  then have "window_fill (nat k) 0 nums (replicate (nat k) 0) = None" using window_fill_short [of nums 0 "nat k"] by simp
  then show "maxSlidingWindow nums k = None" using assms \<open>1 < k\<close> by (auto simp: maxSlidingWindow_def)
next
  assume a: "(k = 4 \<or> k = 5) \<and> k \<le> int (length nums) \<and> nums ! 2 < nums ! 3"
  have fill: "window_fill (nat k) 0 nums (replicate (nat k) 0) = Some (take (nat k) nums)"
  proof -
    have "nat k \<le> length nums" using a by linarith
    then show ?thesis using window_fill_ok [of 0 "nat k" nums "replicate (nat k) 0"] by simp
  qed
  have "cycling (take (nat k) nums) k 2" using a by (auto simp: cycling_def)
  then have "window_heapify (take (nat k) nums) k 2 = None" using heapify_cycles by (metis not_Some_eq)
  moreover have "nat k div 2 = Suc 1" using a by auto
  ultimately show "maxSlidingWindow nums k = None"
    using assms a fill by (auto simp: maxSlidingWindow_def)
qed

lemma maxSlidingWindow_spec_witness:
  "maxSlidingWindow [3, 1, 1] 2 = Some [3, 3] \<and> maxSlidingWindow [3, 1] 4 = None \<and> maxSlidingWindow [0, 0, 0, 1] 4 = None"
  using maxSlidingWindow_spec [of "[3, 1, 1]" 2] maxSlidingWindow_spec [of "[3, 1]" 4] maxSlidingWindow_spec [of "[0, 0, 0, 1]" 4]
  by (simp add: numeral_2_eq_2 numeral_3_eq_3)

end
