(* ===== verification/Patterns.thy ===== *)
theory Patterns
  imports Cpp_Prelude
begin

text \<open>
  Two idioms: the scope guard of \<^verbatim>\<open>cpp/cpp_language/scope_guard_test.cpp\<close> and the chain of handlers of
  \<^verbatim>\<open>cpp/design_pattern/Chain_of_Responsibility.cpp\<close>. A guarded function is an identifier, and running it appends the
  identifier to a list; handlers are objects on a heap, with pointers to their successors.
\<close>

section \<open>Scope guards\<close>

record 'f guard =
  m_func :: 'f
  m_dismiss :: bool

definition ScopeGuard_new :: "'f \<Rightarrow> 'f guard" where
  "ScopeGuard_new f = \<lparr>m_func = f, m_dismiss = False\<rparr>"

definition Dismiss :: "'f guard \<Rightarrow> 'f guard" where
  "Dismiss g = g\<lparr>m_dismiss := True\<rparr>"

text \<open>The move constructor: the new guard and what is left of the old one.\<close>

definition ScopeGuard_move :: "'f guard \<Rightarrow> 'f guard \<times> 'f guard" where
  "ScopeGuard_move rhs = (\<lparr>m_func = m_func rhs, m_dismiss = m_dismiss rhs\<rparr>, Dismiss rhs)"

definition ScopeGuard_destroy :: "'f guard \<Rightarrow> 'f list \<Rightarrow> 'f list" where
  "ScopeGuard_destroy g out = (if \<not> m_dismiss g then out @ [m_func g] else out)"

definition MakeGuard :: "'f \<Rightarrow> 'f guard" where
  "MakeGuard f = ScopeGuard_new f"

text \<open>Programs with variables that hold guards.\<close>

datatype 'f guard_stmt = GMake nat 'f | GMove nat nat | GDismiss nat | GEnd nat

fun guard_step :: "'f guard_stmt \<Rightarrow> (nat \<Rightarrow> 'f guard option) \<times> 'f list \<Rightarrow> ((nat \<Rightarrow> 'f guard option) \<times> 'f list) ub" where
  "guard_step (GMake v f) (e, out) = (if e v = None then Some (e(v \<mapsto> MakeGuard f), out) else None)"
| "guard_step (GMove v w) (e, out) =
     (if e v = None then do { g \<leftarrow> e w; let (new, old) = ScopeGuard_move g in Some (e(w \<mapsto> old, v \<mapsto> new), out) } else None)"
| "guard_step (GDismiss v) (e, out) = do { g \<leftarrow> e v; Some (e(v \<mapsto> Dismiss g), out) }"
| "guard_step (GEnd v) (e, out) = do { g \<leftarrow> e v; Some (e(v := None), ScopeGuard_destroy g out) }"

fun guard_run :: "'f guard_stmt list \<Rightarrow> (nat \<Rightarrow> 'f guard option) \<times> 'f list \<Rightarrow> ((nat \<Rightarrow> 'f guard option) \<times> 'f list) ub" where
  "guard_run [] s = Some s"
| "guard_run (c # cs) s = do { s \<leftarrow> guard_step c s; guard_run cs s }"

text \<open>In the program the guard is a temporary, which ends with its own statement.\<close>

datatype report = StartWork | ReleaseData | EndWork

definition guard_main :: "report list" where
  "guard_main = (let out = [StartWork]; out = ScopeGuard_destroy (MakeGuard ReleaseData) out in out @ [EndWork])"

text \<open>The functions that are still to run, the made ones, and the dismissed ones.\<close>

definition pending :: "(nat \<Rightarrow> 'f guard option) \<Rightarrow> 'f multiset" where
  "pending e = image_mset (\<lambda>v. m_func (the (e v))) (mset_set {v. \<exists>g. e v = Some g \<and> \<not> m_dismiss g})"

fun made :: "'f guard_stmt list \<Rightarrow> 'f multiset" where
  "made [] = {#}"
| "made (GMake v f # cs) = add_mset f (made cs)"
| "made (c # cs) = made cs"

fun dismissed :: "'f guard_stmt list \<Rightarrow> (nat \<Rightarrow> 'f guard option) \<times> 'f list \<Rightarrow> 'f multiset" where
  "dismissed [] s = {#}"
| "dismissed (c # cs) s =
     (case c of GDismiss v \<Rightarrow> (case fst s v of Some g \<Rightarrow> if m_dismiss g then {#} else {#m_func g#} | None \<Rightarrow> {#}) | _ \<Rightarrow> {#}) +
     (case guard_step c s of Some s' \<Rightarrow> dismissed cs s' | None \<Rightarrow> {#})"

lemma pending_upd:
  assumes "finite (dom e)"
  shows "pending (e(v := x)) =
    pending (e(v := None)) + (case x of None \<Rightarrow> {#} | Some g \<Rightarrow> if m_dismiss g then {#} else {#m_func g#})"
proof -
  let ?A = "{u. u \<noteq> v \<and> (\<exists>g. e u = Some g \<and> \<not> m_dismiss g)}"
  have f: "finite ?A" by (rule finite_subset [of _ "dom e"]) (use assms in auto)
  have n: "{u. \<exists>g. (e(v := None)) u = Some g \<and> \<not> m_dismiss g} = ?A" by auto
  have c: "image_mset (\<lambda>u. m_func (the ((e(v := x)) u))) (mset_set ?A) = image_mset (\<lambda>u. m_func (the ((e(v := None)) u))) (mset_set ?A)"
    by (rule image_mset_cong) (use f in auto)
  show ?thesis
  proof (cases "\<exists>g. x = Some g \<and> \<not> m_dismiss g")
    case True
    then have "{u. \<exists>g. (e(v := x)) u = Some g \<and> \<not> m_dismiss g} = insert v ?A" by auto
    moreover have "v \<notin> ?A" by simp
    ultimately show ?thesis using True f c n by (auto simp: pending_def)
  next
    case False
    then have "{u. \<exists>g. (e(v := x)) u = Some g \<and> \<not> m_dismiss g} = ?A" by auto
    moreover have "(case x of None \<Rightarrow> {#} | Some g \<Rightarrow> if m_dismiss g then {#} else {#m_func g#}) = {#}"
      using False by (auto split: option.splits)
    ultimately show ?thesis using c n by (simp add: pending_def)
  qed
qed

lemma pending_split:
  assumes "finite (dom e)" "e v = Some g"
  shows "pending e = pending (e(v := None)) + (if m_dismiss g then {#} else {#m_func g#})"
proof -
  have "e(v := Some g) = e" using assms(2) by auto
  then show ?thesis using pending_upd [OF assms(1), of v "Some g"] by simp
qed

text \<open>One statement and the balance of functions.\<close>

lemma guard_step_balance:
  assumes "finite (dom (fst s))" "guard_step c s = Some s'"
  shows "finite (dom (fst s'))"
    and "mset (snd s') + pending (fst s') +
        (case c of GDismiss v \<Rightarrow> (case fst s v of Some g \<Rightarrow> if m_dismiss g then {#} else {#m_func g#} | None \<Rightarrow> {#}) | _ \<Rightarrow> {#}) =
      mset (snd s) + pending (fst s) + made [c]"
proof -
  obtain e out where s: "s = (e, out)" by (cases s)
  have fin: "finite (dom e)" using assms(1) s by simp
  show "finite (dom (fst s'))"
    using assms(2) fin s by (cases c) (auto simp: bind_eq_Some ScopeGuard_move_def split: if_splits)
  show "mset (snd s') + pending (fst s') +
        (case c of GDismiss v \<Rightarrow> (case fst s v of Some g \<Rightarrow> if m_dismiss g then {#} else {#m_func g#} | None \<Rightarrow> {#}) | _ \<Rightarrow> {#}) =
      mset (snd s) + pending (fst s) + made [c]"
  proof (cases c)
    case (GMake v f)
    then have v: "e v = None" and s': "s' = (e(v \<mapsto> MakeGuard f), out)" using assms(2) s by (auto split: if_splits)
    have "e(v := None) = e" using v by auto
    then show ?thesis
      using GMake s s' pending_upd [OF fin, of v "Some (MakeGuard f)"] by (simp add: MakeGuard_def ScopeGuard_new_def)
  next
    case (GMove v w)
    then obtain g where v: "e v = None" "e w = Some g"
      and s': "s' = (e(w \<mapsto> Dismiss g, v \<mapsto> \<lparr>m_func = m_func g, m_dismiss = m_dismiss g\<rparr>), out)"
      using assms(2) s by (auto simp: bind_eq_Some ScopeGuard_move_def split: if_splits)
    have "(e(w \<mapsto> Dismiss g))(v := None) = e(w \<mapsto> Dismiss g)" using v by (auto simp: fun_eq_iff)
    then show ?thesis
      using GMove s s' pending_split [OF fin v(2)] pending_upd [OF fin, of w "Some (Dismiss g)"]
        pending_upd [of "e(w \<mapsto> Dismiss g)" v "Some \<lparr>m_func = m_func g, m_dismiss = m_dismiss g\<rparr>"] fin
      by (simp add: Dismiss_def)
  next
    case (GDismiss v)
    then obtain g where v: "e v = Some g" and s': "s' = (e(v \<mapsto> Dismiss g), out)" using assms(2) s by (auto simp: bind_eq_Some)
    show ?thesis
      using GDismiss s s' v pending_split [OF fin v] pending_upd [OF fin, of v "Some (Dismiss g)"] by (simp add: Dismiss_def)
  next
    case (GEnd v)
    then obtain g where v: "e v = Some g" and s': "s' = (e(v := None), ScopeGuard_destroy g out)" using assms(2) s by (auto simp: bind_eq_Some)
    show ?thesis using GEnd s s' pending_split [OF fin v] by (simp add: ScopeGuard_destroy_def)
  qed
qed

lemma made_Cons: "made (c # cs) = made [c] + made cs"
  by (cases c) auto

lemma guard_run_balance:
  "finite (dom (fst s)) \<Longrightarrow> guard_run cs s = Some s' \<Longrightarrow>
    mset (snd s') + pending (fst s') + dismissed cs s = mset (snd s) + pending (fst s) + made cs"
proof (induction cs arbitrary: s)
  case (Cons c cs)
  obtain t where t: "guard_step c s = Some t" "guard_run cs t = Some s'" using Cons.prems(2) by (auto simp: bind_eq_Some)
  note b = guard_step_balance [OF Cons.prems(1) t(1)]
  let ?d = "case c of GDismiss v \<Rightarrow> (case fst s v of Some g \<Rightarrow> if m_dismiss g then {#} else {#m_func g#} | None \<Rightarrow> {#}) | _ \<Rightarrow> {#}"
  have "mset (snd s') + pending (fst s') + dismissed (c # cs) s = (mset (snd s') + pending (fst s') + dismissed cs t) + ?d"
    using t(1) by (simp only: dismissed.simps option.case ac_simps)
  also have "\<dots> = (mset (snd t) + pending (fst t) + ?d) + made cs"
    unfolding Cons.IH [OF b(1) t(2)] by (simp only: ac_simps)
  also have "\<dots> = mset (snd s) + pending (fst s) + made (c # cs)"
    unfolding b(2) by (simp only: made_Cons [of c cs] ac_simps)
  finally show ?case .
qed simp

section \<open>The chain of handlers\<close>

datatype handler_kind = Director | Manager | Boss

record handler =
  kind :: handler_kind
  m_pNextHandler :: "nat option"

datatype answer = DirectorAgrees | ManagerAgrees | BossAgrees | BossRefuses

type_synonym handlers = "nat \<Rightarrow> handler option"

definition SetNextHandler :: "nat \<Rightarrow> nat option \<Rightarrow> handlers \<Rightarrow> handlers ub" where
  "SetNextHandler this successor H = do { h \<leftarrow> H this; Some (H(this \<mapsto> h\<lparr>m_pNextHandler := successor\<rparr>)) }"

text \<open>The virtual call: each class tests its own limit; a cycle of handlers would never answer.\<close>

partial_function (option) HandleRequest :: "handlers \<Rightarrow> nat option \<Rightarrow> int \<Rightarrow> answer ub" where
  "HandleRequest H p days = do {
     this \<leftarrow> p;
     h \<leftarrow> H this;
     case kind h of
       Director \<Rightarrow> if days \<le> 1 then Some DirectorAgrees else HandleRequest H (m_pNextHandler h) days
     | Manager \<Rightarrow> if days \<le> 3 then Some ManagerAgrees else HandleRequest H (m_pNextHandler h) days
     | Boss \<Rightarrow> if days \<le> 7 then Some BossAgrees else Some BossRefuses
   }"

definition handler_chain :: "handlers ub" where
  "handler_chain = do {
     let H = (\<lambda>_. None)(0 \<mapsto> \<lparr>kind = Director, m_pNextHandler = None\<rparr>, 1 \<mapsto> \<lparr>kind = Manager, m_pNextHandler = None\<rparr>,
       2 \<mapsto> \<lparr>kind = Boss, m_pNextHandler = None\<rparr>);
     H \<leftarrow> SetNextHandler 0 (Some 1) H;
     SetNextHandler 1 (Some 2) H
   }"

text \<open>A ring of handlers none of which is the boss.\<close>

definition bossless :: "handlers \<Rightarrow> nat set \<Rightarrow> bool" where
  "bossless H R \<longleftrightarrow> (\<forall>a \<in> R. \<exists>h. H a = Some h \<and> kind h \<noteq> Boss \<and> (\<exists>b \<in> R. m_pNextHandler h = Some b))"

lemma bossless_never:
  assumes "HandleRequest H p days = Some r"
  shows "\<not> (3 < days \<and> bossless H R \<and> (\<exists>a \<in> R. p = Some a))"
proof (rule HandleRequest.raw_induct [OF _ assms], goal_cases)
  case (1 f H p days r)
  show ?case
  proof
    assume c: "3 < days \<and> bossless H R \<and> (\<exists>a \<in> R. p = Some a)"
    then obtain a h b where h: "p = Some a" "H a = Some h" "kind h \<noteq> Boss" "b \<in> R" "m_pNextHandler h = Some b"
      unfolding bossless_def by blast
    then have "f H (Some b) days = Some r" using 1(2) c by (cases "kind h") auto
    then show False using 1(1) c h(4) by blast
  qed
qed

section \<open>Properties\<close>

text \<open>
  Whatever a program does with guards (making, moving, dismissing and ending them in any order), the functions that
  ran, those still pending and those dismissed are together exactly the functions that were put under guard: when all guards have ended, each has run
  once or was dismissed. The program's guard is a temporary, so that its function runs before the work and not after.
\<close>

theorem guards_run_once:
  assumes "guard_run cs (\<lambda>_. None, []) = Some (e, out)"
  shows "mset out + pending e + dismissed cs (\<lambda>_. None, []) = made cs \<and>
    (dom e = {} \<longrightarrow> mset out + dismissed cs (\<lambda>_. None, []) = made cs) \<and>
    guard_main = [StartWork, ReleaseData, EndWork]"
proof -
  have p: "pending (\<lambda>_. None) = {#}" by (simp add: pending_def)
  have b: "mset out + pending e + dismissed cs (\<lambda>_. None, []) = made cs"
    using guard_run_balance [OF _ assms] by (simp add: p)
  moreover have "pending e = {#}" if "dom e = {}"
  proof -
    have "e = (\<lambda>_. None)" using that by auto
    then show ?thesis using p by (simp only:)
  qed
  then have "dom e = {} \<longrightarrow> mset out + dismissed cs (\<lambda>_. None, []) = made cs" using b by (metis add_0_right)
  ultimately show ?thesis
    by (simp add: guard_main_def ScopeGuard_destroy_def MakeGuard_def ScopeGuard_new_def)
qed

lemma guards_run_once_witness:
  "\<exists>e out. guard_run [GMake 0 7, GMake 1 8, GMove 2 0, GEnd 0, GDismiss 1, GEnd 1, GEnd 2] (\<lambda>_. None, []) = Some (e, out) \<and>
    mset out + {#8::int#} = {#7, 8#}"
proof -
  let ?cs = "[GMake 0 7, GMake 1 (8::int), GMove 2 0, GEnd 0, GDismiss 1, GEnd 1, GEnd 2]"
  have r: "guard_run ?cs (\<lambda>_. None, []) = Some ((\<lambda>_. None)(0 := None, 2 := None, 1 := None), [7])"
    by (simp add: MakeGuard_def ScopeGuard_new_def ScopeGuard_move_def Dismiss_def ScopeGuard_destroy_def fun_eq_iff)
  have "dismissed ?cs (\<lambda>_. None, []) = {#8#}"
    by (simp add: MakeGuard_def ScopeGuard_new_def ScopeGuard_move_def Dismiss_def ScopeGuard_destroy_def)
  then show ?thesis using guards_run_once [OF r] r by simp
qed

text \<open>
  In the program's chain a request is answered by the first handler whose limit allows it, and by the boss otherwise. A handler without
  successor is undefined for what it cannot decide itself, and in a ring of handlers without the boss no request of more than three days is ever answered.
\<close>

theorem handler_chain_answers:
  "(\<exists>H. handler_chain = Some H \<and> HandleRequest H (Some 0) days =
      Some (if days \<le> 1 then DirectorAgrees else if days \<le> 3 then ManagerAgrees else if days \<le> 7 then BossAgrees else BossRefuses)) \<and>
   (H 0 = Some \<lparr>kind = Director, m_pNextHandler = None\<rparr> \<and> 1 < days \<longrightarrow> HandleRequest H (Some 0) days = None) \<and>
   (bossless H R \<and> a \<in> R \<and> 3 < days \<longrightarrow> HandleRequest H (Some a) days = None)"
proof (intro conjI impI)
  show "\<exists>H. handler_chain = Some H \<and> HandleRequest H (Some 0) days =
      Some (if days \<le> 1 then DirectorAgrees else if days \<le> 3 then ManagerAgrees else if days \<le> 7 then BossAgrees else BossRefuses)"
    by (simp add: handler_chain_def SetNextHandler_def HandleRequest.simps Let_def)
next
  assume "H 0 = Some \<lparr>kind = Director, m_pNextHandler = None\<rparr> \<and> 1 < days"
  then show "HandleRequest H (Some 0) days = None" by (simp add: HandleRequest.simps)
next
  assume "bossless H R \<and> a \<in> R \<and> 3 < days"
  then show "HandleRequest H (Some a) days = None" using bossless_never [of H "Some a" days] by (metis not_Some_eq)
qed

lemma handler_chain_answers_witness:
  "HandleRequest ((\<lambda>_. None)(0 \<mapsto> \<lparr>kind = Director, m_pNextHandler = Some 0\<rparr>)) (Some 0) 5 = None"
  using handler_chain_answers [of 5 "(\<lambda>_. None)(0 \<mapsto> \<lparr>kind = Director, m_pNextHandler = Some 0\<rparr>)" "{0}" 0] by (simp add: bossless_def)

end
