(* ===== verification/TimeCacheRwTest.thy ===== *)
theory TimeCacheRwTest
  imports TimeCacheRw
begin

text \<open>
  The test program of \<^verbatim>\<open>cpp/cpp_language/old/gettimeofday/rwlock_time_cache.cpp\<close>: its conversions of times to 64-bit
  nanoseconds and back, the three endless monitor loops, each as its body over one round, and the comparison of cached and system time. It
  differs from the program of \<open>TimeCache\<close> in its tolerance (100 ms), its thresholds and in what the cached functions do with errors.
  The macros \<^verbatim>\<open>timercmp\<close> and \<^verbatim>\<open>timersub\<close> are those of \<open>TimeCache\<close>.
\<close>

section \<open>Conversions\<close>

definition rw_timeval_to_uint64 :: "timeval \<Rightarrow> uint64" where
  "rw_timeval_to_uint64 tv = word_of_int (tv_sec tv) * 1000000000 + word_of_int (tv_usec tv) * 1000"

definition rw_timespec_to_uint64 :: "timespec \<Rightarrow> uint64" where
  "rw_timespec_to_uint64 tp = word_of_int (ts_sec tp) * 1000000000 + word_of_int (ts_nsec tp)"

definition rw_uint64_to_timespec :: "uint64 \<Rightarrow> timespec" where
  "rw_uint64_to_timespec t = \<lparr>ts_sec = uint (t div 1000000000), ts_nsec = uint (t mod 1000000000)\<rparr>"

definition rw_uint64_to_timeval :: "uint64 \<Rightarrow> timeval" where
  "rw_uint64_to_timeval t = \<lparr>tv_sec = uint (t div 1000000000), tv_usec = uint ((t mod 1000000000) div 1000)\<rparr>"

definition rw_uint64_to_time_t :: "uint64 \<Rightarrow> int" where
  "rw_uint64_to_time_t t = uint (t div 1000000000)"

section \<open>The monitors\<close>

definition rw_tolerance :: int where
  "rw_tolerance = 100000 * 1000"

text \<open>One round with its warning, the periodic line, and the counters, for each of the three functions.\<close>

definition rw_monitor_round :: "uint64 \<Rightarrow> uint64 \<Rightarrow> monitor \<Rightarrow> bool \<times> bool \<times> monitor" where
  "rw_monitor_round cur sys_cur m =
     (let sys_diff_time = sint (cur - sys_cur);
          warn = (cur < prev_time m \<or> \<bar>sys_diff_time\<bar> \<ge> rw_tolerance);
          n = cnt64 m + 1
      in (warn, n mod 1000000000 = 0, \<lparr>prev_time = cur, prev_cnt = cnt64 m, cnt64 = n\<rparr>))"

definition rw_test_cached_time :: "rw_thread \<Rightarrow> int \<Rightarrow> monitor \<Rightarrow> bool \<times> bool \<times> monitor" where
  "rw_test_cached_time c sys_time m =
     rw_monitor_round (ucast (fst (rw_api_time True (\<lambda>p. (sys_time, p)) (Some 0) c))) (word_of_int sys_time) m"

definition rw_test_cached_gettimeofday ::
    "rw_thread \<Rightarrow> int \<times> timeval \<Rightarrow> monitor \<Rightarrow> (bool \<times> bool \<times> monitor) option ub" where
  "rw_test_cached_gettimeofday c sys_now m =
     (if fst sys_now \<noteq> 0 then Some None
      else do {
        let sys_cur_time = rw_timeval_to_uint64 (snd sys_now);
        (ret, tv) \<leftarrow> rw_api_gettimeofday True (\<lambda>_. Some sys_now) (Some (snd sys_now)) c;
        Some (if ret \<noteq> 0 then None else Some (rw_monitor_round (rw_timeval_to_uint64 tv) sys_cur_time m))
      })"

definition rw_test_cached_clock_gettime ::
    "rw_thread \<Rightarrow> int \<times> timespec \<Rightarrow> monitor \<Rightarrow> (bool \<times> bool \<times> monitor) option ub" where
  "rw_test_cached_clock_gettime c sys_now m =
     (if fst sys_now \<noteq> 0 then Some None
      else do {
        let sys_cur_time = rw_timespec_to_uint64 (snd sys_now);
        (ret, ts) \<leftarrow> rw_api_clock_gettime True (\<lambda>_ _. sys_now) CLOCK_REALTIME (Some (snd sys_now)) c;
        Some (if ret \<noteq> 0 then None else Some (rw_monitor_round (rw_timespec_to_uint64 ts) sys_cur_time m))
      })"

text \<open>The warnings of a run in which the system calls succeed: the members of the cache and the system's time in each round.\<close>

fun rw_watch :: "(rw_thread \<times> timespec) list \<Rightarrow> monitor \<Rightarrow> bool list ub" where
  "rw_watch [] m = Some []"
| "rw_watch ((c, now) # rounds) m = do {
     r \<leftarrow> rw_test_cached_clock_gettime c (0, now) m;
     (warn, line, m) \<leftarrow> r;
     ws \<leftarrow> rw_watch rounds m;
     Some (warn # ws)
   }"

section \<open>The comparison\<close>

record rw_diffs =
  rw_max :: int
  rw_diff :: int
  nr_diff_p1 :: nat
  nr_diff_p2 :: nat
  nr_diff_p3 :: nat

definition rw_compare_round :: "timeval \<times> timeval \<Rightarrow> rw_diffs \<Rightarrow> rw_diffs" where
  "rw_compare_round ts st =
     (let (t1, t2) = ts;
          t3 = (if timer_gt t1 t2 then timersub t1 t2 else timersub t2 t1);
          u = tv_usec t3
      in \<lparr>rw_max = (if rw_max st < u then u else rw_max st),
          rw_diff = rw_diff st + u,
          nr_diff_p1 = (if u > 12 * 100 then nr_diff_p1 st + 1 else nr_diff_p1 st),
          nr_diff_p2 = (if u > 15 * 100 then nr_diff_p2 st + 1 else nr_diff_p2 st),
          nr_diff_p3 = (if u > 20 * 100 then nr_diff_p3 st + 1 else nr_diff_p3 st)\<rparr>)"

definition rw_compare_time_diff :: "(timeval \<times> timeval) list \<Rightarrow> rw_diffs" where
  "rw_compare_time_diff samples =
     fold rw_compare_round samples \<lparr>rw_max = 0, rw_diff = 0, nr_diff_p1 = 0, nr_diff_p2 = 0, nr_diff_p3 = 0\<rparr>"

section \<open>Properties\<close>

lemma rw_conversions:
  "rw_timeval_to_uint64 = transform_timeval" "rw_timespec_to_uint64 = transform_timespec"
  "rw_uint64_to_timespec = to_timespec" "rw_uint64_to_timeval = to_timeval"
  by (simp_all add: fun_eq_iff rw_timeval_to_uint64_def transform_timeval_def rw_timespec_to_uint64_def transform_timespec_def
      rw_uint64_to_timespec_def to_timespec_def rw_uint64_to_timeval_def to_timeval_def)

lemma rw_monitor_warn:
  assumes "0 \<le> a" "a < 2 ^ 63" "0 \<le> b" "b < 2 ^ 63"
  shows "fst (rw_monitor_round (word_of_int a) (word_of_int b) m) \<longleftrightarrow> a < uint (prev_time m) \<or> \<bar>a - b\<bar> \<ge> 100000000"
proof -
  have "sint (word_of_int a - word_of_int b :: uint64) = a - b" using sint_small [of "a - b"] assms by simp
  moreover have "uint (word_of_int a :: uint64) = a" using assms by (simp add: uint_word_of_int)
  ultimately show ?thesis by (simp add: rw_monitor_round_def rw_tolerance_def Let_def word_less_def)
qed

definition sane_ts :: "timespec \<Rightarrow> bool" where
  "sane_ts t \<longleftrightarrow> valid_ts t \<and> ns_of t < 2 ^ 63"

lemma rw_watch_step:
  assumes "sane_ts (rw_realtime c)" "sane_ts now"
  shows "\<exists>line m'. rw_test_cached_clock_gettime c (0, now) m =
      Some (Some (ns_of (rw_realtime c) < uint (prev_time m) \<or> \<bar>ns_of (rw_realtime c) - ns_of now\<bar> \<ge> 100000000, line, m')) \<and>
    uint (prev_time m') = ns_of (rw_realtime c)"
proof -
  have e: "transform_timespec t = word_of_int (ns_of t)" for t by (simp add: transform_timespec_def ns_of_def)
  have b: "0 \<le> ns_of (rw_realtime c)" "ns_of (rw_realtime c) < 2 ^ 63" "0 \<le> ns_of now" "ns_of now < 2 ^ 63"
    using assms by (simp_all add: sane_ts_def valid_ts_def ns_of_def)
  obtain w line m' where r: "rw_monitor_round (word_of_int (ns_of (rw_realtime c))) (word_of_int (ns_of now)) m = (w, line, m')"
    by (metis prod_cases3)
  have "w \<longleftrightarrow> ns_of (rw_realtime c) < uint (prev_time m) \<or> \<bar>ns_of (rw_realtime c) - ns_of now\<bar> \<ge> 100000000"
    using rw_monitor_warn [OF b, of m] r by simp
  moreover have "prev_time m' = word_of_int (ns_of (rw_realtime c))" using r by (auto simp: rw_monitor_round_def Let_def)
  then have "uint (prev_time m') = ns_of (rw_realtime c)" using b by (simp add: uint_word_of_int)
  ultimately show ?thesis
    using r by (simp add: rw_test_cached_clock_gettime_def rw_api_clock_gettime_def rw_cached_clock_gettime_def rw_conversions e Let_def)
qed

lemma rw_watch_run:
  "\<forall>(c, now) \<in> set rounds. sane_ts (rw_realtime c) \<and> sane_ts now \<Longrightarrow>
   \<exists>ws. rw_watch rounds m = Some ws \<and> length ws = length rounds \<and>
     (\<forall>i < length rounds. ws ! i \<longleftrightarrow>
        ns_of (rw_realtime (fst (rounds ! i))) < (if i = 0 then uint (prev_time m) else ns_of (rw_realtime (fst (rounds ! (i - 1))))) \<or>
        \<bar>ns_of (rw_realtime (fst (rounds ! i))) - ns_of (snd (rounds ! i))\<bar> \<ge> 100000000)"
proof (induction rounds arbitrary: m)
  case (Cons r rounds)
  obtain c now where r: "r = (c, now)" by (cases r)
  obtain line m' where s: "rw_test_cached_clock_gettime c (0, now) m =
      Some (Some (ns_of (rw_realtime c) < uint (prev_time m) \<or> \<bar>ns_of (rw_realtime c) - ns_of now\<bar> \<ge> 100000000, line, m'))"
    "uint (prev_time m') = ns_of (rw_realtime c)"
    using rw_watch_step [of c now m] Cons.prems r by auto
  obtain ws where w: "rw_watch rounds m' = Some ws" "length ws = length rounds"
    "\<forall>i < length rounds. ws ! i \<longleftrightarrow>
        ns_of (rw_realtime (fst (rounds ! i))) < (if i = 0 then uint (prev_time m') else ns_of (rw_realtime (fst (rounds ! (i - 1))))) \<or>
        \<bar>ns_of (rw_realtime (fst (rounds ! i))) - ns_of (snd (rounds ! i))\<bar> \<ge> 100000000"
    using Cons.IH [of m'] Cons.prems by auto
  let ?w = "ns_of (rw_realtime c) < uint (prev_time m) \<or> \<bar>ns_of (rw_realtime c) - ns_of now\<bar> \<ge> 100000000"
  have "rw_watch (r # rounds) m = Some (?w # ws)" using s(1) w(1) r by simp
  moreover have "(?w # ws) ! i \<longleftrightarrow>
        ns_of (rw_realtime (fst ((r # rounds) ! i))) < (if i = 0 then uint (prev_time m) else ns_of (rw_realtime (fst ((r # rounds) ! (i - 1))))) \<or>
        \<bar>ns_of (rw_realtime (fst ((r # rounds) ! i))) - ns_of (snd ((r # rounds) ! i))\<bar> \<ge> 100000000" if "i < length (r # rounds)" for i
    using w(3) s(2) that r by (cases i; cases "i = 1") (auto simp: nth_Cons split: nat.splits)
  ultimately show ?case using w(2) by (intro exI [of _ "?w # ws"]) simp
qed simp


lemma rw_compare_ok:
  assumes "norm_tv (fst p)" "norm_tv (snd p)"
  shows "rw_compare_round p st = \<lparr>rw_max = max (rw_max st) (distance p), rw_diff = rw_diff st + distance p,
    nr_diff_p1 = nr_diff_p1 st + (if distance p > 1200 then 1 else 0), nr_diff_p2 = nr_diff_p2 st + (if distance p > 1500 then 1 else 0),
    nr_diff_p3 = nr_diff_p3 st + (if distance p > 2000 then 1 else 0)\<rparr>"
proof -
  let ?t = "if timer_gt (fst p) (snd p) then timersub (fst p) (snd p) else timersub (snd p) (fst p)"
  have "norm_tv ?t" "us_of ?t = \<bar>us_of (fst p) - us_of (snd p)\<bar>"
    using timersub_ok assms timer_gt_us [OF assms] by auto
  then have "tv_usec ?t = distance p" using usec_mod by (simp add: distance_def)
  then show ?thesis by (simp add: rw_compare_round_def case_prod_unfold Let_def max_def)
qed

lemma rw_compare_fold:
  "\<forall>p \<in> set ps. norm_tv (fst p) \<and> norm_tv (snd p) \<Longrightarrow>
    rw_max (fold rw_compare_round ps st) = fold (\<lambda>p m. max m (distance p)) ps (rw_max st) \<and>
    rw_diff (fold rw_compare_round ps st) = rw_diff st + sum_list (map distance ps) \<and>
    nr_diff_p1 (fold rw_compare_round ps st) = nr_diff_p1 st + length (filter (\<lambda>p. distance p > 1200) ps) \<and>
    nr_diff_p3 (fold rw_compare_round ps st) = nr_diff_p3 st + length (filter (\<lambda>p. distance p > 2000) ps)"
  by (induction ps arbitrary: st) (auto simp: rw_compare_ok)

text \<open>
  The monitor of \<^verbatim>\<open>clock_gettime\<close> warns in a round exactly when the cached time is before that of the round before or at least 100 ms away from
  the system's; the one of \<^verbatim>\<open>time\<close> compares seconds with the tolerance in nanoseconds and so needs a difference of \<open>10^8\<close> seconds; the
  comparison adds up the distances of two times modulo one second. The conversions to nanoseconds and back lose nothing.
\<close>

theorem rw_monitors_spec:
  assumes r: "\<forall>(c, now) \<in> set rounds. valid_ts (rw_realtime c) \<and> ns_of (rw_realtime c) < 2 ^ 63 \<and> valid_ts now \<and> ns_of now < 2 ^ 63"
    and t: "0 \<le> tv_sec (rw_tv c)" "tv_sec (rw_tv c) < 2 ^ 32" "0 \<le> sys" "sys < 2 ^ 32"
    and p: "\<forall>p \<in> set ps. norm_tv (fst p) \<and> norm_tv (snd p)" and v: "valid_ts ts" "valid_tv tv"
  shows "(\<exists>ws. rw_watch rounds monitor_init = Some ws \<and> length ws = length rounds \<and>
      (\<forall>i < length rounds. ws ! i \<longleftrightarrow>
        0 < i \<and> ns_of (rw_realtime (fst (rounds ! i))) < ns_of (rw_realtime (fst (rounds ! (i - 1)))) \<or>
        \<bar>ns_of (rw_realtime (fst (rounds ! i))) - ns_of (snd (rounds ! i))\<bar> \<ge> 100000000)) \<and>
    (fst (rw_test_cached_time c sys mon) \<longleftrightarrow>
      tv_sec (rw_tv c) < uint (prev_time mon) \<or> \<bar>tv_sec (rw_tv c) - sys\<bar> \<ge> 100000000) \<and>
    rw_diff (rw_compare_time_diff ps) = sum_list (map (\<lambda>p. \<bar>us_of (fst p) - us_of (snd p)\<bar> mod 1000000) ps) \<and>
    nr_diff_p1 (rw_compare_time_diff ps) = length (filter (\<lambda>p. \<bar>us_of (fst p) - us_of (snd p)\<bar> mod 1000000 > 1200) ps) \<and>
    rw_uint64_to_timespec (rw_timespec_to_uint64 ts) = ts \<and> rw_uint64_to_timeval (rw_timeval_to_uint64 tv) = tv"
proof -
  obtain ws where w: "rw_watch rounds monitor_init = Some ws" "length ws = length rounds"
    "\<forall>i < length rounds. ws ! i \<longleftrightarrow>
        ns_of (rw_realtime (fst (rounds ! i))) < (if i = 0 then uint (prev_time monitor_init) else ns_of (rw_realtime (fst (rounds ! (i - 1))))) \<or>
        \<bar>ns_of (rw_realtime (fst (rounds ! i))) - ns_of (snd (rounds ! i))\<bar> \<ge> 100000000"
    using rw_watch_run [of rounds monitor_init] r by (auto simp: sane_ts_def)
  have z: "0 \<le> ns_of (rw_realtime (fst (rounds ! i)))" if "i < length rounds" for i
  proof -
    have "valid_ts (rw_realtime (fst (rounds ! i)))" using r nth_mem [OF that] by (auto simp: case_prod_unfold)
    then show ?thesis by (simp add: valid_ts_def ns_of_def)
  qed
  have "ws ! i \<longleftrightarrow> 0 < i \<and> ns_of (rw_realtime (fst (rounds ! i))) < ns_of (rw_realtime (fst (rounds ! (i - 1)))) \<or>
        \<bar>ns_of (rw_realtime (fst (rounds ! i))) - ns_of (snd (rounds ! i))\<bar> \<ge> 100000000" if "i < length rounds" for i
    using w(3) z [OF that] that by (cases "i = 0") (simp_all add: monitor_init_def)
  moreover have "fst (rw_test_cached_time c sys mon) \<longleftrightarrow>
      tv_sec (rw_tv c) < uint (prev_time mon) \<or> \<bar>tv_sec (rw_tv c) - sys\<bar> \<ge> 100000000"
  proof -
    have "ucast (word_of_int (tv_sec (rw_tv c)) :: 32 word) = (word_of_int (tv_sec (rw_tv c)) :: uint64)"
      using t(1,2) by (intro word_uint_eqI) (simp add: uint_word_of_int unsigned_ucast_eq take_bit_eq_mod)
    then show ?thesis
      using rw_monitor_warn [of "tv_sec (rw_tv c)" sys mon] t by (simp add: rw_test_cached_time_def rw_api_time_def rw_cached_time_def Let_def)
  qed
  ultimately show ?thesis
    using w(1,2) rw_compare_fold [OF p] tspec.decode_encode [OF v(1)] tval.decode_encode [OF v(2)]
    by (simp add: rw_compare_time_diff_def distance_def [abs_def] rw_conversions)
qed

lemma rw_monitors_spec_witness:
  "\<exists>ws. rw_watch [(\<lparr>rw_tv = \<lparr>tv_sec = 5, tv_usec = 0\<rparr>, rw_monotonic = \<lparr>ts_sec = 5, ts_nsec = 0\<rparr>, rw_realtime = \<lparr>ts_sec = 5, ts_nsec = 0\<rparr>,
      update_time_cnt = 1\<rparr>, \<lparr>ts_sec = 6, ts_nsec = 0\<rparr>)] monitor_init = Some ws \<and> ws ! 0"
  using rw_monitors_spec [of "[(\<lparr>rw_tv = \<lparr>tv_sec = 5, tv_usec = 0\<rparr>, rw_monotonic = \<lparr>ts_sec = 5, ts_nsec = 0\<rparr>, rw_realtime = \<lparr>ts_sec = 5, ts_nsec = 0\<rparr>,
      update_time_cnt = 1\<rparr>, \<lparr>ts_sec = 6, ts_nsec = 0\<rparr>)]"
      "\<lparr>rw_tv = \<lparr>tv_sec = 5, tv_usec = 0\<rparr>, rw_monotonic = \<lparr>ts_sec = 5, ts_nsec = 0\<rparr>, rw_realtime = \<lparr>ts_sec = 5, ts_nsec = 0\<rparr>,
      update_time_cnt = 1\<rparr>" 5 "[]" "\<lparr>ts_sec = 5, ts_nsec = 0\<rparr>" "\<lparr>tv_sec = 5, tv_usec = 0\<rparr>"]
  by (auto simp: valid_ts_def ns_of_def valid_tv_def tv_ns_of_def)

end
