(* ===== verification/Singletons.thy ===== *)
theory Singletons
  imports Main
begin

text \<open>
  The singletons of \<^verbatim>\<open>cpp/design_pattern\<close>. First one thread alone: the class template of
  \<^verbatim>\<open>Singleton_safe.cpp\<close>, whose instance is made from the arguments of the first call, and the lazy and
  eager classes without data. Then several threads: the unlocked lazy class of \<^verbatim>\<open>singelton.cpp\<close>, and the
  doubly checked, locked one of \<^verbatim>\<open>singelton_safe.cpp\<close> and \<^verbatim>\<open>singleton_lazy_safty.cpp\<close>, with
  \<^verbatim>\<open>deleteInstance\<close> and allocations that fail. A step is one access to the static pointer, an action of
  the lock, or one allocation; an action names its thread, so that a schedule is a list of actions. The
  pointer is not atomic in the source: the steps are what a machine with atomic words does, while C++ leaves
  the race undefined.
\<close>

section \<open>One thread\<close>

record 'a singleton =
  m_instance :: "nat option"
  sg_heap :: "nat \<rightharpoonup> 'a"
  sg_next :: nat

definition singleton_new :: "'a singleton" where
  "singleton_new = \<lparr>m_instance = None, sg_heap = Map.empty, sg_next = 0\<rparr>"

definition sg_GetInstance :: "'a \<Rightarrow> 'a singleton \<Rightarrow> nat \<times> 'a singleton" where
  "sg_GetInstance args s =
     (let s1 = (if m_instance s = None
                then s\<lparr>sg_heap := (sg_heap s)(sg_next s \<mapsto> args), m_instance := Some (sg_next s), sg_next := sg_next s + 1\<rparr>
                else s)
      in (the (m_instance s1), s1))"

definition sg_DestroyInstance :: "'a singleton \<Rightarrow> 'a singleton" where
  "sg_DestroyInstance s =
     (let s1 = (case m_instance s of None \<Rightarrow> s | Some p \<Rightarrow> s\<lparr>sg_heap := (sg_heap s)(p := None)\<rparr>)
      in s1\<lparr>m_instance := None\<rparr>)"

datatype 'a sg_call = Get 'a | Destroy

text \<open>The values read through the pointers that the calls return; no value for a call that returns none.\<close>

fun sg_calls :: "'a sg_call list \<Rightarrow> 'a singleton \<Rightarrow> 'a option list \<times> 'a singleton" where
  "sg_calls [] s = ([], s)"
| "sg_calls (Get x # cs) s =
     (let (p, s1) = sg_GetInstance x s; (vs, s2) = sg_calls cs s1 in (sg_heap s1 p # vs, s2))"
| "sg_calls (Destroy # cs) s =
     (let (vs, s2) = sg_calls cs (sg_DestroyInstance s) in (None # vs, s2))"

text \<open>What the template promises: one optional value.\<close>

fun sg_spec :: "'a sg_call list \<Rightarrow> 'a option \<Rightarrow> 'a option list \<times> 'a option" where
  "sg_spec [] v = ([], v)"
| "sg_spec (Get x # cs) v =
     (let w = (case v of None \<Rightarrow> x | Some y \<Rightarrow> y); (vs, u) = sg_spec cs (Some w) in (Some w # vs, u))"
| "sg_spec (Destroy # cs) v = (let (vs, u) = sg_spec cs None in (None # vs, u))"

definition sg_inv :: "'a option \<Rightarrow> 'a singleton \<Rightarrow> bool" where
  "sg_inv v s \<longleftrightarrow> (case m_instance s of
       None \<Rightarrow> v = None \<and> sg_heap s = Map.empty
     | Some p \<Rightarrow> p < sg_next s \<and> v \<noteq> None \<and> sg_heap s = [p \<mapsto> the v])"

lemma sg_inv_Get:
  assumes "sg_inv v s" and "w = (case v of None \<Rightarrow> x | Some y \<Rightarrow> y)"
  shows "sg_inv (Some w) (snd (sg_GetInstance x s))"
    and "sg_heap (snd (sg_GetInstance x s)) (fst (sg_GetInstance x s)) = Some w"
  using assms by (auto simp: sg_inv_def sg_GetInstance_def Let_def split: option.splits)

lemma sg_inv_Destroy: "sg_inv v s \<Longrightarrow> sg_inv None (sg_DestroyInstance s)"
  by (auto simp: sg_inv_def sg_DestroyInstance_def split: option.splits)

lemma sg_calls_spec:
  "sg_inv v s \<Longrightarrow> fst (sg_calls cs s) = fst (sg_spec cs v) \<and> sg_inv (snd (sg_spec cs v)) (snd (sg_calls cs s))"
proof (induction cs arbitrary: v s)
  case (Cons c cs)
  show ?case
  proof (cases c)
    case (Get x)
    let ?w = "case v of None \<Rightarrow> x | Some y \<Rightarrow> y"
    show ?thesis
      using Cons.IH[OF sg_inv_Get(1)[OF Cons.prems refl]] sg_inv_Get(2)[OF Cons.prems refl, of x]
      by (simp add: Get split_def Let_def)
  next
    case Destroy
    show ?thesis
      using Cons.IH[OF sg_inv_Destroy[OF Cons.prems]] by (simp add: Destroy split_def Let_def)
  qed
qed simp

lemma sg_calls_start: "fst (sg_calls cs singleton_new) = fst (sg_spec cs None)"
  using sg_calls_spec[of None singleton_new cs] by (simp add: sg_inv_def singleton_new_def)

text \<open>
  The template refines one optional value: in every sequence of calls, the pointer that a call returns points to an object
  made from the arguments of the first call since the start or the last \<^verbatim>\<open>DestroyInstance\<close>, later arguments are
  ignored, and exactly the current instance is on the heap.
\<close>
theorem singleton_refines:
  "fst (sg_calls cs singleton_new) = fst (sg_spec cs None) \<and>
   ran (sg_heap (snd (sg_calls cs singleton_new))) = set_option (snd (sg_spec cs None)) \<and>
   dom (sg_heap (snd (sg_calls cs singleton_new))) = set_option (m_instance (snd (sg_calls cs singleton_new)))"
proof -
  have "sg_inv None singleton_new" by (simp add: sg_inv_def singleton_new_def)
  from sg_calls_spec[OF this, of cs] show ?thesis
    by (auto simp: sg_inv_def split: option.splits)
qed

definition singleton_main :: "int option list \<times> string option list \<times> (int \<times> int) option list" where
  "singleton_main = (fst (sg_calls [Get 5, Get 10] singleton_new),
                     fst (sg_calls [Get ''aa'', Get ''bb''] singleton_new),
                     fst (sg_calls [Get (1, 2), Get (4, 5)] singleton_new))"

lemma singleton_main_output:
  "singleton_main = ([Some 5, Some 5], [Some ''aa'', Some ''aa''], [Some (1, 2), Some (1, 2)])"
  by (simp add: singleton_main_def sg_calls_start Let_def del: sg_calls.simps)

text \<open>
  The classes without data: \<^verbatim>\<open>Singleton.cpp\<close>, \<^verbatim>\<open>Singleton_lazy.cpp\<close>, \<^verbatim>\<open>Singleton_hungry.cpp\<close>
  and \<^verbatim>\<open>singelton.cpp\<close>. The constructor may print a line; an eager instance is made before \<^verbatim>\<open>main\<close>.
\<close>

definition lazy_getInstance :: "string list \<Rightarrow> unit singleton \<times> string list \<Rightarrow> nat \<times> unit singleton \<times> string list" where
  "lazy_getInstance ctor so =
     (let (p, s) = sg_GetInstance () (fst so)
      in (p, s, snd so @ (if m_instance (fst so) = None then ctor else [])))"

definition hungry_start :: "string list \<Rightarrow> unit singleton \<times> string list" where
  "hungry_start ctor = (snd (sg_GetInstance () singleton_new), ctor)"

definition hungry_getInstance :: "unit singleton \<times> string list \<Rightarrow> nat option" where
  "hungry_getInstance so = m_instance (fst so)"

definition Singleton_lazy_main :: "string list" where
  "Singleton_lazy_main =
     (let (test1, so1) = lazy_getInstance [''Create a Singleton''] (singleton_new, [''Enter main'']);
          (test2, so2) = lazy_getInstance [''Create a Singleton''] so1
      in snd so2 @ [if test1 = test2 then ''This is a real Singleton!'' else ''Fake Singleton?'', ''End''])"

text \<open>The result is None when the assertion fails.\<close>

definition Singleton_hungry_main :: "string list option" where
  "Singleton_hungry_main =
     (let so = hungry_start [''Singleton begin ~''];
          out = snd so @ [''Enter main'']
      in if hungry_getInstance so = hungry_getInstance so then Some (out @ [''End'']) else None)"

definition Singleton_main :: "string list" where
  "Singleton_main =
     (let (_, so1) = lazy_getInstance [''Singleton....''] (singleton_new, []);
          (_, so2) = lazy_getInstance [''Singleton....''] so1
      in snd so2 @ [''===''])"

text \<open>The four addresses that \<^verbatim>\<open>main34\<close> prints: two of the lazy class, two of the eager one.\<close>

definition main34 :: "(nat \<times> nat) \<times> (nat option \<times> nat option)" where
  "main34 =
     (let (lazy_1, so1) = lazy_getInstance [] (singleton_new, []); (lazy_2, _) = lazy_getInstance [] so1;
          h = hungry_start []
      in ((lazy_1, lazy_2), (hungry_getInstance h, hungry_getInstance h)))"

lemma lazy_twice:
  "lazy_getInstance ctor (snd (lazy_getInstance ctor so)) =
     (fst (lazy_getInstance ctor so), snd (lazy_getInstance ctor so))"
  by (cases so) (auto simp: lazy_getInstance_def sg_GetInstance_def Let_def)

lemma singleton_mains:
  "Singleton_lazy_main = [''Enter main'', ''Create a Singleton'', ''This is a real Singleton!'', ''End'']"
  "Singleton_hungry_main = Some [''Singleton begin ~'', ''Enter main'', ''End'']"
  "Singleton_main = [''Singleton....'', ''==='']"
  "fst (fst main34) = snd (fst main34)" "fst (snd main34) = snd (snd main34)" "fst (snd main34) \<noteq> None"
  by (simp_all add: Singleton_lazy_main_def Singleton_hungry_main_def Singleton_main_def main34_def lazy_getInstance_def
      sg_GetInstance_def singleton_new_def hungry_start_def hungry_getInstance_def)


section \<open>The unlocked lazy class, several threads\<close>

text \<open>A thread tests the pointer, makes the instance if it saw none, and reads the pointer again to return it.\<close>

datatype lz_pc = LTest | LNew | LReturn | LDone nat

record lazy_threads =
  lz_single :: "nat option"
  lz_made :: nat
  lz_pc :: "nat \<Rightarrow> lz_pc"

definition lazy_start :: lazy_threads where
  "lazy_start = \<lparr>lz_single = None, lz_made = 0, lz_pc = (\<lambda>_. LTest)\<rparr>"

definition lz_step :: "nat \<Rightarrow> lazy_threads \<Rightarrow> lazy_threads" where
  "lz_step t s = (case lz_pc s t of
       LTest \<Rightarrow> s\<lparr>lz_pc := (lz_pc s)(t := (if lz_single s = None then LNew else LReturn))\<rparr>
     | LNew \<Rightarrow> s\<lparr>lz_single := Some (lz_made s), lz_made := lz_made s + 1, lz_pc := (lz_pc s)(t := LReturn)\<rparr>
     | LReturn \<Rightarrow> s\<lparr>lz_pc := (lz_pc s)(t := LDone (the (lz_single s)))\<rparr>
     | LDone p \<Rightarrow> s)"

definition lz_run :: "nat list \<Rightarrow> lazy_threads" where
  "lz_run ts = fold lz_step ts lazy_start"

definition lz_inv :: "lazy_threads \<Rightarrow> bool" where
  "lz_inv s \<longleftrightarrow> (\<forall>t. case lz_pc s t of LTest \<Rightarrow> True | LNew \<Rightarrow> True | LReturn \<Rightarrow> lz_single s \<noteq> None | LDone p \<Rightarrow> p < lz_made s)
     \<and> (lz_single s = None \<longleftrightarrow> lz_made s = 0) \<and> (\<forall>p. lz_single s = Some p \<longrightarrow> p + 1 = lz_made s)"

lemma lz_inv_step: "lz_inv s \<Longrightarrow> lz_inv (lz_step t s)"
  unfolding lz_inv_def lz_step_def
  by (cases "lz_pc s t"; (auto split: lz_pc.splits if_splits; fastforce)?)

lemma lz_inv_run: "lz_inv (lz_run ts)"
proof -
  have "lz_inv s \<Longrightarrow> lz_inv (fold lz_step ts s)" for s
    by (induction ts arbitrary: s) (auto intro: lz_inv_step)
  moreover have "lz_inv lazy_start" by (simp add: lz_inv_def lazy_start_def)
  ultimately show ?thesis by (simp add: lz_run_def)
qed

text \<open>Pointers returned are never null, but two threads may get different instances.\<close>

lemma lazy_threads_differ:
  "lz_pc (lz_run ts) t = LDone p \<Longrightarrow> p < lz_made (lz_run ts)"
  "lz_pc (lz_run [0, 1, 0, 0, 1, 1]) 0 = LDone 0 \<and> lz_pc (lz_run [0, 1, 0, 0, 1, 1]) 1 = LDone 1
     \<and> lz_made (lz_run [0, 1, 0, 0, 1, 1]) = 2"
  using lz_inv_run[of ts] by (auto simp: lz_inv_def lz_run_def lz_step_def lazy_start_def split: lz_pc.splits)

section \<open>The doubly checked, locked class, several threads\<close>

datatype si_pc =
    SIdle | SLock | SCheck | SNew | SUnlock | SRef
  | DLock | DCheck | DDelete | DNull | DUnlock

datatype si_act =
    GetInstance | GetLock | GetCheck | New | NewFails | GetUnlock | Print
  | deleteInstance | DelLock | DelCheck | Delete | SetNull | DelUnlock

record si_state =
  m_SingleInstance :: "nat option"
  m_Mutex :: "nat option"
  si_live :: "nat set"
  si_made :: nat
  si_at :: "nat \<Rightarrow> si_pc"
  si_printed :: "nat option list"

definition si_start :: si_state where
  "si_start = \<lparr>m_SingleInstance = None, m_Mutex = None, si_live = {}, si_made = 0, si_at = (\<lambda>_. SIdle), si_printed = []\<rparr>"

abbreviation si_goto :: "nat \<Rightarrow> si_pc \<Rightarrow> si_state \<Rightarrow> si_state" where
  "si_goto t pc s \<equiv> s\<lparr>si_at := (si_at s)(t := pc)\<rparr>"

text \<open>
  One step; an action that is not possible changes nothing. \<^verbatim>\<open>GetInstance\<close> returns a reference to the
  pointer, which \<^verbatim>\<open>Print\<close> reads later: it prints what it finds, None for a null pointer.
\<close>

fun si_step :: "si_act \<Rightarrow> nat \<Rightarrow> si_state \<Rightarrow> si_state" where
  "si_step GetInstance t s =
     (if si_at s t = SIdle then si_goto t (if m_SingleInstance s = None then SLock else SRef) s else s)"
| "si_step GetLock t s =
     (if si_at s t = SLock \<and> m_Mutex s = None then (si_goto t SCheck s)\<lparr>m_Mutex := Some t\<rparr> else s)"
| "si_step GetCheck t s =
     (if si_at s t = SCheck then si_goto t (if m_SingleInstance s = None then SNew else SUnlock) s else s)"
| "si_step New t s =
     (if si_at s t = SNew
      then (si_goto t SUnlock s)\<lparr>m_SingleInstance := Some (si_made s), si_live := insert (si_made s) (si_live s), si_made := si_made s + 1\<rparr>
      else s)"
| "si_step NewFails t s = (if si_at s t = SNew then si_goto t SUnlock s else s)"
| "si_step GetUnlock t s = (if si_at s t = SUnlock then (si_goto t SRef s)\<lparr>m_Mutex := None\<rparr> else s)"
| "si_step Print t s =
     (if si_at s t = SRef then (si_goto t SIdle s)\<lparr>si_printed := si_printed s @ [m_SingleInstance s]\<rparr> else s)"
| "si_step deleteInstance t s = (if si_at s t = SIdle then si_goto t DLock s else s)"
| "si_step DelLock t s =
     (if si_at s t = DLock \<and> m_Mutex s = None then (si_goto t DCheck s)\<lparr>m_Mutex := Some t\<rparr> else s)"
| "si_step DelCheck t s =
     (if si_at s t = DCheck then si_goto t (if m_SingleInstance s = None then DUnlock else DDelete) s else s)"
| "si_step Delete t s =
     (if si_at s t = DDelete then (si_goto t DNull s)\<lparr>si_live := si_live s - set_option (m_SingleInstance s)\<rparr> else s)"
| "si_step SetNull t s = (if si_at s t = DNull then (si_goto t DUnlock s)\<lparr>m_SingleInstance := None\<rparr> else s)"
| "si_step DelUnlock t s = (if si_at s t = DUnlock then (si_goto t SIdle s)\<lparr>m_Mutex := None\<rparr> else s)"

definition si_run :: "(si_act \<times> nat) list \<Rightarrow> si_state" where
  "si_run as = fold (\<lambda>(a, t). si_step a t) as si_start"

definition si_locked :: "si_pc set" where
  "si_locked = {SCheck, SNew, SUnlock, DCheck, DDelete, DNull, DUnlock}"

text \<open>What holds of the data depends on where the owner of the mutex is.\<close>

definition si_data :: "si_pc \<Rightarrow> si_state \<Rightarrow> bool" where
  "si_data pc s \<longleftrightarrow> (pc = SNew \<longrightarrow> m_SingleInstance s = None) \<and> (pc = DDelete \<or> pc = DNull \<longrightarrow> m_SingleInstance s \<noteq> None)
     \<and> si_live s = (if pc = DNull then {} else set_option (m_SingleInstance s))"

definition si_pc_of_owner :: "si_state \<Rightarrow> si_pc" where
  "si_pc_of_owner s = (case m_Mutex s of None \<Rightarrow> SIdle | Some t \<Rightarrow> si_at s t)"

definition si_mutex :: "si_state \<Rightarrow> bool" where
  "si_mutex s \<longleftrightarrow> (\<forall>t. m_Mutex s = Some t \<longleftrightarrow> si_at s t \<in> si_locked)"

definition si_inv :: "si_state \<Rightarrow> bool" where
  "si_inv s \<longleftrightarrow> si_mutex s \<and> si_data (si_pc_of_owner s) s \<and> (\<forall>p. m_SingleInstance s = Some p \<longrightarrow> p < si_made s)"

lemma si_peel [simp]:
  "si_mutex (s\<lparr>m_SingleInstance := q\<rparr>) = si_mutex s" "si_mutex (s\<lparr>si_live := L\<rparr>) = si_mutex s"
  "si_mutex (s\<lparr>si_made := n\<rparr>) = si_mutex s" "si_mutex (s\<lparr>si_printed := l\<rparr>) = si_mutex s"
  "si_pc_of_owner (s\<lparr>m_SingleInstance := q\<rparr>) = si_pc_of_owner s" "si_pc_of_owner (s\<lparr>si_live := L\<rparr>) = si_pc_of_owner s"
  "si_pc_of_owner (s\<lparr>si_made := n\<rparr>) = si_pc_of_owner s" "si_pc_of_owner (s\<lparr>si_printed := l\<rparr>) = si_pc_of_owner s"
  by (simp_all add: si_mutex_def si_pc_of_owner_def split: option.splits)

lemma si_owner_pc: "si_mutex s \<Longrightarrow> si_at s t \<in> si_locked \<Longrightarrow> si_pc_of_owner s = si_at s t"
  by (simp add: si_mutex_def si_pc_of_owner_def) (metis option.simps(5))

lemma si_owner_free: "m_Mutex s = None \<Longrightarrow> si_pc_of_owner s = SIdle"
  by (simp add: si_pc_of_owner_def)

lemma si_goto_ok:
  assumes "si_mutex s" and "pc \<in> si_locked \<longleftrightarrow> si_at s t \<in> si_locked"
  shows "si_mutex (si_goto t pc s)"
    and "si_pc_of_owner (si_goto t pc s) = (if si_at s t \<in> si_locked then pc else si_pc_of_owner s)"
proof -
  show m: "si_mutex (si_goto t pc s)" using assms by (simp add: si_mutex_def)
  show "si_pc_of_owner (si_goto t pc s) = (if si_at s t \<in> si_locked then pc else si_pc_of_owner s)"
  proof (cases "si_at s t \<in> si_locked")
    case True
    then show ?thesis using assms si_owner_pc[OF m, of t] by simp
  next
    case False
    then have "m_Mutex s \<noteq> Some t" using assms by (simp add: si_mutex_def)
    with False show ?thesis by (auto simp: si_pc_of_owner_def split: option.splits)
  qed
qed

lemma si_take_ok:
  assumes "si_mutex s" and "m_Mutex s = None" and "pc \<in> si_locked"
  shows "si_mutex (si_goto t pc s\<lparr>m_Mutex := Some t\<rparr>)"
    and "si_pc_of_owner (si_goto t pc s\<lparr>m_Mutex := Some t\<rparr>) = pc" and "si_pc_of_owner s = SIdle"
  using assms by (auto simp: si_mutex_def si_pc_of_owner_def)

lemma si_release_ok:
  assumes "si_mutex s" and "si_at s t \<in> si_locked" and "pc \<notin> si_locked"
  shows "si_mutex (si_goto t pc s\<lparr>m_Mutex := None\<rparr>)" and "si_pc_of_owner (si_goto t pc s\<lparr>m_Mutex := None\<rparr>) = SIdle"
proof -
  have "m_Mutex s = Some t" using assms by (simp add: si_mutex_def)
  then show "si_mutex (si_goto t pc s\<lparr>m_Mutex := None\<rparr>)" using assms by (auto simp: si_mutex_def)
qed (simp add: si_pc_of_owner_def)

lemma si_pcs_locked [simp]:
  "SIdle \<notin> si_locked" "SLock \<notin> si_locked" "SRef \<notin> si_locked" "DLock \<notin> si_locked"
  "SCheck \<in> si_locked" "SNew \<in> si_locked" "SUnlock \<in> si_locked"
  "DCheck \<in> si_locked" "DDelete \<in> si_locked" "DNull \<in> si_locked" "DUnlock \<in> si_locked"
  by (simp_all add: si_locked_def)

lemma si_owner_step:
  assumes "si_mutex s"
  shows "si_mutex (si_step a t s)"
  using assms by (cases a) (simp_all add: si_goto_ok si_take_ok si_release_ok)

lemma si_data_step:
  assumes m: "si_mutex s" and d: "si_data (si_pc_of_owner s) s"
  shows "si_data (si_pc_of_owner (si_step a t s)) (si_step a t s)"
proof (cases "si_at s t")
  case SIdle
  then show ?thesis using m d by (cases a) (simp_all add: si_goto_ok, auto simp: si_data_def si_owner_free)
next
  case SLock
  then show ?thesis using m d by (cases a) (simp_all add: si_take_ok, auto simp: si_data_def si_owner_free)
next
  case SRef
  then show ?thesis using m d by (cases a) (simp_all add: si_goto_ok, auto simp: si_data_def si_owner_free)
next
  case DLock
  then show ?thesis using m d by (cases a) (simp_all add: si_take_ok, auto simp: si_data_def si_owner_free)
next
  case SCheck
  with si_owner_pc[OF m, of t] show ?thesis using m d by (cases a) (simp_all add: si_goto_ok, auto simp: si_data_def si_owner_free)
next
  case SNew
  with si_owner_pc[OF m, of t] show ?thesis using m d by (cases a) (simp_all add: si_goto_ok, auto simp: si_data_def si_owner_free)
next
  case SUnlock
  with si_owner_pc[OF m, of t] show ?thesis using m d by (cases a) (simp_all add: si_release_ok, auto simp: si_data_def si_owner_free)
next
  case DCheck
  with si_owner_pc[OF m, of t] show ?thesis using m d by (cases a) (simp_all add: si_goto_ok, auto simp: si_data_def si_owner_free)
next
  case DDelete
  with si_owner_pc[OF m, of t] show ?thesis using m d by (cases a) (simp_all add: si_goto_ok, auto simp: si_data_def si_owner_free)
next
  case DNull
  with si_owner_pc[OF m, of t] show ?thesis using m d by (cases a) (simp_all add: si_goto_ok, auto simp: si_data_def si_owner_free)
next
  case DUnlock
  with si_owner_pc[OF m, of t] show ?thesis using m d by (cases a) (simp_all add: si_release_ok, auto simp: si_data_def si_owner_free)
qed

lemma si_inv_step:
  assumes "si_inv s"
  shows "si_inv (si_step a t s)"
proof -
  have "\<forall>p. m_SingleInstance (si_step a t s) = Some p \<longrightarrow> p < si_made (si_step a t s)"
    using assms unfolding si_inv_def by (cases a) auto
  with assms show ?thesis by (simp add: si_inv_def si_owner_step si_data_step)
qed

lemma si_run_snoc: "si_run (as @ [(a, t)]) = si_step a t (si_run as)"
  by (simp add: si_run_def)

lemma si_inv_run: "si_inv (si_run as)"
proof (induction as rule: rev_induct)
  case Nil
  then show ?case by (simp add: si_run_def si_inv_def si_start_def si_mutex_def si_data_def si_owner_free)
next
  case (snoc at as)
  then show ?case by (cases at) (simp add: si_run_snoc si_inv_step)
qed

text \<open>While nothing is deleted and no allocation fails, there is one instance and every thread finds it.\<close>

definition si_only :: "si_state \<Rightarrow> bool" where
  "si_only s \<longleftrightarrow> (m_SingleInstance s = None \<longleftrightarrow> si_made s = 0) \<and> si_made s \<le> 1 \<and> (\<forall>p. m_SingleInstance s = Some p \<longrightarrow> p = 0)
     \<and> set (si_printed s) \<subseteq> {Some 0}
     \<and> (\<forall>t. si_at s t \<in> {SIdle, SLock, SCheck, SNew, SUnlock, SRef} \<and> (si_at s t \<in> {SUnlock, SRef} \<longrightarrow> m_SingleInstance s \<noteq> None))"

lemma si_only_step:
  assumes "si_only s" and "si_inv s" and "a \<noteq> deleteInstance" and "a \<noteq> NewFails"
  shows "si_only (si_step a t s)"
proof -
  have "si_at s t = SNew \<Longrightarrow> m_SingleInstance s = None"
    using assms(2) si_owner_pc[of s t] by (simp add: si_inv_def si_data_def)
  moreover have "si_at s t \<in> {SIdle, SLock, SCheck, SNew, SUnlock, SRef}" using assms(1) by (simp add: si_only_def)
  then have "si_at s t \<notin> {DLock, DCheck, DDelete, DNull, DUnlock}" by auto
  ultimately show ?thesis
    using assms(1,3,4) by (cases a) (auto simp: si_only_def)
qed

lemma si_only_run:
  "\<forall>(a, t) \<in> set as. a \<noteq> deleteInstance \<and> a \<noteq> NewFails \<Longrightarrow> si_only (si_run as)"
proof (induction as rule: rev_induct)
  case Nil
  then show ?case by (simp add: si_run_def si_only_def si_start_def)
next
  case (snoc at as)
  then show ?case by (cases at) (simp add: si_run_snoc si_only_step si_inv_run)
qed

text \<open>
  Double-checked locking: in every schedule, with \<^verbatim>\<open>deleteInstance\<close> and failing allocations, one thread at a
  time is inside the locked sections, there is at most one instance, and the pointer is null or points to it except between the two
  statements of \<^verbatim>\<open>deleteInstance\<close>. Without these two, all threads print the same instance.
\<close>
theorem double_checked_singleton:
  "(si_at (si_run as) t \<in> si_locked \<and> si_at (si_run as) u \<in> si_locked \<longrightarrow> t = u) \<and>
   si_live (si_run as) \<subseteq> set_option (m_SingleInstance (si_run as)) \<and>
   ((\<forall>t. si_at (si_run as) t \<noteq> DNull) \<longrightarrow> si_live (si_run as) = set_option (m_SingleInstance (si_run as))) \<and>
   ((\<forall>(a, t) \<in> set as. a \<noteq> deleteInstance \<and> a \<noteq> NewFails) \<longrightarrow> si_made (si_run as) \<le> 1 \<and> set (si_printed (si_run as)) \<subseteq> {Some 0})"
proof -
  have inv: "si_mutex (si_run as)" "si_data (si_pc_of_owner (si_run as)) (si_run as)"
    using si_inv_run[of as] by (simp_all add: si_inv_def)
  have 1: "si_at (si_run as) t \<in> si_locked \<and> si_at (si_run as) u \<in> si_locked \<longrightarrow> t = u"
    using inv(1) unfolding si_mutex_def by (metis option.inject)
  have 2: "si_live (si_run as) \<subseteq> set_option (m_SingleInstance (si_run as))"
    using inv(2) by (auto simp: si_data_def split: if_splits)
  have 3: "(\<forall>t. si_at (si_run as) t \<noteq> DNull) \<longrightarrow> si_live (si_run as) = set_option (m_SingleInstance (si_run as))"
    using inv(2) by (auto simp: si_data_def si_pc_of_owner_def split: option.splits if_splits)
  have 4: "(\<forall>(a, t) \<in> set as. a \<noteq> deleteInstance \<and> a \<noteq> NewFails) \<longrightarrow> si_made (si_run as) \<le> 1 \<and> set (si_printed (si_run as)) \<subseteq> {Some 0}"
    using si_only_run[of as] by (auto simp: si_only_def)
  from 1 2 3 4 show ?thesis by blast
qed

text \<open>
  What the double check does not give. A thread may use the reference after another has deleted the instance and find a null pointer, or,
  between the two statements of \<^verbatim>\<open>deleteInstance\<close>, the address of an instance that no longer exists; a
  failed allocation gives a null pointer too; and the first test reads the pointer while the owner of the lock is about to write it.
\<close>

lemma double_checked_gaps:
  "si_printed (si_run [(GetInstance, 0), (GetLock, 0), (GetCheck, 0), (New, 0), (GetUnlock, 0),
     (deleteInstance, 1), (DelLock, 1), (DelCheck, 1), (Delete, 1), (SetNull, 1), (Print, 0)]) = [None]"
  "si_printed (si_run [(GetInstance, 0), (GetLock, 0), (GetCheck, 0), (New, 0), (GetUnlock, 0),
     (deleteInstance, 1), (DelLock, 1), (DelCheck, 1), (Delete, 1), (Print, 0)]) = [Some 0]"
  "si_live (si_run [(GetInstance, 0), (GetLock, 0), (GetCheck, 0), (New, 0), (GetUnlock, 0),
     (deleteInstance, 1), (DelLock, 1), (DelCheck, 1), (Delete, 1), (Print, 0)]) = {}"
  "si_printed (si_run [(GetInstance, 0), (GetLock, 0), (GetCheck, 0), (NewFails, 0), (GetUnlock, 0), (Print, 0)]) = [None]"
  "si_at (si_run [(GetInstance, 0), (GetLock, 0), (GetCheck, 0)]) 0 = SNew
     \<and> si_at (si_run [(GetInstance, 0), (GetLock, 0), (GetCheck, 0)]) 1 = SIdle"
  by (simp_all add: si_run_def si_start_def)

text \<open>What \<^verbatim>\<open>main\<close> of \<^verbatim>\<open>singleton_lazy_safty.cpp\<close> prints for the instance, and the state it ends in; its fixed lines are left out.\<close>

definition si_main :: "nat option list \<times> si_state" where
  "si_main = (let s = si_run [(GetInstance, 0), (GetLock, 0), (GetCheck, 0), (New, 0), (GetUnlock, 0), (Print, 0),
                              (deleteInstance, 0), (DelLock, 0), (DelCheck, 0), (Delete, 0), (SetNull, 0), (DelUnlock, 0)]
              in (si_printed s, s))"

lemma si_main_clean: "fst si_main = [Some 0] \<and> si_live (snd si_main) = {} \<and> m_Mutex (snd si_main) = None"
  by (simp add: si_main_def si_run_def si_start_def)

end
