(* ===== verification/ReadyFlag.thy ===== *)
theory ReadyFlag
  imports "HOL-Library.Multiset"
begin

text \<open>
  Two programs with a flag and a condition variable. In \<^verbatim>\<open>temp_ignore/Interview/interview_3.cpp\<close> ten threads
  wait for the flag; \<^verbatim>\<open>go\<close> sets it and wakes one of them, and each thread that has printed wakes the
  next. In \<^verbatim>\<open>cpp/thread/conditionVariable.cpp\<close> the predicate is the wrong way round: the threads wait
  while the flag is set, and \<^verbatim>\<open>go\<close> clears it before it releases the lock. The main thread is a list of
  commands; a schedule is a list of actions, each of the main thread or of one thread, with the thread that
  \<^verbatim>\<open>notify_one\<close> picks, or a spurious wakeup.
\<close>

section \<open>Threads and the main program\<close>

datatype wpc = WNone | WLock | WTest | WWait | WAgain | WPrint | WNotify | WUnlock | WDone

datatype cmd = Spawn nat | GoLock | SetReady bool | NotifyOne | NotifyAll | PrintGo | GoUnlock | Join nat

datatype line = Thread nat | Go

record ready_state =
  ready :: bool
  mtx :: "nat option option"
  todo :: "cmd list"
  at :: "nat \<Rightarrow> wpc"
  printed :: "line list"

text \<open>The lock is free, held by the main thread, or held by a thread. The programs differ in these two parameters.\<close>

record program =
  pass :: "bool \<Rightarrow> bool"
  chain :: bool

datatype action = Main nat | Step nat nat | Spurious nat

definition goto :: "nat \<Rightarrow> wpc \<Rightarrow> ready_state \<Rightarrow> ready_state" where
  "goto i pc s = s\<lparr>at := (at s)(i := pc)\<rparr>"

text \<open>One of the waiting threads wakes, if there is one; the n threads have the numbers below n.\<close>

definition ready_wake_one :: "nat \<Rightarrow> nat \<Rightarrow> ready_state \<Rightarrow> ready_state option" where
  "ready_wake_one n w s =
     (if w < n \<and> at s w = WWait then Some (goto w WAgain s)
      else if list_ex (\<lambda>i. at s i = WWait) [0..<n] then None else Some s)"

definition ready_wake_all :: "ready_state \<Rightarrow> ready_state" where
  "ready_wake_all s = s\<lparr>at := (\<lambda>i. if at s i = WWait then WAgain else at s i)\<rparr>"

definition main_step :: "nat \<Rightarrow> nat \<Rightarrow> ready_state \<Rightarrow> ready_state option" where
  "main_step n w s = (case todo s of
       [] \<Rightarrow> None
     | c # cs \<Rightarrow> (let s1 = s\<lparr>todo := cs\<rparr> in case c of
           Spawn i \<Rightarrow> Some (goto i WLock s1)
         | GoLock \<Rightarrow> if mtx s = None then Some (s1\<lparr>mtx := Some None\<rparr>) else None
         | SetReady b \<Rightarrow> Some (s1\<lparr>ready := b\<rparr>)
         | NotifyOne \<Rightarrow> ready_wake_one n w s1
         | NotifyAll \<Rightarrow> Some (ready_wake_all s1)
         | PrintGo \<Rightarrow> Some (s1\<lparr>printed := printed s @ [Go]\<rparr>)
         | GoUnlock \<Rightarrow> Some (s1\<lparr>mtx := None\<rparr>)
         | Join i \<Rightarrow> if at s i = WDone then Some s1 else None))"

definition thread_step :: "program \<Rightarrow> nat \<Rightarrow> nat \<Rightarrow> nat \<Rightarrow> ready_state \<Rightarrow> ready_state option" where
  "thread_step p n i w s = (case at s i of
       WNone \<Rightarrow> None
     | WLock \<Rightarrow> if mtx s = None then Some ((goto i WTest s)\<lparr>mtx := Some (Some i)\<rparr>) else None
     | WTest \<Rightarrow> if pass p (ready s) then Some (goto i WPrint s) else Some ((goto i WWait s)\<lparr>mtx := None\<rparr>)
     | WWait \<Rightarrow> None
     | WAgain \<Rightarrow> if mtx s = None then Some ((goto i WTest s)\<lparr>mtx := Some (Some i)\<rparr>) else None
     | WPrint \<Rightarrow> Some ((goto i (if chain p then WNotify else WUnlock) s)\<lparr>printed := printed s @ [Thread i]\<rparr>)
     | WNotify \<Rightarrow> ready_wake_one n w (goto i WUnlock s)
     | WUnlock \<Rightarrow> Some ((goto i WDone s)\<lparr>mtx := None\<rparr>)
     | WDone \<Rightarrow> None)"

fun act :: "program \<Rightarrow> nat \<Rightarrow> action \<Rightarrow> ready_state \<Rightarrow> ready_state option" where
  "act p n (Main w) s = main_step n w s"
| "act p n (Step i w) s = (if i < n then thread_step p n i w s else None)"
| "act p n (Spurious i) s = (if i < n \<and> at s i = WWait then Some (goto i WAgain s) else None)"

fun acts :: "program \<Rightarrow> nat \<Rightarrow> action list \<Rightarrow> ready_state \<Rightarrow> ready_state option" where
  "acts p n [] s = Some s"
| "acts p n (a # as) s = (case act p n a s of None \<Rightarrow> None | Some s1 \<Rightarrow> acts p n as s1)"

definition begin_main :: "cmd list \<Rightarrow> ready_state" where
  "begin_main cs = \<lparr>ready = False, mtx = None, todo = cs, at = (\<lambda>_. WNone), printed = []\<rparr>"

definition interview_3 :: program where
  "interview_3 = \<lparr>pass = (\<lambda>r. r), chain = True\<rparr>"

definition interview_3_go :: "cmd list" where
  "interview_3_go = [GoLock, SetReady True, NotifyOne, GoUnlock]"

definition interview_3_main :: "cmd list" where
  "interview_3_main = map Spawn [0..<10] @ interview_3_go @ map Join [0..<10]"

definition condition_variable :: program where
  "condition_variable = \<lparr>pass = Not, chain = False\<rparr>"

definition condition_variable_go :: "cmd list" where
  "condition_variable_go = [GoLock, SetReady True, NotifyAll, PrintGo, SetReady False, GoUnlock]"

definition condition_variable_main :: "cmd list" where
  "condition_variable_main = map Spawn [0..<5] @ condition_variable_go @ map Spawn [5..<10] @ condition_variable_go @ map Join [0..<10]"

lemma acts_snoc: "acts p n (as @ [a]) s = (case acts p n as s of None \<Rightarrow> None | Some s1 \<Rightarrow> act p n a s1)"
  by (induction as arbitrary: s) (auto split: option.splits)


section \<open>What holds of every program\<close>

text \<open>The main thread starts each thread once, joins what it started, and takes and releases the lock in turn.\<close>

fun orderly :: "nat \<Rightarrow> bool \<Rightarrow> nat set \<Rightarrow> cmd list \<Rightarrow> bool" where
  "orderly n h S [] = (\<not> h)"
| "orderly n h S (Spawn i # cs) = (\<not> h \<and> i < n \<and> i \<notin> S \<and> orderly n h (insert i S) cs)"
| "orderly n h S (Join i # cs) = (\<not> h \<and> i \<in> S \<and> orderly n h S cs)"
| "orderly n h S (GoLock # cs) = (\<not> h \<and> orderly n True S cs)"
| "orderly n h S (GoUnlock # cs) = (h \<and> orderly n False S cs)"
| "orderly n h S (_ # cs) = (h \<and> orderly n h S cs)"

definition holding :: "wpc set" where
  "holding = {WTest, WPrint, WNotify, WUnlock}"

lemma holding [simp]:
  "WTest \<in> holding" "WPrint \<in> holding" "WNotify \<in> holding" "WUnlock \<in> holding"
  "WNone \<notin> holding" "WLock \<notin> holding" "WWait \<notin> holding" "WAgain \<notin> holding" "WDone \<notin> holding"
  by (simp_all add: holding_def)

definition times_printed :: "wpc \<Rightarrow> nat" where
  "times_printed pc = (if pc \<in> {WNotify, WUnlock, WDone} then 1 else 0)"

definition base :: "nat \<Rightarrow> ready_state \<Rightarrow> bool" where
  "base n s \<longleftrightarrow> orderly n (mtx s = Some None) {i. at s i \<noteq> WNone} (todo s)
     \<and> (\<forall>i. at s i \<noteq> WNone \<longrightarrow> i < n) \<and> (\<forall>i<n. at s i = WNone \<longrightarrow> Spawn i \<in> set (todo s))
     \<and> (\<forall>i. mtx s = Some (Some i) \<longleftrightarrow> at s i \<in> holding)
     \<and> (\<forall>i. count_list (printed s) (Thread i) = times_printed (at s i))"

lemma base_goto:
  assumes "base n s" and "i < n" and "at s i \<noteq> WNone" and "pc \<noteq> WNone"
    and "pc \<in> holding \<longleftrightarrow> at s i \<in> holding" and "times_printed pc = times_printed (at s i)"
  shows "base n (goto i pc s)"
proof -
  have "{j. ((at s)(i := pc)) j \<noteq> WNone} = {j. at s j \<noteq> WNone}" using assms(3,4) by auto
  with assms show ?thesis by (simp add: base_def goto_def)
qed

lemma base_wake_one:
  assumes "base n s" and "ready_wake_one n w s = Some t"
  shows "base n t"
  using assms base_goto[of n s w WAgain]
  by (auto simp: ready_wake_one_def times_printed_def split: if_splits)

lemma base_wake_all:
  assumes "base n s"
  shows "base n (ready_wake_all s)"
proof -
  have "{j. at (ready_wake_all s) j \<noteq> WNone} = {j. at s j \<noteq> WNone}" by (auto simp: ready_wake_all_def)
  with assms show ?thesis by (auto simp: base_def ready_wake_all_def times_printed_def)
qed

lemma base_grab:
  assumes "base n s" and "mtx s = None" and "i < n" and "at s i = WLock \<or> at s i = WAgain"
  shows "base n ((goto i WTest s)\<lparr>mtx := Some (Some i)\<rparr>)"
proof -
  have "{j. ((at s)(i := WTest)) j \<noteq> WNone} = {j. at s j \<noteq> WNone}" using assms(4) by auto
  with assms show ?thesis by (auto simp: base_def goto_def times_printed_def)
qed

lemma base_free:
  assumes "base n s" and "at s i \<in> holding" and "pc \<notin> holding" and "pc \<noteq> WNone"
    and "times_printed pc = times_printed (at s i)"
  shows "base n ((goto i pc s)\<lparr>mtx := None\<rparr>)"
proof -
  have "mtx s = Some (Some i)" using assms by (simp add: base_def)
  moreover have "{j. ((at s)(i := pc)) j \<noteq> WNone} = {j. at s j \<noteq> WNone}" using assms(2,4) by (auto simp: holding_def)
  ultimately show ?thesis using assms by (auto simp: base_def goto_def)
qed

lemma base_thread:
  assumes "base n s" and "i < n" and "thread_step p n i w s = Some t"
  shows "base n t"
proof (cases "at s i")
  case WPrint
  let ?pc = "if chain p then WNotify else WUnlock"
  have "{j. ((at s)(i := ?pc)) j \<noteq> WNone} = {j. at s j \<noteq> WNone}" using WPrint by auto
  moreover have "t = (goto i ?pc s)\<lparr>printed := printed s @ [Thread i]\<rparr>" using assms(3) WPrint by (simp add: thread_step_def)
  ultimately show ?thesis using assms(1,2) WPrint by (auto simp: base_def goto_def times_printed_def)
next
  case WNotify
  then have "base n (goto i WUnlock s)" using assms by (intro base_goto) (simp_all add: times_printed_def)
  then show ?thesis using assms(3) WNotify by (auto simp: thread_step_def intro: base_wake_one)
qed (use assms in \<open>auto simp: thread_step_def times_printed_def split: if_splits intro: base_grab base_free base_goto\<close>)


lemma base_todo:
  assumes "base n s" and "todo s = c # cs" and "\<And>i. c \<noteq> Spawn i" and "orderly n (mtx s = Some None) {i. at s i \<noteq> WNone} cs"
  shows "base n (s\<lparr>todo := cs\<rparr>)" "base n (s\<lparr>todo := cs, ready := b\<rparr>)" "base n (s\<lparr>todo := cs, printed := printed s @ [Go]\<rparr>)"
  using assms by (auto simp: base_def)

lemma base_main:
  assumes "base n s" and "main_step n w s = Some t"
  shows "base n t"
proof (cases "todo s")
  case (Cons c cs)
  have ord: "orderly n (mtx s = Some None) {i. at s i \<noteq> WNone} (c # cs)" using assms(1) Cons by (simp add: base_def)
  show ?thesis
  proof (cases c)
    case (Spawn i)
    then have "at s i = WNone" and "i < n" using ord by auto
    moreover have "{j. ((at s)(i := WLock)) j \<noteq> WNone} = insert i {j. at s j \<noteq> WNone}" by auto
    moreover have "\<forall>j. times_printed (((at s)(i := WLock)) j) = times_printed (at s j)"
      using \<open>at s i = WNone\<close> by (simp add: times_printed_def)
    moreover have "t = goto i WLock (s\<lparr>todo := cs\<rparr>)" using assms(2) Cons Spawn by (simp add: main_step_def)
    ultimately show ?thesis
      using assms(1) Cons Spawn ord by (simp add: base_def goto_def) (metis cmd.inject(1) holding(6) holding(5))
  next
    case GoLock
    then show ?thesis using assms Cons ord by (auto simp: main_step_def base_def split: if_splits)
  next
    case GoUnlock
    then show ?thesis using assms Cons ord by (auto simp: main_step_def base_def split: if_splits)
  next
    case NotifyOne
    then have "base n (s\<lparr>todo := cs\<rparr>)" using assms(1) Cons ord by (intro base_todo[of n s c]) auto
    then show ?thesis using assms(2) Cons NotifyOne by (auto simp: main_step_def intro: base_wake_one)
  next
    case NotifyAll
    then have "base n (s\<lparr>todo := cs\<rparr>)" using assms(1) Cons ord by (intro base_todo[of n s c]) auto
    then show ?thesis using assms(2) Cons NotifyAll by (auto simp: main_step_def intro: base_wake_all)
  qed (use assms Cons ord in \<open>auto simp: main_step_def base_def split: if_splits\<close>)
qed (use assms in \<open>simp add: main_step_def\<close>)

lemma base_act: "base n s \<Longrightarrow> act p n a s = Some t \<Longrightarrow> base n t"
  by (cases a) (auto simp: times_printed_def split: if_splits intro: base_main base_thread base_goto)

lemma base_begin: "orderly n False {} cs \<Longrightarrow> \<forall>i<n. Spawn i \<in> set cs \<Longrightarrow> base n (begin_main cs)"
  by (simp add: base_def begin_main_def times_printed_def)

text \<open>An invariant of the actions holds in every run.\<close>

lemma acts_invariant:
  assumes "acts p n as s = Some t" and "I s" and "\<And>a s t. I s \<Longrightarrow> act p n a s = Some t \<Longrightarrow> I t"
  shows "I t"
  using assms(1,2)
proof (induction as arbitrary: s)
  case (Cons a as)
  then show ?case using assms(3) by (auto split: option.splits)
qed simp

text \<open>A run ends where neither the main thread nor a thread can move; spurious wakeups do not count.\<close>

definition ended :: "program \<Rightarrow> nat \<Rightarrow> ready_state \<Rightarrow> bool" where
  "ended p n s \<longleftrightarrow> (\<forall>w. main_step n w s = None) \<and> (\<forall>i<n. \<forall>w. thread_step p n i w s = None)"

lemma wake_one_able: "\<exists>w t. ready_wake_one n w s = Some t"
proof (cases "\<exists>i<n. at s i = WWait")
  case True
  then obtain i where "i < n" and "at s i = WWait" by blast
  then show ?thesis by (intro exI[of _ i]) (simp add: ready_wake_one_def)
next
  case False
  then show ?thesis by (intro exI[of _ n]) (auto simp: ready_wake_one_def list_ex_iff)
qed

lemma ended_free:
  assumes "base n s" and "ended p n s"
  shows "mtx s = None"
proof (cases "mtx s")
  case (Some m)
  show ?thesis
  proof (cases m)
    case None
    then obtain c cs where "todo s = c # cs" using assms(1) Some by (cases "todo s") (auto simp: base_def)
    then have "\<exists>w. main_step n w s \<noteq> None"
      using assms(1) Some None wake_one_able[of n "s\<lparr>todo := cs\<rparr>"] by (cases c) (auto simp: base_def main_step_def)
    then show ?thesis using assms(2) by (auto simp: ended_def)
  next
    case (Some i)
    then have held: "at s i \<in> holding" using assms(1) \<open>mtx s = Some m\<close> by (auto simp: base_def)
    then have "at s i \<noteq> WNone" by auto
    then have "i < n" using assms(1) unfolding base_def by blast
    from held
    have "\<exists>w. thread_step p n i w s \<noteq> None"
      using wake_one_able[of n "goto i WUnlock s"] by (simp add: holding_def thread_step_def) fastforce
    then show ?thesis using assms(2) \<open>i < n\<close> by (auto simp: ended_def)
  qed
qed

text \<open>When a run has ended and no thread waits, main has finished; every thread it started has finished too.\<close>

lemma ended_finished:
  assumes "base n s" and "ended p n s" and "\<forall>i. at s i \<noteq> WWait"
  shows "todo s = [] \<and> (\<forall>i. at s i = (if i < n then WDone else WNone))"
proof -
  have free: "mtx s = None" using ended_free[OF assms(1,2)] .
  have fin: "at s i = WNone \<or> at s i = WDone" for i
  proof (cases "i < n")
    case True
    then have "thread_step p n i 0 s = None" using assms(2) by (simp add: ended_def)
    then show ?thesis using assms(1,3) free by (cases "at s i") (auto simp: thread_step_def base_def holding_def split: if_splits)
  qed (use assms(1) in \<open>auto simp: base_def\<close>)
  moreover have "todo s = []"
  proof (cases "todo s")
    case (Cons c cs)
    then have "main_step n 0 s = None" using assms(2) by (simp add: ended_def)
    moreover have "\<forall>i. c = Join i \<longrightarrow> at s i = WDone" using assms(1) Cons fin unfolding base_def by (metis (mono_tags) mem_Collect_eq orderly.simps(3))
    ultimately show ?thesis using assms(1) free Cons
      by (cases c) (auto simp: main_step_def base_def)
  qed
  ultimately show ?thesis
    using assms(1) fin unfolding base_def by (metis empty_iff list.set(1) wpc.distinct(15))
qed


lemma base_printed:
  assumes "base n s" and "\<forall>i. at s i = (if i < n then WDone else WNone)"
  shows "count_list (printed s) (Thread i) = (if i < n then 1 else 0)"
  using assms by (simp add: base_def times_printed_def)

section \<open>The flag that is cleared at once\<close>

text \<open>The flag is cleared before the lock is released.\<close>

fun clears :: "bool \<Rightarrow> cmd list \<Rightarrow> bool" where
  "clears r [] = (\<not> r)"
| "clears r (SetReady b # cs) = clears b cs"
| "clears r (NotifyAll # cs) = clears r cs"
| "clears r (PrintGo # cs) = clears r cs"
| "clears r (NotifyOne # cs) = False"
| "clears r (_ # cs) = (\<not> r \<and> clears r cs)"

definition never_waiting :: "ready_state \<Rightarrow> bool" where
  "never_waiting s \<longleftrightarrow> clears (ready s) (todo s) \<and> (ready s \<longrightarrow> mtx s = Some None)
     \<and> (\<forall>i. at s i \<notin> {WWait, WAgain, WNotify})"

lemma never_waiting_main:
  assumes "base n s" and "never_waiting s" and "main_step n w s = Some t"
  shows "never_waiting t"
proof (cases "todo s")
  case (Cons c cs)
  then have "orderly n (mtx s = Some None) {i. at s i \<noteq> WNone} (c # cs)" using assms(1) by (simp add: base_def)
  then show ?thesis
    using assms(2,3) Cons
    by (cases c) (auto simp: never_waiting_def main_step_def goto_def ready_wake_all_def split: if_splits)
qed (use assms(3) in \<open>simp add: main_step_def\<close>)

lemma never_waiting_thread:
  assumes "base n s" and "never_waiting s" and "thread_step condition_variable n i w s = Some t"
  shows "never_waiting t"
proof -
  have "at s i \<in> holding \<longrightarrow> \<not> ready s" using assms(1,2) by (auto simp: base_def never_waiting_def)
  then show ?thesis
    using assms(2,3)
    by (cases "at s i") (auto simp: never_waiting_def thread_step_def goto_def condition_variable_def split: if_splits)
qed

lemma never_waiting_act:
  "base n s \<and> never_waiting s \<Longrightarrow> act condition_variable n a s = Some t \<Longrightarrow> base n t \<and> never_waiting t"
  by (cases a) (auto simp: never_waiting_def[of s] split: if_splits intro: base_act[of n s _ a]
      intro: base_main base_thread never_waiting_main never_waiting_thread)

lemma condition_variable_begin: "base 10 (begin_main condition_variable_main) \<and> never_waiting (begin_main condition_variable_main)"
proof (intro conjI base_begin)
  show "orderly 10 False {} condition_variable_main" by code_simp
  show "\<forall>i<10. Spawn i \<in> set condition_variable_main" by (auto simp: condition_variable_main_def)
  have "clears False condition_variable_main" by code_simp
  then show "never_waiting (begin_main condition_variable_main)" by (simp add: never_waiting_def begin_main_def)
qed

text \<open>
  In \<^verbatim>\<open>conditionVariable.cpp\<close> no thread ever waits, so that the notifications are never needed; the program ends with
  every thread joined, each number printed once, and the flag cleared.
\<close>
theorem condition_variable_never_waits:
  assumes "acts condition_variable 10 as (begin_main condition_variable_main) = Some s"
  shows "(\<forall>i. at s i \<noteq> WWait) \<and>
         (ended condition_variable 10 s \<longrightarrow> todo s = [] \<and> \<not> ready s \<and> (\<forall>i. count_list (printed s) (Thread i) = (if i < 10 then 1 else 0)))"
proof -
  have inv: "base 10 s \<and> never_waiting s"
    by (rule acts_invariant[OF assms, of "\<lambda>s. base 10 s \<and> never_waiting s"])
       (use condition_variable_begin never_waiting_act in blast)+
  then have no: "\<forall>i. at s i \<noteq> WWait" by (auto simp: never_waiting_def)
  moreover have "todo s = [] \<and> \<not> ready s \<and> (\<forall>i. count_list (printed s) (Thread i) = (if i < 10 then 1 else 0))"
    if "ended condition_variable 10 s"
  proof -
    have "todo s = []" and all: "\<forall>i. at s i = (if i < 10 then WDone else WNone)"
      using ended_finished[OF _ that no] inv by blast+
    then show ?thesis using inv base_printed[OF _ all] by (simp add: never_waiting_def)
  qed
  ultimately show ?thesis by blast
qed

section \<open>The chain of notifications\<close>

text \<open>The flag is set before the first notification and never cleared; after the first join nothing is notified.\<close>

fun sets :: "bool \<Rightarrow> cmd list \<Rightarrow> bool" where
  "sets r [] = r"
| "sets r (SetReady b # cs) = (b \<and> sets True cs)"
| "sets r (NotifyOne # cs) = (r \<and> sets r cs)"
| "sets r (Join i # cs) = (NotifyOne \<notin> set cs \<and> sets r cs)"
| "sets r (_ # cs) = sets r cs"

definition chained :: "nat \<Rightarrow> ready_state \<Rightarrow> bool" where
  "chained n s \<longleftrightarrow> sets (ready s) (todo s)
     \<and> (ready s \<or> NotifyOne \<in> set (todo s) \<and> printed s = [] \<and> (\<forall>i. at s i \<notin> {WPrint, WNotify, WUnlock, WDone}))
     \<and> ((\<exists>i. at s i = WWait) \<longrightarrow> NotifyOne \<in> set (todo s) \<or> (\<exists>i. at s i \<in> {WAgain, WTest, WPrint, WNotify}))
     \<and> PrintGo \<notin> set (todo s) \<and> NotifyAll \<notin> set (todo s)"


lemma wake_one_chained:
  assumes "ready_wake_one n w s = Some t" and "\<forall>i. at s i = WWait \<longrightarrow> i < n"
  shows "ready t = ready s \<and> todo t = todo s \<and> printed t = printed s
         \<and> ((\<exists>i. at t i = WWait) \<longrightarrow> at t w = WAgain)
         \<and> (\<forall>i. at t i = at s i \<or> at t i = WAgain)"
  using assms by (auto simp: ready_wake_one_def goto_def list_ex_iff split: if_splits)

lemma chained_spawn:
  assumes "chained n s" and "todo s = Spawn i # cs" and "at s i = WNone"
  shows "chained n (goto i WLock (s\<lparr>todo := cs\<rparr>))"
proof -
  have "j \<noteq> i" if "at s j \<in> {WAgain, WTest, WPrint, WNotify}" for j using that assms(3) by auto
  then have "(\<exists>j. at s j \<in> {WAgain, WTest, WPrint, WNotify}) \<longrightarrow> (\<exists>j. j \<noteq> i \<and> at s j \<in> {WAgain, WTest, WPrint, WNotify})" by blast
  with assms(1,2) show ?thesis unfolding chained_def goto_def by (auto split: if_splits)
qed

lemma chained_wake_one:
  assumes "ready_wake_one n w s = Some t" and "\<forall>i. at s i = WWait \<longrightarrow> i < n" and "PrintGo \<notin> set (todo s)" and "NotifyAll \<notin> set (todo s)"
    and "sets (ready s) (todo s)" and "ready s"
  shows "chained n t"
proof -
  note woken = wake_one_chained[OF assms(1,2)]
  then have "(\<exists>i. at t i = WWait) \<longrightarrow> (\<exists>i. at t i \<in> {WAgain, WTest, WPrint, WNotify})" by blast
  with woken assms(3-6) show ?thesis by (simp add: chained_def)
qed

text \<open>Other commands of the main thread change neither the threads nor what is printed.\<close>

lemma chained_pop:
  assumes "chained n s" and "todo s = c # cs" and "sets r cs" and "ready s \<longrightarrow> r"
    and "NotifyOne \<in> set (todo s) \<longrightarrow> NotifyOne \<in> set cs"
    and "ready t = r" "todo t = cs" "printed t = printed s" "at t = at s"
  shows "chained n t"
  using assms(1,2,3,4,5) unfolding chained_def assms(6-9) by (simp; blast)

lemma chained_main:
  assumes "base n s" and "chained n s" and "main_step n w s = Some t"
  shows "chained n t"
proof (cases "todo s")
  case (Cons c cs)
  have ord: "orderly n (mtx s = Some None) {i. at s i \<noteq> WNone} (c # cs)" using assms(1) Cons by (simp add: base_def)
  have sets: "sets (ready s) (c # cs)" "c \<noteq> PrintGo" "PrintGo \<notin> set cs" "c \<noteq> NotifyAll" "NotifyAll \<notin> set cs" using assms(2) Cons by (auto simp: chained_def)
  note step = assms(3)[unfolded main_step_def Cons, simplified]
  show ?thesis
  proof (cases c)
    case (Spawn i)
    then show ?thesis using step assms(2) Cons ord chained_spawn[of n s i cs] by (simp)
  next
    case GoLock
    then show ?thesis using step sets chained_pop[OF assms(2) Cons, of "ready s"] Cons by (auto split: if_splits)
  next
    case (SetReady b)
    then show ?thesis using step sets chained_pop[OF assms(2) Cons, of True] Cons by auto
  next
    case NotifyOne
    then have "ready_wake_one n w (s\<lparr>todo := cs\<rparr>) = Some t" using step by simp
    then show ?thesis using assms(1) sets NotifyOne by (intro chained_wake_one) (auto simp: base_def)
  next
    case GoUnlock
    then show ?thesis using step sets chained_pop[OF assms(2) Cons, of "ready s"] Cons by auto
  next
    case (Join i)
    then show ?thesis using step sets chained_pop[OF assms(2) Cons, of "ready s"] Cons by (auto split: if_splits)
  qed (use sets in simp_all)
qed (use assms(3) in \<open>simp add: main_step_def\<close>)


text \<open>A thread changes nothing of the main program; it may only wait while the flag is not set.\<close>

lemma chained_active:
  assumes "chained n s" and "pc \<in> {WAgain, WTest, WPrint, WNotify}" and "ready s \<or> pc \<in> {WAgain, WTest}"
    and "at t = (at s)(i := pc)" "ready t = ready s" "todo t = todo s" "printed t = printed s \<or> ready s"
  shows "chained n t"
proof -
  have "\<exists>j. at t j \<in> {WAgain, WTest, WPrint, WNotify}" using assms(2,4) by (intro exI[of _ i]) simp
  moreover have "\<forall>j. at t j \<notin> {WPrint, WNotify, WUnlock, WDone}"
    if "\<forall>j. at s j \<notin> {WPrint, WNotify, WUnlock, WDone}" "\<not> ready s"
    using assms(3,4) that by auto
  ultimately show ?thesis using assms(1,5-7) unfolding chained_def by (cases "ready s") simp_all
qed

lemma chained_thread:
  assumes "base n s" and "chained n s" and "i < n" and "thread_step interview_3 n i w s = Some t"
  shows "chained n t"
proof (cases "at s i")
  case WTest
  show ?thesis
  proof (cases "ready s")
    case True
    then have "t = goto i WPrint s" using assms(4) WTest by (simp add: thread_step_def interview_3_def)
    then show ?thesis using True by (intro chained_active[OF assms(2), of WPrint _ i]) (simp_all add: goto_def)
  next
    case False
    then have t: "t = (goto i WWait s)\<lparr>mtx := None\<rparr>" using assms(4) WTest by (simp add: thread_step_def interview_3_def)
    have "at t j \<notin> {WPrint, WNotify, WUnlock, WDone}" if "at s j \<notin> {WPrint, WNotify, WUnlock, WDone}" for j
      using that by (simp add: t goto_def)
    moreover have "ready t = ready s" "todo t = todo s" "printed t = printed s" by (simp_all add: t goto_def)
    ultimately show ?thesis using False assms(2) unfolding chained_def by simp
  qed
next
  case WNotify
  then have "ready s" using assms(2) by (auto simp: chained_def)
  moreover have "ready_wake_one n w (goto i WUnlock s) = Some t" using assms(4) WNotify by (simp add: thread_step_def)
  moreover have "\<forall>j. at (goto i WUnlock s) j = WWait \<longrightarrow> j < n" using assms(1) by (auto simp: base_def goto_def)
  ultimately show ?thesis
    using assms(2) chained_wake_one[of n w "goto i WUnlock s" t] by (simp add: chained_def[of n s] goto_def)
next
  case WUnlock
  then have "ready s" using assms(2) by (auto simp: chained_def)
  have "j \<noteq> i" if "at s j \<in> {WAgain, WTest, WPrint, WNotify}" for j using that WUnlock by auto
  then have "(\<exists>j. at s j \<in> {WAgain, WTest, WPrint, WNotify}) \<longrightarrow> (\<exists>j. j \<noteq> i \<and> at s j \<in> {WAgain, WTest, WPrint, WNotify})" by blast
  with \<open>ready s\<close> show ?thesis
    using assms(2,4) WUnlock unfolding chained_def goto_def by (auto simp: thread_step_def goto_def split: if_splits)
next
  case WPrint
  then have "ready s" using assms(2) by (auto simp: chained_def)
  moreover have "t = (goto i WNotify s)\<lparr>printed := printed s @ [Thread i]\<rparr>"
    using assms(4) WPrint by (simp add: thread_step_def interview_3_def)
  ultimately show ?thesis by (intro chained_active[OF assms(2), of WNotify _ i]) (simp_all add: goto_def)
qed (use assms in \<open>auto simp: thread_step_def goto_def split: if_splits intro: chained_active[OF assms(2), of WTest _ i]\<close>)

lemma chained_act:
  assumes "base n s \<and> chained n s" and "act interview_3 n a s = Some t"
  shows "base n t \<and> chained n t"
proof
  show "base n t" using assms by (blast intro: base_act)
  show "chained n t"
  proof (cases a)
    case (Spurious i)
    then have "t = goto i WAgain s" using assms(2) by (simp split: if_splits)
    then show ?thesis using assms(1) by (elim conjE) (rule chained_active[of n s WAgain _ i], simp_all add: goto_def)
  next
    case (Main w)
    then have "main_step n w s = Some t" using assms(2) by simp
    with assms(1) show ?thesis by (blast intro: chained_main)
  next
    case (Step i w)
    then have "i < n" and "thread_step interview_3 n i w s = Some t" using assms(2) by (simp_all split: if_splits)
    with assms(1) show ?thesis by (blast intro: chained_thread)
  qed
qed

lemma interview_3_begin: "base 10 (begin_main interview_3_main) \<and> chained 10 (begin_main interview_3_main)"
proof (intro conjI base_begin)
  show "orderly 10 False {} interview_3_main" by code_simp
  show "\<forall>i<10. Spawn i \<in> set interview_3_main" by (auto simp: interview_3_main_def)
  have "sets False interview_3_main" by code_simp
  then show "chained 10 (begin_main interview_3_main)"
    by (auto simp: chained_def begin_main_def interview_3_main_def interview_3_go_def)
qed

text \<open>
  In \<^verbatim>\<open>interview_3.cpp\<close> no wakeup is lost: nothing is printed before the flag is set, and a run can only end with every
  thread joined and each number printed once, in whatever order the threads start, wait and are picked.
\<close>
theorem interview_3_chain:
  assumes "acts interview_3 10 as (begin_main interview_3_main) = Some s"
  shows "(printed s \<noteq> [] \<longrightarrow> ready s) \<and>
         (ended interview_3 10 s \<longrightarrow> todo s = [] \<and> (\<forall>i. count_list (printed s) (Thread i) = (if i < 10 then 1 else 0)))"
proof -
  have inv: "base 10 s \<and> chained 10 s"
    by (rule acts_invariant[OF assms, of "\<lambda>s. base 10 s \<and> chained 10 s"])
       (use interview_3_begin chained_act in blast)+
  have "todo s = [] \<and> (\<forall>i. count_list (printed s) (Thread i) = (if i < 10 then 1 else 0))"
    if end_: "ended interview_3 10 s"
  proof -
    have "mtx s = None" using ended_free inv end_ by blast
    then have "at s i \<notin> {WAgain, WTest, WPrint, WNotify}" for i
    proof (cases "i < 10")
      case True
      then have "thread_step interview_3 10 i 0 s = None" using end_ by (simp add: ended_def)
      moreover have "at s i \<notin> holding" using inv \<open>mtx s = None\<close> by (simp add: base_def)
      ultimately show ?thesis using \<open>mtx s = None\<close> by (auto simp: thread_step_def)
    qed (use inv in \<open>auto simp: base_def\<close>)
    then have "(\<exists>i. at s i = WWait) \<longrightarrow> NotifyOne \<in> set (todo s)" using inv by (simp add: chained_def)
    moreover have "NotifyOne \<notin> set (todo s)"
    proof (cases "todo s")
      case (Cons c cs)
      have "main_step 10 0 s = None" using end_ by (simp add: ended_def)
      then show ?thesis using inv Cons \<open>mtx s = None\<close>
        by (cases c) (auto simp: main_step_def base_def chained_def)
    qed simp
    ultimately have "\<forall>i. at s i \<noteq> WWait" by blast
    then have "todo s = []" and all: "\<forall>i. at s i = (if i < 10 then WDone else WNone)"
      using ended_finished end_ inv by blast+
    then show ?thesis using inv base_printed[OF _ all] by simp
  qed
  with inv show ?thesis by (auto simp: chained_def)
qed


definition interview_3_run :: "action list" where
  "interview_3_run = replicate 10 (Main 0) @ [Step 0 0, Step 0 0] @ replicate 4 (Main 0)
     @ concat (map (\<lambda>i. replicate 5 (Step i 0)) [0..<10]) @ replicate 10 (Main 0)"

definition condition_variable_run :: "action list" where
  "condition_variable_run = replicate 5 (Main 0) @ replicate 4 (Step 3 0) @ replicate 17 (Main 0)
     @ concat (map (\<lambda>i. replicate 4 (Step i 0)) [0, 1, 2, 4, 5, 6, 7, 8, 9]) @ replicate 10 (Main 0)"

lemma ended_done: "todo s = [] \<Longrightarrow> list_all (\<lambda>i. at s i = WDone) [0..<n] \<Longrightarrow> ended p n s"
  by (auto simp: ended_def main_step_def thread_step_def list_all_iff)

lemma runs_end:
  "case acts interview_3 10 interview_3_run (begin_main interview_3_main) of
     None \<Rightarrow> False | Some s \<Rightarrow> todo s = [] \<and> list_all (\<lambda>i. at s i = WDone) [0..<10]"
  "case acts condition_variable 10 condition_variable_run (begin_main condition_variable_main) of
     None \<Rightarrow> False | Some s \<Rightarrow> todo s = [] \<and> list_all (\<lambda>i. at s i = WDone) [0..<10]"
  by code_simp+

theorem interview_3_chain_witness:
  "\<exists>s. acts interview_3 10 interview_3_run (begin_main interview_3_main) = Some s \<and> ended interview_3 10 s
       \<and> count_list (printed s) (Thread 7) = 1"
proof -
  obtain s where s: "acts interview_3 10 interview_3_run (begin_main interview_3_main) = Some s" and e: "ended interview_3 10 s"
    using runs_end(1) by (auto split: option.splits intro: ended_done)
  with interview_3_chain[OF s] show ?thesis by auto
qed

theorem condition_variable_never_waits_witness:
  "\<exists>s. acts condition_variable 10 condition_variable_run (begin_main condition_variable_main) = Some s \<and> ended condition_variable 10 s
       \<and> count_list (printed s) (Thread 3) = 1"
proof -
  obtain s where s: "acts condition_variable 10 condition_variable_run (begin_main condition_variable_main) = Some s"
      and e: "ended condition_variable 10 s"
    using runs_end(2) by (auto split: option.splits intro: ended_done)
  with condition_variable_never_waits[OF s] show ?thesis by auto
qed

end
