(* ===== verification/Spec2Isabelle.thy ===== *)
theory Spec2Isabelle
  imports RbTree AvlTree BinSearchTree Sort_Exchange Sort_Heap Sort_Merge Sort_Quick Sort_Count Searching
    LruCache HashTable MyString TimeCacheRw MemPool BitMap SafeQueue UnionFind PrimeSieve Trie WeakPtr Reactor ReactorServer ThreadPool Lcs Kmp Atoi Philosophers ListCycle ListAdd ListMerge
    TaskPools TaskPool1 Median QuickSelect SpiralOrder ArrayScans ArrayMaps CycleQueue Turns
    ThreeSum Knapsack TreeMains TreePrograms RangeSearch ReverseWords StringPrograms StringClass NumberPrograms UglyNumbers Producers
    IntrusivePtr Flyweight TimeThread SafeQueue2 WordReader VectorClass CStrings ArrayPrograms SlidingWindow Patterns TimeCacheRwTest Singletons ReadyFlag
begin

text \<open>
  This development models the algorithmic and systems parts of a collection of C++ programs: search
  trees, sorting and searching, containers and caches, strings, smart pointers, memory pools,
  time caches, thread synchronisation and two network servers. The programs are independent of each other; a
  program is one file (sometimes two) below \<^verbatim>\<open>cpp/\<close>, with its own state and its own main
  function. The components below therefore interact only through what they share in the
  development: the conventions of \<open>Cpp_Prelude\<close> and the contracts, which are locales.

  \<^bold>\<open>Conventions.\<close> An operation whose evaluation is undefined in C++ (an index out of range, a null or
  dangling pointer that is used, signed overflow, a failed assertion) has the value \<^term>\<open>None\<close>, so a theorem
  that an operation returns \<^term>\<open>Some\<close> includes that it does nothing undefined. Loops are recursive
  functions, one per loop, with termination proved; a loop that may run for ever is a partial function in
  the option type, where \<^term>\<open>None\<close> also stands for not returning, and its theorems prove that it does
  return, or that it does not. Signed integers are \<open>int\<close> with a range check at each arithmetic
  operation that can leave the range (\<open>as_int\<close>, \<open>as_ll\<close>); unsigned ones are reduced modulo their
  width or are words where the code works on bits. Sizes of vectors are natural numbers. What the operating system
  or \<^verbatim>\<open>rand()\<close> returns is a parameter. Threads are step relations or schedules: a step is a critical section, a
  notification or an atomic access. Text that a program prints for its user is left out unless it is its result.

  \<^bold>\<open>Trees\<close> (\<^verbatim>\<open>cpp/tree\<close>). \<open>Tree_Zipper\<close> gives heap nodes and pointers into trees: a pointer with its
  chain of parents is a location. \<open>Ordered_Trees\<close> holds the locales \<open>search_tree\<close> and
  \<open>search_tree_remove\<close>, the contract of a search tree observed through its list of keys. \<open>RbTree\<close>
  (\<^verbatim>\<open>rbTree.cpp\<close>: class RBTree), \<open>AvlTree\<close> (\<^verbatim>\<open>avl2.cpp\<close>: class AVL) and \<open>BinSearchTree\<close>
  (\<^verbatim>\<open>bst.cpp\<close>) interpret them: insertion and removal change the list of keys by exactly one
  key, keep the colour, height or order invariant and never dereference null, with the exceptions the
  theorems state.

  \<^bold>\<open>Sorting and searching\<close> (\<^verbatim>\<open>cpp/sort\<close>, \<^verbatim>\<open>cpp/search\<close>). \<open>Sort_Contract\<close> holds the locale
  \<open>sorting_routine\<close>; \<open>Sort_Exchange\<close>, \<open>Sort_Heap\<close>, \<open>Sort_Merge\<close> and \<open>Sort_Quick\<close> interpret it for each
  routine that sorts. \<open>Sort_Count\<close> shows what the counting sort does instead. \<open>Searching\<close> has the
  three binary searches under the locale \<open>sorted_search\<close>.

  \<^bold>\<open>Containers and algorithms.\<close> \<open>LruCache\<close> (\<^verbatim>\<open>linux/LRU_template.cpp\<close>, \<^verbatim>\<open>linux/LRU.cpp\<close> and the exercise) refines
  an association list in order of use, through the locale \<open>recency_cache\<close>. \<open>HashTable\<close>
  (\<^verbatim>\<open>stl/myHash.cpp\<close>) refines a map; insertion and rebuild call each other, each rebuild takes the next of six
  sizes, and the depth 7 of the model is therefore enough. \<open>UnionFind\<close> (\<^verbatim>\<open>race/union_find.cpp\<close>,
  \<^verbatim>\<open>race/race_template.cpp\<close>; locale \<open>disjoint_sets\<close>) computes the equivalence closure of the
  pairs. \<open>Trie\<close> (\<^verbatim>\<open>race/Trie.cpp\<close>; locale \<open>word_store\<close>) counts the words with a prefix.
  \<open>RaceNumbers\<close> and \<open>PrimeSieve\<close> are the numbers of \<^verbatim>\<open>race/race_template.cpp\<close>. \<open>BitMap\<close>
  is \<^verbatim>\<open>algorithm/bitMap.cpp\<close>. \<open>Lcs\<close> (\<^verbatim>\<open>dynamic_programming/longgestSubSequence.cpp\<close>) proves that the
  printed subsequence is a longest common one.

  \<^bold>\<open>Strings.\<close> \<open>MyString\<close> is the class of \<^verbatim>\<open>string/my_string.cpp\<close> over blocks of memory; its
  observation is the list of its characters. \<open>CMem\<close> has copying, filling and comparing of memory
  (\<^verbatim>\<open>string/memcpy.cpp\<close>, \<^verbatim>\<open>memset.cpp\<close>, \<^verbatim>\<open>strcpy.cpp\<close>, \<^verbatim>\<open>strcmp.cpp\<close>). \<open>Kmp\<close> has the search with
  the table of borders (\<^verbatim>\<open>string/kmp.cpp\<close>) and the search by comparison of the exercises, shown equivalent on
  its domain. \<open>Atoi\<close> has both conversions of a string to an integer, with the round trip through printing.

  \<^bold>\<open>Memory.\<close> \<open>MemPool\<close> (\<^verbatim>\<open>memory/MemPool.cpp\<close>, \<^verbatim>\<open>MemPool2.cpp\<close>; locale \<open>object_pool\<close>) hands out
  each node to one owner at a time. \<open>SmartPtr\<close> (\<^verbatim>\<open>stl/shared_ptr.cpp\<close>, \<^verbatim>\<open>shared_ptr_2.cpp\<close>; locale
  \<open>counted_pointer\<close>) and \<open>WeakPtr\<close> (\<^verbatim>\<open>base/weak_ptr_impl.cpp\<close>) keep a heap of objects and counters: an object lives
  exactly as long as a strong pointer to it, and nothing is freed twice or leaked. Counters are exact
  integers, because each unit is a variable that is alive.

  \<^bold>\<open>Time caches.\<close> \<open>TimeCache\<close> (\<^verbatim>\<open>cas_time_cache.cpp\<close>, \<^verbatim>\<open>atomic_time_cache.cpp\<close>; locale \<open>time_codec\<close>) and
  \<open>TimeCacheRw\<close> (\<^verbatim>\<open>rwlock_time_cache.cpp\<close>; locale \<open>cached_clock\<close>), all in
  \<^verbatim>\<open>cpp_language/old/gettimeofday\<close>: readers see the last update, never half of one, and time does not
  run backwards.

  \<^bold>\<open>Threads.\<close> \<open>SafeQueue\<close> (\<^verbatim>\<open>stl/safeQueue.cpp\<close>): the blocking queue is first in first out in
  every interleaving, and the window in which a notification is lost. \<open>ThreadPool\<close> (\<^verbatim>\<open>thread/ThreadPool.cpp\<close>): every
  task is executed exactly once, no wake-up is lost, and the destructor ends; the measure is
  \<open>weight\<close>. \<open>Philosophers\<close> (\<^verbatim>\<open>thread/eat_think.cpp\<close>, \<^verbatim>\<open>four_philosopher.cpp\<close>): exclusion, freedom from
  deadlock with a livelock, and the deadlock of the second program.

  \<^bold>\<open>Servers\<close> (\<^verbatim>\<open>cpp_language/my_reactor\<close>). \<open>Reactor\<close> is the event loop of \<^verbatim>\<open>my_reactor_c.cpp\<close>: for all outcomes
  of the system calls it echoes what it receives and its event array agrees with the interest list
  of the kernel. \<open>ReactorServer\<close> is \<^verbatim>\<open>my_reactor_server.cpp\<close> with its event loop, its accepting
  thread and its workers: no client is lost, and what \<^verbatim>\<open>stop\<close> and failed sends do.

  \<^bold>\<open>Linked lists.\<close> \<open>ListHeap\<close> has list nodes on a heap and what a list of pointers to them is; \<open>ListCycle\<close> (the
  two pointers of different speed, shown to meet at the entry of the cycle), \<open>ListAdd\<close> (numbers as lists of digits)
  and \<open>ListMerge\<close> (merging of two and of k lists) prove the exercises of \<^verbatim>\<open>online_judge\<close> on it.

  \<^bold>\<open>More trees and exercises.\<close> \<open>TreeMains\<close> runs the main functions of the trees, \<open>TreePrograms\<close> and
  \<open>RangeSearch\<close> have the exercises on trees and sorted ranges; the latter is a further interpretation of
  \<open>sorted_search\<close>. \<open>Median\<close>, \<open>QuickSelect\<close>, \<open>SpiralOrder\<close>, \<open>ThreeSum\<close>, \<open>Knapsack\<close>, \<open>ArrayScans\<close>,
  \<open>ArrayMaps\<close>, \<open>ArrayPrograms\<close>, \<open>SlidingWindow\<close>, \<open>UglyNumbers\<close> and \<open>NumberPrograms\<close> prove one
  exercise or program each against a specification that does not mention its method (the median of the sorted
  union, the k-th largest element, every cell once, the best value of a subset). \<open>Median\<close> also has the median of a stream, which keeps its two halves in
  queues of the locale \<open>priority_queue\<close>; \<open>CycleQueue\<close> is the circular queue, of the locale \<open>bounded_queue\<close>.

  \<^bold>\<open>More strings and classes.\<close> \<open>StringClass\<close> (\<^verbatim>\<open>string/string_class.cpp\<close>) and \<open>VectorClass\<close>
  (\<^verbatim>\<open>stl/vector.cpp\<close>) refine lists, the latter with the cost of its reallocations; \<open>ReverseWords\<close>, \<open>StringPrograms\<close>,
  \<open>CStrings\<close> and \<open>WordReader\<close> are the programs of \<^verbatim>\<open>cpp/string\<close>. \<open>IntrusivePtr\<close> (\<^verbatim>\<open>stl/smartpointer.h\<close>)
  counts inside the object. \<open>Flyweight\<close> makes the points of the board a linear order, as the map of the source does;
  \<open>Patterns\<close> has the scope guard and the chain of handlers; \<open>Singletons\<close> all singletons of \<^verbatim>\<open>design_pattern\<close>, alone and
  between threads.

  \<^bold>\<open>More threads.\<close> \<open>TaskPools\<close> and \<open>TaskPool1\<close> are the task pools; \<open>Turns\<close> (locale
  \<open>turn_taking\<close>) the programs that print in turn; \<open>Producers\<close> (locale \<open>channel\<close>) producers, consumers and
  the semaphore; \<open>SafeQueue2\<close> the second blocking queue, whose wait has its predicate the wrong way round; \<open>TimeThread\<close>
  the time cache without locks; \<open>TimeCacheRwTest\<close> the test program of the cache with a lock; \<open>ReadyFlag\<close> two programs
  with a flag and a condition variable: one in which a chain of notifications loses no wake-up, one in which nothing ever waits.

  \<^bold>\<open>Lemmas.\<close> In each theory the definitions come first, in the order of the source; then the invariant and
  its preservation by each operation; then the functional behaviour of each operation; then the
  theorems, each with a witness that applies it to concrete data. The simplification rules for checked
  accesses are the collection \<open>vec_simps\<close>.

  \<^bold>\<open>Not modelled.\<close> Programs that only call or print features of the language or of a library
  (\<^verbatim>\<open>base/threadtest\<close>, \<^verbatim>\<open>boost\<close>, the factories, decorators and observers of \<^verbatim>\<open>design_pattern\<close>, the
  demonstrations of casts, virtual functions, moves and iterators); programs around processes, sockets, processor
  affinity and the vDSO, whose content is the sequence of system calls; \<^verbatim>\<open>cpu/backup\<close>, older copies of a test program that is
  modelled, and \<^verbatim>\<open>atomic_time_cache.cpp\<close>, the same bytes as \<^verbatim>\<open>cas_time_cache.cpp\<close>; \<^verbatim>\<open>memory/MemPool3.cpp\<close>, the third \<open>atoi\<close> and
  the exercises of \<^verbatim>\<open>online_judge\<close> whose bodies are empty, unfinished or do not compile; the code in other languages. Functions on
  floating-point numbers (the square roots on \<^verbatim>\<open>double\<close> in \<^verbatim>\<open>math/sqrt.cpp\<close>, \<^verbatim>\<open>time\<close>) are left out because
  their results depend on rounding.
\<close>

end
